(* ===== verification/CE_Prelude.thy ===== *)
theory CE_Prelude imports "HOL-Library.Word" "HOL-Library.Multiset" begin

text \<open>
  Shared vocabulary of the development: the fixed-width integer types of the engine
  (keys, values and statistics counters are \<^verbatim>\<open>std::uint64_t\<close>), the fact collections the
  component proofs draw on, and generic lemmas on lists and words.

  Container sizes and indices (\<^verbatim>\<open>std::size_t\<close>) are natural numbers wherever the code derives
  them from the length of a container, which no implementation lets reach \<open>2 ^ 64\<close>; they are
  words where the code stores them in a counter or computes with them modulo \<open>2 ^ 64\<close>.
\<close>

unbundle bit_operations_syntax

type_synonym u8 = "8 word"
type_synonym u16 = "16 word"
type_synonym u32 = "32 word"
type_synonym u64 = "64 word"

named_theorems organ_defs "definitions of the operations of the organs"
named_theorems organ_inv "preservation of the organs' invariants"
named_theorems organ_abs "effect of the operations on the abstract content"

section \<open>Lists\<close>

text \<open>Erasing the element at an index: \<^verbatim>\<open>v.erase(v.begin() + i)\<close>.\<close>
definition erase_at :: "nat \<Rightarrow> 'a list \<Rightarrow> 'a list" where
  "erase_at i xs = take i xs @ drop (Suc i) xs"

text \<open>Inserting before an index: \<^verbatim>\<open>v.insert(v.begin() + i, x)\<close>.\<close>
definition insert_at :: "nat \<Rightarrow> 'a \<Rightarrow> 'a list \<Rightarrow> 'a list" where
  "insert_at i x xs = take i xs @ x # drop i xs"

lemma length_erase_at [simp]: "i < length xs \<Longrightarrow> length (erase_at i xs) = length xs - 1"
  by (simp add: erase_at_def)

lemma length_insert_at [simp]: "i \<le> length xs \<Longrightarrow> length (insert_at i x xs) = Suc (length xs)"
  by (simp add: insert_at_def)

lemma map_erase_at: "map f (erase_at i xs) = erase_at i (map f xs)"
  by (simp add: erase_at_def take_map drop_map)

lemma map_insert_at: "map f (insert_at i x xs) = insert_at i (f x) (map f xs)"
  by (simp add: insert_at_def take_map drop_map)

lemma erase_at_0 [simp]: "erase_at 0 xs = tl xs"
  by (simp add: erase_at_def drop_Suc)

lemma erase_at_last: "erase_at (length xs - 1) xs = butlast xs"
  by (cases xs rule: rev_cases) (simp_all add: erase_at_def)

lemma split_at_index: "i < length xs \<Longrightarrow> xs = take i xs @ xs ! i # drop (Suc i) xs"
  by (simp add: id_take_nth_drop)

lemma upt_split: "i \<le> j \<Longrightarrow> j \<le> k \<Longrightarrow> [i..<k] = [i..<j] @ [j..<k]"
  by (metis le_Suc_ex upt_add_eq_append)

lemma nth_update_cases: "xs[i := x] ! j = (if j = i \<and> i < length xs then x else xs ! j)"
  by (cases "i < length xs") (auto simp: nth_list_update list_update_beyond)

section \<open>Words\<close>

lemma word_of_nat_Suc: "(word_of_nat (Suc n) :: 'a::len word) = word_of_nat n + 1"
  by simp

lemma unat_and_mask: "unat ((w :: 'a::len word) AND mask k) = unat w mod 2 ^ k"
  by (simp only: take_bit_eq_mask [symmetric] unsigned_take_bit_eq) (rule take_bit_eq_mod)

lemma unat_word_of_nat: "n < 2 ^ LENGTH('a) \<Longrightarrow> unat (word_of_nat n :: 'a::len word) = n"
  by (simp add: unsigned_of_nat take_bit_nat_eq_self)

lemma word_of_nat_mono: "m \<le> n \<Longrightarrow> n < 2 ^ LENGTH('a) \<Longrightarrow> (word_of_nat m :: 'a::len word) \<le> word_of_nat n"
  by (simp add: word_le_nat_alt unat_word_of_nat)

lemma word_of_nat_inj_diff:
  assumes "m \<le> n" "n - m < 2 ^ LENGTH('a)"
  shows "unat (word_of_nat n - word_of_nat m :: 'a::len word) = n - m"
proof -
  have "(word_of_nat n - word_of_nat m :: 'a word) = word_of_nat (n - m)"
    using assms(1) by simp
  then show ?thesis using assms(2) by (simp add: unsigned_of_nat take_bit_nat_eq_self)
qed

section \<open>Powers of two\<close>

lemma nat_odd_part: "0 < (n :: nat) \<Longrightarrow> \<exists>k m. n = 2 ^ k * m \<and> odd m"
proof (induction n rule: less_induct)
  case (less n)
  show ?case
  proof (cases "odd n")
    case True
    then show ?thesis by (intro exI [of _ 0] exI [of _ n]) simp
  next
    case False
    then obtain n' where n': "n = 2 * n'" by (auto elim: evenE)
    then obtain k m where "n' = 2 ^ k * m" "odd m" using less.IH [of n'] less.prems by auto
    then show ?thesis using n' by (intro exI [of _ "Suc k"] exI [of _ m]) simp
  qed
qed

lemma odd_and_pred: "odd m \<Longrightarrow> m AND (m - 1) = m - (1 :: nat)"
  by (elim oddE) (simp add: and_rec [of "Suc (2 * _)"])

text \<open>The classical test: \<open>n\<close> and \<open>n - 1\<close> share no bit exactly for powers of two.\<close>
lemma nat_and_pred_zero:
  assumes "0 < n" "n AND (n - 1) = 0"
  shows "\<exists>k. n = (2 :: nat) ^ k"
proof -
  obtain k m where n: "n = 2 ^ k * m" "odd m" using nat_odd_part [OF assms(1)] by blast
  obtain a where a: "m = 2 * a + 1" using n(2) by (elim oddE)
  have "n - 1 = 2 ^ k * (2 * a) + (2 ^ k - 1)" using n a by (simp add: algebra_simps)
  moreover have "(2 ^ k * (2 * a) + (2 ^ k - 1)) div 2 ^ k = 2 * a"
  proof -
    have p: "0 < (2 :: nat) ^ k" by simp
    show ?thesis
    proof (rule div_nat_eqI)
      show "2 ^ k * (2 * a) \<le> 2 ^ k * (2 * a) + (2 ^ k - 1)" by (rule le_add1)
      show "2 ^ k * (2 * a) + (2 ^ k - 1) < 2 ^ k * Suc (2 * a)"
        unfolding mult_Suc_right using p by linarith
    qed
  qed
  ultimately have "drop_bit k (n - 1) = 2 * a" by (simp only: drop_bit_eq_div)
  moreover have "drop_bit k n = m" using n by (simp add: drop_bit_eq_div)
  ultimately have "drop_bit k (n AND (n - 1)) = m AND (2 * a)" by (simp only: drop_bit_and)
  then have "m AND (m - 1) = 0" unfolding assms(2) using a by simp
  then have "m = 1" using odd_and_pred [OF n(2)] a by simp
  then show ?thesis using n by auto
qed

lemma word_and_pred_zero:
  fixes w :: "'a::len word"
  assumes "w \<noteq> 0" "w AND (w - 1) = 0"
  shows "\<exists>k < LENGTH('a). w = 2 ^ k"
proof -
  have pos: "0 < unat w" using assms(1) by (simp add: unat_gt_0)
  have "unat (w - 1) = unat w - 1" using pos by (simp add: unat_minus_one assms(1))
  then have "unat w AND (unat w - 1) = 0"
    using assms(2) by (metis unsigned_0 unsigned_and_eq)
  then obtain k where k: "unat w = 2 ^ k" using nat_and_pred_zero [OF pos] by blast
  have "unat w < 2 ^ LENGTH('a)" by simp
  then have lt: "k < LENGTH('a)" unfolding k by (rule power_less_imp_less_exp [rotated]) simp
  have "w = word_of_nat (unat w)" by simp
  then have "w = word_of_nat (2 ^ k)" unfolding k .
  then show ?thesis using lt by (intro exI [of _ k]) simp
qed

end
