(* ===== verification/Buffer_Contract.thy ===== *)
theory Buffer_Contract imports CE_Prelude begin

text \<open>
  The contract of the Q1 queueing axis (\<^verbatim>\<open>organ_axes/axis_q1_queuing\<close>): the statistics record
  every buffer carries, the shared bookkeeping on it, and the interfaces a buffer organ offers.

  A buffer is described by an invariant \<open>inv\<close> and by its \<open>content\<close>, the stored elements in the
  order in which \<^verbatim>\<open>get\<close> will deliver them.  With this view every organ of the axis satisfies
  the same law for \<^verbatim>\<open>get\<close> (deliver the head) and the organs differ only in where \<^verbatim>\<open>put\<close>
  places an element: at the end (FIFO), at the front (LIFO), by priority, or nowhere.

  \<^item> \<open>q1_buffer\<close>: invariant, \<^verbatim>\<open>get\<close>, \<^verbatim>\<open>clear\<close>; draining delivers the content.
  \<^item> \<open>q1_placing\<close>: \<^verbatim>\<open>put\<close> acts on the content as \<open>place\<close>; every sequence of calls
    gives the outputs of the abstract queue \<open>spec_run place\<close>.
  \<^item> \<open>q1_fifo\<close>, \<open>q1_lifo\<close>: the two unbounded disciplines.
  \<^item> \<open>q1_observed\<close>: \<^verbatim>\<open>size\<close>, \<^verbatim>\<open>is_empty\<close> and the two peeks read the content.
  \<^item> \<open>q1_accounted\<close>: the statistics balance with the content.
  \<^item> \<open>q1_budgeted\<close>: the same for operations that may fail to return, for a bounded number of calls.
\<close>

section \<open>Statistics\<close>

text \<open>\<^verbatim>\<open>BufferStatistics\<close>; the field \<^verbatim>\<open>avg_occupancy\<close> (a \<^verbatim>\<open>double\<close>) is never written by any
  buffer and is left out.\<close>
record buffer_stats =
  total_put_count :: u64
  total_get_count :: u64
  overflow_count  :: u64
  underflow_count :: u64
  peak_size       :: u64

definition stats_zero :: buffer_stats where
  "stats_zero = \<lparr>total_put_count = 0, total_get_count = 0, overflow_count = 0,
                 underflow_count = 0, peak_size = 0\<rparr>"

text \<open>The state all buffers share: the member \<^verbatim>\<open>stats_\<close>.\<close>
record q1_base =
  q1_stats :: buffer_stats

definition bump_peak :: "nat \<Rightarrow> buffer_stats \<Rightarrow> buffer_stats" where
  "bump_peak n s = (if peak_size s < word_of_nat n then s\<lparr>peak_size := word_of_nat n\<rparr> else s)"

text \<open>After a successful \<^verbatim>\<open>put\<close> that left \<open>n\<close> elements.\<close>
definition note_put :: "nat \<Rightarrow> 'z q1_base_scheme \<Rightarrow> 'z q1_base_scheme" where
  "note_put n b = b\<lparr>q1_stats := bump_peak n
     ((q1_stats b)\<lparr>total_put_count := total_put_count (q1_stats b) + 1\<rparr>)\<rparr>"

definition note_get :: "'z q1_base_scheme \<Rightarrow> 'z q1_base_scheme" where
  "note_get b = b\<lparr>q1_stats := (q1_stats b)\<lparr>total_get_count := total_get_count (q1_stats b) + 1\<rparr>\<rparr>"

definition note_overflow :: "'z q1_base_scheme \<Rightarrow> 'z q1_base_scheme" where
  "note_overflow b = b\<lparr>q1_stats := (q1_stats b)\<lparr>overflow_count := overflow_count (q1_stats b) + 1\<rparr>\<rparr>"

definition note_underflow :: "'z q1_base_scheme \<Rightarrow> 'z q1_base_scheme" where
  "note_underflow b = b\<lparr>q1_stats := (q1_stats b)\<lparr>underflow_count := underflow_count (q1_stats b) + 1\<rparr>\<rparr>"

text \<open>\<^verbatim>\<open>reset()\<close> of every buffer: the statistics return to zero, the content stays.\<close>
definition q1_reset :: "'z q1_base_scheme \<Rightarrow> 'z q1_base_scheme" where
  "q1_reset b = b\<lparr>q1_stats := stats_zero\<rparr>"

lemmas stats_defs = note_put_def note_get_def note_overflow_def note_underflow_def
  bump_peak_def q1_reset_def stats_zero_def

lemma bump_peak_counts [simp]:
  "total_put_count (bump_peak n s) = total_put_count s"
  "total_get_count (bump_peak n s) = total_get_count s"
  "overflow_count (bump_peak n s) = overflow_count s"
  "underflow_count (bump_peak n s) = underflow_count s"
  by (simp_all add: bump_peak_def)

lemma note_counts [simp]:
  "total_put_count (q1_stats (note_put n b)) = total_put_count (q1_stats b) + 1"
  "total_get_count (q1_stats (note_put n b)) = total_get_count (q1_stats b)"
  "overflow_count (q1_stats (note_put n b)) = overflow_count (q1_stats b)"
  "underflow_count (q1_stats (note_put n b)) = underflow_count (q1_stats b)"
  "total_put_count (q1_stats (note_get b)) = total_put_count (q1_stats b)"
  "total_get_count (q1_stats (note_get b)) = total_get_count (q1_stats b) + 1"
  "overflow_count (q1_stats (note_get b)) = overflow_count (q1_stats b)"
  "underflow_count (q1_stats (note_get b)) = underflow_count (q1_stats b)"
  "total_put_count (q1_stats (note_overflow b)) = total_put_count (q1_stats b)"
  "total_get_count (q1_stats (note_overflow b)) = total_get_count (q1_stats b)"
  "overflow_count (q1_stats (note_overflow b)) = overflow_count (q1_stats b) + 1"
  "underflow_count (q1_stats (note_overflow b)) = underflow_count (q1_stats b)"
  "total_put_count (q1_stats (note_underflow b)) = total_put_count (q1_stats b)"
  "total_get_count (q1_stats (note_underflow b)) = total_get_count (q1_stats b)"
  "overflow_count (q1_stats (note_underflow b)) = overflow_count (q1_stats b)"
  "underflow_count (q1_stats (note_underflow b)) = underflow_count (q1_stats b) + 1"
  by (simp_all add: note_put_def note_get_def note_overflow_def note_underflow_def)

lemma peak_note_put: "peak_size (q1_stats (note_put n b)) = max (peak_size (q1_stats b)) (word_of_nat n)"
  by (auto simp: note_put_def bump_peak_def max_def)

text \<open>The \<^verbatim>\<open>std::invalid_argument\<close> exceptions of the bounded buffers.\<close>
datatype q1_error = Capacity_Zero | Capacity_Not_Power_Of_Two

section \<open>Clients of a buffer\<close>

text \<open>Repeated \<^verbatim>\<open>put\<close>, and up to \<open>n\<close> calls of \<^verbatim>\<open>get\<close> until the buffer reports empty.\<close>
primrec put_all :: "(u64 \<Rightarrow> 'b \<Rightarrow> 'b) \<Rightarrow> u64 list \<Rightarrow> 'b \<Rightarrow> 'b" where
  "put_all put [] b = b"
| "put_all put (v # vs) b = put_all put vs (put v b)"

primrec drain :: "('b \<Rightarrow> u64 option \<times> 'b) \<Rightarrow> nat \<Rightarrow> 'b \<Rightarrow> u64 list \<times> 'b" where
  "drain get 0 b = ([], b)"
| "drain get (Suc n) b = (case get b of
     (None, b') \<Rightarrow> ([], b')
   | (Some v, b') \<Rightarrow> (case drain get n b' of (vs, b'') \<Rightarrow> (v # vs, b'')))"

text \<open>An arbitrary sequence of calls, with the results of the \<^verbatim>\<open>get\<close>s.\<close>
datatype q1_op = Put u64 | Get | Clear

primrec q1_run :: "(u64 \<Rightarrow> 'b \<Rightarrow> 'b) \<Rightarrow> ('b \<Rightarrow> u64 option \<times> 'b) \<Rightarrow> ('b \<Rightarrow> 'b)
    \<Rightarrow> q1_op list \<Rightarrow> 'b \<Rightarrow> u64 option list \<times> 'b" where
  "q1_run put get clr [] b = ([], b)"
| "q1_run put get clr (op # ops) b = (case op of
     Put v \<Rightarrow> q1_run put get clr ops (put v b)
   | Get \<Rightarrow> (case q1_run put get clr ops (snd (get b)) of (rs, b') \<Rightarrow> (fst (get b) # rs, b'))
   | Clear \<Rightarrow> q1_run put get clr ops (clr b))"

text \<open>The same for operations that may fail to return: None when one of the calls does.\<close>
primrec q1_try :: "(u64 \<Rightarrow> 'b \<Rightarrow> 'b option) \<Rightarrow> ('b \<Rightarrow> (u64 option \<times> 'b) option) \<Rightarrow> ('b \<Rightarrow> 'b)
    \<Rightarrow> q1_op list \<Rightarrow> 'b \<Rightarrow> (u64 option list \<times> 'b) option" where
  "q1_try put get clr [] b = Some ([], b)"
| "q1_try put get clr (op # ops) b = (case op of
     Put v \<Rightarrow> Option.bind (put v b) (q1_try put get clr ops)
   | Get \<Rightarrow> Option.bind (get b) (\<lambda>(r, b'). map_option (\<lambda>(rs, b''). (r # rs, b'')) (q1_try put get clr ops b'))
   | Clear \<Rightarrow> q1_try put get clr ops (clr b))"

text \<open>The abstract queue: a list in delivery order, where \<^verbatim>\<open>put\<close> acts as \<open>place\<close>.\<close>
definition head_opt :: "'a list \<Rightarrow> 'a option" where
  "head_opt q = (case q of [] \<Rightarrow> None | x # _ \<Rightarrow> Some x)"

definition last_opt :: "'a list \<Rightarrow> 'a option" where
  "last_opt q = (if q = [] then None else Some (last q))"

definition spec_get :: "u64 list \<Rightarrow> u64 option \<times> u64 list" where
  "spec_get q = (head_opt q, tl q)"

definition spec_run :: "(u64 \<Rightarrow> u64 list \<Rightarrow> u64 list) \<Rightarrow> q1_op list \<Rightarrow> u64 list
    \<Rightarrow> u64 option list \<times> u64 list" where
  "spec_run place = q1_run place spec_get (\<lambda>_. [])"

text \<open>The disciplines of the axis.\<close>
definition place_last :: "u64 \<Rightarrow> u64 list \<Rightarrow> u64 list" where
  "place_last v q = q @ [v]"

definition place_first :: "u64 \<Rightarrow> u64 list \<Rightarrow> u64 list" where
  "place_first v q = v # q"

definition place_drop_oldest :: "nat \<Rightarrow> u64 \<Rightarrow> u64 list \<Rightarrow> u64 list" where
  "place_drop_oldest cap v q = (if length q < cap then q @ [v] else tl q @ [v])"

definition place_reject_new :: "nat \<Rightarrow> u64 \<Rightarrow> u64 list \<Rightarrow> u64 list" where
  "place_reject_new cap v q = (if length q < cap then q @ [v] else q)"

lemma head_opt_simps [simp]: "head_opt [] = None" "head_opt (x # xs) = Some x"
  by (simp_all add: head_opt_def)

lemma head_opt_None [simp]: "head_opt q = None \<longleftrightarrow> q = []"
  by (cases q) simp_all

lemma head_opt_hd: "q \<noteq> [] \<Longrightarrow> head_opt q = Some (hd q)"
  by (cases q) simp_all

lemma last_opt_simps [simp]: "last_opt [] = None" "last_opt (xs @ [x]) = Some x"
  by (simp_all add: last_opt_def)

lemma fold_place_last: "fold place_last vs q = q @ vs"
  by (induction vs arbitrary: q) (simp_all add: place_last_def)

lemma fold_place_first: "fold place_first vs q = rev vs @ q"
  by (induction vs arbitrary: q) (simp_all add: place_first_def)

lemma fold_place_reject_new: "length q \<le> cap \<Longrightarrow>
    fold (place_reject_new cap) vs q = take cap (q @ vs)"
  by (induction vs arbitrary: q) (auto simp: place_reject_new_def take_Cons')

lemma drop_tl_snoc: "length q = cap \<Longrightarrow> 0 < cap \<Longrightarrow> tl q @ [v] = drop (length (q @ [v]) - cap) (q @ [v])"
  by (cases q) simp_all

lemma fold_place_drop_oldest: "length q \<le> cap \<Longrightarrow> 0 < cap \<Longrightarrow>
    fold (place_drop_oldest cap) vs q = drop (length q + length vs - cap) (q @ vs)"
proof (induction vs arbitrary: q)
  case (Cons v vs)
  show ?case
  proof (cases "length q < cap")
    case True
    then show ?thesis using Cons.IH [of "q @ [v]"] Cons.prems by (simp add: place_drop_oldest_def)
  next
    case False
    then have l: "length q = cap" using Cons.prems by simp
    then obtain x q' where q: "q = x # q'" using Cons.prems by (cases q) auto
    show ?thesis using Cons.IH [of "q' @ [v]"] Cons.prems l q
      by (auto simp: place_drop_oldest_def drop_Cons')
  qed
qed simp

section \<open>The contract\<close>

locale q1_buffer =
  fixes inv :: "'b \<Rightarrow> bool"
    and content :: "'b \<Rightarrow> u64 list"
    and get :: "'b \<Rightarrow> u64 option \<times> 'b"
    and clr :: "'b \<Rightarrow> 'b"
  assumes get_inv: "inv b \<Longrightarrow> inv (snd (get b))"
    and get_head: "inv b \<Longrightarrow> fst (get b) = head_opt (content b)"
    and get_tail: "inv b \<Longrightarrow> content (snd (get b)) = tl (content b)"
    and clr_inv: "inv b \<Longrightarrow> inv (clr b)"
    and clr_content: "inv b \<Longrightarrow> content (clr b) = []"
begin

lemma drain_step:
  assumes "inv b"
  shows "drain get (Suc n) b = (case content b of
      [] \<Rightarrow> ([], snd (get b))
    | x # _ \<Rightarrow> (x # fst (drain get n (snd (get b))), snd (drain get n (snd (get b)))))"
  using get_head [OF assms] by (cases "get b") (auto split: list.splits option.splits prod.splits)

lemma drain_inv: "inv b \<Longrightarrow> inv (snd (drain get n b))"
proof (induction n arbitrary: b)
  case (Suc n)
  show ?case using Suc.IH [OF get_inv [OF Suc.prems]] get_inv [OF Suc.prems]
    unfolding drain_step [OF Suc.prems] by (simp split: list.splits)
qed simp

lemma drain_take:
  "inv b \<Longrightarrow> fst (drain get n b) = take n (content b) \<and> content (snd (drain get n b)) = drop n (content b)"
proof (induction n arbitrary: b)
  case (Suc n)
  show ?case
    using Suc.IH [OF get_inv [OF Suc.prems]] get_tail [OF Suc.prems]
    unfolding drain_step [OF Suc.prems] by (simp split: list.splits)
qed simp

lemma drain_all:
  assumes "inv b" "length (content b) \<le> n"
  shows "fst (drain get n b) = content b" and "content (snd (drain get n b)) = []"
  using drain_take [OF assms(1), of n] assms(2) by simp_all

end

locale q1_placing = q1_buffer inv content get clr
  for inv :: "'b \<Rightarrow> bool" and content get clr +
  fixes put :: "u64 \<Rightarrow> 'b \<Rightarrow> 'b"
    and place :: "u64 \<Rightarrow> u64 list \<Rightarrow> u64 list"
  assumes put_inv: "inv b \<Longrightarrow> inv (put v b)"
    and put_content: "inv b \<Longrightarrow> content (put v b) = place v (content b)"
begin

lemma put_all_inv: "inv b \<Longrightarrow> inv (put_all put vs b)"
  by (induction vs arbitrary: b) (simp_all add: put_inv)

lemma put_all_content: "inv b \<Longrightarrow> content (put_all put vs b) = fold place vs (content b)"
  by (induction vs arbitrary: b) (simp_all add: put_inv put_content)

lemma put_all_drain:
  assumes "inv b" "length (fold place vs (content b)) \<le> n"
  shows "fst (drain get n (put_all put vs b)) = fold place vs (content b)"
  using drain_all [OF put_all_inv [OF assms(1)], of vs n] assms by (simp add: put_all_content)

text \<open>Every sequence of calls refines the abstract queue.\<close>
lemma run_refines:
  "inv b \<Longrightarrow> inv (snd (q1_run put get clr ops b))
     \<and> fst (q1_run put get clr ops b) = fst (spec_run place ops (content b))
     \<and> content (snd (q1_run put get clr ops b)) = snd (spec_run place ops (content b))"
proof (induction ops arbitrary: b)
  case (Cons op ops)
  then show ?case
    by (cases op) (simp_all add: spec_run_def spec_get_def put_inv put_content get_inv get_head
        get_tail clr_inv clr_content split_def)
qed (simp add: spec_run_def)

lemma run_inv: "inv b \<Longrightarrow> inv (snd (q1_run put get clr ops b))"
  using run_refines by blast

lemma run_outputs:
  "inv b \<Longrightarrow> content b = q \<Longrightarrow> fst (q1_run put get clr ops b) = fst (spec_run place ops q)"
  using run_refines by blast

end


section \<open>Disciplines, observers, accounting\<close>

locale q1_fifo = q1_placing inv content get clr put place_last
  for inv :: "'b \<Rightarrow> bool" and content get clr put
begin

lemma fifo_round_trip:
  assumes "inv b" "content b = []" "length vs \<le> n"
  shows "fst (drain get n (put_all put vs b)) = vs"
  using put_all_drain [OF assms(1), of vs n] assms(2,3) by (simp add: fold_place_last)

end

locale q1_lifo = q1_placing inv content get clr put place_first
  for inv :: "'b \<Rightarrow> bool" and content get clr put
begin

lemma lifo_round_trip:
  assumes "inv b" "content b = []" "length vs \<le> n"
  shows "fst (drain get n (put_all put vs b)) = rev vs"
  using put_all_drain [OF assms(1), of vs n] assms(2,3) by (simp add: fold_place_first)

end

locale q1_observed = q1_buffer inv content get clr
  for inv :: "'b \<Rightarrow> bool" and content get clr +
  fixes size_of :: "'b \<Rightarrow> nat"
    and is_empty :: "'b \<Rightarrow> bool"
    and peek_front :: "'b \<Rightarrow> u64 option"
    and peek_back :: "'b \<Rightarrow> u64 option"
  assumes size_content: "inv b \<Longrightarrow> size_of b = length (content b)"
    and empty_content: "inv b \<Longrightarrow> is_empty b \<longleftrightarrow> content b = []"
    and peek_front_content: "inv b \<Longrightarrow> peek_front b = head_opt (content b)"
    and peek_back_content: "inv b \<Longrightarrow> peek_back b = last_opt (content b)"
begin

text \<open>What \<^verbatim>\<open>peek_front\<close> shows is what the next \<^verbatim>\<open>get\<close> delivers, and \<^verbatim>\<open>size\<close> predicts
  how many calls succeed.\<close>
lemma peek_predicts_get: "inv b \<Longrightarrow> fst (get b) = peek_front b"
  by (simp add: get_head peek_front_content)

lemma empty_iff_get_fails: "inv b \<Longrightarrow> is_empty b \<longleftrightarrow> fst (get b) = None"
  by (simp add: get_head empty_content)

lemma size_after_get: "inv b \<Longrightarrow> size_of (snd (get b)) = size_of b - 1"
  by (simp add: size_content get_inv get_tail)

lemma clear_is_empty: "inv b \<Longrightarrow> is_empty (clr b)"
  by (simp add: empty_content clr_inv clr_content)

lemma drain_size: "inv b \<Longrightarrow> length (fst (drain get (size_of b) b)) = size_of b"
  by (simp add: drain_take size_content)

end

text \<open>The element flow the statistics record; a ring that evicts counts the evicted elements as
  overflow, the other bounded buffers do not count a rejected element as put.\<close>
definition flow :: "bool \<Rightarrow> buffer_stats \<Rightarrow> u64" where
  "flow evicts s = total_put_count s - (if evicts then overflow_count s else 0) - total_get_count s"

lemma flow_get: "flow e (s\<lparr>total_get_count := total_get_count s + 1\<rparr>) = flow e s - 1"
  by (simp add: flow_def algebra_simps)

lemma flow_zero [simp]: "flow e stats_zero = 0"
  by (simp add: flow_def stats_zero_def)

lemma flow_underflow [simp]: "flow e (s\<lparr>underflow_count := u\<rparr>) = flow e s"
  by (simp add: flow_def)

locale q1_accounted = q1_placing inv content get clr put place
  for inv :: "'b \<Rightarrow> bool" and content get clr put place +
  fixes stats :: "'b \<Rightarrow> buffer_stats"
    and evicts :: bool
  assumes put_stats: "inv b \<Longrightarrow>
      total_get_count (stats (put v b)) = total_get_count (stats b)
      \<and> underflow_count (stats (put v b)) = underflow_count (stats b)"
    and put_balance: "inv b \<Longrightarrow>
      flow evicts (stats (put v b)) - word_of_nat (length (content (put v b)))
      = flow evicts (stats b) - word_of_nat (length (content b))"
    and get_stats: "inv b \<Longrightarrow> stats (snd (get b)) = (if content b = []
      then (stats b)\<lparr>underflow_count := underflow_count (stats b) + 1\<rparr>
      else (stats b)\<lparr>total_get_count := total_get_count (stats b) + 1\<rparr>)"
    and clr_stats: "stats (clr b) = stats b"
begin

lemma run_counts:
  "inv b \<Longrightarrow>
     total_get_count (stats (snd (q1_run put get clr ops b)))
       = total_get_count (stats b)
         + word_of_nat (length (filter (\<lambda>r. r \<noteq> None) (fst (q1_run put get clr ops b))))
   \<and> underflow_count (stats (snd (q1_run put get clr ops b)))
       = underflow_count (stats b)
         + word_of_nat (length (filter (\<lambda>r. r = None) (fst (q1_run put get clr ops b))))"
proof (induction ops arbitrary: b)
  case (Cons op ops)
  then show ?case
    by (cases op) (simp_all add: put_inv put_stats get_inv get_stats get_head clr_inv clr_stats split_def)
qed simp

text \<open>Elements are neither invented nor lost: what went in, less what was evicted and delivered, is
  what is stored.\<close>
lemma run_balance:
  "inv b \<Longrightarrow> Clear \<notin> set ops \<Longrightarrow>
     flow evicts (stats (snd (q1_run put get clr ops b)))
       - word_of_nat (length (content (snd (q1_run put get clr ops b))))
     = flow evicts (stats b) - word_of_nat (length (content b))"
proof (induction ops arbitrary: b)
  case (Cons op ops)
  have get1: "flow evicts (stats (snd (get b))) - word_of_nat (length (content (snd (get b))))
     = flow evicts (stats b) - word_of_nat (length (content b))"
    using Cons.prems(1) by (cases "content b") (simp_all add: get_stats get_tail flow_get)
  show ?case
  proof (cases op)
    case (Put v)
    then show ?thesis
      using Cons.IH [OF put_inv [OF Cons.prems(1)]] Cons.prems put_balance [OF Cons.prems(1)] by simp
  next
    case Get
    then show ?thesis
      using Cons.IH [OF get_inv [OF Cons.prems(1)]] Cons.prems get1 by (simp add: split_def)
  next
    case Clear
    then show ?thesis using Cons.prems by simp
  qed
qed simp

lemma fresh_balance:
  assumes "inv b" "content b = []" "stats b = stats_zero" "Clear \<notin> set ops"
    and "snd (q1_run put get clr ops b) = b'"
  shows "flow evicts (stats b') = word_of_nat (length (content b'))"
  using run_balance [OF assms(1,4)] assms by simp

end

section \<open>Buffers with a budget\<close>

text \<open>A buffer that keeps its promises for a bounded number of calls, such as one whose positions must
  not overflow: \<open>inv n\<close> allows \<open>n\<close> further calls, each of which returns.\<close>
locale q1_budgeted =
  fixes inv :: "nat \<Rightarrow> 'b \<Rightarrow> bool"
    and content :: "'b \<Rightarrow> u64 list"
    and get :: "'b \<Rightarrow> (u64 option \<times> 'b) option"
    and clr :: "'b \<Rightarrow> 'b"
    and put :: "u64 \<Rightarrow> 'b \<Rightarrow> 'b option"
    and place :: "u64 \<Rightarrow> u64 list \<Rightarrow> u64 list"
    and stats :: "'b \<Rightarrow> buffer_stats"
    and evicts :: bool
  assumes try_get: "inv (Suc n) b \<Longrightarrow> \<exists>b'. get b = Some (head_opt (content b), b') \<and> inv n b'
      \<and> content b' = tl (content b)
      \<and> flow evicts (stats b') - word_of_nat (length (content b')) = flow evicts (stats b) - word_of_nat (length (content b))"
    and try_put: "inv (Suc n) b \<Longrightarrow> \<exists>b'. put v b = Some b' \<and> inv n b' \<and> content b' = place v (content b)
      \<and> flow evicts (stats b') - word_of_nat (length (content b')) = flow evicts (stats b) - word_of_nat (length (content b))"
    and try_clr: "inv (Suc n) b \<Longrightarrow> inv n (clr b) \<and> content (clr b) = []"
begin

text \<open>Every sequence of calls within the budget returns and refines the abstract queue; without a
  \<^verbatim>\<open>clear\<close> in it, the statistics balance with the content.\<close>
lemma try_refines:
  "inv (length ops) b \<Longrightarrow> \<exists>b'. q1_try put get clr ops b = Some (fst (spec_run place ops (content b)), b') \<and> inv 0 b'
     \<and> content b' = snd (spec_run place ops (content b))
     \<and> (Clear \<notin> set ops \<longrightarrow> flow evicts (stats b') - word_of_nat (length (content b'))
          = flow evicts (stats b) - word_of_nat (length (content b)))"
proof (induction ops arbitrary: b)
  case (Cons op ops)
  have i: "inv (Suc (length ops)) b" using Cons.prems by simp
  show ?case
  proof (cases op)
    case (Put v)
    obtain b1 where b1: "put v b = Some b1" "inv (length ops) b1" "content b1 = place v (content b)"
      "flow evicts (stats b1) - word_of_nat (length (content b1)) = flow evicts (stats b) - word_of_nat (length (content b))"
      using try_put [OF i] by blast
    then show ?thesis using Cons.IH [OF b1(2)] by (simp add: Put spec_run_def)
  next
    case Get
    obtain b1 where b1: "get b = Some (head_opt (content b), b1)" "inv (length ops) b1" "content b1 = tl (content b)"
      "flow evicts (stats b1) - word_of_nat (length (content b1)) = flow evicts (stats b) - word_of_nat (length (content b))"
      using try_get [OF i] by blast
    obtain b2 where b2: "q1_try put get clr ops b1 = Some (fst (spec_run place ops (content b1)), b2)" "inv 0 b2"
      "content b2 = snd (spec_run place ops (content b1))"
      "Clear \<notin> set ops \<longrightarrow> flow evicts (stats b2) - word_of_nat (length (content b2))
         = flow evicts (stats b1) - word_of_nat (length (content b1))"
      using Cons.IH [OF b1(2)] by blast
    have "spec_run place (op # ops) (content b)
        = (head_opt (content b) # fst (spec_run place ops (content b1)), snd (spec_run place ops (content b1)))"
      by (simp add: Get spec_run_def spec_get_def split_def b1(3))
    then show ?thesis using b1 b2 by (simp add: Get)
  next
    case Clear
    then show ?thesis using Cons.IH [of "clr b"] try_clr [OF i] by (auto simp: Clear spec_run_def)
  qed
qed (simp add: spec_run_def)

lemma try_outputs:
  assumes "inv (length ops) b" "content b = q"
  shows "\<exists>b'. q1_try put get clr ops b = Some (fst (spec_run place ops q), b') \<and> content b' = snd (spec_run place ops q)"
  using try_refines [OF assms(1)] unfolding assms(2) by blast

lemma try_balance:
  assumes "inv (length ops) b" "content b = []" "stats b = stats_zero" "Clear \<notin> set ops"
  shows "\<exists>rs b'. q1_try put get clr ops b = Some (rs, b') \<and> inv 0 b' \<and> flow evicts (stats b') = word_of_nat (length (content b'))"
  using try_refines [OF assms(1)] assms(2-4) by force

end

text \<open>A buffer without such a limit has any budget.\<close>
sublocale q1_accounted \<subseteq> unlimited: q1_budgeted "\<lambda>_. inv" content "\<lambda>b. Some (get b)" clr "\<lambda>v b. Some (put v b)"
    place stats evicts
proof unfold_locales
  fix b v assume i: "inv b"
  have "flow evicts (stats (snd (get b))) - word_of_nat (length (content (snd (get b))))
      = flow evicts (stats b) - word_of_nat (length (content b))"
    using i by (cases "content b") (simp_all add: get_stats get_tail flow_get)
  then show "\<exists>b'. Some (get b) = Some (head_opt (content b), b') \<and> inv b' \<and> content b' = tl (content b)
      \<and> flow evicts (stats b') - word_of_nat (length (content b')) = flow evicts (stats b) - word_of_nat (length (content b))"
    using get_inv [OF i] get_head [OF i] get_tail [OF i] by (cases "get b") auto
  show "\<exists>b'. Some (put v b) = Some b' \<and> inv b' \<and> content b' = place v (content b)
      \<and> flow evicts (stats b') - word_of_nat (length (content b')) = flow evicts (stats b) - word_of_nat (length (content b))"
    using put_inv [OF i] put_content [OF i] put_balance [OF i] by simp
  show "inv (clr b) \<and> content (clr b) = []" using clr_inv [OF i] clr_content [OF i] by simp
qed

end
