(* ===== verification/Q1_Fifo_Lifo.thy ===== *)
theory Q1_Fifo_Lifo imports Buffer_Contract begin

text \<open>
  The plain buffers of the Q1 axis: \<^verbatim>\<open>FIFOQueueBuffer\<close> (a deque), \<^verbatim>\<open>LIFOStackBuffer\<close> and
  \<^verbatim>\<open>DeltaChainBuffer\<close> (vectors used as stacks, the second with a version counter) and the
  pass-through \<^verbatim>\<open>NoBuffer\<close>.  Each organ is a record that extends the shared statistics, its
  operations follow the member functions, and it is interpreted in the contract of
  \<^verbatim>\<open>Buffer_Contract\<close>.
\<close>

section \<open>FIFOQueueBuffer\<close>

record fifo = q1_base +
  fifo_data :: "u64 list"

definition fifo_init :: fifo where
  "fifo_init = \<lparr>q1_stats = stats_zero, fifo_data = []\<rparr>"

definition fifo_copy :: "fifo \<Rightarrow> fifo" where
  "fifo_copy src = \<lparr>q1_stats = q1_stats src, fifo_data = fifo_data src\<rparr>"

definition fifo_assign :: "fifo \<Rightarrow> fifo \<Rightarrow> fifo" where
  "fifo_assign self src = self\<lparr>fifo_data := fifo_data src, q1_stats := q1_stats src\<rparr>"

definition fifo_eq :: "fifo \<Rightarrow> fifo \<Rightarrow> bool" where
  "fifo_eq a b = (length (fifo_data a) = length (fifo_data b))"

definition fifo_put :: "u64 \<Rightarrow> fifo \<Rightarrow> fifo" where
  "fifo_put v b = (let b' = b\<lparr>fifo_data := fifo_data b @ [v]\<rparr> in note_put (length (fifo_data b')) b')"

definition fifo_get :: "fifo \<Rightarrow> u64 option \<times> fifo" where
  "fifo_get b = (if fifo_data b = [] then (None, note_underflow b)
     else (Some (hd (fifo_data b)), note_get (b\<lparr>fifo_data := tl (fifo_data b)\<rparr>)))"

definition fifo_size :: "fifo \<Rightarrow> nat" where
  "fifo_size b = length (fifo_data b)"

definition fifo_is_empty :: "fifo \<Rightarrow> bool" where
  "fifo_is_empty b = (fifo_data b = [])"

definition fifo_clear :: "fifo \<Rightarrow> fifo" where
  "fifo_clear b = b\<lparr>fifo_data := []\<rparr>"

definition fifo_peek_front :: "fifo \<Rightarrow> u64 option" where
  "fifo_peek_front b = (if fifo_data b = [] then None else Some (hd (fifo_data b)))"

definition fifo_peek_back :: "fifo \<Rightarrow> u64 option" where
  "fifo_peek_back b = (if fifo_data b = [] then None else Some (last (fifo_data b)))"

definition fifo_emplace :: "u64 \<Rightarrow> fifo \<Rightarrow> fifo" where
  "fifo_emplace v b = fifo_put v b"

lemmas fifo_defs = fifo_put_def fifo_get_def fifo_size_def fifo_is_empty_def fifo_clear_def
  fifo_peek_front_def fifo_peek_back_def

lemma fifo_data_note [simp]:
  "fifo_data (note_put n b) = fifo_data b" "fifo_data (note_get b) = fifo_data b"
  "fifo_data (note_overflow b) = fifo_data b" "fifo_data (note_underflow b) = fifo_data b"
  by (simp_all add: stats_defs)

interpretation fifo: q1_fifo "\<lambda>_. True" fifo_data fifo_get fifo_clear fifo_put
  by unfold_locales (auto simp: fifo_defs place_last_def head_opt_hd Let_def)

interpretation fifo: q1_observed "\<lambda>_. True" fifo_data fifo_get fifo_clear
    fifo_size fifo_is_empty fifo_peek_front fifo_peek_back
  by unfold_locales (auto simp: fifo_defs head_opt_hd last_opt_def)

interpretation fifo: q1_accounted "\<lambda>_. True" fifo_data fifo_get fifo_clear fifo_put place_last
    q1_stats False
  by unfold_locales
    (auto simp: fifo_defs Let_def flow_def algebra_simps note_get_def note_underflow_def)

section \<open>LIFOStackBuffer\<close>

record lifo = q1_base +
  lifo_data :: "u64 list"

definition lifo_init :: lifo where
  "lifo_init = \<lparr>q1_stats = stats_zero, lifo_data = []\<rparr>"

definition lifo_copy :: "lifo \<Rightarrow> lifo" where
  "lifo_copy src = \<lparr>q1_stats = q1_stats src, lifo_data = lifo_data src\<rparr>"

definition lifo_assign :: "lifo \<Rightarrow> lifo \<Rightarrow> lifo" where
  "lifo_assign self src = self\<lparr>lifo_data := lifo_data src, q1_stats := q1_stats src\<rparr>"

definition lifo_eq :: "lifo \<Rightarrow> lifo \<Rightarrow> bool" where
  "lifo_eq a b = (length (lifo_data a) = length (lifo_data b))"

definition lifo_put :: "u64 \<Rightarrow> lifo \<Rightarrow> lifo" where
  "lifo_put v b = (let b' = b\<lparr>lifo_data := lifo_data b @ [v]\<rparr> in note_put (length (lifo_data b')) b')"

definition lifo_get :: "lifo \<Rightarrow> u64 option \<times> lifo" where
  "lifo_get b = (if lifo_data b = [] then (None, note_underflow b)
     else (Some (last (lifo_data b)), note_get (b\<lparr>lifo_data := butlast (lifo_data b)\<rparr>)))"

definition lifo_size :: "lifo \<Rightarrow> nat" where
  "lifo_size b = length (lifo_data b)"

definition lifo_is_empty :: "lifo \<Rightarrow> bool" where
  "lifo_is_empty b = (lifo_data b = [])"

definition lifo_clear :: "lifo \<Rightarrow> lifo" where
  "lifo_clear b = b\<lparr>lifo_data := []\<rparr>"

text \<open>The front of a stack is its top, the back is its bottom.\<close>
definition lifo_peek_front :: "lifo \<Rightarrow> u64 option" where
  "lifo_peek_front b = (if lifo_data b = [] then None else Some (last (lifo_data b)))"

definition lifo_peek_back :: "lifo \<Rightarrow> u64 option" where
  "lifo_peek_back b = (if lifo_data b = [] then None else Some (hd (lifo_data b)))"

definition lifo_emplace :: "u64 \<Rightarrow> lifo \<Rightarrow> lifo" where
  "lifo_emplace v b = lifo_put v b"

lemmas lifo_defs = lifo_put_def lifo_get_def lifo_size_def lifo_is_empty_def lifo_clear_def
  lifo_peek_front_def lifo_peek_back_def

lemma lifo_data_note [simp]:
  "lifo_data (note_put n b) = lifo_data b" "lifo_data (note_get b) = lifo_data b"
  "lifo_data (note_overflow b) = lifo_data b" "lifo_data (note_underflow b) = lifo_data b"
  by (simp_all add: stats_defs)

definition lifo_content :: "lifo \<Rightarrow> u64 list" where
  "lifo_content b = rev (lifo_data b)"

lemma head_opt_rev: "head_opt (rev xs) = (if xs = [] then None else Some (last xs))"
  by (cases xs rule: rev_cases) simp_all

lemma last_opt_rev: "last_opt (rev xs) = (if xs = [] then None else Some (hd xs))"
  by (cases xs) simp_all

lemma tl_rev: "tl (rev xs) = rev (butlast xs)"
  by (cases xs rule: rev_cases) simp_all

interpretation lifo: q1_lifo "\<lambda>_. True" lifo_content lifo_get lifo_clear lifo_put
  by unfold_locales (auto simp: lifo_defs lifo_content_def place_first_def head_opt_rev tl_rev Let_def)

interpretation lifo: q1_observed "\<lambda>_. True" lifo_content lifo_get lifo_clear
    lifo_size lifo_is_empty lifo_peek_front lifo_peek_back
  by unfold_locales (auto simp: lifo_defs lifo_content_def head_opt_rev last_opt_rev)

interpretation lifo: q1_accounted "\<lambda>_. True" lifo_content lifo_get lifo_clear lifo_put place_first
    q1_stats False
  by unfold_locales
    (auto simp: lifo_defs lifo_content_def Let_def flow_def algebra_simps note_get_def note_underflow_def)

section \<open>DeltaChainBuffer\<close>

record delta_chain = q1_base +
  delta_chain_data :: "u64 list"
  delta_next_version :: u64

definition delta_init :: delta_chain where
  "delta_init = \<lparr>q1_stats = stats_zero, delta_chain_data = [], delta_next_version = 0\<rparr>"

definition delta_copy :: "delta_chain \<Rightarrow> delta_chain" where
  "delta_copy src = \<lparr>q1_stats = q1_stats src, delta_chain_data = delta_chain_data src,
     delta_next_version = delta_next_version src\<rparr>"

definition delta_assign :: "delta_chain \<Rightarrow> delta_chain \<Rightarrow> delta_chain" where
  "delta_assign self src = self\<lparr>delta_chain_data := delta_chain_data src,
     delta_next_version := delta_next_version src, q1_stats := q1_stats src\<rparr>"

definition delta_eq :: "delta_chain \<Rightarrow> delta_chain \<Rightarrow> bool" where
  "delta_eq a b = (length (delta_chain_data a) = length (delta_chain_data b))"

definition delta_put :: "u64 \<Rightarrow> delta_chain \<Rightarrow> delta_chain" where
  "delta_put v b = (let b' = b\<lparr>delta_chain_data := delta_chain_data b @ [v],
       delta_next_version := delta_next_version b + 1\<rparr>
     in note_put (length (delta_chain_data b')) b')"

definition delta_get :: "delta_chain \<Rightarrow> u64 option \<times> delta_chain" where
  "delta_get b = (if delta_chain_data b = [] then (None, note_underflow b)
     else (Some (last (delta_chain_data b)),
           note_get (b\<lparr>delta_chain_data := butlast (delta_chain_data b)\<rparr>)))"

definition delta_size :: "delta_chain \<Rightarrow> nat" where
  "delta_size b = length (delta_chain_data b)"

definition delta_is_empty :: "delta_chain \<Rightarrow> bool" where
  "delta_is_empty b = (delta_chain_data b = [])"

definition delta_clear :: "delta_chain \<Rightarrow> delta_chain" where
  "delta_clear b = b\<lparr>delta_chain_data := []\<rparr>"

definition delta_peek_front :: "delta_chain \<Rightarrow> u64 option" where
  "delta_peek_front b = (if delta_chain_data b = [] then None else Some (last (delta_chain_data b)))"

definition delta_peek_back :: "delta_chain \<Rightarrow> u64 option" where
  "delta_peek_back b = (if delta_chain_data b = [] then None else Some (hd (delta_chain_data b)))"

definition delta_emplace :: "u64 \<Rightarrow> delta_chain \<Rightarrow> delta_chain" where
  "delta_emplace v b = delta_put v b"

definition delta_version_id :: "delta_chain \<Rightarrow> u64" where
  "delta_version_id b = delta_next_version b"

lemmas delta_defs = delta_put_def delta_get_def delta_size_def delta_is_empty_def delta_clear_def
  delta_peek_front_def delta_peek_back_def

lemma delta_chain_note [simp]:
  "delta_chain_data (note_put n b) = delta_chain_data b" "delta_chain_data (note_get b) = delta_chain_data b"
  "delta_chain_data (note_underflow b) = delta_chain_data b"
  "delta_next_version (note_put n b) = delta_next_version b"
  "delta_next_version (note_get b) = delta_next_version b"
  "delta_next_version (note_underflow b) = delta_next_version b"
  by (simp_all add: stats_defs)

definition delta_content :: "delta_chain \<Rightarrow> u64 list" where
  "delta_content b = rev (delta_chain_data b)"

interpretation delta: q1_lifo "\<lambda>_. True" delta_content delta_get delta_clear delta_put
  by unfold_locales (auto simp: delta_defs delta_content_def place_first_def head_opt_rev tl_rev Let_def)

interpretation delta: q1_observed "\<lambda>_. True" delta_content delta_get delta_clear
    delta_size delta_is_empty delta_peek_front delta_peek_back
  by unfold_locales (auto simp: delta_defs delta_content_def head_opt_rev last_opt_rev)

interpretation delta: q1_accounted "\<lambda>_. True" delta_content delta_get delta_clear delta_put place_first
    q1_stats False
  by unfold_locales
    (auto simp: delta_defs delta_content_def Let_def flow_def algebra_simps note_get_def note_underflow_def)

text \<open>The version counter advances with every \<^verbatim>\<open>put\<close> and with nothing else.\<close>
lemma delta_version_step:
  "delta_version_id (delta_put v b) = delta_version_id b + 1"
  "delta_version_id (snd (delta_get b)) = delta_version_id b"
  "delta_version_id (delta_clear b) = delta_version_id b"
  by (simp_all add: delta_version_id_def delta_put_def delta_get_def delta_clear_def Let_def)

lemma delta_version_run:
  "delta_version_id (snd (q1_run delta_put delta_get delta_clear ops b))
     = delta_version_id b + word_of_nat (length (filter (\<lambda>op. \<exists>v. op = Put v) ops))"
  by (induction ops arbitrary: b) (auto simp: delta_version_step split_def split: q1_op.splits)

section \<open>NoBuffer\<close>

text \<open>No members beside the statistics.\<close>
type_synonym no_buffer = q1_base

definition nobuf_init :: no_buffer where
  "nobuf_init = \<lparr>q1_stats = stats_zero\<rparr>"

definition nobuf_put :: "u64 \<Rightarrow> no_buffer \<Rightarrow> no_buffer" where
  "nobuf_put v b = b\<lparr>q1_stats := (q1_stats b)\<lparr>total_put_count := total_put_count (q1_stats b) + 1\<rparr>\<rparr>"

definition nobuf_get :: "no_buffer \<Rightarrow> u64 option \<times> no_buffer" where
  "nobuf_get b = (None, note_underflow b)"

definition nobuf_size :: "no_buffer \<Rightarrow> nat" where
  "nobuf_size b = 0"

definition nobuf_is_empty :: "no_buffer \<Rightarrow> bool" where
  "nobuf_is_empty b = True"

definition nobuf_clear :: "no_buffer \<Rightarrow> no_buffer" where
  "nobuf_clear b = b"

definition nobuf_peek_front :: "no_buffer \<Rightarrow> u64 option" where
  "nobuf_peek_front b = None"

definition nobuf_peek_back :: "no_buffer \<Rightarrow> u64 option" where
  "nobuf_peek_back b = None"

definition place_nowhere :: "u64 \<Rightarrow> u64 list \<Rightarrow> u64 list" where
  "place_nowhere v q = q"

interpretation nobuf: q1_placing "\<lambda>_. True" "\<lambda>_. []" nobuf_get nobuf_clear nobuf_put place_nowhere
  by unfold_locales (simp_all add: nobuf_get_def place_nowhere_def)

interpretation nobuf: q1_observed "\<lambda>_. True" "\<lambda>_. []" nobuf_get nobuf_clear
    nobuf_size nobuf_is_empty nobuf_peek_front nobuf_peek_back
  by unfold_locales
    (simp_all add: nobuf_size_def nobuf_is_empty_def nobuf_peek_front_def nobuf_peek_back_def)

end
