(* ===== verification/Q1_Append_Tombstone.thy ===== *)
theory Q1_Append_Tombstone imports Buffer_Contract begin

text \<open>
  The two buffers of the Q1 axis that consume a vector from the front with a drain position:
  \<^verbatim>\<open>AppendOnlyBuffer\<close> and \<^verbatim>\<open>TombstoneBuffer\<close>.  The stored vector keeps its consumed prefix; the
  content is what lies behind the drain position.
\<close>

section \<open>AppendOnlyBuffer\<close>

record append_only = q1_base +
  ao_data :: "u64 list"
  ao_drain_pos :: nat

definition ao_init :: append_only where
  "ao_init = \<lparr>q1_stats = stats_zero, ao_data = [], ao_drain_pos = 0\<rparr>"

definition ao_copy :: "append_only \<Rightarrow> append_only" where
  "ao_copy src = \<lparr>q1_stats = q1_stats src, ao_data = ao_data src, ao_drain_pos = ao_drain_pos src\<rparr>"

definition ao_assign :: "append_only \<Rightarrow> append_only \<Rightarrow> append_only" where
  "ao_assign self src = self\<lparr>ao_data := ao_data src, ao_drain_pos := ao_drain_pos src,
     q1_stats := q1_stats src\<rparr>"

definition ao_eq :: "append_only \<Rightarrow> append_only \<Rightarrow> bool" where
  "ao_eq a b = (length (ao_data a) = length (ao_data b))"

definition ao_put :: "u64 \<Rightarrow> append_only \<Rightarrow> append_only" where
  "ao_put v b = (let b' = b\<lparr>ao_data := ao_data b @ [v]\<rparr> in note_put (length (ao_data b')) b')"

definition ao_get :: "append_only \<Rightarrow> u64 option \<times> append_only" where
  "ao_get b = (if length (ao_data b) \<le> ao_drain_pos b then (None, note_underflow b)
     else (let v = ao_data b ! ao_drain_pos b;
               b1 = b\<lparr>ao_drain_pos := ao_drain_pos b + 1\<rparr>;
               b2 = (if length (ao_data b1) \<le> ao_drain_pos b1
                     then b1\<lparr>ao_data := [], ao_drain_pos := 0\<rparr> else b1)
           in (Some v, note_get b2)))"

definition ao_drain_all :: "append_only \<Rightarrow> u64 list \<times> append_only" where
  "ao_drain_all b =
     (let out = (if ao_drain_pos b < length (ao_data b) then drop (ao_drain_pos b) (ao_data b) else []);
          b1 = b\<lparr>ao_data := [], ao_drain_pos := 0\<rparr>
      in (out, b1\<lparr>q1_stats := (q1_stats b1)\<lparr>total_get_count :=
                   total_get_count (q1_stats b1) + word_of_nat (length out)\<rparr>\<rparr>))"

definition ao_size :: "append_only \<Rightarrow> nat" where
  "ao_size b = length (ao_data b) - ao_drain_pos b"

definition ao_is_empty :: "append_only \<Rightarrow> bool" where
  "ao_is_empty b = (length (ao_data b) \<le> ao_drain_pos b)"

definition ao_clear :: "append_only \<Rightarrow> append_only" where
  "ao_clear b = b\<lparr>ao_data := [], ao_drain_pos := 0\<rparr>"

definition ao_peek_front :: "append_only \<Rightarrow> u64 option" where
  "ao_peek_front b = (if length (ao_data b) \<le> ao_drain_pos b then None
     else Some (ao_data b ! ao_drain_pos b))"

definition ao_peek_back :: "append_only \<Rightarrow> u64 option" where
  "ao_peek_back b = (if length (ao_data b) \<le> ao_drain_pos b then None else Some (last (ao_data b)))"

definition ao_emplace :: "u64 \<Rightarrow> append_only \<Rightarrow> append_only" where
  "ao_emplace v b = ao_put v b"

lemmas ao_defs = ao_put_def ao_get_def ao_size_def ao_is_empty_def ao_clear_def
  ao_peek_front_def ao_peek_back_def

lemma ao_note [simp]:
  "ao_data (note_put n b) = ao_data b" "ao_drain_pos (note_put n b) = ao_drain_pos b"
  "ao_data (note_get b) = ao_data b" "ao_drain_pos (note_get b) = ao_drain_pos b"
  "ao_data (note_underflow b) = ao_data b" "ao_drain_pos (note_underflow b) = ao_drain_pos b"
  by (simp_all add: stats_defs)

definition ao_inv :: "append_only \<Rightarrow> bool" where
  "ao_inv b = (ao_drain_pos b < length (ao_data b) \<or> ao_data b = [] \<and> ao_drain_pos b = 0)"

definition ao_content :: "append_only \<Rightarrow> u64 list" where
  "ao_content b = drop (ao_drain_pos b) (ao_data b)"

lemma head_opt_drop: "i < length xs \<Longrightarrow> head_opt (drop i xs) = Some (xs ! i)"
  by (simp add: Cons_nth_drop_Suc [symmetric])

lemma last_opt_drop: "i < length xs \<Longrightarrow> last_opt (drop i xs) = Some (last xs)"
  by (simp add: last_opt_def)

interpretation append_only: q1_fifo ao_inv ao_content ao_get ao_clear ao_put
  by unfold_locales
    (auto simp: ao_defs ao_inv_def ao_content_def place_last_def head_opt_drop tl_drop drop_Suc Let_def
      simp flip: drop_Suc)

interpretation append_only: q1_observed ao_inv ao_content ao_get ao_clear
    ao_size ao_is_empty ao_peek_front ao_peek_back
  by unfold_locales
    (auto simp: ao_defs ao_inv_def ao_content_def head_opt_drop last_opt_drop not_le)

interpretation append_only: q1_accounted ao_inv ao_content ao_get ao_clear ao_put place_last q1_stats False
  by unfold_locales
    (auto simp: ao_defs ao_inv_def ao_content_def Let_def flow_def algebra_simps
      note_get_def note_underflow_def Suc_diff_le)

text \<open>\<^verbatim>\<open>drain_all\<close> delivers what repeated \<^verbatim>\<open>get\<close> would deliver, and counts it the same.\<close>
lemma ao_drain_all_content:
  assumes "ao_inv b"
  shows "fst (ao_drain_all b) = ao_content b" "ao_content (snd (ao_drain_all b)) = []"
    "ao_inv (snd (ao_drain_all b))"
    "total_get_count (q1_stats (snd (ao_drain_all b)))
       = total_get_count (q1_stats b) + word_of_nat (length (ao_content b))"
  using assms by (auto simp: ao_drain_all_def ao_content_def ao_inv_def Let_def)

lemma ao_drain_all_is_drain:
  "ao_inv b \<Longrightarrow> fst (ao_drain_all b) = fst (drain ao_get (ao_size b) b)"
  by (simp add: ao_drain_all_content append_only.drain_take append_only.size_content)


section \<open>TombstoneBuffer\<close>

record tombstone = q1_base +
  tb_slots :: "u64 option list"
  tb_drain_pos :: nat
  tb_live_count :: nat
  tb_version :: u64

definition tb_init :: tombstone where
  "tb_init = \<lparr>q1_stats = stats_zero, tb_slots = [], tb_drain_pos = 0, tb_live_count = 0, tb_version = 0\<rparr>"

definition tb_copy :: "tombstone \<Rightarrow> tombstone" where
  "tb_copy src = \<lparr>q1_stats = q1_stats src, tb_slots = tb_slots src, tb_drain_pos = tb_drain_pos src,
     tb_live_count = tb_live_count src, tb_version = tb_version src\<rparr>"

definition tb_assign :: "tombstone \<Rightarrow> tombstone \<Rightarrow> tombstone" where
  "tb_assign self src = self\<lparr>tb_slots := tb_slots src, tb_drain_pos := tb_drain_pos src,
     tb_live_count := tb_live_count src, tb_version := tb_version src, q1_stats := q1_stats src\<rparr>"

definition tb_eq :: "tombstone \<Rightarrow> tombstone \<Rightarrow> bool" where
  "tb_eq a b = (tb_live_count a = tb_live_count b)"

definition tb_put :: "u64 \<Rightarrow> tombstone \<Rightarrow> tombstone" where
  "tb_put v b = (let b' = b\<lparr>tb_slots := tb_slots b @ [Some v], tb_live_count := tb_live_count b + 1,
       tb_version := tb_version b + 1\<rparr>
     in note_put (tb_live_count b') b')"

text \<open>The loop of \<^verbatim>\<open>get\<close> that skips tombstones.\<close>
function tb_skip :: "u64 option list \<Rightarrow> nat \<Rightarrow> nat" where
  "tb_skip slots p = (if p < length slots \<and> slots ! p = None then tb_skip slots (p + 1) else p)"
  by pat_completeness auto
termination by (relation "measure (\<lambda>(slots, p). length slots - p)") auto

declare tb_skip.simps [simp del]

definition tb_get :: "tombstone \<Rightarrow> u64 option \<times> tombstone" where
  "tb_get b =
     (let p = tb_skip (tb_slots b) (tb_drain_pos b);
          b0 = b\<lparr>tb_drain_pos := p\<rparr>
      in if length (tb_slots b0) \<le> p then (None, note_underflow b0)
         else (let v = the (tb_slots b0 ! p);
                   b1 = b0\<lparr>tb_slots := (tb_slots b0)[p := None], tb_drain_pos := p + 1,
                           tb_live_count := tb_live_count b0 - 1, tb_version := tb_version b0 + 1\<rparr>;
                   b2 = (if length (tb_slots b1) \<le> tb_drain_pos b1
                         then b1\<lparr>tb_slots := [], tb_drain_pos := 0\<rparr> else b1)
               in (Some v, note_get b2)))"

definition tb_size :: "tombstone \<Rightarrow> nat" where
  "tb_size b = tb_live_count b"

definition tb_is_empty :: "tombstone \<Rightarrow> bool" where
  "tb_is_empty b = (tb_live_count b = 0)"

definition tb_clear :: "tombstone \<Rightarrow> tombstone" where
  "tb_clear b = b\<lparr>tb_slots := [], tb_drain_pos := 0, tb_live_count := 0\<rparr>"

function tb_scan_up :: "u64 option list \<Rightarrow> nat \<Rightarrow> u64 option" where
  "tb_scan_up slots i = (if i < length slots
     then (if slots ! i \<noteq> None then slots ! i else tb_scan_up slots (i + 1)) else None)"
  by pat_completeness auto
termination by (relation "measure (\<lambda>(slots, i). length slots - i)") auto

fun tb_scan_down :: "u64 option list \<Rightarrow> nat \<Rightarrow> nat \<Rightarrow> u64 option" where
  "tb_scan_down slots lo i = (if lo < i
     then (if slots ! (i - 1) \<noteq> None then slots ! (i - 1) else tb_scan_down slots lo (i - 1)) else None)"

declare tb_scan_up.simps [simp del] tb_scan_down.simps [simp del]

definition tb_peek_front :: "tombstone \<Rightarrow> u64 option" where
  "tb_peek_front b = tb_scan_up (tb_slots b) (tb_drain_pos b)"

definition tb_peek_back :: "tombstone \<Rightarrow> u64 option" where
  "tb_peek_back b = tb_scan_down (tb_slots b) (tb_drain_pos b) (length (tb_slots b))"

definition tb_emplace :: "u64 \<Rightarrow> tombstone \<Rightarrow> tombstone" where
  "tb_emplace v b = tb_put v b"

definition tb_tombstone_count :: "tombstone \<Rightarrow> nat" where
  "tb_tombstone_count b = (length (tb_slots b) - tb_drain_pos b) - tb_live_count b"

definition tb_version_id :: "tombstone \<Rightarrow> u64" where
  "tb_version_id b = tb_version b"

lemma tb_note [simp]:
  "tb_slots (note_put n b) = tb_slots b" "tb_drain_pos (note_put n b) = tb_drain_pos b"
  "tb_live_count (note_put n b) = tb_live_count b" "tb_version (note_put n b) = tb_version b"
  "tb_slots (note_get b) = tb_slots b" "tb_drain_pos (note_get b) = tb_drain_pos b"
  "tb_live_count (note_get b) = tb_live_count b" "tb_version (note_get b) = tb_version b"
  "tb_slots (note_underflow b) = tb_slots b" "tb_drain_pos (note_underflow b) = tb_drain_pos b"
  "tb_live_count (note_underflow b) = tb_live_count b" "tb_version (note_underflow b) = tb_version b"
  by (simp_all add: stats_defs)

text \<open>Behind the drain position every slot is live, and the live count is their number.\<close>
definition tb_inv :: "tombstone \<Rightarrow> bool" where
  "tb_inv b = (None \<notin> set (drop (tb_drain_pos b) (tb_slots b))
     \<and> tb_live_count b = length (tb_slots b) - tb_drain_pos b
     \<and> (tb_drain_pos b < length (tb_slots b) \<or> tb_slots b = [] \<and> tb_drain_pos b = 0))"

definition tb_content :: "tombstone \<Rightarrow> u64 list" where
  "tb_content b = map the (drop (tb_drain_pos b) (tb_slots b))"

lemma live_slot:
  assumes "None \<notin> set (drop p s)" "p \<le> i" "i < length s"
  shows "s ! i \<noteq> None"
proof -
  have "drop p s ! (i - p) \<in> set (drop p s)" using assms by (intro nth_mem) auto
  then show ?thesis using assms by (cases "s ! i") auto
qed

lemma tb_skip_live: "None \<notin> set (drop p s) \<Longrightarrow> tb_skip s p = p"
  by (metis live_slot order.refl tb_skip.simps)

lemma tb_scan_up_live: "None \<notin> set (drop i s) \<Longrightarrow> tb_scan_up s i = (if i < length s then s ! i else None)"
  by (metis live_slot order.refl tb_scan_up.simps)

lemma tb_scan_down_live:
  "None \<notin> set (drop lo s) \<Longrightarrow> tb_scan_down s lo (length s) = (if lo < length s then last s else None)"
  using live_slot [of lo s "length s - 1"]
  by (subst tb_scan_down.simps) (cases "s = []", auto simp: last_conv_nth)

lemma live_last: "None \<notin> set (drop p s) \<Longrightarrow> p < length s \<Longrightarrow> last s = Some (last (map the s))"
  by (cases s rule: rev_cases) auto

lemma tb_get_live:
  assumes "tb_inv b"
  shows "tb_get b = (if tb_slots b = [] then (None, note_underflow b)
    else (Some (the (tb_slots b ! tb_drain_pos b)),
      note_get (if length (tb_slots b) \<le> tb_drain_pos b + 1
        then b\<lparr>tb_slots := [], tb_drain_pos := 0, tb_live_count := tb_live_count b - 1,
               tb_version := tb_version b + 1\<rparr>
        else b\<lparr>tb_slots := (tb_slots b)[tb_drain_pos b := None], tb_drain_pos := tb_drain_pos b + 1,
               tb_live_count := tb_live_count b - 1, tb_version := tb_version b + 1\<rparr>)))"
  using assms by (cases b) (auto simp: tb_get_def tb_inv_def tb_skip_live Let_def)


lemma tl_drop_Suc: "tl (drop n xs) = drop (Suc n) xs"
  by (simp add: tl_drop drop_Suc)

lemma set_drop_Suc: "x \<in> set (drop (Suc n) xs) \<Longrightarrow> x \<in> set (drop n xs)"
  by (metis list.sel(2) list.set_sel(2) tl_drop_Suc)

lemma tb_get_inv:
  assumes "tb_inv b"
  shows "tb_inv (snd (tb_get b))"
  using assms by (cases b) (auto simp: tb_get_live, auto simp: tb_inv_def dest: set_drop_Suc)

lemma tb_get_content:
  assumes "tb_inv b"
  shows "fst (tb_get b) = head_opt (tb_content b)" "tb_content (snd (tb_get b)) = tl (tb_content b)"
proof -
  have nonempty: "tb_drain_pos b < length (tb_slots b)" if "tb_slots b \<noteq> []"
    using assms that by (auto simp: tb_inv_def)
  show "fst (tb_get b) = head_opt (tb_content b)"
    using nonempty by (auto simp: tb_get_live [OF assms] tb_content_def drop_map [symmetric] head_opt_drop)
  show "tb_content (snd (tb_get b)) = tl (tb_content b)"
    using nonempty by (auto simp: tb_get_live [OF assms] tb_content_def tl_drop_Suc simp flip: map_tl)
qed


lemma tb_put_inv: "tb_inv b \<Longrightarrow> tb_inv (tb_put v b)"
  by (auto simp: tb_put_def tb_inv_def Let_def)

lemma tb_put_content: "tb_inv b \<Longrightarrow> tb_content (tb_put v b) = tb_content b @ [v]"
  by (auto simp: tb_put_def tb_inv_def tb_content_def Let_def)

interpretation tombstone: q1_fifo tb_inv tb_content tb_get tb_clear tb_put
  by unfold_locales
    (simp_all add: tb_get_inv tb_get_content tb_put_inv tb_put_content place_last_def,
     simp_all add: tb_clear_def tb_inv_def tb_content_def)

interpretation tombstone: q1_observed tb_inv tb_content tb_get tb_clear
    tb_size tb_is_empty tb_peek_front tb_peek_back
  by unfold_locales
    (auto simp: tb_size_def tb_is_empty_def tb_peek_front_def tb_peek_back_def tb_inv_def tb_content_def
      tb_scan_up_live tb_scan_down_live drop_map [symmetric] head_opt_drop last_opt_drop
      live_slot live_last)

interpretation tombstone: q1_accounted tb_inv tb_content tb_get tb_clear tb_put place_last q1_stats False
proof unfold_locales
  fix b v assume i: "tb_inv b"
  show "flow False (q1_stats (tb_put v b)) - word_of_nat (length (tb_content (tb_put v b))) =
      flow False (q1_stats b) - word_of_nat (length (tb_content b))"
    unfolding tb_put_content [OF i] by (simp add: tb_put_def Let_def flow_def algebra_simps)
  show "q1_stats (snd (tb_get b)) = (if tb_content b = []
      then (q1_stats b)\<lparr>underflow_count := underflow_count (q1_stats b) + 1\<rparr>
      else (q1_stats b)\<lparr>total_get_count := total_get_count (q1_stats b) + 1\<rparr>)"
    using i by (auto simp: tb_get_live [OF i] note_get_def note_underflow_def tb_content_def tb_inv_def)
qed (simp_all add: tb_put_def tb_clear_def Let_def)

text \<open>No reachable state holds a tombstone behind the drain position, so the diagnostic
  \<^verbatim>\<open>tombstone_count\<close> is constantly zero.\<close>
lemma tb_no_tombstones: "tb_inv b \<Longrightarrow> tb_tombstone_count b = 0"
  by (auto simp: tb_inv_def tb_tombstone_count_def)

lemma tb_init_ok: "tb_inv tb_init" "tb_content tb_init = []"
  by (simp_all add: tb_init_def tb_inv_def tb_content_def)

lemma tb_version_step:
  "tb_version_id (tb_put v b) = tb_version_id b + 1"
  "tb_inv b \<Longrightarrow> tb_version_id (snd (tb_get b)) = (if tb_content b = [] then tb_version_id b else tb_version_id b + 1)"
  by (auto simp: tb_version_id_def tb_put_def tb_get_live Let_def tb_content_def tb_inv_def)

section \<open>Properties\<close>

text \<open>\<^verbatim>\<open>AppendOnlyBuffer::drain_all\<close> on any buffer reached by a sequence of calls returns exactly
  what repeated \<^verbatim>\<open>get\<close> would return, leaves the buffer empty, and adds the same number to
  \<^verbatim>\<open>total_get_count\<close>.\<close>
lemma append_only_drain_all:
  "let b = snd (q1_run ao_put ao_get ao_clear ops ao_init)
   in fst (ao_drain_all b) = fst (drain ao_get (ao_size b) b)
      \<and> ao_is_empty (snd (ao_drain_all b))
      \<and> total_get_count (q1_stats (snd (ao_drain_all b)))
          = total_get_count (q1_stats (snd (drain ao_get (ao_size b) b)))"
proof -
  define b where "b = snd (q1_run ao_put ao_get ao_clear ops ao_init)"
  have "ao_inv ao_init" by (simp add: ao_inv_def ao_init_def)
  then have i: "ao_inv b" unfolding b_def by (rule append_only.run_inv)
  have count: "total_get_count (q1_stats (snd (drain ao_get n c)))
      = total_get_count (q1_stats c) + word_of_nat (length (fst (drain ao_get n c)))" if "ao_inv c" for n c
    using that
  proof (induction n arbitrary: c)
    case (Suc n)
    have "q1_stats (snd (ao_get c)) = (if ao_content c = []
        then (q1_stats c)\<lparr>underflow_count := underflow_count (q1_stats c) + 1\<rparr>
        else (q1_stats c)\<lparr>total_get_count := total_get_count (q1_stats c) + 1\<rparr>)"
      using append_only.get_stats [OF Suc.prems] .
    then show ?case
      using Suc.IH [OF append_only.get_inv [OF Suc.prems]] unfolding append_only.drain_step [OF Suc.prems]
      by (simp split: list.splits)
  qed simp
  have "length (fst (drain ao_get (ao_size b) b)) = length (ao_content b)"
    using append_only.drain_size [OF i] append_only.size_content [OF i] by simp
  then show ?thesis
    using i count [OF i] ao_drain_all_content [OF i] ao_drain_all_is_drain [OF i]
      append_only.empty_content [OF ao_drain_all_content(3) [OF i]]
    by (simp add: Let_def b_def [symmetric])
qed

text \<open>In every state a \<^verbatim>\<open>TombstoneBuffer\<close> can reach, the diagnostic \<^verbatim>\<open>tombstone_count\<close> is zero:
  \<^verbatim>\<open>get\<close> marks a slot only while moving the drain position past it, so no tombstone lies behind the
  drain position, and the live count is the number of slots there.\<close>
theorem tombstone_count_zero:
  "tb_tombstone_count (snd (q1_run tb_put tb_get tb_clear ops tb_init)) = 0"
  using tb_no_tombstones [OF tombstone.run_inv [OF tb_init_ok(1)]] .

end
