(* ===== verification/Q1_Cow.thy ===== *)
theory Q1_Cow imports Buffer_Contract begin

text \<open>
  The snapshot buffer of the Q1 axis, \<^verbatim>\<open>CopyOnWriteBuffer\<close>.

  The copy-on-write buffer shares its vectors through \<^verbatim>\<open>std::shared_ptr\<close>, and readers keep the
  pointers they were handed, so its model has an explicit store: a snapshot is an address, the
  store maps addresses to vectors and allocation extends it.  A vector is freed only when its last
  owner goes, so an address that is still held stays valid; the store never shrinks.
\<close>

section \<open>CopyOnWriteBuffer\<close>

type_synonym snapshot_heap = "u64 list list"

record cow = q1_base +
  cow_empty_snapshot :: nat
  cow_current :: nat
  cow_version :: u64

definition make_snapshot :: "u64 list \<Rightarrow> snapshot_heap \<Rightarrow> nat \<times> snapshot_heap" where
  "make_snapshot xs h = (length h, h @ [xs])"

text \<open>The operations act on the store and the object.\<close>
definition cow_init :: "snapshot_heap \<Rightarrow> snapshot_heap \<times> cow" where
  "cow_init h = (case make_snapshot [] h of (e, h') \<Rightarrow>
     (h', \<lparr>q1_stats = stats_zero, cow_empty_snapshot = e, cow_current = e, cow_version = 0\<rparr>))"

definition cow_copy :: "snapshot_heap \<times> cow \<Rightarrow> snapshot_heap \<times> cow" where
  "cow_copy = (\<lambda>(h, src). case make_snapshot [] h of (e, h1) \<Rightarrow>
     (case (if h1 ! cow_current src = [] then (e, h1) else make_snapshot (h1 ! cow_current src) h1) of
        (c, h2) \<Rightarrow> (h2, \<lparr>q1_stats = q1_stats src, cow_empty_snapshot = e, cow_current = c,
                        cow_version = cow_version src\<rparr>)))"

definition cow_assign :: "snapshot_heap \<Rightarrow> cow \<Rightarrow> cow \<Rightarrow> snapshot_heap \<times> cow" where
  "cow_assign h self src =
     (case (if h ! cow_current src = [] then (cow_empty_snapshot self, h)
            else make_snapshot (h ! cow_current src) h) of
        (c, h') \<Rightarrow> (h', self\<lparr>cow_current := c, cow_version := cow_version src, q1_stats := q1_stats src\<rparr>))"

definition cow_put :: "u64 \<Rightarrow> snapshot_heap \<times> cow \<Rightarrow> snapshot_heap \<times> cow" where
  "cow_put v = (\<lambda>(h, b). case make_snapshot (h ! cow_current b) h of (next, h1) \<Rightarrow>
     (let h2 = h1[next := h1 ! next @ [v]];
          b1 = b\<lparr>cow_current := next, cow_version := cow_version b + 1\<rparr>
      in (h2, note_put (length (h2 ! cow_current b1)) b1)))"

definition cow_get :: "snapshot_heap \<times> cow \<Rightarrow> u64 option \<times> (snapshot_heap \<times> cow)" where
  "cow_get = (\<lambda>(h, b). if h ! cow_current b = [] then (None, h, note_underflow b)
     else (case make_snapshot (tl (h ! cow_current b)) h of (next, h1) \<Rightarrow>
       (Some (hd (h ! cow_current b)), h1,
        note_get (b\<lparr>cow_current := next, cow_version := cow_version b + 1\<rparr>))))"

definition cow_size :: "snapshot_heap \<times> cow \<Rightarrow> nat" where
  "cow_size = (\<lambda>(h, b). length (h ! cow_current b))"

definition cow_is_empty :: "snapshot_heap \<times> cow \<Rightarrow> bool" where
  "cow_is_empty = (\<lambda>(h, b). h ! cow_current b = [])"

definition cow_clear :: "snapshot_heap \<times> cow \<Rightarrow> snapshot_heap \<times> cow" where
  "cow_clear = (\<lambda>(h, b). (h, b\<lparr>cow_current := cow_empty_snapshot b, cow_version := cow_version b + 1\<rparr>))"

definition cow_peek_front :: "snapshot_heap \<times> cow \<Rightarrow> u64 option" where
  "cow_peek_front = (\<lambda>(h, b). if h ! cow_current b = [] then None else Some (hd (h ! cow_current b)))"

definition cow_peek_back :: "snapshot_heap \<times> cow \<Rightarrow> u64 option" where
  "cow_peek_back = (\<lambda>(h, b). if h ! cow_current b = [] then None else Some (last (h ! cow_current b)))"

definition cow_version_id :: "cow \<Rightarrow> u64" where
  "cow_version_id b = cow_version b"

text \<open>The pointer handed to a reader.\<close>
definition cow_snapshot_ptr :: "cow \<Rightarrow> nat" where
  "cow_snapshot_ptr b = cow_current b"

lemmas cow_defs = make_snapshot_def cow_put_def cow_get_def cow_size_def cow_is_empty_def
  cow_clear_def cow_peek_front_def cow_peek_back_def

lemma cow_note [simp]:
  "cow_empty_snapshot (note_put n b) = cow_empty_snapshot b" "cow_current (note_put n b) = cow_current b"
  "cow_version (note_put n b) = cow_version b"
  "cow_empty_snapshot (note_get b) = cow_empty_snapshot b" "cow_current (note_get b) = cow_current b"
  "cow_version (note_get b) = cow_version b"
  "cow_empty_snapshot (note_underflow b) = cow_empty_snapshot b"
  "cow_current (note_underflow b) = cow_current b" "cow_version (note_underflow b) = cow_version b"
  by (simp_all add: stats_defs)

definition cow_inv :: "snapshot_heap \<times> cow \<Rightarrow> bool" where
  "cow_inv = (\<lambda>(h, b). cow_current b < length h \<and> cow_empty_snapshot b < length h
     \<and> h ! cow_empty_snapshot b = [])"

definition cow_content :: "snapshot_heap \<times> cow \<Rightarrow> u64 list" where
  "cow_content = (\<lambda>(h, b). h ! cow_current b)"

interpretation cow: q1_fifo cow_inv cow_content cow_get cow_clear cow_put
  by unfold_locales
    (auto simp: cow_defs cow_inv_def cow_content_def place_last_def nth_append head_opt_hd Let_def
      split: prod.splits)

interpretation cow: q1_observed cow_inv cow_content cow_get cow_clear
    cow_size cow_is_empty cow_peek_front cow_peek_back
  by unfold_locales
    (auto simp: cow_defs cow_content_def head_opt_hd last_opt_def split: prod.splits)

interpretation cow: q1_accounted cow_inv cow_content cow_get cow_clear cow_put place_last
    "\<lambda>(h, b). q1_stats b" False
  by unfold_locales
    (auto simp: cow_defs cow_content_def nth_append Let_def flow_def algebra_simps note_get_def
      note_underflow_def split: prod.splits)

text \<open>The vectors of the store, and so every snapshot a reader holds, never change.\<close>
lemma cow_step_preserves:
  assumes "a < length h"
  shows "fst (cow_put v (h, b)) ! a = h ! a" "a < length (fst (cow_put v (h, b)))"
    "fst (snd (cow_get (h, b))) ! a = h ! a" "a < length (fst (snd (cow_get (h, b))))"
    "fst (cow_clear (h, b)) ! a = h ! a" "a < length (fst (cow_clear (h, b)))"
  using assms by (simp_all add: cow_defs nth_append Let_def)

lemma cow_run_preserves:
  "a < length h \<Longrightarrow> fst (snd (q1_run cow_put cow_get cow_clear ops (h, b))) ! a = h ! a
     \<and> a < length (fst (snd (q1_run cow_put cow_get cow_clear ops (h, b))))"
proof (induction ops arbitrary: h b)
  case (Cons op ops)
  have "fst (snd (q1_run cow_put cow_get cow_clear ops s)) ! a = h ! a
      \<and> a < length (fst (snd (q1_run cow_put cow_get cow_clear ops s)))"
    if "fst s ! a = h ! a" "a < length (fst s)" for s
    using Cons.IH [of "fst s" "snd s"] that by simp
  then show ?case
    using cow_step_preserves [OF Cons.prems] by (cases op) (simp_all add: split_def)
qed simp

text \<open>A copy is deep: it starts with the same content at a fresh address.\<close>
lemma cow_copy_deep:
  assumes "cow_inv (h, src)"
  shows "cow_inv (cow_copy (h, src))" "cow_content (cow_copy (h, src)) = cow_content (h, src)"
    "length h \<le> cow_current (snd (cow_copy (h, src)))"
    "cow_version_id (snd (cow_copy (h, src))) = cow_version_id src"
  using assms
  by (auto simp: cow_copy_def make_snapshot_def cow_inv_def cow_content_def nth_append cow_version_id_def)

lemma cow_assign_content:
  assumes "cow_inv (h, self)" "cow_inv (h, src)"
  shows "cow_inv (cow_assign h self src)" "cow_content (cow_assign h self src) = cow_content (h, src)"
  using assms by (auto simp: cow_assign_def make_snapshot_def cow_inv_def cow_content_def nth_append)

section \<open>Properties\<close>

text \<open>C37: A snapshot that \<^verbatim>\<open>CopyOnWriteBuffer::snapshot_ptr\<close> has handed to a reader keeps its
  vector through any later sequence of \<^verbatim>\<open>put\<close>, \<^verbatim>\<open>get\<close> and \<^verbatim>\<open>clear\<close> on the buffer.\<close>
theorem cow_snapshot_stable:
  assumes "cow_inv (h, b)"
  shows "fst (snd (q1_run cow_put cow_get cow_clear ops (h, b))) ! cow_snapshot_ptr b = cow_content (h, b)"
  using assms cow_run_preserves [of "cow_current b" h ops b]
  by (simp add: cow_inv_def cow_snapshot_ptr_def cow_content_def)

theorem cow_snapshot_stable_witness:
  "cow_inv (cow_put 5 (cow_init []))
   \<and> fst (snd (q1_run cow_put cow_get cow_clear [Put 6, Get, Clear] (cow_put 5 (cow_init []))))
       ! cow_snapshot_ptr (snd (cow_put 5 (cow_init []))) = [5]"
proof -
  obtain h b where s: "cow_put 5 (cow_init []) = (h, b)" by (cases "cow_put 5 (cow_init [])")
  have "cow_inv (cow_init [])" "cow_content (cow_init []) = []"
    by (simp_all add: cow_init_def make_snapshot_def cow_inv_def cow_content_def)
  then have i: "cow_inv (h, b)" "cow_content (h, b) = [5]"
    using cow.put_inv [of "cow_init []" 5] cow.put_content [of "cow_init []" 5] s
    by (simp_all add: place_last_def)
  show ?thesis using cow_snapshot_stable [OF i(1), of "[Put 6, Get, Clear]"] i s by simp
qed

end
