(* ===== verification/Q1_Epoch_Batched.thy ===== *)
theory Q1_Epoch_Batched imports Buffer_Contract begin

text \<open>
  The two-stage buffers of the Q1 axis: \<^verbatim>\<open>EpochBuffer\<close> (a current and a retired epoch) and
  \<^verbatim>\<open>BatchedInsertBuffer\<close> (a current batch and a list of completed batches).  The batch buffer is
  a FIFO queue; the epoch buffer delivers in FIFO order but overwrites a retired epoch that has not
  been drained, which the lemmas below quantify.
\<close>

section \<open>EpochBuffer\<close>

record epoch = q1_base +
  ep_current :: "u64 list"
  ep_retired :: "u64 list"
  ep_threshold :: nat
  ep_epoch_id :: u64

definition ep_init :: "nat \<Rightarrow> epoch" where
  "ep_init threshold = \<lparr>q1_stats = stats_zero, ep_current = [], ep_retired = [],
     ep_threshold = (if threshold = 0 then 1 else threshold), ep_epoch_id = 0\<rparr>"

definition ep_copy :: "epoch \<Rightarrow> epoch" where
  "ep_copy src = \<lparr>q1_stats = q1_stats src, ep_current = ep_current src, ep_retired = ep_retired src,
     ep_threshold = ep_threshold src, ep_epoch_id = ep_epoch_id src\<rparr>"

definition ep_assign :: "epoch \<Rightarrow> epoch \<Rightarrow> epoch" where
  "ep_assign self src = self\<lparr>ep_current := ep_current src, ep_retired := ep_retired src,
     ep_threshold := ep_threshold src, ep_epoch_id := ep_epoch_id src, q1_stats := q1_stats src\<rparr>"

definition ep_eq :: "epoch \<Rightarrow> epoch \<Rightarrow> bool" where
  "ep_eq a b = (length (ep_current a) = length (ep_current b))"

definition ep_put :: "u64 \<Rightarrow> epoch \<Rightarrow> epoch" where
  "ep_put v b =
     (let b1 = b\<lparr>ep_current := ep_current b @ [v]\<rparr>;
          b2 = (if ep_threshold b1 \<le> length (ep_current b1)
                then b1\<lparr>ep_retired := ep_current b1, ep_current := [], ep_epoch_id := ep_epoch_id b1 + 1\<rparr>
                else b1)
      in note_put (length (ep_current b2) + length (ep_retired b2)) b2)"

definition ep_get :: "epoch \<Rightarrow> u64 option \<times> epoch" where
  "ep_get b =
     (if ep_retired b \<noteq> [] then (Some (hd (ep_retired b)), note_get (b\<lparr>ep_retired := tl (ep_retired b)\<rparr>))
      else if ep_current b = [] then (None, note_underflow b)
      else (Some (hd (ep_current b)), note_get (b\<lparr>ep_current := tl (ep_current b)\<rparr>)))"

definition ep_size :: "epoch \<Rightarrow> nat" where
  "ep_size b = length (ep_current b) + length (ep_retired b)"

definition ep_is_empty :: "epoch \<Rightarrow> bool" where
  "ep_is_empty b = (ep_current b = [] \<and> ep_retired b = [])"

definition ep_clear :: "epoch \<Rightarrow> epoch" where
  "ep_clear b = b\<lparr>ep_current := [], ep_retired := []\<rparr>"

definition ep_peek_front :: "epoch \<Rightarrow> u64 option" where
  "ep_peek_front b = (if ep_retired b \<noteq> [] then Some (hd (ep_retired b))
     else if ep_current b \<noteq> [] then Some (hd (ep_current b)) else None)"

definition ep_peek_back :: "epoch \<Rightarrow> u64 option" where
  "ep_peek_back b = (if ep_current b \<noteq> [] then Some (last (ep_current b))
     else if ep_retired b \<noteq> [] then Some (last (ep_retired b)) else None)"

definition ep_emplace :: "u64 \<Rightarrow> epoch \<Rightarrow> epoch" where
  "ep_emplace v b = ep_put v b"

definition ep_version_id :: "epoch \<Rightarrow> u64" where
  "ep_version_id b = ep_epoch_id b"

definition ep_set_iterable_aspect :: "nat \<Rightarrow> epoch \<Rightarrow> epoch" where
  "ep_set_iterable_aspect t b = b\<lparr>ep_threshold := (if t = 0 then 1 else t)\<rparr>"

lemma ep_note [simp]:
  "ep_current (note_put n b) = ep_current b" "ep_retired (note_put n b) = ep_retired b"
  "ep_threshold (note_put n b) = ep_threshold b" "ep_epoch_id (note_put n b) = ep_epoch_id b"
  "ep_current (note_get b) = ep_current b" "ep_retired (note_get b) = ep_retired b"
  "ep_threshold (note_get b) = ep_threshold b" "ep_epoch_id (note_get b) = ep_epoch_id b"
  "ep_current (note_underflow b) = ep_current b" "ep_retired (note_underflow b) = ep_retired b"
  "ep_threshold (note_underflow b) = ep_threshold b" "ep_epoch_id (note_underflow b) = ep_epoch_id b"
  by (simp_all add: stats_defs)

lemmas ep_defs = ep_put_def ep_get_def ep_size_def ep_is_empty_def ep_clear_def
  ep_peek_front_def ep_peek_back_def

definition ep_content :: "epoch \<Rightarrow> u64 list" where
  "ep_content b = ep_retired b @ ep_current b"

lemma last_opt_append: "last_opt (xs @ ys) = (if ys = [] then last_opt xs else Some (last ys))"
  by (auto simp: last_opt_def)

interpretation epoch: q1_observed "\<lambda>_. True" ep_content ep_get ep_clear
    ep_size ep_is_empty ep_peek_front ep_peek_back
  by unfold_locales
    (auto simp: ep_defs ep_content_def head_opt_def last_opt_append last_opt_def split: list.splits)

text \<open>A \<^verbatim>\<open>put\<close> is a queue step exactly when it does not complete an epoch or the retired epoch
  has been drained; otherwise the retired elements are overwritten.\<close>
lemma ep_put_content:
  "ep_content (ep_put v b) =
     (if ep_threshold b \<le> Suc (length (ep_current b)) then ep_current b @ [v]
      else ep_content b @ [v])"
  by (simp add: ep_put_def ep_content_def Let_def)

lemma ep_put_keeps:
  assumes "ep_retired b = [] \<or> Suc (length (ep_current b)) < ep_threshold b"
  shows "ep_content (ep_put v b) = ep_content b @ [v]"
  using assms unfolding ep_put_content by (auto simp: ep_content_def)

lemma ep_put_loss:
  assumes "ep_threshold b \<le> Suc (length (ep_current b))"
  shows "length (ep_content b) + 1 = length (ep_content (ep_put v b)) + length (ep_retired b)"
    "overflow_count (q1_stats (ep_put v b)) = overflow_count (q1_stats b)"
proof -
  show "length (ep_content b) + 1 = length (ep_content (ep_put v b)) + length (ep_retired b)"
    using assms unfolding ep_put_content by (simp add: ep_content_def)
  show "overflow_count (q1_stats (ep_put v b)) = overflow_count (q1_stats b)"
    by (simp add: ep_put_def Let_def)
qed

lemma ep_put_threshold [simp]: "ep_threshold (ep_put v b) = ep_threshold b"
  by (simp add: ep_put_def Let_def)

lemma put_all_snoc: "put_all p (vs @ [v]) b = p v (put_all p vs b)"
  by (induction vs arbitrary: b) simp_all

text \<open>Without an intervening \<^verbatim>\<open>get\<close>, \<open>m\<close> puts keep the partial current epoch and the last full one.\<close>
lemma ep_put_all_state:
  assumes "0 < t"
  shows "ep_current (put_all ep_put vs (ep_init t)) = drop (length vs div t * t) vs
    \<and> ep_retired (put_all ep_put vs (ep_init t))
        = (if length vs < t then [] else take t (drop ((length vs div t - 1) * t) vs))
    \<and> ep_threshold (put_all ep_put vs (ep_init t)) = t
    \<and> overflow_count (q1_stats (put_all ep_put vs (ep_init t))) = 0"
proof (induction vs rule: rev_induct)
  case Nil
  then show ?case using assms by (simp add: ep_init_def stats_zero_def)
next
  case (snoc v vs)
  let ?n = "length vs"
  let ?b = "put_all ep_put vs (ep_init t)"
  have len: "length (drop (?n div t * t) vs) = ?n mod t"
    by (simp add: minus_div_mult_eq_mod)
  have le: "?n div t * t \<le> ?n" by simp
  show ?case
  proof (cases "Suc (?n mod t) = t")
    case True
    then have d: "Suc ?n div t = Suc (?n div t)" by (simp add: div_Suc mod_Suc)
    have eq: "Suc ?n = Suc (?n div t) * t" using True div_mult_mod_eq [of ?n t] by (simp only: mult_Suc)
    then have ge: "\<not> Suc ?n < t" by simp
    show ?thesis
      using snoc.IH True len d ge eq le
      by (simp add: put_all_snoc ep_put_def Let_def)
  next
    case False
    then have lt: "Suc (?n mod t) < t" using mod_less_divisor [OF assms, of ?n] by linarith
    then have d: "Suc ?n div t = ?n div t" by (simp add: div_Suc mod_Suc)
    have ge: "Suc ?n < t \<longleftrightarrow> ?n < t" using lt by (cases "Suc ?n = t") auto
    have rt: "take t (drop ((?n div t - 1) * t) (vs @ [v])) = take t (drop ((?n div t - 1) * t) vs)"
      if "\<not> ?n < t"
    proof -
      have "1 \<le> ?n div t" using that assms by (simp add: div_greater_zero_iff Suc_leI)
      then have "(?n div t - 1) * t + t \<le> ?n"
        using le by (metis add.commute le_add_diff_inverse mult_Suc plus_1_eq_Suc)
      then show ?thesis by simp
    qed
    show ?thesis
      using snoc.IH len d ge le lt rt
      by (simp add: put_all_snoc ep_put_def Let_def)
  qed
qed


lemma ep_put_all_content:
  assumes "0 < t"
  shows "ep_content (put_all ep_put vs (ep_init t)) = drop ((length vs div t - 1) * t) vs"
proof (cases "length vs < t")
  case True
  then show ?thesis using ep_put_all_state [OF assms, of vs] by (simp add: ep_content_def)
next
  case False
  let ?k = "length vs div t"
  have "1 \<le> ?k" using False assms by (simp add: div_greater_zero_iff Suc_leI)
  then have k: "(?k - 1) * t + t = ?k * t" by (metis add.commute le_add_diff_inverse mult_Suc plus_1_eq_Suc)
  have "take t (drop ((?k - 1) * t) vs) @ drop (?k * t) vs = drop ((?k - 1) * t) vs"
    using append_take_drop_id [of t "drop ((?k - 1) * t) vs"] k by (simp add: add.commute)
  then show ?thesis using ep_put_all_state [OF assms, of vs] False by (simp add: ep_content_def)
qed

section \<open>BatchedInsertBuffer\<close>

record batched = q1_base +
  bi_current :: "u64 list"
  bi_completed :: "u64 list list"
  bi_batch_size :: nat

definition bi_default_batch_size :: nat where
  "bi_default_batch_size = 64"

definition bi_init :: "nat \<Rightarrow> batched" where
  "bi_init batch_size = \<lparr>q1_stats = stats_zero, bi_current = [], bi_completed = [],
     bi_batch_size = (if batch_size = 0 then bi_default_batch_size else batch_size)\<rparr>"

text \<open>\<^verbatim>\<open>rebind_completed_from\<close> appends a copy of each batch to the (fresh or cleared) list.\<close>
definition bi_rebind_completed :: "u64 list list \<Rightarrow> u64 list list \<Rightarrow> u64 list list" where
  "bi_rebind_completed src dst = fold (\<lambda>b acc. acc @ [b]) src dst"

definition bi_copy :: "batched \<Rightarrow> batched" where
  "bi_copy src = \<lparr>q1_stats = q1_stats src, bi_current = bi_current src,
     bi_completed = bi_rebind_completed (bi_completed src) [], bi_batch_size = bi_batch_size src\<rparr>"

definition bi_assign :: "batched \<Rightarrow> batched \<Rightarrow> batched" where
  "bi_assign self src = self\<lparr>bi_current := bi_current src,
     bi_completed := bi_rebind_completed (bi_completed src) [],
     bi_batch_size := bi_batch_size src, q1_stats := q1_stats src\<rparr>"

definition bi_size :: "batched \<Rightarrow> nat" where
  "bi_size b = fold (\<lambda>c total. total + length c) (bi_completed b) (length (bi_current b))"

definition bi_put :: "u64 \<Rightarrow> batched \<Rightarrow> batched" where
  "bi_put v b =
     (let b1 = b\<lparr>bi_current := bi_current b @ [v]\<rparr>;
          b2 = (if bi_batch_size b1 \<le> length (bi_current b1)
                then b1\<lparr>bi_completed := bi_completed b1 @ [bi_current b1], bi_current := []\<rparr> else b1)
      in note_put (bi_size b2) b2)"

text \<open>The loop of \<^verbatim>\<open>bulk_insert\<close> that moves full batches away; it would not end for batch size 0.\<close>
partial_function (option) bi_split :: "nat \<Rightarrow> u64 list \<Rightarrow> u64 list list \<Rightarrow> (u64 list \<times> u64 list list) option" where
  "bi_split bs cur completed = (if bs \<le> length cur
     then bi_split bs (drop bs cur) (completed @ [take bs cur]) else Some (cur, completed))"

definition bi_bulk_insert :: "u64 list \<Rightarrow> batched \<Rightarrow> batched option" where
  "bi_bulk_insert batch b =
     (if batch = [] then Some b
      else (case bi_split (bi_batch_size b) (bi_current b @ batch) (bi_completed b) of
          None \<Rightarrow> None
        | Some (cur, completed) \<Rightarrow>
            (let b1 = b\<lparr>bi_current := cur, bi_completed := completed\<rparr>
             in Some (b1\<lparr>q1_stats := bump_peak (bi_size b1) ((q1_stats b1)\<lparr>total_put_count :=
                    total_put_count (q1_stats b1) + word_of_nat (length batch)\<rparr>)\<rparr>))))"

definition bi_get_current :: "batched \<Rightarrow> u64 option \<times> batched" where
  "bi_get_current b = (if bi_current b = [] then (None, note_underflow b)
     else (Some (hd (bi_current b)), note_get (b\<lparr>bi_current := tl (bi_current b)\<rparr>)))"

definition bi_get :: "batched \<Rightarrow> u64 option \<times> batched" where
  "bi_get b = (case bi_completed b of
     [] \<Rightarrow> bi_get_current b
   | head # rest \<Rightarrow>
       (if head \<noteq> [] then
          (let b1 = b\<lparr>bi_completed := (if tl head = [] then rest else tl head # rest)\<rparr>
           in (Some (hd head), note_get b1))
        else bi_get_current (b\<lparr>bi_completed := rest\<rparr>)))"

definition bi_is_empty :: "batched \<Rightarrow> bool" where
  "bi_is_empty b = (bi_size b = 0)"

definition bi_clear :: "batched \<Rightarrow> batched" where
  "bi_clear b = b\<lparr>bi_current := [], bi_completed := []\<rparr>"

primrec bi_first_nonempty :: "u64 list list \<Rightarrow> u64 list option" where
  "bi_first_nonempty [] = None"
| "bi_first_nonempty (c # cs) = (if c \<noteq> [] then Some c else bi_first_nonempty cs)"

definition bi_peek_front :: "batched \<Rightarrow> u64 option" where
  "bi_peek_front b = (case bi_first_nonempty (bi_completed b) of
     Some c \<Rightarrow> Some (hd c)
   | None \<Rightarrow> if bi_current b \<noteq> [] then Some (hd (bi_current b)) else None)"

definition bi_peek_back :: "batched \<Rightarrow> u64 option" where
  "bi_peek_back b = (if bi_current b \<noteq> [] then Some (last (bi_current b))
     else (case bi_first_nonempty (rev (bi_completed b)) of Some c \<Rightarrow> Some (last c) | None \<Rightarrow> None))"

definition bi_emplace :: "u64 \<Rightarrow> batched \<Rightarrow> batched" where
  "bi_emplace v b = bi_put v b"

definition bi_completed_batch_count :: "batched \<Rightarrow> nat" where
  "bi_completed_batch_count b = length (bi_completed b)"


lemma bi_note [simp]:
  "bi_current (note_put n b) = bi_current b" "bi_completed (note_put n b) = bi_completed b"
  "bi_batch_size (note_put n b) = bi_batch_size b"
  "bi_current (note_get b) = bi_current b" "bi_completed (note_get b) = bi_completed b"
  "bi_batch_size (note_get b) = bi_batch_size b"
  "bi_current (note_underflow b) = bi_current b" "bi_completed (note_underflow b) = bi_completed b"
  "bi_batch_size (note_underflow b) = bi_batch_size b"
  by (simp_all add: stats_defs)

text \<open>Completed batches are never empty and the current batch is never full.\<close>
definition bi_inv :: "batched \<Rightarrow> bool" where
  "bi_inv b = (0 < bi_batch_size b \<and> [] \<notin> set (bi_completed b) \<and> length (bi_current b) < bi_batch_size b)"

definition bi_content :: "batched \<Rightarrow> u64 list" where
  "bi_content b = concat (bi_completed b) @ bi_current b"

lemma fold_length: "fold (\<lambda>c total. total + length c) cs n = n + length (concat cs)"
  by (induction cs arbitrary: n) simp_all

lemma bi_size_content: "bi_size b = length (bi_content b)"
  by (simp add: bi_size_def bi_content_def fold_length)

lemma bi_rebind_append: "bi_rebind_completed src dst = dst @ src"
  unfolding bi_rebind_completed_def by (induction src arbitrary: dst) simp_all

lemma bi_copy_same: "bi_copy b = b"
  by (cases b) (simp add: bi_copy_def bi_rebind_append)

lemma bi_first_nonempty_head:
  "bi_first_nonempty cs = None \<Longrightarrow> concat cs = []"
  "bi_first_nonempty cs = Some c \<Longrightarrow> c \<noteq> [] \<and> (\<exists>r. concat cs = c @ r)"
  by (induction cs) (auto split: if_splits)

lemma bi_first_nonempty_last:
  "bi_first_nonempty (rev cs) = None \<Longrightarrow> concat cs = []"
  "bi_first_nonempty (rev cs) = Some c \<Longrightarrow> c \<noteq> [] \<and> (\<exists>r. concat cs = r @ c)"
  by (induction cs rule: rev_induct) (auto split: if_splits)

lemma head_opt_append: "head_opt (xs @ ys) = (if xs = [] then head_opt ys else head_opt xs)"
  by (cases xs) simp_all

lemma bi_get_content:
  "fst (bi_get b) = head_opt (bi_content b)"
  "bi_content (snd (bi_get b)) = tl (bi_content b)" if "bi_inv b"
  using that
  by (auto simp: bi_get_def bi_get_current_def bi_content_def bi_inv_def head_opt_hd head_opt_append Let_def
      split: list.splits)

lemma bi_get_inv: "bi_inv b \<Longrightarrow> bi_inv (snd (bi_get b))"
  by (auto simp: bi_get_def bi_get_current_def bi_inv_def Let_def split: list.splits)

lemma bi_put_inv: "bi_inv b \<Longrightarrow> bi_inv (bi_put v b)"
  by (auto simp: bi_put_def bi_inv_def Let_def)

lemma bi_put_content: "bi_content (bi_put v b) = bi_content b @ [v]"
  by (simp add: bi_put_def bi_content_def Let_def)

interpretation batched: q1_fifo bi_inv bi_content bi_get bi_clear bi_put
  by unfold_locales
    (simp_all add: bi_get_content bi_get_inv bi_put_inv bi_put_content place_last_def,
     simp_all add: bi_clear_def bi_inv_def bi_content_def)

interpretation batched: q1_observed bi_inv bi_content bi_get bi_clear
    bi_size bi_is_empty bi_peek_front bi_peek_back
proof unfold_locales
  fix b assume "bi_inv b"
  show "bi_peek_front b = head_opt (bi_content b)"
  proof (cases "bi_first_nonempty (bi_completed b)")
    case None
    then show ?thesis using bi_first_nonempty_head(1) [OF None]
      by (simp only: bi_peek_front_def bi_content_def) (simp add: head_opt_hd)
  next
    case (Some c)
    then obtain r where "c \<noteq> []" "concat (bi_completed b) = c @ r"
      using bi_first_nonempty_head(2) by blast
    then show ?thesis using Some by (simp add: bi_peek_front_def bi_content_def head_opt_hd)
  qed
  show "bi_peek_back b = last_opt (bi_content b)"
  proof (cases "bi_first_nonempty (rev (bi_completed b))")
    case None
    then show ?thesis using bi_first_nonempty_last(1) [OF None]
      by (simp only: bi_peek_back_def bi_content_def) (simp add: last_opt_def)
  next
    case (Some c)
    then obtain r where "c \<noteq> []" "concat (bi_completed b) = r @ c"
      using bi_first_nonempty_last(2) by blast
    then show ?thesis using Some by (simp add: bi_peek_back_def bi_content_def last_opt_def)
  qed
qed (simp_all add: bi_size_content bi_is_empty_def)

interpretation batched: q1_accounted bi_inv bi_content bi_get bi_clear bi_put place_last q1_stats False
proof unfold_locales
  fix b v assume i: "bi_inv b"
  show "flow False (q1_stats (bi_put v b)) - word_of_nat (length (bi_content (bi_put v b))) =
      flow False (q1_stats b) - word_of_nat (length (bi_content b))"
    unfolding bi_put_content by (simp add: bi_put_def Let_def flow_def algebra_simps)
  show "q1_stats (snd (bi_get b)) = (if bi_content b = []
      then (q1_stats b)\<lparr>underflow_count := underflow_count (q1_stats b) + 1\<rparr>
      else (q1_stats b)\<lparr>total_get_count := total_get_count (q1_stats b) + 1\<rparr>)"
    using i by (auto simp: bi_get_def bi_get_current_def note_get_def note_underflow_def bi_content_def
        bi_inv_def Let_def split: list.splits)
qed (simp_all add: bi_put_def bi_clear_def Let_def)

text \<open>The bulk path ends for every positive batch size and has the effect of the single puts.\<close>
lemma bi_split_result:
  assumes "0 < bs"
  shows "\<exists>cur' cs. bi_split bs cur completed = Some (cur', completed @ cs)
    \<and> concat cs @ cur' = cur \<and> length cur' < bs \<and> (\<forall>c\<in>set cs. length c = bs)"
proof (induction "length cur" arbitrary: cur completed rule: less_induct)
  case less
  show ?case
  proof (cases "bs \<le> length cur")
    case True
    then have lt: "length (drop bs cur) < length cur" using assms by simp
    then obtain cur' cs where r: "bi_split bs (drop bs cur) (completed @ [take bs cur])
        = Some (cur', (completed @ [take bs cur]) @ cs)"
      "concat cs @ cur' = drop bs cur" "length cur' < bs" "\<forall>c\<in>set cs. length c = bs"
      using less [of "drop bs cur" "completed @ [take bs cur]"] lt by blast
    then show ?thesis using True
      by (intro exI [of _ cur'] exI [of _ "take bs cur # cs"]) (simp add: bi_split.simps [of bs cur])
  next
    case False
    then show ?thesis
      by (intro exI [of _ cur] exI [of _ "[]"]) (simp add: bi_split.simps [of bs cur])
  qed
qed


lemma bi_bulk_insert_result:
  assumes "bi_inv b"
  shows "\<exists>b'. bi_bulk_insert vs b = Some b' \<and> bi_inv b' \<and> bi_content b' = bi_content b @ vs
    \<and> total_put_count (q1_stats b') = total_put_count (q1_stats b) + word_of_nat (length vs)"
proof -
  have bs: "0 < bi_batch_size b" using assms by (simp add: bi_inv_def)
  obtain cur cs where r: "bi_split (bi_batch_size b) (bi_current b @ vs) (bi_completed b)
      = Some (cur, bi_completed b @ cs)" "concat cs @ cur = bi_current b @ vs"
    "length cur < bi_batch_size b" "\<forall>c\<in>set cs. length c = bi_batch_size b"
    using bi_split_result [OF bs] by blast
  then have "[] \<notin> set cs" using bs by auto
  then show ?thesis using assms r
    by (auto simp: bi_bulk_insert_def bi_inv_def bi_content_def Let_def)
qed

lemma bump_peak_twice:
  "m \<le> n \<Longrightarrow> n < 2 ^ 64 \<Longrightarrow> bump_peak n ((bump_peak m s)\<lparr>total_put_count := c\<rparr>) = bump_peak n (s\<lparr>total_put_count := c\<rparr>)"
  using word_of_nat_mono [of m n, where 'a = 64]
  by (cases s) (auto simp: bump_peak_def)

lemma bi_bulk_insert_put:
  assumes "bi_inv b" "length (bi_content b) + Suc (length vs) < 2 ^ 64"
  shows "bi_bulk_insert (v # vs) b = bi_bulk_insert vs (bi_put v b)"
proof (cases "vs = []")
  case True
  then show ?thesis using assms(1)
    by (cases b) (auto simp: bi_bulk_insert_def bi_put_def bi_inv_def bi_split.simps [of _ "_ @ _"]
        bi_split.simps [of _ "[]"] note_put_def Let_def)
next
  case False
  have len: "length (bi_current b) < bi_batch_size b" using assms(1) by (simp add: bi_inv_def)
  define b1 where "b1 = bi_put v b"
  have sp: "bi_split (bi_batch_size b) (bi_current b @ v # vs) (bi_completed b)
      = bi_split (bi_batch_size b) (bi_current b1 @ vs) (bi_completed b1)"
  proof (cases "Suc (length (bi_current b)) = bi_batch_size b")
    case True
    then have "bi_batch_size b - length (bi_current b) = Suc 0" by simp
    then show ?thesis using True bi_split.simps [of "bi_batch_size b" "bi_current b @ v # vs"]
      by (simp add: b1_def bi_put_def Let_def)
  next
    case False
    then show ?thesis using len by (simp add: b1_def bi_put_def Let_def)
  qed
  obtain cur cs where r: "bi_split (bi_batch_size b) (bi_current b1 @ vs) (bi_completed b1)
      = Some (cur, bi_completed b1 @ cs)" "concat cs @ cur = bi_current b1 @ vs"
    using bi_split_result [of "bi_batch_size b"] len by (metis gr_zeroI not_less0)
  define n where "n = length (concat (bi_completed b1 @ cs)) + length cur"
  have n_eq: "length cur + (length (concat (bi_completed b1)) + length (concat cs)) = n"
    by (simp add: n_def)
  have n: "n = length (bi_content b) + Suc (length vs)"
  proof -
    have "n = length (bi_content b1 @ vs)" using arg_cong [OF r(2), of length] by (simp add: n_def bi_content_def)
    then show ?thesis by (simp add: b1_def bi_put_content)
  qed
  have st: "q1_stats b1 = bump_peak (length (bi_content b) + 1)
      ((q1_stats b)\<lparr>total_put_count := total_put_count (q1_stats b) + 1\<rparr>)"
    using bi_put_content [of v b] by (simp add: b1_def bi_put_def note_put_def bi_size_content bi_content_def Let_def)
  have rest: "b1 = b\<lparr>bi_current := bi_current b1, bi_completed := bi_completed b1, q1_stats := q1_stats b1\<rparr>"
    by (cases b) (simp add: b1_def bi_put_def note_put_def Let_def)
  have "bump_peak n ((q1_stats b1)\<lparr>total_put_count := total_put_count (q1_stats b1) + word_of_nat (length vs)\<rparr>)
      = bump_peak n ((q1_stats b)\<lparr>total_put_count := total_put_count (q1_stats b) + word_of_nat (length (v # vs))\<rparr>)"
    unfolding st using n assms(2) by (simp add: bump_peak_twice ac_simps)
  then show ?thesis
    using sp r(1) False unfolding b1_def [symmetric]
    by (subst rest) (auto simp: bi_bulk_insert_def bi_size_def fold_length n_eq Let_def)
qed

lemma bi_bulk_insert_puts:
  "bi_inv b \<Longrightarrow> length (bi_content b) + length vs < 2 ^ 64 \<Longrightarrow> bi_bulk_insert vs b = Some (put_all bi_put vs b)"
proof (induction vs arbitrary: b)
  case (Cons v vs)
  then show ?case
    using bi_bulk_insert_put [OF Cons.prems(1)] bi_put_inv [OF Cons.prems(1)]
    by (simp add: bi_put_content)
qed (simp add: bi_bulk_insert_def)

lemma bi_init_ok: "bi_inv (bi_init n)" "bi_content (bi_init n) = []"
  by (simp_all add: bi_init_def bi_inv_def bi_content_def bi_default_batch_size_def)

section \<open>Properties\<close>

text \<open>C36: Without an intervening \<^verbatim>\<open>get\<close>, an \<^verbatim>\<open>EpochBuffer\<close> of threshold \<open>t\<close> keeps, of \<open>m\<close> elements
  put, only those of the last completed epoch and of the current one; everything before is
  overwritten, and the overflow counter stays zero.\<close>
theorem epoch_keeps_last_epochs:
  assumes "0 < t"
  shows "ep_content (put_all ep_put vs (ep_init t)) = drop ((length vs div t - 1) * t) vs
    \<and> overflow_count (q1_stats (put_all ep_put vs (ep_init t))) = 0"
  using ep_put_all_content [OF assms] ep_put_all_state [OF assms] by blast

theorem epoch_keeps_last_epochs_witness:
  "(0 :: nat) < 2 \<and> ep_content (put_all ep_put [1, 2, 3, 4, 5] (ep_init 2)) = [3, 4, 5]
   \<and> overflow_count (q1_stats (put_all ep_put [1, 2, 3, 4, 5] (ep_init 2))) = 0"
  using epoch_keeps_last_epochs [of 2 "[1, 2, 3, 4, 5]"] by simp

text \<open>\<^verbatim>\<open>BatchedInsertBuffer::bulk_insert\<close> returns and leaves the buffer, statistics included, in the
  state that putting the elements one by one leaves it in, for every buffer whose size stays
  below \<open>2 ^ 64\<close>.\<close>
lemma bulk_insert_is_put_all:
  assumes "bi_inv b" "length (bi_content b) + length vs < 2 ^ 64"
  shows "bi_bulk_insert vs b = Some (put_all bi_put vs b)"
  using assms by (rule bi_bulk_insert_puts)

end
