(* ===== verification/Q1_Ordered.thy ===== *)
theory Q1_Ordered imports Buffer_Contract begin

text \<open>
  The ordered buffers of the Q1 axis: \<^verbatim>\<open>PriorityHeapBuffer\<close> over \<^verbatim>\<open>std::priority_queue\<close> with
  \<^verbatim>\<open>std::less\<close> (a max-heap) and \<^verbatim>\<open>SkiplistBuffer\<close> over \<^verbatim>\<open>std::set\<close>.  The two standard containers
  are modelled by the ordered list of their elements, which their interface fixes completely:
  \<^verbatim>\<open>top\<close>/\<^verbatim>\<open>pop\<close> read and remove the head of a descending list, \<^verbatim>\<open>begin\<close>/\<^verbatim>\<open>rbegin\<close> read the
  ends of an ascending list without duplicates.
\<close>

section \<open>Ordered lists\<close>

primrec insert_desc :: "u64 \<Rightarrow> u64 list \<Rightarrow> u64 list" where
  "insert_desc v [] = [v]"
| "insert_desc v (x # xs) = (if x \<le> v then v # x # xs else x # insert_desc v xs)"

text \<open>\<^verbatim>\<open>std::set::insert\<close>: a key that is present leaves the set as it is.\<close>
primrec insert_set :: "u64 \<Rightarrow> u64 list \<Rightarrow> u64 list" where
  "insert_set v [] = [v]"
| "insert_set v (x # xs) = (if v < x then v # x # xs else if v = x then x # xs else x # insert_set v xs)"

lemma set_insert_desc [simp]: "set (insert_desc v xs) = insert v (set xs)"
  by (induction xs) auto

lemma mset_insert_desc [simp]: "mset (insert_desc v xs) = add_mset v (mset xs)"
  by (induction xs) auto

lemma insert_desc_not_Nil [simp]: "insert_desc v xs \<noteq> []"
  by (cases xs) auto

lemma sorted_insert_desc: "sorted_wrt (\<ge>) xs \<Longrightarrow> sorted_wrt (\<ge>) (insert_desc v xs)"
  by (induction xs) auto

lemma last_insert_desc:
  "sorted_wrt (\<ge>) xs \<Longrightarrow> last (insert_desc v xs) = (if xs = [] then v else min v (last xs))"
proof (induction xs)
  case (Cons x xs)
  show ?case
  proof (cases "xs = []")
    case False
    then have "x \<le> v \<Longrightarrow> min v (last xs) = last xs"
      using Cons.prems by (simp add: min_absorb2 order_trans [of "last xs" x v])
    then show ?thesis using Cons False by auto
  qed (auto simp: min_def)
qed simp

lemma set_insert_set [simp]: "set (insert_set v xs) = insert v (set xs)"
  by (induction xs) auto

lemma sorted_insert_set: "sorted_wrt (<) xs \<Longrightarrow> sorted_wrt (<) (insert_set v xs)"
  by (induction xs) auto

lemma length_insert_set: "sorted_wrt (<) xs \<Longrightarrow> length (insert_set v xs) = length xs + (if v \<in> set xs then 0 else 1)"
  by (induction xs) auto

section \<open>PriorityHeapBuffer\<close>

record prio_heap = q1_base +
  ph_heap :: "u64 list"
  ph_min :: "u64 option"

definition ph_init :: prio_heap where
  "ph_init = \<lparr>q1_stats = stats_zero, ph_heap = [], ph_min = None\<rparr>"

definition ph_copy :: "prio_heap \<Rightarrow> prio_heap" where
  "ph_copy src = \<lparr>q1_stats = q1_stats src, ph_heap = ph_heap src, ph_min = ph_min src\<rparr>"

definition ph_assign :: "prio_heap \<Rightarrow> prio_heap \<Rightarrow> prio_heap" where
  "ph_assign self src = self\<lparr>ph_heap := ph_heap src, ph_min := ph_min src, q1_stats := q1_stats src\<rparr>"

definition ph_eq :: "prio_heap \<Rightarrow> prio_heap \<Rightarrow> bool" where
  "ph_eq a b = (length (ph_heap a) = length (ph_heap b))"

definition ph_put :: "u64 \<Rightarrow> prio_heap \<Rightarrow> prio_heap" where
  "ph_put v b =
     (let b1 = b\<lparr>ph_heap := insert_desc v (ph_heap b)\<rparr>;
          b2 = (if ph_min b1 = None \<or> v < the (ph_min b1) then b1\<lparr>ph_min := Some v\<rparr> else b1)
      in note_put (length (ph_heap b2)) b2)"

definition ph_get :: "prio_heap \<Rightarrow> u64 option \<times> prio_heap" where
  "ph_get b = (if ph_heap b = [] then (None, note_underflow b)
     else (let v = hd (ph_heap b);
               b1 = b\<lparr>ph_heap := tl (ph_heap b)\<rparr>;
               b2 = (if ph_heap b1 = [] then b1\<lparr>ph_min := None\<rparr> else b1)
           in (Some v, note_get b2)))"

definition ph_size :: "prio_heap \<Rightarrow> nat" where
  "ph_size b = length (ph_heap b)"

definition ph_is_empty :: "prio_heap \<Rightarrow> bool" where
  "ph_is_empty b = (ph_heap b = [])"

definition ph_clear :: "prio_heap \<Rightarrow> prio_heap" where
  "ph_clear b = b\<lparr>ph_heap := [], ph_min := None\<rparr>"

definition ph_peek_front :: "prio_heap \<Rightarrow> u64 option" where
  "ph_peek_front b = (if ph_heap b = [] then None else Some (hd (ph_heap b)))"

definition ph_peek_back :: "prio_heap \<Rightarrow> u64 option" where
  "ph_peek_back b = ph_min b"

definition ph_emplace :: "u64 \<Rightarrow> prio_heap \<Rightarrow> prio_heap" where
  "ph_emplace v b = ph_put v b"

lemma ph_note [simp]:
  "ph_heap (note_put n b) = ph_heap b" "ph_min (note_put n b) = ph_min b"
  "ph_heap (note_get b) = ph_heap b" "ph_min (note_get b) = ph_min b"
  "ph_heap (note_underflow b) = ph_heap b" "ph_min (note_underflow b) = ph_min b"
  by (simp_all add: stats_defs)

lemmas ph_defs = ph_put_def ph_get_def ph_size_def ph_is_empty_def ph_clear_def
  ph_peek_front_def ph_peek_back_def

text \<open>The tracked minimum is exact: a maximum is removed, so the minimum leaves only as the last
  element.\<close>
definition ph_inv :: "prio_heap \<Rightarrow> bool" where
  "ph_inv b = (sorted_wrt (\<ge>) (ph_heap b) \<and> ph_min b = last_opt (ph_heap b))"

lemma last_opt_tl: "tl xs \<noteq> [] \<Longrightarrow> last_opt (tl xs) = last_opt xs"
  by (cases xs) (auto simp: last_opt_def)

lemma ph_put_inv: "ph_inv b \<Longrightarrow> ph_inv (ph_put v b)"
  by (auto simp: ph_inv_def ph_put_def Let_def sorted_insert_desc last_insert_desc last_opt_def
      split: if_splits)

lemma ph_get_inv: "ph_inv b \<Longrightarrow> ph_inv (snd (ph_get b))"
  by (cases "ph_heap b") (auto simp: ph_inv_def ph_get_def Let_def last_opt_def)

interpretation prio: q1_placing ph_inv ph_heap ph_get ph_clear ph_put insert_desc
  by unfold_locales
    (simp_all add: ph_put_inv ph_get_inv, auto simp: ph_defs ph_inv_def head_opt_hd Let_def)

interpretation prio: q1_observed ph_inv ph_heap ph_get ph_clear
    ph_size ph_is_empty ph_peek_front ph_peek_back
  by unfold_locales (auto simp: ph_defs ph_inv_def head_opt_hd)

lemma length_insert_desc [simp]: "length (insert_desc v xs) = Suc (length xs)"
  by (induction xs) auto

interpretation prio: q1_accounted ph_inv ph_heap ph_get ph_clear ph_put insert_desc q1_stats False
  by unfold_locales
    (auto simp: ph_defs Let_def flow_def algebra_simps note_get_def note_underflow_def)

text \<open>Filling and draining sorts: the drained list is the descending permutation of the input.\<close>
lemma fold_insert_desc:
  "sorted_wrt (\<ge>) q \<Longrightarrow> sorted_wrt (\<ge>) (fold insert_desc vs q) \<and> mset (fold insert_desc vs q) = mset q + mset vs"
  by (induction vs arbitrary: q) (auto simp: sorted_insert_desc)

lemma sorted_desc_unique:
  "sorted_wrt (\<ge>) xs \<Longrightarrow> sorted_wrt (\<ge>) ys \<Longrightarrow> mset xs = mset ys \<Longrightarrow> xs = (ys :: u64 list)"
  by (metis mset_rev properties_for_sort rev_rev_ident sorted_wrt_rev)

lemma fold_insert_desc_sort: "fold insert_desc vs [] = rev (sort vs)"
  using fold_insert_desc [of "[]" vs]
  by (intro sorted_desc_unique) (simp_all add: sorted_wrt_rev)

section \<open>SkiplistBuffer\<close>

record skip_buffer = q1_base +
  sb_data :: "u64 list"

definition sb_init :: skip_buffer where
  "sb_init = \<lparr>q1_stats = stats_zero, sb_data = []\<rparr>"

definition sb_copy :: "skip_buffer \<Rightarrow> skip_buffer" where
  "sb_copy src = \<lparr>q1_stats = q1_stats src, sb_data = sb_data src\<rparr>"

definition sb_assign :: "skip_buffer \<Rightarrow> skip_buffer \<Rightarrow> skip_buffer" where
  "sb_assign self src = self\<lparr>sb_data := sb_data src, q1_stats := q1_stats src\<rparr>"

definition sb_eq :: "skip_buffer \<Rightarrow> skip_buffer \<Rightarrow> bool" where
  "sb_eq a b = (length (sb_data a) = length (sb_data b))"

definition sb_put :: "u64 \<Rightarrow> skip_buffer \<Rightarrow> skip_buffer" where
  "sb_put v b = (let b1 = b\<lparr>sb_data := insert_set v (sb_data b)\<rparr> in note_put (length (sb_data b1)) b1)"

definition sb_get :: "skip_buffer \<Rightarrow> u64 option \<times> skip_buffer" where
  "sb_get b = (if sb_data b = [] then (None, note_underflow b)
     else (Some (hd (sb_data b)), note_get (b\<lparr>sb_data := tl (sb_data b)\<rparr>)))"

definition sb_size :: "skip_buffer \<Rightarrow> nat" where
  "sb_size b = length (sb_data b)"

definition sb_is_empty :: "skip_buffer \<Rightarrow> bool" where
  "sb_is_empty b = (sb_data b = [])"

definition sb_clear :: "skip_buffer \<Rightarrow> skip_buffer" where
  "sb_clear b = b\<lparr>sb_data := []\<rparr>"

definition sb_peek_front :: "skip_buffer \<Rightarrow> u64 option" where
  "sb_peek_front b = (if sb_data b = [] then None else Some (hd (sb_data b)))"

definition sb_peek_back :: "skip_buffer \<Rightarrow> u64 option" where
  "sb_peek_back b = (if sb_data b = [] then None else Some (last (sb_data b)))"

definition sb_emplace :: "u64 \<Rightarrow> skip_buffer \<Rightarrow> skip_buffer" where
  "sb_emplace v b = sb_put v b"

lemma sb_note [simp]:
  "sb_data (note_put n b) = sb_data b" "sb_data (note_get b) = sb_data b"
  "sb_data (note_underflow b) = sb_data b"
  by (simp_all add: stats_defs)

lemmas sb_defs = sb_put_def sb_get_def sb_size_def sb_is_empty_def sb_clear_def
  sb_peek_front_def sb_peek_back_def

definition sb_inv :: "skip_buffer \<Rightarrow> bool" where
  "sb_inv b = sorted_wrt (<) (sb_data b)"

lemma sb_get_inv: "sb_inv b \<Longrightarrow> sb_inv (snd (sb_get b))"
  by (cases "sb_data b") (auto simp: sb_inv_def sb_get_def)

interpretation skipbuf: q1_placing sb_inv sb_data sb_get sb_clear sb_put insert_set
  by unfold_locales
    (simp_all add: sb_get_inv, auto simp: sb_defs sb_inv_def head_opt_hd sorted_insert_set Let_def)

interpretation skipbuf: q1_observed sb_inv sb_data sb_get sb_clear
    sb_size sb_is_empty sb_peek_front sb_peek_back
  by unfold_locales (auto simp: sb_defs head_opt_hd last_opt_def)

text \<open>Filling and draining yields the distinct elements in ascending order.\<close>
lemma fold_insert_set:
  "sorted_wrt (<) q \<Longrightarrow> sorted_wrt (<) (fold insert_set vs q) \<and> set (fold insert_set vs q) = set q \<union> set vs"
  by (induction vs arbitrary: q) (auto simp: sorted_insert_set)

lemma fold_insert_set_sorted: "fold insert_set vs [] = sorted_list_of_set (set vs)"
  using fold_insert_set [of "[]" vs]
  by (metis List.finite_set sorted_wrt.simps(1) strict_sorted_equal strict_sorted_iff
      set_sorted_list_of_set strict_sorted_list_of_set sup_bot.left_neutral list.set(1))

text \<open>Duplicates are dropped silently but counted as put, so the statistics of this buffer do not
  balance with its content.\<close>
lemma sb_put_duplicate:
  assumes "sb_inv b" "v \<in> set (sb_data b)"
  shows "sb_data (sb_put v b) = sb_data b"
    "total_put_count (q1_stats (sb_put v b)) = total_put_count (q1_stats b) + 1"
proof -
  have "insert_set v xs = xs" if "sorted_wrt (<) xs" "v \<in> set xs" for xs
    using that by (induction xs) auto
  then show "sb_data (sb_put v b) = sb_data b" using assms by (simp add: sb_put_def sb_inv_def Let_def)
  show "total_put_count (q1_stats (sb_put v b)) = total_put_count (q1_stats b) + 1"
    by (simp add: sb_put_def Let_def)
qed

section \<open>Properties\<close>

text \<open>Filling a \<^verbatim>\<open>PriorityHeapBuffer\<close> and draining it delivers the input sorted in descending order,
  and at every point \<^verbatim>\<open>peek_front\<close> shows the largest and \<^verbatim>\<open>peek_back\<close> (the tracked minimum) the
  smallest stored element.\<close>
lemma prio_heap_sorts:
  "fst (drain ph_get (length vs) (put_all ph_put vs ph_init)) = rev (sort vs)
   \<and> ph_peek_front (snd (q1_run ph_put ph_get ph_clear ops ph_init))
       = head_opt (ph_heap (snd (q1_run ph_put ph_get ph_clear ops ph_init)))
   \<and> ph_peek_back (snd (q1_run ph_put ph_get ph_clear ops ph_init))
       = last_opt (ph_heap (snd (q1_run ph_put ph_get ph_clear ops ph_init)))
   \<and> sorted_wrt (\<ge>) (ph_heap (snd (q1_run ph_put ph_get ph_clear ops ph_init)))"
proof -
  have i: "ph_inv ph_init" "ph_heap ph_init = []" by (simp_all add: ph_inv_def ph_init_def)
  have "fst (drain ph_get (length vs) (put_all ph_put vs ph_init)) = rev (sort vs)"
    using prio.put_all_drain [OF i(1), of vs "length vs"] i(2) by (simp add: fold_insert_desc_sort)
  moreover have r: "ph_inv (snd (q1_run ph_put ph_get ph_clear ops ph_init))"
    using i(1) by (rule prio.run_inv)
  ultimately show ?thesis
    using prio.peek_front_content [OF r] prio.peek_back_content [OF r] by (simp add: ph_inv_def)
qed

text \<open>Filling a \<^verbatim>\<open>SkiplistBuffer\<close> and draining it delivers the distinct elements of the input in
  ascending order.\<close>
lemma skip_buffer_sorts_distinct:
  "fst (drain sb_get (length vs) (put_all sb_put vs sb_init)) = sorted_list_of_set (set vs)"
proof -
  have i: "sb_inv sb_init" "sb_data sb_init = []" by (simp_all add: sb_inv_def sb_init_def)
  have "length (sorted_list_of_set (set vs)) \<le> length vs" by (simp add: card_length)
  then show ?thesis
    using skipbuf.put_all_drain [OF i(1), of vs "length vs"] i(2) by (simp add: fold_insert_set_sorted)
qed

end
