(* ===== verification/Ring_Slice.thy ===== *)
theory Ring_Slice imports CE_Prelude begin

text \<open>
  Segments of a ring buffer: the \<open>n\<close> elements from position \<open>h\<close> on, with wrap-around at the end
  of the backing vector.  The three ring organs of the Q1 axis (bounded ring, SPSC, MPMC) share
  these lemmas.
\<close>

definition ring_slice :: "'a list \<Rightarrow> nat \<Rightarrow> nat \<Rightarrow> 'a list" where
  "ring_slice buf h n = map (\<lambda>i. buf ! ((h + i) mod length buf)) [0..<n]"

lemma length_ring_slice [simp]: "length (ring_slice buf h n) = n"
  by (simp add: ring_slice_def)

lemma ring_slice_0 [simp]: "ring_slice buf h 0 = []"
  by (simp add: ring_slice_def)

lemma ring_slice_snoc: "ring_slice buf h (Suc n) = ring_slice buf h n @ [buf ! ((h + n) mod length buf)]"
  by (simp add: ring_slice_def)

lemma ring_slice_Cons:
  "h < length buf \<Longrightarrow> ring_slice buf h (Suc n) = buf ! h # ring_slice buf (Suc h mod length buf) n"
  by (simp add: ring_slice_def upt_conv_Cons del: upt_Suc)
    (simp add: map_Suc_upt [symmetric] mod_simps del: upt_Suc)

lemma ring_index_inj:
  assumes "i < n" "n < c"
  shows "(h + i) mod c \<noteq> (h + n) mod (c :: nat)"
proof
  assume "(h + i) mod c = (h + n) mod c"
  then have "c dvd (h + n) - (h + i)" using assms(1) by (intro mod_eq_dvd_iff_nat [THEN iffD1]) auto
  then have "c dvd n - i" by simp
  then show False using assms by (auto dest: dvd_imp_le)
qed

lemma ring_slice_update:
  assumes "n < length buf"
  shows "ring_slice (buf[(h + n) mod length buf := v]) h n = ring_slice buf h n"
proof -
  have "(buf[(h + n) mod length buf := v]) ! ((h + i) mod length buf) = buf ! ((h + i) mod length buf)"
    if "i < n" for i
    using ring_index_inj [OF that assms, of h] by simp
  then show ?thesis by (simp add: ring_slice_def)
qed

lemma ring_slice_push:
  assumes "n < length buf"
  shows "ring_slice (buf[(h + n) mod length buf := v]) h (Suc n) = ring_slice buf h n @ [v]"
proof -
  have "(h + n) mod length buf < length buf" using assms by (intro mod_less_divisor) linarith
  then show ?thesis using ring_slice_update [OF assms, of h v] by (simp add: ring_slice_snoc)
qed

lemma tl_ring_slice:
  "h < length buf \<Longrightarrow> tl (ring_slice buf h (Suc n)) = ring_slice buf (Suc h mod length buf) n"
  by (simp add: ring_slice_Cons)

lemma hd_ring_slice: "h < length buf \<Longrightarrow> 0 < n \<Longrightarrow> hd (ring_slice buf h n) = buf ! h"
  by (cases n) (simp_all add: ring_slice_Cons)

lemma last_ring_slice: "0 < n \<Longrightarrow> last (ring_slice buf h n) = buf ! ((h + n - 1) mod length buf)"
  by (cases n) (simp_all add: ring_slice_snoc)

lemma ring_slice_Nil [simp]: "ring_slice buf h n = [] \<longleftrightarrow> n = 0"
  by (metis length_0_conv length_ring_slice)

lemma ring_distance:
  assumes "h < c" "n < c"
  shows "((h + n) mod c + c - h) mod c = (n :: nat)"
proof (cases "h + n < c")
  case True
  then show ?thesis using assms by simp
next
  case False
  then have "(h + n) mod c = h + n - c" using assms by (simp add: mod_if)
  then show ?thesis using False assms by simp
qed

lemma ring_distance_mod:
  assumes "h < c" "t < c"
  shows "(h + (t + c - h) mod c) mod c = (t :: nat)"
proof -
  have "(h + (t + c - h)) mod c = t" using assms by simp
  then show ?thesis by (simp add: mod_add_right_eq)
qed


text \<open>One position before the head there is no room left.\<close>
lemma ring_next_full:
  assumes "h < c" "n < c"
  shows "Suc ((h + n) mod c) mod c = h \<longleftrightarrow> Suc n = (c :: nat)"
proof
  assume "Suc n = c"
  then have "Suc (h + n) = h + c" by simp
  then show "Suc ((h + n) mod c) mod c = h" using assms by (metis mod_Suc_eq mod_add_self2 mod_less)
next
  assume eq: "Suc ((h + n) mod c) mod c = h"
  show "Suc n = c"
  proof (rule ccontr)
    assume "Suc n \<noteq> c"
    then have "(h + 0) mod c \<noteq> (h + Suc n) mod c" using assms by (intro ring_index_inj) auto
    then show False using eq assms by (simp add: mod_Suc_eq)
  qed
qed

end
