(* ===== verification/Q1_Ring.thy ===== *)
theory Q1_Ring imports Buffer_Contract Ring_Slice begin

text \<open>
  The bounded ring of the Q1 axis, \<^verbatim>\<open>BoundedRingBuffer\<close>: when full it evicts the oldest element
  and counts an overflow.  Throwing operations return a value of \<^typ>\<open>q1_error\<close> on the left.
\<close>

record bounded_ring = q1_base +
  br_buffer :: "u64 list"
  br_capacity :: nat
  br_head :: nat
  br_tail :: nat
  br_count :: nat

definition br_default_capacity :: nat where
  "br_default_capacity = 64"

definition br_init :: "nat \<Rightarrow> q1_error + bounded_ring" where
  "br_init cap = (if cap = 0 then Inl Capacity_Zero
     else Inr \<lparr>q1_stats = stats_zero, br_buffer = replicate cap 0, br_capacity = cap,
               br_head = 0, br_tail = 0, br_count = 0\<rparr>)"

definition br_copy :: "bounded_ring \<Rightarrow> bounded_ring" where
  "br_copy src = \<lparr>q1_stats = q1_stats src, br_buffer = br_buffer src, br_capacity = br_capacity src,
     br_head = br_head src, br_tail = br_tail src, br_count = br_count src\<rparr>"

definition br_assign :: "bounded_ring \<Rightarrow> bounded_ring \<Rightarrow> bounded_ring" where
  "br_assign self src = self\<lparr>br_buffer := br_buffer src, br_capacity := br_capacity src,
     br_head := br_head src, br_tail := br_tail src, br_count := br_count src, q1_stats := q1_stats src\<rparr>"

definition br_eq :: "bounded_ring \<Rightarrow> bounded_ring \<Rightarrow> bool" where
  "br_eq a b = (br_capacity a = br_capacity b)"

definition br_put :: "u64 \<Rightarrow> bounded_ring \<Rightarrow> bounded_ring" where
  "br_put v b =
     (let b0 = (if br_count b = br_capacity b
                then note_overflow (b\<lparr>br_head := (br_head b + 1) mod br_capacity b,
                                      br_count := br_count b - 1\<rparr>)
                else b);
          b1 = b0\<lparr>br_buffer := (br_buffer b0)[br_tail b0 := v],
                  br_tail := (br_tail b0 + 1) mod br_capacity b0,
                  br_count := br_count b0 + 1\<rparr>
      in note_put (br_count b1) b1)"

definition br_get :: "bounded_ring \<Rightarrow> u64 option \<times> bounded_ring" where
  "br_get b = (if br_count b = 0 then (None, note_underflow b)
     else (Some (br_buffer b ! br_head b),
           note_get (b\<lparr>br_head := (br_head b + 1) mod br_capacity b, br_count := br_count b - 1\<rparr>)))"

definition br_size :: "bounded_ring \<Rightarrow> nat" where
  "br_size b = br_count b"

definition br_is_empty :: "bounded_ring \<Rightarrow> bool" where
  "br_is_empty b = (br_count b = 0)"

definition br_clear :: "bounded_ring \<Rightarrow> bounded_ring" where
  "br_clear b = b\<lparr>br_head := 0, br_tail := 0, br_count := 0\<rparr>"

definition br_peek_front :: "bounded_ring \<Rightarrow> u64 option" where
  "br_peek_front b = (if br_count b = 0 then None else Some (br_buffer b ! br_head b))"

definition br_peek_back :: "bounded_ring \<Rightarrow> u64 option" where
  "br_peek_back b = (if br_count b = 0 then None
     else (let last_idx = (br_tail b + br_capacity b - 1) mod br_capacity b
           in Some (br_buffer b ! last_idx)))"

definition br_emplace :: "u64 \<Rightarrow> bounded_ring \<Rightarrow> bounded_ring" where
  "br_emplace v b = br_put v b"

definition br_set_iterable_aspect :: "nat \<Rightarrow> bounded_ring \<Rightarrow> q1_error + bounded_ring" where
  "br_set_iterable_aspect new_cap b = (if new_cap = 0 then Inl Capacity_Zero
     else Inr (b\<lparr>br_buffer := replicate new_cap 0, br_capacity := new_cap,
                 br_head := 0, br_tail := 0, br_count := 0\<rparr>))"

lemmas br_defs = br_put_def br_get_def br_size_def br_is_empty_def br_clear_def
  br_peek_front_def br_peek_back_def

lemma br_note [simp]:
  "br_buffer (note_put n b) = br_buffer b" "br_capacity (note_put n b) = br_capacity b"
  "br_head (note_put n b) = br_head b" "br_tail (note_put n b) = br_tail b" "br_count (note_put n b) = br_count b"
  "br_buffer (note_get b) = br_buffer b" "br_capacity (note_get b) = br_capacity b"
  "br_head (note_get b) = br_head b" "br_tail (note_get b) = br_tail b" "br_count (note_get b) = br_count b"
  "br_buffer (note_underflow b) = br_buffer b" "br_capacity (note_underflow b) = br_capacity b"
  "br_head (note_underflow b) = br_head b" "br_tail (note_underflow b) = br_tail b"
  "br_count (note_underflow b) = br_count b"
  "br_buffer (note_overflow b) = br_buffer b" "br_capacity (note_overflow b) = br_capacity b"
  "br_head (note_overflow b) = br_head b" "br_tail (note_overflow b) = br_tail b"
  "br_count (note_overflow b) = br_count b"
  by (simp_all add: stats_defs)

definition br_inv :: "nat \<Rightarrow> bounded_ring \<Rightarrow> bool" where
  "br_inv cap b = (0 < cap \<and> br_capacity b = cap \<and> length (br_buffer b) = cap \<and> br_head b < cap
     \<and> br_count b \<le> cap \<and> br_tail b = (br_head b + br_count b) mod cap)"

definition br_content :: "bounded_ring \<Rightarrow> u64 list" where
  "br_content b = ring_slice (br_buffer b) (br_head b) (br_count b)"

lemma br_get_correct:
  assumes "br_inv cap b"
  shows "br_inv cap (snd (br_get b))" "fst (br_get b) = head_opt (br_content b)"
    "br_content (snd (br_get b)) = tl (br_content b)"
  using assms by (cases "br_count b", auto simp: br_get_def br_inv_def br_content_def ring_slice_Cons mod_simps)+

text \<open>A full ring first moves its head, which drops the oldest element.\<close>
lemma br_put_correct:
  assumes "br_inv cap b"
  shows "br_inv cap (br_put v b)" "br_content (br_put v b) = place_drop_oldest cap v (br_content b)"
proof -
  let ?h = "br_head b" and ?n = "br_count b" and ?buf = "br_buffer b"
  note i = assms [unfolded br_inv_def]
  have "br_inv cap (br_put v b) \<and> br_content (br_put v b) = place_drop_oldest cap v (br_content b)"
  proof (cases "?n = cap")
    case False
    then have lt: "?n < length ?buf" using i by simp
    show ?thesis using i False ring_slice_push [OF lt, of ?h v]
      by (simp add: br_put_def br_inv_def br_content_def place_drop_oldest_def Let_def mod_simps)
  next
    case True
    then obtain m where m: "?n = Suc m" using i by (cases "?n") auto
    have t: "br_tail b = (Suc ?h mod cap + m) mod cap" using i m by (simp add: mod_simps)
    have lt: "m < length ?buf" using i True m by simp
    have tls: "tl (ring_slice ?buf ?h cap) = ring_slice ?buf (Suc ?h mod cap) m"
      using i m True tl_ring_slice [of ?h ?buf m] by simp
    show ?thesis using i True m t tls ring_slice_push [OF lt, of "Suc ?h mod cap" v]
      by (simp add: br_put_def br_inv_def br_content_def place_drop_oldest_def Let_def mod_simps)
  qed
  then show "br_inv cap (br_put v b)" "br_content (br_put v b) = place_drop_oldest cap v (br_content b)"
    by blast+
qed

interpretation ring: q1_placing "br_inv cap" br_content br_get br_clear br_put "place_drop_oldest cap" for cap
  by unfold_locales
    (simp_all add: br_get_correct br_put_correct, auto simp: br_clear_def br_inv_def br_content_def)

interpretation ring: q1_observed "br_inv cap" br_content br_get br_clear
    br_size br_is_empty br_peek_front br_peek_back for cap
proof unfold_locales
  fix b assume i: "br_inv cap b"
  show "br_peek_front b = head_opt (br_content b)"
    using i by (auto simp: br_peek_front_def br_content_def br_inv_def hd_ring_slice head_opt_hd)
  show "br_peek_back b = last_opt (br_content b)"
  proof (cases "br_count b")
    case (Suc m)
    have "((br_head b + Suc m) mod cap + cap - 1) mod cap = (br_head b + Suc m + cap - 1) mod cap"
      using i by (metis (no_types, lifting) One_nat_def Suc_leI add_diff_assoc br_inv_def mod_add_left_eq)
    also have "\<dots> = (br_head b + m) mod cap" by simp
    finally show ?thesis using i Suc
      by (auto simp: br_peek_back_def br_content_def br_inv_def last_opt_def last_ring_slice Let_def)
  qed (simp add: br_peek_back_def br_content_def)
qed (simp_all add: br_size_def br_is_empty_def br_content_def)

interpretation ring: q1_accounted "br_inv cap" br_content br_get br_clear br_put "place_drop_oldest cap"
    q1_stats True for cap
proof unfold_locales
  fix b v assume i: "br_inv cap b"
  show "flow True (q1_stats (br_put v b)) - word_of_nat (length (br_content (br_put v b))) =
      flow True (q1_stats b) - word_of_nat (length (br_content b))"
    using i unfolding br_inv_def
    by (auto simp: br_content_def br_put_def Let_def flow_def algebra_simps)
  show "q1_stats (snd (br_get b)) = (if br_content b = []
      then (q1_stats b)\<lparr>underflow_count := underflow_count (q1_stats b) + 1\<rparr>
      else (q1_stats b)\<lparr>total_get_count := total_get_count (q1_stats b) + 1\<rparr>)"
    by (simp add: br_get_def note_get_def note_underflow_def br_content_def)
qed (auto simp: br_put_def br_clear_def Let_def)

lemma br_init_ok:
  "br_init cap = Inr b \<Longrightarrow> br_inv cap b" "br_init cap = Inr b \<Longrightarrow> br_content b = []"
  "br_init cap = Inr b \<Longrightarrow> q1_stats b = stats_zero"
  by (auto simp: br_init_def br_inv_def br_content_def split: if_splits)

lemma br_set_iterable_ok:
  "br_set_iterable_aspect c b = Inr b' \<Longrightarrow> br_inv c b' \<and> br_content b' = [] \<and> q1_stats b' = q1_stats b"
  by (auto simp: br_set_iterable_aspect_def br_inv_def br_content_def split: if_splits)

text \<open>The indices never leave the vector.\<close>
lemma br_index_bounds: "br_inv cap b \<Longrightarrow> br_head b < length (br_buffer b) \<and> br_tail b < length (br_buffer b)"
  by (auto simp: br_inv_def)

lemma br_put_overflow:
  "overflow_count (q1_stats (br_put v b)) = overflow_count (q1_stats b) + (if br_count b = br_capacity b then 1 else 0)"
  by (simp add: br_put_def Let_def)

section \<open>Properties\<close>

text \<open>C32: A \<^verbatim>\<open>BoundedRingBuffer\<close> of any positive capacity answers every sequence of calls like the
  queue that evicts its oldest element when full; after a sequence of puts it holds the last
  \<open>cap\<close> elements, has counted one overflow for each element lost, and its indices stay inside the
  vector.\<close>
theorem ring_drops_oldest:
  assumes "br_init cap = Inr b"
  shows "fst (q1_run br_put br_get br_clear ops b) = fst (spec_run (place_drop_oldest cap) ops [])
    \<and> br_content (put_all br_put vs b) = drop (length vs - cap) vs
    \<and> overflow_count (q1_stats (put_all br_put vs b)) = word_of_nat (length vs - cap)
    \<and> br_head (put_all br_put vs b) < length (br_buffer (put_all br_put vs b))
    \<and> br_tail (put_all br_put vs b) < length (br_buffer (put_all br_put vs b))"
proof -
  note ok = br_init_ok [OF assms]
  have cap: "0 < cap" using ok(1) by (simp add: br_inv_def)
  have content: "br_content (put_all br_put vs b) = drop (length vs - cap) vs" for vs
    using ring.put_all_content [OF ok(1)] fold_place_drop_oldest [of "[]" cap vs] cap ok(2) by simp
  have "overflow_count (q1_stats (put_all br_put vs b)) = word_of_nat (length vs - cap)"
  proof (induction vs rule: rev_induct)
    case Nil
    then show ?case using ok(3) by (simp add: stats_zero_def)
  next
    case (snoc v vs)
    have snoc': "put_all br_put (vs @ [v]) b = br_put v (put_all br_put vs b)"
      by (induction vs arbitrary: b) simp_all
    have i: "br_inv cap (put_all br_put vs b)" using ring.put_all_inv [OF ok(1)] .
    have "br_count (put_all br_put vs b) = length (br_content (put_all br_put vs b))"
      by (simp add: br_content_def)
    then have "br_count (put_all br_put vs b) = cap \<longleftrightarrow> cap \<le> length vs" unfolding content by auto
    moreover have "br_capacity (put_all br_put vs b) = cap" using i by (simp add: br_inv_def)
    ultimately show ?case unfolding snoc' br_put_overflow using snoc.IH by (simp add: Suc_diff_le)
  qed
  then show ?thesis
    using ring.run_outputs [OF ok(1) ok(2)] content br_index_bounds [OF ring.put_all_inv [OF ok(1)]] by blast
qed

theorem ring_drops_oldest_witness:
  "\<exists>b. br_init 2 = Inr b
    \<and> fst (q1_run br_put br_get br_clear [Put 1, Put 2, Put 3, Get] b) = [Some 2]
    \<and> br_content (put_all br_put [1, 2, 3] b) = [2, 3]"
proof -
  obtain b where b: "br_init 2 = Inr b" by (simp add: br_init_def)
  have "fst (spec_run (place_drop_oldest 2) [Put 1, Put 2, Put 3, Get] []) = [Some 2]"
    by (simp add: spec_run_def place_drop_oldest_def spec_get_def)
  then show ?thesis
    using b ring_drops_oldest [OF b, of "[Put 1, Put 2, Put 3, Get]" "[1, 2, 3]"] by auto
qed

end
