(* ===== verification/Q1_Spsc.thy ===== *)
theory Q1_Spsc imports Buffer_Contract Ring_Slice begin

text \<open>
  The single-producer single-consumer ring of the Q1 axis, \<^verbatim>\<open>LockFreeSPSCBuffer\<close>.  The first part
  models its operations run to completion, one after the other; the second part splits them into
  their atomic loads and stores, lets the producer and the consumer interleave freely, and shows
  that the queue stays first-in first-out.  One slot always stays free, so a ring of capacity
  \<open>c\<close> stores at most \<open>c - 1\<close> elements; a \<^verbatim>\<open>put\<close> into a full ring is rejected.
\<close>

section \<open>The operations, run to completion\<close>

record spsc = q1_base +
  sp_buffer :: "u64 list"
  sp_capacity :: nat
  sp_head :: nat
  sp_tail :: nat

definition sp_default_capacity :: nat where
  "sp_default_capacity = 1024"

definition sp_init :: "nat \<Rightarrow> q1_error + spsc" where
  "sp_init cap = (if cap = 0 then Inl Capacity_Zero
     else Inr \<lparr>q1_stats = stats_zero, sp_buffer = replicate cap 0, sp_capacity = cap,
               sp_head = 0, sp_tail = 0\<rparr>)"

definition sp_eq :: "spsc \<Rightarrow> spsc \<Rightarrow> bool" where
  "sp_eq a b = (sp_capacity a = sp_capacity b)"

definition sp_put :: "u64 \<Rightarrow> spsc \<Rightarrow> spsc" where
  "sp_put v b =
     (let tail = sp_tail b;
          next = (tail + 1) mod sp_capacity b;
          head = sp_head b
      in if next = head then note_overflow b
         else (let b1 = b\<lparr>sp_buffer := (sp_buffer b)[tail := v], sp_tail := next\<rparr>;
                   cur_size = (next + sp_capacity b - head) mod sp_capacity b
               in note_put cur_size b1))"

definition sp_get :: "spsc \<Rightarrow> u64 option \<times> spsc" where
  "sp_get b =
     (let head = sp_head b; tail = sp_tail b
      in if head = tail then (None, note_underflow b)
         else (Some (sp_buffer b ! head), note_get (b\<lparr>sp_head := (head + 1) mod sp_capacity b\<rparr>)))"

definition sp_size :: "spsc \<Rightarrow> nat" where
  "sp_size b = (sp_tail b + sp_capacity b - sp_head b) mod sp_capacity b"

definition sp_is_empty :: "spsc \<Rightarrow> bool" where
  "sp_is_empty b = (sp_size b = 0)"

definition sp_clear :: "spsc \<Rightarrow> spsc" where
  "sp_clear b = b\<lparr>sp_head := 0, sp_tail := 0\<rparr>"

definition sp_peek_front :: "spsc \<Rightarrow> u64 option" where
  "sp_peek_front b = (if sp_head b = sp_tail b then None else Some (sp_buffer b ! sp_head b))"

definition sp_peek_back :: "spsc \<Rightarrow> u64 option" where
  "sp_peek_back b = (if sp_head b = sp_tail b then None
     else Some (sp_buffer b ! ((sp_tail b + sp_capacity b - 1) mod sp_capacity b)))"

definition sp_emplace :: "u64 \<Rightarrow> spsc \<Rightarrow> spsc" where
  "sp_emplace v b = sp_put v b"

definition sp_set_iterable_aspect :: "nat \<Rightarrow> spsc \<Rightarrow> q1_error + spsc" where
  "sp_set_iterable_aspect new_cap b = (if new_cap = 0 then Inl Capacity_Zero
     else Inr (b\<lparr>sp_buffer := replicate new_cap 0, sp_capacity := new_cap, sp_head := 0, sp_tail := 0\<rparr>))"

lemma sp_note [simp]:
  "sp_buffer (note_put n b) = sp_buffer b" "sp_capacity (note_put n b) = sp_capacity b"
  "sp_head (note_put n b) = sp_head b" "sp_tail (note_put n b) = sp_tail b"
  "sp_buffer (note_get b) = sp_buffer b" "sp_capacity (note_get b) = sp_capacity b"
  "sp_head (note_get b) = sp_head b" "sp_tail (note_get b) = sp_tail b"
  "sp_buffer (note_underflow b) = sp_buffer b" "sp_capacity (note_underflow b) = sp_capacity b"
  "sp_head (note_underflow b) = sp_head b" "sp_tail (note_underflow b) = sp_tail b"
  "sp_buffer (note_overflow b) = sp_buffer b" "sp_capacity (note_overflow b) = sp_capacity b"
  "sp_head (note_overflow b) = sp_head b" "sp_tail (note_overflow b) = sp_tail b"
  by (simp_all add: stats_defs)

definition sp_inv :: "nat \<Rightarrow> spsc \<Rightarrow> bool" where
  "sp_inv cap b = (0 < cap \<and> sp_capacity b = cap \<and> length (sp_buffer b) = cap
     \<and> sp_head b < cap \<and> sp_tail b < cap)"

definition sp_content :: "spsc \<Rightarrow> u64 list" where
  "sp_content b = ring_slice (sp_buffer b) (sp_head b) (sp_size b)"

lemma sp_size_bound: "sp_inv cap b \<Longrightarrow> sp_size b < cap"
  by (simp add: sp_inv_def sp_size_def)

lemma sp_tail_eq: "sp_inv cap b \<Longrightarrow> sp_tail b = (sp_head b + sp_size b) mod cap"
  by (auto simp: sp_inv_def sp_size_def ring_distance_mod)

lemma sp_size_of_tail:
  "sp_capacity b = cap \<Longrightarrow> sp_head b < cap \<Longrightarrow> n < cap \<Longrightarrow> sp_tail b = (sp_head b + n) mod cap \<Longrightarrow> sp_size b = n"
  by (simp add: sp_size_def ring_distance)

lemma sp_empty_iff: "sp_inv cap b \<Longrightarrow> sp_head b = sp_tail b \<longleftrightarrow> sp_size b = 0"
  using sp_tail_eq [of cap b] by (auto simp: sp_inv_def sp_size_def)

lemma sp_full_iff: "sp_inv cap b \<Longrightarrow> Suc (sp_tail b) mod cap = sp_head b \<longleftrightarrow> Suc (sp_size b) = cap"
  using ring_next_full [of "sp_head b" cap "sp_size b"] sp_tail_eq [of cap b] sp_size_bound [of cap b]
  by (auto simp: sp_inv_def)

text \<open>Storing an element behind the tail and moving the tail appends to the content.\<close>
lemma sp_push:
  assumes "sp_inv cap b" "Suc (sp_size b) < cap"
    "b' = b\<lparr>sp_buffer := (sp_buffer b)[sp_tail b := v], sp_tail := Suc (sp_tail b) mod cap\<rparr>"
  shows "sp_inv cap b'" "sp_size b' = Suc (sp_size b)" "sp_content b' = sp_content b @ [v]"
proof -
  note i = assms(1) [unfolded sp_inv_def]
  show "sp_inv cap b'" using i assms(3) by (simp add: sp_inv_def)
  have "Suc (sp_tail b) mod cap = (sp_head b + Suc (sp_size b)) mod cap"
    unfolding sp_tail_eq [OF assms(1)] by (simp add: mod_simps)
  then show s: "sp_size b' = Suc (sp_size b)"
    using i assms(2,3) by (intro sp_size_of_tail [of _ cap]) simp_all
  show "sp_content b' = sp_content b @ [v]"
    using ring_slice_push [of "sp_size b" "sp_buffer b" "sp_head b" v] i assms(2,3) sp_tail_eq [OF assms(1)]
    unfolding sp_content_def s by simp
qed

text \<open>Moving the head removes the oldest element.\<close>
lemma sp_pop:
  assumes "sp_inv cap b" "sp_size b \<noteq> 0" "b' = b\<lparr>sp_head := Suc (sp_head b) mod cap\<rparr>"
  shows "sp_inv cap b'" "sp_size b' = sp_size b - 1" "sp_content b' = tl (sp_content b)"
    "sp_buffer b ! sp_head b = hd (sp_content b)"
proof -
  note i = assms(1) [unfolded sp_inv_def]
  obtain m where m: "sp_size b = Suc m" using assms(2) by (cases "sp_size b") auto
  show "sp_inv cap b'" using i assms(3) by (simp add: sp_inv_def)
  have "sp_tail b = (Suc (sp_head b) mod cap + m) mod cap"
    unfolding sp_tail_eq [OF assms(1)] m by (simp add: mod_simps)
  then show s: "sp_size b' = sp_size b - 1"
    using i assms(3) m sp_size_bound [OF assms(1)] by (intro sp_size_of_tail [of _ cap]) simp_all
  show "sp_content b' = tl (sp_content b)"
    using i m assms(3) unfolding sp_content_def s by (simp add: tl_ring_slice)
  show "sp_buffer b ! sp_head b = hd (sp_content b)"
    using i m by (simp add: sp_content_def hd_ring_slice)
qed


lemma sp_content_length: "length (sp_content b) = sp_size b"
  by (simp add: sp_content_def)

lemma sp_put_correct:
  assumes "sp_inv cap b"
  shows "sp_inv cap (sp_put v b)" "sp_content (sp_put v b) = place_reject_new (cap - 1) v (sp_content b)"
proof -
  have cap: "sp_capacity b = cap" using assms by (simp add: sp_inv_def)
  have "sp_inv cap (sp_put v b) \<and> sp_content (sp_put v b) = place_reject_new (cap - 1) v (sp_content b)"
  proof (cases "Suc (sp_size b) = cap")
    case True
    then have "sp_put v b = note_overflow b"
      using sp_full_iff [OF assms] cap by (simp add: sp_put_def)
    then show ?thesis using True assms
      by (auto simp: place_reject_new_def sp_inv_def sp_content_def sp_size_def)
  next
    case False
    then have lt: "Suc (sp_size b) < cap" using sp_size_bound [OF assms] by simp
    define b1 where "b1 = b\<lparr>sp_buffer := (sp_buffer b)[sp_tail b := v], sp_tail := Suc (sp_tail b) mod cap\<rparr>"
    obtain k where "sp_put v b = note_put k b1"
      using False sp_full_iff [OF assms] cap by (auto simp: sp_put_def Let_def b1_def)
    moreover have "sp_inv cap (note_put k b1) = sp_inv cap b1" "sp_content (note_put k b1) = sp_content b1"
      by (simp_all add: sp_inv_def sp_content_def sp_size_def)
    ultimately show ?thesis using sp_push [OF assms lt b1_def] lt
      by (simp add: place_reject_new_def sp_content_length less_diff_conv)
  qed
  then show "sp_inv cap (sp_put v b)" "sp_content (sp_put v b) = place_reject_new (cap - 1) v (sp_content b)"
    by blast+
qed

lemma sp_get_correct:
  assumes "sp_inv cap b"
  shows "sp_inv cap (snd (sp_get b))" "fst (sp_get b) = head_opt (sp_content b)"
    "sp_content (snd (sp_get b)) = tl (sp_content b)"
proof -
  have cap: "sp_capacity b = cap" using assms by (simp add: sp_inv_def)
  have "sp_inv cap (snd (sp_get b)) \<and> fst (sp_get b) = head_opt (sp_content b)
      \<and> sp_content (snd (sp_get b)) = tl (sp_content b)"
  proof (cases "sp_size b = 0")
    case True
    then show ?thesis using sp_empty_iff [OF assms] assms
      by (simp add: sp_get_def sp_content_def sp_inv_def sp_size_def)
  next
    case False
    define b1 where "b1 = b\<lparr>sp_head := Suc (sp_head b) mod cap\<rparr>"
    have "sp_get b = (Some (sp_buffer b ! sp_head b), note_get b1)"
      using False sp_empty_iff [OF assms] cap by (simp add: sp_get_def Let_def b1_def)
    moreover have "sp_inv cap (note_get b1) = sp_inv cap b1" "sp_content (note_get b1) = sp_content b1"
      by (simp_all add: sp_inv_def sp_content_def sp_size_def)
    moreover have "sp_content b \<noteq> []" using False by (simp add: sp_content_def)
    ultimately show ?thesis using sp_pop [OF assms False b1_def] by (simp add: head_opt_hd)
  qed
  then show "sp_inv cap (snd (sp_get b))" "fst (sp_get b) = head_opt (sp_content b)"
    "sp_content (snd (sp_get b)) = tl (sp_content b)" by blast+
qed

interpretation spsc: q1_placing "sp_inv cap" sp_content sp_get sp_clear sp_put "place_reject_new (cap - 1)" for cap
  by unfold_locales
    (simp_all add: sp_get_correct sp_put_correct,
     auto simp: sp_clear_def sp_inv_def sp_content_def sp_size_def)

interpretation spsc: q1_observed "sp_inv cap" sp_content sp_get sp_clear
    sp_size sp_is_empty sp_peek_front sp_peek_back for cap
proof unfold_locales
  fix b assume i: "sp_inv cap b"
  show "sp_peek_front b = head_opt (sp_content b)"
    using sp_empty_iff [OF i] i
    by (auto simp: sp_peek_front_def sp_content_def sp_inv_def hd_ring_slice head_opt_hd)
  show "sp_peek_back b = last_opt (sp_content b)"
  proof (cases "sp_size b")
    case (Suc m)
    have t: "sp_tail b = (sp_head b + Suc m) mod cap" using sp_tail_eq [OF i] Suc by simp
    have "((sp_head b + Suc m) mod cap + cap - 1) mod cap = (sp_head b + Suc m + cap - 1) mod cap"
      using i by (metis (no_types, lifting) One_nat_def Suc_leI add_diff_assoc sp_inv_def mod_add_left_eq)
    also have "\<dots> = (sp_head b + m) mod cap" by simp
    finally show ?thesis using i Suc t sp_empty_iff [OF i]
      by (auto simp: sp_peek_back_def sp_content_def sp_inv_def last_opt_def last_ring_slice)
  qed (use sp_empty_iff [OF i] in \<open>simp add: sp_peek_back_def sp_content_def\<close>)
qed (auto simp: sp_is_empty_def sp_content_def)

interpretation spsc: q1_accounted "sp_inv cap" sp_content sp_get sp_clear sp_put
    "place_reject_new (cap - 1)" q1_stats False for cap
proof unfold_locales
  fix b v assume i: "sp_inv cap b"
  have cap: "sp_capacity b = cap" using i by (simp add: sp_inv_def)
  show "flow False (q1_stats (sp_put v b)) - word_of_nat (length (sp_content (sp_put v b))) =
      flow False (q1_stats b) - word_of_nat (length (sp_content b))"
    unfolding sp_put_correct(2) [OF i]
    using sp_full_iff [OF i] sp_size_bound [OF i] cap
    by (auto simp: sp_put_def place_reject_new_def sp_content_length Let_def flow_def algebra_simps less_diff_conv)
  show "q1_stats (snd (sp_get b)) = (if sp_content b = []
      then (q1_stats b)\<lparr>underflow_count := underflow_count (q1_stats b) + 1\<rparr>
      else (q1_stats b)\<lparr>total_get_count := total_get_count (q1_stats b) + 1\<rparr>)"
    using sp_empty_iff [OF i]
    by (auto simp: sp_get_def Let_def note_get_def note_underflow_def sp_content_def)
qed (auto simp: sp_put_def sp_clear_def Let_def)

lemma sp_init_ok:
  "sp_init cap = Inr b \<Longrightarrow> sp_inv cap b \<and> sp_content b = [] \<and> q1_stats b = stats_zero"
  by (auto simp: sp_init_def sp_inv_def sp_content_def sp_size_def split: if_splits)

section \<open>Properties\<close>

text \<open>Called from one thread, a \<^verbatim>\<open>LockFreeSPSCBuffer\<close> of capacity \<open>cap\<close> answers every sequence of
  calls like the queue that holds at most \<open>cap - 1\<close> elements and rejects a \<^verbatim>\<open>put\<close> when full.\<close>
lemma spsc_rejects_new:
  assumes "sp_init cap = Inr b"
  shows "fst (q1_run sp_put sp_get sp_clear ops b) = fst (spec_run (place_reject_new (cap - 1)) ops [])
    \<and> sp_content (put_all sp_put vs b) = take (cap - 1) vs"
  using sp_init_ok [OF assms] spsc.run_outputs [of cap b "[]" ops] spsc.put_all_content [of cap b vs]
    fold_place_reject_new [of "[]" "cap - 1" vs] by simp

end
