(* ===== verification/Q1_Spsc_Concurrent.thy ===== *)
theory Q1_Spsc_Concurrent imports Q1_Spsc begin

text \<open>
  One producer and one consumer on a \<^verbatim>\<open>LockFreeSPSCBuffer\<close>, interleaved at their atomic accesses.
  Each rule of the step relation is one access of \<^verbatim>\<open>put\<close> or \<^verbatim>\<open>get\<close> to shared memory, in program
  order: the producer loads its tail, loads the head, then rejects or writes the slot and stores
  the tail; the consumer loads its head, loads the tail, then gives up or reads the slot and stores
  the head.  The loads may return values that are outdated when they are used.  Memory is
  sequentially consistent, which the acquire/release pairs of the code provide on the two indices;
  the statistics are updated with the last access of an operation.

  \<open>accepted\<close> and \<open>delivered\<close> record the history: what the producer published and what the
  consumer returned.
\<close>

datatype producer_pc =
    P_Idle
  | P_Tail u64 nat        \<comment> \<open>tail loaded\<close>
  | P_Head u64 nat nat    \<comment> \<open>tail and head loaded\<close>
  | P_Written u64 nat nat \<comment> \<open>slot written, tail not yet stored\<close>

datatype consumer_pc =
    C_Idle
  | C_Head nat       \<comment> \<open>head loaded\<close>
  | C_Tail nat nat   \<comment> \<open>head and tail loaded\<close>
  | C_Read nat u64   \<comment> \<open>slot read, head not yet stored\<close>

record spsc_conc =
  shared :: spsc
  producer :: producer_pc
  consumer :: consumer_pc
  accepted :: "u64 list"
  delivered :: "u64 list"

definition spsc_start :: "spsc \<Rightarrow> spsc_conc" where
  "spsc_start b = \<lparr>shared = b, producer = P_Idle, consumer = C_Idle, accepted = [], delivered = []\<rparr>"

text \<open>The tail a producer computes from its loads.\<close>
definition sp_next :: "spsc \<Rightarrow> nat \<Rightarrow> nat" where
  "sp_next b tail = (tail + 1) mod sp_capacity b"

inductive producer_step :: "spsc_conc \<Rightarrow> spsc_conc \<Rightarrow> bool" where
  put_load_tail: "producer s = P_Idle \<Longrightarrow>
    producer_step s (s\<lparr>producer := P_Tail v (sp_tail (shared s))\<rparr>)"
| put_load_head: "producer s = P_Tail v t \<Longrightarrow>
    producer_step s (s\<lparr>producer := P_Head v t (sp_head (shared s))\<rparr>)"
| put_reject: "producer s = P_Head v t h \<Longrightarrow> sp_next (shared s) t = h \<Longrightarrow>
    producer_step s (s\<lparr>producer := P_Idle, shared := note_overflow (shared s)\<rparr>)"
| put_write: "producer s = P_Head v t h \<Longrightarrow> sp_next (shared s) t \<noteq> h \<Longrightarrow>
    producer_step s (s\<lparr>producer := P_Written v t h,
      shared := (shared s)\<lparr>sp_buffer := (sp_buffer (shared s))[t := v]\<rparr>\<rparr>)"
| put_store_tail: "producer s = P_Written v t h \<Longrightarrow> next = sp_next (shared s) t \<Longrightarrow>
    producer_step s (s\<lparr>producer := P_Idle,
      shared := note_put ((next + sp_capacity (shared s) - h) mod sp_capacity (shared s))
                  ((shared s)\<lparr>sp_tail := next\<rparr>),
      accepted := accepted s @ [v]\<rparr>)"

inductive consumer_step :: "spsc_conc \<Rightarrow> spsc_conc \<Rightarrow> bool" where
  get_load_head: "consumer s = C_Idle \<Longrightarrow>
    consumer_step s (s\<lparr>consumer := C_Head (sp_head (shared s))\<rparr>)"
| get_load_tail: "consumer s = C_Head h \<Longrightarrow>
    consumer_step s (s\<lparr>consumer := C_Tail h (sp_tail (shared s))\<rparr>)"
| get_empty: "consumer s = C_Tail h t \<Longrightarrow> h = t \<Longrightarrow>
    consumer_step s (s\<lparr>consumer := C_Idle, shared := note_underflow (shared s)\<rparr>)"
| get_read: "consumer s = C_Tail h t \<Longrightarrow> h \<noteq> t \<Longrightarrow>
    consumer_step s (s\<lparr>consumer := C_Read h (sp_buffer (shared s) ! h)\<rparr>)"
| get_store_head: "consumer s = C_Read h v \<Longrightarrow>
    consumer_step s (s\<lparr>consumer := C_Idle,
      shared := note_get ((shared s)\<lparr>sp_head := (h + 1) mod sp_capacity (shared s)\<rparr>),
      delivered := delivered s @ [v]\<rparr>)"

inductive spsc_step :: "spsc_conc \<Rightarrow> spsc_conc \<Rightarrow> bool" where
  step_producer: "producer_step s s' \<Longrightarrow> spsc_step s s'"
| step_consumer: "consumer_step s s' \<Longrightarrow> spsc_step s s'"

inductive spsc_reachable :: "nat \<Rightarrow> spsc_conc \<Rightarrow> bool" for cap where
  reach_start: "sp_init cap = Inr b \<Longrightarrow> spsc_reachable cap (spsc_start b)"
| reach_step: "spsc_reachable cap s \<Longrightarrow> spsc_step s s' \<Longrightarrow> spsc_reachable cap s'"

inductive_cases spsc_stepE: "spsc_step s s'"

section \<open>The invariant\<close>

text \<open>The distance between two indices of the ring.\<close>
definition sp_dist :: "nat \<Rightarrow> nat \<Rightarrow> nat \<Rightarrow> nat" where
  "sp_dist cap h t = (t + cap - h) mod cap"

text \<open>The producer's tail is exact and its head is at worst outdated, so it underestimates the free
  space; the consumer's head is exact and its tail at worst outdated, so it underestimates the
  stored elements.\<close>
definition producer_ok :: "nat \<Rightarrow> spsc \<Rightarrow> producer_pc \<Rightarrow> bool" where
  "producer_ok cap b pc = (case pc of
     P_Idle \<Rightarrow> True
   | P_Tail v t \<Rightarrow> t = sp_tail b
   | P_Head v t h \<Rightarrow> t = sp_tail b \<and> h < cap \<and> sp_size b \<le> sp_dist cap h t
   | P_Written v t h \<Rightarrow> t = sp_tail b \<and> sp_buffer b ! t = v \<and> Suc (sp_size b) < cap)"

definition consumer_ok :: "nat \<Rightarrow> spsc \<Rightarrow> consumer_pc \<Rightarrow> bool" where
  "consumer_ok cap b pc = (case pc of
     C_Idle \<Rightarrow> True
   | C_Head h \<Rightarrow> h = sp_head b
   | C_Tail h t \<Rightarrow> h = sp_head b \<and> t < cap \<and> sp_dist cap h t \<le> sp_size b
   | C_Read h v \<Rightarrow> h = sp_head b \<and> sp_size b \<noteq> 0 \<and> sp_buffer b ! h = v)"

definition spsc_ok :: "nat \<Rightarrow> spsc_conc \<Rightarrow> bool" where
  "spsc_ok cap s = (sp_inv cap (shared s) \<and> accepted s = delivered s @ sp_content (shared s)
     \<and> producer_ok cap (shared s) (producer s) \<and> consumer_ok cap (shared s) (consumer s))"

lemma sp_dist_full:
  assumes "h < cap" "t < cap" "sp_next b t \<noteq> h" "sp_capacity b = cap"
  shows "Suc (sp_dist cap h t) < cap"
proof -
  have d: "sp_dist cap h t < cap" using assms by (simp add: sp_dist_def)
  have ht: "(h + sp_dist cap h t) mod cap = t" using assms by (simp add: sp_dist_def ring_distance_mod)
  have "Suc (sp_dist cap h t) \<noteq> cap"
    using ring_next_full [OF assms(1) d] assms(3,4) unfolding ht by (auto simp: sp_next_def)
  then show ?thesis using d by simp
qed

lemma sp_dist_empty: "h < cap \<Longrightarrow> t < cap \<Longrightarrow> sp_dist cap h t = 0 \<Longrightarrow> h = t"
  using ring_distance_mod [of h cap t] by (simp add: sp_dist_def)

text \<open>Writing the slot at the tail does not touch the stored elements.\<close>
lemma sp_write_slot:
  assumes "sp_inv cap b" "b' = b\<lparr>sp_buffer := (sp_buffer b)[sp_tail b := v]\<rparr>"
  shows "sp_inv cap b'" "sp_size b' = sp_size b" "sp_content b' = sp_content b"
    "sp_size b \<noteq> 0 \<Longrightarrow> sp_buffer b' ! sp_head b = sp_buffer b ! sp_head b"
proof -
  note i = assms(1) [unfolded sp_inv_def]
  have lt: "sp_size b < length (sp_buffer b)" using sp_size_bound [OF assms(1)] i by simp
  show "sp_inv cap b'" "sp_size b' = sp_size b" using i assms(2) by (simp_all add: sp_inv_def sp_size_def)
  then show "sp_content b' = sp_content b"
    using ring_slice_update [OF lt, of "sp_head b" v] i sp_tail_eq [OF assms(1)] assms(2)
    by (simp add: sp_content_def)
  show "sp_buffer b' ! sp_head b = sp_buffer b ! sp_head b" if "sp_size b \<noteq> 0"
    using sp_empty_iff [OF assms(1)] that assms(2) by simp
qed


lemma sp_same_note [simp]:
  "sp_inv cap (note_put k b) = sp_inv cap b" "sp_size (note_put k b) = sp_size b"
  "sp_content (note_put k b) = sp_content b"
  "sp_inv cap (note_get b) = sp_inv cap b" "sp_size (note_get b) = sp_size b"
  "sp_content (note_get b) = sp_content b"
  "sp_inv cap (note_overflow b) = sp_inv cap b" "sp_size (note_overflow b) = sp_size b"
  "sp_content (note_overflow b) = sp_content b"
  "sp_inv cap (note_underflow b) = sp_inv cap b" "sp_size (note_underflow b) = sp_size b"
  "sp_content (note_underflow b) = sp_content b"
  by (simp_all add: sp_inv_def sp_content_def sp_size_def)

lemma pc_ok_note [simp]:
  "producer_ok cap (note_put k b) pc = producer_ok cap b pc" "consumer_ok cap (note_put k b) c = consumer_ok cap b c"
  "producer_ok cap (note_get b) pc = producer_ok cap b pc" "consumer_ok cap (note_get b) c = consumer_ok cap b c"
  "producer_ok cap (note_overflow b) pc = producer_ok cap b pc"
  "consumer_ok cap (note_overflow b) c = consumer_ok cap b c"
  "producer_ok cap (note_underflow b) pc = producer_ok cap b pc"
  "consumer_ok cap (note_underflow b) c = consumer_ok cap b c"
  by (cases pc; cases c; simp add: producer_ok_def consumer_ok_def)+

lemma producer_step_ok:
  assumes "spsc_ok cap s" "producer_step s s'"
  shows "spsc_ok cap s'"
proof -
  let ?b = "shared s"
  have inv: "sp_inv cap ?b" and hist: "accepted s = delivered s @ sp_content ?b"
    and pok: "producer_ok cap ?b (producer s)" and cok: "consumer_ok cap ?b (consumer s)"
    using assms(1) by (simp_all add: spsc_ok_def)
  have cap: "sp_capacity ?b = cap" and bounds: "sp_head ?b < cap" "sp_tail ?b < cap" "length (sp_buffer ?b) = cap"
    using inv by (simp_all add: sp_inv_def)
  from assms(2) show ?thesis
  proof (cases rule: producer_step.cases)
    case (put_load_tail v)
    then show ?thesis using inv hist cok by (simp add: spsc_ok_def producer_ok_def)
  next
    case (put_load_head v t)
    then show ?thesis using inv hist cok pok bounds cap
      by (simp add: spsc_ok_def producer_ok_def sp_dist_def sp_size_def)
  next
    case (put_reject v t h)
    then show ?thesis using inv hist cok by (simp add: spsc_ok_def producer_ok_def)
  next
    case (put_write v t h)
    have p: "t = sp_tail ?b" "h < cap" "sp_size ?b \<le> sp_dist cap h t"
      using pok unfolding put_write(2) by (auto simp: producer_ok_def)
    have "Suc (sp_size ?b) < cap"
      using sp_dist_full [of h cap t ?b] p put_write bounds cap by simp
    moreover define b' where "b' = ?b\<lparr>sp_buffer := (sp_buffer ?b)[sp_tail ?b := v]\<rparr>"
    moreover have "consumer_ok cap b' (consumer s)"
      using cok sp_write_slot(2,4) [OF inv b'_def]
      by (cases "consumer s") (simp_all add: consumer_ok_def b'_def)
    moreover note sp_write_slot [OF inv b'_def]
    ultimately show ?thesis using put_write p hist bounds
      by (simp add: spsc_ok_def producer_ok_def b'_def)
  next
    case (put_store_tail v t h "next")
    have p: "t = sp_tail ?b" "sp_buffer ?b ! t = v" "Suc (sp_size ?b) < cap"
      using pok unfolding put_store_tail(2) by (auto simp: producer_ok_def)
    define b' where "b' = ?b\<lparr>sp_tail := next\<rparr>"
    have b': "b' = ?b\<lparr>sp_buffer := (sp_buffer ?b)[sp_tail ?b := v], sp_tail := Suc (sp_tail ?b) mod cap\<rparr>"
    proof -
      have "(sp_buffer ?b)[sp_tail ?b := v] = sp_buffer ?b"
        using p(1,2) list_update_id [of "sp_buffer ?b" t] by simp
      then show ?thesis using p(1) put_store_tail(3) cap by (cases ?b) (simp add: b'_def sp_next_def)
    qed
    have "consumer_ok cap b' (consumer s)"
      using cok sp_push(2) [OF inv p(3) b'] p
      by (cases "consumer s") (simp_all add: consumer_ok_def b'_def)
    then show ?thesis using put_store_tail hist sp_push [OF inv p(3) b']
      by (simp add: spsc_ok_def producer_ok_def b'_def)
  qed
qed

lemma consumer_step_ok:
  assumes "spsc_ok cap s" "consumer_step s s'"
  shows "spsc_ok cap s'"
proof -
  let ?b = "shared s"
  have inv: "sp_inv cap ?b" and hist: "accepted s = delivered s @ sp_content ?b"
    and pok: "producer_ok cap ?b (producer s)" and cok: "consumer_ok cap ?b (consumer s)"
    using assms(1) by (simp_all add: spsc_ok_def)
  have cap: "sp_capacity ?b = cap" and bounds: "sp_head ?b < cap" "sp_tail ?b < cap"
    using inv by (simp_all add: sp_inv_def)
  from assms(2) show ?thesis
  proof (cases rule: consumer_step.cases)
    case get_load_head
    then show ?thesis using inv hist pok by (simp add: spsc_ok_def consumer_ok_def)
  next
    case (get_load_tail h)
    then show ?thesis using inv hist cok pok bounds cap
      by (simp add: spsc_ok_def consumer_ok_def sp_dist_def sp_size_def)
  next
    case (get_empty h t)
    then show ?thesis using inv hist pok by (simp add: spsc_ok_def consumer_ok_def)
  next
    case (get_read h t)
    have c: "h = sp_head ?b" "t < cap" "sp_dist cap h t \<le> sp_size ?b"
      using cok unfolding get_read(2) by (auto simp: consumer_ok_def)
    have "sp_dist cap h t \<noteq> 0" using sp_dist_empty [of h cap t] c(1,2) get_read(3) bounds by auto
    then have "sp_size ?b \<noteq> 0" using c(3) by linarith
    then show ?thesis using get_read inv hist pok c by (simp add: spsc_ok_def consumer_ok_def)
  next
    case (get_store_head h v)
    have c: "h = sp_head ?b" "sp_size ?b \<noteq> 0" "sp_buffer ?b ! h = v"
      using cok unfolding get_store_head(2) by (auto simp: consumer_ok_def)
    define b' where "b' = ?b\<lparr>sp_head := Suc (sp_head ?b) mod cap\<rparr>"
    note pop = sp_pop [OF inv c(2) b'_def]
    have ne: "sp_content ?b \<noteq> []" using c(2) by (simp add: sp_content_def)
    have "producer_ok cap b' (producer s)"
      using pok pop(2) by (cases "producer s") (auto simp: producer_ok_def b'_def)
    moreover have "accepted s = (delivered s @ [v]) @ sp_content b'"
      using hist pop(3,4) c ne by (cases "sp_content ?b") simp_all
    ultimately show ?thesis using get_store_head pop(1) c cap
      by (simp add: spsc_ok_def consumer_ok_def b'_def)
  qed
qed

lemma spsc_reachable_ok: "spsc_reachable cap s \<Longrightarrow> spsc_ok cap s"
proof (induction rule: spsc_reachable.induct)
  case (reach_start b)
  then show ?case using sp_init_ok [of cap b]
    by (simp add: spsc_start_def spsc_ok_def producer_ok_def consumer_ok_def)
next
  case (reach_step s s')
  from reach_step.hyps(2) show ?case
    by (rule spsc_stepE) (auto intro: producer_step_ok consumer_step_ok reach_step.IH)
qed


section \<open>The sequential operations as runs of steps\<close>

text \<open>Undisturbed, the steps of a \<^verbatim>\<open>put\<close> add up to \<open>sp_put\<close>, those of a \<^verbatim>\<open>get\<close> to \<open>sp_get\<close>.\<close>
lemma put_steps_compose:
  assumes "producer s = P_Idle"
  shows "\<exists>s'. producer_step\<^sup>*\<^sup>* s s' \<and> shared s' = sp_put v (shared s) \<and> producer s' = P_Idle
    \<and> consumer s' = consumer s \<and> delivered s' = delivered s
    \<and> accepted s' = accepted s @ (if sp_next (shared s) (sp_tail (shared s)) = sp_head (shared s) then [] else [v])"
proof -
  let ?b = "shared s" let ?t = "sp_tail ?b" let ?h = "sp_head ?b"
  define s1 where "s1 = s\<lparr>producer := P_Tail v ?t\<rparr>"
  define s2 where "s2 = s1\<lparr>producer := P_Head v ?t ?h\<rparr>"
  have r1: "producer_step s s1" unfolding s1_def using assms by (rule put_load_tail)
  have "producer s1 = P_Tail v ?t" by (simp add: s1_def)
  from put_load_head [OF this] have r2: "producer_step s1 s2" by (simp add: s2_def s1_def)
  have p2: "producer s2 = P_Head v ?t ?h" by (simp add: s2_def)
  have r: "producer_step\<^sup>*\<^sup>* s s2" using r1 r2 by auto
  show ?thesis
  proof (cases "sp_next ?b ?t = ?h")
    case True
    let ?s3 = "s2\<lparr>producer := P_Idle, shared := note_overflow (shared s2)\<rparr>"
    have "producer_step s2 ?s3" using put_reject [OF p2] True by (simp add: s2_def s1_def)
    then have "producer_step\<^sup>*\<^sup>* s ?s3" using r by auto
    moreover have "shared ?s3 = sp_put v ?b" using True by (simp add: s2_def s1_def sp_put_def sp_next_def)
    ultimately show ?thesis using True by (intro exI [of _ ?s3]) (simp add: s2_def s1_def)
  next
    case False
    define s3 where "s3 = s2\<lparr>producer := P_Written v ?t ?h,
      shared := ?b\<lparr>sp_buffer := (sp_buffer ?b)[?t := v]\<rparr>\<rparr>"
    have r3: "producer_step s2 s3" using put_write [OF p2] False by (simp add: s3_def s2_def s1_def)
    let ?n = "sp_next ?b ?t"
    let ?s4 = "s3\<lparr>producer := P_Idle,
      shared := note_put ((?n + sp_capacity ?b - ?h) mod sp_capacity ?b) ((shared s3)\<lparr>sp_tail := ?n\<rparr>),
      accepted := accepted s3 @ [v]\<rparr>"
    have "producer s3 = P_Written v ?t ?h" by (simp add: s3_def)
    from put_store_tail [OF this refl] have "producer_step s3 ?s4"
      by (simp add: s3_def s2_def s1_def sp_next_def)
    then have "producer_step\<^sup>*\<^sup>* s ?s4" using r r3 by auto
    moreover have "shared ?s4 = sp_put v ?b"
      using False by (simp add: s3_def s2_def s1_def sp_put_def sp_next_def Let_def)
    ultimately show ?thesis using False by (intro exI [of _ ?s4]) (simp add: s3_def s2_def s1_def)
  qed
qed

lemma get_steps_compose:
  assumes "consumer s = C_Idle"
  shows "\<exists>s'. consumer_step\<^sup>*\<^sup>* s s' \<and> shared s' = snd (sp_get (shared s)) \<and> consumer s' = C_Idle
    \<and> producer s' = producer s \<and> accepted s' = accepted s
    \<and> delivered s' = delivered s @ (case fst (sp_get (shared s)) of None \<Rightarrow> [] | Some v \<Rightarrow> [v])"
proof -
  let ?b = "shared s" let ?t = "sp_tail ?b" let ?h = "sp_head ?b"
  define s1 where "s1 = s\<lparr>consumer := C_Head ?h\<rparr>"
  define s2 where "s2 = s1\<lparr>consumer := C_Tail ?h ?t\<rparr>"
  have r1: "consumer_step s s1" unfolding s1_def using assms by (rule get_load_head)
  have "consumer s1 = C_Head ?h" by (simp add: s1_def)
  from get_load_tail [OF this] have r2: "consumer_step s1 s2" by (simp add: s2_def s1_def)
  have c2: "consumer s2 = C_Tail ?h ?t" by (simp add: s2_def)
  have r: "consumer_step\<^sup>*\<^sup>* s s2" using r1 r2 by auto
  show ?thesis
  proof (cases "?h = ?t")
    case True
    let ?s3 = "s2\<lparr>consumer := C_Idle, shared := note_underflow (shared s2)\<rparr>"
    have "consumer_step s2 ?s3" using get_empty [OF c2] True by simp
    then have "consumer_step\<^sup>*\<^sup>* s ?s3" using r by auto
    then show ?thesis using True by (intro exI [of _ ?s3]) (simp add: s2_def s1_def sp_get_def)
  next
    case False
    define s3 where "s3 = s2\<lparr>consumer := C_Read ?h (sp_buffer ?b ! ?h)\<rparr>"
    have r3: "consumer_step s2 s3" using get_read [OF c2] False by (simp add: s3_def s2_def s1_def)
    let ?s4 = "s3\<lparr>consumer := C_Idle, shared := note_get ((shared s3)\<lparr>sp_head := (?h + 1) mod sp_capacity ?b\<rparr>),
      delivered := delivered s3 @ [sp_buffer ?b ! ?h]\<rparr>"
    have "consumer s3 = C_Read ?h (sp_buffer ?b ! ?h)" by (simp add: s3_def)
    from get_store_head [OF this] have "consumer_step s3 ?s4" by (simp add: s3_def s2_def s1_def)
    then have "consumer_step\<^sup>*\<^sup>* s ?s4" using r r3 by auto
    then show ?thesis using False
      by (intro exI [of _ ?s4]) (simp add: s3_def s2_def s1_def sp_get_def Let_def)
  qed
qed

lemma reachable_producer_steps: "producer_step\<^sup>*\<^sup>* s s' \<Longrightarrow> spsc_reachable cap s \<Longrightarrow> spsc_reachable cap s'"
  by (induction rule: rtranclp_induct) (auto intro: reach_step step_producer)

section \<open>Properties\<close>

text \<open>C1: In every interleaving of one producer and one consumer, at the granularity of single
  loads and stores, the elements delivered by \<^verbatim>\<open>get\<close> followed by the stored ones are exactly the
  accepted ones in order, and at most capacity minus one are stored: nothing is lost, duplicated,
  reordered or invented.\<close>
theorem spsc_concurrent_fifo:
  assumes "spsc_reachable cap s"
  shows "accepted s = delivered s @ sp_content (shared s)
    \<and> length (sp_content (shared s)) < cap"
  using spsc_reachable_ok [OF assms] sp_size_bound [of cap "shared s"]
  by (simp add: spsc_ok_def sp_content_length)

theorem spsc_concurrent_fifo_witness:
  "\<exists>s. spsc_reachable 4 s \<and> accepted s = [7] \<and> accepted s = delivered s @ sp_content (shared s)
    \<and> length (sp_content (shared s)) < 4"
proof -
  obtain b where b: "sp_init 4 = Inr b" by (simp add: sp_init_def)
  have r0: "spsc_reachable 4 (spsc_start b)" using b by (rule reach_start)
  have "producer (spsc_start b) = P_Idle" by (simp add: spsc_start_def)
  then obtain s where s: "producer_step\<^sup>*\<^sup>* (spsc_start b) s"
    "accepted s = accepted (spsc_start b) @ (if sp_next (shared (spsc_start b)) (sp_tail (shared (spsc_start b)))
       = sp_head (shared (spsc_start b)) then [] else [7])"
    using put_steps_compose [of "spsc_start b" 7] by blast
  have r: "spsc_reachable 4 s" using reachable_producer_steps [OF s(1) r0] .
  have "accepted s = [7]" using s(2) b by (auto simp: spsc_start_def sp_next_def sp_init_def)
  with r spsc_concurrent_fifo [OF r] show ?thesis by blast
qed

end
