(* ===== verification/Q1_Mpmc.thy ===== *)
theory Q1_Mpmc imports Buffer_Contract Ring_Slice begin

text \<open>
  The bounded multi-producer multi-consumer queue of the Q1 axis, \<^verbatim>\<open>LockFreeMPMCBuffer\<close>
  (Vyukov's algorithm with a sequence number per cell), and \<^verbatim>\<open>OriginalLockFreeMpmcConcurrentQueue\<close>, which
  repeats the same code behind a compile-time switch.

  Operations run to completion one after the other.  All counters are 64-bit words and wrap; the
  claim loops are partial functions, with None for a loop that never ends.  In this sequential view a
  spurious failure of \<^verbatim>\<open>compare_exchange_weak\<close> reloads the same counter and repeats the iteration, so it is
  left out; \<^verbatim>\<open>Q1_Mpmc_Concurrent\<close> has it.

  The loops subtract two \<^verbatim>\<open>std::intptr_t\<close> values.  The subtraction is the exact one on the signed readings, and
  undefined when the result does not fit: this happens once the positions reach \<open>2 ^ 63\<close>.  The
  properties are therefore about fewer than \<open>2 ^ 63\<close> calls on a fresh queue.
\<close>

section \<open>The queue\<close>

record mpmc_cell =
  cell_sequence :: u64
  cell_data :: u64

record mpmc = q1_base +
  mp_cells :: "mpmc_cell list"
  mp_capacity :: u64
  mp_mask :: u64
  mp_enqueue_pos :: u64
  mp_dequeue_pos :: u64

definition mp_default_capacity :: u64 where
  "mp_default_capacity = 1024"

definition mp_validate_capacity :: "u64 \<Rightarrow> q1_error + u64" where
  "mp_validate_capacity cap =
     (if cap = 0 then Inl Capacity_Zero
      else if cap AND (cap - 1) \<noteq> 0 then Inl Capacity_Not_Power_Of_Two
      else Inr cap)"

text \<open>The fresh cells: the sequence number of cell \<open>i\<close> is \<open>i\<close>, its data is zero.\<close>
definition mp_fresh_cells :: "u64 \<Rightarrow> mpmc_cell list" where
  "mp_fresh_cells cap = map (\<lambda>i. \<lparr>cell_sequence = word_of_nat i, cell_data = 0\<rparr>) [0..<unat cap]"

definition mp_init :: "u64 \<Rightarrow> q1_error + mpmc" where
  "mp_init cap = (case mp_validate_capacity cap of
     Inl e \<Rightarrow> Inl e
   | Inr c \<Rightarrow> Inr \<lparr>q1_stats = stats_zero, mp_cells = mp_fresh_cells c, mp_capacity = c,
                  mp_mask = c - 1, mp_enqueue_pos = 0, mp_dequeue_pos = 0\<rparr>)"

definition mp_eq :: "mpmc \<Rightarrow> mpmc \<Rightarrow> bool" where
  "mp_eq a b = (mp_capacity a = mp_capacity b)"

definition mp_cell_at :: "mpmc \<Rightarrow> u64 \<Rightarrow> mpmc_cell" where
  "mp_cell_at b pos = mp_cells b ! unat (pos AND mp_mask b)"

text \<open>The signed difference of two casted \<^verbatim>\<open>size_t\<close> values; None is a signed overflow, on which the
  behaviour of the program is undefined.\<close>
definition mp_diff :: "u64 \<Rightarrow> u64 \<Rightarrow> int option" where
  "mp_diff a b = (let d = sint a - sint b in if - (2 ^ 63) \<le> d \<and> d < 2 ^ 63 then Some d else None)"

text \<open>How the loops of \<^verbatim>\<open>put\<close> and \<^verbatim>\<open>get\<close> end: with a claimed position, with a full (empty) queue, or with a
  signed overflow.\<close>
datatype mp_claim = Claimed u64 | No_Cell | Signed_Overflow

partial_function (option) mp_put_loop :: "mpmc \<Rightarrow> u64 \<Rightarrow> mp_claim option" where
  "mp_put_loop b pos =
     (case mp_diff (cell_sequence (mp_cell_at b pos)) pos of
        None \<Rightarrow> Some Signed_Overflow
      | Some diff \<Rightarrow>
          (if diff = 0 then
             (if mp_enqueue_pos b = pos then Some (Claimed pos) else mp_put_loop b (mp_enqueue_pos b))
           else if diff < 0 then Some No_Cell
           else mp_put_loop b (mp_enqueue_pos b)))"

partial_function (option) mp_get_loop :: "mpmc \<Rightarrow> u64 \<Rightarrow> mp_claim option" where
  "mp_get_loop b pos =
     (case mp_diff (cell_sequence (mp_cell_at b pos)) (pos + 1) of
        None \<Rightarrow> Some Signed_Overflow
      | Some diff \<Rightarrow>
          (if diff = 0 then
             (if mp_dequeue_pos b = pos then Some (Claimed pos) else mp_get_loop b (mp_dequeue_pos b))
           else if diff < 0 then Some No_Cell
           else mp_get_loop b (mp_dequeue_pos b)))"

text \<open>None for a call that does not return or whose behaviour is undefined.\<close>
definition mp_put :: "u64 \<Rightarrow> mpmc \<Rightarrow> mpmc option" where
  "mp_put v b = (case mp_put_loop b (mp_enqueue_pos b) of
     None \<Rightarrow> None
   | Some Signed_Overflow \<Rightarrow> None
   | Some No_Cell \<Rightarrow> Some (note_overflow b)
   | Some (Claimed pos) \<Rightarrow>
       (let b1 = b\<lparr>mp_enqueue_pos := pos + 1\<rparr>;
            b2 = b1\<lparr>mp_cells := (mp_cells b1)[unat (pos AND mp_mask b1) :=
                     \<lparr>cell_sequence = pos + 1, cell_data = v\<rparr>]\<rparr>;
            cur_size = pos + 1 - mp_dequeue_pos b2
        in Some (note_put (unat cur_size) b2)))"

definition mp_get :: "mpmc \<Rightarrow> (u64 option \<times> mpmc) option" where
  "mp_get b = (case mp_get_loop b (mp_dequeue_pos b) of
     None \<Rightarrow> None
   | Some Signed_Overflow \<Rightarrow> None
   | Some No_Cell \<Rightarrow> Some (None, note_underflow b)
   | Some (Claimed pos) \<Rightarrow>
       (let b1 = b\<lparr>mp_dequeue_pos := pos + 1\<rparr>;
            cell = mp_cell_at b1 pos;
            b2 = b1\<lparr>mp_cells := (mp_cells b1)[unat (pos AND mp_mask b1) :=
                     cell\<lparr>cell_sequence := pos + mp_capacity b1\<rparr>]\<rparr>
        in Some (Some (cell_data cell), note_get b2)))"

definition mp_size :: "mpmc \<Rightarrow> nat" where
  "mp_size b = (if mp_dequeue_pos b < mp_enqueue_pos b then unat (mp_enqueue_pos b - mp_dequeue_pos b) else 0)"

definition mp_is_empty :: "mpmc \<Rightarrow> bool" where
  "mp_is_empty b = (mp_size b = 0)"

definition mp_clear :: "mpmc \<Rightarrow> mpmc" where
  "mp_clear b = b\<lparr>mp_enqueue_pos := 0, mp_dequeue_pos := 0,
     mp_cells := map (\<lambda>i. (mp_cells b ! i)\<lparr>cell_sequence := word_of_nat i\<rparr>) [0..<unat (mp_capacity b)]\<rparr>"

definition mp_set_iterable_aspect :: "u64 \<Rightarrow> mpmc \<Rightarrow> q1_error + mpmc" where
  "mp_set_iterable_aspect new_cap b = (case mp_validate_capacity new_cap of
     Inl e \<Rightarrow> Inl e
   | Inr c \<Rightarrow> Inr (b\<lparr>mp_cells := mp_fresh_cells c, mp_capacity := c, mp_mask := c - 1,
                    mp_enqueue_pos := 0, mp_dequeue_pos := 0\<rparr>))"

definition mp_peek_front :: "mpmc \<Rightarrow> u64 option" where
  "mp_peek_front b = (let pos = mp_dequeue_pos b; cell = mp_cell_at b pos
     in if cell_sequence cell = pos + 1 then Some (cell_data cell) else None)"

definition mp_peek_back :: "mpmc \<Rightarrow> u64 option" where
  "mp_peek_back b = (let pos = mp_enqueue_pos b
     in if pos = 0 then None
        else (let cell = mp_cell_at b (pos - 1)
              in if cell_sequence cell = pos then Some (cell_data cell) else None))"

definition mp_emplace :: "u64 \<Rightarrow> mpmc \<Rightarrow> mpmc option" where
  "mp_emplace v b = mp_put v b"

lemma mp_note [simp]:
  "mp_cells (note_put n b) = mp_cells b" "mp_capacity (note_put n b) = mp_capacity b"
  "mp_mask (note_put n b) = mp_mask b" "mp_enqueue_pos (note_put n b) = mp_enqueue_pos b"
  "mp_dequeue_pos (note_put n b) = mp_dequeue_pos b"
  "mp_cells (note_get b) = mp_cells b" "mp_capacity (note_get b) = mp_capacity b"
  "mp_mask (note_get b) = mp_mask b" "mp_enqueue_pos (note_get b) = mp_enqueue_pos b"
  "mp_dequeue_pos (note_get b) = mp_dequeue_pos b"
  "mp_cells (note_underflow b) = mp_cells b" "mp_capacity (note_underflow b) = mp_capacity b"
  "mp_mask (note_underflow b) = mp_mask b" "mp_enqueue_pos (note_underflow b) = mp_enqueue_pos b"
  "mp_dequeue_pos (note_underflow b) = mp_dequeue_pos b"
  "mp_cells (note_overflow b) = mp_cells b" "mp_capacity (note_overflow b) = mp_capacity b"
  "mp_mask (note_overflow b) = mp_mask b" "mp_enqueue_pos (note_overflow b) = mp_enqueue_pos b"
  "mp_dequeue_pos (note_overflow b) = mp_dequeue_pos b"
  by (simp_all add: stats_defs)

section \<open>Representation\<close>

text \<open>\<open>D\<close> elements have left the queue so far and \<open>q\<close> is stored: the occupied cells carry the
  successor of their position, the free cells the position at which they will be filled next.\<close>
definition mp_rep :: "nat \<Rightarrow> nat \<Rightarrow> u64 list \<Rightarrow> mpmc \<Rightarrow> bool" where
  "mp_rep k D q b = (k < 64 \<and> mp_capacity b = 2 ^ k \<and> mp_mask b = mask k \<and> length (mp_cells b) = 2 ^ k
     \<and> length q \<le> 2 ^ k
     \<and> mp_enqueue_pos b = word_of_nat (D + length q) \<and> mp_dequeue_pos b = word_of_nat D
     \<and> (\<forall>i < length q. mp_cells b ! ((D + i) mod 2 ^ k) = \<lparr>cell_sequence = word_of_nat (D + i + 1), cell_data = q ! i\<rparr>)
     \<and> (\<forall>j. length q \<le> j \<and> j < 2 ^ k \<longrightarrow> cell_sequence (mp_cells b ! ((D + j) mod 2 ^ k)) = word_of_nat (D + j)))"

lemma mp_repI:
  assumes "k < 64" "mp_capacity b = 2 ^ k" "mp_mask b = mask k" "length (mp_cells b) = 2 ^ k"
    "length q \<le> 2 ^ k" "mp_enqueue_pos b = word_of_nat (D + length q)" "mp_dequeue_pos b = word_of_nat D"
    "\<And>i. i < length q \<Longrightarrow>
       mp_cells b ! ((D + i) mod 2 ^ k) = \<lparr>cell_sequence = word_of_nat (D + i + 1), cell_data = q ! i\<rparr>"
    "\<And>j. length q \<le> j \<Longrightarrow> j < 2 ^ k \<Longrightarrow> cell_sequence (mp_cells b ! ((D + j) mod 2 ^ k)) = word_of_nat (D + j)"
  shows "mp_rep k D q b"
  using assms by (simp add: mp_rep_def)

lemma mp_repD:
  assumes "mp_rep k D q b"
  shows "k < 64" "mp_capacity b = 2 ^ k" "mp_mask b = mask k" "length (mp_cells b) = 2 ^ k"
    "length q \<le> 2 ^ k" "mp_enqueue_pos b = word_of_nat (D + length q)" "mp_dequeue_pos b = word_of_nat D"
    "i < length q \<Longrightarrow>
       mp_cells b ! ((D + i) mod 2 ^ k) = \<lparr>cell_sequence = word_of_nat (D + i + 1), cell_data = q ! i\<rparr>"
    "length q \<le> j \<Longrightarrow> j < 2 ^ k \<Longrightarrow> cell_sequence (mp_cells b ! ((D + j) mod 2 ^ k)) = word_of_nat (D + j)"
  using assms unfolding mp_rep_def by blast+

lemma mp_rep_note:
  "mp_rep k D q (note_put n b) = mp_rep k D q b" "mp_rep k D q (note_get b) = mp_rep k D q b"
  "mp_rep k D q (note_underflow b) = mp_rep k D q b" "mp_rep k D q (note_overflow b) = mp_rep k D q b"
  by (simp_all add: mp_rep_def)

lemma mp_index: "k < 64 \<Longrightarrow> unat ((word_of_nat n :: u64) AND mask k) = n mod 2 ^ k"
  by (simp add: unat_and_mask unsigned_of_nat flip: take_bit_eq_mod)

lemma mp_rep_index:
  "mp_rep k D q b \<Longrightarrow> unat ((word_of_nat n :: u64) AND mp_mask b) = n mod 2 ^ k"
  by (simp add: mp_rep_def mp_index)

lemma mp_rep_cell: "mp_rep k D q b \<Longrightarrow> mp_cell_at b (word_of_nat n) = mp_cells b ! (n mod 2 ^ k)"
  by (simp add: mp_cell_at_def mp_rep_index)

text \<open>The signed differences the loops test.\<close>
lemma mp_diff_same [simp]: "mp_diff a a = Some 0"
  by (simp add: mp_diff_def)

lemma mp_diff_zero: "mp_diff a b = Some 0 \<longleftrightarrow> a = b"
proof -
  have "sint a = sint b \<longleftrightarrow> a = b" by (rule signed_word_eqI [THEN iffI]) simp_all
  then show ?thesis by (auto simp: mp_diff_def Let_def)
qed

lemma uint_small: "unat (a :: u64) < 2 ^ 63 \<Longrightarrow> uint a < 2 ^ 63"
proof -
  assume "unat a < 2 ^ 63"
  then have "int (unat a) < int (2 ^ 63)" by (simp only: of_nat_less_iff)
  then show ?thesis by simp
qed

lemma sint_unat: "unat (a :: u64) < 2 ^ 63 \<Longrightarrow> sint a = int (unat a)"
proof -
  assume u: "unat a < 2 ^ 63"
  have "- (2 ^ 63) \<le> uint a" by (rule order_trans [of _ 0]) simp_all
  then have "signed_take_bit 63 (uint a) = uint a" using uint_small [OF u] by (rule signed_take_bit_int_eq_self)
  then show ?thesis by (simp add: sint_uint)
qed

lemma mp_diff_small:
  assumes "unat a < 2 ^ 63" "unat b < 2 ^ 63"
  shows "mp_diff a b = Some (int (unat a) - int (unat b))"
proof -
  have "int (unat a) < 2 ^ 63" "int (unat b) < 2 ^ 63" "0 \<le> int (unat a)" "0 \<le> int (unat b)"
    using uint_small [OF assms(1)] uint_small [OF assms(2)] by simp_all
  then have "- (2 ^ 63) \<le> int (unat a) - int (unat b)" "int (unat a) - int (unat b) < 2 ^ 63" by linarith+
  then show ?thesis unfolding mp_diff_def sint_unat [OF assms(1)] sint_unat [OF assms(2)] by (simp only: Let_def if_True simp_thms)
qed

lemma mp_diff_nat:
  assumes "m < 2 ^ 63" "n < 2 ^ 63"
  shows "mp_diff (word_of_nat m) (word_of_nat n) = Some (int m - int n)"
proof -
  have "unat (word_of_nat m :: u64) = m" "unat (word_of_nat n :: u64) = n"
    using assms by (simp_all add: unat_word_of_nat)
  then show ?thesis using mp_diff_small [of "word_of_nat m" "word_of_nat n"] assms by simp
qed

lemma mp_put_loop_free:
  assumes "mp_rep k D q b" "length q < 2 ^ k"
  shows "mp_put_loop b (mp_enqueue_pos b) = Some (Claimed (mp_enqueue_pos b))"
  using assms by (subst mp_put_loop.simps) (simp add: mp_rep_cell [OF assms(1)] mp_rep_def del: of_nat_add)

lemma mp_put_loop_negative:
  "mp_diff (cell_sequence (mp_cell_at b pos)) pos = Some d \<Longrightarrow> d < 0 \<Longrightarrow> mp_put_loop b pos = Some No_Cell"
  by (subst mp_put_loop.simps) simp

lemma mp_put_loop_full:
  assumes "mp_rep k D q b" "length q = 2 ^ k" "0 < k" "D + length q < 2 ^ 63"
  shows "mp_put_loop b (mp_enqueue_pos b) = Some No_Cell"
proof -
  have two: "2 \<le> (2 :: nat) ^ k" using assms(3) by (simp add: self_le_power)
  have e: "mp_enqueue_pos b = word_of_nat (D + 2 ^ k)" using assms by (simp add: mp_rep_def)
  have "mp_cells b ! ((D + 0) mod 2 ^ k) = \<lparr>cell_sequence = word_of_nat (D + 0 + 1), cell_data = q ! 0\<rparr>"
    using assms unfolding mp_rep_def by fastforce
  then have "cell_sequence (mp_cell_at b (word_of_nat (D + 2 ^ k))) = word_of_nat (D + 1)"
    by (simp add: mp_rep_cell [OF assms(1)] del: of_nat_add)
  moreover have "mp_diff (word_of_nat (D + 1)) (word_of_nat (D + 2 ^ k)) = Some (int (D + 1) - int (D + 2 ^ k))"
    using two assms(2,4) by (intro mp_diff_nat) linarith+
  moreover have "int (D + 1) - int (D + 2 ^ k) < 0" using two by linarith
  ultimately show ?thesis unfolding e by (intro mp_put_loop_negative [where d = "int (D + 1) - int (D + 2 ^ k)"]) (simp only:)+
qed


lemma ring_index_eq_iff: "i < c \<Longrightarrow> j < c \<Longrightarrow> (h + i) mod c = (h + j) mod c \<longleftrightarrow> i = (j :: nat)"
  using ring_index_inj [of i j c h] ring_index_inj [of j i c h] by (cases i j rule: linorder_cases) auto

text \<open>A \<^verbatim>\<open>put\<close> into a queue with a free cell appends; into a full queue it is rejected.\<close>
lemma mp_put_free:
  assumes "mp_rep k D q b" "length q < 2 ^ k"
  shows "\<exists>b'. mp_put v b = Some b' \<and> mp_rep k D (q @ [v]) b'
    \<and> q1_stats b' = bump_peak (length q + 1)
        ((q1_stats b)\<lparr>total_put_count := total_put_count (q1_stats b) + 1\<rparr>)"
proof -
  let ?i = "(D + length q) mod 2 ^ k"
  let ?b2 = "b\<lparr>mp_enqueue_pos := mp_enqueue_pos b + 1,
    mp_cells := (mp_cells b)[?i := \<lparr>cell_sequence = mp_enqueue_pos b + 1, cell_data = v\<rparr>]\<rparr>"
  have e: "mp_enqueue_pos b = word_of_nat (D + length q)" "mp_dequeue_pos b = word_of_nat D"
    and k: "k < 64" using assms(1) by (simp_all add: mp_rep_def)
  have idx: "unat (mp_enqueue_pos b AND mp_mask b) = ?i"
    unfolding e by (rule mp_rep_index [OF assms(1)])
  have "(2 :: nat) ^ k \<le> 2 ^ 63" using k by (intro power_increasing) auto
  then have "length q + 1 < 2 ^ 64" using assms(2) by simp
  then have "unat (word_of_nat (length q + 1) :: u64) = length q + 1"
    by (intro unat_word_of_nat) simp
  then have "unat (mp_enqueue_pos b + 1 - mp_dequeue_pos b) = length q + 1"
    unfolding e by (simp add: algebra_simps)
  then have "mp_put v b = Some (note_put (length q + 1) ?b2)"
    using mp_put_loop_free [OF assms] idx by (simp add: mp_put_def Let_def)
  moreover have "mp_rep k D (q @ [v]) ?b2"
  proof (rule mp_repI)
    fix i assume "i < length (q @ [v])"
    then consider "i < length q" | "i = length q" by fastforce
    then show "mp_cells ?b2 ! ((D + i) mod 2 ^ k) = \<lparr>cell_sequence = word_of_nat (D + i + 1), cell_data = (q @ [v]) ! i\<rparr>"
    proof cases
      case 1
      then have "?i \<noteq> (D + i) mod 2 ^ k" using ring_index_eq_iff assms(2) by simp
      then show ?thesis using 1 mp_repD(8) [OF assms(1) 1] by (simp add: nth_append)
    next
      case 2
      then show ?thesis using e mp_repD(4) [OF assms(1)] by simp
    qed
  next
    fix j assume j: "length (q @ [v]) \<le> j" "j < 2 ^ k"
    then have "?i \<noteq> (D + j) mod 2 ^ k" using ring_index_eq_iff assms(2) by simp
    then show "cell_sequence (mp_cells ?b2 ! ((D + j) mod 2 ^ k)) = word_of_nat (D + j)"
      using j mp_repD(9) [OF assms(1), of j] by simp
  qed (use mp_repD(1-7) [OF assms(1)] assms(2) in simp_all)
  then have "mp_rep k D (q @ [v]) (note_put (length q + 1) ?b2)" by (simp only: mp_rep_note)
  ultimately show ?thesis by (intro exI conjI) (auto simp: note_put_def)
qed

lemma mp_put_full:
  assumes "mp_rep k D q b" "length q = 2 ^ k" "0 < k" "D + length q < 2 ^ 63"
  shows "mp_put v b = Some (note_overflow b)" "mp_rep k D q (note_overflow b)"
  using mp_put_loop_full [OF assms] assms(1) by (simp_all add: mp_put_def mp_rep_def)

lemma mp_get_loop_cons:
  assumes "mp_rep k D q b" "q \<noteq> []"
  shows "mp_get_loop b (mp_dequeue_pos b) = Some (Claimed (mp_dequeue_pos b))"
proof -
  have "mp_cells b ! ((D + 0) mod 2 ^ k) = \<lparr>cell_sequence = word_of_nat (D + 0 + 1), cell_data = q ! 0\<rparr>"
    using assms unfolding mp_rep_def by blast
  then have "cell_sequence (mp_cell_at b (mp_dequeue_pos b)) = mp_dequeue_pos b + 1"
    using assms(1) mp_rep_cell [OF assms(1), of D] by (simp add: mp_rep_def)
  then show ?thesis by (subst mp_get_loop.simps) simp
qed

lemma mp_get_loop_nil:
  assumes "mp_rep k D [] b" "D + 1 < 2 ^ 63"
  shows "mp_get_loop b (mp_dequeue_pos b) = Some No_Cell"
proof -
  have "cell_sequence (mp_cells b ! ((D + 0) mod 2 ^ k)) = word_of_nat (D + 0)"
    using assms(1) unfolding mp_rep_def by (metis le0 list.size(3) zero_less_numeral zero_less_power)
  then have "cell_sequence (mp_cell_at b (word_of_nat D)) = word_of_nat D"
    using mp_rep_cell [OF assms(1), of D] by simp
  moreover have "mp_diff (word_of_nat D) (word_of_nat D + 1) = Some (- 1)"
    using mp_diff_nat [of D "D + 1"] assms(2) by (simp add: add.commute)
  ultimately show ?thesis using mp_repD(7) [OF assms(1)] by (subst mp_get_loop.simps) simp
qed

lemma mp_get_cons:
  assumes "mp_rep k D (x # q) b"
  shows "\<exists>b'. mp_get b = Some (Some x, b') \<and> mp_rep k (Suc D) q b'
    \<and> q1_stats b' = (q1_stats b)\<lparr>total_get_count := total_get_count (q1_stats b) + 1\<rparr>"
proof -
  let ?i = "D mod 2 ^ k"
  let ?b2 = "b\<lparr>mp_dequeue_pos := mp_dequeue_pos b + 1,
    mp_cells := (mp_cells b)[?i := (mp_cells b ! ?i)\<lparr>cell_sequence := mp_dequeue_pos b + mp_capacity b\<rparr>]\<rparr>"
  have e: "mp_dequeue_pos b = word_of_nat D" "mp_mask b = mask k" "length (mp_cells b) = 2 ^ k"
    "mp_capacity b = 2 ^ k" "length q < 2 ^ k"
    using assms(1) by (simp_all add: mp_rep_def)
  have idx: "unat (mp_dequeue_pos b AND mp_mask b) = ?i"
    unfolding e(1) by (rule mp_rep_index [OF assms(1)])
  have occ: "mp_cells b ! ((D + i) mod 2 ^ k) = \<lparr>cell_sequence = word_of_nat (D + i + 1), cell_data = (x # q) ! i\<rparr>"
    if "i < Suc (length q)" for i using assms that unfolding mp_rep_def by simp
  have free: "cell_sequence (mp_cells b ! ((D + j) mod 2 ^ k)) = word_of_nat (D + j)"
    if "Suc (length q) \<le> j" "j < 2 ^ k" for j using assms that unfolding mp_rep_def by simp
  have x: "cell_data (mp_cells b ! ?i) = x" using occ [of 0] by simp
  have "mp_get b = Some (Some x, note_get ?b2)"
    using mp_get_loop_cons [OF assms] idx x by (simp add: mp_get_def mp_cell_at_def Let_def)
  moreover have "mp_rep k (Suc D) q ?b2"
  proof -
    have "mp_cells ?b2 ! ((Suc D + i) mod 2 ^ k) = \<lparr>cell_sequence = word_of_nat (Suc D + i + 1), cell_data = q ! i\<rparr>"
      if i: "i < length q" for i
    proof -
      have "(D + Suc i) mod 2 ^ k \<noteq> (D + 0) mod 2 ^ k"
        using ring_index_eq_iff [of "Suc i" "2 ^ k" 0 D] i e(5) by simp
      then show ?thesis using occ [of "Suc i"] i e(3) by (simp add: nth_list_update)
    qed
    moreover have "cell_sequence (mp_cells ?b2 ! ((Suc D + j) mod 2 ^ k)) = word_of_nat (Suc D + j)"
      if j: "length q \<le> j" "j < 2 ^ k" for j
    proof (cases "Suc j = 2 ^ k")
      case True
      then have i: "(Suc D + j) mod 2 ^ k = ?i" by (metis add_Suc_shift mod_add_self2)
      have "(2 :: u64) ^ k = word_of_nat (Suc j)" unfolding True by simp
      then show ?thesis unfolding i using e by simp
    next
      case False
      then have "(D + Suc j) mod 2 ^ k \<noteq> (D + 0) mod 2 ^ k"
        using ring_index_eq_iff [of "Suc j" "2 ^ k" 0 D] j by simp
      then show ?thesis using free [of "Suc j"] j False e(3) by (simp add: nth_list_update)
    qed
    ultimately show ?thesis
      using mp_repD(1-7) [OF assms] by (intro mp_repI) simp_all
  qed
  then have "mp_rep k (Suc D) q (note_get ?b2)" by (simp only: mp_rep_note)
  ultimately show ?thesis by (intro exI conjI) (auto simp: note_get_def)
qed

lemma mp_get_nil:
  assumes "mp_rep k D [] b" "D + 1 < 2 ^ 63"
  shows "mp_get b = Some (None, note_underflow b)" "mp_rep k D [] (note_underflow b)"
  using mp_get_loop_nil [OF assms] assms by (simp_all add: mp_get_def mp_rep_def)


section \<open>The contract\<close>

definition mp_content :: "mpmc \<Rightarrow> u64 list" where
  "mp_content b = map (\<lambda>i. cell_data (mp_cell_at b (mp_dequeue_pos b + word_of_nat i)))
     [0..<unat (mp_enqueue_pos b - mp_dequeue_pos b)]"

text \<open>\<open>mp_inv k n b\<close>: \<open>n\<close> more calls keep the positions below \<open>2 ^ 63\<close>.\<close>
definition mp_inv :: "nat \<Rightarrow> nat \<Rightarrow> mpmc \<Rightarrow> bool" where
  "mp_inv k n b = (\<exists>D q. mp_rep k D q b \<and> D + length q + n < 2 ^ 63)"

lemma mp_rep_length: "mp_rep k D q b \<Longrightarrow> length q < 2 ^ 64"
proof -
  assume r: "mp_rep k D q b"
  have "(2 :: nat) ^ k \<le> 2 ^ 63" using mp_repD(1) [OF r] by (intro power_increasing) auto
  then show ?thesis using mp_repD(5) [OF r] by simp
qed

lemma mp_rep_content: "mp_rep k D q b \<Longrightarrow> mp_content b = q"
proof -
  assume r: "mp_rep k D q b"
  have "unat (mp_enqueue_pos b - mp_dequeue_pos b) = length q"
    using mp_repD(6,7) [OF r] mp_rep_length [OF r] by (simp add: unat_word_of_nat)
  moreover have "cell_data (mp_cell_at b (mp_dequeue_pos b + word_of_nat i)) = q ! i" if "i < length q" for i
  proof -
    have "mp_dequeue_pos b + word_of_nat i = word_of_nat (D + i)" using mp_repD(7) [OF r] by simp
    then show ?thesis using mp_rep_cell [OF r, of "D + i"] mp_repD(8) [OF r that] by simp
  qed
  ultimately show ?thesis unfolding mp_content_def by (intro nth_equalityI) simp_all
qed

lemma mp_rep_ex: "mp_inv k n b \<Longrightarrow> \<exists>D. mp_rep k D (mp_content b) b \<and> D + length (mp_content b) + n < 2 ^ 63"
  using mp_rep_content by (auto simp: mp_inv_def)

lemma mp_put_correct:
  assumes "mp_inv k (Suc n) b" "0 < k"
  shows "\<exists>b'. mp_put v b = Some b' \<and> mp_inv k n b' \<and> mp_content b' = place_reject_new (2 ^ k) v (mp_content b)
    \<and> q1_stats b' = (if length (mp_content b) < 2 ^ k
        then bump_peak (length (mp_content b) + 1) ((q1_stats b)\<lparr>total_put_count := total_put_count (q1_stats b) + 1\<rparr>)
        else (q1_stats b)\<lparr>overflow_count := overflow_count (q1_stats b) + 1\<rparr>)"
proof -
  obtain D where r: "mp_rep k D (mp_content b) b" "D + length (mp_content b) + Suc n < 2 ^ 63"
    using mp_rep_ex [OF assms(1)] by blast
  show ?thesis
  proof (cases "length (mp_content b) < 2 ^ k")
    case True
    then obtain b' where b': "mp_put v b = Some b'" "mp_rep k D (mp_content b @ [v]) b'"
      "q1_stats b' = bump_peak (length (mp_content b) + 1)
         ((q1_stats b)\<lparr>total_put_count := total_put_count (q1_stats b) + 1\<rparr>)"
      using mp_put_free [OF r(1)] by blast
    have "mp_inv k n b'" unfolding mp_inv_def using b'(2) r(2) by (intro exI [of _ D] exI [of _ "mp_content b @ [v]"]) simp
    then show ?thesis using True mp_rep_content [OF b'(2)] b'(1,3) by (simp add: place_reject_new_def)
  next
    case False
    then have l: "length (mp_content b) = 2 ^ k" using mp_repD(5) [OF r(1)] by simp
    have d: "D + length (mp_content b) < 2 ^ 63" using r(2) by linarith
    note F = mp_put_full [OF r(1) l assms(2) d]
    have "mp_inv k n (note_overflow b)"
      unfolding mp_inv_def using F(2) r(2) by (intro exI [of _ D] exI [of _ "mp_content b"]) simp
    then show ?thesis using F(1) mp_rep_content [OF F(2)] False by (simp add: place_reject_new_def note_overflow_def)
  qed
qed

lemma mp_get_correct:
  assumes "mp_inv k (Suc n) b"
  shows "\<exists>b'. mp_get b = Some (head_opt (mp_content b), b') \<and> mp_inv k n b' \<and> mp_content b' = tl (mp_content b)
    \<and> q1_stats b' = (if mp_content b = []
        then (q1_stats b)\<lparr>underflow_count := underflow_count (q1_stats b) + 1\<rparr>
        else (q1_stats b)\<lparr>total_get_count := total_get_count (q1_stats b) + 1\<rparr>)"
proof -
  obtain D where r: "mp_rep k D (mp_content b) b" "D + length (mp_content b) + Suc n < 2 ^ 63"
    using mp_rep_ex [OF assms(1)] by blast
  show ?thesis
  proof (cases "mp_content b")
    case Nil
    then have r': "mp_rep k D [] b" "D + 1 < 2 ^ 63" using r by simp_all
    note G = mp_get_nil [OF r']
    have "mp_inv k n (note_underflow b)"
      unfolding mp_inv_def using G(2) r(2) Nil by (intro exI [of _ D] exI [of _ "[]"]) simp
    then show ?thesis using G(1) mp_rep_content [OF G(2)] Nil by (simp add: note_underflow_def)
  next
    case (Cons x q)
    then have r': "mp_rep k D (x # q) b" using r by simp
    then obtain b' where b': "mp_get b = Some (Some x, b')" "mp_rep k (Suc D) q b'"
      "q1_stats b' = (q1_stats b)\<lparr>total_get_count := total_get_count (q1_stats b) + 1\<rparr>"
      using mp_get_cons by blast
    have "mp_inv k n b'" unfolding mp_inv_def using b'(2) r(2) Cons by (intro exI [of _ "Suc D"] exI [of _ q]) simp
    then show ?thesis using mp_rep_content [OF b'(2)] Cons b'(1,3) by simp
  qed
qed

lemma mp_clear_rep:
  assumes "mp_rep k D q b"
  shows "mp_rep k 0 [] (mp_clear b)"
proof -
  have "(2 :: nat) ^ k < 2 ^ 64" using mp_repD(1) [OF assms] by (intro power_strict_increasing) auto
  then have "unat ((2 :: u64) ^ k) = 2 ^ k" using unat_word_of_nat [of "2 ^ k", where 'a = 64] by simp
  then show ?thesis using mp_repD(1-4) [OF assms] by (intro mp_repI) (simp_all add: mp_clear_def)
qed

lemma mp_clear_stats [simp]: "q1_stats (mp_clear b) = q1_stats b"
  by (simp add: mp_clear_def)

text \<open>For capacities from 2 on and positions below \<open>2 ^ 63\<close> the claim loops end, and the queue is a FIFO that
  rejects when full.\<close>
interpretation mpmc: q1_budgeted "\<lambda>n b. mp_inv k n b \<and> 0 < k" mp_content mp_get mp_clear mp_put
    "place_reject_new (2 ^ k)" q1_stats False for k
proof unfold_locales
  fix n b v assume a: "mp_inv k (Suc n) b \<and> 0 < k"
  obtain b' where "mp_get b = Some (head_opt (mp_content b), b')" "mp_inv k n b'" "mp_content b' = tl (mp_content b)"
    "q1_stats b' = (if mp_content b = []
        then (q1_stats b)\<lparr>underflow_count := underflow_count (q1_stats b) + 1\<rparr>
        else (q1_stats b)\<lparr>total_get_count := total_get_count (q1_stats b) + 1\<rparr>)"
    using mp_get_correct a by blast
  then show "\<exists>b'. mp_get b = Some (head_opt (mp_content b), b') \<and> (mp_inv k n b' \<and> 0 < k) \<and> mp_content b' = tl (mp_content b)
      \<and> flow False (q1_stats b') - word_of_nat (length (mp_content b'))
        = flow False (q1_stats b) - word_of_nat (length (mp_content b))"
    using a by (cases "mp_content b") (simp_all add: flow_get)
  obtain b2 where "mp_put v b = Some b2" "mp_inv k n b2" "mp_content b2 = place_reject_new (2 ^ k) v (mp_content b)"
    "q1_stats b2 = (if length (mp_content b) < 2 ^ k
        then bump_peak (length (mp_content b) + 1) ((q1_stats b)\<lparr>total_put_count := total_put_count (q1_stats b) + 1\<rparr>)
        else (q1_stats b)\<lparr>overflow_count := overflow_count (q1_stats b) + 1\<rparr>)"
    using mp_put_correct a by blast
  then show "\<exists>b'. mp_put v b = Some b' \<and> (mp_inv k n b' \<and> 0 < k) \<and> mp_content b' = place_reject_new (2 ^ k) v (mp_content b)
      \<and> flow False (q1_stats b') - word_of_nat (length (mp_content b'))
        = flow False (q1_stats b) - word_of_nat (length (mp_content b))"
    using a by (simp add: flow_def place_reject_new_def algebra_simps)
  obtain D q where r: "mp_rep k D q b" "D + length q + Suc n < 2 ^ 63" using a by (auto simp: mp_inv_def)
  note C = mp_clear_rep [OF r(1)]
  have "mp_inv k n (mp_clear b)" unfolding mp_inv_def using C r(2) by (intro exI [of _ 0] exI [of _ "[]"]) simp
  then show "(mp_inv k n (mp_clear b) \<and> 0 < k) \<and> mp_content (mp_clear b) = []" using a mp_rep_content [OF C] by simp
qed


section \<open>Capacities\<close>

text \<open>An accepted capacity is a power of two, and a fresh queue represents the empty content.\<close>
lemma mp_validate_capacity_power:
  assumes "mp_validate_capacity cap = Inr c"
  shows "c = cap \<and> (\<exists>k < 64. cap = 2 ^ k)"
proof -
  have "c = cap" "cap \<noteq> 0" "cap AND (cap - 1) = 0"
    using assms by (auto simp: mp_validate_capacity_def split: if_splits)
  then show ?thesis using word_and_pred_zero [of cap] by auto
qed

lemma unat_two_power: "k < 64 \<Longrightarrow> unat ((2 :: u64) ^ k) = 2 ^ k"
proof -
  assume "k < 64"
  then have "(2 :: nat) ^ k < 2 ^ 64" by (intro power_strict_increasing) auto
  then show ?thesis using unat_word_of_nat [of "2 ^ k", where 'a = 64] by simp
qed

lemma two_power_minus_one: "(2 :: u64) ^ k - 1 = mask k"
  by (simp add: mask_eq_exp_minus_1)

lemma mp_fresh_rep:
  assumes "k < 64" "mp_cells b = mp_fresh_cells (2 ^ k)" "mp_capacity b = 2 ^ k" "mp_mask b = 2 ^ k - 1"
    "mp_enqueue_pos b = 0" "mp_dequeue_pos b = 0"
  shows "mp_rep k 0 [] b"
proof (rule mp_repI)
  show "length (mp_cells b) = 2 ^ k" using assms(2) unat_two_power [OF assms(1)] by (simp add: mp_fresh_cells_def)
  show "mp_mask b = mask k" using assms(4) by (simp only: two_power_minus_one)
  fix j :: nat assume "j < 2 ^ k"
  then show "cell_sequence (mp_cells b ! ((0 + j) mod 2 ^ k)) = word_of_nat (0 + j)"
    using assms(2) unat_two_power [OF assms(1)] by (simp add: mp_fresh_cells_def)
qed (use assms in simp_all)

lemma mp_init_rep:
  assumes "mp_init cap = Inr b"
  shows "\<exists>k < 64. cap = 2 ^ k \<and> mp_rep k 0 [] b \<and> q1_stats b = stats_zero"
proof -
  obtain c where c: "mp_validate_capacity cap = Inr c"
    using assms by (auto simp: mp_init_def split: sum.splits)
  then obtain k where k: "c = cap" "k < 64" "cap = 2 ^ k" using mp_validate_capacity_power by blast
  then have "mp_rep k 0 [] b" using assms c by (intro mp_fresh_rep) (auto simp: mp_init_def)
  then show ?thesis using assms c k by (auto simp: mp_init_def)
qed

lemma mp_init_ok:
  assumes "mp_init (2 ^ k) = Inr b" "k < 64"
  shows "n < 2 ^ 63 \<Longrightarrow> mp_inv k n b" "mp_content b = []" "q1_stats b = stats_zero"
proof -
  obtain j where j: "j < 64" "(2 :: u64) ^ k = 2 ^ j" "mp_rep j 0 [] b" "q1_stats b = stats_zero"
    using mp_init_rep [OF assms(1)] by blast
  have "(2 :: nat) ^ k = 2 ^ j" using unat_two_power [OF assms(2)] unat_two_power [OF j(1)] unfolding j(2) by simp
  then have "k = j" by simp
  then have r: "mp_rep k 0 [] b" using j(3) by simp
  show "mp_inv k n b" if "n < 2 ^ 63" unfolding mp_inv_def using r that by (intro exI [of _ 0] exI [of _ "[]"]) simp
  show "mp_content b = []" "q1_stats b = stats_zero" using mp_rep_content [OF r] j(4) by simp_all
qed

lemma mp_set_iterable_rep:
  assumes "mp_set_iterable_aspect cap b = Inr b'"
  shows "\<exists>k < 64. cap = 2 ^ k \<and> mp_rep k 0 [] b' \<and> q1_stats b' = q1_stats b"
proof -
  obtain c where c: "mp_validate_capacity cap = Inr c"
    using assms by (auto simp: mp_set_iterable_aspect_def split: sum.splits)
  then obtain k where k: "c = cap" "k < 64" "cap = 2 ^ k" using mp_validate_capacity_power by blast
  then have "mp_rep k 0 [] b'" using assms c by (intro mp_fresh_rep) (auto simp: mp_set_iterable_aspect_def)
  then show ?thesis using assms c k by (auto simp: mp_set_iterable_aspect_def)
qed

section \<open>Observers\<close>

text \<open>\<^verbatim>\<open>peek_front\<close> is always right; \<^verbatim>\<open>size\<close> and \<^verbatim>\<open>peek_back\<close> compare the counters as they are,
  so they are right as long as fewer than \<open>2 ^ 64\<close> elements have entered the queue.\<close>
lemma mp_peek_front_rep:
  assumes "mp_rep k D q b"
  shows "mp_peek_front b = head_opt q"
proof -
  have cell: "mp_cell_at b (mp_dequeue_pos b) = mp_cells b ! (D mod 2 ^ k)"
    using mp_rep_cell [OF assms, of D] mp_repD(7) [OF assms] by simp
  show ?thesis
  proof (cases q)
    case Nil
    then have "cell_sequence (mp_cells b ! (D mod 2 ^ k)) = word_of_nat D"
      using mp_repD(9) [OF assms, of 0] by simp
    then show ?thesis using Nil cell mp_repD(7) [OF assms] by (simp add: mp_peek_front_def)
  next
    case (Cons x xs)
    then have "mp_cells b ! (D mod 2 ^ k) = \<lparr>cell_sequence = word_of_nat (D + 1), cell_data = x\<rparr>"
      using mp_repD(8) [OF assms, of 0] by simp
    then show ?thesis using Cons cell mp_repD(7) [OF assms] by (simp add: mp_peek_front_def)
  qed
qed

lemma mp_size_rep:
  assumes "mp_rep k D q b" "D + length q < 2 ^ 64"
  shows "mp_size b = length q"
proof -
  have u: "unat (mp_enqueue_pos b) = D + length q" "unat (mp_dequeue_pos b) = D"
    using assms(2) mp_repD(6,7) [OF assms(1)] by (simp_all add: unat_word_of_nat del: of_nat_add)
  have "unat (mp_enqueue_pos b - mp_dequeue_pos b) = length q"
    using mp_repD(6,7) [OF assms(1)] mp_rep_length [OF assms(1)] by (simp add: unat_word_of_nat)
  then show ?thesis using u by (simp add: mp_size_def word_less_nat_alt)
qed

lemma mp_inv_size: "mp_inv k n b \<Longrightarrow> mp_size b = length (mp_content b)"
  using mp_rep_ex [of k n b] mp_size_rep [of k _ "mp_content b" b] by fastforce

lemma mp_peek_back_rep:
  assumes "mp_rep k D q b" "D + length q < 2 ^ 64" "0 < k"
  shows "mp_peek_back b = last_opt q"
proof (cases q rule: rev_cases)
  case Nil
  show ?thesis
  proof (cases "D = 0")
    case True
    then show ?thesis using Nil mp_repD(6) [OF assms(1)] by (simp add: mp_peek_back_def)
  next
    case False
    have two: "2 \<le> (2 :: nat) ^ k" using assms(3) by (simp add: self_le_power)
    have "word_of_nat D - 1 = (word_of_nat (D - 1) :: u64)" using False by simp
    moreover have "cell_sequence (mp_cell_at b (word_of_nat (D - 1))) \<noteq> word_of_nat D"
    proof -
      have "(D - 1) mod 2 ^ k = (D + (2 ^ k - 1)) mod 2 ^ k"
        using False two by (metis Nat.add_diff_assoc Nat.diff_add_assoc2 One_nat_def Suc_leI
            add.commute mod_add_self2 neq0_conv one_le_power one_le_numeral)
      then have "cell_sequence (mp_cell_at b (word_of_nat (D - 1))) = word_of_nat (D + (2 ^ k - 1))"
        using mp_rep_cell [OF assms(1), of "D - 1"] mp_repD(9) [OF assms(1), of "2 ^ k - 1"] Nil by simp
      moreover have "unat (word_of_nat (2 ^ k - 1) :: u64) = 2 ^ k - 1"
      proof (rule unat_word_of_nat)
        have "(2 :: nat) ^ k < 2 ^ 64" using mp_repD(1) [OF assms(1)] by (intro power_strict_increasing) auto
        then show "(2 :: nat) ^ k - 1 < 2 ^ LENGTH(64)" by simp
      qed
      moreover have "(word_of_nat (D + (2 ^ k - 1)) :: u64) \<noteq> word_of_nat D"
      proof
        assume "(word_of_nat (D + (2 ^ k - 1)) :: u64) = word_of_nat D"
        then have "(word_of_nat (2 ^ k - 1) :: u64) = 0" unfolding of_nat_add by simp
        then have "unat (word_of_nat (2 ^ k - 1) :: u64) = 0" by (simp only: unsigned_0)
        then show False using calculation(2) two by simp
      qed
      ultimately show ?thesis by simp
    qed
    ultimately show ?thesis using Nil mp_repD(6) [OF assms(1)] by (simp add: mp_peek_back_def Let_def)
  qed
next
  case (snoc ys y)
  have "unat (mp_enqueue_pos b) = D + length q"
    using assms(2) mp_repD(6) [OF assms(1)] by (simp add: unat_word_of_nat del: of_nat_add)
  then have "mp_enqueue_pos b \<noteq> 0" using snoc by auto
  moreover have "mp_enqueue_pos b - 1 = word_of_nat (D + length ys)"
    using mp_repD(6) [OF assms(1)] snoc by simp
  moreover have "mp_cells b ! ((D + length ys) mod 2 ^ k)
      = \<lparr>cell_sequence = word_of_nat (D + length ys + 1), cell_data = y\<rparr>"
    using mp_repD(8) [OF assms(1), of "length ys"] snoc by simp
  ultimately show ?thesis
    using mp_rep_cell [OF assms(1), of "D + length ys"] mp_repD(6) [OF assms(1)] snoc
    by (simp add: mp_peek_back_def Let_def)
qed


section \<open>Capacity one\<close>

text \<open>A loop that reloads the position it started from and finds a positive difference again never
  ends.\<close>
lemma mp_get_loop_diverges:
  assumes "mp_diff (cell_sequence (mp_cell_at b (mp_dequeue_pos b))) (mp_dequeue_pos b + 1) = Some d" "0 < d"
  shows "mp_get_loop b (mp_dequeue_pos b) = None"
proof -
  have "b' = b \<longrightarrow> pos \<noteq> mp_dequeue_pos b" if "mp_get_loop b' pos = Some r" for b' pos r
    using _ that
  proof (rule mp_get_loop.raw_induct [where P = "\<lambda>b' pos r. b' = b \<longrightarrow> pos \<noteq> mp_dequeue_pos b"])
    fix loop :: "mpmc \<Rightarrow> u64 \<Rightarrow> mp_claim option" and b' pos r
    assume IH: "\<And>b' pos r. loop b' pos = Some r \<Longrightarrow> b' = b \<longrightarrow> pos \<noteq> mp_dequeue_pos b"
    assume "(case mp_diff (cell_sequence (mp_cell_at b' pos)) (pos + 1) of
        None \<Rightarrow> Some Signed_Overflow
      | Some diff \<Rightarrow>
          (if diff = 0 then
             (if mp_dequeue_pos b' = pos then Some (Claimed pos) else loop b' (mp_dequeue_pos b'))
           else if diff < 0 then Some No_Cell
           else loop b' (mp_dequeue_pos b'))) = Some r"
    then show "b' = b \<longrightarrow> pos \<noteq> mp_dequeue_pos b"
      using IH [of b "mp_dequeue_pos b" r] assms by (auto split: if_splits)
  qed
  then show ?thesis by (cases "mp_get_loop b (mp_dequeue_pos b)") auto
qed

text \<open>The capacity check accepts one, a power of two.  There the sequence number of an occupied cell
  equals the next enqueue position, so a second \<^verbatim>\<open>put\<close> overwrites the stored element instead of being
  rejected, and the following \<^verbatim>\<open>get\<close> does not return.\<close>
lemma mp_capacity_one_overwrites:
  assumes "mp_rep 0 D [x] b" "D + 2 < 2 ^ 63"
  shows "\<exists>b'. mp_put v b = Some b' \<and> overflow_count (q1_stats b') = overflow_count (q1_stats b)
    \<and> cell_data (mp_cells b' ! 0) = v \<and> mp_get_loop b' (mp_dequeue_pos b') = None \<and> mp_get b' = None"
proof -
  have m: "mp_mask b = 0" "length (mp_cells b) = 1" "mp_enqueue_pos b = word_of_nat (D + 1)"
    "mp_dequeue_pos b = word_of_nat D"
    "mp_cells b ! 0 = \<lparr>cell_sequence = word_of_nat (D + 1), cell_data = x\<rparr>"
    using mp_repD(3,4,6,7) [OF assms(1)] mp_repD(8) [OF assms(1), of 0] by simp_all
  have at: "mp_cell_at b p = mp_cells b ! 0" for p by (simp add: mp_cell_at_def m(1))
  have loop: "mp_put_loop b (mp_enqueue_pos b) = Some (Claimed (mp_enqueue_pos b))"
    using m by (subst mp_put_loop.simps) (simp add: at)
  define b' where "b' = note_put (unat (mp_enqueue_pos b + 1 - mp_dequeue_pos b))
    (b\<lparr>mp_enqueue_pos := mp_enqueue_pos b + 1,
       mp_cells := (mp_cells b)[0 := \<lparr>cell_sequence = mp_enqueue_pos b + 1, cell_data = v\<rparr>]\<rparr>)"
  have put: "mp_put v b = Some b'" using loop m(1) by (simp add: mp_put_def b'_def Let_def)
  have "cell_sequence (mp_cell_at b' (mp_dequeue_pos b')) = word_of_nat (D + 2)" "mp_dequeue_pos b' + 1 = word_of_nat (D + 1)"
    using m by (simp_all add: b'_def mp_cell_at_def add.commute)
  moreover have "mp_diff (word_of_nat (D + 2)) (word_of_nat (D + 1)) = Some (int (D + 2) - int (D + 1))"
    using assms(2) by (intro mp_diff_nat) linarith+
  ultimately have end_less: "mp_get_loop b' (mp_dequeue_pos b') = None"
    by (intro mp_get_loop_diverges [where d = "int (D + 2) - int (D + 1)"]) (simp only:, simp)
  then have "mp_get b' = None" by (simp add: mp_get_def)
  moreover have "overflow_count (q1_stats b') = overflow_count (q1_stats b)" "cell_data (mp_cells b' ! 0) = v"
    using m(2) by (simp_all add: b'_def)
  ultimately show ?thesis using put end_less by blast
qed

section \<open>OriginalLockFreeMpmcConcurrentQueue\<close>

text \<open>The same algorithm text, except that \<^verbatim>\<open>put\<close> and \<^verbatim>\<open>get\<close> do nothing in a build where the organ is
  switched off.  Its remaining operations are those of the queue above, word for word.\<close>
definition oq_put :: "bool \<Rightarrow> u64 \<Rightarrow> mpmc \<Rightarrow> mpmc option" where
  "oq_put enabled v b = (if \<not> enabled then Some b else mp_put v b)"

definition oq_get :: "bool \<Rightarrow> mpmc \<Rightarrow> (u64 option \<times> mpmc) option" where
  "oq_get enabled b = (if \<not> enabled then Some (None, b) else mp_get b)"

definition oq_init :: "u64 \<Rightarrow> q1_error + mpmc" where
  "oq_init cap = mp_init cap"

definition oq_size :: "mpmc \<Rightarrow> nat" where
  "oq_size b = mp_size b"

definition oq_clear :: "mpmc \<Rightarrow> mpmc" where
  "oq_clear b = mp_clear b"

definition oq_set_iterable_aspect :: "u64 \<Rightarrow> mpmc \<Rightarrow> q1_error + mpmc" where
  "oq_set_iterable_aspect cap b = mp_set_iterable_aspect cap b"

definition oq_peek_front :: "mpmc \<Rightarrow> u64 option" where
  "oq_peek_front b = mp_peek_front b"

definition oq_peek_back :: "mpmc \<Rightarrow> u64 option" where
  "oq_peek_back b = mp_peek_back b"

text \<open>Enabled, the two queues agree on every sequence of calls; disabled, the organ behaves as an empty
  buffer.\<close>
lemma oq_run_enabled:
  "q1_try (oq_put True) (oq_get True) oq_clear ops b = q1_try mp_put mp_get mp_clear ops b"
  by (simp add: oq_put_def [abs_def] oq_get_def [abs_def] oq_clear_def [abs_def])

lemma oq_disabled: "oq_put False v b = Some b" "oq_get False b = Some (None, b)"
  by (simp_all add: oq_put_def oq_get_def)

section \<open>Properties\<close>

text \<open>C4: On a \<^verbatim>\<open>LockFreeMPMCBuffer\<close> of capacity \<open>2 ^ k\<close>, \<open>1 \<le> k < 64\<close>, every sequence of
  fewer than \<open>2 ^ 63\<close> calls runs to its end: each \<^verbatim>\<open>put\<close> and \<^verbatim>\<open>get\<close> returns (its claim loop ends)
  and the signed difference it computes does not overflow.  The results, and afterwards \<^verbatim>\<open>size\<close> and
  \<^verbatim>\<open>peek_front\<close>, are those of the queue that holds \<open>2 ^ k\<close> elements and rejects a \<^verbatim>\<open>put\<close> when full.\<close>
theorem mpmc_refines_queue:
  assumes "mp_init (2 ^ k) = Inr b" "0 < k" "k < 64" "length ops < 2 ^ 63"
  shows "\<exists>b'. q1_try mp_put mp_get mp_clear ops b = Some (fst (spec_run (place_reject_new (2 ^ k)) ops []), b')
    \<and> mp_size b' = length (snd (spec_run (place_reject_new (2 ^ k)) ops []))
    \<and> mp_peek_front b' = head_opt (snd (spec_run (place_reject_new (2 ^ k)) ops []))"
proof -
  note ok = mp_init_ok [OF assms(1,3)]
  obtain b' where b': "q1_try mp_put mp_get mp_clear ops b = Some (fst (spec_run (place_reject_new (2 ^ k)) ops []), b')"
    "mp_inv k 0 b'" "mp_content b' = snd (spec_run (place_reject_new (2 ^ k)) ops [])"
    using mpmc.try_refines [of k ops b] ok(1) [OF assms(4)] ok(2) assms(2) by auto
  obtain D where r: "mp_rep k D (mp_content b') b'" "D + length (mp_content b') < 2 ^ 63"
    using mp_rep_ex [OF b'(2)] by auto
  show ?thesis using b'(1,3) mp_size_rep [OF r(1)] mp_peek_front_rep [OF r(1)] r(2) by simp
qed

theorem mpmc_refines_queue_witness:
  "\<exists>b b'. mp_init (2 ^ 1) = Inr b
    \<and> q1_try mp_put mp_get mp_clear [Put 1, Put 2, Put 3, Get, Get, Get, Put 4] b = Some ([Some 1, Some 2, None], b')
    \<and> mp_size b' = 1"
proof -
  have "(2 :: u64) AND 1 = 0" by (simp add: and_one_eq)
  then obtain b where b: "mp_init (2 ^ 1) = Inr b" by (simp add: mp_init_def mp_validate_capacity_def)
  have "spec_run (place_reject_new (2 ^ 1)) [Put 1, Put 2, Put 3, Get, Get, Get, Put 4] [] = ([Some 1, Some 2, None], [4])"
    by (simp add: spec_run_def place_reject_new_def spec_get_def)
  then show ?thesis
    using b mpmc_refines_queue [OF b, of "[Put 1, Put 2, Put 3, Get, Get, Get, Put 4]"] by auto
qed

text \<open>C40: Capacity 1 passes the capacity check of \<^verbatim>\<open>LockFreeMPMCBuffer\<close>, but the algorithm does not work
  there: a second \<^verbatim>\<open>put\<close> overwrites the stored element without counting an overflow, and the
  loop of the following \<^verbatim>\<open>get\<close> never ends.\<close>
theorem mpmc_capacity_one_broken:
  "\<exists>b b1 b2. mp_init 1 = Inr b \<and> mp_put x b = Some b1 \<and> mp_put y b1 = Some b2
     \<and> overflow_count (q1_stats b2) = 0 \<and> cell_data (mp_cells b2 ! 0) = y
     \<and> mp_get_loop b2 (mp_dequeue_pos b2) = None \<and> mp_get b2 = None"
proof -
  obtain b where b: "mp_init (2 ^ 0) = Inr b" by (simp add: mp_init_def mp_validate_capacity_def)
  have r: "mp_rep 0 0 [] b" "q1_stats b = stats_zero"
  proof -
    obtain j where j: "j < 64" "(2 :: u64) ^ 0 = 2 ^ j" "mp_rep j 0 [] b" "q1_stats b = stats_zero"
      using mp_init_rep [OF b] by blast
    have "(2 :: nat) ^ 0 = 2 ^ j"
      using unat_two_power [of 0] unat_two_power [OF j(1)] unfolding j(2) by simp
    then have "j = 0" by (cases j) simp_all
    then show "mp_rep 0 0 [] b" "q1_stats b = stats_zero" using j by simp_all
  qed
  obtain b1 where b1: "mp_put x b = Some b1" "mp_rep 0 0 ([] @ [x]) b1"
    "q1_stats b1 = bump_peak (length [] + 1) ((q1_stats b)\<lparr>total_put_count := total_put_count (q1_stats b) + 1\<rparr>)"
    using mp_put_free [OF r(1), of x] by auto
  obtain b2 where "mp_put y b1 = Some b2" "overflow_count (q1_stats b2) = overflow_count (q1_stats b1)"
    "cell_data (mp_cells b2 ! 0) = y" "mp_get_loop b2 (mp_dequeue_pos b2) = None" "mp_get b2 = None"
    using mp_capacity_one_overwrites [of 0 x b1 y] b1(2) by auto
  then show ?thesis using b b1 r(2) by (auto simp: stats_zero_def)
qed

end
