(* ===== verification/Q1_Mpmc_Concurrent.thy ===== *)
theory Q1_Mpmc_Concurrent imports Q1_Mpmc begin

text \<open>
  Any number of producers and consumers on a \<^verbatim>\<open>LockFreeMPMCBuffer\<close>, interleaved at their accesses to
  shared memory.  A thread's program counter names the access it makes next; \<open>mp_access\<close> makes it.  The
  \<^verbatim>\<open>compare_exchange_weak\<close> of the code is one access; \<open>mp_spurious\<close> is its spurious failure, which every
  interleaving may contain.  A signed difference that overflows leads to \<open>T_Undefined\<close>.  Memory is
  sequentially consistent; the statistics are plain members of the code, so that their increments are a load and
  a store.

  The properties are about capacities \<open>2 ^ k\<close> with \<open>1 \<le> k \<le> 62\<close> and fewer than \<open>2 ^ 62\<close> accepted values: the
  positions then stay below \<open>2 ^ 63\<close>, so that they neither wrap nor overflow the signed difference, and a
  position is not claimed a second time after a wrap.

  The history records the values in the order of the claimed enqueue positions (\<open>mc_accepted\<close>) and what
  the consumers returned, with the position they had claimed (\<open>mc_delivered\<close>).
\<close>

section \<open>The accesses\<close>

datatype put_pc =
    Put_Start u64
  | Put_Loop u64 u64          \<comment> \<open>value, position\<close>
  | Put_Seq u64 u64 u64       \<comment> \<open>value, position, loaded sequence number\<close>
  | Put_Claimed u64 u64
  | Put_Written u64 u64
  | Put_Count u64
  | Put_Count_Store u64 u64   \<comment> \<open>position, loaded counter\<close>
  | Put_Size u64
  | Put_Peak u64              \<comment> \<open>current size\<close>
  | Put_Peak_Store u64
  | Put_Overflow
  | Put_Overflow_Store u64

datatype get_pc =
    Get_Start
  | Get_Loop u64              \<comment> \<open>position\<close>
  | Get_Seq u64 u64           \<comment> \<open>position, loaded sequence number\<close>
  | Get_Claimed u64
  | Get_Read u64 u64          \<comment> \<open>position, value\<close>
  | Get_Count
  | Get_Count_Store u64
  | Get_Underflow
  | Get_Underflow_Store u64

datatype mp_pc = T_Idle | T_Undefined | In_Put put_pc | In_Get get_pc

record mp_conc =
  mc_queue :: mpmc
  mc_pc :: "nat \<Rightarrow> mp_pc"
  mc_accepted :: "u64 list"
  mc_delivered :: "(nat \<times> u64) list"

definition mc_start :: "mpmc \<Rightarrow> mp_conc" where
  "mc_start b = \<lparr>mc_queue = b, mc_pc = (\<lambda>_. T_Idle), mc_accepted = [], mc_delivered = []\<rparr>"

definition mc_goto :: "nat \<Rightarrow> mp_pc \<Rightarrow> mp_conc \<Rightarrow> mp_conc" where
  "mc_goto i pc s = s\<lparr>mc_pc := (mc_pc s)(i := pc)\<rparr>"

definition mc_stat :: "(buffer_stats \<Rightarrow> buffer_stats) \<Rightarrow> mp_conc \<Rightarrow> mp_conc" where
  "mc_stat f s = s\<lparr>mc_queue := (mc_queue s)\<lparr>q1_stats := f (q1_stats (mc_queue s))\<rparr>\<rparr>"

definition mp_upd_cell :: "u64 \<Rightarrow> (mpmc_cell \<Rightarrow> mpmc_cell) \<Rightarrow> mpmc \<Rightarrow> mpmc" where
  "mp_upd_cell pos f b = b\<lparr>mp_cells := (mp_cells b)[unat (pos AND mp_mask b) := f (mp_cell_at b pos)]\<rparr>"

fun mp_put_access :: "nat \<Rightarrow> put_pc \<Rightarrow> mp_conc \<Rightarrow> mp_conc" where
  "mp_put_access i (Put_Start v) s = mc_goto i (In_Put (Put_Loop v (mp_enqueue_pos (mc_queue s)))) s"
| "mp_put_access i (Put_Loop v pos) s = mc_goto i (In_Put (Put_Seq v pos (cell_sequence (mp_cell_at (mc_queue s) pos)))) s"
| "mp_put_access i (Put_Seq v pos seq) s =
     (let e = mp_enqueue_pos (mc_queue s)
      in case mp_diff seq pos of
           None \<Rightarrow> mc_goto i T_Undefined s
         | Some diff \<Rightarrow>
             (if diff = 0 then
                (if e = pos
                 then mc_goto i (In_Put (Put_Claimed v pos))
                        (s\<lparr>mc_queue := (mc_queue s)\<lparr>mp_enqueue_pos := pos + 1\<rparr>, mc_accepted := mc_accepted s @ [v]\<rparr>)
                 else mc_goto i (In_Put (Put_Loop v e)) s)
              else if diff < 0 then mc_goto i (In_Put Put_Overflow) s
              else mc_goto i (In_Put (Put_Loop v e)) s))"
| "mp_put_access i (Put_Claimed v pos) s = mc_goto i (In_Put (Put_Written v pos))
     (s\<lparr>mc_queue := mp_upd_cell pos (\<lambda>c. c\<lparr>cell_data := v\<rparr>) (mc_queue s)\<rparr>)"
| "mp_put_access i (Put_Written v pos) s = mc_goto i (In_Put (Put_Count pos))
     (s\<lparr>mc_queue := mp_upd_cell pos (\<lambda>c. c\<lparr>cell_sequence := pos + 1\<rparr>) (mc_queue s)\<rparr>)"
| "mp_put_access i (Put_Count pos) s = mc_goto i (In_Put (Put_Count_Store pos (total_put_count (q1_stats (mc_queue s))))) s"
| "mp_put_access i (Put_Count_Store pos n) s = mc_goto i (In_Put (Put_Size pos)) (mc_stat (total_put_count_update (\<lambda>_. n + 1)) s)"
| "mp_put_access i (Put_Size pos) s = mc_goto i (In_Put (Put_Peak (pos + 1 - mp_dequeue_pos (mc_queue s)))) s"
| "mp_put_access i (Put_Peak n) s = mc_goto i (if peak_size (q1_stats (mc_queue s)) < n then In_Put (Put_Peak_Store n) else T_Idle) s"
| "mp_put_access i (Put_Peak_Store n) s = mc_goto i T_Idle (mc_stat (peak_size_update (\<lambda>_. n)) s)"
| "mp_put_access i Put_Overflow s = mc_goto i (In_Put (Put_Overflow_Store (overflow_count (q1_stats (mc_queue s))))) s"
| "mp_put_access i (Put_Overflow_Store n) s = mc_goto i T_Idle (mc_stat (overflow_count_update (\<lambda>_. n + 1)) s)"

fun mp_get_access :: "nat \<Rightarrow> get_pc \<Rightarrow> mp_conc \<Rightarrow> mp_conc" where
  "mp_get_access i Get_Start s = mc_goto i (In_Get (Get_Loop (mp_dequeue_pos (mc_queue s)))) s"
| "mp_get_access i (Get_Loop pos) s = mc_goto i (In_Get (Get_Seq pos (cell_sequence (mp_cell_at (mc_queue s) pos)))) s"
| "mp_get_access i (Get_Seq pos seq) s =
     (let d = mp_dequeue_pos (mc_queue s)
      in case mp_diff seq (pos + 1) of
           None \<Rightarrow> mc_goto i T_Undefined s
         | Some diff \<Rightarrow>
             (if diff = 0 then
                (if d = pos
                 then mc_goto i (In_Get (Get_Claimed pos)) (s\<lparr>mc_queue := (mc_queue s)\<lparr>mp_dequeue_pos := pos + 1\<rparr>\<rparr>)
                 else mc_goto i (In_Get (Get_Loop d)) s)
              else if diff < 0 then mc_goto i (In_Get Get_Underflow) s
              else mc_goto i (In_Get (Get_Loop d)) s))"
| "mp_get_access i (Get_Claimed pos) s = mc_goto i (In_Get (Get_Read pos (cell_data (mp_cell_at (mc_queue s) pos)))) s"
| "mp_get_access i (Get_Read pos v) s = mc_goto i (In_Get Get_Count)
     (s\<lparr>mc_queue := mp_upd_cell pos (\<lambda>c. c\<lparr>cell_sequence := pos + mp_capacity (mc_queue s)\<rparr>) (mc_queue s),
        mc_delivered := mc_delivered s @ [(unat pos, v)]\<rparr>)"
| "mp_get_access i Get_Count s = mc_goto i (In_Get (Get_Count_Store (total_get_count (q1_stats (mc_queue s))))) s"
| "mp_get_access i (Get_Count_Store n) s = mc_goto i T_Idle (mc_stat (total_get_count_update (\<lambda>_. n + 1)) s)"
| "mp_get_access i Get_Underflow s = mc_goto i (In_Get (Get_Underflow_Store (underflow_count (q1_stats (mc_queue s))))) s"
| "mp_get_access i (Get_Underflow_Store n) s = mc_goto i T_Idle (mc_stat (underflow_count_update (\<lambda>_. n + 1)) s)"

definition mp_access :: "nat \<Rightarrow> mp_conc \<Rightarrow> mp_conc" where
  "mp_access i s = (case mc_pc s i of
     T_Idle \<Rightarrow> s
   | T_Undefined \<Rightarrow> s
   | In_Put pc \<Rightarrow> mp_put_access i pc s
   | In_Get pc \<Rightarrow> mp_get_access i pc s)"

text \<open>The spurious failure of a compare-and-swap: the position is reloaded and the loop goes round.\<close>
fun mp_spurious :: "nat \<Rightarrow> mp_pc \<Rightarrow> mp_conc \<Rightarrow> mp_conc option" where
  "mp_spurious i (In_Put (Put_Seq v pos seq)) s = (if mp_diff seq pos = Some 0
     then Some (mc_goto i (In_Put (Put_Loop v (mp_enqueue_pos (mc_queue s)))) s) else None)"
| "mp_spurious i (In_Get (Get_Seq pos seq)) s = (if mp_diff seq (pos + 1) = Some 0
     then Some (mc_goto i (In_Get (Get_Loop (mp_dequeue_pos (mc_queue s)))) s) else None)"
| "mp_spurious i _ s = None"

inductive mp_step :: "mp_conc \<Rightarrow> mp_conc \<Rightarrow> bool" where
  call_put: "mc_pc s i = T_Idle \<Longrightarrow> mp_step s (mc_goto i (In_Put (Put_Start v)) s)"
| call_get: "mc_pc s i = T_Idle \<Longrightarrow> mp_step s (mc_goto i (In_Get Get_Start) s)"
| access: "mp_step s (mp_access i s)"
| spurious: "mp_spurious i (mc_pc s i) s = Some s' \<Longrightarrow> mp_step s s'"

inductive mp_reachable :: "u64 \<Rightarrow> mp_conc \<Rightarrow> bool" for cap where
  reach_init: "mp_init cap = Inr b \<Longrightarrow> mp_reachable cap (mc_start b)"
| reach_step: "mp_reachable cap s \<Longrightarrow> mp_step s s' \<Longrightarrow> mp_reachable cap s'"

section \<open>Tickets\<close>

text \<open>The position a thread has claimed and not yet published.\<close>
fun put_ticket :: "mp_pc \<Rightarrow> nat option" where
  "put_ticket (In_Put (Put_Claimed v pos)) = Some (unat pos)"
| "put_ticket (In_Put (Put_Written v pos)) = Some (unat pos)"
| "put_ticket _ = None"

fun get_ticket :: "mp_pc \<Rightarrow> nat option" where
  "get_ticket (In_Get (Get_Claimed pos)) = Some (unat pos)"
| "get_ticket (In_Get (Get_Read pos v)) = Some (unat pos)"
| "get_ticket _ = None"

text \<open>What a thread knows.  A loaded sequence number that allows the claim is still the current one, unless
  the position has been claimed by another thread.  No thread has run into a signed overflow.\<close>
fun mc_knows :: "nat \<Rightarrow> nat \<Rightarrow> nat \<Rightarrow> (nat \<Rightarrow> nat) \<Rightarrow> (nat \<Rightarrow> u64) \<Rightarrow> u64 list \<Rightarrow> mp_pc \<Rightarrow> bool" where
  "mc_knows cap E D sq dt acc (In_Put (Put_Loop v pos)) = (unat pos \<le> E)"
| "mc_knows cap E D sq dt acc (In_Put (Put_Seq v pos seq)) =
     (unat pos \<le> E \<and> unat seq \<le> E + cap \<and> (seq = pos \<and> unat pos = E \<longrightarrow> sq (E mod cap) = E))"
| "mc_knows cap E D sq dt acc (In_Put (Put_Claimed v pos)) = (acc ! unat pos = v)"
| "mc_knows cap E D sq dt acc (In_Put (Put_Written v pos)) = (acc ! unat pos = v \<and> dt (unat pos mod cap) = v)"
| "mc_knows cap E D sq dt acc (In_Get (Get_Loop pos)) = (unat pos \<le> D)"
| "mc_knows cap E D sq dt acc (In_Get (Get_Seq pos seq)) =
     (unat pos \<le> D \<and> unat seq \<le> E + cap \<and> (seq = pos + 1 \<and> unat pos = D \<longrightarrow> sq (D mod cap) = D + 1))"
| "mc_knows cap E D sq dt acc (In_Get (Get_Claimed pos)) = (dt (unat pos mod cap) = acc ! unat pos)"
| "mc_knows cap E D sq dt acc (In_Get (Get_Read pos v)) = (acc ! unat pos = v)"
| "mc_knows cap E D sq dt acc T_Undefined = False"
| "mc_knows cap E D sq dt acc _ = True"

text \<open>The cells: \<open>E\<close> positions have been claimed for putting and \<open>D\<close> for getting.  A position from \<open>D\<close> on below \<open>E\<close> is
  stored or being stored; the cell of a position from \<open>E\<close> on is free or being emptied.\<close>
definition mc_cells :: "nat \<Rightarrow> nat \<Rightarrow> nat \<Rightarrow> (nat \<Rightarrow> nat) \<Rightarrow> (nat \<Rightarrow> u64) \<Rightarrow> u64 list \<Rightarrow> (nat \<Rightarrow> mp_pc) \<Rightarrow> bool" where
  "mc_cells cap E D sq dt acc pc \<longleftrightarrow> D \<le> E \<and> E \<le> D + cap
     \<and> (\<forall>t. D \<le> t \<and> t < E \<longrightarrow> sq (t mod cap) = t + 1 \<and> dt (t mod cap) = acc ! t \<or> sq (t mod cap) = t \<and> (\<exists>i. put_ticket (pc i) = Some t))
     \<and> (\<forall>t. E \<le> t \<and> t < D + cap \<longrightarrow> sq (t mod cap) = t \<or> (\<exists>i d. t = d + cap \<and> get_ticket (pc i) = Some d))"

text \<open>The holders of tickets.\<close>
definition mc_holders :: "nat \<Rightarrow> nat \<Rightarrow> nat \<Rightarrow> (nat \<Rightarrow> nat) \<Rightarrow> (nat \<Rightarrow> mp_pc) \<Rightarrow> bool" where
  "mc_holders cap E D sq pc \<longleftrightarrow>
     (\<forall>i t. put_ticket (pc i) = Some t \<longrightarrow> D \<le> t \<and> t < E \<and> sq (t mod cap) = t)
     \<and> (\<forall>i t. get_ticket (pc i) = Some t \<longrightarrow> t < D \<and> E \<le> t + cap \<and> sq (t mod cap) = t + 1)
     \<and> (\<forall>i j t. put_ticket (pc i) = Some t \<and> put_ticket (pc j) = Some t \<longrightarrow> i = j)
     \<and> (\<forall>i j t. get_ticket (pc i) = Some t \<and> get_ticket (pc j) = Some t \<longrightarrow> i = j)"

definition mc_history :: "nat \<Rightarrow> u64 list \<Rightarrow> (nat \<Rightarrow> mp_pc) \<Rightarrow> (nat \<times> u64) list \<Rightarrow> bool" where
  "mc_history D acc pc del \<longleftrightarrow> distinct (map fst del)
     \<and> (\<forall>(t, v) \<in> set del. t < D \<and> v = acc ! t \<and> (\<forall>i. get_ticket (pc i) \<noteq> Some t))
     \<and> (\<forall>t < D. t \<in> fst ` set del \<or> (\<exists>i. get_ticket (pc i) = Some t))"

definition mc_ok :: "nat \<Rightarrow> nat \<Rightarrow> nat \<Rightarrow> (nat \<Rightarrow> nat) \<Rightarrow> (nat \<Rightarrow> u64) \<Rightarrow> u64 list \<Rightarrow> (nat \<Rightarrow> mp_pc) \<Rightarrow> (nat \<times> u64) list \<Rightarrow> bool" where
  "mc_ok cap E D sq dt acc pc del \<longleftrightarrow> length acc = E \<and> mc_cells cap E D sq dt acc pc \<and> mc_holders cap E D sq pc
     \<and> (\<forall>i. mc_knows cap E D sq dt acc (pc i)) \<and> mc_history D acc pc del"


lemma ring_window: "(a :: nat) \<le> b \<Longrightarrow> b < a + c \<Longrightarrow> a mod c = b mod c \<Longrightarrow> a = b"
proof -
  assume a: "a \<le> b" "b < a + c" "a mod c = b mod c"
  then have "c dvd b - a" using mod_eq_dvd_iff_nat [of a b c] by simp
  moreover have "b - a < c" using a by simp
  ultimately have "b - a = 0" using dvd_imp_le [of c "b - a"] by linarith
  then show ?thesis using a(1) by simp
qed

lemma ring_window2:
  assumes "D \<le> a" "a < D + c" "D \<le> b" "b < D + c" "a mod c = b mod (c :: nat)"
  shows "a = b"
  using ring_window [of a b c] ring_window [of b a c] assms by (cases "a \<le> b") simp_all

lemma mc_cellsD:
  assumes "mc_cells cap E D sq dt acc pc"
  shows "D \<le> E" "E \<le> D + cap"
    "D \<le> t \<Longrightarrow> t < E \<Longrightarrow> sq (t mod cap) = t + 1 \<and> dt (t mod cap) = acc ! t \<or> sq (t mod cap) = t \<and> (\<exists>i. put_ticket (pc i) = Some t)"
    "E \<le> t \<Longrightarrow> t < D + cap \<Longrightarrow> sq (t mod cap) = t \<or> (\<exists>i d. t = d + cap \<and> get_ticket (pc i) = Some d)"
  using assms unfolding mc_cells_def by blast+

lemma mc_holdersD:
  assumes "mc_holders cap E D sq pc"
  shows "put_ticket (pc i) = Some t \<Longrightarrow> D \<le> t \<and> t < E \<and> sq (t mod cap) = t"
    "get_ticket (pc i) = Some t \<Longrightarrow> t < D \<and> E \<le> t + cap \<and> sq (t mod cap) = t + 1"
    "put_ticket (pc i) = Some t \<Longrightarrow> put_ticket (pc j) = Some t \<Longrightarrow> i = j"
    "get_ticket (pc i) = Some t \<Longrightarrow> get_ticket (pc j) = Some t \<Longrightarrow> i = j"
  using assms unfolding mc_holders_def by blast+

lemma mc_okD:
  assumes "mc_ok cap E D sq dt acc pc del"
  shows "length acc = E" "mc_cells cap E D sq dt acc pc" "mc_holders cap E D sq pc" "mc_knows cap E D sq dt acc (pc i)"
    "mc_history D acc pc del"
  using assms by (simp_all add: mc_ok_def)

text \<open>A step that keeps the thread's tickets.\<close>
lemma mc_local:
  assumes "mc_ok cap E D sq dt acc pc del" "put_ticket c = put_ticket (pc i)" "get_ticket c = get_ticket (pc i)"
    "mc_knows cap E D sq dt acc c"
  shows "mc_ok cap E D sq dt acc (pc(i := c)) del"
proof -
  have t: "put_ticket ((pc(i := c)) j) = put_ticket (pc j)" "get_ticket ((pc(i := c)) j) = get_ticket (pc j)" for j
    using assms(2,3) by simp_all
  have "mc_cells cap E D sq dt acc (pc(i := c))" "mc_holders cap E D sq (pc(i := c))" "mc_history D acc (pc(i := c)) del"
    using mc_okD(2,3,5) [OF assms(1)] unfolding mc_cells_def mc_holders_def mc_history_def t by blast+
  then show ?thesis using mc_okD(1,4) [OF assms(1)] assms(4) by (simp add: mc_ok_def)
qed

text \<open>A free cell has no getter, a stored one no putter.\<close>
lemma mc_free_cell:
  assumes "mc_ok cap E D sq dt acc pc del" "2 \<le> cap" "sq (E mod cap) = E"
  shows "E < D + cap" "get_ticket (pc j) = Some d \<Longrightarrow> d + cap \<noteq> E"
proof -
  note C = mc_cellsD [OF mc_okD(2) [OF assms(1)]] and H = mc_holdersD [OF mc_okD(3) [OF assms(1)]]
  show "E < D + cap"
  proof (rule ccontr)
    assume "\<not> E < D + cap"
    then have e: "E = D + cap" using C(2) by simp
    then have "sq (D mod cap) = E" using assms(3) by simp
    then show False using C(3) [of D] e assms(2) by auto
  qed
  show "d + cap \<noteq> E" if d: "get_ticket (pc j) = Some d"
  proof
    assume e: "d + cap = E"
    have "sq (d mod cap) = E" using assms(3) unfolding e [symmetric] by simp
    then show False using H(2) [OF d] e assms(2) by simp
  qed
qed

lemma mc_stored_cell:
  assumes "mc_ok cap E D sq dt acc pc del" "2 \<le> cap" "sq (D mod cap) = D + 1"
  shows "D < E" "dt (D mod cap) = acc ! D" "put_ticket (pc j) \<noteq> Some D"
proof -
  note C = mc_cellsD [OF mc_okD(2) [OF assms(1)]] and H = mc_holdersD [OF mc_okD(3) [OF assms(1)]]
  show l: "D < E"
  proof (rule ccontr)
    assume "\<not> D < E"
    then have e: "D = E" using C(1) by simp
    then obtain i d where d: "D = d + cap" "get_ticket (pc i) = Some d" using C(4) [of D] assms(2,3) by auto
    have "sq (d mod cap) = D + 1" using assms(3) by (simp add: d(1))
    then show False using H(2) [OF d(2)] d(1) assms(2) by simp
  qed
  then show "dt (D mod cap) = acc ! D" using C(3) [of D] assms(3) by auto
  show "put_ticket (pc j) \<noteq> Some D" using H(1) [of j D] assms(3) by auto
qed

lemma mc_put_claim:
  assumes "mc_ok cap E D sq dt acc pc del" "2 \<le> cap" "pc i = In_Put (Put_Seq v pos pos)" "unat pos = E"
  shows "mc_ok cap (E + 1) D sq dt (acc @ [v]) (pc(i := In_Put (Put_Claimed v pos))) del"
proof -
  note C = mc_cellsD [OF mc_okD(2) [OF assms(1)]] and H = mc_holdersD [OF mc_okD(3) [OF assms(1)]]
  define pc' where "pc' = pc(i := In_Put (Put_Claimed v pos))"
  have sq: "sq (E mod cap) = E" using mc_okD(4) [OF assms(1), of i] assms(3,4) by simp
  note F = mc_free_cell [OF assms(1,2) sq]
  have len: "length acc = E" by (rule mc_okD(1) [OF assms(1)])
  have acc: "t < E \<Longrightarrow> (acc @ [v]) ! t = acc ! t" "(acc @ [v]) ! E = v" for t using len by (simp_all add: nth_append)
  have pt: "put_ticket (pc' j) = (if j = i then Some E else put_ticket (pc j))" "get_ticket (pc' j) = get_ticket (pc j)" for j
    using assms(3,4) by (simp_all add: pc'_def)
  have ni: "put_ticket (pc i) = None" using assms(3) by simp
  have old: "put_ticket (pc j) = Some t \<Longrightarrow> put_ticket (pc' j) = Some t" for j t using ni by (auto simp: pt)
  have cells: "mc_cells cap (E + 1) D sq dt (acc @ [v]) pc'"
    unfolding mc_cells_def
  proof (intro conjI allI impI)
    show "D \<le> E + 1" "E + 1 \<le> D + cap" using C(1) F(1) by simp_all
    show "sq (t mod cap) = t + 1 \<and> dt (t mod cap) = (acc @ [v]) ! t \<or> sq (t mod cap) = t \<and> (\<exists>i. put_ticket (pc' i) = Some t)"
      if t: "D \<le> t \<and> t < E + 1" for t
    proof (cases "t = E")
      case True
      moreover have "put_ticket (pc' i) = Some E" by (simp add: pt)
      ultimately show ?thesis using sq by auto
    next
      case False
      then show ?thesis using C(3) [of t] t acc(1) [of t] old by fastforce
    qed
    show "sq (t mod cap) = t \<or> (\<exists>i d. t = d + cap \<and> get_ticket (pc' i) = Some d)" if "E + 1 \<le> t \<and> t < D + cap" for t
      using C(4) [of t] that unfolding pt by simp
  qed
  have holders: "mc_holders cap (E + 1) D sq pc'"
    unfolding mc_holders_def
  proof (intro conjI allI impI)
    fix j t assume "put_ticket (pc' j) = Some t"
    then have "t = E \<or> put_ticket (pc j) = Some t" by (auto simp: pt split: if_splits)
    then show "D \<le> t" "t < E + 1" "sq (t mod cap) = t" using H(1) [of j t] sq C(1) by auto
  next
    fix j t assume g: "get_ticket (pc' j) = Some t"
    then show "t < D" "E + 1 \<le> t + cap" "sq (t mod cap) = t + 1" using H(2) [of j t] F(2) [of j t] by (auto simp: pt)
  next
    fix j l t assume "put_ticket (pc' j) = Some t \<and> put_ticket (pc' l) = Some t"
    then show "j = l" using H(1) [of j t] H(1) [of l t] H(3) [of j t l] by (auto simp: pt split: if_splits)
  next
    fix j l t assume "get_ticket (pc' j) = Some t \<and> get_ticket (pc' l) = Some t"
    then show "j = l" using H(4) [of j t l] by (simp add: pt)
  qed
  have knows: "mc_knows cap (E + 1) D sq dt (acc @ [v]) (pc' j)" for j
  proof (cases "j = i")
    case True
    then show ?thesis using acc(2) assms(4) by (simp add: pc'_def)
  next
    case False
    then have e: "pc' j = pc j" by (simp add: pc'_def)
    have pl: "put_ticket (pc j) = Some t \<Longrightarrow> t < E" "get_ticket (pc j) = Some t \<Longrightarrow> t < E" for t
      using H(1,2) [of j t] C(1) by auto
    have "mc_knows cap E D sq dt acc (pc j)" by (rule mc_okD(4) [OF assms(1)])
    then show ?thesis unfolding e using pl acc(1)
      by (cases "(cap, E, D, sq, dt, acc, pc j)" rule: mc_knows.cases) auto
  qed
  have hist: "mc_history D (acc @ [v]) pc' del"
    using mc_okD(5) [OF assms(1)] acc(1) C(1) unfolding mc_history_def pt by fastforce
  show ?thesis using len cells holders knows hist by (simp add: mc_ok_def pc'_def)
qed

lemma mc_get_claim:
  assumes "mc_ok cap E D sq dt acc pc del" "2 \<le> cap" "pc i = In_Get (Get_Seq pos (pos + 1))" "unat pos = D"
  shows "mc_ok cap E (D + 1) sq dt acc (pc(i := In_Get (Get_Claimed pos))) del"
proof -
  note C = mc_cellsD [OF mc_okD(2) [OF assms(1)]] and H = mc_holdersD [OF mc_okD(3) [OF assms(1)]]
  define pc' where "pc' = pc(i := In_Get (Get_Claimed pos))"
  have sq: "sq (D mod cap) = D + 1" using mc_okD(4) [OF assms(1), of i] assms(3,4) by simp
  note F = mc_stored_cell [OF assms(1,2) sq]
  have gt: "put_ticket (pc' j) = put_ticket (pc j)" "get_ticket (pc' j) = (if j = i then Some D else get_ticket (pc j))" for j
    using assms(3,4) by (simp_all add: pc'_def)
  have ni: "get_ticket (pc i) = None" using assms(3) by simp
  have old: "get_ticket (pc j) = Some t \<Longrightarrow> get_ticket (pc' j) = Some t" for j t using ni by (auto simp: gt)
  have cells: "mc_cells cap E (D + 1) sq dt acc pc'"
    unfolding mc_cells_def
  proof (intro conjI allI impI)
    show "D + 1 \<le> E" "E \<le> D + 1 + cap" using C(2) F(1) by simp_all
    show "sq (t mod cap) = t + 1 \<and> dt (t mod cap) = acc ! t \<or> sq (t mod cap) = t \<and> (\<exists>i. put_ticket (pc' i) = Some t)"
      if "D + 1 \<le> t \<and> t < E" for t using C(3) [of t] that unfolding gt by simp
    show "sq (t mod cap) = t \<or> (\<exists>i d. t = d + cap \<and> get_ticket (pc' i) = Some d)" if t: "E \<le> t \<and> t < D + 1 + cap" for t
    proof (cases "t = D + cap")
      case True
      moreover have "get_ticket (pc' i) = Some D" by (simp add: gt)
      ultimately show ?thesis by blast
    next
      case False
      then show ?thesis using C(4) [of t] t old by fastforce
    qed
  qed
  have holders: "mc_holders cap E (D + 1) sq pc'"
    unfolding mc_holders_def
  proof (intro conjI allI impI)
    fix j t assume g: "put_ticket (pc' j) = Some t"
    then have "t \<noteq> D" using F(3) [of j] by (auto simp: gt)
    then show "D + 1 \<le> t" "t < E" "sq (t mod cap) = t" using g H(1) [of j t] by (auto simp: gt)
  next
    fix j t assume "get_ticket (pc' j) = Some t"
    then have "t = D \<or> get_ticket (pc j) = Some t" by (auto simp: gt split: if_splits)
    then show "t < D + 1" "E \<le> t + cap" "sq (t mod cap) = t + 1" using H(2) [of j t] sq C(2) by auto
  next
    fix j l t assume "put_ticket (pc' j) = Some t \<and> put_ticket (pc' l) = Some t"
    then show "j = l" using H(3) [of j t l] by (simp add: gt)
  next
    fix j l t assume "get_ticket (pc' j) = Some t \<and> get_ticket (pc' l) = Some t"
    then show "j = l" using H(2) [of j t] H(2) [of l t] H(4) [of j t l] by (auto simp: gt split: if_splits)
  qed
  have knows: "mc_knows cap E (D + 1) sq dt acc (pc' j)" for j
  proof (cases "j = i")
    case True
    then show ?thesis using F(2) assms(4) by (simp add: pc'_def)
  next
    case False
    then have e: "pc' j = pc j" by (simp add: pc'_def)
    have "mc_knows cap E D sq dt acc (pc j)" by (rule mc_okD(4) [OF assms(1)])
    then show ?thesis unfolding e by (cases "(cap, E, D, sq, dt, acc, pc j)" rule: mc_knows.cases) auto
  qed
  have hist: "mc_history (D + 1) acc pc' del"
    unfolding mc_history_def
  proof (intro conjI allI impI ballI)
    note h = mc_okD(5) [OF assms(1), unfolded mc_history_def]
    show "distinct (map fst del)" using h by blast
    show "case r of (t, v) \<Rightarrow> t < D + 1 \<and> v = acc ! t \<and> (\<forall>j. get_ticket (pc' j) \<noteq> Some t)" if r: "r \<in> set del" for r
    proof (cases r)
      case (Pair t w)
      then have "t < D \<and> w = acc ! t \<and> (\<forall>j. get_ticket (pc j) \<noteq> Some t)" using h r by blast
      then show ?thesis by (simp add: Pair gt)
    qed
    show "t \<in> fst ` set del \<or> (\<exists>j. get_ticket (pc' j) = Some t)" if t: "t < D + 1" for t
    proof (cases "t = D")
      case True
      moreover have "get_ticket (pc' i) = Some D" by (simp add: gt)
      ultimately show ?thesis by blast
    next
      case False
      then show ?thesis using h t old by (metis less_Suc_eq Suc_eq_plus1)
    qed
  qed
  show ?thesis using mc_okD(1) [OF assms(1)] cells holders knows hist by (simp add: mc_ok_def pc'_def)
qed


text \<open>The cells of two claimed positions differ.\<close>
lemma mc_put_cell:
  assumes "mc_ok cap E D sq dt acc pc del" "2 \<le> cap" "put_ticket (pc i) = Some t"
  shows "D \<le> t" "t < E" "sq (t mod cap) = t" "D \<le> u \<Longrightarrow> u < D + cap \<Longrightarrow> u mod cap = t mod cap \<Longrightarrow> u = t"
    "get_ticket (pc j) = Some d \<Longrightarrow> d mod cap \<noteq> t mod cap"
proof -
  note C = mc_cellsD [OF mc_okD(2) [OF assms(1)]] and H = mc_holdersD [OF mc_okD(3) [OF assms(1)]]
  show t: "D \<le> t" "t < E" "sq (t mod cap) = t" using H(1) [OF assms(3)] by simp_all
  then show w: "D \<le> u \<Longrightarrow> u < D + cap \<Longrightarrow> u mod cap = t mod cap \<Longrightarrow> u = t" for u
    using ring_window2 [of D u cap t] C(2) by simp
  show "d mod cap \<noteq> t mod cap" if d: "get_ticket (pc j) = Some d"
  proof
    assume "d mod cap = t mod cap"
    then have "d + cap = t" using w [of "d + cap"] H(2) [OF d] C(1) by simp
    then show False using H(2) [OF d] t(2) by simp
  qed
qed

lemma mc_get_cell:
  assumes "mc_ok cap E D sq dt acc pc del" "2 \<le> cap" "get_ticket (pc i) = Some d"
  shows "d < D" "E \<le> d + cap" "sq (d mod cap) = d + 1" "D \<le> u \<Longrightarrow> u < D + cap \<Longrightarrow> u mod cap = d mod cap \<Longrightarrow> u = d + cap"
    "get_ticket (pc j) = Some d' \<Longrightarrow> d' mod cap = d mod cap \<Longrightarrow> d' = d"
proof -
  note C = mc_cellsD [OF mc_okD(2) [OF assms(1)]] and H = mc_holdersD [OF mc_okD(3) [OF assms(1)]]
  show d: "d < D" "E \<le> d + cap" "sq (d mod cap) = d + 1" using H(2) [OF assms(3)] by simp_all
  then show w: "D \<le> u \<Longrightarrow> u < D + cap \<Longrightarrow> u mod cap = d mod cap \<Longrightarrow> u = d + cap" for u
    using ring_window2 [of D u cap "d + cap"] C(1) by simp
  show "d' = d" if d': "get_ticket (pc j) = Some d'" "d' mod cap = d mod cap"
    using w [of "d' + cap"] H(2) [OF d'(1)] d'(2) C(1) by simp
qed

text \<open>A producer writes its claimed cell.\<close>
lemma mc_put_write:
  assumes "mc_ok cap E D sq dt acc pc del" "2 \<le> cap" "pc i = In_Put (Put_Claimed v pos)" "t = unat pos"
  shows "mc_ok cap E D sq (dt(t mod cap := v)) acc (pc(i := In_Put (Put_Written v pos))) del"
proof -
  note C = mc_cellsD [OF mc_okD(2) [OF assms(1)]] and H = mc_holdersD [OF mc_okD(3) [OF assms(1)]]
  have ti: "put_ticket (pc i) = Some t" using assms(3,4) by simp
  note P = mc_put_cell [OF assms(1,2) ti]
  define dt' where "dt' = dt(t mod cap := v)"
  have cells: "mc_cells cap E D sq dt' acc pc"
    unfolding mc_cells_def
  proof (intro conjI allI impI)
    show "D \<le> E" "E \<le> D + cap" by (rule C(1), rule C(2))
    show "sq (u mod cap) = u + 1 \<and> dt' (u mod cap) = acc ! u \<or> sq (u mod cap) = u \<and> (\<exists>i. put_ticket (pc i) = Some u)"
      if u: "D \<le> u \<and> u < E" for u
    proof (cases "u mod cap = t mod cap")
      case True
      then have "u = t" using P(4) [of u] u C(2) by simp
      then show ?thesis using P(3) ti by blast
    next
      case False
      then show ?thesis using C(3) [of u] u by (simp add: dt'_def)
    qed
    show "sq (u mod cap) = u \<or> (\<exists>i d. u = d + cap \<and> get_ticket (pc i) = Some d)" if "E \<le> u \<and> u < D + cap" for u
      using C(4) [of u] that by simp
  qed
  have knows: "mc_knows cap E D sq dt' acc (pc j)" if "j \<noteq> i" for j
  proof -
    have k: "mc_knows cap E D sq dt acc (pc j)" by (rule mc_okD(4) [OF assms(1)])
    have g: "get_ticket (pc j) = Some d \<Longrightarrow> d mod cap \<noteq> t mod cap" for d by (rule P(5))
    have q: "put_ticket (pc j) = Some u \<Longrightarrow> u mod cap \<noteq> t mod cap" for u
    proof
      assume u: "put_ticket (pc j) = Some u" "u mod cap = t mod cap"
      then have "u = t" using P(4) [of u] H(1) [OF u(1)] C(2) by simp
      then show False using H(3) [OF u(1), of i] ti \<open>j \<noteq> i\<close> by simp
    qed
    show ?thesis using k g q unfolding dt'_def
      by (cases "(cap, E, D, sq, dt, acc, pc j)" rule: mc_knows.cases) auto
  qed
  have k0: "mc_knows cap E D sq dt acc (pc i)" by (rule mc_okD(4) [OF assms(1)])
  define c where "c = In_Put (Put_Written v pos)"
  have ci: "mc_knows cap E D sq dt' acc c" using k0 assms(3,4) by (simp add: c_def dt'_def)
  have "\<forall>j. mc_knows cap E D sq dt' acc ((pc(i := c)) j)" using ci knows by simp
  moreover have tk: "put_ticket ((pc(i := c)) j) = put_ticket (pc j)" "get_ticket ((pc(i := c)) j) = get_ticket (pc j)" for j
    using assms(3) by (simp_all add: c_def)
  have "mc_cells cap E D sq dt' acc (pc(i := c))" "mc_holders cap E D sq (pc(i := c))" "mc_history D acc (pc(i := c)) del"
    using cells mc_okD(3,5) [OF assms(1)] unfolding mc_cells_def mc_holders_def mc_history_def tk by blast+
  ultimately show ?thesis using mc_okD(1) [OF assms(1)] by (simp add: mc_ok_def c_def dt'_def)
qed

text \<open>A producer publishes its cell.\<close>
lemma mc_put_publish:
  assumes "mc_ok cap E D sq dt acc pc del" "2 \<le> cap" "pc i = In_Put (Put_Written v pos)" "t = unat pos"
    "put_ticket c = None" "get_ticket c = None" "mc_knows cap E D (sq(t mod cap := t + 1)) dt acc c"
  shows "mc_ok cap E D (sq(t mod cap := t + 1)) dt acc (pc(i := c)) del"
proof -
  note C = mc_cellsD [OF mc_okD(2) [OF assms(1)]] and H = mc_holdersD [OF mc_okD(3) [OF assms(1)]]
  have ti: "put_ticket (pc i) = Some t" using assms(3,4) by simp
  note P = mc_put_cell [OF assms(1,2) ti]
  define sq' where "sq' = sq(t mod cap := t + 1)"
  define pc' where "pc' = pc(i := c)"
  have pt: "put_ticket (pc' j) = (if j = i then None else put_ticket (pc j))" "get_ticket (pc' j) = get_ticket (pc j)" for j
    using assms(3,5,6) by (simp_all add: pc'_def)
  have dt: "dt (t mod cap) = acc ! t" using mc_okD(4) [OF assms(1), of i] assms(3,4) by simp
  have far: "u mod cap \<noteq> t mod cap" if "D \<le> u" "u < D + cap" "u \<noteq> t" for u using P(4) [of u] that by blast
  have cells: "mc_cells cap E D sq' dt acc pc'"
    unfolding mc_cells_def
  proof (intro conjI allI impI)
    show "D \<le> E" "E \<le> D + cap" by (rule C(1), rule C(2))
    show "sq' (u mod cap) = u + 1 \<and> dt (u mod cap) = acc ! u \<or> sq' (u mod cap) = u \<and> (\<exists>i. put_ticket (pc' i) = Some u)"
      if u: "D \<le> u \<and> u < E" for u
    proof (cases "u = t")
      case True
      then show ?thesis using dt by (simp add: sq'_def)
    next
      case False
      then have e: "sq' (u mod cap) = sq (u mod cap)" using far [of u] u C(2) by (simp add: sq'_def)
      have "put_ticket (pc j) = Some u \<Longrightarrow> put_ticket (pc' j) = Some u" for j using ti False by (auto simp: pt)
      then show ?thesis using C(3) [of u] u unfolding e by blast
    qed
    show "sq' (u mod cap) = u \<or> (\<exists>i d. u = d + cap \<and> get_ticket (pc' i) = Some d)" if u: "E \<le> u \<and> u < D + cap" for u
    proof -
      have "u mod cap \<noteq> t mod cap" using far [of u] u P(2) C(1) by simp
      then show ?thesis using C(4) [of u] u by (simp add: sq'_def pt)
    qed
  qed
  have holders: "mc_holders cap E D sq' pc'"
    unfolding mc_holders_def
  proof (intro conjI allI impI)
    fix j u assume "put_ticket (pc' j) = Some u"
    then have u: "j \<noteq> i" "put_ticket (pc j) = Some u" by (auto simp: pt split: if_splits)
    then have "u \<noteq> t" using H(3) [OF u(2), of i] ti by auto
    then have "u mod cap \<noteq> t mod cap" using far [of u] H(1) [OF u(2)] C(2) by simp
    then show "D \<le> u" "u < E" "sq' (u mod cap) = u" using H(1) [OF u(2)] by (simp_all add: sq'_def)
  next
    fix j u assume "get_ticket (pc' j) = Some u"
    then have u: "get_ticket (pc j) = Some u" by (simp add: pt)
    then show "u < D" "E \<le> u + cap" "sq' (u mod cap) = u + 1" using H(2) [OF u] P(5) [OF u] by (simp_all add: sq'_def)
  next
    fix j l u assume "put_ticket (pc' j) = Some u \<and> put_ticket (pc' l) = Some u"
    then show "j = l" using H(3) [of j u l] by (auto simp: pt split: if_splits)
  next
    fix j l u assume "get_ticket (pc' j) = Some u \<and> get_ticket (pc' l) = Some u"
    then show "j = l" using H(4) [of j u l] by (simp add: pt)
  qed
  have e: "sq (E mod cap) = E \<Longrightarrow> sq' (E mod cap) = E"
  proof -
    assume s: "sq (E mod cap) = E"
    then have "E mod cap \<noteq> t mod cap" using P(2,3) by auto
    then show ?thesis using s by (simp add: sq'_def)
  qed
  have d: "sq (D mod cap) = D + 1 \<Longrightarrow> sq' (D mod cap) = D + 1"
    using mc_stored_cell(1,3) [OF assms(1,2)] far [of D] ti assms(2) by (cases "D = t") (auto simp: sq'_def)
  have knows: "mc_knows cap E D sq' dt acc (pc' j)" for j
  proof (cases "j = i")
    case True
    then show ?thesis using assms(7) by (simp add: pc'_def sq'_def)
  next
    case False
    then have f: "pc' j = pc j" by (simp add: pc'_def)
    have "mc_knows cap E D sq dt acc (pc j)" by (rule mc_okD(4) [OF assms(1)])
    then show ?thesis unfolding f using e d by (cases "(cap, E, D, sq, dt, acc, pc j)" rule: mc_knows.cases) auto
  qed
  have "mc_history D acc pc' del" using mc_okD(5) [OF assms(1)] unfolding mc_history_def pt .
  then show ?thesis using mc_okD(1) [OF assms(1)] cells holders knows by (simp add: mc_ok_def pc'_def sq'_def)
qed

text \<open>A consumer frees its cell and returns the value.\<close>
lemma mc_get_done:
  assumes "mc_ok cap E D sq dt acc pc del" "2 \<le> cap" "pc i = In_Get (Get_Read pos v)" "d = unat pos"
    "put_ticket c = None" "get_ticket c = None" "mc_knows cap E D (sq(d mod cap := d + cap)) dt acc c"
  shows "mc_ok cap E D (sq(d mod cap := d + cap)) dt acc (pc(i := c)) (del @ [(d, v)])"
proof -
  note C = mc_cellsD [OF mc_okD(2) [OF assms(1)]] and H = mc_holdersD [OF mc_okD(3) [OF assms(1)]]
  have di: "get_ticket (pc i) = Some d" using assms(3,4) by simp
  note G = mc_get_cell [OF assms(1,2) di]
  define sq' where "sq' = sq(d mod cap := d + cap)"
  define pc' where "pc' = pc(i := c)"
  have gt: "put_ticket (pc' j) = put_ticket (pc j)" "get_ticket (pc' j) = (if j = i then None else get_ticket (pc j))" for j
    using assms(3,5,6) by (simp_all add: pc'_def)
  have far: "u mod cap \<noteq> d mod cap" if "D \<le> u" "u < D + cap" "u \<noteq> d + cap" for u using G(4) [of u] that by blast
  have cells: "mc_cells cap E D sq' dt acc pc'"
    unfolding mc_cells_def
  proof (intro conjI allI impI)
    show "D \<le> E" "E \<le> D + cap" by (rule C(1), rule C(2))
    show "sq' (u mod cap) = u + 1 \<and> dt (u mod cap) = acc ! u \<or> sq' (u mod cap) = u \<and> (\<exists>i. put_ticket (pc' i) = Some u)"
      if u: "D \<le> u \<and> u < E" for u
    proof -
      have "u mod cap \<noteq> d mod cap" using far [of u] u G(2) C(2) by simp
      then show ?thesis using C(3) [of u] u by (simp add: sq'_def gt)
    qed
    show "sq' (u mod cap) = u \<or> (\<exists>i d. u = d + cap \<and> get_ticket (pc' i) = Some d)" if u: "E \<le> u \<and> u < D + cap" for u
    proof (cases "u = d + cap")
      case True
      then show ?thesis by (simp add: sq'_def)
    next
      case False
      then have e: "sq' (u mod cap) = sq (u mod cap)" using far [of u] u C(1) by (simp add: sq'_def)
      have "get_ticket (pc j) = Some d' \<Longrightarrow> u = d' + cap \<Longrightarrow> get_ticket (pc' j) = Some d'" for j d'
        using di False by (auto simp: gt)
      then show ?thesis using C(4) [of u] u unfolding e by blast
    qed
  qed
  have holders: "mc_holders cap E D sq' pc'"
    unfolding mc_holders_def
  proof (intro conjI allI impI)
    fix j u assume "put_ticket (pc' j) = Some u"
    then have u: "put_ticket (pc j) = Some u" by (simp add: gt)
    have "u mod cap \<noteq> d mod cap" using far [of u] H(1) [OF u] C(2) G(2) by simp
    then show "D \<le> u" "u < E" "sq' (u mod cap) = u" using H(1) [OF u] by (simp_all add: sq'_def)
  next
    fix j u assume "get_ticket (pc' j) = Some u"
    then have u: "j \<noteq> i" "get_ticket (pc j) = Some u" by (auto simp: gt split: if_splits)
    then have "u mod cap \<noteq> d mod cap" using G(5) [OF u(2)] H(4) [OF u(2), of i] di by auto
    then show "u < D" "E \<le> u + cap" "sq' (u mod cap) = u + 1" using H(2) [OF u(2)] by (simp_all add: sq'_def)
  next
    fix j l u assume "put_ticket (pc' j) = Some u \<and> put_ticket (pc' l) = Some u"
    then show "j = l" using H(3) [of j u l] by (simp add: gt)
  next
    fix j l u assume "get_ticket (pc' j) = Some u \<and> get_ticket (pc' l) = Some u"
    then show "j = l" using H(4) [of j u l] by (auto simp: gt split: if_splits)
  qed
  have e: "sq (E mod cap) = E \<Longrightarrow> sq' (E mod cap) = E"
  proof -
    assume s: "sq (E mod cap) = E"
    note F = mc_free_cell [OF assms(1,2) s]
    have "E mod cap \<noteq> d mod cap" using far [of E] F(1) F(2) [OF di] C(1) by auto
    then show ?thesis using s by (simp add: sq'_def)
  qed
  have dd: "sq (D mod cap) = D + 1 \<Longrightarrow> sq' (D mod cap) = D + 1"
  proof -
    assume s: "sq (D mod cap) = D + 1"
    have "D < E" by (rule mc_stored_cell(1) [OF assms(1,2) s])
    then have "D mod cap \<noteq> d mod cap" using far [of D] G(2) assms(2) by simp
    then show ?thesis using s by (simp add: sq'_def)
  qed
  have knows: "mc_knows cap E D sq' dt acc (pc' j)" for j
  proof (cases "j = i")
    case True
    then show ?thesis using assms(7) by (simp add: pc'_def sq'_def)
  next
    case False
    then have f: "pc' j = pc j" by (simp add: pc'_def)
    have "mc_knows cap E D sq dt acc (pc j)" by (rule mc_okD(4) [OF assms(1)])
    then show ?thesis unfolding f using e dd by (cases "(cap, E, D, sq, dt, acc, pc j)" rule: mc_knows.cases) auto
  qed
  have v: "v = acc ! d" using mc_okD(4) [OF assms(1), of i] assms(3,4) by simp
  have hist: "mc_history D acc pc' (del @ [(d, v)])"
    unfolding mc_history_def
  proof (intro conjI allI impI ballI)
    note h = mc_okD(5) [OF assms(1), unfolded mc_history_def]
    have "d \<notin> fst ` set del" using h di by fastforce
    then show "distinct (map fst (del @ [(d, v)]))" using h by simp
    show "case r of (t, v) \<Rightarrow> t < D \<and> v = acc ! t \<and> (\<forall>j. get_ticket (pc' j) \<noteq> Some t)" if r: "r \<in> set (del @ [(d, v)])" for r
    proof (cases "r = (d, v)")
      case True
      have "get_ticket (pc' j) \<noteq> Some d" for j using H(4) [of j d i] di by (auto simp: gt)
      then show ?thesis using True G(1) v by simp
    next
      case False
      then have "r \<in> set del" using r by simp
      then have "case r of (t, v) \<Rightarrow> t < D \<and> v = acc ! t \<and> (\<forall>j. get_ticket (pc j) \<noteq> Some t)" using h by blast
      then show ?thesis by (auto simp: gt)
    qed
    show "t \<in> fst ` set (del @ [(d, v)]) \<or> (\<exists>j. get_ticket (pc' j) = Some t)" if t: "t < D" for t
    proof (cases "t = d")
      case False
      have "get_ticket (pc j) = Some t \<Longrightarrow> get_ticket (pc' j) = Some t" for j using di False by (auto simp: gt)
      moreover have "t \<in> fst ` set del \<or> (\<exists>j. get_ticket (pc j) = Some t)" using h t by blast
      ultimately show ?thesis by auto
    qed simp
  qed
  show ?thesis using mc_okD(1) [OF assms(1)] cells holders knows hist by (simp add: mc_ok_def pc'_def sq'_def)
qed


section \<open>The invariant\<close>

abbreviation mc_seq :: "mp_conc \<Rightarrow> nat \<Rightarrow> nat" where
  "mc_seq s c \<equiv> unat (cell_sequence (mp_cells (mc_queue s) ! c))"

abbreviation mc_data :: "mp_conc \<Rightarrow> nat \<Rightarrow> u64" where
  "mc_data s c \<equiv> cell_data (mp_cells (mc_queue s) ! c)"

definition mp_ok :: "nat \<Rightarrow> mp_conc \<Rightarrow> bool" where
  "mp_ok k s \<longleftrightarrow> mp_capacity (mc_queue s) = 2 ^ k \<and> mp_mask (mc_queue s) = mask k \<and> length (mp_cells (mc_queue s)) = 2 ^ k
     \<and> mc_ok (2 ^ k) (unat (mp_enqueue_pos (mc_queue s))) (unat (mp_dequeue_pos (mc_queue s))) (mc_seq s) (mc_data s)
         (mc_accepted s) (mc_pc s) (mc_delivered s)"

lemma mp_okD:
  assumes "mp_ok k s" "0 < k" "k \<le> 62" "length (mc_accepted s) < 2 ^ 62"
  shows "unat (mp_enqueue_pos (mc_queue s)) = length (mc_accepted s)"
    "unat (mp_dequeue_pos (mc_queue s)) \<le> length (mc_accepted s)"
    "mp_cell_at (mc_queue s) pos = mp_cells (mc_queue s) ! (unat pos mod 2 ^ k)"
    "unat pos \<le> length (mc_accepted s) \<Longrightarrow> unat (pos + 1) = unat pos + 1"
    "unat pos \<le> length (mc_accepted s) \<Longrightarrow> unat (pos + 2 ^ k) = unat pos + 2 ^ k"
    "2 \<le> (2 :: nat) ^ k" "unat pos mod 2 ^ k < length (mp_cells (mc_queue s))"
proof -
  note ok = assms(1) [unfolded mp_ok_def]
  have m: "mc_ok (2 ^ k) (unat (mp_enqueue_pos (mc_queue s))) (unat (mp_dequeue_pos (mc_queue s))) (mc_seq s) (mc_data s)
      (mc_accepted s) (mc_pc s) (mc_delivered s)" using ok by blast
  show e: "unat (mp_enqueue_pos (mc_queue s)) = length (mc_accepted s)" using mc_okD(1) [OF m] by simp
  show "unat (mp_dequeue_pos (mc_queue s)) \<le> length (mc_accepted s)" using mc_cellsD(1) [OF mc_okD(2) [OF m]] e by simp
  show "mp_cell_at (mc_queue s) pos = mp_cells (mc_queue s) ! (unat pos mod 2 ^ k)"
    using mp_index [of k "unat pos"] assms(3) ok by (simp add: mp_cell_at_def)
  have big: "(2 :: nat) ^ k \<le> 2 ^ 62" using assms(3) by (intro power_increasing) auto
  have u: "n < 2 ^ 64 \<Longrightarrow> unat (word_of_nat n :: u64) = n" for n using unat_word_of_nat [of n, where 'a = 64] by simp
  show "unat (pos + 1) = unat pos + 1" if "unat pos \<le> length (mc_accepted s)"
  proof -
    have "pos + 1 = word_of_nat (unat pos + 1)" by simp
    moreover have "unat pos + 1 < 2 ^ 64" using that assms(4) by simp
    ultimately show ?thesis using u [of "unat pos + 1"] by (simp only:)
  qed
  show "unat (pos + 2 ^ k) = unat pos + 2 ^ k" if "unat pos \<le> length (mc_accepted s)"
  proof -
    have "pos + 2 ^ k = word_of_nat (unat pos + 2 ^ k)" by simp
    moreover have "unat pos + 2 ^ k < 2 ^ 64" using that assms(4) big by simp
    ultimately show ?thesis using u [of "unat pos + 2 ^ k"] by (simp only:)
  qed
  show "2 \<le> (2 :: nat) ^ k" using assms(2) self_le_power [of 2 k] by simp
  show "unat pos mod 2 ^ k < length (mp_cells (mc_queue s))" using ok by simp
qed

lemma mc_goto_sel [simp]:
  "mc_queue (mc_goto i c s) = mc_queue s" "mc_accepted (mc_goto i c s) = mc_accepted s" "mc_delivered (mc_goto i c s) = mc_delivered s"
  "mc_pc (mc_goto i c s) = (mc_pc s)(i := c)"
  by (simp_all add: mc_goto_def)

lemma mc_stat_sel [simp]:
  "mp_cells (mc_queue (mc_stat f s)) = mp_cells (mc_queue s)" "mp_capacity (mc_queue (mc_stat f s)) = mp_capacity (mc_queue s)"
  "mp_mask (mc_queue (mc_stat f s)) = mp_mask (mc_queue s)" "mp_enqueue_pos (mc_queue (mc_stat f s)) = mp_enqueue_pos (mc_queue s)"
  "mp_dequeue_pos (mc_queue (mc_stat f s)) = mp_dequeue_pos (mc_queue s)"
  "mc_accepted (mc_stat f s) = mc_accepted s" "mc_delivered (mc_stat f s) = mc_delivered s" "mc_pc (mc_stat f s) = mc_pc s"
  by (simp_all add: mc_stat_def)

lemma mp_ok_stat [simp]: "mp_ok k (mc_stat f s) = mp_ok k s"
  by (simp add: mp_ok_def)

lemma mp_ok_goto:
  assumes "mp_ok k s" "put_ticket c = put_ticket (mc_pc s i)" "get_ticket c = get_ticket (mc_pc s i)"
    "mc_knows (2 ^ k) (unat (mp_enqueue_pos (mc_queue s))) (unat (mp_dequeue_pos (mc_queue s))) (mc_seq s) (mc_data s) (mc_accepted s) c"
  shows "mp_ok k (mc_goto i c s)"
  using assms(1) by (simp add: mp_ok_def) (blast intro: mc_local assms(2-4))

lemma mp_ok_knows: "mp_ok k s \<Longrightarrow> mc_pc s i = c \<Longrightarrow>
  mc_knows (2 ^ k) (unat (mp_enqueue_pos (mc_queue s))) (unat (mp_dequeue_pos (mc_queue s))) (mc_seq s) (mc_data s) (mc_accepted s) c"
  using mc_okD(4) [of "2 ^ k"] by (auto simp: mp_ok_def)

text \<open>Sequence numbers are bounded by the claimed positions, so that the signed differences do not overflow.\<close>
lemma mc_seq_bound:
  assumes "mc_ok cap E D sq dt acc pc del" "2 \<le> cap" "c < cap"
  shows "sq c \<le> E + cap"
proof -
  note C = mc_cellsD [OF mc_okD(2) [OF assms(1)]] and H = mc_holdersD [OF mc_okD(3) [OF assms(1)]]
  define t where "t = D + (c + (cap - D mod cap)) mod cap"
  have "t mod cap = (D mod cap + (c + (cap - D mod cap))) mod cap" by (simp add: t_def mod_simps)
  also have "D mod cap + (c + (cap - D mod cap)) = c + cap" using assms(2) mod_less_divisor [of cap D] by linarith
  finally have c: "t mod cap = c" using assms(3) by simp
  have t: "D \<le> t" "t < D + cap" using assms(2) by (simp_all add: t_def)
  show ?thesis
  proof (cases "t < E")
    case True
    then have "sq c \<le> t + 1" using C(3) [OF t(1) True] unfolding c by auto
    then show ?thesis using True by simp
  next
    case False
    then consider "sq c = t" | i d where "t = d + cap" "get_ticket (pc i) = Some d" using C(4) [of t] t(2) c by auto
    then show ?thesis
    proof cases
      case 2
      have "d mod cap = c" using c 2(1) by simp
      then have "sq c = d + 1" using H(2) [OF 2(2)] by simp
      then show ?thesis using H(2) [OF 2(2)] C(1) assms(2) by simp
    qed (use t C(1) in simp)
  qed
qed

lemma mp_seq_bound:
  assumes "mp_ok k s" "0 < k" "k \<le> 62" "length (mc_accepted s) < 2 ^ 62"
  shows "unat (cell_sequence (mp_cell_at (mc_queue s) pos)) \<le> unat (mp_enqueue_pos (mc_queue s)) + 2 ^ k"
proof -
  have m: "mc_ok (2 ^ k) (unat (mp_enqueue_pos (mc_queue s))) (unat (mp_dequeue_pos (mc_queue s))) (mc_seq s) (mc_data s)
      (mc_accepted s) (mc_pc s) (mc_delivered s)" using assms(1) by (simp add: mp_ok_def)
  have "mc_seq s (unat pos mod 2 ^ k) \<le> unat (mp_enqueue_pos (mc_queue s)) + 2 ^ k"
    using mc_seq_bound [OF m mp_okD(6) [OF assms], of "unat pos mod 2 ^ k"] by simp
  then show ?thesis by (simp only: mp_okD(3) [OF assms])
qed

lemma mp_put_diff:
  assumes "mp_ok k s" "0 < k" "k \<le> 62" "length (mc_accepted s) < 2 ^ 62" "mc_pc s i = In_Put (Put_Seq v pos seq)"
  shows "mp_diff seq pos = Some (int (unat seq) - int (unat pos))"
proof -
  have big: "(2 :: nat) ^ k \<le> 2 ^ 62" using assms(3) by (intro power_increasing) auto
  have "unat seq \<le> length (mc_accepted s) + 2 ^ k" "unat pos \<le> length (mc_accepted s)"
    using mp_ok_knows [OF assms(1,5)] mp_okD(1) [OF assms(1-4)] by simp_all
  then show ?thesis using assms(4) big by (intro mp_diff_small) simp_all
qed

lemma mp_get_diff:
  assumes "mp_ok k s" "0 < k" "k \<le> 62" "length (mc_accepted s) < 2 ^ 62" "mc_pc s i = In_Get (Get_Seq pos seq)"
  shows "mp_diff seq (pos + 1) = Some (int (unat seq) - int (unat (pos + 1)))"
proof -
  note D = mp_okD [OF assms(1-4)]
  have big: "(2 :: nat) ^ k \<le> 2 ^ 62" using assms(3) by (intro power_increasing) auto
  have "unat seq \<le> length (mc_accepted s) + 2 ^ k" "unat pos \<le> length (mc_accepted s)"
    using mp_ok_knows [OF assms(1,5)] D(1,2) by simp_all
  then show ?thesis using D(4) [of pos] assms(4) big by (intro mp_diff_small) simp_all
qed

text \<open>The three outcomes of the test in the two loops.\<close>
lemma mp_put_seq_cases:
  assumes "mp_diff seq pos = Some d"
  obtains "seq = pos" "mp_enqueue_pos (mc_queue s) = pos"
      "mp_put_access i (Put_Seq v pos seq) s = mc_goto i (In_Put (Put_Claimed v pos))
         (s\<lparr>mc_queue := (mc_queue s)\<lparr>mp_enqueue_pos := pos + 1\<rparr>, mc_accepted := mc_accepted s @ [v]\<rparr>)"
    | "mp_put_access i (Put_Seq v pos seq) s = mc_goto i (In_Put Put_Overflow) s"
    | "seq \<noteq> pos \<longrightarrow> 0 < d" "pos = mp_enqueue_pos (mc_queue s) \<longrightarrow> seq \<noteq> pos"
      "mp_put_access i (Put_Seq v pos seq) s = mc_goto i (In_Put (Put_Loop v (mp_enqueue_pos (mc_queue s)))) s"
proof -
  have z: "d = 0 \<longleftrightarrow> seq = pos" using assms mp_diff_zero [of seq "pos"] by auto
  consider (claim) "d = 0" "mp_enqueue_pos (mc_queue s) = pos" | (none) "d < 0" | (more) "0 < d \<or> d = 0 \<and> mp_enqueue_pos (mc_queue s) \<noteq> pos"
    by linarith
  then show thesis
  proof cases
    case claim
    show thesis by (rule that(1)) (use claim z assms in simp_all)
  next
    case none
    show thesis by (rule that(2)) (use none assms in simp)
  next
    case more
    show thesis by (rule that(3)) (use more z assms in \<open>auto simp: Let_def\<close>)
  qed
qed

lemma mp_get_seq_cases:
  assumes "mp_diff seq (pos + 1) = Some d"
  obtains "seq = pos + 1" "mp_dequeue_pos (mc_queue s) = pos"
      "mp_get_access i (Get_Seq pos seq) s
         = mc_goto i (In_Get (Get_Claimed pos)) (s\<lparr>mc_queue := (mc_queue s)\<lparr>mp_dequeue_pos := pos + 1\<rparr>\<rparr>)"
    | "mp_get_access i (Get_Seq pos seq) s = mc_goto i (In_Get Get_Underflow) s"
    | "seq \<noteq> pos + 1 \<longrightarrow> 0 < d" "pos = mp_dequeue_pos (mc_queue s) \<longrightarrow> seq \<noteq> pos + 1"
      "mp_get_access i (Get_Seq pos seq) s = mc_goto i (In_Get (Get_Loop (mp_dequeue_pos (mc_queue s)))) s"
proof -
  have z: "d = 0 \<longleftrightarrow> seq = pos + 1" using assms mp_diff_zero [of seq "pos + 1"] by auto
  consider (claim) "d = 0" "mp_dequeue_pos (mc_queue s) = pos" | (none) "d < 0" | (more) "0 < d \<or> d = 0 \<and> mp_dequeue_pos (mc_queue s) \<noteq> pos"
    by linarith
  then show thesis
  proof cases
    case claim
    show thesis by (rule that(1)) (use claim z assms in simp_all)
  next
    case none
    show thesis by (rule that(2)) (use none assms in simp)
  next
    case more
    show thesis by (rule that(3)) (use more z assms in \<open>auto simp: Let_def\<close>)
  qed
qed

text \<open>The effect of a cell assignment on the sequence numbers and the data.\<close>
lemma mp_upd_cell_sel:
  assumes "mp_ok k s" "0 < k" "k \<le> 62" "length (mc_accepted s) < 2 ^ 62" "c = unat pos mod 2 ^ k"
  shows "(\<lambda>j. unat (cell_sequence (mp_cells (mp_upd_cell pos (\<lambda>x. x\<lparr>cell_sequence := w\<rparr>) (mc_queue s)) ! j))) = (mc_seq s)(c := unat w)"
    "(\<lambda>j. cell_data (mp_cells (mp_upd_cell pos (\<lambda>x. x\<lparr>cell_sequence := w\<rparr>) (mc_queue s)) ! j)) = mc_data s"
    "(\<lambda>j. unat (cell_sequence (mp_cells (mp_upd_cell pos (\<lambda>x. x\<lparr>cell_data := v\<rparr>) (mc_queue s)) ! j))) = mc_seq s"
    "(\<lambda>j. cell_data (mp_cells (mp_upd_cell pos (\<lambda>x. x\<lparr>cell_data := v\<rparr>) (mc_queue s)) ! j)) = (mc_data s)(c := v)"
    "mp_enqueue_pos (mp_upd_cell pos f (mc_queue s)) = mp_enqueue_pos (mc_queue s)"
    "mp_dequeue_pos (mp_upd_cell pos f (mc_queue s)) = mp_dequeue_pos (mc_queue s)"
    "mp_capacity (mp_upd_cell pos f (mc_queue s)) = mp_capacity (mc_queue s)" "mp_mask (mp_upd_cell pos f (mc_queue s)) = mp_mask (mc_queue s)"
    "length (mp_cells (mp_upd_cell pos f (mc_queue s))) = length (mp_cells (mc_queue s))"
proof -
  note D = mp_okD [OF assms(1-4)]
  have i: "unat (pos AND mp_mask (mc_queue s)) = c"
    using mp_index [of k "unat pos"] assms(1,3,5) by (simp add: mp_ok_def)
  have l: "c < length (mp_cells (mc_queue s))" using D(7) assms(5) by simp
  show "(\<lambda>j. unat (cell_sequence (mp_cells (mp_upd_cell pos (\<lambda>x. x\<lparr>cell_sequence := w\<rparr>) (mc_queue s)) ! j))) = (mc_seq s)(c := unat w)"
    "(\<lambda>j. cell_data (mp_cells (mp_upd_cell pos (\<lambda>x. x\<lparr>cell_sequence := w\<rparr>) (mc_queue s)) ! j)) = mc_data s"
    "(\<lambda>j. unat (cell_sequence (mp_cells (mp_upd_cell pos (\<lambda>x. x\<lparr>cell_data := v\<rparr>) (mc_queue s)) ! j))) = mc_seq s"
    "(\<lambda>j. cell_data (mp_cells (mp_upd_cell pos (\<lambda>x. x\<lparr>cell_data := v\<rparr>) (mc_queue s)) ! j)) = (mc_data s)(c := v)"
    using l by (auto simp: mp_upd_cell_def i D(3) assms(5) [symmetric] nth_list_update fun_eq_iff)
qed (simp_all add: mp_upd_cell_def)

lemma mp_put_access_ok:
  assumes "mp_ok k s" "0 < k" "k \<le> 62" "length (mc_accepted (mp_put_access i pc s)) < 2 ^ 62" "mc_pc s i = In_Put pc"
  shows "mp_ok k (mp_put_access i pc s)"
proof -
  have len: "length (mc_accepted s) < 2 ^ 62"
    using assms(4) by (cases pc) (auto simp: Let_def split: if_splits option.splits)
  note D = mp_okD [OF assms(1-3) len]
  note kn = mp_ok_knows [OF assms(1,5)]
  note U = mp_upd_cell_sel [OF assms(1-3) len refl]
  note ok = assms(1) [unfolded mp_ok_def]
  have m: "mc_ok (2 ^ k) (unat (mp_enqueue_pos (mc_queue s))) (unat (mp_dequeue_pos (mc_queue s))) (mc_seq s) (mc_data s)
      (mc_accepted s) (mc_pc s) (mc_delivered s)" using ok by blast
  show ?thesis
  proof (cases pc)
    case (Put_Seq v pos seq)
    from mp_put_diff [OF assms(1-3) len assms(5) [unfolded Put_Seq]] show ?thesis
    proof (cases rule: mp_put_seq_cases [where s = s and i = i and v = v, case_names claimed overflow again])
      case claimed
      then have p: "unat pos = unat (mp_enqueue_pos (mc_queue s))" by simp
      have "mc_ok (2 ^ k) (unat (mp_enqueue_pos (mc_queue s)) + 1) (unat (mp_dequeue_pos (mc_queue s))) (mc_seq s) (mc_data s)
          (mc_accepted s @ [v]) ((mc_pc s)(i := In_Put (Put_Claimed v pos))) (mc_delivered s)"
        by (rule mc_put_claim [OF m D(6) _ p]) (simp add: assms(5) Put_Seq claimed(1))
      moreover have "unat (pos + 1) = unat pos + 1" using D(4) [of pos] D(1) p by simp
      ultimately show ?thesis unfolding Put_Seq claimed(3) using ok claimed(2) by (simp add: mp_ok_def)
    next
      case overflow
      show ?thesis unfolding Put_Seq overflow by (rule mp_ok_goto [OF assms(1)]) (simp_all add: assms(5) Put_Seq)
    next
      case again
      show ?thesis unfolding Put_Seq again(3) by (rule mp_ok_goto [OF assms(1)]) (simp_all add: assms(5) Put_Seq)
    qed
  next
    case (Put_Claimed v pos)
    have "mc_ok (2 ^ k) (unat (mp_enqueue_pos (mc_queue s))) (unat (mp_dequeue_pos (mc_queue s))) (mc_seq s)
        ((mc_data s)(unat pos mod 2 ^ k := v)) (mc_accepted s) ((mc_pc s)(i := In_Put (Put_Written v pos))) (mc_delivered s)"
      by (rule mc_put_write [OF m D(6) _ refl]) (simp add: assms(5) Put_Claimed)
    then show ?thesis using ok by (simp add: mp_ok_def Put_Claimed U)
  next
    case (Put_Written v pos)
    have "unat pos < length (mc_accepted s)"
      using mc_holdersD(1) [OF mc_okD(3) [OF m], of i "unat pos"] D(1) by (simp add: assms(5) Put_Written)
    then have p1: "unat (pos + 1) = unat pos + 1" using D(4) by simp
    have "mc_ok (2 ^ k) (unat (mp_enqueue_pos (mc_queue s))) (unat (mp_dequeue_pos (mc_queue s)))
        ((mc_seq s)(unat pos mod 2 ^ k := unat pos + 1)) (mc_data s) (mc_accepted s) ((mc_pc s)(i := In_Put (Put_Count pos))) (mc_delivered s)"
      by (rule mc_put_publish [OF m D(6) _ refl, of i v]) (simp_all add: assms(5) Put_Written)
    then show ?thesis using ok p1 by (simp add: mp_ok_def Put_Written U)
  next
    case (Put_Start v)
    then show ?thesis using D(1) assms(5) by (auto intro!: mp_ok_goto assms(1))
  next
    case (Put_Loop v pos)
    have "unat pos = unat (mp_enqueue_pos (mc_queue s)) \<Longrightarrow> mp_cells (mc_queue s) ! (unat pos mod 2 ^ k) = mp_cell_at (mc_queue s) pos"
      by (simp only: D(3))
    then show ?thesis using kn Put_Loop assms(5) mp_seq_bound [OF assms(1-3) len, of pos]
      by (auto intro!: mp_ok_goto assms(1) simp: D(3))
  next
    case (Put_Peak n)
    have "mp_ok k (mc_goto i (if peak_size (q1_stats (mc_queue s)) < n then In_Put (Put_Peak_Store n) else T_Idle) s)"
      by (rule mp_ok_goto [OF assms(1)]) (simp_all add: assms(5) Put_Peak)
    then show ?thesis by (simp only: Put_Peak mp_put_access.simps)
  qed (use assms(1,5) in \<open>auto intro!: mp_ok_goto\<close>)
qed

lemma mp_get_access_ok:
  assumes "mp_ok k s" "0 < k" "k \<le> 62" "length (mc_accepted s) < 2 ^ 62" "mc_pc s i = In_Get pc"
  shows "mp_ok k (mp_get_access i pc s)"
proof -
  note D = mp_okD [OF assms(1-4)]
  note kn = mp_ok_knows [OF assms(1,5)]
  note U = mp_upd_cell_sel [OF assms(1-4) refl]
  note ok = assms(1) [unfolded mp_ok_def]
  have m: "mc_ok (2 ^ k) (unat (mp_enqueue_pos (mc_queue s))) (unat (mp_dequeue_pos (mc_queue s))) (mc_seq s) (mc_data s)
      (mc_accepted s) (mc_pc s) (mc_delivered s)" using ok by blast
  show ?thesis
  proof (cases pc)
    case (Get_Seq pos seq)
    from mp_get_diff [OF assms(1-4) assms(5) [unfolded Get_Seq]] show ?thesis
    proof (cases rule: mp_get_seq_cases [where s = s and i = i, case_names claimed underflow again])
      case claimed
      then have p: "unat pos = unat (mp_dequeue_pos (mc_queue s))" by simp
      have "mc_ok (2 ^ k) (unat (mp_enqueue_pos (mc_queue s))) (unat (mp_dequeue_pos (mc_queue s)) + 1) (mc_seq s) (mc_data s)
          (mc_accepted s) ((mc_pc s)(i := In_Get (Get_Claimed pos))) (mc_delivered s)"
        by (rule mc_get_claim [OF m D(6) _ p]) (simp add: assms(5) Get_Seq claimed(1))
      moreover have "unat (pos + 1) = unat pos + 1" using D(4) [of pos] D(2) p by simp
      ultimately show ?thesis unfolding Get_Seq claimed(3) using ok claimed(2) by (simp add: mp_ok_def)
    next
      case underflow
      show ?thesis unfolding Get_Seq underflow by (rule mp_ok_goto [OF assms(1)]) (simp_all add: assms(5) Get_Seq)
    next
      case again
      show ?thesis unfolding Get_Seq again(3) by (rule mp_ok_goto [OF assms(1)]) (simp_all add: assms(5) Get_Seq)
    qed
  next
    case (Get_Read pos v)
    have "unat pos < unat (mp_dequeue_pos (mc_queue s))"
      using mc_holdersD(2) [OF mc_okD(3) [OF m], of i "unat pos"] by (simp add: assms(5) Get_Read)
    then have p1: "unat (pos + 2 ^ k) = unat pos + 2 ^ k" using D(2) D(5) [of pos] by simp
    have "mc_ok (2 ^ k) (unat (mp_enqueue_pos (mc_queue s))) (unat (mp_dequeue_pos (mc_queue s)))
        ((mc_seq s)(unat pos mod 2 ^ k := unat pos + 2 ^ k)) (mc_data s) (mc_accepted s) ((mc_pc s)(i := In_Get Get_Count))
        (mc_delivered s @ [(unat pos, v)])"
      by (rule mc_get_done [OF m D(6) _ refl, where pos = pos and v = v]) (simp_all add: assms(5) Get_Read)
    then show ?thesis using ok p1 by (simp add: mp_ok_def Get_Read U)
  next
    case Get_Start
    then show ?thesis using assms(5) by (auto intro!: mp_ok_goto assms(1))
  next
    case (Get_Loop pos)
    have "unat (pos + 1) = unat pos + 1" using D(2) D(4) [of pos] kn Get_Loop by simp
    then show ?thesis using kn Get_Loop assms(5) mp_seq_bound [OF assms(1-4), of pos]
      by (auto intro!: mp_ok_goto assms(1) simp: D(3))
  next
    case (Get_Claimed pos)
    then show ?thesis using kn assms(5) by (auto intro!: mp_ok_goto assms(1) simp: D(3))
  qed (use assms(1,5) in \<open>auto intro!: mp_ok_goto\<close>)
qed

lemma mp_spurious_ok:
  assumes "mp_ok k s" "mp_spurious i (mc_pc s i) s = Some s'"
  shows "mp_ok k s'"
proof -
  consider (put) v pos seq where "mc_pc s i = In_Put (Put_Seq v pos seq)"
      "s' = mc_goto i (In_Put (Put_Loop v (mp_enqueue_pos (mc_queue s)))) s"
    | (get) pos seq where "mc_pc s i = In_Get (Get_Seq pos seq)"
      "s' = mc_goto i (In_Get (Get_Loop (mp_dequeue_pos (mc_queue s)))) s"
    using assms(2) by (cases "(i, mc_pc s i, s)" rule: mp_spurious.cases) (auto split: if_splits)
  then show ?thesis by cases (auto intro!: mp_ok_goto assms(1))
qed

lemma mp_step_mono:
  assumes "mp_step s s'"
  shows "length (mc_accepted s) \<le> length (mc_accepted s')"
  using assms
proof cases
  case (access i)
  have "length (mc_accepted s) \<le> length (mc_accepted (mp_put_access i pc s))" for pc by (cases pc) (simp_all add: Let_def split: option.split)
  moreover have "length (mc_accepted s) \<le> length (mc_accepted (mp_get_access i pc s))" for pc by (cases pc) (simp_all add: Let_def split: option.split)
  ultimately show ?thesis by (simp add: access mp_access_def split: mp_pc.split)
next
  case (spurious i)
  then show ?thesis by (cases "(i, mc_pc s i, s)" rule: mp_spurious.cases) (auto split: if_splits)
qed simp_all

lemma mp_step_ok:
  assumes "mp_step s s'" "mp_ok k s" "0 < k" "k \<le> 62" "length (mc_accepted s') < 2 ^ 62"
  shows "mp_ok k s'"
proof -
  have len: "length (mc_accepted s) < 2 ^ 62" using mp_step_mono [OF assms(1)] assms(5) by simp
  note D = mp_okD [OF assms(2-4) len]
  from assms(1) show "mp_ok k s'"
  proof cases
    case (call_put i v)
    then show ?thesis by (auto intro!: mp_ok_goto assms(2))
  next
    case (call_get i)
    then show ?thesis by (auto intro!: mp_ok_goto assms(2))
  next
    case (access i)
    show ?thesis
    proof (cases "mc_pc s i")
      case T_Idle
      then show ?thesis using assms(2) by (simp add: access mp_access_def)
    next
      case T_Undefined
      then show ?thesis using assms(2) by (simp add: access mp_access_def)
    next
      case (In_Put pc)
      then show ?thesis using mp_put_access_ok [OF assms(2-4) _ In_Put] assms(5) by (simp add: access mp_access_def)
    next
      case (In_Get pc)
      then show ?thesis using mp_get_access_ok [OF assms(2-4) len In_Get] by (simp add: access mp_access_def)
    qed
  next
    case (spurious i)
    then show ?thesis by (rule mp_spurious_ok [OF assms(2)])
  qed
qed


lemma mp_start_ok:
  assumes "mp_init (2 ^ k) = Inr b" "0 < k" "k \<le> 62"
  shows "mp_ok k (mc_start b)"
proof -
  obtain k' where r: "k' < 64" "(2 :: u64) ^ k = 2 ^ k'" "mp_rep k' 0 [] b" using mp_init_rep [OF assms(1)] by blast
  have k64: "k < 64" using assms(3) by linarith
  have "unat ((2 :: u64) ^ k) = unat ((2 :: u64) ^ k')" by (rule arg_cong [OF r(2)])
  then have "(2 :: nat) ^ k = 2 ^ k'" unfolding unat_two_power [OF k64] unat_two_power [OF r(1)] .
  then have "k' = k" using power_inject_exp [of "2 :: nat" k k'] by simp
  then have R: "mp_rep k 0 [] b" using r(3) by simp
  have big: "(2 :: nat) ^ k \<le> 2 ^ 62" using assms(3) by (intro power_increasing) auto
  have sq: "unat (cell_sequence (mp_cells b ! (j mod 2 ^ k))) = j" if "j < 2 ^ k" for j
  proof -
    have "cell_sequence (mp_cells b ! (j mod 2 ^ k)) = word_of_nat j" using mp_repD(9) [OF R, of j] that by simp
    moreover have "j < 2 ^ 64" using that big by simp
    ultimately show ?thesis using unat_word_of_nat [of j, where 'a = 64] by simp
  qed
  have ed: "mp_enqueue_pos b = 0" "mp_dequeue_pos b = 0" using mp_repD(6,7) [OF R] by simp_all
  have "mc_cells (2 ^ k) 0 0 (mc_seq (mc_start b)) (mc_data (mc_start b)) [] (\<lambda>_. T_Idle)"
    using sq by (simp add: mc_cells_def mc_start_def)
  then show ?thesis using mp_repD(2-4) [OF R] ed
    by (simp add: mp_ok_def mc_ok_def mc_start_def mc_holders_def mc_history_def)
qed

lemma mp_reachable_ok:
  assumes "mp_reachable (2 ^ k) s" "0 < k" "k \<le> 62"
  shows "length (mc_accepted s) < 2 ^ 62 \<Longrightarrow> mp_ok k s"
  using assms(1)
proof (induction rule: mp_reachable.induct)
  case (reach_init b)
  then show ?case using mp_start_ok assms(2,3) by blast
next
  case (reach_step s s')
  have "length (mc_accepted s) \<le> length (mc_accepted s')" by (rule mp_step_mono [OF reach_step.hyps(2)])
  then have "mp_ok k s" using reach_step.IH reach_step.prems by simp
  then show ?case by (rule mp_step_ok [OF reach_step.hyps(2) _ assms(2,3) reach_step.prems])
qed

section \<open>Safety\<close>

lemma mset_delivered:
  assumes "distinct (map fst del)" "fst ` set del = {..<D}" "\<forall>(t, v) \<in> set del. v = acc ! t" "D \<le> length acc"
  shows "length del = D" "mset (map snd del) = mset (take D acc)"
proof -
  have "length del = card (fst ` set del)" using distinct_card [OF assms(1)] by simp
  then show "length del = D" using assms(2) by simp
  have "mset (map fst del) = mset [0..<D]"
    using set_eq_iff_mset_eq_distinct [OF assms(1), of "[0..<D]"] assms(2) by (simp add: atLeast0LessThan)
  moreover have "map snd del = map (\<lambda>t. acc ! t) (map fst del)" using assms(3) by auto
  ultimately have "mset (map snd del) = mset (map (\<lambda>t. acc ! t) [0..<D])" by (metis mset_map)
  also have "map (\<lambda>t. acc ! t) [0..<D] = take D acc" using assms(4) by (intro nth_equalityI) simp_all
  finally show "mset (map snd del) = mset (take D acc)" .
qed

lemma mp_quiescent_rep:
  assumes "mp_ok k s" "0 < k" "k \<le> 62" "length (mc_accepted s) < 2 ^ 62" "\<forall>i. mc_pc s i = T_Idle"
    "D = unat (mp_dequeue_pos (mc_queue s))"
  shows "mp_rep k D (drop D (mc_accepted s)) (mc_queue s)"
proof -
  note X = mp_okD [OF assms(1-4)]
  have m: "mc_cells (2 ^ k) (length (mc_accepted s)) D (mc_seq s) (mc_data s) (mc_accepted s) (mc_pc s)"
    using assms(1,6) X(1) by (simp add: mp_ok_def mc_ok_def)
  note C = mc_cellsD [OF m]
  have w: "cell_sequence c = word_of_nat n" if "unat (cell_sequence c) = n" for c n 
  proof -
    have "word_of_nat (unat (cell_sequence c)) = cell_sequence c" by simp
    then show ?thesis using that by simp
  qed
  show ?thesis
  proof (rule mp_repI)
    show "mp_enqueue_pos (mc_queue s) = word_of_nat (D + length (drop D (mc_accepted s)))"
    proof -
      have "D + length (drop D (mc_accepted s)) = unat (mp_enqueue_pos (mc_queue s))" using X(1) C(1) by simp
      then show ?thesis by simp
    qed
    show "mp_dequeue_pos (mc_queue s) = word_of_nat D" by (simp add: assms(6))
    show "length (drop D (mc_accepted s)) \<le> 2 ^ k" using C(2) by simp
  next
    fix i assume i: "i < length (drop D (mc_accepted s))"
    then have "mc_seq s ((D + i) mod 2 ^ k) = D + i + 1 \<and> mc_data s ((D + i) mod 2 ^ k) = mc_accepted s ! (D + i)"
      using C(3) [of "D + i"] assms(5) by auto
    then show "mp_cells (mc_queue s) ! ((D + i) mod 2 ^ k) = \<lparr>cell_sequence = word_of_nat (D + i + 1), cell_data = drop D (mc_accepted s) ! i\<rparr>"
      using w [of "mp_cells (mc_queue s) ! ((D + i) mod 2 ^ k)" "D + i + 1"] i by (cases "mp_cells (mc_queue s) ! ((D + i) mod 2 ^ k)") simp
  next
    fix j assume "length (drop D (mc_accepted s)) \<le> j" "j < 2 ^ k"
    then have "mc_seq s ((D + j) mod 2 ^ k) = D + j" using C(4) [of "D + j"] assms(5) by auto
    then show "cell_sequence (mp_cells (mc_queue s) ! ((D + j) mod 2 ^ k)) = word_of_nat (D + j)"
      by (rule w)
  qed (use assms(1,3) in \<open>simp_all add: mp_ok_def\<close>)
qed

text \<open>C2: In every interleaving of any number of threads that call put and get, with any spurious failures of
  \<^verbatim>\<open>compare_exchange_weak\<close>, on a queue of capacity \<open>2 ^ k\<close>, \<open>1 \<le> k \<le> 62\<close>, as long as fewer than \<open>2 ^ 62\<close> values
  have been accepted (positions do not wrap): no thread has overflowed a signed difference; each
  position is delivered at most once and with the value put there; and whenever no call is in progress, the
  delivered values are exactly the first accepted ones, and the queue holds the others in order, so that nothing
  is lost or duplicated.\<close>
theorem mpmc_concurrent_no_loss:
  assumes "mp_reachable (2 ^ k) s" "0 < k" "k \<le> 62" "length (mc_accepted s) < 2 ^ 62" "n = length (mc_delivered s)"
  shows "(\<forall>i. mc_pc s i \<noteq> T_Undefined) \<and> distinct (map fst (mc_delivered s)) \<and> (\<forall>(t, v) \<in> set (mc_delivered s). t < length (mc_accepted s) \<and> v = mc_accepted s ! t)
    \<and> ((\<forall>i. mc_pc s i = T_Idle) \<longrightarrow> mset (map snd (mc_delivered s)) = mset (take n (mc_accepted s))
         \<and> mp_rep k n (drop n (mc_accepted s)) (mc_queue s))"
proof -
  have ok: "mp_ok k s" by (rule mp_reachable_ok [OF assms(1-4)])
  define D where "D = unat (mp_dequeue_pos (mc_queue s))"
  have h: "mc_history D (mc_accepted s) (mc_pc s) (mc_delivered s)" using ok by (simp add: mp_ok_def mc_ok_def D_def)
  have le: "D \<le> length (mc_accepted s)" using mp_okD(2) [OF ok assms(2-4)] by (simp add: D_def)
  have d: "distinct (map fst (mc_delivered s))" "\<forall>(t, v) \<in> set (mc_delivered s). t < D \<and> v = mc_accepted s ! t"
    "\<forall>t < D. t \<in> fst ` set (mc_delivered s) \<or> (\<exists>i. get_ticket (mc_pc s i) = Some t)"
    using h unfolding mc_history_def by blast+
  have "\<forall>(t, v) \<in> set (mc_delivered s). t < length (mc_accepted s) \<and> v = mc_accepted s ! t" using d(2) le by auto
  moreover have "mset (map snd (mc_delivered s)) = mset (take n (mc_accepted s))
      \<and> mp_rep k n (drop n (mc_accepted s)) (mc_queue s)" if idle: "\<forall>i. mc_pc s i = T_Idle"
  proof -
    have "fst ` set (mc_delivered s) = {..<D}" using d(2,3) idle by auto
    from mset_delivered [OF d(1) this _ le] have "n = D" "mset (map snd (mc_delivered s)) = mset (take D (mc_accepted s))"
      using d(2) assms(5) by auto
    then show ?thesis using mp_quiescent_rep [OF ok assms(2-4) idle D_def] by simp
  qed
  moreover have "mc_pc s i \<noteq> T_Undefined" for i using mp_ok_knows [OF ok, of i T_Undefined] by auto
  ultimately show ?thesis using d(1) by blast
qed


section \<open>Progress\<close>

text \<open>An access of thread \<open>i\<close>; with \<open>weak\<close> set, a compare-and-swap fails spuriously.\<close>
definition mp_go :: "nat \<Rightarrow> bool \<Rightarrow> mp_conc \<Rightarrow> mp_conc" where
  "mp_go i weak s = (if weak then (case mp_spurious i (mc_pc s i) s of None \<Rightarrow> mp_access i s | Some s' \<Rightarrow> s')
     else mp_access i s)"

text \<open>Thread \<open>i\<close>, running alone with at most \<open>f\<close> spurious failures, is idle after \<open>n\<close> accesses and two more for each
  failure.\<close>
definition mp_solo :: "nat \<Rightarrow> nat \<Rightarrow> nat \<Rightarrow> mp_conc \<Rightarrow> bool" where
  "mp_solo i f n s \<longleftrightarrow> (\<forall>ws. count_list ws True \<le> f \<longrightarrow> n + 2 * count_list ws True \<le> length ws \<longrightarrow>
     mc_pc (fold (mp_go i) ws s) i = T_Idle)"

lemma mp_solo_idle: "mc_pc s i = T_Idle \<Longrightarrow> mp_solo i f n s"
proof -
  assume idle: "mc_pc s i = T_Idle"
  have "mp_go i w s = s" for w using idle by (simp add: mp_go_def mp_access_def)
  then have "fold (mp_go i) ws s = s" for ws by (induction ws) simp_all
  then show ?thesis using idle by (simp add: mp_solo_def)
qed

lemma mp_solo_mono: "mp_solo i f m s \<Longrightarrow> m \<le> n \<Longrightarrow> mp_solo i f n s"
  unfolding mp_solo_def using add_le_mono1 order_trans by blast

text \<open>An access of the thread; a compare-and-swap may fail instead, which costs two accesses.\<close>
lemma mp_solo_cas:
  assumes "mp_solo i f n (mp_access i s)"
    "\<And>s' g. mp_spurious i (mc_pc s i) s = Some s' \<Longrightarrow> f = Suc g \<Longrightarrow> mp_solo i g (n + 2) s'"
  shows "mp_solo i f (Suc n) s"
  unfolding mp_solo_def
proof (intro allI impI)
  fix ws assume ws: "count_list ws True \<le> f" "Suc n + 2 * count_list ws True \<le> length ws"
  then obtain w us where us: "ws = w # us" by (cases ws) simp_all
  have plain: "mc_pc (fold (mp_go i) us (mp_access i s)) i = T_Idle"
    using assms(1) ws unfolding mp_solo_def us by (cases w) simp_all
  show "mc_pc (fold (mp_go i) ws s) i = T_Idle"
  proof (cases "w \<and> mp_spurious i (mc_pc s i) s \<noteq> None")
    case True
    then obtain s' where s': "mp_spurious i (mc_pc s i) s = Some s'" by blast
    obtain g where g: "f = Suc g" using ws(1) True us by (cases f) simp_all
    show ?thesis using assms(2) [OF s' g] ws True s' g unfolding mp_solo_def us by (simp add: mp_go_def)
  next
    case False
    then have "mp_go i w s = mp_access i s" by (auto simp: mp_go_def)
    then show ?thesis using plain by (simp add: us)
  qed
qed

lemma mp_solo_put:
  assumes "mc_pc s i = In_Put pc" "mp_solo i f n (mp_put_access i pc s)" "mp_spurious i (In_Put pc) s = None"
  shows "mp_solo i f (Suc n) s"
  by (rule mp_solo_cas) (simp_all add: assms mp_access_def)

lemma mp_solo_get:
  assumes "mc_pc s i = In_Get pc" "mp_solo i f n (mp_get_access i pc s)" "mp_spurious i (In_Get pc) s = None"
  shows "mp_solo i f (Suc n) s"
  by (rule mp_solo_cas) (simp_all add: assms mp_access_def)

text \<open>After the claim the calls are straight-line code.\<close>
lemma mp_solo_put_tail:
  "mc_pc s i = In_Put (Put_Peak_Store n) \<Longrightarrow> mp_solo i f 1 s"
  "mc_pc s i = In_Put (Put_Peak n) \<Longrightarrow> mp_solo i f 2 s"
  "mc_pc s i = In_Put (Put_Size pos) \<Longrightarrow> mp_solo i f 3 s"
  "mc_pc s i = In_Put (Put_Count_Store pos n) \<Longrightarrow> mp_solo i f 4 s"
  "mc_pc s i = In_Put (Put_Count pos) \<Longrightarrow> mp_solo i f 5 s"
  "mc_pc s i = In_Put (Put_Written v pos) \<Longrightarrow> mp_solo i f 6 s"
  "mc_pc s i = In_Put (Put_Claimed v pos) \<Longrightarrow> mp_solo i f 7 s"
  "mc_pc s i = In_Put (Put_Overflow_Store n) \<Longrightarrow> mp_solo i f 1 s"
  "mc_pc s i = In_Put Put_Overflow \<Longrightarrow> mp_solo i f 2 s"
proof -
  have t1: "mp_solo i f 1 s" if "mc_pc s i = In_Put (Put_Peak_Store n)" for s n
    using mp_solo_put [OF that, where f = f and n = 0] by (simp add: mp_solo_idle)
  have t2: "mp_solo i f 2 s" if "mc_pc s i = In_Put (Put_Peak n)" for s n
    using mp_solo_put [OF that, where f = f and n = 1] t1 by (cases "peak_size (q1_stats (mc_queue s)) < n") (simp_all add: mp_solo_idle numeral_2_eq_2)
  have t3: "mp_solo i f 3 s" if "mc_pc s i = In_Put (Put_Size pos)" for s pos
    using mp_solo_put [OF that, where f = f and n = 2] t2 by simp
  have t4: "mp_solo i f 4 s" if "mc_pc s i = In_Put (Put_Count_Store pos n)" for s pos n
    using mp_solo_put [OF that, where f = f and n = 3] t3 by simp
  have t5: "mp_solo i f 5 s" if "mc_pc s i = In_Put (Put_Count pos)" for s pos
    using mp_solo_put [OF that, where f = f and n = 4] t4 by simp
  have t6: "mp_solo i f 6 s" if "mc_pc s i = In_Put (Put_Written v pos)" for s v pos
    using mp_solo_put [OF that, where f = f and n = 5] t5 by simp
  have t7: "mp_solo i f 7 s" if "mc_pc s i = In_Put (Put_Claimed v pos)" for s v pos
    using mp_solo_put [OF that, where f = f and n = 6] t6 by simp
  have o1: "mp_solo i f 1 s" if "mc_pc s i = In_Put (Put_Overflow_Store n)" for s n
    using mp_solo_put [OF that, where f = f and n = 0] by (simp add: mp_solo_idle)
  have o2: "mp_solo i f 2 s" if "mc_pc s i = In_Put Put_Overflow" for s
    using mp_solo_put [OF that, where f = f and n = 1] o1 by (simp add: numeral_2_eq_2)
  show "mc_pc s i = In_Put (Put_Peak_Store n) \<Longrightarrow> mp_solo i f 1 s"
    "mc_pc s i = In_Put (Put_Peak n) \<Longrightarrow> mp_solo i f 2 s"
    "mc_pc s i = In_Put (Put_Size pos) \<Longrightarrow> mp_solo i f 3 s"
    "mc_pc s i = In_Put (Put_Count_Store pos n) \<Longrightarrow> mp_solo i f 4 s"
    "mc_pc s i = In_Put (Put_Count pos) \<Longrightarrow> mp_solo i f 5 s"
    "mc_pc s i = In_Put (Put_Written v pos) \<Longrightarrow> mp_solo i f 6 s"
    "mc_pc s i = In_Put (Put_Claimed v pos) \<Longrightarrow> mp_solo i f 7 s"
    "mc_pc s i = In_Put (Put_Overflow_Store n) \<Longrightarrow> mp_solo i f 1 s"
    "mc_pc s i = In_Put Put_Overflow \<Longrightarrow> mp_solo i f 2 s"
    by (fact t1 t2 t3 t4 t5 t6 t7 o1 o2)+
qed

lemma mp_solo_get_tail:
  "mc_pc s i = In_Get (Get_Count_Store n) \<Longrightarrow> mp_solo i f 1 s"
  "mc_pc s i = In_Get Get_Count \<Longrightarrow> mp_solo i f 2 s"
  "mc_pc s i = In_Get (Get_Read pos v) \<Longrightarrow> mp_solo i f 3 s"
  "mc_pc s i = In_Get (Get_Claimed pos) \<Longrightarrow> mp_solo i f 4 s"
  "mc_pc s i = In_Get (Get_Underflow_Store n) \<Longrightarrow> mp_solo i f 1 s"
  "mc_pc s i = In_Get Get_Underflow \<Longrightarrow> mp_solo i f 2 s"
proof -
  have t1: "mp_solo i f 1 s" if "mc_pc s i = In_Get (Get_Count_Store n)" for s n
    using mp_solo_get [OF that, where f = f and n = 0] by (simp add: mp_solo_idle)
  have t2: "mp_solo i f 2 s" if "mc_pc s i = In_Get Get_Count" for s
    using mp_solo_get [OF that, where f = f and n = 1] t1 by (simp add: numeral_2_eq_2)
  have t3: "mp_solo i f 3 s" if "mc_pc s i = In_Get (Get_Read pos v)" for s pos v
    using mp_solo_get [OF that, where f = f and n = 2] t2 by simp
  have t4: "mp_solo i f 4 s" if "mc_pc s i = In_Get (Get_Claimed pos)" for s pos
    using mp_solo_get [OF that, where f = f and n = 3] t3 by simp
  have o1: "mp_solo i f 1 s" if "mc_pc s i = In_Get (Get_Underflow_Store n)" for s n
    using mp_solo_get [OF that, where f = f and n = 0] by (simp add: mp_solo_idle)
  have o2: "mp_solo i f 2 s" if "mc_pc s i = In_Get Get_Underflow" for s
    using mp_solo_get [OF that, where f = f and n = 1] o1 by (simp add: numeral_2_eq_2)
  show "mc_pc s i = In_Get (Get_Count_Store n) \<Longrightarrow> mp_solo i f 1 s"
    "mc_pc s i = In_Get Get_Count \<Longrightarrow> mp_solo i f 2 s"
    "mc_pc s i = In_Get (Get_Read pos v) \<Longrightarrow> mp_solo i f 3 s"
    "mc_pc s i = In_Get (Get_Claimed pos) \<Longrightarrow> mp_solo i f 4 s"
    "mc_pc s i = In_Get (Get_Underflow_Store n) \<Longrightarrow> mp_solo i f 1 s"
    "mc_pc s i = In_Get Get_Underflow \<Longrightarrow> mp_solo i f 2 s"
    by (fact t1 t2 t3 t4 o1 o2)+
qed

text \<open>At the current positions the signed difference is never positive.\<close>
lemma mp_current_put:
  assumes "mp_ok k s" "0 < k" "k \<le> 62" "length (mc_accepted s) < 2 ^ 62" "e = mp_enqueue_pos (mc_queue s)"
  shows "unat (cell_sequence (mp_cell_at (mc_queue s) e)) \<le> unat e"
proof -
  note D = mp_okD [OF assms(1-4)]
  define E where "E = length (mc_accepted s)"
  define d where "d = unat (mp_dequeue_pos (mc_queue s))"
  define n where "n = mc_seq s (E mod 2 ^ k)"
  have m: "mc_cells (2 ^ k) E d (mc_seq s) (mc_data s) (mc_accepted s) (mc_pc s)" "mc_holders (2 ^ k) E d (mc_seq s) (mc_pc s)"
    using assms(1) D(1) by (simp_all add: mp_ok_def mc_ok_def E_def d_def)
  note C = mc_cellsD [OF m(1)] and H = mc_holdersD [OF m(2)]
  have big: "(2 :: nat) ^ k \<le> 2 ^ 62" using assms(3) by (intro power_increasing) auto
  have "n \<le> E"
  proof (cases "E < d + 2 ^ k")
    case True
    then consider "n = E" | i x where "E = x + 2 ^ k" "get_ticket (mc_pc s i) = Some x" using C(4) [of E] by (auto simp: n_def)
    then show ?thesis
    proof cases
      case 2
      then have "n = x + 1" using H(2) [OF 2(2)] by (simp add: n_def)
      then show ?thesis using 2(1) D(6) big by simp
    qed simp
  next
    case False
    then have e: "E = d + 2 ^ k" using C(2) by simp
    then have "n = d + 1 \<or> n = d" using C(3) [of d] D(6) by (auto simp: n_def)
    then show ?thesis using e D(6) big by auto
  qed
  moreover have ue: "unat e = E" using D(1) by (simp add: assms(5) E_def)
  ultimately show ?thesis by (simp add: D(3) n_def)
qed

lemma mp_current_get:
  assumes "mp_ok k s" "0 < k" "k \<le> 62" "length (mc_accepted s) < 2 ^ 62" "d = mp_dequeue_pos (mc_queue s)"
  shows "unat (cell_sequence (mp_cell_at (mc_queue s) d)) \<le> unat (d + 1)"
proof -
  note X = mp_okD [OF assms(1-4)]
  define E where "E = length (mc_accepted s)"
  define D where "D = unat d"
  define n where "n = mc_seq s (D mod 2 ^ k)"
  have m: "mc_cells (2 ^ k) E D (mc_seq s) (mc_data s) (mc_accepted s) (mc_pc s)" "mc_holders (2 ^ k) E D (mc_seq s) (mc_pc s)"
    using assms(1) X(1) by (simp_all add: mp_ok_def mc_ok_def E_def D_def assms(5))
  note C = mc_cellsD [OF m(1)] and H = mc_holdersD [OF m(2)]
  have big: "(2 :: nat) ^ k \<le> 2 ^ 62" using assms(3) by (intro power_increasing) auto
  have "n \<le> D + 1"
  proof (cases "D < E")
    case True
    then have "n = D + 1 \<or> n = D" using C(3) [of D] by (auto simp: n_def)
    then show ?thesis by auto
  next
    case False
    then have "E = D" using C(1) by simp
    then consider "n = D" | i x where "D = x + 2 ^ k" "get_ticket (mc_pc s i) = Some x" using C(4) [of D] X(6) by (auto simp: n_def)
    then show ?thesis
    proof cases
      case 2
      then have "n = x + 1" using H(2) [OF 2(2)] by (simp add: n_def)
      then show ?thesis using 2(1) X(6) big by simp
    qed simp
  qed
  then show ?thesis using X(2) X(4) [of d] by (simp add: X(3) n_def D_def assms(5))
qed


lemma mp_solo_put_fresh:
  assumes "0 < k" "k \<le> 62"
  shows "mp_ok k s \<Longrightarrow> length (mc_accepted s) + 1 < 2 ^ 62 \<Longrightarrow> mc_pc s i = In_Put (Put_Loop v (mp_enqueue_pos (mc_queue s)))
    \<Longrightarrow> mp_solo i f 9 s"
proof (induction f arbitrary: s rule: less_induct)
  case (less f)
  define e where "e = mp_enqueue_pos (mc_queue s)"
  define seq where "seq = cell_sequence (mp_cell_at (mc_queue s) e)"
  define s1 where "s1 = mp_put_access i (Put_Loop v e) s"
  have len: "length (mc_accepted s) < 2 ^ 62" using less.prems(2) by simp
  have pc: "mc_pc s i = In_Put (Put_Loop v e)" using less.prems(3) by (simp only: e_def)
  have pc1: "mc_pc s1 i = In_Put (Put_Seq v e seq)" "mc_queue s1 = mc_queue s" "mc_accepted s1 = mc_accepted s"
    by (simp_all add: s1_def seq_def)
  have ok1: "mp_ok k s1" unfolding s1_def by (rule mp_put_access_ok [OF less.prems(1) assms _ pc]) (use len in simp)
  have len1: "length (mc_accepted s1) < 2 ^ 62" using len pc1(3) by simp
  have "unat seq \<le> unat e" unfolding seq_def by (rule mp_current_put [OF less.prems(1) assms len e_def])
  then have cur: "\<not> 0 < int (unat seq) - int (unat e)" by linarith
  have "mp_solo i f 8 s1"
  proof (rule mp_solo_cas [where n = 7, simplified])
    from mp_put_diff [OF ok1 assms len1 pc1(1)] have "mp_solo i f 7 (mp_put_access i (Put_Seq v e seq) s1)"
    proof (cases rule: mp_put_seq_cases [where s = s1 and i = i and v = v, case_names claimed overflow again])
      case claimed
      show ?thesis unfolding claimed(3) by (rule mp_solo_put_tail(7) [of _ _ v e]) simp
    next
      case overflow
      show ?thesis unfolding overflow by (rule mp_solo_mono [OF mp_solo_put_tail(9)]) simp_all
    next
      case again
      then show ?thesis using cur unfolding pc1(2) e_def [symmetric] by blast
    qed
    then show "mp_solo i f 7 (mp_access i s1)" by (simp add: mp_access_def pc1(1))
  next
    fix s' g assume sp: "mp_spurious i (mc_pc s1 i) s1 = Some s'" "f = Suc g"
    then have "s' = mc_goto i (In_Put (Put_Loop v (mp_enqueue_pos (mc_queue s1)))) s1" by (simp add: pc1(1) split: if_splits)
    then show "mp_solo i g 9 s'"
      using less.IH [of g s'] mp_spurious_ok [OF ok1 sp(1)] less.prems(2) pc1(3) sp(2) by simp
  qed
  then show ?case using mp_solo_put [OF pc, of f 8] by (simp add: s1_def)
qed

lemma mp_solo_get_fresh:
  assumes "0 < k" "k \<le> 62"
  shows "mp_ok k s \<Longrightarrow> length (mc_accepted s) < 2 ^ 62 \<Longrightarrow> mc_pc s i = In_Get (Get_Loop (mp_dequeue_pos (mc_queue s)))
    \<Longrightarrow> mp_solo i f 6 s"
proof (induction f arbitrary: s rule: less_induct)
  case (less f)
  define d where "d = mp_dequeue_pos (mc_queue s)"
  define seq where "seq = cell_sequence (mp_cell_at (mc_queue s) d)"
  define s1 where "s1 = mp_get_access i (Get_Loop d) s"
  have pc: "mc_pc s i = In_Get (Get_Loop d)" using less.prems(3) by (simp only: d_def)
  have pc1: "mc_pc s1 i = In_Get (Get_Seq d seq)" "mc_queue s1 = mc_queue s" "mc_accepted s1 = mc_accepted s"
    by (simp_all add: s1_def seq_def)
  have ok1: "mp_ok k s1" unfolding s1_def by (rule mp_get_access_ok [OF less.prems(1) assms less.prems(2) pc])
  have len1: "length (mc_accepted s1) < 2 ^ 62" using less.prems(2) pc1(3) by simp
  have "unat seq \<le> unat (d + 1)" unfolding seq_def by (rule mp_current_get [OF less.prems(1) assms less.prems(2) d_def])
  then have cur: "\<not> 0 < int (unat seq) - int (unat (d + 1))" by linarith
  have "mp_solo i f 5 s1"
  proof (rule mp_solo_cas [where n = 4, simplified])
    from mp_get_diff [OF ok1 assms len1 pc1(1)] have "mp_solo i f 4 (mp_get_access i (Get_Seq d seq) s1)"
    proof (cases rule: mp_get_seq_cases [where s = s1 and i = i, case_names claimed underflow again])
      case claimed
      show ?thesis unfolding claimed(3) by (rule mp_solo_get_tail(4) [of _ _ d]) simp
    next
      case underflow
      show ?thesis unfolding underflow by (rule mp_solo_mono [OF mp_solo_get_tail(6)]) simp_all
    next
      case again
      then show ?thesis using cur unfolding pc1(2) d_def [symmetric] by blast
    qed
    then show "mp_solo i f 4 (mp_access i s1)" by (simp add: mp_access_def pc1(1))
  next
    fix s' g assume sp: "mp_spurious i (mc_pc s1 i) s1 = Some s'" "f = Suc g"
    then have "s' = mc_goto i (In_Get (Get_Loop (mp_dequeue_pos (mc_queue s1)))) s1" by (simp add: pc1(1) split: if_splits)
    then show "mp_solo i g 6 s'"
      using less.IH [of g s'] mp_spurious_ok [OF ok1 sp(1)] less.prems(2) pc1(3) sp(2) by simp
  qed
  then show ?case using mp_solo_get [OF pc, of f 5] by (simp add: s1_def)
qed

text \<open>With an outdated position the loop goes round once more.\<close>
lemma mp_solo_put_any:
  assumes "mp_ok k s" "0 < k" "k \<le> 62" "length (mc_accepted s) + 1 < 2 ^ 62" "mc_pc s i = In_Put (Put_Seq v pos seq)"
  shows "mp_solo i f 10 s"
proof (rule mp_solo_cas [where n = 9, simplified])
  have len: "length (mc_accepted s) < 2 ^ 62" using assms(4) by simp
  have fresh: "mp_solo i g 9 s2"
    if "mp_ok k s2" "s2 = mc_goto i (In_Put (Put_Loop v (mp_enqueue_pos (mc_queue s)))) s" for g s2
    by (rule mp_solo_put_fresh [OF assms(2,3) that(1), where v = v]) (use assms(4) in \<open>simp_all add: that(2)\<close>)
  from mp_put_diff [OF assms(1-3) len assms(5)] have "mp_solo i f 9 (mp_put_access i (Put_Seq v pos seq) s)"
  proof (cases rule: mp_put_seq_cases [where s = s and i = i and v = v, case_names claimed overflow again])
    case claimed
    show ?thesis unfolding claimed(3) by (rule mp_solo_mono [OF mp_solo_put_tail(7) [of _ _ v pos]]) simp_all
  next
    case overflow
    show ?thesis unfolding overflow by (rule mp_solo_mono [OF mp_solo_put_tail(9)]) simp_all
  next
    case again
    have "mp_ok k (mp_put_access i (Put_Seq v pos seq) s)"
      by (rule mp_put_access_ok [OF assms(1-3) _ assms(5)]) (unfold again(3), use len in simp)
    from fresh [OF this again(3)] show ?thesis .
  qed
  then show "mp_solo i f 9 (mp_access i s)" by (simp add: mp_access_def assms(5))
  fix s' g assume sp: "mp_spurious i (mc_pc s i) s = Some s'" "f = Suc g"
  then have "s' = mc_goto i (In_Put (Put_Loop v (mp_enqueue_pos (mc_queue s)))) s" by (simp add: assms(5) split: if_splits)
  from mp_solo_mono [OF fresh [OF mp_spurious_ok [OF assms(1) sp(1)] this]] show "mp_solo i g 11 s'" by simp
qed

lemma mp_solo_get_any:
  assumes "mp_ok k s" "0 < k" "k \<le> 62" "length (mc_accepted s) < 2 ^ 62" "mc_pc s i = In_Get (Get_Seq pos seq)"
  shows "mp_solo i f 7 s"
proof (rule mp_solo_cas [where n = 6, simplified])
  have fresh: "mp_solo i g 6 s2"
    if "mp_ok k s2" "s2 = mc_goto i (In_Get (Get_Loop (mp_dequeue_pos (mc_queue s)))) s" for g s2
    by (rule mp_solo_get_fresh [OF assms(2,3) that(1)]) (use assms(4) in \<open>simp_all add: that(2)\<close>)
  from mp_get_diff [OF assms] have "mp_solo i f 6 (mp_get_access i (Get_Seq pos seq) s)"
  proof (cases rule: mp_get_seq_cases [where s = s and i = i, case_names claimed underflow again])
    case claimed
    show ?thesis unfolding claimed(3) by (rule mp_solo_mono [OF mp_solo_get_tail(4) [of _ _ pos]]) simp_all
  next
    case underflow
    show ?thesis unfolding underflow by (rule mp_solo_mono [OF mp_solo_get_tail(6)]) simp_all
  next
    case again
    show ?thesis by (rule fresh [OF mp_get_access_ok [OF assms] again(3)])
  qed
  then show "mp_solo i f 6 (mp_access i s)" by (simp add: mp_access_def assms(5))
  fix s' g assume sp: "mp_spurious i (mc_pc s i) s = Some s'" "f = Suc g"
  then have "s' = mc_goto i (In_Get (Get_Loop (mp_dequeue_pos (mc_queue s)))) s" by (simp add: assms(5) split: if_splits)
  from mp_solo_mono [OF fresh [OF mp_spurious_ok [OF assms(1) sp(1)] this]] show "mp_solo i g 8 s'" by simp
qed

lemma mp_solo_all:
  assumes "mp_ok k s" "0 < k" "k \<le> 62" "length (mc_accepted s) + 1 < 2 ^ 62"
  shows "mp_solo i f 11 s"
proof (cases "mc_pc s i")
  case T_Idle
  then show ?thesis by (rule mp_solo_idle)
next
  case T_Undefined
  then show ?thesis using mp_ok_knows [OF assms(1) T_Undefined] by simp
next
  case (In_Put pc)
  note step = mp_solo_put [OF In_Put, of f]
  have ok1: "mp_ok k (mp_put_access i pc s)"
    by (rule mp_put_access_ok [OF assms(1-3) _ In_Put]) (use assms(4) in \<open>cases pc; simp add: Let_def split: option.split\<close>)
  show ?thesis
  proof (cases pc)
    case (Put_Start v)
    have "mp_solo i f 9 (mp_put_access i pc s)"
      by (rule mp_solo_put_fresh [OF assms(2,3) ok1, where v = v]) (use assms(4) in \<open>simp_all add: Put_Start\<close>)
    from mp_solo_mono [OF step [OF this]] show ?thesis by (simp add: Put_Start)
  next
    case (Put_Loop v pos)
    have "mp_solo i f 10 (mp_put_access i pc s)"
      by (rule mp_solo_put_any [OF ok1 assms(2,3)]) (use assms(4) in \<open>simp_all add: Put_Loop\<close>)
    from step [OF this] show ?thesis by (simp add: Put_Loop)
  next
    case (Put_Seq v pos seq)
    from mp_solo_mono [OF mp_solo_put_any [OF assms In_Put [unfolded Put_Seq]]] show ?thesis by simp
  qed (use In_Put in \<open>auto intro: mp_solo_mono [OF mp_solo_put_tail(1)] mp_solo_mono [OF mp_solo_put_tail(2)]
      mp_solo_mono [OF mp_solo_put_tail(3)] mp_solo_mono [OF mp_solo_put_tail(4)] mp_solo_mono [OF mp_solo_put_tail(5)]
      mp_solo_mono [OF mp_solo_put_tail(6)] mp_solo_mono [OF mp_solo_put_tail(7)] mp_solo_mono [OF mp_solo_put_tail(8)]
      mp_solo_mono [OF mp_solo_put_tail(9)]\<close>)
next
  case (In_Get pc)
  note step = mp_solo_get [OF In_Get, of f]
  have len: "length (mc_accepted s) < 2 ^ 62" using assms(4) by simp
  have ok1: "mp_ok k (mp_get_access i pc s)" by (rule mp_get_access_ok [OF assms(1-3) len In_Get])
  show ?thesis
  proof (cases pc)
    case Get_Start
    have "mp_solo i f 6 (mp_get_access i pc s)"
      by (rule mp_solo_get_fresh [OF assms(2,3) ok1]) (use len in \<open>simp_all add: Get_Start\<close>)
    from mp_solo_mono [OF step [OF this]] show ?thesis by (simp add: Get_Start)
  next
    case (Get_Loop pos)
    have "mp_solo i f 7 (mp_get_access i pc s)"
      by (rule mp_solo_get_any [OF ok1 assms(2,3)]) (use len in \<open>simp_all add: Get_Loop\<close>)
    from mp_solo_mono [OF step [OF this]] show ?thesis by (simp add: Get_Loop)
  next
    case (Get_Seq pos seq)
    from mp_solo_mono [OF mp_solo_get_any [OF assms(1-3) len In_Get [unfolded Get_Seq]]] show ?thesis by simp
  qed (use In_Get in \<open>auto intro: mp_solo_mono [OF mp_solo_get_tail(1)] mp_solo_mono [OF mp_solo_get_tail(2)]
      mp_solo_mono [OF mp_solo_get_tail(3)] mp_solo_mono [OF mp_solo_get_tail(4)] mp_solo_mono [OF mp_solo_get_tail(5)]
      mp_solo_mono [OF mp_solo_get_tail(6)]\<close>)
qed

text \<open>C3: In every reachable state of every interleaving on a queue of capacity \<open>2 ^ k\<close>, \<open>1 \<le> k \<le> 62\<close>, that has accepted
  fewer than \<open>2 ^ 62 - 1\<close> values, a thread that runs alone finishes its put or get within 11 accesses, plus two for
  each of its \<^verbatim>\<open>compare_exchange_weak\<close> that fails spuriously (the list \<open>ws\<close> says at which accesses one does), even
  if other threads are stopped in the middle of their calls.\<close>
theorem mpmc_solo_finishes:
  assumes "mp_reachable (2 ^ k) s" "0 < k" "k \<le> 62" "length (mc_accepted s) + 1 < 2 ^ 62"
    "11 + 2 * count_list ws True \<le> length ws"
  shows "mc_pc (fold (mp_go i) ws s) i = T_Idle"
proof -
  have "mp_ok k s" by (rule mp_reachable_ok [OF assms(1-3)]) (use assms(4) in simp)
  from mp_solo_all [OF this assms(2-4), of i "count_list ws True"] show ?thesis
    using assms(5) unfolding mp_solo_def by blast
qed


section \<open>Schedules\<close>

datatype mp_action = Call_Put nat u64 | Call_Get nat | Go nat

fun mp_act :: "mp_action \<Rightarrow> mp_conc \<Rightarrow> mp_conc" where
  "mp_act (Call_Put i v) s = (if mc_pc s i = T_Idle then mc_goto i (In_Put (Put_Start v)) s else s)"
| "mp_act (Call_Get i) s = (if mc_pc s i = T_Idle then mc_goto i (In_Get Get_Start) s else s)"
| "mp_act (Go i) s = mp_access i s"

lemma mp_schedule_reachable: "mp_init cap = Inr b \<Longrightarrow> mp_reachable cap (fold mp_act as (mc_start b))"
proof (induction as rule: rev_induct)
  case (snoc a as)
  have "mp_reachable cap s \<Longrightarrow> mp_reachable cap (mp_act a s)" for s
    by (cases a) (auto intro: reach_step mp_step.intros)
  then show ?case using snoc by simp
qed (simp add: reach_init)

definition mp_two :: mpmc where
  "mp_two = \<lparr>q1_stats = stats_zero, mp_cells = [\<lparr>cell_sequence = 0, cell_data = 0\<rparr>, \<lparr>cell_sequence = 1, cell_data = 0\<rparr>],
     mp_capacity = 2, mp_mask = 1, mp_enqueue_pos = 0, mp_dequeue_pos = 0\<rparr>"

lemma mp_two_init: "mp_init 2 = Inr mp_two"
  by (simp add: mp_init_def mp_validate_capacity_def mp_fresh_cells_def mp_two_def upt_rec)

lemmas mp_eval = mp_act.simps mp_access_def mp_put_access.simps mp_get_access.simps mc_goto_def mc_stat_def mp_upd_cell_def
  mp_cell_at_def mc_start_def mp_two_def stats_zero_def

text \<open>Two producers both load the counter before either stores it.\<close>
definition mp_race :: "mp_action list" where
  "mp_race = [Call_Put 0 7, Call_Put 1 8, Go 0, Go 0, Go 0, Go 0, Go 0, Go 0, Go 1, Go 1, Go 1, Go 1, Go 1, Go 1,
     Go 0, Go 0, Go 0, Go 0, Go 1, Go 1, Go 1, Go 1]"

definition mp_race_get :: "mp_action list" where
  "mp_race_get = mp_race @ [Call_Get 2, Go 2, Go 2, Go 2, Go 2, Go 2, Go 2, Go 2]"

lemma mp_race_result:
  "mc_accepted (fold mp_act mp_race (mc_start mp_two)) = [7, 8]" "mc_delivered (fold mp_act mp_race (mc_start mp_two)) = []"
  "total_put_count (q1_stats (mc_queue (fold mp_act mp_race (mc_start mp_two)))) = 1"
  "mc_pc (fold mp_act mp_race (mc_start mp_two)) i = T_Idle"
  by (simp_all add: mp_race_def mp_eval)

lemma mp_race_get_result:
  "mc_accepted (fold mp_act mp_race_get (mc_start mp_two)) = [7, 8]" "mc_delivered (fold mp_act mp_race_get (mc_start mp_two)) = [(0, 7)]"
  "mc_pc (fold mp_act mp_race_get (mc_start mp_two)) i = T_Idle"
  by (simp_all add: mp_race_get_def mp_race_def mp_eval)

text \<open>C39: The statistics of a queue that claims to be thread-safe lose updates: two complete puts from two threads can leave
  the put counter at one.\<close>
theorem mpmc_statistics_race:
  "\<exists>s. mp_reachable 2 s \<and> (\<forall>i. mc_pc s i = T_Idle) \<and> mc_accepted s = [7, 8] \<and> mc_delivered s = []
     \<and> total_put_count (q1_stats (mc_queue s)) = 1"
  using mp_schedule_reachable [OF mp_two_init, of mp_race] mp_race_result by blast

theorem mpmc_concurrent_no_loss_witness:
  "\<exists>s. mp_reachable 2 s \<and> mc_delivered s = [(0, 7)] \<and> mp_rep 1 1 [8] (mc_queue s)"
proof -
  define s where "s = fold mp_act mp_race_get (mc_start mp_two)"
  have r: "mp_reachable (2 ^ 1) s" using mp_schedule_reachable [OF mp_two_init, of mp_race_get] by (simp add: s_def)
  have s: "mc_accepted s = [7, 8]" "mc_delivered s = [(0, 7)]" "\<forall>i. mc_pc s i = T_Idle"
    using mp_race_get_result by (simp_all add: s_def)
  have "mp_rep 1 1 [8] (mc_queue s)" using mpmc_concurrent_no_loss [OF r _ _ _ refl] s by simp
  then show ?thesis using r s by auto
qed

theorem mpmc_solo_finishes_witness:
  "\<exists>s. mp_reachable 2 s \<and> mc_pc s 0 = In_Put (Put_Claimed 7 0) \<and> mc_pc s 1 = In_Put (Put_Start 8)
     \<and> mc_pc (fold (mp_go 1) [False, False, True, False, False, False, False, False, False, False, False, False, False] s) 1 = T_Idle"
proof -
  define s where "s = fold mp_act [Call_Put 0 7, Go 0, Go 0, Go 0, Call_Put 1 8] (mc_start mp_two)"
  have r: "mp_reachable (2 ^ 1) s" unfolding s_def power_one_right by (rule mp_schedule_reachable [OF mp_two_init])
  have s: "mc_accepted s = [7]" "mc_pc s 0 = In_Put (Put_Claimed 7 0)" "mc_pc s 1 = In_Put (Put_Start 8)"
    by (simp_all add: s_def mp_eval)
  have "mc_pc (fold (mp_go 1) [False, False, True, False, False, False, False, False, False, False, False, False, False] s) 1 = T_Idle"
    by (rule mpmc_solo_finishes [OF r]) (simp_all add: s(1))
  then show ?thesis using r s by auto
qed

end
