(* ===== verification/Q2_Flush.thy ===== *)
theory Q2_Flush imports Complex_Main CE_Prelude begin

text \<open>
  The Q2 flush axis (\<^verbatim>\<open>organ_axes/axis_q2_queuing\<close>): the policies that decide, from the fill and the
  capacity of a buffer or from the time since the last flush, whether the buffer is flushed.
  \<^verbatim>\<open>should_flush\<close> returns a decision and counts it, \<^verbatim>\<open>on_flush_complete\<close> counts a finished flush.

  Fill, capacity and the percentages are words of the widths of the code (64 and 32 bits).  The
  clock is an argument: a reading of \<^verbatim>\<open>steady_clock\<close> in nanoseconds, an integer.

  The \<^verbatim>\<open>double\<close> arithmetic of the adaptive policy is that of the real numbers with a rounding after every
  literal, conversion and operation.  The rounding is a parameter \<open>rnd\<close>; of it the property assumes
  (\<open>double_rounding\<close>) what holds in every rounding mode of IEEE binary64: it is monotone and keeps the numbers
  that are representable, of which it names the multiples of 1/8 up to \<open>2 ^ 50\<close>.  All values stay far below
  the largest \<^verbatim>\<open>double\<close>, so infinities and NaN do not occur; a contraction of two operations into a fused
  multiply-add is not modelled.  Undefined behaviour (a clock difference beyond 64 bits, a conversion to
  \<^verbatim>\<open>unsigned\<close> out of range) is the result None.
\<close>

section \<open>Decisions and statistics\<close>

datatype flush_decision = NoFlush | PartialFlush | FullFlush

record flush_stats =
  total_decisions_evaluated :: u64
  full_flush_count :: u64
  partial_flush_count :: u64
  no_flush_count :: u64
  flush_complete_count :: u64

definition flush_stats_zero :: flush_stats where
  "flush_stats_zero = \<lparr>total_decisions_evaluated = 0, full_flush_count = 0, partial_flush_count = 0,
     no_flush_count = 0, flush_complete_count = 0\<rparr>"

record q2_base =
  q2_stats :: flush_stats

text \<open>The bookkeeping at the end of \<^verbatim>\<open>should_flush\<close>: a full flush or anything else.\<close>
definition note_decision :: "flush_decision \<Rightarrow> 'z q2_base_scheme \<Rightarrow> 'z q2_base_scheme" where
  "note_decision dec p =
     (let s = (q2_stats p)\<lparr>total_decisions_evaluated := total_decisions_evaluated (q2_stats p) + 1\<rparr>
      in p\<lparr>q2_stats := (if dec = FullFlush then s\<lparr>full_flush_count := full_flush_count s + 1\<rparr>
                       else s\<lparr>no_flush_count := no_flush_count s + 1\<rparr>)\<rparr>)"

definition note_flush_complete :: "'z q2_base_scheme \<Rightarrow> 'z q2_base_scheme" where
  "note_flush_complete p =
     p\<lparr>q2_stats := (q2_stats p)\<lparr>flush_complete_count := flush_complete_count (q2_stats p) + 1\<rparr>\<rparr>"

definition q2_reset :: "'z q2_base_scheme \<Rightarrow> 'z q2_base_scheme" where
  "q2_reset p = p\<lparr>q2_stats := flush_stats_zero\<rparr>"

lemma note_decision_simps [simp]:
  "total_decisions_evaluated (q2_stats (note_decision d p)) = total_decisions_evaluated (q2_stats p) + 1"
  "full_flush_count (q2_stats (note_decision d p)) = full_flush_count (q2_stats p) + (if d = FullFlush then 1 else 0)"
  "no_flush_count (q2_stats (note_decision d p)) = no_flush_count (q2_stats p) + (if d = FullFlush then 0 else 1)"
  "partial_flush_count (q2_stats (note_decision d p)) = partial_flush_count (q2_stats p)"
  "flush_complete_count (q2_stats (note_decision d p)) = flush_complete_count (q2_stats p)"
  by (simp_all add: note_decision_def Let_def)

text \<open>Decisions not yet accounted for as full or no flush: always none.\<close>
definition decision_gap :: "flush_stats \<Rightarrow> u64" where
  "decision_gap s = total_decisions_evaluated s - full_flush_count s - no_flush_count s"

lemma decision_gap_note [simp]: "decision_gap (q2_stats (note_decision d p)) = decision_gap (q2_stats p)"
  by (simp add: decision_gap_def)

section \<open>The policy contract\<close>

text \<open>A policy asked for a decision on each of a sequence of observations.\<close>
primrec q2_run :: "('x \<Rightarrow> 'p \<Rightarrow> flush_decision \<times> 'p) \<Rightarrow> 'x list \<Rightarrow> 'p \<Rightarrow> flush_decision list \<times> 'p" where
  "q2_run should [] p = ([], p)"
| "q2_run should (x # xs) p = (case q2_run should xs (snd (should x p)) of
     (ds, p') \<Rightarrow> (fst (should x p) # ds, p'))"

locale flush_policy =
  fixes decide :: "'x \<Rightarrow> 'z q2_base_scheme \<Rightarrow> flush_decision"
    and should :: "'x \<Rightarrow> 'z q2_base_scheme \<Rightarrow> flush_decision \<times> 'z q2_base_scheme"
  assumes should_eq: "should x p = (decide x p, note_decision (decide x p) p)"
    and decide_note: "decide x (note_decision d p) = decide x p"
    and never_partial: "decide x p \<noteq> PartialFlush"
begin

text \<open>Decisions do not depend on the decisions made before, and every decision is counted once.\<close>
lemma run_decisions: "fst (q2_run should xs p) = map (\<lambda>x. decide x p) xs"
  by (induction xs arbitrary: p) (simp_all add: should_eq decide_note split_def)

lemma run_counts:
  "total_decisions_evaluated (q2_stats (snd (q2_run should xs p)))
     = total_decisions_evaluated (q2_stats p) + word_of_nat (length xs)
   \<and> full_flush_count (q2_stats (snd (q2_run should xs p)))
     = full_flush_count (q2_stats p) + word_of_nat (length (filter (\<lambda>x. decide x p = FullFlush) xs))
   \<and> no_flush_count (q2_stats (snd (q2_run should xs p)))
     = no_flush_count (q2_stats p) + word_of_nat (length (filter (\<lambda>x. decide x p = NoFlush) xs))"
proof (induction xs arbitrary: p)
  case (Cons x xs)
  have "decide x p = NoFlush \<or> decide x p = FullFlush"
    using never_partial [of x p] by (cases "decide x p") auto
  then show ?case using Cons.IH [of "note_decision (decide x p) p"]
    by (auto simp: should_eq decide_note split_def)
qed simp

lemma run_gap: "decision_gap (q2_stats (snd (q2_run should xs p))) = decision_gap (q2_stats p)"
  by (induction xs arbitrary: p) (simp_all add: should_eq split_def)

end

section \<open>EagerFlush and LazyFlush\<close>

text \<open>No members beside the statistics.\<close>
type_synonym eager = q2_base
type_synonym lazy = q2_base

definition eager_should_flush :: "u64 \<times> u64 \<Rightarrow> eager \<Rightarrow> flush_decision \<times> eager" where
  "eager_should_flush = (\<lambda>(fill, cap) p. (FullFlush,
     p\<lparr>q2_stats := (q2_stats p)\<lparr>total_decisions_evaluated := total_decisions_evaluated (q2_stats p) + 1,
        full_flush_count := full_flush_count (q2_stats p) + 1\<rparr>\<rparr>))"

definition eager_on_flush_complete :: "eager \<Rightarrow> eager" where
  "eager_on_flush_complete p = note_flush_complete p"

definition lazy_should_flush :: "u64 \<times> u64 \<Rightarrow> lazy \<Rightarrow> flush_decision \<times> lazy" where
  "lazy_should_flush = (\<lambda>(fill, cap) p. (NoFlush,
     p\<lparr>q2_stats := (q2_stats p)\<lparr>total_decisions_evaluated := total_decisions_evaluated (q2_stats p) + 1,
        no_flush_count := no_flush_count (q2_stats p) + 1\<rparr>\<rparr>))"

definition lazy_on_flush_complete :: "lazy \<Rightarrow> lazy" where
  "lazy_on_flush_complete p = note_flush_complete p"

interpretation eager: flush_policy "\<lambda>_ _. FullFlush" eager_should_flush
  by unfold_locales (auto simp: eager_should_flush_def note_decision_def Let_def)

interpretation lazy: flush_policy "\<lambda>_ _. NoFlush" lazy_should_flush
  by unfold_locales (auto simp: lazy_should_flush_def note_decision_def Let_def)

section \<open>WatermarkFlush\<close>

record watermark = q2_base +
  wm_threshold_pct :: u32

definition wm_default_pct :: u32 where
  "wm_default_pct = 75"

definition wm_init :: "u32 \<Rightarrow> watermark" where
  "wm_init pct = \<lparr>q2_stats = flush_stats_zero, wm_threshold_pct = pct\<rparr>"

text \<open>The fill percentage, computed modulo \<open>2 ^ 64\<close> and narrowed to 32 bits as the code does.\<close>
definition fill_pct :: "u64 \<Rightarrow> u64 \<Rightarrow> u32" where
  "fill_pct fill cap = ucast ((fill * 100) div cap)"

definition wm_decide :: "u64 \<times> u64 \<Rightarrow> watermark \<Rightarrow> flush_decision" where
  "wm_decide = (\<lambda>(fill, cap) p.
     if 0 < cap \<and> wm_threshold_pct p \<le> fill_pct fill cap then FullFlush else NoFlush)"

definition wm_should_flush :: "u64 \<times> u64 \<Rightarrow> watermark \<Rightarrow> flush_decision \<times> watermark" where
  "wm_should_flush = (\<lambda>(fill, cap) p.
     (let dec = NoFlush;
          dec = (if 0 < cap then (if wm_threshold_pct p \<le> fill_pct fill cap then FullFlush else dec) else dec)
      in (dec, note_decision dec p)))"

definition wm_on_flush_complete :: "watermark \<Rightarrow> watermark" where
  "wm_on_flush_complete p = note_flush_complete p"

definition wm_set_iterable_aspect :: "u32 \<Rightarrow> watermark \<Rightarrow> watermark" where
  "wm_set_iterable_aspect pct p = p\<lparr>wm_threshold_pct := pct\<rparr>"

interpretation watermark: flush_policy wm_decide wm_should_flush
  by unfold_locales
    (auto simp: wm_decide_def wm_should_flush_def note_decision_def Let_def split: prod.splits)

text \<open>Within the range of a buffer (fill at most capacity, no overflow of the product) the test is the
  exact comparison of \<open>fill / cap\<close> with the threshold percentage.\<close>
lemma fill_pct_exact:
  assumes "fill \<le> cap" "unat cap < 2 ^ 57" "0 < cap"
  shows "unat (fill_pct fill cap) = (unat fill * 100) div unat cap"
proof -
  have le: "unat fill \<le> unat cap" using assms(1) by (simp add: word_le_nat_alt)
  have "unat fill * unat (100 :: u64) < 2 ^ LENGTH(64)" using le assms(2) by simp
  then have m: "unat (fill * 100) = unat fill * 100" by (simp add: unat_mult_lem [THEN iffD1])
  have pos: "0 < unat cap" using assms(3) by (simp add: word_less_nat_alt)
  have "(unat fill * 100) div unat cap \<le> (unat cap * 100) div unat cap"
    using le by (intro div_le_mono) simp
  then have "(unat fill * 100) div unat cap \<le> 100" using pos by simp
  then show ?thesis
    by (simp add: fill_pct_def unsigned_ucast_eq unat_div m take_bit_nat_eq_self)
qed

lemma div_ge_iff: "0 < c \<Longrightarrow> t \<le> n div c \<longleftrightarrow> t * c \<le> (n :: nat)"
  by (simp add: less_eq_div_iff_mult_less_eq)

lemma wm_decide_exact:
  assumes "fill \<le> cap" "unat cap < 2 ^ 57" "0 < cap"
  shows "wm_decide (fill, cap) p = (if unat (wm_threshold_pct p) * unat cap \<le> unat fill * 100 then FullFlush else NoFlush)"
proof -
  have pos: "0 < unat cap" using assms(3) by (simp add: word_less_nat_alt)
  have "wm_threshold_pct p \<le> fill_pct fill cap \<longleftrightarrow> unat (wm_threshold_pct p) * unat cap \<le> unat fill * 100"
    using fill_pct_exact [OF assms] div_ge_iff [OF pos] by (simp add: word_le_nat_alt)
  then show ?thesis using assms(3) by (simp add: wm_decide_def)
qed

section \<open>TimedFlush\<close>

record timed = q2_base +
  td_window_ms :: u64
  td_last_flush :: int

definition td_default_window_ms :: u64 where
  "td_default_window_ms = 100"

definition td_init :: "u64 \<Rightarrow> int \<Rightarrow> timed" where
  "td_init window now = \<lparr>q2_stats = flush_stats_zero, td_window_ms = window, td_last_flush = now\<rparr>"

text \<open>\<^verbatim>\<open>duration_cast\<close> truncates towards zero.\<close>
definition duration_cast :: "int \<Rightarrow> int \<Rightarrow> int" where
  "duration_cast unit ns = (if 0 \<le> ns then ns div unit else - ((- ns) div unit))"

definition td_decide :: "int \<Rightarrow> timed \<Rightarrow> flush_decision" where
  "td_decide now p = (if td_window_ms p \<le> word_of_int (duration_cast 1000000 (now - td_last_flush p))
     then FullFlush else NoFlush)"

definition td_should_flush :: "int \<Rightarrow> timed \<Rightarrow> flush_decision \<times> timed" where
  "td_should_flush now p =
     (let elapsed_ms = duration_cast 1000000 (now - td_last_flush p);
          dec = (if td_window_ms p \<le> word_of_int elapsed_ms then FullFlush else NoFlush)
      in (dec, note_decision dec p))"

definition td_on_flush_complete :: "int \<Rightarrow> timed \<Rightarrow> timed" where
  "td_on_flush_complete now p = note_flush_complete (p\<lparr>td_last_flush := now\<rparr>)"

definition td_set_iterable_aspect :: "u64 \<Rightarrow> timed \<Rightarrow> timed" where
  "td_set_iterable_aspect w p = p\<lparr>td_window_ms := w\<rparr>"

interpretation timed: flush_policy td_decide td_should_flush
  by unfold_locales (auto simp: td_decide_def td_should_flush_def note_decision_def Let_def)

lemma int_div_ge_iff:
  assumes "0 < c"
  shows "t \<le> n div c \<longleftrightarrow> t * c \<le> (n :: int)"
proof
  assume "t \<le> n div c"
  then have "t * c \<le> n div c * c" using assms by simp
  also have "\<dots> \<le> n" using div_mult_mod_eq [of n c] pos_mod_sign [OF assms, of n] by linarith
  finally show "t * c \<le> n" .
next
  assume "t * c \<le> n"
  then have "(t * c) div c \<le> n div c" using assms by (rule zdiv_mono1)
  then show "t \<le> n div c" using assms by simp
qed

text \<open>On a clock that does not go backwards the policy flushes exactly when the window has passed.\<close>
lemma td_decide_exact:
  assumes "td_last_flush p \<le> now" "now - td_last_flush p < 2 ^ 63"
  shows "td_decide now p = (if int (unat (td_window_ms p)) * 1000000 \<le> now - td_last_flush p then FullFlush else NoFlush)"
proof -
  define e where "e = (now - td_last_flush p) div 1000000"
  have "e \<le> now - td_last_flush p" "0 \<le> e" using assms(1) unfolding e_def by linarith+
  then have e: "0 \<le> e" "e < 2 ^ 64" using assms(2) by simp_all
  have "uint (word_of_int e :: u64) = e" using e by (simp add: unsigned_of_int take_bit_int_eq_self)
  then have "td_window_ms p \<le> word_of_int e \<longleftrightarrow> uint (td_window_ms p) \<le> e"
    by (simp add: word_le_def)
  also have "\<dots> \<longleftrightarrow> uint (td_window_ms p) * 1000000 \<le> now - td_last_flush p"
    unfolding e_def by (rule int_div_ge_iff) simp
  finally show ?thesis using assms(1) by (simp add: td_decide_def duration_cast_def e_def)
qed

section \<open>AdaptiveLsmFlush\<close>

record adaptive_lsm = q2_base +
  al_threshold_pct :: u32
  al_ewma :: real
  al_last_decision :: int

definition al_init :: "int \<Rightarrow> adaptive_lsm" where
  "al_init now = \<lparr>q2_stats = flush_stats_zero, al_threshold_pct = 75, al_ewma = 0, al_last_decision = now\<rparr>"

definition al_decide :: "u64 \<times> u64 \<Rightarrow> adaptive_lsm \<Rightarrow> flush_decision" where
  "al_decide = (\<lambda>(fill, cap) p.
     if 0 < cap \<and> al_threshold_pct p \<le> fill_pct fill cap then FullFlush else NoFlush)"

definition al_should_flush :: "u64 \<times> u64 \<Rightarrow> adaptive_lsm \<Rightarrow> flush_decision \<times> adaptive_lsm" where
  "al_should_flush = (\<lambda>(fill, cap) p.
     (let dec = NoFlush;
          dec = (if 0 < cap then (if al_threshold_pct p \<le> fill_pct fill cap then FullFlush else dec) else dec)
      in (dec, note_decision dec p)))"

text \<open>\<^verbatim>\<open>static_cast<unsigned>\<close> of a \<^verbatim>\<open>double\<close> truncates towards zero and is undefined out of range.\<close>
definition al_to_unsigned :: "real \<Rightarrow> u32 option" where
  "al_to_unsigned x = (if -1 < x \<and> x < 2 ^ 32 then Some (word_of_int (if 0 \<le> x then \<lfloor>x\<rfloor> else \<lceil>x\<rceil>)) else None)"

definition al_on_flush_complete :: "(real \<Rightarrow> real) \<Rightarrow> int \<Rightarrow> adaptive_lsm \<Rightarrow> adaptive_lsm option" where
  "al_on_flush_complete rnd now p =
     (let delta_ns = now - al_last_decision p
      in if delta_ns < - (2 ^ 63) \<or> 2 ^ 63 \<le> delta_ns then None
         else (let delta_us = duration_cast 1000 delta_ns;
                   alpha = rnd (2 / 10);
                   rate = (if 0 < delta_us then rnd (1000000 / rnd (real_of_int delta_us)) else 1);
                   ewma = rnd (rnd (alpha * rate) + rnd (rnd (1 - alpha) * al_ewma p));
                   clamped = (if 100 < ewma then 100 else ewma);
                   t = rnd (clamped / 100)
               in map_option
                    (\<lambda>threshold. note_flush_complete
                       (p\<lparr>al_ewma := ewma, al_threshold_pct := threshold, al_last_decision := now\<rparr>))
                    (al_to_unsigned (rnd (95 - rnd (t * (95 - 60)))))))"

interpretation adaptive: flush_policy al_decide al_should_flush
  by unfold_locales
    (auto simp: al_decide_def al_should_flush_def note_decision_def Let_def split: prod.splits)

text \<open>What every rounding mode of binary64 does.\<close>
definition double_rounding :: "(real \<Rightarrow> real) \<Rightarrow> bool" where
  "double_rounding rnd \<longleftrightarrow> mono rnd \<and> (\<forall>n :: int. \<bar>n\<bar> \<le> 2 ^ 53 \<longrightarrow> rnd (real_of_int n / 8) = real_of_int n / 8)"

lemma rnd_ge: "double_rounding rnd \<Longrightarrow> real_of_int m / 8 \<le> x \<Longrightarrow> \<bar>m\<bar> \<le> 2 ^ 53 \<Longrightarrow> real_of_int m / 8 \<le> rnd x"
  unfolding double_rounding_def by (metis monoD)

lemma rnd_le: "double_rounding rnd \<Longrightarrow> x \<le> real_of_int m / 8 \<Longrightarrow> \<bar>m\<bar> \<le> 2 ^ 53 \<Longrightarrow> rnd x \<le> real_of_int m / 8"
  unfolding double_rounding_def by (metis monoD)

text \<open>The adapted threshold never leaves the configured band from 60 to 95 percent.\<close>
definition al_inv :: "adaptive_lsm \<Rightarrow> bool" where
  "al_inv p \<longleftrightarrow> 0 \<le> al_ewma p \<and> al_ewma p \<le> 2000000 \<and> 60 \<le> al_threshold_pct p \<and> al_threshold_pct p \<le> 95
     \<and> 0 \<le> al_last_decision p \<and> al_last_decision p < 2 ^ 63"

lemma al_init_inv: "0 \<le> now \<Longrightarrow> now < 2 ^ 63 \<Longrightarrow> al_inv (al_init now)"
  by (simp add: al_init_def al_inv_def)

lemma al_should_flush_inv: "al_inv p \<Longrightarrow> al_inv (snd (al_should_flush x p))"
  by (auto simp: al_inv_def al_should_flush_def note_decision_def Let_def split: prod.splits)

lemma al_to_unsigned_band:
  assumes "60 \<le> r" "r \<le> 95"
  shows "\<exists>w. al_to_unsigned r = Some w \<and> 60 \<le> w \<and> w \<le> 95"
proof -
  have f: "60 \<le> \<lfloor>r\<rfloor>" "\<lfloor>r\<rfloor> \<le> 95" using assms by (simp_all add: le_floor_iff floor_le_iff)
  then have "uint (word_of_int \<lfloor>r\<rfloor> :: u32) = \<lfloor>r\<rfloor>" by (simp add: unsigned_of_int take_bit_int_eq_self)
  then show ?thesis using f assms by (simp add: al_to_unsigned_def word_le_def)
qed

text \<open>The smoothing factor, and the burst rate of any time difference.\<close>
lemma al_alpha_bounds:
  assumes "double_rounding rnd"
  shows "1 / 8 \<le> rnd (2 / 10)" "rnd (2 / 10) \<le> 2 / 8" "0 \<le> rnd (1 - rnd (2 / 10))" "rnd (1 - rnd (2 / 10)) \<le> 7 / 8"
proof -
  show a: "1 / 8 \<le> rnd (2 / 10)" "rnd (2 / 10) \<le> 2 / 8"
    using rnd_ge [OF assms, of 1 "2 / 10"] rnd_le [OF assms, of "2 / 10" 2] by simp_all
  show "0 \<le> rnd (1 - rnd (2 / 10))" "rnd (1 - rnd (2 / 10)) \<le> 7 / 8"
    using rnd_ge [OF assms, of 0 "1 - rnd (2 / 10)"] rnd_le [OF assms, of "1 - rnd (2 / 10)" 7] a by simp_all
qed

lemma al_rate_bounds:
  assumes "double_rounding rnd" "rate = (if 0 < d then rnd (1000000 / rnd (real_of_int d)) else 1)"
  shows "0 \<le> rate" "rate \<le> 1000000"
proof -
  have "0 \<le> rate \<and> rate \<le> 1000000"
  proof (cases "0 < d")
    case True
    then have one: "1 \<le> rnd (real_of_int d)" using rnd_ge [OF assms(1), of 8 "real_of_int d"] by simp
    then have "0 \<le> 1000000 / rnd (real_of_int d)" "1000000 / rnd (real_of_int d) \<le> 1000000"
      by (simp_all add: divide_le_eq)
    then show ?thesis
      using True assms(2) rnd_ge [OF assms(1), of 0 "1000000 / rnd (real_of_int d)"]
        rnd_le [OF assms(1), of "1000000 / rnd (real_of_int d)" 8000000] by simp
  qed (simp add: assms(2))
  then show "0 \<le> rate" "rate \<le> 1000000" by simp_all
qed

lemma al_ewma_bounds:
  assumes "double_rounding rnd" "0 \<le> rate" "rate \<le> 1000000" "0 \<le> e" "e \<le> 2000000"
  shows "0 \<le> rnd (rnd (rnd (2 / 10) * rate) + rnd (rnd (1 - rnd (2 / 10)) * e))"
    "rnd (rnd (rnd (2 / 10) * rate) + rnd (rnd (1 - rnd (2 / 10)) * e)) \<le> 2000000"
proof -
  note A = al_alpha_bounds [OF assms(1)]
  have "rnd (2 / 10) * rate \<le> 2 / 8 * 1000000" using A(1,2) assms(2,3) by (intro mult_mono) simp_all
  then have x: "0 \<le> rnd (rnd (2 / 10) * rate)" "rnd (rnd (2 / 10) * rate) \<le> 250000"
    using A(1) assms(2) rnd_ge [OF assms(1), of 0 "rnd (2 / 10) * rate"] rnd_le [OF assms(1), of "rnd (2 / 10) * rate" 2000000]
    by simp_all
  have "rnd (1 - rnd (2 / 10)) * e \<le> 7 / 8 * 2000000" using A(3,4) assms(4,5) by (intro mult_mono) simp_all
  then have y: "0 \<le> rnd (rnd (1 - rnd (2 / 10)) * e)" "rnd (rnd (1 - rnd (2 / 10)) * e) \<le> 1750000"
    using A(3) assms(4) rnd_ge [OF assms(1), of 0 "rnd (1 - rnd (2 / 10)) * e"]
      rnd_le [OF assms(1), of "rnd (1 - rnd (2 / 10)) * e" 14000000] by simp_all
  show "0 \<le> rnd (rnd (rnd (2 / 10) * rate) + rnd (rnd (1 - rnd (2 / 10)) * e))"
    "rnd (rnd (rnd (2 / 10) * rate) + rnd (rnd (1 - rnd (2 / 10)) * e)) \<le> 2000000"
    using x y rnd_ge [OF assms(1), of 0 "rnd (rnd (2 / 10) * rate) + rnd (rnd (1 - rnd (2 / 10)) * e)"]
      rnd_le [OF assms(1), of "rnd (rnd (2 / 10) * rate) + rnd (rnd (1 - rnd (2 / 10)) * e)" 16000000] by simp_all
qed

text \<open>The interpolation ends in the band.\<close>
lemma al_threshold_bounds:
  assumes "double_rounding rnd" "0 \<le> c" "c \<le> 100"
  shows "60 \<le> rnd (95 - rnd (rnd (c / 100) * (95 - 60)))" "rnd (95 - rnd (rnd (c / 100) * (95 - 60))) \<le> 95"
proof -
  have t: "0 \<le> rnd (c / 100)" "rnd (c / 100) \<le> 1"
    using assms(2,3) rnd_ge [OF assms(1), of 0 "c / 100"] rnd_le [OF assms(1), of "c / 100" 8] by simp_all
  have u: "0 \<le> rnd (rnd (c / 100) * (95 - 60))" "rnd (rnd (c / 100) * (95 - 60)) \<le> 35"
    using t rnd_ge [OF assms(1), of 0 "rnd (c / 100) * (95 - 60)"] rnd_le [OF assms(1), of "rnd (c / 100) * (95 - 60)" 280]
    by simp_all
  show "60 \<le> rnd (95 - rnd (rnd (c / 100) * (95 - 60)))" "rnd (95 - rnd (rnd (c / 100) * (95 - 60))) \<le> 95"
    using u rnd_ge [OF assms(1), of 480 "95 - rnd (rnd (c / 100) * (95 - 60))"]
      rnd_le [OF assms(1), of "95 - rnd (rnd (c / 100) * (95 - 60))" 760] by simp_all
qed

lemma al_on_flush_complete_inv:
  assumes "double_rounding rnd" "al_inv p" "0 \<le> now" "now < 2 ^ 63"
  shows "\<exists>q. al_on_flush_complete rnd now p = Some q \<and> al_inv q"
proof -
  define d where "d = duration_cast 1000 (now - al_last_decision p)"
  define rate where "rate = (if 0 < d then rnd (1000000 / rnd (real_of_int d)) else 1)"
  define ewma where "ewma = rnd (rnd (rnd (2 / 10) * rate) + rnd (rnd (1 - rnd (2 / 10)) * al_ewma p))"
  define c where "c = (if 100 < ewma then 100 else ewma)"
  have e: "0 \<le> ewma" "ewma \<le> 2000000"
    using al_ewma_bounds [OF assms(1) al_rate_bounds [OF assms(1) rate_def], of "al_ewma p"] assms(2)
    unfolding ewma_def al_inv_def by blast+
  have c: "0 \<le> c" "c \<le> 100" using e(1) by (simp_all add: c_def)
  obtain w where w: "al_to_unsigned (rnd (95 - rnd (rnd (c / 100) * (95 - 60)))) = Some w" "60 \<le> w" "w \<le> 95"
    using al_to_unsigned_band [OF al_threshold_bounds [OF assms(1) c]] by blast
  have ok: "\<not> (now - al_last_decision p < - (2 ^ 63) \<or> 2 ^ 63 \<le> now - al_last_decision p)"
    using assms(2-4) unfolding al_inv_def by linarith
  have "al_on_flush_complete rnd now p
      = Some (note_flush_complete (p\<lparr>al_ewma := ewma, al_threshold_pct := w, al_last_decision := now\<rparr>))"
    unfolding al_on_flush_complete_def Let_def if_not_P [OF ok] d_def [symmetric] rate_def [symmetric] ewma_def [symmetric]
      c_def [symmetric] w(1) by simp
  then show ?thesis using e w(2,3) assms(3,4) by (simp add: al_inv_def note_flush_complete_def)
qed

text \<open>What happens to an adaptive policy over time: decisions and completed flushes.\<close>
datatype al_event = Ask u64 u64 | Flushed int

primrec al_step :: "(real \<Rightarrow> real) \<Rightarrow> al_event \<Rightarrow> adaptive_lsm \<Rightarrow> adaptive_lsm option" where
  "al_step rnd (Ask fill cap) p = Some (snd (al_should_flush (fill, cap) p))"
| "al_step rnd (Flushed now) p = al_on_flush_complete rnd now p"

primrec al_run :: "(real \<Rightarrow> real) \<Rightarrow> al_event list \<Rightarrow> adaptive_lsm \<Rightarrow> adaptive_lsm option" where
  "al_run rnd [] p = Some p"
| "al_run rnd (ev # evs) p = Option.bind (al_step rnd ev p) (al_run rnd evs)"

lemma al_run_inv:
  assumes "double_rounding rnd"
  shows "al_inv p \<Longrightarrow> (\<And>t. Flushed t \<in> set evs \<Longrightarrow> 0 \<le> t \<and> t < 2 ^ 63) \<Longrightarrow> \<exists>q. al_run rnd evs p = Some q \<and> al_inv q"
proof (induction evs arbitrary: p)
  case (Cons ev evs)
  have "\<exists>p1. al_step rnd ev p = Some p1 \<and> al_inv p1"
  proof (cases ev)
    case (Flushed t)
    then show ?thesis using al_on_flush_complete_inv [OF assms Cons.prems(1), of t] Cons.prems(2) [of t] by simp
  qed (simp add: al_should_flush_inv Cons.prems(1))
  then obtain p1 where "al_step rnd ev p = Some p1" "al_inv p1" by blast
  then show ?case using Cons.IH [of p1] Cons.prems(2) by simp
qed simp

section \<open>Properties\<close>

text \<open>\<^verbatim>\<open>WatermarkFlush\<close> decides exactly: for a buffer whose fill does not exceed its (positive)
  capacity below \<open>2 ^ 57\<close>, it asks for a full flush if and only if \<open>100 * fill\<close> has reached
  \<open>threshold * cap\<close>; no rounding, overflow or narrowing changes the decision.\<close>
lemma watermark_exact:
  assumes "fill \<le> cap" "unat cap < 2 ^ 57" "0 < cap"
  shows "fst (wm_should_flush (fill, cap) p)
    = (if unat (wm_threshold_pct p) * unat cap \<le> unat fill * 100 then FullFlush else NoFlush)"
  using wm_decide_exact [OF assms] by (simp add: watermark.should_eq)

text \<open>\<^verbatim>\<open>TimedFlush\<close> on a clock that has not gone backwards since the last flush (and is less than
  \<open>2 ^ 63\<close> nanoseconds past it) asks for a flush exactly when the configured window has passed.\<close>
lemma timed_exact:
  assumes "td_last_flush p \<le> now" "now - td_last_flush p < 2 ^ 63"
  shows "fst (td_should_flush now p)
    = (if int (unat (td_window_ms p)) * 1000000 \<le> now - td_last_flush p then FullFlush else NoFlush)"
  using td_decide_exact [OF assms] by (simp add: timed.should_eq)

text \<open>C38: Whatever decisions and flushes happen at whatever non-negative 64-bit clock readings, and however the
  \<^verbatim>\<open>double\<close> arithmetic rounds (monotonely, keeping representable numbers, as IEEE binary64 does in every mode),
  \<^verbatim>\<open>AdaptiveLsmFlush\<close> runs without an undefined conversion, the threshold it adapts stays between 60 and 95
  percent, and its smoothed burst rate between 0 and 2000000.\<close>
theorem adaptive_threshold_band:
  assumes "double_rounding rnd" "0 \<le> now" "now < 2 ^ 63" "\<And>t. Flushed t \<in> set evs \<Longrightarrow> 0 \<le> t \<and> t < 2 ^ 63"
  shows "\<exists>p. al_run rnd evs (al_init now) = Some p \<and> 60 \<le> al_threshold_pct p \<and> al_threshold_pct p \<le> 95
    \<and> 0 \<le> al_ewma p \<and> al_ewma p \<le> 2000000"
  using al_run_inv [OF assms(1) al_init_inv [OF assms(2,3)] assms(4)] unfolding al_inv_def by blast

text \<open>A rounding: down to a multiple of \<open>2 ^ -40\<close>.\<close>
definition grid_round :: "real \<Rightarrow> real" where
  "grid_round x = real_of_int \<lfloor>x * 2 ^ 40\<rfloor> / 2 ^ 40"

lemma grid_round_ok: "double_rounding grid_round"
  unfolding double_rounding_def
proof (intro conjI allI impI)
  show "mono grid_round" by (rule monoI) (simp add: grid_round_def divide_right_mono floor_mono)
  fix n :: int
  have "real_of_int n / 8 * 2 ^ 40 = real_of_int (n * 2 ^ 37)" by simp
  then show "grid_round (real_of_int n / 8) = real_of_int n / 8" unfolding grid_round_def by (simp only: floor_of_int) simp
qed

theorem adaptive_threshold_band_witness:
  "\<exists>p. al_run grid_round [Flushed 5000000, Ask 80 100, Flushed 5001000] (al_init 0) = Some p
    \<and> 60 \<le> al_threshold_pct p \<and> al_threshold_pct p \<le> 95 \<and> 0 \<le> al_ewma p \<and> al_ewma p \<le> 2000000"
  by (rule adaptive_threshold_band [OF grid_round_ok]) auto

text \<open>All five flush policies count each decision exactly once, as a full flush or as no flush, and none
  ever decides for a partial flush.\<close>
lemma flush_decisions_counted:
  "decision_gap (q2_stats (snd (q2_run eager_should_flush xs \<lparr>q2_stats = flush_stats_zero\<rparr>))) = 0
   \<and> decision_gap (q2_stats (snd (q2_run lazy_should_flush xs \<lparr>q2_stats = flush_stats_zero\<rparr>))) = 0
   \<and> decision_gap (q2_stats (snd (q2_run wm_should_flush xs (wm_init pct)))) = 0
   \<and> decision_gap (q2_stats (snd (q2_run td_should_flush nows (td_init w t0)))) = 0
   \<and> decision_gap (q2_stats (snd (q2_run al_should_flush xs (al_init t0)))) = 0
   \<and> PartialFlush \<notin> set (fst (q2_run wm_should_flush xs (wm_init pct)))
   \<and> PartialFlush \<notin> set (fst (q2_run td_should_flush nows (td_init w t0)))
   \<and> PartialFlush \<notin> set (fst (q2_run al_should_flush xs (al_init t0)))"
proof -
  have z: "decision_gap flush_stats_zero = 0" by (simp add: decision_gap_def flush_stats_zero_def)
  show ?thesis
    using watermark.never_partial timed.never_partial adaptive.never_partial
    by (simp add: eager.run_gap lazy.run_gap watermark.run_gap timed.run_gap adaptive.run_gap
        watermark.run_decisions timed.run_decisions adaptive.run_decisions
        z wm_init_def td_init_def al_init_def image_iff) (metis)
qed

end
