(* ===== verification/Lookup_Contract.thy ===== *)
theory Lookup_Contract imports CE_Prelude begin

text \<open>
  The contract of the lookup organs (\<^verbatim>\<open>organ_axes/lookup/composable\<close>): every composed search offers
  \<^verbatim>\<open>insert\<close>, \<^verbatim>\<open>lookup\<close>, \<^verbatim>\<open>erase\<close>, \<^verbatim>\<open>occupied_count\<close> and \<^verbatim>\<open>clear\<close> on 64-bit keys and values, and
  abstractly is a finite map.

  \<^item> \<open>map_organ\<close>: the map laws of the five operations.  Every sequence of calls answers like the
    map \<open>spec_map_run\<close>, so that organs of this contract are exchangeable.
  \<^item> \<open>map_memento\<close>: the organ can list its entries (\<^verbatim>\<open>save_state\<close>); restoring the list into any
    organ of the contract reproduces the map.
  \<^item> \<open>map_scan\<close>: the ordered range scan (\<^verbatim>\<open>scan_range\<close>) delivers the entries from a start key on,
    in key order, at most as many as asked for.
\<close>

type_synonym slot = "u64 \<times> u64"

section \<open>Clients\<close>

datatype map_op = Insert u64 u64 | Erase u64 | Lookup u64 | Count | ClearAll

datatype map_result = Found "u64 option" | Erased bool | Counted nat

primrec map_run :: "('s \<Rightarrow> u64 \<Rightarrow> u64 option) \<Rightarrow> (u64 \<Rightarrow> u64 \<Rightarrow> 's \<Rightarrow> 's) \<Rightarrow> (u64 \<Rightarrow> 's \<Rightarrow> bool \<times> 's)
    \<Rightarrow> ('s \<Rightarrow> nat) \<Rightarrow> ('s \<Rightarrow> 's) \<Rightarrow> map_op list \<Rightarrow> 's \<Rightarrow> map_result list \<times> 's" where
  "map_run look ins era cnt clr [] s = ([], s)"
| "map_run look ins era cnt clr (op # ops) s = (case op of
     Insert k v \<Rightarrow> map_run look ins era cnt clr ops (ins k v s)
   | Erase k \<Rightarrow> (case map_run look ins era cnt clr ops (snd (era k s)) of
       (rs, s') \<Rightarrow> (Erased (fst (era k s)) # rs, s'))
   | Lookup k \<Rightarrow> (case map_run look ins era cnt clr ops s of
       (rs, s') \<Rightarrow> (Found (look s k) # rs, s'))
   | Count \<Rightarrow> (case map_run look ins era cnt clr ops s of
       (rs, s') \<Rightarrow> (Counted (cnt s) # rs, s'))
   | ClearAll \<Rightarrow> map_run look ins era cnt clr ops (clr s))"

text \<open>The abstract map.\<close>
definition spec_map_run :: "map_op list \<Rightarrow> (u64 \<rightharpoonup> u64) \<Rightarrow> map_result list \<times> (u64 \<rightharpoonup> u64)" where
  "spec_map_run = map_run (\<lambda>m. m) (\<lambda>k v m. m(k \<mapsto> v)) (\<lambda>k m. (m k \<noteq> None, m(k := None)))
     (\<lambda>m. card (dom m)) (\<lambda>_. Map.empty)"

text \<open>\<^verbatim>\<open>insert_all\<close>: repeated insertion, the body of \<^verbatim>\<open>restore_state\<close> after clearing.\<close>
definition insert_all :: "(u64 \<Rightarrow> u64 \<Rightarrow> 's \<Rightarrow> 's) \<Rightarrow> slot list \<Rightarrow> 's \<Rightarrow> 's" where
  "insert_all ins kvs s = fold (\<lambda>(k, v). ins k v) kvs s"

definition restore :: "(u64 \<Rightarrow> u64 \<Rightarrow> 's \<Rightarrow> 's) \<Rightarrow> ('s \<Rightarrow> 's) \<Rightarrow> slot list \<Rightarrow> 's \<Rightarrow> 's" where
  "restore ins clr m s = insert_all ins m (clr s)"

text \<open>The entries of a finite map in key order, and the window a range scan delivers.\<close>
definition map_entries :: "(u64 \<rightharpoonup> u64) \<Rightarrow> slot list" where
  "map_entries m = map (\<lambda>k. (k, the (m k))) (sorted_list_of_set (dom m))"

definition scan_window :: "u64 \<Rightarrow> nat \<Rightarrow> (u64 \<rightharpoonup> u64) \<Rightarrow> slot list" where
  "scan_window start n m = take n (filter (\<lambda>p. start \<le> fst p) (map_entries m))"

section \<open>Association lists\<close>

lemma map_of_upd_middle:
  "k \<notin> fst ` set xs \<Longrightarrow> map_of (xs @ (k, v) # ys) = (map_of (xs @ ys))(k \<mapsto> v)"
  by (induction xs) (auto simp: fun_eq_iff)

lemma map_of_del_middle:
  "k \<notin> fst ` set (xs @ ys) \<Longrightarrow> map_of (xs @ ys) = (map_of (xs @ (k, v) # ys))(k := None)"
proof -
  assume k: "k \<notin> fst ` set (xs @ ys)"
  then have "map_of (xs @ ys) k = None" by (simp add: map_of_eq_None_iff image_Un)
  moreover have "map_of (xs @ (k, v) # ys) = (map_of (xs @ ys))(k \<mapsto> v)"
    using k by (intro map_of_upd_middle) (simp add: image_Un)
  ultimately show ?thesis by (auto simp: fun_eq_iff)
qed

lemma map_of_sorted_parts:
  assumes "\<forall>x \<in> set X. fst x < (k :: u64)" "\<forall>y \<in> set Y. k < fst y"
  shows "map_of (X @ Y) k = None" "map_of (X @ (k, v) # Y) = (map_of (X @ Y))(k \<mapsto> v)"
    "map_of (X @ (k, v) # Y) k = Some v" "map_of (X @ Y) = (map_of (X @ (k, v) # Y))(k := None)"
    "map_of (X @ (k, v') # Y) = (map_of (X @ (k, v) # Y))(k \<mapsto> v')"
proof -
  have n: "k \<notin> fst ` set (X @ Y)" using assms by auto
  then have nX: "k \<notin> fst ` set X" by (simp add: image_Un)
  show "map_of (X @ Y) k = None" using n by (simp add: map_of_eq_None_iff image_Un)
  have u: "map_of (X @ (k, w) # Y) = (map_of (X @ Y))(k \<mapsto> w)" for w
    by (rule map_of_upd_middle [OF nX])
  show "map_of (X @ (k, v) # Y) = (map_of (X @ Y))(k \<mapsto> v)" "map_of (X @ (k, v) # Y) k = Some v"
    "map_of (X @ (k, v') # Y) = (map_of (X @ (k, v) # Y))(k \<mapsto> v')" unfolding u by simp_all
  show "map_of (X @ Y) = (map_of (X @ (k, v) # Y))(k := None)" by (rule map_of_del_middle [OF n])
qed

lemma map_of_distinct_insert:
  assumes "distinct (map fst xs)" "distinct (map fst ys)" "set ys = Set.insert (k, v) {x \<in> set xs. fst x \<noteq> k}"
  shows "map_of ys = (map_of xs)(k \<mapsto> v)"
proof
  fix a
  have "map_of ys a = Some w \<longleftrightarrow> ((map_of xs)(k \<mapsto> v)) a = Some w" for w
    using map_of_eq_Some_iff [OF assms(1), of a w] map_of_eq_Some_iff [OF assms(2), of a w] assms(3) by auto
  then show "map_of ys a = ((map_of xs)(k \<mapsto> v)) a" by (metis not_Some_eq)
qed

lemma map_of_distinct_remove:
  assumes "distinct (map fst xs)" "distinct (map fst ys)" "set ys = {x \<in> set xs. fst x \<noteq> k}"
  shows "map_of ys = (map_of xs)(k := None)"
proof
  fix a
  have "map_of ys a = Some w \<longleftrightarrow> ((map_of xs)(k := None)) a = Some w" for w
    using map_of_eq_Some_iff [OF assms(1), of a w] map_of_eq_Some_iff [OF assms(2), of a w] assms(3) by auto
  then show "map_of ys a = ((map_of xs)(k := None)) a" by (metis not_Some_eq)
qed

lemma card_dom_map_of: "distinct (map fst xs) \<Longrightarrow> card (dom (map_of xs)) = length xs"
  by (metis distinct_card dom_map_of_conv_image_fst length_map set_map)

lemma finite_dom_u64 [simp]: "finite (dom (m :: u64 \<rightharpoonup> u64))"
  by simp

lemma map_entries_map_of:
  assumes "sorted_wrt (<) (map fst xs)"
  shows "map_entries (map_of xs) = xs"
proof -
  have s: "sorted (map fst xs)" "distinct (map fst xs)" using assms strict_sorted_iff by blast+
  have "sorted_list_of_set (dom (map_of xs)) = map fst xs"
    using s by (metis dom_map_of_conv_image_fst set_map sorted_list_of_set.idem_if_sorted_distinct)
  moreover have "map (\<lambda>k. (k, the (map_of xs k))) (map fst xs) = xs"
    using s(2) by (auto intro!: map_idI)
  ultimately show ?thesis by (simp add: map_entries_def)
qed

section \<open>The contract\<close>

locale map_organ =
  fixes inv :: "'s \<Rightarrow> bool"
    and look :: "'s \<Rightarrow> u64 \<Rightarrow> u64 option"
    and ins :: "u64 \<Rightarrow> u64 \<Rightarrow> 's \<Rightarrow> 's"
    and era :: "u64 \<Rightarrow> 's \<Rightarrow> bool \<times> 's"
    and cnt :: "'s \<Rightarrow> nat"
    and clr :: "'s \<Rightarrow> 's"
  assumes insert_inv: "inv s \<Longrightarrow> inv (ins k v s)"
    and lookup_insert: "inv s \<Longrightarrow> look (ins k v s) = (look s)(k \<mapsto> v)"
    and erase_inv: "inv s \<Longrightarrow> inv (snd (era k s))"
    and lookup_erase: "inv s \<Longrightarrow> look (snd (era k s)) = (look s)(k := None)"
    and erase_result: "inv s \<Longrightarrow> fst (era k s) \<longleftrightarrow> look s k \<noteq> None"
    and count_card: "inv s \<Longrightarrow> cnt s = card (dom (look s))"
    and clear_inv: "inv s \<Longrightarrow> inv (clr s)"
    and lookup_clear: "inv s \<Longrightarrow> look (clr s) = Map.empty"
begin

text \<open>Every sequence of calls refines the abstract map.\<close>
lemma run_refines:
  "inv s \<Longrightarrow> inv (snd (map_run look ins era cnt clr ops s))
     \<and> fst (map_run look ins era cnt clr ops s) = fst (spec_map_run ops (look s))
     \<and> look (snd (map_run look ins era cnt clr ops s)) = snd (spec_map_run ops (look s))"
proof (induction ops arbitrary: s)
  case (Cons op ops)
  then show ?case
    by (cases op) (simp_all add: spec_map_run_def insert_inv lookup_insert erase_inv lookup_erase
        erase_result count_card clear_inv lookup_clear split_def
        del: fun_upd_apply)
qed (simp add: spec_map_run_def)

lemma run_inv: "inv s \<Longrightarrow> inv (snd (map_run look ins era cnt clr ops s))"
  using run_refines by blast

lemma run_outputs:
  "inv s \<Longrightarrow> look s = m \<Longrightarrow> fst (map_run look ins era cnt clr ops s) = fst (spec_map_run ops m)"
  using run_refines by blast

lemma insert_all_inv: "inv s \<Longrightarrow> inv (insert_all ins kvs s)"
  by (induction kvs arbitrary: s) (auto simp: insert_all_def insert_inv)

lemma lookup_insert_all:
  "inv s \<Longrightarrow> distinct (map fst kvs) \<Longrightarrow> look (insert_all ins kvs s) = look s ++ map_of kvs"
proof (induction kvs arbitrary: s)
  case (Cons kv kvs)
  obtain k v where kv: "kv = (k, v)" by (cases kv)
  have none: "map_of kvs k = None" using Cons.prems(2) by (simp add: kv map_of_eq_None_iff)
  have "look (insert_all ins (kv # kvs) s) = look (ins k v s) ++ map_of kvs"
    using Cons.IH [OF insert_inv [OF Cons.prems(1)], of k v] Cons.prems(2) by (simp add: insert_all_def kv)
  also have "\<dots> = look s ++ map_of (kv # kvs)"
    using none by (auto simp: lookup_insert [OF Cons.prems(1)] kv map_add_def fun_eq_iff split: option.splits)
  finally show ?case .
qed (simp add: insert_all_def)

lemma restore_map:
  assumes "inv s" "distinct (map fst kvs)"
  shows "inv (restore ins clr kvs s)" "look (restore ins clr kvs s) = map_of kvs"
  using assms insert_all_inv [OF clear_inv] lookup_insert_all [OF clear_inv] lookup_clear
  by (simp_all add: restore_def)

end

locale map_memento = map_organ inv look ins era cnt clr
  for inv :: "'s \<Rightarrow> bool" and look ins era cnt clr +
  fixes entries :: "'s \<Rightarrow> slot list"
  assumes entries_distinct: "inv s \<Longrightarrow> distinct (map fst (entries s))"
    and entries_lookup: "inv s \<Longrightarrow> map_of (entries s) = look s"
begin

text \<open>A saved state restored into any state gives back the saved map.\<close>
lemma save_restore:
  assumes "inv s" "inv s'"
  shows "look (restore ins clr (entries s) s') = look s"
  using restore_map(2) [OF assms(2) entries_distinct [OF assms(1)]] entries_lookup [OF assms(1)] by simp

lemma entries_count: "inv s \<Longrightarrow> length (entries s) = cnt s"
  using card_dom_map_of [OF entries_distinct] by (simp add: entries_lookup count_card)

end

locale map_scan = map_organ inv look ins era cnt clr
  for inv :: "'s \<Rightarrow> bool" and look ins era cnt clr +
  fixes scan :: "u64 \<Rightarrow> nat \<Rightarrow> 's \<Rightarrow> slot list"
  assumes scan_eq: "inv s \<Longrightarrow> scan start n s = scan_window start n (look s)"
begin

lemma scan_sound: "inv s \<Longrightarrow> (k, v) \<in> set (scan start n s) \<Longrightarrow> look s k = Some v \<and> start \<le> k"
  by (auto simp: scan_eq scan_window_def map_entries_def dest!: in_set_takeD)

lemma scan_sorted: "inv s \<Longrightarrow> sorted_wrt (<) (map fst (scan start n s))"
proof -
  assume i: "inv s"
  have m: "map fst (map_entries m) = sorted_list_of_set (dom m)" for m
    by (simp add: map_entries_def comp_def)
  have "sorted_wrt (<) (map fst (map_entries (look s)))"
    unfolding m by (rule strict_sorted_list_of_set)
  then show ?thesis
    by (simp add: scan_eq [OF i] scan_window_def take_map [symmetric] sorted_wrt_map sorted_wrt_filter
        sorted_wrt_take)
qed

lemma scan_complete:
  "inv s \<Longrightarrow> set (scan start (cnt s) s) = {(k, v). look s k = Some v \<and> start \<le> k}"
proof -
  assume i: "inv s"
  have "length (filter (\<lambda>p. start \<le> fst p) (map_entries (look s))) \<le> cnt s"
    by (rule le_trans [OF length_filter_le]) (simp add: map_entries_def count_card [OF i])
  then show ?thesis
    by (auto simp: scan_eq [OF i] scan_window_def map_entries_def image_iff)
qed

end

end
