(* ===== verification/Slot_Search.thy ===== *)
theory Slot_Search imports Lookup_Contract begin

text \<open>
  The slot-array organs of the lookup axis: the storage organ \<^verbatim>\<open>RawSlotStore\<close>, a vector of key/value
  pairs, and the traversal organs that work on it: \<^verbatim>\<open>LinearScanTraversal\<close> on an unordered store, and
  on a store sorted by key \<^verbatim>\<open>SortedBinaryTraversal\<close>, \<^verbatim>\<open>SortedVectorTraversal\<close>,
  \<^verbatim>\<open>GallopingTraversalOrgan\<close>, \<^verbatim>\<open>KAryTraversal\<close> and \<^verbatim>\<open>DirectAddressTraversal\<close>.  The last four share
  insertion and erasure with the binary traversal and differ in \<^verbatim>\<open>lookup_in\<close>; for them the
  interface \<open>sorted_lookup\<close> asks only that a lookup on a sorted store is the map of the store.

  The loops are recursions on their indices.  A sink is the list of the calls it receives.
\<close>

section \<open>RawSlotStore\<close>

type_synonym slot_store = "slot list"

definition slot_count :: "slot_store \<Rightarrow> nat" where
  "slot_count s = length s"

definition key_at :: "slot_store \<Rightarrow> nat \<Rightarrow> u64" where
  "key_at s i = fst (s ! i)"

definition value_at :: "slot_store \<Rightarrow> nat \<Rightarrow> u64" where
  "value_at s i = snd (s ! i)"

definition set_value_at :: "nat \<Rightarrow> u64 \<Rightarrow> slot_store \<Rightarrow> slot_store" where
  "set_value_at i v s = s[i := (fst (s ! i), v)]"

definition append_slot :: "u64 \<Rightarrow> u64 \<Rightarrow> slot_store \<Rightarrow> slot_store" where
  "append_slot k v s = s @ [(k, v)]"

definition insert_slot_at :: "nat \<Rightarrow> u64 \<Rightarrow> u64 \<Rightarrow> slot_store \<Rightarrow> slot_store" where
  "insert_slot_at i k v s = insert_at i (k, v) s"

definition erase_slot_at :: "nat \<Rightarrow> slot_store \<Rightarrow> slot_store" where
  "erase_slot_at i s = erase_at i s"

definition slots_clear :: "slot_store \<Rightarrow> slot_store" where
  "slots_clear s = []"

lemmas slot_defs = slot_count_def key_at_def value_at_def set_value_at_def append_slot_def
  insert_slot_at_def erase_slot_at_def slots_clear_def

text \<open>\<^verbatim>\<open>save_state\<close> copies the slots in order; \<^verbatim>\<open>restore_state\<close> is \<open>restore\<close> of the contract.\<close>
definition save_state :: "slot_store \<Rightarrow> slot list" where
  "save_state s = map (\<lambda>i. (key_at s i, value_at s i)) [0..<slot_count s]"

lemma save_state_id: "save_state s = s"
  unfolding save_state_def slot_defs by (intro nth_equalityI) simp_all

section \<open>LinearScanTraversal\<close>

text \<open>The index loop the three operations share: the first slot with the key.\<close>
function find_slot :: "slot_store \<Rightarrow> u64 \<Rightarrow> nat \<Rightarrow> nat option" where
  "find_slot s k i = (if i < slot_count s
     then (if key_at s i = k then Some i else find_slot s k (i + 1)) else None)"
  by pat_completeness auto
termination by (relation "measure (\<lambda>(s, k, i). slot_count s - i)") auto

declare find_slot.simps [simp del]

definition linear_insert :: "u64 \<Rightarrow> u64 \<Rightarrow> slot_store \<Rightarrow> slot_store" where
  "linear_insert k v s = (case find_slot s k 0 of
     Some i \<Rightarrow> set_value_at i v s
   | None \<Rightarrow> append_slot k v s)"

definition linear_lookup :: "slot_store \<Rightarrow> u64 \<Rightarrow> u64 option" where
  "linear_lookup s k = (case find_slot s k 0 of
     Some i \<Rightarrow> Some (value_at s i)
   | None \<Rightarrow> None)"

definition linear_erase :: "u64 \<Rightarrow> slot_store \<Rightarrow> bool \<times> slot_store" where
  "linear_erase k s = (case find_slot s k 0 of
     Some i \<Rightarrow> (True, erase_slot_at i s)
   | None \<Rightarrow> (False, s))"

text \<open>\<^verbatim>\<open>std::partial_sort\<close> up to \<open>out\<close> leaves the \<open>out\<close> smallest elements sorted in front.\<close>
definition linear_scan :: "u64 \<Rightarrow> nat \<Rightarrow> slot_store \<Rightarrow> slot list" where
  "linear_scan start max_count s =
     (if max_count = 0 then []
      else (let hits = filter (\<lambda>(k, v). start \<le> k) s;
                out = (if length hits < max_count then length hits else max_count)
            in take out (sort_key fst hits)))"

lemma find_slot_spec:
  "(case find_slot s k i of
      Some j \<Rightarrow> i \<le> j \<and> j < length s \<and> fst (s ! j) = k \<and> (\<forall>m. i \<le> m \<and> m < j \<longrightarrow> fst (s ! m) \<noteq> k)
    | None \<Rightarrow> \<forall>m. i \<le> m \<and> m < length s \<longrightarrow> fst (s ! m) \<noteq> k)"
proof (induction "length s - i" arbitrary: i rule: less_induct)
  case less
  show ?case
  proof (cases "i < length s \<and> fst (s ! i) \<noteq> k")
    case True
    then have "find_slot s k i = find_slot s k (i + 1)"
      by (simp add: find_slot.simps [of s k i] slot_defs)
    note eq = this
    have "length s - (i + 1) < length s - i" using True by auto
    note IH = less [OF this]
    show ?thesis
    proof (cases "find_slot s k (i + 1)")
      case None
      then have n: "Suc i \<le> m \<Longrightarrow> m < length s \<Longrightarrow> fst (s ! m) \<noteq> k" for m
        using IH by simp
      have "fst (s ! m) \<noteq> k" if "i \<le> m" "m < length s" for m
        using n [of m] that True by (cases "m = i") auto
      then show ?thesis using None eq by auto
    next
      case (Some j)
      then have n: "Suc i \<le> j" "j < length s" "fst (s ! j) = k"
        "Suc i \<le> m \<Longrightarrow> m < j \<Longrightarrow> fst (s ! m) \<noteq> k" for m
        using IH unfolding Some option.case by auto
      have "fst (s ! m) \<noteq> k" if "i \<le> m" "m < j" for m
        using n(4) [of m] that True by (cases "m = i") auto
      then show ?thesis using Some eq n(1-3) by auto
    qed
  next
    case False
    then show ?thesis by (auto simp: find_slot.simps [of s k i] slot_defs)
  qed
qed

text \<open>The two outcomes of the search split the store.\<close>
lemma find_slot_cases:
  obtains (found) xs v ys where "find_slot s k 0 = Some (length xs)" "s = xs @ (k, v) # ys" "k \<notin> fst ` set xs"
  | (absent) "find_slot s k 0 = None" "k \<notin> fst ` set s"
proof (cases "find_slot s k 0")
  case None
  then have "\<forall>m < length s. fst (s ! m) \<noteq> k" using find_slot_spec [where s = s and k = k and i = 0] by simp
  then have "k \<notin> fst ` set s" by (metis imageE in_set_conv_nth)
  then show ?thesis using None absent by blast
next
  case (Some j)
  then have j: "j < length s" "fst (s ! j) = k" "\<forall>m < j. fst (s ! m) \<noteq> k"
    using find_slot_spec [where s = s and k = k and i = 0] by auto
  have "s = take j s @ (k, snd (s ! j)) # drop (Suc j) s"
    using j by (metis id_take_nth_drop prod.collapse)
  moreover have "k \<notin> fst ` set (take j s)"
    using j by (metis (no_types) imageE in_set_conv_nth length_take min_less_iff_conj nth_take)
  moreover have "length (take j s) = j" using j by simp
  ultimately show ?thesis using Some found [of "take j s" "snd (s ! j)" "drop (Suc j) s"] by simp
qed

definition linear_inv :: "slot_store \<Rightarrow> bool" where
  "linear_inv s = distinct (map fst s)"

lemma linear_lookup_map: "linear_lookup s k = map_of s k"
proof (rule find_slot_cases [of s k])
  fix xs v ys assume f: "find_slot s k 0 = Some (length xs)" "s = xs @ (k, v) # ys" "k \<notin> fst ` set xs"
  then have "map_of s k = Some v" by (simp add: map_of_upd_middle del: map_of_append)
  then show ?thesis using f by (simp add: linear_lookup_def value_at_def)
next
  assume "find_slot s k 0 = None" "k \<notin> fst ` set s"
  moreover from this(2) have "map_of s k = None" by (simp add: map_of_eq_None_iff)
  ultimately show ?thesis by (simp add: linear_lookup_def)
qed

lemma linear_insert_correct:
  assumes "linear_inv s"
  shows "linear_inv (linear_insert k v s)" "map_of (linear_insert k v s) = (map_of s)(k \<mapsto> v)"
proof -
  have "linear_inv (linear_insert k v s) \<and> map_of (linear_insert k v s) = (map_of s)(k \<mapsto> v)"
  proof (rule find_slot_cases [of s k])
    fix xs w ys assume f: "find_slot s k 0 = Some (length xs)" "s = xs @ (k, w) # ys" "k \<notin> fst ` set xs"
    then have "linear_insert k v s = xs @ (k, v) # ys" by (simp add: linear_insert_def set_value_at_def)
    then show ?thesis using assms f by (simp add: linear_inv_def map_of_upd_middle del: map_of_append)
  next
    assume f: "find_slot s k 0 = None" "k \<notin> fst ` set s"
    then have "linear_insert k v s = s @ [(k, v)]" by (simp add: linear_insert_def append_slot_def)
    then show ?thesis using assms f map_of_upd_middle [of k s v "[]"] by (simp add: linear_inv_def)
  qed
  then show "linear_inv (linear_insert k v s)" "map_of (linear_insert k v s) = (map_of s)(k \<mapsto> v)" by blast+
qed

lemma linear_erase_correct:
  assumes "linear_inv s"
  shows "linear_inv (snd (linear_erase k s))" "map_of (snd (linear_erase k s)) = (map_of s)(k := None)"
    "fst (linear_erase k s) \<longleftrightarrow> map_of s k \<noteq> None"
proof -
  have "linear_inv (snd (linear_erase k s)) \<and> map_of (snd (linear_erase k s)) = (map_of s)(k := None)
    \<and> (fst (linear_erase k s) \<longleftrightarrow> map_of s k \<noteq> None)"
  proof (rule find_slot_cases [of s k])
    fix xs w ys assume f: "find_slot s k 0 = Some (length xs)" "s = xs @ (k, w) # ys" "k \<notin> fst ` set xs"
    then have e: "linear_erase k s = (True, xs @ ys)" by (simp add: linear_erase_def erase_slot_at_def erase_at_def)
    have k: "k \<notin> fst ` set (xs @ ys)" using assms f by (auto simp: linear_inv_def)
    then have "map_of (xs @ ys) = (map_of s)(k := None)" using map_of_del_middle [OF k] f by simp
    then show ?thesis using e assms f by (auto simp: linear_inv_def map_of_upd_middle simp del: map_of_append)
  next
    assume f: "find_slot s k 0 = None" "k \<notin> fst ` set s"
    then have "map_of s k = None" by (simp add: map_of_eq_None_iff)
    then show ?thesis using assms f by (auto simp: linear_erase_def fun_eq_iff)
  qed
  then show "linear_inv (snd (linear_erase k s))" "map_of (snd (linear_erase k s)) = (map_of s)(k := None)"
    "fst (linear_erase k s) \<longleftrightarrow> map_of s k \<noteq> None" by blast+
qed

lemma sort_key_fst_entries:
  assumes "distinct (map fst xs)"
  shows "sort_key fst xs = map_entries (map_of (xs :: slot list))"
proof -
  have "sorted (map fst (sort_key fst xs))" "distinct (map fst (sort_key fst xs))"
    using assms by (simp_all add: distinct_map)
  then have "sorted_wrt (<) (map fst (sort_key fst xs))" by (simp add: strict_sorted_iff)
  then have "map_entries (map_of (sort_key fst xs)) = sort_key fst xs" by (rule map_entries_map_of)
  moreover have "map_of (sort_key fst xs) = map_of xs"
    using assms by (intro map_of_inject_set [THEN iffD2]) (simp_all add: distinct_map)
  ultimately show ?thesis by simp
qed

lemma linear_scan_window:
  assumes "linear_inv s"
  shows "linear_scan start n s = scan_window start n (map_of s)"
proof -
  have "filter (\<lambda>(k, v). start \<le> k) s = filter (\<lambda>p. start \<le> fst p) s"
    by (simp add: case_prod_beta')
  moreover have "sort_key fst (filter (\<lambda>p. start \<le> fst p) s) = filter (\<lambda>p. start \<le> fst p) (sort_key fst s)"
    by (simp add: filter_sort)
  moreover have "length (filter (\<lambda>p. start \<le> fst p) (sort_key fst s)) = length (filter (\<lambda>p. start \<le> fst p) s)"
    by (simp add: filter_sort)
  ultimately show ?thesis
    using sort_key_fst_entries [of s] assms
    by (auto simp: linear_scan_def scan_window_def linear_inv_def Let_def not_less)
qed

interpretation linear: map_organ linear_inv linear_lookup linear_insert linear_erase slot_count slots_clear
proof unfold_locales
  have l: "linear_lookup s = map_of s" for s by (simp add: linear_lookup_map fun_eq_iff)
  fix s k v assume i: "linear_inv s"
  show "linear_lookup (linear_insert k v s) = (linear_lookup s)(k \<mapsto> v)"
    unfolding l by (rule linear_insert_correct(2) [OF i])
  show "linear_lookup (snd (linear_erase k s)) = (linear_lookup s)(k := None)"
    unfolding l by (rule linear_erase_correct(2) [OF i])
  show "fst (linear_erase k s) \<longleftrightarrow> linear_lookup s k \<noteq> None"
    unfolding l by (rule linear_erase_correct(3) [OF i])
  show "slot_count s = card (dom (linear_lookup s))"
    unfolding l using i by (simp add: slot_count_def linear_inv_def card_dom_map_of)
  show "linear_lookup (slots_clear s) = Map.empty" unfolding l by (simp add: slots_clear_def)
qed (simp_all add: linear_insert_correct linear_erase_correct, simp add: slots_clear_def linear_inv_def)

interpretation linear: map_memento linear_inv linear_lookup linear_insert linear_erase slot_count slots_clear save_state
  by unfold_locales (simp_all add: save_state_id linear_inv_def linear_lookup_map fun_eq_iff)

interpretation linear: map_scan linear_inv linear_lookup linear_insert linear_erase slot_count slots_clear linear_scan
proof unfold_locales
  fix s start n assume "linear_inv s"
  moreover have "linear_lookup s = map_of s" by (simp add: linear_lookup_map fun_eq_iff)
  ultimately show "linear_scan start n s = scan_window start n (linear_lookup s)"
    by (simp add: linear_scan_window)
qed

end
