(* ===== verification/Sorted_Search.thy ===== *)
theory Sorted_Search imports Slot_Search begin

text \<open>
  The traversal organs on a slot store sorted by key.  \<^verbatim>\<open>SortedBinaryTraversal\<close> provides insertion,
  erasure and the range scan; the other organs delegate these to it and bring their own
  \<^verbatim>\<open>lookup_in\<close>.  The interface \<open>sorted_lookup\<close> states what such a lookup has to satisfy, and
  is a sublocale of the map contract.
\<close>

section \<open>SortedBinaryTraversal\<close>

text \<open>The loop of \<^verbatim>\<open>lower_bound_index\<close>.\<close>
function lower_bound_loop :: "slot_store \<Rightarrow> u64 \<Rightarrow> nat \<Rightarrow> nat \<Rightarrow> nat" where
  "lower_bound_loop s k lo hi = (if lo < hi
     then (let m = lo + (hi - lo) div 2
           in if key_at s m < k then lower_bound_loop s k (m + 1) hi else lower_bound_loop s k lo m)
     else lo)"
  by pat_completeness auto
termination by (relation "measure (\<lambda>(s, k, lo, hi). hi - lo)") auto

declare lower_bound_loop.simps [simp del]

definition lower_bound_index :: "slot_store \<Rightarrow> u64 \<Rightarrow> nat" where
  "lower_bound_index s k = lower_bound_loop s k 0 (slot_count s)"

definition sorted_insert :: "u64 \<Rightarrow> u64 \<Rightarrow> slot_store \<Rightarrow> slot_store" where
  "sorted_insert k v s =
     (let i = lower_bound_index s k
      in if i < slot_count s \<and> key_at s i = k then set_value_at i v s else insert_slot_at i k v s)"

definition binary_lookup :: "slot_store \<Rightarrow> u64 \<Rightarrow> u64 option" where
  "binary_lookup s k =
     (let i = lower_bound_index s k
      in if i < slot_count s \<and> key_at s i = k then Some (value_at s i) else None)"

definition sorted_erase :: "u64 \<Rightarrow> slot_store \<Rightarrow> bool \<times> slot_store" where
  "sorted_erase k s =
     (let i = lower_bound_index s k
      in if i < slot_count s \<and> key_at s i = k then (True, erase_slot_at i s) else (False, s))"

text \<open>The walk of \<^verbatim>\<open>scan_into\<close> from index \<open>i\<close>, with the number of entries still allowed.\<close>
function scan_walk :: "slot_store \<Rightarrow> nat \<Rightarrow> nat \<Rightarrow> slot list" where
  "scan_walk s i left = (if i < slot_count s \<and> 0 < left
     then (key_at s i, value_at s i) # scan_walk s (i + 1) (left - 1) else [])"
  by pat_completeness auto
termination by (relation "measure (\<lambda>(s, i, left). left)") auto

declare scan_walk.simps [simp del]

definition sorted_scan :: "u64 \<Rightarrow> nat \<Rightarrow> slot_store \<Rightarrow> slot list" where
  "sorted_scan start max_count s = scan_walk s (lower_bound_index s start) max_count"

section \<open>Sorted stores\<close>

definition sorted_inv :: "slot_store \<Rightarrow> bool" where
  "sorted_inv s = sorted_wrt (<) (map fst s)"

lemma sorted_inv_nth: "sorted_inv s \<Longrightarrow> i < j \<Longrightarrow> j < length s \<Longrightarrow> fst (s ! i) < fst (s ! j)"
  by (simp add: sorted_inv_def sorted_wrt_iff_nth_less)

lemma sorted_inv_nth_le: "sorted_inv s \<Longrightarrow> i \<le> j \<Longrightarrow> j < length s \<Longrightarrow> fst (s ! i) \<le> fst (s ! j)"
  using sorted_inv_nth [of s i j] by (cases "i = j") (auto simp: less_imp_le)

lemma sorted_inv_distinct: "sorted_inv s \<Longrightarrow> distinct (map fst s)"
  by (simp add: sorted_inv_def strict_sorted_iff)

text \<open>A hit and a miss of a search, in terms of the map of the store.\<close>
lemma sorted_map_hit: "sorted_inv s \<Longrightarrow> i < length s \<Longrightarrow> fst (s ! i) = k \<Longrightarrow> map_of s k = Some (snd (s ! i))"
  by (metis map_of_is_SomeI nth_mem prod.collapse sorted_inv_distinct)

lemma map_miss: "(\<And>i. i < length s \<Longrightarrow> fst (s ! i) \<noteq> k) \<Longrightarrow> map_of s k = None"
  unfolding map_of_eq_None_iff by (metis imageE in_set_conv_nth)

lemma lower_bound_loop_spec:
  assumes "sorted_inv s" "lo \<le> hi" "hi \<le> length s"
    "\<And>j. j < lo \<Longrightarrow> fst (s ! j) < k" "\<And>j. hi \<le> j \<Longrightarrow> j < length s \<Longrightarrow> k \<le> fst (s ! j)"
  shows "lower_bound_loop s k lo hi \<le> length s
    \<and> (\<forall>j < lower_bound_loop s k lo hi. fst (s ! j) < k)
    \<and> (\<forall>j. lower_bound_loop s k lo hi \<le> j \<and> j < length s \<longrightarrow> k \<le> fst (s ! j))"
  using assms(2-)
proof (induction "hi - lo" arbitrary: lo hi rule: less_induct)
  case less
  show ?case
  proof (cases "lo < hi")
    case True
    define m where "m = lo + (hi - lo) div 2"
    have m: "lo \<le> m" "m < hi" "m < length s" using True less.prems(2) by (simp_all add: m_def)
    show ?thesis
    proof (cases "fst (s ! m) < k")
      case True
      have "fst (s ! j) < k" if "j < m + 1" for j
        using sorted_inv_nth_le [OF assms(1), of j m] that m True by fastforce
      then have "lower_bound_loop s k (m + 1) hi \<le> length s
          \<and> (\<forall>j < lower_bound_loop s k (m + 1) hi. fst (s ! j) < k)
          \<and> (\<forall>j. lower_bound_loop s k (m + 1) hi \<le> j \<and> j < length s \<longrightarrow> k \<le> fst (s ! j))"
        using less.prems m by (intro less.hyps) auto
      then show ?thesis using \<open>lo < hi\<close> True
        by (simp add: lower_bound_loop.simps [of s k lo hi] key_at_def m_def Let_def)
    next
      case False
      have "k \<le> fst (s ! j)" if "m \<le> j" "j < length s" for j
        using sorted_inv_nth_le [OF assms(1), of m j] that False by fastforce
      then have "lower_bound_loop s k lo m \<le> length s
          \<and> (\<forall>j < lower_bound_loop s k lo m. fst (s ! j) < k)
          \<and> (\<forall>j. lower_bound_loop s k lo m \<le> j \<and> j < length s \<longrightarrow> k \<le> fst (s ! j))"
        using less.prems m by (intro less.hyps) auto
      then show ?thesis using \<open>lo < hi\<close> False
        by (simp add: lower_bound_loop.simps [of s k lo hi] key_at_def m_def Let_def)
    qed
  next
    case False
    then have "lo = hi" using less.prems by simp
    then show ?thesis using less.prems by (simp add: lower_bound_loop.simps [of s k hi hi])
  qed
qed

lemma lower_bound_spec:
  assumes "sorted_inv s"
  shows "lower_bound_index s k \<le> length s"
    "j < lower_bound_index s k \<Longrightarrow> fst (s ! j) < k"
    "lower_bound_index s k \<le> j \<Longrightarrow> j < length s \<Longrightarrow> k \<le> fst (s ! j)"
  using lower_bound_loop_spec [OF assms, where lo = 0 and hi = "length s" and k = k] by (auto simp: lower_bound_index_def slot_count_def)

text \<open>The lower bound splits a sorted store into smaller keys, the key if present, and larger keys.\<close>
lemma lower_bound_cases:
  assumes "sorted_inv s"
  obtains (found) xs v ys where "s = xs @ (k, v) # ys" "lower_bound_index s k = length xs"
      "\<And>p. p \<in> set xs \<Longrightarrow> fst p < k" "\<And>p. p \<in> set ys \<Longrightarrow> k < fst p"
  | (absent) xs ys where "s = xs @ ys" "lower_bound_index s k = length xs"
      "\<And>p. p \<in> set xs \<Longrightarrow> fst p < k" "\<And>p. p \<in> set ys \<Longrightarrow> k < fst p"
proof -
  define i where "i = lower_bound_index s k"
  have i: "i \<le> length s" "\<And>j. j < i \<Longrightarrow> fst (s ! j) < k" "\<And>j. i \<le> j \<Longrightarrow> j < length s \<Longrightarrow> k \<le> fst (s ! j)"
    using lower_bound_spec [OF assms, where k = k] by (simp_all add: i_def)
  have left: "fst p < k" if "p \<in> set (take i s)" for p
    using that i(1,2) by (auto simp: in_set_conv_nth)
  show ?thesis
  proof (cases "i < length s \<and> fst (s ! i) = k")
    case True
    have right: "k < fst p" if p: "p \<in> set (drop (Suc i) s)" for p
    proof -
      obtain j where "j < length s - Suc i" "p = s ! (Suc i + j)"
        using p by (auto simp: in_set_conv_nth)
      then show ?thesis using sorted_inv_nth [OF assms, of i "Suc i + j"] True by simp
    qed
    have "s = take i s @ (k, snd (s ! i)) # drop (Suc i) s"
      using True by (metis id_take_nth_drop prod.collapse)
    then show ?thesis
      using found [of "take i s" "snd (s ! i)" "drop (Suc i) s"] left right i(1) by (simp add: i_def [symmetric])
  next
    case False
    have right: "k < fst p" if p: "p \<in> set (drop i s)" for p
    proof -
      obtain j where j: "j < length s - i" "p = s ! (i + j)"
        using p by (auto simp: in_set_conv_nth)
      then have "i < length s" by simp
      then have "fst (s ! i) \<noteq> k" "k \<le> fst (s ! i)" using False i(3) [of i] by auto
      then show ?thesis using sorted_inv_nth_le [OF assms, of i "i + j"] j by fastforce
    qed
    show ?thesis using absent [of "take i s" "drop i s"] left right i(1) by (simp add: i_def [symmetric])
  qed
qed

lemma sorted_inv_append:
  "sorted_inv (xs @ ys) \<longleftrightarrow> sorted_inv xs \<and> sorted_inv ys \<and> (\<forall>p\<in>set xs. \<forall>q\<in>set ys. fst p < fst q)"
  by (auto simp: sorted_inv_def sorted_wrt_append)

lemma sorted_inv_Cons: "sorted_inv (x # xs) \<longleftrightarrow> (\<forall>p\<in>set xs. fst x < fst p) \<and> sorted_inv xs"
  by (auto simp: sorted_inv_def)

lemma binary_lookup_map:
  assumes "sorted_inv s"
  shows "binary_lookup s k = map_of s k"
  using assms
proof (cases rule: lower_bound_cases [of s k])
  case (found xs v ys)
  then have "k \<notin> fst ` set xs" by fastforce
  then show ?thesis using found
    by (simp add: binary_lookup_def slot_defs map_of_upd_middle del: map_of_append)
next
  case (absent xs ys)
  then have "map_of s k = None" by (fastforce simp: map_of_eq_None_iff)
  moreover have "\<not> (length xs < length s \<and> fst (s ! length xs) = k)"
    using absent by (cases ys) auto
  ultimately show ?thesis unfolding binary_lookup_def slot_defs Let_def absent(2) by auto
qed

lemma sorted_insert_correct:
  assumes "sorted_inv s"
  shows "sorted_inv (sorted_insert k v s) \<and> map_of (sorted_insert k v s) = (map_of s)(k \<mapsto> v)"
  using assms
proof (cases rule: lower_bound_cases [of s k])
  case (found xs w ys)
  then have "sorted_insert k v s = xs @ (k, v) # ys" by (simp add: sorted_insert_def slot_defs)
  moreover have "k \<notin> fst ` set xs" using found by fastforce
  ultimately show ?thesis using assms found(1)
    by (auto simp: sorted_inv_append sorted_inv_Cons map_of_upd_middle simp del: map_of_append)
next
  case (absent xs ys)
  have "\<not> (length xs < length s \<and> fst (s ! length xs) = k)" using absent by (cases ys) auto
  then have "sorted_insert k v s = xs @ (k, v) # ys"
    unfolding sorted_insert_def slot_defs Let_def absent(2) using absent(1) by (auto simp: insert_at_def)
  moreover have "k \<notin> fst ` set xs" using absent by fastforce
  ultimately show ?thesis using assms absent
    by (auto simp: sorted_inv_append sorted_inv_Cons map_of_upd_middle simp del: map_of_append)
qed

lemma sorted_erase_correct:
  assumes "sorted_inv s"
  shows "sorted_inv (snd (sorted_erase k s)) \<and> map_of (snd (sorted_erase k s)) = (map_of s)(k := None)
    \<and> (fst (sorted_erase k s) \<longleftrightarrow> map_of s k \<noteq> None)"
  using assms
proof (cases rule: lower_bound_cases [of s k])
  case (found xs w ys)
  then have e: "sorted_erase k s = (True, xs @ ys)" by (simp add: sorted_erase_def slot_defs erase_at_def)
  have k: "k \<notin> fst ` set (xs @ ys)" using found by fastforce
  then have "map_of (xs @ ys) = (map_of s)(k := None)" using map_of_del_middle [OF k] found(1) by simp
  moreover have "map_of s k \<noteq> None" unfolding found(1) map_of_eq_None_iff by simp
  ultimately show ?thesis using e assms found(1) by (auto simp: sorted_inv_append sorted_inv_Cons)
next
  case (absent xs ys)
  then have m: "map_of s k = None" by (fastforce simp: map_of_eq_None_iff)
  have "\<not> (length xs < length s \<and> fst (s ! length xs) = k)" using absent by (cases ys) auto
  then have "sorted_erase k s = (False, s)" unfolding sorted_erase_def slot_defs Let_def absent(2) by auto
  then show ?thesis using m assms by (auto simp: fun_eq_iff)
qed

lemma scan_walk_take: "i \<le> length s \<Longrightarrow> scan_walk s i left = take left (drop i s)"
proof (induction left arbitrary: i)
  case 0
  then show ?case by (simp add: scan_walk.simps)
next
  case (Suc left)
  show ?case
  proof (cases "i < length s")
    case True
    then show ?thesis using Suc.IH [of "i + 1"] Suc.prems
      by (simp add: scan_walk.simps [of s i] slot_defs Cons_nth_drop_Suc [symmetric])
  qed (simp add: scan_walk.simps [of s i] slot_defs)
qed

lemma sorted_scan_window:
  assumes "sorted_inv s"
  shows "sorted_scan start n s = scan_window start n (map_of s)"
proof -
  define i where "i = lower_bound_index s start"
  note lb = lower_bound_spec [OF assms, where k = start, folded i_def]
  have "fst p < start" if "p \<in> set (take i s)" for p
    using that lb(1,2) by (auto simp: in_set_conv_nth simp del: fst_conv)
  then have "filter (\<lambda>p. start \<le> fst p) (take i s) = []"
    by (auto simp: filter_empty_conv not_le)
  moreover have "start \<le> fst p" if "p \<in> set (drop i s)" for p
    using that lb(1,3) by (auto simp: in_set_conv_nth simp del: fst_conv)
  then have "filter (\<lambda>p. start \<le> fst p) (drop i s) = drop i s"
    by (auto simp: filter_id_conv)
  ultimately have "filter (\<lambda>p. start \<le> fst p) s = drop i s"
    by (metis append_Nil append_take_drop_id filter_append)
  then show ?thesis
    using assms map_entries_map_of [of s] lb(1) scan_walk_take [OF lb(1)]
    by (simp add: sorted_scan_def scan_window_def sorted_inv_def i_def [symmetric])
qed

section \<open>The interface of a lookup on a sorted store\<close>

locale sorted_lookup =
  fixes look :: "slot_store \<Rightarrow> u64 \<Rightarrow> u64 option"
  assumes look_map: "sorted_inv s \<Longrightarrow> look s k = map_of s k"
begin

lemma look_eq: "sorted_inv s \<Longrightarrow> look s = map_of s"
  by (simp add: look_map fun_eq_iff)

end

sublocale sorted_lookup \<subseteq> map_memento sorted_inv look sorted_insert sorted_erase slot_count slots_clear save_state
proof unfold_locales
  fix s k v assume i: "sorted_inv s"
  note ins = sorted_insert_correct [OF i, of k v] and era = sorted_erase_correct [OF i, of k]
  show "sorted_inv (sorted_insert k v s)" using ins by blast
  then show "look (sorted_insert k v s) = (look s)(k \<mapsto> v)" using ins i by (simp add: look_eq)
  show e: "sorted_inv (snd (sorted_erase k s))" using era by blast
  show "look (snd (sorted_erase k s)) = (look s)(k := None)" using era i e by (simp add: look_eq)
  show "fst (sorted_erase k s) \<longleftrightarrow> look s k \<noteq> None" using era i by (simp add: look_eq)
  show "slot_count s = card (dom (look s))"
    using i by (simp add: look_eq slot_count_def card_dom_map_of sorted_inv_distinct)
  show c: "sorted_inv (slots_clear s)" by (simp add: slots_clear_def sorted_inv_def)
  show "look (slots_clear s) = Map.empty" unfolding look_eq [OF c] by (simp add: slots_clear_def)
  show "distinct (map fst (save_state s))" using i by (simp add: save_state_id sorted_inv_distinct)
  show "map_of (save_state s) = look s" using i by (simp add: save_state_id look_eq)
qed

sublocale sorted_lookup \<subseteq> map_scan sorted_inv look sorted_insert sorted_erase slot_count slots_clear sorted_scan
  by unfold_locales (simp add: sorted_scan_window look_eq)

interpretation binary: sorted_lookup binary_lookup
  by unfold_locales (rule binary_lookup_map)

section \<open>SortedVectorTraversal\<close>

definition vector_lookup :: "slot_store \<Rightarrow> u64 \<Rightarrow> u64 option" where
  "vector_lookup s k =
     (let i = lower_bound_index s k
      in if i < slot_count s \<and> key_at s i = k then Some (value_at s i) else None)"

interpretation vector: sorted_lookup vector_lookup
  by unfold_locales (simp add: vector_lookup_def binary_lookup_def [symmetric] binary_lookup_map)

section \<open>GallopingTraversalOrgan\<close>

text \<open>The doubling loop; the code starts it at \<open>bound = 1\<close>, the guard \<open>0 < bound\<close> is for totality.\<close>
function gallop :: "slot_store \<Rightarrow> u64 \<Rightarrow> nat \<Rightarrow> nat \<Rightarrow> nat \<times> nat" where
  "gallop s k lo bound = (if bound < slot_count s \<and> key_at s bound < k \<and> 0 < bound
     then gallop s k bound (bound * 2) else (lo, bound))"
  by pat_completeness auto
termination by (relation "measure (\<lambda>(s, k, lo, bound). slot_count s - bound)") auto

declare gallop.simps [simp del]

text \<open>The binary refinement in the inclusive window.\<close>
function gallop_refine :: "slot_store \<Rightarrow> u64 \<Rightarrow> nat \<Rightarrow> nat \<Rightarrow> u64 option" where
  "gallop_refine s k lo hi = (if lo \<le> hi
     then (let m = lo + (hi - lo) div 2
           in if key_at s m = k then Some (value_at s m)
              else if key_at s m < k
                   then (if m = hi then None else gallop_refine s k (m + 1) hi)
                   else (if m = 0 then None else gallop_refine s k lo (m - 1)))
     else None)"
  by pat_completeness auto
termination by (relation "measure (\<lambda>(s, k, lo, hi). Suc hi - lo)") auto

declare gallop_refine.simps [simp del]

definition galloping_lookup :: "slot_store \<Rightarrow> u64 \<Rightarrow> u64 option" where
  "galloping_lookup s k =
     (if slot_count s = 0 then None
      else (case gallop s k 0 1 of
        (lo, bound) \<Rightarrow> gallop_refine s k lo (if bound < slot_count s then bound else slot_count s - 1)))"

text \<open>The window of a refinement: keys left of it are smaller, keys right of it larger.\<close>
definition window :: "slot_store \<Rightarrow> u64 \<Rightarrow> nat \<Rightarrow> nat \<Rightarrow> bool" where
  "window s k lo hi \<longleftrightarrow> (\<forall>j < lo. j < length s \<longrightarrow> fst (s ! j) < k) \<and> (\<forall>j. hi \<le> j \<and> j < length s \<longrightarrow> k < fst (s ! j))"

lemma window_left:
  assumes "sorted_inv s" "window s k lo hi" "m < length s" "fst (s ! m) < k"
  shows "window s k (Suc m) hi"
proof -
  have "fst (s ! j) < k" if "j < Suc m" for j
    using sorted_inv_nth_le [OF assms(1), of j m] that assms(3,4) by fastforce
  then show ?thesis using assms(2) by (simp add: window_def)
qed

lemma window_right:
  assumes "sorted_inv s" "window s k lo hi" "m < length s" "k < fst (s ! m)"
  shows "window s k lo m"
proof -
  have "k < fst (s ! j)" if "m \<le> j" "j < length s" for j
    using sorted_inv_nth_le [OF assms(1), of m j] that assms(4) by fastforce
  then show ?thesis using assms(2) by (simp add: window_def)
qed

lemma window_empty:
  assumes "window s k lo hi" "hi \<le> lo"
  shows "map_of s k = None"
proof (rule map_miss)
  fix i assume "i < length s"
  moreover have "i < lo \<or> hi \<le> i" using assms(2) by linarith
  ultimately show "fst (s ! i) \<noteq> k" using assms(1) by (auto simp: window_def)
qed

lemma window_full: "window s k 0 (length s)"
  by (auto simp: window_def)

lemma gallop_refine_map:
  assumes "sorted_inv s"
  shows "hi < length s \<Longrightarrow> window s k lo (Suc hi) \<Longrightarrow> gallop_refine s k lo hi = map_of s k"
proof (induction "Suc hi - lo" arbitrary: lo hi rule: less_induct)
  case less
  show ?case
  proof (cases "lo \<le> hi")
    case True
    define m where "m = lo + (hi - lo) div 2"
    have m: "lo \<le> m" "m \<le> hi" "m < length s" using True less.prems(1) by (simp_all add: m_def)
    note unfold = gallop_refine.simps [of s k lo hi] True m_def [symmetric] Let_def slot_defs
    consider "fst (s ! m) = k" | "fst (s ! m) < k" | "k < fst (s ! m)" by fastforce
    then show ?thesis
    proof cases
      case 1
      then show ?thesis using sorted_map_hit [OF assms m(3) 1] by (simp add: unfold)
    next
      case 2
      note w = window_left [OF assms less.prems(2) m(3) 2]
      show ?thesis
      proof (cases "m = hi")
        case True
        then show ?thesis using 2 window_empty [OF w] by (simp add: unfold)
      next
        case False
        then show ?thesis using 2 less.hyps [of hi "Suc m"] w m less.prems(1) by (auto simp: unfold)
      qed
    next
      case 3
      note w = window_right [OF assms less.prems(2) m(3) 3]
      show ?thesis
      proof (cases m)
        case 0
        then show ?thesis using 3 window_empty [OF w] by (auto simp: unfold)
      next
        case (Suc m')
        then show ?thesis using 3 less.hyps [of m' lo] w m by (auto simp: unfold)
      qed
    qed
  next
    case False
    then show ?thesis using window_empty [OF less.prems(2)] by (simp add: gallop_refine.simps [of s k lo hi])
  qed
qed

lemma gallop_window:
  assumes "sorted_inv s" "0 < bound" "\<forall>j < lo. j < length s \<longrightarrow> fst (s ! j) < k"
  shows "case gallop s k lo bound of (lo', bound') \<Rightarrow>
    (\<forall>j < lo'. j < length s \<longrightarrow> fst (s ! j) < k) \<and> (bound' < length s \<longrightarrow> k \<le> fst (s ! bound'))"
  using assms(2,3)
proof (induction "slot_count s - bound" arbitrary: lo bound rule: less_induct)
  case less
  show ?case
  proof (cases "bound < length s \<and> fst (s ! bound) < k")
    case True
    have "fst (s ! j) < k" if "j < bound" "j < length s" for j
      using sorted_inv_nth [OF assms(1) that(1)] True by fastforce
    moreover have "slot_count s - bound * 2 < slot_count s - bound"
      using True less.prems(1) by (auto simp: slot_defs)
    ultimately show ?thesis using less.hyps [of "bound * 2" bound] less.prems(1) True
      by (simp add: gallop.simps [of s k lo bound] slot_defs)
  next
    case False
    then show ?thesis using less.prems by (auto simp: gallop.simps [of s k lo bound] slot_defs)
  qed
qed

lemma galloping_lookup_map:
  assumes "sorted_inv s"
  shows "galloping_lookup s k = map_of s k"
proof (cases "s = []")
  case False
  obtain lo bound where g: "gallop s k 0 1 = (lo, bound)" by fastforce
  define hi where "hi = (if bound < length s then bound else length s - 1)"
  have w: "\<forall>j < lo. j < length s \<longrightarrow> fst (s ! j) < k" "bound < length s \<longrightarrow> k \<le> fst (s ! bound)"
    using gallop_window [OF assms, of 1 0 k] g by simp_all
  have "k < fst (s ! j)" if "Suc hi \<le> j" "j < length s" for j
    using that w(2) sorted_inv_nth [OF assms, of hi j] by (auto simp: hi_def split: if_splits)
  then have "gallop_refine s k lo hi = map_of s k"
    using w(1) False by (intro gallop_refine_map [OF assms]) (auto simp: window_def hi_def)
  then show ?thesis using False g unfolding hi_def by (simp add: galloping_lookup_def slot_count_def split: if_splits)
qed (simp add: galloping_lookup_def slot_defs)

interpretation galloping: sorted_lookup galloping_lookup
  by unfold_locales (rule galloping_lookup_map)

section \<open>KAryTraversal\<close>

text \<open>
  The separators of one round: the loop over \<open>j\<close>.  A hit returns (\<open>Inl\<close>), otherwise the round ends
  with the narrowed interval.
\<close>
function kary_separators :: "slot_store \<Rightarrow> u64 \<Rightarrow> nat \<Rightarrow> nat \<Rightarrow> nat \<Rightarrow> nat \<Rightarrow> nat \<Rightarrow> u64 + (nat \<times> nat)" where
  "kary_separators s k arity lo hi j new_lo = (if j \<le> arity
     then (let pos = lo + ((hi - lo) * j) div (arity + 1)
           in if key_at s pos = k then Inl (value_at s pos)
              else if k < key_at s pos then Inr (new_lo, pos)
              else kary_separators s k arity lo hi (j + 1) (pos + 1))
     else Inr (new_lo, hi))"
  by pat_completeness auto
termination by (relation "measure (\<lambda>(s, k, arity, lo, hi, j, new_lo). Suc arity - j)") auto

declare kary_separators.simps [simp del]

text \<open>A separator lies in the interval, so that every round shrinks it.\<close>
lemma kary_pos:
  fixes lo hi j arity :: nat
  assumes "lo < hi" "j \<le> arity"
  shows "lo + ((hi - lo) * j) div (arity + 1) < hi"
proof -
  have "(hi - lo) * j < (hi - lo) * (arity + 1)" 
    by (rule mult_less_mono2) (use assms in simp_all)
  then have "((hi - lo) * j) div (arity + 1) < hi - lo" by (simp add: div_less_iff_less_mult)
  then show ?thesis using assms(1) by simp
qed

lemma kary_separators_shrink:
  assumes "kary_separators s k arity lo hi j new_lo = Inr (lo', hi')" "lo < hi" "lo \<le> new_lo"
  shows "lo \<le> lo' \<and> hi' \<le> hi \<and> (hi' < hi \<or> lo < lo' \<or> arity < j \<and> lo' = new_lo)"
  using assms
proof (induction "Suc arity - j" arbitrary: j new_lo rule: less_induct)
  case less
  define pos where "pos = lo + ((hi - lo) * j) div (arity + 1)"
  have unfold: "kary_separators s k arity lo hi j new_lo = (if j \<le> arity
      then (if key_at s pos = k then Inl (value_at s pos)
            else if k < key_at s pos then Inr (new_lo, pos)
            else kary_separators s k arity lo hi (j + 1) (pos + 1))
      else Inr (new_lo, hi))"
    unfolding kary_separators.simps [of s k arity lo hi j new_lo] pos_def Let_def by (rule refl)
  show ?case
  proof (cases "j \<le> arity")
    case True
    have pos: "pos < hi" "lo \<le> pos" using kary_pos [OF less.prems(2) True] by (simp_all add: pos_def)
    show ?thesis
    proof (cases "key_at s pos = k \<or> k < key_at s pos")
      case True
      then show ?thesis using less.prems \<open>j \<le> arity\<close> pos by (auto simp: unfold split: if_splits)
    next
      case False
      then have "kary_separators s k arity lo hi (j + 1) (pos + 1) = Inr (lo', hi')"
        using less.prems(1) True by (simp add: unfold)
      then show ?thesis using less.hyps [of "j + 1" "pos + 1"] less.prems(2) True pos by auto
    qed
  next
    case False
    then show ?thesis using less.prems by (auto simp: unfold)
  qed
qed

text \<open>
  The outer loop.  The code asserts \<open>2 \<le> arity\<close> at compile time; with arity 0 its loop would not
  shrink the interval, which the guard excludes.
\<close>
function kary_narrow :: "slot_store \<Rightarrow> u64 \<Rightarrow> nat \<Rightarrow> nat \<Rightarrow> nat \<Rightarrow> u64 + (nat \<times> nat)" where
  "kary_narrow s k arity lo hi = (if arity < hi - lo \<and> 0 < arity
     then (case kary_separators s k arity lo hi 1 lo of
         Inl v \<Rightarrow> Inl v
       | Inr (lo', hi') \<Rightarrow> kary_narrow s k arity lo' hi')
     else Inr (lo, hi))"
  by pat_completeness auto
termination
proof (relation "measure (\<lambda>(s, k, arity, lo, hi). hi - lo)")
  fix s k arity lo hi p lo' hi'
  assume a: "arity < hi - lo \<and> 0 < arity" "kary_separators s k arity lo hi 1 lo = Inr p" "(lo', hi') = p"
  then have "lo \<le> lo' \<and> hi' \<le> hi \<and> (hi' < hi \<or> lo < lo' \<or> arity < 1 \<and> lo' = lo)"
    by (intro kary_separators_shrink [of s k]) auto
  then show "((s, k, arity, lo', hi'), (s, k, arity, lo, hi)) \<in> measure (\<lambda>(s, k, arity, lo, hi). hi - lo)"
    using a(1) by auto
qed simp

declare kary_narrow.simps [simp del]

text \<open>The linear scan of the remaining segment.\<close>
function kary_rest :: "slot_store \<Rightarrow> u64 \<Rightarrow> nat \<Rightarrow> nat \<Rightarrow> u64 option" where
  "kary_rest s k i hi = (if i < hi
     then (if key_at s i = k then Some (value_at s i) else kary_rest s k (i + 1) hi) else None)"
  by pat_completeness auto
termination by (relation "measure (\<lambda>(s, k, i, hi). hi - i)") auto

declare kary_rest.simps [simp del]

definition kary_lookup :: "nat \<Rightarrow> slot_store \<Rightarrow> u64 \<Rightarrow> u64 option" where
  "kary_lookup arity s k = (case kary_narrow s k arity 0 (slot_count s) of
     Inl v \<Rightarrow> Some v
   | Inr (lo, hi) \<Rightarrow> kary_rest s k lo hi)"

lemma kary_rest_none: "(\<And>j. i \<le> j \<Longrightarrow> j < hi \<Longrightarrow> fst (s ! j) \<noteq> k) \<Longrightarrow> kary_rest s k i hi = None"
proof (induction "hi - i" arbitrary: i rule: less_induct)
  case less
  then show ?case by (cases "i < hi") (auto simp: kary_rest.simps [of s k i hi] slot_defs)
qed

lemma kary_rest_map:
  assumes "sorted_inv s"
  shows "hi \<le> length s \<Longrightarrow> window s k lo hi \<Longrightarrow> kary_rest s k lo hi = map_of s k"
proof (induction "hi - lo" arbitrary: lo rule: less_induct)
  case less
  show ?case
  proof (cases "lo < hi")
    case True
    then have l: "lo < length s" using less.prems(1) by simp
    note unfold = kary_rest.simps [of s k lo hi] slot_defs
    consider "fst (s ! lo) = k" | "fst (s ! lo) < k" | "k < fst (s ! lo)" by fastforce
    then show ?thesis
    proof cases
      case 1
      then show ?thesis using sorted_map_hit [OF assms l] True by (simp add: unfold)
    next
      case 2
      then show ?thesis using window_left [OF assms less.prems(2) l] less.hyps [of "Suc lo"] True less.prems(1)
        by (auto simp: unfold)
    next
      case 3
      note w = window_right [OF assms less.prems(2) l 3]
      have "fst (s ! j) \<noteq> k" if "lo \<le> j" "j < hi" for j
        using w that less.prems(1) by (auto simp: window_def)
      then show ?thesis using window_empty [OF w] by (simp add: kary_rest_none)
    qed
  next
    case False
    then show ?thesis using window_empty [OF less.prems(2)] by (simp add: kary_rest.simps [of s k lo hi])
  qed
qed

text \<open>The rounds keep the window around the key, and a hit is the value of the key.\<close>
lemma kary_separators_window:
  assumes "sorted_inv s" "lo < hi" "hi \<le> length s" "window s k new_lo hi"
  shows "case kary_separators s k arity lo hi j new_lo of
      Inl v \<Rightarrow> map_of s k = Some v
    | Inr (lo', hi') \<Rightarrow> hi' \<le> length s \<and> window s k lo' hi'"
  using assms(4)
proof (induction "Suc arity - j" arbitrary: j new_lo rule: less_induct)
  case less
  define pos where "pos = lo + ((hi - lo) * j) div (arity + 1)"
  have unfold: "kary_separators s k arity lo hi j new_lo = (if j \<le> arity
      then (if key_at s pos = k then Inl (value_at s pos)
            else if k < key_at s pos then Inr (new_lo, pos)
            else kary_separators s k arity lo hi (j + 1) (pos + 1))
      else Inr (new_lo, hi))"
    unfolding kary_separators.simps [of s k arity lo hi j new_lo] pos_def Let_def by (rule refl)
  show ?case
  proof (cases "j \<le> arity")
    case True
    have pos: "pos < length s" using kary_pos [OF assms(2) True] assms(3) by (simp add: pos_def)
    consider "fst (s ! pos) = k" | "fst (s ! pos) < k" | "k < fst (s ! pos)" by fastforce
    then show ?thesis
    proof cases
      case 1
      then show ?thesis using sorted_map_hit [OF assms(1) pos 1] True by (simp add: unfold slot_defs)
    next
      case 2
      have "window s k (pos + 1) hi" using window_left [OF assms(1) less.prems pos 2] by simp
      moreover have "kary_separators s k arity lo hi j new_lo = kary_separators s k arity lo hi (j + 1) (pos + 1)"
        using True 2 by (auto simp: unfold slot_defs)
      ultimately show ?thesis using less.hyps [of "j + 1" "pos + 1"] True by simp
    next
      case 3
      then show ?thesis using window_right [OF assms(1) less.prems pos 3] True pos
        by (auto simp: unfold slot_defs)
    qed
  next
    case False
    then show ?thesis using less.prems assms(3) by (simp add: unfold)
  qed
qed

lemma kary_narrow_window:
  assumes "sorted_inv s"
  shows "hi \<le> length s \<Longrightarrow> window s k lo hi \<Longrightarrow> case kary_narrow s k arity lo hi of
      Inl v \<Rightarrow> map_of s k = Some v
    | Inr (lo', hi') \<Rightarrow> hi' \<le> length s \<and> window s k lo' hi'"
proof (induction "hi - lo" arbitrary: lo hi rule: less_induct)
  case less
  show ?case
  proof (cases "arity < hi - lo \<and> 0 < arity")
    case True
    then have l: "lo < hi" by auto
    note w = kary_separators_window [OF assms l less.prems, of arity 1]
    show ?thesis
    proof (cases "kary_separators s k arity lo hi 1 lo")
      case (Inl v)
      then show ?thesis using w True by (simp add: kary_narrow.simps [of s k arity lo hi])
    next
      case (Inr p)
      obtain lo' hi' where p: "p = (lo', hi')" by fastforce
      have "hi' - lo' < hi - lo" using kary_separators_shrink [OF Inr [unfolded p] l] True by auto
      then show ?thesis using less.hyps [of hi' lo'] w True Inr p
        by (simp add: kary_narrow.simps [of s k arity lo hi])
    qed
  next
    case False
    then show ?thesis using less.prems by (auto simp: kary_narrow.simps [of s k arity lo hi])
  qed
qed

lemma kary_lookup_map:
  assumes "sorted_inv s"
  shows "kary_lookup arity s k = map_of s k"
  using kary_narrow_window [OF assms _ window_full, of k arity] kary_rest_map [OF assms]
  by (auto simp: kary_lookup_def slot_defs split: sum.splits)

interpretation kary: sorted_lookup "kary_lookup arity"
  by unfold_locales (rule kary_lookup_map)

section \<open>DirectAddressTraversal\<close>

text \<open>The correction to the right of the estimate.\<close>
function direct_right :: "slot_store \<Rightarrow> u64 \<Rightarrow> nat \<Rightarrow> u64 option" where
  "direct_right s k i = (if i < slot_count s
     then (if key_at s i = k then Some (value_at s i)
           else if k < key_at s i then None
           else direct_right s k (i + 1))
     else None)"
  by pat_completeness auto
termination by (relation "measure (\<lambda>(s, k, i). slot_count s - i)") auto

declare direct_right.simps [simp del]

text \<open>The walk to the left of the estimate.\<close>
primrec direct_left :: "slot_store \<Rightarrow> u64 \<Rightarrow> nat \<Rightarrow> nat" where
  "direct_left s k 0 = 0"
| "direct_left s k (Suc i) = (if k \<le> key_at s i then direct_left s k i else Suc i)"

definition direct_lookup :: "slot_store \<Rightarrow> u64 \<Rightarrow> u64 option" where
  "direct_lookup s k =
     (if slot_count s = 0 then None
      else if k < key_at s 0 then None
      else (let offset = k - key_at s 0;
                direct = (if slot_count s \<le> unat offset then slot_count s - 1 else unat offset)
            in if key_at s direct = k then Some (value_at s direct)
               else if key_at s direct < k then direct_right s k (direct + 1)
               else (let i = direct_left s k direct
                     in if key_at s i = k then Some (value_at s i) else None)))"

lemma direct_right_map:
  assumes "sorted_inv s"
  shows "window s k i (length s) \<Longrightarrow> direct_right s k i = map_of s k"
proof (induction "length s - i" arbitrary: i rule: less_induct)
  case less
  show ?case
  proof (cases "i < length s")
    case True
    consider "fst (s ! i) = k" | "fst (s ! i) < k" | "k < fst (s ! i)" by fastforce
    then show ?thesis
    proof cases
      case 1
      then show ?thesis using sorted_map_hit [OF assms True] True by (simp add: direct_right.simps [of s k i] slot_defs)
    next
      case 2
      then show ?thesis using window_left [OF assms less.prems True] less.hyps [of "Suc i"] True
        by (auto simp: direct_right.simps [of s k i] slot_defs)
    next
      case 3
      then show ?thesis using window_empty [OF window_right [OF assms less.prems True]] True
        by (auto simp: direct_right.simps [of s k i] slot_defs)
    qed
  next
    case False
    then show ?thesis using window_empty [OF less.prems] by (simp add: direct_right.simps [of s k i] slot_defs)
  qed
qed

lemma direct_left_spec:
  "k \<le> fst (s ! i) \<Longrightarrow> k \<le> fst (s ! direct_left s k i) \<and> direct_left s k i \<le> i
     \<and> (0 < direct_left s k i \<longrightarrow> fst (s ! (direct_left s k i - 1)) < k)"
  by (induction i) (auto simp: key_at_def not_le le_Suc_eq)

lemma direct_lookup_map:
  assumes "sorted_inv s"
  shows "direct_lookup s k = map_of s k"
proof (cases "s = [] \<or> k < fst (s ! 0)")
  case True
  then have "window s k 0 0" using sorted_inv_nth_le [OF assms, of 0] by (fastforce simp: window_def)
  then show ?thesis using window_empty True by (auto simp: direct_lookup_def slot_defs)
next
  case False
  define d where "d = (if length s \<le> unat (k - fst (s ! 0)) then length s - 1 else unat (k - fst (s ! 0)))"
  have d: "d < length s" using False by (auto simp: d_def)
  have eq: "direct_lookup s k = (if fst (s ! d) = k then Some (snd (s ! d))
      else if fst (s ! d) < k then direct_right s k (d + 1)
      else if fst (s ! direct_left s k d) = k then Some (snd (s ! direct_left s k d)) else None)"
    using False unfolding direct_lookup_def slot_defs Let_def d_def [symmetric] by auto
  consider "fst (s ! d) = k" | "fst (s ! d) < k" | "k < fst (s ! d)" by fastforce
  then show ?thesis
  proof cases
    case 1
    then show ?thesis using eq sorted_map_hit [OF assms d] by simp
  next
    case 2
    have "window s k (d + 1) (length s)"
      using window_left [OF assms window_full d 2] by simp
    then show ?thesis using eq direct_right_map [OF assms] 2 by auto
  next
    case 3
    define i where "i = direct_left s k d"
    have i: "k \<le> fst (s ! i)" "i \<le> d" "0 < i \<longrightarrow> fst (s ! (i - 1)) < k"
      using direct_left_spec [of k s d] 3 by (auto simp: i_def)
    then have l: "i < length s" using d by simp
    show ?thesis
    proof (cases "fst (s ! i) = k")
      case True
      then show ?thesis using eq sorted_map_hit [OF assms l True] 3 by (auto simp: i_def)
    next
      case False
      then have "window s k 0 i" using window_right [OF assms window_full l] i(1) by simp
      moreover have "window s k i (length s)"
        using window_left [OF assms window_full, of "i - 1"] i(3) l by (cases i) (auto simp: window_def)
      ultimately have "window s k i i" by (auto simp: window_def)
      then show ?thesis using window_empty eq False 3 by (auto simp: i_def)
    qed
  qed
qed

interpretation direct: sorted_lookup direct_lookup
  by unfold_locales (rule direct_lookup_map)

section \<open>Agreement of the lookups\<close>

text \<open>C6: On a store sorted by key, the five lookup routines (binary search, the sorted-vector copy of
  it, galloping, k-ary for every arity, direct addressing with correction) return the same answer
  for every key: the value stored under it, or nothing.\<close>
theorem sorted_lookups_agree:
  assumes "sorted_inv s"
  shows "binary_lookup s k = map_of s k \<and> vector_lookup s k = map_of s k
    \<and> galloping_lookup s k = map_of s k \<and> kary_lookup arity s k = map_of s k
    \<and> direct_lookup s k = map_of s k"
  using binary.look_map [OF assms] vector.look_map [OF assms] galloping_lookup_map [OF assms]
    kary_lookup_map [OF assms] direct_lookup_map [OF assms] by blast

theorem sorted_lookups_agree_witness:
  "sorted_inv [(2, 20), (5, 50), (9, 90)] \<and> kary_lookup 2 [(2, 20), (5, 50), (9, 90)] 9 = Some 90
    \<and> galloping_lookup [(2, 20), (5, 50), (9, 90)] 5 = Some 50
    \<and> direct_lookup [(2, 20), (5, 50), (9, 90)] 4 = None"
proof -
  have i: "sorted_inv [(2, 20), (5, 50), (9, 90)]" by (simp add: sorted_inv_def)
  show ?thesis using i sorted_lookups_agree [OF i, of 9 2] sorted_lookups_agree [OF i, of 5 2]
      sorted_lookups_agree [OF i, of 4 2] by simp
qed

text \<open>C35: The range scan over a sorted store and the scan of the unsorted linear organ (filter, then
  partial sort) deliver the same list for the same stored map: its entries from the start key on,
  in key order, cut off at \<^verbatim>\<open>max_count\<close>.\<close>
theorem scans_agree:
  assumes "sorted_inv s" "linear_inv t" "map_of t = map_of s"
  shows "sorted_scan start n s = linear_scan start n t
    \<and> sorted_scan start n s = take n (filter (\<lambda>(k, v). start \<le> k) s)"
proof
  show "sorted_scan start n s = linear_scan start n t"
    using assms by (simp add: sorted_scan_window linear_scan_window)
  show "sorted_scan start n s = take n (filter (\<lambda>(k, v). start \<le> k) s)"
    using assms(1) by (simp add: sorted_scan_window scan_window_def map_entries_map_of sorted_inv_def case_prod_beta')
qed

theorem scans_agree_witness:
  "sorted_scan 3 2 [(2, 20), (5, 50), (9, 90)] = [(5, 50), (9, 90)]
    \<and> linear_scan 3 2 [(9, 90), (2, 20), (5, 50)] = [(5, 50), (9, 90)]"
proof -
  have i: "sorted_inv [(2, 20), (5, 50), (9, 90)]" and j: "linear_inv [(9, 90), (2, 20), (5, 50)]"
    by (simp_all add: sorted_inv_def linear_inv_def)
  have m: "map_of [(9, 90), (2, 20), (5, 50)] = map_of [(2 :: u64, 20 :: u64), (5, 50), (9, 90)]"
    by (auto simp: fun_eq_iff)
  show ?thesis using scans_agree [OF i j m, of 3 2] by auto
qed

end
