(* ===== verification/Hash_Open.thy ===== *)
theory Hash_Open imports Lookup_Contract begin

text \<open>
  The open-addressing hash organ: \<^verbatim>\<open>HashBucketPoolStore\<close> with an open-addressing shape,
  \<^verbatim>\<open>HashProbeTraversalOrgan\<close> and \<^verbatim>\<open>ComposedHashSearch\<close>.  Linear probing over a power-of-two array of
  slots with tombstones; the array doubles when occupied slots and tombstones reach the load factor
  of the shape.  Slot indices are natural numbers; masking is the bitwise \<open>AND\<close> of the code.
\<close>

section \<open>The pool\<close>

datatype hash_slot_state = Slot_Empty | Slot_Occupied | Slot_Deleted

record oa_slot =
  oa_key :: u64
  oa_val :: u64
  oa_state :: hash_slot_state

record oa_pool =
  oa_buckets :: "oa_slot list"
  oa_mask :: nat
  oa_size :: nat
  oa_tombstones :: nat

text \<open>The load factors of the shapes, as numerator and denominator.\<close>
definition oa_lf50 :: "nat \<times> nat" where "oa_lf50 = (1, 2)"
definition oa_lf70 :: "nat \<times> nat" where "oa_lf70 = (7, 10)"
definition oa_lf90 :: "nat \<times> nat" where "oa_lf90 = (9, 10)"

definition fibonacci_mul :: u64 where "fibonacci_mul = 11400714819323198485"
definition hash_initial_capacity :: nat where "hash_initial_capacity = 16"

definition oa_free_slot :: oa_slot where
  "oa_free_slot = \<lparr>oa_key = 0, oa_val = 0, oa_state = Slot_Empty\<rparr>"

definition oa_init :: oa_pool where
  "oa_init = \<lparr>oa_buckets = replicate hash_initial_capacity oa_free_slot, oa_mask = hash_initial_capacity - 1,
     oa_size = 0, oa_tombstones = 0\<rparr>"

definition oa_copy :: "oa_pool \<Rightarrow> oa_pool" where
  "oa_copy p = \<lparr>oa_buckets = oa_buckets p, oa_mask = oa_mask p, oa_size = oa_size p, oa_tombstones = oa_tombstones p\<rparr>"

definition oa_assign :: "oa_pool \<Rightarrow> oa_pool \<Rightarrow> oa_pool" where
  "oa_assign other p = p\<lparr>oa_buckets := oa_buckets other, oa_mask := oa_mask other,
     oa_size := oa_size other, oa_tombstones := oa_tombstones other\<rparr>"

definition oa_bucket_count :: "oa_pool \<Rightarrow> nat" where "oa_bucket_count p = oa_mask p + 1"
definition oa_slot_is_empty :: "oa_pool \<Rightarrow> nat \<Rightarrow> bool" where
  "oa_slot_is_empty p i \<longleftrightarrow> oa_state (oa_buckets p ! i) = Slot_Empty"
definition oa_slot_is_occupied :: "oa_pool \<Rightarrow> nat \<Rightarrow> bool" where
  "oa_slot_is_occupied p i \<longleftrightarrow> oa_state (oa_buckets p ! i) = Slot_Occupied"
definition oa_slot_is_deleted :: "oa_pool \<Rightarrow> nat \<Rightarrow> bool" where
  "oa_slot_is_deleted p i \<longleftrightarrow> oa_state (oa_buckets p ! i) = Slot_Deleted"
definition oa_slot_key :: "oa_pool \<Rightarrow> nat \<Rightarrow> u64" where "oa_slot_key p i = oa_key (oa_buckets p ! i)"
definition oa_slot_value :: "oa_pool \<Rightarrow> nat \<Rightarrow> u64" where "oa_slot_value p i = oa_val (oa_buckets p ! i)"

lemmas oa_slot_defs = oa_slot_is_empty_def oa_slot_is_occupied_def oa_slot_is_deleted_def
  oa_slot_key_def oa_slot_value_def oa_bucket_count_def

definition oa_place_occupied :: "nat \<Rightarrow> u64 \<Rightarrow> u64 \<Rightarrow> oa_pool \<Rightarrow> oa_pool" where
  "oa_place_occupied i k v p =
     (let p = (if oa_state (oa_buckets p ! i) = Slot_Deleted then p\<lparr>oa_tombstones := oa_tombstones p - 1\<rparr> else p)
      in p\<lparr>oa_buckets := (oa_buckets p)[i := \<lparr>oa_key = k, oa_val = v, oa_state = Slot_Occupied\<rparr>],
           oa_size := oa_size p + 1\<rparr>)"

definition oa_set_slot_value :: "nat \<Rightarrow> u64 \<Rightarrow> oa_pool \<Rightarrow> oa_pool" where
  "oa_set_slot_value i v p = p\<lparr>oa_buckets := (oa_buckets p)[i := (oa_buckets p ! i)\<lparr>oa_val := v\<rparr>]\<rparr>"

definition oa_mark_deleted :: "nat \<Rightarrow> oa_pool \<Rightarrow> oa_pool" where
  "oa_mark_deleted i p = p\<lparr>oa_buckets := (oa_buckets p)[i := (oa_buckets p ! i)\<lparr>oa_state := Slot_Deleted\<rparr>],
     oa_size := oa_size p - 1, oa_tombstones := oa_tombstones p + 1\<rparr>"

definition oa_hash_index :: "oa_pool \<Rightarrow> u64 \<Rightarrow> nat" where
  "oa_hash_index p k = unat (k * fibonacci_mul) AND oa_mask p"

text \<open>Re-inserting one entry: the inner loop of \<^verbatim>\<open>rehash\<close> from probe \<open>i\<close> on.\<close>
function oa_rehash_probe :: "u64 \<Rightarrow> u64 \<Rightarrow> nat \<Rightarrow> nat \<Rightarrow> nat \<Rightarrow> oa_pool \<Rightarrow> oa_pool" where
  "oa_rehash_probe k v start new_capacity i p = (if i < new_capacity
     then (let pos = (start + i) AND oa_mask p
           in if oa_state (oa_buckets p ! pos) = Slot_Empty
              then p\<lparr>oa_buckets := (oa_buckets p)[pos := \<lparr>oa_key = k, oa_val = v, oa_state = Slot_Occupied\<rparr>],
                     oa_size := oa_size p + 1\<rparr>
              else oa_rehash_probe k v start new_capacity (i + 1) p)
     else p)"
  by pat_completeness auto
termination by (relation "measure (\<lambda>(k, v, start, new_capacity, i, p). new_capacity - i)") auto

declare oa_rehash_probe.simps [simp del]

definition oa_rehash_slot :: "nat \<Rightarrow> oa_slot \<Rightarrow> oa_pool \<Rightarrow> oa_pool" where
  "oa_rehash_slot new_capacity s p =
     (if oa_state s \<noteq> Slot_Occupied then p
      else oa_rehash_probe (oa_key s) (oa_val s) (oa_hash_index p (oa_key s)) new_capacity 0 p)"

definition oa_rehash :: "nat \<Rightarrow> oa_pool \<Rightarrow> oa_pool" where
  "oa_rehash new_capacity p =
     fold (oa_rehash_slot new_capacity) (oa_buckets p)
       (p\<lparr>oa_buckets := replicate new_capacity oa_free_slot, oa_mask := new_capacity - 1,
          oa_size := 0, oa_tombstones := 0\<rparr>)"

definition oa_clear :: "oa_pool \<Rightarrow> oa_pool" where
  "oa_clear p = p\<lparr>oa_buckets := map (\<lambda>_. oa_free_slot) (oa_buckets p), oa_size := 0, oa_tombstones := 0\<rparr>"

section \<open>The traversal\<close>

definition oa_index_of :: "u64 \<Rightarrow> nat \<Rightarrow> nat" where
  "oa_index_of k cap = unat (k * fibonacci_mul) AND (cap - 1)"

function oa_insert_probe :: "u64 \<Rightarrow> u64 \<Rightarrow> nat \<Rightarrow> nat \<Rightarrow> nat \<Rightarrow> nat option \<Rightarrow> oa_pool \<Rightarrow> oa_pool" where
  "oa_insert_probe k v start cap i first_deleted p = (if i < cap
     then (let pos = (start + i) AND (cap - 1)
           in if oa_slot_is_empty p pos
              then oa_place_occupied (case first_deleted of Some d \<Rightarrow> d | None \<Rightarrow> pos) k v p
              else if oa_slot_is_deleted p pos
              then oa_insert_probe k v start cap (i + 1) (if first_deleted = None then Some pos else first_deleted) p
              else if oa_slot_key p pos = k then oa_set_slot_value pos v p
              else oa_insert_probe k v start cap (i + 1) first_deleted p)
     else p)"
  by pat_completeness auto
termination by (relation "measure (\<lambda>(k, v, start, cap, i, first_deleted, p). cap - i)") auto

declare oa_insert_probe.simps [simp del]

definition oa_insert :: "nat \<times> nat \<Rightarrow> u64 \<Rightarrow> u64 \<Rightarrow> oa_pool \<Rightarrow> oa_pool" where
  "oa_insert load k v p0 =
     (let p = (if oa_bucket_count p0 * fst load \<le> (oa_size p0 + oa_tombstones p0) * snd load
               then oa_rehash (oa_bucket_count p0 * 2) p0 else p0);
          cap = oa_bucket_count p
      in oa_insert_probe k v (oa_index_of k cap) cap 0 None p)"

text \<open>The loop \<^verbatim>\<open>lookup_in\<close> and \<^verbatim>\<open>erase_from\<close> share: the slot of a key.\<close>
function oa_probe :: "oa_pool \<Rightarrow> u64 \<Rightarrow> nat \<Rightarrow> nat \<Rightarrow> nat \<Rightarrow> nat option" where
  "oa_probe p k start cap i = (if i < cap
     then (let pos = (start + i) AND (cap - 1)
           in if oa_slot_is_empty p pos then None
              else if oa_slot_is_occupied p pos \<and> oa_slot_key p pos = k then Some pos
              else oa_probe p k start cap (i + 1))
     else None)"
  by pat_completeness auto
termination by (relation "measure (\<lambda>(p, k, start, cap, i). cap - i)") auto

declare oa_probe.simps [simp del]

definition oa_lookup :: "oa_pool \<Rightarrow> u64 \<Rightarrow> u64 option" where
  "oa_lookup p k = (case oa_probe p k (oa_index_of k (oa_bucket_count p)) (oa_bucket_count p) 0 of
     Some pos \<Rightarrow> Some (oa_slot_value p pos)
   | None \<Rightarrow> None)"

definition oa_erase :: "u64 \<Rightarrow> oa_pool \<Rightarrow> bool \<times> oa_pool" where
  "oa_erase k p = (case oa_probe p k (oa_index_of k (oa_bucket_count p)) (oa_bucket_count p) 0 of
     Some pos \<Rightarrow> (True, oa_mark_deleted pos p)
   | None \<Rightarrow> (False, p))"

text \<open>\<^verbatim>\<open>ComposedHashSearch::for_each_record\<close>: the records in slot order.\<close>
definition oa_records :: "oa_pool \<Rightarrow> slot list" where
  "oa_records p = map (\<lambda>i. (oa_slot_key p i, oa_slot_value p i))
     (filter (oa_slot_is_occupied p) [0..<oa_bucket_count p])"

section \<open>Entries and the invariant\<close>

definition slot_entries :: "oa_slot list \<Rightarrow> slot list" where
  "slot_entries bs = map (\<lambda>s. (oa_key s, oa_val s)) (filter (\<lambda>s. oa_state s = Slot_Occupied) bs)"

lemma slot_entries_simps [simp]:
  "slot_entries [] = []"
  "slot_entries (s # bs) = (if oa_state s = Slot_Occupied then [(oa_key s, oa_val s)] else []) @ slot_entries bs"
  "slot_entries (as @ bs) = slot_entries as @ slot_entries bs"
  "slot_entries (replicate n oa_free_slot) = []"
  by (simp_all add: slot_entries_def oa_free_slot_def)

text \<open>The probe sequence of a key, and the chain of non-empty slots that leads to its slot.\<close>
definition probe_pos :: "oa_slot list \<Rightarrow> u64 \<Rightarrow> nat \<Rightarrow> nat" where
  "probe_pos bs k j = (unat (k * fibonacci_mul) + j) mod length bs"

definition chained_at :: "oa_slot list \<Rightarrow> u64 \<Rightarrow> nat \<Rightarrow> bool" where
  "chained_at bs k j \<longleftrightarrow> (\<forall>i < j. oa_state (bs ! probe_pos bs k i) \<noteq> Slot_Empty)"

definition oa_chains :: "oa_slot list \<Rightarrow> bool" where
  "oa_chains bs \<longleftrightarrow> (\<forall>q < length bs. oa_state (bs ! q) = Slot_Occupied \<longrightarrow>
     (\<exists>j < length bs. q = probe_pos bs (oa_key (bs ! q)) j \<and> chained_at bs (oa_key (bs ! q)) j))"

definition oa_inv :: "oa_pool \<Rightarrow> bool" where
  "oa_inv p \<longleftrightarrow> (\<exists>m. oa_mask p + 1 = 2 ^ m) \<and> length (oa_buckets p) = oa_mask p + 1
     \<and> oa_size p = length (slot_entries (oa_buckets p))
     \<and> oa_tombstones p = length (filter (\<lambda>s. oa_state s = Slot_Deleted) (oa_buckets p))
     \<and> distinct (map fst (slot_entries (oa_buckets p))) \<and> oa_chains (oa_buckets p)"

lemma nat_and_pow2: "n AND (2 ^ m - 1) = n mod (2 ^ m :: nat)"
  by (metis mask_eq_exp_minus_1 take_bit_eq_mask take_bit_eq_mod)

lemma probe_index:
  assumes "length bs = 2 ^ m" "cap = length bs"
  shows "(oa_index_of k cap + i) AND (cap - 1) = probe_pos bs k i"
proof -
  have "cap - 1 = 2 ^ m - 1" using assms by simp
  then show ?thesis unfolding oa_index_of_def nat_and_pow2 probe_pos_def assms(1)
    by (simp only: nat_and_pow2 mod_add_left_eq)
qed

lemma probe_pos_bound: "bs \<noteq> [] \<Longrightarrow> probe_pos bs k j < length bs"
  by (simp add: probe_pos_def)

lemma shift_mod_surj:
  assumes "q < (n :: nat)"
  shows "\<exists>j < n. (h + j) mod n = q"
proof -
  define j where "j = (q + n - h mod n) mod n"
  have n: "0 < n" using assms by simp
  have "(h + j) mod n = (h mod n + (q + n - h mod n)) mod n" by (simp add: j_def mod_simps)
  also have "h mod n + (q + n - h mod n) = q + n" using n mod_less_divisor [of n h] by linarith
  finally have "(h + j) mod n = q" using assms by simp
  then show ?thesis using n by (intro exI [of _ j]) (simp add: j_def)
qed

lemma probe_pos_surj: "q < length bs \<Longrightarrow> \<exists>j < length bs. probe_pos bs k j = q"
  unfolding probe_pos_def by (rule shift_mod_surj)

lemma probe_pos_update [simp]: "probe_pos (bs[q := s]) k j = probe_pos bs k j"
  by (simp add: probe_pos_def)

section \<open>Updating one slot\<close>

lemma slot_entries_update:
  "q < length bs \<Longrightarrow> slot_entries (bs[q := s]) = slot_entries (take q bs)
     @ (if oa_state s = Slot_Occupied then [(oa_key s, oa_val s)] else []) @ slot_entries (drop (Suc q) bs)"
  by (simp add: upd_conv_take_nth_drop)

lemma slot_entries_split:
  "q < length bs \<Longrightarrow> slot_entries bs = slot_entries (take q bs)
     @ (if oa_state (bs ! q) = Slot_Occupied then [(oa_key (bs ! q), oa_val (bs ! q))] else [])
     @ slot_entries (drop (Suc q) bs)"
  by (metis list_update_id slot_entries_update)

lemma deleted_split:
  "q < length bs \<Longrightarrow> length (filter (\<lambda>s. oa_state s = Slot_Deleted) (bs[q := s]))
     + (if oa_state (bs ! q) = Slot_Deleted then 1 else 0)
   = length (filter (\<lambda>s. oa_state s = Slot_Deleted) bs) + (if oa_state s = Slot_Deleted then 1 else 0)"
  by (subst (2) id_take_nth_drop [of q bs], simp, simp add: upd_conv_take_nth_drop)

lemma chained_update:
  assumes "chained_at bs k j" "oa_state s \<noteq> Slot_Empty"
  shows "chained_at (bs[q := s]) k j"
  using assms unfolding chained_at_def by (metis nth_list_update_eq nth_list_update_neq probe_pos_update list_update_beyond not_le)

text \<open>Filling a free slot at the end of a chain keeps all chains.\<close>
lemma chains_fill:
  assumes "oa_chains bs" "j < length bs" "chained_at bs (oa_key s) j" "oa_state s \<noteq> Slot_Empty"
    "q = probe_pos bs (oa_key s) j"
  shows "oa_chains (bs[q := s])"
  unfolding oa_chains_def
proof (intro allI impI)
  fix r assume r: "r < length (bs[q := s])" "oa_state (bs[q := s] ! r) = Slot_Occupied"
  show "\<exists>j < length (bs[q := s]). r = probe_pos (bs[q := s]) (oa_key (bs[q := s] ! r)) j
      \<and> chained_at (bs[q := s]) (oa_key (bs[q := s] ! r)) j"
  proof (cases "r = q")
    case True
    then show ?thesis using assms r(1) chained_update [OF assms(3,4), of q] by (intro exI [of _ j]) simp
  next
    case False
    then obtain j' where "j' < length bs" "r = probe_pos bs (oa_key (bs ! r)) j'" "chained_at bs (oa_key (bs ! r)) j'"
      using assms(1) r by (auto simp: oa_chains_def)
    then show ?thesis using False chained_update [OF _ assms(4)] by (intro exI [of _ j']) simp
  qed
qed

text \<open>Changing an occupied slot to another non-empty one with the same key keeps all chains.\<close>
lemma chains_change:
  assumes "oa_chains bs" "q < length bs" "oa_state (bs ! q) = Slot_Occupied" "oa_key s = oa_key (bs ! q)"
    "oa_state s \<noteq> Slot_Empty"
  shows "oa_chains (bs[q := s])"
proof -
  obtain j where "j < length bs" "q = probe_pos bs (oa_key s) j" "chained_at bs (oa_key s) j"
    using assms(1-4) by (auto simp: oa_chains_def)
  then show ?thesis using chains_fill [OF assms(1) _ _ assms(5)] by blast
qed

text \<open>An occupied slot is an entry, and a missing key has no slot.\<close>
lemma occupied_entry:
  "q < length bs \<Longrightarrow> oa_state (bs ! q) = Slot_Occupied \<Longrightarrow> (oa_key (bs ! q), oa_val (bs ! q)) \<in> set (slot_entries bs)"
  by (simp add: slot_entries_def image_iff) (metis nth_mem)

lemma entry_occupied:
  "(k, v) \<in> set (slot_entries bs) \<Longrightarrow> \<exists>q < length bs. oa_state (bs ! q) = Slot_Occupied \<and> oa_key (bs ! q) = k \<and> oa_val (bs ! q) = v"
  by (auto simp: slot_entries_def in_set_conv_nth)

text \<open>The three state changes of the table, on the entries.\<close>
lemma entries_fill:
  assumes "q < length bs" "oa_state (bs ! q) \<noteq> Slot_Occupied" "k \<notin> fst ` set (slot_entries bs)"
    "distinct (map fst (slot_entries bs))" "bs' = bs[q := \<lparr>oa_key = k, oa_val = v, oa_state = Slot_Occupied\<rparr>]"
  shows "map_of (slot_entries bs') = (map_of (slot_entries bs))(k \<mapsto> v)" "distinct (map fst (slot_entries bs'))"
    "length (slot_entries bs') = length (slot_entries bs) + 1"
proof -
  define xs where "xs = slot_entries (take q bs)"
  define ys where "ys = slot_entries (drop (Suc q) bs)"
  have e: "slot_entries bs = xs @ ys" "slot_entries bs' = xs @ (k, v) # ys"
    using assms slot_entries_split [OF assms(1)] slot_entries_update [OF assms(1)] by (simp_all add: xs_def ys_def)
  show "map_of (slot_entries bs') = (map_of (slot_entries bs))(k \<mapsto> v)"
    unfolding e using assms(3) e(1) by (intro map_of_upd_middle) auto
  show "distinct (map fst (slot_entries bs'))" "length (slot_entries bs') = length (slot_entries bs) + 1"
    using assms(3,4) by (auto simp: e)
qed

lemma entries_set_value:
  assumes "q < length bs" "oa_state (bs ! q) = Slot_Occupied" "distinct (map fst (slot_entries bs))"
    "bs' = bs[q := (bs ! q)\<lparr>oa_val := v\<rparr>]"
  shows "map_of (slot_entries bs') = (map_of (slot_entries bs))(oa_key (bs ! q) \<mapsto> v)"
    "map fst (slot_entries bs') = map fst (slot_entries bs)"
proof -
  define xs where "xs = slot_entries (take q bs)"
  define ys where "ys = slot_entries (drop (Suc q) bs)"
  have e: "slot_entries bs = xs @ (oa_key (bs ! q), oa_val (bs ! q)) # ys" "slot_entries bs' = xs @ (oa_key (bs ! q), v) # ys"
    using assms slot_entries_split [OF assms(1)] slot_entries_update [OF assms(1)] by (simp_all add: xs_def ys_def)
  have "oa_key (bs ! q) \<notin> fst ` set xs" using assms(3) by (auto simp: e)
  then show "map_of (slot_entries bs') = (map_of (slot_entries bs))(oa_key (bs ! q) \<mapsto> v)"
    by (simp add: e map_of_upd_middle del: map_of_append)
  show "map fst (slot_entries bs') = map fst (slot_entries bs)" by (simp add: e)
qed

lemma entries_remove:
  assumes "q < length bs" "oa_state (bs ! q) = Slot_Occupied" "distinct (map fst (slot_entries bs))"
    "bs' = bs[q := s]" "oa_state s \<noteq> Slot_Occupied"
  shows "map_of (slot_entries bs') = (map_of (slot_entries bs))(oa_key (bs ! q) := None)"
    "distinct (map fst (slot_entries bs'))" "length (slot_entries bs') = length (slot_entries bs) - 1"
proof -
  define xs where "xs = slot_entries (take q bs)"
  define ys where "ys = slot_entries (drop (Suc q) bs)"
  have e: "slot_entries bs = xs @ (oa_key (bs ! q), oa_val (bs ! q)) # ys" "slot_entries bs' = xs @ ys"
    using assms slot_entries_split [OF assms(1)] slot_entries_update [OF assms(1)] by (simp_all add: xs_def ys_def)
  have k: "oa_key (bs ! q) \<notin> fst ` set (xs @ ys)" using assms(3) by (auto simp: e)
  show "map_of (slot_entries bs') = (map_of (slot_entries bs))(oa_key (bs ! q) := None)"
    unfolding e by (rule map_of_del_middle [OF k])
  show "distinct (map fst (slot_entries bs'))" "length (slot_entries bs') = length (slot_entries bs) - 1"
    using assms(3) by (auto simp: e)
qed

lemma entries_delete:
  assumes "q < length bs" "oa_state (bs ! q) = Slot_Occupied" "distinct (map fst (slot_entries bs))"
    "bs' = bs[q := (bs ! q)\<lparr>oa_state := Slot_Deleted\<rparr>]"
  shows "map_of (slot_entries bs') = (map_of (slot_entries bs))(oa_key (bs ! q) := None)"
    "distinct (map fst (slot_entries bs'))" "length (slot_entries bs') = length (slot_entries bs) - 1"
  using entries_remove [OF assms] by simp_all


lemma empty_slot_exists:
  assumes "length (slot_entries bs) + length (filter (\<lambda>s. oa_state s = Slot_Deleted) bs) < length bs"
  shows "\<exists>q < length bs. oa_state (bs ! q) = Slot_Empty"
proof -
  have "length bs = length (filter (\<lambda>s. oa_state s = Slot_Occupied) bs) + length (filter (\<lambda>s. oa_state s = Slot_Deleted) bs)
      + length (filter (\<lambda>s. oa_state s = Slot_Empty) bs)"
    by (induction bs) (auto intro: hash_slot_state.exhaust)
  then have "filter (\<lambda>s. oa_state s = Slot_Empty) bs \<noteq> []" using assms by (auto simp: slot_entries_def)
  then show ?thesis by (auto simp: filter_empty_conv in_set_conv_nth)
qed

section \<open>Correctness of the operations\<close>

lemma oa_invD:
  assumes "oa_inv p"
  shows "length (oa_buckets p) = oa_bucket_count p" "oa_buckets p \<noteq> []" "\<exists>m. length (oa_buckets p) = 2 ^ m"
    "distinct (map fst (slot_entries (oa_buckets p)))" "oa_chains (oa_buckets p)"
    "oa_size p = length (slot_entries (oa_buckets p))"
  using assms by (auto simp: oa_inv_def oa_bucket_count_def)

lemma oa_pos:
  assumes "oa_inv p"
  shows "(oa_index_of k (oa_bucket_count p) + i) AND (oa_bucket_count p - 1) = probe_pos (oa_buckets p) k i"
  using oa_invD(1,3) [OF assms] probe_index by metis

text \<open>A key without a slot on its probe sequence is not stored; an empty slot ends the search.\<close>
lemma no_slot_no_key:
  assumes "\<And>j. j < length bs \<Longrightarrow> \<not> (oa_state (bs ! probe_pos bs k j) = Slot_Occupied \<and> oa_key (bs ! probe_pos bs k j) = k)"
  shows "k \<notin> fst ` set (slot_entries bs)"
proof
  assume "k \<in> fst ` set (slot_entries bs)"
  then obtain v where "(k, v) \<in> set (slot_entries bs)" by auto
  then obtain q where q: "q < length bs" "oa_state (bs ! q) = Slot_Occupied" "oa_key (bs ! q) = k"
    using entry_occupied by blast
  then show False using probe_pos_surj [OF q(1), of k] assms by metis
qed

lemma empty_ends_search:
  assumes "oa_chains bs" "oa_state (bs ! probe_pos bs k i) = Slot_Empty"
    "\<And>j. j < i \<Longrightarrow> \<not> (oa_state (bs ! probe_pos bs k j) = Slot_Occupied \<and> oa_key (bs ! probe_pos bs k j) = k)"
  shows "k \<notin> fst ` set (slot_entries bs)"
proof
  assume "k \<in> fst ` set (slot_entries bs)"
  then obtain v where "(k, v) \<in> set (slot_entries bs)" by auto
  then obtain q where q: "q < length bs" "oa_state (bs ! q) = Slot_Occupied" "oa_key (bs ! q) = k"
    using entry_occupied by blast
  then obtain j where j: "q = probe_pos bs k j" "chained_at bs k j" using assms(1) by (auto simp: oa_chains_def)
  consider "j < i" | "j = i" | "i < j" by linarith
  then show False using j q assms(2,3) by cases (auto simp: chained_at_def)
qed

lemma oa_probe_ok:
  assumes "oa_inv p"
  shows "(\<And>j. j < i \<Longrightarrow> \<not> (oa_state (oa_buckets p ! probe_pos (oa_buckets p) k j) = Slot_Occupied
            \<and> oa_key (oa_buckets p ! probe_pos (oa_buckets p) k j) = k)) \<Longrightarrow>
    case oa_probe p k (oa_index_of k (oa_bucket_count p)) (oa_bucket_count p) i of
      Some q \<Rightarrow> q < length (oa_buckets p) \<and> oa_state (oa_buckets p ! q) = Slot_Occupied \<and> oa_key (oa_buckets p ! q) = k
    | None \<Rightarrow> k \<notin> fst ` set (slot_entries (oa_buckets p))"
proof (induction "oa_bucket_count p - i" arbitrary: i rule: less_induct)
  case less
  define bs where "bs = oa_buckets p"
  define cap where "cap = oa_bucket_count p"
  define q where "q = probe_pos bs k i"
  have len: "length bs = cap" and ne: "bs \<noteq> []" using oa_invD [OF assms] by (simp_all add: bs_def cap_def)
  have unfold: "oa_probe p k (oa_index_of k cap) cap i = (if i < cap then
      (if oa_state (bs ! q) = Slot_Empty then None
       else if oa_state (bs ! q) = Slot_Occupied \<and> oa_key (bs ! q) = k then Some q
       else oa_probe p k (oa_index_of k cap) cap (i + 1)) else None)"
    using oa_pos [OF assms, of k i, folded cap_def bs_def, folded q_def]
    unfolding oa_probe.simps [of p k "oa_index_of k cap" cap i] oa_slot_is_empty_def
        oa_slot_is_occupied_def oa_slot_key_def Let_def bs_def [symmetric] by simp
  consider "\<not> i < cap" | "i < cap" "oa_state (bs ! q) = Slot_Empty"
    | "i < cap" "oa_state (bs ! q) = Slot_Occupied \<and> oa_key (bs ! q) = k"
    | "i < cap" "oa_state (bs ! q) \<noteq> Slot_Empty" "\<not> (oa_state (bs ! q) = Slot_Occupied \<and> oa_key (bs ! q) = k)" by blast
  then show ?case
  proof cases
    case 1
    then have "k \<notin> fst ` set (slot_entries bs)" using less.prems len by (intro no_slot_no_key) (simp add: bs_def)
    then show ?thesis using 1 unfold by (simp add: bs_def cap_def)
  next
    case 2
    then have "k \<notin> fst ` set (slot_entries bs)"
      using empty_ends_search [of bs k i] oa_invD(5) [OF assms] less.prems by (simp add: bs_def q_def)
    then show ?thesis using 2 unfold by (simp add: bs_def cap_def)
  next
    case 3
    have "q < length bs" unfolding q_def by (rule probe_pos_bound [OF ne])
    then show ?thesis using 3 unfold by (simp add: bs_def cap_def)
  next
    case 4
    have "cap - (i + 1) < cap - i" using 4(1) by simp
    moreover have "\<not> (oa_state (bs ! probe_pos bs k j) = Slot_Occupied \<and> oa_key (bs ! probe_pos bs k j) = k)"
      if "j < i + 1" for j
      using that less.prems [of j] 4(3) by (cases "j = i") (auto simp: bs_def q_def)
    moreover have "oa_probe p k (oa_index_of k cap) cap i = oa_probe p k (oa_index_of k cap) cap (i + 1)"
      using 4 unfold by auto
    ultimately show ?thesis using less.hyps [of "i + 1"] unfolding cap_def bs_def by simp
  qed
qed

lemma oa_lookup_map:
  assumes "oa_inv p"
  shows "oa_lookup p k = map_of (slot_entries (oa_buckets p)) k"
proof -
  note ok = oa_probe_ok [OF assms, of 0 k, simplified]
  show ?thesis
  proof (cases "oa_probe p k (oa_index_of k (oa_bucket_count p)) (oa_bucket_count p) 0")
    case None
    then have "map_of (slot_entries (oa_buckets p)) k = None" using ok by (simp add: map_of_eq_None_iff)
    then show ?thesis using None by (simp add: oa_lookup_def)
  next
    case (Some q)
    then have "(k, oa_val (oa_buckets p ! q)) \<in> set (slot_entries (oa_buckets p))"
      using ok occupied_entry [of q "oa_buckets p"] by auto
    then show ?thesis using Some oa_invD(4) [OF assms] by (simp add: oa_lookup_def oa_slot_value_def)
  qed
qed

lemma oa_erase_ok:
  assumes "oa_inv p"
  shows "oa_inv (snd (oa_erase k p)) \<and> map_of (slot_entries (oa_buckets (snd (oa_erase k p))))
      = (map_of (slot_entries (oa_buckets p)))(k := None)
    \<and> (fst (oa_erase k p) \<longleftrightarrow> map_of (slot_entries (oa_buckets p)) k \<noteq> None)"
proof (cases "oa_probe p k (oa_index_of k (oa_bucket_count p)) (oa_bucket_count p) 0")
  case None
  then have "map_of (slot_entries (oa_buckets p)) k = None"
    using oa_probe_ok [OF assms, of 0 k] by (simp add: map_of_eq_None_iff)
  then show ?thesis using None assms by (auto simp: oa_erase_def fun_eq_iff)
next
  case (Some q)
  define bs where "bs = oa_buckets p"
  define bs' where "bs' = bs[q := (bs ! q)\<lparr>oa_state := Slot_Deleted\<rparr>]"
  have q: "q < length bs" "oa_state (bs ! q) = Slot_Occupied" "oa_key (bs ! q) = k"
    using oa_probe_ok [OF assms, of 0 k] Some by (simp_all add: bs_def)
  note d = entries_delete [OF q(1,2) oa_invD(4) [OF assms, folded bs_def] bs'_def]
  have e: "snd (oa_erase k p) = p\<lparr>oa_buckets := bs', oa_size := oa_size p - 1, oa_tombstones := oa_tombstones p + 1\<rparr>"
    "fst (oa_erase k p)" using Some by (simp_all add: oa_erase_def oa_mark_deleted_def bs_def bs'_def)
  have "oa_chains bs'" unfolding bs'_def
    by (rule chains_change [OF oa_invD(5) [OF assms, folded bs_def] q(1,2)]) simp_all
  moreover have "length (filter (\<lambda>s. oa_state s = Slot_Deleted) bs') = oa_tombstones p + 1"
    using deleted_split [OF q(1), of "(bs ! q)\<lparr>oa_state := Slot_Deleted\<rparr>"] q(2) assms
    by (simp add: bs'_def oa_inv_def bs_def)
  ultimately have "oa_inv (snd (oa_erase k p))"
    using assms d by (simp add: e oa_inv_def bs_def bs'_def)
  moreover have "map_of (slot_entries bs) k \<noteq> None"
    using occupied_entry [OF q(1,2)] q(3) unfolding map_of_eq_None_iff by (metis fst_conv imageI)
  ultimately show ?thesis using d(1) q(3) e by (simp add: bs_def)
qed

text \<open>Placing a key that is not stored.\<close>
lemma oa_place_ok:
  assumes "oa_inv p" "k \<notin> fst ` set (slot_entries (oa_buckets p))" "q = probe_pos (oa_buckets p) k j"
    "j < length (oa_buckets p)" "chained_at (oa_buckets p) k j" "oa_state (oa_buckets p ! q) \<noteq> Slot_Occupied"
  shows "oa_inv (oa_place_occupied q k v p)"
    "map_of (slot_entries (oa_buckets (oa_place_occupied q k v p))) = (map_of (slot_entries (oa_buckets p)))(k \<mapsto> v)"
    "oa_size (oa_place_occupied q k v p) = oa_size p + 1" "oa_mask (oa_place_occupied q k v p) = oa_mask p"
proof -
  define s where "s = \<lparr>oa_key = k, oa_val = v, oa_state = Slot_Occupied\<rparr>"
  define bs where "bs = oa_buckets p"
  have q: "q < length bs" unfolding assms(3) bs_def by (rule probe_pos_bound [OF oa_invD(2) [OF assms(1)]])
  have f: "map_of (slot_entries (bs[q := s])) = (map_of (slot_entries bs))(k \<mapsto> v)"
    "distinct (map fst (slot_entries (bs[q := s])))" "length (slot_entries (bs[q := s])) = length (slot_entries bs) + 1"
    unfolding s_def using entries_fill [OF q _ _ _ refl] assms(2,6) oa_invD(4) [OF assms(1)] by (simp_all add: bs_def)
  have c: "oa_chains (bs[q := s])"
    using chains_fill [of bs j s q] assms oa_invD(5) [OF assms(1)] by (simp add: bs_def s_def)
  have e: "oa_buckets (oa_place_occupied q k v p) = bs[q := s]" "oa_size (oa_place_occupied q k v p) = oa_size p + 1"
    "oa_mask (oa_place_occupied q k v p) = oa_mask p"
    "oa_tombstones (oa_place_occupied q k v p) = oa_tombstones p - (if oa_state (bs ! q) = Slot_Deleted then 1 else 0)"
    by (simp_all add: oa_place_occupied_def Let_def bs_def s_def)
  have "length (filter (\<lambda>s. oa_state s = Slot_Deleted) (bs[q := s]))
      = oa_tombstones p - (if oa_state (bs ! q) = Slot_Deleted then 1 else 0)"
    using deleted_split [OF q, of s] assms(1) by (simp add: s_def oa_inv_def bs_def split: if_splits)
  then show "oa_inv (oa_place_occupied q k v p)" using assms(1) f(2,3) c by (simp add: oa_inv_def e bs_def)
  show "map_of (slot_entries (oa_buckets (oa_place_occupied q k v p))) = (map_of (slot_entries (oa_buckets p)))(k \<mapsto> v)"
    using f(1) by (simp add: e bs_def)
qed (simp_all add: oa_place_occupied_def Let_def)

lemma oa_set_value_ok:
  assumes "oa_inv p" "q < length (oa_buckets p)" "oa_state (oa_buckets p ! q) = Slot_Occupied" "oa_key (oa_buckets p ! q) = k"
  shows "oa_inv (oa_set_slot_value q v p)"
    "map_of (slot_entries (oa_buckets (oa_set_slot_value q v p))) = (map_of (slot_entries (oa_buckets p)))(k \<mapsto> v)"
proof -
  define bs where "bs = oa_buckets p"
  note u = entries_set_value [OF assms(2,3) oa_invD(4) [OF assms(1)] refl, of v, folded bs_def]
  have "length (slot_entries (bs[q := (bs ! q)\<lparr>oa_val := v\<rparr>])) = length (slot_entries bs)"
    using u(2) by (metis length_map)
  moreover have "oa_chains (bs[q := (bs ! q)\<lparr>oa_val := v\<rparr>])"
    using chains_change [OF oa_invD(5) [OF assms(1)] assms(2,3)] assms(3) by (simp add: bs_def)
  moreover have "length (filter (\<lambda>s. oa_state s = Slot_Deleted) (bs[q := (bs ! q)\<lparr>oa_val := v\<rparr>])) = oa_tombstones p"
    using deleted_split [OF assms(2), of "(bs ! q)\<lparr>oa_val := v\<rparr>"] assms(1,3) by (simp add: bs_def oa_inv_def)
  ultimately show "oa_inv (oa_set_slot_value q v p)"
    using assms(1) u(2) by (simp add: oa_inv_def oa_set_slot_value_def bs_def)
  show "map_of (slot_entries (oa_buckets (oa_set_slot_value q v p))) = (map_of (slot_entries (oa_buckets p)))(k \<mapsto> v)"
    using u(1) assms(4) by (simp add: oa_set_slot_value_def bs_def)
qed

section \<open>Rehashing and insertion\<close>

text \<open>As long as not every slot is in use, the probe sequence of every key meets an empty slot.\<close>
lemma oa_empty_on_probe:
  assumes "oa_inv p" "oa_size p + oa_tombstones p < oa_bucket_count p"
  shows "\<exists>j < length (oa_buckets p). oa_state (oa_buckets p ! probe_pos (oa_buckets p) k j) = Slot_Empty"
  using empty_slot_exists [of "oa_buckets p"] assms probe_pos_surj [of _ "oa_buckets p" k]
  by (auto simp: oa_inv_def oa_bucket_count_def)

text \<open>The insertion loop: the state of the search when probe \<open>i\<close> is reached.\<close>
definition insert_searched :: "oa_slot list \<Rightarrow> u64 \<Rightarrow> nat \<Rightarrow> nat option \<Rightarrow> bool" where
  "insert_searched bs k i fd \<longleftrightarrow> chained_at bs k i
     \<and> (\<forall>j < i. \<not> (oa_state (bs ! probe_pos bs k j) = Slot_Occupied \<and> oa_key (bs ! probe_pos bs k j) = k))
     \<and> (\<forall>d. fd = Some d \<longrightarrow> oa_state (bs ! d) = Slot_Deleted \<and> (\<exists>j < i. d = probe_pos bs k j))"

lemma insert_searched_start: "insert_searched bs k 0 None"
  by (simp add: insert_searched_def chained_at_def)

lemma insert_searched_step:
  assumes "insert_searched bs k i fd" "oa_state (bs ! probe_pos bs k i) \<noteq> Slot_Empty"
    "\<not> (oa_state (bs ! probe_pos bs k i) = Slot_Occupied \<and> oa_key (bs ! probe_pos bs k i) = k)"
    "fd' = fd \<or> fd' = Some (probe_pos bs k i) \<and> oa_state (bs ! probe_pos bs k i) = Slot_Deleted"
  shows "insert_searched bs k (i + 1) fd'"
  using assms unfolding insert_searched_def chained_at_def by (auto simp: less_Suc_eq)

lemma oa_insert_probe_ok:
  assumes "oa_inv p" "\<exists>j < length (oa_buckets p). oa_state (oa_buckets p ! probe_pos (oa_buckets p) k j) = Slot_Empty"
  shows "insert_searched (oa_buckets p) k i fd \<Longrightarrow> i \<le> oa_bucket_count p \<Longrightarrow>
    oa_inv (oa_insert_probe k v (oa_index_of k (oa_bucket_count p)) (oa_bucket_count p) i fd p)
    \<and> map_of (slot_entries (oa_buckets (oa_insert_probe k v (oa_index_of k (oa_bucket_count p)) (oa_bucket_count p) i fd p)))
      = (map_of (slot_entries (oa_buckets p)))(k \<mapsto> v)"
proof (induction "oa_bucket_count p - i" arbitrary: i fd rule: less_induct)
  case less
  define bs where "bs = oa_buckets p"
  define cap where "cap = oa_bucket_count p"
  define q where "q = probe_pos bs k i"
  have len: "length bs = cap" and ne: "bs \<noteq> []" using oa_invD [OF assms(1)] by (simp_all add: bs_def cap_def)
  note srch = less.prems(1) [unfolded insert_searched_def, folded bs_def]
  obtain je where je: "je < cap" "oa_state (bs ! probe_pos bs k je) = Slot_Empty"
    using assms(2) len by (auto simp: bs_def)
  have "\<not> je < i" using srch je(2) by (auto simp: chained_at_def)
  then have i: "i < cap" using je(1) by simp
  have unfold: "oa_insert_probe k v (oa_index_of k cap) cap i fd p =
      (if oa_state (bs ! q) = Slot_Empty
       then oa_place_occupied (case fd of Some d \<Rightarrow> d | None \<Rightarrow> q) k v p
       else if oa_state (bs ! q) = Slot_Deleted
       then oa_insert_probe k v (oa_index_of k cap) cap (i + 1) (if fd = None then Some q else fd) p
       else if oa_key (bs ! q) = k then oa_set_slot_value q v p
       else oa_insert_probe k v (oa_index_of k cap) cap (i + 1) fd p)"
    using oa_pos [OF assms(1), of k i, folded cap_def bs_def, folded q_def] i
    unfolding oa_insert_probe.simps [of k v "oa_index_of k cap" cap i fd p] oa_slot_is_empty_def
        oa_slot_is_deleted_def oa_slot_key_def Let_def bs_def [symmetric] by (auto split: option.splits)
  consider (empty) "oa_state (bs ! q) = Slot_Empty" | (deleted) "oa_state (bs ! q) = Slot_Deleted"
    | (hit) "oa_state (bs ! q) = Slot_Occupied" "oa_key (bs ! q) = k"
    | (other) "oa_state (bs ! q) = Slot_Occupied" "oa_key (bs ! q) \<noteq> k"
    by (cases "oa_state (bs ! q)") auto
  then show ?case
  proof cases
    case empty
    have k: "k \<notin> fst ` set (slot_entries bs)"
      using empty_ends_search [of bs k i] oa_invD(5) [OF assms(1)] srch empty by (simp add: bs_def q_def)
    define t where "t = (case fd of Some d \<Rightarrow> d | None \<Rightarrow> q)"
    obtain j where j: "t = probe_pos bs k j" "j \<le> i" "oa_state (bs ! t) \<noteq> Slot_Occupied"
      using srch empty by (cases fd) (auto simp: t_def q_def intro: less_imp_le)
    have "chained_at bs k j" using srch j(2) by (simp add: chained_at_def)
    then show ?thesis
      using oa_place_ok [OF assms(1), of k t j v] k j i len unfold empty by (simp add: bs_def cap_def t_def)
  next
    case deleted
    then have "insert_searched bs k (i + 1) (if fd = None then Some q else fd)"
      using insert_searched_step [OF less.prems(1) [folded bs_def]] by (simp add: q_def)
    then show ?thesis using less.hyps [of "i + 1"] i unfold deleted by (simp add: bs_def cap_def)
  next
    case hit
    have "q < length bs" unfolding q_def by (rule probe_pos_bound [OF ne])
    then show ?thesis using oa_set_value_ok [OF assms(1)] hit unfold by (simp add: bs_def cap_def)
  next
    case other
    then have "insert_searched bs k (i + 1) fd"
      using insert_searched_step [OF less.prems(1) [folded bs_def]] by (simp add: q_def)
    then show ?thesis using less.hyps [of "i + 1"] i unfold other by (simp add: bs_def cap_def)
  qed
qed

lemma oa_rehash_probe_ok:
  assumes "oa_inv p" "k \<notin> fst ` set (slot_entries (oa_buckets p))" "oa_tombstones p = 0"
    "\<exists>j < length (oa_buckets p). oa_state (oa_buckets p ! probe_pos (oa_buckets p) k j) = Slot_Empty"
  shows "i \<le> oa_bucket_count p \<Longrightarrow> chained_at (oa_buckets p) k i \<Longrightarrow>
    \<exists>j. j < length (oa_buckets p) \<and> chained_at (oa_buckets p) k j
     \<and> oa_state (oa_buckets p ! probe_pos (oa_buckets p) k j) = Slot_Empty
     \<and> oa_rehash_probe k v (oa_hash_index p k) (oa_bucket_count p) i p
        = oa_place_occupied (probe_pos (oa_buckets p) k j) k v p"
proof (induction "oa_bucket_count p - i" arbitrary: i rule: less_induct)
  case less
  define q where "q = probe_pos (oa_buckets p) k i"
  have len: "length (oa_buckets p) = oa_bucket_count p" using oa_invD [OF assms(1)] by simp
  obtain je where je: "je < oa_bucket_count p" "oa_state (oa_buckets p ! probe_pos (oa_buckets p) k je) = Slot_Empty"
    using assms(4) len by auto
  have "\<not> je < i" using less.prems(2) je(2) by (auto simp: chained_at_def)
  then have i: "i < oa_bucket_count p" using je(1) by simp
  have "oa_hash_index p k = oa_index_of k (oa_bucket_count p)" "oa_bucket_count p - 1 = oa_mask p"
    by (simp_all add: oa_hash_index_def oa_index_of_def oa_bucket_count_def)
  then have pos: "(oa_hash_index p k + i) AND oa_mask p = q"
    using oa_pos [OF assms(1), of k i] by (simp add: q_def)
  note unfold = oa_rehash_probe.simps [of k v "oa_hash_index p k" "oa_bucket_count p" i p, unfolded Let_def pos]
  show ?case
  proof (cases "oa_state (oa_buckets p ! q) = Slot_Empty")
    case True
    then show ?thesis using i less.prems(2) len unfold
      by (intro exI [of _ i]) (simp add: q_def oa_place_occupied_def Let_def)
  next
    case False
    then have "chained_at (oa_buckets p) k (i + 1)" using less.prems(2) by (auto simp: chained_at_def q_def less_Suc_eq)
    then show ?thesis using less.hyps [of "i + 1"] i False unfold by auto
  qed
qed

text \<open>Re-inserting the occupied slots one by one, as long as there is room.\<close>
lemma oa_rehash_fold:
  "oa_inv p \<Longrightarrow> oa_tombstones p = 0 \<Longrightarrow> oa_bucket_count p = n \<Longrightarrow> oa_size p + length bs < n \<Longrightarrow>
   distinct (map fst (slot_entries bs)) \<Longrightarrow>
   fst ` set (slot_entries bs) \<inter> fst ` set (slot_entries (oa_buckets p)) = {} \<Longrightarrow>
   oa_inv (fold (oa_rehash_slot n) bs p) \<and> oa_tombstones (fold (oa_rehash_slot n) bs p) = 0
   \<and> oa_bucket_count (fold (oa_rehash_slot n) bs p) = n
   \<and> oa_size (fold (oa_rehash_slot n) bs p) \<le> oa_size p + length bs
   \<and> map_of (slot_entries (oa_buckets (fold (oa_rehash_slot n) bs p)))
      = map_of (slot_entries (oa_buckets p)) ++ map_of (slot_entries bs)"
proof (induction bs arbitrary: p)
  case (Cons s bs)
  show ?case
  proof (cases "oa_state s = Slot_Occupied")
    case False
    then have "oa_rehash_slot n s p = p" by (simp add: oa_rehash_slot_def)
    then show ?thesis using Cons.IH [OF Cons.prems(1-3)] Cons.prems(4-) False by fastforce
  next
    case True
    define k where "k = oa_key s"
    define p' where "p' = oa_rehash_slot n s p"
    have kn: "k \<notin> fst ` set (slot_entries (oa_buckets p))" "k \<notin> fst ` set (slot_entries bs)"
      using Cons.prems(5,6) True by (auto simp: k_def)
    have "\<exists>j < length (oa_buckets p). oa_state (oa_buckets p ! probe_pos (oa_buckets p) k j) = Slot_Empty"
      using oa_empty_on_probe [OF Cons.prems(1)] Cons.prems(2-4) by simp
    from oa_rehash_probe_ok [OF Cons.prems(1) kn(1) Cons.prems(2) this, of 0 "oa_val s"]
    obtain j where j: "j < length (oa_buckets p)" "chained_at (oa_buckets p) k j"
      "oa_state (oa_buckets p ! probe_pos (oa_buckets p) k j) = Slot_Empty"
      "p' = oa_place_occupied (probe_pos (oa_buckets p) k j) k (oa_val s) p"
      using True Cons.prems(3) by (auto simp: p'_def oa_rehash_slot_def k_def chained_at_def)
    note ok = oa_place_ok [OF Cons.prems(1) kn(1) refl j(1,2), of "oa_val s", folded j(4)]
    have ok': "oa_inv p'" "map_of (slot_entries (oa_buckets p')) = (map_of (slot_entries (oa_buckets p)))(k \<mapsto> oa_val s)"
      "oa_size p' = oa_size p + 1" "oa_bucket_count p' = n" "oa_tombstones p' = 0"
      using ok j(3) Cons.prems(2,3) by (simp_all add: oa_bucket_count_def j(4)) (simp add: oa_place_occupied_def Let_def)
    have keys: "fst ` set (slot_entries (oa_buckets p')) = insert k (fst ` set (slot_entries (oa_buckets p)))"
      using ok'(2) by (metis dom_fun_upd dom_map_of_conv_image_fst option.distinct(1))
    have "fst ` set (slot_entries bs) \<inter> fst ` set (slot_entries (oa_buckets p')) = {}"
      using Cons.prems(6) kn(2) True unfolding keys by auto
    moreover have "oa_size p' + length bs < n" using Cons.prems(4) ok'(3) by simp
    moreover have "distinct (map fst (slot_entries bs))" using Cons.prems(5) by (auto split: if_splits)
    ultimately have IH: "oa_inv (fold (oa_rehash_slot n) bs p')" "oa_tombstones (fold (oa_rehash_slot n) bs p') = 0"
      "oa_bucket_count (fold (oa_rehash_slot n) bs p') = n"
      "oa_size (fold (oa_rehash_slot n) bs p') \<le> oa_size p' + length bs"
      "map_of (slot_entries (oa_buckets (fold (oa_rehash_slot n) bs p')))
        = map_of (slot_entries (oa_buckets p')) ++ map_of (slot_entries bs)"
      using Cons.IH [OF ok'(1,5,4)] by blast+
    have none: "map_of (slot_entries bs) k = None" using kn(2) by (simp add: map_of_eq_None_iff)
    have "map_of (slot_entries (oa_buckets p')) ++ map_of (slot_entries bs)
        = map_of (slot_entries (oa_buckets p)) ++ map_of (slot_entries (s # bs))"
      using none True unfolding ok'(2) by (auto simp: map_add_def fun_eq_iff k_def split: option.splits)
    then show ?thesis using IH ok'(3) by (simp add: p'_def [symmetric])
  qed
qed (auto simp: map_add_def)

lemma oa_empty_table:
  assumes "n = 2 ^ m" "oa_buckets p = replicate n oa_free_slot" "oa_mask p = n - 1" "oa_size p = 0" "oa_tombstones p = 0"
  shows "oa_inv p" "slot_entries (oa_buckets p) = []" "oa_bucket_count p = n"
proof -
  have free: "oa_state oa_free_slot = Slot_Empty" by (simp add: oa_free_slot_def)
  have n: "0 < n" using assms(1) by simp
  then show "oa_bucket_count p = n" by (simp add: oa_bucket_count_def assms(3))
  show "slot_entries (oa_buckets p) = []" by (simp add: assms(2))
  show "oa_inv p" unfolding oa_inv_def
    using assms n free by (auto simp: oa_chains_def intro!: exI [of _ m])
qed

lemma oa_rehash_ok:
  assumes "oa_inv p"
  shows "oa_inv (oa_rehash (oa_bucket_count p * 2) p)"
    "map_of (slot_entries (oa_buckets (oa_rehash (oa_bucket_count p * 2) p))) = map_of (slot_entries (oa_buckets p))"
    "oa_size (oa_rehash (oa_bucket_count p * 2) p) + oa_tombstones (oa_rehash (oa_bucket_count p * 2) p)
      < oa_bucket_count (oa_rehash (oa_bucket_count p * 2) p)"
    "oa_tombstones (oa_rehash (oa_bucket_count p * 2) p) = 0"
    "oa_bucket_count (oa_rehash (oa_bucket_count p * 2) p) = oa_bucket_count p * 2"
proof -
  define n where "n = oa_bucket_count p * 2"
  define p0 where "p0 = p\<lparr>oa_buckets := replicate n oa_free_slot, oa_mask := n - 1, oa_size := 0, oa_tombstones := 0\<rparr>"
  obtain m where "oa_bucket_count p = 2 ^ m" using assms by (auto simp: oa_inv_def oa_bucket_count_def)
  then have "n = 2 ^ Suc m" by (simp add: n_def)
  note e = oa_empty_table [OF this, of p0]
  have len: "length (oa_buckets p) < n" using assms by (auto simp: n_def oa_inv_def oa_bucket_count_def)
  have p0: "oa_inv p0" "oa_tombstones p0 = 0" "oa_bucket_count p0 = n" "oa_size p0 = 0"
      "slot_entries (oa_buckets p0) = []"
    using e by (simp_all add: p0_def)
  have r: "oa_rehash n p = fold (oa_rehash_slot n) (oa_buckets p) p0" by (simp add: oa_rehash_def p0_def)
  show "oa_inv (oa_rehash (oa_bucket_count p * 2) p)"
    "map_of (slot_entries (oa_buckets (oa_rehash (oa_bucket_count p * 2) p))) = map_of (slot_entries (oa_buckets p))"
    "oa_size (oa_rehash (oa_bucket_count p * 2) p) + oa_tombstones (oa_rehash (oa_bucket_count p * 2) p)
      < oa_bucket_count (oa_rehash (oa_bucket_count p * 2) p)"
    "oa_tombstones (oa_rehash (oa_bucket_count p * 2) p) = 0"
    "oa_bucket_count (oa_rehash (oa_bucket_count p * 2) p) = oa_bucket_count p * 2"
    using oa_rehash_fold [OF p0(1-3), of "oa_buckets p"] p0(4,5) len oa_invD(4) [OF assms]
    by (simp_all add: n_def [symmetric] r)
qed

lemma oa_insert_ok:
  assumes "oa_inv p" "0 < snd load" "fst load \<le> snd load"
  shows "oa_inv (oa_insert load k v p)"
    "map_of (slot_entries (oa_buckets (oa_insert load k v p))) = (map_of (slot_entries (oa_buckets p)))(k \<mapsto> v)"
proof -
  define p' where "p' = (if oa_bucket_count p * fst load \<le> (oa_size p + oa_tombstones p) * snd load
               then oa_rehash (oa_bucket_count p * 2) p else p)"
  have "oa_inv p' \<and> map_of (slot_entries (oa_buckets p')) = map_of (slot_entries (oa_buckets p))
      \<and> oa_size p' + oa_tombstones p' < oa_bucket_count p'"
  proof (cases "oa_bucket_count p * fst load \<le> (oa_size p + oa_tombstones p) * snd load")
    case True
    then show ?thesis using oa_rehash_ok [OF assms(1)] by (simp add: p'_def)
  next
    case False
    then have "(oa_size p + oa_tombstones p) * snd load < oa_bucket_count p * snd load"
      using mult_le_mono2 [OF assms(3), of "oa_bucket_count p"] by linarith
    then show ?thesis using False assms(1) by (simp add: p'_def)
  qed
  then have p': "oa_inv p'" "map_of (slot_entries (oa_buckets p')) = map_of (slot_entries (oa_buckets p))"
    "oa_size p' + oa_tombstones p' < oa_bucket_count p'" by blast+
  have "oa_insert load k v p = oa_insert_probe k v (oa_index_of k (oa_bucket_count p')) (oa_bucket_count p') 0 None p'"
    by (simp add: oa_insert_def p'_def Let_def)
  then show "oa_inv (oa_insert load k v p)"
    "map_of (slot_entries (oa_buckets (oa_insert load k v p))) = (map_of (slot_entries (oa_buckets p)))(k \<mapsto> v)"
    using oa_insert_probe_ok [OF p'(1) oa_empty_on_probe [OF p'(1,3)] insert_searched_start, of k v] p'(2) by simp_all
qed

lemma oa_clear_ok:
  assumes "oa_inv p"
  shows "oa_inv (oa_clear p)" "slot_entries (oa_buckets (oa_clear p)) = []"
proof -
  obtain m where m: "oa_mask p + 1 = 2 ^ m" "length (oa_buckets p) = oa_mask p + 1"
    using assms by (auto simp: oa_inv_def)
  then have "oa_buckets (oa_clear p) = replicate (2 ^ m) oa_free_slot" "oa_mask (oa_clear p) = 2 ^ m - 1"
    by (simp_all add: oa_clear_def map_replicate_const)
  from oa_empty_table [OF refl this]
  show "oa_inv (oa_clear p)" "slot_entries (oa_buckets (oa_clear p)) = []" by (simp_all add: oa_clear_def)
qed

lemma oa_init_ok: "oa_inv oa_init" "oa_lookup oa_init = Map.empty"
proof -
  have "hash_initial_capacity = 2 ^ 4" by (simp add: hash_initial_capacity_def)
  note e = oa_empty_table [OF this, of oa_init]
  show "oa_inv oa_init" using e(1) by (simp add: oa_init_def)
  then show "oa_lookup oa_init = Map.empty" using e(2) by (simp add: fun_eq_iff oa_lookup_map oa_init_def)
qed

section \<open>The map contract\<close>

lemma oa_records_entries:
  assumes "oa_inv p"
  shows "oa_records p = slot_entries (oa_buckets p)"
proof -
  define n where "n = oa_bucket_count p"
  have bs: "map (\<lambda>i. oa_buckets p ! i) [0..<n] = oa_buckets p"
    using oa_invD(1) [OF assms] by (simp add: n_def map_nth flip: oa_invD(1) [OF assms])
  have "slot_entries (map (\<lambda>i. oa_buckets p ! i) [0..<n]) = map (\<lambda>i. (oa_key (oa_buckets p ! i), oa_val (oa_buckets p ! i)))
      (filter (\<lambda>i. oa_state (oa_buckets p ! i) = Slot_Occupied) [0..<n])"
    unfolding slot_entries_def by (simp only: filter_map map_map comp_def)
  then show ?thesis
    unfolding bs by (simp add: oa_records_def oa_slot_is_occupied_def [abs_def] oa_slot_key_def oa_slot_value_def n_def)
qed

lemma oa_map_memento:
  assumes "0 < snd load" "fst load \<le> snd load"
  shows "map_memento oa_inv oa_lookup (oa_insert load) oa_erase oa_size oa_clear oa_records"
proof unfold_locales
  have l: "oa_lookup p = map_of (slot_entries (oa_buckets p))" if "oa_inv p" for p
    using oa_lookup_map [OF that] by (simp add: fun_eq_iff)
  fix p k v assume i: "oa_inv p"
  note ins = oa_insert_ok [OF i assms, of k v] and era = oa_erase_ok [OF i, of k]
  show ii: "oa_inv (oa_insert load k v p)" by (rule ins(1))
  show "oa_lookup (oa_insert load k v p) = (oa_lookup p)(k \<mapsto> v)" using ins(2) by (simp only: l [OF i] l [OF ii])
  show ei: "oa_inv (snd (oa_erase k p))" using era by blast
  show "oa_lookup (snd (oa_erase k p)) = (oa_lookup p)(k := None)" using era by (simp only: l [OF i] l [OF ei])
  show "fst (oa_erase k p) \<longleftrightarrow> oa_lookup p k \<noteq> None" using era by (simp only: l [OF i])
  show "oa_size p = card (dom (oa_lookup p))"
    using oa_invD(4,6) [OF i] by (simp add: l [OF i] card_dom_map_of)
  show ci: "oa_inv (oa_clear p)" by (rule oa_clear_ok(1) [OF i])
  show "oa_lookup (oa_clear p) = Map.empty" unfolding l [OF ci] by (simp add: oa_clear_ok(2) [OF i])
  show "distinct (map fst (oa_records p))" using oa_invD(4) [OF i] by (simp add: oa_records_entries [OF i])
  show "map_of (oa_records p) = oa_lookup p" by (simp add: oa_records_entries [OF i] l [OF i])
qed

interpretation oa50: map_memento oa_inv oa_lookup "oa_insert oa_lf50" oa_erase oa_size oa_clear oa_records
  by (rule oa_map_memento) (simp_all add: oa_lf50_def)

interpretation oa70: map_memento oa_inv oa_lookup "oa_insert oa_lf70" oa_erase oa_size oa_clear oa_records
  by (rule oa_map_memento) (simp_all add: oa_lf70_def)

interpretation oa90: map_memento oa_inv oa_lookup "oa_insert oa_lf90" oa_erase oa_size oa_clear oa_records
  by (rule oa_map_memento) (simp_all add: oa_lf90_def)

section \<open>Properties\<close>

text \<open>C23: Doubling an open-addressing table keeps every entry, drops every tombstone, and leaves an empty
  slot on the probe sequence of every key, so that the insertion that follows cannot fall through.\<close>
theorem oa_rehash_keeps_map:
  assumes "oa_inv p"
  shows "oa_lookup (oa_rehash (oa_bucket_count p * 2) p) = oa_lookup p
    \<and> oa_size (oa_rehash (oa_bucket_count p * 2) p) = oa_size p
    \<and> oa_tombstones (oa_rehash (oa_bucket_count p * 2) p) = 0
    \<and> (\<exists>j. oa_slot_is_empty (oa_rehash (oa_bucket_count p * 2) p)
        ((oa_index_of k (oa_bucket_count p * 2) + j) AND (oa_bucket_count p * 2 - 1)))"
proof -
  define p' where "p' = oa_rehash (oa_bucket_count p * 2) p"
  note r = oa_rehash_ok [OF assms, folded p'_def]
  have l: "oa_lookup p' = oa_lookup p" using r(2) by (simp add: fun_eq_iff oa_lookup_map [OF assms] oa_lookup_map [OF r(1)])
  have "oa_size p' = oa_size p" using oa50.count_card [OF r(1)] oa50.count_card [OF assms] by (simp add: l)
  moreover obtain j where "oa_state (oa_buckets p' ! probe_pos (oa_buckets p') k j) = Slot_Empty"
    using oa_empty_on_probe [OF r(1,3)] by blast
  then have "oa_slot_is_empty p' ((oa_index_of k (oa_bucket_count p * 2) + j) AND (oa_bucket_count p * 2 - 1))"
    using oa_pos [OF r(1), of k j] by (simp add: r(5) oa_slot_is_empty_def)
  ultimately show ?thesis using l r(4) unfolding p'_def by blast
qed

theorem oa_rehash_keeps_map_witness:
  "oa_lookup (oa_rehash (oa_bucket_count (oa_insert oa_lf70 5 50 oa_init) * 2) (oa_insert oa_lf70 5 50 oa_init)) 5
    = Some 50"
proof -
  have "oa_inv (oa_insert oa_lf70 5 50 oa_init)" by (rule oa70.insert_inv [OF oa_init_ok(1)])
  from oa_rehash_keeps_map [OF this, of 5] show ?thesis
    by (simp add: oa70.lookup_insert [OF oa_init_ok(1)])
qed

end
