(* ===== verification/Eytzinger.thy ===== *)
theory Eytzinger imports Sorted_Search begin

text \<open>
  The Eytzinger organ: \<^verbatim>\<open>EytzingerLayoutStore\<close> (parallel sorted key and value arrays and a lazily
  rebuilt copy in breadth-first tree order), \<^verbatim>\<open>EytzingerTraversalOrgan\<close> and
  \<^verbatim>\<open>ComposedEytzingerSearch\<close>.  A lookup rebuilds the copy when the dirty flag is set, descends it
  without comparing for equality and decodes the result from the bits of the final index.

  \<open>eyt_order\<close> is the in-order traversal of the implicit tree on the indices 1..n.  The rebuild writes
  the sorted slots along it, and the descent followed by the decoding finds the first index of it
  whose key is not smaller.  The organ refines the sorted slot store of \<open>Sorted_Search\<close>.
\<close>

section \<open>The layout store\<close>

record eyt_store =
  ey_keys :: "u64 list"
  ey_values :: "u64 list"
  ey_eyt_keys :: "u64 list"
  ey_eyt_vals :: "u64 list"
  ey_dirty :: bool

definition ey_init :: eyt_store where
  "ey_init = \<lparr>ey_keys = [], ey_values = [], ey_eyt_keys = [], ey_eyt_vals = [], ey_dirty = False\<rparr>"

definition ey_assign :: "eyt_store \<Rightarrow> eyt_store \<Rightarrow> eyt_store" where
  "ey_assign self src = self\<lparr>ey_keys := ey_keys src, ey_values := ey_values src,
     ey_eyt_keys := ey_eyt_keys src, ey_eyt_vals := ey_eyt_vals src, ey_dirty := ey_dirty src\<rparr>"

definition ey_slot_count :: "eyt_store \<Rightarrow> nat" where "ey_slot_count p = length (ey_keys p)"
definition ey_key_at :: "eyt_store \<Rightarrow> nat \<Rightarrow> u64" where "ey_key_at p i = ey_keys p ! i"
definition ey_value_at :: "eyt_store \<Rightarrow> nat \<Rightarrow> u64" where "ey_value_at p i = ey_values p ! i"
definition eyt_key_at :: "eyt_store \<Rightarrow> nat \<Rightarrow> u64" where "eyt_key_at p i = ey_eyt_keys p ! i"
definition eyt_value_at :: "eyt_store \<Rightarrow> nat \<Rightarrow> u64" where "eyt_value_at p i = ey_eyt_vals p ! i"

definition ey_set_value_at :: "nat \<Rightarrow> u64 \<Rightarrow> eyt_store \<Rightarrow> eyt_store" where
  "ey_set_value_at i v p = p\<lparr>ey_values := (ey_values p)[i := v], ey_dirty := True\<rparr>"

definition ey_insert_slot_at :: "nat \<Rightarrow> u64 \<Rightarrow> u64 \<Rightarrow> eyt_store \<Rightarrow> eyt_store" where
  "ey_insert_slot_at i k v p = p\<lparr>ey_keys := insert_at i k (ey_keys p), ey_values := insert_at i v (ey_values p),
     ey_dirty := True\<rparr>"

definition ey_erase_slot_at :: "nat \<Rightarrow> eyt_store \<Rightarrow> eyt_store" where
  "ey_erase_slot_at i p = p\<lparr>ey_keys := erase_at i (ey_keys p), ey_values := erase_at i (ey_values p), ey_dirty := True\<rparr>"

definition ey_append_slot :: "u64 \<Rightarrow> u64 \<Rightarrow> eyt_store \<Rightarrow> eyt_store" where
  "ey_append_slot k v p = p\<lparr>ey_keys := ey_keys p @ [k], ey_values := ey_values p @ [v], ey_dirty := True\<rparr>"

definition ey_clear :: "eyt_store \<Rightarrow> eyt_store" where
  "ey_clear p = p\<lparr>ey_keys := [], ey_values := [], ey_eyt_keys := [], ey_eyt_vals := [], ey_dirty := True\<rparr>"

text \<open>\<^verbatim>\<open>fill_eytzinger\<close>: returns the arrays and the next sorted position.  The code starts it at the
  root 1, whose descendants never are 0; the first test makes the recursion end for every argument.\<close>
function fill_eytzinger :: "eyt_store \<Rightarrow> nat \<Rightarrow> nat \<Rightarrow> u64 list \<times> u64 list \<times> nat \<Rightarrow> u64 list \<times> u64 list \<times> nat" where
  "fill_eytzinger p k n st =
     (if 0 < k \<and> k \<le> n
      then (case fill_eytzinger p (2 * k) n st of
          (ks, vs, pos) \<Rightarrow>
            fill_eytzinger p (2 * k + 1) n (ks[k := ey_keys p ! pos], vs[k := ey_values p ! pos], pos + 1))
      else st)"
  by pat_completeness auto
termination by (relation "measure (\<lambda>(p, k, n, st). n + 1 - k)") auto

declare fill_eytzinger.simps [simp del]

definition ey_rebuild_if_dirty :: "eyt_store \<Rightarrow> eyt_store" where
  "ey_rebuild_if_dirty p =
     (if \<not> ey_dirty p then p
      else (let n = length (ey_keys p);
                (ks, vs, pos) = fill_eytzinger p 1 n (replicate (n + 1) 0, replicate (n + 1) 0, 0)
            in p\<lparr>ey_eyt_keys := ks, ey_eyt_vals := vs, ey_dirty := False\<rparr>))"

section \<open>The traversal\<close>

function ey_lower_bound_loop :: "eyt_store \<Rightarrow> u64 \<Rightarrow> nat \<Rightarrow> nat \<Rightarrow> nat" where
  "ey_lower_bound_loop p k lo hi = (if lo < hi
     then (let m = lo + (hi - lo) div 2
           in if ey_key_at p m < k then ey_lower_bound_loop p k (m + 1) hi else ey_lower_bound_loop p k lo m)
     else lo)"
  by pat_completeness auto
termination by (relation "measure (\<lambda>(p, k, lo, hi). hi - lo)") auto

declare ey_lower_bound_loop.simps [simp del]

definition ey_lower_bound_index :: "eyt_store \<Rightarrow> u64 \<Rightarrow> nat" where
  "ey_lower_bound_index p k = ey_lower_bound_loop p k 0 (ey_slot_count p)"

definition ey_insert :: "u64 \<Rightarrow> u64 \<Rightarrow> eyt_store \<Rightarrow> eyt_store" where
  "ey_insert k v p =
     (let i = ey_lower_bound_index p k
      in if i < ey_slot_count p \<and> ey_key_at p i = k then ey_set_value_at i v p else ey_insert_slot_at i k v p)"

definition ey_erase :: "u64 \<Rightarrow> eyt_store \<Rightarrow> bool \<times> eyt_store" where
  "ey_erase k p =
     (let i = ey_lower_bound_index p k
      in if i < ey_slot_count p \<and> ey_key_at p i = k then (True, ey_erase_slot_at i p) else (False, p))"

text \<open>The branch-free descent; the first test again only serves arguments that do not occur.\<close>
function eyt_descend :: "eyt_store \<Rightarrow> u64 \<Rightarrow> nat \<Rightarrow> nat \<Rightarrow> nat" where
  "eyt_descend p k n j =
     (if 0 < j \<and> j \<le> n then eyt_descend p k n (2 * j + (if eyt_key_at p j < k then 1 else 0)) else j)"
  by pat_completeness auto
termination by (relation "measure (\<lambda>(p, k, n, j). n + 1 - j)") auto

declare eyt_descend.simps [simp del]

text \<open>\<^verbatim>\<open>std::countr_one\<close>.\<close>
function countr_one :: "nat \<Rightarrow> nat" where
  "countr_one j = (if odd j then 1 + countr_one (j div 2) else 0)"
  by pat_completeness auto
termination by (relation "measure id") (auto elim: oddE)

declare countr_one.simps [simp del]

text \<open>\<^verbatim>\<open>lookup_in\<close> and the store after it: the rebuild changes the mutable copy only.\<close>
definition ey_lookup :: "u64 \<Rightarrow> eyt_store \<Rightarrow> u64 option \<times> eyt_store" where
  "ey_lookup k p0 =
     (let p = ey_rebuild_if_dirty p0; n = ey_slot_count p
      in (if n = 0 then None
          else (let j = eyt_descend p k n 1; idx = drop_bit (countr_one j + 1) j
                in if 1 \<le> idx \<and> idx \<le> n \<and> eyt_key_at p idx = k then Some (eyt_value_at p idx) else None), p))"

definition ey_records :: "eyt_store \<Rightarrow> slot list" where
  "ey_records p = map (\<lambda>i. (ey_key_at p i, ey_value_at p i)) [0..<ey_slot_count p]"

lemmas ey_defs = ey_slot_count_def ey_key_at_def ey_value_at_def ey_set_value_at_def ey_insert_slot_at_def
  ey_erase_slot_at_def ey_clear_def

section \<open>The implicit tree\<close>

function eyt_order :: "nat \<Rightarrow> nat \<Rightarrow> nat list" where
  "eyt_order n k = (if 0 < k \<and> k \<le> n then eyt_order n (2 * k) @ k # eyt_order n (2 * k + 1) else [])"
  by pat_completeness auto
termination by (relation "measure (\<lambda>(n, k). n + 1 - k)") auto

declare eyt_order.simps [simp del]

text \<open>The descendants of \<open>k\<close>.\<close>
lemma set_eyt_order:
  "0 < k \<Longrightarrow> set (eyt_order n k) = {j. j \<le> n \<and> (\<exists>d. j div 2 ^ d = k)}"
proof (induction "n + 1 - k" arbitrary: k rule: less_induct)
  case less
  show ?case
  proof (cases "k \<le> n")
    case True
    have "set (eyt_order n (2 * k)) = {j. j \<le> n \<and> (\<exists>d. j div 2 ^ d = 2 * k)}"
      "set (eyt_order n (2 * k + 1)) = {j. j \<le> n \<and> (\<exists>d. j div 2 ^ d = 2 * k + 1)}"
      using less.hyps [of "2 * k"] less.hyps [of "2 * k + 1"] less.prems True by auto
    moreover have "(\<exists>d. j div 2 ^ d = k) \<longleftrightarrow> j = k \<or> (\<exists>d. j div 2 ^ d = 2 * k) \<or> (\<exists>d. j div 2 ^ d = 2 * k + 1)" for j
    proof
      assume "\<exists>d. j div 2 ^ d = k"
      then obtain d where d: "j div 2 ^ d = k" by blast
      show "j = k \<or> (\<exists>d. j div 2 ^ d = 2 * k) \<or> (\<exists>d. j div 2 ^ d = 2 * k + 1)"
      proof (cases d)
        case (Suc e)
        then have "(j div 2 ^ e) div 2 = k" using d by (simp only: power_Suc2 div_mult2_eq)
        then have "j div 2 ^ e = 2 * k \<or> j div 2 ^ e = 2 * k + 1" by linarith
        then show ?thesis by blast
      qed (use d in simp)
    next
      assume "j = k \<or> (\<exists>d. j div 2 ^ d = 2 * k) \<or> (\<exists>d. j div 2 ^ d = 2 * k + 1)"
      moreover have "\<exists>d'. j div 2 ^ d' = k" if "j div 2 ^ d = 2 * k \<or> j div 2 ^ d = 2 * k + 1" for d
        using that by (intro exI [of _ "Suc d"]) (auto simp: div_mult2_eq mult.commute [of 2])
      moreover have "\<exists>d. j div 2 ^ d = j" by (rule exI [of _ 0]) simp
      ultimately show "\<exists>d. j div 2 ^ d = k" by blast
    qed
    ultimately show ?thesis using less.prems True by (auto simp: eyt_order.simps [of n k])
  next
    case False
    moreover have "\<not> (j \<le> n \<and> j div 2 ^ d = k)" for j d
      using False le_trans [OF div_le_dividend [of j "2 ^ d"], of n] by auto
    ultimately show ?thesis by (auto simp: eyt_order.simps [of n k])
  qed
qed

lemma eyt_order_empty: "eyt_order n k = [] \<longleftrightarrow> k = 0 \<or> n < k"
  by (subst eyt_order.simps) auto

text \<open>No index is a descendant of both children.\<close>
lemma div_power_split: "d \<le> e \<Longrightarrow> j div 2 ^ e = (j div 2 ^ d) div 2 ^ (e - d)" for j :: nat
  by (metis div_mult2_eq le_add_diff_inverse power_add)

lemma children_disjoint:
  fixes j k :: nat
  assumes "j div 2 ^ d = 2 * k" "j div 2 ^ e = 2 * k + 1" "0 < k"
  shows False
proof (cases "d \<le> e")
  case True
  have "2 * k + 1 = (2 * k) div 2 ^ (e - d)"
    using div_power_split [OF True, of j] by (simp only: assms(1,2))
  moreover have "(2 * k) div 2 ^ (e - d) \<le> 2 * k" by (rule div_le_dividend)
  ultimately show False by linarith
next
  case False
  then obtain c where c: "d - e = Suc c" by (metis Suc_diff_Suc not_le)
  have "2 * k = (2 * k + 1) div 2 ^ (d - e)"
    using div_power_split [of e d j] False by (simp only: assms(1,2) nat_le_linear)
  also have "\<dots> = ((2 * k + 1) div 2) div 2 ^ c" unfolding c by (simp only: power_Suc div_mult2_eq)
  also have "\<dots> \<le> (2 * k + 1) div 2" by (rule div_le_dividend)
  finally show False using assms(3) by simp
qed

lemma distinct_eyt_order: "distinct (eyt_order n k)"
proof (induction "n + 1 - k" arbitrary: k rule: less_induct)
  case less
  show ?case
  proof (cases "0 < k \<and> k \<le> n")
    case True
    have "distinct (eyt_order n (2 * k))" "distinct (eyt_order n (2 * k + 1))"
      using True less.hyps [of "2 * k"] less.hyps [of "2 * k + 1"] by auto
    moreover have "set (eyt_order n (2 * k)) \<inter> set (eyt_order n (2 * k + 1)) = {}"
      using True children_disjoint by (auto simp: set_eyt_order)
    moreover have "k div 2 ^ d \<noteq> 2 * k" "k div 2 ^ d \<noteq> 2 * k + 1" for d
      using True div_le_dividend [of k "2 ^ d"] by linarith+
    then have "k \<notin> set (eyt_order n (2 * k)) \<union> set (eyt_order n (2 * k + 1))"
      using True by (simp add: set_eyt_order)
    ultimately show ?thesis using True by (auto simp: eyt_order.simps [of n k])
  next
    case False
    then have "eyt_order n k = []" by (auto simp: eyt_order_empty)
    then show ?thesis by simp
  qed
qed

lemma root_descendants: "0 < j \<Longrightarrow> \<exists>d. j div 2 ^ d = (1 :: nat)"
proof (induction j rule: less_induct)
  case (less j)
  show ?case
  proof (cases "j = 1")
    case False
    then have "0 < j div 2" "j div 2 < j" using less.prems by auto
    then obtain d where "(j div 2) div 2 ^ d = 1" using less.IH by blast
    then show ?thesis by (intro exI [of _ "Suc d"]) (simp add: div_mult2_eq)
  qed (auto intro: exI [of _ 0])
qed

lemma eyt_order_root: "set (eyt_order n 1) = {1..n}" "length (eyt_order n 1) = n"
proof -
  have "j div 2 ^ d = 1 \<Longrightarrow> 0 < j" for j d :: nat by (cases j) auto
  then show s: "set (eyt_order n 1) = {1..n}" using root_descendants by (fastforce simp: set_eyt_order)
  show "length (eyt_order n 1) = n" using distinct_card [OF distinct_eyt_order, of n 1] s by simp
qed

section \<open>The rebuild\<close>

text \<open>The fill writes the next sorted slots along the order.\<close>
lemma fill_eytzinger_order:
  assumes "length ks = n + 1" "length vs = n + 1"
  shows "case fill_eytzinger p k n (ks, vs, pos) of (ks', vs', pos') \<Rightarrow>
     length ks' = n + 1 \<and> length vs' = n + 1 \<and> pos' = pos + length (eyt_order n k)
     \<and> (\<forall>i < length (eyt_order n k). ks' ! (eyt_order n k ! i) = ey_keys p ! (pos + i)
          \<and> vs' ! (eyt_order n k ! i) = ey_values p ! (pos + i))
     \<and> (\<forall>j. j \<notin> set (eyt_order n k) \<longrightarrow> ks' ! j = ks ! j \<and> vs' ! j = vs ! j)"
  using assms
proof (induction "n + 1 - k" arbitrary: k ks vs pos rule: less_induct)
  case less
  show ?case
  proof (cases "0 < k \<and> k \<le> n")
    case True
    let ?L = "eyt_order n (2 * k)" and ?R = "eyt_order n (2 * k + 1)"
    obtain ks1 vs1 pos1 where l: "fill_eytzinger p (2 * k) n (ks, vs, pos) = (ks1, vs1, pos1)" by (metis prod_cases3)
    have L: "length ks1 = n + 1" "length vs1 = n + 1" "pos1 = pos + length ?L"
      "\<forall>i < length ?L. ks1 ! (?L ! i) = ey_keys p ! (pos + i) \<and> vs1 ! (?L ! i) = ey_values p ! (pos + i)"
      "\<forall>j. j \<notin> set ?L \<longrightarrow> ks1 ! j = ks ! j \<and> vs1 ! j = vs ! j"
      using less.hyps [of "2 * k" ks vs pos] True less.prems l by auto
    let ?ks = "ks1[k := ey_keys p ! pos1]" and ?vs = "vs1[k := ey_values p ! pos1]"
    obtain ks2 vs2 pos2 where r: "fill_eytzinger p (2 * k + 1) n (?ks, ?vs, pos1 + 1) = (ks2, vs2, pos2)" by (metis prod_cases3)
    have R: "length ks2 = n + 1" "length vs2 = n + 1" "pos2 = pos1 + 1 + length ?R"
      "\<forall>i < length ?R. ks2 ! (?R ! i) = ey_keys p ! (pos1 + 1 + i) \<and> vs2 ! (?R ! i) = ey_values p ! (pos1 + 1 + i)"
      "\<forall>j. j \<notin> set ?R \<longrightarrow> ks2 ! j = ?ks ! j \<and> vs2 ! j = ?vs ! j"
      using less.hyps [of "2 * k + 1" ?ks ?vs "pos1 + 1"] True L(1,2) r by auto
    have o': "eyt_order n k = ?L @ k # ?R" using True by (simp add: eyt_order.simps [of n k])
    have d: "distinct (?L @ k # ?R)" using distinct_eyt_order [of n k] by (simp add: o')
    have f: "fill_eytzinger p k n (ks, vs, pos) = (ks2, vs2, pos2)"
      using True l r by (simp add: fill_eytzinger.simps [of p k])
    have kl: "k < n + 1" using True by simp
    have at: "ks2 ! ((?L @ k # ?R) ! i) = ey_keys p ! (pos + i) \<and> vs2 ! ((?L @ k # ?R) ! i) = ey_values p ! (pos + i)"
      if i: "i < length (?L @ k # ?R)" for i
    proof -
      consider "i < length ?L" | "i = length ?L" | "length ?L < i" by linarith
      then show ?thesis
      proof cases
        case 1
        then have "?L ! i \<in> set ?L" by simp
        then have "?L ! i \<notin> set ?R" "?L ! i \<noteq> k" using d by auto
        then show ?thesis using 1 L(4) R(5) by (simp add: nth_append)
      next
        case 2
        moreover have "k \<notin> set ?R" using d by simp
        ultimately show ?thesis using R(5) L(1-3) kl by simp
      next
        case 3
        define m where "m = i - Suc (length ?L)"
        have m: "i = Suc (length ?L + m)" "m < length ?R" using 3 i by (simp_all add: m_def)
        have "(?L @ k # ?R) ! i = ?R ! m" unfolding m(1) by (simp add: nth_append)
        moreover have "pos + i = pos1 + 1 + m" by (simp add: m(1) L(3))
        ultimately show ?thesis using R(4) m(2) by simp
      qed
    qed
    have out: "ks2 ! j = ks ! j \<and> vs2 ! j = vs ! j" if "j \<notin> set (?L @ k # ?R)" for j
      using that R(5) L(5) by simp
    have len: "length ks2 = n + 1" "length vs2 = n + 1" "pos2 = pos + length (?L @ k # ?R)"
      using R(1-3) L(3) by simp_all
    show ?thesis unfolding f o' prod.case using at out len by blast
  next
    case False
    then have "fill_eytzinger p k n (ks, vs, pos) = (ks, vs, pos)" "eyt_order n k = []"
      by (subst fill_eytzinger.simps, simp only: if_False) (use False in \<open>auto simp: eyt_order_empty\<close>)
    then show ?thesis using less.prems by simp
  qed
qed

section \<open>The descent\<close>

definition eyt_strip :: "nat \<Rightarrow> nat" where
  "eyt_strip j = drop_bit (countr_one j + 1) j"

text \<open>Decoding an index undoes the right turns since the last left turn, and that left turn.\<close>
lemma eyt_strip_children: "eyt_strip (2 * j) = j" "eyt_strip (2 * j + 1) = eyt_strip j" "eyt_strip 1 = 0"
proof -
  have "countr_one (2 * j) = 0" by (subst countr_one.simps) simp
  then show "eyt_strip (2 * j) = j" by (simp add: eyt_strip_def drop_bit_eq_div)
  have "countr_one (2 * j + 1) = 1 + countr_one j" by (subst countr_one.simps) simp
  then have "eyt_strip (2 * j + 1) = drop_bit (countr_one j + 1) (drop_bit 1 (2 * j + 1))"
    unfolding eyt_strip_def drop_bit_drop_bit by (simp only: add.commute add.assoc)
  then show "eyt_strip (2 * j + 1) = eyt_strip j" by (simp add: eyt_strip_def drop_bit_eq_div)
  have "countr_one 0 = 0" by (subst countr_one.simps) simp
  then have "countr_one 1 = 1" by (subst countr_one.simps) simp
  then show "eyt_strip 1 = 0" by (simp add: eyt_strip_def drop_bit_eq_div)
qed

definition eyt_sorted :: "eyt_store \<Rightarrow> nat list \<Rightarrow> bool" where
  "eyt_sorted p is \<longleftrightarrow> sorted_wrt (\<lambda>i j. eyt_key_at p i < eyt_key_at p j) is"

definition first_or :: "nat \<Rightarrow> nat list \<Rightarrow> nat" where
  "first_or b xs = (case xs of [] \<Rightarrow> b | x # _ \<Rightarrow> x)"

lemma eyt_descend_first:
  assumes "0 < j" "eyt_sorted p (eyt_order n j)"
  shows "eyt_strip (eyt_descend p k n j)
    = first_or (eyt_strip j) (filter (\<lambda>i. \<not> eyt_key_at p i < k) (eyt_order n j))"
  using assms
proof (induction "n + 1 - j" arbitrary: j rule: less_induct)
  case less
  show ?case
  proof (cases "j \<le> n")
    case False
    then have "eyt_descend p k n j = j" "eyt_order n j = []"
      by (subst eyt_descend.simps, simp, simp add: eyt_order_empty)
    then show ?thesis by (simp add: first_or_def)
  next
    case True
    let ?L = "eyt_order n (2 * j)" and ?R = "eyt_order n (2 * j + 1)"
    have o': "eyt_order n j = ?L @ j # ?R" using True less.prems by (simp add: eyt_order.simps [of n j])
    have s: "eyt_sorted p ?L" "eyt_sorted p ?R" "\<forall>i \<in> set ?L. eyt_key_at p i < eyt_key_at p j"
      "\<forall>i \<in> set ?R. eyt_key_at p j < eyt_key_at p i"
      using less.prems(2) by (auto simp: o' eyt_sorted_def sorted_wrt_append)
    have m: "n + 1 - 2 * j < n + 1 - j" "n + 1 - (2 * j + 1) < n + 1 - j" using True less.prems(1) by linarith+
    show ?thesis
    proof (cases "eyt_key_at p j < k")
      case True
      then have "eyt_descend p k n j = eyt_descend p k n (2 * j + 1)"
        using \<open>j \<le> n\<close> less.prems(1) by (subst eyt_descend.simps) simp
      moreover have "filter (\<lambda>i. \<not> eyt_key_at p i < k) ?L = []"
        using True s(3) by (fastforce simp: filter_empty_conv intro: less_trans)
      ultimately show ?thesis using less.hyps [OF m(2) _ s(2)] True eyt_strip_children(2) [of j] by (simp add: o')
    next
      case False
      then have "eyt_descend p k n j = eyt_descend p k n (2 * j)"
        using \<open>j \<le> n\<close> less.prems(1) by (subst eyt_descend.simps) simp
      then show ?thesis using less.hyps [OF m(1) _ s(1)] False less.prems(1)
        by (auto simp: o' eyt_strip_children first_or_def split: list.splits)
    qed
  qed
qed

lemma first_or_map_of:
  "sorted_wrt (\<lambda>i j. f i < (f j :: u64)) xs \<Longrightarrow>
   map_of (map (\<lambda>i. (f i, g i)) xs) k =
     (case filter (\<lambda>i. \<not> f i < k) xs of [] \<Rightarrow> None | i # _ \<Rightarrow> if f i = k then Some (g i) else None)"
proof (induction xs)
  case (Cons x xs)
  have "filter (\<lambda>i. \<not> f i < k) xs = xs" "map_of (map (\<lambda>i. (f i, g i)) xs) k = None" if "k < f x"
    using that Cons.prems by (auto simp: filter_id_conv map_of_eq_None_iff dest: less_trans)
  then show ?case using Cons by (cases "f x" k rule: linorder_cases) auto
qed simp

section \<open>Refinement of the sorted slot store\<close>

definition ey_slots :: "eyt_store \<Rightarrow> slot_store" where
  "ey_slots p = zip (ey_keys p) (ey_values p)"

definition ey_cache_ok :: "eyt_store \<Rightarrow> bool" where
  "ey_cache_ok p \<longleftrightarrow> (let n = length (ey_keys p) in n = 0 \<or>
     length (ey_eyt_keys p) = n + 1 \<and> length (ey_eyt_vals p) = n + 1
     \<and> (\<forall>i < n. eyt_key_at p (eyt_order n 1 ! i) = ey_keys p ! i \<and> eyt_value_at p (eyt_order n 1 ! i) = ey_values p ! i))"

definition ey_inv :: "eyt_store \<Rightarrow> bool" where
  "ey_inv p \<longleftrightarrow> length (ey_values p) = length (ey_keys p) \<and> sorted_inv (ey_slots p) \<and> (\<not> ey_dirty p \<longrightarrow> ey_cache_ok p)"

lemma ey_rebuild_ok:
  assumes "ey_inv p"
  shows "ey_cache_ok (ey_rebuild_if_dirty p)" "ey_keys (ey_rebuild_if_dirty p) = ey_keys p"
    "ey_values (ey_rebuild_if_dirty p) = ey_values p" "\<not> ey_dirty (ey_rebuild_if_dirty p)"
proof -
  let ?n = "length (ey_keys p)"
  obtain ks vs pos where f: "fill_eytzinger p 1 ?n (replicate (?n + 1) 0, replicate (?n + 1) 0, 0) = (ks, vs, pos)"
    by (metis prod_cases3)
  have F: "length ks = ?n + 1" "length vs = ?n + 1"
    "\<forall>i < ?n. ks ! (eyt_order ?n 1 ! i) = ey_keys p ! i \<and> vs ! (eyt_order ?n 1 ! i) = ey_values p ! i"
    using fill_eytzinger_order [where ks = "replicate (?n + 1) 0" and vs = "replicate (?n + 1) 0" and n = ?n
        and p = p and k = 1 and pos = 0] f eyt_order_root(2) [of ?n] by auto
  show "ey_keys (ey_rebuild_if_dirty p) = ey_keys p" "ey_values (ey_rebuild_if_dirty p) = ey_values p"
    "\<not> ey_dirty (ey_rebuild_if_dirty p)"
    by (simp_all add: ey_rebuild_if_dirty_def Let_def split: prod.splits)
  show "ey_cache_ok (ey_rebuild_if_dirty p)"
  proof (cases "ey_dirty p")
    case True
    then have "ey_rebuild_if_dirty p = p\<lparr>ey_eyt_keys := ks, ey_eyt_vals := vs, ey_dirty := False\<rparr>"
      using f by (simp add: ey_rebuild_if_dirty_def Let_def)
    then show ?thesis using F by (simp add: ey_cache_ok_def Let_def eyt_key_at_def eyt_value_at_def)
  next
    case False
    then show ?thesis using assms by (simp add: ey_rebuild_if_dirty_def ey_inv_def)
  qed
qed

lemma ey_lookup_map:
  assumes "ey_inv p"
  shows "fst (ey_lookup k p) = map_of (ey_slots p) k" "ey_inv (snd (ey_lookup k p))"
    "ey_slots (snd (ey_lookup k p)) = ey_slots p"
proof -
  define q where "q = ey_rebuild_if_dirty p"
  note R = ey_rebuild_ok [OF assms, folded q_def]
  have sn: "snd (ey_lookup k p) = q" by (simp add: ey_lookup_def Let_def q_def)
  show sl: "ey_slots (snd (ey_lookup k p)) = ey_slots p" by (simp add: sn ey_slots_def R)
  then show "ey_inv (snd (ey_lookup k p))" using assms R by (simp add: ey_inv_def sn)
  let ?n = "length (ey_keys q)"
  let ?O = "eyt_order ?n 1"
  show "fst (ey_lookup k p) = map_of (ey_slots p) k"
  proof (cases "?n = 0")
    case True
    then show ?thesis by (simp add: ey_lookup_def Let_def q_def [symmetric] ey_slot_count_def ey_slots_def R)
  next
    case False
    then have C: "\<forall>i < ?n. eyt_key_at q (?O ! i) = ey_keys q ! i \<and> eyt_value_at q (?O ! i) = ey_values q ! i"
      using R(1) by (simp add: ey_cache_ok_def Let_def)
    have vl: "length (ey_values q) = ?n" using assms R by (simp add: ey_inv_def)
    have slots: "ey_slots q = map (\<lambda>i. (eyt_key_at q i, eyt_value_at q i)) ?O"
      using C vl by (intro nth_equalityI) (simp_all add: ey_slots_def eyt_order_root(2) del: One_nat_def)
    have "sorted_inv (ey_slots q)" using assms R by (simp add: ey_inv_def ey_slots_def)
    then have srt: "eyt_sorted q ?O"
      unfolding slots sorted_inv_def eyt_sorted_def by (simp add: sorted_wrt_map comp_def del: One_nat_def)
    define idx where "idx = eyt_strip (eyt_descend q k ?n 1)"
    have idx: "idx = first_or 0 (filter (\<lambda>i. \<not> eyt_key_at q i < k) ?O)"
      using eyt_descend_first [OF _ srt, of k] by (simp add: idx_def eyt_strip_children del: One_nat_def)
    have res: "fst (ey_lookup k p) = (if 1 \<le> idx \<and> idx \<le> ?n \<and> eyt_key_at q idx = k then Some (eyt_value_at q idx) else None)"
      using False by (simp add: ey_lookup_def Let_def q_def [symmetric] ey_slot_count_def idx_def eyt_strip_def)
    have mp: "map_of (ey_slots q) k = (case filter (\<lambda>i. \<not> eyt_key_at q i < k) ?O of [] \<Rightarrow> None
        | i # _ \<Rightarrow> if eyt_key_at q i = k then Some (eyt_value_at q i) else None)"
      unfolding slots by (rule first_or_map_of) (use srt in \<open>simp add: eyt_sorted_def\<close>)
    have "ey_slots p = ey_slots q" by (simp add: ey_slots_def R)
    then show ?thesis
    proof (cases "filter (\<lambda>i. \<not> eyt_key_at q i < k) ?O")
      case Nil
      then show ?thesis using \<open>ey_slots p = ey_slots q\<close> by (simp add: res mp idx first_or_def)
    next
      case (Cons i xs)
      then have "i \<in> set ?O" by (metis filter_is_subset list.set_intros(1) subsetD)
      then have "1 \<le> i \<and> i \<le> ?n" using eyt_order_root(1) [of ?n] by simp
      then show ?thesis using \<open>ey_slots p = ey_slots q\<close> Cons by (simp add: res mp idx first_or_def)
    qed
  qed
qed

text \<open>The parallel arrays compute what the slot store computes.\<close>
lemma ey_lower_bound_slots:
  assumes "length (ey_values p) = length (ey_keys p)"
  shows "hi \<le> length (ey_keys p) \<Longrightarrow> ey_lower_bound_loop p k lo hi = lower_bound_loop (ey_slots p) k lo hi"
proof (induction "hi - lo" arbitrary: lo hi rule: less_induct)
  case less
  show ?case
  proof (cases "lo < hi")
    case True
    define m where "m = lo + (hi - lo) div 2"
    have m: "lo \<le> m" "m < hi" "m < length (ey_keys p)" using True less.prems by (auto simp: m_def)
    have key: "key_at (ey_slots p) m = ey_key_at p m" using m(3) assms by (simp add: key_at_def ey_key_at_def ey_slots_def)
    have "ey_lower_bound_loop p k (m + 1) hi = lower_bound_loop (ey_slots p) k (m + 1) hi"
      "ey_lower_bound_loop p k lo m = lower_bound_loop (ey_slots p) k lo m"
      using less m by simp_all
    then show ?thesis using True key
      by (simp add: ey_lower_bound_loop.simps [of p k lo hi] lower_bound_loop.simps [of "ey_slots p" k lo hi] Let_def m_def)
  qed (simp add: ey_lower_bound_loop.simps [of p k lo hi] lower_bound_loop.simps [of "ey_slots p" k lo hi])
qed

lemma ey_insert_slots:
  assumes "length (ey_values p) = length (ey_keys p)"
  shows "ey_slots (ey_insert k v p) = sorted_insert k v (ey_slots p)"
    "length (ey_values (ey_insert k v p)) = length (ey_keys (ey_insert k v p))" "ey_dirty (ey_insert k v p)"
proof -
  define i where "i = lower_bound_index (ey_slots p) k"
  have i: "ey_lower_bound_index p k = i" "slot_count (ey_slots p) = ey_slot_count p"
    using ey_lower_bound_slots [OF assms order_refl, of k 0] assms
    by (simp_all add: i_def ey_lower_bound_index_def lower_bound_index_def ey_slot_count_def slot_count_def ey_slots_def)
  have key: "j < ey_slot_count p \<Longrightarrow> key_at (ey_slots p) j = ey_key_at p j" for j
    using assms by (simp add: key_at_def ey_key_at_def ey_slots_def ey_slot_count_def)
  have set: "j < ey_slot_count p \<Longrightarrow> ey_slots (ey_set_value_at j v p) = set_value_at j v (ey_slots p)" for j
    using assms by (simp add: ey_slots_def ey_set_value_at_def set_value_at_def ey_slot_count_def update_zip)
  have ins: "ey_slots (ey_insert_slot_at j k v p) = insert_slot_at j k v (ey_slots p)" for j
    using assms by (simp add: ey_slots_def ey_insert_slot_at_def insert_slot_at_def insert_at_def take_zip drop_zip zip_append)
  show "ey_slots (ey_insert k v p) = sorted_insert k v (ey_slots p)"
    using key set ins by (auto simp: ey_insert_def sorted_insert_def i(1) i_def [symmetric] i(2) Let_def)
  show "length (ey_values (ey_insert k v p)) = length (ey_keys (ey_insert k v p))" "ey_dirty (ey_insert k v p)"
    using assms by (simp_all add: ey_insert_def Let_def ey_set_value_at_def ey_insert_slot_at_def insert_at_def)
qed

lemma ey_erase_slots:
  assumes "length (ey_values p) = length (ey_keys p)"
  shows "fst (ey_erase k p) = fst (sorted_erase k (ey_slots p))" "ey_slots (snd (ey_erase k p)) = snd (sorted_erase k (ey_slots p))"
    "length (ey_values (snd (ey_erase k p))) = length (ey_keys (snd (ey_erase k p)))"
    "fst (ey_erase k p) \<longrightarrow> ey_dirty (snd (ey_erase k p))" "\<not> fst (ey_erase k p) \<longrightarrow> snd (ey_erase k p) = p"
proof -
  define i where "i = lower_bound_index (ey_slots p) k"
  have i: "ey_lower_bound_index p k = i" "slot_count (ey_slots p) = ey_slot_count p"
    using ey_lower_bound_slots [OF assms order_refl, of k 0] assms
    by (simp_all add: i_def ey_lower_bound_index_def lower_bound_index_def ey_slot_count_def slot_count_def ey_slots_def)
  have key: "j < ey_slot_count p \<Longrightarrow> key_at (ey_slots p) j = ey_key_at p j" for j
    using assms by (simp add: key_at_def ey_key_at_def ey_slots_def ey_slot_count_def)
  have era: "ey_slots (ey_erase_slot_at j p) = erase_slot_at j (ey_slots p)" for j
    using assms by (simp add: ey_slots_def ey_erase_slot_at_def erase_slot_at_def erase_at_def take_zip drop_zip zip_append)
  show "fst (ey_erase k p) = fst (sorted_erase k (ey_slots p))" "ey_slots (snd (ey_erase k p)) = snd (sorted_erase k (ey_slots p))"
    using key era by (auto simp: ey_erase_def sorted_erase_def i(1) i_def [symmetric] i(2) Let_def)
  show "length (ey_values (snd (ey_erase k p))) = length (ey_keys (snd (ey_erase k p)))"
    "fst (ey_erase k p) \<longrightarrow> ey_dirty (snd (ey_erase k p))" "\<not> fst (ey_erase k p) \<longrightarrow> snd (ey_erase k p) = p"
    using assms by (simp_all add: ey_erase_def Let_def ey_erase_slot_at_def erase_at_def)
qed

interpretation eytzinger: map_memento ey_inv "\<lambda>p k. fst (ey_lookup k p)" ey_insert ey_erase ey_slot_count ey_clear ey_records
proof unfold_locales
  fix p k v assume i: "ey_inv p"
  then have l: "length (ey_values p) = length (ey_keys p)" "sorted_inv (ey_slots p)" by (simp_all add: ey_inv_def)
  note ins = ey_insert_slots [OF l(1), of k v] and era = ey_erase_slots [OF l(1), of k]
  have look: "ey_inv q \<Longrightarrow> (\<lambda>k. fst (ey_lookup k q)) = map_of (ey_slots q)" for q by (simp add: ey_lookup_map fun_eq_iff)
  show ii: "ey_inv (ey_insert k v p)" using ins sorted_insert_correct [OF l(2)] by (simp add: ey_inv_def)
  show "(\<lambda>ka. fst (ey_lookup ka (ey_insert k v p))) = (\<lambda>k. fst (ey_lookup k p))(k \<mapsto> v)"
    unfolding look [OF ii] look [OF i] ins(1) using sorted_insert_correct [OF l(2)] by blast
  show ie: "ey_inv (snd (ey_erase k p))" using era sorted_erase_correct [OF l(2), of k] i by (auto simp: ey_inv_def)
  show "(\<lambda>ka. fst (ey_lookup ka (snd (ey_erase k p)))) = (\<lambda>k. fst (ey_lookup k p))(k := None)"
    unfolding look [OF ie] look [OF i] era(2) using sorted_erase_correct [OF l(2)] by blast
  show "fst (ey_erase k p) \<longleftrightarrow> fst (ey_lookup k p) \<noteq> None"
    using sorted_erase_correct [OF l(2), of k] era(1) ey_lookup_map(1) [OF i] by simp
  show "ey_slot_count p = card (dom (\<lambda>k. fst (ey_lookup k p)))"
    unfolding look [OF i] using card_dom_map_of [OF sorted_inv_distinct [OF l(2)]] l(1) by (simp add: ey_slot_count_def ey_slots_def)
  show ic: "ey_inv (ey_clear p)" by (simp add: ey_inv_def ey_clear_def ey_slots_def sorted_inv_def)
  show "(\<lambda>k. fst (ey_lookup k (ey_clear p))) = Map.empty" unfolding look [OF ic] by (simp add: ey_clear_def ey_slots_def)
  have rec: "ey_records p = ey_slots p"
    using l(1) by (intro nth_equalityI) (simp_all add: ey_records_def ey_slots_def ey_defs)
  show "distinct (map fst (ey_records p))" unfolding rec by (rule sorted_inv_distinct [OF l(2)])
  show "map_of (ey_records p) = (\<lambda>k. fst (ey_lookup k p))" unfolding rec look [OF i] by (rule refl)
qed

lemma ey_init_ok: "ey_inv ey_init"
  by (simp add: ey_inv_def ey_init_def ey_slots_def sorted_inv_def ey_cache_ok_def)

text \<open>A client whose lookups update the cached layout, as the \<^verbatim>\<open>mutable\<close> members do.\<close>
primrec ey_run :: "map_op list \<Rightarrow> eyt_store \<Rightarrow> map_result list" where
  "ey_run [] p = []"
| "ey_run (op # ops) p = (case op of
     Insert k v \<Rightarrow> ey_run ops (ey_insert k v p)
   | Erase k \<Rightarrow> (case ey_erase k p of (b, p') \<Rightarrow> Erased b # ey_run ops p')
   | Lookup k \<Rightarrow> (case ey_lookup k p of (r, p') \<Rightarrow> Found r # ey_run ops p')
   | Count \<Rightarrow> Counted (ey_slot_count p) # ey_run ops p
   | ClearAll \<Rightarrow> ey_run ops (ey_clear p))"

lemma ey_run_refines:
  "ey_inv p \<Longrightarrow> ey_run ops p = fst (spec_map_run ops (map_of (ey_slots p)))"
proof (induction ops arbitrary: p)
  case (Cons op ops)
  note i = Cons.prems
  have look: "ey_inv q \<Longrightarrow> map_of (ey_slots q) = (\<lambda>k. fst (ey_lookup k q))" for q by (simp add: ey_lookup_map fun_eq_iff)
  show ?case
  proof (cases op)
    case (Insert k v)
    then show ?thesis using Cons.IH [OF eytzinger.insert_inv [OF i, of k v]] eytzinger.lookup_insert [OF i, of k v]
      by (simp add: look [OF i] look [OF eytzinger.insert_inv [OF i]] spec_map_run_def del: fun_upd_apply)
  next
    case (Erase k)
    then show ?thesis using Cons.IH [OF eytzinger.erase_inv [OF i, of k]] eytzinger.lookup_erase [OF i, of k] eytzinger.erase_result [OF i, of k]
      by (simp add: look [OF i] look [OF eytzinger.erase_inv [OF i]] spec_map_run_def split_def del: fun_upd_apply)
  next
    case (Lookup k)
    then show ?thesis using Cons.IH [OF ey_lookup_map(2) [OF i, of k]] ey_lookup_map(1,3) [OF i, of k]
      by (simp add: spec_map_run_def split_def)
  next
    case Count
    then show ?thesis using Cons.IH [OF i] eytzinger.count_card [OF i] by (simp add: look [OF i] spec_map_run_def split_def)
  next
    case ClearAll
    then show ?thesis using Cons.IH [OF eytzinger.clear_inv [OF i]] by (simp add: spec_map_run_def ey_slots_def ey_clear_def)
  qed
qed (simp add: spec_map_run_def)

section \<open>Properties\<close>

text \<open>C17: The Eytzinger organ answers every sequence of calls like a finite map although its lookups read
  a cached layout: the dirty flag is set whenever the arrays change, the in-place rebuild puts the
  sorted slots where the branch-free descent looks for them, and decoding the final index with
  \<^verbatim>\<open>countr_one\<close> yields the first slot whose key is not smaller.\<close>
theorem eytzinger_refines_map:
  "ey_run ops ey_init = fst (spec_map_run ops Map.empty)"
  using ey_run_refines [OF ey_init_ok, of ops] by (simp add: ey_init_def ey_slots_def)

end
