(* ===== verification/Pool_Contract.thy ===== *)
theory Pool_Contract imports Lookup_Contract begin

text \<open>
  The contract of the lookup organs on linked node pools (\<^verbatim>\<open>tree_node_pool_store\<close>,
  \<^verbatim>\<open>skip_list_node_pool_store\<close>): their loops follow indices through the pool, so that they return
  only on well-formed pools, and an insertion that exhausts the pool's indices throws.  Every
  operation therefore yields an option (\<open>None\<close>: the loop does not return), and \<open>insert\<close> the sum of the
  exception and the new state.

  \<^item> \<open>pool_map\<close>: on well-formed states every operation returns; lookups, insertions and erasures are
    those of a finite map; an insertion throws exactly when its key is new and the number of stored keys is \<open>full\<close>,
    and then leaves the organ as it was.
  \<^item> \<open>budget_map\<close>: the same laws for a number of calls to come (the argument of the invariant), which covers the
    organs whose index type is not checked; \<open>pool_map\<close> is the case of no such limit.
  \<^item> \<open>pool_run\<close>: clients that catch the exception and go on.  Every sequence of calls returns and
    answers like the abstract map of that capacity.
\<close>

datatype pool_error = Length_Error

type_synonym 's pool_result = "(pool_error + 's) option"

text \<open>A client's call sequence; the exception of an insertion is recorded and the call has no effect.\<close>
primrec pool_run :: "('s \<Rightarrow> u64 \<Rightarrow> u64 option option) \<Rightarrow> (u64 \<Rightarrow> u64 \<Rightarrow> 's \<Rightarrow> 's pool_result)
    \<Rightarrow> (u64 \<Rightarrow> 's \<Rightarrow> (bool \<times> 's) option) \<Rightarrow> ('s \<Rightarrow> nat) \<Rightarrow> ('s \<Rightarrow> 's) \<Rightarrow> map_op list \<Rightarrow> 's
    \<Rightarrow> ((pool_error + map_result) list \<times> 's) option" where
  "pool_run look ins era cnt clr [] s = Some ([], s)"
| "pool_run look ins era cnt clr (op # ops) s = (case op of
     Insert k v \<Rightarrow> (case ins k v s of
       None \<Rightarrow> None
     | Some (Inl e) \<Rightarrow> map_option (\<lambda>(rs, s'). (Inl e # rs, s')) (pool_run look ins era cnt clr ops s)
     | Some (Inr s1) \<Rightarrow> pool_run look ins era cnt clr ops s1)
   | Erase k \<Rightarrow> (case era k s of
       None \<Rightarrow> None
     | Some (b, s1) \<Rightarrow> map_option (\<lambda>(rs, s'). (Inr (Erased b) # rs, s')) (pool_run look ins era cnt clr ops s1))
   | Lookup k \<Rightarrow> (case look s k of
       None \<Rightarrow> None
     | Some r \<Rightarrow> map_option (\<lambda>(rs, s'). (Inr (Found r) # rs, s')) (pool_run look ins era cnt clr ops s))
   | Count \<Rightarrow> map_option (\<lambda>(rs, s'). (Inr (Counted (cnt s)) # rs, s')) (pool_run look ins era cnt clr ops s)
   | ClearAll \<Rightarrow> pool_run look ins era cnt clr ops (clr s))"

text \<open>The abstract map of which a number of keys can be full.\<close>
definition spec_put :: "(nat \<Rightarrow> bool) \<Rightarrow> u64 \<Rightarrow> u64 \<Rightarrow> (u64 \<rightharpoonup> u64) \<Rightarrow> (u64 \<rightharpoonup> u64) pool_result" where
  "spec_put full k v m = Some (if m k = None \<and> full (card (dom m)) then Inl Length_Error else Inr (m(k \<mapsto> v)))"

definition spec_pool_run :: "(nat \<Rightarrow> bool) \<Rightarrow> map_op list \<Rightarrow> (u64 \<rightharpoonup> u64)
    \<Rightarrow> ((pool_error + map_result) list \<times> (u64 \<rightharpoonup> u64)) option" where
  "spec_pool_run full = pool_run (\<lambda>m k. Some (m k)) (spec_put full)
     (\<lambda>k m. Some (m k \<noteq> None, m(k := None))) (\<lambda>m. card (dom m)) (\<lambda>_. Map.empty)"

lemma spec_pool_run_simps:
  "spec_pool_run full [] m = Some ([], m)"
  "spec_pool_run full (Insert k v # ops) m =
     (if m k = None \<and> full (card (dom m))
      then map_option (\<lambda>(rs, s'). (Inl Length_Error # rs, s')) (spec_pool_run full ops m)
      else spec_pool_run full ops (m(k \<mapsto> v)))"
  "spec_pool_run full (Erase k # ops) m =
     map_option (\<lambda>(rs, s'). (Inr (Erased (m k \<noteq> None)) # rs, s')) (spec_pool_run full ops (m(k := None)))"
  "spec_pool_run full (Lookup k # ops) m =
     map_option (\<lambda>(rs, s'). (Inr (Found (m k)) # rs, s')) (spec_pool_run full ops m)"
  "spec_pool_run full (Count # ops) m =
     map_option (\<lambda>(rs, s'). (Inr (Counted (card (dom m))) # rs, s')) (spec_pool_run full ops m)"
  "spec_pool_run full (ClearAll # ops) m = spec_pool_run full ops Map.empty"
  by (simp_all add: spec_pool_run_def spec_put_def)

lemma spec_pool_run_returns: "spec_pool_run full ops m \<noteq> None"
proof (induction ops arbitrary: m)
  case (Cons op ops)
  then show ?case by (cases op) (simp_all add: spec_pool_run_simps del: not_None_eq)
qed (simp add: spec_pool_run_simps)

text \<open>While fewer insertions than the capacity are made, nothing is thrown.\<close>
lemma spec_pool_run_unbounded:
  "\<forall>n < card (dom m) + length ops. \<not> full n \<Longrightarrow>
   spec_pool_run full ops m = Some (map Inr (fst (spec_map_run ops m)), snd (spec_map_run ops m))"
proof (induction ops arbitrary: m)
  case (Cons op ops)
  have up: "card (dom (m(k \<mapsto> v))) \<le> Suc (card (dom m))" for k v
    by (simp add: card_insert_if)
  have down: "card (dom (m(k := None))) \<le> card (dom m)" for k
    by (auto intro!: card_mono)
  have i: "spec_pool_run full ops m' = Some (map Inr (fst (spec_map_run ops m')), snd (spec_map_run ops m'))"
    if "card (dom m') \<le> Suc (card (dom m))" for m'
    using Cons.IH [of m'] Cons.prems that by simp
  show ?case
  proof (cases op)
    case (Insert k v)
    then show ?thesis using i [OF up [of k v]] Cons.prems by (simp add: spec_pool_run_simps) (simp add: spec_map_run_def)
  next
    case (Erase k)
    then show ?thesis using i [OF le_SucI [OF down [of k]]]
      by (simp add: spec_pool_run_simps) (simp add: spec_map_run_def split_def)
  next
    case ClearAll
    then show ?thesis using i [of Map.empty] by (simp add: spec_pool_run_simps) (simp add: spec_map_run_def)
  qed (use i [of m] in \<open>simp add: spec_pool_run_simps, simp add: spec_map_run_def split_def\<close>)+
qed (simp add: spec_pool_run_def spec_map_run_def)

lemma spec_pool_run_total:
  "spec_pool_run (\<lambda>_. False) ops m = Some (map Inr (fst (spec_map_run ops m)), snd (spec_map_run ops m))"
  by (rule spec_pool_run_unbounded) simp

locale budget_map =
  fixes inv :: "nat \<Rightarrow> 's \<Rightarrow> bool"
    and look :: "'s \<Rightarrow> u64 \<Rightarrow> u64 option option"
    and ins :: "u64 \<Rightarrow> u64 \<Rightarrow> 's \<Rightarrow> 's pool_result"
    and era :: "u64 \<Rightarrow> 's \<Rightarrow> (bool \<times> 's) option"
    and cnt :: "'s \<Rightarrow> nat"
    and clr :: "'s \<Rightarrow> 's"
    and view :: "'s \<Rightarrow> u64 \<Rightarrow> u64 option"
    and full :: "nat \<Rightarrow> bool"
  assumes spend: "inv (Suc b) s \<Longrightarrow> inv b s"
    and budget_look: "inv b s \<Longrightarrow> look s k = Some (view s k)"
    and budget_full: "inv (Suc b) s \<Longrightarrow> view s k = None \<Longrightarrow> full (cnt s) \<Longrightarrow> ins k v s = Some (Inl Length_Error)"
    and budget_insert: "inv (Suc b) s \<Longrightarrow> view s k \<noteq> None \<or> \<not> full (cnt s) \<Longrightarrow>
      \<exists>s'. ins k v s = Some (Inr s') \<and> inv b s' \<and> view s' = (view s)(k \<mapsto> v)"
    and budget_erase: "inv (Suc b) s \<Longrightarrow>
      \<exists>s'. era k s = Some (view s k \<noteq> None, s') \<and> inv b s' \<and> view s' = (view s)(k := None)"
    and budget_count: "inv b s \<Longrightarrow> cnt s = card (dom (view s))"
    and budget_clear: "inv (Suc b) s \<Longrightarrow> inv b (clr s) \<and> view (clr s) = Map.empty"
begin

text \<open>Every sequence of calls within the budget returns and answers like the bounded map.\<close>
lemma run_refines:
  "inv (length ops) s \<Longrightarrow> \<exists>rs s'. pool_run look ins era cnt clr ops s = Some (rs, s') \<and> inv 0 s'
     \<and> spec_pool_run full ops (view s) = Some (rs, view s')"
proof (induction ops arbitrary: s)
  case (Cons op ops)
  have i: "inv (Suc (length ops)) s" using Cons.prems by simp
  note stay = Cons.IH [OF spend [OF i]]
  show ?case
  proof (cases op)
    case (Insert k v)
    show ?thesis
    proof (cases "view s k = None \<and> full (cnt s)")
      case True
      then show ?thesis using stay budget_full [OF i] budget_count [OF i]
        by (auto simp: Insert spec_pool_run_simps)
    next
      case False
      then obtain s1 where s1: "ins k v s = Some (Inr s1)" "inv (length ops) s1" "view s1 = (view s)(k \<mapsto> v)"
        using budget_insert [OF i, of k v] by auto
      have room: "(view s k = None \<and> full (card (dom (view s)))) = False" using False budget_count [OF i] by simp
      show ?thesis using Cons.IH [OF s1(2)] s1(1)
        by (simp only: Insert spec_pool_run_simps s1(3) room if_False pool_run.simps map_op.case option.case sum.case)
    qed
  next
    case (Erase k)
    obtain s1 where s1: "era k s = Some (view s k \<noteq> None, s1)" "inv (length ops) s1" "view s1 = (view s)(k := None)"
      using budget_erase [OF i] by blast
    then show ?thesis using Cons.IH [OF s1(2)]
      by (auto simp: Erase spec_pool_run_simps s1(3) simp del: fun_upd_apply)
  next
    case (Lookup k)
    then show ?thesis using stay budget_look [OF i] by (auto simp: spec_pool_run_simps)
  next
    case Count
    then show ?thesis using stay budget_count [OF i] by (auto simp: spec_pool_run_simps)
  next
    case ClearAll
    then show ?thesis using Cons.IH [of "clr s"] budget_clear [OF i] by (auto simp: spec_pool_run_simps)
  qed
qed (simp add: spec_pool_run_def)

lemma run_outputs:
  assumes "inv (length ops) s"
  shows "map_option fst (pool_run look ins era cnt clr ops s) = map_option fst (spec_pool_run full ops (view s))"
  using run_refines [OF assms] by auto

end

locale pool_map =
  fixes inv :: "'s \<Rightarrow> bool"
    and look :: "'s \<Rightarrow> u64 \<Rightarrow> u64 option option"
    and ins :: "u64 \<Rightarrow> u64 \<Rightarrow> 's \<Rightarrow> 's pool_result"
    and era :: "u64 \<Rightarrow> 's \<Rightarrow> (bool \<times> 's) option"
    and cnt :: "'s \<Rightarrow> nat"
    and clr :: "'s \<Rightarrow> 's"
    and view :: "'s \<Rightarrow> u64 \<Rightarrow> u64 option"
    and full :: "nat \<Rightarrow> bool"
  assumes look_view: "inv s \<Longrightarrow> look s k = Some (view s k)"
    and insert_full: "inv s \<Longrightarrow> view s k = None \<Longrightarrow> full (cnt s) \<Longrightarrow> ins k v s = Some (Inl Length_Error)"
    and insert_ok: "inv s \<Longrightarrow> view s k \<noteq> None \<or> \<not> full (cnt s) \<Longrightarrow>
      \<exists>s'. ins k v s = Some (Inr s') \<and> inv s' \<and> view s' = (view s)(k \<mapsto> v)"
    and erase_ok: "inv s \<Longrightarrow>
      \<exists>s'. era k s = Some (view s k \<noteq> None, s') \<and> inv s' \<and> view s' = (view s)(k := None)"
    and count_card: "inv s \<Longrightarrow> cnt s = card (dom (view s))"
    and clear_ok: "inv s \<Longrightarrow> inv (clr s) \<and> view (clr s) = Map.empty"
begin

text \<open>Every call returns.\<close>
lemma look_returns: "inv s \<Longrightarrow> look s k \<noteq> None"
  by (simp add: look_view)

lemma insert_returns: "inv s \<Longrightarrow> ins k v s \<noteq> None"
  using insert_full insert_ok by (metis option.distinct(1))

lemma erase_returns: "inv s \<Longrightarrow> era k s \<noteq> None"
  using erase_ok by (metis option.distinct(1))

end

text \<open>An organ that is never used up is one with any budget.\<close>
sublocale pool_map \<subseteq> budget: budget_map "\<lambda>_. inv" look ins era cnt clr view full
  using look_view insert_full insert_ok erase_ok count_card clear_ok by unfold_locales blast+

context pool_map begin

lemma run_refines:
  "inv s \<Longrightarrow> \<exists>rs s'. pool_run look ins era cnt clr ops s = Some (rs, s') \<and> inv s'
     \<and> spec_pool_run full ops (view s) = Some (rs, view s')"
  by (rule budget.run_refines)

lemma run_outputs:
  assumes "inv s"
  shows "map_option fst (pool_run look ins era cnt clr ops s) = map_option fst (spec_pool_run full ops (view s))"
  using run_refines [OF assms, of ops] by auto

text \<open>From the empty organ, with so few calls that it never is full, the answers are those of the unbounded map.\<close>
lemma run_unbounded:
  assumes "inv s" "view s = Map.empty" "\<forall>n < length ops. \<not> full n"
  shows "map_option fst (pool_run look ins era cnt clr ops s)
    = Some (map Inr (fst (spec_map_run ops Map.empty)))"
  using run_outputs [OF assms(1), of ops] spec_pool_run_unbounded [of Map.empty ops full] assms(2,3) by simp

end

end
