(* ===== verification/Hash_Chain.thy ===== *)
theory Hash_Chain imports Hash_Open Pool_Contract begin

text \<open>
  The chained hash organ: \<^verbatim>\<open>HashBucketPoolStore\<close> with the shape \<^verbatim>\<open>HashChaining\<close>,
  \<^verbatim>\<open>HashProbeTraversalOrgan\<close> and \<^verbatim>\<open>ComposedHashSearch\<close>.  Each bucket heads a list of nodes linked by
  index (\<open>None\<close> is \<^verbatim>\<open>kNil\<close>); erased nodes go to a free list; the bucket array doubles when as many keys
  as buckets are stored, and the nodes are then relinked in place.

  The chain of a bucket lists, each once, the occupied nodes that hash to it (\<open>hc_shape\<close>), so that
  the loops return, and the entries are those of the node array, shared with \<open>Hash_Open\<close>.
\<close>

section \<open>The pool\<close>

record hc_slot = oa_slot +
  hc_next :: "nat option"

record hc_pool =
  hc_heads :: "nat option list"
  hc_nodes :: "hc_slot list"
  hc_free :: "nat list"
  hc_mask :: nat
  hc_size :: nat
  hc_tombstones :: nat

definition hc_load :: "nat \<times> nat" where "hc_load = (1, 1)"

definition hc_init :: hc_pool where
  "hc_init = \<lparr>hc_heads = replicate hash_initial_capacity None, hc_nodes = [], hc_free = [],
     hc_mask = hash_initial_capacity - 1, hc_size = 0, hc_tombstones = 0\<rparr>"

definition hc_assign :: "hc_pool \<Rightarrow> hc_pool \<Rightarrow> hc_pool" where
  "hc_assign self src = self\<lparr>hc_heads := hc_heads src, hc_nodes := hc_nodes src, hc_free := hc_free src,
     hc_mask := hc_mask src, hc_size := hc_size src, hc_tombstones := hc_tombstones src\<rparr>"

definition hc_bucket_count :: "hc_pool \<Rightarrow> nat" where "hc_bucket_count p = length (hc_heads p)"
definition hc_slot_is_empty :: "hc_pool \<Rightarrow> nat \<Rightarrow> bool" where
  "hc_slot_is_empty p i \<longleftrightarrow> length (hc_nodes p) \<le> i \<or> oa_state (hc_nodes p ! i) \<noteq> Slot_Occupied"
definition hc_slot_is_occupied :: "hc_pool \<Rightarrow> nat \<Rightarrow> bool" where
  "hc_slot_is_occupied p i \<longleftrightarrow> i < length (hc_nodes p) \<and> oa_state (hc_nodes p ! i) = Slot_Occupied"
definition hc_slot_is_deleted :: "hc_pool \<Rightarrow> nat \<Rightarrow> bool" where "hc_slot_is_deleted p i \<longleftrightarrow> False"
definition hc_slot_key :: "hc_pool \<Rightarrow> nat \<Rightarrow> u64" where "hc_slot_key p i = oa_key (hc_nodes p ! i)"
definition hc_slot_value :: "hc_pool \<Rightarrow> nat \<Rightarrow> u64" where "hc_slot_value p i = oa_val (hc_nodes p ! i)"
definition hc_tombstone_count :: "hc_pool \<Rightarrow> nat" where "hc_tombstone_count p = 0"

definition hc_set_slot_value :: "nat \<Rightarrow> u64 \<Rightarrow> hc_pool \<Rightarrow> hc_pool" where
  "hc_set_slot_value i v p = p\<lparr>hc_nodes := (hc_nodes p)[i := (hc_nodes p ! i)\<lparr>oa_val := v\<rparr>]\<rparr>"

definition hc_chain_head :: "hc_pool \<Rightarrow> nat \<Rightarrow> nat option" where "hc_chain_head p b = hc_heads p ! b"
definition hc_node_next :: "hc_pool \<Rightarrow> nat \<Rightarrow> nat option" where "hc_node_next p i = hc_next (hc_nodes p ! i)"

definition hc_allocate_chained :: "nat \<Rightarrow> u64 \<Rightarrow> u64 \<Rightarrow> hc_pool \<Rightarrow> hc_pool" where
  "hc_allocate_chained bucket k v p =
     (let s = \<lparr>oa_key = k, oa_val = v, oa_state = Slot_Occupied, hc_next = hc_heads p ! bucket\<rparr>;
          (node, p1) = (if hc_free p \<noteq> []
             then (last (hc_free p), p\<lparr>hc_free := butlast (hc_free p),
                                       hc_nodes := (hc_nodes p)[last (hc_free p) := s]\<rparr>)
             else (length (hc_nodes p), p\<lparr>hc_nodes := hc_nodes p @ [s]\<rparr>))
      in p1\<lparr>hc_heads := (hc_heads p1)[bucket := Some node], hc_size := hc_size p1 + 1\<rparr>)"

definition hc_unlink_erase :: "nat \<Rightarrow> nat \<Rightarrow> nat option \<Rightarrow> hc_pool \<Rightarrow> hc_pool" where
  "hc_unlink_erase bucket node prev p =
     (let nxt = hc_next (hc_nodes p ! node);
          p1 = (case prev of
              None \<Rightarrow> p\<lparr>hc_heads := (hc_heads p)[bucket := nxt]\<rparr>
            | Some q \<Rightarrow> p\<lparr>hc_nodes := (hc_nodes p)[q := (hc_nodes p ! q)\<lparr>hc_next := nxt\<rparr>]\<rparr>)
      in p1\<lparr>hc_nodes := (hc_nodes p1)[node := (hc_nodes p1 ! node)\<lparr>oa_state := Slot_Empty, hc_next := None\<rparr>],
            hc_free := hc_free p1 @ [node], hc_size := hc_size p1 - 1\<rparr>)"

definition hc_hash_index :: "hc_pool \<Rightarrow> u64 \<Rightarrow> nat" where
  "hc_hash_index p k = unat (k * fibonacci_mul) AND hc_mask p"

text \<open>\<^verbatim>\<open>rehash\<close>: every occupied node is pushed in front of the chain of its bucket.\<close>
definition hc_relink :: "nat \<Rightarrow> nat \<Rightarrow> hc_pool \<Rightarrow> hc_pool" where
  "hc_relink new_mask node p =
     (if oa_state (hc_nodes p ! node) \<noteq> Slot_Occupied then p
      else (let bucket = hc_hash_index p (oa_key (hc_nodes p ! node)) AND new_mask;
                p1 = p\<lparr>hc_nodes := (hc_nodes p)[node := (hc_nodes p ! node)\<lparr>hc_next := hc_heads p ! bucket\<rparr>]\<rparr>
            in p1\<lparr>hc_heads := (hc_heads p1)[bucket := Some node]\<rparr>))"

definition hc_rehash :: "nat \<Rightarrow> hc_pool \<Rightarrow> hc_pool" where
  "hc_rehash new_capacity p =
     (let new_mask = new_capacity - 1;
          p1 = p\<lparr>hc_heads := replicate new_capacity None, hc_mask := new_mask\<rparr>
      in fold (hc_relink new_mask) [0..<length (hc_nodes p1)] p1)"

definition hc_clear :: "hc_pool \<Rightarrow> hc_pool" where
  "hc_clear p = p\<lparr>hc_heads := map (\<lambda>_. None) (hc_heads p), hc_nodes := [], hc_free := [], hc_size := 0,
     hc_tombstones := 0\<rparr>"

section \<open>The traversal\<close>

text \<open>The loop over a chain, shared by the operations: the node of a key and its predecessor.\<close>
partial_function (option) hc_find :: "hc_pool \<Rightarrow> u64 \<Rightarrow> nat option \<Rightarrow> nat option \<Rightarrow> (nat option \<times> nat) option option" where
  "hc_find p k prev cur =
     (if cur = None then Some None
      else if hc_slot_is_occupied p (the cur) \<and> hc_slot_key p (the cur) = k then Some (Some (prev, the cur))
      else hc_find p k cur (hc_node_next p (the cur)))"

definition hc_insert :: "u64 \<Rightarrow> u64 \<Rightarrow> hc_pool \<Rightarrow> hc_pool pool_result" where
  "hc_insert k v p0 =
     (let p = (if hc_bucket_count p0 * fst hc_load \<le> (hc_size p0 + hc_tombstone_count p0) * snd hc_load
               then hc_rehash (hc_bucket_count p0 * 2) p0 else p0);
          bucket = oa_index_of k (hc_bucket_count p)
      in case hc_find p k None (hc_chain_head p bucket) of
           None \<Rightarrow> None
         | Some (Some (prev, node)) \<Rightarrow> Some (Inr (hc_set_slot_value node v p))
         | Some None \<Rightarrow> Some (Inr (hc_allocate_chained bucket k v p)))"

definition hc_lookup :: "hc_pool \<Rightarrow> u64 \<Rightarrow> u64 option option" where
  "hc_lookup p k = (case hc_find p k None (hc_chain_head p (oa_index_of k (hc_bucket_count p))) of
     None \<Rightarrow> None
   | Some (Some (prev, node)) \<Rightarrow> Some (Some (hc_slot_value p node))
   | Some None \<Rightarrow> Some None)"

definition hc_erase :: "u64 \<Rightarrow> hc_pool \<Rightarrow> (bool \<times> hc_pool) option" where
  "hc_erase k p =
     (let bucket = oa_index_of k (hc_bucket_count p)
      in case hc_find p k None (hc_chain_head p bucket) of
           None \<Rightarrow> None
         | Some (Some (prev, node)) \<Rightarrow> Some (True, hc_unlink_erase bucket node prev p)
         | Some None \<Rightarrow> Some (False, p))"

text \<open>\<^verbatim>\<open>ComposedHashSearch::for_each_record\<close>: bucket by bucket, along the chains.\<close>
partial_function (option) hc_walk :: "hc_pool \<Rightarrow> nat option \<Rightarrow> slot list \<Rightarrow> slot list option" where
  "hc_walk p cur sink = (case cur of
     None \<Rightarrow> Some sink
   | Some node \<Rightarrow> hc_walk p (hc_node_next p node) (sink @ [(hc_slot_key p node, hc_slot_value p node)]))"

definition hc_records :: "hc_pool \<Rightarrow> slot list option" where
  "hc_records p = fold (\<lambda>b acc. case acc of None \<Rightarrow> None | Some sink \<Rightarrow> hc_walk p (hc_chain_head p b) sink)
     [0..<hc_bucket_count p] (Some [])"

section \<open>Chains\<close>

primrec hc_chain :: "hc_slot list \<Rightarrow> nat option \<Rightarrow> nat list \<Rightarrow> bool" where
  "hc_chain ns h [] \<longleftrightarrow> h = None"
| "hc_chain ns h (i # is) \<longleftrightarrow> h = Some i \<and> hc_chain ns (hc_next (ns ! i)) is"

lemma hc_chain_cong:
  "hc_chain ns h is \<Longrightarrow> \<forall>i \<in> set is. hc_next (ns' ! i) = hc_next (ns ! i) \<Longrightarrow> hc_chain ns' h is"
  by (induction "is" arbitrary: h) auto

lemma hc_chain_delete:
  assumes "hc_chain ns (Some q) (as @ i # bs)" "distinct (as @ i # bs)" "as \<noteq> []"
    "\<forall>j \<in> set (as @ bs). hc_next (ns' ! j) = (if j = last as then hc_next (ns ! i) else hc_next (ns ! j))"
  shows "hc_chain ns' (Some q) (as @ bs)"
  using assms
proof (induction as arbitrary: q)
  case (Cons a as)
  show ?case
  proof (cases as)
    case Nil
    have "hc_chain ns (hc_next (ns ! i)) bs" using Cons.prems(1) by (simp add: Nil)
    then have "hc_chain ns' (hc_next (ns ! i)) bs" by (rule hc_chain_cong) (use Cons.prems(2,4) in \<open>auto simp: Nil\<close>)
    then show ?thesis using Cons.prems(1,4) by (simp add: Nil)
  next
    case (Cons b as')
    then have "a \<noteq> last as" "as \<noteq> []" using Cons.prems(2) last_in_set [of as] by auto
    moreover obtain q' where "hc_next (ns ! a) = Some q'" using Cons.prems(1) Cons by auto
    ultimately show ?thesis using Cons.IH [of q'] Cons.prems by auto
  qed
qed simp

lemma hc_find_none:
  "hc_chain (hc_nodes p) h is \<Longrightarrow> \<forall>i \<in> set is. \<not> (hc_slot_is_occupied p i \<and> hc_slot_key p i = k) \<Longrightarrow>
   hc_find p k prev h = Some None"
  by (induction "is" arbitrary: h prev; subst hc_find.simps) (auto simp: hc_node_next_def)

lemma hc_find_some:
  "hc_chain (hc_nodes p) h (as @ i # bs) \<Longrightarrow> \<forall>j \<in> set as. \<not> (hc_slot_is_occupied p j \<and> hc_slot_key p j = k) \<Longrightarrow>
   hc_slot_is_occupied p i \<Longrightarrow> hc_slot_key p i = k \<Longrightarrow>
   hc_find p k prev h = Some (Some (if as = [] then prev else Some (last as), i))"
  by (induction as arbitrary: h prev; subst hc_find.simps) (auto simp: hc_node_next_def)

section \<open>The invariant\<close>

abbreviation hc_bucket_of :: "hc_pool \<Rightarrow> nat \<Rightarrow> nat" where
  "hc_bucket_of p i \<equiv> oa_index_of (hc_slot_key p i) (hc_bucket_count p)"

definition hc_shape :: "hc_pool \<Rightarrow> (nat \<Rightarrow> nat list) \<Rightarrow> bool" where
  "hc_shape p c \<longleftrightarrow> (\<exists>m. hc_bucket_count p = 2 ^ m) \<and> hc_mask p + 1 = hc_bucket_count p
     \<and> (\<forall>b < hc_bucket_count p. hc_chain (hc_nodes p) (hc_heads p ! b) (c b) \<and> distinct (c b)
          \<and> set (c b) = {i. hc_slot_is_occupied p i \<and> hc_bucket_of p i = b})"

definition hc_cells :: "hc_pool \<Rightarrow> slot list" where
  "hc_cells p = slot_entries (map oa_slot.truncate (hc_nodes p))"

definition hc_inv :: "hc_pool \<Rightarrow> bool" where
  "hc_inv p \<longleftrightarrow> (\<exists>c. hc_shape p c) \<and> distinct (map fst (hc_cells p)) \<and> hc_size p = length (hc_cells p)
     \<and> distinct (hc_free p) \<and> set (hc_free p) = {i. i < length (hc_nodes p) \<and> \<not> hc_slot_is_occupied p i}"

definition hc_view :: "hc_pool \<Rightarrow> u64 \<Rightarrow> u64 option" where
  "hc_view p = map_of (hc_cells p)"

lemma index_of_less: "0 < n \<Longrightarrow> n = 2 ^ m \<Longrightarrow> oa_index_of k n < n"
  by (simp only: oa_index_of_def nat_and_pow2) simp

lemma hc_cells_nodes:
  "hc_cells p = map (\<lambda>i. (hc_slot_key p i, hc_slot_value p i)) (filter (hc_slot_is_occupied p) [0..<length (hc_nodes p)])"
proof -
  have n: "hc_nodes p = map (\<lambda>i. hc_nodes p ! i) [0..<length (hc_nodes p)]" by (simp add: map_nth)
  have "hc_cells p = map (\<lambda>s. (oa_key s, oa_val s)) (filter (\<lambda>s. oa_state s = Slot_Occupied) (hc_nodes p))"
    by (simp add: hc_cells_def slot_entries_def filter_map comp_def oa_slot.truncate_def)
  also have "\<dots> = map (\<lambda>i. (oa_key (hc_nodes p ! i), oa_val (hc_nodes p ! i)))
      (filter (\<lambda>i. oa_state (hc_nodes p ! i) = Slot_Occupied) [0..<length (hc_nodes p)])"
    by (subst n) (simp only: filter_map map_map comp_def)
  also have "\<dots> = map (\<lambda>i. (hc_slot_key p i, hc_slot_value p i)) (filter (hc_slot_is_occupied p) [0..<length (hc_nodes p)])"
    by (intro map_cong filter_cong) (auto simp: hc_slot_key_def hc_slot_value_def hc_slot_is_occupied_def)
  finally show ?thesis .
qed

lemma hc_cells_iff:
  "(k, v) \<in> set (hc_cells p) \<longleftrightarrow> (\<exists>i. hc_slot_is_occupied p i \<and> hc_slot_key p i = k \<and> hc_slot_value p i = v)"
  by (auto simp: hc_cells_nodes image_iff) (auto simp: hc_slot_is_occupied_def)

lemma hc_key_inj:
  assumes "distinct (map fst (hc_cells p))" "hc_slot_is_occupied p i" "hc_slot_is_occupied p j" "hc_slot_key p i = hc_slot_key p j"
  shows "i = j"
proof -
  have "distinct (map (hc_slot_key p) (filter (hc_slot_is_occupied p) [0..<length (hc_nodes p)]))"
    using assms(1) by (simp add: hc_cells_nodes comp_def)
  then have "inj_on (hc_slot_key p) (set (filter (hc_slot_is_occupied p) [0..<length (hc_nodes p)]))"
    by (simp add: distinct_map)
  moreover have "i < length (hc_nodes p)" "j < length (hc_nodes p)" using assms(2,3) by (simp_all add: hc_slot_is_occupied_def)
  ultimately show ?thesis using assms(2-4) by (auto simp: inj_on_def)
qed

lemma hc_view_iff:
  "distinct (map fst (hc_cells p)) \<Longrightarrow>
   hc_view p k = Some v \<longleftrightarrow> (\<exists>i. hc_slot_is_occupied p i \<and> hc_slot_key p i = k \<and> hc_slot_value p i = v)"
  by (simp add: hc_view_def hc_cells_iff)

text \<open>The search finds the node of the key, with its predecessor in the chain of its bucket.\<close>
lemma hc_find_ok:
  assumes "hc_shape p c" "distinct (map fst (hc_cells p))" "b = oa_index_of k (hc_bucket_count p)"
  shows "b < hc_bucket_count p"
    and "hc_view p k = None \<Longrightarrow> hc_find p k None (hc_chain_head p b) = Some None"
    and "hc_view p k = Some v \<Longrightarrow> \<exists>as i bs. c b = as @ i # bs \<and> hc_slot_is_occupied p i \<and> hc_slot_key p i = k
      \<and> hc_slot_value p i = v
      \<and> hc_find p k None (hc_chain_head p b) = Some (Some (if as = [] then None else Some (last as), i))"
proof -
  obtain m where m: "hc_bucket_count p = 2 ^ m" using assms(1) by (auto simp: hc_shape_def)
  show b: "b < hc_bucket_count p" unfolding assms(3) using index_of_less [of "hc_bucket_count p" m] m by simp
  have C: "hc_chain (hc_nodes p) (hc_chain_head p b) (c b)" "distinct (c b)"
    "set (c b) = {i. hc_slot_is_occupied p i \<and> hc_bucket_of p i = b}"
    using assms(1) b by (auto simp: hc_shape_def hc_chain_head_def)
  {
    assume "hc_view p k = None"
    then have "\<not> (hc_slot_is_occupied p i \<and> hc_slot_key p i = k)" for i
      using hc_view_iff [OF assms(2)] by (metis option.distinct(1))
    then show "hc_find p k None (hc_chain_head p b) = Some None" using hc_find_none [OF C(1)] by blast
  next
    assume "hc_view p k = Some v"
    then obtain i where i: "hc_slot_is_occupied p i" "hc_slot_key p i = k" "hc_slot_value p i = v"
      using hc_view_iff [OF assms(2)] by blast
    then have "i \<in> set (c b)" unfolding C(3) using assms(3) by simp
    then obtain as bs where s: "c b = as @ i # bs" by (meson split_list)
    have "\<forall>j \<in> set as. \<not> (hc_slot_is_occupied p j \<and> hc_slot_key p j = k)"
      using C(2) hc_key_inj [OF assms(2) _ i(1)] i(2) by (auto simp: s)
    then show "\<exists>as i bs. c b = as @ i # bs \<and> hc_slot_is_occupied p i \<and> hc_slot_key p i = k
      \<and> hc_slot_value p i = v
      \<and> hc_find p k None (hc_chain_head p b) = Some (Some (if as = [] then None else Some (last as), i))"
      using hc_find_some [OF C(1) [unfolded s] _ i(1,2)] s i by blast
  }
qed

lemma hc_lookup_view: "hc_inv p \<Longrightarrow> hc_lookup p k = Some (hc_view p k)"
proof -
  assume "hc_inv p"
  then obtain c where c: "hc_shape p c" "distinct (map fst (hc_cells p))" by (auto simp: hc_inv_def)
  note f = hc_find_ok [OF c refl, of k]
  show ?thesis
  proof (cases "hc_view p k")
    case None
    then show ?thesis using f(2) by (simp add: hc_lookup_def)
  next
    case (Some v)
    then show ?thesis using f(3) [of v] by (auto simp: hc_lookup_def)
  qed
qed

section \<open>Changing values\<close>

lemma hc_set_value_ok:
  assumes "hc_inv p" "hc_slot_is_occupied p i" "hc_slot_key p i = k"
  shows "hc_inv (hc_set_slot_value i v p)" "hc_view (hc_set_slot_value i v p) = (hc_view p)(k \<mapsto> v)"
proof -
  let ?p' = "hc_set_slot_value i v p"
  have i: "i < length (hc_nodes p)" using assms(2) by (simp add: hc_slot_is_occupied_def)
  have same: "hc_slot_is_occupied ?p' j = hc_slot_is_occupied p j" "hc_slot_key ?p' j = hc_slot_key p j"
    "hc_next (hc_nodes ?p' ! j) = hc_next (hc_nodes p ! j)" "hc_heads ?p' = hc_heads p" "hc_mask ?p' = hc_mask p"
    "hc_free ?p' = hc_free p" "hc_size ?p' = hc_size p" "length (hc_nodes ?p') = length (hc_nodes p)" for j
    by (auto simp: hc_set_slot_value_def hc_slot_is_occupied_def hc_slot_key_def nth_update_cases)
  have chain: "hc_chain (hc_nodes ?p') h is = hc_chain (hc_nodes p) h is" for h "is"
    by (induction "is" arbitrary: h) (simp_all add: same)
  have shape: "hc_shape ?p' c" if "hc_shape p c" for c
    using that by (simp add: hc_shape_def chain hc_bucket_count_def same)
  let ?bs = "map oa_slot.truncate (hc_nodes p)"
  have q: "i < length ?bs" "oa_state (?bs ! i) = Slot_Occupied" "oa_key (?bs ! i) = k"
    "map oa_slot.truncate (hc_nodes ?p') = ?bs[i := (?bs ! i)\<lparr>oa_val := v\<rparr>]"
    using i assms(2,3)
    by (simp_all add: hc_slot_is_occupied_def hc_slot_key_def oa_slot.truncate_def hc_set_slot_value_def map_update)
  have d: "distinct (map fst (slot_entries ?bs))" using assms(1) by (simp add: hc_inv_def hc_cells_def)
  note e = entries_set_value [OF q(1,2) d q(4)]
  show "hc_view ?p' = (hc_view p)(k \<mapsto> v)" using e(1) q(3) by (simp add: hc_view_def hc_cells_def)
  have "length (hc_cells ?p') = length (hc_cells p)" "distinct (map fst (hc_cells ?p'))"
    using e(2) d by (simp_all add: hc_cells_def) (metis length_map)
  then show "hc_inv ?p'" using assms(1) shape by (auto simp: hc_inv_def same)
qed

section \<open>Allocation\<close>

lemma hc_allocate_cells:
  assumes "hc_inv p" "hc_view p k = None"
  obtains n p1 where "hc_allocate_chained b k v p = p1" "n < length (hc_nodes p1)" "\<not> hc_slot_is_occupied p n"
    "hc_nodes p1 ! n = \<lparr>oa_key = k, oa_val = v, oa_state = Slot_Occupied, hc_next = hc_heads p ! b\<rparr>"
    "\<forall>i. i \<noteq> n \<longrightarrow> (i < length (hc_nodes p1)) = (i < length (hc_nodes p))
       \<and> (i < length (hc_nodes p) \<longrightarrow> hc_nodes p1 ! i = hc_nodes p ! i)"
    "hc_heads p1 = (hc_heads p)[b := Some n]" "hc_mask p1 = hc_mask p" "hc_size p1 = hc_size p + 1"
    "distinct (hc_free p1)" "set (hc_free p1) = {i. i < length (hc_nodes p) \<and> \<not> hc_slot_is_occupied p i \<and> i \<noteq> n}"
    "map_of (hc_cells p1) = (map_of (hc_cells p))(k \<mapsto> v)" "distinct (map fst (hc_cells p1))"
    "length (hc_cells p1) = length (hc_cells p) + 1"
proof -
  have I: "distinct (map fst (hc_cells p))" "distinct (hc_free p)"
    "set (hc_free p) = {i. i < length (hc_nodes p) \<and> \<not> hc_slot_is_occupied p i}"
    using assms(1) by (auto simp: hc_inv_def)
  have k: "k \<notin> fst ` set (hc_cells p)" using assms(2) by (simp add: hc_view_def map_of_eq_None_iff)
  let ?bs = "map oa_slot.truncate (hc_nodes p)"
  let ?s = "\<lparr>oa_key = k, oa_val = v, oa_state = Slot_Occupied, hc_next = hc_heads p ! b\<rparr>"
  have tr: "oa_slot.truncate ?s = \<lparr>oa_key = k, oa_val = v, oa_state = Slot_Occupied\<rparr>" by (simp add: oa_slot.truncate_def)
  show ?thesis
  proof (cases "hc_free p = []")
    case True
    let ?p1 = "p\<lparr>hc_nodes := hc_nodes p @ [?s], hc_heads := (hc_heads p)[b := Some (length (hc_nodes p))], hc_size := hc_size p + 1\<rparr>"
    have cells: "hc_cells ?p1 = hc_cells p @ [(k, v)]" by (simp add: hc_cells_def tr)
    have occ: "i < length (hc_nodes p) \<Longrightarrow> hc_slot_is_occupied p i" for i using I(3) True by auto
    show ?thesis
    proof (rule that)
      show "hc_allocate_chained b k v p = ?p1" using True by (simp add: hc_allocate_chained_def)
      show "map_of (hc_cells ?p1) = (map_of (hc_cells p))(k \<mapsto> v)" unfolding cells using map_of_upd_middle [OF k, of v "[]"] by simp
    qed (use True occ I k cells in \<open>auto simp: nth_append hc_slot_is_occupied_def\<close>)
  next
    case False
    then obtain fr n where fr: "hc_free p = fr @ [n]" by (metis rev_exhaust)
    have n: "n < length (hc_nodes p)" "\<not> hc_slot_is_occupied p n" using I(3) by (auto simp: fr)
    let ?p1 = "p\<lparr>hc_free := fr, hc_nodes := (hc_nodes p)[n := ?s], hc_heads := (hc_heads p)[b := Some n], hc_size := hc_size p + 1\<rparr>"
    have q: "n < length ?bs" "oa_state (?bs ! n) \<noteq> Slot_Occupied" "map oa_slot.truncate (hc_nodes ?p1) = ?bs[n := oa_slot.truncate ?s]"
      using n by (simp_all add: hc_slot_is_occupied_def oa_slot.truncate_def map_update)
    note e = entries_fill [OF q(1,2) k [unfolded hc_cells_def] I(1) [unfolded hc_cells_def] q(3) [unfolded tr]]
    show ?thesis
    proof (rule that)
      show "hc_allocate_chained b k v p = ?p1" by (simp add: hc_allocate_chained_def fr)
      have "n \<notin> set fr" "set (hc_free p) = Set.insert n (set fr)" using I(2) by (auto simp: fr)
      then show "set (hc_free ?p1) = {i. i < length (hc_nodes p) \<and> \<not> hc_slot_is_occupied p i \<and> i \<noteq> n}"
        using I(3) by auto
    qed (use n I(2) e in \<open>auto simp: fr hc_cells_def\<close>)
  qed
qed

lemma hc_allocate_ok:
  assumes "hc_inv p" "hc_view p k = None" "b = oa_index_of k (hc_bucket_count p)"
  shows "hc_inv (hc_allocate_chained b k v p)" "hc_view (hc_allocate_chained b k v p) = (hc_view p)(k \<mapsto> v)"
proof -
  obtain c where c: "hc_shape p c" using assms(1) by (auto simp: hc_inv_def)
  have b: "b < hc_bucket_count p" using hc_find_ok(1) [OF c _ assms(3)] assms(1) by (simp add: hc_inv_def)
  obtain n p1 where a: "hc_allocate_chained b k v p = p1" "n < length (hc_nodes p1)" "\<not> hc_slot_is_occupied p n"
    "hc_nodes p1 ! n = \<lparr>oa_key = k, oa_val = v, oa_state = Slot_Occupied, hc_next = hc_heads p ! b\<rparr>"
    "\<forall>i. i \<noteq> n \<longrightarrow> (i < length (hc_nodes p1)) = (i < length (hc_nodes p))
       \<and> (i < length (hc_nodes p) \<longrightarrow> hc_nodes p1 ! i = hc_nodes p ! i)"
    "hc_heads p1 = (hc_heads p)[b := Some n]" "hc_mask p1 = hc_mask p" "hc_size p1 = hc_size p + 1"
    "distinct (hc_free p1)" "set (hc_free p1) = {i. i < length (hc_nodes p) \<and> \<not> hc_slot_is_occupied p i \<and> i \<noteq> n}"
    "map_of (hc_cells p1) = (map_of (hc_cells p))(k \<mapsto> v)" "distinct (map fst (hc_cells p1))"
    "length (hc_cells p1) = length (hc_cells p) + 1"
    by (rule hc_allocate_cells [OF assms(1,2)])
  show "hc_view (hc_allocate_chained b k v p) = (hc_view p)(k \<mapsto> v)" using a(1,11) by (simp add: hc_view_def)
  have occ: "hc_slot_is_occupied p1 i \<longleftrightarrow> i = n \<or> hc_slot_is_occupied p i" for i
    using a(2,4,5) by (cases "i = n") (auto simp: hc_slot_is_occupied_def)
  have key: "hc_slot_key p1 i = hc_slot_key p i" if "hc_slot_is_occupied p i" for i
    using a(3,5) that by (cases "i = n") (auto simp: hc_slot_is_occupied_def hc_slot_key_def)
  have kn: "hc_slot_key p1 n = k" using a(4) by (simp add: hc_slot_key_def)
  have cap: "hc_bucket_count p1 = hc_bucket_count p" using a(6) by (simp add: hc_bucket_count_def)
  define c' where "c' = c(b := n # c b)"
  have "hc_chain (hc_nodes p1) (hc_heads p1 ! d) (c' d) \<and> distinct (c' d)
      \<and> set (c' d) = {i. hc_slot_is_occupied p1 i \<and> hc_bucket_of p1 i = d}" if d: "d < hc_bucket_count p" for d
  proof -
    have C: "hc_chain (hc_nodes p) (hc_heads p ! d) (c d)" "distinct (c d)"
      "set (c d) = {i. hc_slot_is_occupied p i \<and> hc_bucket_of p i = d}"
      using c d by (auto simp: hc_shape_def)
    have n: "n \<notin> set (c d)" using C(3) a(3) by auto
    have ch: "hc_chain (hc_nodes p1) (hc_heads p ! d) (c d)"
      using C(3) a(5) n by (intro hc_chain_cong [OF C(1)]) (auto simp: hc_slot_is_occupied_def)
    show ?thesis
    proof (cases "d = b")
      case True
      then have "hc_chain (hc_nodes p1) (hc_heads p1 ! d) (c' d)"
        using ch b a(4,6) by (simp add: c'_def hc_bucket_count_def)
      moreover have "set (c' d) = {i. hc_slot_is_occupied p1 i \<and> hc_bucket_of p1 i = d}"
        using True C(3) kn assms(3) key by (auto simp: c'_def occ cap)
      ultimately show ?thesis using True C(2) n by (simp add: c'_def)
    next
      case False
      then have "set (c' d) = {i. hc_slot_is_occupied p1 i \<and> hc_bucket_of p1 i = d}"
        using C(3) kn assms(3) key by (auto simp: c'_def occ cap)
      then show ?thesis using False ch C(2) a(6) by (simp add: c'_def)
    qed
  qed
  then have "hc_shape p1 c'" using c a(7) by (simp add: hc_shape_def cap)
  moreover have "set (hc_free p1) = {i. i < length (hc_nodes p1) \<and> \<not> hc_slot_is_occupied p1 i}"
    using a(2,5,10) by (auto simp: occ)
  ultimately show "hc_inv (hc_allocate_chained b k v p)"
    using assms(1) a(1,8,9,12,13) by (auto simp: hc_inv_def)
qed

section \<open>Erasure\<close>

lemma hc_unlink_ok:
  assumes "hc_inv p" "hc_shape p c" "b < hc_bucket_count p" "c b = as @ i # bs" "hc_slot_is_occupied p i" "hc_slot_key p i = k"
    "p' = hc_unlink_erase b i (if as = [] then None else Some (last as)) p"
  shows "hc_inv p'" "hc_view p' = (hc_view p)(k := None)"
proof -
  have I: "distinct (map fst (hc_cells p))" "distinct (hc_free p)" "hc_size p = length (hc_cells p)"
    "set (hc_free p) = {i. i < length (hc_nodes p) \<and> \<not> hc_slot_is_occupied p i}"
    using assms(1) by (auto simp: hc_inv_def)
  have i: "i < length (hc_nodes p)" using assms(5) by (simp add: hc_slot_is_occupied_def)
  have C: "hc_chain (hc_nodes p) (hc_heads p ! b) (as @ i # bs)" "distinct (as @ i # bs)"
    "set (as @ i # bs) = {j. hc_slot_is_occupied p j \<and> hc_bucket_of p j = b}"
    using assms(2,3) unfolding assms(4) [symmetric] hc_shape_def by blast+
  have inb: "j < length (hc_nodes p)" if "j \<in> set (as @ i # bs)" for j
    using that C(3) by (auto simp: hc_slot_is_occupied_def)
  have li: "as \<noteq> [] \<Longrightarrow> last as \<noteq> i" using C(2) last_in_set by fastforce
  have ll: "as \<noteq> [] \<Longrightarrow> last as < length (hc_nodes p)" using inb last_in_set [of as] by simp
  have nodes: "length (hc_nodes p') = length (hc_nodes p)"
    "hc_nodes p' ! j = (if j = i then (hc_nodes p ! i)\<lparr>oa_state := Slot_Empty, hc_next := None\<rparr>
       else if as \<noteq> [] \<and> j = last as then (hc_nodes p ! j)\<lparr>hc_next := hc_next (hc_nodes p ! i)\<rparr> else hc_nodes p ! j)" for j
    using i li ll unfolding assms(7) by (simp_all add: hc_unlink_erase_def Let_def nth_update_cases)
  have other: "hc_heads p' = (if as = [] then (hc_heads p)[b := hc_next (hc_nodes p ! i)] else hc_heads p)"
    "hc_mask p' = hc_mask p" "hc_free p' = hc_free p @ [i]" "hc_size p' = hc_size p - 1"
    unfolding assms(7) by (simp_all add: hc_unlink_erase_def Let_def)
  have occ: "hc_slot_is_occupied p' j \<longleftrightarrow> hc_slot_is_occupied p j \<and> j \<noteq> i" for j
    by (auto simp: hc_slot_is_occupied_def nodes)
  have key: "hc_slot_key p' j = hc_slot_key p j" for j by (simp add: hc_slot_key_def nodes)
  have cap: "hc_bucket_count p' = hc_bucket_count p" by (simp add: hc_bucket_count_def other)
  let ?ns = "map oa_slot.truncate (hc_nodes p)"
  have q: "i < length ?ns" "oa_state (?ns ! i) = Slot_Occupied" "oa_key (?ns ! i) = k"
    "map oa_slot.truncate (hc_nodes p') = ?ns[i := (?ns ! i)\<lparr>oa_state := Slot_Empty\<rparr>]"
    using i assms(5,6) by (auto simp: hc_slot_is_occupied_def hc_slot_key_def oa_slot.truncate_def nodes nth_update_cases
        intro!: nth_equalityI)
  note e = entries_remove [OF q(1,2) I(1) [unfolded hc_cells_def] q(4)]
  show "hc_view p' = (hc_view p)(k := None)" using e(1) q(3) by (simp add: hc_view_def hc_cells_def)
  define c' where "c' = c(b := as @ bs)"
  have "hc_chain (hc_nodes p') (hc_heads p' ! d) (c' d) \<and> distinct (c' d)
      \<and> set (c' d) = {j. hc_slot_is_occupied p' j \<and> hc_bucket_of p' j = d}" if d: "d < hc_bucket_count p" for d
  proof (cases "d = b")
    case True
    have "hc_chain (hc_nodes p') (hc_heads p' ! b) (as @ bs)"
    proof (cases "as = []")
      case True
      have "hc_chain (hc_nodes p) (hc_next (hc_nodes p ! i)) bs" using C(1) by (simp add: True)
      then have "hc_chain (hc_nodes p') (hc_next (hc_nodes p ! i)) bs"
        by (rule hc_chain_cong) (use C(2) True in \<open>auto simp: nodes\<close>)
      then show ?thesis using True assms(3) by (simp add: other hc_bucket_count_def)
    next
      case False
      then obtain q where h: "hc_heads p ! b = Some q" using C(1) by (cases as) auto
      have "hc_chain (hc_nodes p') (Some q) (as @ bs)"
        by (rule hc_chain_delete [OF C(1) [unfolded h] C(2) False]) (use C(2) False in \<open>auto simp: nodes\<close>)
      then show ?thesis using False h by (simp add: other)
    qed
    moreover have "set (as @ bs) = {j. hc_slot_is_occupied p' j \<and> hc_bucket_of p' j = b}"
    proof -
      have "set (as @ bs) = set (as @ i # bs) - {i}" using C(2) by auto
      then show ?thesis unfolding C(3) by (auto simp: occ key cap)
    qed
    ultimately show ?thesis using True C(2) by (simp add: c'_def)
  next
    case False
    have D: "hc_chain (hc_nodes p) (hc_heads p ! d) (c d)" "distinct (c d)"
      "set (c d) = {j. hc_slot_is_occupied p j \<and> hc_bucket_of p j = d}"
      using assms(2) d by (auto simp: hc_shape_def)
    have dis: "set (c d) \<inter> set (as @ i # bs) = {}" using D(3) C(3) False by auto
    have "hc_chain (hc_nodes p') (hc_heads p ! d) (c d)"
      using dis last_in_set [of as] by (intro hc_chain_cong [OF D(1)]) (auto simp: nodes)
    moreover have "set (c d) = {j. hc_slot_is_occupied p' j \<and> hc_bucket_of p' j = d}"
      using D(3) dis by (auto simp: occ key cap)
    ultimately show ?thesis using False D(2) by (simp add: c'_def other)
  qed
  then have "hc_shape p' c'" using assms(2) by (simp add: hc_shape_def cap other)
  moreover have "set (hc_free p') = {j. j < length (hc_nodes p') \<and> \<not> hc_slot_is_occupied p' j}"
    using I(4) i by (auto simp: occ nodes other)
  moreover have "distinct (hc_free p')" using I(2,4) assms(5) by (simp add: other)
  ultimately show "hc_inv p'" using e(2,3) I(3) by (auto simp: hc_inv_def other hc_cells_def)
qed

section \<open>Rehashing\<close>

text \<open>The chains after the first \<open>n\<close> nodes are relinked.\<close>
definition hc_relinked :: "hc_pool \<Rightarrow> nat \<Rightarrow> nat \<Rightarrow> nat list" where
  "hc_relinked p n b = rev (filter (\<lambda>i. hc_slot_is_occupied p i \<and> hc_bucket_of p i = b) [0..<n])"

definition hc_relink_ok :: "hc_pool \<Rightarrow> nat \<Rightarrow> hc_pool \<Rightarrow> bool" where
  "hc_relink_ok p n q \<longleftrightarrow> length (hc_nodes q) = length (hc_nodes p) \<and> hc_bucket_count q = hc_bucket_count p
     \<and> hc_mask q = hc_mask p \<and> hc_free q = hc_free p \<and> hc_size q = hc_size p
     \<and> map oa_slot.truncate (hc_nodes q) = map oa_slot.truncate (hc_nodes p)
     \<and> (\<forall>b < hc_bucket_count p. hc_chain (hc_nodes q) (hc_heads q ! b) (hc_relinked p n b))"

lemma same_truncate:
  assumes "map oa_slot.truncate (hc_nodes q) = map oa_slot.truncate (hc_nodes p)"
  shows "hc_slot_is_occupied q i = hc_slot_is_occupied p i"
    "i < length (hc_nodes p) \<Longrightarrow> hc_slot_key q i = hc_slot_key p i" "hc_cells q = hc_cells p"
proof -
  have l: "length (hc_nodes q) = length (hc_nodes p)" using assms by (metis length_map)
  have t: "oa_slot.truncate (hc_nodes q ! i) = oa_slot.truncate (hc_nodes p ! i)" if "i < length (hc_nodes p)"
    using assms l that by (metis nth_map)
  show "hc_slot_is_occupied q i = hc_slot_is_occupied p i"
    using t l by (auto simp: hc_slot_is_occupied_def oa_slot.truncate_def)
  show "i < length (hc_nodes p) \<Longrightarrow> hc_slot_key q i = hc_slot_key p i"
    using t by (auto simp: hc_slot_key_def oa_slot.truncate_def)
  show "hc_cells q = hc_cells p" by (simp add: hc_cells_def assms)
qed

lemma hc_relink_step:
  assumes "hc_relink_ok p n q" "n < length (hc_nodes p)" "hc_bucket_count p = 2 ^ m" "hc_mask p = 2 ^ m - 1"
  shows "hc_relink_ok p (Suc n) (hc_relink (2 ^ m - 1) n q)"
proof -
  note Q = assms(1) [unfolded hc_relink_ok_def]
  have tq: "map oa_slot.truncate (hc_nodes q) = map oa_slot.truncate (hc_nodes p)" using Q by blast
  have n: "n < length (hc_nodes q)" using Q assms(2) by simp
  have occ: "oa_state (hc_nodes q ! n) = Slot_Occupied \<longleftrightarrow> hc_slot_is_occupied p n"
    using same_truncate(1) [OF tq, of n] n by (simp add: hc_slot_is_occupied_def)
  have key: "oa_key (hc_nodes q ! n) = hc_slot_key p n" using same_truncate(2) [OF tq assms(2)] by (simp add: hc_slot_key_def)
  show ?thesis
  proof (cases "hc_slot_is_occupied p n")
    case False
    then have "hc_relinked p (Suc n) b = hc_relinked p n b" for b by (simp add: hc_relinked_def)
    then show ?thesis using Q False occ by (simp add: hc_relink_ok_def hc_relink_def)
  next
    case True
    define b where "b = hc_bucket_of p n"
    have idx: "hc_hash_index q (oa_key (hc_nodes q ! n)) AND (2 ^ m - 1) = b"
    proof -
      have "hc_mask q = 2 ^ m - 1" using Q assms(4) by simp
      then show ?thesis unfolding hc_hash_index_def b_def oa_index_of_def assms(3) key by (simp only: nat_and_pow2 mod_mod_trivial)
    qed
    have b: "b < hc_bucket_count p" using index_of_less [OF _ assms(3)] assms(3) by (simp add: b_def)
    define q' where "q' = hc_relink (2 ^ m - 1) n q"
    have q': "hc_nodes q' = (hc_nodes q)[n := (hc_nodes q ! n)\<lparr>hc_next := hc_heads q ! b\<rparr>]"
      "hc_heads q' = (hc_heads q)[b := Some n]" "hc_mask q' = hc_mask q" "hc_free q' = hc_free q" "hc_size q' = hc_size q"
      using True occ idx by (simp_all add: q'_def hc_relink_def Let_def)
    have rel: "hc_relinked p (Suc n) d = (if d = b then [n] else []) @ hc_relinked p n d" for d
      using True by (auto simp: hc_relinked_def b_def)
    have "hc_chain (hc_nodes q') (hc_heads q' ! d) (hc_relinked p (Suc n) d)" if d: "d < hc_bucket_count p" for d
    proof -
      have "hc_chain (hc_nodes q) (hc_heads q ! d) (hc_relinked p n d)" using Q d by blast
      then have ch: "hc_chain (hc_nodes q') (hc_heads q ! d) (hc_relinked p n d)"
        by (rule hc_chain_cong) (auto simp: q' hc_relinked_def)
      have "b < length (hc_heads q)" using b Q by (simp add: hc_bucket_count_def)
      then show ?thesis using ch n by (auto simp: rel q')
    qed
    moreover have "map oa_slot.truncate (hc_nodes q') = map oa_slot.truncate (hc_nodes q)"
      using n by (auto simp: q' oa_slot.truncate_def nth_update_cases intro!: nth_equalityI)
    ultimately have "hc_relink_ok p (Suc n) q'" using Q by (simp add: hc_relink_ok_def q' hc_bucket_count_def)
    then show ?thesis by (simp only: q'_def)
  qed
qed

lemma hc_rehash_ok:
  assumes "hc_inv p"
  shows "hc_inv (hc_rehash (hc_bucket_count p * 2) p)" "hc_view (hc_rehash (hc_bucket_count p * 2) p) = hc_view p"
proof -
  let ?cap = "hc_bucket_count p * 2"
  define p0 where "p0 = p\<lparr>hc_heads := replicate ?cap None, hc_mask := ?cap - 1\<rparr>"
  obtain m where m: "hc_bucket_count p = 2 ^ m" using assms by (auto simp: hc_inv_def hc_shape_def)
  have p0: "hc_bucket_count p0 = 2 ^ Suc m" "hc_mask p0 = 2 ^ Suc m - 1" "hc_nodes p0 = hc_nodes p"
    "hc_free p0 = hc_free p" "hc_size p0 = hc_size p" "\<forall>b < 2 ^ Suc m. hc_heads p0 ! b = None"
    by (simp_all add: p0_def hc_bucket_count_def m [unfolded hc_bucket_count_def])
  have "n \<le> length (hc_nodes p0) \<Longrightarrow> hc_relink_ok p0 n (fold (hc_relink (2 ^ Suc m - 1)) [0..<n] p0)" for n
  proof (induction n)
    case 0
    then show ?case using p0(1,6) by (simp add: hc_relink_ok_def hc_relinked_def)
  next
    case (Suc n)
    then show ?case using hc_relink_step [of p0 n _ "Suc m"] p0(1,2) by simp
  qed
  note R0 = this [of "length (hc_nodes p0)", OF order_refl]
  have cap: "?cap = 2 ^ Suc m" by (simp add: m)
  have "hc_rehash ?cap p = fold (hc_relink (2 ^ Suc m - 1)) [0..<length (hc_nodes p0)] p0"
    unfolding hc_rehash_def Let_def p0_def cap by simp
  then have R: "hc_relink_ok p0 (length (hc_nodes p0)) (hc_rehash ?cap p)" using R0 by (simp only:)
  define q where "q = hc_rehash ?cap p"
  note Q = R [folded q_def, unfolded hc_relink_ok_def]
  have tq: "map oa_slot.truncate (hc_nodes q) = map oa_slot.truncate (hc_nodes p)" using Q p0(3) by simp
  note s = same_truncate [OF tq]
  have s0: "hc_slot_is_occupied p0 i = hc_slot_is_occupied p i" "hc_slot_key p0 i = hc_slot_key p i" for i
    by (simp_all add: hc_slot_is_occupied_def hc_slot_key_def p0(3))
  have "set (hc_relinked p0 (length (hc_nodes p0)) b) = {i. hc_slot_is_occupied q i \<and> hc_bucket_of q i = b}" for b
    using Q s by (auto simp: hc_relinked_def s0 p0(3)) (auto simp: hc_slot_is_occupied_def)
  moreover have "distinct (hc_relinked p0 n b)" for n b by (simp add: hc_relinked_def)
  moreover have "hc_bucket_count q = 2 ^ Suc m" "hc_mask q + 1 = hc_bucket_count q" using Q p0(1,2) by simp_all
  ultimately have "hc_shape q (hc_relinked p0 (length (hc_nodes p0)))"
    using Q p0(1) unfolding hc_shape_def by (intro conjI exI [of _ "Suc m"]) simp_all
  then show "hc_inv (hc_rehash ?cap p)"
    using assms Q s(1,3) p0(3-5) unfolding q_def [symmetric] hc_inv_def by auto
  show "hc_view (hc_rehash ?cap p) = hc_view p" using s(3) by (simp add: hc_view_def q_def)
qed

section \<open>The contract\<close>

lemma hc_insert_ok:
  assumes "hc_inv p0"
  shows "\<exists>p'. hc_insert k v p0 = Some (Inr p') \<and> hc_inv p' \<and> hc_view p' = (hc_view p0)(k \<mapsto> v)"
proof -
  define p where "p = (if hc_bucket_count p0 * fst hc_load \<le> (hc_size p0 + hc_tombstone_count p0) * snd hc_load
     then hc_rehash (hc_bucket_count p0 * 2) p0 else p0)"
  have p: "hc_inv p" "hc_view p = hc_view p0" using assms hc_rehash_ok [OF assms] by (simp_all add: p_def)
  define b where "b = oa_index_of k (hc_bucket_count p)"
  obtain c where c: "hc_shape p c" "distinct (map fst (hc_cells p))" using p(1) by (auto simp: hc_inv_def)
  note f = hc_find_ok [OF c b_def]
  have ins: "hc_insert k v p0 = (case hc_find p k None (hc_chain_head p b) of
      None \<Rightarrow> None
    | Some (Some (prev, node)) \<Rightarrow> Some (Inr (hc_set_slot_value node v p))
    | Some None \<Rightarrow> Some (Inr (hc_allocate_chained b k v p)))"
    unfolding hc_insert_def Let_def p_def [symmetric] b_def [symmetric] by (rule refl)
  show ?thesis
  proof (cases "hc_view p k")
    case None
    then show ?thesis using f(2) hc_allocate_ok [OF p(1) None b_def] p(2) by (simp add: ins)
  next
    case (Some w)
    obtain as i where "hc_slot_is_occupied p i" "hc_slot_key p i = k"
      "hc_find p k None (hc_chain_head p b) = Some (Some (if as = [] then None else Some (last as), i))"
      using f(3) [OF Some] by blast
    then show ?thesis using hc_set_value_ok [OF p(1)] p(2) by (simp add: ins)
  qed
qed

lemma hc_erase_ok:
  assumes "hc_inv p"
  shows "\<exists>p'. hc_erase k p = Some (hc_view p k \<noteq> None, p') \<and> hc_inv p' \<and> hc_view p' = (hc_view p)(k := None)"
proof -
  define b where "b = oa_index_of k (hc_bucket_count p)"
  obtain c where c: "hc_shape p c" "distinct (map fst (hc_cells p))" using assms by (auto simp: hc_inv_def)
  note f = hc_find_ok [OF c b_def]
  show ?thesis
  proof (cases "hc_view p k")
    case None
    then show ?thesis using f(2) assms by (simp add: hc_erase_def b_def fun_upd_idem)
  next
    case (Some w)
    obtain as i bs where i: "c b = as @ i # bs" "hc_slot_is_occupied p i" "hc_slot_key p i = k"
      "hc_find p k None (hc_chain_head p b) = Some (Some (if as = [] then None else Some (last as), i))"
      using f(3) [OF Some] by blast
    have "hc_erase k p = Some (True, hc_unlink_erase b i (if as = [] then None else Some (last as)) p)"
      using i(4) by (simp add: hc_erase_def b_def)
    then show ?thesis using hc_unlink_ok [OF assms c(1) f(1) i(1-3) refl] Some by auto
  qed
qed

lemma hc_empty_inv:
  assumes "hc_nodes p = []" "hc_free p = []" "hc_size p = 0" "hc_bucket_count p = 2 ^ m" "hc_mask p + 1 = hc_bucket_count p"
    "\<forall>b < hc_bucket_count p. hc_heads p ! b = None"
  shows "hc_inv p \<and> hc_view p = Map.empty"
proof -
  have "hc_shape p (\<lambda>_. [])" using assms by (auto simp: hc_shape_def hc_slot_is_occupied_def)
  then show ?thesis using assms(1-3) by (auto simp: hc_inv_def hc_cells_def hc_view_def)
qed

interpretation chained: pool_map hc_inv hc_lookup hc_insert hc_erase hc_size hc_clear hc_view "\<lambda>_. False"
proof
  fix p k v
  assume i: "hc_inv p"
  show "hc_lookup p k = Some (hc_view p k)" by (rule hc_lookup_view [OF i])
  show "hc_size p = card (dom (hc_view p))"
    using i by (simp add: hc_inv_def hc_view_def card_dom_map_of)
  show "\<exists>p'. hc_erase k p = Some (hc_view p k \<noteq> None, p') \<and> hc_inv p' \<and> hc_view p' = (hc_view p)(k := None)"
    by (rule hc_erase_ok [OF i])
  show "\<exists>p'. hc_insert k v p = Some (Inr p') \<and> hc_inv p' \<and> hc_view p' = (hc_view p)(k \<mapsto> v)"
    by (rule hc_insert_ok [OF i])
  obtain m where "hc_bucket_count p = 2 ^ m" "hc_mask p + 1 = hc_bucket_count p"
    using i by (auto simp: hc_inv_def hc_shape_def)
  then show "hc_inv (hc_clear p) \<and> hc_view (hc_clear p) = Map.empty"
    by (intro hc_empty_inv [where m = m]) (simp_all add: hc_clear_def hc_bucket_count_def)
qed simp

lemma hc_init_ok: "hc_inv hc_init" "hc_view hc_init = Map.empty"
proof -
  have "hc_inv hc_init \<and> hc_view hc_init = Map.empty"
    by (rule hc_empty_inv [where m = 4]) (simp_all add: hc_init_def hc_bucket_count_def hash_initial_capacity_def)
  then show "hc_inv hc_init" "hc_view hc_init = Map.empty" by simp_all
qed

section \<open>The walk\<close>

lemma hc_walk_chain:
  "hc_chain (hc_nodes p) h is \<Longrightarrow> hc_walk p h acc = Some (acc @ map (\<lambda>i. (hc_slot_key p i, hc_slot_value p i)) is)"
  by (induction "is" arbitrary: h acc; subst hc_walk.simps) (auto simp: hc_node_next_def)

lemma hc_records_shape:
  assumes "hc_shape p c"
  shows "hc_records p = Some (concat (map (\<lambda>b. map (\<lambda>i. (hc_slot_key p i, hc_slot_value p i)) (c b)) [0..<hc_bucket_count p]))"
proof -
  have "n \<le> hc_bucket_count p \<Longrightarrow>
    fold (\<lambda>b acc. case acc of None \<Rightarrow> None | Some sink \<Rightarrow> hc_walk p (hc_chain_head p b) sink) [0..<n] (Some [])
    = Some (concat (map (\<lambda>b. map (\<lambda>i. (hc_slot_key p i, hc_slot_value p i)) (c b)) [0..<n]))" for n
  proof (induction n)
    case (Suc n)
    then have "hc_chain (hc_nodes p) (hc_chain_head p n) (c n)" using assms by (simp add: hc_shape_def hc_chain_head_def)
    then show ?case using Suc hc_walk_chain by simp
  qed simp
  then show ?thesis by (simp add: hc_records_def)
qed

text \<open>The walk delivers every entry once.\<close>
lemma hc_records_ok:
  assumes "hc_inv p"
  shows "\<exists>kvs. hc_records p = Some kvs \<and> distinct (map fst kvs) \<and> map_of kvs = hc_view p"
proof -
  obtain c where c: "hc_shape p c" "distinct (map fst (hc_cells p))" using assms by (auto simp: hc_inv_def)
  define ids where "ids = concat (map c [0..<hc_bucket_count p])"
  define kvs where "kvs = map (\<lambda>i. (hc_slot_key p i, hc_slot_value p i)) ids"
  have C: "b < hc_bucket_count p \<Longrightarrow> distinct (c b) \<and> set (c b) = {i. hc_slot_is_occupied p i \<and> hc_bucket_of p i = b}" for b
    using c(1) by (auto simp: hc_shape_def)
  obtain m where m: "hc_bucket_count p = 2 ^ m" using c(1) by (auto simp: hc_shape_def)
  have bl: "hc_bucket_of p i < hc_bucket_count p" for i using index_of_less [of "hc_bucket_count p" m] m by simp
  have "n \<le> hc_bucket_count p \<Longrightarrow> distinct (concat (map c [0..<n]))
    \<and> set (concat (map c [0..<n])) = {i. hc_slot_is_occupied p i \<and> hc_bucket_of p i < n}" for n
  proof (induction n)
    case (Suc n)
    then show ?case using C [of n] by (auto simp: less_Suc_eq)
  qed simp
  from this [of "hc_bucket_count p"] have ids: "distinct ids" "set ids = {i. hc_slot_is_occupied p i}"
    using bl by (auto simp: ids_def)
  have "hc_records p = Some kvs" using hc_records_shape [OF c(1)] by (simp add: kvs_def ids_def map_concat comp_def)
  moreover have "distinct (map fst kvs)"
    using ids hc_key_inj [OF c(2)] by (auto simp: kvs_def distinct_map comp_def inj_on_def)
  moreover from this have "map_of kvs = hc_view p"
    using ids(2) hc_cells_iff [of _ _ p] c(2) unfolding hc_view_def
    by (intro map_of_inject_set [THEN iffD2]) (auto simp: kvs_def)
  ultimately show ?thesis by blast
qed

section \<open>Properties\<close>

text \<open>C13: Every sequence of calls on an initially empty chained hash organ returns and answers like a
  finite map, through collisions, reuse of freed nodes and rehashing; and the walk over the buckets
  then terminates and delivers every entry of that map exactly once.\<close>
theorem chained_hash_refines_map:
  "\<exists>rs p kvs. pool_run hc_lookup hc_insert hc_erase hc_size hc_clear ops hc_init = Some (rs, p)
     \<and> rs = map Inr (fst (spec_map_run ops Map.empty))
     \<and> hc_records p = Some kvs \<and> distinct (map fst kvs) \<and> map_of kvs = snd (spec_map_run ops Map.empty)"
proof -
  obtain rs p where r: "pool_run hc_lookup hc_insert hc_erase hc_size hc_clear ops hc_init = Some (rs, p)"
    "hc_inv p" "spec_pool_run (\<lambda>_. False) ops Map.empty = Some (rs, hc_view p)"
    using chained.run_refines [OF hc_init_ok(1), of ops] hc_init_ok(2) by auto
  show ?thesis using r spec_pool_run_total [of ops Map.empty] hc_records_ok [OF r(2)] by auto
qed

end
