(* ===== verification/Hash_Swiss.thy ===== *)
theory Hash_Swiss imports Hash_Open Pool_Contract begin

text \<open>
  The swiss-table organ: \<^verbatim>\<open>SwissGroupPoolStore\<close> (a control byte per slot, groups of 16),
  \<^verbatim>\<open>SwissGroupProbeTraversalOrgan\<close> with the scalar matcher, and \<^verbatim>\<open>ComposedSwissSearch\<close>.  A probe visits
  whole groups; inside a group the candidates are the set bits of a 16-bit match mask, taken from the
  lowest, and a group with an empty slot ends the search.

  Insertion grows the table by rehashing, and rehashing inserts, which in the code may rehash again:
  both are one partial function here, and on well-formed pools the recursion ends because an empty
  slot always remains.  The entries are those of the slots, as in \<open>Hash_Open\<close>.
\<close>

section \<open>The pool\<close>

record swiss_slot =
  ss_key :: u64
  ss_val :: u64

record swiss_pool =
  sw_slots :: "swiss_slot list"
  sw_ctrl :: "u8 list"
  sw_mask :: nat
  sw_size :: nat
  sw_tombstones :: nat

definition sw_group_width :: nat where "sw_group_width = 16"
definition sw_initial_capacity :: nat where "sw_initial_capacity = 16"
definition sw_empty :: u8 where "sw_empty = 0x80"
definition sw_deleted :: u8 where "sw_deleted = 0xFE"

definition sw_free_slot :: swiss_slot where "sw_free_slot = \<lparr>ss_key = 0, ss_val = 0\<rparr>"

definition sw_init :: swiss_pool where
  "sw_init = \<lparr>sw_slots = replicate sw_initial_capacity sw_free_slot, sw_ctrl = replicate sw_initial_capacity sw_empty,
     sw_mask = sw_initial_capacity - 1, sw_size = 0, sw_tombstones = 0\<rparr>"

definition sw_assign :: "swiss_pool \<Rightarrow> swiss_pool \<Rightarrow> swiss_pool" where
  "sw_assign self src = self\<lparr>sw_slots := sw_slots src, sw_ctrl := sw_ctrl src, sw_mask := sw_mask src,
     sw_size := sw_size src, sw_tombstones := sw_tombstones src\<rparr>"

definition sw_slot_count :: "swiss_pool \<Rightarrow> nat" where "sw_slot_count p = sw_mask p + 1"
definition sw_group_count :: "swiss_pool \<Rightarrow> nat" where "sw_group_count p = sw_slot_count p div sw_group_width"
definition sw_needs_rehash :: "swiss_pool \<Rightarrow> bool" where
  "sw_needs_rehash p \<longleftrightarrow> sw_slot_count p * 7 \<le> (sw_size p + sw_tombstones p + 1) * 8"

definition sw_control_byte :: "swiss_pool \<Rightarrow> nat \<Rightarrow> u8" where "sw_control_byte p i = sw_ctrl p ! i"
definition sw_control_group :: "swiss_pool \<Rightarrow> nat \<Rightarrow> u8 list" where
  "sw_control_group p group_start = drop group_start (sw_ctrl p)"
definition sw_slot_is_empty :: "swiss_pool \<Rightarrow> nat \<Rightarrow> bool" where "sw_slot_is_empty p i \<longleftrightarrow> sw_ctrl p ! i = sw_empty"
definition sw_slot_is_deleted :: "swiss_pool \<Rightarrow> nat \<Rightarrow> bool" where "sw_slot_is_deleted p i \<longleftrightarrow> sw_ctrl p ! i = sw_deleted"
definition sw_slot_is_occupied :: "swiss_pool \<Rightarrow> nat \<Rightarrow> bool" where
  "sw_slot_is_occupied p i \<longleftrightarrow> sw_ctrl p ! i \<noteq> sw_empty \<and> sw_ctrl p ! i \<noteq> sw_deleted"
definition sw_slot_key :: "swiss_pool \<Rightarrow> nat \<Rightarrow> u64" where "sw_slot_key p i = ss_key (sw_slots p ! i)"
definition sw_slot_value :: "swiss_pool \<Rightarrow> nat \<Rightarrow> u64" where "sw_slot_value p i = ss_val (sw_slots p ! i)"

definition sw_place_occupied :: "nat \<Rightarrow> u64 \<Rightarrow> u64 \<Rightarrow> u8 \<Rightarrow> swiss_pool \<Rightarrow> swiss_pool" where
  "sw_place_occupied i k v h2 p =
     (let p = (if sw_ctrl p ! i = sw_deleted then p\<lparr>sw_tombstones := sw_tombstones p - 1\<rparr> else p)
      in p\<lparr>sw_ctrl := (sw_ctrl p)[i := h2], sw_slots := (sw_slots p)[i := \<lparr>ss_key = k, ss_val = v\<rparr>],
           sw_size := sw_size p + 1\<rparr>)"

definition sw_set_slot_value :: "nat \<Rightarrow> u64 \<Rightarrow> swiss_pool \<Rightarrow> swiss_pool" where
  "sw_set_slot_value i v p = p\<lparr>sw_slots := (sw_slots p)[i := (sw_slots p ! i)\<lparr>ss_val := v\<rparr>]\<rparr>"

definition sw_mark_deleted :: "nat \<Rightarrow> swiss_pool \<Rightarrow> swiss_pool" where
  "sw_mark_deleted i p = p\<lparr>sw_ctrl := (sw_ctrl p)[i := sw_deleted], sw_slots := (sw_slots p)[i := sw_free_slot],
     sw_size := sw_size p - 1, sw_tombstones := sw_tombstones p + 1\<rparr>"

definition sw_clear :: "swiss_pool \<Rightarrow> swiss_pool" where
  "sw_clear p = p\<lparr>sw_slots := map (\<lambda>_. sw_free_slot) (sw_slots p), sw_ctrl := map (\<lambda>_. sw_empty) (sw_ctrl p),
     sw_size := 0, sw_tombstones := 0\<rparr>"

section \<open>Hashing and probing\<close>

definition sw_mixed_hash :: "u64 \<Rightarrow> u64" where "sw_mixed_hash k = k * fibonacci_mul"
definition sw_h2 :: "u64 \<Rightarrow> u8" where "sw_h2 hash = ucast (hash AND 0x7F)"

definition sw_group_start_for :: "swiss_pool \<Rightarrow> u64 \<Rightarrow> nat \<Rightarrow> nat" where
  "sw_group_start_for p hash probe =
     (let group_mask = sw_group_count p - 1; h1_group = unat (drop_bit 7 hash) AND group_mask
      in ((h1_group + probe) AND group_mask) * sw_group_width)"

text \<open>\<^verbatim>\<open>ScalarGroupMatch::group_match_mask\<close> and the bit loops over the msk.\<close>
definition group_match_mask :: "u8 list \<Rightarrow> u8 \<Rightarrow> u16" where
  "group_match_mask ctrl16 needle =
     fold (\<lambda>i msk. if ctrl16 ! i = needle then msk OR push_bit i 1 else msk) [0..<16] 0"

definition clear_lowest_bit :: "u16 \<Rightarrow> u16" where
  "clear_lowest_bit msk = msk AND (msk - 1)"

fun lowest_bit_from :: "u16 \<Rightarrow> nat \<Rightarrow> nat \<Rightarrow> nat" where
  "lowest_bit_from msk 0 i = i"
| "lowest_bit_from msk (Suc n) i = (if bit msk i then i else lowest_bit_from msk n (i + 1))"

definition lowest_bit_index :: "u16 \<Rightarrow> nat" where
  "lowest_bit_index msk = lowest_bit_from msk 16 0"

lemma clear_lowest_less: "msk \<noteq> 0 \<Longrightarrow> unat (clear_lowest_bit msk) < unat msk"
proof -
  assume m: "msk \<noteq> 0"
  have "clear_lowest_bit msk \<le> msk - 1" unfolding clear_lowest_bit_def by (rule word_and_le1)
  then have "unat (clear_lowest_bit msk) \<le> unat (msk - 1)" by (simp add: word_le_nat_alt)
  also have "\<dots> < unat msk" using m by (simp add: unat_minus_one unat_gt_0)
  finally show ?thesis .
qed

text \<open>The loop \<^verbatim>\<open>while (mask != 0)\<close> over the set bits: the first index that satisfies the test.\<close>
function sw_mask_loop :: "(nat \<Rightarrow> bool) \<Rightarrow> u16 \<Rightarrow> nat option" where
  "sw_mask_loop test msk = (if msk \<noteq> 0
     then (let i = lowest_bit_index msk in if test i then Some i else sw_mask_loop test (clear_lowest_bit msk))
     else None)"
  by pat_completeness auto
termination by (relation "measure (\<lambda>(test, msk). unat msk)") (auto intro: clear_lowest_less)

declare sw_mask_loop.simps [simp del]

text \<open>The probe of \<^verbatim>\<open>lookup_in\<close> and \<^verbatim>\<open>erase_from\<close>: the position of the key.\<close>
function sw_find :: "swiss_pool \<Rightarrow> u64 \<Rightarrow> nat \<Rightarrow> nat option" where
  "sw_find p k probe = (if probe < sw_group_count p
     then (let hash = sw_mixed_hash k; h2 = sw_h2 hash; group_start = sw_group_start_for p hash probe
           in case sw_mask_loop (\<lambda>i. sw_control_byte p (group_start + i) = h2 \<and> sw_slot_key p (group_start + i) = k)
                  (group_match_mask (sw_control_group p group_start) h2) of
                Some i \<Rightarrow> Some (group_start + i)
              | None \<Rightarrow> if group_match_mask (sw_control_group p group_start) sw_empty \<noteq> 0 then None
                        else sw_find p k (probe + 1))
     else None)"
  by pat_completeness auto
termination by (relation "measure (\<lambda>(p, k, probe). sw_group_count p - probe)") auto

declare sw_find.simps [simp del]

definition sw_lookup :: "swiss_pool \<Rightarrow> u64 \<Rightarrow> u64 option" where
  "sw_lookup p k = (case sw_find p k 0 of Some pos \<Rightarrow> Some (sw_slot_value p pos) | None \<Rightarrow> None)"

definition sw_erase :: "u64 \<Rightarrow> swiss_pool \<Rightarrow> bool \<times> swiss_pool" where
  "sw_erase k p = (case sw_find p k 0 of Some pos \<Rightarrow> (True, sw_mark_deleted pos p) | None \<Rightarrow> (False, p))"

text \<open>The probe of \<^verbatim>\<open>insert_impl\<close>; \<open>None\<close>: no group has room.\<close>
function sw_insert_probe :: "u64 \<Rightarrow> u64 \<Rightarrow> swiss_pool \<Rightarrow> nat \<Rightarrow> nat option \<Rightarrow> swiss_pool option" where
  "sw_insert_probe k v p probe first_deleted = (if probe < sw_group_count p
     then (let hash = sw_mixed_hash k; h2 = sw_h2 hash; group_start = sw_group_start_for p hash probe;
               ctrl16 = sw_control_group p group_start
           in case sw_mask_loop (\<lambda>i. sw_control_byte p (group_start + i) = h2 \<and> sw_slot_key p (group_start + i) = k)
                  (group_match_mask ctrl16 h2) of
                Some i \<Rightarrow> Some (sw_set_slot_value (group_start + i) v p)
              | None \<Rightarrow>
                  (let fd = (if first_deleted \<noteq> None then first_deleted
                       else map_option (\<lambda>i. group_start + i)
                         (sw_mask_loop (\<lambda>i. sw_control_byte p (group_start + i) = sw_deleted) (group_match_mask ctrl16 sw_deleted)))
                   in case sw_mask_loop (\<lambda>i. sw_control_byte p (group_start + i) = sw_empty) (group_match_mask ctrl16 sw_empty) of
                        Some i \<Rightarrow> Some (sw_place_occupied (case fd of Some d \<Rightarrow> d | None \<Rightarrow> group_start + i) k v h2 p)
                      | None \<Rightarrow> sw_insert_probe k v p (probe + 1) fd))
     else None)"
  by pat_completeness auto
termination by (relation "measure (\<lambda>(k, v, p, probe, fd). sw_group_count p - probe)") auto

declare sw_insert_probe.simps [simp del]

text \<open>The probe of \<^verbatim>\<open>insert_rehashed\<close>, with index loops over the group.\<close>
function sw_rehash_probe :: "u64 \<Rightarrow> u64 \<Rightarrow> swiss_pool \<Rightarrow> nat \<Rightarrow> nat option \<Rightarrow> swiss_pool option" where
  "sw_rehash_probe k v p probe first_deleted = (if probe < sw_group_count p
     then (let hash = sw_mixed_hash k; h2 = sw_h2 hash; group_start = sw_group_start_for p hash probe
           in case find (\<lambda>i. sw_ctrl p ! (group_start + i) = h2 \<and> ss_key (sw_slots p ! (group_start + i)) = k) [0..<sw_group_width] of
                Some i \<Rightarrow> Some (p\<lparr>sw_slots := (sw_slots p)[group_start + i := (sw_slots p ! (group_start + i))\<lparr>ss_val := v\<rparr>]\<rparr>)
              | None \<Rightarrow>
                  (let fd = (if first_deleted \<noteq> None then first_deleted
                       else map_option (\<lambda>i. group_start + i) (find (\<lambda>i. sw_ctrl p ! (group_start + i) = sw_deleted) [0..<sw_group_width]))
                   in case find (\<lambda>i. sw_ctrl p ! (group_start + i) = sw_empty) [0..<sw_group_width] of
                        Some i \<Rightarrow>
                          (let target = (case fd of Some d \<Rightarrow> d | None \<Rightarrow> group_start + i);
                               p1 = (if fd \<noteq> None then p\<lparr>sw_tombstones := sw_tombstones p - 1\<rparr> else p)
                           in Some (p1\<lparr>sw_ctrl := (sw_ctrl p1)[target := h2],
                                sw_slots := (sw_slots p1)[target := \<lparr>ss_key = k, ss_val = v\<rparr>], sw_size := sw_size p1 + 1\<rparr>))
                      | None \<Rightarrow> sw_rehash_probe k v p (probe + 1) fd))
     else None)"
  by pat_completeness auto
termination by (relation "measure (\<lambda>(k, v, p, probe, fd). sw_group_count p - probe)") auto

declare sw_rehash_probe.simps [simp del]

text \<open>\<^verbatim>\<open>rehash\<close>: the occupied slots of the old arrays, and the fresh arrays.\<close>
definition sw_old_entries :: "swiss_pool \<Rightarrow> slot list" where
  "sw_old_entries p = map (\<lambda>i. (ss_key (sw_slots p ! i), ss_val (sw_slots p ! i)))
     (filter (\<lambda>i. \<not> (sw_ctrl p ! i = sw_empty \<or> sw_ctrl p ! i = sw_deleted)) [0..<length (sw_ctrl p)])"

definition sw_fresh :: "nat \<Rightarrow> swiss_pool \<Rightarrow> swiss_pool" where
  "sw_fresh new_capacity p = p\<lparr>sw_slots := replicate new_capacity sw_free_slot, sw_ctrl := replicate new_capacity sw_empty,
     sw_mask := new_capacity - 1, sw_size := 0, sw_tombstones := 0\<rparr>"

text \<open>The loop of \<^verbatim>\<open>rehash\<close> over the old entries, each passed to \<^verbatim>\<open>insert_rehashed\<close>; when a probe finds
  no room, \<^verbatim>\<open>insert_rehashed\<close> rehashes into twice the slots and tries again.\<close>
partial_function (option) sw_reinsert :: "slot list \<Rightarrow> swiss_pool \<Rightarrow> swiss_pool option" where
  "sw_reinsert kvs p =
     (if kvs = [] then Some p
      else (case sw_rehash_probe (fst (hd kvs)) (snd (hd kvs)) p 0 None of
          Some p' \<Rightarrow> sw_reinsert (tl kvs) p'
        | None \<Rightarrow> Option.bind (sw_reinsert (sw_old_entries p) (sw_fresh (sw_slot_count p * 2) p)) (sw_reinsert kvs)))"

definition sw_rehash :: "nat \<Rightarrow> swiss_pool \<Rightarrow> swiss_pool option" where
  "sw_rehash new_capacity p = sw_reinsert (sw_old_entries p) (sw_fresh new_capacity p)"

partial_function (option) sw_insert_impl :: "u64 \<Rightarrow> u64 \<Rightarrow> swiss_pool \<Rightarrow> swiss_pool option" where
  "sw_insert_impl k v p = (case sw_insert_probe k v p 0 None of
     Some p' \<Rightarrow> Some p'
   | None \<Rightarrow> (case sw_rehash (sw_slot_count p * 2) p of
         None \<Rightarrow> None
       | Some p1 \<Rightarrow> sw_insert_impl k v p1))"

definition sw_insert :: "u64 \<Rightarrow> u64 \<Rightarrow> swiss_pool \<Rightarrow> swiss_pool option" where
  "sw_insert k v p = (if sw_needs_rehash p
     then (case sw_rehash (sw_slot_count p * 2) p of None \<Rightarrow> None | Some p1 \<Rightarrow> sw_insert_impl k v p1)
     else sw_insert_impl k v p)"

definition sw_records :: "swiss_pool \<Rightarrow> slot list" where
  "sw_records p = map (\<lambda>i. (sw_slot_key p i, sw_slot_value p i)) (filter (sw_slot_is_occupied p) [0..<sw_slot_count p])"

section \<open>Match masks\<close>

lemma bit_pred_above:
  assumes "odd q" "c \<le> j"
  shows "bit (2 ^ c * q - 1 :: nat) j \<longleftrightarrow> bit (2 ^ c * q) j \<and> j \<noteq> c"
proof -
  obtain r where r: "q = 2 * r + 1" using assms(1) by (elim oddE)
  have "2 ^ c * q - 1 = 2 ^ c * (2 * r) + (2 ^ c - 1)" by (simp add: r algebra_simps)
  moreover have "(2 ^ c * (2 * r) + (2 ^ c - 1)) div 2 ^ c = 2 * r"
  proof (rule div_nat_eqI)
    show "2 ^ c * (2 * r) + (2 ^ c - 1) < 2 ^ c * Suc (2 * r)"
      unfolding mult_Suc_right using zero_less_power [of "2 :: nat" c] by linarith
  qed (rule le_add1)
  ultimately have p: "(2 ^ c * q - 1) div 2 ^ c = 2 * r" by (simp only:)
  have split: "n div 2 ^ j = (n div 2 ^ c) div 2 ^ (j - c)" for n :: nat
    using assms(2) by (metis div_mult2_eq le_add_diff_inverse power_add)
  have l: "bit (2 ^ c * q - 1) j = odd ((2 * r) div 2 ^ (j - c))" unfolding bit_iff_odd split p by (rule refl)
  have m: "bit (2 ^ c * q) j = odd ((2 * r + 1) div 2 ^ (j - c))" unfolding bit_iff_odd split by (simp add: r)
  show ?thesis
  proof (cases "j = c")
    case False
    then obtain d where d: "j - c = Suc d" using assms(2) by (metis Suc_diff_Suc le_neq_implies_less)
    show ?thesis unfolding l m d power_Suc div_mult2_eq using False by simp
  next
    case True
    then show ?thesis unfolding l m by simp
  qed
qed

lemma bit_clear_lowest:
  fixes w :: "'a::len word"
  assumes "bit w c" "\<forall>i < c. \<not> bit w i"
  shows "bit (w AND (w - 1)) j \<longleftrightarrow> bit w j \<and> j \<noteq> c"
proof -
  define n where "n = unat w"
  have bu: "bit (unat x) i = bit x i" for x :: "'a word" and i by (simp add: bit_unsigned_iff)
  have bn: "bit w i = bit n i" for i by (simp add: n_def bu)
  have w0: "w \<noteq> 0" using assms(1) by auto
  have pn: "unat (w - 1) = n - 1" using w0 by (simp add: n_def unat_minus_one)
  have bp: "bit (w - 1) i = bit (n - 1) i" for i using bu [of "w - 1" i] by (simp only: pn)
  define q where "q = drop_bit c n"
  have "take_bit c n = 0" using assms(2) bn by (intro bit_eqI) (auto simp: bit_take_bit_iff)
  then have nq: "n = 2 ^ c * q" using bits_ident [of c n] by (simp add: q_def push_bit_eq_mult mult.commute)
  have "odd q" using assms(1) bn by (simp add: q_def bit_iff_odd_drop_bit)
  show ?thesis
  proof (cases "j < c")
    case True
    then show ?thesis using assms(2) by (simp add: bit_and_iff)
  next
    case False
    then show ?thesis using bit_pred_above [OF \<open>odd q\<close>, of c j] by (auto simp: bit_and_iff bn bp nq)
  qed
qed

lemma lowest_bit_from_spec:
  "\<exists>j. i \<le> j \<and> j < i + n \<and> bit w j \<Longrightarrow>
   bit w (lowest_bit_from w n i) \<and> i \<le> lowest_bit_from w n i \<and> lowest_bit_from w n i < i + n
   \<and> (\<forall>j. i \<le> j \<and> j < lowest_bit_from w n i \<longrightarrow> \<not> bit w j)"
proof (induction n arbitrary: i)
  case (Suc n)
  show ?case
  proof (cases "bit w i")
    case False
    then have "\<exists>j. i + 1 \<le> j \<and> j < i + 1 + n \<and> bit w j"
      using Suc.prems by (metis Suc_eq_plus1 Suc_leI add_Suc_right add_Suc le_neq_implies_less)
    from Suc.IH [OF this] show ?thesis
      using False by (auto simp: Suc_le_eq) (metis Suc_leI le_neq_implies_less)
  next
    case True
    then show ?thesis by auto
  qed
next
  case 0
  then show ?case by auto
qed

lemma mask_loop_find:
  "sw_mask_loop test w = find test (filter (bit w) [0..<16])"
proof (induction "unat w" arbitrary: w rule: less_induct)
  case less
  show ?case
  proof (cases "w = 0")
    case False
    then obtain j where "bit w j" by (metis bit_0_eq bit_eqI bot_apply bot_bool_def)
    moreover from this have "j < 16" using bit_imp_le_length [of w j] by simp
    ultimately have ex: "\<exists>j. 0 \<le> j \<and> j < 0 + 16 \<and> bit w j" by auto
    define c where "c = lowest_bit_index w"
    have c: "bit w c" "c < 16" "\<forall>i < c. \<not> bit w i"
      using lowest_bit_from_spec [OF ex] by (auto simp: c_def lowest_bit_index_def)
    have b: "bit (clear_lowest_bit w) i \<longleftrightarrow> bit w i \<and> i \<noteq> c" for i
      unfolding clear_lowest_bit_def by (rule bit_clear_lowest [OF c(1,3)])
    have sp: "[0..<16] = [0..<c] @ c # [Suc c..<16]"
      using c(2) by (metis less_imp_le_nat upt_add_eq_append upt_conv_Cons le0 le_add_diff_inverse)
    have "filter (bit w) [0..<16] = c # filter (bit w) [Suc c..<16]"
      unfolding sp using c(1,3) by (simp add: filter_empty_conv)
    moreover have "filter (bit (clear_lowest_bit w)) [0..<16] = filter (bit w) [Suc c..<16]"
    proof -
      have "filter (bit (clear_lowest_bit w)) [Suc c..<16] = filter (bit w) [Suc c..<16]"
        by (intro filter_cong) (auto simp: b)
      moreover have "filter (bit (clear_lowest_bit w)) [0..<c] = []" using c(3) by (simp add: filter_empty_conv b)
      ultimately show ?thesis unfolding sp using b [of c] by simp
    qed
    ultimately show ?thesis
      using less.hyps [OF clear_lowest_less [OF False]] False
      by (simp add: sw_mask_loop.simps [of test w] c_def [symmetric] Let_def)
  next
    case True
    then show ?thesis by (subst sw_mask_loop.simps) simp
  qed
qed

lemma bit_group_match_mask: "bit (group_match_mask ctrl needle) i \<longleftrightarrow> i < 16 \<and> ctrl ! i = needle"
proof -
  have "n \<le> 16 \<Longrightarrow> bit (fold (\<lambda>i m. if ctrl ! i = needle then m OR push_bit i 1 else m) [0..<n] (0 :: u16)) i
      \<longleftrightarrow> i < n \<and> ctrl ! i = needle" for n
  proof (induction n)
    case (Suc n)
    have "bit (push_bit n 1 :: u16) i \<longleftrightarrow> i = n" using Suc.prems by (auto simp: bit_exp_iff push_bit_of_1)
    then show ?case using Suc by (auto simp: bit_or_iff less_Suc_eq)
  qed simp
  then show ?thesis by (simp add: group_match_mask_def)
qed

lemma group_match_zero: "group_match_mask ctrl needle \<noteq> 0 \<longleftrightarrow> (\<exists>i < 16. ctrl ! i = needle)"
  using bit_group_match_mask by (metis bit_0_eq bit_eqI bot_apply bot_bool_def)

lemma find_filter: "find P (filter Q xs) = find (\<lambda>x. Q x \<and> P x) xs"
  by (induction xs) auto

lemma match_loop:
  "sw_mask_loop test (group_match_mask ctrl needle) = find (\<lambda>i. ctrl ! i = needle \<and> test i) [0..<16]"
proof -
  have "filter (bit (group_match_mask ctrl needle)) [0..<16] = filter (\<lambda>i. ctrl ! i = needle) [0..<16]"
    by (intro filter_cong) (auto simp: bit_group_match_mask)
  then show ?thesis by (simp add: mask_loop_find find_filter)
qed

lemma find_cong_upt: "(\<And>i. i < n \<Longrightarrow> P i = Q i) \<Longrightarrow> find P [0..<n] = find Q [0..<n]"
  by (intro find_cong) auto

section \<open>Cells and the invariant\<close>

definition sw_state_of :: "u8 \<Rightarrow> hash_slot_state" where
  "sw_state_of c = (if c = sw_empty then Slot_Empty else if c = sw_deleted then Slot_Deleted else Slot_Occupied)"

definition sw_cell :: "swiss_slot \<Rightarrow> u8 \<Rightarrow> oa_slot" where
  "sw_cell s c = \<lparr>oa_key = ss_key s, oa_val = ss_val s, oa_state = sw_state_of c\<rparr>"

definition sw_cells :: "swiss_pool \<Rightarrow> oa_slot list" where
  "sw_cells p = map2 sw_cell (sw_slots p) (sw_ctrl p)"

text \<open>The groups a key visits, and the chain of groups without an empty slot that leads to its slot.\<close>
definition group_at :: "nat \<Rightarrow> u64 \<Rightarrow> nat \<Rightarrow> nat" where
  "group_at n k t = (unat (drop_bit 7 (sw_mixed_hash k)) + t) mod n * 16"

definition groups_full :: "oa_slot list \<Rightarrow> nat \<Rightarrow> u64 \<Rightarrow> nat \<Rightarrow> bool" where
  "groups_full bs n k t \<longleftrightarrow> (\<forall>u < t. \<forall>i < 16. oa_state (bs ! (group_at n k u + i)) \<noteq> Slot_Empty)"

definition sw_chains :: "oa_slot list \<Rightarrow> nat \<Rightarrow> bool" where
  "sw_chains bs n \<longleftrightarrow> (\<forall>q < length bs. oa_state (bs ! q) = Slot_Occupied \<longrightarrow>
     (\<exists>t < n. \<exists>i < 16. q = group_at n (oa_key (bs ! q)) t + i \<and> groups_full bs n (oa_key (bs ! q)) t))"

definition sw_inv :: "swiss_pool \<Rightarrow> bool" where
  "sw_inv p \<longleftrightarrow> (\<exists>m. sw_slot_count p = 2 ^ m * 16)
     \<and> length (sw_slots p) = sw_slot_count p \<and> length (sw_ctrl p) = sw_slot_count p
     \<and> sw_size p = length (slot_entries (sw_cells p))
     \<and> sw_tombstones p = length (filter (\<lambda>s. oa_state s = Slot_Deleted) (sw_cells p))
     \<and> distinct (map fst (slot_entries (sw_cells p))) \<and> sw_chains (sw_cells p) (sw_group_count p)
     \<and> (\<forall>i < sw_slot_count p. sw_slot_is_occupied p i \<longrightarrow> sw_ctrl p ! i = sw_h2 (sw_mixed_hash (sw_slot_key p i)))"

definition sw_room :: "swiss_pool \<Rightarrow> bool" where
  "sw_room p \<longleftrightarrow> sw_size p + sw_tombstones p < sw_slot_count p"

lemma sw_invD:
  assumes "sw_inv p"
  shows "length (sw_slots p) = sw_slot_count p" "length (sw_ctrl p) = sw_slot_count p"
    "length (sw_cells p) = sw_slot_count p" "sw_slot_count p = sw_group_count p * 16" "\<exists>m. sw_group_count p = 2 ^ m"
    "0 < sw_group_count p"
    "distinct (map fst (slot_entries (sw_cells p)))" "sw_chains (sw_cells p) (sw_group_count p)"
    "sw_size p = length (slot_entries (sw_cells p))"
  using assms by (auto simp: sw_inv_def sw_cells_def sw_group_count_def sw_group_width_def)

lemma sw_cells_nth:
  assumes "sw_inv p" "i < sw_slot_count p"
  shows "oa_key (sw_cells p ! i) = sw_slot_key p i" "oa_val (sw_cells p ! i) = sw_slot_value p i"
    "oa_state (sw_cells p ! i) = sw_state_of (sw_ctrl p ! i)"
  using assms(2) sw_invD [OF assms(1)] by (simp_all add: sw_cells_def sw_cell_def sw_slot_key_def sw_slot_value_def)

lemma sw_cells_update:
  "map2 sw_cell (ss[i := s]) (cs[i := c]) = (map2 sw_cell ss cs)[i := sw_cell s c]"
  by (simp add: zip_update map_update)

text \<open>The hash byte of a key is never one of the two markers.\<close>
lemma sw_h2_occupied: "sw_h2 h \<noteq> sw_empty" "sw_h2 h \<noteq> sw_deleted" "sw_state_of (sw_h2 h) = Slot_Occupied"
proof -
  have "\<not> bit (sw_h2 h) 7" by (simp add: sw_h2_def bit_ucast_iff bit_and_iff)
  moreover have "bit sw_empty 7" "bit sw_deleted 7" by (simp_all add: sw_empty_def sw_deleted_def)
  ultimately show "sw_h2 h \<noteq> sw_empty" "sw_h2 h \<noteq> sw_deleted" by auto
  then show "sw_state_of (sw_h2 h) = Slot_Occupied" by (simp add: sw_state_of_def)
qed

lemma sw_state_simps:
  "sw_state_of c = Slot_Empty \<longleftrightarrow> c = sw_empty" "sw_state_of c = Slot_Deleted \<longleftrightarrow> c = sw_deleted"
  "sw_state_of sw_empty = Slot_Empty" "sw_state_of sw_deleted = Slot_Deleted"
  by (auto simp: sw_state_of_def sw_empty_def sw_deleted_def)

lemma sw_occupied_state:
  assumes "sw_inv p" "i < sw_slot_count p"
  shows "oa_state (sw_cells p ! i) = Slot_Occupied \<longleftrightarrow> sw_slot_is_occupied p i"
  by (auto simp: sw_cells_nth [OF assms] sw_state_of_def sw_slot_is_occupied_def)

section \<open>Probing\<close>

lemma sw_group_start:
  assumes "sw_inv p"
  shows "sw_group_start_for p (sw_mixed_hash k) t = group_at (sw_group_count p) k t"
proof -
  obtain m where m: "sw_group_count p = 2 ^ m" using sw_invD(5) [OF assms] by blast
  show ?thesis unfolding sw_group_start_for_def group_at_def Let_def m nat_and_pow2 sw_group_width_def
    by (simp only: mod_add_left_eq)
qed

lemma group_at_bound: "0 < n \<Longrightarrow> i < 16 \<Longrightarrow> group_at n k t + i < n * 16"
proof -
  assume "0 < n" "i < 16"
  then have "(unat (drop_bit 7 (sw_mixed_hash k)) + t) mod n + 1 \<le> n" by (simp add: Suc_le_eq)
  then have "((unat (drop_bit 7 (sw_mixed_hash k)) + t) mod n + 1) * 16 \<le> n * 16" by (rule mult_le_mono1)
  then show ?thesis using \<open>i < 16\<close> by (simp add: group_at_def)
qed

lemma group_at_surj:
  assumes "q < n * 16"
  shows "\<exists>t < n. \<exists>i < 16. q = group_at n k t + i"
proof -
  have "q div 16 < n" using assms by (simp add: less_mult_imp_div_less)
  then obtain t where "t < n" "(unat (drop_bit 7 (sw_mixed_hash k)) + t) mod n = q div 16" using shift_mod_surj by blast
  then show ?thesis by (intro exI [of _ t] conjI exI [of _ "q mod 16"]) (simp_all add: group_at_def)
qed

lemma find_upt:
  "case find P [0..<n] of Some i \<Rightarrow> i < n \<and> P i | None \<Rightarrow> \<forall>i < n. \<not> P i"
proof (cases "find P [0..<n]")
  case None
  then show ?thesis using find_None_iff [of P "[0..<n]"] by auto
next
  case (Some i)
  then show ?thesis using find_Some_iff [of P "[0..<n]" i] by auto
qed

text \<open>The candidates of a group, read from the cells.\<close>
definition sw_hit :: "oa_slot list \<Rightarrow> u64 \<Rightarrow> nat \<Rightarrow> bool" where
  "sw_hit bs k q \<longleftrightarrow> oa_state (bs ! q) = Slot_Occupied \<and> oa_key (bs ! q) = k"

lemma sw_match:
  assumes "sw_inv p" "gs = group_at (sw_group_count p) k t"
  shows "i < 16 \<Longrightarrow> gs + i < sw_slot_count p"
    "sw_mask_loop (\<lambda>i. sw_control_byte p (gs + i) = sw_h2 (sw_mixed_hash k) \<and> sw_slot_key p (gs + i) = k)
       (group_match_mask (sw_control_group p gs) (sw_h2 (sw_mixed_hash k))) = find (\<lambda>i. sw_hit (sw_cells p) k (gs + i)) [0..<16]"
    "sw_mask_loop (\<lambda>i. sw_control_byte p (gs + i) = sw_deleted) (group_match_mask (sw_control_group p gs) sw_deleted)
       = find (\<lambda>i. oa_state (sw_cells p ! (gs + i)) = Slot_Deleted) [0..<16]"
    "sw_mask_loop (\<lambda>i. sw_control_byte p (gs + i) = sw_empty) (group_match_mask (sw_control_group p gs) sw_empty)
       = find (\<lambda>i. oa_state (sw_cells p ! (gs + i)) = Slot_Empty) [0..<16]"
    "group_match_mask (sw_control_group p gs) sw_empty \<noteq> 0 \<longleftrightarrow> (\<exists>i < 16. oa_state (sw_cells p ! (gs + i)) = Slot_Empty)"
proof -
  note D = sw_invD [OF assms(1)]
  show b: "gs + i < sw_slot_count p" if "i < 16" for i
    using group_at_bound [OF D(6) that, of k t] by (simp add: assms(2) D(4))
  have hash: "\<forall>i < sw_slot_count p. sw_slot_is_occupied p i \<longrightarrow> sw_ctrl p ! i = sw_h2 (sw_mixed_hash (sw_slot_key p i))"
    using assms(1) unfolding sw_inv_def by blast
  have g: "gs \<le> length (sw_ctrl p)" using b [of 0] D(2) by simp
  have c: "sw_control_group p gs ! i = sw_ctrl p ! (gs + i)" for i using g by (simp add: sw_control_group_def)
  have h: "sw_hit (sw_cells p) k (gs + i) \<longleftrightarrow> sw_ctrl p ! (gs + i) = sw_h2 (sw_mixed_hash k) \<and> sw_slot_key p (gs + i) = k"
    if "i < 16" for i
    using hash [rule_format, OF b [OF that]] sw_h2_occupied(1) [THEN not_sym] sw_h2_occupied(2) [THEN not_sym]
    unfolding sw_hit_def sw_occupied_state [OF assms(1) b [OF that]] sw_cells_nth(1) [OF assms(1) b [OF that]]
    by (auto simp: sw_slot_is_occupied_def)
  show "sw_mask_loop (\<lambda>i. sw_control_byte p (gs + i) = sw_h2 (sw_mixed_hash k) \<and> sw_slot_key p (gs + i) = k)
       (group_match_mask (sw_control_group p gs) (sw_h2 (sw_mixed_hash k))) = find (\<lambda>i. sw_hit (sw_cells p) k (gs + i)) [0..<16]"
    unfolding match_loop by (rule find_cong_upt) (simp add: c sw_control_byte_def h)
  note st = sw_cells_nth(3) [OF assms(1) b] sw_state_simps
  show "sw_mask_loop (\<lambda>i. sw_control_byte p (gs + i) = sw_deleted) (group_match_mask (sw_control_group p gs) sw_deleted)
       = find (\<lambda>i. oa_state (sw_cells p ! (gs + i)) = Slot_Deleted) [0..<16]"
    unfolding match_loop by (rule find_cong_upt) (simp add: c sw_control_byte_def st)
  show "sw_mask_loop (\<lambda>i. sw_control_byte p (gs + i) = sw_empty) (group_match_mask (sw_control_group p gs) sw_empty)
       = find (\<lambda>i. oa_state (sw_cells p ! (gs + i)) = Slot_Empty) [0..<16]"
    unfolding match_loop by (rule find_cong_upt) (simp add: c sw_control_byte_def st)
  show "group_match_mask (sw_control_group p gs) sw_empty \<noteq> 0 \<longleftrightarrow> (\<exists>i < 16. oa_state (sw_cells p ! (gs + i)) = Slot_Empty)"
    unfolding group_match_zero using st by (auto simp: c)
qed

lemma sw_find_unfold:
  assumes "sw_inv p" "gs = group_at (sw_group_count p) k t"
  shows "sw_find p k t = (if t < sw_group_count p
     then (case find (\<lambda>i. sw_hit (sw_cells p) k (gs + i)) [0..<16] of
        Some i \<Rightarrow> Some (gs + i)
      | None \<Rightarrow> if \<exists>i < 16. oa_state (sw_cells p ! (gs + i)) = Slot_Empty then None else sw_find p k (t + 1))
     else None)"
  unfolding sw_find.simps [of p k t] Let_def sw_group_start [OF assms(1)] assms(2) [symmetric]
    sw_match(2,5) [OF assms] by (rule refl)

lemma sw_no_slot_no_key:
  assumes "sw_inv p" "\<And>t i. t < sw_group_count p \<Longrightarrow> i < 16 \<Longrightarrow> \<not> sw_hit (sw_cells p) k (group_at (sw_group_count p) k t + i)"
  shows "k \<notin> fst ` set (slot_entries (sw_cells p))"
proof
  assume "k \<in> fst ` set (slot_entries (sw_cells p))"
  then obtain q where q: "q < length (sw_cells p)" "sw_hit (sw_cells p) k q"
    using entry_occupied by (fastforce simp: sw_hit_def)
  then have "q < sw_group_count p * 16" using sw_invD [OF assms(1)] by simp
  from group_at_surj [OF this, of k] show False using assms(2) q(2) by blast
qed

lemma sw_empty_ends_search:
  assumes "sw_chains bs n" "i < 16" "oa_state (bs ! (group_at n k t + i)) = Slot_Empty"
    "\<And>u i. u \<le> t \<Longrightarrow> i < 16 \<Longrightarrow> \<not> sw_hit bs k (group_at n k u + i)"
  shows "k \<notin> fst ` set (slot_entries bs)"
proof
  assume "k \<in> fst ` set (slot_entries bs)"
  then obtain q where q: "q < length bs" "oa_state (bs ! q) = Slot_Occupied" "oa_key (bs ! q) = k"
    using entry_occupied by fastforce
  then obtain u j where u: "j < 16" "q = group_at n k u + j" "groups_full bs n k u"
    using assms(1) by (auto simp: sw_chains_def)
  have "\<not> u \<le> t" using assms(4) [of u j] q u by (auto simp: sw_hit_def)
  then show False using u(3) assms(2,3) by (auto simp: groups_full_def)
qed

lemma sw_find_ok:
  assumes "sw_inv p"
  shows "(\<And>u i. u < t \<Longrightarrow> i < 16 \<Longrightarrow> \<not> sw_hit (sw_cells p) k (group_at (sw_group_count p) k u + i)) \<Longrightarrow>
    case sw_find p k t of
      Some q \<Rightarrow> q < length (sw_cells p) \<and> oa_state (sw_cells p ! q) = Slot_Occupied \<and> oa_key (sw_cells p ! q) = k
    | None \<Rightarrow> k \<notin> fst ` set (slot_entries (sw_cells p))"
proof (induction "sw_group_count p - t" arbitrary: t rule: less_induct)
  case less
  define n where "n = sw_group_count p"
  define bs where "bs = sw_cells p"
  define gs where "gs = group_at n k t"
  note D = sw_invD [OF assms, folded n_def bs_def]
  note unfold = sw_find_unfold [OF assms gs_def [unfolded n_def], folded n_def bs_def]
  note srch = less.prems [folded n_def bs_def]
  show ?case
  proof (cases "t < n")
    case False
    then have "k \<notin> fst ` set (slot_entries bs)"
      unfolding bs_def using srch by (intro sw_no_slot_no_key [OF assms]) (simp add: bs_def n_def)
    then show ?thesis using False unfold by (simp add: bs_def)
  next
    case True
    show ?thesis
    proof (cases "find (\<lambda>i. sw_hit bs k (gs + i)) [0..<16]")
      case (Some i)
      then have i: "i < 16" "sw_hit bs k (gs + i)" using find_upt [of 16 "\<lambda>i. sw_hit bs k (gs + i)"] by auto
      have "gs + i < length bs" using group_at_bound [OF D(6) i(1)] by (simp add: gs_def D(3,4))
      then show ?thesis using i(2) True Some unfold by (simp add: bs_def sw_hit_def)
    next
      case None
      then have no: "\<And>u i. u < t + 1 \<Longrightarrow> i < 16 \<Longrightarrow> \<not> sw_hit bs k (group_at n k u + i)"
        using find_upt [of 16 "\<lambda>i. sw_hit bs k (gs + i)"] srch by (auto simp: gs_def less_Suc_eq)
      show ?thesis
      proof (cases "\<exists>i < 16. oa_state (bs ! (gs + i)) = Slot_Empty")
        case True
        then obtain i where "i < 16" "oa_state (bs ! (group_at n k t + i)) = Slot_Empty" by (auto simp: gs_def)
        then have "k \<notin> fst ` set (slot_entries bs)" using sw_empty_ends_search [OF D(8)] no by simp
        then show ?thesis using True None unfold by (simp add: bs_def)
      next
        case False
        have "sw_find p k t = sw_find p k (t + 1)"
          unfolding unfold if_P [OF \<open>t < n\<close>] None option.case if_not_P [OF False] by (rule refl)
        then show ?thesis using less.hyps [of "t + 1"] True no by (simp add: n_def bs_def)
      qed
    qed
  qed
qed

lemma sw_lookup_map:
  assumes "sw_inv p"
  shows "sw_lookup p k = map_of (slot_entries (sw_cells p)) k"
proof -
  note ok = sw_find_ok [OF assms, of 0 k, simplified]
  show ?thesis
  proof (cases "sw_find p k 0")
    case None
    then have "map_of (slot_entries (sw_cells p)) k = None" using ok by (simp add: map_of_eq_None_iff)
    then show ?thesis using None by (simp add: sw_lookup_def)
  next
    case (Some q)
    then have "(k, oa_val (sw_cells p ! q)) \<in> set (slot_entries (sw_cells p))"
      using ok occupied_entry [of q "sw_cells p"] by auto
    then show ?thesis using Some ok sw_invD(3,7) [OF assms] sw_cells_nth(2) [OF assms, of q] by (simp add: sw_lookup_def)
  qed
qed

section \<open>Updating one slot\<close>

lemma groups_full_update:
  assumes "groups_full bs n k t" "oa_state s \<noteq> Slot_Empty"
  shows "groups_full (bs[q := s]) n k t"
  using assms unfolding groups_full_def nth_update_cases by simp

text \<open>Filling a slot in the group that ends a chain keeps all chains.\<close>
lemma sw_chains_fill:
  assumes "sw_chains bs n" "t < n" "i < 16" "groups_full bs n (oa_key s) t" "oa_state s \<noteq> Slot_Empty"
    "q = group_at n (oa_key s) t + i"
  shows "sw_chains (bs[q := s]) n"
  unfolding sw_chains_def
proof (intro allI impI)
  fix r assume r: "r < length (bs[q := s])" "oa_state (bs[q := s] ! r) = Slot_Occupied"
  show "\<exists>t < n. \<exists>i < 16. r = group_at n (oa_key (bs[q := s] ! r)) t + i
      \<and> groups_full (bs[q := s]) n (oa_key (bs[q := s] ! r)) t"
  proof (cases "r = q")
    case True
    then show ?thesis using assms(2,3,6) r(1) groups_full_update [OF assms(4,5), of q]
      by (intro exI [of _ t] conjI exI [of _ i]) simp_all
  next
    case False
    then obtain t' i' where "t' < n" "i' < 16" "r = group_at n (oa_key (bs ! r)) t' + i'" "groups_full bs n (oa_key (bs ! r)) t'"
      using assms(1) r unfolding sw_chains_def by (auto simp del: One_nat_def)
    then show ?thesis using False groups_full_update [OF _ assms(5), of bs n _ t' q]
      by (intro exI [of _ t'] conjI exI [of _ i']) simp_all
  qed
qed

lemma sw_chains_keep:
  assumes "sw_chains bs n" "q < length bs" "oa_state (bs ! q) = Slot_Occupied"
    "oa_state s \<noteq> Slot_Empty" "oa_state s = Slot_Occupied \<longrightarrow> oa_key s = oa_key (bs ! q)"
  shows "sw_chains (bs[q := s]) n"
proof (cases "oa_state s = Slot_Occupied")
  case True
  then obtain t i where "t < n" "i < 16" "q = group_at n (oa_key s) t + i" "groups_full bs n (oa_key s) t"
    using assms by (auto simp: sw_chains_def)
  then show ?thesis using sw_chains_fill [OF assms(1) _ _ _ assms(4)] by blast
next
  case False
  show ?thesis unfolding sw_chains_def
  proof (intro allI impI)
    fix r assume r: "r < length (bs[q := s])" "oa_state (bs[q := s] ! r) = Slot_Occupied"
    have "r \<noteq> q" using r False by auto
    then obtain t i where "t < n" "i < 16" "r = group_at n (oa_key (bs ! r)) t + i" "groups_full bs n (oa_key (bs ! r)) t"
      using assms(1) r unfolding sw_chains_def by auto
    then show "\<exists>t < n. \<exists>i < 16. r = group_at n (oa_key (bs[q := s] ! r)) t + i
      \<and> groups_full (bs[q := s]) n (oa_key (bs[q := s] ! r)) t"
      using \<open>r \<noteq> q\<close> groups_full_update [OF _ assms(4), of bs n _ t q] by (intro exI [of _ t] conjI exI [of _ i]) simp_all
  qed
qed

lemma sw_place_ok:
  assumes "sw_inv p" "k \<notin> fst ` set (slot_entries (sw_cells p))" "q = group_at (sw_group_count p) k t + i"
    "t < sw_group_count p" "i < 16" "groups_full (sw_cells p) (sw_group_count p) k t"
    "oa_state (sw_cells p ! q) \<noteq> Slot_Occupied" "p' = sw_place_occupied q k v (sw_h2 (sw_mixed_hash k)) p"
  shows "sw_inv p'" "map_of (slot_entries (sw_cells p')) = (map_of (slot_entries (sw_cells p)))(k \<mapsto> v)"
    "sw_slot_count p' = sw_slot_count p" "sw_size p' + sw_tombstones p' \<le> sw_size p + sw_tombstones p + 1"
proof -
  note D = sw_invD [OF assms(1)]
  define s where "s = \<lparr>oa_key = k, oa_val = v, oa_state = Slot_Occupied\<rparr>"
  define bs where "bs = sw_cells p"
  have q: "q < length bs" using group_at_bound [OF D(6) assms(5)] D(3,4) by (simp add: bs_def assms(3))
  have cell: "sw_cell \<lparr>ss_key = k, ss_val = v\<rparr> (sw_h2 (sw_mixed_hash k)) = s"
    by (simp add: sw_cell_def s_def sw_h2_occupied)
  have del: "oa_state (bs ! q) = Slot_Deleted \<longleftrightarrow> sw_ctrl p ! q = sw_deleted"
    using q D(3) sw_cells_nth(3) [OF assms(1), of q] by (simp add: bs_def sw_state_simps)
  have e: "sw_cells p' = bs[q := s]" "sw_size p' = sw_size p + 1" "sw_mask p' = sw_mask p"
    "sw_tombstones p' = sw_tombstones p - (if oa_state (bs ! q) = Slot_Deleted then 1 else 0)"
    "length (sw_slots p') = length (sw_slots p)" "length (sw_ctrl p') = length (sw_ctrl p)"
    unfolding del by (simp_all add: assms(8) sw_place_occupied_def Let_def bs_def sw_cells_def cell sw_cells_update)
  show c: "sw_slot_count p' = sw_slot_count p" by (simp add: sw_slot_count_def e)
  have g: "sw_group_count p' = sw_group_count p" by (simp add: sw_group_count_def c)
  have f: "map_of (slot_entries (bs[q := s])) = (map_of (slot_entries bs))(k \<mapsto> v)"
    "distinct (map fst (slot_entries (bs[q := s])))" "length (slot_entries (bs[q := s])) = length (slot_entries bs) + 1"
    unfolding s_def using entries_fill [OF q _ _ _ refl] assms(2,7) D(7) by (simp_all add: bs_def)
  then show "map_of (slot_entries (sw_cells p')) = (map_of (slot_entries (sw_cells p)))(k \<mapsto> v)" by (simp add: e bs_def)
  have ch: "sw_chains (bs[q := s]) (sw_group_count p)"
    using sw_chains_fill [OF D(8) assms(4,5), of s q] assms(3,6) by (simp add: bs_def s_def)
  have t: "sw_tombstones p = length (filter (\<lambda>s. oa_state s = Slot_Deleted) bs)"
    using assms(1) unfolding sw_inv_def bs_def by blast
  then have "length (filter (\<lambda>s. oa_state s = Slot_Deleted) (bs[q := s])) = sw_tombstones p'"
    using deleted_split [OF q, of s] by (simp add: s_def e split: if_splits)
  moreover have "sw_ctrl p' ! j = sw_h2 (sw_mixed_hash (sw_slot_key p' j))"
    if "j < sw_slot_count p" "sw_slot_is_occupied p' j" for j
    using assms(1) that q D(1,2,3)
    by (auto simp: sw_inv_def assms(8) sw_place_occupied_def Let_def sw_slot_is_occupied_def sw_slot_key_def
        nth_update_cases bs_def split: if_splits)
  ultimately show "sw_inv p'"
    using D assms(1) f(2,3) ch by (simp add: sw_inv_def c g e(1,2,5,6) bs_def)
  show "sw_size p' + sw_tombstones p' \<le> sw_size p + sw_tombstones p + 1" by (simp add: e)
qed

lemma sw_set_value_ok:
  assumes "sw_inv p" "q < length (sw_cells p)" "sw_hit (sw_cells p) k q" "p' = sw_set_slot_value q v p"
  shows "sw_inv p'" "map_of (slot_entries (sw_cells p')) = (map_of (slot_entries (sw_cells p)))(k \<mapsto> v)"
    "sw_slot_count p' = sw_slot_count p" "sw_size p' = sw_size p" "sw_tombstones p' = sw_tombstones p"
proof -
  note D = sw_invD [OF assms(1)]
  define bs where "bs = sw_cells p"
  have h: "oa_state (bs ! q) = Slot_Occupied" "oa_key (bs ! q) = k" using assms(3) by (simp_all add: sw_hit_def bs_def)
  have q: "q < length bs" "q < length (sw_slots p)" "q < length (sw_ctrl p)" using assms(2) D(1-3) by (simp_all add: bs_def)
  have "(sw_ctrl p)[q := sw_ctrl p ! q] = sw_ctrl p" by simp
  then have "sw_cells p' = bs[q := sw_cell ((sw_slots p ! q)\<lparr>ss_val := v\<rparr>) (sw_ctrl p ! q)]"
    using sw_cells_update [of "sw_slots p" q _ "sw_ctrl p" "sw_ctrl p ! q"]
    by (simp add: assms(4) sw_set_slot_value_def sw_cells_def bs_def)
  then have e: "sw_cells p' = bs[q := (bs ! q)\<lparr>oa_val := v\<rparr>]" using q by (simp add: bs_def sw_cells_def sw_cell_def)
  show c: "sw_slot_count p' = sw_slot_count p" "sw_size p' = sw_size p" "sw_tombstones p' = sw_tombstones p"
    by (simp_all add: assms(4) sw_set_slot_value_def sw_slot_count_def)
  have g: "sw_group_count p' = sw_group_count p" by (simp add: sw_group_count_def c)
  note u = entries_set_value [OF q(1) h(1) D(7) [folded bs_def] refl, of v]
  show "map_of (slot_entries (sw_cells p')) = (map_of (slot_entries (sw_cells p)))(k \<mapsto> v)"
    using u(1) by (simp add: e bs_def h(2) [unfolded bs_def])
  have ch: "sw_chains (bs[q := (bs ! q)\<lparr>oa_val := v\<rparr>]) (sw_group_count p)"
    using sw_chains_keep [OF D(8) [folded bs_def] q(1) h(1)] h(1) by simp
  have "length (filter (\<lambda>s. oa_state s = Slot_Deleted) (bs[q := (bs ! q)\<lparr>oa_val := v\<rparr>]))
      = length (filter (\<lambda>s. oa_state s = Slot_Deleted) bs)"
    using deleted_split [OF q(1), of "(bs ! q)\<lparr>oa_val := v\<rparr>"] h(1) by simp
  moreover have "length (slot_entries (bs[q := (bs ! q)\<lparr>oa_val := v\<rparr>])) = length (slot_entries bs)"
    using u(2) by (metis length_map)
  moreover have "sw_ctrl p' ! j = sw_h2 (sw_mixed_hash (sw_slot_key p' j))"
    if "j < sw_slot_count p" "sw_slot_is_occupied p' j" for j
    using assms(1) that
    by (auto simp: sw_inv_def assms(4) sw_set_slot_value_def sw_slot_is_occupied_def sw_slot_key_def nth_update_cases)
  moreover have "length (sw_slots p') = length (sw_slots p)" "length (sw_ctrl p') = length (sw_ctrl p)"
    by (simp_all add: assms(4) sw_set_slot_value_def)
  ultimately show "sw_inv p'" using assms(1) u(2) ch by (simp add: sw_inv_def c g e bs_def)
qed

lemma sw_mark_deleted_ok:
  assumes "sw_inv p" "q < length (sw_cells p)" "sw_hit (sw_cells p) k q" "p' = sw_mark_deleted q p"
  shows "sw_inv p'" "map_of (slot_entries (sw_cells p')) = (map_of (slot_entries (sw_cells p)))(k := None)"
    "sw_slot_count p' = sw_slot_count p" "sw_size p' + sw_tombstones p' = sw_size p + sw_tombstones p"
proof -
  note D = sw_invD [OF assms(1)]
  define bs where "bs = sw_cells p"
  define s where "s = sw_cell sw_free_slot sw_deleted"
  have s: "oa_state s = Slot_Deleted" by (simp add: s_def sw_cell_def sw_state_simps)
  have h: "oa_state (bs ! q) = Slot_Occupied" "oa_key (bs ! q) = k" using assms(3) by (simp_all add: sw_hit_def bs_def)
  have q: "q < length bs" "q < length (sw_ctrl p)" using assms(2) D(1-3) by (simp_all add: bs_def)
  have e: "sw_cells p' = bs[q := s]"
    by (simp add: assms(4) sw_mark_deleted_def sw_cells_def bs_def s_def sw_cells_update)
  have c: "sw_slot_count p' = sw_slot_count p" "sw_size p' = sw_size p - 1" "sw_tombstones p' = sw_tombstones p + 1"
    "length (sw_slots p') = length (sw_slots p)" "length (sw_ctrl p') = length (sw_ctrl p)"
    by (simp_all add: assms(4) sw_mark_deleted_def sw_slot_count_def)
  show "sw_slot_count p' = sw_slot_count p" by (rule c(1))
  have "(oa_key (bs ! q), oa_val (bs ! q)) \<in> set (slot_entries bs)" by (rule occupied_entry [OF q(1) h(1)])
  then have "0 < sw_size p" unfolding D(9) bs_def [symmetric] by (rule length_pos_if_in_set)
  then show "sw_size p' + sw_tombstones p' = sw_size p + sw_tombstones p" by (simp add: c)
  have g: "sw_group_count p' = sw_group_count p" by (simp add: sw_group_count_def c)
  have "oa_state s \<noteq> Slot_Occupied" "oa_state s \<noteq> Slot_Empty" by (simp_all add: s)
  note r = entries_remove [OF q(1) h(1) D(7) [folded bs_def] refl this(1)]
    and ch = sw_chains_keep [OF D(8) [folded bs_def] q(1) h(1) this(2)]
  show "map_of (slot_entries (sw_cells p')) = (map_of (slot_entries (sw_cells p)))(k := None)"
    using r(1) by (simp add: e bs_def h(2) [unfolded bs_def])
  have "length (filter (\<lambda>s. oa_state s = Slot_Deleted) (bs[q := s])) = length (filter (\<lambda>s. oa_state s = Slot_Deleted) bs) + 1"
    using deleted_split [OF q(1), of s] h(1) s by simp
  moreover have "sw_ctrl p' ! j = sw_h2 (sw_mixed_hash (sw_slot_key p' j))"
    if "j < sw_slot_count p" "sw_slot_is_occupied p' j" for j
    using assms(1) that q(2)
    by (auto simp: sw_inv_def assms(4) sw_mark_deleted_def sw_slot_is_occupied_def sw_slot_key_def nth_update_cases)
  moreover have "sw_chains (bs[q := s]) (sw_group_count p)" using ch s by simp
  ultimately show "sw_inv p'" using assms(1) r(2,3) by (simp add: sw_inv_def c g e bs_def)
qed

lemma sw_erase_ok:
  assumes "sw_inv p" "sw_room p"
  shows "sw_inv (snd (sw_erase k p)) \<and> sw_room (snd (sw_erase k p))
    \<and> map_of (slot_entries (sw_cells (snd (sw_erase k p)))) = (map_of (slot_entries (sw_cells p)))(k := None)
    \<and> (fst (sw_erase k p) \<longleftrightarrow> map_of (slot_entries (sw_cells p)) k \<noteq> None)"
proof (cases "sw_find p k 0")
  case None
  then have "map_of (slot_entries (sw_cells p)) k = None"
    using sw_find_ok [OF assms(1), of 0 k] by (simp add: map_of_eq_None_iff)
  then show ?thesis using None assms by (auto simp: sw_erase_def fun_eq_iff)
next
  case (Some q)
  then have q: "q < length (sw_cells p)" "sw_hit (sw_cells p) k q"
    using sw_find_ok [OF assms(1), of 0 k] by (simp_all add: sw_hit_def)
  have "map_of (slot_entries (sw_cells p)) k \<noteq> None"
    using occupied_entry [OF q(1)] q(2) unfolding map_of_eq_None_iff sw_hit_def by (metis fst_conv imageI)
  then show ?thesis using sw_mark_deleted_ok [OF assms(1) q refl] Some assms(2) by (simp add: sw_erase_def sw_room_def)
qed

section \<open>Insertion into a table with room\<close>

definition next_deleted :: "oa_slot list \<Rightarrow> nat \<Rightarrow> nat option \<Rightarrow> nat option" where
  "next_deleted bs gs fd = (if fd \<noteq> None then fd
     else map_option (\<lambda>i. gs + i) (find (\<lambda>i. oa_state (bs ! (gs + i)) = Slot_Deleted) [0..<16]))"

lemma sw_insert_unfold:
  assumes "sw_inv p" "gs = group_at (sw_group_count p) k t"
  shows "sw_insert_probe k v p t fd = (if t < sw_group_count p
     then (case find (\<lambda>i. sw_hit (sw_cells p) k (gs + i)) [0..<16] of
        Some i \<Rightarrow> Some (sw_set_slot_value (gs + i) v p)
      | None \<Rightarrow> (case find (\<lambda>i. oa_state (sw_cells p ! (gs + i)) = Slot_Empty) [0..<16] of
          Some i \<Rightarrow> Some (sw_place_occupied (case next_deleted (sw_cells p) gs fd of Some d \<Rightarrow> d | None \<Rightarrow> gs + i) k v
             (sw_h2 (sw_mixed_hash k)) p)
        | None \<Rightarrow> sw_insert_probe k v p (t + 1) (next_deleted (sw_cells p) gs fd)))
     else None)"
  unfolding sw_insert_probe.simps [of k v p t] Let_def sw_group_start [OF assms(1)] assms(2) [symmetric]
    sw_match(2-4) [OF assms] next_deleted_def by (rule refl)

lemma next_deleted_cases:
  "next_deleted bs gs fd = Some d \<Longrightarrow> fd = Some d \<or> (\<exists>i < 16. d = gs + i \<and> oa_state (bs ! d) = Slot_Deleted)"
  using find_upt [of 16 "\<lambda>i. oa_state (bs ! (gs + i)) = Slot_Deleted"]
  by (auto simp: next_deleted_def split: if_splits)

text \<open>The state of the search when group \<open>t\<close> is reached.\<close>
definition sw_searched :: "oa_slot list \<Rightarrow> nat \<Rightarrow> u64 \<Rightarrow> nat \<Rightarrow> nat option \<Rightarrow> bool" where
  "sw_searched bs n k t fd \<longleftrightarrow> groups_full bs n k t
     \<and> (\<forall>u < t. \<forall>i < 16. \<not> sw_hit bs k (group_at n k u + i))
     \<and> (\<forall>d. fd = Some d \<longrightarrow> oa_state (bs ! d) = Slot_Deleted \<and> (\<exists>u < t. \<exists>i < 16. d = group_at n k u + i))"

lemma sw_searched_start: "sw_searched bs n k 0 None"
  by (simp add: sw_searched_def groups_full_def)

lemma sw_searched_step:
  assumes "sw_searched bs n k t fd" "gs = group_at n k t"
    "find (\<lambda>i. sw_hit bs k (gs + i)) [0..<16] = None" "find (\<lambda>i. oa_state (bs ! (gs + i)) = Slot_Empty) [0..<16] = None"
  shows "sw_searched bs n k (t + 1) (next_deleted bs gs fd)"
proof -
  have a: "\<forall>i < 16. \<not> sw_hit bs k (gs + i)" "\<forall>i < 16. oa_state (bs ! (gs + i)) \<noteq> Slot_Empty"
    using find_upt [of 16 "\<lambda>i. sw_hit bs k (gs + i)"] find_upt [of 16 "\<lambda>i. oa_state (bs ! (gs + i)) = Slot_Empty"] assms(3,4)
    by auto
  have d: "oa_state (bs ! d) = Slot_Deleted \<and> (\<exists>u < t + 1. \<exists>i < 16. d = group_at n k u + i)"
    if "next_deleted bs gs fd = Some d" for d
    using next_deleted_cases [OF that]
  proof
    assume "fd = Some d"
    then show ?thesis using assms(1) unfolding sw_searched_def by (metis less_add_one order.strict_trans)
  next
    assume "\<exists>i < 16. d = gs + i \<and> oa_state (bs ! d) = Slot_Deleted"
    then show ?thesis using assms(2) by auto
  qed
  show ?thesis using assms(1,2) a d unfolding sw_searched_def groups_full_def by (simp add: less_Suc_eq_le le_less)
qed

lemma sw_insert_probe_ok:
  assumes "sw_inv p" "sw_room p"
  shows "sw_searched (sw_cells p) (sw_group_count p) k t fd \<Longrightarrow>
    \<exists>p'. sw_insert_probe k v p t fd = Some p' \<and> sw_inv p'
      \<and> map_of (slot_entries (sw_cells p')) = (map_of (slot_entries (sw_cells p)))(k \<mapsto> v)
      \<and> sw_slot_count p' = sw_slot_count p \<and> sw_size p' + sw_tombstones p' \<le> sw_size p + sw_tombstones p + 1"
proof (induction "sw_group_count p - t" arbitrary: t fd rule: less_induct)
  case less
  define n where "n = sw_group_count p"
  define bs where "bs = sw_cells p"
  define gs where "gs = group_at n k t"
  define fd' where "fd' = next_deleted bs gs fd"
  note D = sw_invD [OF assms(1), folded n_def bs_def]
  note unfold = sw_insert_unfold [OF assms(1) gs_def [unfolded n_def], where v = v and fd = fd, folded n_def bs_def, folded fd'_def]
  note srch = less.prems [folded n_def bs_def]
  note srch' = srch [unfolded sw_searched_def]
  have "\<exists>q < length bs. oa_state (bs ! q) = Slot_Empty"
    using assms by (intro empty_slot_exists) (simp add: sw_room_def sw_inv_def bs_def D(3) [unfolded bs_def])
  then obtain q where q: "q < n * 16" "oa_state (bs ! q) = Slot_Empty" using D(3,4) by auto
  then obtain te ie where "te < n" "ie < 16" "q = group_at n k te + ie" using group_at_surj by blast
  then have "\<not> te < t" using srch' q(2) by (auto simp: groups_full_def)
  then have t: "t < n" using \<open>te < n\<close> by simp
  show ?case
  proof (cases "find (\<lambda>i. sw_hit bs k (gs + i)) [0..<16]")
    case (Some i)
    then have i: "i < 16" "sw_hit bs k (gs + i)" using find_upt [of 16 "\<lambda>i. sw_hit bs k (gs + i)"] by auto
    have "gs + i < length bs" using group_at_bound [OF D(6) i(1)] by (simp add: gs_def D(3,4))
    from sw_set_value_ok [OF assms(1) this [unfolded bs_def] i(2) [unfolded bs_def] refl]
    show ?thesis using t Some unfold by (simp add: bs_def)
  next
    case miss: None
    show ?thesis
    proof (cases "find (\<lambda>i. oa_state (bs ! (gs + i)) = Slot_Empty) [0..<16]")
      case (Some i)
      then have i: "i < 16" "oa_state (bs ! (gs + i)) = Slot_Empty"
        using find_upt [of 16 "\<lambda>i. oa_state (bs ! (gs + i)) = Slot_Empty"] by auto
      have "\<not> sw_hit bs k (group_at n k u + i)" if "u \<le> t" "i < 16" for u i
        using srch' find_upt [of 16 "\<lambda>i. sw_hit bs k (gs + i)"] miss that by (cases "u = t") (auto simp: gs_def)
      then have k: "k \<notin> fst ` set (slot_entries bs)"
        using sw_empty_ends_search [OF D(8) i(1)] i(2) by (simp add: gs_def)
      define r where "r = (case fd' of Some d \<Rightarrow> d | None \<Rightarrow> gs + i)"
      have "\<exists>u \<le> t. \<exists>j < 16. r = group_at n k u + j \<and> oa_state (bs ! r) \<noteq> Slot_Occupied"
      proof (cases fd')
        case None
        then show ?thesis using i by (intro exI [of _ t] conjI exI [of _ i]) (simp_all add: r_def gs_def)
      next
        case (Some d)
        from next_deleted_cases [OF this [unfolded fd'_def]] show ?thesis
          using srch' Some by (auto simp: r_def gs_def) (metis hash_slot_state.distinct(5) less_imp_le)
      qed
      then obtain u j where u: "u \<le> t" "j < 16" "r = group_at n k u + j" "oa_state (bs ! r) \<noteq> Slot_Occupied" by blast
      have "groups_full bs n k u" using srch' u(1) by (simp add: groups_full_def)
      then have "sw_insert_probe k v p t fd = Some (sw_place_occupied r k v (sw_h2 (sw_mixed_hash k)) p)"
        and "u < n" using t u(1) miss Some unfold by (simp_all add: r_def)
      then show ?thesis
        using sw_place_ok [OF assms(1) k [unfolded bs_def] _ _ u(2) _ _ refl, of r u v] u(3,4) \<open>groups_full bs n k u\<close>
        by (simp add: bs_def n_def)
    next
      case None
      have "sw_insert_probe k v p t fd = sw_insert_probe k v p (t + 1) fd'"
        unfolding unfold if_P [OF t] miss None option.case by (rule refl)
      moreover have "sw_searched bs n k (t + 1) fd'"
        unfolding fd'_def by (rule sw_searched_step [OF srch gs_def miss None])
      ultimately show ?thesis using less.hyps [of "t + 1" fd'] t by (simp add: n_def bs_def)
    qed
  qed
qed

section \<open>Rehashing and insertion\<close>

text \<open>The index loops of \<^verbatim>\<open>insert_rehashed\<close> find what the match masks of \<^verbatim>\<open>insert_impl\<close> find.\<close>
lemma sw_rehash_probe_eq:
  assumes "sw_inv p"
  shows "(\<And>d. fd = Some d \<Longrightarrow> oa_state (sw_cells p ! d) = Slot_Deleted \<and> d < sw_slot_count p) \<Longrightarrow>
    sw_rehash_probe k v p t fd = sw_insert_probe k v p t fd"
proof (induction "sw_group_count p - t" arbitrary: t fd rule: less_induct)
  case less
  define gs where "gs = group_at (sw_group_count p) k t"
  define fd' where "fd' = next_deleted (sw_cells p) gs fd"
  note m = sw_match [OF assms gs_def]
  note st = sw_cells_nth(3) [OF assms m(1)] sw_state_simps
  have hash: "\<forall>i < sw_slot_count p. sw_slot_is_occupied p i \<longrightarrow> sw_ctrl p ! i = sw_h2 (sw_mixed_hash (sw_slot_key p i))"
    using assms unfolding sw_inv_def by blast
  have h: "sw_ctrl p ! (gs + i) = sw_h2 (sw_mixed_hash k) \<and> ss_key (sw_slots p ! (gs + i)) = k \<longleftrightarrow> sw_hit (sw_cells p) k (gs + i)"
    if "i < 16" for i
    using hash [rule_format, OF m(1) [OF that]] sw_h2_occupied(1) [THEN not_sym] sw_h2_occupied(2) [THEN not_sym]
    unfolding sw_hit_def sw_occupied_state [OF assms m(1) [OF that]] sw_cells_nth(1) [OF assms m(1) [OF that]]
    by (auto simp: sw_slot_is_occupied_def sw_slot_key_def)
  have f: "find (\<lambda>i. sw_ctrl p ! (gs + i) = sw_h2 (sw_mixed_hash k) \<and> ss_key (sw_slots p ! (gs + i)) = k) [0..<16]
        = find (\<lambda>i. sw_hit (sw_cells p) k (gs + i)) [0..<16]"
      "find (\<lambda>i. sw_ctrl p ! (gs + i) = sw_deleted) [0..<16] = find (\<lambda>i. oa_state (sw_cells p ! (gs + i)) = Slot_Deleted) [0..<16]"
      "find (\<lambda>i. sw_ctrl p ! (gs + i) = sw_empty) [0..<16] = find (\<lambda>i. oa_state (sw_cells p ! (gs + i)) = Slot_Empty) [0..<16]"
    by (intro find_cong_upt; simp add: h st)+
  have fd': "oa_state (sw_cells p ! d) = Slot_Deleted \<and> d < sw_slot_count p" if "fd' = Some d" for d
    using next_deleted_cases [OF that [unfolded fd'_def]] less.prems m(1) by auto
  have place: "(let target = (case fd' of Some d \<Rightarrow> d | None \<Rightarrow> gs + i);
          p1 = (if fd' \<noteq> None then p\<lparr>sw_tombstones := sw_tombstones p - 1\<rparr> else p)
      in p1\<lparr>sw_ctrl := (sw_ctrl p1)[target := h2], sw_slots := (sw_slots p1)[target := \<lparr>ss_key = k, ss_val = v\<rparr>],
           sw_size := sw_size p1 + 1\<rparr>)
      = sw_place_occupied (case fd' of Some d \<Rightarrow> d | None \<Rightarrow> gs + i) k v h2 p"
    if i: "find (\<lambda>i. oa_state (sw_cells p ! (gs + i)) = Slot_Empty) [0..<16] = Some i" for i h2
  proof (cases fd')
    case None
    have "i < 16" "oa_state (sw_cells p ! (gs + i)) = Slot_Empty"
      using find_upt [of 16 "\<lambda>i. oa_state (sw_cells p ! (gs + i)) = Slot_Empty"] i by auto
    then have "sw_ctrl p ! (gs + i) \<noteq> sw_deleted" using st by (simp add: sw_empty_def sw_deleted_def)
    then show ?thesis using None by (simp add: sw_place_occupied_def Let_def)
  next
    case (Some d)
    then have "sw_ctrl p ! d = sw_deleted"
      using fd' [OF Some] sw_cells_nth(3) [OF assms, of d] sw_state_simps(2) [of "sw_ctrl p ! d"] by simp
    then show ?thesis using Some by (simp add: sw_place_occupied_def Let_def)
  qed
  have IH: "t < sw_group_count p \<Longrightarrow> sw_rehash_probe k v p (t + 1) fd' = sw_insert_probe k v p (t + 1) fd'"
    using less.hyps [of "t + 1" fd'] fd' by simp
  have r: "sw_rehash_probe k v p t fd = (if t < sw_group_count p
     then (case find (\<lambda>i. sw_hit (sw_cells p) k (gs + i)) [0..<16] of
        Some i \<Rightarrow> Some (sw_set_slot_value (gs + i) v p)
      | None \<Rightarrow> (case find (\<lambda>i. oa_state (sw_cells p ! (gs + i)) = Slot_Empty) [0..<16] of
          Some i \<Rightarrow> Some (let target = (case fd' of Some d \<Rightarrow> d | None \<Rightarrow> gs + i);
              p1 = (if fd' \<noteq> None then p\<lparr>sw_tombstones := sw_tombstones p - 1\<rparr> else p)
            in p1\<lparr>sw_ctrl := (sw_ctrl p1)[target := sw_h2 (sw_mixed_hash k)],
                 sw_slots := (sw_slots p1)[target := \<lparr>ss_key = k, ss_val = v\<rparr>], sw_size := sw_size p1 + 1\<rparr>)
        | None \<Rightarrow> sw_rehash_probe k v p (t + 1) fd'))
     else None)"
    unfolding sw_rehash_probe.simps [of k v p t fd] Let_def sw_group_start [OF assms] gs_def [symmetric] sw_group_width_def f
      fd'_def next_deleted_def sw_set_slot_value_def by (rule refl)
  show ?case
    unfolding r sw_insert_unfold [OF assms gs_def, of v fd] fd'_def [symmetric]
    using place IH by (auto split: option.splits)
qed

lemma sw_entries_index:
  assumes "sw_inv p"
  shows "map (\<lambda>i. (sw_slot_key p i, sw_slot_value p i)) (filter (sw_slot_is_occupied p) [0..<sw_slot_count p])
    = slot_entries (sw_cells p)"
proof -
  define n where "n = sw_slot_count p"
  have bs: "map (\<lambda>i. sw_cells p ! i) [0..<n] = sw_cells p"
    using sw_invD(3) [OF assms] map_nth [of "sw_cells p"] by (simp add: n_def)
  have "slot_entries (map (\<lambda>i. sw_cells p ! i) [0..<n]) = map (\<lambda>i. (oa_key (sw_cells p ! i), oa_val (sw_cells p ! i)))
      (filter (\<lambda>i. oa_state (sw_cells p ! i) = Slot_Occupied) [0..<n])"
    unfolding slot_entries_def by (simp only: filter_map map_map comp_def)
  also have "filter (\<lambda>i. oa_state (sw_cells p ! i) = Slot_Occupied) [0..<n] = filter (sw_slot_is_occupied p) [0..<n]"
    by (intro filter_cong) (simp_all add: n_def sw_occupied_state [OF assms])
  also have "map (\<lambda>i. (oa_key (sw_cells p ! i), oa_val (sw_cells p ! i))) (filter (sw_slot_is_occupied p) [0..<n])
      = map (\<lambda>i. (sw_slot_key p i, sw_slot_value p i)) (filter (sw_slot_is_occupied p) [0..<n])"
    by (intro map_cong) (simp_all add: n_def sw_cells_nth [OF assms])
  finally show ?thesis by (metis bs n_def)
qed

lemma sw_old_entries_eq:
  assumes "sw_inv p"
  shows "sw_old_entries p = slot_entries (sw_cells p)"
proof -
  have "(\<lambda>i. \<not> (sw_ctrl p ! i = sw_empty \<or> sw_ctrl p ! i = sw_deleted)) = sw_slot_is_occupied p"
    by (simp add: fun_eq_iff sw_slot_is_occupied_def)
  then show ?thesis using sw_entries_index [OF assms] sw_invD(2) [OF assms]
    by (simp add: sw_old_entries_def sw_slot_key_def [abs_def] sw_slot_value_def [abs_def])
qed

lemma sw_empty_table:
  assumes "n = 2 ^ m * 16" "sw_slots p = replicate n sw_free_slot" "sw_ctrl p = replicate n sw_empty" "sw_mask p = n - 1"
    "sw_size p = 0" "sw_tombstones p = 0"
  shows "sw_inv p" "sw_room p" "slot_entries (sw_cells p) = []" "sw_slot_count p = n"
proof -
  have n: "0 < n" using assms(1) by simp
  have c: "sw_cells p = replicate n oa_free_slot"
    by (simp add: sw_cells_def assms sw_cell_def sw_free_slot_def oa_free_slot_def sw_state_simps zip_replicate)
  have free: "oa_state oa_free_slot = Slot_Empty" by (simp add: oa_free_slot_def)
  show s: "sw_slot_count p = n" using n by (simp add: sw_slot_count_def assms(4))
  then show "sw_room p" using n by (simp add: sw_room_def assms(5,6))
  show "slot_entries (sw_cells p) = []" by (simp add: c)
  show "sw_inv p" unfolding sw_inv_def s
    using assms free by (auto simp: c sw_chains_def sw_slot_is_occupied_def)
qed

text \<open>Re-inserting entries as long as there is room.\<close>
lemma sw_reinsert_ok:
  "sw_inv p \<Longrightarrow> sw_size p + sw_tombstones p + length kvs < sw_slot_count p \<Longrightarrow> distinct (map fst kvs) \<Longrightarrow>
   \<exists>p'. sw_reinsert kvs p = Some p' \<and> sw_inv p' \<and> sw_slot_count p' = sw_slot_count p
     \<and> sw_size p' + sw_tombstones p' \<le> sw_size p + sw_tombstones p + length kvs
     \<and> map_of (slot_entries (sw_cells p')) = map_of (slot_entries (sw_cells p)) ++ map_of kvs"
proof (induction kvs arbitrary: p)
  case (Cons kv kvs)
  have "sw_room p" using Cons.prems(2) by (simp add: sw_room_def)
  from sw_insert_probe_ok [OF Cons.prems(1) this sw_searched_start, of "fst kv" "snd kv"]
  obtain p1 where p1: "sw_insert_probe (fst kv) (snd kv) p 0 None = Some p1" "sw_inv p1"
      "map_of (slot_entries (sw_cells p1)) = (map_of (slot_entries (sw_cells p)))(fst kv \<mapsto> snd kv)"
      "sw_slot_count p1 = sw_slot_count p" "sw_size p1 + sw_tombstones p1 \<le> sw_size p + sw_tombstones p + 1"
    by blast
  have "sw_rehash_probe (fst kv) (snd kv) p 0 None = Some p1"
    using sw_rehash_probe_eq [OF Cons.prems(1), of None] p1(1) by simp
  then have step: "sw_reinsert (kv # kvs) p = sw_reinsert kvs p1" by (simp add: sw_reinsert.simps [of "kv # kvs"])
  have "sw_size p1 + sw_tombstones p1 + length kvs < sw_slot_count p1" "distinct (map fst kvs)"
    using p1(4,5) Cons.prems(2,3) by simp_all
  from Cons.IH [OF p1(2) this] obtain p' where p': "sw_reinsert kvs p1 = Some p'" "sw_inv p'"
      "sw_slot_count p' = sw_slot_count p1" "sw_size p' + sw_tombstones p' \<le> sw_size p1 + sw_tombstones p1 + length kvs"
      "map_of (slot_entries (sw_cells p')) = map_of (slot_entries (sw_cells p1)) ++ map_of kvs"
    by blast
  have "fst kv \<notin> dom (map_of kvs)" using Cons.prems(3) by (simp add: dom_map_of_conv_image_fst)
  then have "map_of (slot_entries (sw_cells p')) = map_of (slot_entries (sw_cells p)) ++ map_of (kv # kvs)"
    by (cases kv) (simp add: p'(5) p1(3) map_add_upd_left)
  then show ?case using p'(1-4) p1(4,5) step by (intro exI [of _ p']) (simp del: map_of.simps)
qed (simp add: sw_reinsert.simps)

lemma sw_rehash_ok:
  assumes "sw_inv p" "sw_room p"
  shows "\<exists>p'. sw_rehash (sw_slot_count p * 2) p = Some p' \<and> sw_inv p' \<and> sw_room p'
     \<and> map_of (slot_entries (sw_cells p')) = map_of (slot_entries (sw_cells p))
     \<and> sw_slot_count p' = sw_slot_count p * 2 \<and> sw_size p' + sw_tombstones p' \<le> sw_size p"
proof -
  note D = sw_invD [OF assms(1)]
  define f where "f = sw_fresh (sw_slot_count p * 2) p"
  obtain m where "sw_slot_count p = 2 ^ m * 16" using assms(1) by (auto simp: sw_inv_def)
  then have "sw_slot_count p * 2 = 2 ^ Suc m * 16" by simp
  note e = sw_empty_table [OF this, of f]
  have f: "sw_inv f" "slot_entries (sw_cells f) = []" "sw_slot_count f = sw_slot_count p * 2" "sw_size f = 0" "sw_tombstones f = 0"
    using e by (simp_all add: f_def sw_fresh_def)
  have "sw_size f + sw_tombstones f + length (sw_old_entries p) < sw_slot_count f"
    using assms(2) by (simp add: f sw_old_entries_eq [OF assms(1)] D(9) [symmetric] sw_room_def)
  from sw_reinsert_ok [OF f(1) this] D(7) obtain p' where "sw_reinsert (sw_old_entries p) f = Some p'" "sw_inv p'"
      "sw_slot_count p' = sw_slot_count f" "sw_size p' + sw_tombstones p' \<le> length (sw_old_entries p)"
      "map_of (slot_entries (sw_cells p')) = map_of (slot_entries (sw_cells p))"
    by (auto simp: sw_old_entries_eq [OF assms(1)] f)
  then show ?thesis using assms(2)
    by (simp add: sw_rehash_def f_def [symmetric] f sw_old_entries_eq [OF assms(1)] D(9) [symmetric] sw_room_def)
qed

lemma sw_insert_impl_ok:
  assumes "sw_inv p" "sw_size p + sw_tombstones p + 1 < sw_slot_count p"
  shows "\<exists>p'. sw_insert_impl k v p = Some p' \<and> sw_inv p' \<and> sw_room p'
    \<and> map_of (slot_entries (sw_cells p')) = (map_of (slot_entries (sw_cells p)))(k \<mapsto> v)"
proof -
  have "sw_room p" using assms(2) by (simp add: sw_room_def)
  from sw_insert_probe_ok [OF assms(1) this sw_searched_start, of k v]
  show ?thesis using assms(2) by (auto simp: sw_insert_impl.simps [of k v p] sw_room_def)
qed

lemma sw_insert_ok:
  assumes "sw_inv p" "sw_room p"
  shows "\<exists>p'. sw_insert k v p = Some p' \<and> sw_inv p' \<and> sw_room p'
    \<and> map_of (slot_entries (sw_cells p')) = (map_of (slot_entries (sw_cells p)))(k \<mapsto> v)"
proof (cases "sw_needs_rehash p")
  case True
  obtain p1 where p1: "sw_rehash (sw_slot_count p * 2) p = Some p1" "sw_inv p1"
      "map_of (slot_entries (sw_cells p1)) = map_of (slot_entries (sw_cells p))"
      "sw_slot_count p1 = sw_slot_count p * 2" "sw_size p1 + sw_tombstones p1 \<le> sw_size p"
    using sw_rehash_ok [OF assms] by blast
  have "0 < sw_slot_count p" by (simp add: sw_slot_count_def)
  then have "sw_size p1 + sw_tombstones p1 + 1 < sw_slot_count p1" using p1(4,5) assms(2) unfolding sw_room_def by linarith
  from sw_insert_impl_ok [OF p1(2) this] show ?thesis using True p1(1,3) by (simp add: sw_insert_def)
next
  case False
  then have "sw_size p + sw_tombstones p + 1 < sw_slot_count p" by (simp add: sw_needs_rehash_def)
  from sw_insert_impl_ok [OF assms(1) this] show ?thesis using False by (simp add: sw_insert_def)
qed

section \<open>The map contract\<close>

lemma sw_clear_ok:
  assumes "sw_inv p"
  shows "sw_inv (sw_clear p)" "sw_room (sw_clear p)" "slot_entries (sw_cells (sw_clear p)) = []"
proof -
  obtain m where m: "sw_slot_count p = 2 ^ m * 16" using assms by (auto simp: sw_inv_def)
  have "sw_slots (sw_clear p) = replicate (sw_slot_count p) sw_free_slot" "sw_ctrl (sw_clear p) = replicate (sw_slot_count p) sw_empty"
    "sw_mask (sw_clear p) = sw_slot_count p - 1" "sw_size (sw_clear p) = 0" "sw_tombstones (sw_clear p) = 0"
    using sw_invD(1,2) [OF assms] by (simp_all add: sw_clear_def map_replicate_const sw_slot_count_def)
  from sw_empty_table [OF m this] show "sw_inv (sw_clear p)" "sw_room (sw_clear p)" "slot_entries (sw_cells (sw_clear p)) = []"
    by blast+
qed

lemma sw_init_ok: "sw_inv sw_init" "sw_room sw_init" "sw_lookup sw_init = Map.empty"
proof -
  have "sw_initial_capacity = 2 ^ 0 * 16" by (simp add: sw_initial_capacity_def)
  then have e: "sw_inv sw_init" "sw_room sw_init" "slot_entries (sw_cells sw_init) = []"
    by (rule sw_empty_table; simp add: sw_init_def)+
  show "sw_inv sw_init" "sw_room sw_init" by (rule e(1), rule e(2))
  show "sw_lookup sw_init = Map.empty" using e(3) by (simp add: fun_eq_iff sw_lookup_map [OF e(1)])
qed

lemma sw_view: "sw_inv p \<Longrightarrow> sw_lookup p = map_of (slot_entries (sw_cells p))"
  by (simp add: fun_eq_iff sw_lookup_map)

text \<open>Rehashing might not return: insertions are options.  The table is never full.\<close>
interpretation sw: pool_map "\<lambda>p. sw_inv p \<and> sw_room p" "\<lambda>p k. Some (sw_lookup p k)"
  "\<lambda>k v p. map_option Inr (sw_insert k v p)" "\<lambda>k p. Some (sw_erase k p)" sw_size sw_clear sw_lookup "\<lambda>_. False"
proof unfold_locales
  fix p k v assume i: "sw_inv p \<and> sw_room p"
  then have ir: "sw_inv p" "sw_room p" by blast+
  show "Some (sw_lookup p k) = Some (sw_lookup p k)" by (rule refl)
  obtain p' where "sw_insert k v p = Some p'" "sw_inv p'" "sw_room p'"
      "map_of (slot_entries (sw_cells p')) = (map_of (slot_entries (sw_cells p)))(k \<mapsto> v)"
    using sw_insert_ok [OF ir] by blast
  then show "\<exists>p'. map_option Inr (sw_insert k v p) = Some (Inr p') \<and> (sw_inv p' \<and> sw_room p') \<and> sw_lookup p' = (sw_lookup p)(k \<mapsto> v)"
    using ir by (simp add: sw_view)
  show "\<exists>p'. Some (sw_erase k p) = Some (sw_lookup p k \<noteq> None, p') \<and> (sw_inv p' \<and> sw_room p') \<and> sw_lookup p' = (sw_lookup p)(k := None)"
    using sw_erase_ok [OF ir, of k] ir by (intro exI [of _ "snd (sw_erase k p)"]) (simp add: sw_view prod_eq_iff del: not_None_eq)
  show "sw_size p = card (dom (sw_lookup p))"
    using sw_invD(7,9) [OF ir(1)] by (simp add: sw_view [OF ir(1)] card_dom_map_of)
  show "(sw_inv (sw_clear p) \<and> sw_room (sw_clear p)) \<and> sw_lookup (sw_clear p) = Map.empty"
    using sw_clear_ok [OF ir(1)] by (simp add: sw_view)
qed simp_all

section \<open>Properties\<close>

text \<open>C14: The swiss table implements a map: started empty, every sequence of insertions, lookups, erasures, counts
  and clears returns (each rehash finds room for every entry, so that the mutual recursion of rehashing and
  insertion ends) and answers exactly like an abstract map, through all match masks, tombstone reuse and growth;
  and the walk over the slots then delivers every entry of that map exactly once.\<close>
theorem swiss_refines_map:
  "\<exists>rs p. pool_run (\<lambda>p k. Some (sw_lookup p k)) (\<lambda>k v p. map_option Inr (sw_insert k v p))
      (\<lambda>k p. Some (sw_erase k p)) sw_size sw_clear ops sw_init = Some (rs, p)
     \<and> rs = map Inr (fst (spec_map_run ops Map.empty))
     \<and> distinct (map fst (sw_records p)) \<and> map_of (sw_records p) = snd (spec_map_run ops Map.empty)"
proof -
  obtain rs p where r: "pool_run (\<lambda>p k. Some (sw_lookup p k)) (\<lambda>k v p. map_option Inr (sw_insert k v p))
      (\<lambda>k p. Some (sw_erase k p)) sw_size sw_clear ops sw_init = Some (rs, p)"
    "sw_inv p" "spec_pool_run (\<lambda>_. False) ops Map.empty = Some (rs, sw_lookup p)"
    using sw.run_refines [of sw_init ops] sw_init_ok by auto
  have "sw_records p = slot_entries (sw_cells p)" using sw_entries_index [OF r(2)] by (simp add: sw_records_def)
  then show ?thesis using r spec_pool_run_total [of ops Map.empty] sw_invD(7) [OF r(2)] by (simp add: sw_view)
qed

end
