(* ===== verification/Tree_Pool.thy ===== *)
theory Tree_Pool imports Pool_Contract "HOL-Library.Tree" begin

text \<open>
  The binary search tree organ: \<^verbatim>\<open>TreeNodePoolStore\<close> (an index-linked node pool with a free list, the
  index type chosen by the shape), \<^verbatim>\<open>BSTTraversalOrgan\<close> and \<^verbatim>\<open>ComposedTreeSearch\<close>.  The pool is a
  list of nodes, the free list has its back at the end, and the loops of the traversal are partial
  functions on the pool.

  The pool represents a tree of indices (\<open>heap_tree\<close>).  A descent is a focus \<open>bst_focus\<close>: the subtree it
  stands on and the frames above it, of which the innermost is the code's \<open>parent\<close>/\<open>is_left\<close>.
  Linking a node at the focus replaces the subtree, so that insertion and both erasure cases are
  edits of the in-order list.  All loops return on well-formed pools, and the organ is interpreted in
  \<open>pool_map\<close> with the capacity of its index type.
\<close>

section \<open>The pool\<close>

datatype bst_shape = Bst_Ptr_U16 | Bst_Ptr_U32 | Bst_Ptr_Size_T

primrec bst_index_bits :: "bst_shape \<Rightarrow> nat" where
  "bst_index_bits Bst_Ptr_U16 = 16"
| "bst_index_bits Bst_Ptr_U32 = 32"
| "bst_index_bits Bst_Ptr_Size_T = 64"

definition kNil :: "bst_shape \<Rightarrow> nat" where
  "kNil sh = 2 ^ bst_index_bits sh - 1"

definition bst_cast :: "bst_shape \<Rightarrow> nat \<Rightarrow> nat" where
  "bst_cast sh c = c mod 2 ^ bst_index_bits sh"

record tree_node =
  tn_key :: u64
  tn_val :: u64
  tn_left :: nat
  tn_right :: nat

record tree_pool =
  tp_nodes :: "tree_node list"
  tp_free :: "nat list"
  tp_root :: nat
  tp_size :: nat

definition tp_init :: "bst_shape \<Rightarrow> tree_pool" where
  "tp_init sh = \<lparr>tp_nodes = [], tp_free = [], tp_root = kNil sh, tp_size = 0\<rparr>"

definition tp_assign :: "tree_pool \<Rightarrow> tree_pool \<Rightarrow> tree_pool" where
  "tp_assign self src = self\<lparr>tp_nodes := tp_nodes src, tp_free := tp_free src, tp_root := tp_root src,
     tp_size := tp_size src\<rparr>"

definition node_key :: "tree_pool \<Rightarrow> nat \<Rightarrow> u64" where "node_key p i = tn_key (tp_nodes p ! i)"
definition node_value :: "tree_pool \<Rightarrow> nat \<Rightarrow> u64" where "node_value p i = tn_val (tp_nodes p ! i)"
definition left_of :: "tree_pool \<Rightarrow> nat \<Rightarrow> nat" where "left_of p i = tn_left (tp_nodes p ! i)"
definition right_of :: "tree_pool \<Rightarrow> nat \<Rightarrow> nat" where "right_of p i = tn_right (tp_nodes p ! i)"

definition set_node_key :: "nat \<Rightarrow> u64 \<Rightarrow> tree_pool \<Rightarrow> tree_pool" where
  "set_node_key i k p = p\<lparr>tp_nodes := (tp_nodes p)[i := (tp_nodes p ! i)\<lparr>tn_key := k\<rparr>]\<rparr>"
definition set_node_value :: "nat \<Rightarrow> u64 \<Rightarrow> tree_pool \<Rightarrow> tree_pool" where
  "set_node_value i v p = p\<lparr>tp_nodes := (tp_nodes p)[i := (tp_nodes p ! i)\<lparr>tn_val := v\<rparr>]\<rparr>"
definition set_left :: "bst_shape \<Rightarrow> nat \<Rightarrow> nat \<Rightarrow> tree_pool \<Rightarrow> tree_pool" where
  "set_left sh i c p = p\<lparr>tp_nodes := (tp_nodes p)[i := (tp_nodes p ! i)\<lparr>tn_left := bst_cast sh c\<rparr>]\<rparr>"
definition set_right :: "bst_shape \<Rightarrow> nat \<Rightarrow> nat \<Rightarrow> tree_pool \<Rightarrow> tree_pool" where
  "set_right sh i c p = p\<lparr>tp_nodes := (tp_nodes p)[i := (tp_nodes p ! i)\<lparr>tn_right := bst_cast sh c\<rparr>]\<rparr>"
definition set_root :: "bst_shape \<Rightarrow> nat \<Rightarrow> tree_pool \<Rightarrow> tree_pool" where
  "set_root sh i p = p\<lparr>tp_root := bst_cast sh i\<rparr>"

text \<open>\<^verbatim>\<open>allocate_node\<close>: a free slot first, else a new one; the guard keeps the nil index unused.\<close>
definition allocate_node :: "bst_shape \<Rightarrow> u64 \<Rightarrow> u64 \<Rightarrow> tree_pool \<Rightarrow> pool_error + nat \<times> tree_pool" where
  "allocate_node sh k v p =
     (let n = \<lparr>tn_key = k, tn_val = v, tn_left = kNil sh, tn_right = kNil sh\<rparr>
      in if tp_free p \<noteq> []
         then (let idx = last (tp_free p)
               in Inr (idx, p\<lparr>tp_free := butlast (tp_free p), tp_nodes := (tp_nodes p)[idx := n],
                            tp_size := tp_size p + 1\<rparr>))
         else (let idx = length (tp_nodes p)
               in if kNil sh \<le> idx then Inl Length_Error
                  else Inr (idx, p\<lparr>tp_nodes := tp_nodes p @ [n], tp_size := tp_size p + 1\<rparr>)))"

definition free_node :: "nat \<Rightarrow> tree_pool \<Rightarrow> tree_pool" where
  "free_node i p = p\<lparr>tp_free := tp_free p @ [i], tp_size := tp_size p - 1\<rparr>"

definition tp_clear :: "bst_shape \<Rightarrow> tree_pool \<Rightarrow> tree_pool" where
  "tp_clear sh p = p\<lparr>tp_nodes := [], tp_free := [], tp_root := kNil sh, tp_size := 0\<rparr>"

section \<open>The traversal\<close>

text \<open>The descent of \<^verbatim>\<open>insert_into\<close> and \<^verbatim>\<open>erase_from\<close>: the parent, the node reached and the side.\<close>
partial_function (option) bst_descend ::
  "bst_shape \<Rightarrow> tree_pool \<Rightarrow> u64 \<Rightarrow> nat \<Rightarrow> nat \<Rightarrow> bool \<Rightarrow> (nat \<times> nat \<times> bool) option" where
  "bst_descend sh p k parent cur is_left =
     (if cur = kNil sh \<or> k = node_key p cur then Some (parent, cur, is_left)
      else if k < node_key p cur then bst_descend sh p k cur (left_of p cur) True
      else bst_descend sh p k cur (right_of p cur) False)"

text \<open>\<^verbatim>\<open>p.set_root\<close>, \<^verbatim>\<open>p.set_left\<close> or \<^verbatim>\<open>p.set_right\<close> at the place the descent ended.\<close>
definition bst_link :: "bst_shape \<Rightarrow> nat \<Rightarrow> bool \<Rightarrow> nat \<Rightarrow> tree_pool \<Rightarrow> tree_pool" where
  "bst_link sh parent is_left c p =
     (if parent = kNil sh then set_root sh c p
      else if is_left then set_left sh parent c p else set_right sh parent c p)"

definition bst_insert :: "bst_shape \<Rightarrow> u64 \<Rightarrow> u64 \<Rightarrow> tree_pool \<Rightarrow> tree_pool pool_result" where
  "bst_insert sh k v p = (case bst_descend sh p k (kNil sh) (tp_root p) False of
     None \<Rightarrow> None
   | Some (parent, cur, is_left) \<Rightarrow>
       Some (if cur \<noteq> kNil sh then Inr (set_node_value cur v p)
             else (case allocate_node sh k v p of
                 Inl e \<Rightarrow> Inl e
               | Inr (nn, p') \<Rightarrow> Inr (bst_link sh parent is_left nn p'))))"

partial_function (option) bst_lookup_loop :: "bst_shape \<Rightarrow> tree_pool \<Rightarrow> u64 \<Rightarrow> nat \<Rightarrow> u64 option option" where
  "bst_lookup_loop sh p k cur =
     (if cur = kNil sh then Some None
      else if k = node_key p cur then Some (Some (node_value p cur))
      else bst_lookup_loop sh p k (if k < node_key p cur then left_of p cur else right_of p cur))"

definition bst_lookup :: "bst_shape \<Rightarrow> tree_pool \<Rightarrow> u64 \<Rightarrow> u64 option option" where
  "bst_lookup sh p k = bst_lookup_loop sh p k (tp_root p)"

text \<open>The in-order successor: down the left links.\<close>
partial_function (option) bst_leftmost :: "bst_shape \<Rightarrow> tree_pool \<Rightarrow> nat \<Rightarrow> nat \<Rightarrow> (nat \<times> nat) option" where
  "bst_leftmost sh p succ_parent succ =
     (if left_of p succ \<noteq> kNil sh then bst_leftmost sh p succ (left_of p succ) else Some (succ_parent, succ))"

text \<open>The end of \<^verbatim>\<open>erase_from\<close>: bridge a node that has at most one child and free it.\<close>
definition bst_bridge :: "bst_shape \<Rightarrow> nat \<Rightarrow> nat \<Rightarrow> bool \<Rightarrow> tree_pool \<Rightarrow> tree_pool" where
  "bst_bridge sh parent cur is_left p =
     (let child = (if left_of p cur \<noteq> kNil sh then left_of p cur else right_of p cur)
      in free_node cur (bst_link sh parent is_left child p))"

definition bst_erase :: "bst_shape \<Rightarrow> u64 \<Rightarrow> tree_pool \<Rightarrow> (bool \<times> tree_pool) option" where
  "bst_erase sh k p = (case bst_descend sh p k (kNil sh) (tp_root p) False of
     None \<Rightarrow> None
   | Some (parent, cur, is_left) \<Rightarrow>
       if cur = kNil sh then Some (False, p)
       else if left_of p cur \<noteq> kNil sh \<and> right_of p cur \<noteq> kNil sh
       then (case bst_leftmost sh p cur (right_of p cur) of
           None \<Rightarrow> None
         | Some (succ_parent, succ) \<Rightarrow>
             (let p0 = set_node_key cur (node_key p succ) p; p1 = set_node_value cur (node_value p0 succ) p0
              in Some (True, bst_bridge sh succ_parent succ (left_of p1 succ_parent = succ) p1)))
       else Some (True, bst_bridge sh parent cur is_left p))"

text \<open>\<^verbatim>\<open>ComposedTreeSearch::for_each_record\<close>: the walk with an explicit stack (its back is the head
  here); the records go to the sink in the order of the result.\<close>
partial_function (option) bst_push_left :: "bst_shape \<Rightarrow> tree_pool \<Rightarrow> nat \<Rightarrow> nat list \<Rightarrow> nat list option" where
  "bst_push_left sh p cur stack =
     (if cur \<noteq> kNil sh then bst_push_left sh p (left_of p cur) (cur # stack) else Some stack)"

partial_function (option) bst_walk :: "bst_shape \<Rightarrow> tree_pool \<Rightarrow> nat \<Rightarrow> nat list \<Rightarrow> slot list \<Rightarrow> slot list option" where
  "bst_walk sh p cur stack sink =
     (if cur \<noteq> kNil sh \<or> stack \<noteq> []
      then (case bst_push_left sh p cur stack of
          None \<Rightarrow> None
        | Some st \<Rightarrow> bst_walk sh p (right_of p (hd st)) (tl st) (sink @ [(node_key p (hd st), node_value p (hd st))]))
      else Some sink)"

definition bst_records :: "bst_shape \<Rightarrow> tree_pool \<Rightarrow> slot list option" where
  "bst_records sh p = bst_walk sh p (tp_root p) [] []"

lemmas tp_defs = node_key_def node_value_def left_of_def right_of_def set_node_key_def set_node_value_def
  set_left_def set_right_def set_root_def

section \<open>Trees in the pool\<close>

primrec heap_tree :: "nat \<Rightarrow> tree_node list \<Rightarrow> nat \<Rightarrow> nat tree \<Rightarrow> bool" where
  "heap_tree nil ns i Leaf \<longleftrightarrow> i = nil"
| "heap_tree nil ns i (Node l j r) \<longleftrightarrow> i = j \<and> j < length ns \<and>
     heap_tree nil ns (tn_left (ns ! j)) l \<and> heap_tree nil ns (tn_right (ns ! j)) r"

text \<open>The frames above a position, innermost first: the side taken, the node, its other subtree.\<close>
type_synonym frames = "(bool \<times> nat \<times> nat tree) list"

primrec heap_frames :: "nat \<Rightarrow> tree_node list \<Rightarrow> nat \<Rightarrow> frames \<Rightarrow> nat \<Rightarrow> bool" where
  "heap_frames nil ns root [] i \<longleftrightarrow> root = i"
| "heap_frames nil ns root (f # fs) i \<longleftrightarrow> (case f of (b, j, t) \<Rightarrow> j < length ns \<and>
     (if b then tn_left (ns ! j) = i \<and> heap_tree nil ns (tn_right (ns ! j)) t
      else tn_right (ns ! j) = i \<and> heap_tree nil ns (tn_left (ns ! j)) t) \<and> heap_frames nil ns root fs j)"

primrec frames_left :: "frames \<Rightarrow> nat list" where
  "frames_left [] = []"
| "frames_left (f # fs) = (case f of (b, j, t) \<Rightarrow> frames_left fs @ (if b then [] else inorder t @ [j]))"

primrec frames_right :: "frames \<Rightarrow> nat list" where
  "frames_right [] = []"
| "frames_right (f # fs) = (case f of (b, j, t) \<Rightarrow> (if b then j # inorder t else []) @ frames_right fs)"

primrec plug :: "frames \<Rightarrow> nat tree \<Rightarrow> nat tree" where
  "plug [] t = t"
| "plug (f # fs) t = (case f of (b, j, u) \<Rightarrow> plug fs (if b then Node t j u else Node u j t))"

lemma inorder_plug: "inorder (plug fs t) = frames_left fs @ inorder t @ frames_right fs"
  by (induction fs arbitrary: t) (auto split: prod.splits)

lemma heap_plug: "heap_frames nil ns root fs i \<Longrightarrow> heap_tree nil ns i t \<Longrightarrow> heap_tree nil ns root (plug fs t)"
  by (induction fs arbitrary: i t) (auto split: prod.splits if_splits)

text \<open>Only the links of the nodes involved matter.\<close>
definition same_links :: "nat set \<Rightarrow> tree_node list \<Rightarrow> tree_node list \<Rightarrow> bool" where
  "same_links A ns ns' \<longleftrightarrow> (\<forall>j\<in>A. j < length ns \<longrightarrow>
     j < length ns' \<and> tn_left (ns' ! j) = tn_left (ns ! j) \<and> tn_right (ns' ! j) = tn_right (ns ! j))"

lemma same_links_Un [simp]: "same_links (A \<union> B) ns ns' \<longleftrightarrow> same_links A ns ns' \<and> same_links B ns ns'"
  by (auto simp: same_links_def)

lemma same_links_empty [simp]: "same_links {} ns ns'"
  by (simp add: same_links_def)

lemma same_links_insert [simp]: "same_links (Set.insert j B) ns ns' \<longleftrightarrow> (j < length ns \<longrightarrow>
     j < length ns' \<and> tn_left (ns' ! j) = tn_left (ns ! j) \<and> tn_right (ns' ! j) = tn_right (ns ! j))
     \<and> same_links B ns ns'"
  by (auto simp: same_links_def)

lemma same_links_mono: "same_links B ns ns' \<Longrightarrow> A \<subseteq> B \<Longrightarrow> same_links A ns ns'"
  by (auto simp: same_links_def)

lemma heap_tree_frame: "heap_tree nil ns i t \<Longrightarrow> same_links (set_tree t) ns ns' \<Longrightarrow> heap_tree nil ns' i t"
  by (induction t arbitrary: i) auto

lemma heap_frames_frame:
  "heap_frames nil ns root fs i \<Longrightarrow> same_links (set (frames_left fs) \<union> set (frames_right fs)) ns ns'
    \<Longrightarrow> heap_frames nil ns' root fs i"
proof (induction fs arbitrary: i)
  case (Cons f fs)
  obtain b j t where f: "f = (b, j, t)" by (cases f)
  have j: "j < length ns" "heap_frames nil ns root fs j"
    using Cons.prems by (auto simp: f split: if_splits)
  have "{j} \<union> set_tree t \<union> (set (frames_left fs) \<union> set (frames_right fs))
      \<subseteq> set (frames_left (f # fs)) \<union> set (frames_right (f # fs))"
    by (auto simp: f)
  from same_links_mono [OF Cons.prems(2) this]
  have m: "same_links {j} ns ns'" "same_links (set_tree t) ns ns'"
    "same_links (set (frames_left fs) \<union> set (frames_right fs)) ns ns'" by simp_all
  have l: "j < length ns'" "tn_left (ns' ! j) = tn_left (ns ! j)" "tn_right (ns' ! j) = tn_right (ns ! j)"
    using j(1) m(1) by simp_all
  show ?case using Cons.IH [OF j(2) m(3)] Cons.prems(1) heap_tree_frame [OF _ m(2)]
    by (auto simp: f l split: if_splits)
qed simp

lemma heap_tree_nil:
  "heap_tree nil ns i t \<Longrightarrow> length ns \<le> nil \<Longrightarrow> i = nil \<longleftrightarrow> t = Leaf"
  by (cases t) auto

lemma heap_tree_in: "heap_tree nil ns i t \<Longrightarrow> i \<noteq> nil \<Longrightarrow> i \<in> set_tree t"
  by (cases t) auto

section \<open>Focus\<close>

definition at_hole :: "nat \<Rightarrow> frames \<Rightarrow> nat \<Rightarrow> bool \<Rightarrow> bool" where
  "at_hole nil fs parent is_left \<longleftrightarrow> (case fs of [] \<Rightarrow> parent = nil | (b, j, t) # _ \<Rightarrow> parent = j \<and> is_left = b)"

definition bst_focus :: "bst_shape \<Rightarrow> tree_pool \<Rightarrow> frames \<Rightarrow> nat tree \<Rightarrow> nat \<Rightarrow> nat \<Rightarrow> bool \<Rightarrow> nat list \<Rightarrow> bool" where
  "bst_focus sh p fs t parent cur is_left ids \<longleftrightarrow>
     length (tp_nodes p) \<le> kNil sh \<and> heap_tree (kNil sh) (tp_nodes p) cur t
     \<and> heap_frames (kNil sh) (tp_nodes p) (tp_root p) fs cur \<and> at_hole (kNil sh) fs parent is_left
     \<and> frames_left fs @ inorder t @ frames_right fs = ids"

lemma focus_start:
  "length (tp_nodes p) \<le> kNil sh \<Longrightarrow> heap_tree (kNil sh) (tp_nodes p) (tp_root p) t
    \<Longrightarrow> bst_focus sh p [] t (kNil sh) (tp_root p) False (inorder t)"
  by (simp add: bst_focus_def at_hole_def)

lemma focus_left:
  "bst_focus sh p fs (Node l j r) parent cur b ids \<Longrightarrow>
   bst_focus sh p ((True, j, r) # fs) l j (left_of p j) True ids \<and> cur = j \<and> j \<noteq> kNil sh"
  by (auto simp: bst_focus_def at_hole_def left_of_def)

lemma focus_right:
  "bst_focus sh p fs (Node l j r) parent cur b ids \<Longrightarrow>
   bst_focus sh p ((False, j, l) # fs) r j (right_of p j) False ids \<and> cur = j \<and> j \<noteq> kNil sh"
  by (auto simp: bst_focus_def at_hole_def right_of_def)

lemma focus_leaf: "bst_focus sh p fs t parent cur b ids \<Longrightarrow> cur = kNil sh \<longleftrightarrow> t = Leaf"
  unfolding bst_focus_def using heap_tree_nil by blast

text \<open>The descent ends at the key, or at the empty place where it belongs.\<close>
definition bst_key_sorted :: "tree_pool \<Rightarrow> nat list \<Rightarrow> bool" where
  "bst_key_sorted p ids \<longleftrightarrow> sorted_wrt (\<lambda>i j. node_key p i < node_key p j) ids"

lemma bst_descend_focus:
  "bst_focus sh p fs t parent cur b ids \<Longrightarrow> bst_key_sorted p ids
   \<Longrightarrow> \<forall>j \<in> set (frames_left fs). node_key p j < k \<Longrightarrow> \<forall>j \<in> set (frames_right fs). k < node_key p j
   \<Longrightarrow> \<exists>parent' cur' b' fs' t'. bst_descend sh p k parent cur b = Some (parent', cur', b')
     \<and> bst_focus sh p fs' t' parent' cur' b' ids
     \<and> (\<forall>j \<in> set (frames_left fs'). node_key p j < k) \<and> (\<forall>j \<in> set (frames_right fs'). k < node_key p j)
     \<and> (t' = Leaf \<or> node_key p cur' = k)"
proof (induction t arbitrary: fs parent cur b)
  case Leaf
  then have "bst_descend sh p k parent cur b = Some (parent, cur, b)"
    by (subst bst_descend.simps) (simp add: focus_leaf)
  then show ?case using Leaf.prems by blast
next
  case (Node l j r)
  note lf = focus_left [OF Node.prems(1)] and rf = focus_right [OF Node.prems(1)]
  have split: "frames_left fs @ (inorder l @ j # inorder r) @ frames_right fs = ids"
    using Node.prems(1) by (simp add: bst_focus_def)
  have s: "\<forall>i \<in> set (inorder l). node_key p i < node_key p j" "\<forall>i \<in> set (inorder r). node_key p j < node_key p i"
    using Node.prems(2) by (auto simp: bst_key_sorted_def sorted_wrt_append simp flip: split)
  have step: "bst_descend sh p k parent cur b =
      (if k = node_key p j then Some (parent, j, b)
       else if k < node_key p j then bst_descend sh p k j (left_of p j) True
       else bst_descend sh p k j (right_of p j) False)"
    using lf by (subst bst_descend.simps) simp
  consider "k = node_key p j" | "k < node_key p j" | "node_key p j < k" by (metis linorder_less_linear)
  then show ?case
  proof cases
    case 1
    moreover have "cur = j" using lf by simp
    ultimately show ?thesis using Node.prems step by auto
  next
    case 2
    have "bst_descend sh p k parent cur b = bst_descend sh p k j (left_of p j) True" using step 2 by auto
    moreover have "\<forall>i \<in> set (frames_right ((True, j, r) # fs)). k < node_key p i"
      using 2 s(2) Node.prems(4) by (auto intro: less_trans)
    ultimately show ?thesis using Node.IH(1) [OF conjunct1 [OF lf] Node.prems(2)] Node.prems(3) by simp
  next
    case 3
    have "bst_descend sh p k parent cur b = bst_descend sh p k j (right_of p j) False" using step 3 by auto
    moreover have "\<forall>i \<in> set (frames_left ((False, j, l) # fs)). node_key p i < k"
      using 3 s(1) Node.prems(3) by (auto intro: less_trans)
    ultimately show ?thesis using Node.IH(2) [OF conjunct1 [OF rf] Node.prems(2)] Node.prems(4) by simp
  qed
qed

text \<open>The successor loop ends at the first node of the subtree, which has no left child.\<close>
lemma bst_leftmost_focus:
  "bst_focus sh p fs t parent cur b ids \<Longrightarrow> t \<noteq> Leaf \<Longrightarrow>
   \<exists>sp s fs' r b'. bst_leftmost sh p parent cur = Some (sp, s)
     \<and> bst_focus sh p fs' (Node Leaf s r) sp s b' ids \<and> frames_left fs' = frames_left fs
     \<and> inorder t @ frames_right fs = s # inorder r @ frames_right fs' \<and> (fs \<noteq> [] \<longrightarrow> fs' \<noteq> [])"
proof (induction t arbitrary: fs parent cur b)
  case (Node l j r)
  note lf = focus_left [OF Node.prems(1)]
  show ?case
  proof (cases "l = Leaf")
    case True
    then have "left_of p cur = kNil sh" using lf focus_leaf by blast
    then have "bst_leftmost sh p parent cur = Some (parent, cur)" by (subst bst_leftmost.simps) simp
    then show ?thesis using Node.prems(1) True lf by fastforce
  next
    case False
    then have "left_of p cur \<noteq> kNil sh" using lf focus_leaf by blast
    then have "bst_leftmost sh p parent cur = bst_leftmost sh p j (left_of p j)"
      using lf by (subst bst_leftmost.simps) simp
    then show ?thesis using Node.IH(1) [OF conjunct1 [OF lf] False] by simp blast
  qed
qed simp

section \<open>Linking at the focus\<close>

lemma bst_cast_id: "c \<le> kNil sh \<Longrightarrow> bst_cast sh c = c"
  by (cases sh) (simp_all add: bst_cast_def kNil_def)

lemma bst_link_fields [simp]:
  "node_key (bst_link sh q b c p) i = node_key p i" "node_value (bst_link sh q b c p) i = node_value p i"
  "length (tp_nodes (bst_link sh q b c p)) = length (tp_nodes p)"
  "tp_free (bst_link sh q b c p) = tp_free p" "tp_size (bst_link sh q b c p) = tp_size p"
  by (simp_all add: bst_link_def tp_defs nth_update_cases)

lemma same_links_update: "i \<notin> A \<Longrightarrow> same_links A ns (ns[i := n])"
  by (auto simp: same_links_def nth_update_cases)

lemma focus_link:
  assumes "bst_focus sh p fs t parent cur b ids" "distinct ids" "c \<le> kNil sh"
    "heap_tree (kNil sh) (tp_nodes p) c u" "set_tree u \<inter> (set (frames_left fs) \<union> set (frames_right fs)) = {}"
  shows "bst_focus sh (bst_link sh parent b c p) fs u parent c b (frames_left fs @ inorder u @ frames_right fs)"
proof (cases fs)
  case Nil
  then show ?thesis using assms by (auto simp: bst_focus_def at_hole_def bst_link_def set_root_def bst_cast_id)
next
  case (Cons f gs)
  obtain x j o' where f: "f = (x, j, o')" by (cases f)
  let ?ns = "tp_nodes p"
  have F: "j < length ?ns" "length ?ns \<le> kNil sh" "parent = j" "b = x"
    "heap_frames (kNil sh) ?ns (tp_root p) gs j"
    "if x then heap_tree (kNil sh) ?ns (tn_right (?ns ! j)) o' else heap_tree (kNil sh) ?ns (tn_left (?ns ! j)) o'"
    using assms(1) by (auto simp: bst_focus_def at_hole_def Cons f split: if_splits)
  have d: "j \<notin> set_tree o'" "j \<notin> set (frames_left gs) \<union> set (frames_right gs)" "j \<notin> set_tree u"
    using assms(1,2,5) by (auto simp: bst_focus_def Cons f split: if_splits)
  have link: "tp_nodes (bst_link sh j x c p) =
      ?ns[j := (if x then (?ns ! j)\<lparr>tn_left := c\<rparr> else (?ns ! j)\<lparr>tn_right := c\<rparr>)]"
    "tp_root (bst_link sh j x c p) = tp_root p"
    using F assms(3) by (simp_all add: bst_link_def set_left_def set_right_def bst_cast_id)
  show ?thesis
    using F heap_tree_frame [OF _ same_links_update [OF d(1)]] heap_tree_frame [OF assms(4) same_links_update [OF d(3)]]
      heap_frames_frame [OF F(5) same_links_update [OF d(2)]]
    by (auto simp: bst_focus_def Cons f F(3,4) link at_hole_def)
qed

section \<open>Well-formed pools\<close>

definition tree_shape :: "bst_shape \<Rightarrow> tree_pool \<Rightarrow> nat tree \<Rightarrow> bool" where
  "tree_shape sh p t \<longleftrightarrow> length (tp_nodes p) \<le> kNil sh \<and> heap_tree (kNil sh) (tp_nodes p) (tp_root p) t
     \<and> distinct (inorder t @ tp_free p) \<and> set (inorder t @ tp_free p) = {..<length (tp_nodes p)}
     \<and> tp_size p = length (inorder t)"

definition tree_rec :: "tree_pool \<Rightarrow> nat \<Rightarrow> slot" where
  "tree_rec p i = (node_key p i, node_value p i)"

definition tree_recs :: "tree_pool \<Rightarrow> nat tree \<Rightarrow> slot list" where
  "tree_recs p t = map (tree_rec p) (inorder t)"

definition tree_rep :: "bst_shape \<Rightarrow> tree_pool \<Rightarrow> slot list \<Rightarrow> bool" where
  "tree_rep sh p kvs \<longleftrightarrow> (\<exists>t. tree_shape sh p t \<and> tree_recs p t = kvs) \<and> sorted_wrt (<) (map fst kvs)"

definition bst_inv :: "bst_shape \<Rightarrow> tree_pool \<Rightarrow> bool" where
  "bst_inv sh p \<longleftrightarrow> (\<exists>kvs. tree_rep sh p kvs)"

definition bst_view :: "bst_shape \<Rightarrow> tree_pool \<Rightarrow> u64 \<Rightarrow> u64 option" where
  "bst_view sh p k = the (bst_lookup sh p k)"

lemma rec_keys: "map fst (tree_recs p t) = map (node_key p) (inorder t)"
  by (simp add: tree_recs_def tree_rec_def)

lemma tree_rep_sorted: "sorted_wrt (<) (map fst (tree_recs p t)) \<longleftrightarrow> bst_key_sorted p (inorder t)"
  by (simp only: rec_keys sorted_wrt_map bst_key_sorted_def)

lemma bst_lookup_loop_map:
  "heap_tree (kNil sh) (tp_nodes p) cur t \<Longrightarrow> length (tp_nodes p) \<le> kNil sh \<Longrightarrow> bst_key_sorted p (inorder t)
   \<Longrightarrow> bst_lookup_loop sh p k cur = Some (map_of (tree_recs p t) k)"
proof (induction t arbitrary: cur)
  case Leaf
  then show ?case by (subst bst_lookup_loop.simps) (simp add: tree_recs_def)
next
  case (Node l j r)
  have j: "cur = j" "j \<noteq> kNil sh" using Node.prems(1,2) by auto
  have s: "bst_key_sorted p (inorder l)" "bst_key_sorted p (inorder r)"
    "\<forall>i \<in> set (inorder l). node_key p i < node_key p j" "\<forall>i \<in> set (inorder r). node_key p j < node_key p i"
    using Node.prems(3) by (auto simp: bst_key_sorted_def sorted_wrt_append)
  have step: "bst_lookup_loop sh p k cur = (if k = node_key p j then Some (Some (node_value p j))
      else bst_lookup_loop sh p k (if k < node_key p j then left_of p j else right_of p j))"
    using j by (subst bst_lookup_loop.simps) simp
  have recs: "tree_recs p (Node l j r) = tree_recs p l @ (node_key p j, node_value p j) # tree_recs p r"
    by (simp add: tree_recs_def tree_rec_def)
  have out: "node_key p j \<le> k \<Longrightarrow> map_of (tree_recs p l) k = None" "k \<le> node_key p j \<Longrightarrow> map_of (tree_recs p r) k = None"
    using s(3,4) by (fastforce simp: tree_recs_def tree_rec_def map_of_eq_None_iff)+
  consider "k = node_key p j" | "k < node_key p j" | "node_key p j < k" by (metis linorder_less_linear)
  then show ?case
  proof cases
    case 1
    then show ?thesis using step out(1) by (simp add: recs map_add_def)
  next
    case 2
    then show ?thesis using step Node.IH(1) [of "left_of p j"] Node.prems(1,2) s(1) out(2) [OF less_imp_le]
      by (auto simp: recs left_of_def map_add_def split: option.splits)
  next
    case 3
    then show ?thesis using step Node.IH(2) [of "right_of p j"] Node.prems(1,2) s(2) out(1)
      by (auto simp: recs right_of_def map_add_def split: option.splits)
  qed
qed

lemma bst_lookup_map: "tree_rep sh p kvs \<Longrightarrow> bst_lookup sh p k = Some (map_of kvs k)"
  by (auto simp: tree_rep_def tree_shape_def bst_lookup_def tree_rep_sorted bst_lookup_loop_map)

lemma bst_view_map: "tree_rep sh p kvs \<Longrightarrow> bst_view sh p = map_of kvs"
  by (simp add: bst_view_def bst_lookup_map fun_eq_iff)

section \<open>Insertion\<close>

lemma focus_frame:
  "bst_focus sh p fs t parent cur b ids \<Longrightarrow> same_links (set ids) (tp_nodes p) (tp_nodes p')
   \<Longrightarrow> tp_root p' = tp_root p \<Longrightarrow> length (tp_nodes p') \<le> kNil sh \<Longrightarrow> bst_focus sh p' fs t parent cur b ids"
  unfolding bst_focus_def
  by (auto intro: heap_tree_frame heap_frames_frame same_links_mono)

lemma focus_tree:
  "bst_focus sh p fs t parent cur b ids \<Longrightarrow>
   heap_tree (kNil sh) (tp_nodes p) (tp_root p) (plug fs t) \<and> inorder (plug fs t) = ids"
  by (auto simp: bst_focus_def heap_plug inorder_plug)

lemma shape_length:
  assumes "tree_shape sh p t"
  shows "length (inorder t) + length (tp_free p) = length (tp_nodes p)"
proof -
  have "length (inorder t @ tp_free p) = card (set (inorder t @ tp_free p))"
    using assms unfolding tree_shape_def by (metis distinct_card)
  also have "\<dots> = length (tp_nodes p)" using assms by (simp add: tree_shape_def)
  finally show ?thesis by simp
qed

lemma allocate_full:
  "tree_shape sh p t \<Longrightarrow> kNil sh \<le> tp_size p \<Longrightarrow> allocate_node sh k v p = Inl Length_Error"
proof -
  assume a: "tree_shape sh p t" "kNil sh \<le> tp_size p"
  then have "length (tp_free p) = 0"
    "length (tp_nodes p) = kNil sh"
    using shape_length [OF a(1)] unfolding tree_shape_def by linarith+
  then show ?thesis by (auto simp: allocate_node_def Let_def)
qed

lemma allocate_ok:
  assumes "tree_shape sh p t" "tp_size p < kNil sh"
  obtains nn p' where "allocate_node sh k v p = Inr (nn, p')" "nn < length (tp_nodes p')"
    "length (tp_nodes p') \<le> kNil sh" "tp_root p' = tp_root p" "tp_size p' = tp_size p + 1"
    "tp_nodes p' ! nn = \<lparr>tn_key = k, tn_val = v, tn_left = kNil sh, tn_right = kNil sh\<rparr>"
    "distinct (nn # inorder t @ tp_free p')" "set (nn # inorder t @ tp_free p') = {..<length (tp_nodes p')}"
    "\<forall>j \<in> set (inorder t). tp_nodes p' ! j = tp_nodes p ! j"
    "same_links (set (inorder t)) (tp_nodes p) (tp_nodes p')"
proof -
  have S: "distinct (inorder t @ tp_free p)" "set (inorder t @ tp_free p) = {..<length (tp_nodes p)}"
    "length (tp_nodes p) \<le> kNil sh" using assms(1) by (auto simp: tree_shape_def)
  define n where "n = \<lparr>tn_key = k, tn_val = v, tn_left = kNil sh, tn_right = kNil sh\<rparr>"
  show ?thesis
  proof (cases "tp_free p = []")
    case True
    let ?i = "length (tp_nodes p)" and ?p' = "p\<lparr>tp_nodes := tp_nodes p @ [n], tp_size := tp_size p + 1\<rparr>"
    have lt: "?i < kNil sh" using assms shape_length [OF assms(1)] True by (simp add: tree_shape_def)
    have ids: "set (inorder t) = {..<?i}" "distinct (inorder t)" using S True by auto
    show ?thesis
    proof (rule that)
      show "allocate_node sh k v p = Inr (?i, ?p')" using True lt by (simp add: allocate_node_def n_def)
      show "set (?i # inorder t @ tp_free ?p') = {..<length (tp_nodes ?p')}" by (simp add: ids(1) True lessThan_Suc del: set_inorder)
      show "distinct (?i # inorder t @ tp_free ?p')" by (simp add: ids True del: set_inorder)
    qed (use lt ids(1) in \<open>auto simp: n_def nth_append same_links_def\<close>)
  next
    case False
    then obtain fr i where fr: "tp_free p = fr @ [i]" by (metis rev_exhaust)
    let ?p' = "p\<lparr>tp_free := fr, tp_nodes := (tp_nodes p)[i := n], tp_size := tp_size p + 1\<rparr>"
    have i: "i < length (tp_nodes p)" "i \<notin> set (inorder t)" using S(1,2) by (auto simp: fr)
    have ids: "set (i # inorder t @ fr) = {..<length (tp_nodes p)}" using S(2) by (auto simp: fr)
    show ?thesis
    proof (rule that)
      show "allocate_node sh k v p = Inr (i, ?p')" by (simp add: allocate_node_def fr n_def)
      show "set (i # inorder t @ tp_free ?p') = {..<length (tp_nodes ?p')}" using ids by simp
      show "distinct (i # inorder t @ tp_free ?p')" using S(1) by (auto simp: fr)
      show "same_links (set (inorder t)) (tp_nodes p) (tp_nodes ?p')" using same_links_update [OF i(2)] by simp
      show "\<forall>j \<in> set (inorder t). tp_nodes ?p' ! j = tp_nodes p ! j" using i(2) by (auto simp: nth_update_cases)
    qed (use S(3) i(1) in \<open>simp_all add: n_def\<close>)
  qed
qed

lemma tree_repI:
  "tree_shape sh p t \<Longrightarrow> tree_recs p t = kvs \<Longrightarrow> sorted_wrt (<) (map fst kvs) \<Longrightarrow> tree_rep sh p kvs"
  by (auto simp: tree_rep_def)

lemma focus_recs:
  "bst_focus sh p fs t parent cur b ids \<Longrightarrow>
   map (tree_rec p) ids = map (tree_rec p) (frames_left fs) @ tree_recs p t @ map (tree_rec p) (frames_right fs)"
  by (auto simp: bst_focus_def tree_recs_def)

text \<open>The descent from the root, on the records.\<close>
lemma bst_descend_rep:
  assumes "tree_shape sh p t" "tree_recs p t = kvs" "sorted_wrt (<) (map fst kvs)"
  obtains parent cur b fs u where "bst_descend sh p k (kNil sh) (tp_root p) False = Some (parent, cur, b)"
    "bst_focus sh p fs u parent cur b (inorder t)" "u = Leaf \<or> node_key p cur = k"
    "\<forall>x \<in> set (map (tree_rec p) (frames_left fs)). fst x < k"
    "\<forall>x \<in> set (map (tree_rec p) (frames_right fs)). k < fst x"
    "kvs = map (tree_rec p) (frames_left fs) @ tree_recs p u @ map (tree_rec p) (frames_right fs)"
proof -
  have "bst_focus sh p [] t (kNil sh) (tp_root p) False (inorder t)"
    using assms(1) by (intro focus_start) (auto simp: tree_shape_def)
  moreover have "bst_key_sorted p (inorder t)" using assms(2,3) tree_rep_sorted by blast
  ultimately obtain parent cur b fs u where
    d: "bst_descend sh p k (kNil sh) (tp_root p) False = Some (parent, cur, b)"
    "bst_focus sh p fs u parent cur b (inorder t)" "u = Leaf \<or> node_key p cur = k"
    "\<forall>j \<in> set (frames_left fs). node_key p j < k" "\<forall>j \<in> set (frames_right fs). k < node_key p j"
    using bst_descend_focus [of sh p "[]" t "kNil sh" "tp_root p" False "inorder t" k] by auto
  show ?thesis
    by (rule that [OF d(1,2,3)]) (use d(4,5) focus_recs [OF d(2)] assms(2) in \<open>auto simp: tree_rec_def tree_recs_def\<close>)
qed

lemma bst_insert_update:
  assumes "tree_rep sh p kvs" "map_of kvs k \<noteq> None"
  shows "\<exists>p'. bst_insert sh k v p = Some (Inr p') \<and> bst_inv sh p' \<and> bst_view sh p' = (bst_view sh p)(k \<mapsto> v)"
proof -
  obtain t where t: "tree_shape sh p t" "tree_recs p t = kvs" "sorted_wrt (<) (map fst kvs)"
    using assms(1) by (auto simp: tree_rep_def)
  obtain parent cur b fs u where d: "bst_descend sh p k (kNil sh) (tp_root p) False = Some (parent, cur, b)"
    "bst_focus sh p fs u parent cur b (inorder t)" "u = Leaf \<or> node_key p cur = k"
    "\<forall>x \<in> set (map (tree_rec p) (frames_left fs)). fst x < k"
    "\<forall>x \<in> set (map (tree_rec p) (frames_right fs)). k < fst x"
    "kvs = map (tree_rec p) (frames_left fs) @ tree_recs p u @ map (tree_rec p) (frames_right fs)"
    by (rule bst_descend_rep [OF t])
  have "u \<noteq> Leaf" using assms(2) map_of_sorted_parts(1) [OF d(4,5)] d(6) by (auto simp: tree_recs_def)
  then obtain l r where u: "u = Node l cur r" using d(2) by (cases u) (auto simp: bst_focus_def)
  have c: "cur \<noteq> kNil sh" "node_key p cur = k" using d(3) focus_leaf [OF d(2)] u by auto
  let ?p' = "set_node_value cur v p"
  let ?X = "map (tree_rec p) (frames_left fs @ inorder l)" and ?Y = "map (tree_rec p) (inorder r @ frames_right fs)"
  have kvs: "kvs = ?X @ (k, node_value p cur) # ?Y" using d(6) c(2) by (simp add: u tree_recs_def tree_rec_def)
  have lt: "\<forall>x \<in> set ?X. fst x < k" "\<forall>y \<in> set ?Y. k < fst y"
    using t(3) unfolding kvs by (auto simp: sorted_wrt_append)
  have ids: "inorder t = frames_left fs @ (inorder l @ cur # inorder r) @ frames_right fs"
    using d(2) by (simp add: bst_focus_def u)
  have dist: "distinct (inorder t)" using t(1) by (simp add: tree_shape_def)
  have cl: "cur < length (tp_nodes p)" using d(2) by (simp add: bst_focus_def u)
  have fld: "tree_rec ?p' j = (if j = cur then (k, v) else tree_rec p j)" for j
    using cl c(2) by (auto simp: tree_rec_def tp_defs nth_update_cases)
  have links: "same_links A (tp_nodes p) (tp_nodes ?p')" for A
    by (auto simp: same_links_def set_node_value_def nth_update_cases)
  have shape: "tree_shape sh ?p' t"
    using t(1) heap_tree_frame [OF _ links] by (simp add: tree_shape_def set_node_value_def)
  have recs: "tree_recs ?p' t = ?X @ (k, v) # ?Y"
    using dist unfolding tree_recs_def ids by (auto simp: fld)
  have rep: "tree_rep sh ?p' (?X @ (k, v) # ?Y)" using tree_repI [OF shape recs] t(3) unfolding kvs by simp
  have "bst_insert sh k v p = Some (Inr ?p')" using d(1) c(1) by (simp add: bst_insert_def)
  moreover have "bst_view sh ?p' = (bst_view sh p)(k \<mapsto> v)"
    unfolding bst_view_map [OF rep] bst_view_map [OF assms(1)] unfolding kvs by (rule map_of_sorted_parts(5) [OF lt])
  ultimately show ?thesis using rep unfolding bst_inv_def by blast
qed

lemma bst_insert_new:
  assumes "tree_rep sh p kvs" "map_of kvs k = None"
  shows "if kNil sh \<le> tp_size p then bst_insert sh k v p = Some (Inl Length_Error)
    else \<exists>p'. bst_insert sh k v p = Some (Inr p') \<and> bst_inv sh p' \<and> bst_view sh p' = (bst_view sh p)(k \<mapsto> v)"
proof -
  obtain t where t: "tree_shape sh p t" "tree_recs p t = kvs" "sorted_wrt (<) (map fst kvs)"
    using assms(1) by (auto simp: tree_rep_def)
  obtain parent cur b fs u where d: "bst_descend sh p k (kNil sh) (tp_root p) False = Some (parent, cur, b)"
    "bst_focus sh p fs u parent cur b (inorder t)" "u = Leaf \<or> node_key p cur = k"
    "\<forall>x \<in> set (map (tree_rec p) (frames_left fs)). fst x < k"
    "\<forall>x \<in> set (map (tree_rec p) (frames_right fs)). k < fst x"
    "kvs = map (tree_rec p) (frames_left fs) @ tree_recs p u @ map (tree_rec p) (frames_right fs)"
    by (rule bst_descend_rep [OF t])
  let ?X = "map (tree_rec p) (frames_left fs)" and ?Y = "map (tree_rec p) (frames_right fs)"
  have u: "u = Leaf"
  proof (rule ccontr)
    assume n: "u \<noteq> Leaf"
    then obtain l r where "u = Node l cur r" using d(2) by (cases u) (auto simp: bst_focus_def)
    then have "k \<in> fst ` set kvs" using d(3) n by (auto simp: d(6) tree_recs_def tree_rec_def)
    then show False using assms(2) by (simp add: map_of_eq_None_iff)
  qed
  then have c: "cur = kNil sh" using focus_leaf [OF d(2)] by simp
  have ids: "inorder t = frames_left fs @ frames_right fs" using d(2) by (simp add: bst_focus_def u)
  show ?thesis
  proof (cases "kNil sh \<le> tp_size p")
    case True
    then show ?thesis using allocate_full [OF t(1)] d(1) c by (simp add: bst_insert_def)
  next
    case False
    then have room: "tp_size p < kNil sh" by simp
    obtain nn p1 where a: "allocate_node sh k v p = Inr (nn, p1)" "nn < length (tp_nodes p1)"
      "length (tp_nodes p1) \<le> kNil sh" "tp_root p1 = tp_root p" "tp_size p1 = tp_size p + 1"
      "tp_nodes p1 ! nn = \<lparr>tn_key = k, tn_val = v, tn_left = kNil sh, tn_right = kNil sh\<rparr>"
      "distinct (nn # inorder t @ tp_free p1)" "set (nn # inorder t @ tp_free p1) = {..<length (tp_nodes p1)}"
      "\<forall>j \<in> set (inorder t). tp_nodes p1 ! j = tp_nodes p ! j"
      "same_links (set (inorder t)) (tp_nodes p) (tp_nodes p1)"
      by (rule allocate_ok [OF t(1) room])
    let ?p' = "bst_link sh parent b nn p1" and ?t' = "plug fs (Node Leaf nn Leaf)"
    have "bst_focus sh p1 fs u parent cur b (inorder t)" by (rule focus_frame [OF d(2) a(10,4,3)])
    then have "bst_focus sh ?p' fs (Node Leaf nn Leaf) parent nn b
        (frames_left fs @ inorder (Node Leaf nn Leaf) @ frames_right fs)"
      using a(2,3,6,7) by (intro focus_link) (auto simp: ids)
    from focus_tree [OF this] have tr: "heap_tree (kNil sh) (tp_nodes ?p') (tp_root ?p') ?t'"
      "inorder ?t' = frames_left fs @ nn # frames_right fs" by simp_all
    have shape: "tree_shape sh ?p' ?t'"
      unfolding tree_shape_def tr(2)
    proof (intro conjI)
      show "distinct ((frames_left fs @ nn # frames_right fs) @ tp_free ?p')" using a(7) by (auto simp: ids)
      show "set ((frames_left fs @ nn # frames_right fs) @ tp_free ?p') = {..<length (tp_nodes ?p')}"
        unfolding bst_link_fields a(8) [symmetric] ids by auto
      show "tp_size ?p' = length (frames_left fs @ nn # frames_right fs)"
        using a(5) t(1) by (simp add: tree_shape_def ids del: length_inorder)
    qed (use tr(1) a(3) in simp_all)
    have "tree_rec p1 j = tree_rec p j" if "j \<in> set (inorder t)" for j
      using a(9) that by (simp add: tree_rec_def node_key_def node_value_def)
    moreover have "tree_rec p1 nn = (k, v)" using a(6) by (simp add: tree_rec_def node_key_def node_value_def)
    moreover have "tree_rec ?p' j = tree_rec p1 j" for j by (simp add: tree_rec_def)
    ultimately have recs: "tree_recs ?p' ?t' = ?X @ (k, v) # ?Y"
      unfolding tree_recs_def tr(2) by (simp add: ids)
    have srt: "sorted_wrt (<) (map fst (?X @ (k, v) # ?Y))"
      using t(3) d(4,5) unfolding d(6) by (simp add: u tree_recs_def sorted_wrt_append)
    have rep: "tree_rep sh ?p' (?X @ (k, v) # ?Y)" by (rule tree_repI [OF shape recs srt])
    have "bst_insert sh k v p = Some (Inr ?p')" using d(1) c a(1) by (simp add: bst_insert_def)
    moreover have "bst_view sh ?p' = (bst_view sh p)(k \<mapsto> v)"
      unfolding bst_view_map [OF rep] bst_view_map [OF assms(1)] d(6) u
      using map_of_sorted_parts(2) [OF d(4,5)] by (simp add: tree_recs_def)
    ultimately show ?thesis using rep False unfolding bst_inv_def by auto
  qed
qed

section \<open>Erasure\<close>

text \<open>Bridging the focused node, of which one child is missing.\<close>
lemma bst_bridge_focus:
  assumes "tree_shape sh p t" "bst_focus sh p fs (Node l cur r) parent cur b (inorder t)" "l = Leaf \<or> r = Leaf"
  shows "\<exists>t'. tree_shape sh (bst_bridge sh parent cur b p) t'
    \<and> inorder t' = frames_left fs @ (inorder l @ inorder r) @ frames_right fs
    \<and> (\<forall>j. tree_rec (bst_bridge sh parent cur b p) j = tree_rec p j)"
proof -
  define u where "u = (if l \<noteq> Leaf then l else r)"
  define c where "c = (if left_of p cur \<noteq> kNil sh then left_of p cur else right_of p cur)"
  have S: "length (tp_nodes p) \<le> kNil sh" "distinct (inorder t @ tp_free p)"
    "set (inorder t @ tp_free p) = {..<length (tp_nodes p)}" "tp_size p = length (inorder t)"
    using assms(1) by (auto simp: tree_shape_def)
  have ids: "inorder t = frames_left fs @ (inorder l @ cur # inorder r) @ frames_right fs"
    using assms(2) by (simp add: bst_focus_def)
  have sub: "heap_tree (kNil sh) (tp_nodes p) (left_of p cur) l" "heap_tree (kNil sh) (tp_nodes p) (right_of p cur) r"
    using assms(2) by (auto simp: bst_focus_def left_of_def right_of_def)
  then have u: "heap_tree (kNil sh) (tp_nodes p) c u" "inorder u = inorder l @ inorder r"
    using assms(3) heap_tree_nil [OF sub(1) S(1)] by (auto simp: c_def u_def)
  have cb: "c \<le> kNil sh" using u(1) S(1) by (cases u) auto
  have dist: "distinct (inorder t)" using S(2) by simp
  have us: "set_tree u = set (inorder l) \<union> set (inorder r)" using u(2) by (metis set_append set_inorder)
  let ?p1 = "bst_link sh parent b c p"
  have "set_tree u \<inter> (set (frames_left fs) \<union> set (frames_right fs)) = {}"
    using dist by (auto simp: ids us)
  from focus_link [OF assms(2) dist cb u(1) this] focus_tree
  have tr: "heap_tree (kNil sh) (tp_nodes ?p1) (tp_root ?p1) (plug fs u)"
    "inorder (plug fs u) = frames_left fs @ (inorder l @ inorder r) @ frames_right fs"
    by (auto simp: u(2) inorder_plug)
  have br: "bst_bridge sh parent cur b p = free_node cur ?p1" by (simp add: bst_bridge_def c_def)
  have "tree_shape sh (bst_bridge sh parent cur b p) (plug fs u)"
    unfolding tree_shape_def tr(2) br
  proof (intro conjI)
    show "distinct ((frames_left fs @ (inorder l @ inorder r) @ frames_right fs) @ tp_free (free_node cur ?p1))"
      using S(2) by (auto simp: ids free_node_def)
    show "set ((frames_left fs @ (inorder l @ inorder r) @ frames_right fs) @ tp_free (free_node cur ?p1))
        = {..<length (tp_nodes (free_node cur ?p1))}"
    proof -
      have "tp_nodes (free_node cur ?p1) = tp_nodes ?p1" by (simp add: free_node_def)
      then have "length (tp_nodes (free_node cur ?p1)) = length (tp_nodes p)" by simp
      then show ?thesis using S(3) [symmetric] by (simp only: ids) (auto simp: free_node_def)
    qed
    show "tp_size (free_node cur ?p1) = length (frames_left fs @ (inorder l @ inorder r) @ frames_right fs)"
      using S(4) by (simp add: ids free_node_def del: length_inorder)
  qed (use tr(1) S(1) in \<open>simp_all add: free_node_def\<close>)
  moreover have "tree_rec (bst_bridge sh parent cur b p) j = tree_rec p j" for j
  proof -
    have "tree_rec (free_node cur ?p1) j = tree_rec ?p1 j"
      by (simp add: tree_rec_def node_key_def node_value_def free_node_def)
    then show ?thesis by (simp add: br tree_rec_def)
  qed
  ultimately show ?thesis using tr(2) by blast
qed

text \<open>A left-hand frame is recognised by the parent's left link.\<close>
lemma focus_side:
  assumes "bst_focus sh p fs (Node l s r) sp s b ids" "distinct ids" "fs \<noteq> []"
  shows "(left_of p sp = s) = b"
proof -
  obtain x j o' gs where fs: "fs = (x, j, o') # gs" using assms(3) by (metis list.exhaust prod_cases3)
  have f: "sp = j" "b = x" "if x then tn_left (tp_nodes p ! j) = s
      else heap_tree (kNil sh) (tp_nodes p) (tn_left (tp_nodes p ! j)) o'"
    using assms(1) by (auto simp: bst_focus_def at_hole_def fs split: if_splits)
  have s: "s \<noteq> kNil sh" using assms(1) by (auto simp: bst_focus_def)
  show ?thesis
  proof (cases x)
    case False
    have "s \<notin> set_tree o'" using assms(1,2) False by (auto simp: bst_focus_def fs)
    then show ?thesis using f False s heap_tree_in by (auto simp: left_of_def)
  qed (use f in \<open>auto simp: left_of_def\<close>)
qed

lemma bst_erase_rep:
  assumes "tree_rep sh p kvs"
  shows "(map_of kvs k = None \<longrightarrow> bst_erase sh k p = Some (False, p))
    \<and> (map_of kvs k \<noteq> None \<longrightarrow> (\<exists>p' X v Y. bst_erase sh k p = Some (True, p') \<and> kvs = X @ (k, v) # Y
         \<and> tree_rep sh p' (X @ Y)))"
proof -
  obtain t where t: "tree_shape sh p t" "tree_recs p t = kvs" "sorted_wrt (<) (map fst kvs)"
    using assms by (auto simp: tree_rep_def)
  obtain parent cur b fs u where d: "bst_descend sh p k (kNil sh) (tp_root p) False = Some (parent, cur, b)"
    "bst_focus sh p fs u parent cur b (inorder t)" "u = Leaf \<or> node_key p cur = k"
    "\<forall>x \<in> set (map (tree_rec p) (frames_left fs)). fst x < k"
    "\<forall>x \<in> set (map (tree_rec p) (frames_right fs)). k < fst x"
    "kvs = map (tree_rec p) (frames_left fs) @ tree_recs p u @ map (tree_rec p) (frames_right fs)"
    by (rule bst_descend_rep [OF t])
  show ?thesis
  proof (cases "u = Leaf")
    case True
    then have "map_of kvs k = None" using map_of_sorted_parts(1) [OF d(4,5)] d(6) by (simp add: tree_recs_def)
    moreover have "bst_erase sh k p = Some (False, p)" using d(1) focus_leaf [OF d(2)] True by (simp add: bst_erase_def)
    ultimately show ?thesis by simp
  next
    case False
    then obtain l r where u: "u = Node l cur r" using d(2) by (cases u) (auto simp: bst_focus_def)
    have c: "cur \<noteq> kNil sh" "node_key p cur = k" using d(3) focus_leaf [OF d(2)] u by auto
    note fo = d(2) [unfolded u]
    define X where "X = frames_left fs @ inorder l"
    define Y where "Y = inorder r @ frames_right fs"
    have ids: "inorder t = X @ cur # Y" using d(2) by (simp add: bst_focus_def u X_def Y_def)
    have dist: "distinct (inorder t)" using t(1) by (simp add: tree_shape_def)
    have kvs: "kvs = map (tree_rec p) X @ (k, node_value p cur) # map (tree_rec p) Y"
      using t(2) c(2) by (auto simp: tree_recs_def ids tree_rec_def)
    have present: "map_of kvs k \<noteq> None"
      using kvs by (simp add: map_of_eq_None_iff)
    have srt: "sorted_wrt (<) (map fst (map (tree_rec p) X @ map (tree_rec p) Y))"
      using t(3) by (simp add: kvs sorted_wrt_append)
    have "\<exists>p'. bst_erase sh k p = Some (True, p') \<and> tree_rep sh p' (map (tree_rec p) X @ map (tree_rec p) Y)"
    proof (cases "l = Leaf \<or> r = Leaf")
      case True
      obtain t' where t': "tree_shape sh (bst_bridge sh parent cur b p) t'" "inorder t' = X @ Y"
        "\<forall>j. tree_rec (bst_bridge sh parent cur b p) j = tree_rec p j"
        using bst_bridge_focus [OF t(1) fo True] by (auto simp: X_def Y_def)
      have "left_of p cur = kNil sh \<longleftrightarrow> l = Leaf" "right_of p cur = kNil sh \<longleftrightarrow> r = Leaf"
        using focus_leaf focus_left [OF fo] focus_right [OF fo] by blast+
      then have "bst_erase sh k p = Some (True, bst_bridge sh parent cur b p)"
        using d(1) c True by (auto simp: bst_erase_def)
      moreover have "tree_recs (bst_bridge sh parent cur b p) t' = map (tree_rec p) X @ map (tree_rec p) Y"
        using t'(2,3) by (simp add: tree_recs_def)
      ultimately show ?thesis using tree_repI [OF t'(1) _ srt] by blast
    next
      case False
      have "left_of p cur = kNil sh \<longleftrightarrow> l = Leaf" "right_of p cur = kNil sh \<longleftrightarrow> r = Leaf"
        using focus_leaf focus_left [OF fo] focus_right [OF fo] by blast+
      then have kids: "left_of p cur \<noteq> kNil sh" "right_of p cur \<noteq> kNil sh" using False by blast+
      obtain sp s fs' r' b' where m: "bst_leftmost sh p cur (right_of p cur) = Some (sp, s)"
        "bst_focus sh p fs' (Node Leaf s r') sp s b' (inorder t)" "frames_left fs' = X @ [cur]"
        "Y = s # inorder r' @ frames_right fs'" "fs' \<noteq> []"
        using bst_leftmost_focus [OF conjunct1 [OF focus_right [OF fo]]] False by (auto simp: X_def Y_def)
      let ?p0 = "set_node_key cur (node_key p s) p"
      let ?p1 = "set_node_value cur (node_value ?p0 s) ?p0"
      have sc: "s \<noteq> cur" "s \<in> set Y" using dist m(4) by (auto simp: ids)
      have cl: "cur < length (tp_nodes p)" using fo by (simp add: bst_focus_def)
      have links: "same_links A (tp_nodes p) (tp_nodes ?p1)" for A
        by (auto simp: same_links_def set_node_value_def set_node_key_def nth_update_cases)
      have len: "length (tp_nodes ?p1) = length (tp_nodes p)" "tp_root ?p1 = tp_root p"
        by (simp_all add: set_node_value_def set_node_key_def)
      have shape: "tree_shape sh ?p1 t"
        using t(1) heap_tree_frame [OF _ links] by (simp add: tree_shape_def set_node_value_def set_node_key_def)
      have fo1: "bst_focus sh ?p1 fs' (Node Leaf s r') sp s b' (inorder t)"
        using focus_frame [OF m(2) links len(2)] len(1) m(2) by (simp add: bst_focus_def)
      have side: "(left_of ?p1 sp = s) = b'" by (rule focus_side [OF fo1 dist m(5)])
      obtain t' where t': "tree_shape sh (bst_bridge sh sp s b' ?p1) t'"
        "inorder t' = X @ cur # inorder r' @ frames_right fs'"
        "\<forall>j. tree_rec (bst_bridge sh sp s b' ?p1) j = tree_rec ?p1 j"
        using bst_bridge_focus [OF shape fo1] m(3) by auto
      have rec: "tree_rec ?p1 j = (if j = cur then tree_rec p s else tree_rec p j)" for j
        using cl sc(1) by (auto simp: tree_rec_def tp_defs nth_update_cases)
      have "cur \<notin> set X" "cur \<notin> set Y" using dist by (auto simp: ids)
      then have recs: "tree_recs (bst_bridge sh sp s b' ?p1) t' = map (tree_rec p) X @ map (tree_rec p) Y"
        using t'(2,3) by (auto simp: tree_recs_def rec m(4))
      have "bst_erase sh k p = Some (True, bst_bridge sh sp s b' ?p1)"
        using d(1) c kids m(1) side by (simp add: bst_erase_def Let_def)
      then show ?thesis using tree_repI [OF t'(1) recs srt] by blast
    qed
    then show ?thesis using present kvs by blast
  qed
qed

section \<open>The walk\<close>

lemma bst_walk_descend:
  "cur \<noteq> kNil sh \<Longrightarrow> bst_walk sh p cur st acc = bst_walk sh p (left_of p cur) (cur # st) acc"
  by (subst (1 2) bst_walk.simps, subst bst_push_left.simps) simp

lemma bst_walk_pop:
  "bst_walk sh p (kNil sh) (j # st) acc = bst_walk sh p (right_of p j) st (acc @ [tree_rec p j])"
  by (subst bst_walk.simps, subst bst_push_left.simps) (simp add: tree_rec_def)

lemma bst_walk_tree:
  "heap_tree (kNil sh) (tp_nodes p) cur t \<Longrightarrow> length (tp_nodes p) \<le> kNil sh \<Longrightarrow>
   bst_walk sh p cur st acc = bst_walk sh p (kNil sh) st (acc @ tree_recs p t)"
proof (induction t arbitrary: cur st acc)
  case (Node l j r)
  then have "cur = j" "j \<noteq> kNil sh" by auto
  then show ?case using Node
    by (simp add: bst_walk_descend left_of_def right_of_def bst_walk_pop tree_recs_def)
qed (simp add: tree_recs_def)

lemma bst_records_rep:
  assumes "tree_rep sh p kvs"
  shows "bst_records sh p = Some kvs"
proof -
  obtain t where t: "tree_shape sh p t" "tree_recs p t = kvs" using assms by (auto simp: tree_rep_def)
  have "bst_walk sh p (kNil sh) [] kvs = Some kvs" by (subst bst_walk.simps) simp
  then show ?thesis using bst_walk_tree [of sh p "tp_root p" t] t by (simp add: bst_records_def tree_shape_def)
qed

section \<open>The contract\<close>

lemma tree_rep_count: "tree_rep sh p kvs \<Longrightarrow> tp_size p = card (dom (map_of kvs))"
proof -
  assume a: "tree_rep sh p kvs"
  then have "distinct (map fst kvs)" by (auto simp: tree_rep_def strict_sorted_iff)
  moreover have "tp_size p = length kvs" using a by (auto simp: tree_rep_def tree_shape_def tree_recs_def)
  ultimately show ?thesis by (simp add: card_dom_map_of)
qed

lemma tree_rep_empty:
  "tp_nodes p = [] \<Longrightarrow> tp_free p = [] \<Longrightarrow> tp_root p = kNil sh \<Longrightarrow> tp_size p = 0 \<Longrightarrow> tree_rep sh p []"
  unfolding tree_rep_def by (intro conjI exI [of _ Leaf]) (simp_all add: tree_shape_def tree_recs_def)

lemma bst_erase_ok:
  assumes "bst_inv sh p"
  shows "\<exists>p'. bst_erase sh k p = Some (bst_view sh p k \<noteq> None, p') \<and> bst_inv sh p'
    \<and> bst_view sh p' = (bst_view sh p)(k := None)"
proof -
  obtain kvs where r: "tree_rep sh p kvs" using assms by (auto simp: bst_inv_def)
  have v: "bst_view sh p = map_of kvs" by (rule bst_view_map [OF r])
  show ?thesis
  proof (cases "map_of kvs k = None")
    case True
    then show ?thesis using bst_erase_rep [OF r, of k] assms v by (auto simp: fun_eq_iff)
  next
    case False
    then obtain p' X w Y where e: "bst_erase sh k p = Some (True, p')" "kvs = X @ (k, w) # Y"
      "tree_rep sh p' (X @ Y)" using bst_erase_rep [OF r, of k] by blast
    have "\<forall>x \<in> set X. fst x < k" "\<forall>y \<in> set Y. k < fst y"
      using r by (auto simp: tree_rep_def e(2) sorted_wrt_append)
    from map_of_sorted_parts(4) [OF this, of w] have "map_of (X @ Y) = (map_of kvs)(k := None)" by (simp add: e(2))
    then show ?thesis using e(1,3) bst_view_map [OF e(3)] v False unfolding bst_inv_def by auto
  qed
qed

interpretation bst: pool_map "bst_inv sh" "bst_lookup sh" "bst_insert sh" "bst_erase sh" tp_size
  "tp_clear sh" "bst_view sh" "\<lambda>n. kNil sh \<le> n" for sh
proof
  fix p k v
  assume i: "bst_inv sh p"
  then obtain kvs where r: "tree_rep sh p kvs" by (auto simp: bst_inv_def)
  show "bst_lookup sh p k = Some (bst_view sh p k)" by (simp add: bst_view_def bst_lookup_map [OF r])
  show "tp_size p = card (dom (bst_view sh p))" using tree_rep_count [OF r] by (simp add: bst_view_map [OF r])
  show "\<exists>p'. bst_erase sh k p = Some (bst_view sh p k \<noteq> None, p') \<and> bst_inv sh p'
      \<and> bst_view sh p' = (bst_view sh p)(k := None)" by (rule bst_erase_ok [OF i])
  have e: "tree_rep sh (tp_clear sh p) []" by (simp add: tp_clear_def tree_rep_empty)
  show "bst_inv sh (tp_clear sh p) \<and> bst_view sh (tp_clear sh p) = Map.empty"
    using e bst_view_map [OF e] by (auto simp: bst_inv_def)
  show "bst_insert sh k v p = Some (Inl Length_Error)" if "bst_view sh p k = None" "kNil sh \<le> tp_size p"
    using bst_insert_new [OF r, of k v] that by (simp add: bst_view_map [OF r])
  show "\<exists>p'. bst_insert sh k v p = Some (Inr p') \<and> bst_inv sh p' \<and> bst_view sh p' = (bst_view sh p)(k \<mapsto> v)"
    if "bst_view sh p k \<noteq> None \<or> \<not> kNil sh \<le> tp_size p"
  proof (cases "map_of kvs k = None")
    case True
    then show ?thesis using bst_insert_new [OF r True, of v] that by (simp add: bst_view_map [OF r])
  next
    case False
    then show ?thesis by (rule bst_insert_update [OF r])
  qed
qed

lemma bst_init_ok: "bst_inv sh (tp_init sh)" "bst_view sh (tp_init sh) = Map.empty"
proof -
  have e: "tree_rep sh (tp_init sh) []" by (simp add: tp_init_def tree_rep_empty)
  then show "bst_inv sh (tp_init sh)" by (auto simp: bst_inv_def)
  show "bst_view sh (tp_init sh) = Map.empty" by (simp add: bst_view_map [OF e])
qed

section \<open>Properties\<close>

text \<open>C11: For each of the three index types, every sequence of calls on an initially empty
  \<^verbatim>\<open>ComposedTreeSearch\<close> returns, and answers like a finite map that holds at most \<^verbatim>\<open>kNil\<close> keys: an
  insertion throws \<^verbatim>\<open>std::length_error\<close> exactly when its key is new and that many keys are stored, and
  has no other effect then; erased nodes are reused.\<close>
theorem tree_refines_bounded_map:
  "map_option fst (pool_run (bst_lookup sh) (bst_insert sh) (bst_erase sh) tp_size (tp_clear sh) ops (tp_init sh))
   = map_option fst (spec_pool_run (\<lambda>n. kNil sh \<le> n) ops Map.empty)
   \<and> spec_pool_run (\<lambda>n. kNil sh \<le> n) ops Map.empty \<noteq> None"
  using bst.run_outputs [OF bst_init_ok(1) [of sh], of ops] bst_init_ok(2) [of sh] spec_pool_run_returns by simp

text \<open>C24: After any sequence of calls on an initially empty tree, the stack walk \<^verbatim>\<open>for_each_record\<close>
  terminates and visits the entries of the map in strictly ascending key order, each once.\<close>
theorem tree_walk_terminates:
  "\<exists>rs p kvs. pool_run (bst_lookup sh) (bst_insert sh) (bst_erase sh) tp_size (tp_clear sh) ops (tp_init sh) = Some (rs, p)
     \<and> bst_records sh p = Some kvs \<and> sorted_wrt (<) (map fst kvs) \<and> length kvs = tp_size p
     \<and> (\<forall>k. bst_lookup sh p k = Some (map_of kvs k))"
proof -
  obtain rs p where r: "pool_run (bst_lookup sh) (bst_insert sh) (bst_erase sh) tp_size (tp_clear sh) ops (tp_init sh)
      = Some (rs, p)" "bst_inv sh p"
    using bst.run_refines [OF bst_init_ok(1) [of sh], of ops] by blast
  then obtain kvs where t: "tree_rep sh p kvs" by (auto simp: bst_inv_def)
  have "length kvs = tp_size p" using t by (auto simp: tree_rep_def tree_shape_def tree_recs_def)
  then show ?thesis using r(1) t bst_records_rep [OF t] bst_lookup_map [OF t] by (auto simp: tree_rep_def)
qed

end
