(* ===== verification/Skip_List.thy ===== *)
theory Skip_List imports Pool_Contract begin

text \<open>
  The skip list organ: \<^verbatim>\<open>SkipListNodePoolStore\<close> (a node pool whose nodes hold a tower of forward
  indices, node 0 being the head), \<^verbatim>\<open>SkipListTraversalOrgan\<close> and \<^verbatim>\<open>ComposedSkipListSearch\<close>.  The
  value \<^verbatim>\<open>kNil\<close> of a forward index is \<open>None\<close>.  Tower heights are drawn from \<^verbatim>\<open>std::mt19937_64\<close>, which
  is part of the state; the laws hold for every state of the generator.

  On a well-formed pool the bottom level lists all live nodes in key order, and each higher level is
  the sublist of the nodes whose tower reaches it (\<open>sk_level\<close>); a descent stands, at each level, on
  the last node below the key.  The organ is interpreted in \<open>pool_map\<close>; it never throws.
\<close>

section \<open>The generator\<close>

text \<open>The last 312 values of the recurrence, oldest first.\<close>
type_synonym mt19937_64 = "u64 list"

definition mt_seed :: "u64 \<Rightarrow> mt19937_64" where
  "mt_seed seed = rev (fold (\<lambda>i xs. (6364136223846793005 * (hd xs XOR drop_bit 62 (hd xs)) + word_of_nat i) # xs)
     [1..<312] [seed])"

definition mt_temper :: "u64 \<Rightarrow> u64" where
  "mt_temper z0 =
     (let z1 = z0 XOR (drop_bit 29 z0 AND 0x5555555555555555);
          z2 = z1 XOR (push_bit 17 z1 AND 0x71d67fffeda60000);
          z3 = z2 XOR (push_bit 37 z2 AND 0xfff7eee000000000)
      in z3 XOR drop_bit 43 z3)"

definition mt_next :: "mt19937_64 \<Rightarrow> u64 \<times> mt19937_64" where
  "mt_next xs =
     (let y = (xs ! 0 AND NOT (mask 31)) OR (xs ! 1 AND mask 31);
          x = xs ! 156 XOR drop_bit 1 y XOR (if bit y 0 then 0xb5026f5aa96619e9 else 0)
      in (mt_temper x, tl xs @ [x]))"

section \<open>The pool\<close>

datatype skip_shape = Skip_Max16_P50 | Skip_Max16_P25 | Skip_Max32_P50 | Skip_Max8_P50

primrec sk_max_level :: "skip_shape \<Rightarrow> nat" where
  "sk_max_level Skip_Max16_P50 = 16"
| "sk_max_level Skip_Max16_P25 = 16"
| "sk_max_level Skip_Max32_P50 = 32"
| "sk_max_level Skip_Max8_P50 = 8"

definition sk_p_numerator :: "skip_shape \<Rightarrow> u64" where
  "sk_p_numerator sh = 1"

primrec sk_p_denominator :: "skip_shape \<Rightarrow> u64" where
  "sk_p_denominator Skip_Max16_P50 = 2"
| "sk_p_denominator Skip_Max16_P25 = 4"
| "sk_p_denominator Skip_Max32_P50 = 2"
| "sk_p_denominator Skip_Max8_P50 = 2"

record sk_node =
  sk_key :: u64
  sk_val :: u64
  sk_live :: bool
  sk_next :: "nat option list"

record skip_pool =
  sk_nodes :: "sk_node list"
  sk_live_count :: nat
  sk_list_level :: nat
  sk_rng :: mt19937_64

definition sk_head :: nat where
  "sk_head = 0"

definition sk_head_node :: "skip_shape \<Rightarrow> sk_node" where
  "sk_head_node sh = \<lparr>sk_key = 0, sk_val = 0, sk_live = False, sk_next = replicate (sk_max_level sh) None\<rparr>"

definition sk_init :: "skip_shape \<Rightarrow> skip_pool" where
  "sk_init sh = \<lparr>sk_nodes = [sk_head_node sh], sk_live_count = 0, sk_list_level = 1, sk_rng = mt_seed 0xC0FFEE\<rparr>"

definition sk_assign :: "skip_pool \<Rightarrow> skip_pool \<Rightarrow> skip_pool" where
  "sk_assign self src = self\<lparr>sk_nodes := sk_nodes src, sk_live_count := sk_live_count src,
     sk_list_level := sk_list_level src, sk_rng := sk_rng src\<rparr>"

definition sk_node_key :: "skip_pool \<Rightarrow> nat \<Rightarrow> u64" where "sk_node_key p i = sk_key (sk_nodes p ! i)"
definition sk_node_value :: "skip_pool \<Rightarrow> nat \<Rightarrow> u64" where "sk_node_value p i = sk_val (sk_nodes p ! i)"
definition sk_node_live :: "skip_pool \<Rightarrow> nat \<Rightarrow> bool" where "sk_node_live p i = sk_live (sk_nodes p ! i)"

definition sk_forward_at :: "skip_pool \<Rightarrow> nat \<Rightarrow> nat \<Rightarrow> nat option" where
  "sk_forward_at p node level = sk_next (sk_nodes p ! node) ! level"

definition sk_allocate_node :: "u64 \<Rightarrow> u64 \<Rightarrow> nat \<Rightarrow> skip_pool \<Rightarrow> nat \<times> skip_pool" where
  "sk_allocate_node k v level p = (length (sk_nodes p),
     p\<lparr>sk_nodes := sk_nodes p @ [\<lparr>sk_key = k, sk_val = v, sk_live = True, sk_next = replicate level None\<rparr>],
       sk_live_count := sk_live_count p + 1\<rparr>)"

text \<open>\<^verbatim>\<open>draw_level\<close>: the draw comes before the test of the level.\<close>
function sk_draw_loop :: "skip_shape \<Rightarrow> mt19937_64 \<Rightarrow> nat \<Rightarrow> nat \<times> mt19937_64" where
  "sk_draw_loop sh g lvl = (case mt_next g of (x, g') \<Rightarrow>
     if sk_p_denominator sh - sk_p_numerator sh \<le> x AND (sk_p_denominator sh - 1) \<and> lvl < sk_max_level sh
     then sk_draw_loop sh g' (lvl + 1) else (lvl, g'))"
  by pat_completeness auto
termination by (relation "measure (\<lambda>(sh, g, lvl). sk_max_level sh - lvl)") auto

declare sk_draw_loop.simps [simp del]

definition sk_draw_level :: "skip_shape \<Rightarrow> skip_pool \<Rightarrow> nat \<times> skip_pool" where
  "sk_draw_level sh p = (case sk_draw_loop sh (sk_rng p) 1 of (lvl, g) \<Rightarrow> (lvl, p\<lparr>sk_rng := g\<rparr>))"

definition sk_set_forward_at :: "nat \<Rightarrow> nat \<Rightarrow> nat option \<Rightarrow> skip_pool \<Rightarrow> skip_pool" where
  "sk_set_forward_at node level target p = p\<lparr>sk_nodes := (sk_nodes p)[node :=
     (sk_nodes p ! node)\<lparr>sk_next := (sk_next (sk_nodes p ! node))[level := target]\<rparr>]\<rparr>"

definition sk_set_node_value :: "nat \<Rightarrow> u64 \<Rightarrow> skip_pool \<Rightarrow> skip_pool" where
  "sk_set_node_value i v p = p\<lparr>sk_nodes := (sk_nodes p)[i := (sk_nodes p ! i)\<lparr>sk_val := v\<rparr>]\<rparr>"

definition sk_set_node_live :: "nat \<Rightarrow> bool \<Rightarrow> skip_pool \<Rightarrow> skip_pool" where
  "sk_set_node_live i b p = p\<lparr>sk_nodes := (sk_nodes p)[i := (sk_nodes p ! i)\<lparr>sk_live := b\<rparr>]\<rparr>"

definition sk_clear :: "skip_pool \<Rightarrow> skip_pool" where
  "sk_clear p = p\<lparr>sk_nodes := [(sk_nodes p ! sk_head)\<lparr>sk_next := map (\<lambda>_. None) (sk_next (sk_nodes p ! sk_head))\<rparr>],
     sk_live_count := 0, sk_list_level := 1\<rparr>"

section \<open>The traversal\<close>

text \<open>The walk along one level: from \<open>x\<close> to the last node below the key.\<close>
partial_function (option) sk_walk :: "skip_pool \<Rightarrow> u64 \<Rightarrow> nat \<Rightarrow> nat \<Rightarrow> nat option" where
  "sk_walk p k lvl x = (case sk_forward_at p x lvl of
     Some nxt \<Rightarrow> if sk_node_key p nxt < k then sk_walk p k lvl nxt else Some x
   | None \<Rightarrow> Some x)"

text \<open>The descent over the levels; \<^verbatim>\<open>update\<close> records where each level was left.\<close>
primrec sk_descend :: "skip_pool \<Rightarrow> u64 \<Rightarrow> nat \<Rightarrow> nat \<Rightarrow> nat list \<Rightarrow> (nat \<times> nat list) option" where
  "sk_descend p k 0 x update = Some (x, update)"
| "sk_descend p k (Suc lvl) x update = (case sk_walk p k lvl x of
     None \<Rightarrow> None
   | Some x' \<Rightarrow> sk_descend p k lvl x' (update[lvl := x']))"

definition sk_find_update :: "skip_shape \<Rightarrow> skip_pool \<Rightarrow> u64 \<Rightarrow> (nat option \<times> nat list) option" where
  "sk_find_update sh p k = map_option (\<lambda>(x, update). (sk_forward_at p x 0, update))
     (sk_descend p k (sk_list_level p) sk_head (replicate (sk_max_level sh) 0))"

definition sk_matches :: "skip_pool \<Rightarrow> u64 \<Rightarrow> nat option \<Rightarrow> bool" where
  "sk_matches p k cand \<longleftrightarrow> (case cand of None \<Rightarrow> False | Some c \<Rightarrow> sk_node_key p c = k \<and> sk_node_live p c)"

definition sk_link_level :: "nat \<Rightarrow> nat list \<Rightarrow> nat \<Rightarrow> skip_pool \<Rightarrow> skip_pool" where
  "sk_link_level idx update lv p =
     (let pred = update ! lv; p1 = sk_set_forward_at idx lv (sk_forward_at p pred lv) p
      in sk_set_forward_at pred lv (Some idx) p1)"

definition sk_insert :: "skip_shape \<Rightarrow> u64 \<Rightarrow> u64 \<Rightarrow> skip_pool \<Rightarrow> skip_pool pool_result" where
  "sk_insert sh k v p = (case sk_find_update sh p k of
     None \<Rightarrow> None
   | Some (cand, update) \<Rightarrow>
       if sk_matches p k cand then Some (Inr (sk_set_node_value (the cand) v p))
       else (let (lvl, p1) = sk_draw_level sh p;
                 (update', p2) = (if sk_list_level p1 < lvl
                   then (fold (\<lambda>i u. u[i := sk_head]) [sk_list_level p1..<lvl] update, p1\<lparr>sk_list_level := lvl\<rparr>)
                   else (update, p1));
                 (idx, p3) = sk_allocate_node k v lvl p2
             in Some (Inr (fold (sk_link_level idx update') [0..<lvl] p3))))"

primrec sk_lookup_descend :: "skip_pool \<Rightarrow> u64 \<Rightarrow> nat \<Rightarrow> nat \<Rightarrow> nat option" where
  "sk_lookup_descend p k 0 x = Some x"
| "sk_lookup_descend p k (Suc lvl) x = (case sk_walk p k lvl x of
     None \<Rightarrow> None
   | Some x' \<Rightarrow> sk_lookup_descend p k lvl x')"

definition sk_lookup :: "skip_pool \<Rightarrow> u64 \<Rightarrow> u64 option option" where
  "sk_lookup p k = (case sk_lookup_descend p k (sk_list_level p) sk_head of
     None \<Rightarrow> None
   | Some x \<Rightarrow> (let cand = sk_forward_at p x 0
                in Some (if sk_matches p k cand then Some (sk_node_value p (the cand)) else None)))"

definition sk_unlink_level :: "nat \<Rightarrow> nat list \<Rightarrow> nat \<Rightarrow> skip_pool \<Rightarrow> skip_pool" where
  "sk_unlink_level cand update lvl p =
     (let pred = update ! lvl
      in if sk_forward_at p pred lvl = Some cand
         then sk_set_forward_at pred lvl (sk_forward_at p cand lvl) p else p)"

text \<open>Lowering \<^verbatim>\<open>list_level\<close> while its top level is empty.\<close>
fun sk_lower_level :: "skip_pool \<Rightarrow> nat \<Rightarrow> nat" where
  "sk_lower_level p 0 = 0"
| "sk_lower_level p (Suc l) = (if 1 < Suc l \<and> sk_forward_at p sk_head l = None then sk_lower_level p l else Suc l)"

definition sk_erase :: "skip_shape \<Rightarrow> u64 \<Rightarrow> skip_pool \<Rightarrow> (bool \<times> skip_pool) option" where
  "sk_erase sh k p = (case sk_find_update sh p k of
     None \<Rightarrow> None
   | Some (cand, update) \<Rightarrow>
       if \<not> sk_matches p k cand then Some (False, p)
       else (let p1 = fold (sk_unlink_level (the cand) update) [0..<sk_list_level p] p;
                 p2 = sk_set_node_live (the cand) False p1;
                 p3 = p2\<lparr>sk_list_level := sk_lower_level p2 (sk_list_level p2)\<rparr>
             in Some (True, p3\<lparr>sk_live_count := sk_live_count p3 - 1\<rparr>)))"

text \<open>\<^verbatim>\<open>ComposedSkipListSearch::for_each_record\<close>: the bottom level in order.\<close>
partial_function (option) sk_collect :: "skip_pool \<Rightarrow> nat option \<Rightarrow> slot list \<Rightarrow> slot list option" where
  "sk_collect p cur sink = (case cur of
     None \<Rightarrow> Some sink
   | Some c \<Rightarrow> sk_collect p (sk_forward_at p c 0)
       (if sk_node_live p c then sink @ [(sk_node_key p c, sk_node_value p c)] else sink))"

definition sk_records :: "skip_pool \<Rightarrow> slot list option" where
  "sk_records p = sk_collect p (sk_forward_at p sk_head 0) []"

lemmas sk_defs = sk_node_key_def sk_node_value_def sk_node_live_def sk_forward_at_def sk_set_forward_at_def
  sk_set_node_value_def sk_set_node_live_def

section \<open>Chains\<close>

definition sk_height :: "skip_pool \<Rightarrow> nat \<Rightarrow> nat" where
  "sk_height p j = length (sk_next (sk_nodes p ! j))"

primrec sk_chain :: "skip_pool \<Rightarrow> nat \<Rightarrow> nat \<Rightarrow> nat list \<Rightarrow> bool" where
  "sk_chain p i x [] \<longleftrightarrow> sk_forward_at p x i = None"
| "sk_chain p i x (y # ys) \<longleftrightarrow> sk_forward_at p x i = Some y \<and> sk_chain p i y ys"

text \<open>The nodes that reach a level, and those below a key.\<close>
definition sk_level :: "skip_pool \<Rightarrow> nat \<Rightarrow> nat list \<Rightarrow> nat list" where
  "sk_level p i ids = filter (\<lambda>j. i < sk_height p j) ids"

definition sk_below :: "skip_pool \<Rightarrow> u64 \<Rightarrow> nat list \<Rightarrow> nat list" where
  "sk_below p k ids = filter (\<lambda>j. sk_node_key p j < k) ids"

definition sk_pred :: "skip_pool \<Rightarrow> u64 \<Rightarrow> nat \<Rightarrow> nat list \<Rightarrow> nat" where
  "sk_pred p k i ids = last (0 # sk_below p k (sk_level p i ids))"

definition sk_sorted :: "skip_pool \<Rightarrow> nat list \<Rightarrow> bool" where
  "sk_sorted p ids \<longleftrightarrow> sorted_wrt (\<lambda>i j. sk_node_key p i < sk_node_key p j) ids"

lemma sk_chain_append: "sk_chain p i x (as @ bs) \<Longrightarrow> sk_chain p i (last (x # as)) bs"
  by (induction as arbitrary: x) auto

lemma sk_chain_cong:
  "sk_chain p i x ys \<Longrightarrow> \<forall>y \<in> set (x # ys). sk_forward_at p' y i = sk_forward_at p y i \<Longrightarrow> sk_chain p' i x ys"
  by (induction ys arbitrary: x) auto

lemma sk_chain_insert:
  assumes "sk_chain p i x (as @ bs)" "distinct (x # as @ bs)"
    "\<forall>y \<in> set (x # as @ bs). y \<noteq> last (x # as) \<longrightarrow> sk_forward_at p' y i = sk_forward_at p y i"
    "sk_forward_at p' (last (x # as)) i = Some n" "sk_forward_at p' n i = sk_forward_at p (last (x # as)) i"
  shows "sk_chain p' i x (as @ n # bs)"
  using assms
proof (induction as arbitrary: x)
  case Nil
  have "sk_chain p' i n bs"
  proof (cases bs)
    case (Cons y ys)
    have "sk_chain p' i y ys" by (rule sk_chain_cong [of p]) (use Nil Cons in auto)
    then show ?thesis using Nil Cons by simp
  qed (use Nil in simp)
  then show ?case using Nil by simp
next
  case (Cons a as)
  then have "x \<noteq> last (a # as)" using last_in_set [of "a # as"] by auto
  then show ?case using Cons by auto
qed

lemma sk_chain_delete:
  assumes "sk_chain p i x (as @ c # bs)" "distinct (x # as @ c # bs)"
    "\<forall>y \<in> set (x # as @ bs). y \<noteq> last (x # as) \<longrightarrow> sk_forward_at p' y i = sk_forward_at p y i"
    "sk_forward_at p' (last (x # as)) i = sk_forward_at p c i"
  shows "sk_chain p' i x (as @ bs)"
  using assms
proof (induction as arbitrary: x)
  case Nil
  then show ?case
  proof (cases bs)
    case (Cons y ys)
    have "sk_chain p' i y ys" by (rule sk_chain_cong [of p]) (use Nil Cons in auto)
    then show ?thesis using Nil Cons by simp
  qed (use Nil in simp)
next
  case (Cons a as)
  then have "x \<noteq> last (a # as)" using last_in_set [of "a # as"] by auto
  then show ?case using Cons by auto
qed

lemma sk_walk_chain:
  "sk_chain p i x ys \<Longrightarrow> sk_walk p k i x = Some (last (x # takeWhile (\<lambda>j. sk_node_key p j < k) ys))"
  by (induction ys arbitrary: x; subst sk_walk.simps) simp_all

lemma takeWhile_below: "sk_sorted p ids \<Longrightarrow> takeWhile (\<lambda>j. sk_node_key p j < k) ids = sk_below p k ids"
proof (induction ids)
  case (Cons a ids)
  have "sk_below p k ids = []" if "\<not> sk_node_key p a < k"
    using Cons.prems that by (auto simp: sk_sorted_def sk_below_def filter_empty_conv)
  then show ?case using Cons by (auto simp: sk_sorted_def sk_below_def)
qed (simp add: sk_below_def)

lemma sk_sorted_filter: "sk_sorted p ids \<Longrightarrow> sk_sorted p (sk_level p i ids)"
  by (simp add: sk_sorted_def sk_level_def sorted_wrt_filter)

lemma sk_sorted_distinct: "sk_sorted p ids \<Longrightarrow> distinct ids"
  by (induction ids) (auto simp: sk_sorted_def)

section \<open>Well-formed pools\<close>

definition sk_rep :: "skip_shape \<Rightarrow> skip_pool \<Rightarrow> nat list \<Rightarrow> bool" where
  "sk_rep sh p ids \<longleftrightarrow> sk_sorted p ids \<and> sk_nodes p \<noteq> [] \<and> sk_height p 0 = sk_max_level sh
     \<and> 1 \<le> sk_list_level p \<and> sk_list_level p \<le> sk_max_level sh \<and> sk_live_count p = length ids
     \<and> (\<forall>j \<in> set ids. 0 < j \<and> j < length (sk_nodes p) \<and> sk_node_live p j
          \<and> 1 \<le> sk_height p j \<and> sk_height p j \<le> sk_list_level p)
     \<and> (\<forall>i < sk_max_level sh. sk_chain p i 0 (sk_level p i ids))"

definition sk_recs :: "skip_pool \<Rightarrow> nat list \<Rightarrow> slot list" where
  "sk_recs p ids = map (\<lambda>j. (sk_node_key p j, sk_node_value p j)) ids"

definition sk_inv :: "skip_shape \<Rightarrow> skip_pool \<Rightarrow> bool" where
  "sk_inv sh p \<longleftrightarrow> (\<exists>ids. sk_rep sh p ids)"

definition sk_view :: "skip_pool \<Rightarrow> u64 \<Rightarrow> u64 option" where
  "sk_view p k = the (sk_lookup p k)"

lemma sk_rep_distinct: "sk_rep sh p ids \<Longrightarrow> distinct ids"
  unfolding sk_rep_def using sk_sorted_distinct by blast

lemma sk_level_0: "sk_rep sh p ids \<Longrightarrow> sk_level p 0 ids = ids"
  by (fastforce simp: sk_level_def sk_rep_def filter_id_conv)

lemma sk_level_top: "sk_rep sh p ids \<Longrightarrow> sk_list_level p \<le> i \<Longrightarrow> sk_level p i ids = []"
  by (fastforce simp: sk_level_def sk_rep_def filter_empty_conv)

lemma sk_pred_bounds:
  assumes "sk_rep sh p ids" "i < sk_max_level sh"
  shows "sk_pred p k i ids < length (sk_nodes p)" "i < sk_height p (sk_pred p k i ids)"
    "sk_pred p k i ids = 0 \<or> sk_pred p k i ids \<in> set ids \<and> sk_node_key p (sk_pred p k i ids) < k"
proof -
  have m: "sk_pred p k i ids = 0 \<or> sk_pred p k i ids \<in> set (sk_below p k (sk_level p i ids))"
    unfolding sk_pred_def by (metis last.simps last_in_set)
  then show "sk_pred p k i ids = 0 \<or> sk_pred p k i ids \<in> set ids \<and> sk_node_key p (sk_pred p k i ids) < k"
    by (auto simp: sk_below_def sk_level_def)
  show "sk_pred p k i ids < length (sk_nodes p)" "i < sk_height p (sk_pred p k i ids)"
    using m assms by (auto simp: sk_rep_def sk_below_def sk_level_def)
qed

text \<open>A walk on level \<open>i\<close> from any node of the level below the key ends at the predecessor.\<close>
lemma sk_walk_pred:
  assumes "sk_rep sh p ids" "i < sk_max_level sh"
    "x = 0 \<or> x \<in> set ids \<and> sk_node_key p x < k \<and> i < sk_height p x"
  shows "sk_walk p k i x = Some (sk_pred p k i ids)"
proof -
  have c: "sk_chain p i 0 (sk_level p i ids)" using assms(1,2) by (simp add: sk_rep_def)
  have s: "sk_sorted p (sk_level p i ids)" using assms(1) by (simp add: sk_rep_def sk_sorted_filter)
  show ?thesis
  proof (cases "x = 0")
    case True
    then show ?thesis using sk_walk_chain [OF c, of k] takeWhile_below [OF s, of k] by (simp add: sk_pred_def)
  next
    case False
    then have "x \<in> set (sk_level p i ids)" using assms(3) by (simp add: sk_level_def)
    then obtain as bs where l: "sk_level p i ids = as @ x # bs" by (meson split_list)
    have ss: "sk_sorted p bs" "\<forall>a \<in> set as. sk_node_key p a < sk_node_key p x"
      using s by (auto simp: l sk_sorted_def sorted_wrt_append)
    have "sk_chain p i x bs" using sk_chain_append [of p i 0 "as @ [x]" bs] c by (simp add: l)
    then have w: "sk_walk p k i x = Some (last (x # sk_below p k bs))"
      using takeWhile_below [OF ss(1), of k] sk_walk_chain by simp
    have "sk_below p k as = as" using ss(2) assms(3) False
      by (auto simp: sk_below_def filter_id_conv intro: less_trans)
    then have "sk_below p k (sk_level p i ids) = as @ x # sk_below p k bs"
      using assms(3) False by (simp add: l sk_below_def)
    then show ?thesis using w by (simp add: sk_pred_def)
  qed
qed

section \<open>Descents\<close>

lemma sk_descend_rep:
  assumes "sk_rep sh p ids" "l \<le> sk_max_level sh" "length upd = sk_max_level sh"
    "x = 0 \<or> x \<in> set ids \<and> sk_node_key p x < k \<and> l \<le> sk_height p x"
  shows "\<exists>upd'. sk_descend p k l x upd = Some (if l = 0 then x else sk_pred p k 0 ids, upd')
    \<and> sk_lookup_descend p k l x = Some (if l = 0 then x else sk_pred p k 0 ids)
    \<and> length upd' = length upd \<and> (\<forall>i < l. upd' ! i = sk_pred p k i ids) \<and> (\<forall>i \<ge> l. upd' ! i = upd ! i)"
  using assms
proof (induction l arbitrary: x upd)
  case (Suc l)
  have w: "sk_walk p k l x = Some (sk_pred p k l ids)"
    using Suc.prems by (intro sk_walk_pred) auto
  have l: "l < sk_max_level sh" using Suc.prems(2) by simp
  have b: "sk_pred p k l ids = 0 \<or> sk_pred p k l ids \<in> set ids \<and> sk_node_key p (sk_pred p k l ids) < k
      \<and> l \<le> sk_height p (sk_pred p k l ids)"
    using sk_pred_bounds [OF Suc.prems(1) l, of k] by auto
  obtain upd' where u: "sk_descend p k l (sk_pred p k l ids) (upd[l := sk_pred p k l ids])
      = Some (if l = 0 then sk_pred p k l ids else sk_pred p k 0 ids, upd')"
    "sk_lookup_descend p k l (sk_pred p k l ids) = Some (if l = 0 then sk_pred p k l ids else sk_pred p k 0 ids)"
    "length upd' = length upd" "\<forall>i < l. upd' ! i = sk_pred p k i ids"
    "\<forall>i \<ge> l. upd' ! i = upd[l := sk_pred p k l ids] ! i"
    using Suc.IH [of "upd[l := sk_pred p k l ids]" "sk_pred p k l ids"] Suc.prems(1-3) b by auto
  have "upd' ! l = sk_pred p k l ids" "\<forall>i \<ge> Suc l. upd' ! i = upd ! i"
    using u(5) l Suc.prems(3) by auto
  then show ?case using w u by (auto simp: less_Suc_eq)
qed simp

text \<open>The bottom level splits at the key.\<close>
lemma sk_split:
  assumes "sk_rep sh p ids"
  shows "ids = sk_below p k ids @ filter (\<lambda>j. k \<le> sk_node_key p j) ids"
    and "sk_forward_at p (sk_pred p k 0 ids) 0 =
      (case filter (\<lambda>j. k \<le> sk_node_key p j) ids of [] \<Rightarrow> None | c # _ \<Rightarrow> Some c)"
proof -
  have s: "sk_sorted p ids" using assms by (simp add: sk_rep_def)
  have d: "dropWhile (\<lambda>j. sk_node_key p j < k) ids = filter (\<lambda>j. k \<le> sk_node_key p j) ids"
    using s
  proof (induction ids)
    case (Cons a ids)
    have "filter (\<lambda>j. k \<le> sk_node_key p j) ids = ids" if "\<not> sk_node_key p a < k"
      using Cons.prems that by (auto simp: sk_sorted_def filter_id_conv)
    then show ?case using Cons by (auto simp: sk_sorted_def)
  qed simp
  show split: "ids = sk_below p k ids @ filter (\<lambda>j. k \<le> sk_node_key p j) ids"
    using takeWhile_dropWhile_id [of "\<lambda>j. sk_node_key p j < k" ids] takeWhile_below [OF s, of k] d by simp
  have "sk_chain p 0 0 (sk_below p k ids @ filter (\<lambda>j. k \<le> sk_node_key p j) ids)"
    using assms sk_level_0 [OF assms] split unfolding sk_rep_def
    by (metis (no_types, lifting) less_le_trans zero_less_one)
  from sk_chain_append [OF this] have "sk_chain p 0 (sk_pred p k 0 ids) (filter (\<lambda>j. k \<le> sk_node_key p j) ids)"
    by (simp add: sk_pred_def sk_level_0 [OF assms])
  then show "sk_forward_at p (sk_pred p k 0 ids) 0 =
      (case filter (\<lambda>j. k \<le> sk_node_key p j) ids of [] \<Rightarrow> None | c # _ \<Rightarrow> Some c)"
    by (cases "filter (\<lambda>j. k \<le> sk_node_key p j) ids") simp_all
qed

text \<open>The search ends at the node with the key, or at the place where it belongs.\<close>
lemma sk_find_rep:
  assumes "sk_rep sh p ids"
  obtains A B upd cand where "ids = A @ B" "A = sk_below p k ids" "\<forall>j \<in> set A. sk_node_key p j < k"
    "cand = (case B of [] \<Rightarrow> None | c # _ \<Rightarrow> Some c)"
    "sk_find_update sh p k = Some (cand, upd)" "length upd = sk_max_level sh"
    "\<forall>i < sk_max_level sh. i < sk_list_level p \<longrightarrow> upd ! i = sk_pred p k i ids"
    "\<forall>j \<in> set B. k \<le> sk_node_key p j"
    "\<forall>c B'. B = c # B' \<longrightarrow> (\<forall>j \<in> set B'. k < sk_node_key p j) \<and> sk_matches p k cand = (sk_node_key p c = k)"
    "B = [] \<longrightarrow> \<not> sk_matches p k cand"
    "sk_lookup p k = Some (if sk_matches p k cand then Some (sk_node_value p (the cand)) else None)"
proof -
  let ?A = "sk_below p k ids" and ?B = "filter (\<lambda>j. k \<le> sk_node_key p j) ids"
  let ?cand = "case ?B of [] \<Rightarrow> None | c # _ \<Rightarrow> Some c"
  have lv: "1 \<le> sk_list_level p" "sk_list_level p \<le> sk_max_level sh" using assms by (simp_all add: sk_rep_def)
  obtain upd where u: "sk_descend p k (sk_list_level p) sk_head (replicate (sk_max_level sh) 0) = Some (sk_pred p k 0 ids, upd)"
    "sk_lookup_descend p k (sk_list_level p) sk_head = Some (sk_pred p k 0 ids)"
    "length upd = sk_max_level sh" "\<forall>i < sk_list_level p. upd ! i = sk_pred p k i ids"
    using sk_descend_rep [OF assms lv(2), of "replicate (sk_max_level sh) 0" 0 k] lv(1) by (auto simp: sk_head_def)
  note sp = sk_split [OF assms, of k]
  show ?thesis
  proof (rule that [of ?A ?B ?cand upd])
    show "sk_find_update sh p k = Some (?cand, upd)" using u(1) sp(2) by (simp add: sk_find_update_def)
    show "sk_lookup p k = Some (if sk_matches p k ?cand then Some (sk_node_value p (the ?cand)) else None)"
      using u(2) sp(2) by (simp add: sk_lookup_def Let_def)
    show "\<forall>c B'. ?B = c # B' \<longrightarrow> (\<forall>j \<in> set B'. k < sk_node_key p j) \<and> sk_matches p k ?cand = (sk_node_key p c = k)"
    proof (intro allI impI)
      fix c B' assume B: "?B = c # B'"
      have "sk_sorted p ids" using assms by (simp add: sk_rep_def)
      then have "sk_sorted p ?B" by (simp add: sk_sorted_def sorted_wrt_filter)
      moreover have "c \<in> set ?B" by (simp add: B)
      then have "c \<in> set ids" "k \<le> sk_node_key p c" by (simp_all only: set_filter mem_Collect_eq)
      moreover from this have "sk_node_live p c" using assms by (simp add: sk_rep_def)
      ultimately show "(\<forall>j \<in> set B'. k < sk_node_key p j) \<and> sk_matches p k ?cand = (sk_node_key p c = k)"
        by (auto simp: B sk_sorted_def sk_matches_def intro: le_less_trans)
    qed
  qed (use sp(1) u(3,4) in \<open>auto simp: sk_below_def sk_matches_def split: list.splits\<close>)
qed

lemma sk_recs_parts:
  assumes "sk_rep sh p ids" "ids = A @ c # B'" "\<forall>j \<in> set A. sk_node_key p j < k" "sk_node_key p c = k"
    "\<forall>j \<in> set B'. k < sk_node_key p j"
  shows "sk_recs p ids = sk_recs p A @ (k, sk_node_value p c) # sk_recs p B'"
    "\<forall>x \<in> set (sk_recs p A). fst x < k" "\<forall>x \<in> set (sk_recs p B'). k < fst x"
  using assms by (auto simp: sk_recs_def)

lemma sk_lookup_map:
  assumes "sk_rep sh p ids"
  shows "sk_lookup p k = Some (map_of (sk_recs p ids) k)"
proof -
  obtain A B upd cand where f: "ids = A @ B" "\<forall>j \<in> set A. sk_node_key p j < k"
    "cand = (case B of [] \<Rightarrow> None | c # _ \<Rightarrow> Some c)" "\<forall>j \<in> set B. k \<le> sk_node_key p j"
    "\<forall>c B'. B = c # B' \<longrightarrow> (\<forall>j \<in> set B'. k < sk_node_key p j) \<and> sk_matches p k cand = (sk_node_key p c = k)"
    "B = [] \<longrightarrow> \<not> sk_matches p k cand"
    "sk_lookup p k = Some (if sk_matches p k cand then Some (sk_node_value p (the cand)) else None)"
    by (rule sk_find_rep [OF assms, of k]) blast
  show ?thesis
  proof (cases "sk_matches p k cand")
    case True
    then obtain c B' where B: "B = c # B'" using f(6) by (cases B) auto
    then have c: "sk_node_key p c = k" "\<forall>j \<in> set B'. k < sk_node_key p j" "cand = Some c" using True f(3,5) by auto
    note r = sk_recs_parts [OF assms f(1) [unfolded B] f(2) c(1,2)]
    show ?thesis using f(7) True c(3) map_of_sorted_parts(3) [OF r(2,3)] by (simp add: r(1))
  next
    case False
    have "\<forall>j \<in> set B. k < sk_node_key p j"
    proof (cases B)
      case (Cons c B')
      then show ?thesis using f(4,5) False by force
    qed simp
    then have "map_of (sk_recs p ids) k = None"
      using f(2) by (fastforce simp: f(1) sk_recs_def map_of_eq_None_iff)
    then show ?thesis using f(7) False by simp
  qed
qed

lemma sk_view_map: "sk_rep sh p ids \<Longrightarrow> sk_view p = map_of (sk_recs p ids)"
  by (simp add: sk_view_def sk_lookup_map fun_eq_iff)

section \<open>Setting links\<close>

text \<open>\<open>sk_same p p'\<close>: everything but the links is equal.\<close>
definition sk_same :: "skip_pool \<Rightarrow> skip_pool \<Rightarrow> bool" where
  "sk_same p p' \<longleftrightarrow> length (sk_nodes p') = length (sk_nodes p) \<and> sk_list_level p' = sk_list_level p
     \<and> sk_live_count p' = sk_live_count p
     \<and> (\<forall>j. sk_node_key p' j = sk_node_key p j \<and> sk_node_value p' j = sk_node_value p j
          \<and> sk_node_live p' j = sk_node_live p j \<and> sk_height p' j = sk_height p j)"

lemma sk_same_trans: "sk_same p q \<Longrightarrow> sk_same q r \<Longrightarrow> sk_same p r"
  by (simp add: sk_same_def)

lemma sk_same_refl: "sk_same p p"
  by (simp add: sk_same_def)

lemma sk_same_level: "sk_same p p' \<Longrightarrow> sk_level p' i ids = sk_level p i ids"
  by (simp add: sk_same_def sk_level_def)

lemma sk_same_set: "sk_same p (sk_set_forward_at x i t p)"
  by (auto simp: sk_same_def sk_defs sk_height_def nth_update_cases)

lemma sk_forward_set:
  "sk_forward_at (sk_set_forward_at x i t p) y j =
     (if y = x \<and> j = i \<and> x < length (sk_nodes p) \<and> i < sk_height p x then t else sk_forward_at p y j)"
  by (auto simp: sk_forward_at_def sk_set_forward_at_def sk_height_def nth_update_cases)

lemma sk_link_levels:
  assumes "\<forall>i < n. upd ! i < length (sk_nodes p) \<and> i < sk_height p (upd ! i) \<and> upd ! i \<noteq> idx"
    "idx < length (sk_nodes p)" "n \<le> sk_height p idx"
  shows "sk_same p (fold (sk_link_level idx upd) [0..<n] p) \<and>
    (\<forall>y i. sk_forward_at (fold (sk_link_level idx upd) [0..<n] p) y i =
       (if i < n \<and> y = idx then sk_forward_at p (upd ! i) i
        else if i < n \<and> y = upd ! i then Some idx else sk_forward_at p y i))"
  using assms
proof (induction n)
  case (Suc n)
  let ?q = "fold (sk_link_level idx upd) [0..<n] p"
  have q: "sk_same p ?q" "\<And>y i. sk_forward_at ?q y i =
       (if i < n \<and> y = idx then sk_forward_at p (upd ! i) i
        else if i < n \<and> y = upd ! i then Some idx else sk_forward_at p y i)"
    using Suc by auto
  have s: "sk_same ?q (sk_link_level idx upd n ?q)"
    unfolding sk_link_level_def Let_def by (rule sk_same_trans [OF sk_same_set sk_same_set])
  have b: "upd ! n < length (sk_nodes ?q)" "n < sk_height ?q (upd ! n)" "upd ! n \<noteq> idx"
    "idx < length (sk_nodes ?q)" "n < sk_height ?q idx"
    using Suc.prems q(1) by (auto simp: sk_same_def)
  have b': "upd ! n < length (sk_nodes (sk_set_forward_at idx n t ?q))" "n < sk_height (sk_set_forward_at idx n t ?q) (upd ! n)" for t
    using b(1,2) sk_same_set [of ?q idx n t] by (simp_all add: sk_same_def)
  have "sk_forward_at (sk_link_level idx upd n ?q) y i =
      (if i = n \<and> y = idx then sk_forward_at ?q (upd ! n) n
       else if i = n \<and> y = upd ! n then Some idx else sk_forward_at ?q y i)" for y i
    using b b' by (auto simp: sk_link_level_def Let_def sk_forward_set)
  then show ?case using sk_same_trans [OF q(1) s] by (auto simp: q(2) less_Suc_eq)
qed (simp add: sk_same_refl)

lemma sk_unlink_levels:
  assumes "\<forall>i < n. upd ! i < length (sk_nodes p) \<and> i < sk_height p (upd ! i)" "\<forall>i < n. upd ! i \<noteq> c"
  shows "sk_same p (fold (sk_unlink_level c upd) [0..<n] p) \<and>
    (\<forall>y i. sk_forward_at (fold (sk_unlink_level c upd) [0..<n] p) y i =
       (if i < n \<and> y = upd ! i \<and> sk_forward_at p (upd ! i) i = Some c then sk_forward_at p c i
        else sk_forward_at p y i))"
  using assms
proof (induction n)
  case (Suc n)
  let ?q = "fold (sk_unlink_level c upd) [0..<n] p"
  have q: "sk_same p ?q" "\<And>y i. sk_forward_at ?q y i =
       (if i < n \<and> y = upd ! i \<and> sk_forward_at p (upd ! i) i = Some c then sk_forward_at p c i else sk_forward_at p y i)"
    using Suc by auto
  have s: "sk_same ?q (sk_unlink_level c upd n ?q)"
    unfolding sk_unlink_level_def Let_def using sk_same_set sk_same_refl by auto
  have b: "upd ! n < length (sk_nodes ?q)" "n < sk_height ?q (upd ! n)"
    using Suc.prems q(1) by (auto simp: sk_same_def)
  have "sk_forward_at (sk_unlink_level c upd n ?q) y i =
      (if i = n \<and> y = upd ! n \<and> sk_forward_at ?q (upd ! n) n = Some c then sk_forward_at ?q c n
       else sk_forward_at ?q y i)" for y i
    using b by (auto simp: sk_unlink_level_def Let_def sk_forward_set)
  then show ?case using sk_same_trans [OF q(1) s] by (auto simp: q(2) less_Suc_eq)
qed (simp add: sk_same_refl)

section \<open>Insertion\<close>

lemma sk_draw_bounds:
  "sk_draw_loop sh g l = (l', g') \<Longrightarrow> l \<le> sk_max_level sh \<Longrightarrow> l \<le> l' \<and> l' \<le> sk_max_level sh"
proof (induction "sk_max_level sh - l" arbitrary: l g rule: less_induct)
  case less
  obtain x g1 where x: "mt_next g = (x, g1)" by fastforce
  show ?case
  proof (cases "sk_p_denominator sh - sk_p_numerator sh \<le> x AND (sk_p_denominator sh - 1) \<and> l < sk_max_level sh")
    case True
    then have "sk_draw_loop sh g1 (l + 1) = (l', g')" using less.prems(1) x by (simp add: sk_draw_loop.simps [of sh g l])
    moreover have "sk_max_level sh - (l + 1) < sk_max_level sh - l" using True by linarith
    ultimately show ?thesis using less.hyps [of "l + 1" g1] True by simp
  next
    case False
    then have "l' = l" using less.prems(1) x by (auto simp: sk_draw_loop.simps [of sh g l])
    then show ?thesis using less.prems(2) by simp
  qed
qed

lemma fold_set_range:
  "b \<le> length u \<Longrightarrow> length (fold (\<lambda>i u. u[i := h]) [a..<b] u) = length u
    \<and> (\<forall>i. fold (\<lambda>i u. u[i := h]) [a..<b] u ! i = (if a \<le> i \<and> i < b then h else u ! i))"
proof (induction b)
  case (Suc b)
  then show ?case by (cases "a \<le> b") (auto simp: nth_update_cases)
qed simp

text \<open>\<open>p'\<close> is \<open>p\<close> with a new node \<open>n\<close> of height \<open>lvl\<close> linked in before the first key above \<open>k\<close>.\<close>
definition sk_added :: "skip_shape \<Rightarrow> skip_pool \<Rightarrow> nat list \<Rightarrow> u64 \<Rightarrow> u64 \<Rightarrow> nat \<Rightarrow> skip_pool \<Rightarrow> bool" where
  "sk_added sh p ids k v lvl p' \<longleftrightarrow> (let n = length (sk_nodes p) in
     1 \<le> lvl \<and> lvl \<le> sk_max_level sh \<and> length (sk_nodes p') = Suc n
     \<and> sk_list_level p' = max lvl (sk_list_level p) \<and> sk_live_count p' = Suc (sk_live_count p)
     \<and> (\<forall>j < n. sk_node_key p' j = sk_node_key p j \<and> sk_node_value p' j = sk_node_value p j
          \<and> sk_node_live p' j = sk_node_live p j \<and> sk_height p' j = sk_height p j)
     \<and> sk_node_key p' n = k \<and> sk_node_value p' n = v \<and> sk_node_live p' n \<and> sk_height p' n = lvl
     \<and> (\<forall>i < lvl. sk_forward_at p' n i = sk_forward_at p (sk_pred p k i ids) i)
     \<and> (\<forall>i y. y < n \<longrightarrow> sk_forward_at p' y i =
          (if i < lvl \<and> y = sk_pred p k i ids then Some n else sk_forward_at p y i)))"

lemma sk_insert_added:
  assumes rep: "sk_rep sh p ids" and len: "length upd = sk_max_level sh"
    and upd: "\<forall>i < sk_max_level sh. i < sk_list_level p \<longrightarrow> upd ! i = sk_pred p k i ids"
    and fu: "sk_find_update sh p k = Some (cand, upd)" "\<not> sk_matches p k cand"
  shows "\<exists>p' lvl. sk_insert sh k v p = Some (Inr p') \<and> sk_added sh p ids k v lvl p'"
proof -
  let ?n = "length (sk_nodes p)"
  obtain lvl p1 where d: "sk_draw_level sh p = (lvl, p1)" by fastforce
  then obtain g where g: "sk_draw_loop sh (sk_rng p) 1 = (lvl, g)" "p1 = p\<lparr>sk_rng := g\<rparr>"
    by (auto simp: sk_draw_level_def split: prod.splits)
  have mx: "1 \<le> sk_max_level sh" by (cases sh) simp_all
  have lvl: "1 \<le> lvl" "lvl \<le> sk_max_level sh" using sk_draw_bounds [OF g(1) mx] by auto
  define u where "u = (if sk_list_level p < lvl then fold (\<lambda>i u. u[i := sk_head]) [sk_list_level p..<lvl] upd else upd)"
  define p2 where "p2 = p1\<lparr>sk_list_level := max lvl (sk_list_level p)\<rparr>"
  define p3 where "p3 = snd (sk_allocate_node k v lvl p2)"
  define p' where "p' = fold (sk_link_level ?n u) [0..<lvl] p3"
  have ins: "sk_insert sh k v p = Some (Inr p')"
  proof -
    have a: "sk_allocate_node k v lvl p2 = (?n, p3)" by (simp add: p3_def) (simp add: sk_allocate_node_def p2_def g(2))
    have u: "(if sk_list_level p1 < lvl
        then (fold (\<lambda>i u. u[i := sk_head]) [sk_list_level p1..<lvl] upd, p1\<lparr>sk_list_level := lvl\<rparr>)
        else (upd, p1)) = (u, p2)"
      by (auto simp: u_def p2_def g(2) max_def)
    show ?thesis unfolding p'_def by (simp add: sk_insert_def Let_def fu d u a)
  qed
  have pred: "u ! i = sk_pred p k i ids" if i: "i < lvl" for i
    using fold_set_range [of lvl upd sk_head "sk_list_level p"] lvl(2) len upd i sk_level_top [OF rep, of i]
    by (auto simp: u_def sk_pred_def sk_below_def sk_head_def not_less)
  have p3: "sk_nodes p3 = sk_nodes p @ [\<lparr>sk_key = k, sk_val = v, sk_live = True, sk_next = replicate lvl None\<rparr>]"
    "sk_list_level p3 = max lvl (sk_list_level p)" "sk_live_count p3 = Suc (sk_live_count p)"
    by (simp_all add: p3_def p2_def g(2) sk_allocate_node_def)
  have old: "sk_node_key p3 j = sk_node_key p j" "sk_node_value p3 j = sk_node_value p j"
    "sk_node_live p3 j = sk_node_live p j" "sk_height p3 j = sk_height p j"
    "sk_forward_at p3 j i = sk_forward_at p j i" if "j < ?n" for i j
    using that by (simp_all add: sk_node_key_def sk_node_value_def sk_node_live_def sk_height_def sk_forward_at_def p3 nth_append)
  have new: "sk_node_key p3 ?n = k" "sk_node_value p3 ?n = v" "sk_node_live p3 ?n" "sk_height p3 ?n = lvl"
    by (simp_all add: sk_node_key_def sk_node_value_def sk_node_live_def sk_height_def p3 nth_append)
  have pb: "u ! i < ?n" "i < sk_height p (u ! i)" if "i < lvl" for i
    using sk_pred_bounds [OF rep, of i k] pred [OF that] lvl(2) that by simp_all
  have pb3: "\<forall>i < lvl. u ! i < length (sk_nodes p3) \<and> i < sk_height p3 (u ! i) \<and> u ! i \<noteq> ?n"
    using pb old(4) by (fastforce simp: p3(1))
  have link: "sk_same p3 p'" "\<And>y i. sk_forward_at p' y i =
       (if i < lvl \<and> y = ?n then sk_forward_at p3 (u ! i) i
        else if i < lvl \<and> y = u ! i then Some ?n else sk_forward_at p3 y i)"
    using sk_link_levels [OF pb3] new(4) by (simp_all add: p3(1) p'_def)
  have "sk_added sh p ids k v lvl p'"
    unfolding sk_added_def Let_def
  proof (intro conjI allI impI lvl)
    fix i y assume "y < ?n"
    then show "sk_forward_at p' y i = (if i < lvl \<and> y = sk_pred p k i ids then Some ?n else sk_forward_at p y i)"
      using pred [of i] old(5) [of y i] by (simp add: link(2))
  next
    fix i assume "i < lvl"
    then show "sk_forward_at p' ?n i = sk_forward_at p (sk_pred p k i ids) i"
      using pred [of i] old(5) pb(1) [of i] by (simp add: link(2))
  qed (use link(1) old new p3 in \<open>simp_all add: sk_same_def\<close>)
  then show ?thesis using ins by blast
qed

lemma sk_sorted_cong: "\<forall>j \<in> set ids. sk_node_key p' j = sk_node_key p j \<Longrightarrow> sk_sorted p' ids = sk_sorted p ids"
  by (induction ids) (auto simp: sk_sorted_def)

lemma sk_sorted_append:
  "sk_sorted p (A @ B) \<longleftrightarrow> sk_sorted p A \<and> sk_sorted p B \<and> (\<forall>i \<in> set A. \<forall>j \<in> set B. sk_node_key p i < sk_node_key p j)"
  by (simp add: sk_sorted_def sorted_wrt_append)

lemma sk_sorted_Cons: "sk_sorted p (i # B) \<longleftrightarrow> sk_sorted p B \<and> (\<forall>j \<in> set B. sk_node_key p i < sk_node_key p j)"
  by (auto simp: sk_sorted_def)

text \<open>The predecessor splits its level at the key.\<close>
lemma sk_pred_split:
  assumes "ids = A @ B" "\<forall>j \<in> set A. sk_node_key p j < k" "\<forall>j \<in> set B. k \<le> sk_node_key p j"
  shows "sk_pred p k i ids = last (0 # sk_level p i A)"
proof -
  have "sk_below p k (sk_level p i ids) = sk_level p i A"
  proof -
    have "filter (\<lambda>j. sk_node_key p j < k) (sk_level p i A) = sk_level p i A"
      using assms(2) by (intro filter_True) (simp add: sk_level_def)
    moreover have "filter (\<lambda>j. sk_node_key p j < k) (sk_level p i B) = []"
      using assms(3) by (intro filter_False) (simp add: sk_level_def leD)
    moreover have "sk_level p i ids = sk_level p i A @ sk_level p i B" by (simp add: sk_level_def assms(1))
    ultimately show ?thesis by (simp add: sk_below_def)
  qed
  then show ?thesis by (simp add: sk_pred_def)
qed

lemma sk_level_append: "sk_level p i (A @ B) = sk_level p i A @ sk_level p i B"
  by (simp add: sk_level_def)

lemma sk_level_cong: "\<forall>j \<in> set ids. sk_height p' j = sk_height p j \<Longrightarrow> sk_level p' i ids = sk_level p i ids"
  unfolding sk_level_def by (intro filter_cong) auto

lemma sk_added_chain:
  assumes rep: "sk_rep sh p (A @ B)" and find: "\<forall>j \<in> set A. sk_node_key p j < k" "\<forall>j \<in> set B. k < sk_node_key p j"
    and add: "sk_added sh p (A @ B) k v lvl p'" and i: "i < sk_max_level sh"
  shows "sk_chain p' i 0 (sk_level p' i (A @ length (sk_nodes p) # B))"
proof -
  let ?n = "length (sk_nodes p)"
  note R = rep [unfolded sk_rep_def] and D = add [unfolded sk_added_def Let_def]
  have ids: "\<forall>j \<in> set (A @ B). 0 < j \<and> j < ?n" "0 < ?n" "distinct (A @ B)"
    using R sk_rep_distinct [OF rep] by blast+
  have h: "\<forall>j \<in> set A. sk_height p' j = sk_height p j" "\<forall>j \<in> set B. sk_height p' j = sk_height p j"
    using ids(1) D by auto
  have lv: "sk_level p' i (A @ ?n # B) = sk_level p i A @ (if i < lvl then [?n] else []) @ sk_level p i B"
    using D sk_level_cong [OF h(1)] sk_level_cong [OF h(2)] by (simp add: sk_level_def)
  have c: "sk_chain p i 0 (sk_level p i A @ sk_level p i B)"
    using R i by (simp add: sk_level_append)
  have pr: "sk_pred p k i (A @ B) = last (0 # sk_level p i A)"
    using find by (intro sk_pred_split) auto
  have dd: "distinct (0 # sk_level p i A @ sk_level p i B)"
    using ids(1,3) by (auto simp: sk_level_def)
  have ss: "\<forall>y \<in> set (0 # sk_level p i A @ sk_level p i B). y < ?n"
    using ids(1,2) by (auto simp: sk_level_def)
  have lt: "last (0 # sk_level p i A) < ?n" using ss last_in_set [of "0 # sk_level p i A"] by auto
  have fw: "sk_forward_at p' y i = (if i < lvl \<and> y = last (0 # sk_level p i A) then Some ?n else sk_forward_at p y i)"
    if "y < ?n" for y
    using D that unfolding pr [symmetric] by blast
  show ?thesis
  proof (cases "i < lvl")
    case True
    have "sk_chain p' i 0 (sk_level p i A @ ?n # sk_level p i B)"
    proof (rule sk_chain_insert [OF c dd])
      show "sk_forward_at p' ?n i = sk_forward_at p (last (0 # sk_level p i A)) i"
        using D True unfolding pr [symmetric] by blast
    qed (use fw [OF lt] fw True ss in auto)
    then show ?thesis using True by (simp add: lv)
  next
    case False
    have "sk_chain p' i 0 (sk_level p i A @ sk_level p i B)"
      by (rule sk_chain_cong [OF c]) (use False ss fw in simp)
    then show ?thesis using False by (simp add: lv)
  qed
qed

lemma sk_added_rep:
  assumes rep: "sk_rep sh p (A @ B)" and find: "\<forall>j \<in> set A. sk_node_key p j < k" "\<forall>j \<in> set B. k < sk_node_key p j"
    and add: "sk_added sh p (A @ B) k v lvl p'"
  shows "sk_rep sh p' (A @ length (sk_nodes p) # B)"
    "sk_recs p' (A @ length (sk_nodes p) # B) = sk_recs p A @ (k, v) # sk_recs p B"
proof -
  let ?n = "length (sk_nodes p)"
  note R = rep [unfolded sk_rep_def] and D = add [unfolded sk_added_def Let_def]
  have ids: "\<forall>j \<in> set A \<union> set B. 0 < j \<and> j < ?n" "0 < ?n" using R by auto
  have key: "\<forall>j \<in> set A \<union> set B. sk_node_key p' j = sk_node_key p j" "sk_node_key p' ?n = k"
    using ids(1) D by auto
  have "sk_sorted p' (A @ B)" using R sk_sorted_cong [of "A @ B" p' p] key(1) by simp
  then have srt: "sk_sorted p' (A @ ?n # B)"
    using find key by (simp add: sk_sorted_append sk_sorted_Cons)
  show "sk_rep sh p' (A @ ?n # B)"
    unfolding sk_rep_def
  proof (intro conjI srt allI impI sk_added_chain [OF rep find add])
    show "\<forall>j \<in> set (A @ ?n # B). 0 < j \<and> j < length (sk_nodes p') \<and> sk_node_live p' j
        \<and> 1 \<le> sk_height p' j \<and> sk_height p' j \<le> sk_list_level p'"
    proof
      fix j assume "j \<in> set (A @ ?n # B)"
      then consider "j = ?n" | "j \<in> set (A @ B)" by auto
      then show "0 < j \<and> j < length (sk_nodes p') \<and> sk_node_live p' j
        \<and> 1 \<le> sk_height p' j \<and> sk_height p' j \<le> sk_list_level p'"
      proof cases
        case 2
        then have "sk_node_live p j" "1 \<le> sk_height p j" "sk_height p j \<le> sk_list_level p" "0 < j" "j < ?n"
          using R by blast+
        then show ?thesis using D by simp
      qed (use D ids(2) in simp)
    qed
  qed (use R D ids(2) in auto)
  have "\<forall>j \<in> set A \<union> set B. sk_node_value p' j = sk_node_value p j" "sk_node_value p' ?n = v"
    using ids(1) D by auto
  then show "sk_recs p' (A @ ?n # B) = sk_recs p A @ (k, v) # sk_recs p B"
    using key by (auto simp: sk_recs_def)
qed

lemma sk_insert_update:
  assumes rep: "sk_rep sh p (A @ c # B)" and fu: "sk_find_update sh p k = Some (Some c, upd)" "sk_matches p k (Some c)"
  shows "sk_insert sh k v p = Some (Inr (sk_set_node_value c v p))" "sk_rep sh (sk_set_node_value c v p) (A @ c # B)"
    "sk_recs (sk_set_node_value c v p) (A @ c # B) = sk_recs p A @ (k, v) # sk_recs p B"
proof -
  let ?p' = "sk_set_node_value c v p"
  show "sk_insert sh k v p = Some (Inr ?p')" using fu by (simp add: sk_insert_def)
  have cl: "c < length (sk_nodes p)" using rep by (simp add: sk_rep_def)
  have same: "sk_node_key ?p' j = sk_node_key p j" "sk_node_live ?p' j = sk_node_live p j"
    "sk_height ?p' j = sk_height p j" "sk_forward_at ?p' j i = sk_forward_at p j i"
    "sk_node_value ?p' j = (if j = c then v else sk_node_value p j)" for i j
    using cl by (simp_all add: sk_defs sk_height_def nth_update_cases)
  have "sk_chain ?p' i x ids = sk_chain p i x ids" for i x ids
    by (induction ids arbitrary: x) (simp_all add: same)
  moreover have "length (sk_nodes ?p') = length (sk_nodes p)" "sk_list_level ?p' = sk_list_level p"
    "sk_live_count ?p' = sk_live_count p" "sk_nodes ?p' \<noteq> []" using cl by (auto simp: sk_set_node_value_def)
  ultimately show "sk_rep sh ?p' (A @ c # B)"
    using rep by (simp add: sk_rep_def sk_sorted_def sk_level_def same)
  have "distinct (A @ c # B)" by (rule sk_rep_distinct [OF rep])
  then show "sk_recs ?p' (A @ c # B) = sk_recs p A @ (k, v) # sk_recs p B"
    using fu(2) by (auto simp: sk_recs_def same sk_matches_def)
qed

section \<open>Erasure\<close>

lemma sk_lower_level_bounds:
  "sk_lower_level p l \<le> l \<and> (1 \<le> l \<longrightarrow> 1 \<le> sk_lower_level p l)
    \<and> (\<forall>i. sk_lower_level p l \<le> i \<and> i < l \<longrightarrow> sk_forward_at p 0 i = None)"
proof (induction p l rule: sk_lower_level.induct)
  case (2 p l)
  show ?case
  proof (cases "1 < Suc l \<and> sk_forward_at p sk_head l = None")
    case True
    then show ?thesis using 2 by (auto simp: sk_head_def less_Suc_eq)
  next
    case False
    then have "sk_lower_level p (Suc l) = Suc l" by (simp only: sk_lower_level.simps if_False)
    then show ?thesis by (auto simp del: sk_lower_level.simps)
  qed
qed simp

lemma sk_chain_empty: "sk_chain p i x ys \<Longrightarrow> sk_forward_at p x i = None \<Longrightarrow> ys = []"
  by (cases ys) auto

lemma sk_erase_chain:
  assumes rep: "sk_rep sh p (A @ c # B)" and find: "\<forall>j \<in> set A. sk_node_key p j < k" "\<forall>j \<in> set B. k < sk_node_key p j"
    "sk_node_key p c = k" and i: "i < sk_max_level sh"
    and fw: "\<And>y. sk_forward_at p' y i = (if i < sk_list_level p \<and> y = sk_pred p k i (A @ c # B)
      \<and> sk_forward_at p (sk_pred p k i (A @ c # B)) i = Some c then sk_forward_at p c i else sk_forward_at p y i)"
  shows "sk_chain p' i 0 (sk_level p i (A @ B))"
proof -
  note R = rep [unfolded sk_rep_def]
  have c: "sk_chain p i 0 (sk_level p i A @ sk_level p i (c # B))" using R i by (simp add: sk_level_append)
  have ids: "\<forall>j \<in> set (A @ c # B). 0 < j" "sk_height p c \<le> sk_list_level p" using R by simp_all
  have dist: "distinct (A @ c # B)" by (rule sk_rep_distinct [OF rep])
  have pr: "sk_pred p k i (A @ c # B) = last (0 # sk_level p i A)"
    using find by (intro sk_pred_split [where B = "c # B"]) auto
  have ch: "sk_chain p i (last (0 # sk_level p i A)) (sk_level p i (c # B))" by (rule sk_chain_append [OF c])
  have dd: "distinct (0 # sk_level p i A @ c # sk_level p i B)" using ids(1) dist by (auto simp: sk_level_def)
  show ?thesis
  proof (cases "i < sk_height p c")
    case True
    then have l: "sk_level p i (c # B) = c # sk_level p i B" by (simp add: sk_level_def)
    have "sk_forward_at p (last (0 # sk_level p i A)) i = Some c" using ch by (simp only: l sk_chain.simps)
    then have fw': "sk_forward_at p' y i = (if y = last (0 # sk_level p i A) then sk_forward_at p c i else sk_forward_at p y i)" for y
      using True ids(2) by (simp only: fw pr) auto
    show ?thesis unfolding sk_level_append
      by (rule sk_chain_delete [OF c [unfolded l] dd]) (simp_all only: fw' if_True, auto)
  next
    case False
    then have l: "sk_level p i (c # B) = sk_level p i B" by (simp add: sk_level_def)
    have "sk_forward_at p (last (0 # sk_level p i A)) i \<noteq> Some c"
      using ch dd unfolding l by (cases "sk_level p i B") auto
    then have "sk_forward_at p' y i = sk_forward_at p y i" for y by (simp only: fw pr) auto
    then show ?thesis unfolding sk_level_append by (intro sk_chain_cong [OF c [unfolded l]]) simp
  qed
qed

lemma sk_erase_present:
  assumes rep: "sk_rep sh p (A @ c # B)" and find: "\<forall>j \<in> set A. sk_node_key p j < k" "\<forall>j \<in> set B. k < sk_node_key p j"
    "sk_node_key p c = k" and upd: "\<forall>i < sk_max_level sh. i < sk_list_level p \<longrightarrow> upd ! i = sk_pred p k i (A @ c # B)"
    and fu: "sk_find_update sh p k = Some (Some c, upd)"
  shows "\<exists>p'. sk_erase sh k p = Some (True, p') \<and> sk_rep sh p' (A @ B) \<and> sk_recs p' (A @ B) = sk_recs p A @ sk_recs p B"
proof -
  note R = rep [unfolded sk_rep_def]
  have lv: "sk_list_level p \<le> sk_max_level sh" "1 \<le> sk_list_level p" using R by auto
  have c: "sk_node_live p c" "0 < c" "c < length (sk_nodes p)" using R by auto
  define p1 where "p1 = fold (sk_unlink_level c upd) [0..<sk_list_level p] p"
  define p2 where "p2 = sk_set_node_live c False p1"
  define p' where "p' = p2\<lparr>sk_list_level := sk_lower_level p2 (sk_list_level p2), sk_live_count := sk_live_count p2 - 1\<rparr>"
  have er: "sk_erase sh k p = Some (True, p')"
    using fu c(1) find(3) by (simp add: sk_erase_def sk_matches_def Let_def p'_def p2_def p1_def)
  have pb: "sk_pred p k i (A @ c # B) < length (sk_nodes p)" "i < sk_height p (sk_pred p k i (A @ c # B))"
    "sk_pred p k i (A @ c # B) \<noteq> c" if "i < sk_list_level p" for i
    using sk_pred_bounds [OF rep, of i k] that lv(1) find(3) c(2) by auto
  have un: "sk_same p p1" "\<And>y i. sk_forward_at p1 y i =
      (if i < sk_list_level p \<and> y = upd ! i \<and> sk_forward_at p (upd ! i) i = Some c then sk_forward_at p c i
       else sk_forward_at p y i)"
    using sk_unlink_levels [of "sk_list_level p" upd p c] pb upd lv(1) unfolding p1_def by auto
  have fields: "sk_node_key p' j = sk_node_key p j" "sk_node_value p' j = sk_node_value p j"
    "sk_height p' j = sk_height p j" "sk_node_live p' j = (if j = c then False else sk_node_live p j)"
    "sk_forward_at p' j i = sk_forward_at p1 j i" "length (sk_nodes p') = length (sk_nodes p)"
    "sk_live_count p' = sk_live_count p - 1" for i j
    using un(1) c(3) by (auto simp: p'_def p2_def sk_same_def sk_defs sk_height_def nth_update_cases)
  have dist: "distinct (A @ c # B)" by (rule sk_rep_distinct [OF rep])
  have chain: "sk_chain p' i 0 (sk_level p i (A @ B))" if i: "i < sk_max_level sh" for i
    using upd i by (intro sk_erase_chain [OF rep find i]) (auto simp: fields un(2))
  have low: "sk_list_level p' = sk_lower_level p2 (sk_list_level p)"
    using un(1) by (simp add: p'_def p2_def sk_same_def sk_set_node_live_def)
  have fw2: "sk_forward_at p2 y i = sk_forward_at p' y i" for y i by (simp add: p'_def sk_forward_at_def)
  have top: "sk_height p j \<le> sk_list_level p'" if j: "j \<in> set (A @ B)" for j
  proof (rule ccontr)
    assume n: "\<not> sk_height p j \<le> sk_list_level p'"
    let ?i = "sk_list_level p'"
    have h: "sk_height p j \<le> sk_list_level p" using R j by auto
    then have "?i < sk_list_level p" using n by simp
    then have "sk_forward_at p' 0 ?i = None"
      using sk_lower_level_bounds [of p2 "sk_list_level p"] low by (simp add: fw2)
    moreover have "?i < sk_max_level sh" using n h lv(1) by simp
    ultimately have "sk_level p ?i (A @ B) = []" using sk_chain_empty [OF chain] by blast
    then show False using j n by (auto simp: sk_level_def filter_empty_conv)
  qed
  have "sk_rep sh p' (A @ B)"
    unfolding sk_rep_def
  proof (intro conjI allI impI)
    show "sk_sorted p' (A @ B)" using R by (simp add: sk_sorted_def fields(1) sorted_wrt_append)
    show "sk_chain p' i 0 (sk_level p' i (A @ B))" if "i < sk_max_level sh" for i
      using chain [OF that] sk_level_cong [of "A @ B" p' p] by (simp add: fields(3))
    show "\<forall>j \<in> set (A @ B). 0 < j \<and> j < length (sk_nodes p') \<and> sk_node_live p' j
        \<and> 1 \<le> sk_height p' j \<and> sk_height p' j \<le> sk_list_level p'"
      using R dist top by (auto simp: fields)
    show "sk_nodes p' \<noteq> []" using fields(6) c(3) by auto
  qed (use R fields lv low sk_lower_level_bounds [of p2 "sk_list_level p"] in auto)
  moreover have "sk_recs p' (A @ B) = sk_recs p A @ sk_recs p B" by (simp add: sk_recs_def fields)
  ultimately show ?thesis using er by blast
qed

lemma sk_collect_chain:
  "sk_chain p 0 x ys \<Longrightarrow> \<forall>j \<in> set ys. sk_node_live p j \<Longrightarrow> sk_collect p (sk_forward_at p x 0) acc = Some (acc @ sk_recs p ys)"
proof (induction ys arbitrary: x acc)
  case (Cons y ys)
  then show ?case by (subst sk_collect.simps) (simp add: sk_recs_def)
qed (subst sk_collect.simps, simp add: sk_recs_def)

lemma sk_records_rep: "sk_rep sh p ids \<Longrightarrow> sk_records p = Some (sk_recs p ids)"
proof -
  assume r: "sk_rep sh p ids"
  have "0 < sk_max_level sh" by (cases sh) simp_all
  then have "sk_chain p 0 0 (sk_level p 0 ids)" using r unfolding sk_rep_def by blast
  then have "sk_chain p 0 0 ids" by (simp only: sk_level_0 [OF r])
  then show ?thesis using sk_collect_chain [of p 0 ids] r by (simp add: sk_records_def sk_head_def sk_rep_def)
qed

section \<open>The contract\<close>

lemma sk_rep_sorted: "sk_rep sh p ids \<Longrightarrow> sorted_wrt (<) (map fst (sk_recs p ids))"
  by (simp add: sk_rep_def sk_sorted_def sk_recs_def sorted_wrt_map comp_def)

lemma sk_insert_ok:
  assumes "sk_inv sh p"
  shows "\<exists>p'. sk_insert sh k v p = Some (Inr p') \<and> sk_inv sh p' \<and> sk_view p' = (sk_view p)(k \<mapsto> v)"
proof -
  obtain ids where rep: "sk_rep sh p ids" using assms by (auto simp: sk_inv_def)
  obtain A B upd cand where f: "ids = A @ B" "\<forall>j \<in> set A. sk_node_key p j < k"
    "cand = (case B of [] \<Rightarrow> None | c # _ \<Rightarrow> Some c)" "sk_find_update sh p k = Some (cand, upd)"
    "length upd = sk_max_level sh" "\<forall>i < sk_max_level sh. i < sk_list_level p \<longrightarrow> upd ! i = sk_pred p k i ids"
    "\<forall>j \<in> set B. k \<le> sk_node_key p j"
    "\<forall>c B'. B = c # B' \<longrightarrow> (\<forall>j \<in> set B'. k < sk_node_key p j) \<and> sk_matches p k cand = (sk_node_key p c = k)"
    "B = [] \<longrightarrow> \<not> sk_matches p k cand"
    by (rule sk_find_rep [OF rep, of k]) blast
  have A: "\<forall>x \<in> set (sk_recs p A). fst x < k" using f(2) by (simp add: sk_recs_def)
  show ?thesis
  proof (cases "sk_matches p k cand")
    case True
    then obtain c B' where B: "B = c # B'" using f(9) by (cases B) auto
    then have c: "cand = Some c" "sk_node_key p c = k" "\<forall>j \<in> set B'. k < sk_node_key p j" using f(3,8) True by auto
    note u = sk_insert_update [OF rep [unfolded f(1) B] f(4) [unfolded c(1)] True [unfolded c(1)], of v]
    have B': "\<forall>x \<in> set (sk_recs p B'). k < fst x" using c(3) by (simp add: sk_recs_def)
    have "sk_recs p ids = sk_recs p A @ (k, sk_node_value p c) # sk_recs p B'" by (simp add: f(1) B sk_recs_def c(2))
    then show ?thesis
      using u(1,2) sk_view_map [OF u(2)] sk_view_map [OF rep] map_of_sorted_parts(5) [OF A B'] u(3)
      unfolding sk_inv_def by auto
  next
    case False
    have B: "\<forall>j \<in> set B. k < sk_node_key p j"
    proof (cases B)
      case (Cons c B')
      then show ?thesis using f(7,8) False by force
    qed simp
    obtain p' lvl where i: "sk_insert sh k v p = Some (Inr p')" "sk_added sh p ids k v lvl p'"
      using sk_insert_added [OF rep f(5,6,4) False] by blast
    note r = sk_added_rep [OF rep [unfolded f(1)] f(2) B i(2) [unfolded f(1)]]
    have B': "\<forall>x \<in> set (sk_recs p B). k < fst x" using B by (simp add: sk_recs_def)
    have "sk_recs p ids = sk_recs p A @ sk_recs p B" by (simp add: f(1) sk_recs_def)
    then have "sk_view p' = (sk_view p)(k \<mapsto> v)"
      unfolding sk_view_map [OF r(1)] sk_view_map [OF rep] r(2) using map_of_sorted_parts(2) [OF A B'] by simp
    then show ?thesis using i(1) r(1) unfolding sk_inv_def by blast
  qed
qed

lemma sk_erase_ok:
  assumes "sk_inv sh p"
  shows "\<exists>p'. sk_erase sh k p = Some (sk_view p k \<noteq> None, p') \<and> sk_inv sh p' \<and> sk_view p' = (sk_view p)(k := None)"
proof -
  obtain ids where rep: "sk_rep sh p ids" using assms by (auto simp: sk_inv_def)
  obtain A B upd cand where f: "ids = A @ B" "\<forall>j \<in> set A. sk_node_key p j < k"
    "cand = (case B of [] \<Rightarrow> None | c # _ \<Rightarrow> Some c)" "sk_find_update sh p k = Some (cand, upd)"
    "\<forall>i < sk_max_level sh. i < sk_list_level p \<longrightarrow> upd ! i = sk_pred p k i ids"
    "\<forall>c B'. B = c # B' \<longrightarrow> (\<forall>j \<in> set B'. k < sk_node_key p j) \<and> sk_matches p k cand = (sk_node_key p c = k)"
    "B = [] \<longrightarrow> \<not> sk_matches p k cand"
    "sk_lookup p k = Some (if sk_matches p k cand then Some (sk_node_value p (the cand)) else None)"
    by (rule sk_find_rep [OF rep, of k]) blast
  show ?thesis
  proof (cases "sk_matches p k cand")
    case True
    then obtain c B' where B: "B = c # B'" using f(7) by (cases B) auto
    then have c: "cand = Some c" "sk_node_key p c = k" "\<forall>j \<in> set B'. k < sk_node_key p j" using f(3,6) True by auto
    obtain p' where e: "sk_erase sh k p = Some (True, p')" "sk_rep sh p' (A @ B')"
      "sk_recs p' (A @ B') = sk_recs p A @ sk_recs p B'"
      using sk_erase_present [OF rep [unfolded f(1) B] f(2) c(3,2) f(5) [unfolded f(1) B] f(4) [unfolded c(1)]] by blast
    have AB: "\<forall>x \<in> set (sk_recs p A). fst x < k" "\<forall>x \<in> set (sk_recs p B'). k < fst x"
      using f(2) c(3) by (simp_all add: sk_recs_def)
    have "sk_recs p ids = sk_recs p A @ (k, sk_node_value p c) # sk_recs p B'" by (simp add: f(1) B sk_recs_def c(2))
    then have "sk_view p' = (sk_view p)(k := None)"
      unfolding sk_view_map [OF e(2)] sk_view_map [OF rep] e(3) using map_of_sorted_parts(4) [OF AB] by simp
    moreover have "sk_view p k \<noteq> None" using f(8) True by (simp add: sk_view_def)
    ultimately show ?thesis using e(1,2) unfolding sk_inv_def by auto
  next
    case False
    then have "sk_erase sh k p = Some (False, p)" "sk_view p k = None"
      using f(4,8) by (simp_all add: sk_erase_def sk_view_def)
    then show ?thesis using assms by (simp add: fun_upd_idem)
  qed
qed

lemma sk_rep_count: "sk_rep sh p ids \<Longrightarrow> sk_live_count p = card (dom (sk_view p))"
proof -
  assume r: "sk_rep sh p ids"
  then have "distinct (map fst (sk_recs p ids))" using sk_rep_sorted strict_sorted_iff by blast
  then have "card (dom (map_of (sk_recs p ids))) = length ids" by (simp add: card_dom_map_of sk_recs_def)
  then show ?thesis using r by (simp add: sk_view_map [OF r] sk_rep_def)
qed

lemma sk_rep_empty:
  assumes "sk_nodes p = [n]" "sk_next n = replicate (sk_max_level sh) None" "sk_list_level p = 1" "sk_live_count p = 0"
  shows "sk_rep sh p []"
proof -
  have "1 \<le> sk_max_level sh" by (cases sh) simp_all
  then show ?thesis using assms by (simp add: sk_rep_def sk_sorted_def sk_level_def sk_height_def sk_forward_at_def)
qed

lemma sk_clear_rep:
  assumes "sk_inv sh p"
  shows "sk_rep sh (sk_clear p) []"
proof -
  have "length (sk_next (sk_nodes p ! 0)) = sk_max_level sh" using assms by (auto simp: sk_inv_def sk_rep_def sk_height_def)
  then show ?thesis
    by (intro sk_rep_empty [where n = "(sk_nodes p ! 0)\<lparr>sk_next := replicate (sk_max_level sh) None\<rparr>"])
      (simp_all add: sk_clear_def sk_head_def map_replicate_const)
qed

interpretation skip: pool_map "sk_inv sh" sk_lookup "sk_insert sh" "sk_erase sh" sk_live_count sk_clear sk_view
  "\<lambda>_. False" for sh
proof
  fix p k v
  assume i: "sk_inv sh p"
  then obtain ids where r: "sk_rep sh p ids" by (auto simp: sk_inv_def)
  show "sk_lookup p k = Some (sk_view p k)" by (simp add: sk_view_def sk_lookup_map [OF r])
  show "sk_live_count p = card (dom (sk_view p))" by (rule sk_rep_count [OF r])
  show "\<exists>p'. sk_erase sh k p = Some (sk_view p k \<noteq> None, p') \<and> sk_inv sh p' \<and> sk_view p' = (sk_view p)(k := None)"
    by (rule sk_erase_ok [OF i])
  show "sk_inv sh (sk_clear p) \<and> sk_view (sk_clear p) = Map.empty"
    using sk_clear_rep [OF i] sk_view_map [OF sk_clear_rep [OF i]] by (auto simp: sk_inv_def sk_recs_def)
  show "\<exists>p'. sk_insert sh k v p = Some (Inr p') \<and> sk_inv sh p' \<and> sk_view p' = (sk_view p)(k \<mapsto> v)"
    by (rule sk_insert_ok [OF i])
qed simp

lemma sk_init_ok: "sk_inv sh (sk_init sh)" "sk_view (sk_init sh) = Map.empty"
proof -
  have e: "sk_rep sh (sk_init sh) []" 
    by (rule sk_rep_empty [where n = "sk_head_node sh"]) (simp_all add: sk_init_def sk_head_node_def)
  then show "sk_inv sh (sk_init sh)" by (auto simp: sk_inv_def)
  show "sk_view (sk_init sh) = Map.empty" by (simp add: sk_view_map [OF e] sk_recs_def)
qed

lemma sk_rep_entries: "sk_rep sh p ids \<Longrightarrow> sk_records p = Some (map_entries (sk_view p))"
  by (simp add: sk_records_rep sk_view_map map_entries_map_of [OF sk_rep_sorted])

section \<open>Properties\<close>

text \<open>C12: For every shape, every sequence of calls on an initially empty \<^verbatim>\<open>ComposedSkipListSearch\<close>
  returns and answers like a finite map, whatever heights the generator draws; and the bottom level
  then lists the entries of that map in key order.\<close>
theorem skip_list_refines_map:
  "\<exists>rs p. pool_run sk_lookup (sk_insert sh) (sk_erase sh) sk_live_count sk_clear ops (sk_init sh) = Some (rs, p)
     \<and> rs = map Inr (fst (spec_map_run ops Map.empty))
     \<and> sk_records p = Some (map_entries (snd (spec_map_run ops Map.empty)))"
proof -
  obtain rs p where r: "pool_run sk_lookup (sk_insert sh) (sk_erase sh) sk_live_count sk_clear ops (sk_init sh)
      = Some (rs, p)" "sk_inv sh p" "spec_pool_run (\<lambda>_. False) ops Map.empty = Some (rs, sk_view p)"
    using skip.run_refines [OF sk_init_ok(1) [of sh], of ops] sk_init_ok(2) [of sh] by auto
  show ?thesis using r spec_pool_run_total [of ops Map.empty] sk_rep_entries by (auto simp: sk_inv_def)
qed

end
