(* ===== verification/BTree_Nodes.thy ===== *)
theory BTree_Nodes imports Pool_Contract begin

text \<open>
  The B-tree's node pool: \<^verbatim>\<open>BTreeNodePoolStore\<close> with the orders of \<^verbatim>\<open>axis_btree_order\<close>, and the
  operations of \<^verbatim>\<open>BTreeTraversalOrgan\<close> that move entries between neighbouring nodes (splitting,
  borrowing, merging).  Nodes hold arrays of fixed length of which a prefix is in use; the loops that
  shift and copy array cells are folds over the indices they visit, in their order.

  A node's content is its records \<open>bn_recs\<close> and its children \<open>bn_kids\<close>.  Each operation is
  characterised by the contents of the nodes it writes; all other nodes stay as they are.
\<close>

section \<open>The pool\<close>

datatype bt_order = Kt2 | Kt3 | Kt4 | Kt8 | Kt16

primrec bt_T :: "bt_order \<Rightarrow> nat" where
  "bt_T Kt2 = 2"
| "bt_T Kt3 = 3"
| "bt_T Kt4 = 4"
| "bt_T Kt8 = 8"
| "bt_T Kt16 = 16"

definition bt_max_keys :: "bt_order \<Rightarrow> nat" where "bt_max_keys sh = 2 * bt_T sh - 1"
definition bt_max_children :: "bt_order \<Rightarrow> nat" where "bt_max_children sh = 2 * bt_T sh"

lemma bt_T_bounds: "2 \<le> bt_T sh" "bt_T sh \<le> 16"
  by (cases sh; simp)+

record bt_node =
  bn_n :: "16 word"
  bn_leaf :: bool
  bn_key :: "u64 list"
  bn_val :: "u64 list"
  bn_child :: "nat list"

record bt_pool =
  bp_nodes :: "bt_node list"
  bp_free :: "nat list"
  bp_root :: nat
  bp_size :: nat

definition bt_nil :: nat where "bt_nil = 0xFFFFFFFF"

text \<open>\<^verbatim>\<open>Node{}\<close>\<close>
definition bt_blank :: "bt_order \<Rightarrow> bt_node" where
  "bt_blank sh = \<lparr>bn_n = 0, bn_leaf = True, bn_key = replicate (bt_max_keys sh) 0, bn_val = replicate (bt_max_keys sh) 0,
     bn_child = replicate (bt_max_children sh) 0\<rparr>"

definition bp_init :: bt_pool where
  "bp_init = \<lparr>bp_nodes = [], bp_free = [], bp_root = bt_nil, bp_size = 0\<rparr>"

definition bp_assign :: "bt_pool \<Rightarrow> bt_pool \<Rightarrow> bt_pool" where
  "bp_assign self src = self\<lparr>bp_nodes := bp_nodes src, bp_free := bp_free src, bp_root := bp_root src, bp_size := bp_size src\<rparr>"

definition pool_node_count :: "bt_pool \<Rightarrow> nat" where "pool_node_count p = length (bp_nodes p) - length (bp_free p)"
definition node_n :: "bt_pool \<Rightarrow> nat \<Rightarrow> nat" where "node_n p i = nat (sint (bn_n (bp_nodes p ! i)))"
definition node_leaf :: "bt_pool \<Rightarrow> nat \<Rightarrow> bool" where "node_leaf p i = bn_leaf (bp_nodes p ! i)"
definition node_key_at :: "bt_pool \<Rightarrow> nat \<Rightarrow> nat \<Rightarrow> u64" where "node_key_at p i j = bn_key (bp_nodes p ! i) ! j"
definition node_value_at :: "bt_pool \<Rightarrow> nat \<Rightarrow> nat \<Rightarrow> u64" where "node_value_at p i j = bn_val (bp_nodes p ! i) ! j"
definition node_child_at :: "bt_pool \<Rightarrow> nat \<Rightarrow> nat \<Rightarrow> nat" where "node_child_at p i j = bn_child (bp_nodes p ! i) ! j"

definition upd_node :: "nat \<Rightarrow> (bt_node \<Rightarrow> bt_node) \<Rightarrow> bt_pool \<Rightarrow> bt_pool" where
  "upd_node i f p = p\<lparr>bp_nodes := (bp_nodes p)[i := f (bp_nodes p ! i)]\<rparr>"

definition new_node :: "bt_order \<Rightarrow> bool \<Rightarrow> bt_pool \<Rightarrow> nat \<times> bt_pool" where
  "new_node sh leaf p =
     (let (idx, p1) = (if bp_free p \<noteq> []
            then (last (bp_free p), p\<lparr>bp_free := butlast (bp_free p), bp_nodes := (bp_nodes p)[last (bp_free p) := bt_blank sh]\<rparr>)
            else (length (bp_nodes p), p\<lparr>bp_nodes := bp_nodes p @ [bt_blank sh]\<rparr>))
      in (idx, upd_node idx (\<lambda>n. n\<lparr>bn_leaf := leaf, bn_child := map (\<lambda>_. bt_nil) (bn_child n)\<rparr>) p1))"

definition bt_free_node :: "nat \<Rightarrow> bt_pool \<Rightarrow> bt_pool" where "bt_free_node i p = p\<lparr>bp_free := bp_free p @ [i]\<rparr>"
definition bt_set_root :: "nat \<Rightarrow> bt_pool \<Rightarrow> bt_pool" where "bt_set_root i p = p\<lparr>bp_root := i\<rparr>"
definition set_node_n :: "nat \<Rightarrow> nat \<Rightarrow> bt_pool \<Rightarrow> bt_pool" where
  "set_node_n i n = upd_node i (\<lambda>x. x\<lparr>bn_n := word_of_nat n\<rparr>)"
definition set_node_leaf :: "nat \<Rightarrow> bool \<Rightarrow> bt_pool \<Rightarrow> bt_pool" where
  "set_node_leaf i b = upd_node i (\<lambda>x. x\<lparr>bn_leaf := b\<rparr>)"
definition set_node_key_at :: "nat \<Rightarrow> nat \<Rightarrow> u64 \<Rightarrow> bt_pool \<Rightarrow> bt_pool" where
  "set_node_key_at i j k = upd_node i (\<lambda>x. x\<lparr>bn_key := (bn_key x)[j := k]\<rparr>)"
definition set_node_value_at :: "nat \<Rightarrow> nat \<Rightarrow> u64 \<Rightarrow> bt_pool \<Rightarrow> bt_pool" where
  "set_node_value_at i j v = upd_node i (\<lambda>x. x\<lparr>bn_val := (bn_val x)[j := v]\<rparr>)"
definition set_node_child_at :: "nat \<Rightarrow> nat \<Rightarrow> nat \<Rightarrow> bt_pool \<Rightarrow> bt_pool" where
  "set_node_child_at i j c = upd_node i (\<lambda>x. x\<lparr>bn_child := (bn_child x)[j := c mod 2 ^ 32]\<rparr>)"
definition inc_size :: "bt_pool \<Rightarrow> bt_pool" where "inc_size p = p\<lparr>bp_size := bp_size p + 1\<rparr>"
definition dec_size :: "bt_pool \<Rightarrow> bt_pool" where "dec_size p = p\<lparr>bp_size := bp_size p - 1\<rparr>"

definition bp_clear :: "bt_pool \<Rightarrow> bt_pool" where
  "bp_clear p = p\<lparr>bp_nodes := [], bp_free := [], bp_root := bt_nil, bp_size := 0\<rparr>"

section \<open>Moving entries\<close>

text \<open>The two assignments of the copying loops: a record to place \<open>d\<close> of node \<open>z\<close> from place \<open>s\<close> of node \<open>y\<close>;
  and the assignment of a child.\<close>
definition move_rec :: "nat \<Rightarrow> nat \<Rightarrow> nat \<Rightarrow> nat \<Rightarrow> bt_pool \<Rightarrow> bt_pool" where
  "move_rec z d y s p =
     (let p1 = set_node_key_at z d (node_key_at p y s) p in set_node_value_at z d (node_value_at p1 y s) p1)"

definition move_kid :: "nat \<Rightarrow> nat \<Rightarrow> nat \<Rightarrow> nat \<Rightarrow> bt_pool \<Rightarrow> bt_pool" where
  "move_kid z d y s p = set_node_child_at z d (node_child_at p y s) p"

definition set_rec :: "nat \<Rightarrow> nat \<Rightarrow> slot \<Rightarrow> bt_pool \<Rightarrow> bt_pool" where
  "set_rec x i kv p = set_node_value_at x i (snd kv) (set_node_key_at x i (fst kv) p)"

definition split_child :: "bt_order \<Rightarrow> nat \<Rightarrow> nat \<Rightarrow> bt_pool \<Rightarrow> bt_pool" where
  "split_child sh x_idx i p =
     (let T = bt_T sh;
          y_idx = node_child_at p x_idx i;
          y_leaf = node_leaf p y_idx;
          (z_idx, p) = new_node sh y_leaf p;
          p = set_node_n z_idx (T - 1) p;
          p = fold (\<lambda>j. move_rec z_idx j y_idx (j + T)) [0..<T - 1] p;
          p = (if \<not> y_leaf then fold (\<lambda>j. move_kid z_idx j y_idx (j + T)) [0..<T] p else p);
          med = (node_key_at p y_idx (T - 1), node_value_at p y_idx (T - 1));
          p = set_node_n y_idx (T - 1) p;
          xn = node_n p x_idx;
          p = fold (\<lambda>j. move_kid x_idx (j + 1) x_idx j) (rev [i + 1..<xn + 1]) p;
          p = set_node_child_at x_idx (i + 1) z_idx p;
          p = fold (\<lambda>j. move_rec x_idx (j + 1) x_idx j) (rev [i..<xn]) p;
          p = set_rec x_idx i med p
      in set_node_n x_idx (xn + 1) p)"

definition borrow_from_prev :: "nat \<Rightarrow> nat \<Rightarrow> bt_pool \<Rightarrow> bt_pool" where
  "borrow_from_prev x_idx idx p =
     (let child = node_child_at p x_idx idx;
          sib = node_child_at p x_idx (idx - 1);
          cn = node_n p child;
          sn = node_n p sib;
          p = fold (\<lambda>i. move_rec child (i + 1) child i) (rev [0..<cn]) p;
          p = (if \<not> node_leaf p child then fold (\<lambda>i. move_kid child (i + 1) child i) (rev [0..<cn + 1]) p else p);
          p = move_rec child 0 x_idx (idx - 1) p;
          p = (if \<not> node_leaf p child then move_kid child 0 sib sn p else p);
          p = move_rec x_idx (idx - 1) sib (sn - 1) p;
          p = set_node_n child (cn + 1) p
      in set_node_n sib (sn - 1) p)"

definition borrow_from_next :: "nat \<Rightarrow> nat \<Rightarrow> bt_pool \<Rightarrow> bt_pool" where
  "borrow_from_next x_idx idx p =
     (let child = node_child_at p x_idx idx;
          sib = node_child_at p x_idx (idx + 1);
          cn = node_n p child;
          sn = node_n p sib;
          p = move_rec child cn x_idx idx p;
          p = (if \<not> node_leaf p child then move_kid child (cn + 1) sib 0 p else p);
          p = move_rec x_idx idx sib 0 p;
          p = fold (\<lambda>i. move_rec sib (i - 1) sib i) [1..<sn] p;
          p = (if \<not> node_leaf p sib then fold (\<lambda>i. move_kid sib (i - 1) sib i) [1..<sn + 1] p else p);
          p = set_node_n child (cn + 1) p
      in set_node_n sib (sn - 1) p)"

definition bt_merge :: "bt_order \<Rightarrow> nat \<Rightarrow> nat \<Rightarrow> bt_pool \<Rightarrow> bt_pool" where
  "bt_merge sh x_idx idx p =
     (let T = bt_T sh;
          sib_idx = node_child_at p x_idx (idx + 1);
          child = node_child_at p x_idx idx;
          sn = node_n p sib_idx;
          xn = node_n p x_idx;
          p = move_rec child (T - 1) x_idx idx p;
          p = fold (\<lambda>i. move_rec child (i + T) sib_idx i) [0..<sn] p;
          p = (if \<not> node_leaf p child then fold (\<lambda>i. move_kid child (i + T) sib_idx i) [0..<sn + 1] p else p);
          p = fold (\<lambda>i. move_rec x_idx (i - 1) x_idx i) [idx + 1..<xn] p;
          p = fold (\<lambda>i. move_kid x_idx (i - 1) x_idx i) [idx + 2..<xn + 1] p;
          cn = node_n p child;
          p = set_node_n child (cn + sn + 1) p;
          p = set_node_n x_idx (xn - 1) p
      in bt_free_node sib_idx p)"

definition bt_fill :: "bt_order \<Rightarrow> nat \<Rightarrow> nat \<Rightarrow> bt_pool \<Rightarrow> bt_pool" where
  "bt_fill sh x_idx idx p =
     (let T = bt_T sh; xn = node_n p x_idx
      in if idx \<noteq> 0 \<and> T \<le> node_n p (node_child_at p x_idx (idx - 1)) then borrow_from_prev x_idx idx p
         else if idx \<noteq> xn \<and> T \<le> node_n p (node_child_at p x_idx (idx + 1)) then borrow_from_next x_idx idx p
         else if idx \<noteq> xn then bt_merge sh x_idx idx p
         else bt_merge sh x_idx (idx - 1) p)"

text \<open>The leaf cases of \<^verbatim>\<open>insert_nonfull\<close> and \<^verbatim>\<open>remove_from\<close>.  The loop variable \<open>i\<close> of the code, which runs
  down to \<open>-1\<close>, is \<open>m - 1\<close> here.\<close>
fun leaf_shift :: "nat \<Rightarrow> u64 \<Rightarrow> nat \<Rightarrow> bt_pool \<Rightarrow> nat \<times> bt_pool" where
  "leaf_shift x k 0 p = (0, p)"
| "leaf_shift x k (Suc i) p = (if k < node_key_at p x i then leaf_shift x k i (move_rec x (i + 1) x i p) else (Suc i, p))"

definition leaf_insert :: "nat \<Rightarrow> u64 \<Rightarrow> u64 \<Rightarrow> bt_pool \<Rightarrow> bt_pool" where
  "leaf_insert x k v p =
     (let xn = node_n p x; (m, p) = leaf_shift x k xn p
      in set_node_n x (xn + 1) (set_node_value_at x m v (set_node_key_at x m k p)))"

definition leaf_remove :: "nat \<Rightarrow> nat \<Rightarrow> bt_pool \<Rightarrow> bt_pool" where
  "leaf_remove x idx p =
     (let xn = node_n p x in set_node_n x (xn - 1) (fold (\<lambda>i. move_rec x (i - 1) x i) [idx + 1..<xn] p))"

text \<open>The loop \<^verbatim>\<open>while (i < n && k > p.node_key_at(cur, i)) ++i\<close>.\<close>
function find_key :: "bt_pool \<Rightarrow> nat \<Rightarrow> u64 \<Rightarrow> nat \<Rightarrow> nat" where
  "find_key p x k i = (if i < node_n p x \<and> node_key_at p x i < k then find_key p x k (i + 1) else i)"
  by pat_completeness auto
termination by (relation "measure (\<lambda>(p, x, k, i). node_n p x - i)") auto

declare find_key.simps [simp del]

text \<open>The loop \<^verbatim>\<open>while (i >= 0 && k < p.node_key_at(x, i)) --i; ++i\<close> from \<open>m - 1\<close> on.\<close>
fun descend_index :: "bt_pool \<Rightarrow> nat \<Rightarrow> u64 \<Rightarrow> nat \<Rightarrow> nat" where
  "descend_index p x k 0 = 0"
| "descend_index p x k (Suc i) = (if k < node_key_at p x i then descend_index p x k i else Suc i)"

section \<open>Reading a node\<close>

text \<open>The record array, the child array and the count of the node at an index, and the record prefix and the
  child prefix in use.\<close>
definition bt_arr :: "bt_pool \<Rightarrow> nat \<Rightarrow> slot list" where
  "bt_arr p i = zip (bn_key (bp_nodes p ! i)) (bn_val (bp_nodes p ! i))"

definition bt_kid :: "bt_pool \<Rightarrow> nat \<Rightarrow> nat list" where
  "bt_kid p i = bn_child (bp_nodes p ! i)"

definition bt_recs :: "bt_pool \<Rightarrow> nat \<Rightarrow> slot list" where
  "bt_recs p i = take (node_n p i) (bt_arr p i)"

definition bt_kids :: "bt_pool \<Rightarrow> nat \<Rightarrow> nat list" where
  "bt_kids p i = (if node_leaf p i then [] else take (node_n p i + 1) (bt_kid p i))"

text \<open>Every node's arrays agree in length and its children are 32-bit values.\<close>
definition bn_good :: "bt_node \<Rightarrow> bool" where
  "bn_good n \<longleftrightarrow> length (bn_key n) = length (bn_val n) \<and> (\<forall>c \<in> set (bn_child n). c < 2 ^ 32)"

definition bt_good :: "bt_pool \<Rightarrow> bool" where
  "bt_good p \<longleftrightarrow> (\<forall>n \<in> set (bp_nodes p). bn_good n)"

lemma bp_upd_node [simp]:
  "length (bp_nodes (upd_node i f p)) = length (bp_nodes p)" "bp_free (upd_node i f p) = bp_free p"
  "bp_root (upd_node i f p) = bp_root p" "bp_size (upd_node i f p) = bp_size p"
  by (simp_all add: upd_node_def)

lemma nth_upd_node: "i < length (bp_nodes p) \<Longrightarrow>
  bp_nodes (upd_node i f p) ! j = (if j = i then f (bp_nodes p ! i) else bp_nodes p ! j)"
  by (simp add: upd_node_def nth_update_cases)

lemma bt_good_upd:
  assumes g: "bt_good p" and f: "\<And>n. bn_good n \<Longrightarrow> bn_good (f n)"
  shows "bt_good (upd_node i f p)"
proof (cases "i < length (bp_nodes p)")
  case True
  then have "bn_good (f (bp_nodes p ! i))" using g f by (simp add: bt_good_def)
  then show ?thesis using g set_update_subset_insert [of "bp_nodes p" i "f (bp_nodes p ! i)"]
    unfolding bt_good_def upd_node_def by auto
next
  case False
  then show ?thesis using g by (simp add: upd_node_def list_update_beyond)
qed

lemma length_arr: "bt_good p \<Longrightarrow> i < length (bp_nodes p) \<Longrightarrow> length (bt_arr p i) = length (bn_key (bp_nodes p ! i))
    \<and> length (bn_val (bp_nodes p ! i)) = length (bn_key (bp_nodes p ! i))"
  by (simp add: bt_arr_def bt_good_def bn_good_def)

lemmas node_read_defs = node_n_def node_leaf_def bt_arr_def bt_kid_def

subsection \<open>The assignments\<close>

lemma pool_of_set [simp]:
  "length (bp_nodes (set_node_n i n p)) = length (bp_nodes p)" "bp_free (set_node_n i n p) = bp_free p"
  "bp_root (set_node_n i n p) = bp_root p" "bp_size (set_node_n i n p) = bp_size p"
  "length (bp_nodes (set_node_child_at i j c p)) = length (bp_nodes p)" "bp_free (set_node_child_at i j c p) = bp_free p"
  "bp_root (set_node_child_at i j c p) = bp_root p" "bp_size (set_node_child_at i j c p) = bp_size p"
  "length (bp_nodes (set_rec i j kv p)) = length (bp_nodes p)" "bp_free (set_rec i j kv p) = bp_free p"
  "bp_root (set_rec i j kv p) = bp_root p" "bp_size (set_rec i j kv p) = bp_size p"
  by (simp_all add: set_node_n_def set_node_child_at_def set_rec_def set_node_key_at_def set_node_value_at_def)

lemma good_of_set [simp]:
  "bt_good p \<Longrightarrow> bt_good (set_node_n i n p)" "bt_good p \<Longrightarrow> bt_good (set_node_child_at i j c p)"
  "bt_good p \<Longrightarrow> bt_good (set_rec i j kv p)"
proof -
  assume g: "bt_good p"
  show "bt_good (set_node_n i n p)" unfolding set_node_n_def by (rule bt_good_upd [OF g]) (simp add: bn_good_def)
  show "bt_good (set_node_child_at i j c p)" unfolding set_node_child_at_def
    by (rule bt_good_upd [OF g]) (auto simp: bn_good_def dest!: set_update_subset_insert [THEN subsetD])
  have "bt_good (set_node_key_at i j (fst kv) p)"
    unfolding set_node_key_at_def by (rule bt_good_upd [OF g]) (simp add: bn_good_def)
  then show "bt_good (set_rec i j kv p)"
    unfolding set_rec_def set_node_value_at_def by (rule bt_good_upd) (simp add: bn_good_def)
qed

lemma read_set_n:
  assumes "i < length (bp_nodes p)"
  shows "n < 2 ^ 15 \<Longrightarrow> node_n (set_node_n i n p) j = (if j = i then n else node_n p j)"
    "node_leaf (set_node_n i n p) j = node_leaf p j" "bt_arr (set_node_n i n p) j = bt_arr p j"
    "bt_kid (set_node_n i n p) j = bt_kid p j"
proof -
  show "node_n (set_node_n i n p) j = (if j = i then n else node_n p j)" if "n < 2 ^ 15"
    using that assms
    by (simp add: set_node_n_def node_n_def nth_upd_node signed_of_nat signed_take_bit_int_eq_self)
qed (use assms in \<open>simp_all add: set_node_n_def node_read_defs nth_upd_node\<close>)

lemma read_set_child:
  assumes "i < length (bp_nodes p)"
  shows "node_n (set_node_child_at i j c p) m = node_n p m" "node_leaf (set_node_child_at i j c p) m = node_leaf p m"
    "bt_arr (set_node_child_at i j c p) m = bt_arr p m"
    "c < 2 ^ 32 \<Longrightarrow> bt_kid (set_node_child_at i j c p) m = (if m = i then (bt_kid p i)[j := c] else bt_kid p m)"
  using assms by (simp_all add: set_node_child_at_def node_read_defs nth_upd_node)

lemma read_set_rec:
  assumes "i < length (bp_nodes p)"
  shows "node_n (set_rec i j kv p) m = node_n p m" "node_leaf (set_rec i j kv p) m = node_leaf p m"
    "bt_arr (set_rec i j kv p) m = (if m = i then (bt_arr p i)[j := kv] else bt_arr p m)"
    "bt_kid (set_rec i j kv p) m = bt_kid p m"
  using assms
  by (simp_all add: set_rec_def set_node_key_at_def set_node_value_at_def node_read_defs nth_upd_node zip_update)

lemma move_rec_set:
  assumes "bt_good p" "z < length (bp_nodes p)" "y < length (bp_nodes p)" "s < length (bt_arr p y)"
  shows "move_rec z d y s p = set_rec z d (bt_arr p y ! s) p"
proof -
  have "bt_arr p y ! s = (node_key_at p y s, node_value_at p y s)"
    using assms length_arr [OF assms(1,3)] by (simp add: bt_arr_def node_key_at_def node_value_at_def)
  moreover have "node_value_at (set_node_key_at z d k p) y s = node_value_at p y s" for k
    using assms(2) by (simp add: node_value_at_def set_node_key_at_def nth_upd_node)
  ultimately show ?thesis by (simp add: move_rec_def set_rec_def Let_def)
qed

lemma move_kid_set:
  "move_kid z d y s p = set_node_child_at z d (bt_kid p y ! s) p"
  by (simp add: move_kid_def bt_kid_def node_child_at_def)

lemma kid_bound:
  assumes "bt_good p" "y < length (bp_nodes p)" "s < length (bt_kid p y)"
  shows "bt_kid p y ! s < 2 ^ 32"
proof -
  have "bn_good (bp_nodes p ! y)" using assms(1,2) by (simp add: bt_good_def)
  moreover have "bt_kid p y ! s \<in> set (bn_child (bp_nodes p ! y))" using assms(3) by (simp add: bt_kid_def)
  ultimately show ?thesis by (simp only: bn_good_def)
qed

text \<open>What the moves leave alone.\<close>
lemma upd_other: "i \<noteq> j \<Longrightarrow> bp_nodes (upd_node i f p) ! j = bp_nodes p ! j"
  by (simp add: upd_node_def)

lemma upd_proj: "(\<And>n. g (f n) = g n) \<Longrightarrow> g (bp_nodes (upd_node i f p) ! j) = g (bp_nodes p ! j)"
  by (simp add: upd_node_def nth_update_cases)

lemma pool_of_move [simp]:
  "length (bp_nodes (move_rec z d y s p)) = length (bp_nodes p)" "bp_free (move_rec z d y s p) = bp_free p"
  "bp_root (move_rec z d y s p) = bp_root p" "bp_size (move_rec z d y s p) = bp_size p"
  "length (bp_nodes (move_kid z d y s p)) = length (bp_nodes p)" "bp_free (move_kid z d y s p) = bp_free p"
  "bp_root (move_kid z d y s p) = bp_root p" "bp_size (move_kid z d y s p) = bp_size p"
  "bt_good p \<Longrightarrow> bt_good (move_rec z d y s p)" "bt_good p \<Longrightarrow> bt_good (move_kid z d y s p)"
  "node_n (move_rec z d y s p) i = node_n p i" "node_leaf (move_rec z d y s p) i = node_leaf p i"
  "bt_kid (move_rec z d y s p) i = bt_kid p i"
  "node_n (move_kid z d y s p) i = node_n p i" "node_leaf (move_kid z d y s p) i = node_leaf p i"
  "bt_arr (move_kid z d y s p) i = bt_arr p i"
proof -
  have m: "move_rec z d y s p = set_rec z d (node_key_at p y s, node_value_at (set_node_key_at z d (node_key_at p y s) p) y s) p"
    by (simp add: move_rec_def set_rec_def Let_def)
  show "length (bp_nodes (move_rec z d y s p)) = length (bp_nodes p)" "bp_free (move_rec z d y s p) = bp_free p"
    "bp_root (move_rec z d y s p) = bp_root p" "bp_size (move_rec z d y s p) = bp_size p"
    "bt_good p \<Longrightarrow> bt_good (move_rec z d y s p)" unfolding m by simp_all
  show "node_n (move_rec z d y s p) i = node_n p i" "node_leaf (move_rec z d y s p) i = node_leaf p i"
    "bt_kid (move_rec z d y s p) i = bt_kid p i"
    by (simp_all add: m set_rec_def set_node_key_at_def set_node_value_at_def node_n_def node_leaf_def bt_kid_def upd_node_def nth_update_cases)
  show "bt_good p \<Longrightarrow> bt_good (move_kid z d y s p)" "length (bp_nodes (move_kid z d y s p)) = length (bp_nodes p)"
    "bp_free (move_kid z d y s p) = bp_free p"
    "bp_root (move_kid z d y s p) = bp_root p" "bp_size (move_kid z d y s p) = bp_size p" unfolding move_kid_def by simp_all
  show "node_n (move_kid z d y s p) i = node_n p i" "node_leaf (move_kid z d y s p) i = node_leaf p i"
    "bt_arr (move_kid z d y s p) i = bt_arr p i"
    by (simp_all add: move_kid_def set_node_child_at_def node_n_def node_leaf_def bt_arr_def upd_node_def nth_update_cases)
qed

lemma pool_of_moves [simp]:
  "length (bp_nodes (fold (\<lambda>j. move_rec z (d j) y (s j)) js p)) = length (bp_nodes p)"
  "bp_free (fold (\<lambda>j. move_rec z (d j) y (s j)) js p) = bp_free p"
  "bp_root (fold (\<lambda>j. move_rec z (d j) y (s j)) js p) = bp_root p"
  "bp_size (fold (\<lambda>j. move_rec z (d j) y (s j)) js p) = bp_size p"
  "bt_good p \<Longrightarrow> bt_good (fold (\<lambda>j. move_rec z (d j) y (s j)) js p)"
  "node_n (fold (\<lambda>j. move_rec z (d j) y (s j)) js p) i = node_n p i"
  "node_leaf (fold (\<lambda>j. move_rec z (d j) y (s j)) js p) i = node_leaf p i"
  "bt_kid (fold (\<lambda>j. move_rec z (d j) y (s j)) js p) i = bt_kid p i"
  "length (bp_nodes (fold (\<lambda>j. move_kid z (d j) y (s j)) js p)) = length (bp_nodes p)"
  "bp_free (fold (\<lambda>j. move_kid z (d j) y (s j)) js p) = bp_free p"
  "bp_root (fold (\<lambda>j. move_kid z (d j) y (s j)) js p) = bp_root p"
  "bp_size (fold (\<lambda>j. move_kid z (d j) y (s j)) js p) = bp_size p"
  "bt_good p \<Longrightarrow> bt_good (fold (\<lambda>j. move_kid z (d j) y (s j)) js p)"
  "node_n (fold (\<lambda>j. move_kid z (d j) y (s j)) js p) i = node_n p i"
  "node_leaf (fold (\<lambda>j. move_kid z (d j) y (s j)) js p) i = node_leaf p i"
  "bt_arr (fold (\<lambda>j. move_kid z (d j) y (s j)) js p) i = bt_arr p i"
  by (induction js arbitrary: p) simp_all

lemma arr_move:
  assumes "bt_good p" "z < length (bp_nodes p)" "y < length (bp_nodes p)" "s < length (bt_arr p y)"
  shows "bt_arr (move_rec z d y s p) i = (if i = z then (bt_arr p z)[d := bt_arr p y ! s] else bt_arr p i)"
  by (simp add: move_rec_set [OF assms] read_set_rec [OF assms(2)])

lemma kid_move:
  assumes "bt_good p" "z < length (bp_nodes p)" "y < length (bp_nodes p)" "s < length (bt_kid p y)"
  shows "bt_kid (move_kid z d y s p) i = (if i = z then (bt_kid p z)[d := bt_kid p y ! s] else bt_kid p i)"
  using kid_bound [OF assms(1,3,4)] by (simp add: move_kid_set read_set_child [OF assms(2)])

lemma arr_moves:
  assumes "z < length (bp_nodes p)" "y < length (bp_nodes p)"
  shows "bt_good p \<Longrightarrow> \<forall>j \<in> set js. s j < length (bt_arr p y) \<Longrightarrow>
    bt_arr (fold (\<lambda>j. move_rec z (d j) y (s j)) js p) i =
     (if i = z then fold (\<lambda>j xs. xs[d j := (if y = z then xs else bt_arr p y) ! s j]) js (bt_arr p z) else bt_arr p i)"
  using assms
proof (induction js arbitrary: p)
  case (Cons j js)
  define q where "q = move_rec z (d j) y (s j) p"
  have a: "bt_arr q i = (if i = z then (bt_arr p z)[d j := bt_arr p y ! s j] else bt_arr p i)" for i
    using Cons.prems arr_move [of p z y "s j" "d j" i] by (simp add: q_def)
  have "\<forall>j \<in> set js. s j < length (bt_arr q y)" using Cons.prems(2) by (auto simp: a)
  then have "bt_arr (fold (\<lambda>j. move_rec z (d j) y (s j)) js q) i =
     (if i = z then fold (\<lambda>j xs. xs[d j := (if y = z then xs else bt_arr q y) ! s j]) js (bt_arr q z) else bt_arr q i)"
    using Cons.prems by (intro Cons.IH) (simp_all add: q_def)
  moreover have "fold (\<lambda>j. move_rec z (d j) y (s j)) (j # js) p = fold (\<lambda>j. move_rec z (d j) y (s j)) js q"
    by (simp add: q_def)
  ultimately show ?case by (cases "y = z"; cases "i = z"; simp only: a fold_simps if_True if_False refl simp_thms)
qed simp

lemma kid_moves:
  assumes "z < length (bp_nodes p)" "y < length (bp_nodes p)"
  shows "bt_good p \<Longrightarrow> \<forall>j \<in> set js. s j < length (bt_kid p y) \<Longrightarrow>
    bt_kid (fold (\<lambda>j. move_kid z (d j) y (s j)) js p) i =
     (if i = z then fold (\<lambda>j xs. xs[d j := (if y = z then xs else bt_kid p y) ! s j]) js (bt_kid p z) else bt_kid p i)"
  using assms
proof (induction js arbitrary: p)
  case (Cons j js)
  define q where "q = move_kid z (d j) y (s j) p"
  have a: "bt_kid q i = (if i = z then (bt_kid p z)[d j := bt_kid p y ! s j] else bt_kid p i)" for i
    using Cons.prems kid_move [of p z y "s j" "d j" i] by (simp add: q_def)
  have "\<forall>j \<in> set js. s j < length (bt_kid q y)" using Cons.prems(2) by (auto simp: a)
  then have "bt_kid (fold (\<lambda>j. move_kid z (d j) y (s j)) js q) i =
     (if i = z then fold (\<lambda>j xs. xs[d j := (if y = z then xs else bt_kid q y) ! s j]) js (bt_kid q z) else bt_kid q i)"
    using Cons.prems by (intro Cons.IH) (simp_all add: q_def)
  moreover have "fold (\<lambda>j. move_kid z (d j) y (s j)) (j # js) p = fold (\<lambda>j. move_kid z (d j) y (s j)) js q"
    by (simp add: q_def)
  ultimately show ?case by (cases "y = z"; cases "i = z"; simp only: a fold_simps if_True if_False refl simp_thms)
qed simp

subsection \<open>The loops on arrays\<close>

lemma shift_right_nth:
  "length (fold (\<lambda>j xs. xs[j + 1 := xs ! j]) (rev [i..<n]) xs) = length xs \<and>
   (n < length xs \<longrightarrow> (\<forall>m < length xs. fold (\<lambda>j xs. xs[j + 1 := xs ! j]) (rev [i..<n]) xs ! m
     = (if i < m \<and> m \<le> n then xs ! (m - 1) else xs ! m)))"
proof (induction n arbitrary: xs)
  case (Suc n)
  show ?case
  proof (cases "i \<le> n")
    case True
    define ys where "ys = xs[n + 1 := xs ! n]"
    have f: "fold (\<lambda>j xs. xs[j + 1 := xs ! j]) (rev [i..<Suc n]) xs = fold (\<lambda>j xs. xs[j + 1 := xs ! j]) (rev [i..<n]) ys"
      using True by (simp add: ys_def)
    note IH = Suc.IH [of ys]
    have "fold (\<lambda>j xs. xs[j + 1 := xs ! j]) (rev [i..<n]) ys ! m = (if i < m \<and> m \<le> Suc n then xs ! (m - 1) else xs ! m)"
      if m: "m < length xs" "Suc n < length xs" for m
    proof -
      have l: "length ys = length xs" "n < length ys" using m(2) by (simp_all add: ys_def)
      have e: "fold (\<lambda>j xs. xs[j + 1 := xs ! j]) (rev [i..<n]) ys ! m = (if i < m \<and> m \<le> n then ys ! (m - 1) else ys ! m)"
        using IH l m(1) by simp
      have u: "ys ! j = (if j = n + 1 then xs ! n else xs ! j)" for j using m(2) by (simp add: ys_def nth_list_update)
      show ?thesis unfolding e u using True by (cases "m = n + 1") auto
    qed
    moreover have "length (fold (\<lambda>j xs. xs[j + 1 := xs ! j]) (rev [i..<n]) ys) = length xs" using IH by (simp add: ys_def)
    ultimately show ?thesis unfolding f by blast
  next
    case False
    then have "rev [i..<Suc n] = []" "\<And>m. \<not> (i < m \<and> m \<le> Suc n)" by auto
    then show ?thesis by (simp only: fold_simps if_False) simp
  qed
qed simp

lemma shift_left_nth:
  "length (fold (\<lambda>j xs. xs[j - 1 := xs ! j]) [i + 1..<n] xs) = length xs \<and>
   (n \<le> length xs \<longrightarrow> (\<forall>m < length xs. fold (\<lambda>j xs. xs[j - 1 := xs ! j]) [i + 1..<n] xs ! m
     = (if i \<le> m \<and> m + 1 < n then xs ! (m + 1) else xs ! m)))"
proof (induction n)
  case (Suc n)
  then show ?case by (cases "i < n") (auto simp: nth_list_update less_Suc_eq Suc_le_eq)
qed simp

lemma copy_nth:
  "length (fold (\<lambda>j xs. xs[j + a := ys ! (j + b)]) [0..<n] xs) = length xs \<and>
   (\<forall>m < length xs. fold (\<lambda>j xs. xs[j + a := ys ! (j + b)]) [0..<n] xs ! m
     = (if a \<le> m \<and> m < a + n then ys ! (m - a + b) else xs ! m))"
proof (induction n)
  case (Suc n)
  have "fold (\<lambda>j xs. xs[j + a := ys ! (j + b)]) [0..<Suc n] xs
      = (fold (\<lambda>j xs. xs[j + a := ys ! (j + b)]) [0..<n] xs)[n + a := ys ! (n + b)]" by simp
  moreover have "m < a + Suc n \<longleftrightarrow> m < a + n \<or> m = n + a" for m by auto
  ultimately show ?case using Suc.IH by (auto simp only: length_list_update nth_list_update) auto
qed auto

lemma shift_right_insert:
  assumes "i \<le> n" "n < length xs"
  shows "take (n + 1) ((fold (\<lambda>j xs. xs[j + 1 := xs ! j]) (rev [i..<n]) xs)[i := a]) = insert_at i a (take n xs)"
proof -
  note s = shift_right_nth [of i n xs]
  have "((fold (\<lambda>j xs. xs[j + 1 := xs ! j]) (rev [i..<n]) xs)[i := a]) ! m = insert_at i a (take n xs) ! m" if "m < n + 1" for m
  proof -
    consider "m < i" | "m = i" | d where "m = i + Suc d" by (metis less_imp_Suc_add linorder_neqE_nat add_Suc_right)
    then show ?thesis
      using s assms that by cases (auto simp: insert_at_def nth_append nth_list_update min_def)
  qed
  then show ?thesis using s assms by (intro nth_equalityI) (auto simp: insert_at_def)
qed

lemma shift_left_erase:
  assumes "i < n" "n \<le> length xs"
  shows "take (n - 1) (fold (\<lambda>j xs. xs[j - 1 := xs ! j]) [i + 1..<n] xs) = erase_at i (take n xs)"
proof -
  note s = shift_left_nth [of i n xs]
  have "fold (\<lambda>j xs. xs[j - 1 := xs ! j]) [i + 1..<n] xs ! m = erase_at i (take n xs) ! m" if "m < n - 1" for m
    using s assms that by (cases "m < i") (auto simp: erase_at_def nth_append min_def)
  then show ?thesis using s assms by (intro nth_equalityI) (auto simp: erase_at_def)
qed

lemma copy_take:
  assumes "n \<le> length xs" "n + b \<le> length ys"
  shows "take n (fold (\<lambda>j xs. xs[j := ys ! (j + b)]) [0..<n] xs) = take n (drop b ys)"
  using copy_nth [of 0 ys b n xs] assms by (intro nth_equalityI) (auto simp: add.commute)

lemma copy_append:
  assumes "a + n \<le> length xs" "n \<le> length ys"
  shows "take (a + n) (fold (\<lambda>j xs. xs[j + a := ys ! j]) [0..<n] xs) = take a xs @ take n ys"
  using copy_nth [of a ys 0 n xs] assms by (intro nth_equalityI) (auto simp: nth_append)

section \<open>Contents\<close>

definition bn_shape :: "bt_order \<Rightarrow> bt_node \<Rightarrow> bool" where
  "bn_shape sh n \<longleftrightarrow> bn_good n \<and> length (bn_key n) = bt_max_keys sh \<and> length (bn_child n) = bt_max_children sh"

definition bt_arrays :: "bt_order \<Rightarrow> bt_pool \<Rightarrow> bool" where
  "bt_arrays sh p \<longleftrightarrow> (\<forall>n \<in> set (bp_nodes p). bn_shape sh n)"

lemma bt_arrays_iff: "bt_arrays sh p \<longleftrightarrow> bt_good p \<and>
     (\<forall>i < length (bp_nodes p). length (bt_arr p i) = bt_max_keys sh \<and> length (bt_kid p i) = bt_max_children sh)"
  unfolding bt_arrays_def bt_good_def all_set_conv_all_nth bt_arr_def bt_kid_def
  by (auto simp: bn_shape_def bn_good_def)

lemma bt_arrays_good: "bt_arrays sh p \<Longrightarrow> bt_good p"
  by (simp add: bt_arrays_iff)

lemma bt_arrays_upd:
  assumes g: "bt_arrays sh p" and f: "\<And>n. bn_shape sh n \<Longrightarrow> bn_shape sh (f n)"
  shows "bt_arrays sh (upd_node i f p)"
proof (cases "i < length (bp_nodes p)")
  case True
  then have "bn_shape sh (f (bp_nodes p ! i))" using g f by (simp add: bt_arrays_def)
  then show ?thesis using g set_update_subset_insert [of "bp_nodes p" i "f (bp_nodes p ! i)"]
    unfolding bt_arrays_def upd_node_def by auto
next
  case False
  then show ?thesis using g by (simp add: upd_node_def list_update_beyond)
qed

lemma arrays_of_set:
  assumes "bt_arrays sh p"
  shows "bt_arrays sh (set_node_n i n p)" "bt_arrays sh (set_node_child_at i j c p)"
    "bt_arrays sh (set_node_key_at i j k p)" "bt_arrays sh (set_node_value_at i j v p)"
  unfolding set_node_n_def set_node_child_at_def set_node_key_at_def set_node_value_at_def
  by (rule bt_arrays_upd [OF assms], auto simp: bn_shape_def bn_good_def dest!: set_update_subset_insert [THEN subsetD])+

lemma arrays_of_move [simp]:
  assumes "bt_arrays sh p"
  shows "bt_arrays sh (set_node_n i n p)" "bt_arrays sh (set_node_child_at i j c p)" "bt_arrays sh (set_rec i j kv p)"
    "bt_arrays sh (move_rec z d y s p)" "bt_arrays sh (move_kid z d y s p)"
  using assms by (simp_all add: set_rec_def move_rec_def move_kid_def Let_def arrays_of_set)

lemma arrays_of_moves [simp]:
  "bt_arrays sh p \<Longrightarrow> bt_arrays sh (fold (\<lambda>j. move_rec z (d j) y (s j)) js p)"
  "bt_arrays sh p \<Longrightarrow> bt_arrays sh (fold (\<lambda>j. move_kid z (d j) y (s j)) js p)"
  by (induction js arbitrary: p) simp_all

definition bt_at :: "bt_order \<Rightarrow> bt_pool \<Rightarrow> nat \<Rightarrow> bool \<Rightarrow> slot list \<Rightarrow> nat list \<Rightarrow> bool" where
  "bt_at sh p i leaf rs cs \<longleftrightarrow> i < length (bp_nodes p) \<and> node_leaf p i = leaf \<and> node_n p i = length rs
     \<and> length rs \<le> bt_max_keys sh \<and> take (length rs) (bt_arr p i) = rs
     \<and> (if leaf then cs = [] else take (length rs + 1) (bt_kid p i) = cs)"

text \<open>Node \<open>i\<close> reads the same in both pools.\<close>
definition same_node :: "bt_pool \<Rightarrow> bt_pool \<Rightarrow> nat \<Rightarrow> bool" where
  "same_node p q i \<longleftrightarrow> (i < length (bp_nodes p) \<longrightarrow> i < length (bp_nodes q)) \<and> node_n q i = node_n p i
     \<and> node_leaf q i = node_leaf p i \<and> bt_arr q i = bt_arr p i \<and> bt_kid q i = bt_kid p i"

lemma same_node_at: "same_node p q i \<Longrightarrow> bt_at sh p i leaf rs cs \<Longrightarrow> bt_at sh q i leaf rs cs"
  unfolding same_node_def bt_at_def by auto

lemma same_node_refl [simp]: "same_node p p i"
  by (simp add: same_node_def)

lemma same_node_trans: "same_node p q i \<Longrightarrow> same_node q r i \<Longrightarrow> same_node p r i"
  by (simp add: same_node_def)

lemma bt_atD:
  assumes "bt_arrays sh p" "bt_at sh p i leaf rs cs"
  shows "i < length (bp_nodes p)" "node_leaf p i = leaf" "node_n p i = length rs" "length rs \<le> bt_max_keys sh"
    "j < length rs \<Longrightarrow> bt_arr p i ! j = rs ! j" "take (length rs) (bt_arr p i) = rs"
    "\<not> leaf \<Longrightarrow> length cs = length rs + 1" "\<not> leaf \<Longrightarrow> j \<le> length rs \<Longrightarrow> bt_kid p i ! j = cs ! j"
    "\<not> leaf \<Longrightarrow> take (length rs + 1) (bt_kid p i) = cs" "leaf \<Longrightarrow> cs = []"
    "length (bt_arr p i) = bt_max_keys sh" "length (bt_kid p i) = bt_max_children sh"
proof -
  show l: "length (bt_arr p i) = bt_max_keys sh" "length (bt_kid p i) = bt_max_children sh"
    using assms by (auto simp: bt_at_def bt_arrays_iff)
  show "i < length (bp_nodes p)" "node_leaf p i = leaf" "node_n p i = length rs" "length rs \<le> bt_max_keys sh"
    "take (length rs) (bt_arr p i) = rs" "leaf \<Longrightarrow> cs = []" using assms(2) by (auto simp: bt_at_def)
  show "j < length rs \<Longrightarrow> bt_arr p i ! j = rs ! j" using assms(2) unfolding bt_at_def by (metis nth_take)
  assume nl: "\<not> leaf"
  then show t: "take (length rs + 1) (bt_kid p i) = cs" using assms(2) by (simp add: bt_at_def)
  have "length rs + 1 \<le> bt_max_children sh"
    using assms(2) bt_T_bounds [of sh] unfolding bt_at_def bt_max_keys_def bt_max_children_def by linarith
  then have "length (take (length rs + 1) (bt_kid p i)) = length rs + 1" by (simp add: l)
  then show "length cs = length rs + 1" by (simp only: t)
  show "j \<le> length rs \<Longrightarrow> bt_kid p i ! j = cs ! j" unfolding t [symmetric] by simp
qed

lemma arr_nth_read:
  assumes "bt_arrays sh p" "i < length (bp_nodes p)" "j < bt_max_keys sh"
  shows "bt_arr p i ! j = (node_key_at p i j, node_value_at p i j)"
proof -
  have "length (bt_arr p i) = length (bn_key (bp_nodes p ! i)) \<and> length (bn_val (bp_nodes p ! i)) = length (bn_key (bp_nodes p ! i))"
    using length_arr assms(1,2) by (auto simp: bt_arrays_iff)
  then show ?thesis using assms by (simp add: bt_arrays_iff bt_arr_def node_key_at_def node_value_at_def)
qed

lemma node_at_read:
  assumes "bt_arrays sh p" "bt_at sh p i leaf rs cs" "j < length rs"
  shows "node_key_at p i j = fst (rs ! j)" "node_value_at p i j = snd (rs ! j)"
proof -
  note D = bt_atD [OF assms(1,2)]
  have "rs ! j = (node_key_at p i j, node_value_at p i j)"
    using arr_nth_read [OF assms(1) D(1), of j] D(4,5) assms(3) by simp
  then show "node_key_at p i j = fst (rs ! j)" "node_value_at p i j = snd (rs ! j)" by simp_all
qed

lemma new_node_ok:
  assumes "bt_arrays sh p" "set (bp_free p) \<subseteq> {..<length (bp_nodes p)}" "new_node sh leaf p = (z, q)"
  shows "bt_arrays sh q" "z < length (bp_nodes q)" "node_leaf q z = leaf" "bp_root q = bp_root p" "bp_size q = bp_size p"
    "if bp_free p \<noteq> [] then z = last (bp_free p) \<and> bp_free q = butlast (bp_free p) \<and> length (bp_nodes q) = length (bp_nodes p)
     else z = length (bp_nodes p) \<and> bp_free q = [] \<and> length (bp_nodes q) = length (bp_nodes p) + 1"
    "i \<noteq> z \<Longrightarrow> i < length (bp_nodes p) \<Longrightarrow> same_node p q i"
proof -
  define b where "b = (bt_blank sh)\<lparr>bn_leaf := leaf, bn_child := replicate (bt_max_children sh) bt_nil\<rparr>"
  have z: "z = (if bp_free p \<noteq> [] then last (bp_free p) else length (bp_nodes p))"
    using assms(3) by (auto simp: new_node_def Let_def split: if_splits)
  have zl: "bp_free p \<noteq> [] \<Longrightarrow> z < length (bp_nodes p)" using z assms(2) last_in_set by fastforce
  have q: "q = (if bp_free p \<noteq> [] then p\<lparr>bp_free := butlast (bp_free p), bp_nodes := (bp_nodes p)[z := b]\<rparr>
      else p\<lparr>bp_nodes := bp_nodes p @ [b]\<rparr>)"
    using assms(3) zl z
    by (auto simp: new_node_def Let_def upd_node_def b_def bt_blank_def map_replicate_const split: if_splits)
  show "bp_root q = bp_root p" "bp_size q = bp_size p" by (simp_all add: q)
  show l: "if bp_free p \<noteq> [] then z = last (bp_free p) \<and> bp_free q = butlast (bp_free p) \<and> length (bp_nodes q) = length (bp_nodes p)
     else z = length (bp_nodes p) \<and> bp_free q = [] \<and> length (bp_nodes q) = length (bp_nodes p) + 1"
    by (simp add: z q)
  then show zq: "z < length (bp_nodes q)" using zl by (auto split: if_splits)
  have nz: "bp_nodes q ! z = b" using zl z by (auto simp: q nth_append)
  have ni: "bp_nodes q ! i = bp_nodes p ! i" if "i \<noteq> z" "i < length (bp_nodes p)" for i
    using that by (auto simp: q nth_append)
  show "node_leaf q z = leaf" by (simp add: node_leaf_def nz b_def)
  show "same_node p q i" if "i \<noteq> z" "i < length (bp_nodes p)" for i
    using that ni [OF that] l by (auto simp: same_node_def node_read_defs split: if_splits)
  have gb: "bn_good b" by (auto simp: bn_good_def b_def bt_blank_def bt_nil_def)
  have "set (bp_nodes q) \<subseteq> insert b (set (bp_nodes p))" using set_update_subset_insert [of "bp_nodes p" z b] by (auto simp: q)
  then have "bt_good q" using assms(1) gb by (auto simp: bt_good_def bt_arrays_iff)
  moreover have "length (bt_arr q i) = bt_max_keys sh \<and> length (bt_kid q i) = bt_max_children sh" if "i < length (bp_nodes q)" for i
  proof (cases "i = z")
    case True
    then show ?thesis by (simp add: bt_arr_def bt_kid_def nz b_def bt_blank_def)
  next
    case False
    then have "i < length (bp_nodes p)" using that l by (auto split: if_splits)
    then show ?thesis using ni [OF False] assms(1) by (simp add: bt_arr_def bt_kid_def bt_arrays_iff)
  qed
  ultimately show "bt_arrays sh q" by (simp add: bt_arrays_iff)
qed

lemma bt_max: "bt_max_keys sh + 1 = bt_max_children sh" "bt_max_keys sh + 1 = 2 * bt_T sh" "bt_max_children sh < 2 ^ 15"
  using bt_T_bounds [of sh] by (simp_all add: bt_max_keys_def bt_max_children_def)

lemma bt_at_child:
  assumes "bt_arrays sh p" "bt_at sh p i False rs cs" "j \<le> length rs"
  shows "node_child_at p i j = cs ! j" "cs ! j < 2 ^ 32"
proof -
  show e: "node_child_at p i j = cs ! j" using bt_atD(8) [OF assms(1,2) _ assms(3)] by (simp add: bt_kid_def node_child_at_def)
  have "j < length (bt_kid p i)" using bt_atD [OF assms(1,2)] bt_max [of sh] assms(3) by simp
  from kid_bound [OF bt_arrays_good [OF assms(1)] bt_atD(1) [OF assms(1,2)] this]
  show "cs ! j < 2 ^ 32" using bt_atD(8) [OF assms(1,2) _ assms(3)] by simp
qed

section \<open>Splitting\<close>

definition fresh_index :: "bt_pool \<Rightarrow> nat" where
  "fresh_index p = (if bp_free p \<noteq> [] then last (bp_free p) else length (bp_nodes p))"

lemma split_child_reads:
  assumes "bt_arrays sh p" "set (bp_free p) \<subseteq> {..<length (bp_nodes p)}" "length (bp_nodes p) < 2 ^ 32"
    "bt_at sh p x False rs cs" "i \<le> length rs" "length rs < bt_max_keys sh"
    "y = cs ! i" "bt_at sh p y yl ys yc" "length ys = bt_max_keys sh" "x \<noteq> y" "x \<notin> set (bp_free p)" "y \<notin> set (bp_free p)"
    "z = fresh_index p" "q = split_child sh x i p" "p1 = snd (new_node sh yl p)"
  shows "bt_arrays sh q" "bp_free q = bp_free p1" "bp_root q = bp_root p1" "bp_size q = bp_size p1"
    "length (bp_nodes q) = length (bp_nodes p1)" "node_leaf q m = node_leaf p1 m"
    "node_n q m = (if m = x then length rs + 1 else if m = y \<or> m = z then bt_T sh - 1 else node_n p1 m)"
    "bt_arr q m = (if m = x then (fold (\<lambda>j xs. xs[j + 1 := xs ! j]) (rev [i..<length rs]) (bt_arr p x))[i := ys ! (bt_T sh - 1)]
      else if m = z then fold (\<lambda>j xs. xs[j := bt_arr p y ! (j + bt_T sh)]) [0..<bt_T sh - 1] (bt_arr p1 z) else bt_arr p1 m)"
    "bt_kid q m = (if m = x then (fold (\<lambda>j xs. xs[j + 1 := xs ! j]) (rev [i + 1..<length rs + 1]) (bt_kid p x))[i + 1 := z]
      else if m = z \<and> \<not> yl then fold (\<lambda>j xs. xs[j := bt_kid p y ! (j + bt_T sh)]) [0..<bt_T sh] (bt_kid p1 z) else bt_kid p1 m)"
proof -
  define T where "T = bt_T sh"
  note X = bt_atD [OF assms(1,4)] and Y = bt_atD [OF assms(1,8)]
  have nn: "new_node sh yl p = (z, p1)" by (simp add: assms(13,15) fresh_index_def new_node_def Let_def split: if_splits)
  note N = new_node_ok [OF assms(1,2) nn]
  have T: "2 \<le> T" "T \<le> 16" using bt_T_bounds by (auto simp: T_def)
  have z: "z \<noteq> x" "z \<noteq> y" using N(6) X(1) Y(1) assms(11,12) by (auto split: if_splits)
  have lt: "x < length (bp_nodes p1)" "y < length (bp_nodes p1)" "z < length (bp_nodes p1)" "z < 2 ^ 32"
    using N(2,6) X(1) Y(1) assms(2,3) by (auto split: if_splits)
  have sx: "same_node p p1 x" "same_node p p1 y" using N(7) [OF z(1) [symmetric] X(1)] N(7) [OF z(2) [symmetric] Y(1)] by simp_all
  have r1: "bt_arr p1 x = bt_arr p x" "bt_kid p1 x = bt_kid p x" "bt_arr p1 y = bt_arr p y" "bt_kid p1 y = bt_kid p y"
    "node_n p1 x = length rs" using sx X(3) by (simp_all add: same_node_def)
  have l1: "length (bt_arr p x) = 2 * T - 1" "length (bt_kid p x) = 2 * T" "length (bt_arr p y) = 2 * T - 1" "length (bt_kid p y) = 2 * T"
    using X(11,12) Y(11,12) by (simp_all add: T_def bt_max_keys_def bt_max_children_def)
  have yi: "node_child_at p x i = y" "node_leaf p y = yl" using bt_at_child [OF assms(1,4,5)] Y(2) assms(7) by simp_all
  define p2 where "p2 = set_node_n z (T - 1) p1"
  define p3 where "p3 = fold (\<lambda>j. move_rec z j y (j + T)) [0..<T - 1] p2"
  define p4 where "p4 = (if \<not> yl then fold (\<lambda>j. move_kid z j y (j + T)) [0..<T] p3 else p3)"
  define med where "med = (node_key_at p4 y (T - 1), node_value_at p4 y (T - 1))"
  define p5 where "p5 = set_node_n y (T - 1) p4"
  define p6 where "p6 = fold (\<lambda>j. move_kid x (j + 1) x j) (rev [i + 1..<length rs + 1]) p5"
  define p7 where "p7 = set_node_child_at x (i + 1) z p6"
  define p8 where "p8 = fold (\<lambda>j. move_rec x (j + 1) x j) (rev [i..<length rs]) p7"
  define p9 where "p9 = set_rec x i med p8"
  have len: "length (bp_nodes p2) = length (bp_nodes p1)" "length (bp_nodes p3) = length (bp_nodes p1)"
    "length (bp_nodes p4) = length (bp_nodes p1)" "length (bp_nodes p5) = length (bp_nodes p1)"
    "length (bp_nodes p6) = length (bp_nodes p1)" "length (bp_nodes p7) = length (bp_nodes p1)"
    "length (bp_nodes p8) = length (bp_nodes p1)" "length (bp_nodes p9) = length (bp_nodes p1)"
    by (simp_all add: p2_def p3_def p4_def p5_def p6_def p7_def p8_def p9_def)
  have ar: "bt_arrays sh p2" "bt_arrays sh p3" "bt_arrays sh p4" "bt_arrays sh p5" "bt_arrays sh p6" "bt_arrays sh p7"
    "bt_arrays sh p8" "bt_arrays sh p9"
    using N(1) by (simp_all add: p2_def p3_def p4_def p5_def p6_def p7_def p8_def p9_def)
  note good = ar [THEN bt_arrays_good]
  have n2: "node_n p2 m = (if m = z then T - 1 else node_n p1 m)" "node_leaf p2 m = node_leaf p1 m" "bt_arr p2 m = bt_arr p1 m"
    "bt_kid p2 m = bt_kid p1 m" for m using T by (simp_all add: p2_def read_set_n [OF lt(3)])
  have a3: "bt_arr p3 m = (if m = z then fold (\<lambda>j xs. xs[j := bt_arr p y ! (j + T)]) [0..<T - 1] (bt_arr p1 z) else bt_arr p1 m)" for m
    unfolding p3_def using z(2) l1(3) T by (subst arr_moves [OF _ _ good(1)]) (auto simp: n2 len lt r1)
  have o3: "node_n p3 m = node_n p2 m" "node_leaf p3 m = node_leaf p1 m" "bt_kid p3 m = bt_kid p1 m" for m by (simp_all add: p3_def n2)
  have k4: "bt_kid p4 m = (if m = z \<and> \<not> yl then fold (\<lambda>j xs. xs[j := bt_kid p y ! (j + T)]) [0..<T] (bt_kid p1 z) else bt_kid p1 m)" for m
    unfolding p4_def using z(2) l1(4) T kid_moves [OF _ _ good(2), of z y "[0..<T]" "\<lambda>j. j + T" "\<lambda>j. j" m] by (auto simp: o3 len lt r1)
  have o4: "node_n p4 m = node_n p2 m" "node_leaf p4 m = node_leaf p1 m" "bt_arr p4 m = bt_arr p3 m" for m by (simp_all add: p4_def o3)
  have "med = bt_arr p4 y ! (T - 1)"
    using arr_nth_read [OF ar(3), of y "T - 1"] lt(2) len T by (simp add: med_def T_def bt_max_keys_def)
  then have med: "med = ys ! (T - 1)" using Y(5) [of "T - 1"] z(2) T assms(9)
    by (simp add: o4 a3 r1 T_def bt_max_keys_def)
  have n5: "node_n p5 m = (if m = y then T - 1 else node_n p2 m)" "node_leaf p5 m = node_leaf p1 m" "bt_arr p5 m = bt_arr p3 m"
    "bt_kid p5 m = bt_kid p4 m" for m using T lt(2) len by (simp_all add: p5_def read_set_n o4)
  have k6: "bt_kid p6 m = (if m = x then fold (\<lambda>j xs. xs[j + 1 := xs ! j]) (rev [i + 1..<length rs + 1]) (bt_kid p x) else bt_kid p4 m)" for m
    unfolding p6_def using z(1) l1(2) X(4) assms(6)
    by (subst kid_moves [OF _ _ good(4)]) (auto simp: n5 k4 len lt r1 T_def bt_max_keys_def)
  have o6: "node_n p6 m = node_n p5 m" "node_leaf p6 m = node_leaf p1 m" "bt_arr p6 m = bt_arr p3 m" for m by (simp_all add: p6_def n5)
  have r7: "node_n p7 m = node_n p5 m" "node_leaf p7 m = node_leaf p1 m" "bt_arr p7 m = bt_arr p3 m"
    "bt_kid p7 m = (if m = x then (bt_kid p6 x)[i + 1 := z] else bt_kid p6 m)" for m
    using lt len by (simp_all add: p7_def read_set_child o6)
  have a8: "bt_arr p8 m = (if m = x then fold (\<lambda>j xs. xs[j + 1 := xs ! j]) (rev [i..<length rs]) (bt_arr p x) else bt_arr p3 m)" for m
    unfolding p8_def using z(1) l1(1) X(4) assms(6)
    by (subst arr_moves [OF _ _ good(6)]) (auto simp: r7 a3 len lt r1 T_def bt_max_keys_def)
  have o8: "node_n p8 m = node_n p5 m" "node_leaf p8 m = node_leaf p1 m" "bt_kid p8 m = bt_kid p7 m" for m by (simp_all add: p8_def r7)
  have r9: "node_n p9 m = node_n p5 m" "node_leaf p9 m = node_leaf p1 m" "bt_kid p9 m = bt_kid p7 m"
    "bt_arr p9 m = (if m = x then (bt_arr p8 x)[i := med] else bt_arr p8 m)" for m
    using lt len by (simp_all add: p9_def read_set_rec o8)
  have xn: "node_n p5 x = length rs" using z(1) assms(10) by (simp add: n5 n2 r1)
  have q: "q = set_node_n x (length rs + 1) p9"
    unfolding assms(14) split_child_def Let_def yi nn prod.case T_def [symmetric] p2_def [symmetric] p3_def [symmetric]
      p4_def [symmetric] med_def [symmetric] p5_def [symmetric] xn p6_def [symmetric] p7_def [symmetric] p8_def [symmetric]
      p9_def [symmetric] by (rule refl)
  have rs: "length rs + 1 < 2 ^ 15" using assms(6) bt_max [of sh] by simp
  have xl: "x < length (bp_nodes p9)" using lt len by simp
  show "bt_arrays sh q" unfolding q by (rule arrays_of_move(1) [OF ar(8)])
  show "bp_free q = bp_free p1" "bp_root q = bp_root p1" "bp_size q = bp_size p1" "length (bp_nodes q) = length (bp_nodes p1)"
    by (simp_all add: q p2_def p3_def p4_def p5_def p6_def p7_def p8_def p9_def)
  show "node_leaf q m = node_leaf p1 m" by (simp add: q read_set_n [OF xl] r9)
  show "node_n q m = (if m = x then length rs + 1 else if m = y \<or> m = z then bt_T sh - 1 else node_n p1 m)"
    unfolding q read_set_n(1) [OF xl rs] r9 n5 n2 T_def by simp
  show "bt_arr q m = (if m = x then (fold (\<lambda>j xs. xs[j + 1 := xs ! j]) (rev [i..<length rs]) (bt_arr p x))[i := ys ! (bt_T sh - 1)]
      else if m = z then fold (\<lambda>j xs. xs[j := bt_arr p y ! (j + bt_T sh)]) [0..<bt_T sh - 1] (bt_arr p1 z) else bt_arr p1 m)"
    unfolding q read_set_n(3) [OF xl] r9 a8 a3 med T_def by simp
  show "bt_kid q m = (if m = x then (fold (\<lambda>j xs. xs[j + 1 := xs ! j]) (rev [i + 1..<length rs + 1]) (bt_kid p x))[i + 1 := z]
      else if m = z \<and> \<not> yl then fold (\<lambda>j xs. xs[j := bt_kid p y ! (j + bt_T sh)]) [0..<bt_T sh] (bt_kid p1 z) else bt_kid p1 m)"
    unfolding q read_set_n(4) [OF xl] r9 r7 k6 k4 T_def by simp
qed

lemma bt_at_take:
  assumes "bt_arrays sh p" "bt_at sh p i leaf rs cs"
  shows "n \<le> length rs \<Longrightarrow> take n (bt_arr p i) = take n rs"
    "\<not> leaf \<Longrightarrow> n \<le> length rs + 1 \<Longrightarrow> take n (bt_kid p i) = take n cs"
proof -
  note D = bt_atD [OF assms]
  show "take n (bt_arr p i) = take n rs" if "n \<le> length rs"
    using take_take [of n "length rs" "bt_arr p i"] that unfolding D(6) by (simp add: min_absorb1)
  show "take n (bt_kid p i) = take n cs" if "\<not> leaf" "n \<le> length rs + 1"
    using take_take [of n "length rs + 1" "bt_kid p i"] that(2) unfolding D(9) [OF that(1)] by (simp only: min_absorb1)
qed

lemma split_child_ok:
  assumes "bt_arrays sh p" "set (bp_free p) \<subseteq> {..<length (bp_nodes p)}" "length (bp_nodes p) < 2 ^ 32"
    "bt_at sh p x False rs cs" "i \<le> length rs" "length rs < bt_max_keys sh"
    "y = cs ! i" "bt_at sh p y yl ys yc" "length ys = bt_max_keys sh" "x \<noteq> y" "x \<notin> set (bp_free p)" "y \<notin> set (bp_free p)"
    "z = fresh_index p" "q = split_child sh x i p"
  shows "bt_arrays sh q"
    "bt_at sh q x False (insert_at i (ys ! (bt_T sh - 1)) rs) (insert_at (i + 1) z cs)"
    "bt_at sh q y yl (take (bt_T sh - 1) ys) (take (bt_T sh) yc)"
    "bt_at sh q z yl (drop (bt_T sh) ys) (drop (bt_T sh) yc)"
    "\<lbrakk>m < length (bp_nodes p); m \<notin> {x, y, z}\<rbrakk> \<Longrightarrow> same_node p q m"
    "bp_root q = bp_root p" "bp_size q = bp_size p"
    "if bp_free p \<noteq> [] then bp_free q = butlast (bp_free p) \<and> length (bp_nodes q) = length (bp_nodes p)
     else bp_free q = [] \<and> length (bp_nodes q) = length (bp_nodes p) + 1"
proof -
  define p1 where "p1 = snd (new_node sh yl p)"
  define T where "T = bt_T sh"
  note R = split_child_reads [OF assms p1_def, folded T_def]
  note X = bt_atD [OF assms(1,4)] and Y = bt_atD [OF assms(1,8)]
  have nn: "new_node sh yl p = (z, p1)" by (simp add: assms(13) p1_def fresh_index_def new_node_def Let_def split: if_splits)
  note N = new_node_ok [OF assms(1,2) nn]
  have T: "2 \<le> T" "T \<le> 16" using bt_T_bounds by (auto simp: T_def)
  have z: "z \<noteq> x" "z \<noteq> y" using N(6) X(1) Y(1) assms(11,12) by (auto split: if_splits)
  have sx: "same_node p p1 x" "same_node p p1 y" using N(7) [OF z(1) [symmetric] X(1)] N(7) [OF z(2) [symmetric] Y(1)] by simp_all
  have l: "bt_max_keys sh = 2 * T - 1" "bt_max_children sh = 2 * T" by (simp_all add: T_def bt_max_keys_def bt_max_children_def)
  show "bt_arrays sh q" by (rule R(1))
  show "bp_root q = bp_root p" "bp_size q = bp_size p" using R(3,4) N(4,5) by simp_all
  show "if bp_free p \<noteq> [] then bp_free q = butlast (bp_free p) \<and> length (bp_nodes q) = length (bp_nodes p)
     else bp_free q = [] \<and> length (bp_nodes q) = length (bp_nodes p) + 1" using R(2,5) N(6) by simp
  have rn: "length rs < length (bt_arr p x)" using assms(6) X(11) by simp
  have kn: "length rs + 1 < length (bt_kid p x)" using assms(6) X(12) l T by simp
  show "bt_at sh q x False (insert_at i (ys ! (bt_T sh - 1)) rs) (insert_at (i + 1) z cs)"
    unfolding bt_at_def
    using shift_right_insert [OF assms(5) rn, of "ys ! (T - 1)"] shift_right_insert [of "i + 1" "length rs + 1" "bt_kid p x" z] kn
      assms(5,6) X(6,9) N(2,6) sx X(1,2) R(5) by (auto simp: R(6-9) T_def [symmetric] same_node_def)
  have yr: "bt_arr q y = bt_arr p y" "bt_kid q y = bt_kid p y" "node_leaf q y = yl" "node_n q y = T - 1" "y < length (bp_nodes q)"
    using sx(2) z assms(10) Y(1,2) N(2,6) R(5) by (auto simp: R(6-9) same_node_def)
  have ly: "length ys = 2 * T - 1" using assms(9) l by simp
  show "bt_at sh q y yl (take (bt_T sh - 1) ys) (take (bt_T sh) yc)"
    using bt_at_take(1) [OF assms(1,8), of "T - 1"] bt_at_take(2) [OF assms(1,8), of T] T l ly Y(10)
    by (auto simp: bt_at_def yr T_def [symmetric])
  have zr: "node_leaf q z = yl" "node_n q z = T - 1" "z < length (bp_nodes q)" using N(2,3) z R(5) by (simp_all add: R(6,7))
  have za: "length (bt_arr p1 z) = 2 * T - 1" "length (bt_kid p1 z) = 2 * T"
    using N(1,2) l by (simp_all add: bt_arrays_iff)
  have ya: "length (bt_arr p y) = 2 * T - 1" "length (bt_kid p y) = 2 * T" using Y(11,12) l by simp_all
  have "take (T - 1) (bt_arr q z) = take (T - 1) (drop T (bt_arr p y))"
    using copy_take [of "T - 1" "bt_arr p1 z" T "bt_arr p y"] z(1) za(1) ya(1) T by (simp add: R(8))
  also have "\<dots> = drop T ys" using bt_at_take(1) [OF assms(1,8), of "length ys"] ly ya(1) T by simp
  finally have zt: "take (T - 1) (bt_arr q z) = drop T ys" .
  have zk: "take T (bt_kid q z) = drop T yc" if "\<not> yl"
  proof -
    have "take T (bt_kid q z) = take T (drop T (bt_kid p y))"
      using copy_take [of T "bt_kid p1 z" T "bt_kid p y"] z(1) za(2) ya(2) that by (simp add: R(9))
    also have "\<dots> = drop T yc" using bt_at_take(2) [OF assms(1,8) that, of "length ys + 1"] ly ya(2) T Y(7) [OF that] by simp
    finally show ?thesis .
  qed
  have "length (drop T ys) = T - 1" using ly T by simp
  then show "bt_at sh q z yl (drop (bt_T sh) ys) (drop (bt_T sh) yc)"
    using zr zt zk T l Y(10) by (auto simp: bt_at_def T_def [symmetric])
  show "same_node p q m" if "m < length (bp_nodes p)" "m \<notin> {x, y, z}" for m
    using that N(7) [of m] R(5) by (auto simp: same_node_def R(6-9))
qed

section \<open>Borrowing and merging\<close>

lemma borrow_from_prev_ok:
  assumes "bt_arrays sh p" "bt_at sh p x False rs cs" "0 < idx" "idx \<le> length rs" "c = cs ! idx" "s = cs ! (idx - 1)"
    "bt_at sh p c lf cr ck" "bt_at sh p s lf sr sk" "length cr < bt_max_keys sh" "sr \<noteq> []" "x \<noteq> c" "x \<noteq> s" "c \<noteq> s"
    "q = borrow_from_prev x idx p"
  shows "bt_arrays sh q" "bt_at sh q x False (rs[idx - 1 := last sr]) cs"
    "bt_at sh q c lf (rs ! (idx - 1) # cr) (if lf then [] else last sk # ck)" "bt_at sh q s lf (butlast sr) (butlast sk)"
    "m \<notin> {x, c, s} \<Longrightarrow> same_node p q m" "length (bp_nodes q) = length (bp_nodes p)" "bp_free q = bp_free p"
    "bp_root q = bp_root p" "bp_size q = bp_size p"
proof -
  define cn where "cn = length cr"
  define sn where "sn = length sr"
  note X = bt_atD [OF assms(1,2)] and C = bt_atD [OF assms(1,7)] and S = bt_atD [OF assms(1,8)]
  have ch: "node_child_at p x idx = c" "node_child_at p x (idx - 1) = s"
    using bt_at_child(1) [OF assms(1,2), of idx] bt_at_child(1) [OF assms(1,2), of "idx - 1"] assms(4-6) by simp_all
  have n: "node_n p c = cn" "node_n p s = sn" using C(3) S(3) by (simp_all add: cn_def sn_def)
  define p1 where "p1 = fold (\<lambda>i. move_rec c (i + 1) c i) (rev [0..<cn]) p"
  define p2 where "p2 = (if \<not> lf then fold (\<lambda>i. move_kid c (i + 1) c i) (rev [0..<cn + 1]) p1 else p1)"
  define p3 where "p3 = move_rec c 0 x (idx - 1) p2"
  define p4 where "p4 = (if \<not> lf then move_kid c 0 s sn p3 else p3)"
  define p5 where "p5 = move_rec x (idx - 1) s (sn - 1) p4"
  define p6 where "p6 = set_node_n c (cn + 1) p5"
  have lf: "node_leaf p1 c = lf" "node_leaf p3 c = lf" using C(2) by (simp_all add: p1_def p2_def p3_def)
  have q: "q = set_node_n s (sn - 1) p6"
    unfolding assms(14) borrow_from_prev_def Let_def ch n p1_def [symmetric] lf p2_def [symmetric] p3_def [symmetric] p4_def [symmetric]
      p5_def [symmetric] p6_def [symmetric] by (rule refl)
  have len: "length (bp_nodes p1) = length (bp_nodes p)" "length (bp_nodes p2) = length (bp_nodes p)"
    "length (bp_nodes p3) = length (bp_nodes p)" "length (bp_nodes p4) = length (bp_nodes p)"
    "length (bp_nodes p5) = length (bp_nodes p)" "length (bp_nodes p6) = length (bp_nodes p)"
    by (simp_all add: p1_def p2_def p3_def p4_def p5_def p6_def)
  have ar: "bt_arrays sh p1" "bt_arrays sh p2" "bt_arrays sh p3" "bt_arrays sh p4" "bt_arrays sh p5" "bt_arrays sh p6"
    using assms(1) by (simp_all add: p1_def p2_def p3_def p4_def p5_def p6_def)
  note good = ar [THEN bt_arrays_good]
  have lc: "cn < length (bt_arr p c)" "cn + 1 < length (bt_kid p c)" "idx - 1 < length (bt_arr p x)"
    "sn - 1 < length (bt_arr p s)" "sn < length (bt_kid p s)" "0 < sn" "cn + 1 < 2 ^ 15" "sn < 2 ^ 15"
    using assms(3,4,9,10) C(11,12) X(4,11) S(4,11,12) bt_max [of sh] by (auto simp: cn_def sn_def)
  have a1: "bt_arr p1 m = (if m = c then fold (\<lambda>j xs. xs[j + 1 := xs ! j]) (rev [0..<cn]) (bt_arr p c) else bt_arr p m)" for m
    unfolding p1_def using lc(1) C(1) by (subst arr_moves [OF _ _ bt_arrays_good [OF assms(1)]]) auto
  have k2: "bt_kid p2 m = (if m = c \<and> \<not> lf then fold (\<lambda>j xs. xs[j + 1 := xs ! j]) (rev [0..<cn + 1]) (bt_kid p c) else bt_kid p m)" for m
    unfolding p2_def using lc(2) C(1) kid_moves [OF _ _ good(1), of c c "rev [0..<cn + 1]" "\<lambda>j. j" "\<lambda>j. j + 1" m]
    by (auto simp: p1_def)
  have a2: "bt_arr p2 m = bt_arr p1 m" for m by (simp add: p2_def)
  have a3: "bt_arr p3 m = (if m = c then (bt_arr p1 c)[0 := bt_arr p x ! (idx - 1)] else bt_arr p m)" for m
    using arr_move [OF good(2), of c x "idx - 1" 0 m] C(1) X(1) lc(3) assms(11) by (auto simp: p3_def len a2 a1)
  have k4: "bt_kid p4 m = (if m = c \<and> \<not> lf then (bt_kid p2 c)[0 := bt_kid p s ! sn] else bt_kid p m)" for m
    unfolding p4_def using kid_move [OF good(3), of c s sn 0 m] C(1) S(1) lc(5) assms(13) by (auto simp: len k2 p3_def)
  have a4: "bt_arr p4 m = bt_arr p3 m" for m by (simp add: p4_def)
  have a5: "bt_arr p5 m = (if m = x then (bt_arr p x)[idx - 1 := bt_arr p s ! (sn - 1)] else bt_arr p3 m)" for m
    using arr_move [OF good(4), of x s "sn - 1" "idx - 1" m] X(1) S(1) lc(4) assms(11,13) by (auto simp: p5_def len a4 a3)
  have o5: "node_n p5 m = node_n p m" "node_leaf p5 m = node_leaf p m" "bt_kid p5 m = bt_kid p4 m" for m
    by (simp_all add: p5_def p4_def p3_def p2_def p1_def)
  have cl: "c < length (bp_nodes p5)" "s < length (bp_nodes p6)" using C(1) S(1) len by simp_all
  have sn1: "sn - 1 < 2 ^ 15" using lc(8) by simp
  have r6: "node_n p6 m = (if m = c then cn + 1 else node_n p5 m)" "node_leaf p6 m = node_leaf p5 m" "bt_arr p6 m = bt_arr p5 m"
    "bt_kid p6 m = bt_kid p5 m" for m
    unfolding p6_def read_set_n(1) [OF cl(1) lc(7)] read_set_n(2-) [OF cl(1)] by simp_all
  have R: "node_n q m = (if m = s then sn - 1 else if m = c then cn + 1 else node_n p m)" "node_leaf q m = node_leaf p m"
    "bt_arr q m = bt_arr p5 m" "bt_kid q m = bt_kid p4 m" for m
    unfolding q read_set_n(1) [OF cl(2) sn1] read_set_n(2-) [OF cl(2)] r6 o5 by simp_all
  show "bt_arrays sh q" "length (bp_nodes q) = length (bp_nodes p)" using ar(6) len by (simp_all add: q)
  then have ql: "length (bp_nodes q) = length (bp_nodes p)" by simp
  show "bp_free q = bp_free p" "bp_root q = bp_root p" "bp_size q = bp_size p"
    by (simp_all add: q p6_def p5_def p4_def p3_def p2_def p1_def)
  show "same_node p q m" if "m \<notin> {x, c, s}" for m using that ql by (auto simp: same_node_def R a5 a3 k4)
  have sl: "bt_arr p s ! (sn - 1) = last sr" using S(5) [of "sn - 1"] lc(6) by (simp add: sn_def last_conv_nth)
  show "bt_at sh q x False (rs[idx - 1 := last sr]) cs"
    unfolding bt_at_def using X(1,2,3,4,6,9) ql assms(11,12) take_update_swap [of "length rs" "bt_arr p x" "idx - 1" "last sr"]
    by (auto simp: R a5 [unfolded sl] k4)
  have sk: "bt_kid p s ! sn = last sk" if "\<not> lf"
    using S(7) [OF that] S(8) [OF that, of sn] last_conv_nth [of sk] by (cases "sk = []") (simp_all add: sn_def)
  have kc: "take (cn + 2) ((bt_kid p2 c)[0 := bt_kid p s ! sn]) = last sk # ck" if "\<not> lf"
    using shift_right_insert [of 0 "cn + 1" "bt_kid p c" "bt_kid p s ! sn"] lc(2) that C(9) [OF that] sk [OF that]
    by (auto simp: k2 insert_at_def cn_def)
  have "take (cn + 1) ((bt_arr p1 c)[0 := bt_arr p x ! (idx - 1)]) = rs ! (idx - 1) # cr"
    using shift_right_insert [of 0 cn "bt_arr p c" "bt_arr p x ! (idx - 1)"] lc(1) C(6) X(5) [of "idx - 1"] assms(3,4)
    by (simp add: a1 insert_at_def cn_def)
  then show "bt_at sh q c lf (rs ! (idx - 1) # cr) (if lf then [] else last sk # ck)"
    unfolding bt_at_def using C(1,2) ql assms(9,11,13) kc by (auto simp: R a5 a3 k4 cn_def)
  show "bt_at sh q s lf (butlast sr) (butlast sk)"
    unfolding bt_at_def using S(1,2,4,10) ql assms(10,12,13) bt_at_take [OF assms(1,8), of "sn - 1"] bt_at_take(2) [OF assms(1,8), of sn] S(7)
    by (auto simp: R a5 a3 k4 sn_def butlast_conv_take)
qed

lemma take_update_last: "n < length xs \<Longrightarrow> take (n + 1) (xs[n := a]) = take n xs @ [a]"
  by (simp add: take_Suc_conv_app_nth)

lemma borrow_from_next_ok:
  assumes "bt_arrays sh p" "bt_at sh p x False rs cs" "idx < length rs" "c = cs ! idx" "s = cs ! (idx + 1)"
    "bt_at sh p c lf cr ck" "bt_at sh p s lf sr sk" "length cr < bt_max_keys sh" "sr \<noteq> []" "x \<noteq> c" "x \<noteq> s" "c \<noteq> s"
    "q = borrow_from_next x idx p"
  shows "bt_arrays sh q" "bt_at sh q x False (rs[idx := hd sr]) cs"
    "bt_at sh q c lf (cr @ [rs ! idx]) (if lf then [] else ck @ [hd sk])" "bt_at sh q s lf (tl sr) (tl sk)"
    "m \<notin> {x, c, s} \<Longrightarrow> same_node p q m" "length (bp_nodes q) = length (bp_nodes p)" "bp_free q = bp_free p"
    "bp_root q = bp_root p" "bp_size q = bp_size p"
proof -
  define cn where "cn = length cr"
  define sn where "sn = length sr"
  note X = bt_atD [OF assms(1,2)] and C = bt_atD [OF assms(1,6)] and S = bt_atD [OF assms(1,7)]
  have ch: "node_child_at p x idx = c" "node_child_at p x (idx + 1) = s"
    using bt_at_child(1) [OF assms(1,2), of idx] bt_at_child(1) [OF assms(1,2), of "idx + 1"] assms(3-5) by simp_all
  have n: "node_n p c = cn" "node_n p s = sn" using C(3) S(3) by (simp_all add: cn_def sn_def)
  define p1 where "p1 = move_rec c cn x idx p"
  define p2 where "p2 = (if \<not> lf then move_kid c (cn + 1) s 0 p1 else p1)"
  define p3 where "p3 = move_rec x idx s 0 p2"
  define p4 where "p4 = fold (\<lambda>i. move_rec s (i - 1) s i) [1..<sn] p3"
  define p5 where "p5 = (if \<not> lf then fold (\<lambda>i. move_kid s (i - 1) s i) [1..<sn + 1] p4 else p4)"
  define p6 where "p6 = set_node_n c (cn + 1) p5"
  have lf: "node_leaf p1 c = lf" "node_leaf p4 s = lf" using C(2) S(2) by (simp_all add: p1_def p2_def p3_def p4_def)
  have q: "q = set_node_n s (sn - 1) p6"
    unfolding assms(13) borrow_from_next_def Let_def ch n p1_def [symmetric] lf p2_def [symmetric] p3_def [symmetric] p4_def [symmetric]
      p5_def [symmetric] p6_def [symmetric] by (rule refl)
  have len: "length (bp_nodes p1) = length (bp_nodes p)" "length (bp_nodes p2) = length (bp_nodes p)"
    "length (bp_nodes p3) = length (bp_nodes p)" "length (bp_nodes p4) = length (bp_nodes p)"
    "length (bp_nodes p5) = length (bp_nodes p)" "length (bp_nodes p6) = length (bp_nodes p)"
    by (simp_all add: p1_def p2_def p3_def p4_def p5_def p6_def)
  have ar: "bt_arrays sh p1" "bt_arrays sh p2" "bt_arrays sh p3" "bt_arrays sh p4" "bt_arrays sh p5" "bt_arrays sh p6"
    using assms(1) by (simp_all add: p1_def p2_def p3_def p4_def p5_def p6_def)
  note good = ar [THEN bt_arrays_good]
  have lc: "cn < length (bt_arr p c)" "cn + 1 < length (bt_kid p c)" "idx < length (bt_arr p x)"
    "sn \<le> length (bt_arr p s)" "sn + 1 \<le> length (bt_kid p s)" "0 < sn" "cn + 1 < 2 ^ 15" "sn < 2 ^ 15"
    using assms(3,8,9) C(11,12) X(4,11) S(4,11,12) bt_max [of sh] by (auto simp: cn_def sn_def)
  have kne: "bt_kid p s \<noteq> []" "bt_arr p s \<noteq> []" using lc(4-6) by auto
  have a1: "bt_arr p1 m = (if m = c then (bt_arr p c)[cn := bt_arr p x ! idx] else bt_arr p m)" for m
    using arr_move [OF bt_arrays_good [OF assms(1)], of c x idx cn m] C(1) X(1) lc(3) by (simp add: p1_def)
  have k2: "bt_kid p2 m = (if m = c \<and> \<not> lf then (bt_kid p c)[cn + 1 := bt_kid p s ! 0] else bt_kid p m)" for m
    unfolding p2_def using kid_move [OF good(1), of c s 0 "cn + 1" m] C(1) S(1) kne(1) assms(12) by (auto simp: len p1_def)
  have a2: "bt_arr p2 m = bt_arr p1 m" for m by (simp add: p2_def)
  have a3: "bt_arr p3 m = (if m = x then (bt_arr p x)[idx := bt_arr p s ! 0] else bt_arr p1 m)" for m
    using arr_move [OF good(2), of x s 0 idx m] X(1) S(1) kne(2) assms(10,12) by (auto simp: p3_def len a2 a1)
  have a4: "bt_arr p4 m = (if m = s then fold (\<lambda>j xs. xs[j - 1 := xs ! j]) [1..<sn] (bt_arr p s) else bt_arr p3 m)" for m
    unfolding p4_def using S(1) len lc(4) assms(11,12) by (subst arr_moves [OF _ _ good(3)]) (auto simp: a3 a1)
  have o4: "bt_kid p4 m = bt_kid p2 m" for m by (simp add: p4_def p3_def)
  have k5: "bt_kid p5 m = (if m = s \<and> \<not> lf then fold (\<lambda>j xs. xs[j - 1 := xs ! j]) [1..<sn + 1] (bt_kid p s) else bt_kid p2 m)" for m
    unfolding p5_def using kid_moves [OF _ _ good(4), of s s "[1..<sn + 1]" "\<lambda>j. j" "\<lambda>j. j - 1" m] S(1) len lc(5) assms(12)
    by (auto simp: o4 k2)
  have o5: "node_n p5 m = node_n p m" "node_leaf p5 m = node_leaf p m" "bt_arr p5 m = bt_arr p4 m" for m
    by (simp_all add: p5_def p4_def p3_def p2_def p1_def)
  have cl: "c < length (bp_nodes p5)" "s < length (bp_nodes p6)" using C(1) S(1) len by simp_all
  have sn1: "sn - 1 < 2 ^ 15" using lc(8) by simp
  have r6: "node_n p6 m = (if m = c then cn + 1 else node_n p5 m)" "node_leaf p6 m = node_leaf p5 m" "bt_arr p6 m = bt_arr p5 m"
    "bt_kid p6 m = bt_kid p5 m" for m
    unfolding p6_def read_set_n(1) [OF cl(1) lc(7)] read_set_n(2-) [OF cl(1)] by simp_all
  have R: "node_n q m = (if m = s then sn - 1 else if m = c then cn + 1 else node_n p m)" "node_leaf q m = node_leaf p m"
    "bt_arr q m = bt_arr p4 m" "bt_kid q m = bt_kid p5 m" for m
    unfolding q read_set_n(1) [OF cl(2) sn1] read_set_n(2-) [OF cl(2)] r6 o5 by simp_all
  show "bt_arrays sh q" "length (bp_nodes q) = length (bp_nodes p)" using ar(6) len by (simp_all add: q)
  then have ql: "length (bp_nodes q) = length (bp_nodes p)" by simp
  show "bp_free q = bp_free p" "bp_root q = bp_root p" "bp_size q = bp_size p"
    by (simp_all add: q p6_def p5_def p4_def p3_def p2_def p1_def)
  show "same_node p q m" if "m \<notin> {x, c, s}" for m using that ql by (auto simp: same_node_def R a4 a3 a1 k5 k2)
  have sl: "bt_arr p s ! 0 = hd sr" using S(5) [of 0] lc(6) by (simp add: sn_def hd_conv_nth)
  show "bt_at sh q x False (rs[idx := hd sr]) cs"
    unfolding bt_at_def using X(1,2,3,4,6,9) ql assms(10,11) take_update_swap [of "length rs" "bt_arr p x" idx "hd sr"]
    by (auto simp: R a4 a3 a1 k5 k2 sl)
  have sk: "bt_kid p s ! 0 = hd sk" if "\<not> lf"
    using S(7) [OF that] S(8) [OF that, of 0] hd_conv_nth [of sk] by (cases "sk = []") simp_all
  have kc: "take (cn + 2) ((bt_kid p c)[cn + 1 := bt_kid p s ! 0]) = ck @ [hd sk]" if "\<not> lf"
    using take_update_last [OF lc(2), of "bt_kid p s ! 0"] C(9) [OF that] sk [OF that] by (auto simp: cn_def)
  have "take (cn + 1) ((bt_arr p c)[cn := bt_arr p x ! idx]) = cr @ [rs ! idx]"
    using take_update_last [OF lc(1)] C(6) X(5) [OF assms(3)] by (simp add: cn_def)
  then show "bt_at sh q c lf (cr @ [rs ! idx]) (if lf then [] else ck @ [hd sk])"
    unfolding bt_at_def using C(1,2) ql assms(8,10,12) kc by (auto simp: R a4 a3 a1 k5 k2 cn_def)
  have kt: "take sn (fold (\<lambda>j xs. xs[j - 1 := xs ! j]) [1..<sn + 1] (bt_kid p s)) = tl sk" if "\<not> lf"
    using shift_left_erase [of 0 "sn + 1" "bt_kid p s"] lc(5) S(9) [OF that] by (simp add: sn_def)
  have "take (sn - 1) (fold (\<lambda>j xs. xs[j - 1 := xs ! j]) [1..<sn] (bt_arr p s)) = tl sr"
    using shift_left_erase [of 0 sn "bt_arr p s"] lc(4,6) S(6) by (simp add: sn_def)
  then show "bt_at sh q s lf (tl sr) (tl sk)"
    unfolding bt_at_def using S(1,2,4,10) ql assms(11,12) kt lc(6) by (auto simp: R a4 k5 sn_def)
qed

lemma bt_merge_ok:
  assumes "bt_arrays sh p" "bt_at sh p x False rs cs" "idx < length rs" "c = cs ! idx" "s = cs ! (idx + 1)"
    "bt_at sh p c lf cr ck" "bt_at sh p s lf sr sk" "length cr = bt_T sh - 1" "length sr = bt_T sh - 1" "x \<noteq> c" "x \<noteq> s" "c \<noteq> s"
    "q = bt_merge sh x idx p"
  shows "bt_arrays sh q" "bt_at sh q x False (erase_at idx rs) (erase_at (idx + 1) cs)"
    "bt_at sh q c lf (cr @ rs ! idx # sr) (ck @ sk)"
    "m \<notin> {x, c, s} \<Longrightarrow> same_node p q m" "length (bp_nodes q) = length (bp_nodes p)" "bp_free q = bp_free p @ [s]"
    "bp_root q = bp_root p" "bp_size q = bp_size p"
proof -
  define T where "T = bt_T sh"
  define xn where "xn = length rs"
  define sn where "sn = length sr"
  note X = bt_atD [OF assms(1,2)] and C = bt_atD [OF assms(1,6)] and S = bt_atD [OF assms(1,7)]
  have T: "2 \<le> T" "T \<le> 16" using bt_T_bounds by (auto simp: T_def)
  have l: "bt_max_keys sh = 2 * T - 1" "bt_max_children sh = 2 * T" by (simp_all add: T_def bt_max_keys_def bt_max_children_def)
  have ch: "node_child_at p x idx = c" "node_child_at p x (idx + 1) = s"
    using bt_at_child(1) [OF assms(1,2), of idx] bt_at_child(1) [OF assms(1,2), of "idx + 1"] assms(3-5) by simp_all
  have n: "node_n p s = sn" "node_n p x = xn" "sn = T - 1" "length cr = T - 1"
    using X(3) S(3) assms(8,9) by (simp_all add: sn_def xn_def T_def)
  define p1 where "p1 = move_rec c (T - 1) x idx p"
  define p2 where "p2 = fold (\<lambda>i. move_rec c (i + T) s i) [0..<sn] p1"
  define p3 where "p3 = (if \<not> lf then fold (\<lambda>i. move_kid c (i + T) s i) [0..<sn + 1] p2 else p2)"
  define p4 where "p4 = fold (\<lambda>i. move_rec x (i - 1) x i) [idx + 1..<xn] p3"
  define p5 where "p5 = fold (\<lambda>i. move_kid x (i - 1) x i) [idx + 2..<xn + 1] p4"
  define p6 where "p6 = set_node_n c (T - 1 + sn + 1) p5"
  define p7 where "p7 = set_node_n x (xn - 1) p6"
  have lf: "node_leaf p2 c = lf" "node_n p5 c = T - 1"
    using C(2,3) n(4) by (simp_all add: p1_def p2_def p3_def p4_def p5_def)
  have q: "q = bt_free_node s p7"
    unfolding assms(13) bt_merge_def Let_def ch n(1,2) T_def [symmetric] p1_def [symmetric] p2_def [symmetric] lf p3_def [symmetric]
      p4_def [symmetric] p5_def [symmetric] p6_def [symmetric] p7_def [symmetric] by (rule refl)
  have len: "length (bp_nodes p1) = length (bp_nodes p)" "length (bp_nodes p2) = length (bp_nodes p)"
    "length (bp_nodes p3) = length (bp_nodes p)" "length (bp_nodes p4) = length (bp_nodes p)"
    "length (bp_nodes p5) = length (bp_nodes p)" "length (bp_nodes p6) = length (bp_nodes p)" "length (bp_nodes p7) = length (bp_nodes p)"
    by (simp_all add: p1_def p2_def p3_def p4_def p5_def p6_def p7_def)
  have ar: "bt_arrays sh p1" "bt_arrays sh p2" "bt_arrays sh p3" "bt_arrays sh p4" "bt_arrays sh p5" "bt_arrays sh p6" "bt_arrays sh p7"
    using assms(1) by (simp_all add: p1_def p2_def p3_def p4_def p5_def p6_def p7_def)
  note good = ar [THEN bt_arrays_good]
  have lc: "length (bt_arr p c) = 2 * T - 1" "length (bt_kid p c) = 2 * T" "xn \<le> length (bt_arr p x)" "xn + 1 \<le> length (bt_kid p x)"
    "length (bt_arr p s) = 2 * T - 1" "length (bt_kid p s) = 2 * T" "idx < xn" "T - 1 + sn + 1 < 2 ^ 15" "xn - 1 < 2 ^ 15"
    using assms(3) C(11,12) X(4,11,12) S(4,11,12) l T n(3) by (auto simp: xn_def)
  have a1: "bt_arr p1 m = (if m = c then (bt_arr p c)[T - 1 := bt_arr p x ! idx] else bt_arr p m)" for m
    using arr_move [OF bt_arrays_good [OF assms(1)], of c x idx "T - 1" m] C(1) X(1) lc(3,7) by (simp add: p1_def)
  have a2: "bt_arr p2 m = (if m = c then fold (\<lambda>j xs. xs[j + T := bt_arr p s ! j]) [0..<sn] (bt_arr p1 c) else bt_arr p1 m)" for m
    unfolding p2_def using C(1) S(1) len(1) lc(5) n(3) assms(12) by (subst arr_moves [OF _ _ good(1)]) (auto simp: a1)
  have k3: "bt_kid p3 m = (if m = c \<and> \<not> lf then fold (\<lambda>j xs. xs[j + T := bt_kid p s ! j]) [0..<sn + 1] (bt_kid p c) else bt_kid p m)" for m
    unfolding p3_def using kid_moves [OF _ _ good(2), of c s "[0..<sn + 1]" "\<lambda>j. j" "\<lambda>j. j + T" m] C(1) S(1) len lc(6) n(3) assms(12) T
    by (auto simp: p2_def p1_def)
  have a3: "bt_arr p3 m = bt_arr p2 m" for m by (simp add: p3_def)
  have a4: "bt_arr p4 m = (if m = x then fold (\<lambda>j xs. xs[j - 1 := xs ! j]) [idx + 1..<xn] (bt_arr p x) else bt_arr p2 m)" for m
    unfolding p4_def using X(1) len lc(3) assms(10) by (subst arr_moves [OF _ _ good(3)]) (auto simp: a3 a2 a1)
  have k5: "bt_kid p5 m = (if m = x then fold (\<lambda>j xs. xs[j - 1 := xs ! j]) [idx + 2..<xn + 1] (bt_kid p x) else bt_kid p3 m)" for m
    unfolding p5_def using X(1) len lc(4) assms(10) by (subst kid_moves [OF _ _ good(4)]) (auto simp: k3 p4_def)
  have o5: "node_n p5 m = node_n p m" "node_leaf p5 m = node_leaf p m" "bt_arr p5 m = bt_arr p4 m" for m
    by (simp_all add: p5_def p4_def p3_def p2_def p1_def)
  have cl: "c < length (bp_nodes p5)" "x < length (bp_nodes p6)" using C(1) X(1) len by simp_all
  have r6: "node_n p6 m = (if m = c then T - 1 + sn + 1 else node_n p5 m)" "node_leaf p6 m = node_leaf p5 m" "bt_arr p6 m = bt_arr p5 m"
    "bt_kid p6 m = bt_kid p5 m" for m
    unfolding p6_def read_set_n(1) [OF cl(1) lc(8)] read_set_n(2-) [OF cl(1)] by simp_all
  have r7: "node_n p7 m = (if m = x then xn - 1 else if m = c then T - 1 + sn + 1 else node_n p m)" "node_leaf p7 m = node_leaf p m"
    "bt_arr p7 m = bt_arr p4 m" "bt_kid p7 m = bt_kid p5 m" for m
    unfolding p7_def read_set_n(1) [OF cl(2) lc(9)] read_set_n(2-) [OF cl(2)] r6 o5 by simp_all
  have R: "node_n q m = node_n p7 m" "node_leaf q m = node_leaf p m" "bt_arr q m = bt_arr p4 m" "bt_kid q m = bt_kid p5 m"
    "bp_nodes q = bp_nodes p7" for m
    using r7 [of m] by (simp_all add: q bt_free_node_def node_read_defs)
  show "bt_arrays sh q" using ar(7) by (simp add: bt_arrays_def R(5))
  show "length (bp_nodes q) = length (bp_nodes p)" using len R(5) by simp
  then have ql: "length (bp_nodes q) = length (bp_nodes p)" by simp
  show "bp_free q = bp_free p @ [s]" "bp_root q = bp_root p" "bp_size q = bp_size p"
    by (simp_all add: q bt_free_node_def p7_def p6_def p5_def p4_def p3_def p2_def p1_def)
  show "same_node p q m" if "m \<notin> {x, c, s}" for m using that ql by (auto simp: same_node_def R r7 a4 a2 a1 k5 k3)
  have xn1: "Suc (length rs - Suc 0) = length rs" using assms(3) by simp
  have "take (xn - 1) (fold (\<lambda>j xs. xs[j - 1 := xs ! j]) [idx + 1..<xn] (bt_arr p x)) = erase_at idx rs"
    using shift_left_erase [OF lc(7,3)] X(6) by (simp add: xn_def)
  moreover have "take xn (fold (\<lambda>j xs. xs[j - 1 := xs ! j]) [idx + 2..<xn + 1] (bt_kid p x)) = erase_at (idx + 1) cs"
    using shift_left_erase [of "idx + 1" "xn + 1" "bt_kid p x"] lc(4,7) X(9) by (simp add: xn_def)
  ultimately show "bt_at sh q x False (erase_at idx rs) (erase_at (idx + 1) cs)"
    unfolding bt_at_def using X(1,2,4) ql assms(3) xn1 by (auto simp: R r7 a4 k5 xn_def)
  have tc: "take T ((bt_arr p c)[T - 1 := bt_arr p x ! idx]) = cr @ [rs ! idx]"
    using take_update_last [of "T - 1" "bt_arr p c" "bt_arr p x ! idx"] lc(1) T C(6) X(5) [OF assms(3)] n(4) by simp
  have "take (T + sn) (bt_arr p2 c) = cr @ rs ! idx # sr"
    using copy_append [of T sn "bt_arr p1 c" "bt_arr p s"] lc(1,5) n(3) T tc S(6) by (simp add: a2 a1 sn_def)
  moreover have "take (T + T) (bt_kid p3 c) = ck @ sk" if "\<not> lf"
  proof -
    have s1: "sn + 1 = T" using n(3) T by simp
    have "take T (bt_kid p c) = ck" "take T (bt_kid p s) = sk"
      using C(9) [OF that] S(9) [OF that] n(4) s1 T by (simp_all add: sn_def)
    then show ?thesis using copy_append [of T T "bt_kid p c" "bt_kid p s"] lc(2,6) that by (simp add: k3 [unfolded s1])
  qed
  ultimately show "bt_at sh q c lf (cr @ rs ! idx # sr) (ck @ sk)"
    unfolding bt_at_def using C(1,2,10) S(10) ql assms(10) n T l by (auto simp: R r7 a4 k5 sn_def)
qed

section \<open>Leaves and positions\<close>

lemma leaf_shift_fold:
  assumes "x < length (bp_nodes p)"
  shows "bt_arrays sh p \<Longrightarrow> n < bt_max_keys sh \<Longrightarrow>
    leaf_shift x k n p = (descend_index p x k n, fold (\<lambda>j. move_rec x (j + 1) x j) (rev [descend_index p x k n..<n]) p)"
  using assms
proof (induction n arbitrary: p)
  case (Suc n)
  show ?case
  proof (cases "k < node_key_at p x n")
    case True
    define p' where "p' = move_rec x (n + 1) x n p"
    have a: "bt_arr p' x = (bt_arr p x)[n + 1 := bt_arr p x ! n]"
      using arr_move [OF bt_arrays_good, of sh p x x n "n + 1" x] Suc.prems by (simp add: p'_def bt_arrays_iff)
    have ar: "bt_arrays sh p'" using Suc.prems(1) by (simp add: p'_def)
    have keys: "node_key_at p' x j = node_key_at p x j" if "j < n" for j
      using arr_nth_read [OF Suc.prems(1,3), of j] arr_nth_read [OF ar, of x j] a that Suc.prems(2,3) by (simp add: p'_def)
    have "descend_index p' x k m = descend_index p x k m" if "m \<le> n" for m
      using that keys by (induction m) simp_all
    then have e: "descend_index p' x k n = descend_index p x k n" by simp
    have d: "descend_index p x k n \<le> n" by (induction n) simp_all
    show ?thesis using Suc.IH [OF ar] Suc.prems(2,3) True d e by (simp add: p'_def)
  qed simp
qed simp

text \<open>The position of a key among the keys of a node: the place where the downward scan stops.\<close>
fun scan_down :: "u64 \<Rightarrow> slot list \<Rightarrow> nat \<Rightarrow> nat" where
  "scan_down k rs 0 = 0"
| "scan_down k rs (Suc i) = (if k < fst (rs ! i) then scan_down k rs i else Suc i)"

lemma descend_index_scan:
  assumes "bt_arrays sh p" "bt_at sh p x leaf rs cs"
  shows "n \<le> length rs \<Longrightarrow> descend_index p x k n = scan_down k rs n"
  using node_at_read(1) [OF assms] by (induction n) simp_all

lemma scan_down_bounds:
  "scan_down k rs n \<le> n"
  "scan_down k rs n \<le> j \<Longrightarrow> j < n \<Longrightarrow> k < fst (rs ! j)"
  "0 < scan_down k rs n \<Longrightarrow> \<not> k < fst (rs ! (scan_down k rs n - 1))"
  by (induction n) (auto simp: less_Suc_eq split: if_splits)

lemma leaf_insert_ok:
  assumes "bt_arrays sh p" "bt_at sh p x True rs cs" "length rs < bt_max_keys sh" "q = leaf_insert x k v p"
  shows "bt_arrays sh q" "bt_at sh q x True (insert_at (scan_down k rs (length rs)) (k, v) rs) []"
    "m \<noteq> x \<Longrightarrow> same_node p q m" "length (bp_nodes q) = length (bp_nodes p)" "bp_free q = bp_free p"
    "bp_root q = bp_root p" "bp_size q = bp_size p"
proof -
  note X = bt_atD [OF assms(1,2)]
  define n where "n = length rs"
  define i where "i = scan_down k rs n"
  have i: "i \<le> n" by (simp add: i_def scan_down_bounds(1))
  define p1 where "p1 = fold (\<lambda>j. move_rec x (j + 1) x j) (rev [i..<n]) p"
  have sh: "leaf_shift x k n p = (i, p1)"
    using leaf_shift_fold [OF X(1) assms(1), of n k] assms(3) descend_index_scan [OF assms(1,2), of n k]
    by (simp add: p1_def i_def n_def)
  have q: "q = set_node_n x (n + 1) (set_rec x i (k, v) p1)"
    using X(3) sh by (simp add: assms(4) leaf_insert_def Let_def set_rec_def n_def)
  have l: "n < length (bt_arr p x)" using X(11) assms(3) by (simp add: n_def)
  have a1: "bt_arr p1 m = (if m = x then fold (\<lambda>j xs. xs[j + 1 := xs ! j]) (rev [i..<n]) (bt_arr p x) else bt_arr p m)" for m
    unfolding p1_def using X(1) l by (subst arr_moves [OF _ _ bt_arrays_good [OF assms(1)]]) auto
  have o1: "node_n p1 m = node_n p m" "node_leaf p1 m = node_leaf p m" "bt_kid p1 m = bt_kid p m"
    "length (bp_nodes p1) = length (bp_nodes p)" for m by (simp_all add: p1_def)
  have xl: "x < length (bp_nodes p1)" "x < length (bp_nodes (set_rec x i (k, v) p1))" using X(1) o1 by simp_all
  have n15: "n + 1 < 2 ^ 15" using assms(3) bt_max [of sh] by (simp add: n_def)
  have R: "node_n q m = (if m = x then n + 1 else node_n p m)" "node_leaf q m = node_leaf p m"
    "bt_arr q m = (if m = x then (bt_arr p1 x)[i := (k, v)] else bt_arr p m)" "bt_kid q m = bt_kid p m" for m
    unfolding q read_set_n(1) [OF xl(2) n15] read_set_n(2-) [OF xl(2)] read_set_rec [OF xl(1)] o1 by (simp_all add: a1)
  show "bt_arrays sh q" "length (bp_nodes q) = length (bp_nodes p)" "bp_free q = bp_free p" "bp_root q = bp_root p" "bp_size q = bp_size p"
    using assms(1) by (simp_all add: q p1_def)
  then have ql: "length (bp_nodes q) = length (bp_nodes p)" by simp
  then show "same_node p q m" if "m \<noteq> x" for m using that by (simp add: same_node_def R)
  have "take (n + 1) ((bt_arr p1 x)[i := (k, v)]) = insert_at i (k, v) rs"
    using shift_right_insert [OF i l] X(6) by (simp add: a1 n_def)
  then show "bt_at sh q x True (insert_at (scan_down k rs (length rs)) (k, v) rs) []"
    using X(1,2) assms(3) i ql by (simp add: bt_at_def R n_def i_def)
qed

lemma leaf_remove_ok:
  assumes "bt_arrays sh p" "bt_at sh p x True rs cs" "idx < length rs" "q = leaf_remove x idx p"
  shows "bt_arrays sh q" "bt_at sh q x True (erase_at idx rs) []"
    "m \<noteq> x \<Longrightarrow> same_node p q m" "length (bp_nodes q) = length (bp_nodes p)" "bp_free q = bp_free p"
    "bp_root q = bp_root p" "bp_size q = bp_size p"
proof -
  note X = bt_atD [OF assms(1,2)]
  define n where "n = length rs"
  define p1 where "p1 = fold (\<lambda>j. move_rec x (j - 1) x j) [idx + 1..<n] p"
  have q: "q = set_node_n x (n - 1) p1" using X(3) by (simp add: assms(4) leaf_remove_def Let_def n_def p1_def)
  have l: "n \<le> length (bt_arr p x)" using X(4,11) by (simp add: n_def)
  have a1: "bt_arr p1 m = (if m = x then fold (\<lambda>j xs. xs[j - 1 := xs ! j]) [idx + 1..<n] (bt_arr p x) else bt_arr p m)" for m
    unfolding p1_def using X(1) l by (subst arr_moves [OF _ _ bt_arrays_good [OF assms(1)]]) auto
  have o1: "node_n p1 m = node_n p m" "node_leaf p1 m = node_leaf p m" "bt_kid p1 m = bt_kid p m"
    "length (bp_nodes p1) = length (bp_nodes p)" for m by (simp_all add: p1_def)
  have xl: "x < length (bp_nodes p1)" using X(1) o1 by simp
  have n15: "n - 1 < 2 ^ 15" using X(4) bt_max [of sh] by (simp add: n_def)
  have R: "node_n q m = (if m = x then n - 1 else node_n p m)" "node_leaf q m = node_leaf p m"
    "bt_arr q m = bt_arr p1 m" "bt_kid q m = bt_kid p m" for m
    unfolding q read_set_n(1) [OF xl n15] read_set_n(2-) [OF xl] o1 by simp_all
  show "bt_arrays sh q" "length (bp_nodes q) = length (bp_nodes p)" "bp_free q = bp_free p" "bp_root q = bp_root p" "bp_size q = bp_size p"
    using assms(1) by (simp_all add: q p1_def)
  then have ql: "length (bp_nodes q) = length (bp_nodes p)" by simp
  then show "same_node p q m" if "m \<noteq> x" for m using that by (simp add: same_node_def R a1)
  have "take (n - 1) (bt_arr p1 x) = erase_at idx rs"
    using shift_left_erase [of idx n "bt_arr p x"] l assms(3) X(6) by (simp add: a1 n_def)
  then show "bt_at sh q x True (erase_at idx rs) []"
    using X(1,2,4) assms(3) ql by (simp add: bt_at_def R n_def)
qed

text \<open>The upward scan stops at the first key that is not below \<open>k\<close>.\<close>
lemma find_key_spec:
  assumes "bt_arrays sh p" "bt_at sh p x leaf rs cs"
  shows "i \<le> length rs \<Longrightarrow> find_key p x k i \<le> length rs \<and> i \<le> find_key p x k i
     \<and> (\<forall>j. i \<le> j \<and> j < find_key p x k i \<longrightarrow> fst (rs ! j) < k)
     \<and> (find_key p x k i < length rs \<longrightarrow> \<not> fst (rs ! find_key p x k i) < k)"
proof (induction "length rs - i" arbitrary: i rule: less_induct)
  case less
  have n: "node_n p x = length rs" using bt_atD(3) [OF assms] .
  show ?case
  proof (cases "i < length rs \<and> fst (rs ! i) < k")
    case True
    then have e: "find_key p x k i = find_key p x k (i + 1)"
      using node_at_read(1) [OF assms, of i] by (subst find_key.simps) (simp add: n)
    have "j = i \<or> i + 1 \<le> j" if "i \<le> j" for j using that by auto
    then show ?thesis using less.hyps [of "i + 1"] True unfolding e by fastforce
  next
    case False
    then have "find_key p x k i = i"
      using node_at_read(1) [OF assms, of i] by (subst find_key.simps) (auto simp: n)
    then show ?thesis using False less.prems by auto
  qed
qed

end
