(* ===== verification/BTree_Organ.thy ===== *)
theory BTree_Organ imports BTree_Nodes begin

text \<open>
  The B-tree organ: \<^verbatim>\<open>BTreeTraversalOrgan\<close> and \<^verbatim>\<open>ComposedBTreeSearch\<close> on the node pool of
  \<open>BTree_Nodes\<close>.  Insertion splits full children on the way down, removal refills children on the way
  down; all recursive calls of the code are tail calls, so that each is one partial function.

  A subtree of height \<open>h\<close> at a node has its records in order (\<open>bt_list\<close>), its nodes (\<open>bt_ids\<close>) and a
  well-formedness predicate (\<open>bt_wf\<close>).  The nodes of the pool are divided into the free list, the nodes
  of the subtree under consideration and the rest (\<open>bt_space\<close>); every operation on a subtree leaves the
  rest as it is, so that it can be put back into its parent.
\<close>

section \<open>The traversal\<close>

text \<open>The loop shared by \<^verbatim>\<open>contains\<close>, \<^verbatim>\<open>update_existing\<close> and \<^verbatim>\<open>lookup_in\<close>: the node and place of a key.\<close>
partial_function (option) bt_search :: "bt_pool \<Rightarrow> u64 \<Rightarrow> nat \<Rightarrow> (nat \<times> nat) option option" where
  "bt_search p k cur =
     (if cur = bt_nil then Some None
      else let n = node_n p cur; i = find_key p cur k 0
           in if i < n \<and> node_key_at p cur i = k then Some (Some (cur, i))
              else bt_search p k (if node_leaf p cur then bt_nil else node_child_at p cur i))"

definition bt_contains :: "bt_pool \<Rightarrow> u64 \<Rightarrow> bool option" where
  "bt_contains p k = map_option (\<lambda>r. r \<noteq> None) (bt_search p k (bp_root p))"

definition bt_update_existing :: "u64 \<Rightarrow> u64 \<Rightarrow> bt_pool \<Rightarrow> (bool \<times> bt_pool) option" where
  "bt_update_existing k v p = (case bt_search p k (bp_root p) of
     None \<Rightarrow> None
   | Some None \<Rightarrow> Some (False, p)
   | Some (Some (cur, i)) \<Rightarrow> Some (True, set_node_value_at cur i v p))"

definition bt_lookup :: "bt_pool \<Rightarrow> u64 \<Rightarrow> u64 option option" where
  "bt_lookup p k = map_option (map_option (\<lambda>(cur, i). node_value_at p cur i)) (bt_search p k (bp_root p))"

partial_function (option) bt_insert_nonfull :: "bt_order \<Rightarrow> nat \<Rightarrow> u64 \<Rightarrow> u64 \<Rightarrow> bt_pool \<Rightarrow> bt_pool option" where
  "bt_insert_nonfull sh x k v p =
     (if node_leaf p x then Some (leaf_insert x k v p)
      else let i = descend_index p x k (node_n p x)
           in if node_n p (node_child_at p x i) = bt_max_keys sh
              then let p1 = split_child sh x i p; i1 = (if node_key_at p1 x i < k then i + 1 else i)
                   in bt_insert_nonfull sh (node_child_at p1 x i1) k v p1
              else bt_insert_nonfull sh (node_child_at p x i) k v p)"

definition bt_insert :: "bt_order \<Rightarrow> u64 \<Rightarrow> u64 \<Rightarrow> bt_pool \<Rightarrow> bt_pool option" where
  "bt_insert sh k v p =
     (if bp_root p = bt_nil
      then (let (r, p) = new_node sh True p;
                p = set_node_value_at r 0 v (set_node_key_at r 0 k p)
            in Some (inc_size (bt_set_root r (set_node_n r 1 p))))
      else (case bt_update_existing k v p of
          None \<Rightarrow> None
        | Some (True, p) \<Rightarrow> Some p
        | Some (False, p) \<Rightarrow>
            (let p = (if node_n p (bp_root p) = bt_max_keys sh
                 then (let (s, p) = new_node sh False p;
                           p = set_node_child_at s 0 (bp_root p) p
                       in split_child sh s 0 (bt_set_root s p))
                 else p)
             in map_option inc_size (bt_insert_nonfull sh (bp_root p) k v p))))"

text \<open>The loops to the predecessor and the successor of a record of an inner node.\<close>
partial_function (option) bt_rightmost :: "bt_pool \<Rightarrow> nat \<Rightarrow> nat option" where
  "bt_rightmost p cur = (if \<not> node_leaf p cur then bt_rightmost p (node_child_at p cur (node_n p cur)) else Some cur)"

partial_function (option) bt_leftmost :: "bt_pool \<Rightarrow> nat \<Rightarrow> nat option" where
  "bt_leftmost p cur = (if \<not> node_leaf p cur then bt_leftmost p (node_child_at p cur 0) else Some cur)"

text \<open>\<^verbatim>\<open>remove_from_nonleaf\<close> up to its tail call: the pool, the node and the key to go on with.\<close>
definition bt_remove_nonleaf :: "bt_order \<Rightarrow> nat \<Rightarrow> nat \<Rightarrow> bt_pool \<Rightarrow> (bt_pool \<times> nat \<times> u64) option" where
  "bt_remove_nonleaf sh x idx p =
     (let T = bt_T sh; k = node_key_at p x idx
      in if T \<le> node_n p (node_child_at p x idx)
         then map_option (\<lambda>cur.
             let cn = node_n p cur; pk = node_key_at p cur (cn - 1); pv = node_value_at p cur (cn - 1);
                 p = set_node_value_at x idx pv (set_node_key_at x idx pk p)
             in (p, node_child_at p x idx, pk)) (bt_rightmost p (node_child_at p x idx))
         else if T \<le> node_n p (node_child_at p x (idx + 1))
         then map_option (\<lambda>cur.
             let sk = node_key_at p cur 0; sv = node_value_at p cur 0;
                 p = set_node_value_at x idx sv (set_node_key_at x idx sk p)
             in (p, node_child_at p x (idx + 1), sk)) (bt_leftmost p (node_child_at p x (idx + 1)))
         else (let p = bt_merge sh x idx p in Some (p, node_child_at p x idx, k)))"

partial_function (option) bt_remove_from :: "bt_order \<Rightarrow> nat \<Rightarrow> u64 \<Rightarrow> bt_pool \<Rightarrow> bt_pool option" where
  "bt_remove_from sh x k p =
     (let idx = find_key p x k 0; xn = node_n p x
      in if idx < xn \<and> node_key_at p x idx = k
         then if node_leaf p x then Some (leaf_remove x idx p)
              else Option.bind (bt_remove_nonleaf sh x idx p) (\<lambda>r. bt_remove_from sh (fst (snd r)) (snd (snd r)) (fst r))
         else if node_leaf p x then Some p
         else let p1 = (if node_n p (node_child_at p x idx) < bt_T sh then bt_fill sh x idx p else p);
                  xn2 = node_n p1 x
              in bt_remove_from sh (node_child_at p1 x (if idx = xn \<and> xn2 < idx then idx - 1 else idx)) k p1)"

definition bt_erase :: "bt_order \<Rightarrow> u64 \<Rightarrow> bt_pool \<Rightarrow> (bool \<times> bt_pool) option" where
  "bt_erase sh k p =
     (if bp_root p = bt_nil then Some (False, p)
      else (case bt_contains p k of
          None \<Rightarrow> None
        | Some False \<Rightarrow> Some (False, p)
        | Some True \<Rightarrow> (case bt_remove_from sh (bp_root p) k p of
            None \<Rightarrow> None
          | Some p \<Rightarrow>
              (let p = (if node_n p (bp_root p) = 0
                   then (let old = bp_root p;
                             p = bt_set_root (if node_leaf p old then bt_nil else node_child_at p old 0) p
                         in bt_free_node old p)
                   else p)
               in Some (True, dec_size p)))))"

text \<open>\<^verbatim>\<open>ComposedBTreeSearch::for_each_record\<close>: the stack of frames (its back is the head here), and the frames
  a node pushes.\<close>
record bt_frame =
  bf_node :: nat
  bf_key_index :: nat
  bf_record :: bool

definition bt_push_child :: "bt_pool \<Rightarrow> nat \<Rightarrow> nat \<Rightarrow> bt_frame list \<Rightarrow> bt_frame list" where
  "bt_push_child p x i stack =
     (let c = node_child_at p x i
      in if \<not> node_leaf p x \<and> c \<noteq> bt_nil then \<lparr>bf_node = c, bf_key_index = 0, bf_record = False\<rparr> # stack else stack)"

definition bt_push_node :: "bt_pool \<Rightarrow> nat \<Rightarrow> bt_frame list \<Rightarrow> bt_frame list" where
  "bt_push_node p x stack =
     (let n = node_n p x
      in fold (\<lambda>key_i st. bt_push_child p x key_i (\<lparr>bf_node = x, bf_key_index = key_i, bf_record = True\<rparr> # st))
           (rev [0..<n]) (bt_push_child p x n stack))"

partial_function (option) bt_walk :: "bt_pool \<Rightarrow> bt_frame list \<Rightarrow> slot list \<Rightarrow> slot list option" where
  "bt_walk p stack sink =
     (if stack = [] then Some sink
      else let f = hd stack; stack = tl stack
           in if bf_record f
              then bt_walk p stack (sink @ [(node_key_at p (bf_node f) (bf_key_index f), node_value_at p (bf_node f) (bf_key_index f))])
              else bt_walk p (bt_push_node p (bf_node f) stack) sink)"

definition bt_records :: "bt_pool \<Rightarrow> slot list option" where
  "bt_records p = bt_walk p
     (if bp_root p \<noteq> bt_nil then [\<lparr>bf_node = bp_root p, bf_key_index = 0, bf_record = False\<rparr>] else []) []"

section \<open>Subtrees\<close>

text \<open>The records of a node between the lists of its subtrees; a leaf has no subtrees.\<close>
fun ilv :: "'a list list \<Rightarrow> 'a list \<Rightarrow> 'a list" where
  "ilv [] rs = rs"
| "ilv (l # ls) [] = l"
| "ilv (l # ls) (r # rs) = l @ r # ilv ls rs"

definition lefts :: "'a list list \<Rightarrow> 'a list \<Rightarrow> 'a list" where
  "lefts ls rs = concat (map2 (\<lambda>l r. l @ [r]) ls rs)"

definition rights :: "'a list \<Rightarrow> 'a list list \<Rightarrow> 'a list" where
  "rights rs ls = concat (map2 (\<lambda>r l. r # l) rs ls)"

lemma lefts_rights_simps [simp]:
  "lefts [] rs = []" "lefts ls [] = []" "lefts (l # ls) (r # rs) = l @ r # lefts ls rs"
  "rights [] ls = []" "rights rs [] = []" "rights (r # rs) (l # ls) = r # l @ rights rs ls"
  by (simp_all add: lefts_def rights_def)

lemma lefts_snoc: "length ls = length rs \<Longrightarrow> lefts (ls @ [l]) (rs @ [r]) = lefts ls rs @ l @ [r]"
  by (simp add: lefts_def)

lemma ilv_rights: "length ls = length rs \<Longrightarrow> ilv (l # ls) rs = l @ rights rs ls"
proof (induction ls arbitrary: l rs)
  case (Cons m ls)
  then show ?case by (cases rs) simp_all
qed simp

lemma ilv_split:
  "length ls = length rs \<Longrightarrow> length ms = length ss \<Longrightarrow> ilv (ls @ l # ms) (rs @ ss) = lefts ls rs @ l @ rights ss ms"
proof (induction ls arbitrary: rs)
  case Nil
  then show ?case by (simp add: ilv_rights)
next
  case (Cons a ls)
  then obtain r rs' where "rs = r # rs'" by (cases rs) auto
  then show ?case using Cons by simp
qed

text \<open>Two nodes side by side, with the record between them.\<close>
lemma ilv_join:
  "ls = [] \<and> ms = [] \<or> length ls = length rs + 1 \<Longrightarrow> ilv (ls @ ms) (rs @ r # ss) = ilv ls rs @ r # ilv ms ss"
proof (induction ls arbitrary: rs)
  case (Cons l ls)
  show ?case
  proof (cases rs)
    case Nil
    then have "ls = []" using Cons.prems by simp
    then show ?thesis using Nil by simp
  next
    case c: (Cons r' rs')
    then have "length ls = length rs' + 1" using Cons.prems by simp
    then show ?thesis using Cons.IH [of rs'] c by simp
  qed
qed simp

primrec bt_list :: "bt_pool \<Rightarrow> nat \<Rightarrow> nat \<Rightarrow> slot list" where
  "bt_list p 0 i = bt_recs p i"
| "bt_list p (Suc h) i = ilv (map (bt_list p h) (bt_kids p i)) (bt_recs p i)"

primrec bt_ids :: "bt_pool \<Rightarrow> nat \<Rightarrow> nat \<Rightarrow> nat list" where
  "bt_ids p 0 i = [i]"
| "bt_ids p (Suc h) i = i # concat (map (bt_ids p h) (bt_kids p i))"

primrec bt_wf :: "bt_order \<Rightarrow> bt_pool \<Rightarrow> nat \<Rightarrow> nat \<Rightarrow> bool" where
  "bt_wf sh p 0 i \<longleftrightarrow> bt_at sh p i True (bt_recs p i) (bt_kids p i)"
| "bt_wf sh p (Suc h) i \<longleftrightarrow> bt_at sh p i False (bt_recs p i) (bt_kids p i)
     \<and> (\<forall>c \<in> set (bt_kids p i). bt_wf sh p h c \<and> bt_T sh - 1 \<le> length (bt_recs p c))"

lemma bt_at_content: "bt_at sh p i leaf rs cs \<Longrightarrow> bt_recs p i = rs \<and> bt_kids p i = cs"
  by (auto simp: bt_at_def bt_recs_def bt_kids_def)

lemma bt_wf_at: "bt_wf sh p h i \<Longrightarrow> bt_at sh p i (h = 0) (bt_recs p i) (bt_kids p i)"
  by (cases h) simp_all

text \<open>The height of the children of a leaf does not matter, as there are none.\<close>
lemma bt_wf_node:
  assumes "bt_wf sh p h i"
  shows "bt_list p h i = ilv (map (bt_list p (h - 1)) (bt_kids p i)) (bt_recs p i)"
    "bt_ids p h i = i # concat (map (bt_ids p (h - 1)) (bt_kids p i))"
    "c \<in> set (bt_kids p i) \<Longrightarrow> bt_wf sh p (h - 1) c \<and> bt_T sh - 1 \<le> length (bt_recs p c)"
  using assms by (cases h; auto simp: bt_at_def)+

lemma bt_wf_nodeI:
  assumes "bt_at sh p i (h = 0) rs cs" "\<And>c. c \<in> set cs \<Longrightarrow> bt_wf sh p (h - 1) c \<and> bt_T sh - 1 \<le> length (bt_recs p c)"
  shows "bt_wf sh p h i"
  using assms bt_at_content [OF assms(1)] by (cases h) simp_all

lemma same_node_content: "same_node p q i \<Longrightarrow> bt_recs q i = bt_recs p i \<and> bt_kids q i = bt_kids p i"
  by (simp add: same_node_def bt_recs_def bt_kids_def)

lemma bt_ids_root [simp]: "i \<in> set (bt_ids p h i)"
  by (cases h) simp_all

lemma bt_frame:
  "\<forall>j \<in> set (bt_ids p h i). same_node p q j \<Longrightarrow>
   bt_list q h i = bt_list p h i \<and> bt_ids q h i = bt_ids p h i \<and> (bt_wf sh p h i \<longrightarrow> bt_wf sh q h i)"
proof (induction h arbitrary: i)
  case 0
  then show ?case using same_node_content [of p q i] same_node_at [of p q i] by auto
next
  case (Suc h)
  have i: "bt_recs q i = bt_recs p i" "bt_kids q i = bt_kids p i" using Suc.prems same_node_content [of p q i] by auto
  have c: "bt_list q h c = bt_list p h c \<and> bt_ids q h c = bt_ids p h c \<and> (bt_wf sh p h c \<longrightarrow> bt_wf sh q h c)
      \<and> bt_recs q c = bt_recs p c" if "c \<in> set (bt_kids p i)" for c
  proof -
    have "\<forall>j \<in> set (bt_ids p h c). same_node p q j" using Suc.prems that by auto
    then show ?thesis using Suc.IH [of c] same_node_content [of p q c] by auto
  qed
  have "map (bt_list q h) (bt_kids p i) = map (bt_list p h) (bt_kids p i)"
    "map (bt_ids q h) (bt_kids p i) = map (bt_ids p h) (bt_kids p i)" using c by simp_all
  then have "bt_list q (Suc h) i = bt_list p (Suc h) i" "bt_ids q (Suc h) i = bt_ids p (Suc h) i"
    by (simp_all only: bt_list.simps bt_ids.simps i)
  moreover have "same_node p q i" using Suc.prems by simp
  then have "bt_wf sh p (Suc h) i \<longrightarrow> bt_wf sh q (Suc h) i"
    using i c same_node_at [of p q i sh False "bt_recs p i" "bt_kids p i"] by auto
  ultimately show ?case by blast
qed

text \<open>The lists around a child.\<close>
lemma lefts_less:
  assumes "sorted_wrt (<) (map fst (lefts ls rs @ zs))" "length ls = length rs" "rs = [] \<or> fst (last rs) < k" "r \<in> set (lefts ls rs)"
  shows "fst r < (k :: u64)"
proof (cases rs rule: rev_cases)
  case Nil
  then show ?thesis using assms(2,4) by simp
next
  case (snoc rs' b)
  then obtain ls' l where ls: "ls = ls' @ [l]" "length ls' = length rs'"
    using assms(2) by (cases ls rule: rev_cases) auto
  have e: "lefts ls rs = lefts ls' rs' @ l @ [b]" using ls(2) by (simp add: ls(1) snoc lefts_snoc)
  have "fst r \<le> fst b" using assms(1,4) unfolding e by (auto simp: sorted_wrt_append)
  then show ?thesis using assms(3) by (simp add: snoc)
qed

lemma rights_greater:
  assumes "sorted_wrt (<) (map fst (zs @ rights rs ls))" "rs = [] \<or> k < fst (hd rs)" "r \<in> set (rights rs ls)"
  shows "(k :: u64) < fst r"
proof -
  obtain b rs' l ls' where e: "rs = b # rs'" "ls = l # ls'" using assms(3) by (cases rs; cases ls) auto
  have "fst b \<le> fst r" using assms(1,3) unfolding e by (auto simp: sorted_wrt_append ball_Un less_imp_le)
  then show ?thesis using assms(2) by (auto simp: e)
qed

section \<open>The space of a pool\<close>

text \<open>The nodes of the pool: free, in the subtree \<open>I\<close>, or in the rest \<open>E\<close>.\<close>
definition bt_space :: "bt_pool \<Rightarrow> nat set \<Rightarrow> nat set \<Rightarrow> bool" where
  "bt_space p E I \<longleftrightarrow> distinct (bp_free p) \<and> set (bp_free p) \<union> E \<union> I = {..<length (bp_nodes p)}
     \<and> set (bp_free p) \<inter> E = {} \<and> set (bp_free p) \<inter> I = {} \<and> E \<inter> I = {}"

lemma bt_spaceD:
  assumes "bt_space p E I"
  shows "distinct (bp_free p)" "set (bp_free p) \<subseteq> {..<length (bp_nodes p)}" "m \<in> E \<Longrightarrow> m < length (bp_nodes p)"
    "m \<in> I \<Longrightarrow> m < length (bp_nodes p)" "m \<in> E \<Longrightarrow> m \<notin> set (bp_free p)" "m \<in> I \<Longrightarrow> m \<notin> set (bp_free p)"
    "m \<in> E \<Longrightarrow> m \<notin> I"
proof -
  have s: "set (bp_free p) \<union> E \<union> I = {..<length (bp_nodes p)}" "set (bp_free p) \<inter> E = {}" "set (bp_free p) \<inter> I = {}" "E \<inter> I = {}"
    and d: "distinct (bp_free p)" using assms by (simp_all add: bt_space_def)
  show "distinct (bp_free p)" by (rule d)
  show "set (bp_free p) \<subseteq> {..<length (bp_nodes p)}" "m \<in> E \<Longrightarrow> m \<notin> set (bp_free p)" "m \<in> I \<Longrightarrow> m \<notin> set (bp_free p)"
    "m \<in> E \<Longrightarrow> m \<notin> I" using s by blast+
  show "m \<in> E \<Longrightarrow> m < length (bp_nodes p)" "m \<in> I \<Longrightarrow> m < length (bp_nodes p)" using s(1) by blast+
qed

text \<open>A subtree that may be operated on.\<close>
definition bt_sub :: "bt_order \<Rightarrow> bt_pool \<Rightarrow> nat set \<Rightarrow> nat \<Rightarrow> nat \<Rightarrow> bool" where
  "bt_sub sh p E h i \<longleftrightarrow> bt_arrays sh p \<and> bt_wf sh p h i \<and> distinct (bt_ids p h i) \<and> bt_space p E (set (bt_ids p h i))"

text \<open>Stepping into a child, and putting the changed child back.\<close>
definition bt_around :: "bt_pool \<Rightarrow> nat \<Rightarrow> nat \<Rightarrow> nat list \<Rightarrow> nat list \<Rightarrow> nat set" where
  "bt_around p h x as bs = Set.insert x (set (concat (map (bt_ids p h) (as @ bs))))"

lemma bt_sub_child:
  assumes "bt_sub sh p E (Suc h) x" "bt_kids p x = as @ c # bs"
  shows "bt_sub sh p (E \<union> bt_around p h x as bs) h c" "x \<notin> set (bt_ids p h c)"
proof -
  have i: "bt_ids p (Suc h) x = x # concat (map (bt_ids p h) as) @ bt_ids p h c @ concat (map (bt_ids p h) bs)"
    by (simp add: assms(2))
  have d: "distinct (bt_ids p (Suc h) x)" "bt_space p E (set (bt_ids p (Suc h) x))" "bt_wf sh p (Suc h) x" "bt_arrays sh p"
    using assms(1) by (simp_all only: bt_sub_def)
  have w: "bt_wf sh p h c" using d(3) assms(2) by simp
  have u: "set (bt_ids p (Suc h) x) = bt_around p h x as bs \<union> set (bt_ids p h c)"
    unfolding i bt_around_def by auto
  have n: "bt_around p h x as bs \<inter> set (bt_ids p h c) = {}" "distinct (bt_ids p h c)"
    using d(1) unfolding i bt_around_def by auto
  have "bt_space p (E \<union> bt_around p h x as bs) (set (bt_ids p h c))"
    using d(2) n(1) unfolding bt_space_def u by blast
  then show "bt_sub sh p (E \<union> bt_around p h x as bs) h c" using d(4) w n(2) by (simp add: bt_sub_def)
  show "x \<notin> set (bt_ids p h c)" using n(1) by (auto simp: bt_around_def)
qed

lemma bt_sub_replace:
  assumes "bt_sub sh p E (Suc h) x" "bt_kids p x = as @ c # bs" "bt_sub sh q (E \<union> bt_around p h x as bs) h c"
    "\<forall>m \<in> E \<union> bt_around p h x as bs. same_node p q m" "bt_T sh - 1 \<le> length (bt_recs q c)"
  shows "bt_sub sh q E (Suc h) x" "bt_recs q x = bt_recs p x" "bt_kids q x = bt_kids p x"
    "bt_list q (Suc h) x = ilv (map (bt_list p h) as @ bt_list q h c # map (bt_list p h) bs) (bt_recs p x)"
proof -
  have p: "distinct (bt_ids p (Suc h) x)" "bt_space p E (set (bt_ids p (Suc h) x))" "bt_wf sh p (Suc h) x"
    using assms(1) by (simp_all only: bt_sub_def)
  have q: "bt_arrays sh q" "bt_wf sh q h c" "distinct (bt_ids q h c)" "bt_space q (E \<union> bt_around p h x as bs) (set (bt_ids q h c))"
    using assms(3) by (simp_all only: bt_sub_def)
  have sx: "same_node p q x" using assms(4) by (simp add: bt_around_def)
  then show rk: "bt_recs q x = bt_recs p x" "bt_kids q x = bt_kids p x" using same_node_content by blast+
  have o: "bt_list q h d = bt_list p h d \<and> bt_ids q h d = bt_ids p h d \<and> bt_wf sh q h d \<and> bt_recs q d = bt_recs p d"
    if "d \<in> set (as @ bs)" for d
  proof -
    have "\<forall>j \<in> set (bt_ids p h d). same_node p q j" using assms(4) that by (auto simp: bt_around_def)
    moreover from this have "same_node p q d" by simp
    moreover have "bt_wf sh p h d" using p(3) assms(2) that by auto
    ultimately show ?thesis using bt_frame [of p h d q sh] same_node_content [of p q d] by blast
  qed
  have m: "map (bt_list q h) as = map (bt_list p h) as" "map (bt_list q h) bs = map (bt_list p h) bs"
    "map (bt_ids q h) as = map (bt_ids p h) as" "map (bt_ids q h) bs = map (bt_ids p h) bs" using o by simp_all
  show "bt_list q (Suc h) x = ilv (map (bt_list p h) as @ bt_list q h c # map (bt_list p h) bs) (bt_recs p x)"
    by (simp add: rk assms(2) m)
  have i: "bt_ids q (Suc h) x = x # concat (map (bt_ids p h) as) @ bt_ids q h c @ concat (map (bt_ids p h) bs)"
    by (simp add: rk assms(2) m)
  have n: "bt_around p h x as bs \<inter> set (bt_ids q h c) = {}" "E \<inter> set (bt_ids q h c) = {}" using q(4) by (auto simp: bt_space_def)
  have "distinct (x # concat (map (bt_ids p h) as) @ concat (map (bt_ids p h) bs))" using p(1) by (auto simp: assms(2))
  then have di: "distinct (bt_ids q (Suc h) x)" unfolding i using q(3) n(1) by (auto simp: bt_around_def)
  have "set (bt_ids q (Suc h) x) = bt_around p h x as bs \<union> set (bt_ids q h c)" unfolding i bt_around_def by auto
  moreover have "E \<inter> bt_around p h x as bs = {}"
    using p(2) unfolding bt_space_def by (auto simp: assms(2) bt_around_def)
  ultimately have sp: "bt_space q E (set (bt_ids q (Suc h) x))" using q(4) unfolding bt_space_def by blast
  have "bt_at sh q x False (bt_recs q x) (bt_kids q x)" using p(3) same_node_at [OF sx] rk by simp
  then have "bt_wf sh q (Suc h) x" using p(3) o q(2) assms(2,5) rk by auto
  then show "bt_sub sh q E (Suc h) x" using q(1) di sp by (simp only: bt_sub_def)
qed

section \<open>Rearranging the children of a node\<close>

lemma mset_ids_kids:
  "mset (concat (map (\<lambda>c. c # concat (map f (g c))) cs)) = mset cs + mset (concat (map f (concat (map g cs))))"
  by (induction cs) simp_all

lemma distinct_concat_heads: "distinct (concat (map (\<lambda>c. c # f c) cs)) \<Longrightarrow> distinct cs"
  by (induction cs) auto

lemma distinct_tail_notin: "distinct (x # as @ bs) \<Longrightarrow> m \<in> set bs \<Longrightarrow> m \<notin> Set.insert x (set as)"
  by auto

text \<open>Some children \<open>cs\<close> of a node are replaced by nodes \<open>cs'\<close> that have the same children in all; everything else
  below the node stays as it is.\<close>
lemma bt_rebuild:
  assumes "bt_sub sh p E (Suc h) x" "bt_kids p x = as @ cs @ bs" "bt_arrays sh q"
    "bt_at sh q x False rs' (as @ cs' @ bs)"
    "\<forall>c \<in> set cs'. bt_at sh q c (h = 0) (bt_recs q c) (bt_kids q c) \<and> bt_T sh - 1 \<le> length (bt_recs q c)"
    "concat (map (bt_kids q) cs') = concat (map (bt_kids p) cs)"
    "\<forall>m \<in> E \<union> set (bt_ids p (Suc h) x). m \<notin> Set.insert x (set cs) \<longrightarrow> m \<notin> set cs' \<and> same_node p q m"
    "distinct cs'" "x \<notin> set cs'"
  shows "bt_wf sh q (Suc h) x" "distinct (bt_ids q (Suc h) x)"
    "set (bt_ids q (Suc h) x) = set (bt_ids p (Suc h) x) - set cs \<union> set cs'"
    "bt_list q (Suc h) x = ilv (map (bt_list p h) as @ map (\<lambda>c. ilv (map (bt_list p (h - 1)) (bt_kids q c)) (bt_recs q c)) cs'
       @ map (bt_list p h) bs) rs'"
    "c \<in> set cs' \<Longrightarrow> bt_list q h c = ilv (map (bt_list p (h - 1)) (bt_kids q c)) (bt_recs q c)"
proof -
  note a5 = assms(5) [rule_format] and a7 = assms(7) [rule_format]
  have p: "distinct (bt_ids p (Suc h) x)" "bt_wf sh p (Suc h) x" using assms(1) by (simp_all only: bt_sub_def)
  define f where "f = bt_ids p (h - 1)"
  have cw: "bt_wf sh p h c \<and> bt_T sh - 1 \<le> length (bt_recs p c)" if "c \<in> set (as @ cs @ bs)" for c
    using p(2) assms(2) that by simp
  have pid: "bt_ids p (Suc h) x = x # concat (map (bt_ids p h) as) @ concat (map (bt_ids p h) cs) @ concat (map (bt_ids p h) bs)"
    by (simp add: assms(2))
  have pcs: "concat (map (bt_ids p h) cs) = concat (map (\<lambda>c. c # concat (map f (bt_kids p c))) cs)"
  proof -
    have "bt_ids p h c = c # concat (map f (bt_kids p c))" if "c \<in> set cs" for c
      using bt_wf_node(2) [of sh p h c] cw [of c] that by (simp add: f_def)
    then have "map (bt_ids p h) cs = map (\<lambda>c. c # concat (map f (bt_kids p c))) cs" by simp
    then show ?thesis by (rule arg_cong)
  qed
  have pm: "mset (concat (map (bt_ids p h) cs)) = mset cs + mset (concat (map f (concat (map (bt_kids p) cs))))"
    unfolding pcs by (rule mset_ids_kids)
  have sub: "set (concat (map f (concat (map (bt_kids p) cs)))) \<subseteq> set (bt_ids p (Suc h) x)"
    unfolding pid pcs by auto
  have notcs: "m \<notin> Set.insert x (set cs)" if "m \<in> set (concat (map f (concat (map (bt_kids p) cs))))" for m
  proof -
    have "distinct (x # concat (map (bt_ids p h) cs))" using p(1) unfolding pid by auto
    then have "distinct (x # cs @ concat (map f (concat (map (bt_kids p) cs))))"
      using pm by (metis distinct.simps(2) mset_append mset_eq_imp_distinct_iff set_mset_mset)
    then show ?thesis using that by (rule distinct_tail_notin)
  qed
  have grand: "bt_list q (h - 1) d = bt_list p (h - 1) d \<and> bt_ids q (h - 1) d = f d \<and> bt_wf sh q (h - 1) d \<and> bt_recs q d = bt_recs p d
      \<and> bt_T sh - 1 \<le> length (bt_recs p d)" if dk: "d \<in> set (concat (map (bt_kids p) cs))" for d
  proof -
    have "\<forall>j \<in> set (f d). same_node p q j" using dk sub notcs a7 by (auto simp: Ball_def)
    moreover from this have "same_node p q d" by (simp add: f_def)
    moreover obtain c where "c \<in> set cs" "d \<in> set (bt_kids p c)" using dk by auto
    then have "bt_wf sh p (h - 1) d \<and> bt_T sh - 1 \<le> length (bt_recs p d)" using cw [of c] bt_wf_node(3) [of sh p h c d] by auto
    ultimately show ?thesis using bt_frame [of p "h - 1" d q sh] same_node_content [of p q d] by (auto simp: f_def)
  qed
  have oth: "bt_list q h d = bt_list p h d \<and> bt_ids q h d = bt_ids p h d \<and> bt_wf sh q h d \<and> bt_recs q d = bt_recs p d"
    if "d \<in> set (as @ bs)" for d
  proof -
    have "j \<in> set (bt_ids p (Suc h) x) \<and> j \<notin> Set.insert x (set cs)" if j: "j \<in> set (bt_ids p h d)" for j
    proof -
      have "distinct (x # concat (map (bt_ids p h) cs) @ concat (map (bt_ids p h) (as @ bs)))" using p(1) unfolding pid by auto
      moreover have "j \<in> set (concat (map (bt_ids p h) (as @ bs)))" using j \<open>d \<in> set (as @ bs)\<close> by auto
      moreover have "set cs \<subseteq> set (concat (map (bt_ids p h) cs))" by auto
      ultimately have "j \<notin> Set.insert x (set cs)" by (auto simp del: set_concat)
      then show ?thesis using j \<open>d \<in> set (as @ bs)\<close> unfolding pid by auto
    qed
    then have "\<forall>j \<in> set (bt_ids p h d). same_node p q j" using a7 by blast
    moreover from this have "same_node p q d" by simp
    ultimately show ?thesis using bt_frame [of p h d q sh] same_node_content [of p q d] cw [of d] that by auto
  qed
  have new: "bt_wf sh q h c \<and> bt_ids q h c = c # concat (map f (bt_kids q c))
      \<and> bt_list q h c = ilv (map (bt_list p (h - 1)) (bt_kids q c)) (bt_recs q c)" if c: "c \<in> set cs'" for c
  proof -
    have g: "d \<in> set (concat (map (bt_kids p) cs))" if "d \<in> set (bt_kids q c)" for d
      using that c unfolding assms(6) [symmetric] by auto
    have w: "bt_wf sh q h c"
      by (rule bt_wf_nodeI [OF conjunct1 [OF a5 [OF c]]]) (use grand g in auto)
    have "map (bt_list q (h - 1)) (bt_kids q c) = map (bt_list p (h - 1)) (bt_kids q c)"
      "map (bt_ids q (h - 1)) (bt_kids q c) = map f (bt_kids q c)" using grand g by simp_all
    then show ?thesis using w by (simp only: bt_wf_node(1,2) [OF w] simp_thms)
  qed
  show "bt_list q h c = ilv (map (bt_list p (h - 1)) (bt_kids q c)) (bt_recs q c)" if "c \<in> set cs'"
    using new that by blast
  have rk: "bt_recs q x = rs'" "bt_kids q x = as @ cs' @ bs" using bt_at_content [OF assms(4)] by simp_all
  show "bt_wf sh q (Suc h) x" using assms(4,5) rk oth new cw by auto
  have m: "map (bt_list q h) as = map (bt_list p h) as" "map (bt_list q h) bs = map (bt_list p h) bs"
    "map (bt_ids q h) as = map (bt_ids p h) as" "map (bt_ids q h) bs = map (bt_ids p h) bs"
    "map (bt_list q h) cs' = map (\<lambda>c. ilv (map (bt_list p (h - 1)) (bt_kids q c)) (bt_recs q c)) cs'"
    "map (bt_ids q h) cs' = map (\<lambda>c. c # concat (map f (bt_kids q c))) cs'"
    using oth new by simp_all
  show "bt_list q (Suc h) x = ilv (map (bt_list p h) as @ map (\<lambda>c. ilv (map (bt_list p (h - 1)) (bt_kids q c)) (bt_recs q c)) cs'
       @ map (bt_list p h) bs) rs'" by (simp only: bt_list.simps rk map_append m)
  have qid: "bt_ids q (Suc h) x = x # concat (map (bt_ids p h) as) @ concat (map (\<lambda>c. c # concat (map f (bt_kids q c))) cs')
      @ concat (map (bt_ids p h) bs)" by (simp only: bt_ids.simps rk map_append m concat_append)
  have ms: "mset (bt_ids q (Suc h) x) + mset cs = mset (bt_ids p (Suc h) x) + mset cs'"
    unfolding qid pid using pm assms(6) by (simp only: mset.simps mset_append mset_ids_kids) simp
  have csd: "distinct (bt_ids p (Suc h) x)" "set cs \<subseteq> set (bt_ids p (Suc h) x)" "distinct cs" "x \<notin> set cs"
    using p(1) unfolding pid pcs by (auto dest: distinct_concat_heads)
  have cs': "m \<in> set (bt_ids p (Suc h) x) \<Longrightarrow> m \<in> set cs' \<Longrightarrow> m \<in> set cs" for m using a7 [of m] assms(9) by auto
  have cnt: "count (mset (bt_ids q (Suc h) x)) m + count (mset cs) m = count (mset (bt_ids p (Suc h) x)) m + count (mset cs') m" for m
    using ms by (metis count_union)
  have one: "distinct xs \<Longrightarrow> count (mset xs) m = (if m \<in> set xs then 1 else 0)" for xs and m :: nat
    by (simp add: distinct_count_atmost_1)
  have eq: "count (mset (bt_ids q (Suc h) x)) m = (if m \<in> set (bt_ids p (Suc h) x) - set cs \<union> set cs' then 1 else 0)" for m
    using cnt [of m] csd(2) cs' [of m] unfolding one [OF csd(1)] one [OF csd(3)] one [OF assms(8)] by (auto split: if_splits)
  then show "set (bt_ids q (Suc h) x) = set (bt_ids p (Suc h) x) - set cs \<union> set cs'"
    by (metis (no_types, lifting) count_eq_zero_iff set_mset_mset subsetI subset_antisym zero_neq_one)
  then show "distinct (bt_ids q (Suc h) x)" using eq by (simp add: distinct_count_atmost_1)
qed

lemma distinct_concat_roots: "(\<And>c. c \<in> set cs \<Longrightarrow> c \<in> set (f c)) \<Longrightarrow> distinct (concat (map f cs)) \<Longrightarrow> distinct cs"
proof (induction cs)
  case (Cons c cs)
  then show ?case by auto
qed simp

lemma bt_sub_kids:
  assumes "bt_sub sh p E (Suc h) x"
  shows "distinct (x # bt_kids p x)" "set (x # bt_kids p x) \<subseteq> set (bt_ids p (Suc h) x)"
    "bt_at sh p x False (bt_recs p x) (bt_kids p x)" "length (bt_kids p x) = length (bt_recs p x) + 1"
    "c \<in> set (bt_kids p x) \<Longrightarrow> bt_at sh p c (h = 0) (bt_recs p c) (bt_kids p c) \<and> bt_T sh - 1 \<le> length (bt_recs p c)"
    "m \<in> E \<union> set (bt_ids p (Suc h) x) \<Longrightarrow> m < length (bp_nodes p) \<and> m \<notin> set (bp_free p)"
proof -
  have p: "distinct (bt_ids p (Suc h) x)" "bt_wf sh p (Suc h) x" "bt_arrays sh p" "bt_space p E (set (bt_ids p (Suc h) x))"
    using assms by (simp_all only: bt_sub_def)
  show sub: "set (x # bt_kids p x) \<subseteq> set (bt_ids p (Suc h) x)" by auto
  have "x \<notin> set (concat (map (bt_ids p h) (bt_kids p x)))" "distinct (concat (map (bt_ids p h) (bt_kids p x)))"
    using p(1) by simp_all
  then show "distinct (x # bt_kids p x)" using distinct_concat_roots [of "bt_kids p x" "bt_ids p h"] by auto
  show at: "bt_at sh p x False (bt_recs p x) (bt_kids p x)" using p(2) by simp
  show "length (bt_kids p x) = length (bt_recs p x) + 1" using bt_atD(7) [OF p(3) at] by simp
  show "bt_at sh p c (h = 0) (bt_recs p c) (bt_kids p c) \<and> bt_T sh - 1 \<le> length (bt_recs p c)" if "c \<in> set (bt_kids p x)"
    using p(2) that bt_wf_at [of sh p h c] by simp
  show "m < length (bp_nodes p) \<and> m \<notin> set (bp_free p)" if "m \<in> E \<union> set (bt_ids p (Suc h) x)"
    using p(4) that unfolding bt_space_def by blast
qed

lemma bt_sub_outside:
  assumes "bt_sub sh p E (Suc h) x" "m \<in> E"
  shows "m \<notin> set (x # bt_kids p x)"
proof -
  have "bt_space p E (set (bt_ids p (Suc h) x))" using assms(1) by (simp only: bt_sub_def)
  then have "m \<notin> set (bt_ids p (Suc h) x)" using assms(2) by (rule bt_spaceD(7))
  then show ?thesis using bt_sub_kids(2) [OF assms(1)] by blast
qed

lemma bt_split_sub:
  assumes "bt_sub sh p E (Suc h) x" "length (bp_nodes p) < 2 ^ 32" "i \<le> length (bt_recs p x)" "length (bt_recs p x) < bt_max_keys sh"
    "y = bt_kids p x ! i" "length (bt_recs p y) = bt_max_keys sh" "z = fresh_index p" "q = split_child sh x i p"
  shows "bt_sub sh q E (Suc h) x" "bt_list q (Suc h) x = bt_list p (Suc h) x"
    "bt_recs q x = insert_at i (bt_recs p y ! (bt_T sh - 1)) (bt_recs p x)" "bt_kids q x = insert_at (i + 1) z (bt_kids p x)"
    "length (bt_recs q y) = bt_T sh - 1" "length (bt_recs q z) = bt_T sh - 1"
    "m \<in> E \<Longrightarrow> same_node p q m" "bp_root q = bp_root p" "bp_size q = bp_size p"
    "set (bp_free q) \<subseteq> set (bp_free p)" "length (bp_nodes p) \<le> length (bp_nodes q)" "length (bp_nodes q) \<le> length (bp_nodes p) + 1"
    "length (bp_nodes q) = length (bp_nodes p) \<or> bp_free q = []"
proof -
  define T where "T = bt_T sh"
  define rs where "rs = bt_recs p x"
  define ys where "ys = bt_recs p y"
  define yc where "yc = bt_kids p y"
  define as where "as = take i (bt_kids p x)"
  define bs where "bs = drop (i + 1) (bt_kids p x)"
  note K = bt_sub_kids [OF assms(1)]
  have p: "distinct (bt_ids p (Suc h) x)" "bt_wf sh p (Suc h) x" "bt_arrays sh p" "bt_space p E (set (bt_ids p (Suc h) x))"
    using assms(1) by (simp_all only: bt_sub_def)
  have free: "distinct (bp_free p)" "set (bp_free p) \<subseteq> {..<length (bp_nodes p)}" using p(4) by (rule bt_spaceD)+
  have T: "2 \<le> T" "bt_max_keys sh = 2 * T - 1" using bt_T_bounds by (auto simp: T_def bt_max_keys_def)
  have i: "i < length (bt_kids p x)" using assms(3) K(4) by simp
  then have ks: "bt_kids p x = as @ [y] @ bs" "length as = i"
    using id_take_nth_drop [OF i] assms(5) by (simp_all add: as_def bs_def)
  then have y: "y \<in> set (bt_kids p x)" by simp
  have yat: "bt_at sh p y (h = 0) ys yc" using K(5) [OF y] by (simp add: ys_def yc_def)
  have xy: "x \<noteq> y" "x \<notin> set (bp_free p)" "y \<notin> set (bp_free p)" using K(1,2,6) y by auto
  note S = split_child_ok [OF p(3) free(2) assms(2) K(3) assms(3,4,5) yat assms(6) [folded ys_def] xy assms(7,8)]
  have z: "z \<notin> E \<union> set (bt_ids p (Suc h) x)"
  proof
    assume "z \<in> E \<union> set (bt_ids p (Suc h) x)"
    from K(6) [OF this] show False by (simp add: assms(7) fresh_index_def split: if_splits)
  qed
  have kq: "insert_at (i + 1) z (bt_kids p x) = as @ [y, z] @ bs" using ks by (simp add: insert_at_def)
  have at: "bt_at sh q x False (insert_at i (ys ! (T - 1)) rs) (as @ [y, z] @ bs)"
    using S(2) unfolding kq by (simp only: rs_def ys_def T_def)
  have cq: "bt_recs q y = take (T - 1) ys" "bt_kids q y = take T yc" "bt_recs q z = drop T ys" "bt_kids q z = drop T yc"
    "bt_recs q x = insert_at i (ys ! (T - 1)) rs" "bt_kids q x = as @ [y, z] @ bs"
    using bt_at_content [OF S(3)] bt_at_content [OF S(4)] bt_at_content [OF at] by (simp_all add: T_def)
  have ly: "length ys = 2 * T - 1" using assms(6) T by (simp add: ys_def)
  have lc: "yc = [] \<or> length yc = 2 * T" using bt_atD(7,10) [OF p(3) yat] ly T by auto
  have new: "\<forall>c \<in> set [y, z]. bt_at sh q c (h = 0) (bt_recs q c) (bt_kids q c) \<and> bt_T sh - 1 \<le> length (bt_recs q c)"
    using S(3,4) ly T cq by (auto simp: T_def)
  have gk: "concat (map (bt_kids q) [y, z]) = concat (map (bt_kids p) [y])" using cq by (simp add: yc_def)
  have sm: "m \<notin> set [y, z] \<and> same_node p q m" if m: "m \<in> E \<union> set (bt_ids p (Suc h) x)" "m \<notin> Set.insert x (set [y])" for m
    using S(5) [of m] K(6) [OF m(1)] m z by auto
  have xz: "distinct [y, z]" "x \<notin> set [y, z]" using z K(2) y xy(1) by auto
  have fr: "\<forall>m \<in> E \<union> set (bt_ids p (Suc h) x). m \<notin> Set.insert x (set [y]) \<longrightarrow> m \<notin> set [y, z] \<and> same_node p q m" using sm by blast
  note R = bt_rebuild [OF assms(1) ks(1) S(1) at new gk fr xz]
  have "bt_list q (Suc h) x = ilv (map (bt_list p h) as @ ilv (map (bt_list p (h - 1)) (take T yc)) (take (T - 1) ys)
      # ilv (map (bt_list p (h - 1)) (drop T yc)) (drop T ys) # map (bt_list p h) bs) (take i rs @ ys ! (T - 1) # drop i rs)"
    using R(4) by (simp add: cq insert_at_def)
  also have "\<dots> = lefts (map (bt_list p h) as) (take i rs) @ (ilv (map (bt_list p (h - 1)) (take T yc)) (take (T - 1) ys)
      @ ys ! (T - 1) # ilv (map (bt_list p (h - 1)) (drop T yc)) (drop T ys)) @ rights (drop i rs) (map (bt_list p h) bs)"
    using ks K(4) assms(3) by (subst ilv_split) (auto simp: rs_def)
  also have "ilv (map (bt_list p (h - 1)) (take T yc)) (take (T - 1) ys) @ ys ! (T - 1) # ilv (map (bt_list p (h - 1)) (drop T yc)) (drop T ys)
      = ilv (map (bt_list p (h - 1)) yc) ys"
  proof -
    have "map (bt_list p (h - 1)) yc = map (bt_list p (h - 1)) (take T yc) @ map (bt_list p (h - 1)) (drop T yc)"
      by (simp flip: map_append)
    moreover have "ys = take (T - 1) ys @ ys ! (T - 1) # drop T ys"
      using id_take_nth_drop [of "T - 1" ys] ly T by simp
    ultimately show ?thesis using ilv_join [of "map (bt_list p (h - 1)) (take T yc)" "map (bt_list p (h - 1)) (drop T yc)"
        "take (T - 1) ys" "ys ! (T - 1)" "drop T ys"] lc ly T by auto
  qed
  also have "ilv (map (bt_list p (h - 1)) yc) ys = bt_list p h y"
    using bt_wf_node(1) [of sh p h y] p(2) y by (simp add: ys_def yc_def)
  also have "lefts (map (bt_list p h) as) (take i rs) @ bt_list p h y @ rights (drop i rs) (map (bt_list p h) bs) = bt_list p (Suc h) x"
    using ilv_split [of "map (bt_list p h) as" "take i rs" "map (bt_list p h) bs" "drop i rs" "bt_list p h y"] ks K(4) assms(3)
    by (simp add: rs_def)
  finally show "bt_list q (Suc h) x = bt_list p (Suc h) x" .
  show "bt_recs q x = insert_at i (bt_recs p y ! (bt_T sh - 1)) (bt_recs p x)" "bt_kids q x = insert_at (i + 1) z (bt_kids p x)"
    "length (bt_recs q y) = bt_T sh - 1" "length (bt_recs q z) = bt_T sh - 1"
    using cq kq ly T by (simp_all add: rs_def ys_def T_def)
  show "same_node p q m" if "m \<in> E" for m using sm [of m] that bt_sub_outside [OF assms(1) that] y by auto
  show "bp_root q = bp_root p" "bp_size q = bp_size p" by (rule S(6), rule S(7))
  show "set (bp_free q) \<subseteq> set (bp_free p)" "length (bp_nodes p) \<le> length (bp_nodes q)" "length (bp_nodes q) \<le> length (bp_nodes p) + 1"
    "length (bp_nodes q) = length (bp_nodes p) \<or> bp_free q = []"
    using S(8) by (auto split: if_splits dest: in_set_butlastD)
  have ids: "set (bt_ids q (Suc h) x) = Set.insert z (set (bt_ids p (Suc h) x))" using R(3) K(2) y by auto
  have "bt_space q E (set (bt_ids q (Suc h) x))"
  proof (cases "bp_free p = []")
    case True
    then have e: "z = length (bp_nodes p)" "bp_free q = []" "length (bp_nodes q) = length (bp_nodes p) + 1"
      using S(8) by (simp_all add: assms(7) fresh_index_def)
    have "E \<union> set (bt_ids p (Suc h) x) = {..<length (bp_nodes p)}" "E \<inter> set (bt_ids p (Suc h) x) = {}"
      using p(4) True by (simp_all only: bt_space_def list.set(1) sup_bot_left)
    then show ?thesis using z unfolding bt_space_def ids e by auto
  next
    case False
    then have e: "bp_free p = bp_free q @ [z]" "length (bp_nodes q) = length (bp_nodes p)"
      using S(8) by (simp_all add: assms(7) fresh_index_def)
    show ?thesis using p(4) z unfolding bt_space_def ids e by auto
  qed
  then show "bt_sub sh q E (Suc h) x" using R(1,2) S(1) by (simp only: bt_sub_def)
qed

text \<open>Two neighbouring children of a node.\<close>
lemma bt_pair:
  assumes "bt_sub sh p E (Suc h) x" "i < length (bt_recs p x)" "a = bt_kids p x ! i" "b = bt_kids p x ! (i + 1)"
    "as = take i (bt_kids p x)" "bs = drop (i + 2) (bt_kids p x)" "ra = take i (bt_recs p x)" "rb = drop (i + 1) (bt_recs p x)"
  shows "bt_kids p x = as @ [a, b] @ bs" "bt_recs p x = ra @ bt_recs p x ! i # rb" "(bt_recs p x)[i := r] = ra @ r # rb"
    "length as = length ra" "length bs = length rb" "a \<in> set (bt_kids p x)" "b \<in> set (bt_kids p x)"
    "x \<noteq> a" "x \<noteq> b" "a \<noteq> b" "bt_at sh p a (h = 0) (bt_recs p a) (bt_kids p a)" "bt_at sh p b (h = 0) (bt_recs p b) (bt_kids p b)"
    "ilv (map (bt_list p h) as @ u # w # map (bt_list p h) bs) (ra @ r # rb)
      = lefts (map (bt_list p h) as) ra @ (u @ r # w) @ rights rb (map (bt_list p h) bs)"
    "bt_list p (Suc h) x = lefts (map (bt_list p h) as) ra @ (bt_list p h a @ bt_recs p x ! i # bt_list p h b) @ rights rb (map (bt_list p h) bs)"
    "bt_list p h a = ilv (map (bt_list p (h - 1)) (bt_kids p a)) (bt_recs p a)"
    "bt_list p h b = ilv (map (bt_list p (h - 1)) (bt_kids p b)) (bt_recs p b)"
    "h = 0 \<and> bt_kids p a = [] \<and> bt_kids p b = [] \<or> h \<noteq> 0 \<and> length (bt_kids p a) = length (bt_recs p a) + 1
      \<and> length (bt_kids p b) = length (bt_recs p b) + 1"
    "bt_T sh - 1 \<le> length (bt_recs p a)" "bt_T sh - 1 \<le> length (bt_recs p b)"
proof -
  note K = bt_sub_kids [OF assms(1)]
  have p: "bt_wf sh p (Suc h) x" "bt_arrays sh p" using assms(1) by (simp_all only: bt_sub_def)
  have i: "i + 1 < length (bt_kids p x)" using assms(2) K(4) by simp
  have "drop i (bt_kids p x) = a # b # bs"
    using i assms(3,4,6) Cons_nth_drop_Suc [of i "bt_kids p x"] Cons_nth_drop_Suc [of "i + 1" "bt_kids p x"] by simp
  then show ks: "bt_kids p x = as @ [a, b] @ bs" by (metis append_Cons append_Nil append_take_drop_id assms(5))
  show rs: "bt_recs p x = ra @ bt_recs p x ! i # rb" "(bt_recs p x)[i := r] = ra @ r # rb"
    using id_take_nth_drop [OF assms(2)] upd_conv_take_nth_drop [OF assms(2)] by (simp_all add: assms(7,8))
  show l: "length as = length ra" "length bs = length rb" using i K(4) by (simp_all add: assms(5-8))
  show inn: "a \<in> set (bt_kids p x)" "b \<in> set (bt_kids p x)" using ks by simp_all
  show "x \<noteq> a" "x \<noteq> b" "a \<noteq> b" using K(1) ks by auto
  show at: "bt_at sh p a (h = 0) (bt_recs p a) (bt_kids p a)" "bt_at sh p b (h = 0) (bt_recs p b) (bt_kids p b)"
    and "bt_T sh - 1 \<le> length (bt_recs p a)" "bt_T sh - 1 \<le> length (bt_recs p b)"
    using K(5) [OF inn(1)] K(5) [OF inn(2)] by simp_all
  show "h = 0 \<and> bt_kids p a = [] \<and> bt_kids p b = [] \<or> h \<noteq> 0 \<and> length (bt_kids p a) = length (bt_recs p a) + 1
      \<and> length (bt_kids p b) = length (bt_recs p b) + 1"
    using bt_atD(7,10) [OF p(2) at(1)] bt_atD(7,10) [OF p(2) at(2)] by auto
  show two: "ilv (map (bt_list p h) as @ u # w # map (bt_list p h) bs) (ra @ r # rb)
      = lefts (map (bt_list p h) as) ra @ (u @ r # w) @ rights rb (map (bt_list p h) bs)" for u w r
    using ilv_split [of "map (bt_list p h) as" ra "w # map (bt_list p h) bs" "r # rb" u] l by simp
  have "bt_list p (Suc h) x = ilv (map (bt_list p h) (as @ [a, b] @ bs)) (ra @ bt_recs p x ! i # rb)"
    by (simp only: bt_list.simps ks [symmetric] rs(1) [symmetric])
  then show "bt_list p (Suc h) x = lefts (map (bt_list p h) as) ra @ (bt_list p h a @ bt_recs p x ! i # bt_list p h b)
      @ rights rb (map (bt_list p h) bs)" by (simp add: two)
  show "bt_list p h a = ilv (map (bt_list p (h - 1)) (bt_kids p a)) (bt_recs p a)"
    "bt_list p h b = ilv (map (bt_list p (h - 1)) (bt_kids p b)) (bt_recs p b)"
    using bt_wf_node(1) [of sh p h a] bt_wf_node(1) [of sh p h b] p(1) inn by simp_all
qed

text \<open>Borrowing and merging keep the list of the node above, and give the child to descend to enough records.\<close>
lemma bt_borrow_prev_sub:
  assumes "bt_sub sh p E (Suc h) x" "0 < idx" "idx \<le> length (bt_recs p x)" "c = bt_kids p x ! idx" "s = bt_kids p x ! (idx - 1)"
    "length (bt_recs p c) = bt_T sh - 1" "bt_T sh \<le> length (bt_recs p s)" "q = borrow_from_prev x idx p"
  shows "bt_sub sh q E (Suc h) x" "bt_list q (Suc h) x = bt_list p (Suc h) x" "bt_kids q x = bt_kids p x"
    "length (bt_recs q x) = length (bt_recs p x)" "length (bt_recs q c) = bt_T sh" "set (bt_list p h c) \<subseteq> set (bt_list q h c)"
    "m \<in> E \<Longrightarrow> same_node p q m" "bp_root q = bp_root p" "bp_size q = bp_size p" "length (bp_nodes q) = length (bp_nodes p)"
proof -
  define T where "T = bt_T sh"
  define rs where "rs = bt_recs p x"
  define cr where "cr = bt_recs p c"
  define ck where "ck = bt_kids p c"
  define sr where "sr = bt_recs p s"
  define sk where "sk = bt_kids p s"
  have p: "bt_arrays sh p" "bt_space p E (set (bt_ids p (Suc h) x))" using assms(1) by (simp_all only: bt_sub_def)
  note K = bt_sub_kids [OF assms(1)]
  have T: "2 \<le> T" "bt_max_keys sh = 2 * T - 1" using bt_T_bounds by (auto simp: T_def bt_max_keys_def)
  have i: "idx - 1 < length (bt_recs p x)" "c = bt_kids p x ! (idx - 1 + 1)" using assms(2,3,4) by simp_all
  note P = bt_pair [OF assms(1) i(1) assms(5) i(2) refl refl refl refl]
  have l: "length cr = T - 1" "T \<le> length sr" "length cr < bt_max_keys sh" "sr \<noteq> []"
    using assms(6,7) T by (auto simp: cr_def sr_def T_def)
  note S = borrow_from_prev_ok [OF p(1) K(3) assms(2,3,4,5) P(12,11) [folded cr_def ck_def sr_def sk_def] l(3,4) P(9,8) not_sym [OF P(10)] assms(8)]
  have cq: "bt_recs q x = rs[idx - 1 := last sr]" "bt_kids q x = bt_kids p x" "bt_recs q c = rs ! (idx - 1) # cr"
    "bt_kids q c = (if h = 0 then [] else last sk # ck)" "bt_recs q s = butlast sr" "bt_kids q s = butlast sk"
    using bt_at_content [OF S(2)] bt_at_content [OF S(3)] bt_at_content [OF S(4)] by (simp_all add: rs_def)
  have at: "bt_at sh q x False (take (idx - 1) (bt_recs p x) @ last sr # drop (idx - 1 + 1) (bt_recs p x))
      (take (idx - 1) (bt_kids p x) @ [s, c] @ drop (idx - 1 + 2) (bt_kids p x))"
    unfolding P(1) [symmetric] P(3) [symmetric] by (rule S(2))
  have new: "\<forall>d \<in> set [s, c]. bt_at sh q d (h = 0) (bt_recs q d) (bt_kids q d) \<and> bt_T sh - 1 \<le> length (bt_recs q d)"
    using S(3,4) l cq by (auto simp: T_def rs_def)
  have sk: "h \<noteq> 0 \<Longrightarrow> butlast sk @ [last sk] = sk" using P(17) by (auto simp: sk_def intro: append_butlast_last_id)
  have gk: "concat (map (bt_kids q) [s, c]) = concat (map (bt_kids p) [s, c])"
    using cq P(17) sk by (cases "h = 0") (simp_all add: sk_def ck_def)
  have fr: "\<forall>m \<in> E \<union> set (bt_ids p (Suc h) x). m \<notin> Set.insert x (set [s, c]) \<longrightarrow> m \<notin> set [s, c] \<and> same_node p q m"
    using S(5) by auto
  have xz: "distinct [s, c]" "x \<notin> set [s, c]" using P(8-10) by auto
  note R = bt_rebuild [OF assms(1) P(1) S(1) at new gk fr xz]
  have "set (bt_ids q (Suc h) x) = set (bt_ids p (Suc h) x)" using R(3) K(2) P(6,7) by auto
  then have "bt_space q E (set (bt_ids q (Suc h) x))" using p(2) S(6,7) by (simp add: bt_space_def)
  then show "bt_sub sh q E (Suc h) x" using R(1,2) S(1) by (simp only: bt_sub_def)
  show "bt_kids q x = bt_kids p x" "length (bt_recs q x) = length (bt_recs p x)" "length (bt_recs q c) = bt_T sh"
    using cq l(1) T by (simp_all add: rs_def T_def)
  show "same_node p q m" if "m \<in> E" for m using S(5) that bt_sub_outside [OF assms(1) that] P(6,7) by auto
  show "bp_root q = bp_root p" "bp_size q = bp_size p" "length (bp_nodes q) = length (bp_nodes p)" by (rule S(8), rule S(9), rule S(6))
  define f where "f = bt_list p (h - 1)"
  note cl = P(15,16) [folded cr_def ck_def sr_def sk_def f_def]
  have cn: "ilv (map f (bt_kids q c)) (bt_recs q c) = (if h = 0 then [] else f (last sk)) @ rs ! (idx - 1) # ilv (map f ck) cr"
    using P(17) by (cases "h = 0") (simp_all add: cq ck_def)
  have sn: "ilv (map f (bt_kids q s)) (bt_recs q s) @ last sr # (if h = 0 then [] else f (last sk)) = ilv (map f sk) sr"
  proof (cases "h = 0")
    case True
    then show ?thesis using P(17) l(4) cq by (simp add: sk_def)
  next
    case False
    have sr: "butlast sr @ [last sr] = sr" using l(4) by simp
    have "map f (butlast sk) @ [f (last sk)] = map f sk" using arg_cong [OF sk [OF False], of "map f"] by simp
    then show ?thesis using ilv_join [of "map f (butlast sk)" "[f (last sk)]" "butlast sr" "last sr" "[]"] P(17) sr l(4) False cq
      by (simp add: sk_def sr_def)
  qed
  have "bt_list q (Suc h) x = lefts (map (bt_list p h) (take (idx - 1) (bt_kids p x))) (take (idx - 1) (bt_recs p x))
      @ (ilv (map f (bt_kids q s)) (bt_recs q s) @ last sr # ilv (map f (bt_kids q c)) (bt_recs q c))
      @ rights (drop (idx - 1 + 1) (bt_recs p x)) (map (bt_list p h) (drop (idx - 1 + 2) (bt_kids p x)))"
    unfolding P(13) [symmetric] R(4) f_def by simp
  also have "ilv (map f (bt_kids q s)) (bt_recs q s) @ last sr # ilv (map f (bt_kids q c)) (bt_recs q c)
      = bt_list p h s @ bt_recs p x ! (idx - 1) # bt_list p h c" unfolding cn cl sn [symmetric] by (simp add: rs_def)
  finally show "bt_list q (Suc h) x = bt_list p (Suc h) x" unfolding P(14) .
  show "set (bt_list p h c) \<subseteq> set (bt_list q h c)" using R(5) [of c] cn cl by (auto simp: f_def)
qed

lemma bt_borrow_next_sub:
  assumes "bt_sub sh p E (Suc h) x" "idx < length (bt_recs p x)" "c = bt_kids p x ! idx" "s = bt_kids p x ! (idx + 1)"
    "length (bt_recs p c) = bt_T sh - 1" "bt_T sh \<le> length (bt_recs p s)" "q = borrow_from_next x idx p"
  shows "bt_sub sh q E (Suc h) x" "bt_list q (Suc h) x = bt_list p (Suc h) x" "bt_kids q x = bt_kids p x"
    "length (bt_recs q x) = length (bt_recs p x)" "length (bt_recs q c) = bt_T sh" "set (bt_list p h c) \<subseteq> set (bt_list q h c)"
    "m \<in> E \<Longrightarrow> same_node p q m" "bp_root q = bp_root p" "bp_size q = bp_size p" "length (bp_nodes q) = length (bp_nodes p)"
proof -
  define T where "T = bt_T sh"
  define rs where "rs = bt_recs p x"
  define cr where "cr = bt_recs p c"
  define ck where "ck = bt_kids p c"
  define sr where "sr = bt_recs p s"
  define sk where "sk = bt_kids p s"
  have p: "bt_arrays sh p" "bt_space p E (set (bt_ids p (Suc h) x))" using assms(1) by (simp_all only: bt_sub_def)
  note K = bt_sub_kids [OF assms(1)]
  have T: "2 \<le> T" "bt_max_keys sh = 2 * T - 1" using bt_T_bounds by (auto simp: T_def bt_max_keys_def)
  note P = bt_pair [OF assms(1,2,3,4) refl refl refl refl]
  have l: "length cr = T - 1" "T \<le> length sr" "length cr < bt_max_keys sh" "sr \<noteq> []"
    using assms(5,6) T by (auto simp: cr_def sr_def T_def)
  note S = borrow_from_next_ok [OF p(1) K(3) assms(2,3,4) P(11,12) [folded cr_def ck_def sr_def sk_def] l(3,4) P(8,9,10) assms(7)]
  have cq: "bt_recs q x = rs[idx := hd sr]" "bt_kids q x = bt_kids p x" "bt_recs q c = cr @ [rs ! idx]"
    "bt_kids q c = (if h = 0 then [] else ck @ [hd sk])" "bt_recs q s = tl sr" "bt_kids q s = tl sk"
    using bt_at_content [OF S(2)] bt_at_content [OF S(3)] bt_at_content [OF S(4)] by (simp_all add: rs_def)
  have at: "bt_at sh q x False (take idx (bt_recs p x) @ hd sr # drop (idx + 1) (bt_recs p x))
      (take idx (bt_kids p x) @ [c, s] @ drop (idx + 2) (bt_kids p x))"
    unfolding P(1) [symmetric] P(3) [symmetric] by (rule S(2))
  have new: "\<forall>d \<in> set [c, s]. bt_at sh q d (h = 0) (bt_recs q d) (bt_kids q d) \<and> bt_T sh - 1 \<le> length (bt_recs q d)"
    using S(3,4) l cq by (auto simp: T_def rs_def)
  have sk: "h \<noteq> 0 \<Longrightarrow> hd sk # tl sk = sk" using P(17) by (auto simp: sk_def intro: list.collapse)
  have gk: "concat (map (bt_kids q) [c, s]) = concat (map (bt_kids p) [c, s])"
    using cq P(17) sk by (cases "h = 0") (simp_all add: sk_def ck_def)
  have fr: "\<forall>m \<in> E \<union> set (bt_ids p (Suc h) x). m \<notin> Set.insert x (set [c, s]) \<longrightarrow> m \<notin> set [c, s] \<and> same_node p q m"
    using S(5) by auto
  have xz: "distinct [c, s]" "x \<notin> set [c, s]" using P(8-10) by auto
  note R = bt_rebuild [OF assms(1) P(1) S(1) at new gk fr xz]
  have "set (bt_ids q (Suc h) x) = set (bt_ids p (Suc h) x)" using R(3) K(2) P(6,7) by auto
  then have "bt_space q E (set (bt_ids q (Suc h) x))" using p(2) S(6,7) by (simp add: bt_space_def)
  then show "bt_sub sh q E (Suc h) x" using R(1,2) S(1) by (simp only: bt_sub_def)
  show "bt_kids q x = bt_kids p x" "length (bt_recs q x) = length (bt_recs p x)" "length (bt_recs q c) = bt_T sh"
    using cq l(1) T by (simp_all add: rs_def T_def)
  show "same_node p q m" if "m \<in> E" for m using S(5) that bt_sub_outside [OF assms(1) that] P(6,7) by auto
  show "bp_root q = bp_root p" "bp_size q = bp_size p" "length (bp_nodes q) = length (bp_nodes p)" by (rule S(8), rule S(9), rule S(6))
  define f where "f = bt_list p (h - 1)"
  note cl = P(15,16) [folded cr_def ck_def sr_def sk_def f_def]
  have cn: "ilv (map f (bt_kids q c)) (bt_recs q c) = ilv (map f ck) cr @ rs ! idx # (if h = 0 then [] else f (hd sk))"
  proof (cases "h = 0")
    case True
    then show ?thesis using P(17) cq by (simp add: ck_def)
  next
    case False
    then show ?thesis using ilv_join [of "map f ck" "[f (hd sk)]" cr "rs ! idx" "[]"] P(17) cq by (simp add: ck_def cr_def)
  qed
  have sn: "(if h = 0 then [] else f (hd sk)) @ hd sr # ilv (map f (bt_kids q s)) (bt_recs q s) = ilv (map f sk) sr"
  proof (cases "h = 0")
    case True
    then show ?thesis using P(17) l(4) cq by (simp add: sk_def)
  next
    case False
    have sr: "hd sr # tl sr = sr" using l(4) by simp
    have "f (hd sk) # map f (tl sk) = map f sk" using arg_cong [OF sk [OF False], of "map f"] by simp
    then have "ilv (map f sk) sr = ilv (f (hd sk) # map f (tl sk)) (hd sr # tl sr)" by (simp only: sr)
    then show ?thesis by (simp only: ilv.simps cq(5,6) False if_False)
  qed
  have "bt_list q (Suc h) x = lefts (map (bt_list p h) (take idx (bt_kids p x))) (take idx (bt_recs p x))
      @ (ilv (map f (bt_kids q c)) (bt_recs q c) @ hd sr # ilv (map f (bt_kids q s)) (bt_recs q s))
      @ rights (drop (idx + 1) (bt_recs p x)) (map (bt_list p h) (drop (idx + 2) (bt_kids p x)))"
    unfolding P(13) [symmetric] R(4) f_def by simp
  also have "ilv (map f (bt_kids q c)) (bt_recs q c) @ hd sr # ilv (map f (bt_kids q s)) (bt_recs q s)
      = bt_list p h c @ bt_recs p x ! idx # bt_list p h s" unfolding cn cl sn [symmetric] by (simp add: rs_def)
  finally show "bt_list q (Suc h) x = bt_list p (Suc h) x" unfolding P(14) .
  show "set (bt_list p h c) \<subseteq> set (bt_list q h c)" using R(5) [of c] cn cl by (auto simp: f_def)
qed

lemma bt_merge_sub:
  assumes "bt_sub sh p E (Suc h) x" "idx < length (bt_recs p x)" "c = bt_kids p x ! idx" "s = bt_kids p x ! (idx + 1)"
    "length (bt_recs p c) = bt_T sh - 1" "length (bt_recs p s) = bt_T sh - 1" "q = bt_merge sh x idx p"
  shows "bt_sub sh q E (Suc h) x" "bt_list q (Suc h) x = bt_list p (Suc h) x" "bt_kids q x = erase_at (idx + 1) (bt_kids p x)"
    "bt_recs q x = erase_at idx (bt_recs p x)" "length (bt_recs q c) = bt_max_keys sh"
    "bt_list q h c = bt_list p h c @ bt_recs p x ! idx # bt_list p h s"
    "m \<in> E \<Longrightarrow> same_node p q m" "bp_root q = bp_root p" "bp_size q = bp_size p" "length (bp_nodes q) = length (bp_nodes p)"
proof -
  define T where "T = bt_T sh"
  define rs where "rs = bt_recs p x"
  define cr where "cr = bt_recs p c"
  define ck where "ck = bt_kids p c"
  define sr where "sr = bt_recs p s"
  define sk where "sk = bt_kids p s"
  have p: "bt_arrays sh p" "bt_space p E (set (bt_ids p (Suc h) x))" using assms(1) by (simp_all only: bt_sub_def)
  note K = bt_sub_kids [OF assms(1)]
  have T: "2 \<le> T" "bt_max_keys sh = 2 * T - 1" using bt_T_bounds by (auto simp: T_def bt_max_keys_def)
  note P = bt_pair [OF assms(1,2,3,4) refl refl refl refl]
  have l: "length cr = bt_T sh - 1" "length sr = bt_T sh - 1" using assms(5,6) by (simp_all add: cr_def sr_def)
  note S = bt_merge_ok [OF p(1) K(3) assms(2,3,4) P(11,12) [folded cr_def ck_def sr_def sk_def] l P(8,9,10) assms(7)]
  have cq: "bt_recs q x = erase_at idx rs" "bt_kids q x = erase_at (idx + 1) (bt_kids p x)" "bt_recs q c = cr @ rs ! idx # sr"
    "bt_kids q c = ck @ sk"
    using bt_at_content [OF S(2)] bt_at_content [OF S(3)] by (simp_all add: rs_def)
  have "idx \<le> length (bt_kids p x)" "idx + 2 \<le> length (bt_kids p x)" using assms(2) K(4) by simp_all
  then have er: "erase_at idx (bt_recs p x) = take idx (bt_recs p x) @ drop (idx + 1) (bt_recs p x)"
    "erase_at (idx + 1) (bt_kids p x) = take idx (bt_kids p x) @ [c] @ drop (idx + 2) (bt_kids p x)"
    using assms(3) by (simp_all add: erase_at_def take_Suc_conv_app_nth)
  have at: "bt_at sh q x False (take idx (bt_recs p x) @ drop (idx + 1) (bt_recs p x))
      (take idx (bt_kids p x) @ [c] @ drop (idx + 2) (bt_kids p x))"
    unfolding er [symmetric] by (rule S(2))
  have new: "\<forall>d \<in> set [c]. bt_at sh q d (h = 0) (bt_recs q d) (bt_kids q d) \<and> bt_T sh - 1 \<le> length (bt_recs q d)"
    using S(3) l cq by (auto simp: rs_def)
  have gk: "concat (map (bt_kids q) [c]) = concat (map (bt_kids p) [c, s])" using cq by (simp add: sk_def ck_def)
  have fr: "\<forall>m \<in> E \<union> set (bt_ids p (Suc h) x). m \<notin> Set.insert x (set [c, s]) \<longrightarrow> m \<notin> set [c] \<and> same_node p q m"
    using S(4) by auto
  have xz: "distinct [c]" "x \<notin> set [c]" using P(8) by auto
  note R = bt_rebuild [OF assms(1) P(1) S(1) at new gk fr xz]
  have ids: "set (bt_ids q (Suc h) x) = set (bt_ids p (Suc h) x) - {s}" using R(3) K(2) P(6,7,10) by auto
  have "s \<in> set (bt_ids p (Suc h) x)" using K(2) P(7) by auto
  then have "bt_space q E (set (bt_ids q (Suc h) x))" using p(2) S(5,6) unfolding bt_space_def ids by auto
  then show "bt_sub sh q E (Suc h) x" using R(1,2) S(1) by (simp only: bt_sub_def)
  show "bt_kids q x = erase_at (idx + 1) (bt_kids p x)" "bt_recs q x = erase_at idx (bt_recs p x)" "length (bt_recs q c) = bt_max_keys sh"
    using cq l T by (simp_all add: rs_def T_def)
  show "same_node p q m" if "m \<in> E" for m using S(4) that bt_sub_outside [OF assms(1) that] P(6,7) by auto
  show "bp_root q = bp_root p" "bp_size q = bp_size p" "length (bp_nodes q) = length (bp_nodes p)" by (rule S(7), rule S(8), rule S(5))
  define f where "f = bt_list p (h - 1)"
  note cl = P(15,16) [folded cr_def ck_def sr_def sk_def f_def]
  have cn: "ilv (map f (bt_kids q c)) (bt_recs q c) = ilv (map f ck) cr @ rs ! idx # ilv (map f sk) sr"
    using ilv_join [of "map f ck" "map f sk" cr "rs ! idx" sr] P(17) by (auto simp: cq ck_def sk_def cr_def)
  have "bt_list q (Suc h) x = lefts (map (bt_list p h) (take idx (bt_kids p x))) (take idx (bt_recs p x))
      @ ilv (map f (bt_kids q c)) (bt_recs q c)
      @ rights (drop (idx + 1) (bt_recs p x)) (map (bt_list p h) (drop (idx + 2) (bt_kids p x)))"
    using ilv_split [of "map (bt_list p h) (take idx (bt_kids p x))" "take idx (bt_recs p x)"
        "map (bt_list p h) (drop (idx + 2) (bt_kids p x))" "drop (idx + 1) (bt_recs p x)"] P(4,5)
    unfolding R(4) f_def by simp
  then show "bt_list q (Suc h) x = bt_list p (Suc h) x" unfolding P(14) cn cl by (simp add: rs_def)
  show "bt_list q h c = bt_list p h c @ bt_recs p x ! idx # bt_list p h s" using R(5) [of c] cn cl by (simp add: f_def rs_def)
qed

section \<open>Going down to a child\<close>

lemma bt_child:
  assumes "bt_sub sh p E (Suc h) x" "j \<le> length (bt_recs p x)" "c = bt_kids p x ! j"
    "as = take j (bt_kids p x)" "bs = drop (j + 1) (bt_kids p x)"
  shows "bt_kids p x = as @ c # bs" "c \<in> set (bt_kids p x)" "node_child_at p x j = c"
    "bt_sub sh p (E \<union> bt_around p h x as bs) h c"
    "bt_list p (Suc h) x = lefts (map (bt_list p h) as) (take j (bt_recs p x)) @ bt_list p h c
       @ rights (drop j (bt_recs p x)) (map (bt_list p h) bs)"
    "ilv (map (bt_list p h) as @ l # map (bt_list p h) bs) (bt_recs p x) = lefts (map (bt_list p h) as) (take j (bt_recs p x)) @ l
       @ rights (drop j (bt_recs p x)) (map (bt_list p h) bs)"
    "length (map (bt_list p h) as) = length (take j (bt_recs p x))"
proof -
  note K = bt_sub_kids [OF assms(1)]
  have p: "bt_arrays sh p" using assms(1) by (simp only: bt_sub_def)
  have j: "j < length (bt_kids p x)" using assms(2) K(4) by simp
  show ks: "bt_kids p x = as @ c # bs" using id_take_nth_drop [OF j] assms(3-5) by simp
  then show "c \<in> set (bt_kids p x)" by simp
  show "node_child_at p x j = c" using bt_at_child(1) [OF p K(3) assms(2)] assms(3) by simp
  show "bt_sub sh p (E \<union> bt_around p h x as bs) h c" by (rule bt_sub_child(1) [OF assms(1) ks])
  show l: "length (map (bt_list p h) as) = length (take j (bt_recs p x))" using j assms(2,4) K(4) by simp
  have r: "length (map (bt_list p h) bs) = length (drop j (bt_recs p x))" using assms(5) K(4) by simp
  show il: "ilv (map (bt_list p h) as @ l # map (bt_list p h) bs) (bt_recs p x) = lefts (map (bt_list p h) as) (take j (bt_recs p x)) @ l
       @ rights (drop j (bt_recs p x)) (map (bt_list p h) bs)" for l
    using ilv_split [OF l r, of l] by simp
  have "bt_list p (Suc h) x = ilv (map (bt_list p h) (as @ c # bs)) (bt_recs p x)" by (simp only: bt_list.simps ks [symmetric])
  then show "bt_list p (Suc h) x = lefts (map (bt_list p h) as) (take j (bt_recs p x)) @ bt_list p h c
       @ rights (drop j (bt_recs p x)) (map (bt_list p h) bs)" by (simp add: il)
qed

lemma bt_child_done:
  assumes "bt_sub sh p E (Suc h) x" "j \<le> length (bt_recs p x)" "c = bt_kids p x ! j"
    "as = take j (bt_kids p x)" "bs = drop (j + 1) (bt_kids p x)"
    "bt_sub sh q (E \<union> bt_around p h x as bs) h c" "\<forall>m \<in> E \<union> bt_around p h x as bs. same_node p q m"
    "bt_T sh - 1 \<le> length (bt_recs q c)"
  shows "bt_sub sh q E (Suc h) x" "bt_recs q x = bt_recs p x" "\<forall>m \<in> E. same_node p q m"
    "bt_list q (Suc h) x = lefts (map (bt_list p h) as) (take j (bt_recs p x)) @ bt_list q h c
       @ rights (drop j (bt_recs p x)) (map (bt_list p h) bs)"
  using bt_sub_replace [OF assms(1) bt_child(1) [OF assms(1-5)] assms(6-8)] bt_child(6) [OF assms(1-5)] assms(7) by simp_all

text \<open>The keys beside the child a key leads to.\<close>
lemma bt_child_keys:
  assumes "bt_sub sh p E (Suc h) x" "j \<le> length (bt_recs p x)" "c = bt_kids p x ! j"
    "as = take j (bt_kids p x)" "bs = drop (j + 1) (bt_kids p x)" "sorted_wrt (<) (map fst (bt_list p (Suc h) x))"
    "0 < j \<Longrightarrow> fst (bt_recs p x ! (j - 1)) < k" "j < length (bt_recs p x) \<Longrightarrow> k < fst (bt_recs p x ! j)"
  shows "r \<in> set (lefts (map (bt_list p h) as) (take j (bt_recs p x))) \<Longrightarrow> fst r < k"
    "r \<in> set (rights (drop j (bt_recs p x)) (map (bt_list p h) bs)) \<Longrightarrow> k < fst r"
    "sorted_wrt (<) (map fst (bt_list p h c))"
proof -
  note C = bt_child [OF assms(1-5)]
  have s: "sorted_wrt (<) (map fst (lefts (map (bt_list p h) as) (take j (bt_recs p x)) @ bt_list p h c
       @ rights (drop j (bt_recs p x)) (map (bt_list p h) bs)))" using assms(6) C(5) by simp
  show "r \<in> set (lefts (map (bt_list p h) as) (take j (bt_recs p x))) \<Longrightarrow> fst r < k"
    using lefts_less [OF s C(7)] assms(2,7) by (cases j) (auto simp: take_Suc_conv_app_nth last_conv_nth)
  show "r \<in> set (rights (drop j (bt_recs p x)) (map (bt_list p h) bs)) \<Longrightarrow> k < fst r"
    using rights_greater [OF s [unfolded append_assoc [symmetric]]] assms(8) by (cases "j < length (bt_recs p x)") (auto simp: hd_drop_conv_nth)
  show "sorted_wrt (<) (map fst (bt_list p h c))" using s by (simp add: sorted_wrt_append)
qed

lemma bt_recs_in_list: "bt_sub sh p E h x \<Longrightarrow> set (bt_recs p x) \<subseteq> set (bt_list p h x)"
proof (cases h)
  case (Suc h')
  assume b: "bt_sub sh p E h x"
  then have l: "length (bt_kids p x) = length (bt_recs p x) + 1" using bt_sub_kids(4) Suc by blast
  have "length ls = length rs + 1 \<Longrightarrow> set rs \<subseteq> set (ilv ls rs)" for ls :: "slot list list" and rs
    by (induction ls rs rule: ilv.induct) auto
  then show ?thesis using l Suc by simp
qed simp

lemma ilv_sorted: "length ls = length rs + 1 \<Longrightarrow> sorted_wrt (<) (map fst (ilv ls rs)) \<Longrightarrow> sorted_wrt (<) (map fst rs)"
proof (induction ls rs rule: ilv.induct)
  case (3 l ls r rs)
  have "set rs \<subseteq> set (ilv ls rs)" if "length ls = length rs + 1" for ls :: "('a \<times> 'b) list list" and rs
    using that by (induction ls rs rule: ilv.induct) auto
  then show ?case using 3 by (auto simp: sorted_wrt_append)
qed simp_all

lemma bt_recs_sorted:
  "bt_sub sh p E h x \<Longrightarrow> sorted_wrt (<) (map fst (bt_list p h x)) \<Longrightarrow> sorted_wrt (<) (map fst (bt_recs p x))"
proof (cases h)
  case (Suc h')
  assume b: "bt_sub sh p E h x" "sorted_wrt (<) (map fst (bt_list p h x))"
  then have "length (bt_kids p x) = length (bt_recs p x) + 1" using bt_sub_kids(4) Suc by blast
  then show ?thesis using b(2) Suc ilv_sorted [of "map (bt_list p h') (bt_kids p x)"] by simp
qed simp

section \<open>Searching\<close>

lemma bt_search_ok:
  "bt_sub sh p E h x \<Longrightarrow> sorted_wrt (<) (map fst (bt_list p h x)) \<Longrightarrow> \<forall>i \<in> set (bt_ids p h x). i \<noteq> bt_nil \<Longrightarrow>
   \<exists>r. bt_search p k x = Some r \<and> (case r of
       None \<Rightarrow> k \<notin> fst ` set (bt_list p h x)
     | Some (n, j) \<Rightarrow> n \<in> set (bt_ids p h x) \<and> j < length (bt_recs p n) \<and> fst (bt_recs p n ! j) = k
         \<and> bt_recs p n ! j \<in> set (bt_list p h x))"
proof (induction h arbitrary: E x)
  case (0 E x)
  define i where "i = find_key p x k 0"
  have p: "bt_arrays sh p" "bt_at sh p x True (bt_recs p x) (bt_kids p x)" using 0(1) by (simp_all add: bt_sub_def)
  note F = find_key_spec [OF p, of 0 k, simplified, folded i_def]
  have x: "x \<noteq> bt_nil" using 0(3) by simp
  have n: "node_n p x = length (bt_recs p x)" "node_leaf p x" using bt_atD(2,3) [OF p] by simp_all
  have key: "i < length (bt_recs p x) \<Longrightarrow> node_key_at p x i = fst (bt_recs p x ! i)" using node_at_read(1) [OF p] .
  have nil: "bt_search p k bt_nil = Some None" by (subst bt_search.simps) simp
  show ?case
  proof (cases "i < length (bt_recs p x) \<and> fst (bt_recs p x ! i) = k")
    case True
    then have "bt_search p k x = Some (Some (x, i))" using x n key by (subst bt_search.simps) (simp add: i_def [symmetric])
    then show ?thesis using True by (intro exI [of _ "Some (x, i)"]) simp
  next
    case False
    then have "bt_search p k x = Some None" using x n key nil by (subst bt_search.simps) (auto simp: i_def [symmetric] Let_def)
    moreover have "k \<notin> fst ` set (bt_recs p x)"
    proof
      assume "k \<in> fst ` set (bt_recs p x)"
      then obtain j where j: "j < length (bt_recs p x)" "fst (bt_recs p x ! j) = k" by (auto simp: in_set_conv_nth)
      then have "i \<le> j" using F by (cases "j < i") auto
      moreover have "i < length (bt_recs p x)" "k < fst (bt_recs p x ! i)" using False F j \<open>i \<le> j\<close> by auto
      ultimately show False using j 0(2) sorted_wrt_nth_less [of "(<)" "map fst (bt_recs p x)" i j] by (cases "i = j") auto
    qed
    ultimately show ?thesis by (intro exI [of _ None]) simp
  qed
next
  case (Suc h E x)
  define i where "i = find_key p x k 0"
  note K = bt_sub_kids [OF Suc.prems(1)]
  have p: "bt_arrays sh p" using Suc.prems(1) by (simp only: bt_sub_def)
  note F = find_key_spec [OF p K(3), of 0 k, simplified, folded i_def]
  have x: "x \<noteq> bt_nil" using Suc.prems(3) by simp
  have n: "node_n p x = length (bt_recs p x)" "\<not> node_leaf p x" using bt_atD(2,3) [OF p K(3)] by simp_all
  have key: "i < length (bt_recs p x) \<Longrightarrow> node_key_at p x i = fst (bt_recs p x ! i)" using node_at_read(1) [OF p K(3)] .
  show ?case
  proof (cases "i < length (bt_recs p x) \<and> fst (bt_recs p x ! i) = k")
    case True
    then have "bt_search p k x = Some (Some (x, i))" using x n key by (subst bt_search.simps) (simp add: i_def [symmetric])
    moreover have "bt_recs p x ! i \<in> set (bt_list p (Suc h) x)" using True bt_recs_in_list [OF Suc.prems(1)] by auto
    ultimately show ?thesis using True by (intro exI [of _ "Some (x, i)"]) simp
  next
    case False
    have i: "i \<le> length (bt_recs p x)" using F by simp
    note C = bt_child [OF Suc.prems(1) i refl refl refl]
    have lt: "0 < i \<Longrightarrow> fst (bt_recs p x ! (i - 1)) < k" "i < length (bt_recs p x) \<Longrightarrow> k < fst (bt_recs p x ! i)"
      using F False by auto
    note B = bt_child_keys [OF Suc.prems(1) i refl refl refl Suc.prems(2) lt]
    have ids: "\<forall>i \<in> set (bt_ids p h (bt_kids p x ! i)). i \<noteq> bt_nil" using Suc.prems(3) C(2) by auto
    from Suc.IH [OF C(4) B(3) ids] obtain r where r: "bt_search p k (bt_kids p x ! i) = Some r" "case r of
         None \<Rightarrow> k \<notin> fst ` set (bt_list p h (bt_kids p x ! i))
       | Some (n, j) \<Rightarrow> n \<in> set (bt_ids p h (bt_kids p x ! i)) \<and> j < length (bt_recs p n) \<and> fst (bt_recs p n ! j) = k
           \<and> bt_recs p n ! j \<in> set (bt_list p h (bt_kids p x ! i))" by blast
    have "bt_search p k x = Some r"
      using x n key False r(1) C(3) by (subst bt_search.simps) (auto simp: i_def [symmetric] Let_def)
    moreover have "k \<notin> fst ` set (bt_list p (Suc h) x)" if "k \<notin> fst ` set (bt_list p h (bt_kids p x ! i))"
    proof -
      have "fst r \<noteq> k" if r: "r \<in> set (bt_list p (Suc h) x)" for r
      proof -
        consider "r \<in> set (lefts (map (bt_list p h) (take i (bt_kids p x))) (take i (bt_recs p x)))"
          | "r \<in> set (bt_list p h (bt_kids p x ! i))"
          | "r \<in> set (rights (drop i (bt_recs p x)) (map (bt_list p h) (drop (i + 1) (bt_kids p x))))"
          using r unfolding C(5) set_append Un_iff by blast
        then show ?thesis using B(1,2) [of r] that \<open>k \<notin> fst ` set (bt_list p h (bt_kids p x ! i))\<close> by cases auto
      qed
      then show ?thesis by auto
    qed
    moreover have "set (bt_ids p h (bt_kids p x ! i)) \<subseteq> set (bt_ids p (Suc h) x)" "set (bt_list p h (bt_kids p x ! i)) \<subseteq> set (bt_list p (Suc h) x)"
      using C(2) unfolding C(5) by auto
    ultimately show ?thesis using r(2) by (intro exI [of _ r]) (auto split: option.splits)
  qed
qed

section \<open>Overwriting a record\<close>

lemma set_rec_node:
  assumes "bt_arrays sh p" "bt_at sh p n leaf rs cs" "j < length rs" "q = set_rec n j kv p"
  shows "bt_arrays sh q" "bt_at sh q n leaf (rs[j := kv]) cs" "m \<noteq> n \<Longrightarrow> same_node p q m"
proof -
  note X = bt_atD [OF assms(1,2)]
  show "bt_arrays sh q" using assms(1,4) by simp
  show "m \<noteq> n \<Longrightarrow> same_node p q m" using X(1) by (simp add: assms(4) same_node_def read_set_rec)
  show "bt_at sh q n leaf (rs[j := kv]) cs"
    unfolding bt_at_def using X(1,2,3,4,6,9,10) take_update_swap [of "length rs" "bt_arr p n" j kv]
    by (auto simp: assms(4) read_set_rec)
qed

lemma bt_set_rec_root:
  assumes "bt_sub sh p E h x" "j < length (bt_recs p x)" "q = set_rec x j kv p"
  shows "bt_sub sh q E h x" "bt_recs q x = (bt_recs p x)[j := kv]" "bt_kids q x = bt_kids p x" "bt_ids q h x = bt_ids p h x"
    "bt_list q h x = ilv (map (bt_list p (h - 1)) (bt_kids p x)) ((bt_recs p x)[j := kv])" "\<forall>m \<in> E. same_node p q m"
    "c \<in> set (bt_kids p x) \<Longrightarrow> bt_list q (h - 1) c = bt_list p (h - 1) c \<and> bt_recs q c = bt_recs p c"
proof -
  have p: "bt_arrays sh p" "bt_wf sh p h x" "distinct (bt_ids p h x)" "bt_space p E (set (bt_ids p h x))"
    using assms(1) by (simp_all only: bt_sub_def)
  note S = set_rec_node [OF p(1) bt_wf_at [OF p(2)] assms(2,3)]
  have rk: "bt_recs q x = (bt_recs p x)[j := kv]" "bt_kids q x = bt_kids p x" using bt_at_content [OF S(2)] by simp_all
  then show "bt_recs q x = (bt_recs p x)[j := kv]" "bt_kids q x = bt_kids p x" .
  have o: "bt_list q (h - 1) c = bt_list p (h - 1) c \<and> bt_ids q (h - 1) c = bt_ids p (h - 1) c \<and> bt_wf sh q (h - 1) c \<and> bt_recs q c = bt_recs p c"
    if c: "c \<in> set (bt_kids p x)" for c
  proof -
    have "x \<notin> set (bt_ids p (h - 1) c)" using p(3) c unfolding bt_wf_node(2) [OF p(2)] by auto
    then have s: "\<forall>m \<in> set (bt_ids p (h - 1) c). same_node p q m" by (intro ballI S(3)) auto
    moreover have "same_node p q c" using s by simp
    ultimately show ?thesis using bt_frame [of p "h - 1" c q sh] same_node_content [of p q c] bt_wf_node(3) [OF p(2) c] by blast
  qed
  then show "c \<in> set (bt_kids p x) \<Longrightarrow> bt_list q (h - 1) c = bt_list p (h - 1) c \<and> bt_recs q c = bt_recs p c" by blast
  have wf: "bt_wf sh q h x"
    by (rule bt_wf_nodeI [OF S(2)]) (use o bt_wf_node(3) [OF p(2)] in auto)
  have m: "map (bt_list q (h - 1)) (bt_kids p x) = map (bt_list p (h - 1)) (bt_kids p x)"
    "map (bt_ids q (h - 1)) (bt_kids p x) = map (bt_ids p (h - 1)) (bt_kids p x)" using o by simp_all
  show l: "bt_list q h x = ilv (map (bt_list p (h - 1)) (bt_kids p x)) ((bt_recs p x)[j := kv])"
    unfolding bt_wf_node(1) [OF wf] rk m by (rule refl)
  show i: "bt_ids q h x = bt_ids p h x" unfolding bt_wf_node(2) [OF wf] bt_wf_node(2) [OF p(2)] rk m by (rule refl)
  have "bp_free q = bp_free p" "length (bp_nodes q) = length (bp_nodes p)" by (simp_all add: assms(3))
  then show "bt_sub sh q E h x" using S(1) wf p(3,4) by (simp add: bt_sub_def i bt_space_def)
  have "x \<notin> E" using bt_spaceD(7) [OF p(4), of x] bt_ids_root [of x p h] by blast
  then show "\<forall>m \<in> E. same_node p q m" by (intro ballI S(3)) auto
qed

lemma bt_set_rec_ok:
  "bt_sub sh p E h x \<Longrightarrow> n \<in> set (bt_ids p h x) \<Longrightarrow> j < length (bt_recs p n) \<Longrightarrow> q = set_rec n j kv p \<Longrightarrow>
   bt_sub sh q E h x \<and> length (bt_recs q x) = length (bt_recs p x) \<and> (\<forall>m \<in> E. same_node p q m)
   \<and> (\<exists>L R. bt_list p h x = L @ bt_recs p n ! j # R \<and> bt_list q h x = L @ kv # R)"
proof (induction h arbitrary: E x)
  case (0 E x)
  then have j: "j < length (bt_recs p x)" "q = set_rec x j kv p" "n = x" by simp_all
  note R = bt_set_rec_root [OF 0(1) j(1,2)]
  have "bt_kids p x = []" using 0(1) by (simp add: bt_sub_def bt_at_def)
  then have "bt_list q 0 x = (bt_recs p x)[j := kv]" using R(5) by simp
  then have "bt_list p 0 x = take j (bt_recs p x) @ bt_recs p n ! j # drop (Suc j) (bt_recs p x)"
    "bt_list q 0 x = take j (bt_recs p x) @ kv # drop (Suc j) (bt_recs p x)"
    using id_take_nth_drop [OF j(1)] upd_conv_take_nth_drop [OF j(1), of kv] j(3) by simp_all
  moreover have "length (bt_recs q x) = length (bt_recs p x)" unfolding R(2) by simp
  ultimately show ?case using R(1,6) by blast
next
  case (Suc h E x)
  show ?case
  proof (cases "n = x")
    case True
    have j: "j < length (bt_recs p x)" "q = set_rec x j kv p" using Suc.prems(3,4) True by simp_all
    note R = bt_set_rec_root [OF Suc.prems(1) j]
    note P = bt_pair [OF Suc.prems(1) j(1) refl refl refl refl refl refl]
    have "bt_list q (Suc h) x = ilv (map (bt_list p h) (bt_kids p x)) ((bt_recs p x)[j := kv])" using R(5) by simp
    also have "\<dots> = ilv (map (bt_list p h) (take j (bt_kids p x) @ [bt_kids p x ! j, bt_kids p x ! (j + 1)] @ drop (j + 2) (bt_kids p x)))
        (take j (bt_recs p x) @ kv # drop (j + 1) (bt_recs p x))" by (simp only: P(1) [symmetric] P(3))
    also have "\<dots> = lefts (map (bt_list p h) (take j (bt_kids p x))) (take j (bt_recs p x))
        @ (bt_list p h (bt_kids p x ! j) @ kv # bt_list p h (bt_kids p x ! (j + 1)))
        @ rights (drop (j + 1) (bt_recs p x)) (map (bt_list p h) (drop (j + 2) (bt_kids p x)))"
      unfolding P(13) [symmetric] by simp
    finally have q: "bt_list q (Suc h) x = (lefts (map (bt_list p h) (take j (bt_kids p x))) (take j (bt_recs p x))
        @ bt_list p h (bt_kids p x ! j)) @ kv # (bt_list p h (bt_kids p x ! (j + 1))
        @ rights (drop (j + 1) (bt_recs p x)) (map (bt_list p h) (drop (j + 2) (bt_kids p x))))" by simp
    moreover have "bt_list p (Suc h) x = (lefts (map (bt_list p h) (take j (bt_kids p x))) (take j (bt_recs p x))
        @ bt_list p h (bt_kids p x ! j)) @ bt_recs p n ! j # (bt_list p h (bt_kids p x ! (j + 1))
        @ rights (drop (j + 1) (bt_recs p x)) (map (bt_list p h) (drop (j + 2) (bt_kids p x))))"
      unfolding P(14) True by simp
    ultimately show ?thesis using R(1,2,6) by (metis length_list_update)
  next
    case False
    then obtain c where c: "c \<in> set (bt_kids p x)" "n \<in> set (bt_ids p h c)" using Suc.prems(2) by auto
    then obtain t where t: "t < length (bt_kids p x)" "c = bt_kids p x ! t" by (auto simp: in_set_conv_nth)
    have tr: "t \<le> length (bt_recs p x)" using t(1) bt_sub_kids(4) [OF Suc.prems(1)] by simp
    note C = bt_child [OF Suc.prems(1) tr t(2) refl refl]
    obtain L R where IH: "bt_sub sh q (E \<union> bt_around p h x (take t (bt_kids p x)) (drop (t + 1) (bt_kids p x))) h c"
      "length (bt_recs q c) = length (bt_recs p c)"
      "\<forall>m \<in> E \<union> bt_around p h x (take t (bt_kids p x)) (drop (t + 1) (bt_kids p x)). same_node p q m"
      "bt_list p h c = L @ bt_recs p n ! j # R" "bt_list q h c = L @ kv # R"
      using Suc.IH [OF C(4) c(2) Suc.prems(3,4)] by blast
    have "bt_T sh - 1 \<le> length (bt_recs q c)" using bt_sub_kids(5) [OF Suc.prems(1) c(1)] IH(2) by simp
    note D = bt_child_done [OF Suc.prems(1) tr t(2) refl refl IH(1,3) this]
    show ?thesis using D(1-3) unfolding C(5) D(4) IH(4,5)
      by (metis append.assoc append_Cons)
  qed
qed

end
