(* ===== verification/BTree_Insert.thy ===== *)
theory BTree_Insert imports BTree_Organ begin

text \<open>
  \<^verbatim>\<open>BTreeTraversalOrgan::insert_nonfull\<close> on a subtree: every step leaves the records of the subtree as they are
  and goes on in a child that is not full (\<open>bt_insert_step\<close>); the call returns with the new record in its
  place (\<open>bt_insert_nonfull_ok\<close>), and touches no node outside the subtree but free ones.
\<close>

section \<open>Insertion into a node that is not full\<close>

lemma scan_down_sorted:
  assumes "sorted_wrt (<) (map fst rs)" "k \<notin> fst ` set rs" "i = scan_down k rs (length rs)"
  shows "i \<le> length rs" "j < i \<Longrightarrow> fst (rs ! j) < k" "i \<le> j \<Longrightarrow> j < length rs \<Longrightarrow> k < fst (rs ! j)"
proof -
  show l: "i \<le> length rs" by (simp add: assms(3) scan_down_bounds(1))
  show "i \<le> j \<Longrightarrow> j < length rs \<Longrightarrow> k < fst (rs ! j)" using scan_down_bounds(2) [of k rs "length rs" j] assms(3) by simp
  show "fst (rs ! j) < k" if "j < i"
  proof -
    have "i - 1 < length rs" using that l by simp
    then have "fst (rs ! (i - 1)) \<noteq> k" using assms(2) by (metis imageI nth_mem)
    then have "fst (rs ! (i - 1)) < k" using scan_down_bounds(3) [of k rs "length rs"] that assms(3) by simp
    moreover have "fst (rs ! j) \<le> fst (rs ! (i - 1))"
    proof (cases "j = i - 1")
      case False
      then have "j < i - 1" using that by simp
      then show ?thesis using sorted_wrt_nth_less [OF assms(1), of j "i - 1"] that l \<open>i - 1 < length rs\<close> by simp
    qed simp
    ultimately show ?thesis by simp
  qed
qed

text \<open>Where the insertion continues: the child, after it has been split when it was full.\<close>
lemma bt_insert_step:
  assumes "bt_sub sh p E (Suc h) x" "length (bt_recs p x) < bt_max_keys sh" "sorted_wrt (<) (map fst (bt_list p (Suc h) x))"
    "k \<notin> fst ` set (bt_list p (Suc h) x)" "length (bp_nodes p) < 2 ^ 32"
  shows "\<exists>p1 j. bt_insert_nonfull sh x k v p = bt_insert_nonfull sh (bt_kids p1 x ! j) k v p1
     \<and> bt_sub sh p1 E (Suc h) x \<and> bt_list p1 (Suc h) x = bt_list p (Suc h) x \<and> j \<le> length (bt_recs p1 x)
     \<and> (0 < j \<longrightarrow> fst (bt_recs p1 x ! (j - 1)) < k) \<and> (j < length (bt_recs p1 x) \<longrightarrow> k < fst (bt_recs p1 x ! j))
     \<and> length (bt_recs p1 (bt_kids p1 x ! j)) < bt_max_keys sh \<and> length (bt_recs p x) \<le> length (bt_recs p1 x)
     \<and> (\<forall>m \<in> E. same_node p p1 m) \<and> bp_root p1 = bp_root p \<and> bp_size p1 = bp_size p
     \<and> set (bp_free p1) \<subseteq> set (bp_free p) \<and> length (bp_nodes p) \<le> length (bp_nodes p1)
     \<and> length (bp_nodes p1) \<le> length (bp_nodes p) + 1 \<and> (length (bp_nodes p1) = length (bp_nodes p) \<or> bp_free p1 = [])"
proof -
  define rs where "rs = bt_recs p x"
  define i where "i = scan_down k rs (length rs)"
  define y where "y = bt_kids p x ! i"
  note K = bt_sub_kids [OF assms(1)]
  have p: "bt_arrays sh p" using assms(1) by (simp only: bt_sub_def)
  have rl: "set rs \<subseteq> set (bt_list p (Suc h) x)" using bt_recs_in_list [OF assms(1)] by (simp add: rs_def)
  have rsub: "sorted_wrt (<) (map fst rs)" unfolding rs_def by (rule bt_recs_sorted [OF assms(1,3)])
  have kn: "k \<notin> fst ` set rs" using assms(4) rl by auto
  note SD = scan_down_sorted [OF rsub kn i_def]
  have n: "node_n p x = length rs" "\<not> node_leaf p x" using bt_atD(2,3) [OF p K(3)] by (simp_all add: rs_def)
  have di: "descend_index p x k (length rs) = i" using descend_index_scan [OF p K(3)] by (simp add: i_def rs_def)
  have ir: "i \<le> length (bt_recs p x)" using SD(1) by (simp add: rs_def)
  note C = bt_child [OF assms(1) ir y_def refl refl]
  have yat: "bt_at sh p y (h = 0) (bt_recs p y) (bt_kids p y)" using K(5) [OF C(2)] by simp
  have yn: "node_n p y = length (bt_recs p y)" using bt_atD(3) [OF p yat] .
  show ?thesis
  proof (cases "length (bt_recs p y) = bt_max_keys sh")
    case False
    then have "length (bt_recs p y) < bt_max_keys sh" using bt_atD(4) [OF p yat] by simp
    moreover have "bt_insert_nonfull sh x k v p = bt_insert_nonfull sh y k v p"
      using n di yn False C(3) by (subst bt_insert_nonfull.simps) (simp add: Let_def)
    moreover have "0 < i \<longrightarrow> fst (bt_recs p x ! (i - 1)) < k" "i < length (bt_recs p x) \<longrightarrow> k < fst (bt_recs p x ! i)"
      using SD(2) [of "i - 1"] SD(3) [of i] by (simp_all add: rs_def)
    ultimately show ?thesis using assms(1) ir unfolding y_def
      by (intro exI [of _ p] exI [of _ i]) (simp only: order_refl le_add1 same_node_refl simp_thms ball_simps subset_refl, simp)
  next
    case True
    define z where "z = fresh_index p"
    define p1 where "p1 = split_child sh x i p"
    define med where "med = bt_recs p y ! (bt_T sh - 1)"
    define j where "j = (if fst med < k then i + 1 else i)"
    note S = bt_split_sub [OF assms(1,5) ir assms(2) y_def True z_def p1_def, folded med_def rs_def]
    have p1: "bt_arrays sh p1" using S(1) by (simp only: bt_sub_def)
    have T: "2 \<le> bt_T sh" "bt_max_keys sh = 2 * bt_T sh - 1" using bt_T_bounds by (auto simp: bt_max_keys_def)
    have l: "length (bt_recs p1 x) = length rs + 1" using S(3) SD(1) by simp
    have med: "bt_recs p1 x ! i = med" using S(3) SD(1) by (simp add: insert_at_def nth_append)
    have "bt_recs p1 x ! i \<in> set (bt_recs p1 x)" using l SD(1) by (intro nth_mem) simp
    then have "med \<in> set (bt_list p1 (Suc h) x)" unfolding med using bt_recs_in_list [OF S(1)] by blast
    then have mk: "fst med \<noteq> k" using assms(4) S(2) by auto
    have key: "node_key_at p1 x i = fst med"
      using node_at_read(1) [OF p1 bt_sub_kids(3) [OF S(1)], of i] med l SD(1) by simp
    have jr: "j \<le> length (bt_recs p1 x)" using l SD(1) by (simp add: j_def)
    have ch: "node_child_at p1 x j = bt_kids p1 x ! j" by (rule bt_child(3) [OF S(1) jr refl refl refl])
    have step: "bt_insert_nonfull sh x k v p = bt_insert_nonfull sh (bt_kids p1 x ! j) k v p1"
    proof -
      have c: "node_n p (node_child_at p x i) = bt_max_keys sh" using yn True C(3) by simp
      have "bt_insert_nonfull sh x k v p =
          bt_insert_nonfull sh (node_child_at p1 x (if node_key_at p1 x i < k then i + 1 else i)) k v p1"
        by (subst bt_insert_nonfull.simps) (simp only: n di c Let_def p1_def [symmetric] if_True if_False simp_thms refl)
      then show ?thesis by (simp only: key j_def [symmetric] ch)
    qed
    have il: "i \<le> length rs" by (rule SD(1))
    have r1: "bt_recs p1 x = insert_at i med rs" by (rule S(3))
    have lt: "fst (bt_recs p1 x ! (j - 1)) < k" if "0 < j"
    proof (cases "fst med < k")
      case True
      then show ?thesis using med by (simp add: j_def)
    next
      case False
      then have "0 < i" "j = i" using that by (simp_all add: j_def)
      then show ?thesis using SD(2) [of "i - 1"] il by (simp add: r1 insert_at_def nth_append)
    qed
    have gt: "k < fst (bt_recs p1 x ! j)" if jl: "j < length (bt_recs p1 x)"
    proof (cases "fst med < k")
      case True
      then have j: "j = i + 1" by (simp add: j_def)
      then show ?thesis using SD(3) [of i] il jl l by (simp add: r1 insert_at_def nth_append)
    next
      case False
      then show ?thesis using med mk by (simp add: j_def)
    qed
    have "bt_kids p1 x ! i = y" "bt_kids p1 x ! (i + 1) = z"
      using S(4) C(1) K(4) ir y_def by (auto simp: insert_at_def nth_append)
    then have room: "length (bt_recs p1 (bt_kids p1 x ! j)) < bt_max_keys sh" using S(5,6) T by (simp add: j_def)
    have more: "length (bt_recs p x) \<le> length (bt_recs p1 x)" using l by (simp add: rs_def)
    have E: "\<forall>m \<in> E. same_node p p1 m" using S(7) by blast
    show ?thesis using step S(1,2) jr lt gt room more E S(8-13) by blast
  qed
qed


lemma bt_insert_nonfull_leaf:
  assumes "bt_sub sh p E 0 x" "length (bt_recs p x) < bt_max_keys sh" "sorted_wrt (<) (map fst (bt_recs p x))"
    "k \<notin> fst ` set (bt_recs p x)" "q = leaf_insert x k v p"
  shows "bt_insert_nonfull sh x k v p = Some q" "bt_sub sh q E 0 x"
    "\<exists>L R. bt_recs p x = L @ R \<and> bt_recs q x = L @ (k, v) # R \<and> (\<forall>r \<in> set L. fst r < k) \<and> (\<forall>r \<in> set R. k < fst r)"
    "\<forall>m \<in> E. same_node p q m" "bp_root q = bp_root p" "bp_size q = bp_size p" "bp_free q = bp_free p"
    "length (bp_nodes q) = length (bp_nodes p)"
proof -
  define i where "i = scan_down k (bt_recs p x) (length (bt_recs p x))"
  have p: "bt_arrays sh p" "bt_at sh p x True (bt_recs p x) (bt_kids p x)" "bt_space p E {x}"
    using assms(1) by (simp_all add: bt_sub_def)
  note I = leaf_insert_ok [OF p(1,2) assms(2,5), folded i_def]
  note SD = scan_down_sorted [OF assms(3,4) i_def]
  have "node_leaf p x" using bt_atD(2) [OF p(1,2)] by simp
  then show "bt_insert_nonfull sh x k v p = Some q" by (subst bt_insert_nonfull.simps) (simp add: assms(5))
  have rk: "bt_recs q x = insert_at i (k, v) (bt_recs p x)" "bt_kids q x = []" using bt_at_content [OF I(2)] by simp_all
  then show "bt_sub sh q E 0 x" using I(1,2,4,5) p(3) by (simp add: bt_sub_def bt_space_def)
  show "bp_root q = bp_root p" "bp_size q = bp_size p" "bp_free q = bp_free p" "length (bp_nodes q) = length (bp_nodes p)"
    using I(4-7) by simp_all
  have "x \<notin> E" using bt_spaceD(7) [OF p(3), of x] by auto
  then show "\<forall>m \<in> E. same_node p q m" by (intro ballI I(3)) auto
  have "\<forall>r \<in> set (take i (bt_recs p x)). fst r < k" using SD(1,2) by (simp add: all_set_conv_all_nth)
  moreover have "\<forall>r \<in> set (drop i (bt_recs p x)). k < fst r" using SD(3) by (simp add: all_set_conv_all_nth)
  moreover have "bt_recs p x = take i (bt_recs p x) @ drop i (bt_recs p x)" by simp
  ultimately show "\<exists>L R. bt_recs p x = L @ R \<and> bt_recs q x = L @ (k, v) # R \<and> (\<forall>r \<in> set L. fst r < k) \<and> (\<forall>r \<in> set R. k < fst r)"
    unfolding rk insert_at_def by blast
qed

lemma bt_insert_nonfull_ok:
  "bt_sub sh p E h x \<Longrightarrow> length (bt_recs p x) < bt_max_keys sh \<Longrightarrow> sorted_wrt (<) (map fst (bt_list p h x)) \<Longrightarrow>
   k \<notin> fst ` set (bt_list p h x) \<Longrightarrow> length (bp_nodes p) + h \<le> 2 ^ 32 \<Longrightarrow>
   \<exists>q L R. bt_insert_nonfull sh x k v p = Some q \<and> bt_sub sh q E h x \<and> bt_list p h x = L @ R \<and> bt_list q h x = L @ (k, v) # R
     \<and> (\<forall>r \<in> set L. fst r < k) \<and> (\<forall>r \<in> set R. k < fst r) \<and> length (bt_recs p x) \<le> length (bt_recs q x)
     \<and> (\<forall>m \<in> E. same_node p q m) \<and> bp_root q = bp_root p \<and> bp_size q = bp_size p
     \<and> length (bp_nodes p) \<le> length (bp_nodes q) \<and> length (bp_nodes q) \<le> length (bp_nodes p) + h
     \<and> (length (bp_nodes q) = length (bp_nodes p) \<or> bp_free q = []) \<and> set (bp_free q) \<subseteq> set (bp_free p)"
proof (induction h arbitrary: p E x)
  case (0 p E x)
  have l: "bt_list p 0 x = bt_recs p x" "bt_list q 0 x = bt_recs q x" for q by simp_all
  note I = bt_insert_nonfull_leaf [OF 0(1,2) 0(3,4) [unfolded l(1)] refl, where v = v]
  obtain L R where LR: "bt_recs p x = L @ R" "bt_recs (leaf_insert x k v p) x = L @ (k, v) # R"
    "\<forall>r \<in> set L. fst r < k" "\<forall>r \<in> set R. k < fst r" using I(3) by blast
  have "length (bt_recs p x) \<le> length (bt_recs (leaf_insert x k v p) x)" unfolding LR(1,2) by simp
  then show ?case unfolding l using I(1,2,4-8) LR by (intro exI [of _ "leaf_insert x k v p"] exI [of _ L] exI [of _ R]) simp
next
  case (Suc h p E x)
  have len: "length (bp_nodes p) < 2 ^ 32" using Suc.prems(5) by simp
  obtain p1 j where S: "bt_insert_nonfull sh x k v p = bt_insert_nonfull sh (bt_kids p1 x ! j) k v p1"
    "bt_sub sh p1 E (Suc h) x" "bt_list p1 (Suc h) x = bt_list p (Suc h) x" "j \<le> length (bt_recs p1 x)"
    "0 < j \<Longrightarrow> fst (bt_recs p1 x ! (j - 1)) < k" "j < length (bt_recs p1 x) \<Longrightarrow> k < fst (bt_recs p1 x ! j)"
    "length (bt_recs p1 (bt_kids p1 x ! j)) < bt_max_keys sh" "length (bt_recs p x) \<le> length (bt_recs p1 x)"
    "\<forall>m \<in> E. same_node p p1 m" "bp_root p1 = bp_root p" "bp_size p1 = bp_size p" "set (bp_free p1) \<subseteq> set (bp_free p)"
    "length (bp_nodes p) \<le> length (bp_nodes p1)" "length (bp_nodes p1) \<le> length (bp_nodes p) + 1"
    "length (bp_nodes p1) = length (bp_nodes p) \<or> bp_free p1 = []"
    using bt_insert_step [OF Suc.prems(1-4) len, of v] by blast
  define c where "c = bt_kids p1 x ! j"
  define as where "as = take j (bt_kids p1 x)"
  define bs where "bs = drop (j + 1) (bt_kids p1 x)"
  note C = bt_child [OF S(2,4) c_def as_def bs_def]
  have srt: "sorted_wrt (<) (map fst (bt_list p1 (Suc h) x))" unfolding S(3) by (rule Suc.prems(3))
  note B = bt_child_keys [OF S(2,4) c_def as_def bs_def srt S(5,6)]
  define lf where "lf = lefts (map (bt_list p1 h) as) (take j (bt_recs p1 x))"
  define rt where "rt = rights (drop j (bt_recs p1 x)) (map (bt_list p1 h) bs)"
  have lp: "bt_list p (Suc h) x = lf @ bt_list p1 h c @ rt" using C(5) by (simp only: S(3) lf_def rt_def)
  have kc: "k \<notin> fst ` set (bt_list p1 h c)" using Suc.prems(4) unfolding lp by auto
  have lc: "length (bp_nodes p1) + h \<le> 2 ^ 32" using S(14) Suc.prems(5) by simp
  obtain q L R where IH: "bt_insert_nonfull sh c k v p1 = Some q" "bt_sub sh q (E \<union> bt_around p1 h x as bs) h c"
    "bt_list p1 h c = L @ R" "bt_list q h c = L @ (k, v) # R" "\<forall>r \<in> set L. fst r < k" "\<forall>r \<in> set R. k < fst r"
    "length (bt_recs p1 c) \<le> length (bt_recs q c)" "\<forall>m \<in> E \<union> bt_around p1 h x as bs. same_node p1 q m"
    "bp_root q = bp_root p1" "bp_size q = bp_size p1"
    "length (bp_nodes p1) \<le> length (bp_nodes q)" "length (bp_nodes q) \<le> length (bp_nodes p1) + h"
    "length (bp_nodes q) = length (bp_nodes p1) \<or> bp_free q = []" "set (bp_free q) \<subseteq> set (bp_free p1)"
    using Suc.IH [OF C(4) S(7) [folded c_def] B(3) kc lc] by blast
  have "bt_T sh - 1 \<le> length (bt_recs q c)" using bt_sub_kids(5) [OF S(2) C(2)] IH(7) by simp
  note D = bt_child_done [OF S(2,4) c_def as_def bs_def IH(2,8) this, folded lf_def rt_def]
  have lists: "bt_list p (Suc h) x = (lf @ L) @ (R @ rt)" "bt_list q (Suc h) x = (lf @ L) @ (k, v) # (R @ rt)"
    unfolding lp D(4) IH(3,4) by simp_all
  have keys: "\<forall>r \<in> set (lf @ L). fst r < k" "\<forall>r \<in> set (R @ rt). k < fst r" using B(1,2) IH(5,6) by (auto simp: lf_def rt_def)
  have fr: "\<forall>m \<in> E. same_node p q m" using S(9) D(3) by (blast intro: same_node_trans)
  have grow: "length (bt_recs p x) \<le> length (bt_recs q x)" using S(8) D(2) by simp
  have len: "length (bp_nodes p) \<le> length (bp_nodes q)" "length (bp_nodes q) \<le> length (bp_nodes p) + Suc h"
    using S(13,14) IH(11,12) by simp_all
  have free: "set (bp_free q) \<subseteq> set (bp_free p)" using S(12) IH(14) by blast
  have stop: "length (bp_nodes q) = length (bp_nodes p) \<or> bp_free q = []" using S(15) IH(13,14) by auto
  have rs: "bp_root q = bp_root p" "bp_size q = bp_size p" using S(10,11) IH(9,10) by simp_all
  have ret: "bt_insert_nonfull sh x k v p = Some q" using S(1) IH(1) by (simp only: c_def)
  show ?case by (intro exI [of _ q] exI [of _ "lf @ L"] exI [of _ "R @ rt"] conjI ret D(1) lists keys grow fr rs len stop free)
qed

end
