(* ===== verification/BTree_Remove.thy ===== *)
theory BTree_Remove imports BTree_Organ begin

text \<open>
  \<^verbatim>\<open>BTreeTraversalOrgan::remove_from\<close> on a subtree.  A child is refilled before the removal goes down to it
  (\<open>bt_fill_sub\<close>), so that it can lose a record; a record of an inner node is overwritten by its
  predecessor or successor, which is then removed below (\<open>bt_remove_replaced\<close>).  \<open>bt_remove_ok\<close>: the call
  returns, the records are the former ones without the key's, and the nodes are still filled as required.
\<close>

section \<open>The last and the first record below a node\<close>

lemma bt_rightmost_ok:
  "bt_sub sh p E h x \<Longrightarrow> bt_recs p x \<noteq> [] \<Longrightarrow>
   \<exists>n. bt_rightmost p x = Some n \<and> bt_list p h x \<noteq> []
     \<and> (node_key_at p n (node_n p n - 1), node_value_at p n (node_n p n - 1)) = last (bt_list p h x)"
proof (induction h arbitrary: E x)
  case (0 E x)
  then have p: "bt_arrays sh p" "bt_at sh p x True (bt_recs p x) (bt_kids p x)" by (simp_all add: bt_sub_def)
  have "bt_rightmost p x = Some x" using bt_atD(2) [OF p] by (subst bt_rightmost.simps) simp
  moreover have "(node_key_at p x (node_n p x - 1), node_value_at p x (node_n p x - 1)) = last (bt_recs p x)"
    using node_at_read [OF p, of "length (bt_recs p x) - 1"] bt_atD(3) [OF p] 0(2) by (simp add: last_conv_nth)
  ultimately show ?case using 0(2) by simp
next
  case (Suc h E x)
  note K = bt_sub_kids [OF Suc.prems(1)]
  have p: "bt_arrays sh p" using Suc.prems(1) by (simp only: bt_sub_def)
  note C = bt_child [OF Suc.prems(1) order_refl refl refl refl]
  have "bt_T sh - 1 \<le> length (bt_recs p (bt_kids p x ! length (bt_recs p x)))" using K(5) [OF C(2)] by simp
  then have ne: "bt_recs p (bt_kids p x ! length (bt_recs p x)) \<noteq> []" using bt_T_bounds(1) [of sh] by auto
  have "bt_rightmost p x = bt_rightmost p (bt_kids p x ! length (bt_recs p x))"
    using bt_atD(2,3) [OF p K(3)] C(3) by (subst bt_rightmost.simps) simp
  then show ?case using Suc.IH [OF C(4) ne] unfolding C(5) by auto
qed

lemma bt_leftmost_ok:
  "bt_sub sh p E h x \<Longrightarrow> bt_recs p x \<noteq> [] \<Longrightarrow>
   \<exists>n. bt_leftmost p x = Some n \<and> bt_list p h x \<noteq> [] \<and> (node_key_at p n 0, node_value_at p n 0) = hd (bt_list p h x)"
proof (induction h arbitrary: E x)
  case (0 E x)
  then have p: "bt_arrays sh p" "bt_at sh p x True (bt_recs p x) (bt_kids p x)" by (simp_all add: bt_sub_def)
  have "bt_leftmost p x = Some x" using bt_atD(2) [OF p] by (subst bt_leftmost.simps) simp
  moreover have "(node_key_at p x 0, node_value_at p x 0) = hd (bt_recs p x)"
    using node_at_read [OF p, of 0] 0(2) by (simp add: hd_conv_nth)
  ultimately show ?case using 0(2) by simp
next
  case (Suc h E x)
  note K = bt_sub_kids [OF Suc.prems(1)]
  have p: "bt_arrays sh p" using Suc.prems(1) by (simp only: bt_sub_def)
  note C = bt_child [OF Suc.prems(1) le0 refl refl refl]
  have "bt_T sh - 1 \<le> length (bt_recs p (bt_kids p x ! 0))" using K(5) [OF C(2)] by simp
  then have ne: "bt_recs p (bt_kids p x ! 0) \<noteq> []" using bt_T_bounds(1) [of sh] by auto
  have "bt_leftmost p x = bt_leftmost p (bt_kids p x ! 0)"
    using bt_atD(2,3) [OF p K(3)] C(3) by (subst bt_leftmost.simps) simp
  then show ?case using Suc.IH [OF C(4) ne] unfolding C(5) by auto
qed

section \<open>Removal below a node\<close>

lemma sorted_keys_value:
  assumes "sorted_wrt (<) (map fst (xs :: slot list))" "(k, v) \<in> set xs" "r \<in> set xs" "fst r = k"
  shows "r = (k, v)"
  using assms eq_key_imp_eq_value [of xs k v "snd r"] by (cases r) (simp add: strict_sorted_iff)

text \<open>The place of a key in a node that is not a leaf.\<close>
lemma bt_remove_place:
  assumes "bt_sub sh p E (Suc h) x" "sorted_wrt (<) (map fst (bt_list p (Suc h) x))" "(k, v) \<in> set (bt_list p (Suc h) x)"
    "i = find_key p x k 0"
  shows "i \<le> length (bt_recs p x)"
    "i < length (bt_recs p x) \<and> node_key_at p x i = k \<Longrightarrow> bt_recs p x ! i = (k, v)"
    "\<not> (i < length (bt_recs p x) \<and> node_key_at p x i = k) \<Longrightarrow> (k, v) \<in> set (bt_list p h (bt_kids p x ! i))"
proof -
  note K = bt_sub_kids [OF assms(1)]
  have p: "bt_arrays sh p" using assms(1) by (simp only: bt_sub_def)
  note F = find_key_spec [OF p K(3), of 0 k, simplified, folded assms(4)]
  show i: "i \<le> length (bt_recs p x)" using F by simp
  have key: "i < length (bt_recs p x) \<Longrightarrow> node_key_at p x i = fst (bt_recs p x ! i)" using node_at_read(1) [OF p K(3)] .
  show "bt_recs p x ! i = (k, v)" if c: "i < length (bt_recs p x) \<and> node_key_at p x i = k"
  proof -
    have "bt_recs p x ! i \<in> set (bt_list p (Suc h) x)" using c bt_recs_in_list [OF assms(1)] by (metis nth_mem subsetD)
    then show ?thesis using sorted_keys_value [OF assms(2,3)] c key by simp
  qed
  show "(k, v) \<in> set (bt_list p h (bt_kids p x ! i))" if c: "\<not> (i < length (bt_recs p x) \<and> node_key_at p x i = k)"
  proof -
    have lt: "0 < i \<Longrightarrow> fst (bt_recs p x ! (i - 1)) < k" "i < length (bt_recs p x) \<Longrightarrow> k < fst (bt_recs p x ! i)"
      using F c key by auto
    note B = bt_child_keys [OF assms(1) i refl refl refl assms(2) lt]
    have "(k, v) \<in> set (lefts (map (bt_list p h) (take i (bt_kids p x))) (take i (bt_recs p x)))
        \<or> (k, v) \<in> set (bt_list p h (bt_kids p x ! i))
        \<or> (k, v) \<in> set (rights (drop i (bt_recs p x)) (map (bt_list p h) (drop (i + 1) (bt_kids p x))))"
      using assms(3) unfolding bt_child(5) [OF assms(1) i refl refl refl] set_append Un_iff .
    then show ?thesis using B(1) [of "(k, v)"] B(2) [of "(k, v)"] by auto
  qed
qed


text \<open>Refilling the child to go down to, and the index of the child that holds its records afterwards.\<close>
lemma bt_fill_sub:
  assumes "bt_sub sh p E (Suc h) x" "bt_recs p x \<noteq> []" "idx \<le> length (bt_recs p x)" "c = bt_kids p x ! idx"
    "length (bt_recs p c) = bt_T sh - 1" "q = bt_fill sh x idx p"
    "j = (if idx = length (bt_recs p x) \<and> length (bt_recs q x) < idx then idx - 1 else idx)"
  shows "bt_sub sh q E (Suc h) x \<and> bt_list q (Suc h) x = bt_list p (Suc h) x \<and> j \<le> length (bt_recs q x)
     \<and> bt_T sh \<le> length (bt_recs q (bt_kids q x ! j)) \<and> set (bt_list p h c) \<subseteq> set (bt_list q h (bt_kids q x ! j))
     \<and> length (bt_recs p x) \<le> length (bt_recs q x) + 1 \<and> (\<forall>m \<in> E. same_node p q m)
     \<and> bp_root q = bp_root p \<and> bp_size q = bp_size p \<and> length (bp_nodes q) = length (bp_nodes p)"
proof -
  define T where "T = bt_T sh"
  define n where "n = length (bt_recs p x)"
  have T: "2 \<le> T" "bt_max_keys sh = 2 * T - 1" using bt_T_bounds by (auto simp: T_def bt_max_keys_def)
  note K = bt_sub_kids [OF assms(1)]
  have p: "bt_arrays sh p" using assms(1) by (simp only: bt_sub_def)
  have xn: "node_n p x = n" using bt_atD(3) [OF p K(3)] by (simp add: n_def)
  have kid: "node_n p (node_child_at p x i) = length (bt_recs p (bt_kids p x ! i))" "T - 1 \<le> length (bt_recs p (bt_kids p x ! i))"
    if "i \<le> n" for i
  proof -
    note C = bt_child [OF assms(1) that [unfolded n_def] refl refl refl]
    show "T - 1 \<le> length (bt_recs p (bt_kids p x ! i))" using K(5) [OF C(2)] by (simp add: T_def)
    show "node_n p (node_child_at p x i) = length (bt_recs p (bt_kids p x ! i))"
      using bt_atD(3) [OF p conjunct1 [OF K(5) [OF C(2)]]] C(3) by simp
  qed
  have npos: "0 < n" using assms(2) by (simp add: n_def)
  have id: "idx \<le> n" using assms(3) by (simp add: n_def)
  have merged: ?thesis if i: "i < n" "i = (if idx \<noteq> n then idx else idx - 1)" and s: "length (bt_recs p (bt_kids p x ! (i + 1))) = T - 1"
      and l: "length (bt_recs p (bt_kids p x ! i)) = T - 1" and q: "q = bt_merge sh x i p" for i
  proof -
    note M = bt_merge_sub [OF assms(1) i(1) [unfolded n_def] refl refl l [unfolded T_def] s [unfolded T_def] q]
    have lq: "length (bt_recs q x) = n - 1" using i(1) unfolding M(4) by (simp add: erase_at_def n_def)
    have ji: "j = i" unfolding assms(7) n_def [symmetric] lq using npos id i(2) by auto
    have "length (bt_kids p x) = n + 1" using K(4) by (simp add: n_def)
    then have kq: "bt_kids q x ! i = bt_kids p x ! i" using i(1) unfolding M(3) by (simp add: erase_at_def nth_append)
    have big: "T \<le> length (bt_recs q (bt_kids q x ! j))" using M(5) T by (simp add: ji kq)
    have "idx = i \<or> idx = i + 1" using i(2) npos id by (auto split: if_splits)
    then have "set (bt_list p h c) \<subseteq> set (bt_list q h (bt_kids q x ! j))" unfolding ji kq M(6) assms(4) by auto
    moreover have "j \<le> length (bt_recs q x)" "length (bt_recs p x) \<le> length (bt_recs q x) + 1"
      using lq i(1) by (simp_all add: ji n_def)
    ultimately show ?thesis using M(1,2,7,8,9,10) big unfolding T_def by blast
  qed
  have borrowed: ?thesis if B: "bt_sub sh q E (Suc h) x" "bt_list q (Suc h) x = bt_list p (Suc h) x" "bt_kids q x = bt_kids p x"
    "length (bt_recs q x) = length (bt_recs p x)" "length (bt_recs q c) = bt_T sh" "set (bt_list p h c) \<subseteq> set (bt_list q h c)"
    "\<And>m. m \<in> E \<Longrightarrow> same_node p q m" "bp_root q = bp_root p" "bp_size q = bp_size p" "length (bp_nodes q) = length (bp_nodes p)"
  proof -
    have "j = idx" using B(4) assms(3) by (simp add: assms(7))
    then show ?thesis using B assms(3,4) by simp
  qed
  show ?thesis
  proof (cases "idx \<noteq> 0 \<and> T \<le> length (bt_recs p (bt_kids p x ! (idx - 1)))")
    case True
    then have "q = borrow_from_prev x idx p" using kid(1) [of "idx - 1"] id by (simp add: assms(6) bt_fill_def T_def Let_def)
    note B = bt_borrow_prev_sub [OF assms(1) _ assms(3,4) refl assms(5) _ this]
    show ?thesis by (rule borrowed; rule B; use True in \<open>simp add: T_def\<close>)
  next
    case np: False
    have f: "q = (if idx \<noteq> n \<and> T \<le> node_n p (node_child_at p x (idx + 1)) then borrow_from_next x idx p
        else if idx \<noteq> n then bt_merge sh x idx p else bt_merge sh x (idx - 1) p)"
      using np kid(1) [of "idx - 1"] id xn by (auto simp: assms(6) bt_fill_def T_def Let_def)
    show ?thesis
    proof (cases "idx \<noteq> n")
      case True
      then have lt: "idx < n" using id by simp
      show ?thesis
      proof (cases "T \<le> length (bt_recs p (bt_kids p x ! (idx + 1)))")
        case tn: True
        then have "q = borrow_from_next x idx p" using f True kid(1) [of "idx + 1"] lt by simp
        note B = bt_borrow_next_sub [OF assms(1) lt [unfolded n_def] assms(4) refl assms(5) tn [unfolded T_def] this]
        show ?thesis by (rule borrowed; rule B)
      next
        case False
        then have "q = bt_merge sh x idx p" "length (bt_recs p (bt_kids p x ! (idx + 1))) = T - 1"
          using f True kid [of "idx + 1"] lt by simp_all
        then show ?thesis using merged [of idx] True lt assms(4,5) by (simp add: T_def)
      qed
    next
      case False
      then have i: "idx = n" "idx \<noteq> 0" "q = bt_merge sh x (idx - 1) p" using f npos by simp_all
      then have "length (bt_recs p (bt_kids p x ! (idx - 1))) = T - 1" using np kid(2) [of "idx - 1"] id by simp
      then show ?thesis using merged [of "idx - 1"] i npos assms(4,5) by (simp add: T_def)
    qed
  qed
qed


text \<open>The record at place \<open>i\<close> has been replaced by its predecessor or its successor, which the call below has removed.\<close>
lemma bt_remove_replaced:
  assumes "bt_sub sh p E (Suc h) x" "i < length (bt_recs p x)" "p1 = set_rec x i kv p" "bt_kids p x = as @ c # bs"
    "bt_sub sh q (E \<union> bt_around p1 h x as bs) h c" "\<forall>m \<in> E \<union> bt_around p1 h x as bs. same_node p1 q m"
    "bt_T sh - 1 \<le> length (bt_recs q c)"
    "length as = i \<and> bt_list p h c = bt_list q h c @ [kv] \<or> length as = i + 1 \<and> bt_list p h c = kv # bt_list q h c"
  shows "bt_sub sh q E (Suc h) x" "length (bt_recs q x) = length (bt_recs p x)" "\<forall>m \<in> E. same_node p q m"
    "\<exists>L R. bt_list p (Suc h) x = L @ bt_recs p x ! i # R \<and> bt_list q (Suc h) x = L @ R"
proof -
  note S = bt_set_rec_root [OF assms(1-3)]
  have ks: "bt_kids p1 x = as @ c # bs" using S(3) assms(4) by simp
  note R = bt_sub_replace [OF S(1) ks assms(5,6,7)]
  show "bt_sub sh q E (Suc h) x" by (rule R(1))
  show "length (bt_recs q x) = length (bt_recs p x)" by (simp add: R(2) S(2))
  show "\<forall>m \<in> E. same_node p q m" using S(6) assms(6) by (blast intro: same_node_trans)
  have o: "map (bt_list p1 h) as = map (bt_list p h) as" "map (bt_list p1 h) bs = map (bt_list p h) bs"
    using S(7) assms(4) by simp_all
  note P = bt_pair [OF assms(1,2) refl refl refl refl refl refl]
  define a where "a = bt_kids p x ! i"
  define b where "b = bt_kids p x ! (i + 1)"
  define lf where "lf = lefts (map (bt_list p h) (take i (bt_kids p x))) (take i (bt_recs p x))"
  define rt where "rt = rights (drop (i + 1) (bt_recs p x)) (map (bt_list p h) (drop (i + 2) (bt_kids p x)))"
  have lp: "bt_list p (Suc h) x = lf @ (bt_list p h a @ bt_recs p x ! i # bt_list p h b) @ rt"
    unfolding lf_def rt_def a_def b_def by (rule P(14))
  have lq: "bt_list q (Suc h) x = ilv (map (bt_list p h) as @ bt_list q h c # map (bt_list p h) bs)
      (take i (bt_recs p x) @ kv # drop (i + 1) (bt_recs p x))"
    by (simp only: R(4) o S(2) P(3))
  consider (prev) "length as = i" "bt_list p h c = bt_list q h c @ [kv]" | (succ) "length as = i + 1" "bt_list p h c = kv # bt_list q h c"
    using assms(8) by blast
  then show "\<exists>L R. bt_list p (Suc h) x = L @ bt_recs p x ! i # R \<and> bt_list q (Suc h) x = L @ R"
  proof cases
    case prev
    have "as = take i (bt_kids p x)" "c # bs = [a, b] @ drop (i + 2) (bt_kids p x)"
      using arg_cong [OF P(1), of "take i"] arg_cong [OF P(1), of "drop i"] P(4) assms(2) prev(1) by (simp_all add: assms(4) a_def b_def)
    then have k: "as = take i (bt_kids p x)" "c = a" "bs = b # drop (i + 2) (bt_kids p x)" by simp_all
    have "bt_list q (Suc h) x = lf @ (bt_list q h a @ kv # bt_list p h b) @ rt"
      unfolding lq k(3) list.map k(1,2) lf_def rt_def by (rule P(13))
    then have "bt_list q (Suc h) x = (lf @ bt_list p h a) @ (bt_list p h b @ rt)" using prev(2) k(2) by simp
    moreover have "bt_list p (Suc h) x = (lf @ bt_list p h a) @ bt_recs p x ! i # (bt_list p h b @ rt)" unfolding lp by simp
    ultimately show ?thesis by blast
  next
    case succ
    have "as @ c # bs = (take i (bt_kids p x) @ [a]) @ b # drop (i + 2) (bt_kids p x)"
      using P(1) assms(4) by (simp add: a_def b_def)
    moreover have "length as = length (take i (bt_kids p x) @ [a])" using succ(1) P(4) assms(2) by simp
    ultimately have k: "as = take i (bt_kids p x) @ [a]" "c = b" "bs = drop (i + 2) (bt_kids p x)"
      using append_eq_append_conv [of as "take i (bt_kids p x) @ [a]" "c # bs" "b # drop (i + 2) (bt_kids p x)"] by simp_all
    have "bt_list q (Suc h) x = ilv (map (bt_list p h) (take i (bt_kids p x)) @ bt_list p h a # bt_list q h b
        # map (bt_list p h) (drop (i + 2) (bt_kids p x))) (take i (bt_recs p x) @ kv # drop (i + 1) (bt_recs p x))"
      unfolding lq k by simp
    then have "bt_list q (Suc h) x = lf @ (bt_list p h a @ kv # bt_list q h b) @ rt"
      unfolding P(13) lf_def rt_def .
    then have "bt_list q (Suc h) x = (lf @ bt_list p h a) @ (bt_list p h b @ rt)" using succ(2) k(2) by simp
    moreover have "bt_list p (Suc h) x = (lf @ bt_list p h a) @ bt_recs p x ! i # (bt_list p h b @ rt)" unfolding lp by simp
    ultimately show ?thesis by blast
  qed
qed

text \<open>One step down: to the child that holds the key, or past a record that is overwritten.\<close>
lemma bt_remove_step:
  assumes "bt_sub sh p E (Suc h) x" "sorted_wrt (<) (map fst (bt_list p (Suc h) x))" "(k, v) \<in> set (bt_list p (Suc h) x)"
    "bt_recs p x \<noteq> []"
  obtains (down) p1 j where "bt_remove_from sh x k p = bt_remove_from sh (bt_kids p1 x ! j) k p1"
      "bt_sub sh p1 E (Suc h) x" "bt_list p1 (Suc h) x = bt_list p (Suc h) x" "j \<le> length (bt_recs p1 x)"
      "(k, v) \<in> set (bt_list p1 h (bt_kids p1 x ! j))" "bt_T sh \<le> length (bt_recs p1 (bt_kids p1 x ! j))"
      "length (bt_recs p x) \<le> length (bt_recs p1 x) + 1" "\<forall>m \<in> E. same_node p p1 m"
      "bp_root p1 = bp_root p" "bp_size p1 = bp_size p" "length (bp_nodes p1) = length (bp_nodes p)"
  | (over) i j kv where "bt_remove_from sh x k p = bt_remove_from sh (bt_kids p x ! j) (fst kv) (set_rec x i kv p)"
      "i < length (bt_recs p x)" "bt_recs p x ! i = (k, v)" "j \<le> length (bt_recs p x)" "bt_T sh \<le> length (bt_recs p (bt_kids p x ! j))"
      "bt_list p h (bt_kids p x ! j) \<noteq> []"
      "j = i \<and> kv = last (bt_list p h (bt_kids p x ! j)) \<or> j = i + 1 \<and> kv = hd (bt_list p h (bt_kids p x ! j))"
proof -
  define T where "T = bt_T sh"
  define i where "i = find_key p x k 0"
  define n where "n = length (bt_recs p x)"
  have T: "2 \<le> T" using bt_T_bounds by (auto simp: T_def)
  note K = bt_sub_kids [OF assms(1)]
  have p: "bt_arrays sh p" using assms(1) by (simp only: bt_sub_def)
  note L = bt_remove_place [OF assms(1-3) i_def]
  have xn: "node_n p x = n" "\<not> node_leaf p x" using bt_atD(2,3) [OF p K(3)] by (simp_all add: n_def)
  have kid: "node_n p (node_child_at p x i) = length (bt_recs p (bt_kids p x ! i))" "T - 1 \<le> length (bt_recs p (bt_kids p x ! i))"
    "node_child_at p x i = bt_kids p x ! i" if "i \<le> n" for i
  proof -
    note C = bt_child [OF assms(1) that [unfolded n_def] refl refl refl]
    show "T - 1 \<le> length (bt_recs p (bt_kids p x ! i))" using K(5) [OF C(2)] by (simp add: T_def)
    show "node_n p (node_child_at p x i) = length (bt_recs p (bt_kids p x ! i))" "node_child_at p x i = bt_kids p x ! i"
      using bt_atD(3) [OF p conjunct1 [OF K(5) [OF C(2)]]] C(3) by simp_all
  qed
  have sub: "\<exists>E'. bt_sub sh p E' h (bt_kids p x ! j)" if "j \<le> n" for j
    using bt_child(4) [OF assms(1) that [unfolded n_def] refl refl refl] by blast
  have iN: "i \<le> n" using L(1) by (simp add: n_def)
  show thesis
  proof (cases "i < n \<and> node_key_at p x i = k")
    case found: True
    then have r: "bt_recs p x ! i = (k, v)" using L(2) by (simp add: n_def)
    have code: "bt_remove_from sh x k p = Option.bind (bt_remove_nonleaf sh x i p)
        (\<lambda>r. bt_remove_from sh (fst (snd r)) (snd (snd r)) (fst r))"
      by (subst bt_remove_from.simps) (simp only: i_def [symmetric] xn found Let_def simp_thms if_True if_False)
    note kids = kid [of i] kid [of "i + 1"]
    show thesis
    proof (cases "T \<le> length (bt_recs p (bt_kids p x ! i))")
      case True
      then have "bt_recs p (bt_kids p x ! i) \<noteq> []" using T by auto
      then obtain m where m: "bt_rightmost p (bt_kids p x ! i) = Some m" "bt_list p h (bt_kids p x ! i) \<noteq> []"
        "(node_key_at p m (node_n p m - 1), node_value_at p m (node_n p m - 1)) = last (bt_list p h (bt_kids p x ! i))"
        using sub [OF iN] bt_rightmost_ok by blast
      define kv where "kv = last (bt_list p h (bt_kids p x ! i))"
      have kv: "node_key_at p m (node_n p m - 1) = fst kv" "node_value_at p m (node_n p m - 1) = snd kv"
        using arg_cong [OF m(3), of fst] arg_cong [OF m(3), of snd] by (simp_all add: kv_def)
      have "node_child_at (set_rec x i kv p) x i = bt_kids p x ! i"
        using bt_child(3) [OF bt_set_rec_root(1) [OF assms(1) _ refl] _ refl refl refl, of i i kv] found
          bt_set_rec_root(2,3) [OF assms(1) _ refl, of i kv] by (simp add: n_def)
      then have "bt_remove_nonleaf sh x i p = Some (set_rec x i kv p, bt_kids p x ! i, fst kv)"
        using True m(1) kids(1,3) found by (simp add: bt_remove_nonleaf_def T_def Let_def kv [unfolded One_nat_def] set_rec_def)
      then show thesis using over [of i kv i] code found r True m(2) iN by (simp add: T_def n_def kv_def)
    next
      case lt: False
      show thesis
      proof (cases "T \<le> length (bt_recs p (bt_kids p x ! (i + 1)))")
        case True
        have i1: "i + 1 \<le> n" using found by simp
        have "bt_recs p (bt_kids p x ! (i + 1)) \<noteq> []" using T True by auto
        then obtain m where m: "bt_leftmost p (bt_kids p x ! (i + 1)) = Some m" "bt_list p h (bt_kids p x ! (i + 1)) \<noteq> []"
          "(node_key_at p m 0, node_value_at p m 0) = hd (bt_list p h (bt_kids p x ! (i + 1)))"
          using sub [OF i1] bt_leftmost_ok by blast
        define kv where "kv = hd (bt_list p h (bt_kids p x ! (i + 1)))"
        have kv: "node_key_at p m 0 = fst kv" "node_value_at p m 0 = snd kv"
          using arg_cong [OF m(3), of fst] arg_cong [OF m(3), of snd] by (simp_all add: kv_def)
        have "node_child_at (set_rec x i kv p) x (i + 1) = bt_kids p x ! (i + 1)"
          using bt_child(3) [OF bt_set_rec_root(1) [OF assms(1) _ refl] _ refl refl refl, of i "i + 1" kv] found
            bt_set_rec_root(2,3) [OF assms(1) _ refl, of i kv] by (simp add: n_def)
        then have "bt_remove_nonleaf sh x i p = Some (set_rec x i kv p, bt_kids p x ! (i + 1), fst kv)"
          using True lt m(1) kids found by (simp add: bt_remove_nonleaf_def T_def Let_def kv set_rec_def)
        then show thesis using over [of "i + 1" kv i] code found r True m(2) i1 by (simp add: T_def n_def kv_def)
      next
        case False
        define p1 where "p1 = bt_merge sh x i p"
        have i: "i < length (bt_recs p x)" using found by (simp add: n_def)
        have l: "length (bt_recs p (bt_kids p x ! i)) = bt_T sh - 1" "length (bt_recs p (bt_kids p x ! (i + 1))) = bt_T sh - 1"
          using lt False kids(2,5) found by (simp_all add: T_def)
        note M = bt_merge_sub [OF assms(1) i refl refl l p1_def]
        have le: "length (bt_recs p1 x) = n - 1" using i unfolding M(4) by (simp add: erase_at_def n_def)
        have "length (bt_kids p x) = n + 1" using K(4) by (simp add: n_def)
        then have kq: "bt_kids p1 x ! i = bt_kids p x ! i" using i unfolding M(3) by (simp add: erase_at_def nth_append n_def)
        have il: "i \<le> length (bt_recs p1 x)" using le conjunct1 [OF found] by linarith
        have "node_child_at p1 x i = bt_kids p x ! i" using bt_child(3) [OF M(1) il refl refl refl] kq by simp
        then have "bt_remove_nonleaf sh x i p = Some (p1, bt_kids p x ! i, k)"
          using lt False kids found by (simp add: bt_remove_nonleaf_def T_def Let_def p1_def)
        then have c: "bt_remove_from sh x k p = bt_remove_from sh (bt_kids p1 x ! i) k p1" using code kq by simp
        have inn: "(k, v) \<in> set (bt_list p1 h (bt_kids p1 x ! i))" unfolding kq M(6) r by simp
        have big: "bt_T sh \<le> length (bt_recs p1 (bt_kids p1 x ! i))" using M(5) T by (simp add: kq T_def bt_max_keys_def)
        have one: "length (bt_recs p x) \<le> length (bt_recs p1 x) + 1" using le by (simp add: n_def)
        have fr: "\<forall>m \<in> E. same_node p p1 m" using M(7) by blast
        show thesis by (rule down [OF c M(1,2) il inn big one fr M(8-10)])
      qed
    qed
  next
    case notf: False
    then have inn: "(k, v) \<in> set (bt_list p h (bt_kids p x ! i))" using L(3) by (simp add: n_def)
    define p1 where "p1 = (if length (bt_recs p (bt_kids p x ! i)) < T then bt_fill sh x i p else p)"
    define j where "j = (if i = n \<and> length (bt_recs p1 x) < i then i - 1 else i)"
    have P: "bt_sub sh p1 E (Suc h) x \<and> bt_list p1 (Suc h) x = bt_list p (Suc h) x \<and> j \<le> length (bt_recs p1 x)
     \<and> bt_T sh \<le> length (bt_recs p1 (bt_kids p1 x ! j)) \<and> set (bt_list p h (bt_kids p x ! i)) \<subseteq> set (bt_list p1 h (bt_kids p1 x ! j))
     \<and> length (bt_recs p x) \<le> length (bt_recs p1 x) + 1 \<and> (\<forall>m \<in> E. same_node p p1 m)
     \<and> bp_root p1 = bp_root p \<and> bp_size p1 = bp_size p \<and> length (bp_nodes p1) = length (bp_nodes p)"
    proof (cases "length (bt_recs p (bt_kids p x ! i)) < T")
      case True
      then have l: "length (bt_recs p (bt_kids p x ! i)) = bt_T sh - 1" using kid(2) [OF iN] by (simp add: T_def)
      have "p1 = bt_fill sh x i p" using True by (simp add: p1_def)
      from bt_fill_sub [OF assms(1,4) L(1) refl l this j_def [unfolded n_def]] show ?thesis .
    next
      case False
      then have "p1 = p" "j = i" by (auto simp: p1_def j_def n_def)
      then show ?thesis using assms(1) L(1) False by (simp add: T_def)
    qed
    have s1: "bt_sub sh p1 E (Suc h) x" using P by blast
    then have "bt_arrays sh p1" by (simp only: bt_sub_def)
    then have x1: "node_n p1 x = length (bt_recs p1 x)" by (rule bt_atD(3) [OF _ bt_sub_kids(3) [OF s1]])
    have ch: "node_child_at p1 x j = bt_kids p1 x ! j" using bt_child(3) [OF _ _ refl refl refl] P by blast
    have c1: "(if node_n p (node_child_at p x i) < bt_T sh then bt_fill sh x i p else p) = p1"
      using kid(1) [OF iN] by (simp add: p1_def T_def)
    have "bt_remove_from sh x k p = bt_remove_from sh (node_child_at p1 x (if i = n \<and> node_n p1 x < i then i - 1 else i)) k p1"
      by (subst bt_remove_from.simps) (simp only: i_def [symmetric] xn notf Let_def c1 simp_thms if_True if_False)
    then have c: "bt_remove_from sh x k p = bt_remove_from sh (bt_kids p1 x ! j) k p1" by (simp only: x1 j_def [symmetric] ch)
    show thesis using down [OF c] P inn by blast
  qed
qed


lemma bt_remove_leaf:
  assumes "bt_sub sh p E 0 x" "sorted_wrt (<) (map fst (bt_list p 0 x))" "(k, v) \<in> set (bt_list p 0 x)"
  obtains q L R where "bt_remove_from sh x k p = Some q" "bt_sub sh q E 0 x" "bt_list p 0 x = L @ (k, v) # R"
    "bt_list q 0 x = L @ R" "length (bt_recs p x) \<le> length (bt_recs q x) + 1" "\<forall>m \<in> E. same_node p q m"
    "bp_root q = bp_root p" "bp_size q = bp_size p" "length (bp_nodes q) = length (bp_nodes p)"
proof -
  define i where "i = find_key p x k 0"
  define q where "q = leaf_remove x i p"
  have p: "bt_arrays sh p" "bt_at sh p x True (bt_recs p x) (bt_kids p x)" "bt_space p E {x}"
    using assms(1) by (simp_all add: bt_sub_def)
  note F = find_key_spec [OF p(1,2), of 0 k, simplified, folded i_def]
  have xn: "node_n p x = length (bt_recs p x)" "node_leaf p x" using bt_atD(2,3) [OF p(1,2)] by simp_all
  have key: "i < length (bt_recs p x) \<Longrightarrow> node_key_at p x i = fst (bt_recs p x ! i)" using node_at_read(1) [OF p(1,2)] .
  obtain j where j: "j < length (bt_recs p x)" "bt_recs p x ! j = (k, v)" using assms(3) by (auto simp: in_set_conv_nth)
  have "\<not> j < i" using F j by auto
  moreover have "\<not> i < j"
  proof
    assume ij: "i < j"
    then have "fst (bt_recs p x ! i) < fst (bt_recs p x ! j)"
      using sorted_wrt_nth_less [OF assms(2), of i j] j(1) by simp
    then show False using F j ij by auto
  qed
  ultimately have i: "i < length (bt_recs p x)" "bt_recs p x ! i = (k, v)" using j by (cases "i = j"; simp)+
  note R = leaf_remove_ok [OF p(1,2) i(1) q_def]
  have "bt_remove_from sh x k p = Some q" using i key
    by (subst bt_remove_from.simps) (simp add: i_def [symmetric] xn q_def)
  moreover have rk: "bt_recs q x = erase_at i (bt_recs p x)" "bt_kids q x = []" using bt_at_content [OF R(2)] by simp_all
  then have "bt_sub sh q E 0 x" using R(1,2,4,5) p(3) by (simp add: bt_sub_def bt_space_def)
  moreover have "bt_list p 0 x = take i (bt_recs p x) @ (k, v) # drop (i + 1) (bt_recs p x)"
    using id_take_nth_drop [OF i(1)] i(2) by simp
  moreover have "bt_list q 0 x = take i (bt_recs p x) @ drop (i + 1) (bt_recs p x)" by (simp add: rk erase_at_def)
  moreover have "length (bt_recs p x) \<le> length (bt_recs q x) + 1" using i(1) by (simp add: rk erase_at_def)
  moreover have "x \<notin> E" using bt_spaceD(7) [OF p(3), of x] by auto
  then have "\<forall>m \<in> E. same_node p q m" by (intro ballI R(3)) auto
  ultimately show thesis using that R(4,6,7) by blast
qed

lemma distinct_removed_end:
  assumes "distinct (L @ a # R)"
  shows "a = last (L @ a # R) \<Longrightarrow> R = []" "a = hd (L @ a # R) \<Longrightarrow> L = []"
proof -
  have n: "a \<notin> set R" "a \<notin> set L" using assms by simp_all
  show "R = []" if "a = last (L @ a # R)"
  proof (rule ccontr)
    assume "R \<noteq> []"
    then have "last R \<in> set R" "a = last R" using that by simp_all
    then show False using n(1) by simp
  qed
  show "L = []" if "a = hd (L @ a # R)"
    using that n(2) by (cases L) simp_all
qed

lemma bt_remove_ok:
  "bt_sub sh p E h x \<Longrightarrow> sorted_wrt (<) (map fst (bt_list p h x)) \<Longrightarrow> (k, v) \<in> set (bt_list p h x) \<Longrightarrow> bt_recs p x \<noteq> [] \<Longrightarrow>
   \<exists>q L R. bt_remove_from sh x k p = Some q \<and> bt_sub sh q E h x \<and> bt_list p h x = L @ (k, v) # R \<and> bt_list q h x = L @ R
     \<and> length (bt_recs p x) \<le> length (bt_recs q x) + 1 \<and> (\<forall>m \<in> E. same_node p q m)
     \<and> bp_root q = bp_root p \<and> bp_size q = bp_size p \<and> length (bp_nodes q) = length (bp_nodes p)"
proof (induction h arbitrary: p E x k v)
  case (0 p E x k v)
  show ?case by (rule bt_remove_leaf [OF 0(1-3)]) blast
next
  case (Suc h p E x k v)
  have T: "2 \<le> bt_T sh" by (rule bt_T_bounds)
  show ?case
  proof (cases rule: bt_remove_step [OF Suc.prems, case_names down over])
    case (down p1 j)
    define c where "c = bt_kids p1 x ! j"
    define as where "as = take j (bt_kids p1 x)"
    define bs where "bs = drop (j + 1) (bt_kids p1 x)"
    define lf where "lf = lefts (map (bt_list p1 h) as) (take j (bt_recs p1 x))"
    define rt where "rt = rights (drop j (bt_recs p1 x)) (map (bt_list p1 h) bs)"
    note C = bt_child [OF down(2,4) c_def as_def bs_def, folded lf_def rt_def]
    have lp: "bt_list p (Suc h) x = lf @ bt_list p1 h c @ rt" unfolding down(3) [symmetric] by (rule C(5))
    have srt: "sorted_wrt (<) (map fst (bt_list p1 h c))" using Suc.prems(2) unfolding lp by (simp add: sorted_wrt_append)
    have ne: "bt_recs p1 c \<noteq> []" using down(6) T by (auto simp: c_def)
    obtain q L R where IH: "bt_remove_from sh c k p1 = Some q" "bt_sub sh q (E \<union> bt_around p1 h x as bs) h c"
      "bt_list p1 h c = L @ (k, v) # R" "bt_list q h c = L @ R" "length (bt_recs p1 c) \<le> length (bt_recs q c) + 1"
      "\<forall>m \<in> E \<union> bt_around p1 h x as bs. same_node p1 q m" "bp_root q = bp_root p1" "bp_size q = bp_size p1"
      "length (bp_nodes q) = length (bp_nodes p1)"
      using Suc.IH [OF C(4) srt down(5) [folded c_def] ne] by blast
    have "bt_T sh - 1 \<le> length (bt_recs q c)" using down(6) IH(5) by (simp add: c_def)
    note D = bt_child_done [OF down(2,4) c_def as_def bs_def IH(2,6) this, folded lf_def rt_def]
    have lists: "bt_list p (Suc h) x = (lf @ L) @ (k, v) # (R @ rt)" "bt_list q (Suc h) x = (lf @ L) @ (R @ rt)"
      unfolding lp D(4) IH(3,4) by simp_all
    have fr: "\<forall>m \<in> E. same_node p q m" using down(8) D(3) by (blast intro: same_node_trans)
    have one: "length (bt_recs p x) \<le> length (bt_recs q x) + 1" using down(7) D(2) by simp
    have rest: "bp_root q = bp_root p" "bp_size q = bp_size p" "length (bp_nodes q) = length (bp_nodes p)"
      using IH(7-9) down(9-11) by simp_all
    have ret: "bt_remove_from sh x k p = Some q" using down(1) IH(1) by (simp only: c_def)
    show ?thesis by (intro exI [of _ q] exI [of _ "lf @ L"] exI [of _ "R @ rt"] conjI ret D(1) lists one fr rest)
  next
    case (over i j kv)
    define p1 where "p1 = set_rec x i kv p"
    define c where "c = bt_kids p x ! j"
    define as where "as = take j (bt_kids p x)"
    define bs where "bs = drop (j + 1) (bt_kids p x)"
    note C = bt_child [OF Suc.prems(1) over(4) c_def as_def bs_def]
    note S = bt_set_rec_root [OF Suc.prems(1) over(2) p1_def]
    have ks: "bt_kids p1 x = as @ c # bs" using S(3) C(1) by simp
    note B = bt_sub_child [OF S(1) ks]
    have lc: "bt_list p1 h c = bt_list p h c" "bt_recs p1 c = bt_recs p c" using S(7) C(2) by simp_all
    have srt: "sorted_wrt (<) (map fst (bt_list p h c))" using Suc.prems(2) unfolding C(5) by (simp add: sorted_wrt_append)
    then have dis: "distinct (bt_list p h c)" by (metis distinct_map strict_sorted_iff)
    have "kv \<in> set (bt_list p h c)" using over(6,7) unfolding c_def by auto
    then have kv: "(fst kv, snd kv) \<in> set (bt_list p1 h c)" by (simp add: lc)
    have ne: "bt_recs p1 c \<noteq> []" using over(5) T by (auto simp: c_def lc(2) [unfolded c_def])
    obtain q L R where IH: "bt_remove_from sh c (fst kv) p1 = Some q" "bt_sub sh q (E \<union> bt_around p1 h x as bs) h c"
      "bt_list p1 h c = L @ kv # R" "bt_list q h c = L @ R" "length (bt_recs p1 c) \<le> length (bt_recs q c) + 1"
      "\<forall>m \<in> E \<union> bt_around p1 h x as bs. same_node p1 q m" "bp_root q = bp_root p1" "bp_size q = bp_size p1"
      "length (bp_nodes q) = length (bp_nodes p1)"
      using Suc.IH [OF B(1) srt [folded lc(1)] kv ne] by auto
    have big: "bt_T sh - 1 \<le> length (bt_recs q c)" using over(5) IH(5) by (simp add: lc(2) c_def [symmetric])
    have la: "length as = j" using over(4) bt_sub_kids(4) [OF Suc.prems(1)] by (simp add: as_def)
    have lx: "bt_list p h c = L @ kv # R" using IH(3) by (simp only: lc(1))
    have ends: "length as = i \<and> bt_list p h c = bt_list q h c @ [kv] \<or> length as = i + 1 \<and> bt_list p h c = kv # bt_list q h c"
    proof -
      consider (prev) "j = i" "kv = last (L @ kv # R)" | (succ) "j = i + 1" "kv = hd (L @ kv # R)"
        using over(7) unfolding c_def [symmetric] lx by blast
      then show ?thesis
      proof cases
        case prev
        then have "R = []" using distinct_removed_end(1) [OF dis [unfolded lx]] by blast
        then show ?thesis by (simp add: la prev(1) IH(4) lx)
      next
        case succ
        then have "L = []" using distinct_removed_end(2) [OF dis [unfolded lx]] by blast
        then show ?thesis by (simp add: la succ(1) IH(4) lx)
      qed
    qed
    note D = bt_remove_replaced [OF Suc.prems(1) over(2) p1_def C(1) IH(2,6) big ends, unfolded over(3)]
    have rest: "bp_root q = bp_root p" "bp_size q = bp_size p" "length (bp_nodes q) = length (bp_nodes p)"
      using IH(7-9) by (simp_all add: p1_def)
    have ret: "bt_remove_from sh x k p = Some q" using over(1) IH(1) by (simp only: c_def p1_def)
    have "length (bt_recs p x) \<le> length (bt_recs q x) + 1" using D(2) by simp
    then show ?thesis using D(1,3,4) rest ret by blast
  qed
qed

end
