(* ===== verification/BTree_Map.thy ===== *)
theory BTree_Map imports BTree_Insert BTree_Remove begin

text \<open>
  The whole B-tree: the in-order walk of \<^verbatim>\<open>ComposedBTreeSearch\<close>, the growing and the shrinking of the root in
  \<^verbatim>\<open>insert_into\<close> and \<^verbatim>\<open>erase_from\<close>, and the interpretation of the contract \<open>budget_map\<close>.  The code does not check its
  32-bit node indices; as every node in use holds a record, their number is bounded by the number of records
  (\<open>bt_ids_records\<close>), and the invariant counts the calls that can still be made.
\<close>

section \<open>Walking the records in order\<close>

lemma bt_push_node_foldr:
  "bt_push_node p x st = foldr (\<lambda>i st. bt_push_child p x i (\<lparr>bf_node = x, bf_key_index = i, bf_record = True\<rparr> # st)) [0..<node_n p x]
     (bt_push_child p x (node_n p x) st)"
  by (simp add: bt_push_node_def Let_def foldr_conv_fold)

lemma bt_walk_record:
  "bt_walk p (\<lparr>bf_node = x, bf_key_index = i, bf_record = True\<rparr> # st) sink
     = bt_walk p st (sink @ [(node_key_at p x i, node_value_at p x i)])"
  by (subst bt_walk.simps) simp

lemma bt_walk_node:
  "bt_walk p (\<lparr>bf_node = x, bf_key_index = i, bf_record = False\<rparr> # st) sink = bt_walk p (bt_push_node p x st) sink"
  by (subst bt_walk.simps) simp

lemma bt_walk_ok:
  "bt_sub sh p E h x \<Longrightarrow> \<forall>i \<in> set (bt_ids p h x). i \<noteq> bt_nil \<Longrightarrow>
   bt_walk p (\<lparr>bf_node = x, bf_key_index = 0, bf_record = False\<rparr> # st) sink = bt_walk p st (sink @ bt_list p h x)"
proof (induction h arbitrary: E x st sink)
  case (0 E x st sink)
  then have p: "bt_arrays sh p" "bt_at sh p x True (bt_recs p x) (bt_kids p x)" by (simp_all add: bt_sub_def)
  have leaf: "bt_push_child p x i st = st" for i st using bt_atD(2) [OF p] by (simp add: bt_push_child_def Let_def)
  define n where "n = length (bt_recs p x)"
  have "m \<le> n \<Longrightarrow> bt_walk p (foldr (\<lambda>i st. \<lparr>bf_node = x, bf_key_index = i, bf_record = True\<rparr> # st) [m..<n] st) sink
      = bt_walk p st (sink @ drop m (bt_recs p x))" for m
  proof (induction "n - m" arbitrary: m sink)
    case (Suc d)
    then have m: "m < n" by simp
    then have "drop m (bt_recs p x) = (node_key_at p x m, node_value_at p x m) # drop (Suc m) (bt_recs p x)"
      using node_at_read [OF p, of m] Cons_nth_drop_Suc [of m "bt_recs p x"] by (simp add: n_def)
    moreover have "[m..<n] = m # [Suc m..<n]" using m by (rule upt_conv_Cons)
    ultimately show ?case using Suc(1) [of "Suc m"] Suc(2) m by (simp add: bt_walk_record)
  qed (simp add: n_def)
  from this [of 0] show ?case using bt_atD(3) [OF p] by (simp add: bt_walk_node bt_push_node_foldr leaf n_def)
next
  case (Suc h E x st sink)
  note K = bt_sub_kids [OF Suc.prems(1)]
  have p: "bt_arrays sh p" using Suc.prems(1) by (simp only: bt_sub_def)
  define n where "n = length (bt_recs p x)"
  have xn: "node_n p x = n" "\<not> node_leaf p x" using bt_atD(2,3) [OF p K(3)] by (simp_all add: n_def)
  have child: "bt_walk p (bt_push_child p x i st) sink = bt_walk p st (sink @ bt_list p h (bt_kids p x ! i))" if "i \<le> n" for i st sink
  proof -
    note C = bt_child [OF Suc.prems(1) that [unfolded n_def] refl refl refl]
    have ids: "\<forall>j \<in> set (bt_ids p h (bt_kids p x ! i)). j \<noteq> bt_nil" using Suc.prems(2) C(2) by auto
    then have "bt_kids p x ! i \<noteq> bt_nil" by simp
    then have "bt_push_child p x i st = \<lparr>bf_node = bt_kids p x ! i, bf_key_index = 0, bf_record = False\<rparr> # st"
      using xn(2) C(3) by (simp add: bt_push_child_def Let_def)
    then show ?thesis using Suc.IH [OF C(4) ids] by simp
  qed
  have "m \<le> n \<Longrightarrow> bt_walk p (foldr (\<lambda>i st. bt_push_child p x i (\<lparr>bf_node = x, bf_key_index = i, bf_record = True\<rparr> # st)) [m..<n]
       (bt_push_child p x n st)) sink
      = bt_walk p st (sink @ ilv (map (bt_list p h) (drop m (bt_kids p x))) (drop m (bt_recs p x)))" for m
  proof (induction "n - m" arbitrary: m sink)
    case 0
    then have "m = n" by simp
    moreover have "drop n (bt_kids p x) = [bt_kids p x ! n]" using K(4) Cons_nth_drop_Suc [of n "bt_kids p x"] by (simp add: n_def)
    ultimately show ?case using child [of n] by (simp add: n_def)
  next
    case (Suc d)
    then have m: "m < n" by simp
    then have r: "drop m (bt_recs p x) = (node_key_at p x m, node_value_at p x m) # drop (Suc m) (bt_recs p x)"
      using node_at_read [OF p K(3), of m] Cons_nth_drop_Suc [of m "bt_recs p x"] by (simp add: n_def)
    have k: "drop m (bt_kids p x) = bt_kids p x ! m # drop (Suc m) (bt_kids p x)"
      using Cons_nth_drop_Suc [of m "bt_kids p x"] m K(4) by (simp add: n_def)
    have u: "[m..<n] = m # [Suc m..<n]" using m by (rule upt_conv_Cons)
    show ?case using Suc(1) [of "Suc m"] Suc(2) m child [of m] unfolding r k u by (simp add: bt_walk_record)
  qed
  from this [of 0] show ?case by (simp add: bt_walk_node bt_push_node_foldr xn n_def [symmetric])
qed

section \<open>The organ\<close>

text \<open>A pool that serves \<open>b\<close> more calls: the indices, which the code does not check, stay below their 32 bits.\<close>
definition bt_tree :: "bt_order \<Rightarrow> bt_pool \<Rightarrow> nat \<Rightarrow> bool" where
  "bt_tree sh p h \<longleftrightarrow> bt_sub sh p {} h (bp_root p) \<and> bt_recs p (bp_root p) \<noteq> []
     \<and> sorted_wrt (<) (map fst (bt_list p h (bp_root p))) \<and> bp_size p = length (bt_list p h (bp_root p))"

definition bt_bare :: "bt_order \<Rightarrow> bt_pool \<Rightarrow> bool" where
  "bt_bare sh p \<longleftrightarrow> bt_arrays sh p \<and> bt_space p {} {} \<and> bp_root p = bt_nil \<and> bp_size p = 0"

definition bt_inv :: "bt_order \<Rightarrow> nat \<Rightarrow> bt_pool \<Rightarrow> bool" where
  "bt_inv sh b p \<longleftrightarrow> (bt_bare sh p \<or> (\<exists>h. bt_tree sh p h))
     \<and> length (bp_nodes p) + b < 2 ^ 31 \<and> bp_size p + b < 2 ^ 31"

definition bt_view :: "bt_pool \<Rightarrow> u64 \<Rightarrow> u64 option" where
  "bt_view p = map_of (the (bt_records p))"

lemma length_ilv: "length ls = length rs + 1 \<Longrightarrow> length (ilv ls rs) = sum_list (map length ls) + length rs"
  by (induction ls rs rule: ilv.induct) auto

lemma bt_ids_records: "bt_wf sh p h x \<Longrightarrow> bt_arrays sh p \<Longrightarrow> bt_recs p x \<noteq> [] \<Longrightarrow> length (bt_ids p h x) \<le> length (bt_list p h x)"
proof (induction h arbitrary: x)
  case 0
  then show ?case by (cases "bt_recs p x") simp_all
next
  case (Suc h x)
  have "length (bt_kids p x) = length (bt_recs p x) + 1" using bt_atD(7) [OF Suc.prems(2) bt_wf_at [OF Suc.prems(1)]] by simp
  then have "length (bt_list p (Suc h) x) = (\<Sum>c \<leftarrow> bt_kids p x. length (bt_list p h c)) + length (bt_recs p x)"
    by (simp add: length_ilv comp_def)
  moreover have "length (bt_ids p h c) \<le> length (bt_list p h c)" if "c \<in> set (bt_kids p x)" for c
  proof -
    have "bt_wf sh p h c" "bt_T sh - 1 \<le> length (bt_recs p c)" using Suc.prems(1) that by simp_all
    moreover from this(2) have "bt_recs p c \<noteq> []" using bt_T_bounds(1) [of sh] by auto
    ultimately show ?thesis using Suc.IH Suc.prems(2) by blast
  qed
  then have "(\<Sum>c \<leftarrow> bt_kids p x. length (bt_ids p h c)) \<le> (\<Sum>c \<leftarrow> bt_kids p x. length (bt_list p h c))"
    by (rule sum_list_mono)
  moreover have "length (bt_ids p (Suc h) x) = 1 + (\<Sum>c \<leftarrow> bt_kids p x. length (bt_ids p h c))"
    by (simp add: length_concat comp_def)
  moreover have "1 \<le> length (bt_recs p x)" using Suc.prems(3) by (cases "bt_recs p x") simp_all
  ultimately show ?case by linarith
qed

lemma bt_height_ids: "bt_wf sh p h x \<Longrightarrow> bt_arrays sh p \<Longrightarrow> h < length (bt_ids p h x)"
proof (induction h arbitrary: x)
  case (Suc h x)
  have "length (bt_kids p x) = length (bt_recs p x) + 1" using bt_atD(7) [OF Suc.prems(2) bt_wf_at [OF Suc.prems(1)]] by simp
  then obtain c cs where c: "bt_kids p x = c # cs" by (cases "bt_kids p x") simp_all
  then have "h < length (bt_ids p h c)" using Suc by simp
  then show ?case by (simp add: c)
qed simp

lemma bt_tree_ids:
  assumes "bt_tree sh p h"
  shows "\<forall>i \<in> set (bt_ids p h (bp_root p)). i < length (bp_nodes p)" "h < length (bp_nodes p)"
    "bp_free p = [] \<Longrightarrow> length (bp_nodes p) \<le> bp_size p"
proof -
  define I where "I = bt_ids p h (bp_root p)"
  have p: "bt_arrays sh p" "bt_wf sh p h (bp_root p)" "distinct I" "bt_space p {} (set I)"
    "bt_recs p (bp_root p) \<noteq> []" "bp_size p = length (bt_list p h (bp_root p))"
    using assms unfolding bt_tree_def bt_sub_def I_def by blast+
  show i: "\<forall>i \<in> set (bt_ids p h (bp_root p)). i < length (bp_nodes p)" using bt_spaceD(4) [OF p(4)] by (simp add: I_def)
  then have "length I \<le> length (bp_nodes p)"
    using p(3) card_mono [of "{..<length (bp_nodes p)}" "set I"] by (simp add: distinct_card I_def subset_eq)
  then show "h < length (bp_nodes p)" using bt_height_ids [OF p(2,1)] by (simp add: I_def)
  assume "bp_free p = []"
  then have "{..<length (bp_nodes p)} = set I" using p(4) by (simp add: bt_space_def)
  then have "length (bp_nodes p) = length I" using p(3) by (metis card_lessThan distinct_card)
  then show "length (bp_nodes p) \<le> bp_size p" using bt_ids_records [OF p(2,1,5)] p(6) by (simp add: I_def)
qed

lemma bt_records_ok:
  "bt_tree sh p h \<Longrightarrow> length (bp_nodes p) < 2 ^ 31 \<Longrightarrow> bt_records p = Some (bt_list p h (bp_root p))"
  "bt_bare sh p \<Longrightarrow> bt_records p = Some []"
proof -
  have fin: "bt_walk p [] sink = Some sink" for sink by (subst bt_walk.simps) simp
  show "bt_records p = Some (bt_list p h (bp_root p))" if t: "bt_tree sh p h" and l: "length (bp_nodes p) < 2 ^ 31"
  proof -
    have n: "\<forall>i \<in> set (bt_ids p h (bp_root p)). i \<noteq> bt_nil"
      using bt_tree_ids(1) [OF t] l by (auto simp: bt_nil_def)
    then have "bp_root p \<noteq> bt_nil" by simp
    then show ?thesis using bt_walk_ok [OF _ n, of sh "{}" "[]" "[]"] t fin
      by (simp add: bt_records_def bt_tree_def)
  qed
  show "bt_records p = Some []" if "bt_bare sh p"
    using that fin by (simp add: bt_bare_def bt_records_def)
qed


lemma bt_view_eq:
  "bt_tree sh p h \<Longrightarrow> length (bp_nodes p) < 2 ^ 31 \<Longrightarrow> bt_view p = map_of (bt_list p h (bp_root p))"
  "bt_bare sh p \<Longrightarrow> bt_view p = Map.empty"
  by (simp_all add: bt_view_def bt_records_ok)

text \<open>The search from the root.\<close>
lemma bt_find:
  assumes "bt_tree sh p h" "length (bp_nodes p) < 2 ^ 31" "l = bt_list p h (bp_root p)"
  shows "bt_search p k (bp_root p) = Some None \<and> map_of l k = None
    \<or> (\<exists>n j. bt_search p k (bp_root p) = Some (Some (n, j)) \<and> n \<in> set (bt_ids p h (bp_root p)) \<and> j < length (bt_recs p n)
        \<and> fst (bt_recs p n ! j) = k \<and> map_of l k = Some (snd (bt_recs p n ! j)) \<and> node_value_at p n j = snd (bt_recs p n ! j)
        \<and> node_key_at p n j = k)"
proof -
  have t: "bt_sub sh p {} h (bp_root p)" "sorted_wrt (<) (map fst (bt_list p h (bp_root p)))"
    using assms(1) by (simp_all only: bt_tree_def)
  have n: "\<forall>i \<in> set (bt_ids p h (bp_root p)). i \<noteq> bt_nil"
    using bt_tree_ids(1) [OF assms(1)] assms(2) by (auto simp: bt_nil_def)
  have dis: "distinct (map fst l)" using t(2) by (simp add: assms(3) strict_sorted_iff)
  obtain r where r: "bt_search p k (bp_root p) = Some r" "case r of
       None \<Rightarrow> k \<notin> fst ` set (bt_list p h (bp_root p))
     | Some (n, j) \<Rightarrow> n \<in> set (bt_ids p h (bp_root p)) \<and> j < length (bt_recs p n) \<and> fst (bt_recs p n ! j) = k
         \<and> bt_recs p n ! j \<in> set (bt_list p h (bp_root p))"
    using bt_search_ok [OF t n, of k] by blast
  show ?thesis
  proof (cases r)
    case None
    then show ?thesis using r by (simp add: assms(3) map_of_eq_None_iff)
  next
    case (Some nj)
    then obtain m j where mj: "nj = (m, j)" "m \<in> set (bt_ids p h (bp_root p))" "j < length (bt_recs p m)"
      "fst (bt_recs p m ! j) = k" "bt_recs p m ! j \<in> set (bt_list p h (bp_root p))" using r(2) by (cases nj) auto
    have "(k, snd (bt_recs p m ! j)) \<in> set l" using mj(4,5) by (cases "bt_recs p m ! j") (simp add: assms(3))
    then have "map_of l k = Some (snd (bt_recs p m ! j))" using dis by (simp add: map_of_eq_Some_iff)
    moreover have "node_value_at p m j = snd (bt_recs p m ! j)" "node_key_at p m j = k"
    proof -
      have ar: "bt_arrays sh p" using t(1) by (simp only: bt_sub_def)
      have "bt_wf sh p h x \<Longrightarrow> m \<in> set (bt_ids p h x) \<Longrightarrow> \<exists>leaf. bt_at sh p m leaf (bt_recs p m) (bt_kids p m)" for x
      proof (induction h arbitrary: x)
        case (Suc h x)
        then show ?case using bt_wf_at [OF Suc.prems(1)] by auto
      qed auto
      then obtain leaf where "bt_at sh p m leaf (bt_recs p m) (bt_kids p m)" using t(1) mj(2) unfolding bt_sub_def by blast
      then show "node_value_at p m j = snd (bt_recs p m ! j)" "node_key_at p m j = k"
        using node_at_read [OF ar _ mj(3)] mj(4) by simp_all
    qed
    ultimately show ?thesis using r(1) Some mj by blast
  qed
qed

lemma bt_look_ok:
  assumes "bt_inv sh b p"
  shows "bt_lookup p k = Some (bt_view p k)" "bt_contains p k = Some (bt_view p k \<noteq> None)"
proof -
  have "bt_lookup p k = Some (bt_view p k) \<and> bt_contains p k = Some (bt_view p k \<noteq> None)"
  proof (cases "bt_bare sh p")
    case True
    have "bt_search p k bt_nil = Some None" by (subst bt_search.simps) simp
    then show ?thesis using True bt_view_eq(2) [OF True] by (simp add: bt_lookup_def bt_contains_def bt_bare_def)
  next
    case False
    then obtain h where t: "bt_tree sh p h" using assms by (auto simp: bt_inv_def)
    have l: "length (bp_nodes p) < 2 ^ 31" using assms by (simp add: bt_inv_def)
    show ?thesis using bt_find [OF t l refl, of k] bt_view_eq(1) [OF t l] by (auto simp: bt_lookup_def bt_contains_def)
  qed
  then show "bt_lookup p k = Some (bt_view p k)" "bt_contains p k = Some (bt_view p k \<noteq> None)" by blast+
qed

lemma bt_count_ok: "bt_inv sh b p \<Longrightarrow> bp_size p = card (dom (bt_view p))"
proof -
  assume i: "bt_inv sh b p"
  show ?thesis
  proof (cases "bt_bare sh p")
    case True
    then show ?thesis by (simp add: bt_view_eq(2) [OF True]) (simp add: bt_bare_def)
  next
    case False
    then obtain h where t: "bt_tree sh p h" using i by (auto simp: bt_inv_def)
    have l: "length (bp_nodes p) < 2 ^ 31" using i by (simp add: bt_inv_def)
    have "distinct (map fst (bt_list p h (bp_root p)))" using t by (simp add: bt_tree_def strict_sorted_iff)
    then have "card (fst ` set (bt_list p h (bp_root p))) = length (bt_list p h (bp_root p))"
      by (metis distinct_card length_map set_map)
    then show ?thesis using t by (simp add: bt_view_eq(1) [OF t l] dom_map_of_conv_image_fst bt_tree_def)
  qed
qed


section \<open>Insertion\<close>

lemma map_of_around: "k \<notin> fst ` set L \<Longrightarrow> map_of (L @ (k, v) # R) = (map_of (L @ R))(k \<mapsto> v)"
  by (induction L) (auto simp: fun_eq_iff)

lemma map_of_without: "k \<notin> fst ` set L \<Longrightarrow> k \<notin> fst ` set R \<Longrightarrow> map_of (L @ R) = (map_of (L @ (k, v) # R))(k := None)"
proof -
  assume k: "k \<notin> fst ` set L" "k \<notin> fst ` set R"
  then have "map_of (L @ R) k = None" by (simp add: map_of_eq_None_iff image_Un)
  then have "(map_of (L @ R))(k := None) = map_of (L @ R)" by (simp only: fun_upd_idem_iff)
  then show ?thesis unfolding map_of_around [OF k(1)] fun_upd_upd by (rule sym)
qed

lemma set_key_same: "set_node_key_at n j (node_key_at p n j) p = p"
  by (simp add: set_node_key_at_def node_key_at_def upd_node_def)

lemma bt_update_ok:
  assumes "bt_tree sh p h" "length (bp_nodes p) < 2 ^ 31" "l = bt_list p h (bp_root p)"
  shows "map_of l k = None \<Longrightarrow> bt_update_existing k v p = Some (False, p)"
    "map_of l k \<noteq> None \<Longrightarrow> \<exists>q. bt_update_existing k v p = Some (True, q) \<and> bt_tree sh q h
       \<and> map_of (bt_list q h (bp_root q)) = (map_of l)(k \<mapsto> v) \<and> bp_size q = bp_size p \<and> length (bp_nodes q) = length (bp_nodes p)"
proof -
  note F = bt_find [OF assms, of k]
  show "map_of l k = None \<Longrightarrow> bt_update_existing k v p = Some (False, p)"
    using F by (auto simp: bt_update_existing_def)
  assume "map_of l k \<noteq> None"
  then obtain n j where n: "bt_search p k (bp_root p) = Some (Some (n, j))" "n \<in> set (bt_ids p h (bp_root p))"
    "j < length (bt_recs p n)" "fst (bt_recs p n ! j) = k" "node_key_at p n j = k" using F by auto
  define q where "q = set_rec n j (k, v) p"
  have e: "bt_update_existing k v p = Some (True, q)"
    using n(1) set_key_same [of n j p] n(5) by (simp add: bt_update_existing_def q_def set_rec_def)
  have t: "bt_sub sh p {} h (bp_root p)" "bt_recs p (bp_root p) \<noteq> []" "sorted_wrt (<) (map fst l)" "bp_size p = length l"
    using assms(1) unfolding bt_tree_def assms(3) by blast+
  have q: "bp_root q = bp_root p" "bp_size q = bp_size p" "length (bp_nodes q) = length (bp_nodes p)" by (simp_all add: q_def)
  obtain L R where S: "bt_sub sh q {} h (bp_root p)" "length (bt_recs q (bp_root p)) = length (bt_recs p (bp_root p))"
    "l = L @ bt_recs p n ! j # R" "bt_list q h (bp_root p) = L @ (k, v) # R"
    using bt_set_rec_ok [OF t(1) n(2,3) q_def] assms(3) by blast
  obtain w where w: "bt_recs p n ! j = (k, w)" using n(4) by (cases "bt_recs p n ! j") simp
  have "map fst (bt_list q h (bp_root p)) = map fst l" by (simp add: S(3,4) w)
  then have srt: "sorted_wrt (<) (map fst (bt_list q h (bp_root p)))" using t(3) by (simp only:)
  have k: "k \<notin> fst ` set L" using t(3) unfolding S(3) w by (auto simp: sorted_wrt_append)
  have m: "map_of (bt_list q h (bp_root p)) = (map_of l)(k \<mapsto> v)"
    unfolding S(3,4) w map_of_around [OF k] by simp
  have "bt_recs q (bp_root p) \<noteq> []" using S(2) t(2) by auto
  moreover have "length (bt_list q h (bp_root p)) = length l" by (simp add: S(3,4))
  ultimately have "bt_tree sh q h" using S(1) srt t(4) unfolding bt_tree_def q by simp
  then show "\<exists>q. bt_update_existing k v p = Some (True, q) \<and> bt_tree sh q h
       \<and> map_of (bt_list q h (bp_root q)) = (map_of l)(k \<mapsto> v) \<and> bp_size q = bp_size p \<and> length (bp_nodes q) = length (bp_nodes p)"
    using e m q by (intro exI [of _ q]) (simp only: simp_thms)
qed


lemma bt_nodes_eq:
  assumes "bp_nodes q = bp_nodes p"
  shows "bt_recs q i = bt_recs p i" "bt_kids q i = bt_kids p i" "bt_list q h i = bt_list p h i" "bt_ids q h i = bt_ids p h i"
    "bt_wf sh q h i = bt_wf sh p h i" "bt_arrays sh q = bt_arrays sh p" "same_node p q i"
    "node_n q i = node_n p i" "node_leaf q i = node_leaf p i" "bt_at sh q i leaf rs cs = bt_at sh p i leaf rs cs"
proof -
  have e: "node_n q j = node_n p j" "node_leaf q j = node_leaf p j" "bt_arr q j = bt_arr p j" "bt_kid q j = bt_kid p j" for j
    using assms by (simp_all add: node_read_defs)
  have s: "same_node p q j" "same_node q p j" for j using assms by (simp_all add: same_node_def e)
  then show "bt_recs q i = bt_recs p i" "bt_kids q i = bt_kids p i" "bt_list q h i = bt_list p h i" "bt_ids q h i = bt_ids p h i"
    "bt_wf sh q h i = bt_wf sh p h i" "same_node p q i"
    using bt_frame [of p h i q sh] bt_frame [of q h i p sh] same_node_content [of p q i] by blast+
  show "bt_arrays sh q = bt_arrays sh p" by (simp add: bt_arrays_def assms)
  show "node_n q i = node_n p i" "node_leaf q i = node_leaf p i" by (rule e)+
  show "bt_at sh q i leaf rs cs = bt_at sh p i leaf rs cs" by (simp add: bt_at_def e assms)
qed

lemma bt_sub_eq:
  assumes "bp_nodes q = bp_nodes p" "bp_free q = bp_free p"
  shows "bt_sub sh q E h x = bt_sub sh p E h x"
  by (simp add: bt_sub_def bt_space_def bt_nodes_eq [OF assms(1)] assms)

text \<open>A new node.\<close>
lemma new_node_space:
  assumes "bt_arrays sh p" "bt_space p E I" "new_node sh leaf p = (z, q)"
  shows "z \<notin> E \<union> I" "bt_space q E (Set.insert z I)" "node_n q z = 0" "\<forall>m \<in> E \<union> I. same_node p q m"
    "length (bp_nodes p) \<le> length (bp_nodes q)" "length (bp_nodes q) \<le> length (bp_nodes p) + 1"
    "length (bp_nodes q) = length (bp_nodes p) \<or> bp_free q = []" "set (bp_free q) \<subseteq> set (bp_free p)"
proof -
  note N = new_node_ok [OF assms(1) bt_spaceD(2) [OF assms(2)] assms(3)]
  have z: "z = fresh_index p" using N(6) by (simp add: fresh_index_def split: if_splits)
  show zn: "z \<notin> E \<union> I"
    using bt_spaceD(3,4,5,6) [OF assms(2), of z] by (auto simp: z fresh_index_def split: if_splits)
  show "\<forall>m \<in> E \<union> I. same_node p q m"
  proof
    fix m assume "m \<in> E \<union> I"
    then show "same_node p q m" using zn bt_spaceD(3,4) [OF assms(2), of m] by (intro N(7)) auto
  qed
  show "length (bp_nodes p) \<le> length (bp_nodes q)" "length (bp_nodes q) \<le> length (bp_nodes p) + 1"
    "length (bp_nodes q) = length (bp_nodes p) \<or> bp_free q = []" "set (bp_free q) \<subseteq> set (bp_free p)"
    using N(6) by (auto split: if_splits dest: in_set_butlastD)
  show "bt_space q E (Set.insert z I)"
  proof (cases "bp_free p = []")
    case True
    then have e: "z = length (bp_nodes p)" "bp_free q = []" "length (bp_nodes q) = length (bp_nodes p) + 1" using N(6) by simp_all
    have "E \<union> I = {..<length (bp_nodes p)}" "E \<inter> I = {}"
      using assms(2) True by (simp_all only: bt_space_def list.set(1) sup_bot_left)
    then show ?thesis using zn unfolding bt_space_def e by auto
  next
    case False
    then have e: "bp_free p = bp_free q @ [z]" "length (bp_nodes q) = length (bp_nodes p)" using N(6) by simp_all
    show ?thesis using assms(2) zn unfolding bt_space_def e by auto
  qed
  have "bp_free p \<noteq> [] \<Longrightarrow> last (bp_free p) \<in> {..<length (bp_nodes p)}"
    using bt_spaceD(2) [OF assms(2)] by (blast intro: last_in_set)
  then have "z < length (bp_nodes p) \<or> bp_free p = []" by (auto simp: z fresh_index_def)
  then show "node_n q z = 0" using assms(3) N(6)
    by (auto simp: new_node_def Let_def node_n_def upd_node_def bt_blank_def nth_append split: if_splits)
qed

text \<open>The first record.\<close>
lemma bt_first_ok:
  assumes "bt_bare sh p"
  shows "\<exists>q. bt_insert sh k v p = Some q \<and> bt_tree sh q 0 \<and> bt_list q 0 (bp_root q) = [(k, v)]
     \<and> length (bp_nodes q) \<le> length (bp_nodes p) + 1"
proof -
  have p: "bt_arrays sh p" "bt_space p {} {}" "bp_root p = bt_nil" "bp_size p = 0" using assms by (simp_all add: bt_bare_def)
  obtain z p1 where n: "new_node sh True p = (z, p1)" by (cases "new_node sh True p") simp
  note N = new_node_ok [OF p(1) bt_spaceD(2) [OF p(2)] n]
  note S = new_node_space [OF p(1,2) n]
  define p2 where "p2 = set_rec z 0 (k, v) p1"
  define p3 where "p3 = set_node_n z 1 p2"
  define q where "q = inc_size (bt_set_root z p3)"
  have e: "bt_insert sh k v p = Some q"
    by (simp add: bt_insert_def p(3) n q_def p3_def p2_def set_rec_def Let_def)
  have q: "bp_nodes q = bp_nodes p3" "bp_free q = bp_free p3" "bp_root q = z" "bp_size q = bp_size p3 + 1"
    by (simp_all add: q_def inc_size_def bt_set_root_def)
  have z: "z < length (bp_nodes p1)" "z < length (bp_nodes p2)" using N(2) by (simp_all add: p2_def)
  have l: "length (bt_arr p1 z) = bt_max_keys sh" using N(1) z by (simp add: bt_arrays_iff)
  have mk: "3 \<le> bt_max_keys sh" using bt_T_bounds(1) [of sh] by (simp add: bt_max_keys_def)
  have ar: "bt_arrays sh p3" using N(1) by (simp add: p3_def p2_def)
  have "bt_arr p2 z = (bt_arr p1 z)[0 := (k, v)]" "node_leaf p2 z" using read_set_rec [OF z(1)] N(3) by (simp_all add: p2_def)
  then have "bt_arr p3 z = (bt_arr p1 z)[0 := (k, v)]" "node_leaf p3 z" "node_n p3 z = 1"
    using read_set_n [OF z(2)] by (simp_all add: p3_def)
  moreover have "take 1 ((bt_arr p1 z)[0 := (k, v)]) = [(k, v)]" using l mk by (cases "bt_arr p1 z") simp_all
  ultimately have at: "bt_at sh p3 z True [(k, v)] []" using z mk by (simp add: bt_at_def p3_def)
  have rk: "bt_recs p3 z = [(k, v)]" "bt_kids p3 z = []" using bt_at_content [OF at] by simp_all
  have "bp_free p3 = bp_free p1" "length (bp_nodes p3) = length (bp_nodes p1)" "bp_size p3 = bp_size p1" by (simp_all add: p3_def p2_def)
  moreover from this have "bt_sub sh p3 {} 0 z" using ar at rk S(2) by (simp add: bt_sub_def bt_space_def)
  ultimately have "bt_tree sh q 0" "bt_list q 0 (bp_root q) = [(k, v)]" "length (bp_nodes q) \<le> length (bp_nodes p) + 1"
    using N(5) p(4) rk S(6) by (simp_all add: bt_tree_def q bt_nodes_eq [OF q(1)] bt_sub_eq [OF q(1,2)])
  then show ?thesis using e by blast
qed


text \<open>A full root is split below a new one.\<close>
lemma bt_grow_ok:
  assumes "bt_sub sh p {} h (bp_root p)" "length (bt_recs p (bp_root p)) = bt_max_keys sh" "new_node sh False p = (s, p1)"
    "p2 = bt_set_root s (set_node_child_at s 0 (bp_root p) p1)" "q = split_child sh s 0 p2" "length (bp_nodes p) < 2 ^ 31"
  shows "bt_sub sh q {} (Suc h) s" "bt_list q (Suc h) s = bt_list p h (bp_root p)" "bp_root q = s" "bp_size q = bp_size p"
    "length (bt_recs q s) = 1" "length (bp_nodes p) \<le> length (bp_nodes q)" "length (bp_nodes q) \<le> length (bp_nodes p) + 2"
    "length (bp_nodes q) = length (bp_nodes p) \<or> bp_free q = []"
proof -
  define r where "r = bp_root p"
  have p: "bt_arrays sh p" "bt_wf sh p h r" "distinct (bt_ids p h r)" "bt_space p {} (set (bt_ids p h r))"
    using assms(1) by (simp_all only: bt_sub_def r_def)
  note N = new_node_ok [OF p(1) bt_spaceD(2) [OF p(4)] assms(3)]
  note S = new_node_space [OF p(1,4) assms(3)]
  define p3 where "p3 = set_node_child_at s 0 r p1"
  have p2: "bp_nodes p2 = bp_nodes p3" "bp_free p2 = bp_free p3" "bp_root p2 = s" "bp_size p2 = bp_size p3"
    by (simp_all add: assms(4) p3_def r_def bt_set_root_def)
  have mk: "3 \<le> bt_max_keys sh" "bt_max_keys sh + 1 = bt_max_children sh" using bt_T_bounds(1) [of sh] bt_max [of sh] by (simp_all add: bt_max_keys_def)
  have rl: "r < length (bp_nodes p)" using bt_spaceD(4) [OF p(4), of r] by simp
  have r32: "r < 2 ^ 32" using rl assms(6) by simp
  have f3: "bp_free p3 = bp_free p1" "length (bp_nodes p3) = length (bp_nodes p1)" "bp_size p3 = bp_size p1" by (simp_all add: p3_def)
  have ar: "bt_arrays sh p3" using N(1) by (simp add: p3_def)
  note R = read_set_child [OF N(2), where j = 0 and c = r, folded p3_def]
  have kl: "length (bt_kid p1 s) = bt_max_children sh" using N(1,2) by (simp add: bt_arrays_iff)
  then have "take 1 (bt_kid p3 s) = [r]" using R(4) [OF r32, of s] mk by (cases "bt_kid p1 s") simp_all
  then have at: "bt_at sh p3 s False [] [r]" using N(2,3) S(3) R(1,2) f3(2) by (simp add: bt_at_def)
  have rk: "bt_recs p3 s = []" "bt_kids p3 s = [r]" using bt_at_content [OF at] by simp_all
  have same: "\<forall>j \<in> set (bt_ids p h r). same_node p p3 j"
  proof
    fix j assume j: "j \<in> set (bt_ids p h r)"
    then have js: "j \<noteq> s" "same_node p p1 j" using S(1,4) by auto
    have "same_node p1 p3 j" using js(1) R(1-3) R(4) [OF r32] f3(2) by (simp add: same_node_def)
    then show "same_node p p3 j" using js(2) by (rule same_node_trans [rotated])
  qed
  have sr: "same_node p p3 r" using same by simp
  have F: "bt_list p3 h r = bt_list p h r" "bt_ids p3 h r = bt_ids p h r" "bt_wf sh p3 h r" "bt_recs p3 r = bt_recs p r"
    using bt_frame [OF same] p(2) same_node_content [OF sr] by blast+
  have wf: "bt_wf sh p3 (Suc h) s" using at rk F(3,4) assms(2) mk(1) bt_T_bounds [of sh] by (simp add: r_def bt_max_keys_def)
  have ids: "bt_ids p3 (Suc h) s = s # bt_ids p h r" by (simp add: rk F)
  have "bt_space p3 {} (set (bt_ids p3 (Suc h) s))" using S(2) unfolding ids by (simp add: bt_space_def f3)
  moreover have "distinct (bt_ids p3 (Suc h) s)" using p(3) S(1) unfolding ids by simp
  ultimately have "bt_sub sh p3 {} (Suc h) s" using ar wf by (simp only: bt_sub_def)
  then have sub: "bt_sub sh p2 {} (Suc h) s" by (simp only: bt_sub_eq [OF p2(1,2)])
  have c2: "bt_recs p2 s = []" "bt_kids p2 s = [r]" "bt_recs p2 r = bt_recs p r" by (simp_all add: bt_nodes_eq [OF p2(1)] rk F)
  have len: "length (bp_nodes p2) < 2 ^ 32" using S(6) assms(6) f3(2) p2(1) by simp
  have side: "0 \<le> length (bt_recs p2 s)" "length (bt_recs p2 s) < bt_max_keys sh" "r = bt_kids p2 s ! 0"
    "length (bt_recs p2 r) = bt_max_keys sh" using c2 mk(1) assms(2) by (simp_all add: r_def)
  note Q = bt_split_sub [OF sub len side refl assms(5)]
  show "bt_sub sh q {} (Suc h) s" by (rule Q(1))
  have "bt_list p3 (Suc h) s = bt_list p h r" by (simp add: rk F)
  then show "bt_list q (Suc h) s = bt_list p h (bp_root p)"
    using Q(2) unfolding bt_nodes_eq(3) [OF p2(1)] r_def by (rule trans [rotated])
  show "bp_root q = s" "bp_size q = bp_size p" using Q(8,9) p2 f3 N(5) by simp_all
  show "length (bt_recs q s) = 1" using Q(3) c2 by (simp add: insert_at_def)
  show "length (bp_nodes p) \<le> length (bp_nodes q)" "length (bp_nodes q) \<le> length (bp_nodes p) + 2"
    using Q(11,12) S(5,6) f3(2) p2(1) by simp_all
  have "bp_free p1 = [] \<Longrightarrow> bp_free q = []" using Q(10) p2(2) f3(1) by simp
  then show "length (bp_nodes q) = length (bp_nodes p) \<or> bp_free q = []"
    using Q(13) S(7) f3(2) p2(1) by auto
qed


lemma bt_insert_ok:
  assumes "bt_inv sh (Suc b) p"
  shows "\<exists>q. bt_insert sh k v p = Some q \<and> bt_inv sh b q \<and> bt_view q = (bt_view p)(k \<mapsto> v)"
proof (cases "bt_bare sh p")
  case True
  then obtain q where q: "bt_insert sh k v p = Some q" "bt_tree sh q 0" "bt_list q 0 (bp_root q) = [(k, v)]"
    "length (bp_nodes q) \<le> length (bp_nodes p) + 1" using bt_first_ok by blast
  have "bp_size q = 1" "bp_size p = 0" using q(2,3) True by (simp_all add: bt_tree_def bt_bare_def)
  then have "bt_inv sh b q" using q(2,4) assms unfolding bt_inv_def by auto
  moreover have "length (bp_nodes q) < 2 ^ 31" using q(4) assms by (simp add: bt_inv_def)
  then have "bt_view q = (bt_view p)(k \<mapsto> v)" using bt_view_eq(1) [OF q(2)] bt_view_eq(2) [OF True] q(3) by simp
  ultimately show ?thesis using q(1) by blast
next
  case False
  then obtain h where t: "bt_tree sh p h" using assms by (auto simp: bt_inv_def)
  have l: "length (bp_nodes p) + Suc b < 2 ^ 31" "bp_size p + Suc b < 2 ^ 31" using assms by (simp_all add: bt_inv_def)
  then have l': "length (bp_nodes p) < 2 ^ 31" by simp
  define r where "r = bp_root p"
  have T: "bt_sub sh p {} h r" "bt_recs p r \<noteq> []" "sorted_wrt (<) (map fst (bt_list p h r))" "bp_size p = length (bt_list p h r)"
    using t unfolding bt_tree_def r_def by blast+
  note I = bt_tree_ids [OF t]
  have "r < length (bp_nodes p)" using I(1) by (simp add: r_def)
  then have r: "r \<noteq> bt_nil" using l' by (simp add: bt_nil_def)
  note U = bt_update_ok [OF t l' refl, of k v, folded r_def]
  note V = bt_view_eq(1) [OF t l', folded r_def]
  show ?thesis
  proof (cases "map_of (bt_list p h r) k = None")
    case False
    then obtain q where q: "bt_update_existing k v p = Some (True, q)" "bt_tree sh q h"
      "map_of (bt_list q h (bp_root q)) = (map_of (bt_list p h r))(k \<mapsto> v)" "bp_size q = bp_size p" "length (bp_nodes q) = length (bp_nodes p)"
      using U(2) by blast
    have "bt_insert sh k v p = Some q" using q(1) r by (simp add: bt_insert_def r_def)
    moreover have "bt_inv sh b q" using q l unfolding bt_inv_def by auto
    moreover have "bt_view q = (bt_view p)(k \<mapsto> v)" using bt_view_eq(1) [OF q(2)] q(3,5) l' V by simp
    ultimately show ?thesis by blast
  next
    case True
    then have kn: "k \<notin> fst ` set (bt_list p h r)" by (simp add: map_of_eq_None_iff)
    define p1 where "p1 = (if node_n p r = bt_max_keys sh
                 then (let (s, p) = new_node sh False p;
                           p = set_node_child_at s 0 (bp_root p) p
                       in split_child sh s 0 (bt_set_root s p))
                 else p)"
    have code: "bt_insert sh k v p = map_option inc_size (bt_insert_nonfull sh (bp_root p1) k v p1)"
      using U(1) [OF True] r by (simp add: bt_insert_def r_def [symmetric] p1_def Let_def)
    have n: "node_n p r = length (bt_recs p r)"
      using T(1) bt_atD(3) [OF _ bt_wf_at] unfolding bt_sub_def by blast
    have "\<exists>h1. bt_sub sh p1 {} h1 (bp_root p1) \<and> bt_list p1 h1 (bp_root p1) = bt_list p h r \<and> bp_size p1 = bp_size p
       \<and> length (bt_recs p1 (bp_root p1)) < bt_max_keys sh \<and> bt_recs p1 (bp_root p1) \<noteq> []
       \<and> length (bp_nodes p) \<le> length (bp_nodes p1) \<and> length (bp_nodes p1) + h1 \<le> 2 ^ 32
       \<and> (length (bp_nodes p1) = length (bp_nodes p) \<or> bp_free p1 = [])"
    proof (cases "length (bt_recs p r) = bt_max_keys sh")
      case True
      obtain s p0 where s: "new_node sh False p = (s, p0)" by (cases "new_node sh False p") simp
      have "bp_root p0 = r" using new_node_ok(4) [OF _ _ s] T(1) bt_spaceD(2) unfolding bt_sub_def r_def by blast
      then have p1: "p1 = split_child sh s 0 (bt_set_root s (set_node_child_at s 0 (bp_root p) p0))"
        using True n by (simp add: p1_def s r_def)
      note G = bt_grow_ok [OF T(1) [unfolded r_def] True [unfolded r_def] s refl p1 l', folded r_def]
      have mk: "1 < bt_max_keys sh" using bt_T_bounds(1) [of sh] by (simp add: bt_max_keys_def)
      have "length (bp_nodes p1) + Suc h \<le> 2 ^ 32" using G(7) I(2) l(1) by simp
      moreover have "bt_recs p1 (bp_root p1) \<noteq> []" using G(3,5) by auto
      ultimately show ?thesis using G mk by (intro exI [of _ "Suc h"]) (simp only: simp_thms)
    next
      case False
      then have "p1 = p" using n by (simp add: p1_def)
      moreover have "length (bt_recs p r) < bt_max_keys sh"
        using False bt_atD(4) [OF _ bt_wf_at] T(1) unfolding bt_sub_def by (metis le_neq_implies_less)
      moreover have "length (bp_nodes p) + h \<le> 2 ^ 32" using I(2) l(1) by simp
      ultimately show ?thesis using T by (intro exI [of _ h]) (simp add: r_def)
    qed
    then obtain h1 where P: "bt_sub sh p1 {} h1 (bp_root p1)" "bt_list p1 h1 (bp_root p1) = bt_list p h r" "bp_size p1 = bp_size p"
      "length (bt_recs p1 (bp_root p1)) < bt_max_keys sh" "bt_recs p1 (bp_root p1) \<noteq> []"
      "length (bp_nodes p) \<le> length (bp_nodes p1)" "length (bp_nodes p1) + h1 \<le> 2 ^ 32"
      "length (bp_nodes p1) = length (bp_nodes p) \<or> bp_free p1 = []" by blast
    obtain q L R where Q: "bt_insert_nonfull sh (bp_root p1) k v p1 = Some q" "bt_sub sh q {} h1 (bp_root p1)"
      "bt_list p1 h1 (bp_root p1) = L @ R" "bt_list q h1 (bp_root p1) = L @ (k, v) # R"
      "\<forall>r \<in> set L. fst r < k" "\<forall>r \<in> set R. k < fst r" "length (bt_recs p1 (bp_root p1)) \<le> length (bt_recs q (bp_root p1))"
      "bp_root q = bp_root p1" "bp_size q = bp_size p1" "length (bp_nodes q) = length (bp_nodes p1) \<or> bp_free q = []"
      "set (bp_free q) \<subseteq> set (bp_free p1)"
      using bt_insert_nonfull_ok [OF P(1,4) T(3) [folded P(2)] kn [folded P(2)] P(7)] by blast
    define q1 where "q1 = inc_size q"
    have e: "bp_nodes q1 = bp_nodes q" "bp_free q1 = bp_free q" "bp_root q1 = bp_root p1" "bp_size q1 = bp_size p + 1"
      using Q(8,9) P(3) by (simp_all add: q1_def inc_size_def)
    have lq: "bt_list q1 h1 (bp_root q1) = L @ (k, v) # R" using Q(4) by (simp add: bt_nodes_eq [OF e(1)] e(3))
    have LR: "bt_list p h r = L @ R" using Q(3) P(2) by simp
    have srt: "sorted_wrt (<) (map fst (L @ (k, v) # R))" using T(3) Q(5,6) unfolding LR by (auto simp: sorted_wrt_append)
    have kl: "k \<notin> fst ` set L" using Q(5) by auto
    have "bt_recs q (bp_root p1) \<noteq> []" using Q(7) P(5) by auto
    then have tq: "bt_tree sh q1 h1"
      using Q(2) srt T(4) unfolding bt_tree_def lq LR e(3,4) by (simp add: bt_sub_eq [OF e(1,2)] bt_nodes_eq [OF e(1)] Q(4))
    have "length (bp_nodes q1) = length (bp_nodes p) \<or> bp_free q1 = []" using P(8) Q(10,11) e(1,2) by auto
    then have len: "length (bp_nodes q1) \<le> length (bp_nodes p) \<or> length (bp_nodes q1) \<le> bp_size p + 1"
      using bt_tree_ids(3) [OF tq] e(4) by auto
    then have inv: "bt_inv sh b q1" using tq l e(4) unfolding bt_inv_def by auto
    have "length (bp_nodes q1) < 2 ^ 31" using len l by auto
    then have "bt_view q1 = (bt_view p)(k \<mapsto> v)" using bt_view_eq(1) [OF tq] V lq LR map_of_around [OF kl] by simp
    moreover have "bt_insert sh k v p = Some q1" using code Q(1) by (simp add: q1_def)
    ultimately show ?thesis using inv by blast
  qed
qed


section \<open>Erasure\<close>

text \<open>An empty root is given back: the tree becomes bare, or its only child the root.\<close>
lemma bt_shrink_ok:
  assumes "bt_sub sh p {} h (bp_root p)" "bt_recs p (bp_root p) = []" "sorted_wrt (<) (map fst (bt_list p h (bp_root p)))"
    "q = bt_free_node (bp_root p) (bt_set_root (if node_leaf p (bp_root p) then bt_nil else node_child_at p (bp_root p) 0) p)"
    "bp_size p = Suc (length (bt_list p h (bp_root p)))"
  shows "bt_bare sh (dec_size q) \<and> bt_list p h (bp_root p) = []
    \<or> (\<exists>h'. bt_tree sh (dec_size q) h' \<and> bt_list (dec_size q) h' (bp_root (dec_size q)) = bt_list p h (bp_root p))"
proof -
  define r where "r = bp_root p"
  define d where "d = dec_size q"
  have p: "bt_arrays sh p" "bt_wf sh p h r" "distinct (bt_ids p h r)" "bt_space p {} (set (bt_ids p h r))"
    using assms(1) by (simp_all only: bt_sub_def r_def)
  have leaf: "node_leaf p r = (h = 0)" by (rule bt_atD(2) [OF p(1) bt_wf_at [OF p(2)]])
  have d: "bp_nodes d = bp_nodes p" "bp_free d = bp_free p @ [r]" "bp_size d = length (bt_list p h r)"
    "bp_root d = (if h = 0 then bt_nil else node_child_at p r 0)"
    using assms(5) leaf by (simp_all add: d_def dec_size_def assms(4) bt_free_node_def bt_set_root_def r_def)
  note D = bt_nodes_eq [OF d(1)]
  show ?thesis
  proof (cases h)
    case 0
    then have "bt_list p h r = []" using assms(2) by (simp add: r_def)
    moreover have "bt_space d {} {}" using p(4) 0 unfolding bt_space_def d by auto
    ultimately show ?thesis using p(1) d 0 by (simp add: bt_bare_def D d_def [symmetric] r_def [symmetric])
  next
    case (Suc h')
    have s: "bt_sub sh p {} (Suc h') r" using assms(1) by (simp add: Suc r_def)
    note K = bt_sub_kids [OF s]
    have e: "bt_recs p r = []" using assms(2) by (simp add: r_def)
    then obtain c where c: "bt_kids p r = [c]" using K(4) by (cases "bt_kids p r") auto
    have l0: "0 \<le> length (bt_recs p r)" by simp
    have c0: "c = bt_kids p r ! 0" by (simp add: c)
    note C = bt_child [OF s l0 c0 refl refl]
    have ids: "bt_ids p h r = r # bt_ids p h' c" by (simp add: Suc c)
    have "bt_T sh - 1 \<le> length (bt_recs p c)" using K(5) [OF C(2)] by simp
    then have ne: "bt_recs p c \<noteq> []" using bt_T_bounds(1) [of sh] by auto
    have lc: "bt_list p h r = bt_list p h' c" by (simp add: Suc c e)
    have rd: "bp_root d = c" using d(4) C(3) Suc by simp
    have wc: "bt_wf sh p h' c" using C(4) by (simp only: bt_sub_def)
    have dis: "distinct (bt_ids p h' c)" "r \<notin> set (bt_ids p h' c)" using p(3) unfolding ids by simp_all
    have "bt_space d {} (set (bt_ids p h' c))"
      using p(4) dis(2) unfolding ids bt_space_def d by auto
    then have "bt_sub sh d {} h' c" using p(1) wc dis(1) unfolding bt_sub_def D by blast
    then have "bt_tree sh d h'" using ne assms(3) d(3) lc unfolding bt_tree_def rd D by (simp add: r_def)
    then show ?thesis using lc rd D(3) by (auto simp: d_def [symmetric] r_def [symmetric])
  qed
qed

lemma bt_erase_ok:
  assumes "bt_inv sh (Suc b) p"
  shows "\<exists>q. bt_erase sh k p = Some (bt_view p k \<noteq> None, q) \<and> bt_inv sh b q \<and> bt_view q = (bt_view p)(k := None)"
proof (cases "bt_view p k")
  case None
  have "bt_erase sh k p = Some (False, p)"
    using bt_look_ok(2) [OF assms, of k] None by (simp add: bt_erase_def)
  moreover have "bt_inv sh b p" using assms by (auto simp: bt_inv_def)
  ultimately show ?thesis using None by (simp add: fun_upd_idem)
next
  case (Some v)
  then have "\<not> bt_bare sh p" using bt_view_eq(2) by auto
  then obtain h where t: "bt_tree sh p h" using assms by (auto simp: bt_inv_def)
  have l: "length (bp_nodes p) + Suc b < 2 ^ 31" "bp_size p + Suc b < 2 ^ 31" using assms by (simp_all add: bt_inv_def)
  then have l': "length (bp_nodes p) < 2 ^ 31" by simp
  define r where "r = bp_root p"
  have T: "bt_sub sh p {} h r" "bt_recs p r \<noteq> []" "sorted_wrt (<) (map fst (bt_list p h r))" "bp_size p = length (bt_list p h r)"
    using t unfolding bt_tree_def r_def by blast+
  have "r < length (bp_nodes p)" using bt_tree_ids(1) [OF t] by (simp add: r_def)
  then have rn: "r \<noteq> bt_nil" using l' by (simp add: bt_nil_def)
  note V = bt_view_eq(1) [OF t l', folded r_def]
  have kv: "(k, v) \<in> set (bt_list p h r)" using Some unfolding V by (rule map_of_SomeD)
  obtain q L R where Q: "bt_remove_from sh r k p = Some q" "bt_sub sh q {} h r" "bt_list p h r = L @ (k, v) # R"
    "bt_list q h r = L @ R" "length (bt_recs p r) \<le> length (bt_recs q r) + 1" "bp_root q = bp_root p" "bp_size q = bp_size p"
    "length (bp_nodes q) = length (bp_nodes p)" using bt_remove_ok [OF T(1,3) kv T(2)] by blast
  define q1 where "q1 = (if node_n q r = 0 then bt_free_node r (bt_set_root (if node_leaf q r then bt_nil else node_child_at q r 0) q) else q)"
  have code: "bt_erase sh k p = Some (True, dec_size q1)"
    using bt_look_ok(2) [OF assms, of k] Some rn Q(1,6)
    by (simp add: bt_erase_def r_def [symmetric] q1_def Let_def)
  have nq: "node_n q r = length (bt_recs q r)" using Q(2) bt_atD(3) [OF _ bt_wf_at] unfolding bt_sub_def by blast
  have rq: "bp_root q = r" using Q(6) by (simp add: r_def)
  have srt: "sorted_wrt (<) (map fst (bt_list q h r))" using T(3) unfolding Q(3,4) by (auto simp: sorted_wrt_append)
  have sz: "bp_size q = Suc (length (bt_list q h r))" using T(4) Q(7) unfolding Q(3,4) by simp
  have k: "k \<notin> fst ` set L" "k \<notin> fst ` set R" using T(3) unfolding Q(3) by (auto simp: sorted_wrt_append)
  have m: "map_of (L @ R) = (bt_view p)(k := None)" unfolding V Q(3) by (rule map_of_without [OF k])
  have ln: "length (bp_nodes (dec_size q1)) = length (bp_nodes p)" "bp_size (dec_size q1) = bp_size p - 1"
    using Q(7,8) by (simp_all add: dec_size_def q1_def bt_free_node_def bt_set_root_def)
  have res: "bt_bare sh (dec_size q1) \<and> L @ R = []
    \<or> (\<exists>h'. bt_tree sh (dec_size q1) h' \<and> bt_list (dec_size q1) h' (bp_root (dec_size q1)) = L @ R)"
  proof (cases "bt_recs q r = []")
    case True
    then have "q1 = bt_free_node r (bt_set_root (if node_leaf q r then bt_nil else node_child_at q r 0) q)"
      using nq by (simp add: q1_def)
    then show ?thesis using bt_shrink_ok [of sh q h q1] Q(2) True srt sz unfolding rq Q(4) [symmetric] by blast
  next
    case False
    then have "q1 = q" using nq by (simp add: q1_def)
    moreover define d where "d = dec_size q"
    then have d: "bp_nodes d = bp_nodes q" "bp_free d = bp_free q" "bp_root d = r" "bp_size d = length (bt_list q h r)"
      using sz rq by (simp_all add: dec_size_def)
    have "bt_tree sh d h" using Q(2) False srt unfolding bt_tree_def d(3,4) by (simp add: bt_sub_eq [OF d(1,2)] bt_nodes_eq [OF d(1)])
    moreover have "bt_list d h (bp_root d) = L @ R" using Q(4) by (simp add: bt_nodes_eq [OF d(1)] d(3))
    ultimately show ?thesis by (auto simp: d_def)
  qed
  have "bt_inv sh b (dec_size q1)" using res ln l unfolding bt_inv_def by auto
  moreover have "length (bp_nodes (dec_size q1)) < 2 ^ 31" using ln(1) l' by simp
  then have "bt_view (dec_size q1) = (bt_view p)(k := None)"
    using res bt_view_eq [of sh "dec_size q1"] unfolding m [symmetric] by auto
  ultimately show ?thesis using code Some by auto
qed

lemma bt_clear_ok: "bt_inv sh (Suc b) p \<Longrightarrow> bt_inv sh b (bp_clear p) \<and> bt_view (bp_clear p) = Map.empty"
proof -
  assume i: "bt_inv sh (Suc b) p"
  have b: "bt_bare sh (bp_clear p)" by (simp add: bt_bare_def bp_clear_def bt_arrays_def bt_space_def)
  moreover have "Suc b < 2 ^ 31" using i by (simp add: bt_inv_def)
  ultimately have "bt_inv sh b (bp_clear p)" unfolding bt_inv_def by (simp add: bp_clear_def)
  then show ?thesis using bt_view_eq(2) [OF b] by blast
qed

interpretation bt: budget_map "bt_inv sh" bt_lookup "\<lambda>k v p. map_option Inr (bt_insert sh k v p)" "bt_erase sh"
  bp_size bp_clear bt_view "\<lambda>_. False"
proof
  show "bt_inv sh (Suc b) s \<Longrightarrow> bt_inv sh b s" for b s by (auto simp: bt_inv_def)
  show "bt_inv sh b s \<Longrightarrow> bt_lookup s k = Some (bt_view s k)" for b s k by (rule bt_look_ok(1))
  show "bt_inv sh (Suc b) s \<Longrightarrow> \<exists>s'. map_option Inr (bt_insert sh k v s) = Some (Inr s') \<and> bt_inv sh b s'
      \<and> bt_view s' = (bt_view s)(k \<mapsto> v)" for b s k v
    using bt_insert_ok [of sh b s k v] by auto
  show "bt_inv sh (Suc b) s \<Longrightarrow> \<exists>s'. bt_erase sh k s = Some (bt_view s k \<noteq> None, s') \<and> bt_inv sh b s'
      \<and> bt_view s' = (bt_view s)(k := None)" for b s k by (rule bt_erase_ok)
  show "bt_inv sh b s \<Longrightarrow> bp_size s = card (dom (bt_view s))" for b s by (rule bt_count_ok)
  show "bt_inv sh (Suc b) s \<Longrightarrow> bt_inv sh b (bp_clear s) \<and> bt_view (bp_clear s) = Map.empty" for b s by (rule bt_clear_ok)
qed simp

text \<open>C8: From the empty pool, any fewer than \<open>2\<^sup>3\<^sup>1\<close> calls of insert, erase, lookup, size and clear on the B-tree of any
  order return, raise nothing, and answer as the finite map does; afterwards, the in-order walk \<^verbatim>\<open>for_each_record\<close>
  returns the stored records in ascending key order.\<close>
theorem btree_refines_map:
  assumes "length ops < 2 ^ 31"
  shows "\<exists>p xs. pool_run bt_lookup (\<lambda>k v p. map_option Inr (bt_insert sh k v p)) (bt_erase sh) bp_size bp_clear ops bp_init
      = Some (map Inr (fst (spec_map_run ops Map.empty)), p)
    \<and> bt_records p = Some xs \<and> sorted_wrt (<) (map fst xs) \<and> map_of xs = snd (spec_map_run ops Map.empty)"
proof -
  have b: "bt_bare sh bp_init" by (simp add: bt_bare_def bp_init_def bt_arrays_def bt_space_def)
  then have "bt_inv sh (length ops) bp_init" using assms unfolding bt_inv_def by (simp add: bp_init_def)
  from bt.run_refines [OF this] obtain p where p: "bt_inv sh 0 p"
    "pool_run bt_lookup (\<lambda>k v p. map_option Inr (bt_insert sh k v p)) (bt_erase sh) bp_size bp_clear ops bp_init
      = Some (map Inr (fst (spec_map_run ops Map.empty)), p)" "bt_view p = snd (spec_map_run ops Map.empty)"
    using bt_view_eq(2) [OF b] spec_pool_run_total by auto
  have "\<exists>xs. bt_records p = Some xs \<and> sorted_wrt (<) (map fst xs)"
    using p(1) bt_records_ok [of sh p] unfolding bt_inv_def bt_tree_def by auto
  then show ?thesis using p(2,3) by (auto simp: bt_view_def)
qed


theorem btree_refines_map_witness:
  "\<exists>p xs. pool_run bt_lookup (\<lambda>k v p. map_option Inr (bt_insert Kt2 k v p)) (bt_erase Kt2) bp_size bp_clear
       [Insert 2 20, Insert 1 10, Insert 2 21, Lookup 2, Erase 2, Lookup 1, Count] bp_init
      = Some (map Inr [Found (Some 21), Erased True, Found (Some 10), Counted 1], p)
    \<and> bt_records p = Some xs \<and> sorted_wrt (<) (map fst xs) \<and> map_of xs = [1 \<mapsto> 10]"
proof -
  have "spec_map_run [Insert 2 20, Insert 1 10, Insert 2 21, Lookup 2, Erase 2, Lookup 1, Count] Map.empty
      = ([Found (Some 21), Erased True, Found (Some 10), Counted 1], [1 \<mapsto> 10])"
    by (simp add: spec_map_run_def fun_upd_twist [of 2 1])
  then show ?thesis
    using btree_refines_map [of "[Insert 2 20, Insert 1 10, Insert 2 21, Lookup 2, Erase 2, Lookup 1, Count]" Kt2]
    by simp
qed

end
