(* ===== verification/Hot_Pool.thy ===== *)
theory Hot_Pool imports Pool_Contract begin

text \<open>
  The HOT/Patricia organ as the code has it: the binary crit-bit pool \<^verbatim>\<open>HotPatriciaNodePoolStore\<close> (leaves
  with a key and a value, internal nodes with a bit position and two children, a free list for each
  kind, references that carry the kind in their upper byte), the traversal
  \<^verbatim>\<open>HotPatriciaTraversalOrgan\<close> and the record walk of \<^verbatim>\<open>ComposedHotPatriciaSearch\<close> with its inline stack.
  \<^verbatim>\<open>std::size_t\<close> references and \<^verbatim>\<open>unsigned\<close> bit positions are words; the loops are partial functions.
\<close>

section \<open>The pool\<close>

record hp_leaf =
  hl_key :: u64
  hl_val :: u64

record hp_internal =
  hi_crit_bit :: u8
  hi_child0 :: u64
  hi_child1 :: u64

record hp_pool =
  hp_leaves :: "hp_leaf list"
  hp_internals :: "hp_internal list"
  hp_fl_leaf :: "nat list"
  hp_fl_internal :: "nat list"
  hp_root :: u64
  hp_size :: nat

definition hp_nil :: u64 where "hp_nil = - 1"

definition hp_init :: hp_pool where
  "hp_init = \<lparr>hp_leaves = [], hp_internals = [], hp_fl_leaf = [], hp_fl_internal = [], hp_root = hp_nil, hp_size = 0\<rparr>"

text \<open>Copy construction and assignment: everything but the allocator, which the model leaves out.\<close>
definition hp_copy :: "hp_pool \<Rightarrow> hp_pool" where
  "hp_copy src = \<lparr>hp_leaves = hp_leaves src, hp_internals = hp_internals src, hp_fl_leaf = hp_fl_leaf src,
     hp_fl_internal = hp_fl_internal src, hp_root = hp_root src, hp_size = hp_size src\<rparr>"

definition hp_assign :: "hp_pool \<Rightarrow> hp_pool \<Rightarrow> hp_pool" where
  "hp_assign self src = self\<lparr>hp_leaves := hp_leaves src, hp_internals := hp_internals src, hp_fl_leaf := hp_fl_leaf src,
     hp_fl_internal := hp_fl_internal src, hp_root := hp_root src, hp_size := hp_size src\<rparr>"

text \<open>\<^verbatim>\<open>enum Kind : std::uint8_t\<close>; a reference may read as a value that is no enumerator.\<close>
type_synonym hp_kind = u8

definition hp_kLeaf :: hp_kind where "hp_kLeaf = 0"
definition hp_kInternal :: hp_kind where "hp_kInternal = 1"

definition make_ref :: "hp_kind \<Rightarrow> nat \<Rightarrow> u64" where
  "make_ref kind idx = push_bit 56 (ucast kind) OR word_of_nat idx"
definition ref_kind :: "u64 \<Rightarrow> hp_kind" where
  "ref_kind r = ucast (drop_bit 56 r)"
definition ref_idx :: "u64 \<Rightarrow> nat" where
  "ref_idx r = unat (r AND 0x00FFFFFFFFFFFFFF)"

definition hp_set_root :: "u64 \<Rightarrow> hp_pool \<Rightarrow> hp_pool" where "hp_set_root r p = p\<lparr>hp_root := r\<rparr>"
definition hp_inc_size :: "hp_pool \<Rightarrow> hp_pool" where "hp_inc_size p = p\<lparr>hp_size := hp_size p + 1\<rparr>"
definition hp_dec_size :: "hp_pool \<Rightarrow> hp_pool" where "hp_dec_size p = p\<lparr>hp_size := hp_size p - 1\<rparr>"

definition hp_clear :: "hp_pool \<Rightarrow> hp_pool" where
  "hp_clear p = p\<lparr>hp_leaves := [], hp_internals := [], hp_fl_leaf := [], hp_fl_internal := [],
     hp_root := hp_nil, hp_size := 0\<rparr>"

definition is_leaf :: "u64 \<Rightarrow> bool" where "is_leaf r \<longleftrightarrow> ref_kind r = hp_kLeaf"
definition leaf_key :: "hp_pool \<Rightarrow> u64 \<Rightarrow> u64" where "leaf_key p r = hl_key (hp_leaves p ! ref_idx r)"
definition leaf_value :: "hp_pool \<Rightarrow> u64 \<Rightarrow> u64" where "leaf_value p r = hl_val (hp_leaves p ! ref_idx r)"

definition set_leaf_value :: "u64 \<Rightarrow> u64 \<Rightarrow> hp_pool \<Rightarrow> hp_pool" where
  "set_leaf_value r v p = p\<lparr>hp_leaves := (hp_leaves p)[ref_idx r := (hp_leaves p ! ref_idx r)\<lparr>hl_val := v\<rparr>]\<rparr>"

definition new_leaf :: "u64 \<Rightarrow> u64 \<Rightarrow> hp_pool \<Rightarrow> u64 \<times> hp_pool" where
  "new_leaf k v p =
     (if hp_fl_leaf p \<noteq> []
      then (let idx = last (hp_fl_leaf p)
            in (make_ref hp_kLeaf idx, p\<lparr>hp_fl_leaf := butlast (hp_fl_leaf p),
                  hp_leaves := (hp_leaves p)[idx := \<lparr>hl_key = k, hl_val = v\<rparr>]\<rparr>))
      else (let idx = length (hp_leaves p)
            in (make_ref hp_kLeaf idx, p\<lparr>hp_leaves := hp_leaves p @ [\<lparr>hl_key = k, hl_val = v\<rparr>]\<rparr>)))"

definition crit_bit :: "hp_pool \<Rightarrow> u64 \<Rightarrow> u32" where
  "crit_bit p r = ucast (hi_crit_bit (hp_internals p ! ref_idx r))"

definition hp_child :: "hp_pool \<Rightarrow> u64 \<Rightarrow> u32 \<Rightarrow> u64" where
  "hp_child p r b = (let x = hp_internals p ! ref_idx r in if b AND 1 = 0 then hi_child0 x else hi_child1 x)"

definition hp_set_child :: "u64 \<Rightarrow> u32 \<Rightarrow> u64 \<Rightarrow> hp_pool \<Rightarrow> hp_pool" where
  "hp_set_child r b c p = (let x = hp_internals p ! ref_idx r
     in p\<lparr>hp_internals := (hp_internals p)[ref_idx r := (if b AND 1 = 0 then x\<lparr>hi_child0 := c\<rparr> else x\<lparr>hi_child1 := c\<rparr>)]\<rparr>)"

definition new_internal :: "u32 \<Rightarrow> u64 \<Rightarrow> u64 \<Rightarrow> hp_pool \<Rightarrow> u64 \<times> hp_pool" where
  "new_internal cb c0 c1 p =
     (let x = \<lparr>hi_crit_bit = ucast cb, hi_child0 = c0, hi_child1 = c1\<rparr>
      in if hp_fl_internal p \<noteq> []
         then (let idx = last (hp_fl_internal p)
               in (make_ref hp_kInternal idx, p\<lparr>hp_fl_internal := butlast (hp_fl_internal p),
                     hp_internals := (hp_internals p)[idx := x]\<rparr>))
         else (let idx = length (hp_internals p)
               in (make_ref hp_kInternal idx, p\<lparr>hp_internals := hp_internals p @ [x]\<rparr>)))"

definition hp_free_node :: "u64 \<Rightarrow> hp_pool \<Rightarrow> hp_pool" where
  "hp_free_node r p = (if ref_kind r = hp_kLeaf then p\<lparr>hp_fl_leaf := hp_fl_leaf p @ [ref_idx r]\<rparr>
     else p\<lparr>hp_fl_internal := hp_fl_internal p @ [ref_idx r]\<rparr>)"

section \<open>The traversal\<close>

text \<open>\<^verbatim>\<open>std::countl_zero\<close>: the number of leading zeros.\<close>
definition countl_zero :: "u64 \<Rightarrow> nat" where
  "countl_zero w = length (takeWhile (\<lambda>j. \<not> bit w j) (rev [0..<64]))"

definition first_diff_bit :: "u64 \<Rightarrow> u64 \<Rightarrow> u32" where
  "first_diff_bit a b = word_of_nat (countl_zero (a XOR b))"

definition dir :: "u64 \<Rightarrow> u32 \<Rightarrow> u32" where
  "dir key cb = ucast (drop_bit (unat (63 - cb)) key AND 1)"

definition link_parent :: "u64 \<Rightarrow> u32 \<Rightarrow> u64 \<Rightarrow> hp_pool \<Rightarrow> hp_pool" where
  "link_parent parent parent_dir new_ref p =
     (if parent = hp_nil then hp_set_root new_ref p else hp_set_child parent parent_dir new_ref p)"

text \<open>The leaf a key leads to.\<close>
partial_function (option) hp_descend :: "hp_pool \<Rightarrow> u64 \<Rightarrow> u64 \<Rightarrow> u64 option" where
  "hp_descend p key ref = (if \<not> is_leaf ref then hp_descend p key (hp_child p ref (dir key (crit_bit p ref))) else Some ref)"

text \<open>The second descent of \<^verbatim>\<open>insert_into\<close>: to the place of the new bit.\<close>
partial_function (option) hp_redescend :: "hp_pool \<Rightarrow> u64 \<Rightarrow> u32 \<Rightarrow> u64 \<Rightarrow> u32 \<Rightarrow> u64 \<Rightarrow> (u64 \<times> u32 \<times> u64) option" where
  "hp_redescend p key newbit parent parent_dir ref =
     (if \<not> is_leaf ref \<and> crit_bit p ref < newbit
      then hp_redescend p key newbit ref (dir key (crit_bit p ref)) (hp_child p ref (dir key (crit_bit p ref)))
      else Some (parent, parent_dir, ref))"

definition hp_insert :: "u64 \<Rightarrow> u64 \<Rightarrow> hp_pool \<Rightarrow> hp_pool option" where
  "hp_insert key val p =
     (if hp_root p = hp_nil then (let (l, q) = new_leaf key val p in Some (hp_inc_size (hp_set_root l q)))
      else (case hp_descend p key (hp_root p) of
          None \<Rightarrow> None
        | Some ref \<Rightarrow>
            (let ek = leaf_key p ref in
             if ek = key then Some (set_leaf_value ref val p)
             else (let newbit = first_diff_bit ek key in
               case hp_redescend p key newbit hp_nil 0 (hp_root p) of
                 None \<Rightarrow> None
               | Some (parent, parent_dir, ref) \<Rightarrow>
                   (let nd = dir key newbit;
                        (newleaf, p1) = new_leaf key val p;
                        (newint, p2) = (if nd = 1 then new_internal newbit ref newleaf p1
                                        else new_internal newbit newleaf ref p1)
                    in Some (hp_inc_size (link_parent parent parent_dir newint p2)))))))"

definition hp_lookup :: "hp_pool \<Rightarrow> u64 \<Rightarrow> u64 option option" where
  "hp_lookup p key =
     (if hp_root p = hp_nil then Some None
      else (case hp_descend p key (hp_root p) of
          None \<Rightarrow> None
        | Some ref \<Rightarrow> Some (if leaf_key p ref = key then Some (leaf_value p ref) else None)))"

text \<open>The descent of \<^verbatim>\<open>erase_from\<close>: grandparent, its side, parent, its side and the leaf.\<close>
partial_function (option) hp_erase_descend ::
  "hp_pool \<Rightarrow> u64 \<Rightarrow> u64 \<Rightarrow> u32 \<Rightarrow> u64 \<Rightarrow> u32 \<Rightarrow> u64 \<Rightarrow> (u64 \<times> u32 \<times> u64 \<times> u32 \<times> u64) option" where
  "hp_erase_descend p key gp gp_dir par par_dir cur =
     (if \<not> is_leaf cur
      then hp_erase_descend p key par par_dir cur (dir key (crit_bit p cur)) (hp_child p cur (dir key (crit_bit p cur)))
      else Some (gp, gp_dir, par, par_dir, cur))"

definition hp_erase :: "u64 \<Rightarrow> hp_pool \<Rightarrow> (bool \<times> hp_pool) option" where
  "hp_erase key p =
     (let ref = hp_root p in
      if ref = hp_nil then Some (False, p)
      else if is_leaf ref
      then Some (if leaf_key p ref \<noteq> key then (False, p)
                 else (True, hp_dec_size (hp_set_root hp_nil (hp_free_node ref p))))
      else (let par_dir = dir key (crit_bit p ref) in
        case hp_erase_descend p key hp_nil 0 ref par_dir (hp_child p ref par_dir) of
          None \<Rightarrow> None
        | Some (gp, gp_dir, par, par_dir, cur) \<Rightarrow>
            Some (if leaf_key p cur \<noteq> key then (False, p)
                  else (let sibling = hp_child p par (1 - par_dir);
                            p1 = (if gp = hp_nil then hp_set_root sibling p else hp_set_child gp gp_dir sibling p)
                        in (True, hp_dec_size (hp_free_node par (hp_free_node cur p1)))))))"

section \<open>The record walk\<close>

definition kMaxDescent :: nat where "kMaxDescent = 8 * 8 + 1"

record hp_frame =
  hf_node :: u64
  hf_next_child :: nat

datatype hp_walk_error = Logic_Error

text \<open>The loop of \<^verbatim>\<open>for_each_record\<close>: the stack (its top is the head), the records the sink got and their
  number; \<open>Inl\<close> is the exception of the stack's limit.\<close>
partial_function (option) hp_walk :: "hp_pool \<Rightarrow> hp_frame list \<Rightarrow> slot list \<Rightarrow> nat
    \<Rightarrow> (hp_walk_error + slot list \<times> nat) option" where
  "hp_walk p stack sink visited = (case stack of
     [] \<Rightarrow> Some (Inr (sink, visited))
   | f # rest \<Rightarrow>
       if 1 < hf_next_child f then hp_walk p rest sink visited
       else (let child = hp_child p (hf_node f) (word_of_nat (hf_next_child f));
                 stack' = f\<lparr>hf_next_child := hf_next_child f + 1\<rparr> # rest
             in if child = hp_nil then hp_walk p stack' sink visited
                else if is_leaf child
                then hp_walk p stack' (sink @ [(leaf_key p child, leaf_value p child)]) (visited + 1)
                else if kMaxDescent \<le> length stack' then Some (Inl Logic_Error)
                else hp_walk p (\<lparr>hf_node = child, hf_next_child = 0\<rparr> # stack') sink visited))"

definition hp_for_each_record :: "hp_pool \<Rightarrow> (hp_walk_error + slot list \<times> nat) option" where
  "hp_for_each_record p =
     (let root = hp_root p in
      if root = hp_nil then Some (Inr ([], 0))
      else if is_leaf root then Some (Inr ([(leaf_key p root, leaf_value p root)], 1))
      else hp_walk p [\<lparr>hf_node = root, hf_next_child = 0\<rparr>] [] 0)"

text \<open>\<^verbatim>\<open>ComposedHotPatriciaSearch::insert\<close> in the organs' result type: this organ throws nothing of its own.\<close>
definition hp_search_insert :: "u64 \<Rightarrow> u64 \<Rightarrow> hp_pool \<Rightarrow> hp_pool pool_result" where
  "hp_search_insert k v p = map_option Inr (hp_insert k v p)"

section \<open>References\<close>

definition leaf_ref :: "nat \<Rightarrow> u64" where "leaf_ref i = make_ref hp_kLeaf i"
definition internal_ref :: "nat \<Rightarrow> u64" where "internal_ref i = make_ref hp_kInternal i"

lemma make_ref_parts:
  assumes "i < 2 ^ 56"
  shows "ref_kind (make_ref k i) = k" "ref_idx (make_ref k i) = i"
proof -
  have b: "bit i j \<Longrightarrow> j < 56" for j
  proof (rule ccontr)
    assume "bit i j" "\<not> j < 56"
    then have "(2 :: nat) ^ 56 \<le> 2 ^ j" by (intro power_increasing) simp_all
    with assms have "i < 2 ^ j" by linarith
    then have "\<not> bit i j" by (simp add: bit_iff_odd)
    then show False using \<open>bit i j\<close> by simp
  qed
  show "ref_kind (make_ref k i) = k"
    by (rule bit_word_eqI) (auto simp: ref_kind_def make_ref_def bit_simps dest: b)
  have "make_ref k i AND 0x00FFFFFFFFFFFFFF = take_bit 56 (make_ref k i)"
    by (simp add: take_bit_eq_mask mask_eq_exp_minus_1)
  also have "\<dots> = word_of_nat i"
    by (intro bit_word_eqI) (auto simp: make_ref_def bit_simps dest: b)
  finally have w: "make_ref k i AND 0x00FFFFFFFFFFFFFF = word_of_nat i" .
  show "ref_idx (make_ref k i) = i" using assms by (simp add: ref_idx_def w unat_word_of_nat)
qed

lemma hp_refs [simp]:
  assumes "i < 2 ^ 56"
  shows "is_leaf (leaf_ref i)" "\<not> is_leaf (internal_ref i)" "ref_idx (leaf_ref i) = i" "ref_idx (internal_ref i) = i"
    "leaf_ref i \<noteq> hp_nil" "internal_ref i \<noteq> hp_nil" "ref_kind (leaf_ref i) = hp_kLeaf" "ref_kind (internal_ref i) = hp_kInternal"
proof -
  have n: "ref_kind hp_nil = 255" by (simp add: ref_kind_def hp_nil_def drop_bit_eq_div)
  show "is_leaf (leaf_ref i)" "\<not> is_leaf (internal_ref i)" "ref_idx (leaf_ref i) = i" "ref_idx (internal_ref i) = i"
    "ref_kind (leaf_ref i) = hp_kLeaf" "ref_kind (internal_ref i) = hp_kInternal"
    using make_ref_parts [OF assms]
    by (simp_all add: is_leaf_def leaf_ref_def internal_ref_def hp_kLeaf_def hp_kInternal_def)
  show "leaf_ref i \<noteq> hp_nil" "internal_ref i \<noteq> hp_nil"
    using make_ref_parts(1) [OF assms, of 0] make_ref_parts(1) [OF assms, of 1] n
    by (auto simp: leaf_ref_def internal_ref_def hp_kLeaf_def hp_kInternal_def)
qed

section \<open>Bits\<close>

text \<open>The bits of a key, counted from the most significant one.\<close>
definition kbit :: "u64 \<Rightarrow> nat \<Rightarrow> bool" where "kbit k j = bit k (63 - j)"

lemma dir_kbit:
  assumes "unat cb < 64"
  shows "dir k cb = (if kbit k (unat cb) then 1 else 0)"
proof -
  have "cb \<le> 63" using assms by (simp add: word_le_nat_alt)
  then have "unat (63 - cb) = 63 - unat cb" by (simp add: unat_sub)
  moreover have "drop_bit n k AND 1 = (if bit k n then 1 else 0)" for n
    by (simp add: and_one_eq mod_2_eq_odd bit_iff_odd_drop_bit)
  ultimately show ?thesis by (simp add: dir_def kbit_def)
qed

lemma kbit_eqI: "(\<And>j. j < 64 \<Longrightarrow> kbit a j = kbit b j) \<Longrightarrow> a = b"
proof (rule bit_word_eqI)
  fix n assume n: "n < LENGTH(64)" and e: "\<And>j. j < 64 \<Longrightarrow> kbit a j = kbit b j"
  have "kbit a (63 - n) = kbit b (63 - n)" by (rule e) simp
  moreover have "63 - (63 - n) = n" using n by simp
  ultimately show "bit a n = bit b n" by (simp only: kbit_def)
qed

lemma kbit_less:
  assumes "c < 64" "\<And>j. j < c \<Longrightarrow> kbit a j = kbit b j" "\<not> kbit a c" "kbit b c"
  shows "a < b"
proof -
  define n where "n = 63 - c"
  have n: "n < 64" "\<not> bit a n" "bit b n" using assms(1,3,4) by (simp_all add: n_def kbit_def)
  have up: "bit a m = bit b m" if "n < m" for m
  proof (cases "m < 64")
    case True
    have "kbit a (63 - m) = kbit b (63 - m)" using that True by (intro assms(2)) (simp add: n_def)
    moreover have "63 - (63 - m) = m" using True by simp
    ultimately show ?thesis by (simp only: kbit_def)
  qed (auto dest: bit_imp_le_length)
  have "drop_bit (Suc n) a = drop_bit (Suc n) b"
    by (rule bit_word_eqI) (simp add: bit_simps up)
  moreover have u: "unat (drop_bit m w) = drop_bit m (unat w)" for m and w :: u64
    by (simp only: unsigned_drop_bit_eq unsigned_take_bit_eq [symmetric] take_bit_length_eq)
  ultimately have "drop_bit (Suc n) (unat a) = drop_bit (Suc n) (unat b)"
    by (simp only: u [symmetric])
  then have "unat a div 2 ^ n div 2 = unat b div 2 ^ n div 2"
    by (simp add: drop_bit_eq_div div_mult2_eq [symmetric] mult.commute)
  moreover have "odd (unat w div 2 ^ n) = bit w n" for w :: u64
    unfolding bit_iff_odd [symmetric] by (simp add: bit_unsigned_iff)
  then have "even (unat a div 2 ^ n)" "odd (unat b div 2 ^ n)" using n by blast+
  ultimately have "unat a div 2 ^ n < unat b div 2 ^ n" by (elim evenE oddE) simp
  then have "\<not> unat b \<le> unat a" using div_le_mono [of "unat b" "unat a" "2 ^ n"] by linarith
  then show "a < b" by (simp add: word_less_nat_alt)
qed

lemma takeWhile_rev_upt:
  "i < n \<Longrightarrow> P i \<Longrightarrow> (\<And>j. i < j \<Longrightarrow> j < n \<Longrightarrow> \<not> P j) \<Longrightarrow> length (takeWhile (\<lambda>j. \<not> P j) (rev [0..<n])) = n - 1 - i"
proof (induction n)
  case (Suc n)
  then show ?case by (cases "i = n") auto
qed simp

lemma first_diff_bit_ok:
  assumes "a \<noteq> b"
  shows "unat (first_diff_bit a b) < 64" "kbit a (unat (first_diff_bit a b)) \<noteq> kbit b (unat (first_diff_bit a b))"
    "\<And>j. j < unat (first_diff_bit a b) \<Longrightarrow> kbit a j = kbit b j"
proof -
  define d where "d = (LEAST j. j < 64 \<and> kbit a j \<noteq> kbit b j)"
  have ex: "\<exists>j. j < 64 \<and> kbit a j \<noteq> kbit b j" using assms kbit_eqI by blast
  have d: "d < 64" "kbit a d \<noteq> kbit b d" using LeastI_ex [OF ex] by (simp_all add: d_def)
  have below: "kbit a j = kbit b j" if "j < d" for j
    using not_less_Least [OF that [unfolded d_def]] that d(1) by auto
  have x: "bit (a XOR b) (63 - j) \<longleftrightarrow> kbit a j \<noteq> kbit b j" for j by (simp add: bit_xor_iff kbit_def)
  have "length (takeWhile (\<lambda>j. \<not> bit (a XOR b) j) (rev [0..<64])) = 64 - 1 - (63 - d)"
  proof (rule takeWhile_rev_upt)
    show "63 - d < 64" by simp
    show "bit (a XOR b) (63 - d)" using x d(2) by simp
    fix j assume j: "63 - d < j" "j < (64 :: nat)"
    then have "63 - (63 - j) = j" "63 - j < d" by linarith+
    then show "\<not> bit (a XOR b) j" using x [of "63 - j"] below [of "63 - j"] by (simp only:)
  qed
  then have "countl_zero (a XOR b) = d" using d(1) by (simp add: countl_zero_def)
  then have u: "unat (first_diff_bit a b) = d" using d(1) by (simp add: first_diff_bit_def unat_word_of_nat)
  show "unat (first_diff_bit a b) < 64" "kbit a (unat (first_diff_bit a b)) \<noteq> kbit b (unat (first_diff_bit a b))"
    "\<And>j. j < unat (first_diff_bit a b) \<Longrightarrow> kbit a j = kbit b j" using d below by (simp_all add: u)
qed

end
