(* ===== verification/Crit_Bit.thy ===== *)
theory Crit_Bit imports Hot_Pool begin

text \<open>
  Crit-bit trees: what the HOT/Patricia pool stands for.  A tree carries the pool indices of its nodes, so that the
  pool's operations are edits of it.  Well-formedness (\<open>ct_ok\<close>) states what the code's comments call I1 to I4: two
  subtrees, the bit position decides the side, and all keys below a node agree on the more significant bits.  That the
  positions grow on every path (I2), that the tree is at most 64 high and that its records are in key order follow.
\<close>

datatype crit_tree = Tip nat u64 u64 | Fork nat nat crit_tree crit_tree

primrec ct_recs :: "crit_tree \<Rightarrow> slot list" where
  "ct_recs (Tip i k v) = [(k, v)]"
| "ct_recs (Fork i c l r) = ct_recs l @ ct_recs r"

primrec ct_leaves :: "crit_tree \<Rightarrow> nat list" where
  "ct_leaves (Tip i k v) = [i]"
| "ct_leaves (Fork i c l r) = ct_leaves l @ ct_leaves r"

primrec ct_forks :: "crit_tree \<Rightarrow> nat list" where
  "ct_forks (Tip i k v) = []"
| "ct_forks (Fork i c l r) = i # ct_forks l @ ct_forks r"

primrec ct_height :: "crit_tree \<Rightarrow> nat" where
  "ct_height (Tip i k v) = 0"
| "ct_height (Fork i c l r) = 1 + max (ct_height l) (ct_height r)"

primrec is_fork :: "crit_tree \<Rightarrow> bool" where
  "is_fork (Tip i k v) = False"
| "is_fork (Fork i c l r) = True"

abbreviation ct_keys :: "crit_tree \<Rightarrow> u64 set" where "ct_keys t \<equiv> fst ` set (ct_recs t)"

definition agree :: "nat \<Rightarrow> u64 set \<Rightarrow> bool" where
  "agree c K \<longleftrightarrow> (\<forall>a \<in> K. \<forall>b \<in> K. \<forall>j < c. kbit a j = kbit b j)"

primrec ct_ok :: "crit_tree \<Rightarrow> bool" where
  "ct_ok (Tip i k v) \<longleftrightarrow> True"
| "ct_ok (Fork i c l r) \<longleftrightarrow> ct_ok l \<and> ct_ok r \<and> c < 64 \<and> (\<forall>k \<in> ct_keys l. \<not> kbit k c) \<and> (\<forall>k \<in> ct_keys r. kbit k c)
     \<and> agree c (ct_keys l \<union> ct_keys r)"

lemma ct_okD:
  assumes "ct_ok (Fork i c l r)"
  shows "ct_ok l" "ct_ok r" "c < 64" "k \<in> ct_keys l \<Longrightarrow> \<not> kbit k c" "k \<in> ct_keys r \<Longrightarrow> kbit k c"
    "agree c (ct_keys l \<union> ct_keys r)"
  using assms unfolding ct_ok.simps by auto

lemma ct_recs_nonempty [simp]: "ct_recs t \<noteq> []"
  by (induction t) simp_all

lemma ct_keys_nonempty: "\<exists>k. k \<in> ct_keys t"
  by (cases "ct_recs t") auto

lemma agree_mono: "agree c K \<Longrightarrow> c' \<le> c \<Longrightarrow> K' \<subseteq> K \<Longrightarrow> agree c' K'"
  unfolding agree_def by (meson less_le_trans subsetD)

lemma agreeD: "agree c K \<Longrightarrow> a \<in> K \<Longrightarrow> b \<in> K \<Longrightarrow> j < c \<Longrightarrow> kbit a j = kbit b j"
  unfolding agree_def by blast

section \<open>Shape\<close>

text \<open>Bit positions grow on every path.\<close>
lemma ct_bits_grow:
  assumes "ct_ok (Fork i c l r)" "s \<in> {l, r}" "s = Fork i' c' l' r'"
  shows "c < c'"
proof (rule ccontr)
  assume n: "\<not> c < c'"
  obtain a where a: "a \<in> ct_keys l'" using ct_keys_nonempty ..
  obtain b where b: "b \<in> ct_keys r'" using ct_keys_nonempty ..
  note f = ct_okD [OF assms(1)]
  have lr: "s = l \<or> s = r" using assms(2) by blast
  have "agree c (ct_keys l)" "agree c (ct_keys r)" by (rule agree_mono [OF f(6)], simp, simp)+
  then have ok: "ct_ok s" "agree c (ct_keys s)" "(\<forall>k \<in> ct_keys s. kbit k c) \<or> (\<forall>k \<in> ct_keys s. \<not> kbit k c)"
    using lr f(1,2,4,5) by metis+
  have "ct_keys s = ct_keys l' \<union> ct_keys r'" by (simp add: assms(3) image_Un)
  moreover have "\<not> kbit a c'" "kbit b c'" using a b ok(1) unfolding assms(3) ct_ok.simps by blast+
  ultimately have ab: "a \<in> ct_keys s" "b \<in> ct_keys s" "\<not> kbit a c'" "kbit b c'" using a b by simp_all
  show False
  proof (cases "c' = c")
    case True
    then show False using ok(3) ab by blast
  next
    case False
    then have "c' < c" using n by simp
    then show False using agreeD [OF ok(2) ab(1,2)] ab(3,4) by blast
  qed
qed

lemma ct_height_fork: "ct_ok t \<Longrightarrow> t = Fork i c l r \<Longrightarrow> ct_height t + c \<le> 64"
proof (induction t arbitrary: i c l r)
  case (Fork j d a b)
  have e: "j = i" "d = c" "a = l" "b = r" using Fork.prems(2) by simp_all
  have ok: "ct_ok (Fork i c l r)" "ct_ok l" "ct_ok r" "c < 64" using Fork.prems by simp_all
  have sub: "ct_height s + c < 64" if "s \<in> {l, r}" for s
  proof (cases s)
    case (Tip i' k v)
    then show ?thesis using ok(4) by simp
  next
    case (Fork i' c' l' r')
    then have "ct_height s + c' \<le> 64"
      using that Fork.IH(1) [of i' c' l' r'] Fork.IH(2) [of i' c' l' r'] ok(2,3) by (auto simp: e)
    then show ?thesis using ct_bits_grow [OF ok(1) that Fork] by linarith
  qed
  show ?case using sub [of l] sub [of r] by (simp add: e max_def)
qed simp

lemma ct_height_ok: "ct_ok t \<Longrightarrow> ct_height t \<le> 64"
  using ct_height_fork [of t] by (cases t) fastforce+

text \<open>The records are in key order.\<close>
lemma ct_sorted: "ct_ok t \<Longrightarrow> sorted_wrt (<) (map fst (ct_recs t))"
proof (induction t)
  case (Fork i c l r)
  have "a < b" if "a \<in> ct_keys l" "b \<in> ct_keys r" for a b
    using Fork.prems that agreeD [of c _ a b] by (intro kbit_less [of c]) auto
  then show ?case using Fork by (auto simp: sorted_wrt_append)
qed simp

lemma ct_distinct: "ct_ok t \<Longrightarrow> distinct (map fst (ct_recs t))"
  using ct_sorted by (simp add: strict_sorted_iff)

lemma ct_count: "length (ct_leaves t) = length (ct_recs t)" "length (ct_recs t) = Suc (length (ct_forks t))"
  by (induction t) simp_all

section \<open>Search\<close>

text \<open>The leaf a key leads to.\<close>
primrec ct_cand :: "u64 \<Rightarrow> crit_tree \<Rightarrow> nat \<times> u64 \<times> u64" where
  "ct_cand k (Tip i k' v) = (i, k', v)"
| "ct_cand k (Fork i c l r) = (if kbit k c then ct_cand k r else ct_cand k l)"

lemma ct_cand_in: "ct_cand k t = (i, k', v) \<Longrightarrow> i \<in> set (ct_leaves t) \<and> (k', v) \<in> set (ct_recs t)"
  by (induction t) (auto split: if_splits)

lemma ct_cand_key: "ct_ok t \<Longrightarrow> k \<in> ct_keys t \<Longrightarrow> fst (snd (ct_cand k t)) = k"
  by (induction t) (auto simp: image_Un)

lemma ct_lookup:
  assumes "ct_ok t" "ct_cand k t = (i, k', v)"
  shows "map_of (ct_recs t) k = (if k' = k then Some v else None)"
proof (cases "k' = k")
  case True
  then show ?thesis using ct_cand_in [OF assms(2)] ct_distinct [OF assms(1)] by (simp add: map_of_eq_Some_iff)
next
  case False
  then have "k \<notin> ct_keys t" using ct_cand_key [OF assms(1), of k] assms(2) by auto
  then show ?thesis using False by (simp add: map_of_eq_None_iff)
qed

section \<open>Update\<close>

primrec ct_set :: "u64 \<Rightarrow> u64 \<Rightarrow> crit_tree \<Rightarrow> crit_tree" where
  "ct_set k v (Tip i k' w) = Tip i k' v"
| "ct_set k v (Fork i c l r) = (if kbit k c then Fork i c l (ct_set k v r) else Fork i c (ct_set k v l) r)"

lemma ct_set_ids [simp]: "ct_leaves (ct_set k v t) = ct_leaves t" "ct_forks (ct_set k v t) = ct_forks t"
  by (induction t) simp_all

lemma ct_set_keys [simp]: "map fst (ct_recs (ct_set k v t)) = map fst (ct_recs t)"
  by (induction t) simp_all

lemma ct_set_keyset [simp]: "ct_keys (ct_set k v t) = ct_keys t"
  using ct_set_keys [of k v t] by (metis list.set_map)

lemma ct_set_ok: "ct_ok t \<Longrightarrow> ct_ok (ct_set k v t)"
  by (induction t) simp_all

lemma ct_set_recs: "ct_ok t \<Longrightarrow> k \<in> ct_keys t \<Longrightarrow> set (ct_recs (ct_set k v t)) = Set.insert (k, v) {x \<in> set (ct_recs t). fst x \<noteq> k}"
proof (induction t)
  case (Fork i c l r)
  show ?case
  proof (cases "kbit k c")
    case True
    then have "k \<in> ct_keys r" "\<forall>x \<in> set (ct_recs l). fst x \<noteq> k" using Fork.prems by auto
    then show ?thesis using True Fork by auto
  next
    case False
    then have "k \<in> ct_keys l" "\<forall>x \<in> set (ct_recs r). fst x \<noteq> k" using Fork.prems by auto
    then show ?thesis using False Fork by auto
  qed
qed auto

lemma ct_set_map:
  assumes "ct_ok t" "k \<in> ct_keys t"
  shows "map_of (ct_recs (ct_set k v t)) = (map_of (ct_recs t))(k \<mapsto> v)"
  using map_of_distinct_insert [OF ct_distinct [OF assms(1)] ct_distinct [OF ct_set_ok [OF assms(1)]] ct_set_recs [OF assms]] .

section \<open>Insertion\<close>

definition ct_join :: "nat \<Rightarrow> u64 \<Rightarrow> u64 \<Rightarrow> nat \<Rightarrow> nat \<Rightarrow> crit_tree \<Rightarrow> crit_tree" where
  "ct_join d k v li fi t = (if kbit k d then Fork fi d t (Tip li k v) else Fork fi d (Tip li k v) t)"

primrec ct_put :: "nat \<Rightarrow> u64 \<Rightarrow> u64 \<Rightarrow> nat \<Rightarrow> nat \<Rightarrow> crit_tree \<Rightarrow> crit_tree" where
  "ct_put d k v li fi (Tip i k' w) = ct_join d k v li fi (Tip i k' w)"
| "ct_put d k v li fi (Fork i c l r) =
     (if c < d then (if kbit k c then Fork i c l (ct_put d k v li fi r) else Fork i c (ct_put d k v li fi l) r)
      else ct_join d k v li fi (Fork i c l r))"

lemma ct_join_recs: "set (ct_recs (ct_join d k v li fi t)) = Set.insert (k, v) (set (ct_recs t))"
  "mset (ct_leaves (ct_join d k v li fi t)) = add_mset li (mset (ct_leaves t))"
  "mset (ct_forks (ct_join d k v li fi t)) = add_mset fi (mset (ct_forks t))"
  by (auto simp: ct_join_def)

lemma ct_put_recs: "set (ct_recs (ct_put d k v li fi t)) = Set.insert (k, v) (set (ct_recs t))"
  "mset (ct_leaves (ct_put d k v li fi t)) = add_mset li (mset (ct_leaves t))"
  "mset (ct_forks (ct_put d k v li fi t)) = add_mset fi (mset (ct_forks t))"
  by (induction t) (auto simp: ct_join_recs)

lemma ct_join_ok:
  assumes "ct_ok t" "e \<in> ct_keys t" "agree (Suc d) (ct_keys t)" "d < 64" "kbit e d \<noteq> kbit k d" "\<And>j. j < d \<Longrightarrow> kbit e j = kbit k j"
  shows "ct_ok (ct_join d k v li fi t)"
proof -
  have a: "kbit x j = kbit e j" if "x \<in> ct_keys t" "j \<le> d" for x j
    using agreeD [OF assms(3) that(1) assms(2)] that(2) by simp
  have k: "kbit x j = kbit k j" if "x \<in> ct_keys t" "j < d" for x j using a [OF that(1)] assms(6) that(2) by simp
  have "agree d (ct_keys t \<union> {k})"
    unfolding agree_def using k by (metis Un_iff singletonD)
  then have "agree d (ct_keys t \<union> ct_keys (Tip li k v))" "agree d (ct_keys (Tip li k v) \<union> ct_keys t)" by (simp_all add: Un_commute)
  moreover have "kbit x d \<longleftrightarrow> \<not> kbit k d" if "x \<in> ct_keys t" for x using a [OF that] assms(5) by auto
  ultimately show ?thesis using assms(1,4) by (simp add: ct_join_def)
qed

lemma ct_put_ok:
  assumes "fst (snd (ct_cand k t)) = e" "d < 64" "kbit e d \<noteq> kbit k d" "\<And>j. j < d \<Longrightarrow> kbit e j = kbit k j"
  shows "ct_ok t \<Longrightarrow> ct_ok (ct_put d k v li fi t)"
  using assms(1)
proof (induction t)
  case (Tip i k' w)
  have "e \<in> ct_keys (Tip i k' w)" "agree (Suc d) (ct_keys (Tip i k' w))" using Tip by (simp_all add: agree_def)
  from ct_join_ok [OF Tip(1) this assms(2,3,4)] show ?case by simp
next
  case (Fork i c l r)
  define s where "s = (if kbit k c then r else l)"
  have cs: "ct_cand k (Fork i c l r) = ct_cand k s" by (simp add: s_def)
  have e: "e \<in> ct_keys s"
    using Fork.prems(2) ct_cand_in [of k s] unfolding cs by (cases "ct_cand k s") force
  then have en: "e \<in> ct_keys l \<union> ct_keys r" by (auto simp: s_def split: if_splits)
  have ag: "agree c (ct_keys l \<union> ct_keys r)" using Fork.prems(1) by simp
  have side: "kbit e c = kbit k c" using e Fork.prems(1) by (auto simp: s_def split: if_splits)
  show ?case
  proof (cases "c < d")
    case True
    have "kbit x j = kbit k j" if "x \<in> ct_keys l \<union> ct_keys r" "j < c" for x j
      using agreeD [OF ag that(1) en that(2)] assms(4) [of j] that(2) True by simp
    then have "agree c (ct_keys l \<union> ct_keys r \<union> {k})" unfolding agree_def by (metis Un_iff singletonD)
    then have "agree c (Set.insert k (ct_keys l) \<union> ct_keys r)" "agree c (ct_keys l \<union> Set.insert k (ct_keys r))"
      by (simp_all add: Un_commute Un_insert_right)
    then show ?thesis using Fork True by (auto simp: ct_put_recs s_def)
  next
    case False
    then have "d < c" using side assms(3) by (cases "c = d") auto
    then have "agree (Suc d) (ct_keys (Fork i c l r))"
      by (intro agree_mono [OF ag]) (simp_all add: image_Un)
    moreover have "e \<in> ct_keys (Fork i c l r)" using en by (simp add: image_Un)
    ultimately have "ct_ok (ct_join d k v li fi (Fork i c l r))"
      by (intro ct_join_ok [OF Fork.prems(1) _ _ assms(2,3,4)])
    then show ?thesis using False by simp
  qed
qed

lemma ct_put_map:
  assumes "ct_ok t" "ct_ok (ct_put d k v li fi t)" "k \<notin> ct_keys t"
  shows "map_of (ct_recs (ct_put d k v li fi t)) = (map_of (ct_recs t))(k \<mapsto> v)"
proof (rule map_of_distinct_insert [OF ct_distinct [OF assms(1)] ct_distinct [OF assms(2)]])
  have "{x \<in> set (ct_recs t). fst x \<noteq> k} = set (ct_recs t)" using assms(3) by force
  then show "set (ct_recs (ct_put d k v li fi t)) = Set.insert (k, v) {x \<in> set (ct_recs t). fst x \<noteq> k}"
    by (simp only: ct_put_recs)
qed

section \<open>Erasure\<close>

text \<open>The leaf of the key goes with its parent, whose other child moves up.\<close>
primrec ct_del :: "u64 \<Rightarrow> crit_tree \<Rightarrow> crit_tree" where
  "ct_del k (Tip i k' v) = Tip i k' v"
| "ct_del k (Fork i c l r) =
     (if kbit k c then (if is_fork r then Fork i c l (ct_del k r) else l)
      else (if is_fork l then Fork i c (ct_del k l) r else r))"

text \<open>The fork that goes.\<close>
primrec ct_last :: "u64 \<Rightarrow> crit_tree \<Rightarrow> nat" where
  "ct_last k (Tip i k' v) = 0"
| "ct_last k (Fork i c l r) =
     (if kbit k c then (if is_fork r then ct_last k r else i) else (if is_fork l then ct_last k l else i))"

lemma ct_del_sub: "set (ct_recs (ct_del k t)) \<subseteq> set (ct_recs t)"
  by (induction t) auto

lemma ct_del_ok: "ct_ok t \<Longrightarrow> ct_ok (ct_del k t)"
proof (induction t)
  case (Fork i c l r)
  have s: "ct_keys (ct_del k l) \<subseteq> ct_keys l" "ct_keys (ct_del k r) \<subseteq> ct_keys r" by (intro image_mono ct_del_sub)+
  have ag: "agree c (ct_keys l \<union> ct_keys r)" using Fork.prems by simp
  have "agree c (ct_keys (ct_del k l) \<union> ct_keys r)" "agree c (ct_keys l \<union> ct_keys (ct_del k r))"
    by (intro agree_mono [OF ag order_refl] Un_mono s order_refl)+
  moreover have "\<forall>x \<in> ct_keys (ct_del k l). \<not> kbit x c" "\<forall>x \<in> ct_keys (ct_del k r). kbit x c"
    using ct_okD(4,5) [OF Fork.prems] set_mp [OF s(1)] set_mp [OF s(2)] by metis+
  ultimately show ?case using Fork by simp
qed simp

lemma ct_del_ids:
  assumes "is_fork t" "ct_cand k t = (li, e, w)"
  shows "mset (ct_leaves t) = add_mset li (mset (ct_leaves (ct_del k t)))"
    "mset (ct_forks t) = add_mset (ct_last k t) (mset (ct_forks (ct_del k t)))"
    "mset (ct_recs t) = add_mset (e, w) (mset (ct_recs (ct_del k t)))"
proof -
  have "is_fork t \<Longrightarrow> ct_cand k t = (li, e, w) \<Longrightarrow> mset (ct_leaves t) = add_mset li (mset (ct_leaves (ct_del k t)))
    \<and> mset (ct_forks t) = add_mset (ct_last k t) (mset (ct_forks (ct_del k t)))
    \<and> mset (ct_recs t) = add_mset (e, w) (mset (ct_recs (ct_del k t)))"
  proof (induction t)
    case (Fork i c l r)
    show ?case
    proof (cases "kbit k c")
      case True
      then show ?thesis using Fork by (cases r) auto
    next
      case False
      then show ?thesis using Fork by (cases l) auto
    qed
  qed simp
  then show "mset (ct_leaves t) = add_mset li (mset (ct_leaves (ct_del k t)))"
    "mset (ct_forks t) = add_mset (ct_last k t) (mset (ct_forks (ct_del k t)))"
    "mset (ct_recs t) = add_mset (e, w) (mset (ct_recs (ct_del k t)))" using assms by blast+
qed

lemma ct_del_map:
  assumes "ct_ok t" "is_fork t" "ct_cand k t = (li, k, w)"
  shows "map_of (ct_recs (ct_del k t)) = (map_of (ct_recs t))(k := None)"
proof (rule map_of_distinct_remove [OF ct_distinct [OF assms(1)] ct_distinct [OF ct_del_ok [OF assms(1)]]])
  note m = ct_del_ids(3) [OF assms(2,3)]
  have s: "set (ct_recs t) = Set.insert (k, w) (set (ct_recs (ct_del k t)))" using arg_cong [OF m, of set_mset] by simp
  have "mset (map fst (ct_recs t)) = add_mset k (mset (map fst (ct_recs (ct_del k t))))" using m by simp
  then have "k \<notin> ct_keys (ct_del k t)" using ct_distinct [OF assms(1)]
    by (metis distinct.simps(2) list.set_map mset.simps(2) mset_eq_imp_distinct_iff)
  then show "set (ct_recs (ct_del k t)) = {x \<in> set (ct_recs t). fst x \<noteq> k}" unfolding s by auto
qed

section \<open>Holes\<close>

text \<open>The subtree \<open>s\<close> that hangs on side \<open>b\<close> of the fork \<open>f\<close>, and the tree as a function of it.\<close>
inductive ct_hole :: "crit_tree \<Rightarrow> nat \<Rightarrow> bool \<Rightarrow> crit_tree \<Rightarrow> (crit_tree \<Rightarrow> crit_tree) \<Rightarrow> bool" where
  here_right: "ct_hole (Fork i c l r) i True r (\<lambda>x. Fork i c l x)"
| here_left: "ct_hole (Fork i c l r) i False l (\<lambda>x. Fork i c x r)"
| down_right: "ct_hole r f b s g \<Longrightarrow> ct_hole (Fork i c l r) f b s (\<lambda>x. Fork i c l (g x))"
| down_left: "ct_hole l f b s g \<Longrightarrow> ct_hole (Fork i c l r) f b s (\<lambda>x. Fork i c (g x) r)"

lemma ct_hole_sub: "ct_hole t f b s g \<Longrightarrow>
  f \<in> set (ct_forks t) \<and> set (ct_forks s) \<subseteq> set (ct_forks t) \<and> set (ct_leaves s) \<subseteq> set (ct_leaves t)"
  by (induction rule: ct_hole.induct) auto

lemma ct_hole_fresh: "ct_hole t f b s g \<Longrightarrow> distinct (ct_forks t) \<Longrightarrow> f \<notin> set (ct_forks s)"
  by (induction rule: ct_hole.induct) auto

end
