(* ===== verification/Hot_Update.thy ===== *)
theory Hot_Update imports Hot_Map begin

text \<open>
  Insertion and erasure of the HOT/Patricia organ: the loops of \<^verbatim>\<open>insert_into\<close> and \<^verbatim>\<open>erase_from\<close> stop at a hole of
  the represented tree, \<^verbatim>\<open>set_child\<close> fills it, and the organ is interpreted in \<open>budget_map\<close>.
\<close>

section \<open>Filling a hole\<close>

lemma hp_set_child_read:
  "f < 2 ^ 56 \<Longrightarrow> hp_internals (hp_set_child (internal_ref f) (side b) x q) = (hp_internals q)[f :=
      (if b then (hp_internals q ! f)\<lparr>hi_child1 := x\<rparr> else (hp_internals q ! f)\<lparr>hi_child0 := x\<rparr>)]"
  by (auto simp: hp_set_child_def Let_def)

lemma hp_set_child_rest [simp]:
  "hp_leaves (hp_set_child r e x q) = hp_leaves q" "hp_fl_leaf (hp_set_child r e x q) = hp_fl_leaf q"
  "hp_fl_internal (hp_set_child r e x q) = hp_fl_internal q" "hp_size (hp_set_child r e x q) = hp_size q"
  "hp_root (hp_set_child r e x q) = hp_root q" "length (hp_internals (hp_set_child r e x q)) = length (hp_internals q)"
  by (auto simp: hp_set_child_def Let_def)

lemma ct_hole_set_child:
  assumes "hp_small q" "hp_rep q s' x" "f \<notin> set (ct_forks s')" "f < length (hp_internals q)"
  shows "ct_hole t f b s g \<Longrightarrow> hp_rep q t ref \<Longrightarrow> distinct (ct_forks t) \<Longrightarrow>
    hp_rep (hp_set_child (internal_ref f) (side b) x q) (g s') ref"
proof -
  let ?q = "hp_set_child (internal_ref f) (side b) x q"
  have f: "f < 2 ^ 56" using assms(1,4) by (simp add: hp_small_def)
  note R = hp_set_child_read [OF f, of b x q]
  have fr: "hp_rep q u y \<Longrightarrow> f \<notin> set (ct_forks u) \<Longrightarrow> hp_rep ?q u y" for u y
    by (rule hp_rep_cong) (auto simp: R nth_update_cases)
  have new: "hp_rep ?q s' x" using fr assms(2,3) by blast
  have f_at: "hp_internals ?q ! f = (if b then (hp_internals q ! f)\<lparr>hi_child1 := x\<rparr> else (hp_internals q ! f)\<lparr>hi_child0 := x\<rparr>)"
    using assms(4) by (simp add: R)
  have other: "i \<noteq> f \<Longrightarrow> hp_internals ?q ! i = hp_internals q ! i" for i by (simp add: R)
  show "hp_rep ?q (g s') ref" if "ct_hole t f b s g" "hp_rep q t ref" "distinct (ct_forks t)"
    using that new fr f_at other
  proof (induction arbitrary: ref rule: ct_hole.induct)
    case (down_right r f b s g i c l)
    have "i \<noteq> f" "f \<notin> set (ct_forks l)" using ct_hole_sub [OF down_right.hyps] down_right.prems(2) by auto
    then show ?case using down_right by simp
  next
    case (down_left l f b s g i c r)
    have "i \<noteq> f" "f \<notin> set (ct_forks r)" using ct_hole_sub [OF down_left.hyps] down_left.prems(2) by auto
    then show ?case using down_left by simp
  qed auto
qed

lemma hp_redescend_ok:
  assumes "hp_small p"
  shows "hp_rep p t ref \<Longrightarrow> ct_ok t \<Longrightarrow>
    (\<forall>v li fi. ct_put (unat nb) k v li fi t = ct_join (unat nb) k v li fi t) \<and> hp_redescend p k nb pa pd ref = Some (pa, pd, ref)
    \<or> (\<exists>f b s g r'. hp_redescend p k nb pa pd ref = Some (internal_ref f, side b, r') \<and> hp_rep p s r' \<and> ct_hole t f b s g
        \<and> (\<forall>v li fi. ct_put (unat nb) k v li fi t = g (ct_join (unat nb) k v li fi s)))"
proof (induction t arbitrary: ref pa pd)
  case (Tip i k' w)
  then show ?case using hp_rep_tip(1) [OF assms Tip(1)] by (subst hp_redescend.simps) simp
next
  case (Fork i c l r)
  note F = hp_rep_fork [OF assms Fork.prems(1,2)]
  note ok = ct_okD(1,2) [OF Fork.prems(2)]
  have lt: "crit_bit p ref < nb \<longleftrightarrow> c < unat nb" by (simp add: word_less_nat_alt F(3))
  have ref: "ref = internal_ref i" using Fork.prems(1) by simp
  show ?case
  proof (cases "c < unat nb")
    case False
    then show ?thesis using lt by (subst hp_redescend.simps) simp
  next
    case True
    then have step: "hp_redescend p k nb pa pd ref = hp_redescend p k nb (internal_ref i) (side (kbit k c)) (hp_child p ref (side (kbit k c)))"
      using lt F(1,4) by (subst hp_redescend.simps) (simp add: ref)
    show ?thesis
    proof (cases "kbit k c")
      case kb: True
      show ?thesis
        using Fork.IH(2) [OF F(5) [where b = True, unfolded if_True] ok(2), of "internal_ref i" "side True"]
          F(5) [where b = True, unfolded if_True] True kb
        unfolding step by (auto intro: ct_hole.intros) (metis ct_hole.intros)+
    next
      case kb: False
      show ?thesis
        using Fork.IH(1) [OF F(5) [where b = False, unfolded if_False] ok(1), of "internal_ref i" "side False"]
          F(5) [where b = False, unfolded if_False] True kb
        unfolding step by (auto intro: ct_hole.intros) (metis ct_hole.intros)+
    qed
  qed
qed

section \<open>New nodes\<close>

lemma new_leaf_ok:
  assumes "slots used (hp_fl_leaf p) (length (hp_leaves p))" "new_leaf k v p = (x, q)"
  shows "\<exists>i. x = leaf_ref i \<and> hp_rep q (Tip i k v) x
      \<and> (\<forall>u. set (ct_leaves u) \<subseteq> set used \<longrightarrow> (\<forall>ref. hp_rep p u ref \<longrightarrow> hp_rep q u ref))
      \<and> (\<forall>u. mset u = add_mset i (mset used) \<longrightarrow> slots u (hp_fl_leaf q) (length (hp_leaves q)))"
    "length (hp_leaves q) \<le> Suc (length (hp_leaves p))" "hp_internals q = hp_internals p" "hp_fl_internal q = hp_fl_internal p"
    "hp_root q = hp_root p" "hp_size q = hp_size p"
proof -
  define i where "i = (if hp_fl_leaf p \<noteq> [] then last (hp_fl_leaf p) else length (hp_leaves p))"
  have q: "x = leaf_ref i" "hp_fl_leaf q = butlast (hp_fl_leaf p)"
    "length (hp_leaves q) = (if hp_fl_leaf p \<noteq> [] then length (hp_leaves p) else Suc (length (hp_leaves p)))"
    "\<And>j. j < length (hp_leaves p) \<Longrightarrow> j \<noteq> i \<Longrightarrow> hp_leaves q ! j = hp_leaves p ! j"
    using assms(2) by (auto simp: new_leaf_def Let_def leaf_ref_def i_def nth_append split: if_splits)
  show c: "hp_internals q = hp_internals p" "hp_fl_internal q = hp_fl_internal p" "hp_root q = hp_root p" "hp_size q = hp_size p"
    using assms(2) by (auto simp: new_leaf_def Let_def split: if_splits)
  show "length (hp_leaves q) \<le> Suc (length (hp_leaves p))" using q(3) by simp
  note S = slots_take [OF assms(1) i_def q(2,3)]
  have at: "hp_leaves q ! i = \<lparr>hl_key = k, hl_val = v\<rparr>"
    using assms(2) S(2) unfolding q(3) by (auto simp: new_leaf_def Let_def i_def nth_append split: if_splits)
  have "hp_rep q u ref" if "set (ct_leaves u) \<subseteq> set used" "hp_rep p u ref" for u ref
    by (rule hp_rep_cong [OF that(2)]) (use that(1) S(1) q(3,4) c(1) in auto)
  then show "\<exists>i. x = leaf_ref i \<and> hp_rep q (Tip i k v) x
      \<and> (\<forall>u. set (ct_leaves u) \<subseteq> set used \<longrightarrow> (\<forall>ref. hp_rep p u ref \<longrightarrow> hp_rep q u ref))
      \<and> (\<forall>u. mset u = add_mset i (mset used) \<longrightarrow> slots u (hp_fl_leaf q) (length (hp_leaves q)))"
    using q(1) at S(2,3) by (intro exI [of _ i]) simp
qed

lemma new_internal_ok:
  assumes "slots used (hp_fl_internal p) (length (hp_internals p))" "new_internal nb c0 c1 p = (x, q)" "unat nb < 64"
  shows "\<exists>i. x = internal_ref i \<and> i \<notin> set used \<and> i < length (hp_internals q)
      \<and> (\<forall>l r. hp_rep q l c0 \<longrightarrow> hp_rep q r c1 \<longrightarrow> hp_rep q (Fork i (unat nb) l r) x)
      \<and> (\<forall>u. set (ct_forks u) \<subseteq> set used \<longrightarrow> (\<forall>ref. hp_rep p u ref \<longrightarrow> hp_rep q u ref))
      \<and> (\<forall>u. mset u = add_mset i (mset used) \<longrightarrow> slots u (hp_fl_internal q) (length (hp_internals q)))"
    "length (hp_internals q) \<le> Suc (length (hp_internals p))" "hp_leaves q = hp_leaves p" "hp_fl_leaf q = hp_fl_leaf p"
    "hp_root q = hp_root p" "hp_size q = hp_size p"
proof -
  define i where "i = (if hp_fl_internal p \<noteq> [] then last (hp_fl_internal p) else length (hp_internals p))"
  have q: "x = internal_ref i" "hp_fl_internal q = butlast (hp_fl_internal p)"
    "length (hp_internals q) = (if hp_fl_internal p \<noteq> [] then length (hp_internals p) else Suc (length (hp_internals p)))"
    "\<And>j. j < length (hp_internals p) \<Longrightarrow> j \<noteq> i \<Longrightarrow> hp_internals q ! j = hp_internals p ! j"
    using assms(2) by (auto simp: new_internal_def Let_def internal_ref_def i_def nth_append split: if_splits)
  show c: "hp_leaves q = hp_leaves p" "hp_fl_leaf q = hp_fl_leaf p" "hp_root q = hp_root p" "hp_size q = hp_size p"
    using assms(2) by (auto simp: new_internal_def Let_def split: if_splits)
  show "length (hp_internals q) \<le> Suc (length (hp_internals p))" using q(3) by simp
  note S = slots_take [OF assms(1) i_def q(2,3)]
  have at: "hp_internals q ! i = \<lparr>hi_crit_bit = ucast nb, hi_child0 = c0, hi_child1 = c1\<rparr>"
    using assms(2) S(2) unfolding q(3) by (auto simp: new_internal_def Let_def i_def nth_append split: if_splits)
  have cb: "unat (ucast nb :: u8) = unat nb" using assms(3) by (simp add: unsigned_ucast_eq take_bit_nat_eq_self)
  have "hp_rep q u ref" if "set (ct_forks u) \<subseteq> set used" "hp_rep p u ref" for u ref
    by (rule hp_rep_cong [OF that(2)]) (use that(1) S(1) q(3,4) c(1) in auto)
  then show "\<exists>i. x = internal_ref i \<and> i \<notin> set used \<and> i < length (hp_internals q)
      \<and> (\<forall>l r. hp_rep q l c0 \<longrightarrow> hp_rep q r c1 \<longrightarrow> hp_rep q (Fork i (unat nb) l r) x)
      \<and> (\<forall>u. set (ct_forks u) \<subseteq> set used \<longrightarrow> (\<forall>ref. hp_rep p u ref \<longrightarrow> hp_rep q u ref))
      \<and> (\<forall>u. mset u = add_mset i (mset used) \<longrightarrow> slots u (hp_fl_internal q) (length (hp_internals q)))"
    using q(1) at S cb by (intro exI [of _ i]) simp
qed

section \<open>Insertion\<close>

lemma hp_link_rest [simp]:
  "hp_leaves (link_parent a b c p) = hp_leaves p" "hp_fl_leaf (link_parent a b c p) = hp_fl_leaf p"
  "hp_fl_internal (link_parent a b c p) = hp_fl_internal p" "hp_size (link_parent a b c p) = hp_size p"
  "length (hp_internals (link_parent a b c p)) = length (hp_internals p)"
  by (simp_all add: link_parent_def hp_set_root_def)

lemma hp_size_rest [simp]:
  "hp_leaves (hp_inc_size p) = hp_leaves p" "hp_internals (hp_inc_size p) = hp_internals p" "hp_fl_leaf (hp_inc_size p) = hp_fl_leaf p"
  "hp_fl_internal (hp_inc_size p) = hp_fl_internal p" "hp_root (hp_inc_size p) = hp_root p" "hp_size (hp_inc_size p) = Suc (hp_size p)"
  by (simp_all add: hp_inc_size_def)

lemma hp_first_ok:
  assumes "hp_bare p"
  shows "\<exists>q t. hp_insert k v p = Some q \<and> hp_tree q t \<and> ct_recs t = [(k, v)] \<and> length (hp_leaves q) \<le> Suc (length (hp_leaves p))
    \<and> length (hp_internals q) = length (hp_internals p)"
proof -
  have p: "slots [] (hp_fl_leaf p) (length (hp_leaves p))" "slots [] (hp_fl_internal p) (length (hp_internals p))" "hp_size p = 0"
    "hp_root p = hp_nil" using assms by (simp_all add: hp_bare_def)
  obtain x q where n: "new_leaf k v p = (x, q)" by (cases "new_leaf k v p")
  note N = new_leaf_ok [OF p(1) n]
  obtain i where i: "hp_rep q (Tip i k v) x" "slots [i] (hp_fl_leaf q) (length (hp_leaves q))" using N(1) by auto
  have "hp_insert k v p = Some (hp_inc_size (hp_set_root x q))" by (simp add: hp_insert_def p(4) n)
  moreover have "hp_tree (hp_inc_size (hp_set_root x q)) (Tip i k v)"
    using i p(2,3) N by (simp add: hp_tree_def hp_set_root_def)
  ultimately show ?thesis using N(2,3) by (intro exI [of _ "hp_inc_size (hp_set_root x q)"] exI [of _ "Tip i k v"])
    (simp add: hp_set_root_def)
qed

lemma hp_update_ok:
  assumes "hp_small p" "ct_cand k t = (i, k', w)"
  shows "hp_rep p t ref \<Longrightarrow> ct_ok t \<Longrightarrow> distinct (ct_leaves t) \<Longrightarrow> hp_rep (set_leaf_value (leaf_ref i) v p) (ct_set k v t) ref"
  using assms(2)
proof (induction t arbitrary: ref)
  case (Tip j a b)
  then show ?case using assms(1) by (auto simp: set_leaf_value_def hp_small_def)
next
  case (Fork j c l r)
  let ?q = "set_leaf_value (leaf_ref i) v p"
  note F = hp_rep_fork [OF assms(1) Fork.prems(1,2)]
  have "i < length (hp_leaves p)" using ct_cand_in [OF Fork.prems(4)] hp_rep_bound [OF Fork.prems(1)] by blast
  then have i: "i < 2 ^ 56" using assms(1) by (simp add: hp_small_def)
  have q: "hp_internals ?q = hp_internals p" "hp_leaves ?q = (hp_leaves p)[i := (hp_leaves p ! i)\<lparr>hl_val := v\<rparr>]"
    using i by (simp_all add: set_leaf_value_def)
  have fr: "hp_rep p u y \<Longrightarrow> i \<notin> set (ct_leaves u) \<Longrightarrow> hp_rep ?q u y" for u y
    by (rule hp_rep_cong) (auto simp: q nth_update_cases)
  have ch: "hp_rep p l (hi_child0 (hp_internals p ! j))" "hp_rep p r (hi_child1 (hp_internals p ! j))"
    "distinct (ct_leaves l)" "distinct (ct_leaves r)" "set (ct_leaves l) \<inter> set (ct_leaves r) = {}" using Fork.prems(1,3) by simp_all
  note ok = ct_okD(1,2) [OF Fork.prems(2)]
  show ?case
  proof (cases "kbit k c")
    case True
    then have cr: "ct_cand k r = (i, k', w)" using Fork.prems(4) by simp
    then have "i \<notin> set (ct_leaves l)" using ch(5) ct_cand_in [OF cr] by blast
    then show ?thesis using Fork.IH(2) [OF ch(2) ok(2) ch(4) cr] fr [OF ch(1)] Fork.prems(1) True by (simp add: q(1))
  next
    case False
    then have cl: "ct_cand k l = (i, k', w)" using Fork.prems(4) by simp
    then have "i \<notin> set (ct_leaves r)" using ch(5) ct_cand_in [OF cl] by blast
    then show ?thesis using Fork.IH(1) [OF ch(1) ok(1) ch(3) cl] fr [OF ch(2)] Fork.prems(1) False by (simp add: q(1))
  qed
qed

text \<open>The new bit's node over the subtree where the second descent stops.\<close>
lemma hp_join_ok:
  assumes "slots (ct_leaves t) (hp_fl_leaf p) (length (hp_leaves p))" "slots (ct_forks t) (hp_fl_internal p) (length (hp_internals p))"
    "unat nb < 64" "new_leaf k v p = (lf, p1)"
    "(if dir k nb = 1 then new_internal nb ref lf p1 else new_internal nb lf ref p1) = (fk, p2)"
    "hp_rep p s ref" "set (ct_leaves s) \<subseteq> set (ct_leaves t)" "set (ct_forks s) \<subseteq> set (ct_forks t)" "hp_rep p t root"
  shows "\<exists>li fi. hp_rep p2 (ct_join (unat nb) k v li fi s) fk \<and> hp_rep p2 t root \<and> fi \<notin> set (ct_forks t) \<and> fk = internal_ref fi
      \<and> (\<forall>u. mset (ct_leaves u) = add_mset li (mset (ct_leaves t)) \<longrightarrow> mset (ct_forks u) = add_mset fi (mset (ct_forks t)) \<longrightarrow>
           slots (ct_leaves u) (hp_fl_leaf p2) (length (hp_leaves p2)) \<and> slots (ct_forks u) (hp_fl_internal p2) (length (hp_internals p2)))"
    "length (hp_leaves p2) \<le> Suc (length (hp_leaves p))" "length (hp_internals p2) \<le> Suc (length (hp_internals p))"
    "hp_root p2 = hp_root p" "hp_size p2 = hp_size p"
proof -
  define b where "b = kbit k (unat nb)"
  define c0 c1 where "c0 = (if b then ref else lf)" and "c1 = (if b then lf else ref)"
  have ni: "new_internal nb c0 c1 p1 = (fk, p2)"
    using assms(5) dir_side [OF assms(3), of k] by (auto simp: b_def c0_def c1_def split: if_splits)
  note N = new_leaf_ok [OF assms(1,4)]
  have "slots (ct_forks t) (hp_fl_internal p1) (length (hp_internals p1))" using assms(2) N(3,4) by simp
  note M = new_internal_ok [OF this ni assms(3)]
  obtain li where li: "hp_rep p1 (Tip li k v) lf" "\<And>u ref. set (ct_leaves u) \<subseteq> set (ct_leaves t) \<Longrightarrow> hp_rep p u ref \<Longrightarrow> hp_rep p1 u ref"
    "\<And>u. mset u = add_mset li (mset (ct_leaves t)) \<Longrightarrow> slots u (hp_fl_leaf p1) (length (hp_leaves p1))" using N(1) by blast
  obtain fi where fi: "fk = internal_ref fi" "fi \<notin> set (ct_forks t)"
    "\<And>l r. hp_rep p2 l c0 \<Longrightarrow> hp_rep p2 r c1 \<Longrightarrow> hp_rep p2 (Fork fi (unat nb) l r) fk"
    "\<And>u ref. set (ct_forks u) \<subseteq> set (ct_forks t) \<Longrightarrow> hp_rep p1 u ref \<Longrightarrow> hp_rep p2 u ref"
    "\<And>u. mset u = add_mset fi (mset (ct_forks t)) \<Longrightarrow> slots u (hp_fl_internal p2) (length (hp_internals p2))" using M(1) by blast
  have "hp_rep p2 s ref" "hp_rep p2 t root" using assms(6,7,8,9) li(2) fi(4) by blast+
  moreover have "hp_rep p2 (Tip li k v) lf" using li(1) by (intro fi(4)) simp_all
  ultimately have "hp_rep p2 (ct_join (unat nb) k v li fi s) fk" "hp_rep p2 t root"
    using fi(3) by (simp_all add: ct_join_def b_def c0_def c1_def del: hp_rep.simps)
  then show "\<exists>li fi. hp_rep p2 (ct_join (unat nb) k v li fi s) fk \<and> hp_rep p2 t root \<and> fi \<notin> set (ct_forks t) \<and> fk = internal_ref fi
      \<and> (\<forall>u. mset (ct_leaves u) = add_mset li (mset (ct_leaves t)) \<longrightarrow> mset (ct_forks u) = add_mset fi (mset (ct_forks t)) \<longrightarrow>
           slots (ct_leaves u) (hp_fl_leaf p2) (length (hp_leaves p2)) \<and> slots (ct_forks u) (hp_fl_internal p2) (length (hp_internals p2)))"
    using fi(1,2,5) li(3) M(3,4) by (intro exI [of _ li] exI [of _ fi]) simp
  show "length (hp_leaves p2) \<le> Suc (length (hp_leaves p))" "length (hp_internals p2) \<le> Suc (length (hp_internals p))"
    "hp_root p2 = hp_root p" "hp_size p2 = hp_size p" using N M by simp_all
qed

lemma hp_insert_new:
  assumes "hp_inv (Suc n) p" "hp_tree p t" "ct_cand k t = (i, e, w)" "e \<noteq> k"
  shows "\<exists>q u. hp_insert k v p = Some q \<and> hp_tree q u \<and> map_of (ct_recs u) = (map_of (ct_recs t))(k \<mapsto> v)
    \<and> length (hp_leaves q) \<le> Suc (length (hp_leaves p)) \<and> length (hp_internals q) \<le> Suc (length (hp_internals p))"
proof -
  have s: "hp_small p" by (rule hp_inv_small [OF assms(1)])
  have t: "hp_rep p t (hp_root p)" "ct_ok t" "slots (ct_leaves t) (hp_fl_leaf p) (length (hp_leaves p))"
    "slots (ct_forks t) (hp_fl_internal p) (length (hp_internals p))" "hp_size p = length (ct_recs t)"
    using assms(2) by (simp_all add: hp_tree_def)
  define nb where "nb = first_diff_bit e k"
  define d where "d = unat nb"
  have d: "d < 64" "kbit e d \<noteq> kbit k d" "\<And>j. j < d \<Longrightarrow> kbit e j = kbit k j"
    using first_diff_bit_ok [OF assms(4)] by (simp_all add: d_def nb_def)
  have fresh: "k \<notin> ct_keys t" using ct_cand_key [OF t(2), of k] assms(3,4) by auto
  note D = hp_descend_ok [OF s t(1,2) assms(3)]
  have key: "leaf_key p (leaf_ref i) = e" using hp_rep_tip(4) [OF s] D by blast
  obtain pa pd ref s where re: "hp_redescend p k nb hp_nil 0 (hp_root p) = Some (pa, pd, ref)" "hp_rep p s ref"
    and hole: "pa = hp_nil \<and> s = t \<and> (\<forall>v li fi. ct_put d k v li fi t = ct_join d k v li fi s)
      \<or> (\<exists>f b g. pa = internal_ref f \<and> pd = side b \<and> ct_hole t f b s g \<and> (\<forall>v li fi. ct_put d k v li fi t = g (ct_join d k v li fi s)))"
    using hp_redescend_ok [OF s t(1,2), of nb k hp_nil 0] t(1) that unfolding d_def
    by (elim disjE exE conjE) blast+
  have sub: "set (ct_leaves s) \<subseteq> set (ct_leaves t)" "set (ct_forks s) \<subseteq> set (ct_forks t)" using hole ct_hole_sub by blast+
  obtain lf p1 where nl: "new_leaf k v p = (lf, p1)" by (cases "new_leaf k v p")
  obtain fk p2 where ni: "(if dir k nb = 1 then new_internal nb ref lf p1 else new_internal nb lf ref p1) = (fk, p2)"
    by (cases "if dir k nb = 1 then new_internal nb ref lf p1 else new_internal nb lf ref p1")
  note J = hp_join_ok [OF t(3,4) d(1) [unfolded d_def] nl ni re(2) sub t(1), folded d_def]
  obtain li fi where j: "hp_rep p2 (ct_join d k v li fi s) fk" "hp_rep p2 t (hp_root p)" "fi \<notin> set (ct_forks t)"
    "\<And>u. mset (ct_leaves u) = add_mset li (mset (ct_leaves t)) \<Longrightarrow> mset (ct_forks u) = add_mset fi (mset (ct_forks t)) \<Longrightarrow>
       slots (ct_leaves u) (hp_fl_leaf p2) (length (hp_leaves p2)) \<and> slots (ct_forks u) (hp_fl_internal p2) (length (hp_internals p2))"
    using J(1) by blast
  define q where "q = hp_inc_size (link_parent pa pd fk p2)"
  define u where "u = ct_put d k v li fi t"
  have ins: "hp_insert k v p = Some q"
    using hp_rep_ref(1) [OF s t(1)] D key assms(4) re(1) nl ni
    unfolding hp_insert_def q_def nb_def [symmetric] by (simp add: Let_def nb_def [symmetric])
  have dist: "distinct (ct_forks t)" using slots_distinct [OF t(4)] by simp
  have small: "hp_small p2" using assms(1) J(2,3) by (simp add: hp_inv_def hp_small_def)
  have rep: "hp_rep q u (hp_root q)"
    using hole
  proof (elim disjE exE conjE)
    assume "pa = hp_nil" "s = t" "\<forall>v li fi. ct_put d k v li fi t = ct_join d k v li fi s"
    then have "hp_root q = fk" "hp_leaves q = hp_leaves p2" "hp_internals q = hp_internals p2" "u = ct_join d k v li fi s"
      by (simp_all add: q_def u_def link_parent_def hp_set_root_def)
    then show ?thesis using j(1) hp_rep_same [of q p2] by simp
  next
    fix f b g assume h: "pa = internal_ref f" "pd = side b" "ct_hole t f b s g" "\<forall>v li fi. ct_put d k v li fi t = g (ct_join d k v li fi s)"
    have f: "f \<in> set (ct_forks t)" "f \<notin> set (ct_forks s)" using ct_hole_sub [OF h(3)] ct_hole_fresh [OF h(3) dist] by blast+
    then have l: "f < length (hp_internals p2)" using hp_rep_bound [OF j(2)] by blast
    then have nn: "pa \<noteq> hp_nil" using small by (simp add: h(1) hp_small_def)
    have "set (ct_forks (ct_join d k v li fi s)) = Set.insert fi (set (ct_forks s))" by (auto simp: ct_join_def)
    then have "f \<notin> set (ct_forks (ct_join d k v li fi s))" using f j(3) by auto
    from ct_hole_set_child [OF small j(1) this l h(3) j(2) dist]
    have "hp_rep (hp_set_child pa pd fk p2) u (hp_root p)" using h by (simp add: u_def)
    moreover have "q = hp_inc_size (hp_set_child pa pd fk p2)" using nn by (simp add: q_def link_parent_def)
    ultimately show ?thesis using J(4) hp_rep_same [of q "hp_set_child pa pd fk p2"] by simp
  qed
  have ok: "ct_ok u" using ct_put_ok [where e = e, OF _ d t(2), of v li fi] assms(3) by (simp add: u_def)
  have size: "length (ct_recs u) = Suc (length (ct_recs t))"
    using arg_cong [OF ct_put_recs(2) [of d k v li fi t], of size] by (simp add: ct_count(1) u_def)
  have "hp_tree q u" using rep ok size J(5) t(5) j(4) [OF ct_put_recs(2,3) [of d k v li fi t]]
    by (simp add: hp_tree_def q_def u_def)
  moreover have "map_of (ct_recs u) = (map_of (ct_recs t))(k \<mapsto> v)" using ct_put_map [OF t(2) ok [unfolded u_def] fresh] by (simp add: u_def)
  ultimately show ?thesis using ins J(2,3) by (intro exI [of _ q] exI [of _ u]) (simp add: q_def)
qed

text \<open>Storing a value under a key that is there.\<close>
lemma hp_insert_old:
  assumes "hp_small p" "hp_tree p t" "ct_cand k t = (i, k, w)"
  shows "\<exists>q u. hp_insert k v p = Some q \<and> hp_tree q u \<and> map_of (ct_recs u) = (map_of (ct_recs t))(k \<mapsto> v)
    \<and> length (hp_leaves q) = length (hp_leaves p) \<and> length (hp_internals q) = length (hp_internals p)"
proof -
  have t: "hp_rep p t (hp_root p)" "ct_ok t" "distinct (ct_leaves t)"
    using assms(2) slots_distinct [of "ct_leaves t" "hp_fl_leaf p" "length (hp_leaves p)"] by (simp_all add: hp_tree_def)
  define q where "q = set_leaf_value (leaf_ref i) v p"
  note D = hp_descend_ok [OF assms(1) t(1,2) assms(3)]
  have "leaf_key p (leaf_ref i) = k" using hp_rep_tip(4) [OF assms(1)] D by blast
  then have ins: "hp_insert k v p = Some q"
    using hp_rep_ref(1) [OF assms(1) t(1)] D by (simp add: hp_insert_def Let_def q_def)
  have q: "hp_root q = hp_root p" "hp_fl_leaf q = hp_fl_leaf p" "hp_fl_internal q = hp_fl_internal p" "hp_size q = hp_size p"
    "length (hp_leaves q) = length (hp_leaves p)" "hp_internals q = hp_internals p" by (simp_all add: q_def set_leaf_value_def)
  have "length (ct_recs (ct_set k v t)) = length (ct_recs t)" by (metis ct_set_keys length_map)
  then have "hp_tree q (ct_set k v t)"
    using hp_update_ok [OF assms(1,3) t, of v] ct_set_ok [OF t(2)] assms(2) by (simp add: hp_tree_def q q_def [symmetric])
  moreover have "k \<in> ct_keys t" using ct_cand_in [OF assms(3)] by force
  ultimately show ?thesis using ins q ct_set_map [OF t(2)] by (intro exI [of _ q] exI [of _ "ct_set k v t"]) simp
qed

section \<open>Erasure\<close>

lemma hp_erase_descend_ok:
  assumes "hp_small p"
  shows "hp_rep p t ref \<Longrightarrow> ct_ok t \<Longrightarrow> distinct (ct_forks t) \<Longrightarrow> t = Fork i c l r \<Longrightarrow>
    \<exists>gp' gd' e m. hp_erase_descend p k gp gd ref (side (kbit k c)) (hp_child p ref (side (kbit k c)))
        = Some (gp', gd', internal_ref (ct_last k t), side e, leaf_ref (fst (ct_cand k t)))
      \<and> hp_rep p m (hp_child p (internal_ref (ct_last k t)) (side (\<not> e)))
      \<and> set (ct_forks m) \<subseteq> set (ct_forks t)
      \<and> (gp' = gp \<and> gd' = gd \<and> ct_del k t = m
         \<or> (\<exists>f b s g. gp' = internal_ref f \<and> gd' = side b \<and> ct_hole t f b s g \<and> f \<notin> set (ct_forks m) \<and> ct_del k t = g m))"
proof (induction t arbitrary: ref i c l r gp gd)
  case (Fork j d a b)
  note F = hp_rep_fork [OF assms Fork.prems(1,2)]
  note ok = ct_okD(1,2) [OF Fork.prems(2)]
  have e: "j = i" "d = c" "a = l" "b = r" using Fork.prems(4) by simp_all
  have ref: "ref = internal_ref i" using Fork.prems(1) by (simp add: e)
  have dist: "distinct (ct_forks l)" "distinct (ct_forks r)" "i \<notin> set (ct_forks l)" "i \<notin> set (ct_forks r)"
    using Fork.prems(3) by (simp_all add: e)
  define x y where "x = (if kbit k c then r else l)" and "y = (if kbit k c then l else r)"
  define nx where "nx = hp_child p ref (side (kbit k c))"
  have rx: "hp_rep p x nx" unfolding x_def nx_def using F(5) [of "kbit k c"] by (simp only: e)
  have ry: "hp_rep p y (hp_child p ref (side (\<not> kbit k c)))" using F(5) [of "\<not> kbit k c"] by (cases "kbit k c") (simp_all add: y_def e)
  show ?case
  proof (cases x)
    case (Tip n a' v')
    have fin: "hp_erase_descend p k gp gd ref (side (kbit k c)) nx = Some (gp, gd, ref, side (kbit k c), nx)"
      using hp_rep_ref(2) [OF assms rx] by (subst hp_erase_descend.simps) (simp add: Tip)
    have "nx = leaf_ref n" using rx by (simp add: Tip)
    moreover have "ct_last k (Fork j d a b) = i" "fst (ct_cand k (Fork j d a b)) = n" "ct_del k (Fork j d a b) = y"
      "set (ct_forks y) \<subseteq> set (ct_forks (Fork j d a b))"
      using Tip by (auto simp: x_def y_def e split: if_splits)
    ultimately show ?thesis using fin ry unfolding nx_def [symmetric]
      by (intro exI [of _ gp] exI [of _ gd] exI [of _ "kbit k c"] exI [of _ y]) (simp add: ref)
  next
    case inner: (Fork i' c' l' r')
    have okx: "ct_ok x" "distinct (ct_forks x)" using ok dist by (auto simp: x_def e)
    note G = hp_rep_fork [OF assms rx [unfolded inner] okx(1) [unfolded inner]]
    have step: "hp_erase_descend p k gp gd ref (side (kbit k c)) nx
        = hp_erase_descend p k ref (side (kbit k c)) nx (side (kbit k c')) (hp_child p nx (side (kbit k c')))"
      using G(1,4) by (subst hp_erase_descend.simps) simp
    have "\<exists>gp' gd' e' m. hp_erase_descend p k ref (side (kbit k c)) nx (side (kbit k c')) (hp_child p nx (side (kbit k c')))
        = Some (gp', gd', internal_ref (ct_last k x), side e', leaf_ref (fst (ct_cand k x)))
      \<and> hp_rep p m (hp_child p (internal_ref (ct_last k x)) (side (\<not> e'))) \<and> set (ct_forks m) \<subseteq> set (ct_forks x)
      \<and> (gp' = ref \<and> gd' = side (kbit k c) \<and> ct_del k x = m
         \<or> (\<exists>f b s g. gp' = internal_ref f \<and> gd' = side b \<and> ct_hole x f b s g \<and> f \<notin> set (ct_forks m) \<and> ct_del k x = g m))"
    proof (cases "kbit k c")
      case True
      then have "x = b" by (simp add: x_def e)
      show ?thesis using Fork.IH(2) [OF rx [unfolded \<open>x = b\<close>] okx [unfolded \<open>x = b\<close>] inner [unfolded \<open>x = b\<close>], of ref "side (kbit k c)"]
        unfolding \<open>x = b\<close> .
    next
      case False
      then have "x = a" by (simp add: x_def e)
      show ?thesis using Fork.IH(1) [OF rx [unfolded \<open>x = a\<close>] okx [unfolded \<open>x = a\<close>] inner [unfolded \<open>x = a\<close>], of ref "side (kbit k c)"]
        unfolding \<open>x = a\<close> .
    qed
    then obtain gp' gd' e' m where I: "hp_erase_descend p k ref (side (kbit k c)) nx (side (kbit k c')) (hp_child p nx (side (kbit k c')))
        = Some (gp', gd', internal_ref (ct_last k x), side e', leaf_ref (fst (ct_cand k x)))"
      "hp_rep p m (hp_child p (internal_ref (ct_last k x)) (side (\<not> e')))" "set (ct_forks m) \<subseteq> set (ct_forks x)"
      "gp' = ref \<and> gd' = side (kbit k c) \<and> ct_del k x = m
         \<or> (\<exists>f b s g. gp' = internal_ref f \<and> gd' = side b \<and> ct_hole x f b s g \<and> f \<notin> set (ct_forks m) \<and> ct_del k x = g m)" by blast
    define T where "T = Fork j d a b"
    define H where "H z = (if kbit k c then Fork i c l z else Fork i c z r)" for z
    have T: "ct_last k T = ct_last k x" "ct_cand k T = ct_cand k x" "ct_del k T = H (ct_del k x)" "set (ct_forks x) \<subseteq> set (ct_forks T)"
      using inner by (auto simp: T_def e x_def H_def split: if_splits)
    have top: "ct_hole T i (kbit k c) x H" by (auto simp: T_def e x_def H_def [abs_def] intro: ct_hole.intros)
    have up: "ct_hole x f b' s g \<Longrightarrow> ct_hole T f b' s (\<lambda>z. H (g z))" for f b' s g
      by (auto simp: T_def e x_def H_def intro: ct_hole.intros split: if_splits)
    have "i \<notin> set (ct_forks m)" using dist I(3) by (auto simp: x_def split: if_splits)
    with I(4) have "\<exists>f b' s g. gp' = internal_ref f \<and> gd' = side b' \<and> ct_hole T f b' s g \<and> f \<notin> set (ct_forks m) \<and> ct_del k T = g m"
    proof (elim disjE exE conjE)
      assume "gp' = ref" "gd' = side (kbit k c)" "ct_del k x = m"
      then show ?thesis using top \<open>i \<notin> set (ct_forks m)\<close> ref T(3) by blast
    next
      fix f b' s g assume h: "gp' = internal_ref f" "gd' = side b'" "ct_hole x f b' s g" "f \<notin> set (ct_forks m)" "ct_del k x = g m"
      show ?thesis using h up [OF h(3)] T(3) by (intro exI [of _ f] exI [of _ b'] exI [of _ s] exI [of _ "\<lambda>z. H (g z)"]) simp
    qed
    moreover have "set (ct_forks m) \<subseteq> set (ct_forks T)" using I(3) T(4) by (rule subset_trans)
    ultimately show ?thesis using I(1,2) unfolding nx_def [symmetric] T_def [symmetric] step T(1,2)
      by (intro exI [of _ gp'] exI [of _ gd'] exI [of _ e'] exI [of _ m]) simp
  qed
qed simp

lemma hp_erase_miss:
  assumes "hp_small p" "hp_tree p t" "ct_cand k t = (i, e, w)" "e \<noteq> k"
  shows "hp_erase k p = Some (False, p)"
proof -
  have t: "hp_rep p t (hp_root p)" "ct_ok t" "distinct (ct_forks t)"
    using assms(2) slots_distinct [of "ct_forks t" "hp_fl_internal p" "length (hp_internals p)"] by (simp_all add: hp_tree_def)
  have nn: "hp_root p \<noteq> hp_nil" by (rule hp_rep_ref(1) [OF assms(1) t(1)])
  have key: "leaf_key p (leaf_ref i) = e"
    using hp_rep_tip(4) [OF assms(1)] hp_descend_ok [OF assms(1) t(1,2) assms(3)] by blast
  show ?thesis
  proof (cases t)
    case (Tip j a b)
    then have "hp_root p = leaf_ref i" using t(1) assms(3) by simp
    then show ?thesis using nn key assms(4) hp_rep_ref(2) [OF assms(1) t(1)] Tip by (simp add: hp_erase_def)
  next
    case (Fork j c l r)
    note F = hp_rep_fork [OF assms(1) t(1,2) [unfolded Fork]]
    show ?thesis using hp_erase_descend_ok [OF assms(1) t Fork, of k hp_nil 0] nn F(1,4) key assms(3,4)
      by (auto simp: hp_erase_def Let_def)
  qed
qed

lemma hp_erase_only:
  assumes "hp_small p" "hp_tree p (Tip i k w)"
  shows "\<exists>q. hp_erase k p = Some (True, q) \<and> hp_bare q
    \<and> length (hp_leaves q) = length (hp_leaves p) \<and> length (hp_internals q) = length (hp_internals p)"
proof -
  have t: "hp_rep p (Tip i k w) (hp_root p)" using assms(2) by (simp add: hp_tree_def)
  note T = hp_rep_tip [OF assms(1) t]
  define q where "q = hp_dec_size (hp_set_root hp_nil (hp_free_node (hp_root p) p))"
  have "hp_erase k p = Some (True, q)" using T(1,2,4) by (simp add: hp_erase_def q_def)
  moreover have "hp_bare q" using assms(2) slots_give [of "[i]" "hp_fl_leaf p" _ i "[]"] T(3,6)
    by (simp add: hp_bare_def q_def hp_tree_def hp_free_node_def hp_set_root_def hp_dec_size_def)
  moreover have "length (hp_leaves q) = length (hp_leaves p)" "length (hp_internals q) = length (hp_internals p)"
    by (simp_all add: q_def hp_free_node_def hp_set_root_def hp_dec_size_def)
  ultimately show ?thesis by blast
qed

lemma hp_erase_hit:
  assumes "hp_small p" "hp_tree p t" "is_fork t" "ct_cand k t = (i, k, w)"
  shows "\<exists>q u. hp_erase k p = Some (True, q) \<and> hp_tree q u \<and> map_of (ct_recs u) = (map_of (ct_recs t))(k := None)
    \<and> length (hp_leaves q) = length (hp_leaves p) \<and> length (hp_internals q) = length (hp_internals p)"
proof -
  have t: "hp_rep p t (hp_root p)" "ct_ok t" "distinct (ct_forks t)" "slots (ct_leaves t) (hp_fl_leaf p) (length (hp_leaves p))"
    "slots (ct_forks t) (hp_fl_internal p) (length (hp_internals p))" "hp_size p = length (ct_recs t)"
    using assms(2) slots_distinct [of "ct_forks t" "hp_fl_internal p" "length (hp_internals p)"] by (simp_all add: hp_tree_def)
  obtain j c l r where Fork: "t = Fork j c l r" using assms(3) by (cases t) simp_all
  note F = hp_rep_fork [OF assms(1) t(1,2) [unfolded Fork]]
  note D = ct_del_ids [OF assms(3,4)]
  define li fi where "li = i" and "fi = ct_last k t"
  have bound: "i < 2 ^ 56" "fi < 2 ^ 56"
    using slots_bound [OF t(4), of i] slots_bound [OF t(5), of fi] arg_cong [OF D(1), of set_mset] arg_cong [OF D(2), of set_mset] assms(1)
    by (auto simp: hp_small_def fi_def)
  have key: "leaf_key p (leaf_ref i) = k"
    using hp_rep_tip(4) [OF assms(1)] hp_descend_ok [OF assms(1) t(1,2) assms(4)] by blast
  obtain gp gd e m where E: "hp_erase_descend p k hp_nil 0 (hp_root p) (side (kbit k c)) (hp_child p (hp_root p) (side (kbit k c)))
        = Some (gp, gd, internal_ref fi, side e, leaf_ref i)"
      "hp_rep p m (hp_child p (internal_ref fi) (side (\<not> e)))"
      "gp = hp_nil \<and> gd = 0 \<and> ct_del k t = m
         \<or> (\<exists>f b s g. gp = internal_ref f \<and> gd = side b \<and> ct_hole t f b s g \<and> f \<notin> set (ct_forks m) \<and> ct_del k t = g m)"
    using hp_erase_descend_ok [OF assms(1) t(1,2,3) Fork, of k hp_nil 0] assms(4) unfolding fi_def by (metis fst_conv)
  define sib where "sib = hp_child p (internal_ref fi) (side (\<not> e))"
  define p1 where "p1 = (if gp = hp_nil then hp_set_root sib p else hp_set_child gp gd sib p)"
  define q where "q = hp_dec_size (hp_free_node (internal_ref fi) (hp_free_node (leaf_ref i) p1))"
  have era: "hp_erase k p = Some (True, q)"
    using hp_rep_ref(1) [OF assms(1) t(1)] F(1,4) E(1) key by (simp add: hp_erase_def Let_def q_def p1_def sib_def)
  have keep: "hp_leaves p1 = hp_leaves p" "hp_fl_leaf p1 = hp_fl_leaf p" "hp_fl_internal p1 = hp_fl_internal p"
    "hp_size p1 = hp_size p" "length (hp_internals p1) = length (hp_internals p)" by (simp_all add: p1_def hp_set_root_def)
  have free: "hp_leaves q = hp_leaves p1" "hp_internals q = hp_internals p1" "hp_fl_leaf q = hp_fl_leaf p1 @ [i]"
    "hp_fl_internal q = hp_fl_internal p1 @ [fi]" "hp_root q = hp_root p1" "hp_size q = hp_size p1 - 1"
    using bound by (simp_all add: q_def hp_free_node_def hp_dec_size_def hp_kInternal_def hp_kLeaf_def)
  have "hp_rep p1 (ct_del k t) (hp_root p1)"
    using E(3)
  proof (elim disjE exE conjE)
    assume "gp = hp_nil" "ct_del k t = m"
    then have "hp_root p1 = sib" "hp_internals p1 = hp_internals p" by (simp_all add: p1_def hp_set_root_def)
    then show ?thesis using E(2) keep(1) \<open>ct_del k t = m\<close> hp_rep_same [of p1 p] by (simp add: sib_def)
  next
    fix f b s g assume h: "gp = internal_ref f" "gd = side b" "ct_hole t f b s g" "f \<notin> set (ct_forks m)" "ct_del k t = g m"
    have f: "f < length (hp_internals p)" using ct_hole_sub [OF h(3)] hp_rep_bound [OF t(1)] by blast
    then have nn: "gp \<noteq> hp_nil" using assms(1) by (simp add: h(1) hp_small_def)
    have "hp_rep (hp_set_child gp gd sib p) (g m) (hp_root p)"
      using ct_hole_set_child [OF assms(1) E(2) [folded sib_def] h(4) f h(3) t(1,3)] by (simp only: h(1,2))
    then show ?thesis using nn by (simp add: p1_def h(5))
  qed
  then have "hp_rep q (ct_del k t) (hp_root q)" using hp_rep_same [of q p1] free by simp
  moreover have "slots (ct_leaves (ct_del k t)) (hp_fl_leaf q) (length (hp_leaves q))"
    "slots (ct_forks (ct_del k t)) (hp_fl_internal q) (length (hp_internals q))"
    using slots_give [OF t(4) D(1)] slots_give [OF t(5) D(2)] free keep by (simp_all add: fi_def)
  moreover have "length (ct_recs t) = Suc (length (ct_recs (ct_del k t)))" using arg_cong [OF D(3), of size] by simp
  ultimately have "hp_tree q (ct_del k t)" using ct_del_ok [OF t(2)] t(6) free(6) keep(4) by (simp add: hp_tree_def)
  then show ?thesis using era ct_del_map [OF t(2) assms(3,4)] free keep by (intro exI [of _ q] exI [of _ "ct_del k t"]) simp
qed

section \<open>The organ as a map\<close>

lemma hp_inv_cases:
  assumes "hp_inv b p"
  obtains (bare) "hp_bare p" "hp_view p = Map.empty" | (tree) t where "hp_tree p t" "hp_view p = map_of (ct_recs t)"
  using assms hp_view_eq hp_inv_small [OF assms] by (auto simp: hp_inv_def)

lemma hp_insert_budget:
  assumes "hp_inv (Suc b) p"
  shows "\<exists>q. hp_search_insert k v p = Some (Inr q) \<and> hp_inv b q \<and> hp_view q = (hp_view p)(k \<mapsto> v)"
proof -
  note s = hp_inv_small [OF assms]
  have l: "length (hp_leaves p) + Suc b \<le> 2 ^ 56" "length (hp_internals p) + Suc b \<le> 2 ^ 56" using assms by (simp_all add: hp_inv_def)
  have fin: ?thesis if "hp_insert k v p = Some q" "hp_tree q u" "map_of (ct_recs u) = (hp_view p)(k \<mapsto> v)"
    "length (hp_leaves q) \<le> Suc (length (hp_leaves p))" "length (hp_internals q) \<le> Suc (length (hp_internals p))" for q u
  proof -
    have i: "hp_inv b q" using that(2,4,5) l by (auto simp: hp_inv_def)
    then show ?thesis using that(1,3) hp_view_eq(1) [OF hp_inv_small [OF i] that(2)] by (simp add: hp_search_insert_def)
  qed
  show ?thesis
  proof (cases rule: hp_inv_cases [OF assms, case_names bare tree])
    case bare
    then show ?thesis using hp_first_ok [OF bare(1), of k v] fin by auto
  next
    case (tree t)
    obtain i e w where c: "ct_cand k t = (i, e, w)" by (cases "ct_cand k t")
    show ?thesis
    proof (cases "e = k")
      case True
      then show ?thesis using hp_insert_old [OF s tree(1) c [unfolded True], of v] fin tree(2) by (metis le_SucI order_refl)
    next
      case False
      then show ?thesis using hp_insert_new [OF assms tree(1) c False, of v] fin tree(2) by metis
    qed
  qed
qed

lemma hp_erase_budget:
  assumes "hp_inv (Suc b) p"
  shows "\<exists>q. hp_erase k p = Some (hp_view p k \<noteq> None, q) \<and> hp_inv b q \<and> hp_view q = (hp_view p)(k := None)"
proof -
  note s = hp_inv_small [OF assms]
  have l: "length (hp_leaves p) + Suc b \<le> 2 ^ 56" "length (hp_internals p) + Suc b \<le> 2 ^ 56" using assms by (simp_all add: hp_inv_def)
  show ?thesis
  proof (cases rule: hp_inv_cases [OF assms, case_names bare tree])
    case bare
    then have "hp_erase k p = Some (False, p)" by (simp add: hp_erase_def hp_bare_def)
    then show ?thesis using bare l by (auto simp: hp_inv_def)
  next
    case (tree t)
    have ok: "ct_ok t" using tree(1) by (simp add: hp_tree_def)
    obtain i e w where c: "ct_cand k t = (i, e, w)" by (cases "ct_cand k t")
    note look = ct_lookup [OF ok c]
    show ?thesis
    proof (cases "e = k")
      case False
      then have "hp_view p k = None" using look tree(2) by simp
      moreover from this have "(hp_view p)(k := None) = hp_view p" by (simp add: fun_upd_idem)
      moreover have "hp_inv b p" using tree(1) l by (auto simp: hp_inv_def)
      ultimately show ?thesis using hp_erase_miss [OF s tree(1) c False] by simp
    next
      case True
      then have v: "hp_view p k \<noteq> None" using look tree(2) by simp
      show ?thesis
      proof (cases t)
        case (Tip j a b')
        then have "t = Tip i k w" using c True by simp
        then obtain q where q: "hp_erase k p = Some (True, q)" "hp_bare q" "length (hp_leaves q) = length (hp_leaves p)"
          "length (hp_internals q) = length (hp_internals p)" using hp_erase_only [OF s] tree(1) by blast
        have "(hp_view p)(k := None) = Map.empty" using tree(2) \<open>t = Tip i k w\<close> by auto
        then show ?thesis using q v l hp_view_eq(2) [OF q(2)] by (auto simp: hp_inv_def)
      next
        case (Fork j c' l' r')
        then have "is_fork t" by simp
        then obtain q u where q: "hp_erase k p = Some (True, q)" "hp_tree q u" "map_of (ct_recs u) = (map_of (ct_recs t))(k := None)"
          "length (hp_leaves q) = length (hp_leaves p)" "length (hp_internals q) = length (hp_internals p)"
          using hp_erase_hit [OF s tree(1) _ c [unfolded True]] by blast
        have i: "hp_inv b q" using q(2,4,5) l by (auto simp: hp_inv_def)
        show ?thesis using q(1,3) i v tree(2) hp_view_eq(1) [OF hp_inv_small [OF i] q(2)] by simp
      qed
    qed
  qed
qed

interpretation hot: budget_map hp_inv hp_lookup hp_search_insert hp_erase hp_size hp_clear hp_view "\<lambda>_. False"
proof unfold_locales
  fix b p k v
  show "hp_inv (Suc b) p \<Longrightarrow> hp_inv b p" by (auto simp: hp_inv_def)
  show "hp_inv b p \<Longrightarrow> hp_lookup p k = Some (hp_view p k)" by (rule hp_lookup_ok)
  show "hp_inv (Suc b) p \<Longrightarrow> \<exists>q. hp_search_insert k v p = Some (Inr q) \<and> hp_inv b q \<and> hp_view q = (hp_view p)(k \<mapsto> v)"
    by (rule hp_insert_budget)
  show "hp_inv (Suc b) p \<Longrightarrow> \<exists>q. hp_erase k p = Some (hp_view p k \<noteq> None, q) \<and> hp_inv b q \<and> hp_view q = (hp_view p)(k := None)"
    by (rule hp_erase_budget)
  show "hp_inv b p \<Longrightarrow> hp_size p = card (dom (hp_view p))" by (rule hp_count_ok)
  show "hp_inv b (hp_clear p) \<and> hp_view (hp_clear p) = Map.empty" if "hp_inv (Suc b) p"
  proof -
    have "hp_bare (hp_clear p)" by (simp add: hp_bare_def hp_clear_def slots_def)
    moreover have "b \<le> 2 ^ 56" using that by (simp add: hp_inv_def)
    ultimately show ?thesis using hp_view_eq(2) by (auto simp: hp_inv_def) (simp_all add: hp_clear_def)
  qed
qed simp

lemma hp_init_ok: "b \<le> 2 ^ 56 \<Longrightarrow> hp_inv b hp_init" "hp_view hp_init = Map.empty"
proof -
  have b: "hp_bare hp_init" by (simp add: hp_bare_def hp_init_def slots_def)
  then show "hp_view hp_init = Map.empty" by (rule hp_view_eq(2))
  assume "b \<le> 2 ^ 56"
  then show "hp_inv b hp_init" using b by (simp add: hp_inv_def) (simp add: hp_init_def)
qed

text \<open>Copies have the same content.\<close>
lemma hp_copy_same: "hp_copy p = p" "hp_assign q p = p"
  by (simp_all add: hp_copy_def hp_assign_def)

lemma hot_run:
  assumes "length ops \<le> 2 ^ 56"
  obtains p where "pool_run hp_lookup hp_search_insert hp_erase hp_size hp_clear ops hp_init
      = Some (map Inr (fst (spec_map_run ops Map.empty)), p)" "hp_inv 0 p" "hp_view p = snd (spec_map_run ops Map.empty)"
  using hot.run_refines [OF hp_init_ok(1) [OF assms]] spec_pool_run_total [of ops Map.empty] hp_init_ok(2) by auto

text \<open>C9: From the empty pool, any at most \<open>2\<^sup>5\<^sup>6\<close> calls of insert, erase, lookup, size and clear on the HOT/Patricia organ
  return, raise nothing, and answer as the finite map does: every descent over the crit-bits ends in a leaf, which is the
  key's if the key is stored.\<close>
theorem hot_refines_map:
  assumes "length ops \<le> 2 ^ 56"
  shows "map_option fst (pool_run hp_lookup hp_search_insert hp_erase hp_size hp_clear ops hp_init)
    = Some (map Inr (fst (spec_map_run ops Map.empty)))"
  by (rule hot_run [OF assms]) simp

theorem hot_refines_map_witness:
  "map_option fst (pool_run hp_lookup hp_search_insert hp_erase hp_size hp_clear
       [Insert 6 60, Insert 4 40, Insert 6 61, Lookup 6, Erase 4, Lookup 4, Count] hp_init)
    = Some (map Inr [Found (Some 61), Erased True, Found None, Counted 1])"
proof -
  have "fst (spec_map_run [Insert 6 60, Insert 4 40, Insert 6 61, Lookup 6, Erase 4, Lookup 4, Count] Map.empty)
      = [Found (Some 61), Erased True, Found None, Counted 1]"
    by (simp add: spec_map_run_def fun_upd_twist [of 6 4])
  then show ?thesis using hot_refines_map [of "[Insert 6 60, Insert 4 40, Insert 6 61, Lookup 6, Erase 4, Lookup 4, Count]"] by simp
qed

text \<open>C15: After any at most \<open>2\<^sup>5\<^sup>6\<close> calls, the HOT/Patricia pool is empty or a crit-bit tree with the invariants the code
  names (two children, the bit decides the side, the keys below a node agree on the more significant bits, as many leaves as
  stored keys), each pool slot is in use once or free once, and the record walk \<^verbatim>\<open>for_each_record\<close> stays within its inline
  stack of 65 frames, so that it never throws: it delivers each record once, in ascending key order, and returns their number.\<close>
theorem hot_pool_well_formed:
  assumes "length ops \<le> 2 ^ 56"
  shows "\<exists>rs p. pool_run hp_lookup hp_search_insert hp_erase hp_size hp_clear ops hp_init = Some (rs, p)
    \<and> (hp_bare p \<or> (\<exists>t. hp_tree p t))
    \<and> hp_for_each_record p = Some (Inr (map_entries (snd (spec_map_run ops Map.empty)), hp_size p))"
proof (rule hot_run [OF assms])
  fix p assume p: "pool_run hp_lookup hp_search_insert hp_erase hp_size hp_clear ops hp_init
      = Some (map Inr (fst (spec_map_run ops Map.empty)), p)" "hp_inv 0 p" "hp_view p = snd (spec_map_run ops Map.empty)"
  have "hp_for_each_record p = Some (Inr (map_entries (hp_view p), hp_size p))"
  proof (cases rule: hp_inv_cases [OF p(2), case_names bare tree])
    case bare
    then show ?thesis by (simp add: hp_bare_def hp_for_each_record_def map_entries_def)
  next
    case (tree t)
    then show ?thesis using hp_records_ok [OF hp_inv_small [OF p(2)]] by (simp add: hp_tree_def map_entries_map_of ct_sorted)
  qed
  then show ?thesis using p by (auto simp: hp_inv_def)
qed

theorem hot_pool_well_formed_witness:
  "\<exists>rs p. pool_run hp_lookup hp_search_insert hp_erase hp_size hp_clear [Insert 6 60, Insert 4 40, Insert 6 61] hp_init = Some (rs, p)
    \<and> (hp_bare p \<or> (\<exists>t. hp_tree p t)) \<and> hp_for_each_record p = Some (Inr ([(4, 40), (6, 61)], hp_size p))"
proof -
  have "snd (spec_map_run [Insert 6 60, Insert 4 40, Insert 6 61] Map.empty) = [4 \<mapsto> 40, 6 \<mapsto> 61]"
    by (simp add: spec_map_run_def fun_upd_twist [of 6 4])
  moreover have "map_entries [4 \<mapsto> 40, 6 \<mapsto> 61] = [(4, 40), (6, 61)]"
    using map_entries_map_of [of "[(4, 40), (6, 61)]"] by (simp add: fun_upd_twist [of 6 4])
  ultimately show ?thesis using hot_pool_well_formed [of "[Insert 6 60, Insert 4 40, Insert 6 61]"] by simp
qed

end
