(* ===== verification/Key_Prefix.thy ===== *)
theory Key_Prefix imports CE_Prelude begin

text \<open>
  \<^verbatim>\<open>ByteWiseKeyPrefix\<close>, the byte prefix of the trie organs' inner nodes (path-compression axis): up to seven
  bytes in the lower bytes of one 64-bit word, byte 0 least significant, and their number in the upper byte.  A prefix
  stands for the list of its bytes (\<open>kp_bytes\<close>); the bytes above the length are whatever they are.  The operations
  are those of byte strings: comparing with a key yields the common length, cutting drops bytes, prepending joins
  (an operation the type provides and no organ uses).
\<close>

record key_prefix =
  kp_packed :: u64

definition kCapacity :: nat where "kCapacity = 7"

definition kKeyBytesMask :: u64 where "kKeyBytesMask = 0x00FFFFFFFFFFFFFF"

definition kp_empty :: key_prefix where "kp_empty = \<lparr>kp_packed = 0\<rparr>"

definition length_to_word :: "nat \<Rightarrow> u64" where
  "length_to_word len = push_bit 56 (word_of_nat len)"

definition from_bytes :: "u64 \<Rightarrow> nat \<Rightarrow> key_prefix" where
  "from_bytes prefix_bytes len = \<lparr>kp_packed = (prefix_bytes AND kKeyBytesMask) OR length_to_word len\<rparr>"

definition kp_length :: "key_prefix \<Rightarrow> nat" where
  "kp_length p = unat (drop_bit 56 (kp_packed p))"

definition kp_at :: "key_prefix \<Rightarrow> nat \<Rightarrow> u8" where
  "kp_at p i = ucast (drop_bit (i * 8) (kp_packed p) AND 0xFF)"

text \<open>\<^verbatim>\<open>std::countr_zero\<close>: the number of trailing zeros.\<close>
definition countr_zero :: "u64 \<Rightarrow> nat" where
  "countr_zero w = length (takeWhile (\<lambda>j. \<not> bit w j) [0..<64])"

definition shared_len :: "u64 \<Rightarrow> u64 \<Rightarrow> nat \<Rightarrow> nat" where
  "shared_len k1 k2 clamp_byte_pos =
     (let diff = k1 XOR k2; clamped = diff OR push_bit (clamp_byte_pos * 8) 1 in drop_bit 3 (countr_zero clamped))"

definition common_prefix_len :: "key_prefix \<Rightarrow> u64 \<Rightarrow> nat" where
  "common_prefix_len p shifted_key = shared_len shifted_key (kp_packed p) (kp_length p)"

definition kp_cut :: "nat \<Rightarrow> key_prefix \<Rightarrow> key_prefix" where
  "kp_cut cut_len p = p\<lparr>kp_packed := (drop_bit (cut_len * 8) (kp_packed p) AND kKeyBytesMask)
     OR length_to_word (kp_length p - cut_len)\<rparr>"

definition kp_prepend :: "key_prefix \<Rightarrow> u8 \<Rightarrow> key_prefix \<Rightarrow> key_prefix" where
  "kp_prepend prefix1 prefix2 p =
     (let p1_bits = kp_length prefix1 * 8; p1_mask = push_bit p1_bits 1 - 1;
          p3_bits = kp_length p * 8; p3_mask = push_bit p3_bits 1 - 1;
          prefix3 = kp_packed p AND p3_mask;
          shifted_prefix3 = push_bit (p1_bits + 8) prefix3;
          shifted_prefix2 = push_bit p1_bits (ucast prefix2);
          masked_prefix1 = kp_packed prefix1 AND p1_mask
      in p\<lparr>kp_packed := shifted_prefix3 OR shifted_prefix2 OR masked_prefix1
              OR length_to_word (kp_length p + kp_length prefix1 + 1)\<rparr>)"

section \<open>Bytes\<close>

text \<open>The bytes of a word, from the least significant on.\<close>
definition kbyte :: "u64 \<Rightarrow> nat \<Rightarrow> u8" where "kbyte w i = ucast (drop_bit (8 * i) w)"

definition key_bytes :: "u64 \<Rightarrow> nat \<Rightarrow> nat \<Rightarrow> u8 list" where
  "key_bytes k d n = map (\<lambda>i. kbyte k (d + i)) [0..<n]"

definition kp_bytes :: "key_prefix \<Rightarrow> u8 list" where
  "kp_bytes p = map (kp_at p) [0..<kp_length p]"

lemma length_key_bytes [simp]: "length (key_bytes k d n) = n" "length (kp_bytes p) = kp_length p"
  by (simp_all add: key_bytes_def kp_bytes_def)

lemma nth_key_bytes [simp]: "i < n \<Longrightarrow> key_bytes k d n ! i = kbyte k (d + i)" "i < kp_length p \<Longrightarrow> kp_bytes p ! i = kp_at p i"
  by (simp_all add: key_bytes_def kp_bytes_def)

lemma bit_kbyte: "bit (kbyte w i) j \<longleftrightarrow> j < 8 \<and> bit w (8 * i + j)"
  by (auto simp: kbyte_def bit_simps dest: bit_imp_le_length)

lemma kp_at_kbyte: "kp_at p i = kbyte (kp_packed p) i"
proof (rule bit_word_eqI)
  have m: "(0xFF :: u64) = mask 8" by (simp add: mask_eq_exp_minus_1)
  show "bit (kp_at p i) j = bit (kbyte (kp_packed p) i) j" if "j < LENGTH(8)" for j
    using that unfolding kp_at_def m by (simp only: bit_kbyte) (auto simp: bit_simps mult.commute)
qed

lemma kbyte_eqI: "(\<And>j. j < 8 \<Longrightarrow> bit v (8 * i + j) = bit w (8 * i' + j)) \<Longrightarrow> kbyte v i = kbyte w i'"
  by (rule bit_word_eqI) (simp add: bit_kbyte)

lemma kbyte_drop: "kbyte (drop_bit (8 * d) w) i = kbyte w (d + i)"
  by (simp add: kbyte_def algebra_simps)

lemma key_bytes_all:
  assumes "\<And>i. i < 8 \<Longrightarrow> kbyte v i = kbyte w i"
  shows "v = (w :: u64)"
proof (rule bit_word_eqI)
  fix n assume "n < LENGTH(64)"
  then have "n div 8 < 8" "n mod 8 < 8" "8 * (n div 8) + n mod 8 = n" by simp_all
  then show "bit v n = bit w n" using arg_cong [OF assms [of "n div 8"], of "\<lambda>b. bit b (n mod 8)"] by (simp add: bit_kbyte)
qed

lemma key_bytes_0 [simp]: "key_bytes k d 0 = []"
  by (simp add: key_bytes_def)

lemma key_bytes_eq_iff: "key_bytes k d n = xs \<longleftrightarrow> length xs = n \<and> (\<forall>i < n. kbyte k (d + i) = xs ! i)"
  by (auto simp: list_eq_iff_nth_eq)

section \<open>Common length\<close>

lemma takeWhile_upt:
  "i < n \<Longrightarrow> P i \<Longrightarrow> (\<And>j. j < i \<Longrightarrow> \<not> P j) \<Longrightarrow> length (takeWhile (\<lambda>j. \<not> P j) [0..<n]) = i"
proof -
  assume a: "i < n" "P i" "\<And>j. j < i \<Longrightarrow> \<not> P j"
  then have u: "[0..<n] = [0..<i] @ i # [Suc i..<n]" using upt_split [of 0 i n] upt_conv_Cons by auto
  show ?thesis unfolding u using a(2,3) by (simp add: takeWhile_append)
qed

lemma countr_zero_ok:
  assumes "w \<noteq> 0"
  shows "countr_zero w < 64" "bit w (countr_zero w)" "j < countr_zero w \<Longrightarrow> \<not> bit w j"
proof -
  have "\<exists>n. bit w n" using assms bit_word_eqI [of w 0] by auto
  then obtain n where n: "bit w n" ..
  then have "n < LENGTH(64)" by (rule bit_imp_le_length)
  then have n64: "n < 64" by simp
  define i where "i = (LEAST j. bit w j)"
  have i: "bit w i" "\<And>j. j < i \<Longrightarrow> \<not> bit w j" "i \<le> n"
    using LeastI [of "bit w", OF n] not_less_Least [of _ "bit w"] Least_le [of "bit w", OF n] unfolding i_def by blast+
  have "countr_zero w = i" unfolding countr_zero_def using i n64 by (intro takeWhile_upt) auto
  then show "countr_zero w < 64" "bit w (countr_zero w)" "j < countr_zero w \<Longrightarrow> \<not> bit w j" using i n64 by simp_all
qed

lemma shared_len_ok:
  assumes "c \<le> 7"
  shows "shared_len k1 k2 c \<le> c" "i < shared_len k1 k2 c \<Longrightarrow> kbyte k1 i = kbyte k2 i"
    "shared_len k1 k2 c < c \<Longrightarrow> kbyte k1 (shared_len k1 k2 c) \<noteq> kbyte k2 (shared_len k1 k2 c)"
proof -
  define x where "x = (k1 XOR k2) OR push_bit (c * 8) (1 :: u64)"
  have bx: "bit x n \<longleftrightarrow> bit k1 n \<noteq> bit k2 n \<or> n = 8 * c" for n
    using assms by (auto simp: x_def bit_simps bit_1_iff dest: bit_imp_le_length)
  have "bit x (8 * c)" by (simp add: bx)
  then have "x \<noteq> 0" by auto
  note Z = countr_zero_ok [OF this]
  define z where "z = countr_zero x"
  have s: "shared_len k1 k2 c = z div 8" by (simp add: shared_len_def x_def z_def drop_bit_eq_div)
  have le: "z \<le> 8 * c" using Z(3) [of "8 * c"] bx [of "8 * c"] unfolding z_def [symmetric] by (meson not_le)
  then show "shared_len k1 k2 c \<le> c" by (simp add: s div_le_mono [of z "8 * c" 8, simplified])
  have below: "bit k1 n = bit k2 n" if "n < z" for n using Z(3) [of n] that bx [of n] by (auto simp: z_def)
  show "kbyte k1 i = kbyte k2 i" if "i < shared_len k1 k2 c"
    by (rule kbyte_eqI, rule below) (use that in \<open>simp add: s\<close>)
  show "kbyte k1 (shared_len k1 k2 c) \<noteq> kbyte k2 (shared_len k1 k2 c)" if "shared_len k1 k2 c < c"
  proof
    assume e: "kbyte k1 (shared_len k1 k2 c) = kbyte k2 (shared_len k1 k2 c)"
    have "z \<noteq> 8 * c" using that by (auto simp: s)
    then have "bit k1 z \<noteq> bit k2 z" using Z(2) bx [of z] by (simp add: z_def)
    moreover have "8 * (z div 8) + z mod 8 = z" by simp
    ultimately show False using arg_cong [OF e, of "\<lambda>b. bit b (z mod 8)"] by (simp add: bit_kbyte s)
  qed
qed

section \<open>Prefixes as byte strings\<close>

lemma mask_bit: "bit kKeyBytesMask n \<longleftrightarrow> n < 56"
proof -
  have "kKeyBytesMask = mask 56" by (simp add: kKeyBytesMask_def mask_eq_exp_minus_1)
  then have "bit kKeyBytesMask n \<longleftrightarrow> bit (mask 56 :: u64) n" by (rule arg_cong)
  then show ?thesis unfolding bit_mask_iff by auto
qed

lemma length_word_bits: "n < 56 \<Longrightarrow> \<not> bit (length_to_word l) n" "l < 256 \<Longrightarrow> drop_bit 56 (length_to_word l) = word_of_nat l"
proof -
  show "n < 56 \<Longrightarrow> \<not> bit (length_to_word l) n" by (simp add: length_to_word_def bit_simps)
  assume l: "l < 256"
  have b: "bit l j \<Longrightarrow> j < 8" for j
  proof (rule ccontr)
    assume "bit l j" "\<not> j < 8"
    then have "(2 :: nat) ^ 8 \<le> 2 ^ j" by (intro power_increasing) simp_all
    then have "l < 2 ^ j" using l by simp
    then show False using \<open>bit l j\<close> by (simp add: bit_iff_odd)
  qed
  show "drop_bit 56 (length_to_word l) = word_of_nat l"
    by (rule bit_word_eqI) (auto simp: length_to_word_def bit_simps dest: b)
qed

text \<open>Every operation packs low bytes and a length.\<close>
lemma packed_ok:
  assumes "kp_packed p = (w AND kKeyBytesMask) OR length_to_word l" "l \<le> 7"
  shows "kp_length p = l" "i < 7 \<Longrightarrow> kp_at p i = kbyte w i" "kp_bytes p = key_bytes w 0 l"
proof -
  have "drop_bit 56 (kp_packed p) = drop_bit 56 (length_to_word l)"
    by (rule bit_word_eqI) (auto simp: assms(1) bit_simps mask_bit)
  then show len: "kp_length p = l" using assms(2) length_word_bits(2) [of l] by (simp add: kp_length_def unat_word_of_nat)
  show at: "kp_at p i = kbyte w i" if "i < 7" for i
    unfolding kp_at_kbyte by (rule kbyte_eqI) (use that in \<open>auto simp: assms(1) bit_simps mask_bit length_word_bits(1)\<close>)
  show "kp_bytes p = key_bytes w 0 l" using assms(2) by (simp add: list_eq_iff_nth_eq len at)
qed

lemma from_bytes_ok:
  assumes "l \<le> 7"
  shows "kp_length (from_bytes w l) = l" "kp_bytes (from_bytes w l) = key_bytes w 0 l"
  using packed_ok [of "from_bytes w l" w l] assms by (simp_all add: from_bytes_def)

lemma kp_cut_ok:
  assumes "c \<le> kp_length p" "kp_length p \<le> 7"
  shows "kp_length (kp_cut c p) = kp_length p - c" "kp_bytes (kp_cut c p) = drop c (kp_bytes p)"
proof -
  have "kp_packed (kp_cut c p) = (drop_bit (8 * c) (kp_packed p) AND kKeyBytesMask) OR length_to_word (kp_length p - c)"
    by (simp add: kp_cut_def mult.commute)
  note P = packed_ok [OF this]
  show len: "kp_length (kp_cut c p) = kp_length p - c" using P(1) assms by simp
  have "kp_bytes (kp_cut c p) = key_bytes (drop_bit (8 * c) (kp_packed p)) 0 (kp_length p - c)" using P(3) assms by simp
  then show "kp_bytes (kp_cut c p) = drop c (kp_bytes p)"
    using assms by (simp add: list_eq_iff_nth_eq kbyte_drop kp_at_kbyte)
qed

lemma common_prefix_len_ok:
  assumes "kp_length p \<le> 7"
  shows "common_prefix_len p w \<le> kp_length p" "take (common_prefix_len p w) (kp_bytes p) = key_bytes w 0 (common_prefix_len p w)"
    "common_prefix_len p w < kp_length p \<Longrightarrow> kp_bytes p ! common_prefix_len p w \<noteq> kbyte w (common_prefix_len p w)"
    "common_prefix_len p w = kp_length p \<longleftrightarrow> key_bytes w 0 (kp_length p) = kp_bytes p"
proof -
  note S = shared_len_ok [OF assms, where ?k1.0 = w and ?k2.0 = "kp_packed p", folded common_prefix_len_def]
  show le: "common_prefix_len p w \<le> kp_length p" by (rule S(1))
  show "take (common_prefix_len p w) (kp_bytes p) = key_bytes w 0 (common_prefix_len p w)"
    using le S(2) by (simp add: list_eq_iff_nth_eq kp_at_kbyte)
  show d: "kp_bytes p ! common_prefix_len p w \<noteq> kbyte w (common_prefix_len p w)" if "common_prefix_len p w < kp_length p"
    using that S(3) by (simp add: kp_at_kbyte)
  show "common_prefix_len p w = kp_length p \<longleftrightarrow> key_bytes w 0 (kp_length p) = kp_bytes p"
  proof
    assume "common_prefix_len p w = kp_length p"
    then show "key_bytes w 0 (kp_length p) = kp_bytes p" using S(2) by (simp add: list_eq_iff_nth_eq kp_at_kbyte)
  next
    assume e: "key_bytes w 0 (kp_length p) = kp_bytes p"
    show "common_prefix_len p w = kp_length p"
    proof (rule ccontr)
      assume "common_prefix_len p w \<noteq> kp_length p"
      then have l: "common_prefix_len p w < kp_length p" using le by simp
      then show False using d arg_cong [OF e, of "\<lambda>xs. xs ! common_prefix_len p w"] by simp
    qed
  qed
qed

lemma kp_prepend_ok:
  assumes "kp_length p1 + kp_length p + 1 \<le> 7"
  shows "kp_length (kp_prepend p1 b p) = kp_length p1 + kp_length p + 1" "kp_bytes (kp_prepend p1 b p) = kp_bytes p1 @ b # kp_bytes p"
proof -
  define m n where "m = kp_length p1" and "n = kp_length p"
  define w where "w = push_bit (m * 8 + 8) (kp_packed p AND mask (n * 8)) OR push_bit (m * 8) (ucast b) OR (kp_packed p1 AND mask (m * 8))"
  have mn: "m + n + 1 \<le> 7" using assms by (simp add: m_def n_def)
  have mk: "push_bit j 1 - 1 = (mask j :: u64)" for j by (simp add: mask_eq_exp_minus_1 push_bit_of_1)
  have wb: "bit w j \<longleftrightarrow> j < 64 \<and> ((m * 8 + 8 \<le> j \<and> j < (m + n + 1) * 8 \<and> bit (kp_packed p) (j - (m * 8 + 8)))
      \<or> (m * 8 \<le> j \<and> j < m * 8 + 8 \<and> bit b (j - m * 8)) \<or> (j < m * 8 \<and> bit (kp_packed p1) j))" for j
    by (auto simp: w_def bit_simps dest: bit_imp_le_length)
  have wm: "w AND kKeyBytesMask = w"
    by (rule bit_word_eqI) (use mn in \<open>auto simp: bit_and_iff mask_bit wb\<close>)
  have pk: "kp_packed (kp_prepend p1 b p) = (w AND kKeyBytesMask) OR length_to_word (m + n + 1)"
    unfolding wm unfolding kp_prepend_def Let_def mk by (simp add: w_def m_def n_def add.commute or.assoc)
  note P = packed_ok [OF pk mn]
  show "kp_length (kp_prepend p1 b p) = kp_length p1 + kp_length p + 1" using P(1) by (simp add: m_def n_def)
  have "kbyte w i = (kp_bytes p1 @ b # kp_bytes p) ! i" if "i < m + n + 1" for i
  proof (rule bit_word_eqI)
    fix j assume "j < LENGTH(8)"
    then have j: "j < 8" by simp
    have l: "\<not> i \<le> m \<Longrightarrow> i = m + 1 + (i - m - 1) \<and> i - m - 1 < n" using that by simp
    consider "i < m" | "i = m" | l where "i = m + 1 + l" "l < n" using l by force
    then show "bit (kbyte w i) j = bit ((kp_bytes p1 @ b # kp_bytes p) ! i) j"
    proof cases
      case 1
      then have "8 * i + j < m * 8" using j by simp
      then show ?thesis using 1 j mn by (auto simp: bit_kbyte wb nth_append m_def [symmetric] kp_at_kbyte)
    next
      case 2
      then show ?thesis using j mn by (auto simp: bit_kbyte wb nth_append m_def [symmetric])
    next
      case (3 l)
      then have "8 * i + j - (m * 8 + 8) = 8 * l + j" "m * 8 + 8 \<le> 8 * i + j" "8 * i + j < (m + n + 1) * 8" using j by simp_all
      then show ?thesis using 3 j mn by (auto simp: bit_kbyte wb nth_append m_def [symmetric] n_def [symmetric] kp_at_kbyte)
    qed
  qed
  then show "kp_bytes (kp_prepend p1 b p) = kp_bytes p1 @ b # kp_bytes p" unfolding P(3)
    by (simp add: list_eq_iff_nth_eq m_def n_def)
qed

section \<open>Splitting and joining\<close>

text \<open>C26: Splitting a prefix of at most seven bytes (its capacity) at any of its bytes, as the \<^verbatim>\<open>start\<close> organ does
  when a key leaves it there (\<^verbatim>\<open>from_bytes\<close> for the part before the byte, \<^verbatim>\<open>cut\<close> for the part behind it), loses
  nothing: \<^verbatim>\<open>prepend\<close> joins the two parts and the byte to the bytes and the length of the prefix again.  No
  organ calls \<^verbatim>\<open>prepend\<close>; \<^verbatim>\<open>ByteWiseKeyPrefix\<close> provides it as the inverse, and the unit tests use it.\<close>
theorem prefix_split_join:
  assumes "n < kp_length p" "kp_length p \<le> 7"
  shows "kp_bytes (kp_prepend (from_bytes (kp_packed p) n) (kp_at p n) (kp_cut (Suc n) p)) = kp_bytes p
    \<and> kp_length (kp_prepend (from_bytes (kp_packed p) n) (kp_at p n) (kp_cut (Suc n) p)) = kp_length p"
proof -
  have f: "kp_length (from_bytes (kp_packed p) n) = n" "kp_bytes (from_bytes (kp_packed p) n) = take n (kp_bytes p)"
    using from_bytes_ok [of n "kp_packed p"] assms by (simp_all add: list_eq_iff_nth_eq kp_at_kbyte)
  have c: "kp_length (kp_cut (Suc n) p) = kp_length p - Suc n" "kp_bytes (kp_cut (Suc n) p) = drop (Suc n) (kp_bytes p)"
    using kp_cut_ok [of "Suc n" p] assms by simp_all
  have "kp_length (from_bytes (kp_packed p) n) + kp_length (kp_cut (Suc n) p) + 1 \<le> 7" using f c assms by simp
  note P = kp_prepend_ok [OF this, of "kp_at p n", unfolded f c]
  have "kp_bytes p ! n = kp_at p n" using assms(1) by simp
  then show ?thesis using P assms(1) id_take_nth_drop [of n "kp_bytes p"] by simp
qed

theorem prefix_split_join_witness:
  "kp_bytes (kp_prepend (from_bytes 0x0300000000332211 1) 0x22 (kp_cut 2 \<lparr>kp_packed = 0x0300000000332211\<rparr>)) = [0x11, 0x22, 0x33]"
proof -
  have "kp_length \<lparr>kp_packed = 0x0300000000332211\<rparr> = 3" "kp_at \<lparr>kp_packed = 0x0300000000332211\<rparr> 1 = 0x22"
    "kp_bytes \<lparr>kp_packed = 0x0300000000332211\<rparr> = [0x11, 0x22, 0x33]" by code_simp+
  then show ?thesis using prefix_split_join [of 1 "\<lparr>kp_packed = 0x0300000000332211\<rparr>"] by (simp add: numeral_2_eq_2)
qed

end
