(* ===== verification/Radix_Tree.thy ===== *)
theory Radix_Tree imports Key_Prefix Lookup_Contract begin

text \<open>
  Radix trees over the bytes of a key, least significant first: what the pools of the trie organs START and ART stand
  for.  An inner node has the bytes all its keys share at its depth (the prefix), a span of one to three further bytes
  and its children by the value of the span; ART is the case of span one.  Nodes carry the pool reference they are stored at,
  and a pool is seen as a finite map from references to nodes (\<open>pool_view\<close>), so that both organs are edits of such
  maps.  A key's descent is a path (\<open>rt_path\<close>), which names the link that leads to the subtree it reaches and the whole
  tree as a function of that subtree.
\<close>

section \<open>Spans\<close>

definition span_mask :: "nat \<Rightarrow> u32" where
  "span_mask s = (if s = 1 then 0xFF else if s = 2 then 0xFFFF else 0xFFFFFF)"

text \<open>\<^verbatim>\<open>slice\<close>: the span's bytes of a key at depth \<open>d\<close>.\<close>
definition span_slice :: "u64 \<Rightarrow> nat \<Rightarrow> nat \<Rightarrow> u32" where
  "span_slice key d s = (if 8 \<le> d then 0 else ucast (drop_bit (d * 8) key AND ucast (span_mask s)))"

lemma bit_span_slice:
  assumes "d < 8" "1 \<le> s" "s \<le> 3"
  shows "bit (span_slice k d s) j \<longleftrightarrow> j < 8 * s \<and> bit k (8 * d + j)"
proof -
  have s: "s = 1 \<or> s = 2 \<or> s = 3" using assms(2,3) by auto
  then have "span_mask s = mask (8 * s)" by (auto simp: span_mask_def mask_eq_exp_minus_1)
  then show ?thesis using assms(1) s by (auto simp: span_slice_def bit_simps mult.commute dest: bit_imp_le_length)
qed

lemma span_slice_eq:
  assumes "d < 8" "1 \<le> s" "s \<le> 3"
  shows "span_slice a d s = span_slice b d s \<longleftrightarrow> (\<forall>i < s. kbyte a (d + i) = kbyte b (d + i))"
proof
  assume e: "span_slice a d s = span_slice b d s"
  show "\<forall>i < s. kbyte a (d + i) = kbyte b (d + i)"
  proof (intro allI impI kbyte_eqI)
    fix i j assume ij: "i < s" "j < (8 :: nat)"
    have "bit (span_slice a d s) (8 * i + j) = bit (span_slice b d s) (8 * i + j)" by (simp only: e)
    then show "bit a (8 * (d + i) + j) = bit b (8 * (d + i) + j)"
      using ij by (simp add: bit_span_slice [OF assms] algebra_simps)
  qed
next
  assume e: "\<forall>i < s. kbyte a (d + i) = kbyte b (d + i)"
  show "span_slice a d s = span_slice b d s"
  proof (rule bit_word_eqI)
    fix n
    show "bit (span_slice a d s) n = bit (span_slice b d s) n"
    proof (cases "n < 8 * s")
      case True
      then have "n div 8 < s" by (simp add: less_mult_imp_div_less mult.commute)
      then have "kbyte a (d + n div 8) = kbyte b (d + n div 8)" using e by blast
      then have b: "bit (kbyte a (d + n div 8)) (n mod 8) = bit (kbyte b (d + n div 8)) (n mod 8)" by simp
      have pos: "8 * (d + n div 8) + n mod 8 = 8 * d + n" by simp
      show ?thesis using b True unfolding bit_kbyte pos by (simp add: bit_span_slice [OF assms])
    qed (simp add: bit_span_slice [OF assms])
  qed
qed

section \<open>Keyed lists\<close>

text \<open>Children in the order of their keys.\<close>
abbreviation ks_sorted :: "('d :: linorder \<times> 'a) list \<Rightarrow> bool" where "ks_sorted ks \<equiv> sorted_wrt (<) (map fst ks)"

definition ks_put :: "'d :: linorder \<Rightarrow> 'a \<Rightarrow> ('d \<times> 'a) list \<Rightarrow> ('d \<times> 'a) list" where
  "ks_put d x ks = takeWhile (\<lambda>e. fst e < d) ks @ (d, x) # dropWhile (\<lambda>e. fst e \<le> d) ks"

definition ks_del :: "'d \<Rightarrow> ('d \<times> 'a) list \<Rightarrow> ('d \<times> 'a) list" where
  "ks_del d ks = filter (\<lambda>e. fst e \<noteq> d) ks"

lemma ks_put_Cons:
  "ks_put d x [] = [(d, x)]"
  "ks_put d x ((d', y) # ks) = (if d' < d then (d', y) # ks_put d x ks else if d' = d then (d, x) # dropWhile (\<lambda>e. fst e \<le> d) ks
     else (d, x) # (d', y) # ks)"
  by (auto simp: ks_put_def)

lemma ks_drop_all: "\<forall>e \<in> set ks. d < fst e \<Longrightarrow> dropWhile (\<lambda>e. fst e \<le> (d :: 'd :: linorder)) ks = ks"
  by (cases ks) auto

lemma ks_put_set: "ks_sorted ks \<Longrightarrow> set (ks_put d x ks) = Set.insert (d, x) {e \<in> set ks. fst e \<noteq> d}"
proof (induction ks)
  case (Cons e ks)
  obtain d' y where e: "e = (d', y)" by (cases e)
  show ?case using Cons ks_drop_all [of ks d'] by (auto simp: e ks_put_Cons)
qed (simp add: ks_put_Cons)

lemma ks_put_sorted: "ks_sorted ks \<Longrightarrow> ks_sorted (ks_put d x ks)"
proof (induction ks)
  case (Cons e ks)
  obtain d' y where e: "e = (d', y)" by (cases e)
  show ?case using Cons ks_put_set [of ks d x] ks_drop_all [of ks d] by (auto simp: e ks_put_Cons) force+
qed (simp add: ks_put_Cons)

lemma ks_del_sorted: "ks_sorted ks \<Longrightarrow> ks_sorted (ks_del d ks)"
  by (simp add: ks_del_def sorted_wrt_map sorted_wrt_filter)

lemma ks_put_mset: "ks_sorted ks \<Longrightarrow> mset (ks_put d x ks) = add_mset (d, x) (mset (ks_del d ks))"
proof (induction ks)
  case (Cons e ks)
  obtain d' y where e: "e = (d', y)" by (cases e)
  have "\<forall>e \<in> set ks. d < fst e \<Longrightarrow> ks_del d ks = ks" by (auto simp: ks_del_def filter_id_conv)
  moreover have "d \<le> d' \<Longrightarrow> \<forall>e \<in> set ks. d < fst e" using Cons.prems by (auto simp: e)
  ultimately show ?case using Cons ks_drop_all [of ks d] by (auto simp: e ks_put_Cons ks_del_def not_less simp del: mset_filter)
qed (simp add: ks_put_Cons ks_del_def)

lemma ks_sorted_distinct: "ks_sorted ks \<Longrightarrow> distinct (map fst ks)"
  by (simp add: strict_sorted_iff)

lemma ks_mem: "ks_sorted ks \<Longrightarrow> map_of ks d = Some y \<longleftrightarrow> (d, y) \<in> set ks"
  using ks_sorted_distinct map_of_eq_Some_iff by metis

lemma ks_take: "ks_sorted ks \<Longrightarrow> map_of ks d = Some y \<Longrightarrow> mset ks = add_mset (d, y) (mset (ks_del d ks))"
proof (induction ks)
  case (Cons e ks)
  obtain d' z where e: "e = (d', z)" by (cases e)
  have "\<forall>e \<in> set ks. d < fst e \<Longrightarrow> ks_del d ks = ks" by (auto simp: ks_del_def filter_id_conv)
  then show ?case using Cons by (auto simp: e ks_del_def simp del: mset_filter split: if_splits)
qed simp

lemma ks_del_none: "map_of ks d = None \<Longrightarrow> ks_del d ks = ks"
  by (auto simp: ks_del_def filter_id_conv map_of_eq_None_iff)

lemma ks_put_map: "map (apsnd f) (ks_put d x ks) = ks_put d (f x) (map (apsnd f) ks)"
  by (induction ks) (auto simp: ks_put_Cons(1), simp add: ks_put_def takeWhile_map dropWhile_map comp_def)

lemma ks_del_map: "map (apsnd f) (ks_del d ks) = ks_del d (map (apsnd f) ks)"
  by (simp add: ks_del_def filter_map comp_def)

lemma ks_map_of: "map_of (map (apsnd f) ks) d = map_option f (map_of ks d)"
  by (induction ks) auto

lemma ks_put_same: "ks_sorted ks \<Longrightarrow> map_of ks d = Some y \<Longrightarrow> ks_put d y ks = ks"
proof (induction ks)
  case (Cons e ks)
  obtain d' z where e: "e = (d', z)" by (cases e)
  show ?case using Cons ks_drop_all [of ks d] ks_mem [of ks d y] by (auto simp: e ks_put_Cons split: if_splits)
qed simp

lemma ks_put_lookup: "ks_sorted ks \<Longrightarrow> map_of (ks_put d x ks) = (map_of ks)(d \<mapsto> x)"
proof
  fix a assume s: "ks_sorted ks"
  have "map_of (ks_put d x ks) a = Some w \<longleftrightarrow> ((map_of ks)(d \<mapsto> x)) a = Some w" for w
    using ks_put_set [OF s, of d x] by (auto simp: ks_mem [OF ks_put_sorted [OF s]] ks_mem [OF s])
  then show "map_of (ks_put d x ks) a = ((map_of ks)(d \<mapsto> x)) a" by (metis not_Some_eq)
qed

section \<open>Trees\<close>

datatype rtree = RLeaf u64 u64 u64 | RNode u64 "u8 list" nat "(u32 \<times> rtree) list"

lemma rtree_child_size [termination_simp]: "e \<in> set kids \<Longrightarrow> size (snd e) < Suc (size_list (size_prod (\<lambda>x. 0) size) kids)"
  by (induction kids) (auto simp: size_prod_def split: prod.splits)

lemma rtree_induct [case_names RLeaf RNode]:
  assumes "\<And>r k v. P (RLeaf r k v)" "\<And>r P' sp kids. (\<And>e. e \<in> set kids \<Longrightarrow> P (snd e)) \<Longrightarrow> P (RNode r P' sp kids)"
  shows "P t"
proof (induction t)
  case (RNode r P' sp kids)
  then show ?case using assms(2) [of kids] by (metis snds.intros)
qed (rule assms(1))

primrec rt_ref :: "rtree \<Rightarrow> u64" where
  "rt_ref (RLeaf r k v) = r"
| "rt_ref (RNode r P sp kids) = r"

fun rt_recs :: "rtree \<Rightarrow> slot list" where
  "rt_recs (RLeaf r k v) = [(k, v)]"
| "rt_recs (RNode r P sp kids) = concat (map (\<lambda>e. rt_recs (snd e)) kids)"

fun rt_refs :: "rtree \<Rightarrow> u64 list" where
  "rt_refs (RLeaf r k v) = [r]"
| "rt_refs (RNode r P sp kids) = r # concat (map (\<lambda>e. rt_refs (snd e)) kids)"

abbreviation rt_keys :: "rtree \<Rightarrow> u64 set" where "rt_keys t \<equiv> fst ` set (rt_recs t)"

text \<open>Well-formed at depth \<open>d\<close>: every inner node ends before the key does, and its keys have its prefix and the
  value of the child's span.\<close>
fun rt_ok :: "nat \<Rightarrow> rtree \<Rightarrow> bool" where
  "rt_ok d (RLeaf r k v) \<longleftrightarrow> True"
| "rt_ok d (RNode r P sp kids) \<longleftrightarrow> d + length P < 8 \<and> 1 \<le> sp \<and> sp \<le> 3 \<and> ks_sorted kids
     \<and> (\<forall>e \<in> set kids. rt_ok (d + length P + sp) (snd e)
          \<and> (\<forall>k \<in> rt_keys (snd e). key_bytes k d (length P) = P \<and> span_slice k (d + length P) sp = fst e))"

lemma rt_ref_in: "rt_ref t \<in> set (rt_refs t)"
  by (cases t) simp_all

lemma rt_okD:
  assumes "rt_ok d (RNode r P sp kids)"
  shows "d + length P < 8" "1 \<le> sp" "sp \<le> 3" "ks_sorted kids"
    "e \<in> set kids \<Longrightarrow> rt_ok (d + length P + sp) (snd e)"
    "e \<in> set kids \<Longrightarrow> k \<in> rt_keys (snd e) \<Longrightarrow> key_bytes k d (length P) = P \<and> span_slice k (d + length P) sp = fst e"
  using assms by auto

lemma rt_keys_node: "rt_keys (RNode r P sp kids) = (\<Union>e \<in> set kids. rt_keys (snd e))"
  by (auto simp: image_UN)

lemma rt_distinct: "rt_ok d t \<Longrightarrow> distinct (map fst (rt_recs t))"
proof (induction d t rule: rt_ok.induct)
  case (2 d r P sp kids)
  note ok = rt_okD [OF 2(2)]
  have "ks_sorted ks \<Longrightarrow> set ks \<subseteq> set kids \<Longrightarrow> distinct (map fst (concat (map (\<lambda>e. rt_recs (snd e)) ks)))" for ks
  proof (induction ks)
    case (Cons e ks)
    have "fst ` set (rt_recs (snd e)) \<inter> fst ` (\<Union>e' \<in> set ks. set (rt_recs (snd e'))) = {}"
    proof (rule ccontr)
      assume "fst ` set (rt_recs (snd e)) \<inter> fst ` (\<Union>e' \<in> set ks. set (rt_recs (snd e'))) \<noteq> {}"
      then obtain e' k where e': "e' \<in> set ks" "k \<in> rt_keys (snd e)" "k \<in> rt_keys (snd e')" by auto
      have "e \<in> set kids" "e' \<in> set kids" using Cons.prems(2) e'(1) by auto
      then have "fst e = fst e'" using ok(6) e'(2,3) by metis
      then show False using Cons.prems(1) e'(1) by auto
    qed
    then show ?case using Cons 2(1) [of e] ok(5) [of e] by (auto simp: image_UN)
  qed simp
  from this [OF ok(4)] show ?case by simp
qed simp

section \<open>Paths\<close>

inductive rt_path :: "u64 \<Rightarrow> nat \<Rightarrow> rtree \<Rightarrow> (u64 \<times> u32) option \<Rightarrow> nat \<Rightarrow> rtree \<Rightarrow> (rtree \<Rightarrow> rtree) \<Rightarrow> bool" for k where
  rt_here: "rt_path k d t None d t (\<lambda>x. x)"
| rt_step: "key_bytes k d (length P) = P \<Longrightarrow> c = span_slice k (d + length P) sp \<Longrightarrow> map_of kids c = Some u \<Longrightarrow>
    rt_path k (d + length P + sp) u par d' s g \<Longrightarrow>
    rt_path k d (RNode r P sp kids) (Some (case par of None \<Rightarrow> (r, c) | Some l \<Rightarrow> l)) d' s (\<lambda>x. RNode r P sp (ks_put c (g x) kids))"

text \<open>Where a descent ends: a leaf, a different prefix or no child.\<close>
fun rt_stop :: "u64 \<Rightarrow> nat \<Rightarrow> rtree \<Rightarrow> bool" where
  "rt_stop k d (RLeaf r e v) \<longleftrightarrow> True"
| "rt_stop k d (RNode r P sp kids) \<longleftrightarrow> key_bytes k d (length P) \<noteq> P \<or> map_of kids (span_slice k (d + length P) sp) = None"

lemma rt_path_exists: "\<exists>par d' s g. rt_path k d t par d' s g \<and> rt_stop k d' s"
proof (induction t arbitrary: d rule: rtree_induct)
  case (RLeaf r e v)
  then show ?case by (metis rt_here rt_stop.simps(1))
next
  case (RNode r P sp kids)
  show ?case
  proof (cases "rt_stop k d (RNode r P sp kids)")
    case True
    then show ?thesis by (blast intro: rt_here)
  next
    case False
    then obtain u where u: "key_bytes k d (length P) = P" "map_of kids (span_slice k (d + length P) sp) = Some u" by auto
    have "(span_slice k (d + length P) sp, u) \<in> set kids" by (rule map_of_SomeD [OF u(2)])
    from RNode.IH [OF this, of "d + length P + sp"] show ?thesis using rt_step [OF u(1) refl u(2)] by (metis snd_conv)
  qed
qed

text \<open>The last link of a path: its target hangs below a node that the path reaches first.\<close>
lemma rt_path_last:
  "rt_path k d t par d' s g \<Longrightarrow> par = Some (q, c) \<Longrightarrow>
   \<exists>par' d0 P sp kids g'. rt_path k d t par' d0 (RNode q P sp kids) g' \<and> key_bytes k d0 (length P) = P
     \<and> c = span_slice k (d0 + length P) sp \<and> map_of kids c = Some s \<and> d' = d0 + length P + sp
     \<and> g = (\<lambda>x. g' (RNode q P sp (ks_put c x kids)))"
proof (induction arbitrary: rule: rt_path.induct)
  case (rt_step d P c' sp kids u par d' s g r)
  show ?case
  proof (cases par)
    case None
    have h: "d' = d + length P + sp" "s = u" "g = (\<lambda>x. x)" using rt_step(4) None by (auto elim: rt_path.cases)
    then show ?thesis using rt_step rt_here [of k d "RNode r P sp kids"] None
      by (intro exI [of _ None] exI [of _ d] exI [of _ P] exI [of _ sp] exI [of _ kids] exI [of _ "\<lambda>x. x"]) simp
  next
    case (Some l)
    then have "par = Some (q, c)" using rt_step.prems by simp
    from rt_step.IH [OF this] obtain par' d0 P' sp' kids' g' where i:
      "rt_path k (d + length P + sp) u par' d0 (RNode q P' sp' kids') g'" "key_bytes k d0 (length P') = P'"
      "c = span_slice k (d0 + length P') sp'" "map_of kids' c = Some s" "d' = d0 + length P' + sp'"
      "g = (\<lambda>x. g' (RNode q P' sp' (ks_put c x kids')))" by blast
    show ?thesis using rt_path.rt_step [OF rt_step(1,2,3) i(1)] i(2-6)
      by (intro exI [of _ "Some (case par' of None \<Rightarrow> (r, c') | Some l \<Rightarrow> l)"] exI [of _ d0] exI [of _ P'] exI [of _ sp'] exI [of _ kids']
          exI [of _ "\<lambda>x. RNode r P sp (ks_put c' (g' x) kids)"]) simp
  qed
qed simp

lemma sum_kids: "mset (concat (map f ks)) = (\<Sum>e \<in># mset ks. mset (f e))"
  by (induction ks) simp_all

lemma kid_split:
  assumes "ks_sorted kids" "map_of kids c = Some u"
  shows "mset (concat (map f kids)) = mset (f (c, u)) + mset (concat (map f (ks_del c kids)))"
    "mset (concat (map f (ks_put c x kids))) = mset (f (c, x)) + mset (concat (map f (ks_del c kids)))"
  unfolding sum_kids ks_take [OF assms] ks_put_mset [OF assms(1)] by simp_all

text \<open>What a replacement at the end of a path does to the tree's records and references.\<close>
lemma rt_path_contents:
  "rt_path k d t par d' s g \<Longrightarrow> rt_ok d t \<Longrightarrow>
   mset (rt_recs (g x)) + mset (rt_recs s) = mset (rt_recs t) + mset (rt_recs x)
   \<and> mset (rt_refs (g x)) + mset (rt_refs s) = mset (rt_refs t) + mset (rt_refs x)"
proof (induction rule: rt_path.induct)
  case (rt_step d P c sp kids u par d' s g r)
  note ok = rt_okD [OF rt_step.prems]
  have "rt_ok (d + length P + sp) u" using ok(5) [OF map_of_SomeD [OF rt_step(3)]] by simp
  note ih = rt_step.IH [OF this]
  have "mset (rt_recs (RNode r P sp (ks_put c (g x) kids))) + mset (rt_recs s)
      = mset (rt_recs (RNode r P sp kids)) + mset (rt_recs x)"
    using ih unfolding rt_recs.simps kid_split [OF ok(4) rt_step(3)] by (simp add: algebra_simps)
  moreover have "mset (rt_refs (RNode r P sp (ks_put c (g x) kids))) + mset (rt_refs s)
      = mset (rt_refs (RNode r P sp kids)) + mset (rt_refs x)"
    using ih unfolding rt_refs.simps mset.simps kid_split [OF ok(4) rt_step(3)] by (simp add: algebra_simps)
  ultimately show ?case by blast
qed simp

lemma rt_path_end:
  "rt_path k d t par d' s g \<Longrightarrow> rt_ok d t \<Longrightarrow>
   rt_ok d' s \<and> (k \<in> rt_keys t \<longleftrightarrow> k \<in> rt_keys s) \<and> rt_keys s \<subseteq> rt_keys t \<and> d \<le> d'
   \<and> (\<forall>e \<in> rt_keys s. \<forall>i. d \<le> i \<longrightarrow> i < d' \<longrightarrow> i < 8 \<longrightarrow> kbyte e i = kbyte k i)"
proof (induction rule: rt_path.induct)
  case (rt_step d P c sp kids u par d' s g r)
  note ok = rt_okD [OF rt_step.prems]
  have u: "(c, u) \<in> set kids" by (rule map_of_SomeD [OF rt_step(3)])
  note ih = rt_step.IH [OF ok(5) [OF u, unfolded snd_conv]]
  have "rt_keys u \<subseteq> rt_keys (RNode r P sp kids)" using u by force
  moreover have "k \<in> rt_keys u" if k: "k \<in> rt_keys (RNode r P sp kids)"
  proof -
    obtain e where e: "e \<in> set kids" "k \<in> rt_keys (snd e)" using k unfolding rt_keys_node by blast
    then have "fst e = c" using ok(6) rt_step(2) by metis
    then have "snd e = u" using e(1) u ks_mem [OF ok(4)] by (metis option.inject prod.collapse)
    then show ?thesis using e(2) by simp
  qed
  moreover have "kbyte e i = kbyte k i" if "e \<in> rt_keys s" "d \<le> i" "i < d'" "i < 8" for e i
  proof -
    have eu: "e \<in> rt_keys u" using ih that(1) by blast
    then have e: "key_bytes e d (length P) = P" "span_slice e (d + length P) sp = c" using ok(6) [OF u, of e] by simp_all
    consider "i < d + length P" | "d + length P \<le> i" "i < d + length P + sp" | "d + length P + sp \<le> i" by linarith
    then show ?thesis
    proof cases
      case 1
      then have j: "i - d < length P" "d + (i - d) = i" using that(2) by simp_all
      have "key_bytes e d (length P) ! (i - d) = key_bytes k d (length P) ! (i - d)" using e(1) rt_step(1) by simp
      then show ?thesis using j by simp
    next
      case 2
      then have j: "i - (d + length P) < sp" "d + length P + (i - (d + length P)) = i" by simp_all
      have "span_slice e (d + length P) sp = span_slice k (d + length P) sp" using e(2) rt_step(2) by simp
      then have "kbyte e (d + length P + (i - (d + length P))) = kbyte k (d + length P + (i - (d + length P)))"
        using span_slice_eq [OF ok(1,2,3)] j(1) by blast
      then show ?thesis unfolding j(2) .
    next
      case 3
      then show ?thesis using ih that(1,3,4) by blast
    qed
  qed
  ultimately show ?case using ih by force
qed auto

lemma rt_path_ok:
  "rt_path k d t par d' s g \<Longrightarrow> rt_ok d t \<Longrightarrow> rt_ok d' x \<Longrightarrow> rt_keys x \<subseteq> Set.insert k (rt_keys s) \<Longrightarrow>
   rt_ok d (g x) \<and> rt_keys (g x) \<subseteq> Set.insert k (rt_keys t)"
proof (induction rule: rt_path.induct)
  case (rt_step d P c sp kids u par d' s g r)
  note ok = rt_okD [OF rt_step.prems(1)]
  have u: "(c, u) \<in> set kids" by (rule map_of_SomeD [OF rt_step(3)])
  note ih = rt_step.IH [OF ok(5) [OF u, unfolded snd_conv] rt_step.prems(2,3)]
  have kids: "set (ks_put c (g x) kids) = Set.insert (c, g x) {e \<in> set kids. fst e \<noteq> c}" by (rule ks_put_set [OF ok(4)])
  have new: "key_bytes e d (length P) = P \<and> span_slice e (d + length P) sp = c" if "e \<in> rt_keys (g x)" for e
    using ih that ok(6) [OF u, of e] rt_step(1,2) by auto
  have "rt_ok (d + length P + sp) (snd e) \<and> (\<forall>a \<in> rt_keys (snd e). key_bytes a d (length P) = P \<and> span_slice a (d + length P) sp = fst e)"
    if "e \<in> set (ks_put c (g x) kids)" for e
  proof (cases "e = (c, g x)")
    case False
    then have "e \<in> set kids" using that kids by auto
    then show ?thesis using ok(5) ok(6) by blast
  qed (use ih new in \<open>simp only: fst_conv snd_conv\<close>, blast)
  then have "rt_ok d (RNode r P sp (ks_put c (g x) kids))"
    using ok(1-3) ks_put_sorted [OF ok(4)] unfolding rt_ok.simps by blast
  moreover have "rt_keys (RNode r P sp (ks_put c (g x) kids)) \<subseteq> Set.insert k (rt_keys (RNode r P sp kids))"
  proof
    fix e assume "e \<in> rt_keys (RNode r P sp (ks_put c (g x) kids))"
    then obtain y where y: "y \<in> Set.insert (c, g x) {e \<in> set kids. fst e \<noteq> c}" "e \<in> rt_keys (snd y)"
      unfolding rt_keys_node kids by blast
    have "e \<in> rt_keys (g x) \<or> (\<exists>y \<in> set kids. e \<in> rt_keys (snd y))"
      by (cases "y = (c, g x)") (use y in \<open>simp only: snd_conv simp_thms\<close>, use y in blast)
    then have "e \<in> Set.insert k (rt_keys u) \<or> (\<exists>y \<in> set kids. e \<in> rt_keys (snd y))" using ih by blast
    then show "e \<in> Set.insert k (rt_keys (RNode r P sp kids))" using u unfolding rt_keys_node by force
  qed
  ultimately show ?case by blast
qed simp

section \<open>Edits at the end of a path\<close>

lemma rt_put_map:
  assumes "rt_ok d t" "rt_ok d t'" "k \<notin> rt_keys t" "mset (rt_recs t') = add_mset (k, v) (mset (rt_recs t))"
  shows "map_of (rt_recs t') = (map_of (rt_recs t))(k \<mapsto> v)"
proof (rule map_of_distinct_insert [OF rt_distinct [OF assms(1)] rt_distinct [OF assms(2)]])
  have "{x \<in> set (rt_recs t). fst x \<noteq> k} = set (rt_recs t)" using assms(3) by force
  then show "set (rt_recs t') = Set.insert (k, v) {x \<in> set (rt_recs t). fst x \<noteq> k}"
    using arg_cong [OF assms(4), of set_mset] by simp
qed

lemma rt_take_map:
  assumes "rt_ok d t" "rt_ok d t'" "mset (rt_recs t) = add_mset (k, w) (mset (rt_recs t'))"
  shows "map_of (rt_recs t') = (map_of (rt_recs t))(k := None)" "map_of (rt_recs t) k = Some w"
proof -
  have d: "distinct (map fst (rt_recs t))" by (rule rt_distinct [OF assms(1)])
  have s: "set (rt_recs t) = Set.insert (k, w) (set (rt_recs t'))" using arg_cong [OF assms(3), of set_mset] by simp
  show "map_of (rt_recs t) k = Some w" using d s by (simp add: map_of_eq_Some_iff)
  have "mset (map fst (rt_recs t)) = add_mset k (mset (map fst (rt_recs t')))" using assms(3) by simp
  then have "mset (map fst (rt_recs t)) = mset (k # map fst (rt_recs t'))" by simp
  then have "distinct (k # map fst (rt_recs t'))" using d mset_eq_imp_distinct_iff by blast
  then have "k \<notin> rt_keys t'" by simp
  then show "map_of (rt_recs t') = (map_of (rt_recs t))(k := None)"
    by (intro map_of_distinct_remove [OF d rt_distinct [OF assms(2)]]) (auto simp: s)
qed

lemma rt_set_map:
  assumes "rt_ok d t" "rt_ok d t'" "mset (rt_recs t) = add_mset (k, w) M" "mset (rt_recs t') = add_mset (k, v) M"
  shows "map_of (rt_recs t') = (map_of (rt_recs t))(k \<mapsto> v)"
proof (rule map_of_distinct_insert [OF rt_distinct [OF assms(1)] rt_distinct [OF assms(2)]])
  obtain ms where ms: "mset ms = M" using ex_mset ..
  then have "mset (map fst (rt_recs t)) = mset (k # map fst ms)" using assms(3) by simp
  then have "distinct (k # map fst ms)" using rt_distinct [OF assms(1)] mset_eq_imp_distinct_iff by blast
  then have "k \<notin># image_mset fst M" by (simp add: ms [symmetric])
  moreover have "set (rt_recs t) = Set.insert (k, w) (set_mset M)" "set (rt_recs t') = Set.insert (k, v) (set_mset M)"
    using arg_cong [OF assms(3), of set_mset] arg_cong [OF assms(4), of set_mset] by simp_all
  ultimately show "set (rt_recs t') = Set.insert (k, v) {x \<in> set (rt_recs t). fst x \<noteq> k}" by force
qed

section \<open>Pools as maps of nodes\<close>

datatype node_view = Leaf_View u64 u64 | Inner_View "u8 list" nat "(u32 \<times> u64) list"

type_synonym pool_view = "u64 \<Rightarrow> node_view option"

fun rt_rep :: "pool_view \<Rightarrow> rtree \<Rightarrow> bool" where
  "rt_rep V (RLeaf r k v) \<longleftrightarrow> V r = Some (Leaf_View k v)"
| "rt_rep V (RNode r P sp kids) \<longleftrightarrow> V r = Some (Inner_View P sp (map (apsnd rt_ref) kids)) \<and> (\<forall>e \<in> set kids. rt_rep V (snd e))"

text \<open>Turning the link that leads to a subtree to another node.\<close>
definition relink :: "(u64 \<times> u32) option \<Rightarrow> u64 \<Rightarrow> pool_view \<Rightarrow> pool_view" where
  "relink par x V = (case par of None \<Rightarrow> V
     | Some (q, c) \<Rightarrow> V(q := map_option (\<lambda>n. case n of Inner_View P sp ks \<Rightarrow> Inner_View P sp (ks_put c x ks) | Leaf_View k v \<Rightarrow> n) (V q)))"

lemma rt_rep_cong: "rt_rep V t \<Longrightarrow> \<forall>r \<in> set (rt_refs t). W r = V r \<Longrightarrow> rt_rep W t"
  by (induction t rule: rtree_induct) auto

lemma rt_rep_dom: "rt_rep V t \<Longrightarrow> set (rt_refs t) \<subseteq> dom V"
  by (induction t rule: rtree_induct) auto

text \<open>The link named by a path lies in the tree, outside the subtree.\<close>
lemma rt_path_link: "rt_path k d t par d' s g \<Longrightarrow> set (rt_refs s) \<subseteq> set (rt_refs t)
    \<and> (par = None \<longrightarrow> s = t \<and> g = (\<lambda>x. x) \<and> d' = d) \<and> (\<forall>q c. par = Some (q, c) \<longrightarrow> q \<in> set (rt_refs t) \<and> rt_ref (g x) = rt_ref t)"
proof (induction rule: rt_path.induct)
  case (rt_step d P c sp kids u par d' s g r)
  have u: "(c, u) \<in> set kids" by (rule map_of_SomeD [OF rt_step(3)])
  have "set (rt_refs u) \<subseteq> set (rt_refs (RNode r P sp kids))" using u by force
  then show ?case using rt_step.IH by (auto split: option.splits)
qed simp

lemma distinct_concat_disjoint:
  "distinct (concat (map f ks)) \<Longrightarrow> e \<in> set ks \<Longrightarrow> e' \<in> set ks \<Longrightarrow> e \<noteq> e' \<Longrightarrow> set (f e) \<inter> set (f e') = {}"
  by (induction ks) auto

lemma distinct_concat_part: "distinct (concat (map f ks)) \<Longrightarrow> e \<in> set ks \<Longrightarrow> distinct (f e)"
  by (induction ks) auto

lemma rt_path_update:
  "rt_path k d t par d' s g \<Longrightarrow> rt_rep V t \<Longrightarrow> rt_ok d t \<Longrightarrow> distinct (rt_refs t) \<Longrightarrow>
   \<forall>r \<in> set (rt_refs t) - set (rt_refs s). W r = relink par (rt_ref x) V r \<Longrightarrow> rt_rep W x \<Longrightarrow> rt_rep W (g x)"
proof (induction rule: rt_path.induct)
  case (rt_step d P c sp kids u par d' s g r)
  note ok = rt_okD [OF rt_step.prems(2)]
  have u: "(c, u) \<in> set kids" by (rule map_of_SomeD [OF rt_step(3)])
  have rep: "V r = Some (Inner_View P sp (map (apsnd rt_ref) kids))" "\<And>e. e \<in> set kids \<Longrightarrow> rt_rep V (snd e)" using rt_step.prems(1) by auto
  have oku: "rt_ok (d + length P + sp) u" "rt_rep V u" using ok(5) [OF u] rep(2) [OF u] by simp_all
  have dist: "distinct (concat (map (\<lambda>e. rt_refs (snd e)) kids))" "r \<notin> (\<Union>e \<in> set kids. set (rt_refs (snd e)))"
    using rt_step.prems(3) by simp_all
  have refs: "r \<notin> set (rt_refs u)" "distinct (rt_refs u)" "set (rt_refs u) \<subseteq> set (rt_refs (RNode r P sp kids))"
    using dist(2) u distinct_concat_part [OF dist(1) u] by force+
  note L = rt_path_link [OF rt_step(4), where x = x]
  then have Lu: "set (rt_refs s) \<subseteq> set (rt_refs u)" by blast
  define l where "l = (case par of None \<Rightarrow> (r, c) | Some l \<Rightarrow> l)"
  have W: "W a = relink (Some l) (rt_ref x) V a" if "a \<in> set (rt_refs (RNode r P sp kids))" "a \<notin> set (rt_refs s)" for a
    using rt_step.prems(4) that by (simp only: l_def) blast
  have other: "rt_rep W (snd e)" if e: "e \<in> set kids" "fst e \<noteq> c" for e
  proof (rule rt_rep_cong [OF rep(2) [OF e(1)]], rule ballI)
    fix a assume a: "a \<in> set (rt_refs (snd e))"
    have au: "a \<notin> set (rt_refs u)" using distinct_concat_disjoint [OF dist(1) e(1) u] e(2) a by force
    have "a \<noteq> r" using dist(2) e(1) a by blast
    have "a \<in> set (rt_refs (RNode r P sp kids))" using e(1) a by auto
    then have "W a = relink (Some l) (rt_ref x) V a" using W au Lu by blast
    moreover have "fst l \<in> Set.insert r (set (rt_refs u))" using L by (cases par) (auto simp: l_def)
    ultimately show "W a = V a" using au \<open>a \<noteq> r\<close> by (cases l) (auto simp: relink_def)
  qed
  have r: "W r = Some (Inner_View P sp (map (apsnd rt_ref) (ks_put c (g x) kids)))"
  proof -
    have wr: "W r = relink (Some l) (rt_ref x) V r" using W refs(1) Lu by auto
    show ?thesis
    proof (cases par)
      case None
      then have "g x = x" "l = (r, c)" using L by (simp_all add: l_def)
      then show ?thesis using wr rep(1) by (simp add: relink_def ks_put_map)
    next
      case (Some q)
      obtain q1 q2 where q: "q = (q1, q2)" by (cases q)
      have "q1 \<in> set (rt_refs u)" "rt_ref (g x) = rt_ref u" using L Some q by blast+
      moreover have "ks_put c (rt_ref u) (map (apsnd rt_ref) kids) = map (apsnd rt_ref) kids"
        using ks_put_same [of "map (apsnd rt_ref) kids" c "rt_ref u"] ok(4) rt_step(3) by (simp add: ks_map_of comp_def)
      moreover have "q1 \<noteq> r" using \<open>q1 \<in> set (rt_refs u)\<close> refs(1) by blast
      ultimately show ?thesis using wr rep(1) Some q by (simp add: relink_def l_def ks_put_map)
    qed
  qed
  have "\<forall>a \<in> set (rt_refs u) - set (rt_refs s). W a = relink par (rt_ref x) V a"
  proof
    fix a assume a: "a \<in> set (rt_refs u) - set (rt_refs s)"
    then have "W a = relink (Some l) (rt_ref x) V a" using W refs(3) by blast
    moreover have "a \<noteq> r" using a refs(1) by blast
    moreover have "par = None \<Longrightarrow> False" using L a by auto
    ultimately show "W a = relink par (rt_ref x) V a" by (cases par) (auto simp: l_def)
  qed
  then have g: "rt_rep W (g x)" using rt_step.IH [OF oku(2,1) refs(2)] rt_step.prems(5) by blast
  show ?case
  proof -
    have "rt_rep W (snd e)" if "e \<in> set (ks_put c (g x) kids)" for e
    proof (cases "e = (c, g x)")
      case False
      then show ?thesis using that other [of e] unfolding ks_put_set [OF ok(4)] by blast
    qed (use g in simp)
    then show ?thesis using r by simp
  qed
qed simp

section \<open>New subtrees\<close>

lemma span_slice_1: "d < 8 \<Longrightarrow> span_slice k d 1 = ucast (kbyte k d)"
proof (rule bit_word_eqI)
  fix n assume "d < 8"
  then have "bit (span_slice k d 1) n \<longleftrightarrow> n < 8 \<and> bit k (8 * d + n)" using bit_span_slice [of d 1 k n] by simp
  then show "bit (span_slice k d 1) n = bit (ucast (kbyte k d) :: u32) n" by (auto simp only: bit_ucast_iff bit_kbyte) auto
qed

lemma ucast_u8_inj: "(ucast (a :: u8) :: u32) = ucast (b :: u8) \<longleftrightarrow> a = b"
proof -
  have u: "unat (ucast w :: u32) = unat w" for w :: u8
  proof -
    have "unat w < 2 ^ LENGTH(8)" by (rule unsigned_less)
    then show ?thesis by (simp add: unsigned_ucast_eq take_bit_nat_eq_self)
  qed
  show ?thesis
  proof
    assume "(ucast a :: u32) = ucast b"
    then have "unat a = unat b" using u by metis
    then show "a = b" by (simp only: word_unat_eq_iff)
  qed simp
qed

text \<open>Two keys that differ only from depth \<open>d\<close> on: the length they share there.\<close>
lemma split_len:
  assumes "e \<noteq> k" "\<And>i. i < d \<Longrightarrow> i < 8 \<Longrightarrow> kbyte e i = kbyte k i" "n = shared_len (drop_bit (d * 8) e) (drop_bit (d * 8) k) 7"
  shows "d + n < 8" "kbyte e (d + n) \<noteq> kbyte k (d + n)" "\<And>i. i < n \<Longrightarrow> kbyte e (d + i) = kbyte k (d + i)"
proof -
  have n: "n = shared_len (drop_bit (8 * d) e) (drop_bit (8 * d) k) 7" using assms(3) by (simp add: mult.commute)
  show same: "kbyte e (d + i) = kbyte k (d + i)" if "i < n" for i
    using shared_len_ok(2) [of 7 i "drop_bit (8 * d) e" "drop_bit (8 * d) k"] that by (simp add: n kbyte_drop)
  have le: "n \<le> 7" using shared_len_ok(1) [of 7] by (simp add: n)
  obtain j where j: "j < 8" "kbyte e j \<noteq> kbyte k j" using assms(1) key_bytes_all by blast
  have dj: "d + n \<le> j"
  proof (rule ccontr)
    assume "\<not> d + n \<le> j"
    then have "j < d \<or> (\<exists>i < n. j = d + i)" by (metis add.commute le_add_diff_inverse2 not_less add_less_cancel_right)
    then show False using assms(2) same j by blast
  qed
  then show l: "d + n < 8" using j(1) by simp
  show "kbyte e (d + n) \<noteq> kbyte k (d + n)"
  proof (cases "n < 7")
    case True
    then show ?thesis using shared_len_ok(3) [of 7 "drop_bit (8 * d) e" "drop_bit (8 * d) k"] by (simp add: n [symmetric] kbyte_drop)
  next
    case False
    then have "j = d + n" using le l dj j(1) by simp
    then show ?thesis using j(2) by simp
  qed
qed

abbreviation two_kids :: "u32 \<Rightarrow> rtree \<Rightarrow> u32 \<Rightarrow> rtree \<Rightarrow> (u32 \<times> rtree) list" where
  "two_kids c1 t1 c2 t2 \<equiv> ks_put c2 t2 (ks_put c1 t1 [])"

lemma two_kids_ok:
  assumes "a \<noteq> b"
  shows "ks_sorted (two_kids a s b t)" "set (two_kids a s b t) = {(a, s), (b, t)}" "mset (two_kids a s b t) = {#(a, s), (b, t)#}"
  using assms by (auto simp: ks_put_Cons)

text \<open>A leaf makes place for a fork over both leaves.\<close>
lemma leaf_split_ok:
  assumes "e \<noteq> k" "\<And>i. i < d \<Longrightarrow> i < 8 \<Longrightarrow> kbyte e i = kbyte k i" "n = shared_len (drop_bit (d * 8) e) (drop_bit (d * 8) k) 7"
    "1 \<le> sp" "sp \<le> 3"
    "x = RNode nn (key_bytes k d n) sp (two_kids (span_slice e (d + n) sp) (RLeaf r e w) (span_slice k (d + n) sp) (RLeaf lf k v))"
  shows "rt_ok d x" "span_slice e (d + n) sp \<noteq> span_slice k (d + n) sp" "mset (rt_recs x) = {#(k, v), (e, w)#}"
    "mset (rt_refs x) = {#nn, r, lf#}"
proof -
  note L = split_len [OF assms(1,2,3)]
  show c: "span_slice e (d + n) sp \<noteq> span_slice k (d + n) sp"
    using L(2) span_slice_eq [OF L(1) assms(4,5), of e k] assms(4) by (metis add_0_right less_eq_Suc_le One_nat_def)
  note K = two_kids_ok [OF c, where s = "RLeaf r e w" and t = "RLeaf lf k v"]
  have "key_bytes e d n = key_bytes k d n" using L(3) by (simp add: list_eq_iff_nth_eq)
  then show "rt_ok d x" using L(1) assms(4,5) K(1) unfolding assms(6) rt_ok.simps K(2) by simp
  show "mset (rt_recs x) = {#(k, v), (e, w)#}" unfolding assms(6) rt_recs.simps sum_kids K(3) by simp
  show "mset (rt_refs x) = {#nn, r, lf#}" unfolding assms(6) rt_refs.simps mset.simps sum_kids K(3) by simp
qed

text \<open>A node whose prefix ends differently is put below a fork on the first different byte.\<close>
lemma prefix_split_ok:
  assumes "rt_ok d (RNode r P sp kids)" "n < length P" "take n P = key_bytes k d n" "P ! n \<noteq> kbyte k (d + n)"
    "x = RNode nn (take n P) 1 (two_kids (ucast (P ! n)) (RNode r (drop (Suc n) P) sp kids) (span_slice k (d + n) 1) (RLeaf lf k v))"
  shows "rt_ok d x" "ucast (P ! n) \<noteq> span_slice k (d + n) 1" "mset (rt_recs x) = add_mset (k, v) (mset (rt_recs (RNode r P sp kids)))"
    "mset (rt_refs x) = add_mset nn (add_mset lf (mset (rt_refs (RNode r P sp kids))))"
proof -
  note ok = rt_okD [OF assms(1)]
  have l: "d + n < 8" using ok(1) assms(2) by simp
  note s1 = span_slice_1 [OF l]
  show c: "(ucast (P ! n) :: u32) \<noteq> span_slice k (d + n) 1" using assms(4) unfolding s1 ucast_u8_inj .
  note K = two_kids_ok [OF c, where s = "RNode r (drop (Suc n) P) sp kids" and t = "RLeaf lf k v"]
  have sub: "rt_ok (d + n + 1) (RNode r (drop (Suc n) P) sp kids)"
  proof -
    have e: "d + n + 1 + length (drop (Suc n) P) = d + length P" using assms(2) by simp
    have k: "key_bytes a (d + n + 1) (length (drop (Suc n) P)) = drop (Suc n) P" if "key_bytes a d (length P) = P" for a
    proof -
      have "\<And>i. i < length P \<Longrightarrow> kbyte a (d + i) = P ! i" using that unfolding key_bytes_eq_iff by blast
      from this [of "n + 1 + _"] show ?thesis unfolding key_bytes_eq_iff by (simp add: algebra_simps)
    qed
    show ?thesis unfolding rt_ok.simps e using ok k by blast
  qed
  have keys: "key_bytes a d (length (take n P)) = take n P \<and> span_slice a (d + n) 1 = ucast (P ! n)"
    if "a \<in> rt_keys (RNode r P sp kids)" for a
  proof -
    have "key_bytes a d (length P) = P" using that ok(6) unfolding rt_keys_node by blast
    then have "\<And>i. i < length P \<Longrightarrow> kbyte a (d + i) = P ! i" unfolding key_bytes_eq_iff by blast
    then show ?thesis using assms(2) span_slice_1 [OF l, of a] by (auto simp: key_bytes_eq_iff)
  qed
  have same: "rt_keys (RNode r (drop (Suc n) P) sp kids) = rt_keys (RNode r P sp kids)" by simp
  show "rt_ok d x"
  proof -
    have ln: "length (take n P) = n" using assms(2) by simp
    have old: "rt_ok (d + n + 1) (RNode r (drop (Suc n) P) sp kids)
        \<and> (\<forall>a \<in> rt_keys (RNode r (drop (Suc n) P) sp kids). key_bytes a d n = take n P \<and> span_slice a (d + n) 1 = ucast (P ! n))"
      using sub keys unfolding same ln by blast
    have new: "rt_ok (d + n + 1) (RLeaf lf k v) \<and> (\<forall>a \<in> rt_keys (RLeaf lf k v). key_bytes a d n = take n P \<and> span_slice a (d + n) 1 = span_slice k (d + n) 1)"
      using assms(3) by simp
    show ?thesis unfolding assms(5) rt_ok.simps(2) [of _ nn] ln using l K(1) old new unfolding K(2) by (simp del: rt_ok.simps rt_recs.simps)
  qed
  show "mset (rt_recs x) = add_mset (k, v) (mset (rt_recs (RNode r P sp kids)))"
    unfolding assms(5) rt_recs.simps(2) [of nn] sum_kids K(3) by simp
  show "mset (rt_refs x) = add_mset nn (add_mset lf (mset (rt_refs (RNode r P sp kids))))"
    unfolding assms(5) rt_refs.simps(2) [of nn] mset.simps sum_kids K(3) by simp
qed

text \<open>A new child, and a child less; the node may move to another reference.\<close>
lemma child_put_ok:
  assumes "rt_ok d (RNode r P sp kids)" "key_bytes k d (length P) = P" "c = span_slice k (d + length P) sp" "map_of kids c = None"
    "x = RNode r' P sp (ks_put c (RLeaf lf k v) kids)"
  shows "rt_ok d x" "mset (rt_recs x) = add_mset (k, v) (mset (rt_recs (RNode r P sp kids)))"
    "mset (rt_refs x) + {#r#} = add_mset r' (add_mset lf (mset (rt_refs (RNode r P sp kids))))"
proof -
  note ok = rt_okD [OF assms(1)]
  have m: "mset (ks_put c (RLeaf lf k v) kids) = add_mset (c, RLeaf lf k v) (mset kids)"
    by (simp add: ks_put_mset [OF ok(4)] ks_del_none [OF assms(4)])
  have s: "set (ks_put c (RLeaf lf k v) kids) = Set.insert (c, RLeaf lf k v) (set kids)" using arg_cong [OF m, of set_mset] by simp
  show "rt_ok d x" using ok ks_put_sorted [OF ok(4)] assms(2,3) unfolding assms(5) rt_ok.simps s by simp
  show "mset (rt_recs x) = add_mset (k, v) (mset (rt_recs (RNode r P sp kids)))" unfolding assms(5) rt_recs.simps sum_kids m by simp
  show "mset (rt_refs x) + {#r#} = add_mset r' (add_mset lf (mset (rt_refs (RNode r P sp kids))))"
    unfolding assms(5) rt_refs.simps mset.simps sum_kids m by simp
qed

lemma child_del_ok:
  assumes "rt_ok d (RNode r P sp kids)" "map_of kids c = Some (RLeaf lf k v)" "x = RNode r' P sp (ks_del c kids)"
  shows "rt_ok d x" "mset (rt_recs (RNode r P sp kids)) = add_mset (k, v) (mset (rt_recs x))"
    "mset (rt_refs (RNode r P sp kids)) + {#r'#} = add_mset r (add_mset lf (mset (rt_refs x)))"
proof -
  note ok = rt_okD [OF assms(1)]
  note m = ks_take [OF ok(4) assms(2)]
  have "set (ks_del c kids) \<subseteq> set kids" by (auto simp: ks_del_def)
  then show "rt_ok d x" using assms(1) ks_del_sorted [OF ok(4)] unfolding assms(3) rt_ok.simps by blast
  show "mset (rt_recs (RNode r P sp kids)) = add_mset (k, v) (mset (rt_recs x))" unfolding assms(3) rt_recs.simps sum_kids m by simp
  show "mset (rt_refs (RNode r P sp kids)) + {#r'#} = add_mset r (add_mset lf (mset (rt_refs x)))"
    unfolding assms(3) rt_refs.simps mset.simps sum_kids m by simp
qed

section \<open>Reading a prefix\<close>

text \<open>What is left of a key at a depth.\<close>
definition key_rest :: "u64 \<Rightarrow> nat \<Rightarrow> u64" where
  "key_rest key depth = (if 8 \<le> depth then 0 else drop_bit (depth * 8) key)"

lemma kbyte_key_rest: "d < 8 \<Longrightarrow> kbyte (key_rest k d) i = kbyte k (d + i)" "d < 8 \<Longrightarrow> key_bytes (key_rest k d) 0 n = key_bytes k d n"
proof -
  show r: "kbyte (key_rest k d) i = kbyte k (d + i)" if "d < 8" for i
    using that kbyte_drop [of d k i] by (simp add: key_rest_def mult.commute)
  show "d < 8 \<Longrightarrow> key_bytes (key_rest k d) 0 n = key_bytes k d n" by (simp add: list_eq_iff_nth_eq r)
qed

lemma prefix_match:
  assumes "kp_length px \<le> 7" "d < 8" "n = common_prefix_len px (key_rest k d)"
  shows "n < kp_length px \<longleftrightarrow> key_bytes k d (kp_length px) \<noteq> kp_bytes px" "take n (kp_bytes px) = key_bytes k d n"
    "n < kp_length px \<Longrightarrow> kp_bytes px ! n \<noteq> kbyte k (d + n)"
  using common_prefix_len_ok [OF assms(1), of "key_rest k d"] assms(2)
  unfolding assms(3) [symmetric] by (auto simp: kbyte_key_rest)

section \<open>Pools that stand for a tree\<close>

definition pool_tree :: "pool_view \<Rightarrow> rtree \<Rightarrow> bool" where
  "pool_tree V t \<longleftrightarrow> rt_rep V t \<and> rt_ok 0 t \<and> distinct (rt_refs t) \<and> dom V = set (rt_refs t)"

text \<open>Replacing the subtree at the end of a path: the new subtree's nodes, and the link turned to it.\<close>
lemma pool_tree_edit:
  assumes "pool_tree V t" "rt_path k 0 t par d s g" "rt_ok d x" "rt_keys x \<subseteq> Set.insert k (rt_keys s)"
    "rt_rep W x" "distinct (rt_refs x)" "set (rt_refs x) \<inter> (set (rt_refs t) - set (rt_refs s)) = {}"
    "dom W = (dom V - set (rt_refs s)) \<union> set (rt_refs x)"
    "\<forall>r \<in> set (rt_refs t) - set (rt_refs s). W r = relink par (rt_ref x) V r"
  shows "pool_tree W (g x)" "mset (rt_recs (g x)) + mset (rt_recs s) = mset (rt_recs t) + mset (rt_recs x)"
    "rt_ref (g x) = (if par = None then rt_ref x else rt_ref t)"
proof -
  have t: "rt_rep V t" "rt_ok 0 t" "distinct (rt_refs t)" "dom V = set (rt_refs t)" using assms(1) by (simp_all add: pool_tree_def)
  note C = rt_path_contents [OF assms(2) t(2), of x]
  show "mset (rt_recs (g x)) + mset (rt_recs s) = mset (rt_recs t) + mset (rt_recs x)" using C by blast
  note L = rt_path_link [OF assms(2), of x]
  show "rt_ref (g x) = (if par = None then rt_ref x else rt_ref t)" using L by (cases par) auto
  have sub: "mset (rt_refs s) \<subseteq># mset (rt_refs t)"
  proof -
    have "mset (rt_refs (g s)) + mset (rt_refs s) = mset (rt_refs t) + mset (rt_refs s)"
      using rt_path_contents [OF assms(2) t(2), of s] by blast
    have d: "distinct (rt_refs s)"
      using assms(2) t(3) by (induction rule: rt_path.induct) (auto dest: map_of_SomeD distinct_concat_part)
    then show ?thesis using L by (simp add: mset_set_set [symmetric] t(3) subset_imp_msubset_mset_set)
  qed
  then obtain N where N: "mset (rt_refs t) = mset (rt_refs s) + N" by (metis subset_mset.le_iff_add)
  then have gx: "mset (rt_refs (g x)) = mset (rt_refs x) + N" using C by simp
  obtain ns where ns: "mset ns = N" using ex_mset ..
  have "mset (rt_refs t) = mset (rt_refs s @ ns)" by (simp add: N ns)
  then have dn: "distinct (rt_refs s @ ns)" using t(3) mset_eq_imp_distinct_iff by blast
  have st: "set (rt_refs t) = set (rt_refs s) \<union> set ns" using arg_cong [OF N, of set_mset] by (simp add: ns [symmetric])
  then have "set ns = set (rt_refs t) - set (rt_refs s)" using dn by auto
  then have "distinct (rt_refs x @ ns)" using dn assms(6,7) by auto
  moreover have "mset (rt_refs (g x)) = mset (rt_refs x @ ns)" using gx ns by simp
  ultimately have "distinct (rt_refs (g x))" using mset_eq_imp_distinct_iff by blast
  moreover have "dom W = set (rt_refs (g x))"
    using arg_cong [OF gx, of set_mset] assms(8) t(4) \<open>set ns = set (rt_refs t) - set (rt_refs s)\<close> by (simp add: ns [symmetric] Un_commute)
  ultimately show "pool_tree W (g x)"
    using rt_path_update [OF assms(2) t(1,2,3) assms(9,5)] rt_path_ok [OF assms(2) t(2) assms(3,4)] by (simp add: pool_tree_def)
qed


text \<open>The link of a path lies outside the subtree it leads to, and leads to it.\<close>
lemma rt_path_distinct: "rt_path k d t par d' s g \<Longrightarrow> distinct (rt_refs t) \<Longrightarrow> distinct (rt_refs s)"
  by (induction rule: rt_path.induct) (auto dest: map_of_SomeD distinct_concat_part)

lemma rt_path_recs: "rt_path k d t par d' s g \<Longrightarrow> set (rt_recs s) \<subseteq> set (rt_recs t)"
proof (induction rule: rt_path.induct)
  case (rt_step d P c sp kids u par d' s g r)
  have "set (rt_recs u) \<subseteq> set (rt_recs (RNode r P sp kids))" using map_of_SomeD [OF rt_step(3)] by force
  then show ?case using rt_step.IH by blast
qed simp

lemma rt_path_rep: "rt_path k d t par d' s g \<Longrightarrow> rt_rep V t \<Longrightarrow> rt_rep V s"
proof (induction rule: rt_path.induct)
  case (rt_step d P c sp kids u par d' s g r)
  then show ?case using map_of_SomeD [OF rt_step(3)] by fastforce
qed

lemma rt_path_outside:
  assumes "rt_path k 0 t (Some (q, c)) d s g" "pool_tree V t"
  shows "q \<in> set (rt_refs t) - set (rt_refs s)"
    "\<exists>P sp ks. V q = Some (Inner_View P sp ks) \<and> ks_sorted ks \<and> map_of ks c = Some (rt_ref s)"
proof -
  have t: "rt_rep V t" "rt_ok 0 t" "distinct (rt_refs t)" using assms(2) by (simp_all add: pool_tree_def)
  obtain par' d0 P sp kids g' where l: "rt_path k 0 t par' d0 (RNode q P sp kids) g'" "map_of kids c = Some s"
    using rt_path_last [OF assms(1) refl] by blast
  have "set (rt_refs (RNode q P sp kids)) \<subseteq> set (rt_refs t)" by (rule rt_path_link [OF l(1), THEN conjunct1])
  moreover have "q \<notin> set (rt_refs s)" using rt_path_distinct [OF l(1) t(3)] map_of_SomeD [OF l(2)] by fastforce
  ultimately show "q \<in> set (rt_refs t) - set (rt_refs s)" by auto
  have "V q = Some (Inner_View P sp (map (apsnd rt_ref) kids))" using rt_path_rep [OF l(1) t(1)] by simp
  moreover have "ks_sorted kids" using rt_path_end [OF l(1) t(2)] by auto
  ultimately show "\<exists>P sp ks. V q = Some (Inner_View P sp ks) \<and> ks_sorted ks \<and> map_of ks c = Some (rt_ref s)"
    using l(2) by (intro exI conjI) (auto simp: ks_map_of comp_def)
qed

lemma pool_tree_relink:
  assumes "pool_tree V t" "rt_path k 0 t par d s g" "rt_ok d x" "rt_keys x \<subseteq> Set.insert k (rt_keys s)"
    "rt_rep W x" "distinct (rt_refs x)" "set (rt_refs x) \<inter> (set (rt_refs t) - set (rt_refs s)) = {}"
    "dom W = (dom V - set (rt_refs s)) \<union> set (rt_refs x)" "\<forall>r \<in> set (rt_refs t) - set (rt_refs s). W r = V r"
  shows "pool_tree (relink par (rt_ref x) W) (g x)" "rt_ref (g x) = (if par = None then rt_ref x else rt_ref t)"
    "mset (rt_recs (g x)) + mset (rt_recs s) = mset (rt_recs t) + mset (rt_recs x)"
proof -
  have q: "q \<in> set (rt_refs t) - set (rt_refs s)" if "par = Some (q, c)" for q c
    using rt_path_outside(1) [OF assms(2) [unfolded that] assms(1)] .
  have rep: "rt_rep (relink par (rt_ref x) W) x"
  proof (rule rt_rep_cong [OF assms(5)], rule ballI)
    fix a assume a: "a \<in> set (rt_refs x)"
    show "relink par (rt_ref x) W a = W a"
    proof (cases par)
      case (Some l)
      then have "a \<noteq> fst l" using q [of "fst l" "snd l"] assms(7) a by auto
      then show ?thesis by (cases l) (simp add: Some relink_def)
    qed (simp add: relink_def)
  qed
  have dom: "dom (relink par (rt_ref x) W) = dom W"
  proof (cases par)
    case (Some l)
    then have "fst l \<in> dom V" using q [of "fst l" "snd l"] assms(1) by (simp add: pool_tree_def)
    then have "fst l \<in> dom W" using q [of "fst l" "snd l"] assms(8) Some by simp
    then show ?thesis by (cases l) (auto simp: Some relink_def)
  qed (simp add: relink_def)
  have same: "\<forall>r \<in> set (rt_refs t) - set (rt_refs s). relink par (rt_ref x) W r = relink par (rt_ref x) V r"
    using assms(9) by (cases par) (auto simp: relink_def)
  note E = pool_tree_edit [OF assms(1,2,3,4) rep assms(6,7) _ same, unfolded dom, OF assms(8)]
  show "pool_tree (relink par (rt_ref x) W) (g x)" "rt_ref (g x) = (if par = None then rt_ref x else rt_ref t)"
    "mset (rt_recs (g x)) + mset (rt_recs s) = mset (rt_recs t) + mset (rt_recs x)" by (fact E)+
qed

text \<open>A link that leads to the same reference as before need not be turned.\<close>
lemma relink_same:
  assumes "pool_tree V t" "rt_path k 0 t par d s g" "\<forall>r \<in> set (rt_refs t) - set (rt_refs s). W r = V r"
  shows "relink par (rt_ref s) W = W"
proof (cases par)
  case (Some l)
  obtain q c where l: "l = (q, c)" by (cases l)
  note O = rt_path_outside [OF assms(2) [unfolded Some l] assms(1)]
  have wq: "W q = V q" using assms(3) O(1) by blast
  obtain P sp ks where "V q = Some (Inner_View P sp ks)" "ks_sorted ks" "map_of ks c = Some (rt_ref s)" using O(2) by blast
  then have "W q = Some (Inner_View P sp ks)" "ks_put c (rt_ref s) ks = ks" using ks_put_same wq by simp_all
  then show ?thesis by (auto simp: Some l relink_def)
qed (simp add: relink_def)

section \<open>The edits of the organs\<close>

text \<open>What an insertion of \<open>k\<close> and \<open>v\<close> achieves.\<close>
definition inserted :: "u64 \<Rightarrow> u64 \<Rightarrow> rtree \<Rightarrow> rtree \<Rightarrow> bool" where
  "inserted k v t t' \<longleftrightarrow> map_of (rt_recs t') = (map_of (rt_recs t))(k \<mapsto> v)
     \<and> length (rt_recs t') = (if k \<in> rt_keys t then length (rt_recs t) else Suc (length (rt_recs t)))"

lemma inserted_new:
  assumes "pool_tree V t" "pool_tree W t'" "k \<notin> rt_keys t" "mset (rt_recs t') = add_mset (k, v) (mset (rt_recs t))"
  shows "inserted k v t t'"
proof -
  have "map_of (rt_recs t') = (map_of (rt_recs t))(k \<mapsto> v)"
    using assms rt_put_map [of 0 t t'] by (simp add: pool_tree_def)
  moreover have "length (rt_recs t') = Suc (length (rt_recs t))" using arg_cong [OF assms(4), of size] by simp
  ultimately show ?thesis using assms(3) by (simp add: inserted_def)
qed

lemma edit_set_value:
  assumes "pool_tree V t" "rt_path k 0 t par d (RLeaf r k w) g"
  shows "\<exists>t'. pool_tree (V(r \<mapsto> Leaf_View k v)) t' \<and> rt_ref t' = rt_ref t \<and> inserted k v t t' \<and> k \<in> rt_keys t"
proof -
  define W where "W = V(r \<mapsto> Leaf_View k v)"
  have r: "r \<in> set (rt_refs t)" using rt_path_link [OF assms(2)] by simp
  have t: "rt_ok 0 t" "r \<in> dom V" using assms(1) r by (simp_all add: pool_tree_def)
  have dom: "dom W = (dom V - set (rt_refs (RLeaf r k w))) \<union> set (rt_refs (RLeaf r k v))" by (auto simp: W_def)
  have ag: "\<forall>a \<in> set (rt_refs t) - set (rt_refs (RLeaf r k w)). W a = V a" by (simp add: W_def)
  have rep: "rt_rep W (RLeaf r k v)" by (simp add: W_def)
  define u where "u = g (RLeaf r k v)"
  note E = pool_tree_relink [OF assms _ _ rep _ _ dom ag, folded u_def]
  have "relink par r W = W" using relink_same [OF assms ag] by simp
  then have W': "pool_tree W u" using E(1) by simp
  have ref: "rt_ref u = rt_ref t" using E(2) rt_path_link [OF assms(2), THEN conjunct2, THEN conjunct1] by (auto split: if_splits)
  have M: "mset (rt_recs u) + {#(k, w)#} = mset (rt_recs t) + {#(k, v)#}" using E(3) by simp
  have "(k, w) \<in># mset (rt_recs t)" using rt_path_recs [OF assms(2)] by simp
  then obtain N where N: "mset (rt_recs t) = add_mset (k, w) N" by (metis mset_add)
  then have N': "mset (rt_recs u) = add_mset (k, v) N" using M by simp
  have k: "k \<in> rt_keys t" using rt_path_end [OF assms(2) t(1)] by simp
  have "length (rt_recs u) = length (rt_recs t)" using arg_cong [OF N, of size] arg_cong [OF N', of size] by simp
  then have "inserted k v t u"
    using rt_set_map [OF t(1) _ N N'] W' k by (simp add: inserted_def pool_tree_def)
  then show ?thesis using W' ref k unfolding W_def by blast
qed

text \<open>A leaf makes place for a fork over itself and the new leaf.\<close>
lemma edit_split_leaf:
  assumes "pool_tree V t" "rt_path k 0 t par d (RLeaf r e w) g" "e \<noteq> k" "n = shared_len (drop_bit (d * 8) e) (drop_bit (d * 8) k) 7"
    "1 \<le> sp" "sp \<le> 3" "nn \<notin> dom V" "lf \<notin> dom V" "nn \<noteq> lf"
    "W = V(nn \<mapsto> Inner_View (key_bytes k d n) sp (ks_put (span_slice k (d + n) sp) lf (ks_put (span_slice e (d + n) sp) r [])),
        lf \<mapsto> Leaf_View k v)"
  shows "\<exists>t'. pool_tree (relink par nn W) t' \<and> rt_ref t' = (if par = None then nn else rt_ref t) \<and> inserted k v t t' \<and> k \<notin> rt_keys t"
proof -
  have t: "rt_ok 0 t" "distinct (rt_refs t)" "dom V = set (rt_refs t)" using assms(1) by (simp_all add: pool_tree_def)
  note P = rt_path_end [OF assms(2) t(1)]
  have r: "r \<in> set (rt_refs t)" using rt_path_link [OF assms(2)] by simp
  have k: "k \<notin> rt_keys t" using P assms(3) by simp
  define x where "x = RNode nn (key_bytes k d n) sp (two_kids (span_slice e (d + n) sp) (RLeaf r e w) (span_slice k (d + n) sp) (RLeaf lf k v))"
  have "i < d \<Longrightarrow> i < 8 \<Longrightarrow> kbyte e i = kbyte k i" for i using P by simp
  note X = leaf_split_ok [OF assms(3) this assms(4,5,6) x_def]
  note K = two_kids_ok [OF X(2), where s = "RLeaf r e w" and t = "RLeaf lf k v"]
  have refs: "set (rt_refs x) = {nn, r, lf}" using arg_cong [OF X(4), of set_mset] by simp
  have recs: "set (rt_recs x) = {(k, v), (e, w)}" using arg_cong [OF X(3), of set_mset] by simp
  have "V r = Some (Leaf_View e w)" using rt_path_rep [OF assms(2)] assms(1) by (simp add: pool_tree_def)
  then have l: "rt_rep W (RLeaf r e w)" "rt_rep W (RLeaf lf k v)" using assms(7-9) by (auto simp: assms(10))
  define ks where "ks = two_kids (span_slice e (d + n) sp) (RLeaf r e w) (span_slice k (d + n) sp) (RLeaf lf k v)"
  have wn: "W nn = Some (Inner_View (key_bytes k d n) sp (map (apsnd rt_ref) ks))"
    using assms(9) by (simp add: assms(10) ks_def ks_put_map)
  have "set ks = {(span_slice e (d + n) sp, RLeaf r e w), (span_slice k (d + n) sp, RLeaf lf k v)}" using K(2) by (simp only: ks_def)
  then have "\<forall>y \<in> set ks. rt_rep W (snd y)" using l by simp
  then have rep: "rt_rep W x" using wn unfolding x_def ks_def [symmetric] rt_rep.simps by blast
  have ne: "nn \<noteq> r" "lf \<noteq> r" using assms(7,8) r t(3) by auto
  have dx: "distinct (rt_refs x)"
  proof -
    have "mset (rt_refs x) = mset [nn, r, lf]" using X(4) by simp
    then show ?thesis using mset_eq_imp_distinct_iff [of "rt_refs x" "[nn, r, lf]"] ne assms(9) by simp
  qed
  have apart: "set (rt_refs x) \<inter> (set (rt_refs t) - set (rt_refs (RLeaf r e w))) = {}" using assms(7,8) t(3) by (auto simp: refs)
  have dom: "dom W = (dom V - set (rt_refs (RLeaf r e w))) \<union> set (rt_refs x)" using r t(3) by (auto simp: refs assms(10))
  have ag: "\<forall>a \<in> set (rt_refs t) - set (rt_refs (RLeaf r e w)). W a = V a" using assms(7,8) t(3) by (auto simp: assms(10))
  have "rt_keys x \<subseteq> Set.insert k (rt_keys (RLeaf r e w))" by (simp add: recs)
  note E = pool_tree_relink [OF assms(1,2) X(1) this rep dx apart dom ag]
  have "rt_ref x = nn" by (simp add: x_def)
  moreover have "mset (rt_recs (g x)) + {#(e, w)#} = add_mset (k, v) (mset (rt_recs t)) + {#(e, w)#}"
    using E(3) X(3) by (simp add: add_mset_commute)
  then have "mset (rt_recs (g x)) = add_mset (k, v) (mset (rt_recs t))" by (simp only: add_right_cancel)
  then have "inserted k v t (g x)" using inserted_new [OF assms(1) E(1) k] by blast
  ultimately show ?thesis using E(1,2) k by metis
qed

text \<open>A node whose prefix the key leaves goes below a fork.\<close>
lemma edit_split_prefix:
  assumes "pool_tree V t" "rt_path k 0 t par d (RNode r P sp kids) g" "n < length P" "take n P = key_bytes k d n" "P ! n \<noteq> kbyte k (d + n)"
    "nn \<notin> dom V" "lf \<notin> dom V" "nn \<noteq> lf" "V r = Some (Inner_View P sp ks)"
    "W = V(r \<mapsto> Inner_View (drop (Suc n) P) sp ks,
        nn \<mapsto> Inner_View (take n P) 1 (ks_put (span_slice k (d + n) 1) lf (ks_put (ucast (P ! n)) r [])), lf \<mapsto> Leaf_View k v)"
  shows "\<exists>t'. pool_tree (relink par nn W) t' \<and> rt_ref t' = (if par = None then nn else rt_ref t) \<and> inserted k v t t' \<and> k \<notin> rt_keys t"
proof -
  define s where "s = RNode r P sp kids"
  have path: "rt_path k 0 t par d s g" using assms(2) by (simp add: s_def)
  have t: "rt_ok 0 t" "distinct (rt_refs t)" "dom V = set (rt_refs t)" "rt_rep V t" using assms(1) by (simp_all add: pool_tree_def)
  note Pe = rt_path_end [OF path t(1)]
  then have ok: "rt_ok d (RNode r P sp kids)" by (simp add: s_def)
  define x where "x = RNode nn (take n P) 1 (two_kids (ucast (P ! n)) (RNode r (drop (Suc n) P) sp kids) (span_slice k (d + n) 1) (RLeaf lf k v))"
  note X = prefix_split_ok [OF ok assms(3-5) x_def, folded s_def]
  note K = two_kids_ok [OF X(2), where s = "RNode r (drop (Suc n) P) sp kids" and t = "RLeaf lf k v"]
  have refs: "set (rt_refs x) = Set.insert nn (Set.insert lf (set (rt_refs s)))" using arg_cong [OF X(4), of set_mset] by simp
  have recs: "set (rt_recs x) = Set.insert (k, v) (set (rt_recs s))" using arg_cong [OF X(3), of set_mset] by simp
  have sub: "set (rt_refs s) \<subseteq> set (rt_refs t)" "r \<in> set (rt_refs s)"
    by (rule rt_path_link [OF path, THEN conjunct1]) (simp add: s_def)
  have new: "nn \<notin> set (rt_refs s)" "lf \<notin> set (rt_refs s)" using assms(6,7) sub t(3) by auto
  have k: "k \<notin> rt_keys t"
  proof
    assume "k \<in> rt_keys t"
    then have "k \<in> rt_keys s" using Pe by blast
    then have "key_bytes k d (length P) = P" using rt_okD(6) [OF ok] unfolding s_def rt_keys_node by blast
    then have "kbyte k (d + n) = P ! n" using assms(3) unfolding key_bytes_eq_iff by blast
    then show False using assms(5) by simp
  qed
  have ds: "distinct (rt_refs s)" by (rule rt_path_distinct [OF path t(2)])
  have reps: "rt_rep V s" by (rule rt_path_rep [OF path t(4)])
  then have ks: "ks = map (apsnd rt_ref) kids" "\<And>e. e \<in> set kids \<Longrightarrow> rt_rep V (snd e)" using assms(9) by (simp_all add: s_def)
  have below: "rt_rep W (snd e)" if "e \<in> set kids" for e
  proof (rule rt_rep_cong [OF ks(2) [OF that]], rule ballI)
    fix a assume a: "a \<in> set (rt_refs (snd e))"
    then have "a \<in> set (rt_refs s)" "a \<noteq> r" using that ds by (auto simp: s_def)
    then show "W a = V a" using new by (auto simp: assms(10))
  qed
  have rep: "rt_rep W x"
  proof -
    have "rt_rep W (RNode r (drop (Suc n) P) sp kids)" using below new sub(2) ks(1) by (auto simp: assms(10))
    moreover have "W nn = Some (Inner_View (take n P) 1 (map (apsnd rt_ref) (two_kids (ucast (P ! n)) (RNode r (drop (Suc n) P) sp kids) (span_slice k (d + n) 1) (RLeaf lf k v))))"
      using assms(8) by (simp add: assms(10) ks_put_map)
    moreover have "rt_rep W (RLeaf lf k v)" by (simp add: assms(10))
    ultimately show ?thesis unfolding x_def rt_rep.simps(2) [of W nn] K(2) by (simp del: rt_rep.simps)
  qed
  have dx: "distinct (rt_refs x)"
  proof -
    have "mset (rt_refs x) = mset (nn # lf # rt_refs s)" using X(4) by simp
    then show ?thesis using mset_eq_imp_distinct_iff [of "rt_refs x" "nn # lf # rt_refs s"] new ds assms(8) by simp
  qed
  have apart: "set (rt_refs x) \<inter> (set (rt_refs t) - set (rt_refs s)) = {}" using assms(6,7) t(3) by (auto simp: refs)
  have dom: "dom W = (dom V - set (rt_refs s)) \<union> set (rt_refs x)" using sub t(3) by (auto simp: refs assms(10))
  have ag: "\<forall>a \<in> set (rt_refs t) - set (rt_refs s). W a = V a" using assms(6,7) t(3) sub(2) by (auto simp: assms(10))
  have "rt_keys x \<subseteq> Set.insert k (rt_keys s)" by (simp add: recs)
  note E = pool_tree_relink [OF assms(1) path X(1) this rep dx apart dom ag]
  have "rt_ref x = nn" by (simp add: x_def)
  moreover have "mset (rt_recs (g x)) = add_mset (k, v) (mset (rt_recs t))" using E(3) X(3) by simp
  then have "inserted k v t (g x)" by (rule inserted_new [OF assms(1) E(1) k])
  ultimately show ?thesis using E(1,2) k by metis
qed

text \<open>A node gets a child; it may move to another reference.\<close>
lemma edit_add_child:
  assumes "pool_tree V t" "rt_path k 0 t par d (RNode r P sp kids) g" "key_bytes k d (length P) = P" "c = span_slice k (d + length P) sp"
    "map_of kids c = None" "V r = Some (Inner_View P sp ks)" "r' = r \<or> r' \<notin> dom V" "lf \<notin> dom V" "r' \<noteq> lf"
    "W = V(r := None, r' \<mapsto> Inner_View P sp (ks_put c lf ks), lf \<mapsto> Leaf_View k v)"
  shows "\<exists>t'. pool_tree (relink par r' W) t' \<and> rt_ref t' = (if par = None then r' else rt_ref t) \<and> inserted k v t t' \<and> k \<notin> rt_keys t"
proof -
  define s where "s = RNode r P sp kids"
  have path: "rt_path k 0 t par d s g" using assms(2) by (simp add: s_def)
  have t: "rt_ok 0 t" "distinct (rt_refs t)" "dom V = set (rt_refs t)" "rt_rep V t" using assms(1) by (simp_all add: pool_tree_def)
  note Pe = rt_path_end [OF path t(1)]
  then have ok: "rt_ok d (RNode r P sp kids)" by (simp add: s_def)
  define x where "x = RNode r' P sp (ks_put c (RLeaf lf k v) kids)"
  note X = child_put_ok [OF ok assms(3-5) x_def, folded s_def]
  have sub: "set (rt_refs s) \<subseteq> set (rt_refs t)" "r \<in> set (rt_refs s)"
    by (rule rt_path_link [OF path, THEN conjunct1]) (simp add: s_def)
  have new: "lf \<notin> set (rt_refs s)" "r' = r \<or> r' \<notin> set (rt_refs s)" using assms(7,8) sub t(3) by auto
  have ds: "distinct (rt_refs s)" by (rule rt_path_distinct [OF path t(2)])
  define ns where "ns = concat (map (\<lambda>e. rt_refs (snd e)) kids)"
  have s: "rt_refs s = r # ns" by (simp add: s_def ns_def)
  have mx: "mset (rt_refs x) = mset (r' # lf # ns)" using X(3) unfolding s by simp
  have refs: "set (rt_refs x) = Set.insert r' (Set.insert lf (set ns))" using arg_cong [OF mx, of set_mset] by simp
  have recs: "set (rt_recs x) = Set.insert (k, v) (set (rt_recs s))" using arg_cong [OF X(2), of set_mset] by simp
  have k: "k \<notin> rt_keys t"
  proof
    assume "k \<in> rt_keys t"
    then have "k \<in> rt_keys s" using Pe by blast
    then obtain e where e: "e \<in> set kids" "k \<in> rt_keys (snd e)" unfolding s_def rt_keys_node by blast
    then have "fst e = c" using rt_okD(6) [OF ok e] assms(4) by simp
    then show False using e(1) assms(5) by (force simp: map_of_eq_None_iff)
  qed
  have reps: "rt_rep V s" by (rule rt_path_rep [OF path t(4)])
  then have ks: "ks = map (apsnd rt_ref) kids" "\<And>e. e \<in> set kids \<Longrightarrow> rt_rep V (snd e)" using assms(6) by (simp_all add: s_def)
  have below: "rt_rep W (snd e)" if "e \<in> set kids" for e
  proof (rule rt_rep_cong [OF ks(2) [OF that]], rule ballI)
    fix a assume "a \<in> set (rt_refs (snd e))"
    then have "a \<in> set ns" using that by (auto simp: ns_def)
    then have "a \<in> set (rt_refs s)" "a \<noteq> r" using ds unfolding s by auto
    then show "W a = V a" using new by (auto simp: assms(10))
  qed
  have rep: "rt_rep W x"
  proof -
    have "W r' = Some (Inner_View P sp (map (apsnd rt_ref) (ks_put c (RLeaf lf k v) kids)))" using assms(9) by (simp add: assms(10) ks_put_map ks)
    moreover have "rt_rep W (snd e)" if "e \<in> set (ks_put c (RLeaf lf k v) kids)" for e
    proof (cases "e = (c, RLeaf lf k v)")
      case True
      then show ?thesis by (simp add: assms(10))
    next
      case False
      then show ?thesis using that below [of e] unfolding ks_put_set [OF rt_okD(4) [OF ok]] by blast
    qed
    ultimately show ?thesis by (simp add: x_def)
  qed
  have dx: "distinct (rt_refs x)"
  proof -
    have "r' \<notin> set ns" "lf \<notin> set ns" "distinct ns" using new ds unfolding s by auto
    then show ?thesis using mset_eq_imp_distinct_iff [OF mx] assms(9) by simp
  qed
  have apart: "set (rt_refs x) \<inter> (set (rt_refs t) - set (rt_refs s)) = {}" using assms(7,8) t(3) by (auto simp: refs s)
  have dom: "dom W = (dom V - set (rt_refs s)) \<union> set (rt_refs x)" using sub t(3) ds unfolding s by (auto simp: refs assms(10))
  have ag: "\<forall>a \<in> set (rt_refs t) - set (rt_refs s). W a = V a" using assms(7,8) t(3) sub(2) by (auto simp: assms(10))
  have "rt_keys x \<subseteq> Set.insert k (rt_keys s)" by (simp add: recs)
  note E = pool_tree_relink [OF assms(1) path X(1) this rep dx apart dom ag]
  have "rt_ref x = r'" by (simp add: x_def)
  moreover have "mset (rt_recs (g x)) = add_mset (k, v) (mset (rt_recs t))" using E(3) X(2) by simp
  then have "inserted k v t (g x)" by (rule inserted_new [OF assms(1) E(1) k])
  ultimately show ?thesis using E(1,2) k by metis
qed

text \<open>A node loses a leaf; it may move to another reference.\<close>
lemma edit_del_child:
  assumes "pool_tree V t" "rt_path k 0 t par d (RNode r P sp kids) g" "map_of kids c = Some (RLeaf lf k w)"
    "V r = Some (Inner_View P sp ks)" "r' = r \<or> r' \<notin> dom V" "W = V(lf := None, r := None, r' \<mapsto> Inner_View P sp (ks_del c ks))"
  shows "\<exists>t'. pool_tree (relink par r' W) t' \<and> rt_ref t' = (if par = None then r' else rt_ref t)
    \<and> map_of (rt_recs t') = (map_of (rt_recs t))(k := None) \<and> map_of (rt_recs t) k = Some w \<and> length (rt_recs t) = Suc (length (rt_recs t'))"
proof -
  define s where "s = RNode r P sp kids"
  have path: "rt_path k 0 t par d s g" using assms(2) by (simp add: s_def)
  have t: "rt_ok 0 t" "distinct (rt_refs t)" "dom V = set (rt_refs t)" "rt_rep V t" using assms(1) by (simp_all add: pool_tree_def)
  note Pe = rt_path_end [OF path t(1)]
  then have ok: "rt_ok d (RNode r P sp kids)" by (simp add: s_def)
  define x where "x = RNode r' P sp (ks_del c kids)"
  note X = child_del_ok [OF ok assms(3) x_def, folded s_def]
  have sub: "set (rt_refs s) \<subseteq> set (rt_refs t)" by (rule rt_path_link [OF path, THEN conjunct1])
  have ds: "distinct (rt_refs s)" by (rule rt_path_distinct [OF path t(2)])
  define ns where "ns = concat (map (\<lambda>e. rt_refs (snd e)) (ks_del c kids))"
  have x: "rt_refs x = r' # ns" by (simp add: x_def ns_def)
  have ms: "mset (rt_refs s) = mset (r # lf # ns)" using X(3) unfolding x by simp
  have s: "set (rt_refs s) = Set.insert r (Set.insert lf (set ns))" using arg_cong [OF ms, of set_mset] by simp
  have dn: "r \<notin> set ns" "lf \<notin> set ns" "r \<noteq> lf" "distinct ns" using ds mset_eq_imp_distinct_iff [OF ms] by auto
  have r': "r' \<notin> set ns" "r' \<noteq> lf" using assms(5) dn sub s t(3) by auto
  have recs: "set (rt_recs s) = Set.insert (k, w) (set (rt_recs x))" using arg_cong [OF X(2), of set_mset] by simp
  have reps: "rt_rep V s" by (rule rt_path_rep [OF path t(4)])
  then have ks: "ks = map (apsnd rt_ref) kids" "\<And>e. e \<in> set kids \<Longrightarrow> rt_rep V (snd e)" using assms(4) by (simp_all add: s_def)
  have below: "rt_rep W (snd e)" if "e \<in> set (ks_del c kids)" for e
  proof (rule rt_rep_cong [OF ks(2)], goal_cases)
    case 1
    then show ?case using that by (auto simp: ks_del_def)
  next
    case 2
    show ?case
    proof
      fix a assume "a \<in> set (rt_refs (snd e))"
      then have "a \<in> set ns" using that by (auto simp: ns_def)
      then have "a \<noteq> r" "a \<noteq> lf" "a \<noteq> r'" using dn r' by auto
      then show "W a = V a" by (simp add: assms(6))
    qed
  qed
  have "W r' = Some (Inner_View P sp (map (apsnd rt_ref) (ks_del c kids)))" by (simp add: assms(6) ks_del_map ks)
  then have rep: "rt_rep W x" using below by (simp add: x_def)
  have dx: "distinct (rt_refs x)" using r' dn by (simp add: x)
  have apart: "set (rt_refs x) \<inter> (set (rt_refs t) - set (rt_refs s)) = {}" using assms(5) t(3) s by (auto simp: x)
  have dom: "dom W = (dom V - set (rt_refs s)) \<union> set (rt_refs x)" using sub s t(3) dn r' by (auto simp: x assms(6))
  have ag: "\<forall>a \<in> set (rt_refs t) - set (rt_refs s). W a = V a" using assms(5) t(3) s by (auto simp: assms(6))
  have "rt_keys x \<subseteq> Set.insert k (rt_keys s)" by (auto simp: recs)
  note E = pool_tree_relink [OF assms(1) path X(1) this rep dx apart dom ag]
  have ref: "rt_ref x = r'" by (simp add: x_def)
  have m: "mset (rt_recs t) = add_mset (k, w) (mset (rt_recs (g x)))" using E(3) X(2) by simp
  have "rt_ok 0 (g x)" using E(1) by (simp add: pool_tree_def)
  note T = rt_take_map [OF t(1) this m]
  have "length (rt_recs t) = Suc (length (rt_recs (g x)))" using arg_cong [OF m, of size] by simp
  then show ?thesis using E(1,2) T unfolding ref by blast
qed

end
