(* ===== verification/Start_Pool.thy ===== *)
theory Start_Pool imports Radix_Tree Hot_Pool begin

text \<open>
  The START organ as the code has it: \<^verbatim>\<open>StartTrieNodePoolStore\<close> (leaves, and inner nodes with a byte prefix, a span
  and parallel sorted lists of discriminators and children; one free list for each kind),
  \<^verbatim>\<open>StartTrieTraversalOrgan\<close> for its three policy spans, and the record walk of \<^verbatim>\<open>ComposedStartTrieSearch\<close>.
  \<^verbatim>\<open>std::lower_bound\<close> is the number of elements below the sought one.
\<close>

section \<open>The pool\<close>

record st_leaf =
  sl_key :: u64
  sl_val :: u64

record st_inner =
  si_prefix :: key_prefix
  si_span :: u8
  si_disc :: "u32 list"
  si_kids :: "u64 list"

record st_pool =
  st_leaves :: "st_leaf list"
  st_inners :: "st_inner list"
  st_fl_leaf :: "nat list"
  st_fl_inner :: "nat list"
  st_root :: u64
  st_size :: nat

definition st_nil :: u64 where "st_nil = - 1"

definition st_init :: st_pool where
  "st_init = \<lparr>st_leaves = [], st_inners = [], st_fl_leaf = [], st_fl_inner = [], st_root = st_nil, st_size = 0\<rparr>"

text \<open>\<^verbatim>\<open>copy_inners_from_\<close>: node by node, as the nodes hold containers of their own.\<close>
definition copy_inners_from :: "st_inner list \<Rightarrow> st_pool \<Rightarrow> st_pool" where
  "copy_inners_from src p = fold (\<lambda>x p. p\<lparr>st_inners := st_inners p
     @ [\<lparr>si_prefix = si_prefix x, si_span = si_span x, si_disc = si_disc x, si_kids = si_kids x\<rparr>]\<rparr>) src p"

definition st_copy :: "st_pool \<Rightarrow> st_pool" where
  "st_copy src = copy_inners_from (st_inners src) \<lparr>st_leaves = st_leaves src, st_inners = [], st_fl_leaf = st_fl_leaf src,
     st_fl_inner = st_fl_inner src, st_root = st_root src, st_size = st_size src\<rparr>"

definition st_assign :: "st_pool \<Rightarrow> st_pool \<Rightarrow> st_pool" where
  "st_assign self src = (let p = copy_inners_from (st_inners src) (self\<lparr>st_leaves := st_leaves src, st_inners := []\<rparr>)
     in p\<lparr>st_fl_leaf := st_fl_leaf src, st_fl_inner := st_fl_inner src, st_root := st_root src, st_size := st_size src\<rparr>)"

type_synonym st_kind = u8
definition st_kLeaf :: st_kind where "st_kLeaf = 0"
definition st_kInner :: st_kind where "st_kInner = 1"

definition st_make_ref :: "st_kind \<Rightarrow> nat \<Rightarrow> u64" where
  "st_make_ref kind idx = push_bit 56 (ucast kind) OR word_of_nat idx"
definition st_ref_kind :: "u64 \<Rightarrow> st_kind" where "st_ref_kind r = ucast (drop_bit 56 r)"
definition st_ref_idx :: "u64 \<Rightarrow> nat" where "st_ref_idx r = unat (r AND 0x00FFFFFFFFFFFFFF)"

definition st_set_root :: "u64 \<Rightarrow> st_pool \<Rightarrow> st_pool" where "st_set_root r p = p\<lparr>st_root := r\<rparr>"
definition st_inc_size :: "st_pool \<Rightarrow> st_pool" where "st_inc_size p = p\<lparr>st_size := st_size p + 1\<rparr>"
definition st_dec_size :: "st_pool \<Rightarrow> st_pool" where "st_dec_size p = p\<lparr>st_size := st_size p - 1\<rparr>"

definition st_clear :: "st_pool \<Rightarrow> st_pool" where
  "st_clear p = p\<lparr>st_leaves := [], st_inners := [], st_fl_leaf := [], st_fl_inner := [], st_root := st_nil, st_size := 0\<rparr>"

definition st_is_leaf :: "u64 \<Rightarrow> bool" where "st_is_leaf r \<longleftrightarrow> st_ref_kind r = st_kLeaf"
definition st_leaf_key :: "st_pool \<Rightarrow> u64 \<Rightarrow> u64" where "st_leaf_key p r = sl_key (st_leaves p ! st_ref_idx r)"
definition st_leaf_value :: "st_pool \<Rightarrow> u64 \<Rightarrow> u64" where "st_leaf_value p r = sl_val (st_leaves p ! st_ref_idx r)"

definition st_set_leaf_value :: "u64 \<Rightarrow> u64 \<Rightarrow> st_pool \<Rightarrow> st_pool" where
  "st_set_leaf_value r v p =
     p\<lparr>st_leaves := (st_leaves p)[st_ref_idx r := (st_leaves p ! st_ref_idx r)\<lparr>sl_val := v\<rparr>]\<rparr>"

definition st_new_leaf :: "u64 \<Rightarrow> u64 \<Rightarrow> st_pool \<Rightarrow> u64 \<times> st_pool" where
  "st_new_leaf k v p =
     (if st_fl_leaf p \<noteq> []
      then (let idx = last (st_fl_leaf p)
            in (st_make_ref st_kLeaf idx, p\<lparr>st_fl_leaf := butlast (st_fl_leaf p),
                  st_leaves := (st_leaves p)[idx := \<lparr>sl_key = k, sl_val = v\<rparr>]\<rparr>))
      else (let idx = length (st_leaves p)
            in (st_make_ref st_kLeaf idx, p\<lparr>st_leaves := st_leaves p @ [\<lparr>sl_key = k, sl_val = v\<rparr>]\<rparr>)))"

definition make_inner :: st_inner where
  "make_inner = \<lparr>si_prefix = kp_empty, si_span = 1, si_disc = [], si_kids = []\<rparr>"

text \<open>Updating the inner node of a reference.\<close>
definition upd_inner :: "u64 \<Rightarrow> (st_inner \<Rightarrow> st_inner) \<Rightarrow> st_pool \<Rightarrow> st_pool" where
  "upd_inner r f p = p\<lparr>st_inners := (st_inners p)[st_ref_idx r := f (st_inners p ! st_ref_idx r)]\<rparr>"

definition new_inner :: "nat \<Rightarrow> st_pool \<Rightarrow> u64 \<times> st_pool" where
  "new_inner sp p =
     (let (idx, q) = (if st_fl_inner p \<noteq> []
        then (let idx = last (st_fl_inner p)
              in (idx, p\<lparr>st_fl_inner := butlast (st_fl_inner p), st_inners := (st_inners p)[idx := make_inner]\<rparr>))
        else (length (st_inners p), p\<lparr>st_inners := st_inners p @ [make_inner]\<rparr>))
      in (st_make_ref st_kInner idx, q\<lparr>st_inners := (st_inners q)[idx := (st_inners q ! idx)\<lparr>si_span := word_of_nat sp\<rparr>]\<rparr>))"

definition st_span :: "st_pool \<Rightarrow> u64 \<Rightarrow> nat" where "st_span p r = unat (si_span (st_inners p ! st_ref_idx r))"
definition st_prefix_of :: "st_pool \<Rightarrow> u64 \<Rightarrow> key_prefix" where "st_prefix_of p r = si_prefix (st_inners p ! st_ref_idx r)"
definition st_set_prefix :: "u64 \<Rightarrow> key_prefix \<Rightarrow> st_pool \<Rightarrow> st_pool" where
  "st_set_prefix r px = upd_inner r (\<lambda>x. x\<lparr>si_prefix := px\<rparr>)"
definition st_prefix_cut :: "u64 \<Rightarrow> nat \<Rightarrow> st_pool \<Rightarrow> st_pool" where
  "st_prefix_cut r n = upd_inner r (\<lambda>x. x\<lparr>si_prefix := kp_cut n (si_prefix x)\<rparr>)"

definition disc_lower_bound :: "u32 list \<Rightarrow> u32 \<Rightarrow> nat" where
  "disc_lower_bound ds d = length (takeWhile (\<lambda>x. x < d) ds)"

definition disc_found :: "u32 list \<Rightarrow> u32 \<Rightarrow> bool" where
  "disc_found ds d \<longleftrightarrow> disc_lower_bound ds d < length ds \<and> ds ! disc_lower_bound ds d = d"

definition st_find_child :: "st_pool \<Rightarrow> u64 \<Rightarrow> u32 \<Rightarrow> u64" where
  "st_find_child p r d = (let x = st_inners p ! st_ref_idx r
     in if disc_found (si_disc x) d then si_kids x ! disc_lower_bound (si_disc x) d else st_nil)"

definition child_count :: "st_pool \<Rightarrow> u64 \<Rightarrow> nat" where "child_count p r = length (si_kids (st_inners p ! st_ref_idx r))"
definition child_at :: "st_pool \<Rightarrow> u64 \<Rightarrow> nat \<Rightarrow> u64" where "child_at p r i = si_kids (st_inners p ! st_ref_idx r) ! i"

definition st_add_child :: "u64 \<Rightarrow> u32 \<Rightarrow> u64 \<Rightarrow> st_pool \<Rightarrow> st_pool" where
  "st_add_child r d c = upd_inner r (\<lambda>x. let pos = disc_lower_bound (si_disc x) d
     in x\<lparr>si_disc := insert_at pos d (si_disc x), si_kids := insert_at pos c (si_kids x)\<rparr>)"

definition st_set_child :: "u64 \<Rightarrow> u32 \<Rightarrow> u64 \<Rightarrow> st_pool \<Rightarrow> st_pool" where
  "st_set_child r d c = upd_inner r (\<lambda>x. if disc_found (si_disc x) d
     then x\<lparr>si_kids := (si_kids x)[disc_lower_bound (si_disc x) d := c]\<rparr> else x)"

definition st_remove_child :: "u64 \<Rightarrow> u32 \<Rightarrow> st_pool \<Rightarrow> st_pool" where
  "st_remove_child r d = upd_inner r (\<lambda>x. if disc_found (si_disc x) d
     then (let pos = disc_lower_bound (si_disc x) d
           in x\<lparr>si_disc := erase_at pos (si_disc x), si_kids := erase_at pos (si_kids x)\<rparr>) else x)"

definition st_free_node :: "u64 \<Rightarrow> st_pool \<Rightarrow> st_pool" where
  "st_free_node r p = (if st_ref_kind r = st_kLeaf then p\<lparr>st_fl_leaf := st_fl_leaf p @ [st_ref_idx r]\<rparr>
     else p\<lparr>st_fl_inner := st_fl_inner p @ [st_ref_idx r]\<rparr>)"

section \<open>The traversal\<close>

text \<open>The template argument \<^verbatim>\<open>PolicySpan\<close>, of which a static assertion leaves three values.\<close>
datatype st_policy = Span_1 | Span_2 | Span_3

primrec policy_span :: "st_policy \<Rightarrow> nat" where
  "policy_span Span_1 = 1"
| "policy_span Span_2 = 2"
| "policy_span Span_3 = 3"

definition st_link_parent :: "u64 \<Rightarrow> u32 \<Rightarrow> u64 \<Rightarrow> st_pool \<Rightarrow> st_pool" where
  "st_link_parent parent parent_disc new_ref p =
     (if parent = st_nil then st_set_root new_ref p else st_set_child parent parent_disc new_ref p)"

definition st_split_leaf :: "st_policy \<Rightarrow> u64 \<Rightarrow> u64 \<Rightarrow> u64 \<Rightarrow> u32 \<Rightarrow> u64 \<Rightarrow> nat \<Rightarrow> st_pool \<Rightarrow> st_pool" where
  "st_split_leaf pol key val parent parent_disc ref depth p =
     (let ek = st_leaf_key p ref;
          rem_e = key_rest ek depth; rem_k = key_rest key depth;
          plen = shared_len rem_e rem_k kCapacity;
          (nn, p1) = new_inner (policy_span pol) p;
          p2 = st_set_prefix nn (from_bytes rem_k plen) p1;
          d2 = depth + plen;
          p3 = st_add_child nn (span_slice ek d2 (policy_span pol)) ref p2;
          (lf, p4) = st_new_leaf key val p3;
          p5 = st_add_child nn (span_slice key d2 (policy_span pol)) lf p4
      in st_inc_size (st_link_parent parent parent_disc nn p5))"

definition st_split_prefix :: "u64 \<Rightarrow> u64 \<Rightarrow> u64 \<Rightarrow> u32 \<Rightarrow> u64 \<Rightarrow> nat \<Rightarrow> nat \<Rightarrow> st_pool \<Rightarrow> st_pool" where
  "st_split_prefix key val parent parent_disc ref depth shared p =
     (let prefix = st_prefix_of p ref;
          (nn, p1) = new_inner 1 p;
          p2 = st_set_prefix nn (from_bytes (kp_packed prefix) shared) p1;
          be = kp_at prefix shared;
          p3 = st_prefix_cut ref (shared + 1) p2;
          p4 = st_add_child nn (ucast be) ref p3;
          bk = span_slice key (depth + shared) 1;
          (lf, p5) = st_new_leaf key val p4;
          p6 = st_add_child nn bk lf p5
      in st_inc_size (st_link_parent parent parent_disc nn p6))"

partial_function (option) st_insert_loop ::
  "st_policy \<Rightarrow> st_pool \<Rightarrow> u64 \<Rightarrow> u64 \<Rightarrow> u64 \<Rightarrow> u32 \<Rightarrow> u64 \<Rightarrow> nat \<Rightarrow> st_pool option" where
  "st_insert_loop pol p key val parent parent_disc ref depth =
     (if st_is_leaf ref
      then Some (if st_leaf_key p ref = key then st_set_leaf_value ref val p
                 else st_split_leaf pol key val parent parent_disc ref depth p)
      else (let prefix = st_prefix_of p ref; pl = kp_length prefix;
                shared = common_prefix_len prefix (key_rest key depth)
            in if shared < pl then Some (st_split_prefix key val parent parent_disc ref depth shared p)
               else (let depth = depth + pl; s = st_span p ref; disc = span_slice key depth s;
                         child = st_find_child p ref disc
                     in if child = st_nil
                        then (let (lf, p1) = st_new_leaf key val p in Some (st_inc_size (st_add_child ref disc lf p1)))
                        else st_insert_loop pol p key val ref disc child (depth + s))))"

definition st_insert :: "st_policy \<Rightarrow> u64 \<Rightarrow> u64 \<Rightarrow> st_pool \<Rightarrow> st_pool option" where
  "st_insert pol key val p =
     (if st_root p = st_nil then (let (lf, q) = st_new_leaf key val p in Some (st_inc_size (st_set_root lf q)))
      else st_insert_loop pol p key val st_nil 0 (st_root p) 0)"

partial_function (option) st_lookup_loop :: "st_pool \<Rightarrow> u64 \<Rightarrow> u64 \<Rightarrow> nat \<Rightarrow> u64 option option" where
  "st_lookup_loop p key ref depth =
     (if ref = st_nil then Some None
      else if st_is_leaf ref then Some (if st_leaf_key p ref = key then Some (st_leaf_value p ref) else None)
      else (let prefix = st_prefix_of p ref; pl = kp_length prefix
            in if common_prefix_len prefix (key_rest key depth) < pl then Some None
               else (let depth = depth + pl; s = st_span p ref; child = st_find_child p ref (span_slice key depth s)
                     in if child = st_nil then Some None else st_lookup_loop p key child (depth + s))))"

definition st_lookup :: "st_pool \<Rightarrow> u64 \<Rightarrow> u64 option option" where
  "st_lookup p key = st_lookup_loop p key (st_root p) 0"

partial_function (option) st_erase_loop :: "st_pool \<Rightarrow> u64 \<Rightarrow> u64 \<Rightarrow> u32 \<Rightarrow> u64 \<Rightarrow> nat \<Rightarrow> (bool \<times> st_pool) option" where
  "st_erase_loop p key parent parent_disc ref depth =
     (if st_is_leaf ref
      then Some (if st_leaf_key p ref \<noteq> key then (False, p)
                 else (let p1 = (if parent = st_nil then st_set_root st_nil p else st_remove_child parent parent_disc p)
                       in (True, st_dec_size (st_free_node ref p1))))
      else (let prefix = st_prefix_of p ref; pl = kp_length prefix
            in if common_prefix_len prefix (key_rest key depth) < pl then Some (False, p)
               else (let depth = depth + pl; s = st_span p ref; disc = span_slice key depth s;
                         child = st_find_child p ref disc
                     in if child = st_nil then Some (False, p)
                        else st_erase_loop p key ref disc child (depth + s))))"

definition st_erase :: "u64 \<Rightarrow> st_pool \<Rightarrow> (bool \<times> st_pool) option" where
  "st_erase key p = (if st_root p = st_nil then Some (False, p) else st_erase_loop p key st_nil 0 (st_root p) 0)"

section \<open>The record walk\<close>

definition st_kMaxDescent :: nat where "st_kMaxDescent = 8 + 1"

record st_frame =
  sf_node :: u64
  sf_next_child :: nat

partial_function (option) st_walk :: "st_pool \<Rightarrow> st_frame list \<Rightarrow> slot list \<Rightarrow> nat
    \<Rightarrow> (hp_walk_error + slot list \<times> nat) option" where
  "st_walk p stack sink visited = (case stack of
     [] \<Rightarrow> Some (Inr (sink, visited))
   | f # rest \<Rightarrow>
       if child_count p (sf_node f) \<le> sf_next_child f then st_walk p rest sink visited
       else (let child = child_at p (sf_node f) (sf_next_child f);
                 stack' = f\<lparr>sf_next_child := sf_next_child f + 1\<rparr> # rest
             in if child = st_nil then st_walk p stack' sink visited
                else if st_is_leaf child
                then st_walk p stack' (sink @ [(st_leaf_key p child, st_leaf_value p child)]) (visited + 1)
                else if st_kMaxDescent \<le> length stack' then Some (Inl Logic_Error)
                else st_walk p (\<lparr>sf_node = child, sf_next_child = 0\<rparr> # stack') sink visited))"

definition st_for_each_record :: "st_pool \<Rightarrow> (hp_walk_error + slot list \<times> nat) option" where
  "st_for_each_record p =
     (let root = st_root p in
      if root = st_nil then Some (Inr ([], 0))
      else if st_is_leaf root then Some (Inr ([(st_leaf_key p root, st_leaf_value p root)], 1))
      else st_walk p [\<lparr>sf_node = root, sf_next_child = 0\<rparr>] [] 0)"

text \<open>\<^verbatim>\<open>ComposedStartTrieSearch::insert\<close> in the organs' result type.\<close>
definition st_search_insert :: "st_policy \<Rightarrow> u64 \<Rightarrow> u64 \<Rightarrow> st_pool \<Rightarrow> st_pool pool_result" where
  "st_search_insert pol k v p = map_option Inr (st_insert pol k v p)"

end
