(* ===== verification/Start_Map.thy ===== *)
theory Start_Map imports Start_Pool begin

text \<open>
  The START organ refines a finite map: the pool is seen as a map of nodes (\<open>st_view\<close>), every pool operation is an
  update of that map, and every loop of the traversal follows the path of its key in the radix tree the pool stands for.
\<close>

section \<open>The pool as a map of nodes\<close>

lemma make_ref_parts_inv: "make_ref (ref_kind r) (ref_idx r) = r"
proof -
  have "(0x00FFFFFFFFFFFFFF :: u64) = mask 56" by (simp add: mask_eq_exp_minus_1)
  then have "(word_of_nat (ref_idx r) :: u64) = take_bit 56 r" by (simp add: ref_idx_def take_bit_eq_mask)
  then show ?thesis unfolding make_ref_def ref_kind_def
    by (intro bit_word_eqI) (auto simp: bit_simps)
qed

lemma st_refs_eq: "st_make_ref = make_ref" "st_ref_kind = ref_kind" "st_ref_idx = ref_idx"
  by (simp_all add: fun_eq_iff st_make_ref_def make_ref_def st_ref_kind_def ref_kind_def st_ref_idx_def ref_idx_def)

lemma ref_eqI: "ref_kind r = ref_kind r' \<Longrightarrow> ref_idx r = ref_idx r' \<Longrightarrow> r = r'"
  using make_ref_parts_inv by metis

lemma nil_kind: "ref_kind (- 1) = 255"
  by (simp add: ref_kind_def drop_bit_eq_div)

definition inner_view :: "st_inner \<Rightarrow> node_view" where
  "inner_view x = Inner_View (kp_bytes (si_prefix x)) (unat (si_span x)) (zip (si_disc x) (si_kids x))"

definition st_view :: "st_pool \<Rightarrow> pool_view" where
  "st_view p r = (let i = ref_idx r in
     if ref_kind r = 0 then (if i < length (st_leaves p) \<and> i \<notin> set (st_fl_leaf p)
       then Some (Leaf_View (sl_key (st_leaves p ! i)) (sl_val (st_leaves p ! i))) else None)
     else if ref_kind r = 1 then (if i < length (st_inners p) \<and> i \<notin> set (st_fl_inner p)
       then Some (inner_view (st_inners p ! i)) else None)
     else None)"

text \<open>What holds of every pool: no free slot twice, prefixes in bounds, as many children as discriminators.\<close>
definition st_good :: "st_pool \<Rightarrow> bool" where
  "st_good p \<longleftrightarrow> distinct (st_fl_leaf p) \<and> set (st_fl_leaf p) \<subseteq> {..<length (st_leaves p)}
     \<and> distinct (st_fl_inner p) \<and> set (st_fl_inner p) \<subseteq> {..<length (st_inners p)}
     \<and> (\<forall>x \<in> set (st_inners p). kp_length (si_prefix x) \<le> 7 \<and> length (si_disc x) = length (si_kids x))"

definition st_small :: "nat \<Rightarrow> st_pool \<Rightarrow> bool" where
  "st_small b p \<longleftrightarrow> length (st_leaves p) + b \<le> 2 ^ 56 \<and> length (st_inners p) + b \<le> 2 ^ 56"

lemma st_view_not_nil: "st_view p r = Some n \<Longrightarrow> r \<noteq> st_nil"
  by (auto simp: st_view_def Let_def st_nil_def nil_kind)

lemma st_view_leaf:
  assumes "st_view p r = Some (Leaf_View k v)"
  shows "st_is_leaf r" "st_leaf_key p r = k" "st_leaf_value p r = v" "ref_kind r = 0" "ref_idx r < length (st_leaves p)"
    "ref_idx r \<notin> set (st_fl_leaf p)"
  using assms by (auto simp: st_view_def Let_def inner_view_def st_is_leaf_def st_leaf_key_def st_leaf_value_def st_refs_eq st_kLeaf_def
      split: if_splits)

lemma st_view_inner:
  assumes "st_view p r = Some (Inner_View P sp ks)"
  shows "\<not> st_is_leaf r" "ref_kind r = 1" "ref_idx r < length (st_inners p)" "ref_idx r \<notin> set (st_fl_inner p)"
    "inner_view (st_inners p ! ref_idx r) = Inner_View P sp ks"
  using assms by (auto simp: st_view_def Let_def st_is_leaf_def st_refs_eq st_kLeaf_def split: if_splits)

lemma st_view_upd_inner:
  assumes "st_view p r = Some (Inner_View P sp ks)"
  shows "st_view (upd_inner r f p) = (st_view p)(r \<mapsto> inner_view (f (st_inners p ! ref_idx r)))"
proof
  note R = st_view_inner [OF assms]
  fix a
  show "st_view (upd_inner r f p) a = ((st_view p)(r \<mapsto> inner_view (f (st_inners p ! ref_idx r)))) a"
  proof (cases "a = r")
    case True
    then show ?thesis using R by (simp add: st_view_def upd_inner_def st_refs_eq Let_def)
  next
    case False
    then have "ref_kind a = 1 \<Longrightarrow> ref_idx a \<noteq> ref_idx r" using ref_eqI R(2) by metis
    then show ?thesis using False by (auto simp: st_view_def upd_inner_def st_refs_eq Let_def nth_update_cases)
  qed
qed

lemma st_good_upd_inner:
  assumes "st_good p" "st_view p r = Some n" "\<And>x. x \<in> set (st_inners p) \<Longrightarrow> kp_length (si_prefix (f x)) \<le> 7 \<and> length (si_disc (f x)) = length (si_kids (f x))"
    "ref_kind r = 1"
  shows "st_good (upd_inner r f p)"
proof -
  have i: "ref_idx r < length (st_inners p)" using assms(2,4) by (auto simp: st_view_def Let_def split: if_splits)
  have "set ((st_inners p)[ref_idx r := f (st_inners p ! ref_idx r)]) \<subseteq> Set.insert (f (st_inners p ! ref_idx r)) (set (st_inners p))"
    by (rule set_update_subset_insert)
  then have "\<forall>x \<in> set ((st_inners p)[ref_idx r := f (st_inners p ! ref_idx r)]). kp_length (si_prefix x) \<le> 7 \<and> length (si_disc x) = length (si_kids x)"
    using assms(1) assms(3) [of "st_inners p ! ref_idx r"] i nth_mem [OF i] by (auto simp: st_good_def)
  then show ?thesis using assms(1) by (simp add: st_good_def upd_inner_def st_refs_eq)
qed

section \<open>Discriminators\<close>

lemma disc_found_iff: "sorted_wrt (<) ds \<Longrightarrow> disc_found ds d \<longleftrightarrow> d \<in> set ds"
proof (induction ds)
  case (Cons a ds)
  then show ?case by (cases "a < d") (auto simp: disc_found_def disc_lower_bound_def)
qed (simp add: disc_found_def)

lemma disc_zip:
  "sorted_wrt (<) ds \<Longrightarrow> length cs = length ds \<Longrightarrow>
     (if disc_found ds d then map_of (zip ds cs) d = Some (cs ! disc_lower_bound ds d) else map_of (zip ds cs) d = None)
     \<and> (\<not> disc_found ds d \<longrightarrow> zip (insert_at (disc_lower_bound ds d) d ds) (insert_at (disc_lower_bound ds d) c cs) = ks_put d c (zip ds cs))
     \<and> (disc_found ds d \<longrightarrow> zip ds (cs[disc_lower_bound ds d := c]) = ks_put d c (zip ds cs)
          \<and> zip (erase_at (disc_lower_bound ds d) ds) (erase_at (disc_lower_bound ds d) cs) = ks_del d (zip ds cs))"
proof (induction ds arbitrary: cs)
  case Nil
  then show ?case by (simp add: disc_found_def disc_lower_bound_def insert_at_def ks_put_Cons)
next
  case (Cons a ds)
  then obtain b bs where cs: "cs = b # bs" "length bs = length ds" by (cases cs) simp_all
  have s: "sorted_wrt (<) ds" "\<forall>x \<in> set ds. a < x" using Cons.prems(1) by simp_all
  note ih = Cons.IH [OF s(1) cs(2)]
  have kd: "ks_del d (zip ds bs) = zip ds bs" if "d \<le> a"
    using s(2) that by (auto simp: ks_del_def filter_id_conv dest!: set_zip_leftD)
  have kp: "dropWhile (\<lambda>e. fst e \<le> d) (zip ds bs) = zip ds bs" if "d \<le> a"
    by (rule ks_drop_all) (use s(2) that in \<open>auto dest!: set_zip_leftD\<close>)
  show ?case
  proof (cases "a < d")
    case True
    then have lb: "disc_lower_bound (a # ds) d = Suc (disc_lower_bound ds d)" by (simp add: disc_lower_bound_def)
    then have f: "disc_found (a # ds) d = disc_found ds d" unfolding disc_found_def by simp
    show ?thesis using ih True unfolding lb f cs(1) by (auto simp: insert_at_def erase_at_def ks_put_Cons ks_del_def)
  next
    case False
    then have lb: "disc_lower_bound (a # ds) d = 0" by (simp add: disc_lower_bound_def)
    show ?thesis
    proof (cases "a = d")
      case True
      have f: "disc_found (a # ds) d" unfolding disc_found_def lb using True by simp
      have "ks_del d (zip ds bs) = zip ds bs" "dropWhile (\<lambda>e. fst e \<le> d) (zip ds bs) = zip ds bs" using kd kp True by simp_all
      then show ?thesis using f True unfolding lb cs(1) by (simp add: ks_put_Cons erase_at_def) (simp add: ks_del_def)
    next
      case ne: False
      have f: "\<not> disc_found (a # ds) d" unfolding disc_found_def lb using ne by simp
      have "map_of (zip ds bs) d = None" using False s(2) ne by (auto simp: map_of_eq_None_iff dest!: set_zip_leftD)
      then show ?thesis using ne False f unfolding lb cs(1) by (simp add: insert_at_def ks_put_Cons)
    qed
  qed
qed

text \<open>An inner node read through the pool's interface.\<close>
lemma st_inner_read:
  assumes "st_good p" "st_view p r = Some (Inner_View P sp ks)" "ks_sorted ks"
  shows "kp_length (st_prefix_of p r) = length P" "kp_bytes (st_prefix_of p r) = P" "length P \<le> 7" "st_span p r = sp"
    "st_find_child p r d = (case map_of ks d of None \<Rightarrow> st_nil | Some c \<Rightarrow> c)"
    "child_count p r = length ks" "i < length ks \<Longrightarrow> child_at p r i = snd (ks ! i)"
proof -
  define x where "x = st_inners p ! ref_idx r"
  note R = st_view_inner [OF assms(2), folded x_def]
  have x: "P = kp_bytes (si_prefix x)" "sp = unat (si_span x)" "ks = zip (si_disc x) (si_kids x)" using R(5) by (simp_all add: inner_view_def)
  have g: "kp_length (si_prefix x) \<le> 7" "length (si_disc x) = length (si_kids x)"
    using assms(1) nth_mem [OF R(3)] by (simp_all add: st_good_def x_def)
  show "kp_length (st_prefix_of p r) = length P" "kp_bytes (st_prefix_of p r) = P" "length P \<le> 7" "st_span p r = sp"
    using g by (simp_all add: st_prefix_of_def st_refs_eq st_span_def x x_def [symmetric])
  have s: "sorted_wrt (<) (si_disc x)" using assms(3) g(2) by (simp add: x)
  show "st_find_child p r d = (case map_of ks d of None \<Rightarrow> st_nil | Some c \<Rightarrow> c)"
    using disc_zip [OF s g(2) [symmetric], of d] by (auto simp: st_find_child_def st_refs_eq Let_def x x_def [symmetric] split: if_splits)
  show "child_count p r = length ks" "i < length ks \<Longrightarrow> child_at p r i = snd (ks ! i)"
    using g(2) by (simp_all add: child_count_def child_at_def st_refs_eq x x_def [symmetric])
qed

section \<open>Operations as updates of the map\<close>

lemma st_view_edit:
  assumes "st_good p" "st_view p r = Some (Inner_View P sp ks)"
  shows "kp_length px \<le> 7 \<Longrightarrow> st_view (st_set_prefix r px p) = (st_view p)(r \<mapsto> Inner_View (kp_bytes px) sp ks) \<and> st_good (st_set_prefix r px p)"
    "n \<le> length P \<Longrightarrow> st_view (st_prefix_cut r n p) = (st_view p)(r \<mapsto> Inner_View (drop n P) sp ks) \<and> st_good (st_prefix_cut r n p)"
    "ks_sorted ks \<Longrightarrow> map_of ks d = None \<Longrightarrow>
       st_view (st_add_child r d c p) = (st_view p)(r \<mapsto> Inner_View P sp (ks_put d c ks)) \<and> st_good (st_add_child r d c p)"
    "ks_sorted ks \<Longrightarrow> map_of ks d \<noteq> None \<Longrightarrow>
       st_view (st_set_child r d c p) = (st_view p)(r \<mapsto> Inner_View P sp (ks_put d c ks)) \<and> st_good (st_set_child r d c p)"
    "ks_sorted ks \<Longrightarrow> map_of ks d \<noteq> None \<Longrightarrow>
       st_view (st_remove_child r d p) = (st_view p)(r \<mapsto> Inner_View P sp (ks_del d ks)) \<and> st_good (st_remove_child r d p)"
proof -
  define x where "x = st_inners p ! ref_idx r"
  note R = st_view_inner [OF assms(2), folded x_def]
  have x: "P = kp_bytes (si_prefix x)" "sp = unat (si_span x)" "ks = zip (si_disc x) (si_kids x)" using R(5) by (simp_all add: inner_view_def)
  have gs: "kp_length (si_prefix y) \<le> 7 \<and> length (si_disc y) = length (si_kids y)" if "y \<in> set (st_inners p)" for y
    using assms(1) that by (simp add: st_good_def)
  have g: "kp_length (si_prefix x) \<le> 7" "length (si_disc x) = length (si_kids x)" using gs [OF nth_mem [OF R(3)]] by (simp_all add: x_def)
  have up: "st_view (upd_inner r f p) = (st_view p)(r \<mapsto> inner_view (f x))" for f using st_view_upd_inner [OF assms(2)] by (simp add: x_def)
  have good: "st_good (upd_inner r f p)" if "\<And>y. y \<in> set (st_inners p) \<Longrightarrow> kp_length (si_prefix (f y)) \<le> 7 \<and> length (si_disc (f y)) = length (si_kids (f y))" for f
    using st_good_upd_inner [OF assms that R(2)] .
  show "kp_length px \<le> 7 \<Longrightarrow> st_view (st_set_prefix r px p) = (st_view p)(r \<mapsto> Inner_View (kp_bytes px) sp ks) \<and> st_good (st_set_prefix r px p)"
    unfolding st_set_prefix_def by (intro conjI good) (simp_all add: up inner_view_def x gs)
  show "st_view (st_prefix_cut r n p) = (st_view p)(r \<mapsto> Inner_View (drop n P) sp ks) \<and> st_good (st_prefix_cut r n p)" if "n \<le> length P"
  proof -
    have "kp_length (kp_cut n (si_prefix y)) \<le> 7" if "y \<in> set (st_inners p)" for y
    proof (cases "n \<le> kp_length (si_prefix y)")
      case True
      then have "kp_length (kp_cut n (si_prefix y)) = kp_length (si_prefix y) - n" using kp_cut_ok(1) [of n "si_prefix y"] gs [OF that] by blast
      moreover have "kp_length (si_prefix y) \<le> 7" using gs [OF that] by blast
      ultimately show ?thesis by linarith
    next
      case False
      then show ?thesis using packed_ok(1) [of "kp_cut n (si_prefix y)" _ "kp_length (si_prefix y) - n"] by (simp add: kp_cut_def)
    qed
    then have "st_good (st_prefix_cut r n p)" unfolding st_prefix_cut_def using gs by (intro good) simp
    then show ?thesis using that kp_cut_ok(2) [of n "si_prefix x"] g(1) by (simp add: st_prefix_cut_def up inner_view_def x)
  qed
  have s: "sorted_wrt (<) (si_disc x)" if "ks_sorted ks" using that g(2) by (simp add: x)
  note Z = disc_zip [OF s g(2) [symmetric], of d c]
  have li: "length (insert_at (disc_lower_bound (si_disc y) d) d (si_disc y)) = length (insert_at (disc_lower_bound (si_disc y) d) c (si_kids y))"
    if "y \<in> set (st_inners p)" for y using gs [OF that] by (simp add: insert_at_def)
  have le: "length (erase_at (disc_lower_bound (si_disc y) d) (si_disc y)) = length (erase_at (disc_lower_bound (si_disc y) d) (si_kids y))"
    if "y \<in> set (st_inners p)" for y using gs [OF that] by (simp add: erase_at_def)
  show "st_view (st_add_child r d c p) = (st_view p)(r \<mapsto> Inner_View P sp (ks_put d c ks)) \<and> st_good (st_add_child r d c p)"
    if "ks_sorted ks" "map_of ks d = None"
    using that Z unfolding st_add_child_def by (intro conjI good) (auto simp: up inner_view_def x Let_def li gs split: if_splits)
  show "st_view (st_set_child r d c p) = (st_view p)(r \<mapsto> Inner_View P sp (ks_put d c ks)) \<and> st_good (st_set_child r d c p)"
    if "ks_sorted ks" "map_of ks d \<noteq> None"
    using that Z unfolding st_set_child_def by (intro conjI good) (auto simp: up inner_view_def x gs split: if_splits)
  show "st_view (st_remove_child r d p) = (st_view p)(r \<mapsto> Inner_View P sp (ks_del d ks)) \<and> st_good (st_remove_child r d p)"
    if "ks_sorted ks" "map_of ks d \<noteq> None"
    using that Z unfolding st_remove_child_def by (intro conjI good) (auto simp: up inner_view_def x gs le Let_def split: if_splits)
qed

text \<open>A change of one slot.\<close>
lemma st_view_leaf_slot:
  assumes "i < 2 ^ 56" "st_inners q = st_inners p" "st_fl_inner q = st_fl_inner p"
    "\<And>j. j \<noteq> i \<Longrightarrow> (j < length (st_leaves q) \<and> j \<notin> set (st_fl_leaf q)) = (j < length (st_leaves p) \<and> j \<notin> set (st_fl_leaf p))"
    "\<And>j. j \<noteq> i \<Longrightarrow> j < length (st_leaves p) \<Longrightarrow> st_leaves q ! j = st_leaves p ! j"
  shows "st_view q = (st_view p)(make_ref 0 i := if i < length (st_leaves q) \<and> i \<notin> set (st_fl_leaf q)
    then Some (Leaf_View (sl_key (st_leaves q ! i)) (sl_val (st_leaves q ! i))) else None)"
proof
  note M = make_ref_parts [OF assms(1)]
  fix a
  consider "a = make_ref 0 i" | "ref_kind a = 0" "ref_idx a \<noteq> i" | "ref_kind a \<noteq> 0" "a \<noteq> make_ref 0 i" using ref_eqI [of a "make_ref 0 i"] M by metis
  then show "st_view q a = ((st_view p)(make_ref 0 i := if i < length (st_leaves q) \<and> i \<notin> set (st_fl_leaf q)
    then Some (Leaf_View (sl_key (st_leaves q ! i)) (sl_val (st_leaves q ! i))) else None)) a"
  proof cases
    case 1
    then show ?thesis by (simp add: st_view_def M Let_def)
  next
    case 2
    then have "a \<noteq> make_ref 0 i" using M by auto
    moreover have "st_view q a = st_view p a" using 2 assms(4) [OF 2(2)] assms(5) [OF 2(2)] unfolding st_view_def Let_def by auto
    ultimately show ?thesis by simp
  next
    case 3
    then show ?thesis using assms(2,3) by (simp add: st_view_def Let_def)
  qed
qed

lemma st_view_inner_slot:
  assumes "i < 2 ^ 56" "st_leaves q = st_leaves p" "st_fl_leaf q = st_fl_leaf p"
    "\<And>j. j \<noteq> i \<Longrightarrow> (j < length (st_inners q) \<and> j \<notin> set (st_fl_inner q)) = (j < length (st_inners p) \<and> j \<notin> set (st_fl_inner p))"
    "\<And>j. j \<noteq> i \<Longrightarrow> j < length (st_inners p) \<Longrightarrow> st_inners q ! j = st_inners p ! j"
  shows "st_view q = (st_view p)(make_ref 1 i := if i < length (st_inners q) \<and> i \<notin> set (st_fl_inner q)
    then Some (inner_view (st_inners q ! i)) else None)"
proof
  note M = make_ref_parts [OF assms(1)]
  fix a
  consider "a = make_ref 1 i" | "ref_kind a = 1" "ref_idx a \<noteq> i" | "ref_kind a \<noteq> 1" "a \<noteq> make_ref 1 i" using ref_eqI [of a "make_ref 1 i"] M by metis
  then show "st_view q a = ((st_view p)(make_ref 1 i := if i < length (st_inners q) \<and> i \<notin> set (st_fl_inner q)
    then Some (inner_view (st_inners q ! i)) else None)) a"
  proof cases
    case 1
    then show ?thesis by (simp add: st_view_def M Let_def)
  next
    case 2
    then have "a \<noteq> make_ref 1 i" using M by auto
    moreover have "st_view q a = st_view p a" using 2 assms(4) [OF 2(2)] assms(5) [OF 2(2)] unfolding st_view_def Let_def by auto
    ultimately show ?thesis by simp
  next
    case 3
    then show ?thesis using assms(2,3) by (simp add: st_view_def Let_def)
  qed
qed

lemma st_new_leaf_ok:
  assumes "st_good p" "length (st_leaves p) < 2 ^ 56" "st_new_leaf k v p = (lf, q)"
  shows "lf \<notin> dom (st_view p)" "st_view q = (st_view p)(lf \<mapsto> Leaf_View k v)" "st_good q" "ref_kind lf = 0"
    "length (st_leaves q) \<le> Suc (length (st_leaves p))" "st_inners q = st_inners p" "st_fl_inner q = st_fl_inner p"
    "st_root q = st_root p" "st_size q = st_size p"
proof -
  define i where "i = (if st_fl_leaf p \<noteq> [] then last (st_fl_leaf p) else length (st_leaves p))"
  have g: "distinct (st_fl_leaf p)" "set (st_fl_leaf p) \<subseteq> {..<length (st_leaves p)}" using assms(1) by (simp_all add: st_good_def)
  have "i \<le> length (st_leaves p)"
  proof (cases "st_fl_leaf p = []")
    case False
    then have "i \<in> set (st_fl_leaf p)" by (simp add: i_def)
    then show ?thesis using g(2) by auto
  qed (simp add: i_def)
  then have i56: "i < 2 ^ 56" using assms(2) by simp
  note M = make_ref_parts [OF this]
  have lf: "lf = make_ref 0 i" and q: "q = (if st_fl_leaf p \<noteq> []
      then p\<lparr>st_fl_leaf := butlast (st_fl_leaf p), st_leaves := (st_leaves p)[i := \<lparr>sl_key = k, sl_val = v\<rparr>]\<rparr>
      else p\<lparr>st_leaves := st_leaves p @ [\<lparr>sl_key = k, sl_val = v\<rparr>]\<rparr>)"
    using assms(3) by (auto simp: st_new_leaf_def st_refs_eq st_kLeaf_def i_def Let_def split: if_splits)
  show "ref_kind lf = 0" by (simp add: lf M)
  show "length (st_leaves q) \<le> Suc (length (st_leaves p))" "st_inners q = st_inners p" "st_fl_inner q = st_fl_inner p"
    "st_root q = st_root p" "st_size q = st_size p" by (simp_all add: q)
  have fl: "st_fl_leaf p \<noteq> [] \<Longrightarrow> st_fl_leaf p = butlast (st_fl_leaf p) @ [i]" by (simp add: i_def)
  have free: "i \<in> set (st_fl_leaf p) \<or> i = length (st_leaves p)" by (simp add: i_def)
  then have "\<not> (i < length (st_leaves p) \<and> i \<notin> set (st_fl_leaf p))" by blast
  then have "st_view p lf = None" unfolding st_view_def lf Let_def M by simp
  then show "lf \<notin> dom (st_view p)" by auto
  have d: "i \<notin> set (butlast (st_fl_leaf p))" "distinct (butlast (st_fl_leaf p))" "set (butlast (st_fl_leaf p)) \<subseteq> {..<length (st_leaves p)}"
    if "st_fl_leaf p \<noteq> []"
  proof -
    have "distinct (butlast (st_fl_leaf p) @ [i])" using g(1) fl [OF that] by metis
    then show "i \<notin> set (butlast (st_fl_leaf p))" "distinct (butlast (st_fl_leaf p))" by simp_all
    show "set (butlast (st_fl_leaf p)) \<subseteq> {..<length (st_leaves p)}" using g(2) by (auto dest: in_set_butlastD)
  qed
  show "st_good q" using assms(1) g d by (auto simp: st_good_def q)
  have sf: "st_fl_leaf p \<noteq> [] \<Longrightarrow> set (st_fl_leaf p) = Set.insert i (set (butlast (st_fl_leaf p)))" using arg_cong [OF fl, of set] by simp
  show "st_view q = (st_view p)(lf \<mapsto> Leaf_View k v)"
  proof (cases "st_fl_leaf p = []")
    case True
    then have i: "i = length (st_leaves p)" by (simp add: i_def)
    have "st_view q = (st_view p)(make_ref 0 i := if i < length (st_leaves q) \<and> i \<notin> set (st_fl_leaf q)
        then Some (Leaf_View (sl_key (st_leaves q ! i)) (sl_val (st_leaves q ! i))) else None)"
      by (rule st_view_leaf_slot [OF i56]) (use i in \<open>auto simp: q True nth_append\<close>)
    then show ?thesis using i by (simp add: lf q True)
  next
    case False
    have "i < length (st_leaves p)" using g(2) sf [OF False] by auto
    have "st_view q = (st_view p)(make_ref 0 i := if i < length (st_leaves q) \<and> i \<notin> set (st_fl_leaf q)
        then Some (Leaf_View (sl_key (st_leaves q ! i)) (sl_val (st_leaves q ! i))) else None)"
      by (rule st_view_leaf_slot [OF i56]) (use sf [OF False] in \<open>auto simp: q False\<close>)
    then show ?thesis using \<open>i < length (st_leaves p)\<close> d(1) [OF False] by (simp add: lf q False)
  qed
qed

lemma st_new_inner_ok:
  assumes "st_good p" "length (st_inners p) < 2 ^ 56" "new_inner sp p = (nn, q)" "sp < 256"
  shows "nn \<notin> dom (st_view p)" "st_view q = (st_view p)(nn \<mapsto> Inner_View [] sp [])" "st_good q" "ref_kind nn = 1"
    "length (st_inners q) \<le> Suc (length (st_inners p))" "st_leaves q = st_leaves p"
    "st_root q = st_root p" "st_size q = st_size p"
proof -
  define i where "i = (if st_fl_inner p \<noteq> [] then last (st_fl_inner p) else length (st_inners p))"
  define x where "x = make_inner\<lparr>si_span := word_of_nat sp\<rparr>"
  have "kp_bytes kp_empty = []" by (simp add: kp_bytes_def kp_empty_def kp_length_def)
  then have x: "inner_view x = Inner_View [] sp []" "kp_length (si_prefix x) \<le> 7" "length (si_disc x) = length (si_kids x)"
    using assms(4) by (simp_all add: inner_view_def x_def make_inner_def unat_word_of_nat kp_empty_def kp_length_def)
  have g: "distinct (st_fl_inner p)" "set (st_fl_inner p) \<subseteq> {..<length (st_inners p)}" using assms(1) by (simp_all add: st_good_def)
  have il: "st_fl_inner p \<noteq> [] \<Longrightarrow> i < length (st_inners p)"
  proof -
    assume "st_fl_inner p \<noteq> []"
    then have "i \<in> set (st_fl_inner p)" by (simp add: i_def)
    then show ?thesis using g(2) by auto
  qed
  then have "i \<le> length (st_inners p)" by (auto simp: i_def)
  then have i56: "i < 2 ^ 56" using assms(2) by simp
  note M = make_ref_parts [OF this]
  have nn: "nn = make_ref 1 i" and q: "q = (if st_fl_inner p \<noteq> []
      then p\<lparr>st_fl_inner := butlast (st_fl_inner p), st_inners := (st_inners p)[i := x]\<rparr> else p\<lparr>st_inners := st_inners p @ [x]\<rparr>)"
    using assms(3) il by (auto simp: new_inner_def st_refs_eq st_kInner_def i_def x_def Let_def nth_append list_update_append split: if_splits)
  show "ref_kind nn = 1" by (simp add: nn M)
  show "length (st_inners q) \<le> Suc (length (st_inners p))" "st_leaves q = st_leaves p" 
    "st_root q = st_root p" "st_size q = st_size p" by (simp_all add: q)
  have fl: "st_fl_inner p \<noteq> [] \<Longrightarrow> st_fl_inner p = butlast (st_fl_inner p) @ [i]" by (simp add: i_def)
  have free: "i \<in> set (st_fl_inner p) \<or> i = length (st_inners p)" by (simp add: i_def)
  then have "\<not> (i < length (st_inners p) \<and> i \<notin> set (st_fl_inner p))" by blast
  then have "st_view p nn = None" unfolding st_view_def nn Let_def M by simp
  then show "nn \<notin> dom (st_view p)" by auto
  have d: "i \<notin> set (butlast (st_fl_inner p))" "distinct (butlast (st_fl_inner p))" "set (butlast (st_fl_inner p)) \<subseteq> {..<length (st_inners p)}"
    if "st_fl_inner p \<noteq> []"
  proof -
    have "distinct (butlast (st_fl_inner p) @ [i])" using g(1) fl [OF that] by metis
    then show "i \<notin> set (butlast (st_fl_inner p))" "distinct (butlast (st_fl_inner p))" by simp_all
    show "set (butlast (st_fl_inner p)) \<subseteq> {..<length (st_inners p)}" using g(2) by (auto dest: in_set_butlastD)
  qed
  have "\<forall>y \<in> set (st_inners q). kp_length (si_prefix y) \<le> 7 \<and> length (si_disc y) = length (si_kids y)"
    using assms(1) x set_update_subset_insert [of "st_inners p" i x] by (auto simp: st_good_def q)
  then show "st_good q" using assms(1) g d by (auto simp: st_good_def q)
  have sf: "st_fl_inner p \<noteq> [] \<Longrightarrow> set (st_fl_inner p) = Set.insert i (set (butlast (st_fl_inner p)))" using arg_cong [OF fl, of set] by simp
  show "st_view q = (st_view p)(nn \<mapsto> Inner_View [] sp [])"
  proof (cases "st_fl_inner p = []")
    case True
    then have i: "i = length (st_inners p)" by (simp add: i_def)
    have "st_view q = (st_view p)(make_ref 1 i := if i < length (st_inners q) \<and> i \<notin> set (st_fl_inner q)
        then Some (inner_view (st_inners q ! i)) else None)"
      by (rule st_view_inner_slot [OF i56]) (use i in \<open>auto simp: q True nth_append\<close>)
    then show ?thesis using i x(1) by (simp add: nn q True)
  next
    case False
    have "st_view q = (st_view p)(make_ref 1 i := if i < length (st_inners q) \<and> i \<notin> set (st_fl_inner q)
        then Some (inner_view (st_inners q ! i)) else None)"
      by (rule st_view_inner_slot [OF i56]) (use sf [OF False] in \<open>auto simp: q False\<close>)
    then show ?thesis using il [OF False] d(1) [OF False] x(1) by (simp add: nn q False)
  qed
qed

lemma st_set_leaf_value_ok:
  assumes "st_good p" "st_view p r = Some (Leaf_View k w)"
  shows "st_view (st_set_leaf_value r v p) = (st_view p)(r \<mapsto> Leaf_View k v)" "st_good (st_set_leaf_value r v p)"
proof -
  note R = st_view_leaf [OF assms(2)]
  show "st_good (st_set_leaf_value r v p)" using assms(1) by (simp add: st_good_def st_set_leaf_value_def)
  show "st_view (st_set_leaf_value r v p) = (st_view p)(r \<mapsto> Leaf_View k v)"
  proof
    fix a
    show "st_view (st_set_leaf_value r v p) a = ((st_view p)(r \<mapsto> Leaf_View k v)) a"
    proof (cases "a = r")
      case True
      then show ?thesis using R by (auto simp: st_view_def st_set_leaf_value_def st_refs_eq Let_def st_leaf_key_def)
    next
      case False
      then have "ref_kind a = 0 \<Longrightarrow> ref_idx a \<noteq> ref_idx r" using ref_eqI R(4) by metis
      then show ?thesis using False by (auto simp: st_view_def st_set_leaf_value_def st_refs_eq Let_def nth_update_cases)
    qed
  qed
qed

lemma st_free_leaf_ok:
  assumes "st_good p" "st_view p r = Some (Leaf_View k w)"
  shows "st_view (st_free_node r p) = (st_view p)(r := None)" "st_good (st_free_node r p)"
proof -
  note R = st_view_leaf [OF assms(2)]
  have q: "st_free_node r p = p\<lparr>st_fl_leaf := st_fl_leaf p @ [ref_idx r]\<rparr>" using R(4) by (simp add: st_free_node_def st_refs_eq st_kLeaf_def)
  show "st_good (st_free_node r p)" using assms(1) R(5,6) by (simp add: st_good_def q)
  show "st_view (st_free_node r p) = (st_view p)(r := None)"
  proof
    fix a
    have "a \<noteq> r \<Longrightarrow> ref_kind a = 0 \<Longrightarrow> ref_idx a \<noteq> ref_idx r" using ref_eqI R(4) by metis
    then show "st_view (st_free_node r p) a = ((st_view p)(r := None)) a" using R(4) by (auto simp: st_view_def q Let_def)
  qed
qed

end
