(* ===== verification/Start_Update.thy ===== *)
theory Start_Update imports Start_Map begin

text \<open>
  Every loop of the START organ follows the path of its key; the changes it makes at the end of the path are the edits of
  the radix tree, so the organ is a finite map (interpretation of \<open>budget_map\<close>, for each policy span), and the record walk
  stays within its inline stack.
\<close>

section \<open>Descents\<close>

lemma rt_rep_ref: "rt_rep (st_view p) t \<Longrightarrow> rt_ref t \<noteq> st_nil"
  using st_view_not_nil by (cases t) auto

lemma st_node:
  assumes "st_good p" "rt_rep (st_view p) (RNode r P sp kids)" "rt_ok d (RNode r P sp kids)"
  shows "r \<noteq> st_nil" "\<not> st_is_leaf r" "kp_length (st_prefix_of p r) = length P" "kp_bytes (st_prefix_of p r) = P" "length P \<le> 7"
    "common_prefix_len (st_prefix_of p r) (key_rest k d) < length P \<longleftrightarrow> key_bytes k d (length P) \<noteq> P" "st_span p r = sp"
    "st_find_child p r c = (case map_of kids c of None \<Rightarrow> st_nil | Some u \<Rightarrow> rt_ref u)"
    "map_of kids c = Some u \<Longrightarrow> rt_ref u \<noteq> st_nil"
proof -
  have v: "st_view p r = Some (Inner_View P sp (map (apsnd rt_ref) kids))" using assms(2) by simp
  note ok = rt_okD [OF assms(3)]
  have s: "ks_sorted (map (apsnd rt_ref) kids)" using ok(4) by simp
  note I = st_inner_read [OF assms(1) v s]
  show "r \<noteq> st_nil" by (rule st_view_not_nil [OF v])
  show "\<not> st_is_leaf r" by (rule st_view_inner(1) [OF v])
  show kl: "kp_length (st_prefix_of p r) = length P" and kb: "kp_bytes (st_prefix_of p r) = P" and "length P \<le> 7" "st_span p r = sp"
    by (fact I)+
  show "common_prefix_len (st_prefix_of p r) (key_rest k d) < length P \<longleftrightarrow> key_bytes k d (length P) \<noteq> P"
    using prefix_match(1) [of "st_prefix_of p r" d _ k] kl kb I(3) ok(1) by simp
  show "st_find_child p r c = (case map_of kids c of None \<Rightarrow> st_nil | Some u \<Rightarrow> rt_ref u)"
    using I(5) [of c] by (simp add: ks_map_of comp_def split: option.splits)
  show "rt_ref u \<noteq> st_nil" if "map_of kids c = Some u"
    using rt_rep_ref [of p u] assms(2) map_of_SomeD [OF that] by auto
qed

lemma st_leaf_read:
  assumes "rt_rep (st_view p) (RLeaf r e w)"
  shows "r \<noteq> st_nil" "st_is_leaf r" "st_leaf_key p r = e" "st_leaf_value p r = w"
proof -
  have v: "st_view p r = Some (Leaf_View e w)" using assms by simp
  show "r \<noteq> st_nil" "st_is_leaf r" "st_leaf_key p r = e" "st_leaf_value p r = w"
    using st_view_not_nil [OF v] st_view_leaf [OF v] by simp_all
qed

lemma rt_path_down:
  "rt_rep V (RNode r P sp kids) \<Longrightarrow> rt_ok d (RNode r P sp kids) \<Longrightarrow> map_of kids c = Some u \<Longrightarrow> rt_rep V u \<and> rt_ok (d + length P + sp) u"
  using map_of_SomeD by fastforce

lemma st_lookup_path:
  assumes "st_good p"
  shows "rt_path k d t par d' s g \<Longrightarrow> rt_rep (st_view p) t \<Longrightarrow> rt_ok d t \<Longrightarrow>
    st_lookup_loop p k (rt_ref t) d = st_lookup_loop p k (rt_ref s) d'"
proof (induction rule: rt_path.induct)
  case (rt_step d P c sp kids u par d' s g r)
  note N = st_node [OF assms rt_step.prems]
  note D = rt_path_down [OF rt_step.prems rt_step(3)]
  have "st_lookup_loop p k r d = st_lookup_loop p k (rt_ref u) (d + length P + sp)"
    using N(1-3) N(6) [of k] N(7) N(8) [of c] N(9) [OF rt_step(3)] rt_step(1-3)
    by (subst st_lookup_loop.simps) (simp add: Let_def)
  then show ?case using rt_step.IH D by simp
qed simp

lemma st_insert_path:
  assumes "st_good p"
  shows "rt_path k d t par d' s g \<Longrightarrow> rt_rep (st_view p) t \<Longrightarrow> rt_ok d t \<Longrightarrow>
    st_insert_loop pol p k v q0 c0 (rt_ref t) d
      = st_insert_loop pol p k v (case par of None \<Rightarrow> q0 | Some l \<Rightarrow> fst l) (case par of None \<Rightarrow> c0 | Some l \<Rightarrow> snd l) (rt_ref s) d'"
proof (induction arbitrary: q0 c0 rule: rt_path.induct)
  case (rt_step d P c sp kids u par d' s g r)
  note N = st_node [OF assms rt_step.prems]
  note D = rt_path_down [OF rt_step.prems rt_step(3)]
  have "st_insert_loop pol p k v q0 c0 r d = st_insert_loop pol p k v r c (rt_ref u) (d + length P + sp)"
    using N(1-3) N(6) [of k] N(7) N(8) [of c] N(9) [OF rt_step(3)] rt_step(1-3)
    by (subst st_insert_loop.simps) (simp add: Let_def)
  then show ?case using rt_step.IH [of r c] D by (cases par) simp_all
qed simp

lemma st_erase_path:
  assumes "st_good p"
  shows "rt_path k d t par d' s g \<Longrightarrow> rt_rep (st_view p) t \<Longrightarrow> rt_ok d t \<Longrightarrow>
    st_erase_loop p k q0 c0 (rt_ref t) d
      = st_erase_loop p k (case par of None \<Rightarrow> q0 | Some l \<Rightarrow> fst l) (case par of None \<Rightarrow> c0 | Some l \<Rightarrow> snd l) (rt_ref s) d'"
proof (induction arbitrary: q0 c0 rule: rt_path.induct)
  case (rt_step d P c sp kids u par d' s g r)
  note N = st_node [OF assms rt_step.prems]
  note D = rt_path_down [OF rt_step.prems rt_step(3)]
  have "st_erase_loop p k q0 c0 r d = st_erase_loop p k r c (rt_ref u) (d + length P + sp)"
    using N(1-3) N(6) [of k] N(7) N(8) [of c] N(9) [OF rt_step(3)] rt_step(1-3)
    by (subst st_erase_loop.simps) (simp add: Let_def)
  then show ?case using rt_step.IH [of r c] D by (cases par) simp_all
qed simp

section \<open>The invariant\<close>

definition st_tree :: "st_pool \<Rightarrow> rtree \<Rightarrow> bool" where
  "st_tree p t \<longleftrightarrow> pool_tree (st_view p) t \<and> rt_ref t = st_root p \<and> st_good p \<and> st_size p = length (rt_recs t)"

definition st_bare :: "st_pool \<Rightarrow> bool" where
  "st_bare p \<longleftrightarrow> st_root p = st_nil \<and> dom (st_view p) = {} \<and> st_good p \<and> st_size p = 0"

definition st_inv :: "nat \<Rightarrow> st_pool \<Rightarrow> bool" where
  "st_inv b p \<longleftrightarrow> (st_bare p \<or> (\<exists>t. st_tree p t)) \<and> st_small b p"

definition st_content :: "st_pool \<Rightarrow> u64 \<Rightarrow> u64 option" where
  "st_content p = (case st_for_each_record p of Some (Inr (rs, n)) \<Rightarrow> map_of rs | _ \<Rightarrow> Map.empty)"

lemma st_treeD:
  assumes "st_tree p t"
  shows "pool_tree (st_view p) t" "rt_ref t = st_root p" "st_good p" "st_size p = length (rt_recs t)" "rt_rep (st_view p) t"
    "rt_ok 0 t" "st_root p \<noteq> st_nil" "distinct (map fst (rt_recs t))"
  using assms rt_rep_ref [of p t] rt_distinct [of 0 t] by (auto simp: st_tree_def pool_tree_def)

section \<open>Lookup\<close>

lemma rt_lookup_stop:
  assumes "rt_ok 0 t" "rt_path k 0 t par d s g" "rt_stop k d s"
  shows "map_of (rt_recs t) k = (case s of RLeaf r e w \<Rightarrow> if e = k then Some w else None | _ \<Rightarrow> None)"
proof -
  note P = rt_path_end [OF assms(2,1)]
  have none: "k \<notin> rt_keys s \<Longrightarrow> map_of (rt_recs t) k = None" using P by (simp add: map_of_eq_None_iff)
  show ?thesis
  proof (cases s)
    case (RLeaf r e w)
    show ?thesis
    proof (cases "e = k")
      case True
      then have "(k, w) \<in> set (rt_recs t)" using rt_path_recs [OF assms(2)] RLeaf by auto
      then show ?thesis using RLeaf True rt_distinct [OF assms(1)] by simp
    qed (use none RLeaf in simp)
  next
    case (RNode r P' sp kids)
    have ok: "rt_ok d (RNode r P' sp kids)" using P RNode by simp
    have "k \<notin> rt_keys s"
    proof
      assume "k \<in> rt_keys s"
      then obtain e where e: "e \<in> set kids" "k \<in> rt_keys (snd e)" unfolding RNode rt_keys_node by blast
      have "key_bytes k d (length P') = P'" "map_of kids (span_slice k (d + length P') sp) = Some (snd e)"
        using rt_okD(6) [OF ok e] e(1) rt_okD(4) [OF ok] by (simp_all add: ks_mem)
      then show False using assms(3) by (simp add: RNode)
    qed
    then show ?thesis using none RNode by simp
  qed
qed

lemma st_lookup_tree:
  assumes "st_tree p t"
  shows "st_lookup p k = Some (map_of (rt_recs t) k)"
proof -
  note T = st_treeD [OF assms]
  obtain par d s g where path: "rt_path k 0 t par d s g" "rt_stop k d s" using rt_path_exists by blast
  have look: "st_lookup p k = st_lookup_loop p k (rt_ref s) d"
    using st_lookup_path [OF T(3) path(1) T(5,6)] T(2) by (simp add: st_lookup_def)
  have rep: "rt_rep (st_view p) s" by (rule rt_path_rep [OF path(1) T(5)])
  have ok: "rt_ok d s" using rt_path_end [OF path(1) T(6)] by blast
  note L = rt_lookup_stop [OF T(6) path]
  show ?thesis
  proof (cases s)
    case (RLeaf r e w)
    then show ?thesis using L look st_leaf_read [OF rep [unfolded RLeaf]] by (subst (asm) st_lookup_loop.simps) simp
  next
    case (RNode r P sp kids)
    note N = st_node [OF T(3) rep [unfolded RNode] ok [unfolded RNode]]
    show ?thesis using L look N(1-3) N(6) [of k] N(7) N(8) [of "span_slice k (d + length P) sp"] path(2)
      by (subst (asm) st_lookup_loop.simps) (auto simp: RNode Let_def split: if_splits)
  qed
qed

section \<open>The record walk\<close>

lemma st_walk_end:
  "child_count p r \<le> i \<Longrightarrow> st_walk p (\<lparr>sf_node = r, sf_next_child = i\<rparr> # st) sink n = st_walk p st sink n"
  by (subst st_walk.simps) simp

lemma st_walk_next:
  assumes "i < child_count p r" "child_at p r i = c" "c \<noteq> st_nil"
  shows "st_walk p (\<lparr>sf_node = r, sf_next_child = i\<rparr> # st) sink n =
     (let st' = \<lparr>sf_node = r, sf_next_child = Suc i\<rparr> # st
      in if st_is_leaf c then st_walk p st' (sink @ [(st_leaf_key p c, st_leaf_value p c)]) (n + 1)
         else if st_kMaxDescent \<le> length st' then Some (Inl Logic_Error)
         else st_walk p (\<lparr>sf_node = c, sf_next_child = 0\<rparr> # st') sink n)"
  using assms by (subst st_walk.simps) (simp add: Let_def)

text \<open>The frames below a node are no more than the bytes above it, of which there are fewer than eight.\<close>
lemma st_walk_node:
  assumes "st_good p"
  shows "t = RNode r P sp kids \<Longrightarrow> rt_rep (st_view p) t \<Longrightarrow> rt_ok d t \<Longrightarrow> length st \<le> d \<Longrightarrow>
    st_walk p (\<lparr>sf_node = r, sf_next_child = i\<rparr> # st) sink n
      = st_walk p st (sink @ concat (map (\<lambda>e. rt_recs (snd e)) (drop i kids))) (n + length (concat (map (\<lambda>e. rt_recs (snd e)) (drop i kids))))"
proof (induction t arbitrary: r P sp kids d st i sink n rule: rtree_induct)
  case (RNode r0 P0 sp0 kids0)
  have node: "rt_rep (st_view p) (RNode r P sp kids)" "rt_ok d (RNode r P sp kids)" "length st \<le> d" using RNode.prems by simp_all
  have IH: "e \<in> set kids \<Longrightarrow> snd e = RNode q P' sp' kids' \<Longrightarrow> rt_rep (st_view p) (snd e) \<Longrightarrow> rt_ok d' (snd e) \<Longrightarrow> length st' \<le> d' \<Longrightarrow>
    st_walk p (\<lparr>sf_node = q, sf_next_child = 0\<rparr> # st') sink' n'
      = st_walk p st' (sink' @ rt_recs (snd e)) (n' + length (rt_recs (snd e)))" for e q P' sp' kids' d' st' sink' n'
    using RNode.IH [of e q P' sp' kids' d' st' 0 sink' n'] RNode.prems(1) by simp
  have v: "st_view p r = Some (Inner_View P sp (map (apsnd rt_ref) kids))" using node(1) by simp
  note ok = rt_okD [OF node(2)]
  have "ks_sorted (map (apsnd rt_ref) kids)" using ok(4) by simp
  note I = st_inner_read [OF assms v this]
  have cnt: "child_count p r = length kids" using I(6) by simp
  have "i \<le> length kids \<Longrightarrow> st_walk p (\<lparr>sf_node = r, sf_next_child = i\<rparr> # st) sink n
      = st_walk p st (sink @ concat (map (\<lambda>e. rt_recs (snd e)) (drop i kids))) (n + length (concat (map (\<lambda>e. rt_recs (snd e)) (drop i kids))))" for i
  proof (induction "length kids - i" arbitrary: i sink n)
    case 0
    then show ?case using cnt by (simp add: st_walk_end)
  next
    case (Suc m)
    then have i: "i < length kids" "m = length kids - Suc i" by simp_all
    define e where "e = kids ! i"
    have e: "e \<in> set kids" using i(1) by (simp add: e_def)
    have dr: "drop i kids = e # drop (Suc i) kids" using Cons_nth_drop_Suc [OF i(1)] by (simp add: e_def)
    have at: "child_at p r i = rt_ref (snd e)" using I(7) [of i] i(1) by (simp add: e_def)
    have rep: "rt_rep (st_view p) (snd e)" using node(1) e by simp
    have oke: "rt_ok (d + length P + sp) (snd e)" by (rule ok(5) [OF e])
    note W = st_walk_next [OF _ at rt_rep_ref [OF rep], of st sink n, unfolded Let_def]
    have rest: "st_walk p (\<lparr>sf_node = r, sf_next_child = Suc i\<rparr> # st) sink' n'
        = st_walk p st (sink' @ concat (map (\<lambda>e. rt_recs (snd e)) (drop (Suc i) kids))) (n' + length (concat (map (\<lambda>e. rt_recs (snd e)) (drop (Suc i) kids))))" for sink' n'
      using Suc.hyps(1) [OF i(2)] i(1) by simp
    show ?case
    proof (cases "snd e")
      case (RLeaf q k w)
      then show ?thesis using W i(1) cnt st_leaf_read [OF rep [unfolded RLeaf]] rest [of "sink @ [(k, w)]" "Suc n"] by (simp add: dr)
    next
      case (RNode q P' sp' kids')
      note N = st_node [OF assms rep [unfolded RNode] oke [unfolded RNode]]
      have room: "\<not> st_kMaxDescent \<le> Suc (length st)" using node(3) ok(1) by (simp add: st_kMaxDescent_def)
      have "length (\<lparr>sf_node = r, sf_next_child = Suc i\<rparr> # st) \<le> d + length P + sp" using node(3) ok(2) by simp
      note V = IH [OF e RNode rep oke this]
      show ?thesis using W i(1) cnt N(2) room V [of sink n] rest [of "sink @ rt_recs (snd e)"] by (simp add: dr RNode add.assoc)
    qed
  qed
  then show ?case using cnt by (cases "i \<le> length kids") (simp_all add: st_walk_end)
qed simp

lemma st_records_ok:
  assumes "st_tree p t"
  shows "st_for_each_record p = Some (Inr (rt_recs t, st_size p))"
proof -
  note T = st_treeD [OF assms]
  show ?thesis
  proof (cases t)
    case (RLeaf r k w)
    then show ?thesis using T(2,4) st_leaf_read [OF T(5) [unfolded RLeaf]] by (simp add: st_for_each_record_def)
  next
    case (RNode r P sp kids)
    note N = st_node [OF T(3) T(5,6) [unfolded RNode]]
    have "st_for_each_record p = st_walk p [\<lparr>sf_node = r, sf_next_child = 0\<rparr>] [] 0"
      using N(1,2) T(2) RNode by (simp add: st_for_each_record_def)
    also have "\<dots> = st_walk p [] (rt_recs t) (st_size p)"
      using st_walk_node [OF T(3) RNode T(5,6), of "[]" 0 "[]" 0] T(4) by (simp add: RNode)
    also have "\<dots> = Some (Inr (rt_recs t, st_size p))" by (subst st_walk.simps) simp
    finally show ?thesis .
  qed
qed

lemma st_content_eq: "st_tree p t \<Longrightarrow> st_content p = map_of (rt_recs t)" "st_bare p \<Longrightarrow> st_content p = Map.empty"
  using st_records_ok by (simp_all add: st_content_def st_bare_def st_for_each_record_def)

section \<open>Insertion\<close>

lemma upd_inner_fields [simp]:
  "st_leaves (upd_inner r f p) = st_leaves p" "length (st_inners (upd_inner r f p)) = length (st_inners p)"
  "st_root (upd_inner r f p) = st_root p" "st_size (upd_inner r f p) = st_size p" "st_fl_leaf (upd_inner r f p) = st_fl_leaf p"
  by (simp_all add: upd_inner_def)

lemmas st_edit_defs = st_set_prefix_def st_prefix_cut_def st_add_child_def st_set_child_def st_remove_child_def

abbreviation "par_ref par \<equiv> (case par of None \<Rightarrow> st_nil | Some l \<Rightarrow> fst l)"
abbreviation "par_disc par \<equiv> (case par of None \<Rightarrow> 0 | Some l \<Rightarrow> snd l)"

text \<open>Linking the parent turns the link of the path.\<close>
lemma st_link_ok:
  assumes "st_good p" "\<And>q c. par = Some (q, c) \<Longrightarrow> \<exists>P sp ks. st_view p q = Some (Inner_View P sp ks) \<and> ks_sorted ks \<and> map_of ks c \<noteq> None"
  shows "st_view (st_link_parent (par_ref par) (par_disc par) x p) = relink par x (st_view p)"
    "st_good (st_link_parent (par_ref par) (par_disc par) x p)"
    "st_root (st_link_parent (par_ref par) (par_disc par) x p) = (if par = None then x else st_root p)"
    "st_leaves (st_link_parent (par_ref par) (par_disc par) x p) = st_leaves p"
    "length (st_inners (st_link_parent (par_ref par) (par_disc par) x p)) = length (st_inners p)"
    "st_size (st_link_parent (par_ref par) (par_disc par) x p) = st_size p"
proof -
  have "st_view (st_link_parent (par_ref par) (par_disc par) x p) = relink par x (st_view p)
    \<and> st_good (st_link_parent (par_ref par) (par_disc par) x p)
    \<and> st_root (st_link_parent (par_ref par) (par_disc par) x p) = (if par = None then x else st_root p)
    \<and> st_leaves (st_link_parent (par_ref par) (par_disc par) x p) = st_leaves p
    \<and> length (st_inners (st_link_parent (par_ref par) (par_disc par) x p)) = length (st_inners p)
    \<and> st_size (st_link_parent (par_ref par) (par_disc par) x p) = st_size p"
  proof (cases par)
    case None
    have "st_view (st_set_root x p) = st_view p" by (simp add: fun_eq_iff st_view_def st_set_root_def Let_def)
    moreover have "st_good (st_set_root x p)" using assms(1) by (simp add: st_good_def st_set_root_def)
    ultimately show ?thesis by (simp add: None st_link_parent_def relink_def) (simp add: st_set_root_def)
  next
    case (Some l)
    obtain q c where l: "l = (q, c)" by (cases l)
    obtain P sp ks where q: "st_view p q = Some (Inner_View P sp ks)" "ks_sorted ks" "map_of ks c \<noteq> None" using assms(2) Some l by blast
    note E = st_view_edit(4) [OF assms(1) q, of x]
    have "st_link_parent (par_ref par) (par_disc par) x p = st_set_child q c x p"
      using st_view_not_nil [OF q(1)] by (simp add: Some l st_link_parent_def)
    then show ?thesis using E q(1) by (simp add: Some l relink_def) (simp add: st_set_child_def)
  qed
  then show "st_view (st_link_parent (par_ref par) (par_disc par) x p) = relink par x (st_view p)"
    "st_good (st_link_parent (par_ref par) (par_disc par) x p)"
    "st_root (st_link_parent (par_ref par) (par_disc par) x p) = (if par = None then x else st_root p)"
    "st_leaves (st_link_parent (par_ref par) (par_disc par) x p) = st_leaves p"
    "length (st_inners (st_link_parent (par_ref par) (par_disc par) x p)) = length (st_inners p)"
    "st_size (st_link_parent (par_ref par) (par_disc par) x p) = st_size p" by blast+
qed

lemma st_inc_size_ok: "st_view (st_inc_size p) = st_view p" "st_good (st_inc_size p) = st_good p" "st_root (st_inc_size p) = st_root p"
  "st_leaves (st_inc_size p) = st_leaves p" "st_inners (st_inc_size p) = st_inners p" "st_size (st_inc_size p) = Suc (st_size p)"
  by (simp_all add: fun_eq_iff st_view_def st_inc_size_def st_good_def Let_def)

text \<open>A step of the organ from one tree to the next, with at most one more leaf and inner node.\<close>
definition st_grown :: "st_pool \<Rightarrow> rtree \<Rightarrow> u64 \<Rightarrow> u64 \<Rightarrow> st_pool \<Rightarrow> bool" where
  "st_grown p t k v q \<longleftrightarrow> (\<exists>t'. st_tree q t' \<and> map_of (rt_recs t') = (map_of (rt_recs t))(k \<mapsto> v))
     \<and> length (st_leaves q) \<le> Suc (length (st_leaves p)) \<and> length (st_inners q) \<le> Suc (length (st_inners p))"

lemma st_link_grown:
  assumes "st_tree p t" "rt_path k 0 t par d s g" "st_good p5" "st_root p5 = st_root p" "st_size p5 = st_size p"
    "length (st_leaves p5) \<le> Suc (length (st_leaves p))" "length (st_inners p5) \<le> Suc (length (st_inners p))"
    "\<And>r. r \<in> set (rt_refs t) - set (rt_refs s) \<Longrightarrow> st_view p5 r = st_view p r"
    "\<exists>t'. pool_tree (relink par x (st_view p5)) t' \<and> rt_ref t' = (if par = None then x else rt_ref t) \<and> inserted k v t t' \<and> k \<notin> rt_keys t"
  shows "st_grown p t k v (st_inc_size (st_link_parent (par_ref par) (par_disc par) x p5))"
proof -
  note T = st_treeD [OF assms(1)]
  have "\<exists>P sp ks. st_view p5 q = Some (Inner_View P sp ks) \<and> ks_sorted ks \<and> map_of ks c \<noteq> None" if "par = Some (q, c)" for q c
    using rt_path_outside [OF assms(2) [unfolded that] T(1)] assms(8) [of q] by auto
  note L = st_link_ok [OF assms(3) this, of par x, simplified]
  obtain t' where t': "pool_tree (relink par x (st_view p5)) t'" "rt_ref t' = (if par = None then x else rt_ref t)" "inserted k v t t'" "k \<notin> rt_keys t"
    using assms(9) by blast
  show ?thesis unfolding st_grown_def
  proof (intro conjI exI)
    show "st_tree (st_inc_size (st_link_parent (par_ref par) (par_disc par) x p5)) t'"
      using t' T(2,4) assms(4,5) L by (simp add: st_tree_def st_inc_size_ok inserted_def)
    show "map_of (rt_recs t') = (map_of (rt_recs t))(k \<mapsto> v)" using t'(3) by (simp add: inserted_def)
  qed (use assms(6,7) L in \<open>simp_all add: st_inc_size_ok\<close>)
qed

text \<open>A leaf of another key.\<close>
lemma st_split_leaf_ok:
  assumes "st_tree p t" "st_small 1 p" "rt_path k 0 t par d (RLeaf r e w) g" "e \<noteq> k"
  shows "st_grown p t k v (st_split_leaf pol k v (par_ref par) (par_disc par) r d p)"
proof -
  note T = st_treeD [OF assms(1)]
  define sp where "sp = policy_span pol"
  have sp: "1 \<le> sp" "sp \<le> 3" by (cases pol; simp add: sp_def)+
  have agree: "i < d \<Longrightarrow> i < 8 \<Longrightarrow> kbyte e i = kbyte k i" for i using rt_path_end [OF assms(3) T(6)] by simp
  define n where "n = shared_len (drop_bit (d * 8) e) (drop_bit (d * 8) k) 7"
  note S = split_len [OF assms(4) agree n_def]
  have d: "d < 8" using S(1) by simp
  have n7: "n \<le> 7" unfolding n_def by (rule shared_len_ok(1)) simp
  have ek: "st_leaf_key p r = e" using st_leaf_read(3) rt_path_rep [OF assms(3) T(5)] by blast
  define ce ck where "ce = span_slice e (d + n) sp" and "ck = span_slice k (d + n) sp"
  have ne: "ce \<noteq> ck" using leaf_split_ok(2) [OF assms(4) agree n_def sp refl] by (simp add: ce_def ck_def)
  obtain nn p1 where n1: "new_inner sp p = (nn, p1)" by (cases "new_inner sp p")
  have room: "length (st_leaves p) < 2 ^ 56" "length (st_inners p) < 2 ^ 56" using assms(2) by (simp_all add: st_small_def)
  note N = st_new_inner_ok [OF T(3) room(2) n1]
  have v1: "st_view p1 nn = Some (Inner_View [] sp [])" using N(2) sp by simp
  define p2 where "p2 = st_set_prefix nn (from_bytes (key_rest k d) n) p1"
  have g1: "st_good p1" using N(3) sp by simp
  have pf: "kp_length (from_bytes (key_rest k d) n) \<le> 7" "kp_bytes (from_bytes (key_rest k d) n) = key_bytes k d n"
    using from_bytes_ok [OF n7] kbyte_key_rest(2) [OF d] n7 by simp_all
  have e2: "st_view p2 = (st_view p1)(nn \<mapsto> Inner_View (key_bytes k d n) sp [])" "st_good p2"
    using st_view_edit(1) [OF g1 v1 pf(1)] pf(2) by (simp_all add: p2_def)
  define p3 where "p3 = st_add_child nn ce r p2"
  have e3: "st_view p3 = (st_view p2)(nn \<mapsto> Inner_View (key_bytes k d n) sp (ks_put ce r []))" "st_good p3"
    using st_view_edit(3) [OF e2(2), of nn _ sp "[]" ce r] e2(1) by (simp_all add: p3_def)
  have l3: "st_leaves p3 = st_leaves p" "length (st_inners p3) = length (st_inners p1)" "st_root p3 = st_root p" "st_size p3 = st_size p"
    using N sp by (simp_all add: p3_def p2_def st_edit_defs)
  obtain lf p4 where n4: "st_new_leaf k v p3 = (lf, p4)" by (cases "st_new_leaf k v p3")
  note F = st_new_leaf_ok [OF e3(2) _ n4, unfolded l3, OF room(1)]
  define p5 where "p5 = st_add_child nn ck lf p4"
  have nn: "nn \<notin> dom (st_view p)" "nn \<noteq> lf" using N(1) F(1) e3(1) sp by auto
  have lf: "lf \<notin> dom (st_view p)" using F(1) e3(1) e2(1) N(2) sp by auto
  have v4: "st_view p4 nn = Some (Inner_View (key_bytes k d n) sp (ks_put ce r []))" using F(2) e3(1) nn(2) by simp
  have e5: "st_view p5 = (st_view p4)(nn \<mapsto> Inner_View (key_bytes k d n) sp (ks_put ck lf (ks_put ce r [])))" "st_good p5"
    using st_view_edit(3) [OF F(3) v4, of ck lf] ne by (simp_all add: p5_def ks_put_Cons)
  have v5: "st_view p5 = (st_view p)(nn \<mapsto> Inner_View (key_bytes k d n) sp (ks_put ck lf (ks_put ce r [])), lf \<mapsto> Leaf_View k v)"
    using N(2) sp nn(2) by (simp add: e5(1) F(2) e3(1) e2(1) fun_upd_twist)
  have code: "st_split_leaf pol k v (par_ref par) (par_disc par) r d p = st_inc_size (st_link_parent (par_ref par) (par_disc par) nn p5)"
  proof -
    have "shared_len (key_rest e d) (key_rest k d) kCapacity = n" using d by (simp add: n_def key_rest_def kCapacity_def)
    then show ?thesis unfolding st_split_leaf_def Let_def ek sp_def [symmetric] n1 prod.case
      by (simp add: p2_def [symmetric] ce_def [symmetric] ck_def [symmetric] p3_def [symmetric] n4 p5_def [symmetric])
  qed
  show ?thesis unfolding code
  proof (rule st_link_grown [OF assms(1,3)])
    show "st_good p5" by (rule e5(2))
    show "st_root p5 = st_root p" "st_size p5 = st_size p" "length (st_leaves p5) \<le> Suc (length (st_leaves p))"
      "length (st_inners p5) \<le> Suc (length (st_inners p))" using F l3 N(5) sp by (simp_all add: p5_def st_edit_defs)
    show "st_view p5 a = st_view p a" if "a \<in> set (rt_refs t) - set (rt_refs (RLeaf r e w))" for a
      using that nn(1) lf T(1) by (auto simp: v5 pool_tree_def)
    show "\<exists>t'. pool_tree (relink par nn (st_view p5)) t' \<and> rt_ref t' = (if par = None then nn else rt_ref t) \<and> inserted k v t t' \<and> k \<notin> rt_keys t"
      by (rule edit_split_leaf [OF T(1) assms(3,4) n_def sp nn(1) lf nn(2)]) (simp add: v5 ce_def ck_def)
  qed
qed

text \<open>An inner node whose prefix the key leaves.\<close>
lemma st_split_prefix_ok:
  assumes "st_tree p t" "st_small 1 p" "rt_path k 0 t par d (RNode r P sp kids) g" "n = common_prefix_len (st_prefix_of p r) (key_rest k d)" "n < length P"
  shows "st_grown p t k v (st_split_prefix k v (par_ref par) (par_disc par) r d n p)"
proof -
  note T = st_treeD [OF assms(1)]
  have rep: "rt_rep (st_view p) (RNode r P sp kids)" by (rule rt_path_rep [OF assms(3) T(5)])
  have ok: "rt_ok d (RNode r P sp kids)" using rt_path_end [OF assms(3) T(6)] by blast
  note R = st_node [OF T(3) rep ok]
  define ks where "ks = map (apsnd rt_ref) kids"
  have vr: "st_view p r = Some (Inner_View P sp ks)" using rep by (simp add: ks_def)
  have d: "d < 8" using rt_okD(1) [OF ok] by simp
  note M = prefix_match [OF _ d assms(4), unfolded R(3,4), OF R(5)]
  have take: "take n P = key_bytes k d n" by (rule M(2))
  have differ: "P ! n \<noteq> kbyte k (d + n)" by (rule M(3) [OF assms(5)])
  have n7: "n \<le> 7" using assms(5) R(5) by simp
  define ce ck where "ce = (ucast (P ! n) :: u32)" and "ck = span_slice k (d + n) 1"
  have ne: "ce \<noteq> ck" using prefix_split_ok(2) [OF ok assms(5) take differ refl] by (simp add: ce_def ck_def)
  have room: "length (st_leaves p) < 2 ^ 56" "length (st_inners p) < 2 ^ 56" using assms(2) by (simp_all add: st_small_def)
  obtain nn p1 where n1: "new_inner 1 p = (nn, p1)" by (cases "new_inner 1 p")
  note N = st_new_inner_ok [OF T(3) room(2) n1, simplified]
  have nnr: "nn \<noteq> r" using N(1) vr by auto
  define p2 where "p2 = st_set_prefix nn (from_bytes (kp_packed (st_prefix_of p r)) n) p1"
  have pf: "kp_length (from_bytes (kp_packed (st_prefix_of p r)) n) \<le> 7" "kp_bytes (from_bytes (kp_packed (st_prefix_of p r)) n) = take n P"
  proof -
    show "kp_length (from_bytes (kp_packed (st_prefix_of p r)) n) \<le> 7" using from_bytes_ok(1) [OF n7] n7 by simp
    have "key_bytes (kp_packed (st_prefix_of p r)) 0 n = take n (kp_bytes (st_prefix_of p r))"
      using assms(5) R(3) by (simp add: list_eq_iff_nth_eq kp_at_kbyte)
    then show "kp_bytes (from_bytes (kp_packed (st_prefix_of p r)) n) = take n P" using from_bytes_ok(2) [OF n7] R(4) by simp
  qed
  have v1: "st_view p1 nn = Some (Inner_View [] 1 [])" using N(2) by simp
  have e2: "st_view p2 = (st_view p1)(nn \<mapsto> Inner_View (take n P) 1 [])" "st_good p2"
    using st_view_edit(1) [OF N(3) v1 pf(1)] pf(2) by (simp_all add: p2_def)
  have be: "kp_at (st_prefix_of p r) n = P ! n"
    using assms(5) R(3) arg_cong [OF R(4), of "\<lambda>xs. xs ! n"] by simp
  have v2: "st_view p2 r = Some (Inner_View P sp ks)" using nnr vr by (simp add: e2(1) N(2))
  define p3 where "p3 = st_prefix_cut r (n + 1) p2"
  have e3: "st_view p3 = (st_view p2)(r \<mapsto> Inner_View (drop (Suc n) P) sp ks)" "st_good p3"
    using st_view_edit(2) [OF e2(2) v2, of "n + 1"] assms(5) by (simp_all add: p3_def)
  define p4 where "p4 = st_add_child nn ce r p3"
  have v3: "st_view p3 nn = Some (Inner_View (take n P) 1 [])" using nnr by (simp add: e3(1) e2(1))
  have e4: "st_view p4 = (st_view p3)(nn \<mapsto> Inner_View (take n P) 1 (ks_put ce r []))" "st_good p4"
    using st_view_edit(3) [OF e3(2) v3, of ce r] by (simp_all add: p4_def)
  have l4: "st_leaves p4 = st_leaves p" "length (st_inners p4) = length (st_inners p1)" "st_root p4 = st_root p" "st_size p4 = st_size p"
    using N by (simp_all add: p4_def p3_def p2_def st_edit_defs)
  obtain lf p5 where n5: "st_new_leaf k v p4 = (lf, p5)" by (cases "st_new_leaf k v p4")
  note F = st_new_leaf_ok [OF e4(2) _ n5, unfolded l4, OF room(1)]
  define p6 where "p6 = st_add_child nn ck lf p5"
  have nn: "nn \<notin> dom (st_view p)" "nn \<noteq> lf" using N(1) F(1) e4(1) by auto
  have lf: "lf \<notin> dom (st_view p)" using F(1) by (auto simp: e4(1) e3(1) e2(1) N(2))
  have v5: "st_view p5 nn = Some (Inner_View (take n P) 1 (ks_put ce r []))" using F(2) e4(1) nn(2) by simp
  have e6: "st_view p6 = (st_view p5)(nn \<mapsto> Inner_View (take n P) 1 (ks_put ck lf (ks_put ce r [])))" "st_good p6"
    using st_view_edit(3) [OF F(3) v5, of ck lf] ne by (simp_all add: p6_def ks_put_Cons)
  have v6: "st_view p6 = (st_view p)(r \<mapsto> Inner_View (drop (Suc n) P) sp ks,
      nn \<mapsto> Inner_View (take n P) 1 (ks_put ck lf (ks_put ce r [])), lf \<mapsto> Leaf_View k v)"
    using nnr nn(2) by (auto simp: fun_eq_iff e6(1) F(2) e4(1) e3(1) e2(1) N(2))
  have code: "st_split_prefix k v (par_ref par) (par_disc par) r d n p = st_inc_size (st_link_parent (par_ref par) (par_disc par) nn p6)"
    unfolding st_split_prefix_def Let_def be n1 prod.case
    by (simp only: p2_def [symmetric] p3_def [symmetric] ce_def [symmetric] ck_def [symmetric] p4_def [symmetric] n5 p6_def [symmetric] prod.case)
  show ?thesis unfolding code
  proof (rule st_link_grown [OF assms(1,3)])
    show "st_good p6" by (rule e6(2))
    show "st_root p6 = st_root p" "st_size p6 = st_size p" "length (st_leaves p6) \<le> Suc (length (st_leaves p))"
      "length (st_inners p6) \<le> Suc (length (st_inners p))" using F l4 N(5) by (simp_all add: p6_def st_edit_defs)
    show "st_view p6 a = st_view p a" if "a \<in> set (rt_refs t) - set (rt_refs (RNode r P sp kids))" for a
      using that nn(1) lf T(1) by (auto simp: v6 pool_tree_def)
    show "\<exists>t'. pool_tree (relink par nn (st_view p6)) t' \<and> rt_ref t' = (if par = None then nn else rt_ref t) \<and> inserted k v t t' \<and> k \<notin> rt_keys t"
      by (rule edit_split_prefix [OF T(1) assms(3,5) take differ nn(1) lf nn(2) vr]) (simp only: v6 ce_def ck_def)
  qed
qed

text \<open>An inner node without a child for the key.\<close>
lemma st_add_child_ok:
  assumes "st_tree p t" "st_small 1 p" "rt_path k 0 t par d (RNode r P sp kids) g" "key_bytes k d (length P) = P"
    "c = span_slice k (d + length P) sp" "map_of kids c = None" "st_new_leaf k v p = (lf, p1)"
  shows "st_grown p t k v (st_inc_size (st_add_child r c lf p1))"
proof -
  note T = st_treeD [OF assms(1)]
  have rep: "rt_rep (st_view p) (RNode r P sp kids)" by (rule rt_path_rep [OF assms(3) T(5)])
  have ok: "rt_ok d (RNode r P sp kids)" using rt_path_end [OF assms(3) T(6)] by blast
  define ks where "ks = map (apsnd rt_ref) kids"
  have vr: "st_view p r = Some (Inner_View P sp ks)" using rep by (simp add: ks_def)
  have ks: "ks_sorted ks" "map_of ks c = None" using rt_okD(4) [OF ok] assms(6) by (simp_all add: ks_def ks_map_of comp_def)
  have room: "length (st_leaves p) < 2 ^ 56" "length (st_inners p) < 2 ^ 56" using assms(2) by (simp_all add: st_small_def)
  note F = st_new_leaf_ok [OF T(3) room(1) assms(7)]
  have ne: "r \<noteq> lf" using F(1) vr by auto
  have v1: "st_view p1 r = Some (Inner_View P sp ks)" using vr ne by (simp add: F(2))
  define p2 where "p2 = st_add_child r c lf p1"
  have e2: "st_view p2 = (st_view p1)(r \<mapsto> Inner_View P sp (ks_put c lf ks))" "st_good p2"
    using st_view_edit(3) [OF F(3) v1 ks] by (simp_all add: p2_def)
  have v2: "st_view p2 = (st_view p)(r := None, r \<mapsto> Inner_View P sp (ks_put c lf ks), lf \<mapsto> Leaf_View k v)"
    using ne by (auto simp: fun_eq_iff e2(1) F(2))
  obtain t' where t': "pool_tree (relink par r (st_view p2)) t'" "rt_ref t' = (if par = None then r else rt_ref t)" "inserted k v t t'" "k \<notin> rt_keys t"
    using edit_add_child [OF T(1) assms(3-6) vr disjI1 [OF refl] F(1) ne v2] by blast
  have "relink par r (st_view p2) = st_view p2"
  proof -
    have "\<forall>a \<in> set (rt_refs t) - set (rt_refs (RNode r P sp kids)). st_view p2 a = st_view p a"
      using F(1) T(1) by (auto simp: v2 pool_tree_def)
    then show ?thesis using relink_same [OF T(1) assms(3)] by simp
  qed
  moreover have "rt_ref t' = rt_ref t" using t'(2) rt_path_link [OF assms(3), THEN conjunct2, THEN conjunct1] by (auto split: if_splits)
  ultimately have "st_tree (st_inc_size p2) t'"
    using t' T(2,4) e2(2) F(8,9) by (simp add: st_tree_def st_inc_size_ok inserted_def) (simp add: p2_def st_edit_defs)
  then show ?thesis using t'(3) F(5,6) unfolding st_grown_def p2_def [symmetric]
    by (intro conjI exI [of _ t']) (simp_all add: inserted_def st_inc_size_ok, simp_all add: p2_def st_edit_defs)
qed

lemma st_insert_tree:
  assumes "st_tree p t" "st_small 1 p"
  shows "\<exists>q. st_insert pol k v p = Some q \<and> st_grown p t k v q"
proof -
  note T = st_treeD [OF assms(1)]
  obtain par d s g where path: "rt_path k 0 t par d s g" "rt_stop k d s" using rt_path_exists by blast
  define q0 c0 where "q0 = par_ref par" and "c0 = par_disc par"
  have ins: "st_insert pol k v p = st_insert_loop pol p k v q0 c0 (rt_ref s) d"
    using st_insert_path [OF T(3) path(1) T(5,6), of pol v st_nil 0] T(2,7) by (simp add: st_insert_def q0_def c0_def)
  have rep: "rt_rep (st_view p) s" by (rule rt_path_rep [OF path(1) T(5)])
  have ok: "rt_ok d s" using rt_path_end [OF path(1) T(6)] by blast
  show ?thesis
  proof (cases s)
    case (RLeaf r e w)
    note L = st_leaf_read [OF rep [unfolded RLeaf]]
    have code: "st_insert pol k v p = Some (if e = k then st_set_leaf_value r v p else st_split_leaf pol k v q0 c0 r d p)"
      using ins L by (subst (asm) st_insert_loop.simps) (simp add: RLeaf)
    show ?thesis
    proof (cases "e = k")
      case True
      have vr: "st_view p r = Some (Leaf_View k w)" using rep by (simp add: RLeaf True)
      note V = st_set_leaf_value_ok [OF T(3) vr, of v]
      obtain t' where t': "pool_tree ((st_view p)(r \<mapsto> Leaf_View k v)) t'" "rt_ref t' = rt_ref t" "inserted k v t t'" "k \<in> rt_keys t"
        using edit_set_value [OF T(1) path(1) [unfolded RLeaf True]] by blast
      have f: "st_root (st_set_leaf_value r v p) = st_root p" "st_size (st_set_leaf_value r v p) = st_size p"
        "length (st_leaves (st_set_leaf_value r v p)) = length (st_leaves p)" "st_inners (st_set_leaf_value r v p) = st_inners p"
        by (simp_all add: st_set_leaf_value_def)
      have "st_tree (st_set_leaf_value r v p) t'" using t' V f T(2,4) by (simp add: st_tree_def inserted_def)
      then have "st_grown p t k v (st_set_leaf_value r v p)" using t'(3) f unfolding st_grown_def inserted_def by auto
      then show ?thesis using code True by simp
    next
      case False
      then show ?thesis using code st_split_leaf_ok [OF assms path(1) [unfolded RLeaf] False, of v pol] by (simp add: q0_def c0_def)
    qed
  next
    case (RNode r P sp kids)
    note N = st_node [OF T(3) rep [unfolded RNode] ok [unfolded RNode]]
    show ?thesis
    proof (cases "key_bytes k d (length P) = P")
      case False
      define n where "n = common_prefix_len (st_prefix_of p r) (key_rest k d)"
      have n: "n < length P" using N(6) [of k] False by (simp add: n_def)
      have "st_insert pol k v p = Some (st_split_prefix k v q0 c0 r d n p)"
        using ins N(1-3) n by (subst (asm) st_insert_loop.simps) (simp add: RNode Let_def n_def)
      then show ?thesis using st_split_prefix_ok [OF assms path(1) [unfolded RNode] n_def n, of v] by (simp add: q0_def c0_def)
    next
      case True
      define c where "c = span_slice k (d + length P) sp"
      have c: "map_of kids c = None" using path(2) True by (simp add: RNode c_def)
      obtain lf p1 where n1: "st_new_leaf k v p = (lf, p1)" by (cases "st_new_leaf k v p")
      have "st_insert pol k v p = Some (st_inc_size (st_add_child r c lf p1))"
        using ins N(1-3) N(6) [of k] True N(7) N(8) [of c] c n1 by (subst (asm) st_insert_loop.simps) (simp add: RNode Let_def c_def)
      then show ?thesis using st_add_child_ok [OF assms path(1) [unfolded RNode] True c_def c n1] by blast
    qed
  qed
qed

lemma st_insert_bare:
  assumes "st_bare p" "st_small 1 p"
  shows "\<exists>q t'. st_insert pol k v p = Some q \<and> st_tree q t' \<and> map_of (rt_recs t') = [k \<mapsto> v]
    \<and> length (st_leaves q) \<le> Suc (length (st_leaves p)) \<and> length (st_inners q) \<le> Suc (length (st_inners p))"
proof -
  have b: "st_root p = st_nil" "dom (st_view p) = {}" "st_good p" "st_size p = 0" using assms(1) by (simp_all add: st_bare_def)
  obtain lf p1 where n1: "st_new_leaf k v p = (lf, p1)" by (cases "st_new_leaf k v p")
  have room: "length (st_leaves p) < 2 ^ 56" using assms(2) by (simp add: st_small_def)
  note F = st_new_leaf_ok [OF b(3) room n1]
  define q where "q = st_inc_size (st_set_root lf p1)"
  have f: "st_view q = st_view p1" "st_good q = st_good p1" "st_root q = lf" "st_size q = Suc (st_size p1)"
    "st_leaves q = st_leaves p1" "st_inners q = st_inners p1"
    by (simp_all add: q_def fun_eq_iff st_view_def st_inc_size_def st_set_root_def st_good_def Let_def)
  have "st_tree q (RLeaf lf k v)" using F b by (simp add: st_tree_def pool_tree_def f)
  moreover have "st_insert pol k v p = Some q" using b(1) n1 by (simp add: st_insert_def q_def)
  ultimately show ?thesis using F(5,6) f by (intro exI [of _ q] exI [of _ "RLeaf lf k v"]) simp
qed

section \<open>Erasure\<close>

lemma st_dec_size_ok: "st_view (st_dec_size p) = st_view p" "st_good (st_dec_size p) = st_good p" "st_root (st_dec_size p) = st_root p"
  "st_leaves (st_dec_size p) = st_leaves p" "st_inners (st_dec_size p) = st_inners p" "st_size (st_dec_size p) = st_size p - 1"
  by (simp_all add: fun_eq_iff st_view_def st_dec_size_def st_good_def Let_def)

text \<open>A key that is there: its leaf goes, the nodes above it stay.\<close>
lemma st_erase_hit:
  assumes "st_tree p t" "rt_path k 0 t par d (RLeaf r k w) g"
    "q = st_dec_size (st_free_node r (if par_ref par = st_nil then st_set_root st_nil p else st_remove_child (par_ref par) (par_disc par) p))"
  shows "(if par = None then st_bare q \<and> map_of (rt_recs t) = [k \<mapsto> w]
      else \<exists>t'. st_tree q t' \<and> map_of (rt_recs t') = (map_of (rt_recs t))(k := None))
    \<and> map_of (rt_recs t) k = Some w \<and> length (st_leaves q) = length (st_leaves p) \<and> length (st_inners q) = length (st_inners p)"
proof -
  note T = st_treeD [OF assms(1)]
  have vr: "st_view p r = Some (Leaf_View k w)" using rt_path_rep [OF assms(2) T(5)] by simp
  show ?thesis
  proof (cases par)
    case None
    define p1 where "p1 = st_set_root st_nil p"
    have s: "st_view p1 = st_view p" "st_good p1" "st_root p1 = st_nil" "st_size p1 = st_size p" "st_leaves p1 = st_leaves p" "st_inners p1 = st_inners p"
      using T(3) by (simp_all add: p1_def fun_eq_iff st_view_def st_set_root_def st_good_def Let_def)
    have t: "t = RLeaf r k w" using rt_path_link [OF assms(2), THEN conjunct2, THEN conjunct1] None by simp
    have q: "q = st_dec_size (st_free_node r p1)" using assms(3) None by (simp add: p1_def)
    have "st_view p1 r = Some (Leaf_View k w)" using vr s(1) by simp
    note V = st_free_leaf_ok [OF s(2) this]
    have "dom (st_view p) = {r}" using T(1) by (simp add: pool_tree_def t)
    then have "dom (st_view q) = {}" using V(1) s(1) by (simp add: q st_dec_size_ok)
    moreover have "st_root q = st_nil" "st_size q = 0" "length (st_leaves q) = length (st_leaves p)" "length (st_inners q) = length (st_inners p)"
      using s T(4) by (simp_all add: q st_dec_size_ok st_free_node_def t)
    ultimately show ?thesis using V(2) by (simp add: None st_bare_def t) (simp add: q st_dec_size_ok)
  next
    case (Some l)
    obtain a c where l: "l = (a, c)" by (cases l)
    note O = rt_path_outside [OF assms(2) [unfolded Some l] T(1)]
    obtain par' d0 P sp kids g' where path: "rt_path k 0 t par' d0 (RNode a P sp kids) g'" "map_of kids c = Some (RLeaf r k w)"
      using rt_path_last [OF assms(2) [unfolded Some l] refl] by blast
    define ks where "ks = map (apsnd rt_ref) kids"
    have va: "st_view p a = Some (Inner_View P sp ks)" using rt_path_rep [OF path(1) T(5)] by (simp add: ks_def)
    have ok: "rt_ok d0 (RNode a P sp kids)" using rt_path_end [OF path(1) T(6)] by blast
    have ks: "ks_sorted ks" "map_of ks c \<noteq> None" using rt_okD(4) [OF ok] path(2) by (simp_all add: ks_def ks_map_of comp_def)
    define p1 where "p1 = st_remove_child a c p"
    have e1: "st_view p1 = (st_view p)(a \<mapsto> Inner_View P sp (ks_del c ks))" "st_good p1"
      using st_view_edit(5) [OF T(3) va ks] by (simp_all add: p1_def)
    have ne: "a \<noteq> r" using va vr by auto
    have "st_view p1 r = Some (Leaf_View k w)" using vr ne by (simp add: e1(1))
    note V = st_free_leaf_ok [OF e1(2) this]
    have q: "q = st_dec_size (st_free_node r p1)" using assms(3) st_view_not_nil [OF va] by (simp add: Some l p1_def)
    have vq: "st_view q = (st_view p)(r := None, a := None, a \<mapsto> Inner_View P sp (ks_del c ks))"
      using ne by (auto simp: fun_eq_iff q st_dec_size_ok V(1) e1(1))
    have f: "st_root q = st_root p" "st_size q = st_size p - 1" "length (st_leaves q) = length (st_leaves p)" "length (st_inners q) = length (st_inners p)"
      by (simp_all add: q st_dec_size_ok st_free_node_def p1_def st_edit_defs)
    obtain t' where t': "pool_tree (relink par' a (st_view q)) t'" "rt_ref t' = (if par' = None then a else rt_ref t)"
      "map_of (rt_recs t') = (map_of (rt_recs t))(k := None)" "map_of (rt_recs t) k = Some w" "length (rt_recs t) = Suc (length (rt_recs t'))"
      using edit_del_child [OF T(1) path va disjI1 [OF refl] vq] by blast
    have rl: "relink par' a (st_view q) = st_view q"
    proof -
      have "a \<in> set (rt_refs (RNode a P sp kids))" "r \<in> set (rt_refs (RNode a P sp kids))" using map_of_SomeD [OF path(2)] by force+
      then have "\<forall>b \<in> set (rt_refs t) - set (rt_refs (RNode a P sp kids)). st_view q b = st_view p b" by (auto simp: vq)
      then show ?thesis using relink_same [OF T(1) path(1)] by simp
    qed
    have "rt_ref t' = rt_ref t" using t'(2) rt_path_link [OF path(1), THEN conjunct2, THEN conjunct1] by (auto split: if_splits)
    then have "st_tree q t'" using t' rl T(2,4) f V(2) by (simp add: st_tree_def) (simp add: q st_dec_size_ok)
    then show ?thesis using t' f by (auto simp: Some)
  qed
qed

lemma st_erase_tree:
  assumes "st_tree p t"
  shows "\<exists>q. st_erase k p = Some (map_of (rt_recs t) k \<noteq> None, q)
    \<and> (st_bare q \<and> (map_of (rt_recs t))(k := None) = Map.empty \<or> (\<exists>t'. st_tree q t' \<and> map_of (rt_recs t') = (map_of (rt_recs t))(k := None)))
    \<and> length (st_leaves q) = length (st_leaves p) \<and> length (st_inners q) = length (st_inners p)"
proof -
  note T = st_treeD [OF assms]
  obtain par d s g where path: "rt_path k 0 t par d s g" "rt_stop k d s" using rt_path_exists by blast
  define q0 c0 where "q0 = par_ref par" and "c0 = par_disc par"
  have era: "st_erase k p = st_erase_loop p k q0 c0 (rt_ref s) d"
    using st_erase_path [OF T(3) path(1) T(5,6), of st_nil 0] T(2,7) by (simp add: st_erase_def q0_def c0_def)
  have rep: "rt_rep (st_view p) s" by (rule rt_path_rep [OF path(1) T(5)])
  have ok: "rt_ok d s" using rt_path_end [OF path(1) T(6)] by blast
  note L = rt_lookup_stop [OF T(6) path]
  have miss: ?thesis if "st_erase k p = Some (False, p)" "map_of (rt_recs t) k = None"
    using that assms by (intro exI [of _ p]) (auto simp: fun_upd_idem)
  show ?thesis
  proof (cases s)
    case (RLeaf r e w)
    note R = st_leaf_read [OF rep [unfolded RLeaf]]
    show ?thesis
    proof (cases "e = k")
      case False
      have "st_erase k p = Some (False, p)" using era R False by (subst (asm) st_erase_loop.simps) (simp add: RLeaf)
      then show ?thesis by (rule miss) (use L False in \<open>simp add: RLeaf\<close>)
    next
      case True
      define q where "q = st_dec_size (st_free_node r (if par_ref par = st_nil then st_set_root st_nil p else st_remove_child (par_ref par) (par_disc par) p))"
      have "st_erase k p = Some (True, q)" using era R True
        by (subst (asm) st_erase_loop.simps) (simp add: RLeaf q_def q0_def c0_def Let_def)
      moreover note H = st_erase_hit [OF assms path(1) [unfolded RLeaf True] q_def]
      moreover have "par = None \<Longrightarrow> (map_of (rt_recs t))(k := None) = Map.empty" using H by auto
      ultimately show ?thesis by (cases par) auto
    qed
  next
    case (RNode r P sp kids)
    note N = st_node [OF T(3) rep [unfolded RNode] ok [unfolded RNode]]
    have "st_erase k p = Some (False, p)" using era N(1-3) N(6) [of k] N(7) N(8) [of "span_slice k (d + length P) sp"] path(2)
      by (subst (asm) st_erase_loop.simps) (auto simp: RNode Let_def split: if_splits)
    then show ?thesis by (rule miss) (use L in \<open>simp add: RNode\<close>)
  qed
qed

section \<open>The organ as a map\<close>

lemma st_inv_cases:
  assumes "st_inv b p"
  obtains (bare) "st_bare p" "st_content p = Map.empty" | (tree) t where "st_tree p t" "st_content p = map_of (rt_recs t)"
  using assms st_content_eq by (auto simp: st_inv_def)

lemma st_inv_lengths: "st_inv b p \<Longrightarrow> length (st_leaves p) + b \<le> 2 ^ 56 \<and> length (st_inners p) + b \<le> 2 ^ 56"
  by (simp add: st_inv_def st_small_def)

lemma st_insert_budget:
  assumes "st_inv (Suc b) p"
  shows "\<exists>q. st_search_insert pol k v p = Some (Inr q) \<and> st_inv b q \<and> st_content q = (st_content p)(k \<mapsto> v)"
proof -
  note l = st_inv_lengths [OF assms]
  then have s: "st_small 1 p" by (simp add: st_small_def)
  show ?thesis
  proof (cases rule: st_inv_cases [OF assms, case_names bare tree])
    case bare
    then show ?thesis using st_insert_bare [OF bare(1) s, of pol k v] l st_content_eq(1)
      by (fastforce simp: st_search_insert_def st_inv_def st_small_def)
  next
    case (tree t)
    obtain q where q: "st_insert pol k v p = Some q" "st_grown p t k v q" using st_insert_tree [OF tree(1) s] by blast
    then show ?thesis using l st_content_eq(1) tree(2) by (auto simp: st_search_insert_def st_inv_def st_small_def st_grown_def)
  qed
qed

lemma st_erase_budget:
  assumes "st_inv (Suc b) p"
  shows "\<exists>q. st_erase k p = Some (st_content p k \<noteq> None, q) \<and> st_inv b q \<and> st_content q = (st_content p)(k := None)"
proof -
  note l = st_inv_lengths [OF assms]
  show ?thesis
  proof (cases rule: st_inv_cases [OF assms, case_names bare tree])
    case bare
    then have "st_erase k p = Some (False, p)" by (simp add: st_erase_def st_bare_def)
    then show ?thesis using bare l by (auto simp: st_inv_def st_small_def)
  next
    case (tree t)
    obtain q where "st_erase k p = Some (map_of (rt_recs t) k \<noteq> None, q)"
      "st_bare q \<and> (map_of (rt_recs t))(k := None) = Map.empty \<or> (\<exists>t'. st_tree q t' \<and> map_of (rt_recs t') = (map_of (rt_recs t))(k := None))"
      "length (st_leaves q) = length (st_leaves p)" "length (st_inners q) = length (st_inners p)"
      using st_erase_tree [OF tree(1)] by blast
    then show ?thesis using tree(2) l st_content_eq by (intro exI [of _ q]) (auto simp: st_inv_def st_small_def)
  qed
qed

lemma st_count_ok: "st_inv b p \<Longrightarrow> st_size p = card (dom (st_content p))"
  by (cases rule: st_inv_cases [of b p]) (auto simp: st_bare_def st_treeD(4) card_dom_map_of [OF st_treeD(8)])

lemma st_fresh_bare: "st_root p = st_nil \<Longrightarrow> st_leaves p = [] \<Longrightarrow> st_inners p = [] \<Longrightarrow> st_fl_leaf p = [] \<Longrightarrow> st_fl_inner p = [] \<Longrightarrow> st_size p = 0 \<Longrightarrow> st_bare p"
  by (auto simp: st_bare_def st_view_def st_good_def Let_def)

interpretation start: budget_map st_inv st_lookup "st_search_insert pol" st_erase st_size st_clear st_content "\<lambda>_. False" for pol
proof unfold_locales
  fix b p k v
  show "st_inv (Suc b) p \<Longrightarrow> st_inv b p" by (auto simp: st_inv_def st_small_def)
  show "st_lookup p k = Some (st_content p k)" if "st_inv b p"
  proof (cases rule: st_inv_cases [OF that, case_names bare tree])
    case bare
    then show ?thesis by (simp add: st_lookup_def st_bare_def st_lookup_loop.simps)
  next
    case (tree t)
    then show ?thesis using st_lookup_tree by simp
  qed
  show "st_inv (Suc b) p \<Longrightarrow> \<exists>q. st_search_insert pol k v p = Some (Inr q) \<and> st_inv b q \<and> st_content q = (st_content p)(k \<mapsto> v)"
    by (rule st_insert_budget)
  show "st_inv (Suc b) p \<Longrightarrow> \<exists>q. st_erase k p = Some (st_content p k \<noteq> None, q) \<and> st_inv b q \<and> st_content q = (st_content p)(k := None)"
    by (rule st_erase_budget)
  show "st_inv b p \<Longrightarrow> st_size p = card (dom (st_content p))" by (rule st_count_ok)
  show "st_inv b (st_clear p) \<and> st_content (st_clear p) = Map.empty" if "st_inv (Suc b) p"
  proof -
    have c: "st_bare (st_clear p)" by (rule st_fresh_bare) (simp_all add: st_clear_def)
    moreover have "b \<le> 2 ^ 56" using st_inv_lengths [OF that] by simp
    ultimately show ?thesis using st_content_eq(2) [OF c] by (simp add: st_inv_def st_small_def) (simp add: st_clear_def)
  qed
qed simp

lemma st_init_ok: "b \<le> 2 ^ 56 \<Longrightarrow> st_inv b st_init" "st_content st_init = Map.empty"
proof -
  have b: "st_bare st_init" by (rule st_fresh_bare) (simp_all add: st_init_def)
  then show "st_content st_init = Map.empty" by (rule st_content_eq(2))
  assume "b \<le> 2 ^ 56"
  then show "st_inv b st_init" using b by (simp add: st_inv_def st_small_def) (simp add: st_init_def)
qed

text \<open>Copies have the same content.\<close>
lemma copy_inners_from_append: "copy_inners_from xs p = p\<lparr>st_inners := st_inners p @ xs\<rparr>"
proof (induction xs arbitrary: p)
  case (Cons x xs)
  then show ?case by (simp add: copy_inners_from_def)
qed (simp add: copy_inners_from_def)

lemma st_copy_same: "st_copy p = p" "st_assign q p = p"
  by (simp_all add: st_copy_def st_assign_def copy_inners_from_append Let_def)

lemma start_run:
  assumes "length ops \<le> 2 ^ 56"
  obtains p where "pool_run st_lookup (st_search_insert pol) st_erase st_size st_clear ops st_init
      = Some (map Inr (fst (spec_map_run ops Map.empty)), p)" "st_inv 0 p" "st_content p = snd (spec_map_run ops Map.empty)"
  using start.run_refines [OF st_init_ok(1) [OF assms], of pol] spec_pool_run_total [of ops Map.empty] st_init_ok(2) by auto

text \<open>C10: From the empty pool and with each of the three policy spans, any at most \<open>2\<^sup>5\<^sup>6\<close> calls of insert, erase, lookup,
  size and clear on the START organ return, raise nothing, and answer as the finite map does: the prefixes and spans on the
  way to a leaf decide correctly, whatever splits of leaves and prefixes came before.\<close>
theorem start_refines_map:
  assumes "length ops \<le> 2 ^ 56"
  shows "map_option fst (pool_run st_lookup (st_search_insert pol) st_erase st_size st_clear ops st_init)
    = Some (map Inr (fst (spec_map_run ops Map.empty)))"
  by (rule start_run [OF assms, of pol]) simp

theorem start_refines_map_witness:
  "map_option fst (pool_run st_lookup (st_search_insert Span_2) st_erase st_size st_clear
       [Insert 6 60, Insert 0x10006 40, Insert 6 61, Lookup 6, Erase 0x10006, Lookup 0x10006, Count] st_init)
    = Some (map Inr [Found (Some 61), Erased True, Found None, Counted 1])"
proof -
  have "fst (spec_map_run [Insert 6 60, Insert 0x10006 40, Insert 6 61, Lookup 6, Erase 0x10006, Lookup 0x10006, Count] Map.empty)
      = [Found (Some 61), Erased True, Found None, Counted 1]"
    by (simp add: spec_map_run_def fun_upd_twist [of 6 "0x10006"])
  then show ?thesis using start_refines_map [of "[Insert 6 60, Insert 0x10006 40, Insert 6 61, Lookup 6, Erase 0x10006, Lookup 0x10006, Count]"] by simp
qed

text \<open>C16: After any at most \<open>2\<^sup>5\<^sup>6\<close> calls, the START pool is empty or stands for a radix tree in which every node is used
  once and no slot is both in use and free, prefixes stay below the key's end, and the record walk stays within its inline stack of nine
  frames, so that it never throws: it delivers each stored record exactly once and returns their number.\<close>
theorem start_pool_well_formed:
  assumes "length ops \<le> 2 ^ 56"
  shows "\<exists>rs p xs. pool_run st_lookup (st_search_insert pol) st_erase st_size st_clear ops st_init = Some (rs, p)
    \<and> (st_bare p \<or> (\<exists>t. st_tree p t))
    \<and> st_for_each_record p = Some (Inr (xs, st_size p)) \<and> distinct (map fst xs) \<and> map_of xs = snd (spec_map_run ops Map.empty)"
proof (rule start_run [OF assms, of pol])
  fix p assume p: "pool_run st_lookup (st_search_insert pol) st_erase st_size st_clear ops st_init
      = Some (map Inr (fst (spec_map_run ops Map.empty)), p)" "st_inv 0 p" "st_content p = snd (spec_map_run ops Map.empty)"
  have "\<exists>xs. st_for_each_record p = Some (Inr (xs, st_size p)) \<and> distinct (map fst xs) \<and> map_of xs = st_content p"
  proof (cases rule: st_inv_cases [OF p(2), case_names bare tree])
    case bare
    then show ?thesis by (intro exI [of _ "[]"]) (simp add: st_bare_def st_for_each_record_def)
  next
    case (tree t)
    then show ?thesis using st_records_ok st_treeD(8) by auto
  qed
  then show ?thesis using p by (auto simp: st_inv_def)
qed

theorem start_pool_well_formed_witness:
  "\<exists>rs p xs. pool_run st_lookup (st_search_insert Span_3) st_erase st_size st_clear [Insert 6 60, Insert 4 40, Insert 6 61] st_init = Some (rs, p)
    \<and> (st_bare p \<or> (\<exists>t. st_tree p t))
    \<and> st_for_each_record p = Some (Inr (xs, st_size p)) \<and> distinct (map fst xs) \<and> map_of xs = [4 \<mapsto> 40, 6 \<mapsto> 61]"
proof -
  have "snd (spec_map_run [Insert 6 60, Insert 4 40, Insert 6 61] Map.empty) = [4 \<mapsto> 40, 6 \<mapsto> 61]"
    by (simp add: spec_map_run_def fun_upd_twist [of 6 4])
  then show ?thesis using start_pool_well_formed [of "[Insert 6 60, Insert 4 40, Insert 6 61]"] by simp
qed

end
