(* ===== verification/Succinct.thy ===== *)
theory Succinct imports CE_Prelude begin

text \<open>
  The succinct structures of \<^verbatim>\<open>libs/common/succinct\<close>: the bit vector with its rank index
  (\<^verbatim>\<open>bit_vector.hpp\<close>) and the level-order unary degree sequence built on it (\<^verbatim>\<open>louds.hpp\<close>).

  A bit vector abstracts to the list \<open>bv_list\<close> of its bits.  Positions and sizes are natural
  numbers, bounded by \<open>2 ^ 64\<close> in the invariant where counters of the code are 64-bit words; the two
  sums that can wrap in \<^verbatim>\<open>std::size_t\<close>, the rounding up of \<^verbatim>\<open>resize\<close> and the bit total of
  \<^verbatim>\<open>build_from_bfs_degrees\<close>, are taken modulo \<open>2 ^ 64\<close>.  The assertion in \<^verbatim>\<open>rank1\<close> that the index is up to date is the result \<open>None\<close>.
\<close>

section \<open>BitVector\<close>

record bit_vector =
  bits :: nat
  bv_words :: "u64 list"
  rank_prefix :: "u64 list"
  rank_dirty :: bool

definition bv_resize :: "nat \<Rightarrow> bit_vector \<Rightarrow> bit_vector" where
  "bv_resize num_bits b =
     b\<lparr>bits := num_bits, bv_words := replicate ((num_bits + 64 - 1) mod 2 ^ 64 div 64) 0, rank_dirty := True\<rparr>"

definition bv_empty :: bit_vector where
  "bv_empty = \<lparr>bits = 0, bv_words = [], rank_prefix = [], rank_dirty = True\<rparr>"

definition bv_init :: "nat \<Rightarrow> bit_vector" where
  "bv_init num_bits = bv_resize num_bits bv_empty"

text \<open>The status code and the vector; 7 is the code's out-of-range status.\<close>
definition bv_set :: "nat \<Rightarrow> bool \<Rightarrow> bit_vector \<Rightarrow> nat \<times> bit_vector" where
  "bv_set i v b =
     (if bits b \<le> i then (7, b)
      else (let w = i div 64; m = push_bit (i mod 64) 1;
                x = (if v then bv_words b ! w OR m else bv_words b ! w AND NOT m)
            in (0, b\<lparr>bv_words := (bv_words b)[w := x], rank_dirty := True\<rparr>)))"

definition bv_get :: "bit_vector \<Rightarrow> nat \<Rightarrow> bool" where
  "bv_get b i =
     (if bits b \<le> i then False
      else (drop_bit (i mod 64) (bv_words b ! (i div 64)) AND 1) \<noteq> 0)"

text \<open>\<^verbatim>\<open>std::popcount\<close>, and its sum over the words of a range, added to a counter.\<close>
definition popcount :: "u64 \<Rightarrow> nat" where
  "popcount w = length (filter (bit w) [0..<64])"

definition add_popcounts :: "u64 list \<Rightarrow> nat \<Rightarrow> nat \<Rightarrow> u64 \<Rightarrow> u64" where
  "add_popcounts ws i j c0 =
     fold (\<lambda>w n. n + word_of_nat (popcount (ws ! w))) [i..<j] c0"

definition rank_blocks :: "u64 list \<Rightarrow> nat \<Rightarrow> u64 \<times> u64 list" where
  "rank_blocks ws nblocks =
     fold (\<lambda>b (prefix, table).
         (add_popcounts ws (b * 4) (min (b * 4 + 4) (length ws)) prefix, table[b := prefix]))
       [0..<nblocks] (0, replicate (nblocks + 1) 0)"

definition bv_build_rank_index :: "bit_vector \<Rightarrow> bit_vector" where
  "bv_build_rank_index b =
     (let nblocks = (length (bv_words b) + 4 - 1) div 4
      in case rank_blocks (bv_words b) nblocks of (prefix, table) \<Rightarrow>
           b\<lparr>rank_prefix := table[length table - 1 := prefix], rank_dirty := False\<rparr>)"

definition bv_rank1 :: "bit_vector \<Rightarrow> nat \<Rightarrow> u64 option" where
  "bv_rank1 b i0 =
     (if rank_dirty b then None
      else (let i = (if bits b \<le> i0 then bits b else i0);
                block = i div 256;
                target = i div 64;
                cnt = add_popcounts (bv_words b) (block * 4) target (rank_prefix b ! block)
            in Some (if target < length (bv_words b) \<and> 0 < i mod 64
                     then cnt + word_of_nat (popcount (bv_words b ! target AND (push_bit (i mod 64) 1 - 1)))
                     else cnt)))"

definition bv_rank0 :: "bit_vector \<Rightarrow> nat \<Rightarrow> u64 option" where
  "bv_rank0 b i0 =
     (let i = (if bits b < i0 then bits b else i0)
      in case bv_rank1 b i of None \<Rightarrow> None | Some r \<Rightarrow> Some (word_of_nat i - r))"

definition bv_total_ones :: "bit_vector \<Rightarrow> u64" where
  "bv_total_ones b = (if rank_dirty b then 0 else last (rank_prefix b))"

text \<open>The loop \<^verbatim>\<open>select1\<close> and \<^verbatim>\<open>select0\<close> share: the k-th position whose bit is \<open>v\<close>.\<close>
function bv_select_loop :: "bit_vector \<Rightarrow> bool \<Rightarrow> u64 \<Rightarrow> nat \<Rightarrow> u64 \<Rightarrow> nat" where
  "bv_select_loop b v k i cnt = (if i < bits b
     then (if bv_get b i = v
           then (if cnt + 1 = k then i else bv_select_loop b v k (i + 1) (cnt + 1))
           else bv_select_loop b v k (i + 1) cnt)
     else bits b)"
  by pat_completeness auto
termination by (relation "measure (\<lambda>(b, v, k, i, cnt). bits b - i)") auto

declare bv_select_loop.simps [simp del]

definition bv_select1 :: "bit_vector \<Rightarrow> u64 \<Rightarrow> nat" where
  "bv_select1 b k = (if k = 0 then bits b else bv_select_loop b True k 0 0)"

definition bv_select0 :: "bit_vector \<Rightarrow> u64 \<Rightarrow> nat" where
  "bv_select0 b k = (if k = 0 then bits b else bv_select_loop b False k 0 0)"

definition bv_clear :: "bit_vector \<Rightarrow> bit_vector" where
  "bv_clear b = b\<lparr>bv_words := map (\<lambda>_. 0) (bv_words b), rank_dirty := True\<rparr>"

section \<open>The list of bits and the invariant\<close>

definition word_bit :: "u64 list \<Rightarrow> nat \<Rightarrow> bool" where
  "word_bit ws i = bit (ws ! (i div 64)) (i mod 64)"

definition bv_list :: "bit_vector \<Rightarrow> bool list" where
  "bv_list b = map (bv_get b) [0..<bits b]"

definition bv_inv :: "bit_vector \<Rightarrow> bool" where
  "bv_inv b \<longleftrightarrow> bits b < 2 ^ 64 \<and> length (bv_words b) = (bits b + 63) div 64
     \<and> (\<forall>i. bits b \<le> i \<and> i < 64 * length (bv_words b) \<longrightarrow> \<not> word_bit (bv_words b) i)
     \<and> (\<not> rank_dirty b \<longrightarrow> rank_prefix b = rank_prefix (bv_build_rank_index b))"

definition rank_spec :: "bool list \<Rightarrow> nat \<Rightarrow> nat" where
  "rank_spec xs i = length (filter id (take i xs))"

lemma bv_get_word_bit: "bv_get b i \<longleftrightarrow> i < bits b \<and> word_bit (bv_words b) i"
proof -
  have "(drop_bit n w AND 1) \<noteq> 0 \<longleftrightarrow> bit w n" for n and w :: u64
    by (simp add: and_one_eq bit_iff_odd_drop_bit odd_iff_mod_2_eq_one even_iff_mod_2_eq_zero)
  then show ?thesis by (auto simp: bv_get_def word_bit_def)
qed

lemma length_bv_list [simp]: "length (bv_list b) = bits b"
  by (simp add: bv_list_def)

lemma bv_list_nth [simp]: "i < bits b \<Longrightarrow> bv_list b ! i = word_bit (bv_words b) i"
  by (simp add: bv_list_def bv_get_word_bit)

text \<open>Counting set bits between two positions.\<close>
definition ones_in :: "u64 list \<Rightarrow> nat \<Rightarrow> nat \<Rightarrow> nat" where
  "ones_in ws i j = length (filter (word_bit ws) [i..<j])"

lemma ones_in_split: "i \<le> j \<Longrightarrow> j \<le> l \<Longrightarrow> ones_in ws i j + ones_in ws j l = ones_in ws i l"
  by (simp add: ones_in_def upt_split [of i j l])

lemma ones_in_empty [simp]: "ones_in ws i i = 0"
  by (simp add: ones_in_def)

lemma ones_in_word:
  assumes "m \<le> 64"
  shows "ones_in ws (64 * w) (64 * w + m) = length (filter (bit (ws ! w)) [0..<m])"
proof -
  have "[64 * w..<64 * w + m] = map (\<lambda>i. i + 64 * w) [0..<m]"
    by (simp add: map_add_upt add.commute)
  moreover have "filter (\<lambda>i. word_bit ws (i + 64 * w)) [0..<m] = filter (bit (ws ! w)) [0..<m]"
    using assms by (intro filter_cong) (auto simp: word_bit_def)
  ultimately show ?thesis by (simp add: ones_in_def filter_map comp_def)
qed

lemma popcount_ones: "popcount (ws ! w) = ones_in ws (64 * w) (64 * w + 64)"
  by (simp add: ones_in_word popcount_def)

lemma add_popcounts_ones:
  "i \<le> j \<Longrightarrow> add_popcounts ws i j c = c + word_of_nat (ones_in ws (64 * i) (64 * j))"
proof (induction j)
  case (Suc j)
  show ?case
  proof (cases "i = Suc j")
    case False
    then have "i \<le> j" using Suc.prems by simp
    moreover have "ones_in ws (64 * i) (64 * Suc j) = ones_in ws (64 * i) (64 * j) + popcount (ws ! j)"
      using ones_in_split [of "64 * i" "64 * j" "64 * Suc j" ws] \<open>i \<le> j\<close> by (simp add: popcount_ones add.commute)
    ultimately show ?thesis using Suc.IH by (simp add: add_popcounts_def add.assoc)
  qed (simp add: add_popcounts_def)
qed (simp add: add_popcounts_def)

lemma popcount_mask:
  assumes "m \<le> 64"
  shows "popcount (ws ! w AND (push_bit m 1 - 1)) = ones_in ws (64 * w) (64 * w + m)"
proof -
  have "(push_bit m 1 - 1 :: u64) = mask m" by (simp add: mask_eq_decr_exp push_bit_eq_mult)
  moreover have "filter (bit (ws ! w AND mask m)) [0..<64] = filter (bit (ws ! w)) [0..<m]"
  proof -
    have "[0..<64] = [0..<m] @ [m..<64]" using assms by (intro upt_split) simp_all
    then show ?thesis using assms
      by (auto simp: bit_and_iff bit_mask_iff filter_empty_conv intro!: filter_cong)
  qed
  ultimately show ?thesis using assms by (simp add: popcount_def ones_in_word)
qed

section \<open>The rank index\<close>

text \<open>The number of set bits of a sound vector, by position in its list of bits.\<close>
lemma rank_spec_ones:
  assumes "i \<le> bits b"
  shows "rank_spec (bv_list b) i = ones_in (bv_words b) 0 i"
proof -
  have "take i (bv_list b) = map (word_bit (bv_words b)) [0..<i]"
    using assms by (intro nth_equalityI) simp_all
  then show ?thesis by (simp add: rank_spec_def ones_in_def filter_map comp_def)
qed

lemma rank_blocks_spec:
  assumes "n \<le> (length ws + 3) div 4"
    "fold (\<lambda>b (prefix, table).
         (add_popcounts ws (b * 4) (min (b * 4 + 4) (length ws)) prefix, table[b := prefix]))
       [0..<n] (0, t) = (prefix, table)"
  shows "prefix = word_of_nat (ones_in ws 0 (64 * min (4 * n) (length ws))) \<and> length table = length t
    \<and> (\<forall>b < n. b < length t \<longrightarrow> table ! b = word_of_nat (ones_in ws 0 (256 * b)))"
  using assms
proof (induction n arbitrary: prefix table)
  case (Suc n)
  obtain p tb where s: "fold (\<lambda>b (prefix, table).
         (add_popcounts ws (b * 4) (min (b * 4 + 4) (length ws)) prefix, table[b := prefix]))
       [0..<n] (0, t) = (p, tb)" by fastforce
  have l: "4 * n < length ws" using Suc.prems(1) by linarith
  have IH: "p = word_of_nat (ones_in ws 0 (256 * n))" "length tb = length t"
      "\<forall>b < n. b < length t \<longrightarrow> tb ! b = word_of_nat (ones_in ws 0 (256 * b))"
    using Suc.IH [OF _ s] Suc.prems(1) l by auto
  have eq: "prefix = add_popcounts ws (n * 4) (min (n * 4 + 4) (length ws)) p" "table = tb[n := p]"
    using Suc.prems(2) s by simp_all
  define e where "e = min (n * 4 + 4) (length ws)"
  have e: "n * 4 \<le> e" "e = min (4 * Suc n) (length ws)" using l by (simp_all add: e_def)
  have "ones_in ws 0 (64 * (n * 4)) + ones_in ws (64 * (n * 4)) (64 * e) = ones_in ws 0 (64 * e)"
    using e(1) by (intro ones_in_split) simp_all
  moreover have "p = word_of_nat (ones_in ws 0 (64 * (n * 4)))" using IH(1) by (simp add: mult.commute)
  ultimately have "prefix = word_of_nat (ones_in ws 0 (64 * e))"
    unfolding eq(1) e_def [symmetric] add_popcounts_ones [OF e(1)] by (metis of_nat_add)
  then have "prefix = word_of_nat (ones_in ws 0 (64 * min (4 * Suc n) (length ws)))"
    unfolding e(2) .
  then show ?case using IH by (auto simp: eq less_Suc_eq nth_list_update)
qed simp

text \<open>The entries of the built index.\<close>
lemma build_rank_index_table:
  assumes "n = (length (bv_words v) + 3) div 4"
  obtains prefix table where "rank_prefix (bv_build_rank_index v) = table[n := prefix]"
    "prefix = word_of_nat (ones_in (bv_words v) 0 (64 * min (4 * n) (length (bv_words v))))"
    "length table = n + 1" "\<forall>b < n. table ! b = word_of_nat (ones_in (bv_words v) 0 (256 * b))"
proof -
  obtain prefix table where r: "rank_blocks (bv_words v) n = (prefix, table)" by fastforce
  have s: "prefix = word_of_nat (ones_in (bv_words v) 0 (64 * min (4 * n) (length (bv_words v))))"
      "length table = n + 1" "\<forall>b < n. table ! b = word_of_nat (ones_in (bv_words v) 0 (256 * b))"
    using rank_blocks_spec [of n "bv_words v" "replicate (n + 1) 0" prefix table] r assms
    by (auto simp: rank_blocks_def)
  have nb: "(length (bv_words v) + 4 - 1) div 4 = n" by (simp add: assms)
  have "rank_prefix (bv_build_rank_index v) = table[n := prefix]"
    unfolding bv_build_rank_index_def nb Let_def r using s(2) by simp
  then show ?thesis using s that by blast
qed

lemma build_rank_index_prefix:
  assumes "b \<le> (length (bv_words v) + 3) div 4"
  shows "rank_prefix (bv_build_rank_index v) ! b
    = word_of_nat (ones_in (bv_words v) 0 (64 * min (4 * b) (length (bv_words v))))"
proof -
  define n where "n = (length (bv_words v) + 3) div 4"
  obtain prefix table where t: "rank_prefix (bv_build_rank_index v) = table[n := prefix]"
    "prefix = word_of_nat (ones_in (bv_words v) 0 (64 * min (4 * n) (length (bv_words v))))"
    "length table = n + 1" "\<forall>b < n. table ! b = word_of_nat (ones_in (bv_words v) 0 (256 * b))"
    using build_rank_index_table [OF n_def] .
  have "64 * min (4 * b) (length (bv_words v)) = 256 * b" if "b < n"
    using that by (simp add: n_def)
  then show ?thesis using t assms by (cases "b = n") (auto simp: n_def [symmetric])
qed

lemma build_rank_index_last:
  "last (rank_prefix (bv_build_rank_index v)) = word_of_nat (ones_in (bv_words v) 0 (64 * length (bv_words v)))"
proof -
  define n where "n = (length (bv_words v) + 3) div 4"
  obtain prefix table where t: "rank_prefix (bv_build_rank_index v) = table[n := prefix]"
    "prefix = word_of_nat (ones_in (bv_words v) 0 (64 * min (4 * n) (length (bv_words v))))"
    "length table = n + 1"
    using build_rank_index_table [OF n_def] by metis
  have "min (4 * n) (length (bv_words v)) = length (bv_words v)" unfolding n_def by linarith
  moreover have "last (table[n := prefix]) = prefix" using t(3)
    by (cases table rule: rev_cases) (auto simp: list_update_append)
  ultimately show ?thesis using t by simp
qed

lemma build_rank_index_simps [simp]:
  "bits (bv_build_rank_index v) = bits v" "bv_words (bv_build_rank_index v) = bv_words v"
  "rank_dirty (bv_build_rank_index v) = False"
  by (simp_all add: bv_build_rank_index_def Let_def split: prod.splits)

lemma rank1_correct:
  assumes "bv_inv b" "\<not> rank_dirty b"
  shows "bv_rank1 b i = Some (word_of_nat (rank_spec (bv_list b) (min i (bits b))))"
proof -
  define n where "n = min i (bits b)"
  define t where "t = n div 64"
  define ws where "ws = bv_words b"
  have len: "length ws = (bits b + 63) div 64" using assms(1) by (simp add: bv_inv_def ws_def)
  have n: "n \<le> bits b" "64 * t + n mod 64 = n" by (simp_all add: n_def t_def)
  then have n64: "64 * t \<le> n" by linarith
  have blk: "n div 256 * 4 \<le> t" by (simp add: t_def)
  have tl: "t \<le> length ws" using n(1) unfolding t_def len by linarith
  have "n div 256 \<le> (length ws + 3) div 4" using blk tl by linarith
  then have "rank_prefix b ! (n div 256) = word_of_nat (ones_in ws 0 (64 * min (4 * (n div 256)) (length ws)))"
    using assms by (metis build_rank_index_prefix bv_inv_def ws_def)
  also have "64 * min (4 * (n div 256)) (length ws) = 64 * (n div 256 * 4)"
    using blk tl by simp
  finally have c: "add_popcounts ws (n div 256 * 4) t (rank_prefix b ! (n div 256)) = word_of_nat (ones_in ws 0 (64 * t))"
    using ones_in_split [of 0 "64 * (n div 256 * 4)" "64 * t" ws] blk
    unfolding add_popcounts_ones [OF blk] by (metis le0 mult_le_mono2 of_nat_add)
  have rest: "ones_in ws 0 n = ones_in ws 0 (64 * t) + ones_in ws (64 * t) (64 * t + n mod 64)"
    unfolding n(2) using ones_in_split [of 0 "64 * t" n ws] n64 by simp
  have last: "n mod 64 = 0" if "\<not> t < length ws"
  proof (rule ccontr)
    assume "n mod 64 \<noteq> 0"
    then have "1 \<le> n mod 64" by simp
    then have "Suc t * 64 \<le> n + 63" using n(2) by simp
    then have "t < (n + 63) div 64" by (simp add: Suc_le_eq [symmetric] less_eq_div_iff_mult_less_eq)
    also have "\<dots> \<le> length ws" unfolding len using n(1) by (intro div_le_mono) simp
    finally show False using that by simp
  qed
  have eq: "bv_rank1 b i = Some (if t < length ws \<and> 0 < n mod 64
      then word_of_nat (ones_in ws 0 (64 * t)) + word_of_nat (popcount (ws ! t AND (push_bit (n mod 64) 1 - 1)))
      else word_of_nat (ones_in ws 0 (64 * t)))"
  proof -
    have "(if bits b \<le> i then bits b else i) = n" by (simp add: n_def)
    then show ?thesis using assms(2) c unfolding bv_rank1_def Let_def ws_def t_def by simp
  qed
  have "popcount (ws ! t AND (push_bit (n mod 64) 1 - 1)) = ones_in ws (64 * t) (64 * t + n mod 64)"
    by (rule popcount_mask) simp
  then have "bv_rank1 b i = Some (word_of_nat (ones_in ws 0 n))"
    using eq rest last by auto
  then show ?thesis using rank_spec_ones [OF n(1)] by (simp add: n_def ws_def)
qed

lemma rank0_correct:
  assumes "bv_inv b" "\<not> rank_dirty b"
  shows "bv_rank0 b i = Some (word_of_nat (min i (bits b) - rank_spec (bv_list b) (min i (bits b))))"
proof -
  have "rank_spec (bv_list b) (min i (bits b)) \<le> min i (bits b)"
    unfolding rank_spec_def by (rule le_trans [OF length_filter_le]) simp
  moreover have "(if bits b < i then bits b else i) = min i (bits b)" by simp
  ultimately show ?thesis using rank1_correct [OF assms, of "min i (bits b)"]
    unfolding bv_rank0_def Let_def by (simp add: of_nat_diff)
qed

lemma total_ones_correct:
  assumes "bv_inv b" "\<not> rank_dirty b"
  shows "bv_total_ones b = word_of_nat (rank_spec (bv_list b) (bits b))"
proof -
  have len: "length (bv_words b) = (bits b + 63) div 64"
    and pad: "\<forall>i. bits b \<le> i \<and> i < 64 * length (bv_words b) \<longrightarrow> \<not> word_bit (bv_words b) i"
    and idx: "rank_prefix b = rank_prefix (bv_build_rank_index b)"
    using assms by (simp_all add: bv_inv_def)
  have "bits b \<le> 64 * length (bv_words b)" unfolding len by linarith
  moreover have "ones_in (bv_words b) (bits b) (64 * length (bv_words b)) = 0"
    using pad by (simp add: ones_in_def filter_empty_conv)
  ultimately have "ones_in (bv_words b) 0 (64 * length (bv_words b)) = rank_spec (bv_list b) (bits b)"
    using ones_in_split [of 0 "bits b" "64 * length (bv_words b)" "bv_words b"]
    by (simp add: rank_spec_ones)
  then show ?thesis using assms(2) by (simp add: bv_total_ones_def idx build_rank_index_last)
qed

section \<open>Updates\<close>

lemma build_rank_index_list [simp]: "bv_list (bv_build_rank_index b) = bv_list b"
  by (simp add: bv_list_def bv_get_word_bit cong: map_cong)

lemma build_rank_index_words:
  "bv_words a = bv_words b \<Longrightarrow> rank_prefix (bv_build_rank_index a) = rank_prefix (bv_build_rank_index b)"
  by (simp add: bv_build_rank_index_def Let_def split: prod.splits)

lemma bv_inv_build: "bv_inv b \<Longrightarrow> bv_inv (bv_build_rank_index b)"
  using build_rank_index_words [of "bv_build_rank_index b" b] by (simp add: bv_inv_def)

lemma bv_resize_ok:
  assumes "n + 63 < 2 ^ 64"
  shows "bv_inv (bv_resize n b)" "bv_list (bv_resize n b) = replicate n False" "bits (bv_resize n b) = n"
proof -
  have z: "\<not> word_bit (replicate m 0) i" if "i < 64 * m" for m i
    using that by (simp add: word_bit_def less_mult_imp_div_less)
  have m: "(n + 64 - 1) mod 2 ^ 64 = n + 63" using assms by simp
  show "bv_inv (bv_resize n b)" unfolding bv_inv_def bv_resize_def m using assms z by auto
  show "bv_list (bv_resize n b) = replicate n False"
  proof (rule nth_equalityI)
    fix i assume "i < length (bv_list (bv_resize n b))"
    then have "i < n" by (simp add: bv_resize_def)
    moreover from this have "i < 64 * ((n + 63) div 64)" by linarith
    ultimately show "bv_list (bv_resize n b) ! i = replicate n False ! i"
      unfolding bv_resize_def m using z by simp
  qed (simp add: bv_resize_def)
qed (simp add: bv_resize_def)

lemma word_bit_update:
  assumes "i div 64 < length ws"
  shows "word_bit (ws[i div 64 := if v then ws ! (i div 64) OR push_bit (i mod 64) 1
      else ws ! (i div 64) AND NOT (push_bit (i mod 64) 1)]) j = (if j = i then v else word_bit ws j)"
proof (cases "j div 64 = i div 64")
  case True
  have "j = i \<longleftrightarrow> j mod 64 = i mod 64" using True by (metis div_mult_mod_eq)
  then show ?thesis using True assms
    by (auto simp: word_bit_def bit_simps)
next
  case False
  then show ?thesis by (auto simp: word_bit_def nth_list_update)
qed

lemma bv_set_correct:
  assumes "bv_inv b"
  shows "bv_inv (snd (bv_set i v b))" "bv_list (snd (bv_set i v b)) = (bv_list b)[i := v]"
    "bits (snd (bv_set i v b)) = bits b" "fst (bv_set i v b) = (if i < bits b then 0 else 7)"
proof -
  show "bits (snd (bv_set i v b)) = bits b" "fst (bv_set i v b) = (if i < bits b then 0 else 7)"
    by (simp_all add: bv_set_def Let_def)
  have "bv_inv (snd (bv_set i v b)) \<and> bv_list (snd (bv_set i v b)) = (bv_list b)[i := v]"
  proof (cases "i < bits b")
    case True
    have len: "length (bv_words b) = (bits b + 63) div 64" using assms by (simp add: bv_inv_def)
    have w: "i div 64 < length (bv_words b)" unfolding len using True by linarith
    define ws where "ws = (bv_words b)[i div 64 := if v then bv_words b ! (i div 64) OR push_bit (i mod 64) 1
      else bv_words b ! (i div 64) AND NOT (push_bit (i mod 64) 1)]"
    have eq: "snd (bv_set i v b) = b\<lparr>bv_words := ws, rank_dirty := True\<rparr>"
      using True by (simp add: bv_set_def Let_def ws_def)
    have bit: "word_bit ws j = (if j = i then v else word_bit (bv_words b) j)" for j
      unfolding ws_def using w by (rule word_bit_update)
    have "bv_inv (b\<lparr>bv_words := ws, rank_dirty := True\<rparr>)"
      using assms True bit by (auto simp: bv_inv_def ws_def)
    moreover have "bv_list (b\<lparr>bv_words := ws, rank_dirty := True\<rparr>) = (bv_list b)[i := v]"
      by (rule nth_equalityI) (auto simp: bit nth_list_update)
    ultimately show ?thesis using eq by simp
  qed (use assms in \<open>simp add: bv_set_def list_update_beyond\<close>)
  then show "bv_inv (snd (bv_set i v b))" "bv_list (snd (bv_set i v b)) = (bv_list b)[i := v]" by blast+
qed

lemma bv_clear_correct:
  assumes "bv_inv b"
  shows "bv_inv (bv_clear b)" "bv_list (bv_clear b) = replicate (bits b) False"
proof -
  have z: "\<not> word_bit (map (\<lambda>_. 0) ws) i" if "i < 64 * length ws" for ws i
    using that by (simp add: word_bit_def less_mult_imp_div_less)
  have l: "length (bv_words b) = (bits b + 63) div 64" using assms by (simp add: bv_inv_def)
  have "\<not> word_bit (map (\<lambda>_. 0) (bv_words b)) i" if "i < 64 * ((bits b + 63) div 64)" for i
    using z [of i "bv_words b"] that l by simp
  then show "bv_inv (bv_clear b)" using assms by (simp add: bv_inv_def bv_clear_def)
  show "bv_list (bv_clear b) = replicate (bits b) False"
  proof (rule nth_equalityI)
    fix i assume "i < length (bv_list (bv_clear b))"
    then have "i < bits b" by (simp add: bv_clear_def)
    moreover from this have "i < 64 * length (bv_words b)" unfolding l by linarith
    ultimately show "bv_list (bv_clear b) ! i = replicate (bits b) False ! i"
      using z by (simp add: bv_clear_def)
  qed (simp add: bv_clear_def)
qed

section \<open>Selection\<close>

definition count_upto :: "bool \<Rightarrow> bool list \<Rightarrow> nat \<Rightarrow> nat" where
  "count_upto v xs i = length (filter ((=) v) (take i xs))"

lemma count_upto_rank: "count_upto True xs i = rank_spec xs i"
  by (simp add: count_upto_def rank_spec_def) (metis (mono_tags, lifting) filter_cong id_apply)

lemma count_upto_Suc: "i < length xs \<Longrightarrow> count_upto v xs (Suc i) = count_upto v xs i + (if xs ! i = v then 1 else 0)"
  by (simp add: count_upto_def take_Suc_conv_app_nth)

lemma count_upto_mono: "i \<le> j \<Longrightarrow> count_upto v xs i \<le> count_upto v xs j"
proof -
  assume "i \<le> j"
  then have "take j xs = take i xs @ take (j - i) (drop i xs)" by (metis le_add_diff_inverse take_add)
  then show ?thesis by (simp add: count_upto_def)
qed

lemma count_upto_le: "count_upto v xs i \<le> i"
  unfolding count_upto_def by (rule le_trans [OF length_filter_le]) simp

lemma select_loop_correct:
  assumes "bits b < 2 ^ 64"
  shows "i \<le> bits b \<Longrightarrow> count_upto v (bv_list b) i < unat k \<Longrightarrow>
    (let r = bv_select_loop b v k i (word_of_nat (count_upto v (bv_list b) i))
     in (r < bits b \<and> bv_list b ! r = v \<and> count_upto v (bv_list b) r + 1 = unat k)
        \<or> r = bits b \<and> count_upto v (bv_list b) (bits b) < unat k)"
proof (induction "bits b - i" arbitrary: i rule: less_induct)
  case less
  define c where "c = count_upto v (bv_list b) i"
  have c: "c < 2 ^ 64 - 1" if "i < bits b" using count_upto_le [of v "bv_list b" i] assms that by (simp add: c_def)
  show ?case
  proof (cases "i < bits b")
    case True
    note step = bv_select_loop.simps [of b v k i "word_of_nat c"]
    have get: "bv_get b i = bv_list b ! i" using True by (simp add: bv_get_word_bit)
    have eqk: "word_of_nat c + 1 = k \<longleftrightarrow> c + 1 = unat k"
    proof -
      have "unat (word_of_nat (c + 1) :: u64) = c + 1" using c [OF True] by (intro unat_word_of_nat) simp
      then show ?thesis by (metis of_nat_1 of_nat_add word_unat_eq_iff)
    qed
    have sc: "count_upto v (bv_list b) (Suc i) = c + (if bv_list b ! i = v then 1 else 0)"
      using True count_upto_Suc [of i "bv_list b" v] by (simp add: c_def)
    show ?thesis
    proof (cases "bv_list b ! i = v \<and> c + 1 = unat k")
      case True
      then show ?thesis using \<open>i < bits b\<close> get eqk step by (simp add: c_def [symmetric] Let_def)
    next
      case False
      then have "bv_select_loop b v k i (word_of_nat c)
          = bv_select_loop b v k (Suc i) (word_of_nat (count_upto v (bv_list b) (Suc i)))"
        using True get eqk step by (auto simp: sc add.commute)
      moreover have "count_upto v (bv_list b) (Suc i) < unat k"
        using less.prems(2) sc False by (auto simp: c_def)
      ultimately show ?thesis using less.hyps [of "Suc i"] True unfolding c_def [symmetric] by simp
    qed
  next
    case False
    then have "i = bits b" using less.prems(1) by simp
    then show ?thesis using less.prems(2) by (simp add: bv_select_loop.simps [of b v k "bits b"] Let_def)
  qed
qed

lemma select_correct:
  assumes "bv_inv b" "sel = (if v then bv_select1 else bv_select0)"
  shows "(sel b k < bits b \<and> bv_list b ! sel b k = v \<and> count_upto v (bv_list b) (sel b k) + 1 = unat k)
    \<or> sel b k = bits b \<and> (k = 0 \<or> count_upto v (bv_list b) (bits b) < unat k)"
proof (cases "k = 0")
  case False
  have "bits b < 2 ^ 64" using assms(1) by (simp add: bv_inv_def)
  moreover have "count_upto v (bv_list b) 0 = 0" by (simp add: count_upto_def)
  moreover have "0 < unat k" using False by (simp add: unat_gt_0)
  moreover have "sel b k = bv_select_loop b v k 0 0"
    using False by (simp add: assms(2) bv_select1_def bv_select0_def)
  ultimately show ?thesis using select_loop_correct [of b 0 v k] by (auto simp: Let_def)
qed (simp add: assms(2) bv_select1_def bv_select0_def)

text \<open>The position is determined by the bit and the count before it.\<close>
lemma count_upto_unique:
  assumes "i < length xs" "xs ! i = v" "j < length xs" "xs ! j = v" "count_upto v xs i = count_upto v xs j"
  shows "i = j"
proof (rule ccontr)
  have less: False if "a < b" "b < length xs" "xs ! a = v" "count_upto v xs a = count_upto v xs b" for a b
    using that count_upto_Suc [of a xs v] count_upto_mono [of "Suc a" b v xs] by simp
  assume "i \<noteq> j"
  then show False using assms less [of i j] less [of j i] by (cases "i < j") auto
qed

section \<open>Louds\<close>

record louds =
  louds_bv :: bit_vector
  node_count :: nat

definition louds_empty :: louds where
  "louds_empty = \<lparr>louds_bv = bv_empty, node_count = 0\<rparr>"

text \<open>The loops of \<^verbatim>\<open>build_from_bfs_degrees\<close>; degrees are 32-bit words, and so is \<^verbatim>\<open>d + 1\<close>.\<close>
primrec louds_ones :: "nat \<Rightarrow> nat \<times> bit_vector \<Rightarrow> nat \<times> bit_vector" where
  "louds_ones 0 st = st"
| "louds_ones (Suc n) st = louds_ones n (fst st + 1, snd (bv_set (fst st) True (snd st)))"

primrec louds_nodes :: "u32 list \<Rightarrow> nat \<times> bit_vector \<Rightarrow> nat \<times> bit_vector" where
  "louds_nodes [] st = st"
| "louds_nodes (d # ds) st = (case louds_ones (unat d) st of
     (pos, b) \<Rightarrow> louds_nodes ds (pos + 1, snd (bv_set pos False b)))"

definition louds_build :: "u32 list \<Rightarrow> louds \<Rightarrow> louds" where
  "louds_build degrees l =
     (let total = (\<Sum>d\<leftarrow>degrees. unat (d + 1)) mod 2 ^ 64;
          b = snd (louds_nodes degrees (0, bv_resize total (louds_bv l)))
      in \<lparr>louds_bv = bv_build_rank_index b, node_count = length degrees\<rparr>)"

definition nth_zero_position :: "louds \<Rightarrow> nat \<Rightarrow> nat" where
  "nth_zero_position l v = bv_select0 (louds_bv l) (word_of_nat (v + 1))"

definition louds_degree :: "louds \<Rightarrow> nat \<Rightarrow> u32" where
  "louds_degree l v =
     (if node_count l \<le> v then 0
      else (let zero_pos = nth_zero_position l v;
                prev_zero_pos = (if v = 0 then 0 else nth_zero_position l (v - 1) + 1)
            in word_of_nat zero_pos - word_of_nat prev_zero_pos))"

definition louds_first_child :: "louds \<Rightarrow> nat \<Rightarrow> nat option" where
  "louds_first_child l v =
     (if node_count l \<le> v then Some 0
      else if louds_degree l v = 0 then Some 0
      else map_option unat (bv_rank1 (louds_bv l) (nth_zero_position l v + 1)))"

definition louds_parent :: "louds \<Rightarrow> nat \<Rightarrow> nat option" where
  "louds_parent l v =
     (if v = 0 then Some 0
      else (let my_bit = bv_select1 (louds_bv l) (word_of_nat v)
            in if bits (louds_bv l) \<le> my_bit then Some 0
               else map_option unat (bv_rank0 (louds_bv l) my_bit)))"

text \<open>The encoding, and the nodes before a node in breadth-first order.\<close>
definition louds_bits :: "nat list \<Rightarrow> bool list" where
  "louds_bits ds = concat (map (\<lambda>d. replicate d True @ [False]) ds)"

lemma louds_bits_simps [simp]:
  "louds_bits [] = []" "louds_bits (d # ds) = replicate d True @ False # louds_bits ds"
  "louds_bits (xs @ ys) = louds_bits xs @ louds_bits ys"
  by (simp_all add: louds_bits_def)

lemma length_louds_bits: "length (louds_bits ds) = sum_list ds + length ds"
  by (induction ds) auto

lemma louds_bits_ones: "length (filter ((=) True) (louds_bits ds)) = sum_list ds"
  by (induction ds) auto

lemma louds_bits_zeros: "length (filter ((=) False) (louds_bits ds)) = length ds"
  by (induction ds) auto

lemma louds_ones_spec:
  assumes "bv_inv b" "bv_list b = xs @ replicate (n + m) False"
  shows "\<exists>b'. louds_ones n (length xs, b) = (length xs + n, b') \<and> bv_inv b' \<and> bits b' = bits b
     \<and> bv_list b' = xs @ replicate n True @ replicate m False"
  using assms
proof (induction n arbitrary: xs b)
  case (Suc n)
  have "bv_list (snd (bv_set (length xs) True b)) = (xs @ [True]) @ replicate (n + m) False"
    using bv_set_correct(2) [OF Suc.prems(1), of "length xs" True] Suc.prems(2) by simp
  then show ?case
    using Suc.IH [OF bv_set_correct(1) [OF Suc.prems(1)], of "length xs" True "xs @ [True]"]
      bv_set_correct(3) [OF Suc.prems(1), of "length xs" True]
    by simp
qed simp

lemma louds_nodes_spec:
  assumes "bv_inv b" "bv_list b = xs @ replicate (\<Sum>d\<leftarrow>ds. unat d + 1) False"
  shows "bv_inv (snd (louds_nodes ds (length xs, b)))
    \<and> bv_list (snd (louds_nodes ds (length xs, b))) = xs @ louds_bits (map unat ds)"
  using assms
proof (induction ds arbitrary: xs b)
  case (Cons d ds)
  define m where "m = (\<Sum>d\<leftarrow>ds. unat d + 1)"
  have "bv_list b = xs @ replicate (unat d + Suc m) False" using Cons.prems(2) by (simp add: m_def add.assoc)
  from louds_ones_spec [OF Cons.prems(1) this]
  obtain b1 where b1: "louds_ones (unat d) (length xs, b) = (length xs + unat d, b1)" "bv_inv b1"
    "bv_list b1 = xs @ replicate (unat d) True @ replicate (Suc m) False" by blast
  define ys where "ys = xs @ replicate (unat d) True"
  have "bv_list b1 = ys @ False # replicate m False" using b1(3) by (simp add: ys_def)
  then have "bv_list (snd (bv_set (length ys) False b1)) = (ys @ [False]) @ replicate m False"
    using bv_set_correct(2) [OF b1(2), of "length ys" False] by simp
  moreover have "length (ys @ [False]) = length xs + unat d + 1" by (simp add: ys_def)
  ultimately show ?case
    using Cons.IH [OF bv_set_correct(1) [OF b1(2)], of "length ys" False "ys @ [False]"] b1(1)
    by (simp add: m_def ys_def)
qed simp

text \<open>What a built structure is: an indexed bit vector holding the encoding.\<close>
definition louds_for :: "nat list \<Rightarrow> louds \<Rightarrow> bool" where
  "louds_for ds l \<longleftrightarrow> bv_inv (louds_bv l) \<and> \<not> rank_dirty (louds_bv l)
     \<and> bv_list (louds_bv l) = louds_bits ds \<and> node_count l = length ds"

lemma louds_build_ok:
  assumes "sum_list (map unat ds) + length ds + 63 < 2 ^ 64" "\<forall>d \<in> set ds. d \<noteq> -1"
  shows "louds_for (map unat ds) (louds_build ds l)"
proof -
  have "unat (d + 1) = unat d + 1" if "d \<in> set ds" for d
    using assms(2) that by (metis add.commute plus_1_eq_Suc unatSuc add_eq_0_iff)
  then have "map (\<lambda>d. unat (d + 1)) ds = map (\<lambda>d. unat d + 1) ds" by simp
  then have t: "(\<Sum>d\<leftarrow>ds. unat (d + 1)) = (\<Sum>d\<leftarrow>ds. unat d + 1)" by (simp only:)
  have s: "(\<Sum>d\<leftarrow>ds. unat d + 1) = sum_list (map unat ds) + length ds" by (induction ds) auto
  define b0 where "b0 = bv_resize (\<Sum>d\<leftarrow>ds. unat d + 1) (louds_bv l)"
  have "(\<Sum>d\<leftarrow>ds. unat d + 1) + 63 < 2 ^ 64" using assms(1) unfolding s .
  note r = bv_resize_ok [OF this, of "louds_bv l", folded b0_def]
  have "bv_inv b0" "bv_list b0 = [] @ replicate (\<Sum>d\<leftarrow>ds. unat d + 1) False"
    using r(1,2) by simp_all
  from louds_nodes_spec [OF this]
  have n: "bv_inv (snd (louds_nodes ds (0, b0)))" "bv_list (snd (louds_nodes ds (0, b0))) = louds_bits (map unat ds)" by simp_all
  have "(\<Sum>d\<leftarrow>ds. unat d + 1) < 2 ^ 64" using assms(1) unfolding s by linarith
  then have "(\<Sum>d\<leftarrow>ds. unat (d + 1)) mod 2 ^ 64 = (\<Sum>d\<leftarrow>ds. unat d + 1)" unfolding t by (rule mod_less)
  then have "louds_build ds l = \<lparr>louds_bv = bv_build_rank_index (snd (louds_nodes ds (0, b0))), node_count = length ds\<rparr>"
    by (simp add: louds_build_def Let_def b0_def)
  then show ?thesis using bv_inv_build [OF n(1)] n(2) by (simp add: louds_for_def)
qed

section \<open>Navigation\<close>

lemma louds_split:
  "v < length ds \<Longrightarrow> louds_bits ds
     = (louds_bits (take v ds) @ replicate (ds ! v) True) @ False # louds_bits (drop (Suc v) ds)"
  by (metis append_Cons append_assoc id_take_nth_drop louds_bits_simps(2,3))

lemma length_louds_take: "v \<le> length ds \<Longrightarrow> length (louds_bits (take v ds)) = sum_list (take v ds) + v"
  by (simp add: length_louds_bits)

lemma sum_take_Suc: "v < length ds \<Longrightarrow> sum_list (take (Suc v) ds) = sum_list (take v ds) + (ds ! v :: nat)"
  by (simp add: take_Suc_conv_app_nth)

text \<open>The separator of a node and the bits of its children.\<close>
lemma louds_zero_bit:
  assumes "v < length ds" "p = sum_list (take (Suc v) ds) + v"
  shows "p < length (louds_bits ds)" "\<not> louds_bits ds ! p"
    "count_upto False (louds_bits ds) p = v" "count_upto True (louds_bits ds) p = sum_list (take (Suc v) ds)"
proof -
  define xs where "xs = louds_bits (take v ds) @ replicate (ds ! v) True"
  have x: "louds_bits ds = xs @ False # louds_bits (drop (Suc v) ds)" "length xs = p"
    using louds_split [OF assms(1)] assms by (simp_all add: xs_def length_louds_take sum_take_Suc)
  show "p < length (louds_bits ds)" "\<not> louds_bits ds ! p" using x by (simp_all add: nth_append)
  have f: "length (filter ((=) False) (louds_bits (take v ds))) = v" using assms(1) by (simp only: louds_bits_zeros) simp
  show "count_upto False (louds_bits ds) p = v" using x f by (simp add: count_upto_def) (simp add: xs_def)
  have t: "length (filter ((=) True) (louds_bits (take v ds))) = sum_list (take v ds)" by (simp only: louds_bits_ones)
  show "count_upto True (louds_bits ds) p = sum_list (take (Suc v) ds)"
    using x t assms(1) by (simp add: count_upto_def sum_take_Suc) (simp add: xs_def)
qed

lemma louds_one_bit:
  assumes "v < length ds" "j < ds ! v" "p = sum_list (take v ds) + v + j"
  shows "p < length (louds_bits ds)" "louds_bits ds ! p"
    "count_upto True (louds_bits ds) p = sum_list (take v ds) + j"
    "count_upto False (louds_bits ds) p = v"
proof -
  define xs where "xs = louds_bits (take v ds) @ replicate j True"
  have "replicate (ds ! v) True = replicate j True @ True # replicate (ds ! v - Suc j) True"
    using assms(2) by (metis Suc_diff_Suc le_add_diff_inverse less_imp_le replicate_Suc replicate_add)
  then have x: "louds_bits ds = xs @ True # replicate (ds ! v - Suc j) True @ False # louds_bits (drop (Suc v) ds)"
      "length xs = p"
    using louds_split [OF assms(1)] assms by (simp_all add: xs_def length_louds_take)
  show "p < length (louds_bits ds)" "louds_bits ds ! p" using x by (simp_all add: nth_append)
  have f: "length (filter ((=) False) (louds_bits (take v ds))) = v" using assms(1) by (simp only: louds_bits_zeros) simp
  have t: "length (filter ((=) True) (louds_bits (take v ds))) = sum_list (take v ds)" by (simp only: louds_bits_ones)
  show "count_upto True (louds_bits ds) p = sum_list (take v ds) + j"
    using x t by (simp add: count_upto_def) (simp add: xs_def)
  show "count_upto False (louds_bits ds) p = v" using x f by (simp add: count_upto_def) (simp add: xs_def)
qed

lemma louds_for_bits:
  assumes "louds_for ds l"
  shows "bits (louds_bv l) = length (louds_bits ds)" "length (louds_bits ds) < 2 ^ 64"
  using assms unfolding louds_for_def bv_inv_def by (metis length_bv_list)+

lemma louds_select:
  assumes "louds_for ds l" "p < length (louds_bits ds)" "louds_bits ds ! p = v"
  shows "(if v then bv_select1 else bv_select0) (louds_bv l) (word_of_nat (count_upto v (louds_bits ds) p + 1)) = p"
proof -
  define k where "k = count_upto v (louds_bits ds) p + 1"
  note bl = louds_for_bits [OF assms(1)]
  have list: "bv_list (louds_bv l) = louds_bits ds" and inv: "bv_inv (louds_bv l)"
    using assms(1) by (simp_all add: louds_for_def)
  have k64: "k < 2 ^ 64" using count_upto_le [of v "louds_bits ds" p] assms(2) bl(2) by (simp add: k_def)
  then have uk: "unat (word_of_nat k :: u64) = k" by (intro unat_word_of_nat) simp
  have "k \<le> count_upto v (louds_bits ds) (bits (louds_bv l))"
    using count_upto_Suc [OF assms(2), of v] count_upto_mono [of "Suc p" "bits (louds_bv l)" v "louds_bits ds"] assms(2,3)
    by (simp add: k_def bl(1))
  moreover have "(word_of_nat k :: u64) \<noteq> 0" using uk by (auto simp: k_def)
  ultimately show ?thesis
    using select_correct [OF inv refl, of v "word_of_nat k"] assms(2,3) bl(1) uk list
    unfolding k_def [symmetric]
    by (auto intro!: count_upto_unique [of _ "louds_bits ds" v p] simp: k_def)
qed

lemma louds_nth_zero:
  assumes "louds_for ds l" "v < length ds"
  shows "nth_zero_position l v = sum_list (take (Suc v) ds) + v"
  using louds_select [OF assms(1) louds_zero_bit(1) [OF assms(2) refl], of False]
    louds_zero_bit [OF assms(2) refl]
  by (simp add: nth_zero_position_def)

lemma louds_degree_eq:
  assumes "louds_for ds l" "v < length ds"
  shows "louds_degree l v = word_of_nat (ds ! v)"
proof (cases v)
  case 0
  then show ?thesis using assms louds_nth_zero [OF assms]
    by (auto simp: louds_degree_def louds_for_def take_Suc_conv_app_nth)
next
  case (Suc u)
  have "nth_zero_position l v = nth_zero_position l u + 1 + ds ! v"
    using louds_nth_zero [OF assms] louds_nth_zero [OF assms(1), of u] assms(2)
    by (simp add: Suc sum_take_Suc)
  then show ?thesis using Suc assms by (simp add: louds_degree_def louds_for_def)
qed

lemma louds_rank1:
  assumes "louds_for ds l" "i \<le> length (louds_bits ds)"
  shows "bv_rank1 (louds_bv l) i = Some (word_of_nat (count_upto True (louds_bits ds) i))"
  using rank1_correct [of "louds_bv l" i] assms louds_for_bits [OF assms(1)]
  by (simp add: louds_for_def count_upto_rank)

lemma louds_first_child_eq:
  assumes "louds_for ds l" "v < length ds" "0 < ds ! v" "ds ! v < 2 ^ 32"
  shows "louds_first_child l v = Some (sum_list (take v ds) + ds ! v)"
proof -
  define p where "p = sum_list (take (Suc v) ds) + v"
  note z = louds_zero_bit [OF assms(2) p_def]
  have "count_upto True (louds_bits ds) (Suc p) = sum_list (take (Suc v) ds)"
    using z count_upto_Suc [OF z(1), of True] by simp
  then have "bv_rank1 (louds_bv l) (p + 1) = Some (word_of_nat (sum_list (take (Suc v) ds)))"
    using louds_rank1 [OF assms(1), of "Suc p"] z(1) by simp
  moreover have "unat (word_of_nat (sum_list (take (Suc v) ds)) :: u64) = sum_list (take (Suc v) ds)"
    using z(1) louds_for_bits(2) [OF assms(1)] by (intro unat_word_of_nat) (simp add: p_def)
  moreover have "unat (word_of_nat (ds ! v) :: u32) = ds ! v" using assms(4) by (intro unat_word_of_nat) simp
  then have "louds_degree l v \<noteq> 0" using louds_degree_eq [OF assms(1,2)] assms(3) by auto
  moreover have "node_count l = length ds" using assms(1) by (simp add: louds_for_def)
  ultimately show ?thesis using louds_nth_zero [OF assms(1,2)] assms(2)
    by (simp add: louds_first_child_def p_def sum_take_Suc)
qed

lemma louds_parent_eq:
  assumes "louds_for ds l" "v < length ds" "sum_list (take v ds) < c" "c \<le> sum_list (take v ds) + ds ! v"
  shows "louds_parent l c = Some v"
proof -
  define j where "j = c - sum_list (take v ds) - 1"
  have j: "j < ds ! v" "c = sum_list (take v ds) + j + 1" using assms(3,4) by (simp_all add: j_def)
  define p where "p = sum_list (take v ds) + v + j"
  note o = louds_one_bit [OF assms(2) j(1) p_def]
  note bl = louds_for_bits [OF assms(1)]
  have sel: "bv_select1 (louds_bv l) (word_of_nat c) = p"
    using louds_select [OF assms(1) o(1), of True] o(2,3) j(2) by simp
  have "unat (word_of_nat p - word_of_nat (sum_list (take v ds) + j) :: u64) = p - (sum_list (take v ds) + j)"
    using o(1) bl(2) by (intro word_of_nat_inj_diff) (simp_all add: p_def)
  moreover have "bv_rank0 (louds_bv l) p = Some (word_of_nat p - word_of_nat (sum_list (take v ds) + j))"
    using louds_rank1 [OF assms(1), of p] o(1,3) bl(1) by (simp add: bv_rank0_def)
  ultimately show ?thesis using sel o(1) bl(1) j(2) by (simp add: louds_parent_def p_def)
qed

text \<open>Every number from 1 to the number of children has one parent.\<close>
lemma louds_owner:
  "0 < (c :: nat) \<Longrightarrow> c \<le> sum_list ds \<Longrightarrow> \<exists>u < length ds. sum_list (take u ds) < c \<and> c \<le> sum_list (take u ds) + ds ! u"
proof (induction ds arbitrary: c)
  case (Cons d ds)
  show ?case
  proof (cases "c \<le> d")
    case True
    then show ?thesis using Cons.prems(1) by (intro exI [of _ 0]) simp
  next
    case False
    then have "0 < c - d" "c - d \<le> sum_list ds" using Cons.prems by simp_all
    from Cons.IH [OF this] obtain u
      where "u < length ds" "sum_list (take u ds) < c - d" "c - d \<le> sum_list (take u ds) + ds ! u" by blast
    then show ?thesis using False by (intro exI [of _ "Suc u"]) auto
  qed
qed simp

lemma louds_parent_iff:
  assumes "louds_for ds l" "v < length ds" "0 < c" "c \<le> sum_list ds"
  shows "louds_parent l c = Some v \<longleftrightarrow> sum_list (take v ds) < c \<and> c \<le> sum_list (take v ds) + ds ! v"
proof -
  obtain u where u: "u < length ds" "sum_list (take u ds) < c" "c \<le> sum_list (take u ds) + ds ! u"
    using louds_owner [OF assms(3,4)] by blast
  then have "louds_parent l c = Some u" by (rule louds_parent_eq [OF assms(1)])
  then show ?thesis using u louds_parent_eq [OF assms(1,2), of c] by auto
qed

section \<open>Properties\<close>

text \<open>C28: With its block index built, \<^verbatim>\<open>BitVector::rank1\<close> returns for every position the number of set
  bits before it (positions beyond the end count all bits), and \<^verbatim>\<open>rank0\<close> the number of clear bits.\<close>
theorem rank_counts_bits:
  assumes "bv_inv b"
  shows "bv_rank1 (bv_build_rank_index b) i = Some (word_of_nat (card {j. j < i \<and> bv_get b j}))
    \<and> bv_rank0 (bv_build_rank_index b) i = Some (word_of_nat (card {j. j < i \<and> j < bits b \<and> \<not> bv_get b j}))"
proof -
  define n where "n = min i (bits b)"
  have card_get: "card {j. j < n \<and> P j} = length (filter P [0..<n])" for P :: "nat \<Rightarrow> bool"
    using distinct_card [of "filter P [0..<n]"] by (simp add: conj_commute)
  have r: "rank_spec (bv_list b) n = length (filter (bv_get b) [0..<n])"
    by (simp add: rank_spec_def bv_list_def n_def take_map take_upt filter_map comp_def)
  have ones: "{j. j < i \<and> bv_get b j} = {j. j < n \<and> bv_get b j}"
    and zeros: "{j. j < i \<and> j < bits b \<and> \<not> bv_get b j} = {j. j < n \<and> \<not> bv_get b j}"
    by (auto simp: n_def bv_get_word_bit)
  have "length (filter (\<lambda>j. \<not> bv_get b j) [0..<n]) = n - length (filter (bv_get b) [0..<n])"
    using sum_length_filter_compl [of "bv_get b" "[0..<n]"] by simp
  then show ?thesis
    using rank1_correct [OF bv_inv_build [OF assms], of i] rank0_correct [OF bv_inv_build [OF assms], of i] r
    unfolding ones zeros card_get by (simp add: n_def [symmetric])
qed

theorem rank_counts_bits_witness:
  "bv_rank1 (bv_build_rank_index (snd (bv_set 70 True (bv_init 100)))) 80
    = Some (word_of_nat (card {j. j < 80 \<and> bv_get (snd (bv_set 70 True (bv_init 100))) j}))"
proof -
  have "bv_inv (snd (bv_set 70 True (bv_init 100)))"
    unfolding bv_init_def by (intro bv_set_correct bv_resize_ok) simp
  from rank_counts_bits [OF this, of 80] show ?thesis by blast
qed

text \<open>C27: \<^verbatim>\<open>select1\<close> inverts \<^verbatim>\<open>rank1\<close>: for every \<open>k\<close> from 1 to the number of set bits the selected
  position holds a set bit with exactly \<open>k - 1\<close> set bits before it, and past the number of set bits
  the result is the length of the vector.\<close>
theorem select_inverts_rank:
  assumes "bv_inv b" "k \<noteq> 0"
  shows "let c = bv_build_rank_index b; p = bv_select1 c k
     in if k \<le> bv_total_ones c
        then bv_get c p \<and> bv_rank1 c p = Some (k - 1) \<and> bv_rank1 c (p + 1) = Some k
        else p = bits b"
proof -
  define c where "c = bv_build_rank_index b"
  define p where "p = bv_select1 c k"
  have c: "bv_inv c" "\<not> rank_dirty c" "bits c = bits b" using assms(1) by (simp_all add: c_def bv_inv_build)
  have b64: "bits c < 2 ^ 64" using c(1) by (simp add: bv_inv_def)
  define t where "t = count_upto True (bv_list c) (bits c)"
  have t: "t < 2 ^ 64" using count_upto_le [of True "bv_list c" "bits c"] b64 by (simp add: t_def)
  have tot: "bv_total_ones c = word_of_nat t" using total_ones_correct [OF c(1,2)] by (simp add: count_upto_rank t_def)
  have le: "k \<le> bv_total_ones c \<longleftrightarrow> unat k \<le> t" using t by (simp add: tot word_le_nat_alt unat_word_of_nat)
  have sel: "p < bits c \<and> bv_list c ! p \<and> count_upto True (bv_list c) p + 1 = unat k \<or> p = bits c \<and> t < unat k"
    using select_correct [OF c(1) refl, of True k] assms(2) by (simp add: p_def t_def)
  show ?thesis
  proof (cases "k \<le> bv_total_ones c")
    case True
    then have s: "p < bits c" "bv_list c ! p" "count_upto True (bv_list c) p + 1 = unat k" using sel le by auto
    have k: "word_of_nat (count_upto True (bv_list c) p) = k - 1" "word_of_nat (count_upto True (bv_list c) (p + 1)) = k"
    proof -
      have w: "word_of_nat (count_upto True (bv_list c) p + 1) = k" unfolding s(3) by simp
      then show "word_of_nat (count_upto True (bv_list c) p) = k - 1"
        by (metis add_diff_cancel_right' of_nat_1 of_nat_add)
      have "count_upto True (bv_list c) (p + 1) = count_upto True (bv_list c) p + 1"
        using s(1,2) count_upto_Suc [of p "bv_list c" True] by simp
      then show "word_of_nat (count_upto True (bv_list c) (p + 1)) = k" unfolding s(3) by simp
    qed
    have "bv_rank1 c p = Some (k - 1)" "bv_rank1 c (p + 1) = Some k"
      using rank1_correct [OF c(1,2), of p] rank1_correct [OF c(1,2), of "p + 1"] s(1) k
      by (simp_all add: count_upto_rank)
    then show ?thesis using True s(1,2) by (simp add: Let_def p_def [symmetric] c_def [symmetric] bv_get_word_bit)
  next
    case False
    have "unat k \<le> t" if "p < bits c" "bv_list c ! p" "count_upto True (bv_list c) p + 1 = unat k"
      using that count_upto_Suc [of p "bv_list c" True] count_upto_mono [of "Suc p" "bits c" True "bv_list c"]
      by (simp add: t_def)
    then have "p = bits c" using sel le False by blast
    then show ?thesis using False c(3) by (auto simp: Let_def p_def [symmetric] c_def [symmetric])
  qed
qed

theorem select_inverts_rank_witness:
  "let c = bv_build_rank_index (snd (bv_set 70 True (bv_init 100)))
   in bv_get c (bv_select1 c 1) \<and> bv_rank1 c (bv_select1 c 1) = Some 0 \<and> bv_select1 c 2 = 100"
proof -
  define b where "b = snd (bv_set 70 True (bv_init 100))"
  have r: "bv_inv (bv_resize 100 bv_empty)" "bits (bv_resize 100 bv_empty) = 100"
      "bv_list (bv_resize 100 bv_empty) = replicate 100 False"
    by (rule bv_resize_ok, simp)+
  have i: "bv_inv b" and n: "bits b = 100" and l: "bv_list b = (replicate 100 False)[70 := True]"
    using bv_set_correct [OF r(1), of 70 True] r by (simp_all add: b_def bv_init_def)
  have "rank_spec ((replicate 100 False)[70 := True]) 100 = 1" by code_simp
  then have "bv_total_ones (bv_build_rank_index b) = 1"
    using total_ones_correct [OF bv_inv_build [OF i]] l n by simp
  moreover have "\<not> (2 :: u64) \<le> 1" by (simp add: word_le_nat_alt)
  ultimately show ?thesis using select_inverts_rank [OF i, of 1] select_inverts_rank [OF i, of 2] n
    unfolding b_def [symmetric] by (simp add: Let_def)
qed

text \<open>C29: A \<^verbatim>\<open>Louds\<close> built from a breadth-first degree sequence (of at most \<open>2 ^ 64 - 64\<close> bits, so that the
  sizes do not wrap, and with no degree the maximal 32-bit value) answers \<^verbatim>\<open>degree\<close> with the degree given, for
  every node, and \<^verbatim>\<open>parent\<close> of the nodes numbered after the children of all earlier nodes, one per child,
  with the node they belong to.\<close>
theorem louds_navigation:
  assumes "sum_list (map unat ds) + length ds + 63 < 2 ^ 64" "\<forall>d \<in> set ds. d \<noteq> -1" "v < length ds"
  shows "louds_degree (louds_build ds l) v = ds ! v
    \<and> (\<forall>j < unat (ds ! v). louds_parent (louds_build ds l) (sum_list (map unat (take v ds)) + j + 1) = Some v)"
proof -
  note ok = louds_build_ok [OF assms(1,2), of l]
  have v: "v < length (map unat ds)" using assms(3) by simp
  have "louds_parent (louds_build ds l) (sum_list (map unat (take v ds)) + j + 1) = Some v" if "j < unat (ds ! v)" for j
    using louds_parent_eq [OF ok v, of "sum_list (map unat (take v ds)) + j + 1"] assms(3) that by (simp add: take_map)
  then show ?thesis using louds_degree_eq [OF ok v] assms(3) by simp
qed

theorem louds_navigation_witness:
  "louds_degree (louds_build [2, 2, 0, 0, 0] louds_empty) 1 = 2
    \<and> louds_degree (louds_build [2, 2, 0, 0, 0] louds_empty) 3 = 0
    \<and> louds_parent (louds_build [2, 2, 0, 0, 0] louds_empty) 4 = Some 1"
proof -
  let ?ds = "[2, 2, 0, 0, 0] :: u32 list"
  have h: "sum_list (map unat ?ds) + length ?ds + 63 < 2 ^ 64" "\<forall>d \<in> set ?ds. d \<noteq> -1" by simp_all
  have "1 < length ?ds" "1 < unat (?ds ! 1)" by simp_all
  with louds_navigation [OF h, of 1 louds_empty]
  have "louds_parent (louds_build ?ds louds_empty) (sum_list (map unat (take 1 ?ds)) + 1 + 1) = Some 1" by blast
  moreover have "sum_list (map unat (take 1 ?ds)) + 1 + 1 = 4" by simp
  ultimately have "louds_parent (louds_build ?ds louds_empty) 4 = Some 1" by (simp only:)
  then show ?thesis
    using louds_navigation [OF h, of 1 louds_empty] louds_navigation [OF h, of 3 louds_empty] by simp
qed

text \<open>C30: \<^verbatim>\<open>Louds::first_child\<close> returns the last child of an inner node: of the numbers of child nodes (1
  to the sum of the degrees), those whose \<^verbatim>\<open>parent\<close> is the node run from the number after the children of all
  earlier nodes, the first child, up to the number that \<^verbatim>\<open>first_child\<close> returns.  The two agree only for
  nodes of degree 1.  (Beyond these numbers \<^verbatim>\<open>parent\<close> is 0.)\<close>
theorem louds_first_child_is_last:
  assumes "sum_list (map unat ds) + length ds + 63 < 2 ^ 64" "\<forall>d \<in> set ds. d \<noteq> -1" "v < length ds" "ds ! v \<noteq> 0"
    "a = sum_list (map unat (take v ds)) + 1" "z = sum_list (map unat (take v ds)) + unat (ds ! v)"
  shows "louds_first_child (louds_build ds l) v = Some z
    \<and> (\<forall>c. 0 < c \<and> c \<le> sum_list (map unat ds) \<longrightarrow> (louds_parent (louds_build ds l) c = Some v \<longleftrightarrow> a \<le> c \<and> c \<le> z))
    \<and> a \<le> z \<and> (a = z \<longleftrightarrow> ds ! v = 1)"
proof -
  note ok = louds_build_ok [OF assms(1,2), of l]
  have v: "v < length (map unat ds)" using assms(3) by simp
  have small: "unat (ds ! v) < 2 ^ LENGTH(32)" by (rule unsigned_less)
  have pos: "0 < unat (ds ! v)" using assms(4) by (simp add: unat_gt_0)
  have first_child: "louds_first_child (louds_build ds l) v = Some z"
    using louds_first_child_eq [OF ok v] small pos assms(3,6) by (simp add: take_map)
  have "louds_parent (louds_build ds l) c = Some v \<longleftrightarrow> a \<le> c \<and> c \<le> z"
    if c: "0 < c \<and> c \<le> sum_list (map unat ds)" for c
    using louds_parent_iff [OF ok v, of c] c assms(3,5,6) by (simp add: take_map Suc_le_eq)
  moreover have "unat (ds ! v) = 1 \<longleftrightarrow> ds ! v = 1" using word_unat_eq_iff [of "ds ! v" 1] by simp
  ultimately show ?thesis using first_child pos assms(5,6) by auto
qed

theorem louds_first_child_is_last_witness:
  "louds_first_child (louds_build [2, 2, 0, 0, 0] louds_empty) 0 = Some 2
    \<and> louds_parent (louds_build [2, 2, 0, 0, 0] louds_empty) 1 = Some 0
    \<and> louds_parent (louds_build [2, 2, 0, 0, 0] louds_empty) 3 \<noteq> Some 0"
proof -
  let ?ds = "[2, 2, 0, 0, 0] :: u32 list"
  have h: "sum_list (map unat ?ds) + length ?ds + 63 < 2 ^ 64" "\<forall>d \<in> set ?ds. d \<noteq> -1" "0 < length ?ds" "?ds ! 0 \<noteq> 0"
    and az: "1 = sum_list (map unat (take 0 ?ds)) + 1" "2 = sum_list (map unat (take 0 ?ds)) + unat (?ds ! 0)"
    and n: "sum_list (map unat ?ds) = 4" by simp_all
  note F = louds_first_child_is_last [OF h az, of louds_empty, unfolded n]
  from F have "0 < c \<and> c \<le> 4 \<longrightarrow> (louds_parent (louds_build ?ds louds_empty) c = Some 0 \<longleftrightarrow> 1 \<le> c \<and> c \<le> 2)" for c
    by blast
  from this [of 1] this [of 3] F show ?thesis by simp
qed

end
