(* ===== verification/Filter_Contract.thy ===== *)
theory Filter_Contract imports CE_Prelude begin

text \<open>
  The contract of the filter axis (\<^verbatim>\<open>organ_axes/filter_axis\<close>): approximate membership of 64-bit keys.
  \<open>keys f\<close> are the keys a filter answers for.

  \<^item> \<open>membership_filter\<close>: no key the filter answers for is ever lost by an insertion, and each
    of them probes true.
  \<^item> \<open>total_filter\<close>: every insertion succeeds (the Bloom filter).
  \<^item> \<open>rejecting_filter\<close>: an insertion succeeds or leaves the filter as it was (cuckoo, xor).

  The static \<^verbatim>\<open>filter_probe_scan\<close> functions read a byte buffer; \<open>read_at\<close> is such a read, undefined
  outside the buffer, so that a scan that returns has only read inside it.
\<close>

locale membership_filter =
  fixes inv :: "'s \<Rightarrow> bool"
    and keys :: "'s \<Rightarrow> u64 set"
    and ins :: "u64 \<Rightarrow> 's \<Rightarrow> 's"
    and probe :: "'s \<Rightarrow> u64 \<Rightarrow> bool"
    and clr :: "'s \<Rightarrow> 's"
  assumes insert_inv: "inv f \<Longrightarrow> inv (ins k f)"
    and member_probe: "inv f \<Longrightarrow> k \<in> keys f \<Longrightarrow> probe f k"
    and insert_keeps: "inv f \<Longrightarrow> keys f \<subseteq> keys (ins k f)"
    and clear_inv: "inv f \<Longrightarrow> inv (clr f)"
    and clear_keys: "inv f \<Longrightarrow> keys (clr f) = {}"
begin

lemma inserts_inv: "inv f \<Longrightarrow> inv (fold ins ks f)"
  by (induction ks arbitrary: f) (simp_all add: insert_inv)

lemma inserts_keep: "inv f \<Longrightarrow> keys f \<subseteq> keys (fold ins ks f)"
proof (induction ks arbitrary: f)
  case (Cons k ks)
  then show ?case using insert_keeps [of f k] insert_inv [of f k] by fastforce
qed simp

lemma never_lost: "inv f \<Longrightarrow> k \<in> keys f \<Longrightarrow> probe (fold ins ks f) k"
  using member_probe inserts_inv inserts_keep by blast

end

locale total_filter = membership_filter inv keys ins probe clr
  for inv :: "'s \<Rightarrow> bool" and keys ins probe clr +
  assumes insert_adds: "inv f \<Longrightarrow> k \<in> keys (ins k f)"
begin

lemma no_false_negatives: "inv f \<Longrightarrow> k \<in> set ks \<Longrightarrow> probe (fold ins ks f) k"
proof (induction ks arbitrary: f)
  case (Cons k' ks)
  show ?case
  proof (cases "k = k'")
    case True
    then show ?thesis using never_lost [OF insert_inv [OF Cons.prems(1)] insert_adds [OF Cons.prems(1)]] by simp
  next
    case False
    then show ?thesis using Cons.IH [OF insert_inv [OF Cons.prems(1)]] Cons.prems by simp
  qed
qed simp

end

locale rejecting_filter = membership_filter inv keys ins probe clr
  for inv :: "'s \<Rightarrow> bool" and keys ins probe clr +
  assumes insert_or_reject: "inv f \<Longrightarrow> k \<in> keys (ins k f) \<or> ins k f = f"
begin

lemma accepted_or_unchanged: "inv f \<Longrightarrow> probe (fold ins ks (ins k f)) k \<or> ins k f = f"
  using insert_or_reject never_lost insert_inv by blast

end

section \<open>Buffer reads\<close>

definition read_at :: "u8 list \<Rightarrow> nat \<Rightarrow> u8 option" where
  "read_at buf i = (if i < length buf then Some (buf ! i) else None)"

text \<open>The loop over the queries: the hits of a scan are added up in 64 bits.\<close>
definition sum_hits :: "(u32 \<Rightarrow> u32 option) \<Rightarrow> u8 list \<Rightarrow> u64 option" where
  "sum_hits hit queries = fold (\<lambda>q acc. case acc of None \<Rightarrow> None
     | Some h \<Rightarrow> (case hit (ucast q) of None \<Rightarrow> None | Some n \<Rightarrow> Some (h + ucast n))) queries (Some 0)"

lemma sum_hits_Some: "(\<And>q. hit (ucast (q :: u8)) \<noteq> None) \<Longrightarrow> sum_hits hit queries \<noteq> None"
proof -
  assume h: "\<And>q. hit (ucast (q :: u8)) \<noteq> None"
  have "fold (\<lambda>q acc. case acc of None \<Rightarrow> None
     | Some h \<Rightarrow> (case hit (ucast q) of None \<Rightarrow> None | Some n \<Rightarrow> Some (h + ucast n))) queries (Some a) \<noteq> None" for a :: u64
  proof (induction queries arbitrary: a)
    case (Cons q queries)
    then show ?case using h [of q] by (cases "hit (ucast q)") auto
  qed simp
  then show ?thesis by (simp add: sum_hits_def)
qed

end
