(* ===== verification/Filter_Bloom.thy ===== *)
theory Filter_Bloom imports Filter_Contract begin

text \<open>
  \<^verbatim>\<open>BloomFilter\<close> (\<^verbatim>\<open>axis_filter_bloom.hpp\<close>) and the exact prefix filter
  (\<^verbatim>\<open>composable/exact_prefix_filter_store.hpp\<close>, \<^verbatim>\<open>exact_prefix_filter_organ.hpp\<close>).  The bit map is the
  list of its 8192 bytes.
\<close>

section \<open>BloomFilter\<close>

type_synonym bloom = "u8 list"

definition bl_bitmap_bytes :: nat where "bl_bitmap_bytes = 8192"
definition bl_hashes :: nat where "bl_hashes = 4"

definition bl_bit_pos :: "u64 \<Rightarrow> nat \<Rightarrow> nat" where
  "bl_bit_pos key i =
     (let h1 = key * 2654435761 + 0x9E3779B97F4A7C15;
          h2 = push_bit 7 key XOR drop_bit 3 key XOR 0x85EBCA6B12345678
      in unat ((h1 + word_of_nat i * h2) mod word_of_nat (bl_bitmap_bytes * 8)))"

definition bl_set_bit :: "nat \<Rightarrow> bloom \<Rightarrow> bloom" where
  "bl_set_bit bp f = f[drop_bit 3 bp := f ! drop_bit 3 bp OR push_bit (bp AND 7) 1]"

definition bl_insert :: "u64 \<Rightarrow> bloom \<Rightarrow> bloom" where
  "bl_insert key f = fold (\<lambda>i. bl_set_bit (bl_bit_pos key i)) [0..<bl_hashes] f"

definition bl_test_bit :: "bloom \<Rightarrow> nat \<Rightarrow> bool" where
  "bl_test_bit f bp \<longleftrightarrow> f ! drop_bit 3 bp AND push_bit (bp AND 7) 1 \<noteq> 0"

definition bl_probe :: "bloom \<Rightarrow> u64 \<Rightarrow> bool" where
  "bl_probe f key = list_all (\<lambda>i. bl_test_bit f (bl_bit_pos key i)) [0..<bl_hashes]"

definition bl_init :: bloom where
  "bl_init = replicate bl_bitmap_bytes 0"

definition bl_clear :: "bloom \<Rightarrow> bloom" where
  "bl_clear f = map (\<lambda>_. 0) f"

definition bl_eq :: "bloom \<Rightarrow> bloom \<Rightarrow> bool" where
  "bl_eq f g \<longleftrightarrow> f = g"

text \<open>The static scan: the buffer is the bit map, every byte of the second buffer a query.\<close>
definition bl_scan_hit :: "u8 list \<Rightarrow> u32 \<Rightarrow> u32 option" where
  "bl_scan_hit buf key =
     (let h1 = key * 2654435761 + 0x9E3779B9;
          h2 = push_bit 5 key XOR drop_bit 2 key XOR 0x85EBCA6B;
          all_set = fold (\<lambda>k acc. case acc of
              None \<Rightarrow> None
            | Some False \<Rightarrow> Some False
            | Some True \<Rightarrow>
                (let bitpos = unat ((ucast h1 + word_of_nat k * ucast h2 :: u64) mod word_of_nat (length buf * 8))
                 in case read_at buf (drop_bit 3 bitpos) of
                      None \<Rightarrow> None
                    | Some byte \<Rightarrow> Some ((ucast byte AND push_bit (bitpos AND 7) 1 :: u32) \<noteq> 0)))
            [0..<bl_hashes] (Some True)
      in case all_set of None \<Rightarrow> None | Some b \<Rightarrow> Some (if b then 1 + (key AND 7) else 0))"

definition bl_probe_scan :: "u8 list \<Rightarrow> u8 list \<Rightarrow> u64 option" where
  "bl_probe_scan buf queries = (if length buf = 0 then Some 0 else sum_hits (bl_scan_hit buf) queries)"

definition bl_inv :: "bloom \<Rightarrow> bool" where
  "bl_inv f \<longleftrightarrow> length f = bl_bitmap_bytes"

lemma byte_index: "drop_bit 3 n = n div 8" "n AND 7 = n mod (8 :: nat)"
  using take_bit_eq_mask [of 3 n] by (simp_all add: drop_bit_eq_div take_bit_eq_mod mask_eq_exp_minus_1)

lemma bl_test_bit_iff: "bl_test_bit f bp \<longleftrightarrow> bit (f ! (bp div 8)) (bp mod 8)"
  by (simp add: bl_test_bit_def byte_index push_bit_of_1 and_exp_eq_0_iff_not_bit)

lemma bl_set_bit_keeps: "bl_test_bit f bp \<Longrightarrow> bl_test_bit (bl_set_bit bp' f) bp"
  by (cases "bp' div 8 < length f")
    (auto simp: bl_test_bit_iff bl_set_bit_def byte_index nth_list_update bit_or_iff list_update_beyond)

lemma bl_set_bit_sets: "bp div 8 < length f \<Longrightarrow> bl_test_bit (bl_set_bit bp f) bp"
  by (simp add: bl_test_bit_iff bl_set_bit_def byte_index bit_or_iff push_bit_of_1 bit_exp_iff)

lemma bl_bit_pos_bound: "bl_bit_pos key i div 8 < bl_bitmap_bytes"
proof -
  have "unat (w mod 65536 :: u64) < 65536" for w :: u64
    by (simp add: unat_mod_distrib)
  then show ?thesis by (simp add: bl_bit_pos_def bl_bitmap_bytes_def Let_def less_mult_imp_div_less)
qed

lemma length_set_bits: "length (fold (\<lambda>i. bl_set_bit (pos i)) is f) = length f"
  by (induction "is" arbitrary: f) (simp_all add: bl_set_bit_def)

lemma set_bits_keep: "bl_test_bit f bp \<Longrightarrow> bl_test_bit (fold (\<lambda>i. bl_set_bit (pos i)) is f) bp"
  by (induction "is" arbitrary: f) (simp_all add: bl_set_bit_keeps)

lemma set_bits_set:
  "(\<And>i. pos i div 8 < length f) \<Longrightarrow> i \<in> set is \<Longrightarrow> bl_test_bit (fold (\<lambda>i. bl_set_bit (pos i)) is f) (pos i)"
proof (induction "is" arbitrary: f)
  case (Cons j "is")
  have "length (bl_set_bit (pos j) f) = length f" by (simp add: bl_set_bit_def)
  then show ?case using Cons bl_set_bit_sets [of "pos i" f] by (auto simp: set_bits_keep)
qed simp

lemma bl_probe_insert: "bl_inv f \<Longrightarrow> bl_probe (bl_insert key f) key"
  using set_bits_set [of "bl_bit_pos key" f] bl_bit_pos_bound
  by (auto simp: bl_probe_def bl_insert_def bl_inv_def list_all_iff)

lemma bl_probe_keeps: "bl_probe f k \<Longrightarrow> bl_probe (bl_insert key f) k"
  by (auto simp: bl_probe_def bl_insert_def list_all_iff set_bits_keep)

lemma bl_probe_zero:
  assumes "bl_inv f"
  shows "\<not> bl_probe (bl_clear f) k"
proof -
  have "\<not> bl_test_bit (bl_clear f) (bl_bit_pos k 0)"
    using bl_bit_pos_bound [of k 0] assms by (simp add: bl_clear_def bl_test_bit_iff bl_inv_def)
  then show ?thesis by (auto simp: bl_probe_def bl_hashes_def list_all_iff)
qed

interpretation bloom: total_filter bl_inv "\<lambda>f. {k. bl_probe f k}" bl_insert bl_probe bl_clear
proof unfold_locales
  fix f k assume i: "bl_inv f"
  show "bl_inv (bl_insert k f)" using i by (simp add: bl_inv_def bl_insert_def length_set_bits)
  show "bl_inv (bl_clear f)" using i by (simp add: bl_inv_def bl_clear_def)
  show "{k. bl_probe f k} \<subseteq> {k'. bl_probe (bl_insert k f) k'}" using bl_probe_keeps by blast
  show "{k. bl_probe (bl_clear f) k} = {}" using bl_probe_zero [OF i] by blast
  show "k \<in> {k'. bl_probe (bl_insert k f) k'}" using bl_probe_insert [OF i] by blast
qed simp

lemma bl_scan_hit_Some:
  assumes "buf \<noteq> []" "length buf * 8 < 2 ^ 64"
  shows "bl_scan_hit buf key \<noteq> None"
proof -
  define step where "step h1 h2 k acc = (case acc of
              None \<Rightarrow> None
            | Some False \<Rightarrow> Some False
            | Some True \<Rightarrow>
                (let bitpos = unat ((ucast (h1 :: u32) + word_of_nat k * ucast (h2 :: u32) :: u64) mod word_of_nat (length buf * 8))
                 in case read_at buf (drop_bit 3 bitpos) of
                      None \<Rightarrow> None
                    | Some byte \<Rightarrow> Some ((ucast byte AND push_bit (bitpos AND 7) 1 :: u32) \<noteq> 0)))" for h1 h2 k acc
  have pos: "unat (w mod word_of_nat (length buf * 8) :: u64) div 8 < length buf" for w :: u64
  proof -
    have "unat (w mod word_of_nat (length buf * 8) :: u64) = unat w mod (length buf * 8)"
      using assms(2) unat_word_of_nat [of "length buf * 8", where 'a = 64] by (simp add: unat_mod_distrib)
    moreover have "unat w mod (length buf * 8) < length buf * 8" using assms(1) by simp
    ultimately show ?thesis by (simp add: less_mult_imp_div_less)
  qed
  have "step h1 h2 k (Some b) \<noteq> None" for h1 h2 k b
    using pos by (auto simp: step_def read_at_def byte_index Let_def split: bool.splits)
  then have "fold (step h1 h2) ks (Some b) \<noteq> None" for h1 h2 ks b
  proof (induction ks arbitrary: b)
    case (Cons k ks)
    then show ?case using Cons.prems [of h1 h2 k b] by (cases "step h1 h2 k (Some b)") auto
  qed simp
  then have "fold (step (key * 2654435761 + 0x9E3779B9) (push_bit 5 key XOR drop_bit 2 key XOR 0x85EBCA6B))
      [0..<bl_hashes] (Some True) \<noteq> None" .
  then show ?thesis unfolding bl_scan_hit_def step_def [abs_def] Let_def by (auto split: option.splits)
qed

section \<open>Exact prefix filter\<close>

type_synonym exact_filter = "u64 list"

text \<open>\<^verbatim>\<open>std::unique\<close> removes repeated neighbours.\<close>
definition ex_build :: "u64 list \<Rightarrow> exact_filter" where
  "ex_build ks = remdups_adj (if sorted ks then ks else sort ks)"

definition ex_key_count :: "exact_filter \<Rightarrow> nat" where "ex_key_count f = length f"
definition ex_bit_size :: "exact_filter \<Rightarrow> nat" where "ex_bit_size f = length f * 64"

text \<open>\<^verbatim>\<open>std::lower_bound\<close> on a sorted vector: the number of leading elements below the key.\<close>
definition ex_lower_bound :: "exact_filter \<Rightarrow> u64 \<Rightarrow> nat" where
  "ex_lower_bound f k = length (takeWhile (\<lambda>x. x < k) f)"

definition ex_key_at :: "exact_filter \<Rightarrow> nat \<Rightarrow> u64" where "ex_key_at f i = f ! i"
definition ex_clear :: "exact_filter \<Rightarrow> exact_filter" where "ex_clear f = []"

definition ex_contains :: "exact_filter \<Rightarrow> u64 \<Rightarrow> bool" where
  "ex_contains f k = (let i = ex_lower_bound f k in i < ex_key_count f \<and> ex_key_at f i = k)"

definition ex_range_may_exist :: "exact_filter \<Rightarrow> u64 \<Rightarrow> u64 \<Rightarrow> bool" where
  "ex_range_may_exist f lo hi = (let i = ex_lower_bound f lo in i < ex_key_count f \<and> ex_key_at f i \<le> hi)"

lemma distinct_remdups_adj_sorted: "sorted (xs :: 'a::linorder list) \<Longrightarrow> distinct (remdups_adj xs)"
  by (induction xs rule: remdups_adj.induct) auto

lemma ex_build_spec: "sorted (ex_build ks)" "set (ex_build ks) = set ks" "distinct (ex_build ks)"
proof -
  show s: "sorted (ex_build ks)" by (simp add: ex_build_def sorted_remdups_adj)
  show "set (ex_build ks) = set ks" by (simp add: ex_build_def)
  show "distinct (ex_build ks)" by (simp add: ex_build_def distinct_remdups_adj_sorted)
qed

text \<open>The lower bound is the first element not below the key.\<close>
lemma ex_lower_bound_first:
  assumes "sorted f"
  shows "ex_lower_bound f k < length f \<and> P (f ! ex_lower_bound f k) \<longleftrightarrow>
    (\<exists>x \<in> set f. k \<le> x \<and> P x \<and> (\<forall>y \<in> set f. k \<le> y \<longrightarrow> x \<le> y))"
  using assms
proof (induction f)
  case (Cons a f)
  show ?case
  proof (cases "a < k")
    case True
    then show ?thesis using Cons by (auto simp: ex_lower_bound_def)
  next
    case False
    then show ?thesis using Cons.prems by (auto simp: ex_lower_bound_def intro: order_antisym)
  qed
qed (simp add: ex_lower_bound_def)

section \<open>Properties\<close>

text \<open>C21: The Bloom filter has no false negatives: whatever is inserted before and after, every inserted
  key probes true; and a cleared filter rejects every key.\<close>
theorem bloom_no_false_negatives:
  assumes "k \<in> set ks"
  shows "bl_probe (fold bl_insert ks bl_init) k
    \<and> \<not> bl_probe (bl_clear (fold bl_insert ks bl_init)) k'"
proof
  have i: "bl_inv bl_init" by (simp add: bl_inv_def bl_init_def)
  show "bl_probe (fold bl_insert ks bl_init) k" by (rule bloom.no_false_negatives [OF i assms])
  show "\<not> bl_probe (bl_clear (fold bl_insert ks bl_init)) k'"
    by (rule bl_probe_zero [OF bloom.inserts_inv [OF i]])
qed

theorem bloom_no_false_negatives_witness:
  "bl_probe (fold bl_insert [3, 99, 3, 7] bl_init) 99"
  using bloom_no_false_negatives [of 99 "[3, 99, 3, 7]"] by simp

text \<open>C22: The exact prefix filter built from any list of keys, sorted or not and with repetitions, holds
  each key once and answers point and range queries exactly: no false positives and no false
  negatives.\<close>
theorem exact_filter_exact:
  "ex_key_count (ex_build ks) = card (set ks)
   \<and> (ex_contains (ex_build ks) k \<longleftrightarrow> k \<in> set ks)
   \<and> (ex_range_may_exist (ex_build ks) lo hi \<longleftrightarrow> (\<exists>x. x \<in> set ks \<and> lo \<le> x \<and> x \<le> hi))"
proof -
  note b = ex_build_spec [of ks]
  have "ex_range_may_exist (ex_build ks) lo hi \<longleftrightarrow> (\<exists>x. x \<in> set ks \<and> lo \<le> x \<and> x \<le> hi)"
  proof
    assume "ex_range_may_exist (ex_build ks) lo hi"
    then show "\<exists>x. x \<in> set ks \<and> lo \<le> x \<and> x \<le> hi"
      using ex_lower_bound_first [OF b(1), of lo "\<lambda>x. x \<le> hi"] b(2)
      by (auto simp: ex_range_may_exist_def ex_key_count_def ex_key_at_def Let_def)
  next
    assume "\<exists>x. x \<in> set ks \<and> lo \<le> x \<and> x \<le> hi"
    then obtain x where x: "x \<in> set ks" "lo \<le> x" "x \<le> hi" by blast
    define m where "m = Min {y \<in> set ks. lo \<le> y}"
    have "m \<in> {y \<in> set ks. lo \<le> y}" unfolding m_def using x by (intro Min_in) auto
    moreover have "m \<le> y" if "y \<in> set ks" "lo \<le> y" for y unfolding m_def using that by (intro Min_le) auto
    moreover from this have "m \<le> hi" using x by (meson order_trans)
    ultimately have "\<exists>x\<in>set (ex_build ks). lo \<le> x \<and> x \<le> hi \<and> (\<forall>y\<in>set (ex_build ks). lo \<le> y \<longrightarrow> x \<le> y)"
      unfolding b(2) by blast
    then show "ex_range_may_exist (ex_build ks) lo hi"
      using ex_lower_bound_first [OF b(1), of lo "\<lambda>x. x \<le> hi"]
      by (simp add: ex_range_may_exist_def ex_key_count_def ex_key_at_def Let_def)
  qed
  moreover have "ex_contains (ex_build ks) k \<longleftrightarrow> k \<in> set ks"
    using ex_lower_bound_first [OF b(1), of k "\<lambda>x. x = k"] b(2)
    by (auto simp: ex_contains_def ex_key_count_def ex_key_at_def Let_def)
  moreover have "ex_key_count (ex_build ks) = card (set ks)"
    using b(2,3) by (metis distinct_card ex_key_count_def)
  ultimately show ?thesis by blast
qed

end
