(* ===== verification/Filter_Cuckoo.thy ===== *)
theory Filter_Cuckoo imports Filter_Contract begin

text \<open>
  \<^verbatim>\<open>CuckooFilter\<close> (\<^verbatim>\<open>axis_filter_cuckoo.hpp\<close>): 4096 buckets of four one-byte fingerprints, 0 for a
  free slot, partial-key cuckoo hashing with at most 500 evictions and a full rollback when they
  do not end.  The table is the list of its 16384 bytes.
\<close>

section \<open>Operations\<close>

type_synonym cuckoo = "u8 list"

definition cf_buckets :: nat where "cf_buckets = 4096"
definition cf_slots_per_bucket :: nat where "cf_slots_per_bucket = 4"
definition cf_max_kicks :: nat where "cf_max_kicks = 500"

definition cf_fingerprint :: "u64 \<Rightarrow> u8" where
  "cf_fingerprint key = ucast (drop_bit 24 (key * 0x1B873593) OR 1)"

definition cf_bucket1 :: "u64 \<Rightarrow> nat" where
  "cf_bucket1 key = unat ((key * 2654435761) AND (word_of_nat cf_buckets - 1))"

definition cf_bucket2 :: "nat \<Rightarrow> u8 \<Rightarrow> nat" where
  "cf_bucket2 i1 fp = unat ((word_of_nat i1 XOR (ucast fp * 0x5BD1E995 :: u64)) AND (word_of_nat cf_buckets - 1))"

definition cf_eviction_slot :: "nat \<Rightarrow> nat \<Rightarrow> u8 \<Rightarrow> nat" where
  "cf_eviction_slot bucket kick fp =
     (let h = (word_of_nat bucket * 0x9E3779B97F4A7C15) XOR (word_of_nat kick * 0xD1B54A32D192ED03)
                XOR (ucast fp * 0xFF51AFD7ED558CCD) :: u64
      in unat (drop_bit 61 h AND (word_of_nat cf_slots_per_bucket - 1)))"

text \<open>\<^verbatim>\<open>place_in_bucket_\<close>, over the slots of the bucket in order; \<open>None\<close> is false, the table unchanged.\<close>
primrec cf_place_slots :: "nat list \<Rightarrow> nat \<Rightarrow> u8 \<Rightarrow> cuckoo \<Rightarrow> cuckoo option" where
  "cf_place_slots [] b fp t = None"
| "cf_place_slots (s # ss) b fp t =
     (if t ! (b * cf_slots_per_bucket + s) = 0 then Some (t[b * cf_slots_per_bucket + s := fp])
      else if t ! (b * cf_slots_per_bucket + s) = fp then Some t
      else cf_place_slots ss b fp t)"

definition cf_place_in_bucket :: "nat \<Rightarrow> u8 \<Rightarrow> cuckoo \<Rightarrow> cuckoo option" where
  "cf_place_in_bucket b fp t = cf_place_slots [0..<cf_slots_per_bucket] b fp t"

definition cf_in_bucket :: "cuckoo \<Rightarrow> nat \<Rightarrow> u8 \<Rightarrow> bool" where
  "cf_in_bucket t b fp = list_ex (\<lambda>s. t ! (b * cf_slots_per_bucket + s) = fp) [0..<cf_slots_per_bucket]"

text \<open>
  The eviction loop from round \<open>n\<close> on, with the path so far, last step first.  It returns the table
  (\<open>Inl\<close>), or after the last round the table, the fingerprint without a place and the path.
\<close>
function cf_kick :: "nat \<Rightarrow> cuckoo \<Rightarrow> u8 \<Rightarrow> nat \<Rightarrow> (nat \<times> nat) list \<Rightarrow> cuckoo + (cuckoo \<times> u8 \<times> (nat \<times> nat) list)" where
  "cf_kick n t carry cur path = (if n < cf_max_kicks
     then (let slot = cf_eviction_slot cur n carry;
               idx = cur * cf_slots_per_bucket + slot;
               evicted = t ! idx;
               t' = t[idx := carry];
               cur' = cf_bucket2 cur evicted
           in case cf_place_in_bucket cur' evicted t' of
                Some t'' \<Rightarrow> Inl t''
              | None \<Rightarrow> cf_kick (n + 1) t' evicted cur' ((cur, slot) # path))
     else Inr (t, carry, path))"
  by pat_completeness auto
termination by (relation "measure (\<lambda>(n, t, carry, cur, path). cf_max_kicks - n)") auto

declare cf_kick.simps [simp del]

primrec cf_rollback :: "(nat \<times> nat) list \<Rightarrow> cuckoo \<Rightarrow> u8 \<Rightarrow> cuckoo" where
  "cf_rollback [] t carry = t"
| "cf_rollback (st # path) t carry =
     (let idx = fst st * cf_slots_per_bucket + snd st
      in cf_rollback path (t[idx := carry]) (t ! idx))"

definition cf_insert :: "u64 \<Rightarrow> cuckoo \<Rightarrow> cuckoo" where
  "cf_insert key t =
     (let fp = cf_fingerprint key; i1 = cf_bucket1 key; i2 = cf_bucket2 i1 fp
      in case cf_place_in_bucket i1 fp t of
           Some t' \<Rightarrow> t'
         | None \<Rightarrow> (case cf_place_in_bucket i2 fp t of
             Some t' \<Rightarrow> t'
           | None \<Rightarrow> (case cf_kick 0 t fp i1 [] of
               Inl t' \<Rightarrow> t'
             | Inr (t', carry, path) \<Rightarrow> cf_rollback path t' carry)))"

definition cf_probe :: "cuckoo \<Rightarrow> u64 \<Rightarrow> bool" where
  "cf_probe t key =
     (let fp = cf_fingerprint key; i1 = cf_bucket1 key; i2 = cf_bucket2 i1 fp
      in cf_in_bucket t i1 fp \<or> cf_in_bucket t i2 fp)"

definition cf_init :: cuckoo where "cf_init = replicate (cf_buckets * cf_slots_per_bucket) 0"
definition cf_clear :: "cuckoo \<Rightarrow> cuckoo" where "cf_clear t = map (\<lambda>_. 0) t"
definition cf_eq :: "cuckoo \<Rightarrow> cuckoo \<Rightarrow> bool" where "cf_eq t u \<longleftrightarrow> t = u"

definition cf_inv :: "cuckoo \<Rightarrow> bool" where
  "cf_inv t \<longleftrightarrow> length t = cf_buckets * cf_slots_per_bucket"

text \<open>The static scan: \<open>u32\<close> arithmetic up to the bucket indices, which are \<open>size_t\<close>.\<close>
definition cf_scan_hit :: "u8 list \<Rightarrow> u32 \<Rightarrow> u32 option" where
  "cf_scan_hit buf key =
     (let fp = ucast ((key * 0x1B) OR 1) :: u8;
          h = key * 2654435761;
          i1 = unat h mod length buf;
          i2 = unat (word_of_nat i1 XOR ucast (ucast fp * 0x5BD1E995 :: u32) :: u64) mod length buf
      in case read_at buf i1 of
           None \<Rightarrow> None
         | Some b1 \<Rightarrow> if b1 = fp then Some (1 + (key AND 3))
                      else (case read_at buf i2 of
                          None \<Rightarrow> None
                        | Some b2 \<Rightarrow> Some (if b2 = fp then 2 + (key AND 1) else 0)))"

definition cf_probe_scan :: "u8 list \<Rightarrow> u8 list \<Rightarrow> u64 option" where
  "cf_probe_scan buf queries = (if length buf = 0 then Some 0 else sum_hits (cf_scan_hit buf) queries)"

section \<open>Buckets\<close>

lemma mask_bound: "unat ((w :: u64) AND (word_of_nat cf_buckets - 1)) < cf_buckets"
proof -
  have "(word_of_nat cf_buckets - 1 :: u64) = mask 12" by (simp add: cf_buckets_def mask_eq_exp_minus_1)
  then show ?thesis by (simp only: unat_and_mask) (simp add: cf_buckets_def)
qed

lemma bucket1_bound: "cf_bucket1 key < cf_buckets"
  unfolding cf_bucket1_def by (rule mask_bound)

lemma bucket2_bound: "cf_bucket2 b fp < cf_buckets"
  unfolding cf_bucket2_def by (rule mask_bound)

text \<open>The alternate bucket of the alternate bucket is the bucket itself.\<close>
lemma bucket2_involution:
  assumes "b < cf_buckets"
  shows "cf_bucket2 (cf_bucket2 b fp) fp = b"
proof -
  define h where "h = (ucast fp * 0x5BD1E995 :: u64)"
  define m where "m = (word_of_nat cf_buckets - 1 :: u64)"
  have m: "m = mask 12" by (simp add: m_def cf_buckets_def mask_eq_exp_minus_1)
  have "(((w XOR h) AND m) XOR h) AND m = w AND m" for w :: u64
    by (rule bit_word_eqI) (auto simp: bit_simps)
  then have "cf_bucket2 (cf_bucket2 b fp) fp = unat (word_of_nat b AND m)"
    by (simp add: cf_bucket2_def h_def [symmetric] m_def [symmetric])
  also have "\<dots> = unat (word_of_nat b :: u64) mod 2 ^ 12" unfolding m by (rule unat_and_mask)
  also have "\<dots> = b" using assms by (simp add: cf_buckets_def unat_word_of_nat)
  finally show ?thesis .
qed

lemma eviction_slot_bound: "cf_eviction_slot b n fp < cf_slots_per_bucket"
proof -
  have "(word_of_nat cf_slots_per_bucket - 1 :: u64) = mask 2" by (simp add: cf_slots_per_bucket_def mask_eq_exp_minus_1)
  then show ?thesis by (simp only: cf_eviction_slot_def Let_def unat_and_mask) (simp add: cf_slots_per_bucket_def)
qed

lemma fingerprint_nonzero: "cf_fingerprint key \<noteq> 0"
proof -
  have "bit (cf_fingerprint key) 0" by (simp add: cf_fingerprint_def bit_simps)
  then show ?thesis by auto
qed

lemma slot_index_bound:
  "b < cf_buckets \<Longrightarrow> s < cf_slots_per_bucket \<Longrightarrow> b * cf_slots_per_bucket + s < cf_buckets * cf_slots_per_bucket"
  by (simp add: cf_buckets_def cf_slots_per_bucket_def)

lemma slot_index_eq:
  "s < cf_slots_per_bucket \<Longrightarrow> s' < cf_slots_per_bucket \<Longrightarrow>
   b * cf_slots_per_bucket + s = b' * cf_slots_per_bucket + s' \<longleftrightarrow> b = b' \<and> s = s'"
  unfolding cf_slots_per_bucket_def by presburger

lemma in_bucket_iff:
  "cf_in_bucket t b fp \<longleftrightarrow> (\<exists>s < cf_slots_per_bucket. t ! (b * cf_slots_per_bucket + s) = fp)"
  by (auto simp: cf_in_bucket_def list_ex_iff Bex_def)

section \<open>Placing and evicting\<close>

lemma in_bucket_update:
  assumes "cf_in_bucket t b fp" "t ! i \<noteq> fp"
  shows "cf_in_bucket (t[i := x]) b fp"
  using assms unfolding in_bucket_iff by (metis nth_list_update_neq)

lemma in_bucket_new:
  assumes "cf_inv t" "b < cf_buckets" "s < cf_slots_per_bucket"
  shows "cf_in_bucket (t[b * cf_slots_per_bucket + s := fp]) b fp"
  using assms slot_index_bound [OF assms(2,3)] unfolding in_bucket_iff cf_inv_def
  by (metis nth_list_update_eq)

lemma place_slots_ok:
  assumes "cf_place_slots ss b fp t = Some t'" "cf_inv t" "b < cf_buckets" "set ss \<subseteq> {..<cf_slots_per_bucket}"
  shows "cf_inv t' \<and> cf_in_bucket t' b fp
    \<and> (\<forall>b' fp'. fp' \<noteq> 0 \<longrightarrow> cf_in_bucket t b' fp' \<longrightarrow> cf_in_bucket t' b' fp')"
  using assms
proof (induction ss)
  case (Cons s ss)
  define i where "i = b * cf_slots_per_bucket + s"
  have s: "s < cf_slots_per_bucket" using Cons.prems(4) by simp
  show ?case
  proof (cases "t ! i = 0")
    case True
    then have "t' = t[i := fp]" using Cons.prems(1) by (simp add: i_def)
    then show ?thesis using in_bucket_new [OF Cons.prems(2,3) s, of fp] in_bucket_update [of t _ _ i fp] True Cons.prems(2)
      by (auto simp: i_def cf_inv_def)
  next
    case False
    show ?thesis
    proof (cases "t ! i = fp")
      case True
      then have "t' = t" using Cons.prems(1) False by (simp add: i_def split: if_splits)
      moreover have "cf_in_bucket t b fp" unfolding in_bucket_iff using s True i_def by blast
      ultimately show ?thesis using Cons.prems(2) by simp
    next
      case neq: False
      then have "cf_place_slots ss b fp t = Some t'" using Cons.prems(1) False by (simp add: i_def)
      then show ?thesis using Cons by simp
    qed
  qed
qed simp

lemmas place_ok = place_slots_ok [of "[0..<cf_slots_per_bucket]", folded cf_place_in_bucket_def]

definition cf_covers :: "cuckoo \<Rightarrow> nat \<Rightarrow> u8 \<Rightarrow> bool" where
  "cf_covers t b fp \<longleftrightarrow> cf_in_bucket t b fp \<or> cf_in_bucket t (cf_bucket2 b fp) fp"

text \<open>
  During the evictions every fingerprint is in one of its two buckets, or it is the carried one and
  the current bucket is one of its two buckets.
\<close>
definition cf_carried :: "(nat \<Rightarrow> u8 \<Rightarrow> bool) \<Rightarrow> cuckoo \<Rightarrow> u8 \<Rightarrow> nat \<Rightarrow> bool" where
  "cf_carried P t carry cur \<longleftrightarrow> (\<forall>b fp. b < cf_buckets \<longrightarrow> fp \<noteq> 0 \<longrightarrow> P b fp \<longrightarrow>
     cf_covers t b fp \<or> fp = carry \<and> (b = cur \<or> b = cf_bucket2 cur carry))"

lemma carried_step:
  assumes "cf_carried P t carry cur" "cf_inv t" "cur < cf_buckets" "s < cf_slots_per_bucket"
    "i = cur * cf_slots_per_bucket + s"
  shows "cf_carried P (t[i := carry]) (t ! i) (cf_bucket2 cur (t ! i))"
  unfolding cf_carried_def
proof (intro allI impI)
  fix b fp assume b: "b < cf_buckets" and nz: "fp \<noteq> 0" and p: "P b fp"
  define t' where "t' = t[i := carry]"
  have new: "cf_in_bucket t' cur carry" unfolding t'_def assms(5) by (rule in_bucket_new [OF assms(2-4)])
  have keep: "cf_in_bucket t' b' fp \<or> t ! i = fp \<and> b' = cur" if "cf_in_bucket t b' fp" for b'
  proof -
    obtain s' where s': "s' < cf_slots_per_bucket" "t ! (b' * cf_slots_per_bucket + s') = fp"
      using \<open>cf_in_bucket t b' fp\<close> unfolding in_bucket_iff by blast
    show ?thesis
    proof (cases "b' * cf_slots_per_bucket + s' = i")
      case True
      then show ?thesis using s' slot_index_eq [OF s'(1) assms(4)] assms(5) by auto
    next
      case False
      then show ?thesis using s' unfolding in_bucket_iff t'_def by (metis nth_list_update_neq)
    qed
  qed
  consider "fp = carry" "b = cur \<or> b = cf_bucket2 cur carry" | "cf_covers t b fp"
    using assms(1) b nz p unfolding cf_carried_def by blast
  then show "cf_covers t' b fp \<or> fp = t ! i \<and> (b = cf_bucket2 cur (t ! i) \<or> b = cf_bucket2 (cf_bucket2 cur (t ! i)) (t ! i))"
  proof cases
    case 1
    then show ?thesis using new bucket2_involution [OF assms(3), of carry] by (auto simp: cf_covers_def)
  next
    case 2
    then show ?thesis using keep [of b] keep [of "cf_bucket2 b fp"] bucket2_involution [OF assms(3), of fp]
        bucket2_involution [OF b, of fp]
      by (auto simp: cf_covers_def)
  qed
qed

lemma carried_place:
  assumes "cf_carried P t carry cur" "cf_inv t" "cur < cf_buckets" "cf_place_in_bucket cur carry t = Some t'"
    "b < cf_buckets" "fp \<noteq> 0" "P b fp"
  shows "cf_covers t' b fp"
proof -
  have "set [0..<cf_slots_per_bucket] \<subseteq> {..<cf_slots_per_bucket}" by auto
  note ok = place_ok [OF assms(4,2,3) this]
  have inv: "cf_bucket2 (cf_bucket2 cur carry) carry = cur" by (rule bucket2_involution [OF assms(3)])
  have "cf_covers t b fp \<or> fp = carry \<and> (b = cur \<or> b = cf_bucket2 cur carry)"
    using assms(1,5-7) unfolding cf_carried_def by blast
  then show ?thesis
  proof
    assume "cf_covers t b fp"
    then show ?thesis using ok assms(6) unfolding cf_covers_def by blast
  next
    assume "fp = carry \<and> (b = cur \<or> b = cf_bucket2 cur carry)"
    then show ?thesis using ok inv unfolding cf_covers_def by metis
  qed
qed

lemma kick_ok:
  "cf_carried P t carry cur \<Longrightarrow> cf_inv t \<Longrightarrow> cur < cf_buckets \<Longrightarrow>
   case cf_kick n t carry cur path of
     Inl t' \<Rightarrow> cf_inv t' \<and> (\<forall>b fp. b < cf_buckets \<longrightarrow> fp \<noteq> 0 \<longrightarrow> P b fp \<longrightarrow> cf_covers t' b fp)
   | Inr (t', c, p) \<Rightarrow> cf_rollback p t' c = cf_rollback path t carry"
proof (induction "cf_max_kicks - n" arbitrary: n t carry cur path rule: less_induct)
  case less
  show ?case
  proof (cases "n < cf_max_kicks")
    case True
    define s where "s = cf_eviction_slot cur n carry"
    define i where "i = cur * cf_slots_per_bucket + s"
    define t1 where "t1 = t[i := carry]"
    define cur1 where "cur1 = cf_bucket2 cur (t ! i)"
    have s: "s < cf_slots_per_bucket" unfolding s_def by (rule eviction_slot_bound)
    have c1: "cf_carried P t1 (t ! i) cur1" unfolding t1_def cur1_def
      by (rule carried_step [OF less.prems s i_def])
    have i1: "cf_inv t1" using less.prems(2) by (simp add: t1_def cf_inv_def)
    have b1: "cur1 < cf_buckets" unfolding cur1_def by (rule bucket2_bound)
    have unfold: "cf_kick n t carry cur path = (case cf_place_in_bucket cur1 (t ! i) t1 of
        Some t'' \<Rightarrow> Inl t'' | None \<Rightarrow> cf_kick (n + 1) t1 (t ! i) cur1 ((cur, s) # path))"
      using True unfolding cf_kick.simps [of n] s_def [symmetric] Let_def i_def [symmetric] t1_def [symmetric] cur1_def [symmetric]
      by simp
    show ?thesis
    proof (cases "cf_place_in_bucket cur1 (t ! i) t1")
      case (Some t2)
      then show ?thesis using carried_place [OF c1 i1 b1 Some] place_ok [OF Some i1 b1] unfold
        by (simp add: atLeast0LessThan)
    next
      case None
      have il: "i < length t" using slot_index_bound [OF less.prems(3) s] less.prems(2) by (simp add: i_def cf_inv_def)
      have "cf_rollback ((cur, s) # path) t1 (t ! i) = cf_rollback path t carry"
        using il by (simp add: i_def [symmetric] t1_def)
      moreover have "cf_max_kicks - (n + 1) < cf_max_kicks - n" using True by simp
      ultimately show ?thesis
        using less.hyps [of "n + 1" t1 "t ! i" cur1 "(cur, s) # path", OF _ c1 i1 b1] unfold None
        by (auto simp: case_prod_beta' simp del: cf_rollback.simps split: sum.splits)
    qed
  qed (use less.prems in \<open>simp add: cf_kick.simps [of n]\<close>)
qed

lemma probe_covers: "cf_probe t key \<longleftrightarrow> cf_covers t (cf_bucket1 key) (cf_fingerprint key)"
  by (simp add: cf_probe_def cf_covers_def Let_def)

text \<open>An insertion keeps every stored fingerprint; it adds the new one or changes nothing.\<close>
lemma insert_ok:
  assumes "cf_inv t"
  shows "cf_inv (cf_insert key t)" "cf_probe t k \<Longrightarrow> cf_probe (cf_insert key t) k"
    "cf_probe (cf_insert key t) key \<or> cf_insert key t = t"
proof -
  define fp where "fp = cf_fingerprint key"
  define i1 where "i1 = cf_bucket1 key"
  define i2 where "i2 = cf_bucket2 i1 fp"
  have i1: "i1 < cf_buckets" and i2: "i2 < cf_buckets" by (simp_all add: i1_def i2_def bucket1_bound bucket2_bound)
  have eq: "cf_insert key t = (case cf_place_in_bucket i1 fp t of
           Some t' \<Rightarrow> t'
         | None \<Rightarrow> (case cf_place_in_bucket i2 fp t of
             Some t' \<Rightarrow> t'
           | None \<Rightarrow> (case cf_kick 0 t fp i1 [] of
               Inl t' \<Rightarrow> t'
             | Inr (t', carry, path) \<Rightarrow> cf_rollback path t' carry)))"
    unfolding cf_insert_def Let_def fp_def i1_def i2_def ..
  have "cf_inv (cf_insert key t) \<and> (cf_probe t k \<longrightarrow> cf_probe (cf_insert key t) k)
    \<and> (cf_probe (cf_insert key t) key \<or> cf_insert key t = t)"
  proof -
    have placed: ?thesis if "cf_insert key t = t'" "b = i1 \<or> b = i2" "cf_place_in_bucket b fp t = Some t'" for b t'
    proof -
      have "b < cf_buckets" using that(2) i1 i2 by blast
      note ok = place_ok [OF that(3) assms this]
      show ?thesis using ok that(1,2) fingerprint_nonzero [of k]
        by (auto simp: probe_covers cf_covers_def fp_def i1_def i2_def atLeast0LessThan)
    qed
    consider (p1) t' where "cf_place_in_bucket i1 fp t = Some t'"
      | (p2) t' where "cf_place_in_bucket i1 fp t = None" "cf_place_in_bucket i2 fp t = Some t'"
      | (kick) "cf_place_in_bucket i1 fp t = None" "cf_place_in_bucket i2 fp t = None" by fastforce
    then show ?thesis
    proof cases
      case p1
      then show ?thesis using placed [of t' i1] eq by simp
    next
      case p2
      then show ?thesis using placed [of t' i2] eq by simp
    next
      case kick
      have "cf_carried (\<lambda>b fp'. cf_covers t b fp' \<or> fp' = fp \<and> b = i1) t fp i1" by (auto simp: cf_carried_def)
      note ok = kick_ok [OF this assms i1, where n = 0 and path = "[]"]
      show ?thesis
      proof (cases "cf_kick 0 t fp i1 []")
        case (Inl t')
        have "cf_covers t' i1 fp" using ok Inl i1 fingerprint_nonzero [of key] by (simp add: fp_def)
        then show ?thesis using ok Inl kick eq fingerprint_nonzero bucket1_bound
          by (simp add: probe_covers fp_def i1_def)
      next
        case (Inr r)
        then show ?thesis using ok kick eq assms by (cases r) simp
      qed
    qed
  qed
  then show "cf_inv (cf_insert key t)" "cf_probe t k \<Longrightarrow> cf_probe (cf_insert key t) k"
    "cf_probe (cf_insert key t) key \<or> cf_insert key t = t" by blast+
qed

lemma probe_clear:
  assumes "cf_inv t"
  shows "\<not> cf_probe (cf_clear t) key"
proof -
  have "\<not> cf_in_bucket (cf_clear t) b (cf_fingerprint key)" if "b < cf_buckets" for b
    using slot_index_bound [OF that] assms fingerprint_nonzero [of key]
    by (auto simp: in_bucket_iff cf_clear_def cf_inv_def)
  then show ?thesis using bucket1_bound bucket2_bound by (simp add: probe_covers cf_covers_def)
qed

interpretation cuckoo: rejecting_filter cf_inv "\<lambda>t. {k. cf_probe t k}" cf_insert cf_probe cf_clear
proof unfold_locales
  fix t k assume i: "cf_inv t"
  show "cf_inv (cf_insert k t)" by (rule insert_ok(1) [OF i])
  show "{k. cf_probe t k} \<subseteq> {k'. cf_probe (cf_insert k t) k'}" using insert_ok(2) [OF i] by blast
  show "cf_inv (cf_clear t)" using i by (simp add: cf_inv_def cf_clear_def)
  show "{k. cf_probe (cf_clear t) k} = {}" using probe_clear [OF i] by blast
  show "k \<in> {k'. cf_probe (cf_insert k t) k'} \<or> cf_insert k t = t" using insert_ok(3) [OF i] by blast
qed simp

section \<open>Properties\<close>

text \<open>C19: The cuckoo filter never loses a key: a key that probes true keeps doing so under any further
  insertions, although these evict fingerprints; and an insertion either makes its key probe true
  for good or, when the evictions do not end, restores the table byte for byte.\<close>
theorem cuckoo_no_loss:
  assumes "cf_inv t"
  shows "(cf_probe t k \<longrightarrow> cf_probe (fold cf_insert ks t) k)
    \<and> (cf_probe (fold cf_insert ks (cf_insert k t)) k \<or> cf_insert k t = t)"
  using cuckoo.never_lost [OF assms] cuckoo.accepted_or_unchanged [OF assms] by blast

theorem cuckoo_no_loss_witness:
  "cf_insert 42 cf_init \<noteq> cf_init \<and> cf_probe (fold cf_insert [1, 2, 3] (cf_insert 42 cf_init)) 42"
proof -
  have i: "cf_inv cf_init" by (simp add: cf_inv_def cf_init_def)
  have z: "cf_init = cf_clear cf_init" by (simp add: cf_clear_def cf_init_def map_replicate_const)
  have n: "cf_init ! (cf_bucket1 42 * cf_slots_per_bucket) = 0"
    using slot_index_bound [OF bucket1_bound, of 0 42] by (simp add: cf_init_def cf_slots_per_bucket_def)
  have "cf_place_in_bucket (cf_bucket1 42) (cf_fingerprint 42) cf_init
      = Some (cf_init[cf_bucket1 42 * cf_slots_per_bucket := cf_fingerprint 42])"
    using n by (simp add: cf_place_in_bucket_def cf_slots_per_bucket_def upt_conv_Cons)
  then have "cf_insert 42 cf_init = cf_init[cf_bucket1 42 * cf_slots_per_bucket := cf_fingerprint 42]"
    by (simp add: cf_insert_def Let_def)
  then have "cf_insert 42 cf_init ! (cf_bucket1 42 * cf_slots_per_bucket) \<noteq> 0"
    using slot_index_bound [OF bucket1_bound, of 0 42] fingerprint_nonzero [of 42]
    by (simp add: cf_init_def cf_slots_per_bucket_def)
  then have "cf_insert 42 cf_init \<noteq> cf_init" using n by metis
  then show ?thesis using cuckoo_no_loss [OF i, of 42 "[1, 2, 3]"] by blast
qed

end
