(* ===== verification/Filter_Xor.thy ===== *)
theory Filter_Xor imports Filter_Contract Sorted_Search begin

text \<open>
  \<^verbatim>\<open>XorFilter\<close> (\<^verbatim>\<open>axis_filter_xor.hpp\<close>): a table of one-byte cells in three thirds, rebuilt by peeling the
  3-hypergraph of the stored keys after every insertion.  The key array is the sorted list of its
  first \<^verbatim>\<open>key_count_\<close> entries; the shifting loops around an insertion are \<open>insert_at\<close> and \<open>erase_at\<close>.
  The scratch memory is always available (the code rejects the key when it is not).
\<close>

section \<open>Hashing\<close>

definition xf_third :: nat where "xf_third = 4096"
definition xf_slot_count :: nat where "xf_slot_count = 3 * xf_third"
definition xf_key_capacity :: nat where "xf_key_capacity = (xf_slot_count * 100) div 123"
definition xf_max_build_attempts :: nat where "xf_max_build_attempts = 16"

definition xf_fingerprint :: "u64 \<Rightarrow> u8" where
  "xf_fingerprint key = ucast (drop_bit 40 (key * 0x9E3779B97F4A7C15) XOR 0xA5)"

definition xf_seed_for_attempt :: "nat \<Rightarrow> u64" where
  "xf_seed_for_attempt attempt = 0x9E3779B97F4A7C15 * (2 * word_of_nat attempt + 1)"

definition xf_mix :: "u64 \<Rightarrow> u64 \<Rightarrow> u64" where
  "xf_mix key seed =
     (let a = key + seed;
          b = (a XOR drop_bit 30 a) * 0xBF58476D1CE4E5B9;
          c = (b XOR drop_bit 27 b) * 0x94D049BB133111EB
      in c XOR drop_bit 31 c)"

definition xf_h0 :: "u64 \<Rightarrow> nat" where
  "xf_h0 m = unat (m AND (word_of_nat xf_third - 1))"

definition xf_h1 :: "u64 \<Rightarrow> nat" where
  "xf_h1 m = xf_third + unat (drop_bit 21 m AND (word_of_nat xf_third - 1))"

definition xf_h2 :: "u64 \<Rightarrow> nat" where
  "xf_h2 m = 2 * xf_third + unat (drop_bit 42 m AND (word_of_nat xf_third - 1))"

definition xf_slots :: "u64 \<Rightarrow> u64 \<Rightarrow> nat list" where
  "xf_slots seed key = (let m = xf_mix key seed in [xf_h0 m, xf_h1 m, xf_h2 m])"

section \<open>Peeling\<close>

text \<open>Degree and key sum of the slots: adding and removing the edge of a key at one slot.\<close>
definition xf_add_edge :: "u64 \<Rightarrow> nat \<Rightarrow> u16 list \<times> u64 list \<Rightarrow> u16 list \<times> u64 list" where
  "xf_add_edge k s = (\<lambda>(cnt, kx). (cnt[s := cnt ! s + 1], kx[s := kx ! s XOR k]))"

definition xf_incidence :: "u64 \<Rightarrow> u64 list \<Rightarrow> u16 list \<times> u64 list" where
  "xf_incidence seed keys = fold (\<lambda>k. fold (xf_add_edge k) (xf_slots seed k)) keys
     (replicate xf_slot_count 0, replicate xf_slot_count 0)"

text \<open>The queue is the list of the entries not yet read, with the number \<open>qt\<close> ever written.\<close>
definition xf_drop_edge :: "u64 \<Rightarrow> nat \<Rightarrow> (u16 list \<times> u64 list) \<times> nat list \<times> nat
    \<Rightarrow> (u16 list \<times> u64 list) \<times> nat list \<times> nat" where
  "xf_drop_edge k t = (\<lambda>((cnt, kx), queue, qt).
     (let cnt' = cnt[t := cnt ! t - 1]; kx' = kx[t := kx ! t XOR k]
      in if cnt' ! t = 1 \<and> qt < xf_slot_count
         then ((cnt', kx'), queue @ [t], qt + 1)
         else ((cnt', kx'), queue, qt)))"

text \<open>Every write is counted, so that the queue ends.\<close>
lemma xf_drop_edges_queue:
  assumes "fold (xf_drop_edge k) ts (st, queue, qt) = (st', queue', qt')"
  shows "length queue' + (xf_slot_count - qt') \<le> length queue + (xf_slot_count - qt)"
  using assms
proof (induction ts arbitrary: st queue qt)
  case (Cons t ts)
  obtain cnt kx where st: "st = (cnt, kx)" by fastforce
  obtain st1 q1 n1 where d: "xf_drop_edge k t (st, queue, qt) = (st1, q1, n1)" by (metis prod_cases3)
  then have "length q1 + (xf_slot_count - n1) \<le> length queue + (xf_slot_count - qt)"
    by (auto simp: xf_drop_edge_def st Let_def split: if_splits)
  then show ?case using Cons.IH [of st1 q1 n1] Cons.prems d by simp
qed simp

lemma xf_drop_edges_set:
  assumes "fold (xf_drop_edge k) ts (st, queue, qt) = (st', queue', qt')"
  shows "set queue' \<subseteq> set queue \<union> set ts"
  using assms
proof (induction ts arbitrary: st queue qt)
  case (Cons t ts)
  obtain cnt kx where st: "st = (cnt, kx)" by fastforce
  obtain st1 q1 n1 where d: "xf_drop_edge k t (st, queue, qt) = (st1, q1, n1)" by (metis prod_cases3)
  then have "set q1 \<subseteq> set queue \<union> {t}"
    by (auto simp: xf_drop_edge_def st Let_def split: if_splits)
  then show ?case using Cons.IH [of st1 q1 n1] Cons.prems d by auto
qed simp

text \<open>The peeling loop; \<open>order\<close> lists the peeled keys with their slots, last first.\<close>
function xf_peel :: "u64 \<Rightarrow> (u16 list \<times> u64 list) \<times> nat list \<times> nat \<Rightarrow> (u64 \<times> nat) list \<Rightarrow> (u64 \<times> nat) list" where
  "xf_peel seed ((cnt, kx), queue, qt) order = (case queue of
     [] \<Rightarrow> order
   | s # rest \<Rightarrow>
       (if cnt ! s \<noteq> 1 then xf_peel seed ((cnt, kx), rest, qt) order
        else (let k = kx ! s
              in xf_peel seed (fold (xf_drop_edge k) (xf_slots seed k) ((cnt, kx), rest, qt)) ((k, s) # order))))"
  by pat_completeness auto
termination
proof (relation "measure (\<lambda>(seed, (st, queue, qt), order). length queue + (xf_slot_count - qt))", goal_cases)
  case (3 seed cnt kx queue qt order s rest x)
  then show ?case
    using xf_drop_edges_queue [of x "xf_slots seed x" "(cnt, kx)" rest qt]
    by (cases "fold (xf_drop_edge x) (xf_slots seed x) ((cnt, kx), rest, qt)") fastforce
qed auto

declare xf_peel.simps [simp del]

text \<open>Filling the table, last peeled key first.\<close>
definition xf_fill :: "u64 \<Rightarrow> u64 \<times> nat \<Rightarrow> u8 list \<Rightarrow> u8 list" where
  "xf_fill seed = (\<lambda>(k, s) tab. let m = xf_mix k seed
     in tab[s := xf_fingerprint k XOR tab ! xf_h0 m XOR tab ! xf_h1 m XOR tab ! xf_h2 m])"

definition xf_try_peel :: "u64 \<Rightarrow> u64 list \<Rightarrow> u8 list option" where
  "xf_try_peel seed keys =
     (let (cnt, kx) = xf_incidence seed keys;
          queue = filter (\<lambda>s. cnt ! s = 1) [0..<xf_slot_count];
          order = xf_peel seed ((cnt, kx), queue, length queue) []
      in if length order \<noteq> length keys then None
         else Some (fold (xf_fill seed) order (replicate xf_slot_count 0)))"

section \<open>Operations\<close>

record xor_filter =
  xf_table :: "u8 list"
  xf_keys :: "u64 list"
  xf_seed :: u64

text \<open>The attempts of \<^verbatim>\<open>rebuild_peeled_\<close> from attempt \<open>a\<close> on.\<close>
function xf_rebuild :: "nat \<Rightarrow> u64 list \<Rightarrow> (u8 list \<times> u64) option" where
  "xf_rebuild a keys = (if a < xf_max_build_attempts
     then (case xf_try_peel (xf_seed_for_attempt a) keys of
         Some tab \<Rightarrow> Some (tab, xf_seed_for_attempt a)
       | None \<Rightarrow> xf_rebuild (a + 1) keys)
     else None)"
  by pat_completeness auto
termination by (relation "measure (\<lambda>(a, keys). xf_max_build_attempts - a)") auto

declare xf_rebuild.simps [simp del]

function xf_search :: "u64 list \<Rightarrow> u64 \<Rightarrow> nat \<Rightarrow> nat \<Rightarrow> nat" where
  "xf_search keys key lo hi = (if lo < hi
     then (let mid = lo + (hi - lo) div 2
           in if keys ! mid < key then xf_search keys key (mid + 1) hi else xf_search keys key lo mid)
     else lo)"
  by pat_completeness auto
termination by (relation "measure (\<lambda>(keys, key, lo, hi). hi - lo)") auto

declare xf_search.simps [simp del]

definition xf_insert :: "u64 \<Rightarrow> xor_filter \<Rightarrow> xor_filter" where
  "xf_insert key f =
     (let lo = xf_search (xf_keys f) key 0 (length (xf_keys f))
      in if lo < length (xf_keys f) \<and> xf_keys f ! lo = key then f
         else if length (xf_keys f) = xf_key_capacity then f
         else (let keys = insert_at lo key (xf_keys f)
               in case xf_rebuild 0 keys of
                    Some (tab, seed) \<Rightarrow> f\<lparr>xf_table := tab, xf_keys := keys, xf_seed := seed\<rparr>
                  | None \<Rightarrow> f\<lparr>xf_keys := erase_at lo keys\<rparr>))"

definition xf_probe :: "xor_filter \<Rightarrow> u64 \<Rightarrow> bool" where
  "xf_probe f key =
     (let m = xf_mix key (xf_seed f)
      in xf_table f ! xf_h0 m XOR xf_table f ! xf_h1 m XOR xf_table f ! xf_h2 m = xf_fingerprint key)"

definition xf_init :: xor_filter where
  "xf_init = \<lparr>xf_table = replicate xf_slot_count 0, xf_keys = [], xf_seed = xf_seed_for_attempt 0\<rparr>"

definition xf_clear :: "xor_filter \<Rightarrow> xor_filter" where
  "xf_clear f = f\<lparr>xf_table := replicate xf_slot_count 0, xf_keys := [], xf_seed := xf_seed_for_attempt 0\<rparr>"

definition xf_eq :: "xor_filter \<Rightarrow> xor_filter \<Rightarrow> bool" where
  "xf_eq f g \<longleftrightarrow> length (xf_keys f) = length (xf_keys g) \<and> xf_seed f = xf_seed g
     \<and> xf_table f = xf_table g \<and> xf_keys f = xf_keys g"

text \<open>The static scan.\<close>
definition xf_scan_hit :: "u8 list \<Rightarrow> u32 \<Rightarrow> u32 option" where
  "xf_scan_hit buf key =
     (let third = length buf div 3; rest = length buf - 2 * third;
          fp = ucast ((key * 0x9D) XOR 0xA5) :: u8;
          h0 = unat (key * 2654435761) mod third;
          h1 = third + unat (key * 40503) mod third;
          h2 = 2 * third + unat (key * 0x85EBCA6B) mod rest
      in case (read_at buf h0, read_at buf h1, read_at buf h2) of
           (Some b0, Some b1, Some b2) \<Rightarrow> Some (if b0 XOR b1 XOR b2 = fp then 1 + (key AND 7) else 0)
         | _ \<Rightarrow> None)"

definition xf_probe_scan :: "u8 list \<Rightarrow> u8 list \<Rightarrow> u64 option" where
  "xf_probe_scan buf queries = (if length buf < 3 then Some 0 else sum_hits (xf_scan_hit buf) queries)"

section \<open>Slots of a key\<close>

lemma xf_hash_bounds: "xf_h0 m < xf_third" "xf_third \<le> xf_h1 m" "xf_h1 m < 2 * xf_third"
  "2 * xf_third \<le> xf_h2 m" "xf_h2 m < xf_slot_count"
proof -
  have "(word_of_nat xf_third - 1 :: u64) = mask 12" by (simp add: xf_third_def mask_eq_exp_minus_1)
  then have "unat (w AND (word_of_nat xf_third - 1) :: u64) < xf_third" for w
    by (simp only: unat_and_mask) (simp add: xf_third_def)
  note b = this
  show "xf_h0 m < xf_third" "xf_third \<le> xf_h1 m" "xf_h1 m < 2 * xf_third"
  "2 * xf_third \<le> xf_h2 m" "xf_h2 m < xf_slot_count"
    using b [of m] b [of "drop_bit 21 m"] b [of "drop_bit 42 m"]
    by (simp_all add: xf_h0_def xf_h1_def xf_h2_def xf_slot_count_def)
qed

lemma xf_slots_distinct: "distinct (xf_slots seed k)"
  using xf_hash_bounds [of "xf_mix k seed"] by (auto simp: xf_slots_def Let_def)

lemma xf_slots_bound: "s \<in> set (xf_slots seed k) \<Longrightarrow> s < xf_slot_count"
  using xf_hash_bounds [of "xf_mix k seed"] by (auto simp: xf_slots_def Let_def xf_slot_count_def)

text \<open>Updating the entries at a list of distinct indices.\<close>
lemma length_fold_update [simp]: "length (fold (\<lambda>t xs. xs[t := g (xs ! t)]) ts xs) = length xs"
  by (induction ts arbitrary: xs) simp_all

lemma nth_fold_update:
  "distinct ts \<Longrightarrow> s < length xs \<Longrightarrow>
   fold (\<lambda>t xs. xs[t := g (xs ! t)]) ts xs ! s = (if s \<in> set ts then g (xs ! s) else xs ! s)"
proof (induction ts arbitrary: xs)
  case (Cons t ts)
  then show ?case by (cases "s = t") simp_all
qed simp

lemma fold_add_edge:
  "fold (xf_add_edge k) ts (cnt, kx)
     = (fold (\<lambda>t xs. xs[t := xs ! t + 1]) ts cnt, fold (\<lambda>t xs. xs[t := xs ! t XOR k]) ts kx)"
  by (induction ts arbitrary: cnt kx) (simp_all add: xf_add_edge_def)

lemma fold_drop_edge:
  "fst (fold (xf_drop_edge k) ts ((cnt, kx), queue, qt))
     = (fold (\<lambda>t xs. xs[t := xs ! t - 1]) ts cnt, fold (\<lambda>t xs. xs[t := xs ! t XOR k]) ts kx)"
  by (induction ts arbitrary: cnt kx queue qt) (simp_all add: xf_drop_edge_def Let_def)

section \<open>Degrees during the peeling\<close>

definition xf_incident :: "u64 \<Rightarrow> nat \<Rightarrow> u64 \<Rightarrow> bool" where
  "xf_incident seed s k \<longleftrightarrow> s \<in> set (xf_slots seed k)"

definition xor_all :: "u64 list \<Rightarrow> u64" where
  "xor_all xs = foldr (XOR) xs 0"

text \<open>Degree and key sum of every slot, for the keys not yet peeled.\<close>
definition xf_degrees :: "u64 \<Rightarrow> u64 list \<Rightarrow> u16 list \<times> u64 list \<Rightarrow> bool" where
  "xf_degrees seed ks = (\<lambda>(cnt, kx). length cnt = xf_slot_count \<and> length kx = xf_slot_count
     \<and> (\<forall>s < xf_slot_count. cnt ! s = word_of_nat (length (filter (xf_incident seed s) ks))
          \<and> kx ! s = xor_all (filter (xf_incident seed s) ks)))"

lemma xor_all_remove1: "k \<in> set xs \<Longrightarrow> xor_all xs = k XOR xor_all (remove1 k xs)"
  by (induction xs) (auto simp: xor_all_def ac_simps)

lemma degrees_add:
  assumes "xf_degrees seed ks st"
  shows "xf_degrees seed (k # ks) (fold (xf_add_edge k) (xf_slots seed k) st)"
proof -
  obtain cnt kx where st: "st = (cnt, kx)" by fastforce
  show ?thesis
    using assms xf_slots_distinct [of seed k]
    by (auto simp: xf_degrees_def st fold_add_edge nth_fold_update xf_incident_def xor_all_def ac_simps)
qed

lemma degrees_incidence: "xf_degrees seed (rev ks) (xf_incidence seed ks)"
proof -
  have "xf_degrees seed ds st \<Longrightarrow>
      xf_degrees seed (rev ks @ ds) (fold (\<lambda>k. fold (xf_add_edge k) (xf_slots seed k)) ks st)" for ds st
  proof (induction ks arbitrary: ds st)
    case (Cons k ks)
    then show ?case using Cons.IH [OF degrees_add [OF Cons.prems, of k]] by simp
  qed simp
  moreover have "xf_degrees seed [] (replicate xf_slot_count 0, replicate xf_slot_count 0)"
    by (simp add: xf_degrees_def xor_all_def)
  ultimately show ?thesis unfolding xf_incidence_def by fastforce
qed

lemma degrees_remove:
  assumes "xf_degrees seed ks st" "k \<in> set ks"
  shows "xf_degrees seed (remove1 k ks) (fst (fold (xf_drop_edge k) (xf_slots seed k) (st, queue, qt)))"
proof -
  obtain cnt kx where st: "st = (cnt, kx)" by fastforce
  have deg: "word_of_nat (length (filter (xf_incident seed s) (remove1 k ks)))
      = (if s \<in> set (xf_slots seed k) then cnt ! s - 1 else cnt ! s)"
    and sum: "xor_all (filter (xf_incident seed s) (remove1 k ks))
      = (if s \<in> set (xf_slots seed k) then kx ! s XOR k else kx ! s)" if s: "s < xf_slot_count" for s
  proof -
    define fs where "fs = filter (xf_incident seed s) ks"
    have v: "cnt ! s = word_of_nat (length fs)" "kx ! s = xor_all fs"
      using assms(1) s by (simp_all add: xf_degrees_def st fs_def)
    have r: "filter (xf_incident seed s) (remove1 k ks)
        = (if s \<in> set (xf_slots seed k) then remove1 k fs else fs)"
      by (simp add: fs_def filter_remove1 remove1_idem xf_incident_def)
    have k: "k \<in> set fs" if "s \<in> set (xf_slots seed k)" using that assms(2) by (simp add: fs_def xf_incident_def)
    show "word_of_nat (length (filter (xf_incident seed s) (remove1 k ks)))
        = (if s \<in> set (xf_slots seed k) then cnt ! s - 1 else cnt ! s)"
    proof (cases "s \<in> set (xf_slots seed k)")
      case True
      then have "1 \<le> length fs" using k by (auto simp: Suc_le_eq length_pos_if_in_set)
      then show ?thesis using True k v(1) of_nat_diff [of 1 "length fs", where 'a = u16] by (simp add: r length_remove1)
    qed (use v(1) in \<open>simp add: r\<close>)
    show "xor_all (filter (xf_incident seed s) (remove1 k ks))
        = (if s \<in> set (xf_slots seed k) then kx ! s XOR k else kx ! s)"
      using k v(2) xor_all_remove1 [of k fs] by (auto simp: r ac_simps)
  qed
  have "length cnt = xf_slot_count" "length kx = xf_slot_count" using assms(1) by (simp_all add: xf_degrees_def st)
  then show ?thesis using deg sum xf_slots_distinct [of seed k]
    by (simp add: xf_degrees_def st fold_drop_edge
        nth_fold_update [where g = "\<lambda>x. x - 1"] length_fold_update [where g = "\<lambda>x. x - 1"]
        nth_fold_update [where g = "\<lambda>x. x XOR k"] length_fold_update [where g = "\<lambda>x. x XOR k"])
qed

text \<open>A slot of degree one names the one key that is left there.\<close>
lemma degree_one:
  assumes "xf_degrees seed ks (cnt, kx)" "s < xf_slot_count" "cnt ! s = 1" "length ks < 2 ^ 16"
  shows "filter (xf_incident seed s) ks = [kx ! s]"
proof -
  define fs where "fs = filter (xf_incident seed s) ks"
  have v: "(word_of_nat (length fs) :: u16) = 1" "kx ! s = xor_all fs"
    using assms(1-3) by (auto simp: xf_degrees_def fs_def)
  have "length fs < 2 ^ 16" using assms(4) le_less_trans [OF length_filter_le] by (auto simp: fs_def)
  then have "length fs = 1" using v(1) unat_word_of_nat [of "length fs", where 'a = 16] by simp
  then show ?thesis using v(2) by (auto simp: fs_def [symmetric] length_Suc_conv xor_all_def)
qed

text \<open>An order of peeling: no key peeled later, and none of \<open>R\<close>, touches the slot of a key.\<close>
primrec xf_good_order :: "u64 \<Rightarrow> (u64 \<times> nat) list \<Rightarrow> u64 set \<Rightarrow> bool" where
  "xf_good_order seed [] R \<longleftrightarrow> True"
| "xf_good_order seed (p # order) R \<longleftrightarrow> xf_incident seed (snd p) (fst p)
     \<and> (\<forall>k \<in> R. \<not> xf_incident seed (snd p) k) \<and> xf_good_order seed order (insert (fst p) R)"

lemma peel_ok:
  "xf_degrees seed ks (cnt, kx) \<Longrightarrow> distinct ks \<Longrightarrow> length ks < 2 ^ 16 \<Longrightarrow> set queue \<subseteq> {..<xf_slot_count} \<Longrightarrow>
   xf_good_order seed order (set ks) \<Longrightarrow>
   \<exists>ks'. distinct ks' \<and> xf_good_order seed (xf_peel seed ((cnt, kx), queue, qt) order) (set ks')
     \<and> length (xf_peel seed ((cnt, kx), queue, qt) order) + length ks' = length order + length ks
     \<and> set (map fst (xf_peel seed ((cnt, kx), queue, qt) order)) \<union> set ks' = set (map fst order) \<union> set ks"
proof (induction "length queue + (xf_slot_count - qt)" arbitrary: ks cnt kx queue qt order rule: less_induct)
  case less
  show ?case
  proof (cases queue)
    case Nil
    then show ?thesis using less.prems by (auto simp: xf_peel.simps [of seed cnt kx "[]" qt order])
  next
    case (Cons s rest)
    have s: "s < xf_slot_count" using Cons less.prems(4) by simp
    show ?thesis
    proof (cases "cnt ! s = 1")
      case False
      then have "xf_peel seed ((cnt, kx), queue, qt) order = xf_peel seed ((cnt, kx), rest, qt) order"
        using Cons by (simp add: xf_peel.simps [of seed cnt kx "s # rest" qt order])
      then show ?thesis
        using less.hyps [of rest qt ks cnt kx order] less.prems Cons by simp
    next
      case True
      define k where "k = kx ! s"
      have f: "filter (xf_incident seed s) ks = [k]"
        unfolding k_def by (rule degree_one [OF less.prems(1) s True less.prems(3)])
      then have k: "k \<in> set ks" "xf_incident seed s k" by (metis (no_types) filter_is_subset list.set_intros(1) subsetD,
          metis (mono_tags) filter_eq_ConsD)
      have other: "\<not> xf_incident seed s k'" if "k' \<in> set ks" "k' \<noteq> k" for k'
      proof
        assume "xf_incident seed s k'"
        then have "k' \<in> set (filter (xf_incident seed s) ks)" using that(1) by simp
        then show False unfolding f using that(2) by simp
      qed
      obtain cnt' kx' queue' qt' where d: "fold (xf_drop_edge k) (xf_slots seed k) ((cnt, kx), rest, qt) = ((cnt', kx'), queue', qt')"
        by (metis prod.exhaust)
      have deg: "xf_degrees seed (remove1 k ks) (cnt', kx')"
        using degrees_remove [OF less.prems(1) k(1), of rest qt] d by simp
      have q: "set queue' \<subseteq> {..<xf_slot_count}"
        using xf_drop_edges_set [OF d] less.prems(4) Cons xf_slots_bound by auto
      have m: "length queue' + (xf_slot_count - qt') < length queue + (xf_slot_count - qt)"
        using xf_drop_edges_queue [OF d] Cons by simp
      have dist: "distinct (remove1 k ks)" "set (remove1 k ks) = set ks - {k}" "length (remove1 k ks) = length ks - 1"
        using less.prems(2) k(1) by (simp_all add: length_remove1)
      have good: "xf_good_order seed ((k, s) # order) (set (remove1 k ks))"
        using less.prems(5) k other dist(2) by (auto simp: insert_absorb)
      have l: "length (remove1 k ks) < 2 ^ 16" using less.prems(3) dist(3) by simp
      have step: "xf_peel seed ((cnt, kx), queue, qt) order = xf_peel seed ((cnt', kx'), queue', qt') ((k, s) # order)"
        using Cons True d by (simp add: xf_peel.simps [of seed cnt kx "s # rest" qt order] k_def [symmetric])
      have "length ((k, s) # order) + length (remove1 k ks) = length order + length ks"
        using k(1) dist(3) length_pos_if_in_set [OF k(1)] by simp
      moreover have "set (map fst ((k, s) # order)) \<union> set (remove1 k ks) = set (map fst order) \<union> set ks"
        using dist(2) k(1) by auto
      ultimately show ?thesis
        using less.hyps [OF m deg dist(1) l q good] unfolding step by metis
    qed
  qed
qed

section \<open>Filling the table\<close>

text \<open>The sum of the three cells of a key.\<close>
definition xf_sum :: "u64 \<Rightarrow> u8 list \<Rightarrow> u64 \<Rightarrow> u8" where
  "xf_sum seed tab key = (let m = xf_mix key seed in tab ! xf_h0 m XOR tab ! xf_h1 m XOR tab ! xf_h2 m)"

text \<open>The keys in \<open>R\<close> have their fingerprint, cells they do not touch are still zero.\<close>
definition xf_filled :: "u64 \<Rightarrow> u64 set \<Rightarrow> u8 list \<Rightarrow> bool" where
  "xf_filled seed R tab \<longleftrightarrow> length tab = xf_slot_count \<and> (\<forall>k \<in> R. xf_sum seed tab k = xf_fingerprint k)
     \<and> (\<forall>s < xf_slot_count. (\<forall>k \<in> R. \<not> xf_incident seed s k) \<longrightarrow> tab ! s = 0)"

lemma xf_sum_update_other: "\<not> xf_incident seed s k \<Longrightarrow> xf_sum seed (tab[s := x]) k = xf_sum seed tab k"
  by (auto simp: xf_sum_def xf_incident_def xf_slots_def Let_def)

lemma xf_sum_fill:
  assumes "xf_incident seed s k" "tab ! s = 0" "length tab = xf_slot_count"
  shows "xf_sum seed (xf_fill seed (k, s) tab) k = xf_fingerprint k"
proof -
  define m where "m = xf_mix k seed"
  note b = xf_hash_bounds [of m]
  have x: "x XOR y XOR z = w" if "x = w XOR y XOR z" for x y z w :: u8
    using that by (simp add: xor.assoc xor.left_commute)
  have s: "s = xf_h0 m \<or> s = xf_h1 m \<or> s = xf_h2 m"
    using assms(1) by (auto simp: xf_incident_def xf_slots_def m_def Let_def)
  have "xf_h0 m < length tab" "xf_h1 m < length tab" "xf_h2 m < length tab"
    "xf_h0 m \<noteq> xf_h1 m" "xf_h0 m \<noteq> xf_h2 m" "xf_h1 m \<noteq> xf_h2 m"
    using b assms(3) by (auto simp: xf_slot_count_def)
  then show ?thesis
    using s assms(2) by (auto simp: xf_sum_def xf_fill_def m_def [symmetric] Let_def ac_simps)
qed

lemma fill_step:
  assumes "xf_filled seed R tab" "xf_incident seed s k" "\<forall>k' \<in> R. \<not> xf_incident seed s k'"
  shows "xf_filled seed (insert k R) (xf_fill seed (k, s) tab)"
proof -
  have s: "s < xf_slot_count" using assms(2) xf_slots_bound by (simp add: xf_incident_def)
  then have "tab ! s = 0" using assms(1,3) by (simp add: xf_filled_def)
  then have "xf_sum seed (xf_fill seed (k, s) tab) k = xf_fingerprint k"
    using assms(1,2) by (intro xf_sum_fill) (simp_all add: xf_filled_def)
  moreover have "xf_fill seed (k, s) tab = tab[s := xf_fill seed (k, s) tab ! s]"
    using s assms(1) by (simp add: xf_fill_def xf_filled_def Let_def)
  ultimately show ?thesis
    using assms xf_sum_update_other [of seed s _ tab "xf_fill seed (k, s) tab ! s"]
    unfolding xf_filled_def by (metis (mono_tags, lifting) insert_iff length_list_update nth_list_update_neq)
qed

lemma fill_ok:
  "xf_good_order seed order R \<Longrightarrow> xf_filled seed R tab \<Longrightarrow>
   xf_filled seed (set (map fst order) \<union> R) (fold (xf_fill seed) order tab)"
proof (induction order arbitrary: R tab)
  case (Cons p order)
  obtain k s where p: "p = (k, s)" by fastforce
  have "xf_filled seed (insert k R) (xf_fill seed (k, s) tab)"
    using Cons.prems by (intro fill_step) (simp_all add: p)
  then show ?case using Cons.IH [of "insert k R"] Cons.prems(1) by (simp add: p)
qed simp

text \<open>A successful build stores every key.\<close>
lemma try_peel_ok:
  assumes "xf_try_peel seed keys = Some tab" "distinct keys" "length keys < 2 ^ 16"
  shows "length tab = xf_slot_count" "k \<in> set keys \<Longrightarrow> xf_sum seed tab k = xf_fingerprint k"
proof -
  obtain cnt kx where st: "xf_incidence seed keys = (cnt, kx)" by fastforce
  define queue where "queue = filter (\<lambda>s. cnt ! s = 1) [0..<xf_slot_count]"
  define order where "order = xf_peel seed ((cnt, kx), queue, length queue) []"
  have deg: "xf_degrees seed (rev keys) (cnt, kx)" using degrees_incidence [of seed keys] st by simp
  have "set queue \<subseteq> {..<xf_slot_count}" by (auto simp: queue_def)
  from peel_ok [OF deg _ _ this, of "[]" "length queue", folded order_def] assms(2,3)
  obtain ks' where ks': "xf_good_order seed order (set ks')" "length order + length ks' = length keys"
    "set (map fst order) \<union> set ks' = set keys" by auto
  have eq: "length order = length keys" "tab = fold (xf_fill seed) order (replicate xf_slot_count 0)"
    using assms(1) st by (auto simp: xf_try_peel_def queue_def order_def Let_def split: if_splits)
  then have "ks' = []" using ks'(2) by simp
  moreover have "xf_filled seed {} (replicate xf_slot_count 0)" by (simp add: xf_filled_def)
  ultimately have "xf_filled seed (set keys) tab"
    using fill_ok [of seed order "{}" "replicate xf_slot_count 0"] ks'(1,3) eq(2) by simp
  then show "length tab = xf_slot_count" "k \<in> set keys \<Longrightarrow> xf_sum seed tab k = xf_fingerprint k"
    by (simp_all add: xf_filled_def)
qed

lemma rebuild_ok:
  "xf_rebuild a keys = Some (tab, seed) \<Longrightarrow> distinct keys \<Longrightarrow> length keys < 2 ^ 16 \<Longrightarrow>
   length tab = xf_slot_count \<and> (\<forall>k \<in> set keys. xf_sum seed tab k = xf_fingerprint k)"
proof (induction "xf_max_build_attempts - a" arbitrary: a rule: less_induct)
  case less
  show ?case
    using less.prems less.hyps [of "a + 1"] try_peel_ok
    by (auto simp: xf_rebuild.simps [of a] split: if_splits option.splits)
qed

section \<open>The filter\<close>

definition xf_inv :: "xor_filter \<Rightarrow> bool" where
  "xf_inv f \<longleftrightarrow> sorted_wrt (<) (xf_keys f) \<and> length (xf_keys f) \<le> xf_key_capacity
     \<and> length (xf_table f) = xf_slot_count \<and> (\<forall>k \<in> set (xf_keys f). xf_probe f k)"

lemma xf_probe_sum: "xf_probe f k \<longleftrightarrow> xf_sum (xf_seed f) (xf_table f) k = xf_fingerprint k"
  by (simp add: xf_probe_def xf_sum_def Let_def)

text \<open>The search is the lower bound of the slot organs, on the keys alone.\<close>
lemma xf_search_lower_bound:
  "hi \<le> length keys \<Longrightarrow> xf_search keys key lo hi = lower_bound_loop (map (\<lambda>k. (k, 0)) keys) key lo hi"
proof (induction "hi - lo" arbitrary: lo hi rule: less_induct)
  case less
  show ?case
  proof (cases "lo < hi")
    case True
    then show ?thesis using less
      by (simp add: xf_search.simps [of keys key lo hi] lower_bound_loop.simps [of _ key lo hi] key_at_def Let_def)
  next
    case False
    then show ?thesis by (simp add: xf_search.simps [of keys key lo hi] lower_bound_loop.simps [of _ key lo hi])
  qed
qed

lemma xf_search_cases:
  assumes "sorted_wrt (<) keys"
  obtains (found) xs ys where "keys = xs @ key # ys" "xf_search keys key 0 (length keys) = length xs"
  | (absent) xs ys where "keys = xs @ ys" "xf_search keys key 0 (length keys) = length xs"
      "\<forall>k \<in> set xs. k < key" "\<forall>k \<in> set ys. key < k"
proof -
  define s where "s = map (\<lambda>k. (k, 0 :: u64)) keys"
  have inv: "sorted_inv s" using assms by (simp add: sorted_inv_def s_def comp_def)
  have keys: "keys = map fst s" by (simp add: s_def comp_def)
  have i: "xf_search keys key 0 (length keys) = lower_bound_index s key"
    by (simp add: lower_bound_index_def slot_count_def xf_search_lower_bound s_def)
  show ?thesis
    using inv
  proof (cases rule: lower_bound_cases [of s key])
    case (found xs v ys)
    then show ?thesis using that(1) [of "map fst xs" "map fst ys"] keys i by simp
  next
    case (absent xs ys)
    then show ?thesis using that(2) [of "map fst xs" "map fst ys"] keys i by simp
  qed
qed

lemma xf_insert_ok:
  assumes "xf_inv f"
  shows "xf_inv (xf_insert key f) \<and> set (xf_keys f) \<subseteq> set (xf_keys (xf_insert key f))
    \<and> (key \<in> set (xf_keys (xf_insert key f)) \<or> xf_insert key f = f)"
proof -
  have sorted: "sorted_wrt (<) (xf_keys f)" using assms by (simp add: xf_inv_def)
  show ?thesis
    using sorted
  proof (cases rule: xf_search_cases [of "xf_keys f" key])
    case (found xs ys)
    then show ?thesis using assms by (simp add: xf_insert_def Let_def)
  next
    case (absent xs ys)
    define keys where "keys = xs @ key # ys"
    have miss: "\<not> (length xs < length (xf_keys f) \<and> xf_keys f ! length xs = key)"
      using absent by (cases ys) auto
    have ins: "insert_at (length xs) key (xf_keys f) = keys" and era: "erase_at (length xs) keys = xf_keys f"
      using absent(1) by (simp_all add: keys_def insert_at_def erase_at_def)
    have eq: "xf_insert key f = (if length (xf_keys f) = xf_key_capacity then f
        else case xf_rebuild 0 keys of Some (tab, seed) \<Rightarrow> f\<lparr>xf_table := tab, xf_keys := keys, xf_seed := seed\<rparr>
             | None \<Rightarrow> f)"
      unfolding xf_insert_def Let_def absent(2) ins era using miss by (auto split: option.splits)
    show ?thesis
    proof (cases "length (xf_keys f) = xf_key_capacity \<or> xf_rebuild 0 keys = None")
      case True
      then show ?thesis using eq assms by auto
    next
      case False
      then obtain tab seed where r: "xf_rebuild 0 keys = Some (tab, seed)" by auto
      have s: "sorted_wrt (<) keys" using sorted absent by (auto simp: keys_def sorted_wrt_append)
      have l: "length keys \<le> xf_key_capacity"
        using False assms absent(1) by (simp add: keys_def xf_inv_def)
      then have "length keys < 2 ^ 16" by (simp add: xf_key_capacity_def xf_slot_count_def xf_third_def)
      with rebuild_ok [OF r] s have "length tab = xf_slot_count" "\<forall>k \<in> set keys. xf_sum seed tab k = xf_fingerprint k"
        by (auto simp: strict_sorted_iff)
      then show ?thesis using eq False r s l absent(1)
        by (auto simp: xf_inv_def xf_probe_sum keys_def)
    qed
  qed
qed

interpretation xor: rejecting_filter xf_inv "\<lambda>f. set (xf_keys f)" xf_insert xf_probe xf_clear
proof unfold_locales
  fix f k assume i: "xf_inv f"
  note ok = xf_insert_ok [OF i, of k]
  show "xf_inv (xf_insert k f)" "set (xf_keys f) \<subseteq> set (xf_keys (xf_insert k f))"
    "k \<in> set (xf_keys (xf_insert k f)) \<or> xf_insert k f = f" using ok by blast+
  show "xf_inv (xf_clear f)" by (simp add: xf_inv_def xf_clear_def)
qed (simp_all add: xf_inv_def xf_clear_def)

section \<open>A single key always peels\<close>

lemma peel_no_degree:
  assumes "\<forall>s < xf_slot_count. cnt ! s = 0"
  shows "set queue \<subseteq> {..<xf_slot_count} \<Longrightarrow> xf_peel seed ((cnt, kx), queue, qt) order = order"
  using assms by (induction queue) (simp_all add: xf_peel.simps)

lemma try_peel_single: "xf_try_peel seed [k] \<noteq> None"
proof -
  obtain cnt kx where st: "xf_incidence seed [k] = (cnt, kx)" by fastforce
  have deg: "xf_degrees seed [k] (cnt, kx)" using degrees_incidence [of seed "[k]"] st by simp
  then have v: "cnt ! s = (if s \<in> set (xf_slots seed k) then 1 else 0)"
      "s \<in> set (xf_slots seed k) \<Longrightarrow> kx ! s = k" if "s < xf_slot_count" for s
    using that by (auto simp: xf_degrees_def xf_incident_def xor_all_def)
  define queue where "queue = filter (\<lambda>s. cnt ! s = 1) [0..<xf_slot_count]"
  have h: "xf_h0 (xf_mix k seed) \<in> set (xf_slots seed k)" by (simp add: xf_slots_def Let_def)
  then have "xf_h0 (xf_mix k seed) \<in> set queue"
    using v(1) xf_slots_bound [OF h] by (simp add: queue_def)
  then obtain s rest where q: "queue = s # rest" by (cases queue) auto
  then have "s \<in> set queue" "set rest \<subseteq> set queue" by auto
  then have s: "s < xf_slot_count" "cnt ! s = 1" "set rest \<subseteq> {..<xf_slot_count}" by (auto simp: queue_def)
  then have k: "kx ! s = k" using v [of s] by (auto split: if_splits)
  obtain cnt' kx' queue' qt' where d: "fold (xf_drop_edge k) (xf_slots seed k) ((cnt, kx), rest, length queue) = ((cnt', kx'), queue', qt')"
    by (metis prod.exhaust)
  have "xf_degrees seed [] (cnt', kx')" using degrees_remove [OF deg, of k rest "length queue"] d by simp
  then have zero: "\<forall>s < xf_slot_count. cnt' ! s = 0" by (simp add: xf_degrees_def)
  have "set queue' \<subseteq> {..<xf_slot_count}" using xf_drop_edges_set [OF d] s(3) xf_slots_bound by auto
  then have "xf_peel seed ((cnt, kx), queue, length queue) [] = [(k, s)]"
    using q s(2) k d peel_no_degree [OF zero] by (simp add: xf_peel.simps [of seed cnt kx "s # rest"])
  then show ?thesis using st by (simp add: xf_try_peel_def queue_def Let_def)
qed

lemma insert_first: "xf_keys (xf_insert k xf_init) = [k]"
proof -
  obtain tab where "xf_try_peel (xf_seed_for_attempt 0) [k] = Some tab" using try_peel_single by auto
  then have "xf_rebuild 0 [k] = Some (tab, xf_seed_for_attempt 0)"
    by (simp add: xf_rebuild.simps [of 0] xf_max_build_attempts_def)
  then show ?thesis
    by (simp add: xf_insert_def xf_init_def xf_search.simps insert_at_def xf_key_capacity_def
        xf_slot_count_def xf_third_def Let_def)
qed

section \<open>Properties\<close>

text \<open>C20: The xor filter never loses a stored key: every key in its key list probes true, however many
  rebuilds later insertions cause; and an insertion either stores its key for good or leaves the
  filter unchanged (capacity reached, or no seed of the 16 peels).\<close>
theorem xor_no_loss:
  assumes "xf_inv f"
  shows "(k \<in> set (xf_keys f) \<longrightarrow> xf_probe (fold xf_insert ks f) k)
    \<and> (xf_probe (fold xf_insert ks (xf_insert k f)) k \<or> xf_insert k f = f)"
  using xor.never_lost [OF assms] xor.accepted_or_unchanged [OF assms] by blast

lemma xf_init_inv: "xf_inv xf_init"
  by (simp add: xf_inv_def xf_init_def)

theorem xor_no_loss_witness:
  "xf_keys (xf_insert 42 xf_init) = [42] \<and> xf_probe (fold xf_insert [1, 2, 3] (xf_insert 42 xf_init)) 42"
proof -
  have "xf_inv (xf_insert 42 xf_init)" using xf_insert_ok [OF xf_init_inv] by blast
  from xor_no_loss [OF this, of 42 "[1, 2, 3]"] show ?thesis by (simp add: insert_first)
qed

text \<open>C18: Whenever peeling succeeds for a seed, the table it fills gives every key of the list its
  fingerprint as the xor of its three cells: the reverse order of peeling never overwrites a cell
  that an already filled key uses.\<close>
theorem xor_peel_fills:
  assumes "xf_try_peel seed keys = Some tab" "distinct keys" "length keys \<le> xf_key_capacity" "k \<in> set keys"
  shows "xf_probe \<lparr>xf_table = tab, xf_keys = keys, xf_seed = seed\<rparr> k"
proof -
  have "length keys < 2 ^ 16" using assms(3) by (simp add: xf_key_capacity_def xf_slot_count_def xf_third_def)
  then show ?thesis using try_peel_ok(2) [OF assms(1,2)] assms(4) by (simp add: xf_probe_sum)
qed

theorem xor_peel_fills_witness:
  "\<exists>tab. xf_try_peel 7 [42] = Some tab \<and> xf_probe \<lparr>xf_table = tab, xf_keys = [42], xf_seed = 7\<rparr> 42"
proof -
  obtain tab where t: "xf_try_peel 7 [42] = Some tab" using try_peel_single by auto
  from xor_peel_fills [OF this, of 42] t show ?thesis
    by (simp add: xf_key_capacity_def xf_slot_count_def xf_third_def)
qed

end
