(* ===== verification/Spec2Isabelle.thy ===== *)
theory Spec2Isabelle imports
  Q1_Fifo_Lifo Q1_Append_Tombstone Q1_Cow Q1_Epoch_Batched Q1_Ordered Q1_Ring Q1_Spsc_Concurrent Q1_Mpmc_Concurrent
  Q2_Flush Sorted_Search Hash_Open Eytzinger Hash_Chain Hash_Swiss Tree_Pool Skip_List BTree_Map Hot_Update Start_Update Succinct Filter_Bloom Filter_Cuckoo Filter_Xor
begin

text \<open>
  A model of the organ library of the cache engine (\<^verbatim>\<open>src/libs/cache_engine/organ_axes\<close>) and of the
  succinct structures it uses (\<^verbatim>\<open>src/libs/common/succinct\<close>).

  \<^bold>\<open>The program.\<close>  The engine composes search containers from exchangeable ``organs'', one per axis: a
  queueing axis (axis Q1: buffers in front of the container), a flush axis (axis Q2: when to empty a
  buffer), a lookup axis (storage organs and the traversals that search them), and a filter axis
  (approximate membership).  Organs of one axis obey one concept, so that the engine can permute
  them; that exchangeability is the main claim of the development.

  \<^bold>\<open>Theories.\<close>
  \<^item> \<open>CE_Prelude\<close>: integer types, generic lemmas on lists, words and powers of two.
  \<^item> \<open>Buffer_Contract\<close>: the Q1 concept as locales, over an abstract queue with a placing discipline
    (first in first out, last in first out, by priority); the statistics counters.
    \<open>Q1_Fifo_Lifo\<close>, \<open>Q1_Append_Tombstone\<close>, \<open>Q1_Cow\<close>, \<open>Q1_Epoch_Batched\<close>, \<open>Q1_Ordered\<close>, \<open>Q1_Ring\<close> (over
    \<open>Ring_Slice\<close>), \<open>Q1_Spsc\<close>, \<open>Q1_Mpmc\<close>: the buffers of \<^verbatim>\<open>axis_q1_queuing_*.hpp\<close>, one record per class,
    one definition per member function, each an interpretation of the contract.
    \<open>Q1_Spsc_Concurrent\<close>: all interleavings of one producer and one consumer of the SPSC ring.
    \<open>Q1_Mpmc\<close> is for fewer than \<open>2\<^sup>6\<^sup>3\<close> calls on a fresh queue (the contract \<open>q1_budgeted\<close>), because the code
    subtracts its positions as signed numbers, which is undefined when they straddle \<open>2\<^sup>6\<^sup>3\<close>.
    \<open>Q1_Mpmc_Concurrent\<close>: all interleavings of any number of threads on the MPMC queue, spurious failures of
    \<^verbatim>\<open>compare_exchange_weak\<close> included, for capacities \<open>2\<^sup>1\<close> to \<open>2\<^sup>6\<^sup>2\<close> and fewer than \<open>2\<^sup>6\<^sup>2\<close> accepted values, so
    that no position comes round while a thread still holds an old one; safety, and progress of a thread that
    runs alone.
  \<^item> \<open>Q2_Flush\<close>: the flush policies of \<^verbatim>\<open>axis_q2_queuing_*.hpp\<close>.  The \<^verbatim>\<open>double\<close> arithmetic of the adaptive
    policy rounds each operation by a parameter, assumed monotone and exact on representable numbers.
  \<^item> \<open>Lookup_Contract\<close>: the lookup concept as locales over a finite map, with mementos and range scans.
    \<open>Slot_Search\<close> and \<open>Sorted_Search\<close>: \<^verbatim>\<open>RawSlotStore\<close> and the traversals of
    \<^verbatim>\<open>lookup/composable\<close> that work on it.  \<open>Eytzinger\<close>: the layout cached beside the sorted slots, a
    refinement of the sorted store.  \<open>Hash_Open\<close>: the open-addressing hash organ.
  \<^item> \<open>Pool_Contract\<close>: the lookup concept for organs whose operations may not return on a broken pool or
    may throw when it is full.  \<open>Tree_Pool\<close> (binary search tree, its three index widths), \<open>Skip_List\<close>
    (with the generator of its tower heights), \<open>Hash_Chain\<close> (chained hashing) and \<open>Hash_Swiss\<close> (control
    bytes and group probing) interpret it: every sequence of calls returns and answers like a map.
    \<open>BTree_Nodes\<close> (the node pool and the moves between neighbouring nodes), \<open>BTree_Organ\<close> (the organ of
    \<^verbatim>\<open>btree_traversal_organ.hpp\<close>, subtrees and the division of the pool), \<open>BTree_Insert\<close>,
    \<open>BTree_Remove\<close> and \<open>BTree_Map\<close>: the B-tree, whose 32-bit node indices are not checked, so that its
    contract \<open>budget_map\<close> is for fewer than \<open>2\<^sup>3\<^sup>1\<close> calls.
    \<open>Hot_Pool\<close> (the code), \<open>Crit_Bit\<close> (crit-bit trees), \<open>Hot_Map\<close> and \<open>Hot_Update\<close>: the HOT/Patricia organ,
    whose references keep 56 bits for the index, likewise for at most \<open>2\<^sup>5\<^sup>6\<close> calls.
    \<open>Key_Prefix\<close>: \<^verbatim>\<open>ByteWiseKeyPrefix\<close> of \<^verbatim>\<open>path_compression\<close>.  \<open>Radix_Tree\<close>: trees over the bytes of a key, and
    the edits a trie organ makes, on a pool seen as a map of nodes.  \<open>Start_Pool\<close> (the code), \<open>Start_Map\<close> and
    \<open>Start_Update\<close>: the START organ on these trees, for at most \<open>2\<^sup>5\<^sup>6\<close> calls as above.
  \<^item> \<open>Filter_Contract\<close>: membership without false negatives as locales; \<open>Filter_Bloom\<close>,
    \<open>Filter_Cuckoo\<close>, \<open>Filter_Xor\<close>: the filters of \<^verbatim>\<open>filter_axis\<close>.
  \<^item> \<open>Succinct\<close>: \<^verbatim>\<open>BitVector\<close> with its rank index and \<^verbatim>\<open>Louds\<close>.

  \<^bold>\<open>Conventions.\<close>  Keys, values, hashes and counters are machine words of the code's width and wrap;
  sizes and indices (\<^verbatim>\<open>size_t\<close>) are natural numbers, because they stay below the length of a container
  (the bit counts of \<open>Succinct\<close>, which need not, are reduced modulo \<open>2\<^sup>6\<^sup>4\<close> where the code adds).  Undefined
  behaviour of signed or floating-point conversions is a result of its own, which the properties exclude.
  Standard containers are lists, in the order the code keeps them; an object is a record and a member
  function returns the updated record.  A function that may throw returns a sum, a read that may leave
  its buffer an option, and a loop that may not end is a \<^theory_text>\<open>partial_function\<close> into options.  All
  other loops are total recursive functions; the guards added for totality (\<open>0 < bound\<close> in \<open>gallop\<close>,
  \<open>0 < arity\<close> in \<open>kary_narrow\<close>) exclude arguments the code excludes at its call or at compile time.
  The build with statistics is modelled.

  \<^bold>\<open>Not modelled.\<close>  Allocation and its failure (the model's containers are values), observers (their
  call-backs are empty), names, registries and compile-time flags, floating-point summaries
  (\<^verbatim>\<open>avg_occupancy\<close>, \<^verbatim>\<open>bits_per_key\<close>) and the interpolation search that needs them, the SIMD matchers of
  the swiss table, fused multiply-add contraction, the trie organs ART, masstree, wormhole and SuRF of the
  lookup axis, memory orders weaker than sequential consistency, the remaining axes (hardware hints, device I/O, telemetry), the build
  and measurement tooling, and vendored code.
\<close>

section \<open>Exchangeable organs\<close>

text \<open>C5: The five unbounded FIFO organs of the queueing axis (\<^verbatim>\<open>FIFOQueueBuffer\<close>,
  \<^verbatim>\<open>AppendOnlyBuffer\<close>, \<^verbatim>\<open>TombstoneBuffer\<close>, \<^verbatim>\<open>CopyOnWriteBuffer\<close>, \<^verbatim>\<open>BatchedInsertBuffer\<close> with any
  batch size) are exchangeable: on every sequence of \<^verbatim>\<open>put\<close>, \<^verbatim>\<open>get\<close> and \<^verbatim>\<open>clear\<close> they return
  the same results, those of the abstract FIFO queue.\<close>
theorem fifo_organs_exchangeable:
  "fst (q1_run fifo_put fifo_get fifo_clear ops fifo_init) = fst (spec_run place_last ops [])
   \<and> fst (q1_run ao_put ao_get ao_clear ops ao_init) = fst (spec_run place_last ops [])
   \<and> fst (q1_run tb_put tb_get tb_clear ops tb_init) = fst (spec_run place_last ops [])
   \<and> fst (q1_run cow_put cow_get cow_clear ops (cow_init h)) = fst (spec_run place_last ops [])
   \<and> fst (q1_run bi_put bi_get bi_clear ops (bi_init n)) = fst (spec_run place_last ops [])"
proof (intro conjI)
  show "fst (q1_run fifo_put fifo_get fifo_clear ops fifo_init) = fst (spec_run place_last ops [])"
    by (rule fifo.run_outputs) (simp_all add: fifo_init_def)
  show "fst (q1_run ao_put ao_get ao_clear ops ao_init) = fst (spec_run place_last ops [])"
    by (rule append_only.run_outputs) (simp_all add: ao_init_def ao_inv_def ao_content_def)
  show "fst (q1_run tb_put tb_get tb_clear ops tb_init) = fst (spec_run place_last ops [])"
    by (rule tombstone.run_outputs) (simp_all add: tb_init_ok)
  show "fst (q1_run cow_put cow_get cow_clear ops (cow_init h)) = fst (spec_run place_last ops [])"
    by (rule cow.run_outputs) (simp_all add: cow_init_def make_snapshot_def cow_inv_def cow_content_def)
  show "fst (q1_run bi_put bi_get bi_clear ops (bi_init n)) = fst (spec_run place_last ops [])"
    by (rule batched.run_outputs) (simp_all add: bi_init_ok)
qed

text \<open>C33: The two stack organs, \<^verbatim>\<open>LIFOStackBuffer\<close> and \<^verbatim>\<open>DeltaChainBuffer\<close>, are exchangeable: on every
  sequence of calls both return the results of the abstract stack, and a filled stack drains in
  reverse order.\<close>
theorem lifo_organs_exchangeable:
  "fst (q1_run lifo_put lifo_get lifo_clear ops lifo_init) = fst (spec_run place_first ops [])
   \<and> fst (q1_run delta_put delta_get delta_clear ops delta_init) = fst (spec_run place_first ops [])
   \<and> fst (drain lifo_get (length vs) (put_all lifo_put vs lifo_init)) = rev vs
   \<and> fst (drain delta_get (length vs) (put_all delta_put vs delta_init)) = rev vs"
proof (intro conjI)
  have l: "lifo_content lifo_init = []" and d: "delta_content delta_init = []"
    by (simp_all add: lifo_init_def lifo_content_def delta_init_def delta_content_def)
  show "fst (q1_run lifo_put lifo_get lifo_clear ops lifo_init) = fst (spec_run place_first ops [])"
    using l by (rule lifo.run_outputs [OF TrueI])
  show "fst (q1_run delta_put delta_get delta_clear ops delta_init) = fst (spec_run place_first ops [])"
    using d by (rule delta.run_outputs [OF TrueI])
  show "fst (drain lifo_get (length vs) (put_all lifo_put vs lifo_init)) = rev vs"
    using l by (intro lifo.lifo_round_trip) simp_all
  show "fst (drain delta_get (length vs) (put_all delta_put vs delta_init)) = rev vs"
    using d by (intro delta.lifo_round_trip) simp_all
qed

text \<open>C34: The statistics account for every element: after any sequence of puts and gets on a fresh buffer,
  puts minus deliveries (minus evictions, for the ring) is the number of stored elements, for nine
  organs of the axis.  The \<^verbatim>\<open>LockFreeMPMCBuffer\<close> among them has a capacity \<open>2 ^ k\<close> with \<open>0 < k\<close> (capacity 1
  does not work), and its sequence has fewer than \<open>2 ^ 63\<close> calls, so that its positions stay in the signed range.\<close>
theorem statistics_balance:
  assumes "Clear \<notin> set ops" "br_init cap = Inr br" "sp_init cap = Inr sp" "mp_init (2 ^ k) = Inr mp" "0 < k" "k < 64"
  shows "flow False (q1_stats (snd (q1_run fifo_put fifo_get fifo_clear ops fifo_init)))
        = word_of_nat (fifo_size (snd (q1_run fifo_put fifo_get fifo_clear ops fifo_init)))
    \<and> flow False (q1_stats (snd (q1_run lifo_put lifo_get lifo_clear ops lifo_init)))
        = word_of_nat (lifo_size (snd (q1_run lifo_put lifo_get lifo_clear ops lifo_init)))
    \<and> flow False (q1_stats (snd (q1_run delta_put delta_get delta_clear ops delta_init)))
        = word_of_nat (delta_size (snd (q1_run delta_put delta_get delta_clear ops delta_init)))
    \<and> flow False (q1_stats (snd (q1_run ao_put ao_get ao_clear ops ao_init)))
        = word_of_nat (ao_size (snd (q1_run ao_put ao_get ao_clear ops ao_init)))
    \<and> flow False (q1_stats (snd (q1_run tb_put tb_get tb_clear ops tb_init)))
        = word_of_nat (tb_size (snd (q1_run tb_put tb_get tb_clear ops tb_init)))
    \<and> flow False (q1_stats (snd (q1_run ph_put ph_get ph_clear ops ph_init)))
        = word_of_nat (ph_size (snd (q1_run ph_put ph_get ph_clear ops ph_init)))
    \<and> flow True (q1_stats (snd (q1_run br_put br_get br_clear ops br)))
        = word_of_nat (br_size (snd (q1_run br_put br_get br_clear ops br)))
    \<and> flow False (q1_stats (snd (q1_run sp_put sp_get sp_clear ops sp)))
        = word_of_nat (sp_size (snd (q1_run sp_put sp_get sp_clear ops sp)))
    \<and> (length ops < 2 ^ 63 \<longrightarrow> (\<exists>rs mp'. q1_try mp_put mp_get mp_clear ops mp = Some (rs, mp')
        \<and> flow False (q1_stats mp') = word_of_nat (mp_size mp')))"
proof (intro conjI)
  note c = assms(1)
  show "flow False (q1_stats (snd (q1_run fifo_put fifo_get fifo_clear ops fifo_init)))
        = word_of_nat (fifo_size (snd (q1_run fifo_put fifo_get fifo_clear ops fifo_init)))"
    using fifo.fresh_balance [OF _ _ _ c refl, of fifo_init] by (simp add: fifo_init_def fifo_size_def)
  show "flow False (q1_stats (snd (q1_run lifo_put lifo_get lifo_clear ops lifo_init)))
        = word_of_nat (lifo_size (snd (q1_run lifo_put lifo_get lifo_clear ops lifo_init)))"
    using lifo.fresh_balance [OF _ _ _ c refl, of lifo_init]
    by (simp add: lifo_init_def lifo_size_def lifo_content_def)
  show "flow False (q1_stats (snd (q1_run delta_put delta_get delta_clear ops delta_init)))
        = word_of_nat (delta_size (snd (q1_run delta_put delta_get delta_clear ops delta_init)))"
    using delta.fresh_balance [OF _ _ _ c refl, of delta_init]
    by (simp add: delta_init_def delta_size_def delta_content_def)
  have ao: "ao_inv ao_init" "ao_content ao_init = []" "q1_stats ao_init = stats_zero"
    by (simp_all add: ao_init_def ao_inv_def ao_content_def)
  show "flow False (q1_stats (snd (q1_run ao_put ao_get ao_clear ops ao_init)))
        = word_of_nat (ao_size (snd (q1_run ao_put ao_get ao_clear ops ao_init)))"
    using append_only.fresh_balance [OF ao c refl] append_only.size_content [OF append_only.run_inv [OF ao(1)]] by simp
  have tb: "q1_stats tb_init = stats_zero" by (simp add: tb_init_def)
  show "flow False (q1_stats (snd (q1_run tb_put tb_get tb_clear ops tb_init)))
        = word_of_nat (tb_size (snd (q1_run tb_put tb_get tb_clear ops tb_init)))"
    using tombstone.fresh_balance [OF tb_init_ok tb c refl]
      tombstone.size_content [OF tombstone.run_inv [OF tb_init_ok(1)]] by simp
  have ph: "ph_inv ph_init" "ph_heap ph_init = []" "q1_stats ph_init = stats_zero"
    by (simp_all add: ph_init_def ph_inv_def)
  show "flow False (q1_stats (snd (q1_run ph_put ph_get ph_clear ops ph_init)))
        = word_of_nat (ph_size (snd (q1_run ph_put ph_get ph_clear ops ph_init)))"
    using prio.fresh_balance [OF ph c refl] by (simp add: ph_size_def)
  note br = br_init_ok [OF assms(2)]
  show "flow True (q1_stats (snd (q1_run br_put br_get br_clear ops br)))
        = word_of_nat (br_size (snd (q1_run br_put br_get br_clear ops br)))"
    using ring.fresh_balance [OF br c refl] by (simp add: br_content_def br_size_def)
  have sp: "sp_inv cap sp" "sp_content sp = []" "q1_stats sp = stats_zero" using sp_init_ok [OF assms(3)] by auto
  show "flow False (q1_stats (snd (q1_run sp_put sp_get sp_clear ops sp)))
        = word_of_nat (sp_size (snd (q1_run sp_put sp_get sp_clear ops sp)))"
    using spsc.fresh_balance [OF sp c refl] by (simp add: sp_content_length)
  note mp = mp_init_ok [OF assms(4,6)]
  show "length ops < 2 ^ 63 \<longrightarrow> (\<exists>rs mp'. q1_try mp_put mp_get mp_clear ops mp = Some (rs, mp')
        \<and> flow False (q1_stats mp') = word_of_nat (mp_size mp'))"
  proof
    assume "length ops < 2 ^ 63"
    then have "mp_inv k (length ops) mp \<and> 0 < k" using mp(1) assms(5) by simp
    from mpmc.try_balance [OF this mp(2,3) c] obtain rs mp' where "q1_try mp_put mp_get mp_clear ops mp = Some (rs, mp')"
      "mp_inv k 0 mp'" "flow False (q1_stats mp') = word_of_nat (length (mp_content mp'))" by blast
    then show "\<exists>rs mp'. q1_try mp_put mp_get mp_clear ops mp = Some (rs, mp')
        \<and> flow False (q1_stats mp') = word_of_nat (mp_size mp')" using mp_inv_size by auto
  qed
qed

theorem statistics_balance_witness:
  "\<exists>br sp mp. br_init 2 = Inr br \<and> sp_init 2 = Inr sp \<and> mp_init (2 ^ 1) = Inr mp
    \<and> flow True (q1_stats (snd (q1_run br_put br_get br_clear [Put 1, Put 2, Put 3, Get] br)))
        = word_of_nat (br_size (snd (q1_run br_put br_get br_clear [Put 1, Put 2, Put 3, Get] br)))"
proof -
  obtain br sp where b: "br_init 2 = Inr br" "sp_init 2 = Inr sp" by (simp add: br_init_def sp_init_def)
  have "(2 :: u64) AND 1 = 0" by (simp add: and_one_eq)
  then obtain mp where m: "mp_init (2 ^ 1) = Inr mp" by (simp add: mp_init_def mp_validate_capacity_def)
  have "Clear \<notin> set [Put 1, Put 2, Put 3, Get]" by simp
  from statistics_balance [OF this b m] b m show ?thesis by auto
qed

section \<open>Lookup organs\<close>

text \<open>C7: The search organs are exchangeable: from an empty container, every sequence of \<^verbatim>\<open>insert\<close>,
  \<^verbatim>\<open>erase\<close>, \<^verbatim>\<open>lookup\<close>, \<^verbatim>\<open>occupied_count\<close> and \<^verbatim>\<open>clear\<close> returns the results of a finite map, for the
  linear, binary, sorted-vector, galloping, k-ary and direct-address organs on the slot store and for
  the open-addressing hash organ with each of its load factors.\<close>
theorem lookup_organs_exchangeable:
  "fst (map_run linear_lookup linear_insert linear_erase slot_count slots_clear ops []) = fst (spec_map_run ops Map.empty)
   \<and> fst (map_run binary_lookup sorted_insert sorted_erase slot_count slots_clear ops []) = fst (spec_map_run ops Map.empty)
   \<and> fst (map_run vector_lookup sorted_insert sorted_erase slot_count slots_clear ops []) = fst (spec_map_run ops Map.empty)
   \<and> fst (map_run galloping_lookup sorted_insert sorted_erase slot_count slots_clear ops []) = fst (spec_map_run ops Map.empty)
   \<and> fst (map_run (kary_lookup arity) sorted_insert sorted_erase slot_count slots_clear ops []) = fst (spec_map_run ops Map.empty)
   \<and> fst (map_run direct_lookup sorted_insert sorted_erase slot_count slots_clear ops []) = fst (spec_map_run ops Map.empty)
   \<and> fst (map_run oa_lookup (oa_insert oa_lf50) oa_erase oa_size oa_clear ops oa_init) = fst (spec_map_run ops Map.empty)
   \<and> fst (map_run oa_lookup (oa_insert oa_lf70) oa_erase oa_size oa_clear ops oa_init) = fst (spec_map_run ops Map.empty)
   \<and> fst (map_run oa_lookup (oa_insert oa_lf90) oa_erase oa_size oa_clear ops oa_init) = fst (spec_map_run ops Map.empty)"
proof (intro conjI)
  have l: "linear_inv []" "linear_lookup [] = Map.empty" by (simp_all add: linear_inv_def linear_lookup_map fun_eq_iff)
  have s: "sorted_inv []" by (simp add: sorted_inv_def)
  show "fst (map_run linear_lookup linear_insert linear_erase slot_count slots_clear ops []) = fst (spec_map_run ops Map.empty)"
    by (rule linear.run_outputs [OF l])
  show "fst (map_run binary_lookup sorted_insert sorted_erase slot_count slots_clear ops []) = fst (spec_map_run ops Map.empty)"
    using binary.look_eq [OF s] by (intro binary.run_outputs [OF s]) simp
  show "fst (map_run vector_lookup sorted_insert sorted_erase slot_count slots_clear ops []) = fst (spec_map_run ops Map.empty)"
    using vector.look_eq [OF s] by (intro vector.run_outputs [OF s]) simp
  show "fst (map_run galloping_lookup sorted_insert sorted_erase slot_count slots_clear ops []) = fst (spec_map_run ops Map.empty)"
    using galloping.look_eq [OF s] by (intro galloping.run_outputs [OF s]) simp
  show "fst (map_run (kary_lookup arity) sorted_insert sorted_erase slot_count slots_clear ops []) = fst (spec_map_run ops Map.empty)"
    using kary.look_eq [OF s] by (intro kary.run_outputs [OF s]) simp
  show "fst (map_run direct_lookup sorted_insert sorted_erase slot_count slots_clear ops []) = fst (spec_map_run ops Map.empty)"
    using direct.look_eq [OF s] by (intro direct.run_outputs [OF s]) simp
  show "fst (map_run oa_lookup (oa_insert oa_lf50) oa_erase oa_size oa_clear ops oa_init) = fst (spec_map_run ops Map.empty)"
    by (rule oa50.run_outputs [OF oa_init_ok])
  show "fst (map_run oa_lookup (oa_insert oa_lf70) oa_erase oa_size oa_clear ops oa_init) = fst (spec_map_run ops Map.empty)"
    by (rule oa70.run_outputs [OF oa_init_ok])
  show "fst (map_run oa_lookup (oa_insert oa_lf90) oa_erase oa_size oa_clear ops oa_init) = fst (spec_map_run ops Map.empty)"
    by (rule oa90.run_outputs [OF oa_init_ok])
qed

text \<open>C25: A memento taken with \<^verbatim>\<open>save_state\<close> carries the whole map and moves between traversal organs:
  after any history of the source and of the target, restoring the memento of a linear-scan container
  into a sorted one (searched with any arity), and the other way round, reproduces the saved map.\<close>
theorem memento_moves_between_organs:
  "kary_lookup arity (restore sorted_insert slots_clear
       (save_state (snd (map_run linear_lookup linear_insert linear_erase slot_count slots_clear ops [])))
       (snd (map_run binary_lookup sorted_insert sorted_erase slot_count slots_clear ops' [])))
     = linear_lookup (snd (map_run linear_lookup linear_insert linear_erase slot_count slots_clear ops []))
   \<and> linear_lookup (restore linear_insert slots_clear
       (save_state (snd (map_run binary_lookup sorted_insert sorted_erase slot_count slots_clear ops' [])))
       (snd (map_run linear_lookup linear_insert linear_erase slot_count slots_clear ops [])))
     = binary_lookup (snd (map_run binary_lookup sorted_insert sorted_erase slot_count slots_clear ops' []))"
proof -
  define s where "s = snd (map_run linear_lookup linear_insert linear_erase slot_count slots_clear ops [])"
  define t where "t = snd (map_run binary_lookup sorted_insert sorted_erase slot_count slots_clear ops' [])"
  have s: "linear_inv s" unfolding s_def by (rule linear.run_inv) (simp add: linear_inv_def)
  have t: "sorted_inv t" unfolding t_def by (rule binary.run_inv) (simp add: sorted_inv_def)
  have "kary_lookup arity (restore sorted_insert slots_clear (save_state s) t) = linear_lookup s"
    using kary.restore_map(2) [OF t linear.entries_distinct [OF s]] linear.entries_lookup [OF s] by simp
  moreover have "linear_lookup (restore linear_insert slots_clear (save_state t) s) = binary_lookup t"
    using linear.restore_map(2) [OF s binary.entries_distinct [OF t]] binary.entries_lookup [OF t] by simp
  ultimately show ?thesis unfolding s_def t_def by blast
qed

section \<open>Filters\<close>

text \<open>C31: The static \<^verbatim>\<open>filter_probe_scan\<close> functions of the Bloom, cuckoo and xor filters only ever read inside
  the buffer they are given, for every buffer (shorter than \<open>2 ^ 61\<close> bytes) and every query sequence,
  although their indices are hash values.  On buffers that are too short to hold a slot (no byte for the
  Bloom and the cuckoo filter, fewer than three for the xor filter) they read nothing and return 0.\<close>
theorem probe_scans_in_bounds:
  assumes "length buf * 8 < 2 ^ 64"
  shows "bl_probe_scan buf queries \<noteq> None \<and> cf_probe_scan buf queries \<noteq> None \<and> xf_probe_scan buf queries \<noteq> None
    \<and> (buf = [] \<longrightarrow> bl_probe_scan buf queries = Some 0 \<and> cf_probe_scan buf queries = Some 0)
    \<and> (length buf < 3 \<longrightarrow> xf_probe_scan buf queries = Some 0)"
proof (intro conjI)
  show "bl_probe_scan buf queries \<noteq> None"
    using sum_hits_Some [of "bl_scan_hit buf"] bl_scan_hit_Some [OF _ assms] by (simp add: bl_probe_scan_def)
  have "cf_scan_hit buf key \<noteq> None" if "buf \<noteq> []" for key
    using that by (auto simp: cf_scan_hit_def read_at_def Let_def)
  then show "cf_probe_scan buf queries \<noteq> None"
    using sum_hits_Some [of "cf_scan_hit buf"] by (simp add: cf_probe_scan_def)
  have "xf_scan_hit buf key \<noteq> None" if n: "3 \<le> length buf" for key
  proof -
    define third where "third = length buf div 3"
    have t: "0 < third" "3 * third \<le> length buf" "0 < length buf - 2 * third" using n by (simp_all add: third_def)
    have b: "x mod third < third" "y mod (length buf - 2 * third) < length buf - 2 * third" for x y
      using t(1,3) by simp_all
    have "unat (key * 2654435761) mod third < length buf" "third + unat (key * 40503) mod third < length buf"
      "2 * third + unat (key * 0x85EBCA6B) mod (length buf - 2 * third) < length buf"
      using b(1) [of "unat (key * 2654435761)"] b(1) [of "unat (key * 40503)"]
        b(2) [of "unat (key * 0x85EBCA6B)"] t(2,3) by linarith+
    then show ?thesis unfolding xf_scan_hit_def Let_def third_def [symmetric] by (simp add: read_at_def)
  qed
  then show "xf_probe_scan buf queries \<noteq> None"
    using sum_hits_Some [of "xf_scan_hit buf"] by (simp add: xf_probe_scan_def)
qed (simp_all add: bl_probe_scan_def cf_probe_scan_def xf_probe_scan_def)

theorem probe_scans_in_bounds_witness:
  "xf_probe_scan [7, 8, 9] [1, 200] \<noteq> None \<and> xf_probe_scan [7, 8] [1, 200] = Some 0 \<and> bl_probe_scan [] [1] = Some 0"
  using probe_scans_in_bounds [of "[7, 8, 9]" "[1, 200]"] probe_scans_in_bounds [of "[7, 8]" "[1, 200]"]
    probe_scans_in_bounds [of "[]" "[1]"] by simp

end
